(* ===== verification/Prelude.thy ===== *)
theory Prelude
  imports "HOL-Library.Word" "HOL-Library.Monad_Syntax"
begin

unbundle bit_operations_syntax

section \<open>Shared types, memory model and generic lemmas\<close>

text \<open>
  What every component of the storage engine uses: the return codes of
  \<^verbatim>\<open>src/observer/common/rc.h\<close>, byte memory with 32-bit fields at byte offsets (the struct overlays
  \<^verbatim>\<open>(PageHeader *)data\<close> and \<^verbatim>\<open>(BPFileHeader *)data\<close> of the sources), and the lemmas on lists, options
  and searches that several component theories share.

  Conventions of the whole development:
  \<^item> a function that can stop the process (a failing \<open>ASSERT\<close>) or run into undefined behaviour
    returns an \<^typ>\<open>'a option\<close>, \<^const>\<open>None\<close> being that outcome;
  \<^item> a function that reports an error returns the \<open>RC\<close> beside its new state;
  \<^item> \<open>int32_t\<close> fields that live in page memory are kept at their width.
\<close>

named_theorems mem_simps \<open>reads of 32-bit fields and bytes after writes\<close>
named_theorems rc_simps \<open>return-code predicates\<close>

subsection \<open>Return codes\<close>

datatype (plugins only: code size) RC = SUCCESS | INVALID_ARGUMENT | UNIMPLENMENT | SQL_SYNTAX | INTERNAL | NOMEM | NOTFOUND
  | EMPTY | BUFFERPOOL_OPEN | BUFFERPOOL_NOBUF | BUFFERPOOL_INVALID_PAGE_NUM | RECORD_OPENNED
  | RECORD_INVALID_RID | RECORD_INVALID_KEY | RECORD_DUPLICATE_KEY | RECORD_NOMEM | RECORD_EOF
  | RECORD_NOT_EXIST | RECORD_INVISIBLE | SCHEMA_DB_EXIST | SCHEMA_DB_NOT_EXIST
  | SCHEMA_DB_NOT_OPENED | SCHEMA_TABLE_NOT_EXIST | SCHEMA_TABLE_EXIST | SCHEMA_FIELD_NOT_EXIST
  | SCHEMA_FIELD_MISSING | SCHEMA_FIELD_TYPE_MISMATCH | SCHEMA_INDEX_NAME_REPEAT | IOERR_READ
  | IOERR_WRITE | IOERR_ACCESS | IOERR_OPEN | IOERR_CLOSE | IOERR_SEEK | IOERR_TOO_LONG
  | IOERR_SYNC | LOCKED_UNLOCK | LOCKED_NEED_WAIT | LOCKED_CONCURRENCY_CONFLICT | FILE_EXIST
  | FILE_NOT_EXIST | FILE_NAME | FILE_BOUND | FILE_CREATE | FILE_OPEN | FILE_NOT_OPENED
  | FILE_CLOSE | FILE_REMOVE | FILE_SEEK | FILE_READ | FILE_WRITE | VARIABLE_NOT_EXISTS
  | VARIABLE_NOT_VALID | LOGBUF_FULL

definition OB_SUCC :: "RC \<Rightarrow> bool" where
  "OB_SUCC rc \<longleftrightarrow> rc = SUCCESS"

definition OB_FAIL :: "RC \<Rightarrow> bool" where
  "OB_FAIL rc \<longleftrightarrow> rc \<noteq> SUCCESS"

lemma OB_SUCC_iff [simp, rc_simps]: "OB_SUCC rc \<longleftrightarrow> rc = SUCCESS"
  by (simp add: OB_SUCC_def)

lemma OB_FAIL_iff [simp, rc_simps]: "OB_FAIL rc \<longleftrightarrow> rc \<noteq> SUCCESS"
  by (simp add: OB_FAIL_def)

subsection \<open>Byte memory\<close>

text \<open>
  A block of \<^verbatim>\<open>char\<close> memory is a function from offsets to bytes. Whether an offset lies inside
  the block is a separate statement, made by the bounds theorems of each component.
\<close>

type_synonym byte = "8 word"
type_synonym mem = "nat \<Rightarrow> byte"

abbreviation zero_mem :: mem where
  "zero_mem \<equiv> (\<lambda>_. 0)"

definition memcpy :: "mem \<Rightarrow> nat \<Rightarrow> byte list \<Rightarrow> nat \<Rightarrow> mem" where
  "memcpy m off src n = (\<lambda>i. if off \<le> i \<and> i < off + n then src ! (i - off) else m i)"

definition memset :: "mem \<Rightarrow> nat \<Rightarrow> byte \<Rightarrow> nat \<Rightarrow> mem" where
  "memset m off b n = (\<lambda>i. if off \<le> i \<and> i < off + n then b else m i)"

definition mem_slice :: "mem \<Rightarrow> nat \<Rightarrow> nat \<Rightarrow> byte list" where
  "mem_slice m off n = map m [off..<off + n]"

text \<open>32-bit little-endian fields.\<close>

definition word32_of_bytes :: "byte \<Rightarrow> byte \<Rightarrow> byte \<Rightarrow> byte \<Rightarrow> 32 word" where
  "word32_of_bytes b0 b1 b2 b3 =
     ucast b0 OR push_bit 8 (ucast b1) OR push_bit 16 (ucast b2) OR push_bit 24 (ucast b3)"

definition byte_of_word32 :: "nat \<Rightarrow> 32 word \<Rightarrow> byte" where
  "byte_of_word32 k w = ucast (drop_bit (8 * k) w)"

definition read_w32 :: "mem \<Rightarrow> nat \<Rightarrow> 32 word" where
  "read_w32 m off = word32_of_bytes (m off) (m (off + 1)) (m (off + 2)) (m (off + 3))"

definition write_w32 :: "mem \<Rightarrow> nat \<Rightarrow> 32 word \<Rightarrow> mem" where
  "write_w32 m off w =
     m(off := byte_of_word32 0 w, off + 1 := byte_of_word32 1 w,
       off + 2 := byte_of_word32 2 w, off + 3 := byte_of_word32 3 w)"

definition read_i32 :: "mem \<Rightarrow> nat \<Rightarrow> int" where
  "read_i32 m off = sint (read_w32 m off)"

definition write_i32 :: "mem \<Rightarrow> nat \<Rightarrow> int \<Rightarrow> mem" where
  "write_i32 m off v = write_w32 m off (word_of_int v)"

definition fits_i32 :: "int \<Rightarrow> bool" where
  "fits_i32 v \<longleftrightarrow> - (2 ^ 31) \<le> v \<and> v < 2 ^ 31"

lemma bit_word32_of_bytes:
  "bit (word32_of_bytes b0 b1 b2 b3) n \<longleftrightarrow>
     n < 32 \<and> (if n < 8 then bit b0 n else if n < 16 then bit b1 (n - 8)
                else if n < 24 then bit b2 (n - 16) else bit b3 (n - 24))"
  unfolding word32_of_bytes_def
  by (auto simp: bit_or_iff bit_push_bit_iff bit_ucast_iff dest: bit_imp_le_length)

lemma bit_byte_of_word32: "bit (byte_of_word32 k w) n \<longleftrightarrow> n < 8 \<and> bit w (8 * k + n)"
  unfolding byte_of_word32_def
  by (auto simp: bit_ucast_iff bit_drop_bit_eq dest: bit_imp_le_length)

lemma word32_of_bytes_inverse:
  "word32_of_bytes (byte_of_word32 0 w) (byte_of_word32 1 w) (byte_of_word32 2 w) (byte_of_word32 3 w) = w"
  by (rule bit_word_eqI) (auto simp: bit_word32_of_bytes bit_byte_of_word32)

lemma read_w32_write_same [simp, mem_simps]: "read_w32 (write_w32 m off w) off = w"
  by (simp add: read_w32_def write_w32_def word32_of_bytes_inverse [simplified])

lemma write_w32_other [simp, mem_simps]: "i < off \<or> off + 4 \<le> i \<Longrightarrow> write_w32 m off w i = m i"
  by (auto simp: write_w32_def)

lemma write_i32_other [simp, mem_simps]: "i < off \<or> off + 4 \<le> i \<Longrightarrow> write_i32 m off w i = m i"
  by (simp add: write_i32_def)

lemma read_w32_cong:
  "(\<And>i. off \<le> i \<Longrightarrow> i < off + 4 \<Longrightarrow> m i = m' i) \<Longrightarrow> read_w32 m off = read_w32 m' off"
  by (simp add: read_w32_def)

lemma read_i32_cong:
  "(\<And>i. off \<le> i \<Longrightarrow> i < off + 4 \<Longrightarrow> m i = m' i) \<Longrightarrow> read_i32 m off = read_i32 m' off"
  unfolding read_i32_def by (rule arg_cong [where f = sint], rule read_w32_cong)

lemma read_i32_write_other [simp, mem_simps]:
  "off + 4 \<le> off' \<or> off' + 4 \<le> off \<Longrightarrow> read_i32 (write_i32 m off' v) off = read_i32 m off"
  by (rule read_i32_cong) auto

lemma sint_word_of_int_fits: "fits_i32 v \<Longrightarrow> sint (word_of_int v :: 32 word) = v"
  by (simp add: fits_i32_def sint_sbintrunc' signed_take_bit_int_eq_self)

lemma read_i32_write_same [simp, mem_simps]:
  "fits_i32 v \<Longrightarrow> read_i32 (write_i32 m off v) off = v"
  by (simp add: read_i32_def write_i32_def sint_word_of_int_fits)

lemma fits_i32_read [simp]: "fits_i32 (read_i32 m off)"
  using sint_lt [of "read_w32 m off"] sint_ge [of "read_w32 m off"]
  by (simp add: read_i32_def fits_i32_def)

lemma fits_i32I [intro]: "0 \<le> v \<Longrightarrow> v < 2147483648 \<Longrightarrow> fits_i32 v"
  by (simp add: fits_i32_def)

lemma read_i32_memcpy_other [simp, mem_simps]:
  "off + 4 \<le> o' \<or> o' + n \<le> off \<Longrightarrow> read_i32 (memcpy m o' src n) off = read_i32 m off"
  by (rule read_i32_cong) (auto simp: memcpy_def)

lemma read_i32_memset_other [simp, mem_simps]:
  "off + 4 \<le> o' \<or> o' + n \<le> off \<Longrightarrow> read_i32 (memset m o' b n) off = read_i32 m off"
  by (rule read_i32_cong) (auto simp: memset_def)

lemma read_i32_fun_upd_other [simp, mem_simps]:
  "i < off \<or> off + 4 \<le> i \<Longrightarrow> read_i32 (m(i := b)) off = read_i32 m off"
  by (rule read_i32_cong) auto

lemma read_i32_zero_mem [simp]: "read_i32 zero_mem off = 0"
  by (simp add: read_i32_def read_w32_def word32_of_bytes_def)

lemma length_mem_slice [simp]: "length (mem_slice m off n) = n"
  by (simp add: mem_slice_def)

lemma mem_slice_cong:
  "(\<And>i. off \<le> i \<Longrightarrow> i < off + n \<Longrightarrow> m i = m' i) \<Longrightarrow> mem_slice m off n = mem_slice m' off n"
  by (simp add: mem_slice_def)

lemma mem_slice_memcpy_same [simp, mem_simps]:
  "length src = n \<Longrightarrow> mem_slice (memcpy m off src n) off n = src"
  by (rule nth_equalityI) (simp_all add: mem_slice_def memcpy_def)

lemma mem_slice_memcpy_other [simp, mem_simps]:
  "off + n \<le> o' \<or> o' + k \<le> off \<Longrightarrow> mem_slice (memcpy m o' src k) off n = mem_slice m off n"
  by (rule mem_slice_cong) (auto simp: memcpy_def)

subsection \<open>Searching an interval from the left\<close>

text \<open>
  The reference for every "next position such that" loop of the sources: the least \<open>j\<close> with
  \<open>s \<le> j < n\<close> and \<open>P j\<close>, and \<open>-1\<close> when there is none.
\<close>

definition first_from :: "(nat \<Rightarrow> bool) \<Rightarrow> nat \<Rightarrow> nat \<Rightarrow> int" where
  "first_from P s n = (case find P [s..<n] of None \<Rightarrow> - 1 | Some j \<Rightarrow> int j)"

lemma first_from_empty: "n \<le> s \<Longrightarrow> first_from P s n = - 1"
  by (simp add: first_from_def)

lemma first_from_unfold:
  "s < n \<Longrightarrow> first_from P s n = (if P s then int s else first_from P (Suc s) n)"
  by (simp add: first_from_def upt_conv_Cons)

lemma find_append: "find P (xs @ ys) = (case find P xs of None \<Rightarrow> find P ys | Some x \<Rightarrow> Some x)"
  by (induction xs) auto

lemma first_from_append:
  assumes "s \<le> k" "k \<le> n"
  shows "first_from P s n = (if first_from P s k = - 1 then first_from P k n else first_from P s k)"
proof -
  have "[s..<n] = [s..<k] @ [k..<n]"
    using assms by (metis le_Suc_ex upt_add_eq_append)
  then show ?thesis
    by (simp add: first_from_def find_append split: option.splits)
qed

lemma first_from_none_iff: "first_from P s n = - 1 \<longleftrightarrow> (\<forall>j. s \<le> j \<and> j < n \<longrightarrow> \<not> P j)"
  by (auto simp: first_from_def find_None_iff split: option.splits) (metis find_None_iff atLeastLessThan_iff option.distinct(1) set_upt)

lemma find_upt_Some:
  "find P [s..<n] = Some j \<Longrightarrow> s \<le> j \<and> j < n \<and> P j \<and> (\<forall>i. s \<le> i \<and> i < j \<longrightarrow> \<not> P i)"
proof (induction "n - s" arbitrary: s)
  case 0
  then show ?case by simp
next
  case (Suc d)
  then have "s < n" by simp
  with Suc.prems have eq: "(if P s then Some s else find P [Suc s..<n]) = Some j"
    by (simp add: upt_conv_Cons)
  show ?case
  proof (cases "P s")
    case True
    with eq \<open>s < n\<close> show ?thesis by auto
  next
    case False
    with eq have "find P [Suc s..<n] = Some j" by simp
    with Suc.hyps(1) [of "Suc s"] Suc.hyps(2)
    have "Suc s \<le> j \<and> j < n \<and> P j \<and> (\<forall>i. Suc s \<le> i \<and> i < j \<longrightarrow> \<not> P i)" by simp
    with False show ?thesis by (metis Suc_leD Suc_leI le_neq_implies_less)
  qed
qed

lemma first_from_SomeD:
  "first_from P s n = int j \<Longrightarrow> s \<le> j \<and> j < n \<and> P j \<and> (\<forall>i. s \<le> i \<and> i < j \<longrightarrow> \<not> P i)"
  by (auto simp: first_from_def split: option.splits dest!: find_upt_Some)

lemma first_from_cases:
  obtains (none) "first_from P s n = - 1" "\<And>j. s \<le> j \<Longrightarrow> j < n \<Longrightarrow> \<not> P j"
  | (some) j where "first_from P s n = int j" "s \<le> j" "j < n" "P j" "\<And>i. s \<le> i \<Longrightarrow> i < j \<Longrightarrow> \<not> P i"
proof (cases "find P [s..<n]")
  case None
  then have "first_from P s n = - 1" by (simp add: first_from_def)
  with none show ?thesis by (simp add: first_from_none_iff)
next
  case (Some j)
  then have "first_from P s n = int j" by (simp add: first_from_def)
  with some show ?thesis by (metis first_from_SomeD)
qed

lemma first_from_eqI:
  assumes "s \<le> j" "j < n" "P j" "\<And>i. s \<le> i \<Longrightarrow> i < j \<Longrightarrow> \<not> P i"
  shows "first_from P s n = int j"
proof (cases rule: first_from_cases [where P = P and s = s and n = n])
  case none
  with assms show ?thesis by blast
next
  case (some k)
  with assms have "k = j" by (metis linorder_neqE_nat)
  with some show ?thesis by simp
qed

lemma first_from_truncate:
  assumes "m \<le> n"
  shows "first_from P s m = (if first_from P s n \<ge> int m then - 1 else first_from P s n)"
proof (cases rule: first_from_cases [where P = P and s = s and n = n])
  case none
  then have "first_from P s m = - 1" using assms by (simp add: first_from_none_iff)
  with none show ?thesis by simp
next
  case (some j)
  show ?thesis
  proof (cases "j < m")
    case True
    with some have "first_from P s m = int j" by (intro first_from_eqI) auto
    with some True show ?thesis by simp
  next
    case False
    with some have "first_from P s m = - 1" by (simp add: first_from_none_iff)
    with some False show ?thesis by simp
  qed
qed

lemma first_from_cong:
  assumes "\<And>j. s \<le> j \<Longrightarrow> j < n \<Longrightarrow> P j = Q j"
  shows "first_from P s n = first_from Q s n"
proof (cases rule: first_from_cases [where P = Q and s = s and n = n])
  case none
  with assms have "first_from P s n = - 1" by (simp add: first_from_none_iff)
  with none show ?thesis by simp
next
  case (some j)
  with assms have "first_from P s n = int j" by (intro first_from_eqI) auto
  with some show ?thesis by simp
qed

lemma first_from_bounds: "- 1 \<le> first_from P s n \<and> first_from P s n < max 0 (int n)"
  by (cases rule: first_from_cases [where P = P and s = s and n = n]) auto

text \<open>The search and the filtered interval.\<close>

lemma filter_upt_first:
  "first_from P s n = - 1 \<Longrightarrow> filter P [s..<n] = []"
  "first_from P s n = int i \<Longrightarrow> filter P [s..<n] = i # filter P [Suc i..<n]"
proof -
  show "first_from P s n = - 1 \<Longrightarrow> filter P [s..<n] = []" by (simp add: first_from_none_iff filter_empty_conv)
  assume a: "first_from P s n = int i"
  note i = first_from_SomeD [OF a]
  then have "[s..<n] = [s..<i] @ i # [Suc i..<n]"
    by (metis le_Suc_ex less_imp_le_nat upt_add_eq_append upt_conv_Cons)
  moreover have "filter P [s..<i] = []" using i by (simp add: filter_empty_conv)
  ultimately show "filter P [s..<n] = i # filter P [Suc i..<n]" using i by simp
qed

end
