(* ===== verification/Bitmap.thy ===== *)
theory Bitmap
  imports Prelude
begin

unbundle bit_operations_syntax

section \<open>Bitmap over raw memory (deps/common/lang/bitmap.cpp)\<close>

text \<open>
  A bitmap is a pointer into a block of bytes and a number of bits. The slot bitmap of a record
  page and the page-allocation bitmap of a buffer-pool file are both such views. The two search
  loops are kept as the code has them, with the byte-wise fast path and the \<open>start_in_byte\<close>
  variable, and are proved equal to a plain left-to-right search where they are.
\<close>

record bitmap =
  bm_ptr :: nat   \<comment> \<open>\<open>bitmap_\<close>: offset of the first byte in its block\<close>
  bm_size :: nat  \<comment> \<open>\<open>size\<close>: number of bits\<close>

definition bitmap_init :: "nat \<Rightarrow> nat \<Rightarrow> bitmap" where
  "bitmap_init ptr sz = \<lparr>bm_ptr = ptr, bm_size = sz\<rparr>"

function find_first_zero :: "byte \<Rightarrow> nat \<Rightarrow> int" where
  "find_first_zero b i =
     (if i < 8 then (if b AND push_bit i 1 = 0 then int i else find_first_zero b (Suc i)) else - 1)"
  by pat_completeness auto
termination
  by (relation "measure (\<lambda>(b, i). 8 - i)") auto

function find_first_setted :: "byte \<Rightarrow> nat \<Rightarrow> int" where
  "find_first_setted b i =
     (if i < 8 then (if b AND push_bit i 1 \<noteq> 0 then int i else find_first_setted b (Suc i)) else - 1)"
  by pat_completeness auto
termination
  by (relation "measure (\<lambda>(b, i). 8 - i)") auto

definition bytes :: "nat \<Rightarrow> nat" where
  "bytes sz = (if sz mod 8 = 0 then sz div 8 else sz div 8 + 1)"

definition get_bit :: "mem \<Rightarrow> bitmap \<Rightarrow> nat \<Rightarrow> bool" where
  "get_bit m bm index =
     (let bits = m (bm_ptr bm + index div 8) in bits AND push_bit (index mod 8) 1 \<noteq> 0)"

definition set_bit :: "mem \<Rightarrow> bitmap \<Rightarrow> nat \<Rightarrow> mem" where
  "set_bit m bm index =
     (let p = bm_ptr bm + index div 8 in m(p := m p OR push_bit (index mod 8) 1))"

definition clear_bit :: "mem \<Rightarrow> bitmap \<Rightarrow> nat \<Rightarrow> mem" where
  "clear_bit m bm index =
     (let p = bm_ptr bm + index div 8 in m(p := m p AND NOT (push_bit (index mod 8) 1)))"

text \<open>The loop of \<open>next_unsetted_bit\<close> from byte \<open>iter\<close>; \<open>- 1\<close> is \<open>ret\<close> when the loop runs out.\<close>

function unsetted_loop :: "mem \<Rightarrow> nat \<Rightarrow> nat \<Rightarrow> nat \<Rightarrow> nat \<Rightarrow> int" where
  "unsetted_loop m ptr stop start_in_byte iter =
     (if iter < stop then
        let byte = m (ptr + iter) in
        if byte \<noteq> - 1 then
          let index_in_byte = find_first_zero byte start_in_byte in
          if index_in_byte \<ge> 0 then int (iter * 8) + index_in_byte
          else unsetted_loop m ptr stop 0 (Suc iter)
        else unsetted_loop m ptr stop start_in_byte (Suc iter)
      else - 1)"
  by pat_completeness auto
termination
  by (relation "measure (\<lambda>(m, ptr, stop, sib, iter). stop - iter)") auto

definition next_unsetted_bit :: "mem \<Rightarrow> bitmap \<Rightarrow> nat \<Rightarrow> int" where
  "next_unsetted_bit m bm start =
     (let ret = unsetted_loop m (bm_ptr bm) (bytes (bm_size bm)) (start mod 8) (start div 8)
      in if ret \<ge> int (bm_size bm) then - 1 else ret)"

function setted_loop :: "mem \<Rightarrow> nat \<Rightarrow> nat \<Rightarrow> nat \<Rightarrow> nat \<Rightarrow> int" where
  "setted_loop m ptr stop start_in_byte iter =
     (if iter < stop then
        let byte = m (ptr + iter) in
        if byte \<noteq> 0 then
          let index_in_byte = find_first_setted byte start_in_byte in
          if index_in_byte \<ge> 0 then int (iter * 8) + index_in_byte
          else setted_loop m ptr stop 0 (Suc iter)
        else setted_loop m ptr stop start_in_byte (Suc iter)
      else - 1)"
  by pat_completeness auto
termination
  by (relation "measure (\<lambda>(m, ptr, stop, sib, iter). stop - iter)") auto

definition next_setted_bit :: "mem \<Rightarrow> bitmap \<Rightarrow> nat \<Rightarrow> int" where
  "next_setted_bit m bm start =
     (let ret = setted_loop m (bm_ptr bm) (bytes (bm_size bm)) (start mod 8) (start div 8)
      in if ret \<ge> int (bm_size bm) then - 1 else ret)"

declare find_first_zero.simps [simp del] find_first_setted.simps [simp del]
  unsetted_loop.simps [simp del] setted_loop.simps [simp del]

subsection \<open>Single bits\<close>

text \<open>The bit at position \<open>i\<close> of the bitmap that starts at offset \<open>ptr\<close>.\<close>

definition bit_at :: "mem \<Rightarrow> nat \<Rightarrow> nat \<Rightarrow> bool" where
  "bit_at m ptr i \<longleftrightarrow> bit (m (ptr + i div 8)) (i mod 8)"

lemma bit_mask_iff [simp]: "bit (2 ^ i :: byte) n \<longleftrightarrow> i < 8 \<and> n = i"
  by (auto simp: bit_exp_iff possible_bit_def)

lemma byte_and_mask_iff [simp]: "i < 8 \<Longrightarrow> (b :: byte) AND 2 ^ i = 0 \<longleftrightarrow> \<not> bit b i"
  by (auto simp: bit_eq_iff [of "b AND 2 ^ i" 0] bit_and_iff)

lemma get_bit_iff: "get_bit m bm i \<longleftrightarrow> bit_at m (bm_ptr bm) i"
  by (simp add: get_bit_def bit_at_def Let_def)

lemma bit_at_set_bit:
  "bit_at (set_bit m bm i) (bm_ptr bm) j \<longleftrightarrow> j = i \<or> bit_at m (bm_ptr bm) j"
proof (cases "j div 8 = i div 8")
  case True
  then have "j = i \<longleftrightarrow> j mod 8 = i mod 8"
    by (metis mod_div_mult_eq)
  with True show ?thesis
    by (auto simp: bit_at_def set_bit_def Let_def bit_or_iff)
next
  case False
  then show ?thesis by (auto simp: bit_at_def set_bit_def Let_def)
qed

lemma bit_at_clear_bit:
  "bit_at (clear_bit m bm i) (bm_ptr bm) j \<longleftrightarrow> j \<noteq> i \<and> bit_at m (bm_ptr bm) j"
proof (cases "j div 8 = i div 8")
  case True
  then have "j = i \<longleftrightarrow> j mod 8 = i mod 8"
    by (metis mod_div_mult_eq)
  with True show ?thesis
    by (auto simp: bit_at_def clear_bit_def Let_def bit_and_iff bit_not_iff
        dest: bit_imp_le_length)
next
  case False
  then show ?thesis by (auto simp: bit_at_def clear_bit_def Let_def)
qed

lemma set_bit_other: "p \<noteq> bm_ptr bm + i div 8 \<Longrightarrow> set_bit m bm i p = m p"
  by (simp add: set_bit_def Let_def)

lemma clear_bit_other: "p \<noteq> bm_ptr bm + i div 8 \<Longrightarrow> clear_bit m bm i p = m p"
  by (simp add: clear_bit_def Let_def)

lemma bit_at_cong: "m (ptr + i div 8) = m' (ptr + i div 8) \<Longrightarrow> bit_at m ptr i = bit_at m' ptr i"
  by (simp add: bit_at_def)

lemma bit_at_memset_zero: "i < 8 * n \<Longrightarrow> \<not> bit_at (memset m ptr 0 n) ptr i"
  by (simp add: bit_at_def memset_def less_mult_imp_div_less mult.commute)

lemma bytes_bound: "n \<le> 8 * bytes n"
  using div_mult_mod_eq [of n 8] mod_less_divisor [of 8 n] by (auto simp: bytes_def)

lemma div_less_bytes: "i < n \<Longrightarrow> i div 8 < bytes n"
  using bytes_bound [of n] by (intro less_mult_imp_div_less) (simp add: mult.commute)

subsection \<open>The loops against the reference search\<close>

lemma find_first_zero_eq: "find_first_zero b i = first_from (\<lambda>j. \<not> bit b j) i 8"
proof (induction b i rule: find_first_zero.induct)
  case (1 b i)
  show ?case
    by (subst find_first_zero.simps) (simp add: "1" first_from_unfold first_from_empty)
qed

lemma find_first_setted_eq: "find_first_setted b i = first_from (\<lambda>j. bit b j) i 8"
proof (induction b i rule: find_first_setted.induct)
  case (1 b i)
  show ?case
    by (subst find_first_setted.simps) (simp add: "1" first_from_unfold first_from_empty)
qed

lemma first_from_byte:
  assumes "s < 8"
  shows "first_from (\<lambda>j. P (j div 8) (j mod 8)) (iter * 8 + s) (Suc iter * 8) =
    (if first_from (P iter) s 8 = - 1 then - 1 else int (iter * 8) + first_from (P iter) s 8)"
proof (cases rule: first_from_cases [where P = "P iter" and s = s and n = 8])
  case none
  have "\<not> P (j div 8) (j mod 8)" if "iter * 8 + s \<le> j" "j < Suc iter * 8" for j
  proof -
    from that have "j div 8 = iter" by (simp add: div_nat_eqI)
    moreover from this that(1) have "s \<le> j mod 8" by (metis add.commute add_le_cancel_right mod_mult_div_eq mult.commute add_le_cancel_left)
    ultimately show ?thesis using none(2) [of "j mod 8"] by simp
  qed
  with none(1) show ?thesis by (simp add: first_from_none_iff)
next
  case (some k)
  have "first_from (\<lambda>j. P (j div 8) (j mod 8)) (iter * 8 + s) (Suc iter * 8) = int (iter * 8 + k)"
  proof (rule first_from_eqI)
    fix i assume i: "iter * 8 + s \<le> i" "i < iter * 8 + k"
    with some(3) have "i div 8 = iter" by (intro div_nat_eqI) auto
    moreover from this i have "s \<le> i mod 8" "i mod 8 < k" using mult_div_mod_eq [of 8 i] by linarith+
    ultimately show "\<not> P (i div 8) (i mod 8)" using some(5) by simp
  qed (use some in auto)
  with some(1) show ?thesis by simp
qed

lemma unsetted_loop_eq:
  assumes "s < 8" "s = 0 \<or> m (ptr + iter) \<noteq> - 1"
  shows "unsetted_loop m ptr e s iter = first_from (\<lambda>j. \<not> bit_at m ptr j) (iter * 8 + s) (e * 8)"
  using assms
proof (induction m ptr e s iter rule: unsetted_loop.induct)
  case (1 m ptr e s iter)
  let ?P = "\<lambda>q r. \<not> bit (m (ptr + q)) r"
  show ?case
  proof (cases "iter < e")
    case False
    then show ?thesis by (subst unsetted_loop.simps) (simp add: first_from_empty)
  next
    case True
    have split: "first_from (\<lambda>j. \<not> bit_at m ptr j) (iter * 8 + s) (e * 8) =
      (if first_from (?P iter) s 8 = - 1 then first_from (\<lambda>j. \<not> bit_at m ptr j) (Suc iter * 8) (e * 8)
       else int (iter * 8) + first_from (?P iter) s 8)"
      using first_from_append [of "iter * 8 + s" "Suc iter * 8" "e * 8" "\<lambda>j. \<not> bit_at m ptr j"]
        first_from_byte [OF "1.prems"(1), of ?P iter] True "1.prems"(1)
        first_from_bounds [of "?P iter" s 8]
      by (simp add: bit_at_def [abs_def])
    show ?thesis
    proof (cases "m (ptr + iter) = - 1")
      case True
      with "1.prems" have "s = 0" by simp
      moreover have "first_from (?P iter) s 8 = - 1"
        using True by (simp add: first_from_none_iff)
      ultimately show ?thesis
        using "1.IH"(2) \<open>iter < e\<close> True split
        by (subst unsetted_loop.simps) simp
    next
      case False
      then show ?thesis
        using "1.IH"(1) [OF \<open>iter < e\<close> refl False refl] \<open>iter < e\<close> split first_from_bounds [of "?P iter" s 8]
        by (subst unsetted_loop.simps) (auto simp: find_first_zero_eq Let_def)
    qed
  qed
qed

lemma setted_loop_eq:
  assumes "s < 8" "s = 0 \<or> m (ptr + iter) \<noteq> 0"
  shows "setted_loop m ptr e s iter = first_from (\<lambda>j. bit_at m ptr j) (iter * 8 + s) (e * 8)"
  using assms
proof (induction m ptr e s iter rule: setted_loop.induct)
  case (1 m ptr e s iter)
  let ?P = "\<lambda>q r. bit (m (ptr + q)) r"
  show ?case
  proof (cases "iter < e")
    case False
    then show ?thesis by (subst setted_loop.simps) (simp add: first_from_empty)
  next
    case True
    have split: "first_from (\<lambda>j. bit_at m ptr j) (iter * 8 + s) (e * 8) =
      (if first_from (?P iter) s 8 = - 1 then first_from (\<lambda>j. bit_at m ptr j) (Suc iter * 8) (e * 8)
       else int (iter * 8) + first_from (?P iter) s 8)"
      using first_from_append [of "iter * 8 + s" "Suc iter * 8" "e * 8" "\<lambda>j. bit_at m ptr j"]
        first_from_byte [OF "1.prems"(1), of ?P iter] True "1.prems"(1)
        first_from_bounds [of "?P iter" s 8]
      by (simp add: bit_at_def [abs_def])
    show ?thesis
    proof (cases "m (ptr + iter) = 0")
      case True
      with "1.prems" have "s = 0" by simp
      moreover have "first_from (?P iter) s 8 = - 1"
        using True by (simp add: first_from_none_iff)
      ultimately show ?thesis
        using "1.IH"(2) \<open>iter < e\<close> True split
        by (subst setted_loop.simps) simp
    next
      case False
      then show ?thesis
        using "1.IH"(1) [OF \<open>iter < e\<close> refl False refl] \<open>iter < e\<close> split first_from_bounds [of "?P iter" s 8]
        by (subst setted_loop.simps) (auto simp: find_first_setted_eq Let_def)
    qed
  qed
qed

lemma next_unsetted_bit_eq:
  assumes "start mod 8 = 0 \<or> m (bm_ptr bm + start div 8) \<noteq> - 1"
  shows "next_unsetted_bit m bm start = first_from (\<lambda>j. \<not> bit_at m (bm_ptr bm) j) start (bm_size bm)"
  using assms bytes_bound [of "bm_size bm"]
  by (simp add: next_unsetted_bit_def unsetted_loop_eq mult.commute Let_def
      first_from_truncate [of "bm_size bm" "8 * bytes (bm_size bm)"])

lemma next_setted_bit_eq:
  assumes "start mod 8 = 0 \<or> m (bm_ptr bm + start div 8) \<noteq> 0"
  shows "next_setted_bit m bm start = first_from (\<lambda>j. bit_at m (bm_ptr bm) j) start (bm_size bm)"
  using assms bytes_bound [of "bm_size bm"]
  by (simp add: next_setted_bit_def setted_loop_eq mult.commute Let_def
      first_from_truncate [of "bm_size bm" "8 * bytes (bm_size bm)"])

text \<open>
  The condition of \<open>next_setted_bit_eq\<close> holds right after a set bit: the search from \<open>i + 1\<close> where
  bit \<open>i\<close> is set either starts a new byte or starts in a byte that is not zero.
\<close>

lemma next_setted_bit_after_set:
  assumes "bit_at m (bm_ptr bm) i"
  shows "next_setted_bit m bm (Suc i) = first_from (\<lambda>j. bit_at m (bm_ptr bm) j) (Suc i) (bm_size bm)"
proof (rule next_setted_bit_eq, cases "Suc i mod 8 = 0")
  case False
  then have "Suc i div 8 = i div 8" by (simp add: div_Suc)
  with assms show "Suc i mod 8 = 0 \<or> m (bm_ptr bm + Suc i div 8) \<noteq> 0"
    by (auto simp: bit_at_def)
qed simp

lemma next_setted_bit_zero:
  "next_setted_bit m bm 0 = first_from (\<lambda>j. bit_at m (bm_ptr bm) j) 0 (bm_size bm)"
  by (rule next_setted_bit_eq) simp

lemma next_unsetted_bit_zero:
  "next_unsetted_bit m bm 0 = first_from (\<lambda>j. \<not> bit_at m (bm_ptr bm) j) 0 (bm_size bm)"
  by (rule next_unsetted_bit_eq) simp

subsection \<open>Properties\<close>

text \<open>
  Reading back a bitmap. Setting bit \<open>i\<close> makes exactly that bit read as set, clearing
  bit \<open>i\<close> makes exactly that bit read as clear, and neither touches a byte outside the one addressed.
\<close>

theorem bitmap_read_back:
  "(get_bit (set_bit m bm i) bm j \<longleftrightarrow> j = i \<or> get_bit m bm j) \<and>
   (get_bit (clear_bit m bm i) bm j \<longleftrightarrow> j \<noteq> i \<and> get_bit m bm j) \<and>
   set_bit m bm i = m(bm_ptr bm + i div 8 := set_bit m bm i (bm_ptr bm + i div 8)) \<and>
   clear_bit m bm i = m(bm_ptr bm + i div 8 := clear_bit m bm i (bm_ptr bm + i div 8))"
  by (auto simp: get_bit_iff bit_at_set_bit bit_at_clear_bit set_bit_other clear_bit_other fun_eq_iff)

text \<open>
  Property C37: the byte-wise searches \<open>next_setted_bit\<close> and \<open>next_unsetted_bit\<close> return the first set
  (clear) position at or after \<open>start\<close> and below \<open>size\<close>, and -1 when there is none, whenever \<open>start\<close>
  begins a byte or the byte of \<open>start\<close> cannot be skipped whole.
\<close>

theorem bitmap_search_correct:
  assumes "start mod 8 = 0 \<or> m (bm_ptr bm + start div 8) \<notin> {0, - 1}"
  shows "next_setted_bit m bm start = first_from (\<lambda>j. get_bit m bm j) start (bm_size bm) \<and>
    next_unsetted_bit m bm start = first_from (\<lambda>j. \<not> get_bit m bm j) start (bm_size bm)"
  using assms by (auto simp: get_bit_iff next_setted_bit_eq next_unsetted_bit_eq)

theorem bitmap_search_correct_witness:
  "next_setted_bit ((\<lambda>_. 0)(1 := 4)) (bitmap_init 0 16) 8 = 10"
  using bitmap_search_correct [of 8 "(\<lambda>_. 0)(1 := 4)" "bitmap_init 0 16"]
  by (simp add: bitmap_init_def first_from_unfold get_bit_def)

text \<open>
  From a position inside a byte that is skipped whole, \<open>next_setted_bit\<close> misses set bits,
  because \<open>start_in_byte\<close> is not reset when a byte is skipped: bit 8 is set, and the search from 3
  says there is none.
\<close>

theorem next_setted_bit_skips:
  "\<exists>m bm start. get_bit m bm 8 \<and> start \<le> 8 \<and> 8 < bm_size bm \<and> next_setted_bit m bm start = - 1"
proof -
  let ?m = "(\<lambda>_. 0)(1 := 1) :: mem" and ?bm = "bitmap_init 0 16"
  have "find_first_setted 1 3 = - 1"
    by (simp add: find_first_setted_eq first_from_none_iff bit_1_iff)
  then have "next_setted_bit ?m ?bm 3 = - 1"
    by (simp add: next_setted_bit_def bitmap_init_def bytes_def setted_loop.simps Let_def)
  moreover have "get_bit ?m ?bm 8" by (simp add: get_bit_def bitmap_init_def)
  ultimately show ?thesis by (intro exI [of _ ?m] exI [of _ ?bm] exI [of _ 3]) (simp add: bitmap_init_def)
qed

end
