(* ===== verification/Comparator.thy ===== *)
theory Comparator
  imports Prelude
begin

section \<open>Comparators and binary search (comparator.cpp, lower_bound.h, record.h, bplus_tree.h)\<close>

text \<open>
  The three-way comparison functions the index is built on, and the binary search that uses them.
  A comparator returns a negative, zero or positive \<open>int\<close>. The subtractions of \<open>compare_int\<close> and
  \<open>RID::compare\<close> are 32-bit: they wrap (two's complement). What a client of a comparator needs is
  the locale \<open>three_way\<close>: a total preorder on the values \<open>ok\<close> admits; binary search is proved
  once, inside the locale, and every comparator of the index is an interpretation.
\<close>

subsection \<open>Record identifiers\<close>

record RID =
  page_num :: int
  slot_num :: int

definition sub_i32 :: "int \<Rightarrow> int \<Rightarrow> int" where
  "sub_i32 a b = sint (word_of_int (a - b) :: 32 word)"

definition RID_eq :: "RID \<Rightarrow> RID \<Rightarrow> bool" where
  "RID_eq a b \<longleftrightarrow> page_num a = page_num b \<and> slot_num a = slot_num b"

definition RID_compare :: "RID \<Rightarrow> RID \<Rightarrow> int" where
  "RID_compare rid1 rid2 =
     (let page_diff = sub_i32 (page_num rid1) (page_num rid2)
      in if page_diff \<noteq> 0 then page_diff else sub_i32 (slot_num rid1) (slot_num rid2))"

definition RID_min :: RID where
  "RID_min = \<lparr>page_num = 0, slot_num = 0\<rparr>"

definition RID_max :: RID where
  "RID_max = \<lparr>page_num = 2147483647, slot_num = 2147483647\<rparr>"

subsection \<open>Attribute comparison\<close>

datatype AttrType = UNDEFINED | CHARS | INTS | FLOATS | DATES | BOOLEANS | TEXTS | NULLS

definition compare_int :: "byte list \<Rightarrow> byte list \<Rightarrow> int" where
  "compare_int arg1 arg2 = sub_i32 (read_i32 (nth arg1) 0) (read_i32 (nth arg2) 0)"

text \<open>\<open>memcmp\<close>: the sign of the first difference of the bytes as \<open>unsigned char\<close>.\<close>

fun memcmp :: "byte list \<Rightarrow> byte list \<Rightarrow> nat \<Rightarrow> int" where
  "memcmp (a # as) (b # bs) (Suc n) = (if a = b then memcmp as bs n else if a < b then - 1 else 1)"
| "memcmp _ _ _ = 0"

definition compare_string :: "byte list \<Rightarrow> nat \<Rightarrow> byte list \<Rightarrow> nat \<Rightarrow> int" where
  "compare_string s1 arg1_max_length s2 arg2_max_length =
     (let maxlen = min arg1_max_length arg2_max_length;
          result = memcmp s1 s2 maxlen
      in if result \<noteq> 0 then result
         else if arg1_max_length > maxlen then sint (s1 ! maxlen) - 0
         else if arg2_max_length > maxlen then 0 - sint (s2 ! maxlen)
         else 0)"

text \<open>
  \<open>AttrComparator::operator()\<close>; \<^const>\<open>None\<close> is the failing \<open>ASSERT(false)\<close> of the default branch.
  Comparing two \<open>FLOATS\<close> is IEEE arithmetic and is a parameter.
\<close>

definition AttrComparator ::
  "(byte list \<Rightarrow> byte list \<Rightarrow> int) \<Rightarrow> AttrType \<Rightarrow> nat \<Rightarrow> byte list \<Rightarrow> byte list \<Rightarrow> int option" where
  "AttrComparator compare_float attr_type attr_length v1 v2 =
     (case attr_type of
        INTS \<Rightarrow> Some (compare_int v1 v2)
      | FLOATS \<Rightarrow> Some (compare_float v1 v2)
      | CHARS \<Rightarrow> Some (compare_string v1 attr_length v2 attr_length)
      | DATES \<Rightarrow> Some (compare_int v1 v2)
      | _ \<Rightarrow> None)"

definition key_rid :: "nat \<Rightarrow> byte list \<Rightarrow> RID" where
  "key_rid attr_length v =
     \<lparr>page_num = read_i32 (nth v) attr_length, slot_num = read_i32 (nth v) (attr_length + 4)\<rparr>"

definition KeyComparator ::
  "(byte list \<Rightarrow> byte list \<Rightarrow> int) \<Rightarrow> AttrType \<Rightarrow> nat \<Rightarrow> byte list \<Rightarrow> byte list \<Rightarrow> int option" where
  "KeyComparator compare_float attr_type attr_length v1 v2 =
     do {
       result \<leftarrow> AttrComparator compare_float attr_type attr_length v1 v2;
       if result \<noteq> 0 then Some result
       else Some (RID_compare (key_rid attr_length v1) (key_rid attr_length v2))
     }"

subsection \<open>Binary search\<close>

text \<open>
  \<open>lower_bound\<close> on the positions \<open>first, \<dots>, first + last_count - 1\<close>; \<open>cmpf i\<close> is the comparison of
  the element at position \<open>i\<close> with the value looked for. The result is the iterator and \<open>found\<close>.
\<close>

function lower_bound_loop :: "(nat \<Rightarrow> int) \<Rightarrow> nat \<Rightarrow> nat \<Rightarrow> nat \<times> bool" where
  "lower_bound_loop cmpf first last_count =
     (if last_count > 0 then
        let step = last_count div 2; iter = first + step; result = cmpf iter in
        if result = 0 then (iter, True)
        else if result < 0 then lower_bound_loop cmpf (iter + 1) (last_count - (step + 1))
        else lower_bound_loop cmpf first step
      else (first, False))"
  by pat_completeness auto
termination
  by (relation "measure (\<lambda>(cmpf, first, last_count). last_count)") auto

declare lower_bound_loop.simps [simp del]

definition lower_bound :: "('a \<Rightarrow> 'b \<Rightarrow> int) \<Rightarrow> 'a list \<Rightarrow> 'b \<Rightarrow> nat \<times> bool" where
  "lower_bound cmpf xs val = lower_bound_loop (\<lambda>i. cmpf (xs ! i) val) 0 (length xs)"

text \<open>The default comparator template \<open>Comparator<T>\<close>.\<close>

definition Comparator :: "'a::linorder \<Rightarrow> 'a \<Rightarrow> int" where
  "Comparator v1 v2 = (if v1 < v2 then - 1 else if v1 > v2 then 1 else 0)"

lemma lower_bound_loop_unfold:
  "n > 0 \<Longrightarrow> lower_bound_loop cmpf first n =
     (if cmpf (first + n div 2) = 0 then (first + n div 2, True)
      else if cmpf (first + n div 2) < 0
        then lower_bound_loop cmpf (Suc (first + n div 2)) (n - Suc (n div 2))
      else lower_bound_loop cmpf first (n div 2))"
  by (subst lower_bound_loop.simps) (simp add: Let_def)

text \<open>What the loop establishes: a partition point of the positions, and whether it is a hit.\<close>

definition partition_point :: "(nat \<Rightarrow> int) \<Rightarrow> nat \<Rightarrow> nat \<Rightarrow> nat \<Rightarrow> bool \<Rightarrow> bool" where
  "partition_point cmpf lo hi p found \<longleftrightarrow>
     lo \<le> p \<and> p \<le> hi \<and> (\<forall>i. lo \<le> i \<and> i < p \<longrightarrow> cmpf i < 0) \<and>
     (\<forall>i. p \<le> i \<and> i < hi \<longrightarrow> cmpf i \<ge> 0) \<and> (found \<longleftrightarrow> p < hi \<and> cmpf p = 0)"

lemma partition_point_extend_left:
  "partition_point cmpf mid hi p found \<Longrightarrow> lo \<le> mid \<Longrightarrow>
     (\<And>i. lo \<le> i \<Longrightarrow> i < mid \<Longrightarrow> cmpf i < 0) \<Longrightarrow> partition_point cmpf lo hi p found"
  unfolding partition_point_def by (meson le_trans not_le)

lemma partition_point_extend_right:
  assumes "partition_point cmpf lo mid p found" "mid \<le> hi" "\<And>i. mid \<le> i \<Longrightarrow> i < hi \<Longrightarrow> cmpf i > 0"
  shows "partition_point cmpf lo hi p found"
proof -
  from assms(1) have a: "lo \<le> p" "p \<le> mid" "\<And>i. lo \<le> i \<Longrightarrow> i < p \<Longrightarrow> cmpf i < 0"
    "\<And>i. p \<le> i \<Longrightarrow> i < mid \<Longrightarrow> cmpf i \<ge> 0" "found \<longleftrightarrow> p < mid \<and> cmpf p = 0"
    by (auto simp: partition_point_def)
  have "cmpf i \<ge> 0" if "p \<le> i" "i < hi" for i
    using a(4) [of i] assms(3) [of i] that by linarith
  moreover have "found \<longleftrightarrow> p < hi \<and> cmpf p = 0"
    using a(2,5) assms(2) assms(3) [of p] by linarith
  ultimately show ?thesis using a(1-3) assms(2) by (simp add: partition_point_def)
qed

lemma lower_bound_loop_correct:
  assumes "\<And>i j. i < j \<Longrightarrow> first \<le> i \<Longrightarrow> j < first + n \<Longrightarrow> cmpf j \<le> 0 \<Longrightarrow> cmpf i < 0"
    and "lower_bound_loop cmpf first n = (p, found)"
  shows "partition_point cmpf first (first + n) p found"
  using assms
proof (induction n arbitrary: first rule: less_induct)
  case (less n)
  note strict = less.prems(1)
  show ?case
  proof (cases "n = 0")
    case True
    with less.prems(2) show ?thesis by (auto simp: lower_bound_loop.simps partition_point_def)
  next
    case False
    define iter where "iter = first + n div 2"
    have bnd: "first \<le> iter" "iter < first + n" using False by (auto simp: iter_def)
    have below: "cmpf i < 0" if "first \<le> i" "i < iter" "cmpf iter \<le> 0" for i
      using strict [of i iter] that bnd by simp
    have above: "cmpf i > 0" if "iter < i" "i < first + n" "cmpf iter \<ge> 0" for i
      using strict [of iter i] that bnd by (meson not_le)
    consider (eq) "cmpf iter = 0" | (lt) "cmpf iter < 0" | (gt) "cmpf iter > 0" by linarith
    then show ?thesis
    proof cases
      case eq
      with less.prems(2) False have "p = iter" "found"
        by (auto simp: lower_bound_loop_unfold iter_def)
      with eq bnd below above show ?thesis
        by (auto simp: partition_point_def le_less)
    next
      case lt
      have n': "Suc iter + (n - Suc (n div 2)) = first + n" using False by (simp add: iter_def)
      from lt less.prems(2) False have "lower_bound_loop cmpf (Suc iter) (n - Suc (n div 2)) = (p, found)"
        by (simp add: lower_bound_loop_unfold iter_def)
      then have "partition_point cmpf (Suc iter) (first + n) p found"
        using less.IH [of "n - Suc (n div 2)" "Suc iter"] False strict bnd unfolding n' by simp
      then show ?thesis
        by (rule partition_point_extend_left) (use below lt bnd in \<open>auto simp: less_Suc_eq\<close>)
    next
      case gt
      then have "lower_bound_loop cmpf first (n div 2) = (p, found)"
        using less.prems(2) False by (simp add: lower_bound_loop_unfold iter_def)
      then have "partition_point cmpf first iter p found"
        using less.IH [of "n div 2" first] False strict bnd by (simp add: iter_def)
      then show ?thesis
        by (rule partition_point_extend_right) (use above gt bnd in \<open>auto simp: le_less\<close>)
    qed
  qed
qed

subsection \<open>The comparator contract\<close>

locale three_way =
  fixes cmp :: "'a \<Rightarrow> 'a \<Rightarrow> int" and ok :: "'a \<Rightarrow> bool"
  assumes cmp_refl: "ok x \<Longrightarrow> cmp x x = 0"
    and cmp_anti: "ok x \<Longrightarrow> ok y \<Longrightarrow> cmp x y < 0 \<longleftrightarrow> cmp y x > 0"
    and cmp_trans: "ok x \<Longrightarrow> ok y \<Longrightarrow> ok z \<Longrightarrow> cmp x y \<le> 0 \<Longrightarrow> cmp y z \<le> 0 \<Longrightarrow> cmp x z \<le> 0"
begin

lemma cmp_flip: "ok x \<Longrightarrow> ok y \<Longrightarrow> cmp x y \<ge> 0 \<longleftrightarrow> cmp y x \<le> 0"
  using cmp_anti [of x y] by linarith

lemma cmp_less_le: "ok x \<Longrightarrow> ok y \<Longrightarrow> ok z \<Longrightarrow> cmp x y < 0 \<Longrightarrow> cmp y z \<le> 0 \<Longrightarrow> cmp x z < 0"
  using cmp_trans [of y z x] cmp_flip [of x z] cmp_flip [of x y] by (meson not_le)

lemma cmp_le_less: "ok x \<Longrightarrow> ok y \<Longrightarrow> ok z \<Longrightarrow> cmp x y \<le> 0 \<Longrightarrow> cmp y z < 0 \<Longrightarrow> cmp x z < 0"
  using cmp_trans [of z x y] cmp_flip [of x z] cmp_flip [of y z] by (meson not_le)

lemma cmp_less_trans: "ok x \<Longrightarrow> ok y \<Longrightarrow> ok z \<Longrightarrow> cmp x y < 0 \<Longrightarrow> cmp y z < 0 \<Longrightarrow> cmp x z < 0"
  using cmp_less_le by (meson less_imp_le)

lemma cmp_eq_sym: "ok x \<Longrightarrow> ok y \<Longrightarrow> cmp x y = 0 \<longleftrightarrow> cmp y x = 0"
  using cmp_anti [of x y] cmp_anti [of y x] by linarith

text \<open>Strictly ascending sequences of admitted values, the content of an index node.\<close>

definition ascending :: "'a list \<Rightarrow> bool" where
  "ascending xs \<longleftrightarrow> (\<forall>x \<in> set xs. ok x) \<and> sorted_wrt (\<lambda>x y. cmp x y < 0) xs"

lemma ascending_ok: "ascending xs \<Longrightarrow> i < length xs \<Longrightarrow> ok (xs ! i)"
  by (simp add: ascending_def)

lemma ascending_nth: "ascending xs \<Longrightarrow> i < j \<Longrightarrow> j < length xs \<Longrightarrow> cmp (xs ! i) (xs ! j) < 0"
  by (simp add: ascending_def sorted_wrt_iff_nth_less)

theorem lower_bound_ascending:
  assumes "ascending xs" "ok val" "lower_bound cmp xs val = (p, found)"
  shows "p \<le> length xs" "\<And>i. i < p \<Longrightarrow> cmp (xs ! i) val < 0"
    "\<And>i. p \<le> i \<Longrightarrow> i < length xs \<Longrightarrow> cmp (xs ! i) val \<ge> 0"
    "found \<longleftrightarrow> p < length xs \<and> cmp (xs ! p) val = 0"
proof -
  have mono: "cmp (xs ! i) val < 0" if "i < j" "j < length xs" "cmp (xs ! j) val \<le> 0" for i j
    using that assms(1,2) by (meson ascending_nth ascending_ok cmp_less_le less_trans)
  have "partition_point (\<lambda>i. cmp (xs ! i) val) 0 (0 + length xs) p found"
    by (rule lower_bound_loop_correct [OF _ assms(3) [unfolded lower_bound_def]]) (auto intro: mono)
  then show "p \<le> length xs" "\<And>i. i < p \<Longrightarrow> cmp (xs ! i) val < 0"
    "\<And>i. p \<le> i \<Longrightarrow> i < length xs \<Longrightarrow> cmp (xs ! i) val \<ge> 0"
    "found \<longleftrightarrow> p < length xs \<and> cmp (xs ! p) val = 0" by (auto simp: partition_point_def)
qed

lemma lower_bound_found_iff:
  assumes "ascending xs" "ok val"
  shows "snd (lower_bound cmp xs val) \<longleftrightarrow> (\<exists>x \<in> set xs. cmp x val = 0)"
proof -
  obtain p found where eq: "lower_bound cmp xs val = (p, found)" by fastforce
  note lb = lower_bound_ascending [OF assms eq]
  have "found" if "i < length xs" "cmp (xs ! i) val = 0" for i
  proof -
    from that lb(2) have "p \<le> i" by (metis less_irrefl not_le)
    show ?thesis
    proof (cases "p = i")
      case True
      with that lb(4) show ?thesis by simp
    next
      case False
      with \<open>p \<le> i\<close> have "p < i" by simp
      with that assms have "cmp (xs ! p) val < 0"
        using ascending_nth [of xs p i] ascending_ok [of xs] cmp_less_le [of "xs ! p" "xs ! i" val]
        by simp
      with lb(3) [of p] \<open>p < i\<close> that show ?thesis by simp
    qed
  qed
  then have "found \<longleftrightarrow> (\<exists>i < length xs. cmp (xs ! i) val = 0)" using lb(4) by blast
  with eq show ?thesis by (simp add: Bex_def in_set_conv_nth) blast
qed

end

text \<open>Lexicographic combination of two comparators, the shape of \<open>RID::compare\<close> and of \<open>KeyComparator\<close>.\<close>

definition lex_cmp :: "('a \<Rightarrow> 'b) \<Rightarrow> ('b \<Rightarrow> 'b \<Rightarrow> int) \<Rightarrow> ('a \<Rightarrow> 'c) \<Rightarrow> ('c \<Rightarrow> 'c \<Rightarrow> int) \<Rightarrow> 'a \<Rightarrow> 'a \<Rightarrow> int" where
  "lex_cmp f cmp1 g cmp2 x y = (if cmp1 (f x) (f y) \<noteq> 0 then cmp1 (f x) (f y) else cmp2 (g x) (g y))"

locale three_way_lex = major: three_way cmp1 ok1 + minor: three_way cmp2 ok2
  for cmp1 :: "'b \<Rightarrow> 'b \<Rightarrow> int" and ok1 and cmp2 :: "'c \<Rightarrow> 'c \<Rightarrow> int" and ok2 +
  fixes f :: "'a \<Rightarrow> 'b" and g :: "'a \<Rightarrow> 'c"
begin

lemma three_way_lex_cmp: "three_way (lex_cmp f cmp1 g cmp2) (\<lambda>x. ok1 (f x) \<and> ok2 (g x))"
proof
  fix x y z
  assume x: "ok1 (f x) \<and> ok2 (g x)"
  show "lex_cmp f cmp1 g cmp2 x x = 0"
    using x by (simp add: lex_cmp_def major.cmp_refl minor.cmp_refl)
  assume y: "ok1 (f y) \<and> ok2 (g y)"
  show "lex_cmp f cmp1 g cmp2 x y < 0 \<longleftrightarrow> lex_cmp f cmp1 g cmp2 y x > 0"
    using x y major.cmp_anti [of "f x" "f y"] major.cmp_eq_sym [of "f x" "f y"]
      minor.cmp_anti [of "g x" "g y"]
    by (auto simp: lex_cmp_def)
  assume z: "ok1 (f z) \<and> ok2 (g z)"
  assume le: "lex_cmp f cmp1 g cmp2 x y \<le> 0" "lex_cmp f cmp1 g cmp2 y z \<le> 0"
  then have "cmp1 (f x) (f y) \<le> 0" "cmp1 (f y) (f z) \<le> 0"
    by (auto simp: lex_cmp_def split: if_splits)
  then show "lex_cmp f cmp1 g cmp2 x z \<le> 0"
    using x y z le major.cmp_trans [of "f x" "f y" "f z"] major.cmp_less_le [of "f x" "f y" "f z"]
      major.cmp_le_less [of "f x" "f y" "f z"] minor.cmp_trans [of "g x" "g y" "g z"]
    by (auto simp: lex_cmp_def le_less split: if_splits)
qed

end

subsection \<open>The comparators of the index meet the contract\<close>

interpretation std: three_way "Comparator :: 'a::linorder \<Rightarrow> 'a \<Rightarrow> int" "\<lambda>_. True"
  by unfold_locales (auto simp: Comparator_def split: if_splits)

text \<open>The 32-bit difference orders two values correctly when the exact difference fits.\<close>

lemma sub_i32_exact: "fits_i32 (a - b) \<Longrightarrow> sub_i32 a b = a - b"
  using sint_word_of_int_fits [of "a - b"] by (simp add: sub_i32_def)

definition small_i32 :: "int \<Rightarrow> bool" where
  "small_i32 a \<longleftrightarrow> - (2 ^ 30) \<le> a \<and> a < 2 ^ 30"

definition nonneg_i32 :: "int \<Rightarrow> bool" where
  "nonneg_i32 a \<longleftrightarrow> 0 \<le> a \<and> a < 2 ^ 31"

lemma sub_i32_small: "small_i32 a \<Longrightarrow> small_i32 b \<Longrightarrow> sub_i32 a b = a - b"
  by (rule sub_i32_exact) (auto simp: small_i32_def fits_i32_def)

lemma sub_i32_nonneg: "nonneg_i32 a \<Longrightarrow> nonneg_i32 b \<Longrightarrow> sub_i32 a b = a - b"
  by (rule sub_i32_exact) (auto simp: nonneg_i32_def fits_i32_def)

interpretation small: three_way sub_i32 small_i32
  by unfold_locales (auto simp: sub_i32_small)

interpretation nonneg: three_way sub_i32 nonneg_i32
  by unfold_locales (auto simp: sub_i32_nonneg)

definition RID_ok :: "RID \<Rightarrow> bool" where
  "RID_ok r \<longleftrightarrow> nonneg_i32 (page_num r) \<and> nonneg_i32 (slot_num r)"

interpretation rid_lex: three_way_lex sub_i32 nonneg_i32 sub_i32 nonneg_i32 page_num slot_num ..

lemma RID_compare_lex: "RID_compare = lex_cmp page_num sub_i32 slot_num sub_i32"
  by (intro ext) (simp add: RID_compare_def lex_cmp_def Let_def)

interpretation rid: three_way RID_compare RID_ok
  using rid_lex.three_way_lex_cmp by (simp add: RID_compare_lex RID_ok_def [abs_def])

lemma memcmp_refl: "memcmp xs xs n = 0"
proof (induction xs arbitrary: n)
  case (Cons x xs)
  then show ?case by (cases n) simp_all
qed simp

lemma memcmp_anti: "memcmp xs ys n < 0 \<longleftrightarrow> memcmp ys xs n > 0"
  by (induction xs ys n rule: memcmp.induct) auto

lemma memcmp_trans:
  "length xs = length ys \<Longrightarrow> length ys = length zs \<Longrightarrow>
     memcmp xs ys n \<le> 0 \<Longrightarrow> memcmp ys zs n \<le> 0 \<Longrightarrow> memcmp xs zs n \<le> 0"
proof (induction xs ys n arbitrary: zs rule: memcmp.induct)
  case (1 a as b bs n)
  then obtain c cs where "zs = c # cs" by (cases zs) auto
  with 1 show ?case by (auto split: if_splits)
qed (auto split: if_splits)

lemma memcmp_zero_iff:
  "n \<le> length xs \<Longrightarrow> n \<le> length ys \<Longrightarrow> memcmp xs ys n = 0 \<longleftrightarrow> take n xs = take n ys"
  by (induction xs ys n rule: memcmp.induct) auto

text \<open>
  Keys as the index stores them: the attribute bytes followed by a record identifier. The
  integer attributes admitted are those whose differences cannot wrap.
\<close>

definition attr_cmp :: "AttrType \<Rightarrow> nat \<Rightarrow> byte list \<Rightarrow> byte list \<Rightarrow> int" where
  "attr_cmp t n v1 v2 = (if t = CHARS then compare_string v1 n v2 n else compare_int v1 v2)"

definition attr_ok :: "AttrType \<Rightarrow> nat \<Rightarrow> byte list \<Rightarrow> bool" where
  "attr_ok t n v \<longleftrightarrow> length v = n + 8 \<and> (t \<noteq> CHARS \<longrightarrow> small_i32 (read_i32 (nth v) 0))"

definition key_ok :: "AttrType \<Rightarrow> nat \<Rightarrow> byte list \<Rightarrow> bool" where
  "key_ok t n v \<longleftrightarrow> attr_ok t n v \<and> RID_ok (key_rid n v)"

definition key_cmp :: "AttrType \<Rightarrow> nat \<Rightarrow> byte list \<Rightarrow> byte list \<Rightarrow> int" where
  "key_cmp t n = lex_cmp (\<lambda>v. v) (attr_cmp t n) (key_rid n) RID_compare"

lemma KeyComparator_eq:
  "t \<in> {INTS, CHARS, DATES} \<Longrightarrow> KeyComparator cf t n v1 v2 = Some (key_cmp t n v1 v2)"
  by (auto simp: KeyComparator_def AttrComparator_def key_cmp_def lex_cmp_def attr_cmp_def)

lemma three_way_attr: "three_way (attr_cmp t n) (attr_ok t n)"
proof
  fix x y z assume "attr_ok t n x"
  then show "attr_cmp t n x x = 0"
    by (simp add: attr_cmp_def compare_string_def memcmp_refl compare_int_def sub_i32_def)
  assume xy: "attr_ok t n x" "attr_ok t n y"
  then show "attr_cmp t n x y < 0 \<longleftrightarrow> attr_cmp t n y x > 0"
    using memcmp_anti [of x y n]
    by (auto simp: attr_cmp_def attr_ok_def compare_string_def compare_int_def sub_i32_small Let_def)
  assume "attr_ok t n z" "attr_cmp t n x y \<le> 0" "attr_cmp t n y z \<le> 0"
  with xy show "attr_cmp t n x z \<le> 0"
    using memcmp_trans [of x y z n]
    by (auto simp: attr_cmp_def attr_ok_def compare_string_def compare_int_def sub_i32_small Let_def
        split: if_splits)
qed

interpretation key_lex: three_way_lex "attr_cmp t n" "attr_ok t n" RID_compare RID_ok "\<lambda>v. v" "key_rid n"
  for t n
  using three_way_attr by (simp add: three_way_lex_def rid.three_way_axioms)

interpretation key: three_way "key_cmp t n" "key_ok t n" for t n
  using key_lex.three_way_lex_cmp by (simp add: key_cmp_def key_ok_def [abs_def])

subsection \<open>Properties\<close>

text \<open>
  Property C27: binary search over index keys. On a list of keys that is strictly ascending under the
  index's key comparator, \<open>lower_bound\<close> returns the number of keys smaller than the key looked for
  (every key before the position is smaller, none from it on is), and \<open>found\<close> says whether an equal key
  is in the list; if so the position is its position.
\<close>

theorem key_lower_bound_correct:
  assumes "t \<in> {INTS, CHARS, DATES}" "\<forall>x \<in> set (val # keys). key_ok t n x"
    "sorted_wrt (\<lambda>x y. the (KeyComparator cf t n x y) < 0) keys"
    "lower_bound (\<lambda>x y. the (KeyComparator cf t n x y)) keys val = (p, found)"
  shows "p \<le> length keys \<and> (\<forall>i < p. the (KeyComparator cf t n (keys ! i) val) < 0) \<and>
    (\<forall>i. p \<le> i \<and> i < length keys \<longrightarrow> the (KeyComparator cf t n (keys ! i) val) \<ge> 0) \<and>
    (found \<longleftrightarrow> (\<exists>x \<in> set keys. the (KeyComparator cf t n x val) = 0)) \<and>
    (found \<longrightarrow> p < length keys \<and> the (KeyComparator cf t n (keys ! p) val) = 0)"
proof -
  have eq: "the (KeyComparator cf t n x y) = key_cmp t n x y" for x y
    using KeyComparator_eq [OF assms(1)] by simp
  have asc: "key.ascending t n keys" "key_ok t n val"
    using assms(2,3) by (auto simp: key.ascending_def eq)
  have lb: "lower_bound (key_cmp t n) keys val = (p, found)" using assms(4) by (simp add: eq [abs_def])
  show ?thesis
    using key.lower_bound_ascending [OF asc lb] key.lower_bound_found_iff [OF asc] lb by (simp add: eq)
qed

theorem key_lower_bound_correct_witness:
  "lower_bound (\<lambda>x y. the (KeyComparator (\<lambda>_ _. 0) INTS 4 x y))
     [[1, 0, 0, 0, 0, 0, 0, 0, 0, 0, 0, 0], [3, 0, 0, 0, 0, 0, 0, 0, 0, 0, 0, 0]]
     [3, 0, 0, 0, 0, 0, 0, 0, 0, 0, 0, 0] = (1, True)"
proof -
  let ?a = "[1, 0, 0, 0, 0, 0, 0, 0, 0, 0, 0, 0] :: byte list"
  let ?b = "[3, 0, 0, 0, 0, 0, 0, 0, 0, 0, 0, 0] :: byte list"
  have rd: "read_i32 (nth ?a) 0 = 1" "read_i32 (nth ?b) 0 = 3"
    "read_i32 (nth ?a) 4 = 0" "read_i32 (nth ?b) 4 = 0" "read_i32 (nth ?a) 8 = 0" "read_i32 (nth ?b) 8 = 0"
    by (simp_all add: read_i32_def read_w32_def word32_of_bytes_def nth_Cons')
  have cmps: "the (KeyComparator (\<lambda>_ _. 0) INTS 4 ?a ?b) = - 2" "the (KeyComparator (\<lambda>_ _. 0) INTS 4 ?b ?b) = 0"
    unfolding KeyComparator_def AttrComparator_def compare_int_def key_rid_def RID_compare_def Let_def
    by (simp_all add: rd sub_i32_def)
  have ok: "\<forall>x \<in> set [?b, ?a, ?b]. key_ok INTS 4 x"
    by (simp add: key_ok_def attr_ok_def rd small_i32_def RID_ok_def key_rid_def nonneg_i32_def)
  obtain p found where eq: "lower_bound (\<lambda>x y. the (KeyComparator (\<lambda>_ _. 0) INTS 4 x y)) [?a, ?b] ?b = (p, found)"
    by fastforce
  have "sorted_wrt (\<lambda>x y. the (KeyComparator (\<lambda>_ _. 0) INTS 4 x y) < 0) [?a, ?b]" using cmps by simp
  from key_lower_bound_correct [OF _ ok this eq] cmps
  have "p < 2" "found" "the (KeyComparator (\<lambda>_ _. 0) INTS 4 ([?a, ?b] ! p) ?b) = 0" by auto
  with cmps(1) show ?thesis using eq by (cases p) auto
qed

text \<open>
  The 32-bit subtraction of \<open>compare_int\<close> gives the wrong sign for distant operands: it
  orders 2147483647 before -1, so \<open>compare_int\<close> is not an order on all of \<open>int\<close>.
\<close>

theorem compare_int_wraps:
  "\<exists>a b. read_i32 (nth a) 0 = 2147483647 \<and> read_i32 (nth b) 0 = - 1 \<and> compare_int a b < 0"
proof -
  let ?a = "[255, 255, 255, 127] :: byte list" and ?b = "[255, 255, 255, 255] :: byte list"
  have "read_i32 (nth ?a) 0 = 2147483647" "read_i32 (nth ?b) 0 = - 1"
    by (simp_all add: read_i32_def read_w32_def word32_of_bytes_def nth_Cons')
  then show ?thesis
    by (intro exI [of _ ?a] exI [of _ ?b]) (simp add: compare_int_def sub_i32_def)
qed

end
