(* ===== verification/LruCache.thy ===== *)
theory LruCache
  imports Prelude
begin

section \<open>LRU cache (deps/common/lang/lru_cache.h)\<close>

text \<open>
  The cache is a doubly linked list of heap nodes, a hash set that finds a node by its key, and
  two pointers to the ends. The model keeps the heap explicit: a pointer is an address, \<open>None\<close> of a
  link is \<open>nullptr\<close>, and every dereference goes through the heap, so an operation returns
  \<^const>\<open>None\<close> exactly where the code would follow a null or dangling pointer. The refinement
  lemmas show that under the representation invariant no operation does, and that each one
  computes the operation of the same name on the list of entries, most recently used first.
\<close>

record ('k, 'v) ListNode =
  lkey :: 'k
  lvalue :: 'v
  lprev :: "nat option"
  lnext :: "nat option"

record ('k, 'v) LruCache =
  lheap :: "nat \<Rightarrow> ('k, 'v) ListNode option"
  searcher :: "'k \<Rightarrow> nat option"   \<comment> \<open>\<open>searcher_\<close>: hashed and compared by \<open>key_\<close>\<close>
  lru_front :: "nat option"
  lru_tail :: "nat option"
  lbrk :: nat                       \<comment> \<open>the next address \<open>new\<close> returns\<close>

definition lru_empty :: "('k, 'v) LruCache" where
  "lru_empty = \<lparr>lheap = (\<lambda>_. None), searcher = (\<lambda>_. None), lru_front = None, lru_tail = None, lbrk = 0\<rparr>"

text \<open>\<open>p->field = x\<close>: undefined where \<open>p\<close> is not an allocated node.\<close>

definition set_node ::
  "nat \<Rightarrow> (('k, 'v) ListNode \<Rightarrow> ('k, 'v) ListNode) \<Rightarrow> ('k, 'v) LruCache \<Rightarrow> ('k, 'v) LruCache option" where
  "set_node p f s = (case lheap s p of None \<Rightarrow> None | Some n \<Rightarrow> Some (s\<lparr>lheap := (lheap s)(p \<mapsto> f n)\<rparr>))"

text \<open>The lines that \<open>lru_touch\<close> and \<open>lru_push\<close> share: make \<open>node\<close> the front of the list.\<close>

definition lru_link_front :: "nat \<Rightarrow> ('k, 'v) LruCache \<Rightarrow> ('k, 'v) LruCache option" where
  "lru_link_front node s = do {
     s \<leftarrow> set_node node (lprev_update (\<lambda>_. None)) s;
     s \<leftarrow> set_node node (lnext_update (\<lambda>_. lru_front s)) s;
     s \<leftarrow> (case lru_front s of Some fr \<Rightarrow> set_node fr (lprev_update (\<lambda>_. Some node)) s | None \<Rightarrow> Some s);
     Some (s\<lparr>lru_front := Some node\<rparr>)
   }"

definition lru_touch :: "nat \<Rightarrow> ('k, 'v) LruCache \<Rightarrow> ('k, 'v) LruCache option" where
  "lru_touch node s = do {
     n \<leftarrow> lheap s node;
     case lprev n of None \<Rightarrow> Some s
     | Some pr \<Rightarrow> do {
         s \<leftarrow> set_node pr (lnext_update (\<lambda>_. lnext n)) s;
         s \<leftarrow> (case lnext n of
                 Some nx \<Rightarrow> set_node nx (lprev_update (\<lambda>_. lprev n)) s
               | None \<Rightarrow> Some (s\<lparr>lru_tail := lprev n\<rparr>));
         lru_link_front node s
       }
   }"

definition lru_push :: "nat \<Rightarrow> ('k, 'v) LruCache \<Rightarrow> ('k, 'v) LruCache option" where
  "lru_push node s = do {
     s \<leftarrow> Some (if lru_tail s = None then s\<lparr>lru_tail := Some node\<rparr> else s);
     s \<leftarrow> lru_link_front node s;
     n \<leftarrow> lheap s node;
     Some (s\<lparr>searcher := (if searcher s (lkey n) = None then (searcher s)(lkey n \<mapsto> node) else searcher s)\<rparr>)
   }"

definition lru_remove :: "nat \<Rightarrow> ('k, 'v) LruCache \<Rightarrow> ('k, 'v) LruCache option" where
  "lru_remove node s = do {
     n \<leftarrow> lheap s node;
     s \<leftarrow> (case lprev n of Some pr \<Rightarrow> set_node pr (lnext_update (\<lambda>_. lnext n)) s | None \<Rightarrow> Some s);
     s \<leftarrow> (case lnext n of Some nx \<Rightarrow> set_node nx (lprev_update (\<lambda>_. lprev n)) s | None \<Rightarrow> Some s);
     s \<leftarrow> Some (if lru_front s = Some node then s\<lparr>lru_front := lnext n\<rparr> else s);
     s \<leftarrow> Some (if lru_tail s = Some node then s\<lparr>lru_tail := lprev n\<rparr> else s);
     Some (s\<lparr>searcher := (searcher s)(lkey n := None), lheap := (lheap s)(node := None)\<rparr>)
   }"

definition lru_count_of :: "('k, 'v) LruCache \<Rightarrow> nat" where
  "lru_count_of s = card (dom (searcher s))"

text \<open>\<open>get\<close> returns the new cache and the value found, if any.\<close>

definition lru_get :: "'k \<Rightarrow> ('k, 'v) LruCache \<Rightarrow> (('k, 'v) LruCache \<times> 'v option) option" where
  "lru_get key s =
     (case searcher s key of
        None \<Rightarrow> Some (s, None)
      | Some p \<Rightarrow> do { s \<leftarrow> lru_touch p s; n \<leftarrow> lheap s p; Some (s, Some (lvalue n)) })"

definition lru_put :: "'k \<Rightarrow> 'v \<Rightarrow> ('k, 'v) LruCache \<Rightarrow> ('k, 'v) LruCache option" where
  "lru_put key val s =
     (case searcher s key of
        Some ln \<Rightarrow> do { s \<leftarrow> set_node ln (lvalue_update (\<lambda>_. val)) s; lru_touch ln s }
      | None \<Rightarrow>
          let ln = lbrk s in
          lru_push ln (s\<lparr>lheap := (lheap s)(ln \<mapsto> \<lparr>lkey = key, lvalue = val, lprev = None, lnext = None\<rparr>),
                         lbrk := Suc ln\<rparr>))"

definition lru_remove_key :: "'k \<Rightarrow> ('k, 'v) LruCache \<Rightarrow> ('k, 'v) LruCache option" where
  "lru_remove_key key s = (case searcher s key of None \<Rightarrow> Some s | Some p \<Rightarrow> lru_remove p s)"

definition lru_destroy :: "('k, 'v) LruCache \<Rightarrow> ('k, 'v) LruCache" where
  "lru_destroy s = s\<lparr>lheap := (\<lambda>_. None), searcher := (\<lambda>_. None), lru_front := None, lru_tail := None\<rparr>"

text \<open>
  \<open>foreach\<close> and \<open>foreach_reverse\<close> follow the links; the callback works on a state of its own and
  stops the walk by returning false. A walk over a cyclic list would not return, hence the option.
\<close>

partial_function (option) foreach_loop ::
  "('k, 'v) LruCache \<Rightarrow> ('k \<Rightarrow> 'v \<Rightarrow> 's \<Rightarrow> bool \<times> 's) \<Rightarrow> nat option \<Rightarrow> 's \<Rightarrow> 's option" where
  "foreach_loop s func node st =
     (case node of None \<Rightarrow> Some st
      | Some p \<Rightarrow> (case lheap s p of None \<Rightarrow> None
          | Some n \<Rightarrow> (case func (lkey n) (lvalue n) st of (go, st') \<Rightarrow>
              if go then foreach_loop s func (lnext n) st' else Some st')))"

partial_function (option) foreach_reverse_loop ::
  "('k, 'v) LruCache \<Rightarrow> ('k \<Rightarrow> 'v \<Rightarrow> 's \<Rightarrow> bool \<times> 's) \<Rightarrow> nat option \<Rightarrow> 's \<Rightarrow> 's option" where
  "foreach_reverse_loop s func node st =
     (case node of None \<Rightarrow> Some st
      | Some p \<Rightarrow> (case lheap s p of None \<Rightarrow> None
          | Some n \<Rightarrow> (case func (lkey n) (lvalue n) st of (go, st') \<Rightarrow>
              if go then foreach_reverse_loop s func (lprev n) st' else Some st')))"

definition lru_foreach :: "('k \<Rightarrow> 'v \<Rightarrow> 's \<Rightarrow> bool \<times> 's) \<Rightarrow> ('k, 'v) LruCache \<Rightarrow> 's \<Rightarrow> 's option" where
  "lru_foreach func s st = foreach_loop s func (lru_front s) st"

definition lru_foreach_reverse :: "('k \<Rightarrow> 'v \<Rightarrow> 's \<Rightarrow> bool \<times> 's) \<Rightarrow> ('k, 'v) LruCache \<Rightarrow> 's \<Rightarrow> 's option" where
  "lru_foreach_reverse func s st = foreach_reverse_loop s func (lru_tail s) st"

subsection \<open>The abstract cache: entries, most recently used first\<close>

definition al_touch :: "'k \<Rightarrow> ('k \<times> 'v) list \<Rightarrow> ('k \<times> 'v) list" where
  "al_touch k l = filter (\<lambda>e. fst e = k) l @ filter (\<lambda>e. fst e \<noteq> k) l"

definition al_put :: "'k \<Rightarrow> 'v \<Rightarrow> ('k \<times> 'v) list \<Rightarrow> ('k \<times> 'v) list" where
  "al_put k v l = (k, v) # filter (\<lambda>e. fst e \<noteq> k) l"

definition al_remove :: "'k \<Rightarrow> ('k \<times> 'v) list \<Rightarrow> ('k \<times> 'v) list" where
  "al_remove k l = filter (\<lambda>e. fst e \<noteq> k) l"

fun walk :: "('k \<Rightarrow> 'v \<Rightarrow> 's \<Rightarrow> bool \<times> 's) \<Rightarrow> ('k \<times> 'v) list \<Rightarrow> 's \<Rightarrow> 's" where
  "walk func [] st = st"
| "walk func ((k, v) # l) st = (case func k v st of (go, st') \<Rightarrow> if go then walk func l st' else st')"

subsection \<open>Linked segments\<close>

definition hd_or :: "'a list \<Rightarrow> 'a option \<Rightarrow> 'a option" where
  "hd_or xs d = (case xs of [] \<Rightarrow> d | x # _ \<Rightarrow> Some x)"

definition last_or :: "'a list \<Rightarrow> 'a option \<Rightarrow> 'a option" where
  "last_or xs d = (if xs = [] then d else Some (last xs))"

lemma hd_or_simps [simp]: "hd_or [] d = d" "hd_or (x # xs) d = Some x"
  by (simp_all add: hd_or_def)

lemma last_or_simps [simp]: "last_or [] d = d" "last_or (xs @ [x]) d = Some x"
  "last_or (x # xs) d = last_or xs (Some x)"
  by (auto simp: last_or_def)

lemma last_or_append [simp]: "last_or (xs @ ys) d = last_or ys (last_or xs d)"
  by (auto simp: last_or_def)

lemma hd_or_append [simp]: "hd_or (xs @ ys) d = hd_or xs (hd_or ys d)"
  by (cases xs) auto

fun seg :: "(nat \<Rightarrow> ('k, 'v) ListNode option) \<Rightarrow> nat option \<Rightarrow> nat list \<Rightarrow> nat option \<Rightarrow> bool" where
  "seg h pr [] nx = True"
| "seg h pr (p # ps) nx =
     (case h p of None \<Rightarrow> False
      | Some n \<Rightarrow> lprev n = pr \<and> lnext n = hd_or ps nx \<and> seg h (Some p) ps nx)"

lemma seg_append: "seg h pr (xs @ ys) nx \<longleftrightarrow> seg h pr xs (hd_or ys nx) \<and> seg h (last_or xs pr) ys nx"
  by (induction xs arbitrary: pr) (auto split: option.splits)

lemma seg_upd_other [simp]: "p \<notin> set ps \<Longrightarrow> seg (h(p := x)) pr ps nx = seg h pr ps nx"
  by (induction ps arbitrary: pr) (auto split: option.splits)

lemma seg_dom: "seg h pr ps nx \<Longrightarrow> p \<in> set ps \<Longrightarrow> \<exists>n. h p = Some n"
  by (induction ps arbitrary: pr) (auto split: option.splits)

text \<open>Writing one link field through a pointer that may be null.\<close>

definition set_next :: "(nat \<Rightarrow> ('k, 'v) ListNode option) \<Rightarrow> nat option \<Rightarrow> nat option \<Rightarrow> nat \<Rightarrow> ('k, 'v) ListNode option" where
  "set_next h po v = (case po of None \<Rightarrow> h | Some p \<Rightarrow> h(p := map_option (lnext_update (\<lambda>_. v)) (h p)))"

definition set_prev :: "(nat \<Rightarrow> ('k, 'v) ListNode option) \<Rightarrow> nat option \<Rightarrow> nat option \<Rightarrow> nat \<Rightarrow> ('k, 'v) ListNode option" where
  "set_prev h po v = (case po of None \<Rightarrow> h | Some p \<Rightarrow> h(p := map_option (lprev_update (\<lambda>_. v)) (h p)))"

lemma set_link_None [simp]: "set_next h None v = h" "set_prev h None v = h"
  by (simp_all add: set_next_def set_prev_def)

lemma dom_set_link [simp]: "dom (set_next h po v) = dom h" "dom (set_prev h po v) = dom h"
  by (auto simp: set_next_def set_prev_def split: option.splits if_splits)

lemma set_link_other [simp]:
  "po \<noteq> Some p \<Longrightarrow> set_next h po v p = h p" "po \<noteq> Some p \<Longrightarrow> set_prev h po v p = h p"
  by (auto simp: set_next_def set_prev_def split: option.splits)

lemma seg_set_link_other:
  "(\<And>p. po = Some p \<Longrightarrow> p \<notin> set ps) \<Longrightarrow> seg (set_next h po v) pr ps nx = seg h pr ps nx"
  "(\<And>p. po = Some p \<Longrightarrow> p \<notin> set ps) \<Longrightarrow> seg (set_prev h po v) pr ps nx = seg h pr ps nx"
  by (cases po; simp add: set_next_def set_prev_def)+

lemma seg_set_next:
  "seg h pr xs nx \<Longrightarrow> distinct xs \<Longrightarrow> seg (set_next h (last_or xs None) nx') pr xs nx'"
  by (cases xs rule: rev_cases) (auto simp: seg_append set_next_def split: option.splits)

lemma seg_set_prev:
  "seg h pr ys nx \<Longrightarrow> distinct ys \<Longrightarrow> seg (set_prev h (hd_or ys None) pr') pr' ys nx"
  by (cases ys) (auto simp: set_prev_def split: option.splits)

lemma last_or_mem: "last_or xs None = Some p \<Longrightarrow> p \<in> set xs"
  by (auto simp: last_or_def split: if_splits)

lemma hd_or_mem: "hd_or xs None = Some p \<Longrightarrow> p \<in> set xs"
  by (cases xs) auto

text \<open>Taking a node out of the list, and putting a node in front of it.\<close>

lemma seg_unlink:
  assumes "seg h None (xs @ p # ys) None" "distinct (xs @ p # ys)"
  shows "seg (set_prev (set_next h (last_or xs None) (hd_or ys None)) (hd_or ys None) (last_or xs None))
    None (xs @ ys) None"
proof -
  let ?h = "set_next h (last_or xs None) (hd_or ys None)"
  have a: "seg h None xs (Some p)" "seg h (Some p) ys None" "distinct xs" "distinct ys"
    and disj: "set xs \<inter> set ys = {}"
    using assms by (auto simp: seg_append split: option.splits)
  have "seg ?h None xs (hd_or ys None)" using a by (auto intro: seg_set_next)
  then have 1: "seg (set_prev ?h (hd_or ys None) (last_or xs None)) None xs (hd_or ys None)"
    using disj by (subst seg_set_link_other) (auto dest: hd_or_mem)
  have "seg ?h (Some p) ys None"
    using a disj by (subst seg_set_link_other) (auto dest: last_or_mem)
  then have 2: "seg (set_prev ?h (hd_or ys None) (last_or xs None)) (last_or xs None) ys None"
    using a by (auto intro: seg_set_prev)
  from 1 2 show ?thesis by (simp add: seg_append)
qed

lemma seg_push:
  assumes "seg h None ps None" "distinct ps" "p \<notin> set ps" "h p = Some n"
    "lprev n = None" "lnext n = hd_or ps None"
  shows "seg (set_prev h (hd_or ps None) (Some p)) None (p # ps) None"
proof -
  have "hd_or ps None \<noteq> Some p" using assms(3) by (auto dest: hd_or_mem)
  then show ?thesis using assms seg_set_prev [OF assms(1,2), of "Some p"] by simp
qed

subsection \<open>The representation relation\<close>

definition entry :: "(nat \<Rightarrow> ('k, 'v) ListNode option) \<Rightarrow> nat \<Rightarrow> 'k \<times> 'v" where
  "entry h p = (case h p of Some n \<Rightarrow> (lkey n, lvalue n) | None \<Rightarrow> undefined)"

definition lru_inv :: "('k, 'v) LruCache \<Rightarrow> nat list \<Rightarrow> bool" where
  "lru_inv s ps \<longleftrightarrow>
     distinct ps \<and> seg (lheap s) None ps None \<and>
     lru_front s = hd_or ps None \<and> lru_tail s = last_or ps None \<and>
     dom (lheap s) = set ps \<and> (\<forall>p \<in> set ps. p < lbrk s) \<and>
     (\<forall>k p. searcher s k = Some p \<longleftrightarrow> p \<in> set ps \<and> fst (entry (lheap s) p) = k)"

definition lru_rep :: "('k, 'v) LruCache \<Rightarrow> ('k \<times> 'v) list \<Rightarrow> bool" where
  "lru_rep s l \<longleftrightarrow> (\<exists>ps. lru_inv s ps \<and> l = map (entry (lheap s)) ps)"

lemma entry_set_link [simp]: "entry (set_next h po v) = entry h" "entry (set_prev h po v) = entry h"
  by (auto simp: entry_def set_next_def set_prev_def fun_eq_iff split: option.splits)

lemma entry_upd_other [simp]: "p \<noteq> q \<Longrightarrow> entry (h(p := x)) q = entry h q"
  by (simp add: entry_def)

lemma entry_upd_same [simp]: "entry (h(p \<mapsto> n)) p = (lkey n, lvalue n)"
  by (simp add: entry_def)

lemma entry_fun_upd: "entry (h(p \<mapsto> n)) = (entry h)(p := (lkey n, lvalue n))"
  by (auto simp: fun_eq_iff entry_def)

lemma entry_Some: "h p = Some n \<Longrightarrow> entry h p = (lkey n, lvalue n)"
  by (simp add: entry_def)

lemma map_entry_upd_other [simp]: "p \<notin> set ps \<Longrightarrow> map (entry (h(p := x))) ps = map (entry h) ps"
  by (induction ps) auto

lemma lru_invD:
  assumes "lru_inv s ps"
  shows "distinct ps" "seg (lheap s) None ps None" "lru_front s = hd_or ps None"
    "lru_tail s = last_or ps None" "dom (lheap s) = set ps" "\<And>p. p \<in> set ps \<Longrightarrow> p < lbrk s"
    "\<And>k p. searcher s k = Some p \<longleftrightarrow> p \<in> set ps \<and> fst (entry (lheap s) p) = k"
  using assms by (auto simp: lru_inv_def)

lemma lru_inv_distinct_keys:
  assumes "lru_inv s ps"
  shows "distinct (map fst (map (entry (lheap s)) ps))"
proof -
  have "inj_on (\<lambda>p. fst (entry (lheap s) p)) (set ps)"
  proof (rule inj_onI)
    fix p q assume "p \<in> set ps" "q \<in> set ps" "fst (entry (lheap s) p) = fst (entry (lheap s) q)"
    then show "p = q" using lru_invD(7) [OF assms] by (metis option.inject)
  qed
  then show ?thesis using lru_invD(1) [OF assms] by (simp add: distinct_map comp_def)
qed

lemma lru_inv_split:
  assumes "lru_inv s ps" "p \<in> set ps"
  obtains xs ys n where "ps = xs @ p # ys" "lheap s p = Some n"
    "lprev n = last_or xs None" "lnext n = hd_or ys None" "p \<notin> set xs" "p \<notin> set ys"
proof -
  obtain xs ys where ps: "ps = xs @ p # ys" using assms(2) by (meson split_list)
  from lru_invD(1,2) [OF assms(1)] ps that show ?thesis
    by (auto simp: seg_append split: option.splits)
qed

lemma set_node_Some:
  "lheap s p = Some n \<Longrightarrow> set_node p f s = Some (s\<lparr>lheap := (lheap s)(p \<mapsto> f n)\<rparr>)"
  by (simp add: set_node_def)

lemma lru_link_front_eq:
  assumes "lheap s p = Some n" "lru_front s \<noteq> Some p" "\<And>f. lru_front s = Some f \<Longrightarrow> \<exists>nf. lheap s f = Some nf"
  shows "lru_link_front p s =
    Some (s\<lparr>lheap := set_prev ((lheap s)(p \<mapsto> n\<lparr>lprev := None, lnext := lru_front s\<rparr>)) (lru_front s) (Some p),
            lru_front := Some p\<rparr>)"
  using assms by (cases "lru_front s") (auto simp: lru_link_front_def set_node_Some set_prev_def)

lemma lru_touch_first: "lheap s p = Some n \<Longrightarrow> lprev n = None \<Longrightarrow> lru_touch p s = Some s"
  by (simp add: lru_touch_def)

text \<open>The state after \<open>lru_touch\<close> of a node that is not in front.\<close>

lemma lru_touch_eq:
  assumes inv: "lru_inv s (xs @ p # ys)" and "xs \<noteq> []"
  shows "\<exists>h. lru_touch p s = Some (s\<lparr>lheap := h, lru_front := Some p, lru_tail := last_or (p # xs @ ys) None\<rparr>) \<and>
    seg h None (p # xs @ ys) None \<and> dom h = dom (lheap s) \<and> entry h = entry (lheap s)"
proof -
  obtain us q where xs: "xs = us @ [q]" using \<open>xs \<noteq> []\<close> by (meson rev_exhaust)
  note d = lru_invD [OF inv]
  let ?h0 = "lheap s"
  obtain n where n: "?h0 p = Some n" "lprev n = Some q" "lnext n = hd_or ys None"
    using d(2) xs by (auto simp: seg_append split: option.splits)
  let ?h1 = "set_next ?h0 (Some q) (hd_or ys None)"
  let ?h2 = "set_prev ?h1 (hd_or ys None) (Some q)"
  let ?t = "last_or ys (Some q)"
  have dist: "distinct (xs @ p # ys)" using d(1) .
  have seg2: "seg ?h2 None (xs @ ys) None"
    using seg_unlink [OF d(2) dist] xs by simp
  have "q \<noteq> p" "hd_or ys None \<noteq> Some p" "hd_or ys None \<noteq> Some q"
    using dist xs by (auto dest: hd_or_mem)
  then have h2p: "?h2 p = Some n" using n by simp
  obtain nq where nq: "?h0 q = Some nq" using seg_dom [OF d(2), of q] xs by auto
  define s1 where "s1 = s\<lparr>lheap := ?h1\<rparr>"
  have s1: "set_node q (lnext_update (\<lambda>_. lnext n)) s = Some s1"
    using nq n by (simp add: set_node_Some set_next_def s1_def)
  have s2: "(case lnext n of Some nx \<Rightarrow> set_node nx (lprev_update (\<lambda>_. lprev n)) s1
      | None \<Rightarrow> Some (s1\<lparr>lru_tail := lprev n\<rparr>)) = Some (s\<lparr>lheap := ?h2, lru_tail := ?t\<rparr>)"
  proof (cases ys)
    case Nil
    then show ?thesis using n by (simp add: s1_def)
  next
    case (Cons r zs)
    obtain nr where "?h0 r = Some nr" using seg_dom [OF d(2), of r] Cons by auto
    moreover have "r \<noteq> q" using dist xs Cons by auto
    ultimately have "?h1 r = Some nr" by simp
    moreover have "lru_tail s = ?t" using d(4) xs Cons by simp
    ultimately show ?thesis
      using n Cons by (simp add: s1_def set_node_Some set_prev_def)
  qed
  let ?n3 = "n\<lparr>lprev := None, lnext := hd_or (xs @ ys) None\<rparr>"
  let ?h3 = "?h2(p \<mapsto> ?n3)"
  let ?h4 = "set_prev ?h3 (hd_or (xs @ ys) None) (Some p)"
  have p_new: "p \<notin> set (xs @ ys)" using dist by simp
  have seg3: "seg ?h3 None (xs @ ys) None" using seg2 p_new by simp
  have seg4: "seg ?h4 None (p # xs @ ys) None"
    using seg_push [OF seg3 _ p_new, of ?n3] dist by simp
  have front: "lru_front s = hd_or (xs @ ys) None" using d(3) xs by (cases us) auto
  have "lru_link_front p (s\<lparr>lheap := ?h2, lru_tail := ?t\<rparr>) =
      Some (s\<lparr>lheap := ?h4, lru_front := Some p, lru_tail := ?t\<rparr>)"
  proof -
    have "lru_front s \<noteq> Some p" 
      using front p_new by (auto simp del: hd_or_append dest: hd_or_mem)
    moreover have "\<exists>nf. ?h2 f = Some nf" if "lru_front s = Some f" for f
      using that front seg_dom [OF seg2] by (metis hd_or_mem)
    ultimately show ?thesis
      using h2p front by (subst lru_link_front_eq [where n = n]) auto
  qed
  then have "lru_touch p s = Some (s\<lparr>lheap := ?h4, lru_front := Some p, lru_tail := ?t\<rparr>)"
    using n s1 s2 by (simp add: lru_touch_def)
  moreover have "?t = last_or (p # xs @ ys) None" using xs by simp
  moreover have "entry ?h4 = entry ?h0"
    using entry_Some [of ?h0 p n] n by (simp add: entry_fun_upd fun_upd_idem_iff)
  moreover have "dom ?h4 = dom ?h0" using n by auto
  ultimately show ?thesis using seg4 by (intro exI [of _ ?h4]) (simp del: seg.simps)
qed

lemma lru_touch_inv:
  assumes "lru_inv s ps" "p \<in> set ps"
  obtains s' where "lru_touch p s = Some s'" "lru_inv s' (p # remove1 p ps)"
    "entry (lheap s') = entry (lheap s)"
proof -
  obtain xs ys n where sp: "ps = xs @ p # ys" "lheap s p = Some n" "lprev n = last_or xs None"
    "p \<notin> set xs" "p \<notin> set ys"
    using lru_inv_split [OF assms] by metis
  show thesis
  proof (cases "xs = []")
    case True
    then have "lru_touch p s = Some s" using sp by (simp add: lru_touch_first)
    then show thesis using that assms(1) sp True by simp
  next
    case False
    obtain h where h: "lru_touch p s = Some (s\<lparr>lheap := h, lru_front := Some p, lru_tail := last_or (p # xs @ ys) None\<rparr>)"
      "seg h None (p # xs @ ys) None" "dom h = dom (lheap s)" "entry h = entry (lheap s)"
      using lru_touch_eq [of s xs p ys] assms(1) sp(1) False by blast
    let ?s' = "s\<lparr>lheap := h, lru_front := Some p, lru_tail := last_or (p # xs @ ys) None\<rparr>"
    have "lru_inv ?s' (p # xs @ ys)"
      using assms(1) sp h unfolding lru_inv_def by auto
    then show thesis using that [of ?s'] h sp by (simp add: remove1_append)
  qed
qed

lemma filter_entries:
  assumes "lru_inv s ps" "p \<in> set ps" "fst (entry (lheap s) p) = k"
  shows "filter (\<lambda>e. fst e = k) (map (entry (lheap s)) ps) = [entry (lheap s) p]"
    "filter (\<lambda>e. fst e \<noteq> k) (map (entry (lheap s)) ps) = map (entry (lheap s)) (remove1 p ps)"
proof -
  obtain xs ys where ps: "ps = xs @ p # ys" using assms(2) by (meson split_list)
  have ne: "fst (entry (lheap s) q) \<noteq> k" if "q \<in> set xs \<union> set ys" for q
    using lru_inv_distinct_keys [OF assms(1)] that ps assms(3) by (force simp: image_iff)
  have "remove1 p ps = xs @ ys"
    using lru_invD(1) [OF assms(1)] ps by (simp add: remove1_append)
  with ne assms(3) show "filter (\<lambda>e. fst e = k) (map (entry (lheap s)) ps) = [entry (lheap s) p]"
    "filter (\<lambda>e. fst e \<noteq> k) (map (entry (lheap s)) ps) = map (entry (lheap s)) (remove1 p ps)"
    unfolding ps by (auto simp: filter_empty_conv filter_id_conv)
qed

lemma map_entry_touch:
  assumes "lru_inv s ps" "p \<in> set ps"
  shows "map (entry (lheap s)) (p # remove1 p ps) =
    al_touch (fst (entry (lheap s) p)) (map (entry (lheap s)) ps)"
  using filter_entries [OF assms refl] by (simp add: al_touch_def)

lemma searcher_None_iff:
  assumes "lru_inv s ps"
  shows "searcher s k = None \<longleftrightarrow> k \<notin> fst ` set (map (entry (lheap s)) ps)"
proof -
  have "(\<exists>p. searcher s k = Some p) \<longleftrightarrow> (\<exists>p. p \<in> set ps \<and> fst (entry (lheap s) p) = k)"
    by (simp add: lru_invD(7) [OF assms])
  then show ?thesis by (cases "searcher s k") auto
qed

lemma map_of_entries:
  assumes "lru_inv s ps"
  shows "map_of (map (entry (lheap s)) ps) k = map_option (\<lambda>p. snd (entry (lheap s) p)) (searcher s k)"
proof (cases "searcher s k")
  case None
  then have "k \<notin> fst ` set (map (entry (lheap s)) ps)"
    using lru_invD(7) [OF assms, of k] by (auto simp: image_image)
  with None show ?thesis by (simp add: map_of_eq_None_iff)
next
  case (Some p)
  then have p: "p \<in> set ps" "fst (entry (lheap s) p) = k" using lru_invD(7) [OF assms] by auto
  then have "(k, snd (entry (lheap s) p)) \<in> set (map (entry (lheap s)) ps)"
    by (metis image_eqI list.set_map prod.collapse)
  with Some show ?thesis
    using lru_inv_distinct_keys [OF assms] by simp
qed

text \<open>Refinement of each operation.\<close>

lemma lru_rep_empty: "lru_rep lru_empty []"
  by (auto simp: lru_rep_def lru_inv_def lru_empty_def)

lemma lru_rep_distinct: "lru_rep s l \<Longrightarrow> distinct (map fst l)"
  using lru_inv_distinct_keys by (auto simp: lru_rep_def)

lemma lru_get_refine:
  assumes "lru_rep s l"
  shows "\<exists>s'. lru_get k s = Some (s', map_of l k) \<and> lru_rep s' (al_touch k l)"
proof -
  obtain ps where inv: "lru_inv s ps" and l: "l = map (entry (lheap s)) ps"
    using assms by (auto simp: lru_rep_def)
  show ?thesis
  proof (cases "searcher s k")
    case None
    then have "map_of l k = None" using map_of_entries [OF inv] l by simp
    moreover from this have "fst e \<noteq> k" if "e \<in> set l" for e
      using that by (auto simp: map_of_eq_None_iff)
    then have "al_touch k l = l"
      by (auto simp: al_touch_def filter_empty_conv filter_id_conv)
    ultimately show ?thesis using None assms by (simp add: lru_get_def)
  next
    case (Some p)
    then have p: "p \<in> set ps" "fst (entry (lheap s) p) = k" using lru_invD(7) [OF inv] by auto
    obtain s' where s': "lru_touch p s = Some s'" "lru_inv s' (p # remove1 p ps)"
      "entry (lheap s') = entry (lheap s)"
      using lru_touch_inv [OF inv p(1)] .
    obtain n where n: "lheap s' p = Some n" using lru_invD(5) [OF s'(2)] by auto
    have "entry (lheap s') p = (lkey n, lvalue n)" using n by (simp add: entry_def)
    with s'(3) have "map_of l k = Some (lvalue n)"
      using map_of_entries [OF inv, of k] Some l by simp
    moreover have "lru_rep s' (al_touch k l)"
      unfolding lru_rep_def
      using s'(2,3) map_entry_touch [OF inv p(1)] p(2) l
      by (intro exI [of _ "p # remove1 p ps"]) simp
    ultimately show ?thesis using Some s' n by (simp add: lru_get_def)
  qed
qed

lemma lru_put_new_refine:
  assumes "lru_rep s l" "k \<notin> fst ` set l"
  shows "\<exists>s'. lru_put k v s = Some s' \<and> lru_rep s' ((k, v) # l)"
proof -
  obtain ps where inv: "lru_inv s ps" and l: "l = map (entry (lheap s)) ps"
    using assms by (auto simp: lru_rep_def)
  note d = lru_invD [OF inv]
  have none: "searcher s k = None"
    using searcher_None_iff [OF inv, of k] assms(2) l by simp
  let ?p = "lbrk s" and ?n = "\<lparr>lkey = k, lvalue = v, lprev = None, lnext = None\<rparr>"
  have p_new: "?p \<notin> set ps" using d(6) by blast
  define t where "t = (if lru_tail s = None then Some ?p else lru_tail s)"
  define s0 where "s0 = s\<lparr>lheap := (lheap s)(?p \<mapsto> ?n), lru_tail := t, lbrk := Suc ?p\<rparr>"
  have tail: "t = last_or (?p # ps) None" using d(4) by (auto simp: t_def last_or_def)
  let ?n' = "?n\<lparr>lprev := None, lnext := lru_front s\<rparr>"
  let ?h = "set_prev ((lheap s)(?p \<mapsto> ?n')) (lru_front s) (Some ?p)"
  have seg0: "seg ((lheap s)(?p \<mapsto> ?n')) None ps None" using d(2) p_new by simp
  have fr: "lru_front s \<noteq> Some ?p" using d(3) p_new by (auto dest: hd_or_mem)
  have "\<exists>nf. lheap s0 f = Some nf" if "lru_front s0 = Some f" for f
    using that d(3) seg_dom [OF d(2)] by (auto simp: s0_def dest: hd_or_mem)
  with fr have "lru_link_front ?p s0 = Some (s0\<lparr>lheap := ?h, lru_front := Some ?p\<rparr>)"
    by (subst lru_link_front_eq [where n = ?n]) (auto simp: s0_def)
  moreover have h_p: "?h ?p = Some ?n'" using fr by simp
  moreover have "(let s1 = s\<lparr>lheap := (lheap s)(?p \<mapsto> ?n), lbrk := Suc ?p\<rparr>
      in if lru_tail s1 = None then s1\<lparr>lru_tail := Some ?p\<rparr> else s1) = s0"
    by (cases s) (auto simp: s0_def t_def)
  moreover have "searcher s0 = searcher s" by (simp add: s0_def)
  ultimately have put: "lru_put k v s =
      Some (s0\<lparr>lheap := ?h, lru_front := Some ?p, searcher := (searcher s)(k \<mapsto> ?p)\<rparr>)"
    using none by (simp add: lru_put_def lru_push_def Let_def)
  have ent: "entry ?h = (entry (lheap s))(?p := (k, v))"
    by (auto simp: fun_eq_iff entry_def)
  have "seg ?h None (?p # ps) None"
    using seg_push [OF seg0 d(1) p_new, of ?n'] d(3) by simp
  moreover have "dom ?h = set (?p # ps)" using d(5) by auto
  moreover have "((searcher s)(k \<mapsto> ?p)) k' = Some q \<longleftrightarrow> q \<in> set (?p # ps) \<and> fst (entry ?h q) = k'" for k' q
    unfolding ent using d(7) [of k' q] d(7) [of k q] none p_new by auto
  ultimately have "lru_inv (s0\<lparr>lheap := ?h, lru_front := Some ?p, searcher := (searcher s)(k \<mapsto> ?p)\<rparr>) (?p # ps)"
    using d p_new tail by (auto simp: lru_inv_def s0_def intro: less_SucI)
  moreover have "map (entry ?h) (?p # ps) = (k, v) # l" using ent p_new l by simp
  ultimately show ?thesis using put by (auto simp: lru_rep_def)
qed

lemma lru_put_old_refine:
  assumes "lru_rep s l" "k \<in> fst ` set l"
  shows "\<exists>s'. lru_put k v s = Some s' \<and> lru_rep s' (al_put k v l)"
proof -
  obtain ps where inv: "lru_inv s ps" and l: "l = map (entry (lheap s)) ps"
    using assms by (auto simp: lru_rep_def)
  note d = lru_invD [OF inv]
  obtain p where p: "searcher s k = Some p"
    using assms(2) l d(7) by auto
  then have pp: "p \<in> set ps" "fst (entry (lheap s) p) = k" using d(7) by auto
  then obtain n where n: "lheap s p = Some n" using seg_dom [OF d(2)] by blast
  let ?h = "(lheap s)(p \<mapsto> n\<lparr>lvalue := v\<rparr>)"
  have key: "lkey n = k" using n pp by (simp add: entry_def)
  have ent: "entry ?h = (entry (lheap s))(p := (k, v))" using key by (auto simp: fun_eq_iff entry_def)
  have "seg ?h pr xs nx = seg (lheap s) pr xs nx" for pr xs nx
    using n by (induction xs arbitrary: pr) (auto split: option.splits)
  then have inv1: "lru_inv (s\<lparr>lheap := ?h\<rparr>) ps"
    unfolding lru_inv_def using d pp by (auto simp: ent)
  obtain s' where s': "lru_touch p (s\<lparr>lheap := ?h\<rparr>) = Some s'" "lru_inv s' (p # remove1 p ps)"
      "entry (lheap s') = entry ?h"
    using lru_touch_inv [OF inv1 pp(1)] by auto
  have "p \<notin> set (remove1 p ps)" using d(1) by simp
  then have "map (entry ?h) (p # remove1 p ps) = al_put k v l"
    using filter_entries(2) [OF inv pp] l key by (simp add: al_put_def)
  with s' show ?thesis using p n
    by (auto simp: lru_put_def set_node_Some lru_rep_def intro!: exI [of _ "p # remove1 p ps"])
qed

lemma lru_put_refine:
  assumes "lru_rep s l"
  shows "\<exists>s'. lru_put k v s = Some s' \<and> lru_rep s' (al_put k v l)"
proof (cases "k \<in> fst ` set l")
  case True
  with assms show ?thesis by (rule lru_put_old_refine)
next
  case False
  then have "al_put k v l = (k, v) # l" by (auto simp: al_put_def filter_id_conv)
  with lru_put_new_refine [OF assms False] show ?thesis by simp
qed

lemma lru_remove_refine:
  assumes "lru_rep s l"
  shows "\<exists>s'. lru_remove_key k s = Some s' \<and> lru_rep s' (al_remove k l)"
proof -
  obtain ps where inv: "lru_inv s ps" and l: "l = map (entry (lheap s)) ps"
    using assms by (auto simp: lru_rep_def)
  note d = lru_invD [OF inv]
  show ?thesis
  proof (cases "searcher s k")
    case None
    then have "al_remove k l = l"
      using searcher_None_iff [OF inv, of k] l by (auto simp: al_remove_def filter_id_conv)
    with None assms show ?thesis by (simp add: lru_remove_key_def)
  next
    case (Some p)
    then have pp: "p \<in> set ps" "fst (entry (lheap s) p) = k" using d(7) by auto
    obtain xs ys n where sp: "ps = xs @ p # ys" "lheap s p = Some n" "lprev n = last_or xs None"
      "lnext n = hd_or ys None" "p \<notin> set xs" "p \<notin> set ys"
      using lru_inv_split [OF inv pp(1)] by metis
    have key: "lkey n = k" using pp(2) entry_Some [of "lheap s" p n] sp(2) by simp
    let ?h1 = "set_next (lheap s) (last_or xs None) (hd_or ys None)"
    let ?h2 = "set_prev ?h1 (hd_or ys None) (last_or xs None)"
    let ?h = "?h2(p := None)"
    have seg2: "seg ?h2 None (xs @ ys) None" using seg_unlink d(1,2) sp(1) by blast
    let ?s' = "s\<lparr>lheap := ?h, lru_front := hd_or (xs @ ys) None, lru_tail := last_or (xs @ ys) None,
      searcher := (searcher s)(k := None)\<rparr>"
    have 1: "(case lprev n of Some pr \<Rightarrow> set_node pr (lnext_update (\<lambda>_. lnext n)) s | None \<Rightarrow> Some s) =
        Some (s\<lparr>lheap := ?h1\<rparr>)"
      using sp seg_dom [OF d(2)] last_or_mem [of xs]
      by (cases "last_or xs None") (auto simp: set_node_def set_next_def split: option.splits)
    have 2: "(case lnext n of Some nx \<Rightarrow> set_node nx (lprev_update (\<lambda>_. lprev n)) (s\<lparr>lheap := ?h1\<rparr>)
        | None \<Rightarrow> Some (s\<lparr>lheap := ?h1\<rparr>)) = Some (s\<lparr>lheap := ?h2\<rparr>)"
    proof (cases "hd_or ys None")
      case (Some r)
      then have "r \<in> dom ?h1" using d(5) sp(1) hd_or_mem [of ys] by simp
      then obtain nr where "?h1 r = Some nr" by blast
      with Some sp show ?thesis by (simp add: set_node_def set_prev_def)
    qed (use sp in simp)
    have 3: "(if lru_front s = Some p then lnext n else lru_front s) = hd_or (xs @ ys) None"
      using d(3) sp by (cases xs) auto
    have 4: "(if lru_tail s = Some p then lprev n else lru_tail s) = last_or (xs @ ys) None"
      using d(4) sp by (cases ys rule: rev_cases) auto
    have rm: "lru_remove p s = Some ?s'"
    proof -
      have "lru_remove p s = Some (let s2 = s\<lparr>lheap := ?h2\<rparr>;
          s3 = (if lru_front s2 = Some p then s2\<lparr>lru_front := lnext n\<rparr> else s2);
          s4 = (if lru_tail s3 = Some p then s3\<lparr>lru_tail := lprev n\<rparr> else s3)
        in s4\<lparr>searcher := (searcher s4)(k := None), lheap := (lheap s4)(p := None)\<rparr>)"
        using sp(2) 1 2 key by (simp add: lru_remove_def Let_def)
      also have "\<dots> = Some ?s'"
        unfolding 3 [symmetric] 4 [symmetric] by (cases s) simp
      finally show ?thesis .
    qed
    have ent: "q \<noteq> p \<Longrightarrow> entry ?h q = entry (lheap s) q" for q by simp
    have "((searcher s)(k := None)) k' = Some q \<longleftrightarrow> q \<in> set (xs @ ys) \<and> fst (entry ?h q) = k'" for k' q
      using d(7) [of k' q] d(7) [of k q] Some sp pp by (cases "q = p") auto
    moreover have "seg ?h None (xs @ ys) None" using seg2 sp by simp
    moreover have "dom ?h = set (xs @ ys)" using d(5) sp by auto
    ultimately have "lru_inv ?s' (xs @ ys)"
      unfolding lru_inv_def using d sp by auto
    moreover have "map (entry ?h) (xs @ ys) = al_remove k l"
      using filter_entries(2) [OF inv pp] sp l by (simp add: al_remove_def remove1_append)
    ultimately show ?thesis using Some rm by (auto simp: lru_remove_key_def lru_rep_def)
  qed
qed

text \<open>The walks over the list.\<close>

lemma foreach_loop_seg:
  assumes "seg (lheap s) pr ps None"
  shows "foreach_loop s func (hd_or ps None) st = Some (walk func (map (entry (lheap s)) ps) st)"
  using assms
proof (induction ps arbitrary: pr st)
  case Nil
  then show ?case by (simp add: foreach_loop.simps)
next
  case (Cons p ps)
  then obtain n where n: "lheap s p = Some n" "lnext n = hd_or ps None" "seg (lheap s) (Some p) ps None"
    by (auto split: option.splits)
  from Cons.IH [OF n(3)] n show ?case
    by (subst foreach_loop.simps) (auto simp: entry_Some split: prod.split)
qed

lemma foreach_reverse_loop_seg:
  assumes "seg (lheap s) None ps nx"
  shows "foreach_reverse_loop s func (last_or ps None) st = Some (walk func (map (entry (lheap s)) (rev ps)) st)"
  using assms
proof (induction ps arbitrary: nx st rule: rev_induct)
  case Nil
  then show ?case by (simp add: foreach_reverse_loop.simps)
next
  case (snoc p ps)
  then obtain n where n: "lheap s p = Some n" "lprev n = last_or ps None" "seg (lheap s) None ps (Some p)"
    by (auto simp: seg_append split: option.splits)
  from snoc.IH [OF n(3)] n show ?case
    by (subst foreach_reverse_loop.simps) (auto simp: entry_Some split: prod.split)
qed

lemma lru_foreach_refine:
  "lru_rep s l \<Longrightarrow> lru_foreach func s st = Some (walk func l st)"
  using foreach_loop_seg lru_invD(2,3) by (fastforce simp: lru_rep_def lru_foreach_def)

lemma lru_foreach_reverse_refine:
  "lru_rep s l \<Longrightarrow> lru_foreach_reverse func s st = Some (walk func (rev l) st)"
  using foreach_reverse_loop_seg lru_invD(2,4) by (fastforce simp: lru_rep_def lru_foreach_reverse_def rev_map)

lemma lru_count_refine:
  assumes "lru_rep s l"
  shows "lru_count_of s = length l"
proof -
  obtain ps where inv: "lru_inv s ps" and l: "l = map (entry (lheap s)) ps"
    using assms by (auto simp: lru_rep_def)
  have "dom (searcher s) = fst ` set l"
    unfolding dom_def by (simp add: searcher_None_iff [OF inv] l)
  then show ?thesis
    using lru_rep_distinct [OF assms] by (metis distinct_card length_map list.set_map lru_count_of_def)
qed

lemma lru_destroy_refine: "lru_rep (lru_destroy s) []"
  by (auto simp: lru_rep_def lru_inv_def lru_destroy_def)

subsection \<open>The contract of the cache\<close>

text \<open>
  What a client of the cache relies on: the abstraction \<open>abs\<close> relates a cache to its entries, and
  each operation succeeds and acts on the entries as stated. The frame manager of the buffer pool
  is proved against this contract.
\<close>

locale recency_cache =
  fixes abs :: "'c \<Rightarrow> ('k \<times> 'v) list \<Rightarrow> bool"
    and get :: "'k \<Rightarrow> 'c \<Rightarrow> ('c \<times> 'v option) option"
    and put :: "'k \<Rightarrow> 'v \<Rightarrow> 'c \<Rightarrow> 'c option"
    and remove :: "'k \<Rightarrow> 'c \<Rightarrow> 'c option"
  assumes abs_distinct: "abs c l \<Longrightarrow> distinct (map fst l)"
    and get_spec: "abs c l \<Longrightarrow> \<exists>c'. get k c = Some (c', map_of l k) \<and> abs c' (al_touch k l)"
    and put_spec: "abs c l \<Longrightarrow> \<exists>c'. put k v c = Some c' \<and> abs c' (al_put k v l)"
    and remove_spec: "abs c l \<Longrightarrow> \<exists>c'. remove k c = Some c' \<and> abs c' (al_remove k l)"
begin

lemma get_after_put:
  assumes "abs c l" "put k v c = Some c'"
  shows "\<exists>c''. get k' c' = Some (c'', if k' = k then Some v else map_of l k')"
proof -
  have "abs c' (al_put k v l)" using put_spec [OF assms(1), of k v] assms(2) by auto
  then obtain c'' where "get k' c' = Some (c'', map_of (al_put k v l) k')" using get_spec by blast
  moreover have "map_of (al_put k v l) k' = (if k' = k then Some v else map_of l k')"
    unfolding al_put_def by (induction l) auto
  ultimately show ?thesis by auto
qed

lemma get_after_remove:
  assumes "abs c l" "remove k c = Some c'"
  shows "\<exists>c''. get k' c' = Some (c'', if k' = k then None else map_of l k')"
proof -
  have "abs c' (al_remove k l)" using remove_spec [OF assms(1), of k] assms(2) by auto
  then obtain c'' where "get k' c' = Some (c'', map_of (al_remove k l) k')" using get_spec by blast
  moreover have "map_of (al_remove k l) k' = (if k' = k then None else map_of l k')"
    unfolding al_remove_def by (induction l) auto
  ultimately show ?thesis by auto
qed

end

interpretation lru: recency_cache lru_rep lru_get lru_put lru_remove_key
  by unfold_locales (auto intro: lru_rep_distinct lru_get_refine lru_put_refine lru_remove_refine)

subsection \<open>Properties\<close>

text \<open>A client's sequence of operations on a cache, and the same sequence on a list of entries.\<close>

datatype ('k, 'v) cache_op = Get 'k | Put 'k 'v | Remove 'k

primrec cache_step :: "('k, 'v) cache_op \<Rightarrow> ('k, 'v) LruCache \<Rightarrow> ('k, 'v) LruCache option" where
  "cache_step (Get k) s = map_option fst (lru_get k s)"
| "cache_step (Put k v) s = lru_put k v s"
| "cache_step (Remove k) s = lru_remove_key k s"

primrec cache_run :: "('k, 'v) cache_op list \<Rightarrow> ('k, 'v) LruCache \<Rightarrow> ('k, 'v) LruCache option" where
  "cache_run [] s = Some s"
| "cache_run (op # ops) s = do { s \<leftarrow> cache_step op s; cache_run ops s }"

primrec al_step :: "('k, 'v) cache_op \<Rightarrow> ('k \<times> 'v) list \<Rightarrow> ('k \<times> 'v) list" where
  "al_step (Get k) l = al_touch k l"
| "al_step (Put k v) l = al_put k v l"
| "al_step (Remove k) l = al_remove k l"

lemma cache_step_refine: "lru_rep s l \<Longrightarrow> \<exists>s'. cache_step op s = Some s' \<and> lru_rep s' (al_step op l)"
  using lru_get_refine lru_put_refine lru_remove_refine by (cases op) (fastforce)+

lemma cache_run_refine: "lru_rep s l \<Longrightarrow> \<exists>s'. cache_run ops s = Some s' \<and> lru_rep s' (fold al_step ops l)"
proof (induction ops arbitrary: s l)
  case (Cons op ops)
  then show ?case using cache_step_refine [of s l op] by fastforce
qed simp

text \<open>
  Property C23: no sequence of operations on a fresh cache follows a null or dangling pointer, and
  the linked list, the hash set and the end pointers always represent the list of entries that the
  sequence produces, most recently used first: the walk from the front visits that list, the walk
  from the back its reverse, and \<open>count\<close> is its length.
\<close>

theorem lru_refines_recency_list:
  "\<exists>s. cache_run ops lru_empty = Some s \<and>
     lru_foreach func s st = Some (walk func (fold al_step ops []) st) \<and>
     lru_foreach_reverse func s st = Some (walk func (rev (fold al_step ops [])) st) \<and>
     lru_count_of s = length (fold al_step ops []) \<and>
     (\<forall>k. \<exists>s'. lru_get k s = Some (s', map_of (fold al_step ops []) k))"
  using cache_run_refine [OF lru_rep_empty, of ops] lru_get_refine
  by (fastforce simp: lru_foreach_refine lru_foreach_reverse_refine lru_count_refine)

text \<open>
  Insert and lookup. After \<open>put(k, v)\<close> on a cache reached by any operations, \<open>get\<close> finds
  \<open>v\<close> at \<open>k\<close> and at every other key what was there before; after \<open>remove(k)\<close> it finds nothing at \<open>k\<close>.
\<close>

theorem lru_put_get_roundtrip:
  assumes "cache_run ops lru_empty = Some s"
  shows "\<exists>s1 s2 s3 s4. lru_put k v s = Some s1 \<and> lru_remove_key k s = Some s2 \<and>
    lru_get k' s1 = Some (s3, if k' = k then Some v else map_of (fold al_step ops []) k') \<and>
    lru_get k' s2 = Some (s4, if k' = k then None else map_of (fold al_step ops []) k')"
proof -
  have rep: "lru_rep s (fold al_step ops [])" using cache_run_refine [OF lru_rep_empty, of ops] assms by auto
  obtain s1 s2 where "lru_put k v s = Some s1" "lru_remove_key k s = Some s2"
    using lru_put_refine [OF rep] lru_remove_refine [OF rep] by blast
  with lru.get_after_put [OF rep, of k v s1 k'] lru.get_after_remove [OF rep, of k s2 k'] show ?thesis by auto
qed

theorem lru_put_get_roundtrip_witness:
  "\<exists>s s1 s3. cache_run [Put 1 10, Put 2 20] lru_empty = Some s \<and> lru_put (3::nat) (30::nat) s = Some s1 \<and>
     lru_get 1 s1 = Some (s3, Some 10)"
proof -
  obtain s where s: "cache_run [Put (1::nat) (10::nat), Put 2 20] lru_empty = Some s"
    using cache_run_refine [OF lru_rep_empty] by blast
  from lru_put_get_roundtrip [OF this, of 3 30 1] show ?thesis using s by (auto simp: al_put_def)
qed

end
