(* ===== verification/RingBuffer.thy ===== *)
theory RingBuffer
  imports Prelude
begin

section \<open>Ring buffer of the network layer (src/observer/net/ring_buffer.cpp)\<close>

text \<open>
  A fixed array of bytes, the number of bytes stored and the position of the next write. The
  content is abstracted to the list of stored bytes in reading order; \<open>write\<close>, \<open>buffer\<close>, \<open>forward\<close>
  and \<open>read\<close> are proved to be the operations of a bounded byte queue, wrap-around included.
  Sizes and positions are \<open>int32_t\<close> and never negative, hence \<open>nat\<close> here; up to a capacity of \<open>2\<^sup>30\<close> bytes (the
  program uses 16 KiB) no computation leaves the range of \<open>int32_t\<close> (\<open>rb_no_wrap\<close>).
\<close>

record RingBuffer =
  rb_buffer :: "byte list"
  rb_data_size :: nat
  rb_write_pos :: nat

definition RingBuffer_new :: "nat \<Rightarrow> RingBuffer" where
  "RingBuffer_new n = \<lparr>rb_buffer = replicate n 0, rb_data_size = 0, rb_write_pos = 0\<rparr>"

definition rb_capacity :: "RingBuffer \<Rightarrow> nat" where
  "rb_capacity r = length (rb_buffer r)"

definition rb_remain :: "RingBuffer \<Rightarrow> nat" where
  "rb_remain r = rb_capacity r - rb_data_size r"

definition rb_read_pos :: "RingBuffer \<Rightarrow> nat" where
  "rb_read_pos r = (rb_write_pos r + rb_capacity r - rb_data_size r) mod rb_capacity r"

text \<open>\<open>buffer\<close> returns the offset of the readable region and its length.\<close>

definition rb_buffer_region :: "RingBuffer \<Rightarrow> nat \<times> nat" where
  "rb_buffer_region r =
     (if rb_data_size r = 0 then (0, 0)
      else let read_pos = rb_read_pos r in
        if read_pos < rb_write_pos r then (read_pos, rb_write_pos r - read_pos)
        else (read_pos, rb_capacity r - read_pos))"

definition rb_forward :: "RingBuffer \<Rightarrow> int \<Rightarrow> RC \<times> RingBuffer" where
  "rb_forward r n =
     (if n \<le> 0 then (INVALID_ARGUMENT, r)
      else if n > int (rb_data_size r) then (INVALID_ARGUMENT, r)
      else (SUCCESS, r\<lparr>rb_data_size := rb_data_size r - nat n\<rparr>))"

text \<open>The loop of \<open>read\<close>; \<open>acc\<close> is what has been copied to the caller's buffer, \<open>read_size\<close> its length.\<close>

function rb_read_loop :: "RingBuffer \<Rightarrow> nat \<Rightarrow> byte list \<Rightarrow> RC \<times> byte list \<times> RingBuffer" where
  "rb_read_loop r n acc =
     (if length acc < n \<and> rb_data_size r > 0 then
        let (pos, tmp_size) = rb_buffer_region r;
            copy_size = min (n - length acc) tmp_size;
            acc' = acc @ take copy_size (drop pos (rb_buffer r));
            (rc, r') = rb_forward r (int copy_size)
        in if rc = SUCCESS then rb_read_loop r' n acc' else (rc, acc', r')
      else (SUCCESS, acc, r))"
  by pat_completeness auto
termination
  by (relation "measure (\<lambda>(r, n, acc). rb_data_size r)") (auto simp: rb_forward_def split: if_splits)

definition rb_read :: "RingBuffer \<Rightarrow> int \<Rightarrow> RC \<times> byte list \<times> RingBuffer" where
  "rb_read r n = (if n < 0 then (INVALID_ARGUMENT, [], r) else rb_read_loop r (nat n) [])"

definition rb_tmp_buf_size :: "RingBuffer \<Rightarrow> nat" where
  "rb_tmp_buf_size r =
     (let read_pos = rb_read_pos r in
      if read_pos = rb_write_pos r \<and> rb_remain r > 0 then rb_capacity r - rb_write_pos r
      else if read_pos \<le> rb_write_pos r then rb_capacity r - rb_write_pos r
      else read_pos - rb_write_pos r)"

definition rb_put :: "RingBuffer \<Rightarrow> byte list \<Rightarrow> RingBuffer" where
  "rb_put r chunk =
     r\<lparr>rb_buffer := take (rb_write_pos r) (rb_buffer r) @ chunk @ drop (rb_write_pos r + length chunk) (rb_buffer r),
       rb_write_pos := (rb_write_pos r + length chunk) mod rb_capacity r,
       rb_data_size := rb_data_size r + length chunk\<rparr>"

text \<open>The loop of \<open>write\<close>: \<open>data\<close> is the whole input, \<open>write_size\<close> what has been taken from it.\<close>

function rb_write_loop :: "RingBuffer \<Rightarrow> byte list \<Rightarrow> nat \<Rightarrow> nat \<times> RingBuffer" where
  "rb_write_loop r data write_size =
     (if write_size < length data \<and> rb_remain r > 0 then
        let copy_size = min (length data - write_size) (rb_tmp_buf_size r) in
        if copy_size = 0 then (write_size, r)
        else rb_write_loop (rb_put r (take copy_size (drop write_size data))) data (write_size + copy_size)
      else (write_size, r))"
  by pat_completeness auto
termination
  by (relation "measure (\<lambda>(r, data, w). length data - w)") auto

text \<open>\<open>write\<close>: the first \<open>n\<close> bytes of \<open>data\<close>, as many as fit.\<close>

definition rb_write :: "RingBuffer \<Rightarrow> byte list \<Rightarrow> int \<Rightarrow> RC \<times> nat \<times> RingBuffer" where
  "rb_write r data n =
     (if n < 0 then (INVALID_ARGUMENT, 0, r)
      else if n = 0 then (SUCCESS, 0, r)
      else let (w, r') = rb_write_loop r (take (nat n) data) 0 in (SUCCESS, w, r'))"

declare rb_read_loop.simps [simp del] rb_write_loop.simps [simp del]

subsection \<open>Content and invariant\<close>

definition rb_inv :: "RingBuffer \<Rightarrow> bool" where
  "rb_inv r \<longleftrightarrow> rb_data_size r \<le> rb_capacity r \<and> rb_write_pos r < rb_capacity r"

definition rb_content :: "RingBuffer \<Rightarrow> byte list" where
  "rb_content r = map (\<lambda>i. rb_buffer r ! ((rb_read_pos r + i) mod rb_capacity r)) [0..<rb_data_size r]"

lemma length_rb_content [simp]: "length (rb_content r) = rb_data_size r"
  by (simp add: rb_content_def)

lemma rb_inv_new: "0 < n \<Longrightarrow> rb_inv (RingBuffer_new n)"
  by (simp add: rb_inv_def RingBuffer_new_def rb_capacity_def)

lemma rb_content_new [simp]: "rb_content (RingBuffer_new n) = []"
  by (simp add: rb_content_def RingBuffer_new_def)

lemma rb_read_pos_less: "rb_inv r \<Longrightarrow> rb_read_pos r < rb_capacity r"
  by (simp add: rb_inv_def rb_read_pos_def)

lemma rb_no_wrap:
  assumes "rb_inv r" "rb_capacity r \<le> 2 ^ 30" "n \<le> rb_capacity r"
  shows "int (rb_read_pos r) = (int (rb_write_pos r) - int (rb_data_size r) + int (rb_capacity r)) mod int (rb_capacity r)"
    "0 \<le> int (rb_write_pos r) - int (rb_data_size r) + int (rb_capacity r)" "int (rb_write_pos r) - int (rb_data_size r) + int (rb_capacity r) < 2 ^ 31"
    "int (rb_write_pos r) + int n < 2 ^ 31"
  using assms by (simp_all add: rb_inv_def rb_read_pos_def of_nat_diff zmod_int algebra_simps)

text \<open>Positions without the modulus: the stored bytes do or do not pass the end of the array.\<close>

lemma rb_read_pos_eq:
  assumes "rb_inv r"
  shows "rb_read_pos r = (if rb_data_size r \<le> rb_write_pos r then rb_write_pos r - rb_data_size r
    else rb_write_pos r + rb_capacity r - rb_data_size r)"
proof (cases "rb_data_size r \<le> rb_write_pos r")
  case True
  then have "rb_write_pos r + rb_capacity r - rb_data_size r = (rb_write_pos r - rb_data_size r) + rb_capacity r"
    by simp
  then have "rb_read_pos r = (rb_write_pos r - rb_data_size r) mod rb_capacity r"
    unfolding rb_read_pos_def by (simp only: mod_add_self2)
  moreover have "rb_write_pos r - rb_data_size r < rb_capacity r" using assms by (auto simp: rb_inv_def)
  ultimately show ?thesis using True by simp
next
  case False
  then have "rb_write_pos r + rb_capacity r - rb_data_size r < rb_capacity r"
    using assms by (auto simp: rb_inv_def)
  then show ?thesis using False by (simp add: rb_read_pos_def)
qed

lemma rb_content_nth:
  "i < rb_data_size r \<Longrightarrow> rb_content r ! i = rb_buffer r ! ((rb_read_pos r + i) mod rb_capacity r)"
  by (simp add: rb_content_def)

subsection \<open>forward and buffer\<close>

lemma rb_forward_content:
  assumes "rb_inv r" "0 < n" "n \<le> rb_data_size r"
  shows "fst (rb_forward r (int n)) = SUCCESS" "rb_inv (snd (rb_forward r (int n)))"
    "rb_content (snd (rb_forward r (int n))) = drop n (rb_content r)"
proof -
  let ?r = "r\<lparr>rb_data_size := rb_data_size r - n\<rparr>"
  have f: "rb_forward r (int n) = (SUCCESS, ?r)" using assms by (simp add: rb_forward_def)
  show "fst (rb_forward r (int n)) = SUCCESS" "rb_inv (snd (rb_forward r (int n)))"
    using assms f by (auto simp: rb_inv_def rb_capacity_def)
  have pos: "rb_read_pos ?r = (rb_read_pos r + n) mod rb_capacity r"
  proof -
    have "rb_write_pos r + rb_capacity r - (rb_data_size r - n) = (rb_write_pos r + rb_capacity r - rb_data_size r) + n"
      using assms by (simp add: rb_inv_def)
    then show ?thesis by (simp add: rb_read_pos_def rb_capacity_def mod_add_left_eq)
  qed
  show "rb_content (snd (rb_forward r (int n))) = drop n (rb_content r)"
    unfolding f
  proof (rule nth_equalityI)
    fix i assume "i < length (rb_content (snd (SUCCESS, ?r)))"
    then show "rb_content (snd (SUCCESS, ?r)) ! i = drop n (rb_content r) ! i"
      using assms pos by (simp add: rb_content_nth rb_capacity_def mod_add_left_eq add.assoc)
  qed simp
qed

lemma rb_buffer_region_content:
  assumes "rb_inv r" "rb_data_size r > 0" "rb_buffer_region r = (pos, k)"
  shows "0 < k" "k \<le> rb_data_size r" "pos + k \<le> rb_capacity r"
    "\<And>c. c \<le> k \<Longrightarrow> take c (drop pos (rb_buffer r)) = take c (rb_content r)"
proof -
  have pos: "pos = rb_read_pos r" using assms by (auto simp: rb_buffer_region_def Let_def split: if_splits)
  show k: "0 < k" "k \<le> rb_data_size r" "pos + k \<le> rb_capacity r"
    using assms rb_read_pos_eq [OF assms(1)] rb_read_pos_less [OF assms(1)]
    by (auto simp: rb_buffer_region_def Let_def rb_inv_def split: if_splits)
  fix c assume c: "c \<le> k"
  show "take c (drop pos (rb_buffer r)) = take c (rb_content r)"
  proof (rule nth_equalityI)
    show "length (take c (drop pos (rb_buffer r))) = length (take c (rb_content r))"
      using c k by (simp add: rb_capacity_def)
    fix i assume "i < length (take c (drop pos (rb_buffer r)))"
    then have "i < c" by simp
    with c k show "take c (drop pos (rb_buffer r)) ! i = take c (rb_content r) ! i"
      by (simp add: rb_content_nth pos rb_capacity_def)
  qed
qed

subsection \<open>read\<close>

lemma rb_read_loop_correct:
  assumes "rb_inv r" "length acc \<le> n"
  shows "\<exists>r'. rb_read_loop r n acc = (SUCCESS, acc @ take (n - length acc) (rb_content r), r') \<and>
    rb_inv r' \<and> rb_content r' = drop (n - length acc) (rb_content r)"
  using assms
proof (induction "rb_data_size r" arbitrary: r acc rule: less_induct)
  case less
  show ?case
  proof (cases "length acc < n \<and> rb_data_size r > 0")
    case False
    then have "n - length acc = 0 \<or> rb_content r = []"
      using less.prems by (auto simp flip: length_0_conv)
    then show ?thesis using less.prems False by (auto simp: rb_read_loop.simps [of r])
  next
    case True
    obtain pos k where reg: "rb_buffer_region r = (pos, k)" by fastforce
    note b = rb_buffer_region_content [OF less.prems(1) _ reg]
    define c where "c = min (n - length acc) k"
    have c: "0 < c" "c \<le> rb_data_size r" "c \<le> k" "c \<le> n - length acc" using True b by (auto simp: c_def)
    define r1 where "r1 = snd (rb_forward r (int c))"
    note f = rb_forward_content [OF less.prems(1) c(1,2), folded r1_def]
    have ds: "rb_data_size r1 = rb_data_size r - c" using f(3) by (metis length_drop length_rb_content)
    let ?acc = "acc @ take c (rb_content r)"
    have "rb_read_loop r n acc = rb_read_loop r1 n ?acc"
      using True f(1) c b(4) [of c] reg
      by (subst rb_read_loop.simps) (auto simp: c_def [symmetric] r1_def Let_def split: prod.split)
    moreover have "length ?acc \<le> n" using c True by simp
    ultimately show ?thesis
      using less.hyps [of r1 ?acc] f(2,3) ds c True
      by (auto simp: take_add [symmetric] min_def)
  qed
qed

subsection \<open>write\<close>

lemma rb_tmp_buf_size_bounds:
  assumes "rb_inv r" "rb_remain r > 0"
  shows "0 < rb_tmp_buf_size r" "rb_tmp_buf_size r \<le> rb_remain r"
    "rb_write_pos r + rb_tmp_buf_size r \<le> rb_capacity r"
  using assms rb_read_pos_eq [OF assms(1)]
  by (auto simp: rb_tmp_buf_size_def Let_def rb_inv_def rb_remain_def)

lemma rb_put_content:
  assumes "rb_inv r" "length chunk \<le> rb_remain r" "rb_write_pos r + length chunk \<le> rb_capacity r"
  shows "rb_inv (rb_put r chunk)" "rb_content (rb_put r chunk) = rb_content r @ chunk"
    "rb_capacity (rb_put r chunk) = rb_capacity r"
proof -
  let ?r = "rb_put r chunk" and ?w = "rb_write_pos r" and ?C = "rb_capacity r" and ?d = "rb_data_size r"
  have len: "length (rb_buffer ?r) = ?C"
    using assms by (simp add: rb_put_def rb_capacity_def)
  then show cap: "rb_capacity ?r = ?C" by (simp add: rb_capacity_def)
  have C: "0 < ?C" using assms(1) by (auto simp: rb_inv_def)
  show inv: "rb_inv ?r"
    using assms C cap by (auto simp: rb_inv_def rb_put_def rb_remain_def)
  have nth_new: "rb_buffer ?r ! j = (if ?w \<le> j \<and> j < ?w + length chunk then chunk ! (j - ?w) else rb_buffer r ! j)"
    if "j < ?C" for j
    using that assms by (auto simp: rb_put_def rb_capacity_def nth_append)
  have dC: "?d + length chunk \<le> ?C" using assms by (auto simp: rb_remain_def rb_inv_def)
  have "rb_write_pos ?r = (if ?w + length chunk = ?C then 0 else ?w + length chunk)"
    using assms(3) C by (auto simp: rb_put_def le_less)
  moreover have ds: "rb_data_size ?r = ?d + length chunk" by (simp add: rb_put_def)
  ultimately have rp: "rb_read_pos ?r = rb_read_pos r"
    using rb_read_pos_eq [OF inv] rb_read_pos_eq [OF assms(1)] cap dC assms(1,3)
    by (auto simp: rb_inv_def split: if_splits)
  have wpos: "(rb_read_pos r + ?d) mod ?C = ?w"
    using assms(1) rb_read_pos_eq [OF assms(1)] by (auto simp: rb_inv_def)
  show "rb_content ?r = rb_content r @ chunk"
  proof (rule nth_equalityI)
    show "length (rb_content ?r) = length (rb_content r @ chunk)" by (simp add: rb_put_def)
    fix i assume "i < length (rb_content ?r)"
    then have i: "i < ?d + length chunk" by (simp add: ds)
    let ?j = "(rb_read_pos r + i) mod ?C"
    have eq: "rb_content ?r ! i = rb_buffer ?r ! ?j"
      using i by (simp add: rb_content_nth cap rp ds)
    have j: "?j < ?C" using C by simp
    show "rb_content ?r ! i = (rb_content r @ chunk) ! i"
    proof (cases "i < ?d")
      case True
      have "\<not> (?w \<le> ?j \<and> ?j < ?w + length chunk)"
        using rb_read_pos_eq [OF assms(1)] True assms C
        by (auto simp: rb_inv_def rb_remain_def mod_if split: if_splits)
      then show ?thesis using eq nth_new [OF j] True by (auto simp: nth_append rb_content_nth)
    next
      case False
      then obtain t where t: "i = ?d + t" "t < length chunk" using i by (metis add_less_cancel_left le_Suc_ex not_less)
      have "?j = (?w + t) mod ?C"
        using wpos t(1) by (metis add.assoc mod_add_left_eq)
      also have "\<dots> = ?w + t" using t(2) assms(3) by simp
      finally show ?thesis using eq nth_new [OF j] t False by (simp add: nth_append)
    qed
  qed
qed

lemma rb_write_loop_correct:
  assumes "rb_inv r" "w \<le> length data"
  shows "\<exists>r'. rb_write_loop r data w = (w + min (length data - w) (rb_remain r), r') \<and> rb_inv r' \<and>
    rb_content r' = rb_content r @ take (rb_remain r) (drop w data) \<and> rb_capacity r' = rb_capacity r"
  using assms
proof (induction "length data - w" arbitrary: r w rule: less_induct)
  case less
  show ?case
  proof (cases "w < length data \<and> rb_remain r > 0")
    case False
    then show ?thesis using less.prems by (auto simp: rb_write_loop.simps [of r])
  next
    case True
    note b = rb_tmp_buf_size_bounds [OF less.prems(1)]
    define c where "c = min (length data - w) (rb_tmp_buf_size r)"
    have c: "0 < c" "c \<le> rb_remain r" "w + c \<le> length data" "rb_write_pos r + c \<le> rb_capacity r"
      using True b by (auto simp: c_def)
    define r1 where "r1 = rb_put r (take c (drop w data))"
    have len: "length (take c (drop w data)) = c" using c by simp
    note p = rb_put_content [OF less.prems(1), of "take c (drop w data)", folded r1_def, unfolded len, OF c(2,4)]
    have rem: "rb_remain r1 = rb_remain r - c"
      using p(3) len by (simp add: rb_remain_def r1_def rb_put_def)
    have "rb_write_loop r data w = rb_write_loop r1 data (w + c)"
      using True c by (subst rb_write_loop.simps) (simp add: c_def [symmetric] r1_def)
    moreover have "take c (drop w data) @ take (rb_remain r - c) (drop (w + c) data) = take (rb_remain r) (drop w data)"
      using c(2) by (metis add.commute drop_drop le_add_diff_inverse take_add)
    moreover have "w + c + min (length data - (w + c)) (rb_remain r - c) = w + min (length data - w) (rb_remain r)"
      using c by linarith
    moreover have "length data - (w + c) < length data - w" using c True by linarith
    moreover note less.hyps [of "w + c" r1]
    ultimately show ?thesis using c(3) p rem by (auto simp: add.assoc)
  qed
qed

lemma rb_write_correct:
  assumes "rb_inv r" "0 \<le> n" "nat n \<le> length data"
  shows "\<exists>r'. rb_write r data n = (SUCCESS, min (nat n) (rb_remain r), r') \<and> rb_inv r' \<and>
    rb_content r' = rb_content r @ take (min (nat n) (rb_remain r)) data \<and> rb_capacity r' = rb_capacity r"
proof (cases "n = 0")
  case True
  then show ?thesis using assms by (simp add: rb_write_def)
next
  case False
  then show ?thesis
    using rb_write_loop_correct [OF assms(1), of 0 "take (nat n) data"] assms
    by (auto simp: rb_write_def min.commute)
qed

lemma rb_read_correct:
  assumes "rb_inv r" "0 \<le> n"
  shows "\<exists>r'. rb_read r n = (SUCCESS, take (nat n) (rb_content r), r') \<and> rb_inv r' \<and>
    rb_content r' = drop (nat n) (rb_content r)"
  using rb_read_loop_correct [OF assms(1), of "[]" "nat n"] assms by (simp add: rb_read_def)

subsection \<open>Properties\<close>

text \<open>
  Property C36: the ring buffer is a bounded first-in first-out queue of bytes. A write takes as many
  bytes as there is room for and appends them; a read returns the oldest bytes and leaves the rest.
\<close>

theorem ring_buffer_fifo:
  assumes "rb_inv r" "0 \<le> n"
  shows "\<exists>r1 r2. rb_write r data (int (length data)) = (SUCCESS, min (length data) (rb_remain r), r1) \<and>
    rb_content r1 = rb_content r @ take (rb_remain r) data \<and>
    rb_read r1 n = (SUCCESS, take (nat n) (rb_content r @ take (rb_remain r) data), r2) \<and>
    rb_content r2 = drop (nat n) (rb_content r @ take (rb_remain r) data) \<and> rb_inv r1 \<and> rb_inv r2"
proof -
  obtain r1 where r1: "rb_write r data (int (length data)) = (SUCCESS, min (length data) (rb_remain r), r1)" "rb_inv r1"
    "rb_content r1 = rb_content r @ take (rb_remain r) data"
    using rb_write_correct [OF assms(1), of "int (length data)" data] by (auto simp: min_def)
  from rb_read_correct [OF this(2) assms(2)] obtain r2 where
    "rb_read r1 n = (SUCCESS, take (nat n) (rb_content r1), r2)" "rb_inv r2"
    "rb_content r2 = drop (nat n) (rb_content r1)" by auto
  with r1 show ?thesis by auto
qed

theorem ring_buffer_fifo_witness:
  "\<exists>r1 r2. rb_write (RingBuffer_new 4) [1, 2, 3] 3 = (SUCCESS, 3, r1) \<and> rb_read r1 2 = (SUCCESS, [1, 2], r2)"
  using ring_buffer_fifo [OF rb_inv_new [of 4], of 2 "[1, 2, 3]"]
  by (auto simp: rb_remain_def rb_capacity_def RingBuffer_new_def rb_content_def)

end
