(* ===== verification/BufferedWriter.thy ===== *)
theory BufferedWriter
  imports RingBuffer
begin

section \<open>Buffered writer (src/observer/net/buffered_writer.cpp)\<close>

text \<open>
  The writer collects output in a ring buffer and hands it to \<open>write(2)\<close>. The system call is a
  parameter \<open>os\<close>: its result may depend on how many calls were made before (\<open>bw_tick\<close>) and on the
  bytes offered. \<open>bw_sent\<close> is what the file descriptor has accepted so far. The retry loops need not
  end (\<open>EAGAIN\<close> for ever), so the operations return an option, \<^const>\<open>None\<close> being a loop that never ends.
\<close>

datatype sys_result = Written nat | Again | Fail

record BufferedWriter =
  bw_fd :: int
  bw_buffer :: RingBuffer
  bw_sent :: "byte list"
  bw_tick :: nat

type_synonym os = "nat \<Rightarrow> byte list \<Rightarrow> sys_result"

text \<open>The inner loop of \<open>flush_internal\<close>: call \<open>write\<close> until it takes bytes or fails for good.\<close>

partial_function (option) write_retry :: "os \<Rightarrow> byte list \<Rightarrow> nat \<Rightarrow> (nat option \<times> nat) option" where
  "write_retry os bs t =
     (case os t bs of
        Written k \<Rightarrow> if k = 0 then write_retry os bs (Suc t) else Some (Some k, Suc t)
      | Again \<Rightarrow> write_retry os bs (Suc t)
      | Fail \<Rightarrow> Some (None, Suc t))"

partial_function (option) flush_loop :: "os \<Rightarrow> BufferedWriter \<Rightarrow> int \<Rightarrow> int \<Rightarrow> (RC \<times> BufferedWriter) option" where
  "flush_loop os w n write_size =
     (if rb_data_size (bw_buffer w) > 0 \<and> n > write_size then
        (case rb_buffer_region (bw_buffer w) of (pos, read_size) \<Rightarrow>
           if read_size = 0 then Some (IOERR_WRITE, w)
           else let bs = take read_size (drop pos (rb_buffer (bw_buffer w))) in
             (case write_retry os bs (bw_tick w) of
                None \<Rightarrow> None
              | Some (None, t) \<Rightarrow> Some (IOERR_WRITE, w\<lparr>bw_tick := t\<rparr>)
              | Some (Some k, t) \<Rightarrow>
                  flush_loop os (w\<lparr>bw_tick := t, bw_sent := bw_sent w @ take k bs,
                                   bw_buffer := snd (rb_forward (bw_buffer w) (int k))\<rparr>)
                    n (write_size + int k)))
      else Some (SUCCESS, w))"

definition flush_internal :: "os \<Rightarrow> BufferedWriter \<Rightarrow> int \<Rightarrow> (RC \<times> BufferedWriter) option" where
  "flush_internal os w n = (if bw_fd w < 0 then Some (INVALID_ARGUMENT, w) else flush_loop os w n 0)"

partial_function (option) flush_all :: "os \<Rightarrow> BufferedWriter \<Rightarrow> (RC \<times> BufferedWriter) option" where
  "flush_all os w =
     (if rb_data_size (bw_buffer w) > 0 then
        (case flush_internal os w (int (rb_data_size (bw_buffer w))) of
           None \<Rightarrow> None
         | Some (rc, w') \<Rightarrow> if rc = SUCCESS then flush_all os w' else Some (rc, w'))
      else Some (SUCCESS, w))"

definition flush :: "os \<Rightarrow> BufferedWriter \<Rightarrow> (RC \<times> BufferedWriter) option" where
  "flush os w = (if bw_fd w < 0 then Some (INVALID_ARGUMENT, w) else flush_all os w)"

definition bw_write :: "os \<Rightarrow> BufferedWriter \<Rightarrow> byte list \<Rightarrow> int \<Rightarrow> (RC \<times> nat \<times> BufferedWriter) option" where
  "bw_write os w data n =
     (if bw_fd w < 0 then Some (INVALID_ARGUMENT, 0, w)
      else do {
        (rc, w) \<leftarrow> (if rb_remain (bw_buffer w) = 0 then flush_internal os w n else Some (SUCCESS, w));
        if OB_FAIL rc then Some (rc, 0, w)
        else (case rb_write (bw_buffer w) data n of (rc, k, b) \<Rightarrow> Some (rc, k, w\<lparr>bw_buffer := b\<rparr>))
      })"

text \<open>The loop of \<open>writen\<close>: \<open>data\<close> is what is still to be written.\<close>

partial_function (option) writen_loop :: "os \<Rightarrow> BufferedWriter \<Rightarrow> byte list \<Rightarrow> (RC \<times> BufferedWriter) option" where
  "writen_loop os w data =
     (if data = [] then Some (SUCCESS, w)
      else (case bw_write os w data (int (length data)) of
          None \<Rightarrow> None
        | Some (rc, k, w) \<Rightarrow>
            if OB_FAIL rc then Some (rc, w)
            else if k = 0 then
              (case flush os w of
                 None \<Rightarrow> None
               | Some (rc, w) \<Rightarrow>
                   if OB_FAIL rc then Some (rc, w)
                   else if rb_remain (bw_buffer w) = 0 then Some (IOERR_WRITE, w)
                   else writen_loop os w data)
            else writen_loop os w (drop k data)))"

definition bw_writen :: "os \<Rightarrow> BufferedWriter \<Rightarrow> byte list \<Rightarrow> (RC \<times> BufferedWriter) option" where
  "bw_writen os w data = (if bw_fd w < 0 then Some (INVALID_ARGUMENT, w) else writen_loop os w data)"

definition bw_close :: "os \<Rightarrow> BufferedWriter \<Rightarrow> (RC \<times> BufferedWriter) option" where
  "bw_close os w =
     (if bw_fd w < 0 then Some (SUCCESS, w)
      else do {
        (rc, w) \<leftarrow> flush os w;
        if OB_FAIL rc then Some (rc, w) else Some (SUCCESS, w\<lparr>bw_fd := - 1\<rparr>)
      })"

subsection \<open>What is relied on of write(2)\<close>

text \<open>It accepts no more bytes than it is offered; and it does not report "try again" for ever.\<close>

definition os_ok :: "os \<Rightarrow> bool" where
  "os_ok os \<longleftrightarrow> (\<forall>t bs k. os t bs = Written k \<longrightarrow> k \<le> length bs)"

definition os_decides :: "os \<Rightarrow> bool" where
  "os_decides os \<longleftrightarrow> (\<forall>t bs. bs \<noteq> [] \<longrightarrow> (\<exists>d. os (t + d) bs \<noteq> Again \<and> os (t + d) bs \<noteq> Written 0))"

definition os_fails :: "os \<Rightarrow> bool" where
  "os_fails os \<longleftrightarrow> (\<exists>t bs. os t bs = Fail)"

lemma write_retry_total:
  assumes "os_ok os" "os (t + d) bs \<noteq> Again" "os (t + d) bs \<noteq> Written 0"
  shows "\<exists>r t'. write_retry os bs t = Some (r, t') \<and>
    (case r of None \<Rightarrow> os_fails os | Some k \<Rightarrow> 0 < k \<and> k \<le> length bs)"
  using assms
proof (induction d arbitrary: t)
  case 0
  then show ?case
    by (subst write_retry.simps) (auto simp: os_ok_def os_fails_def split: sys_result.splits)
next
  case (Suc d)
  have "os t bs = Written k \<Longrightarrow> k \<le> length bs" for k using Suc.prems(1) by (simp add: os_ok_def)
  moreover have "os t bs = Fail \<Longrightarrow> os_fails os" by (auto simp: os_fails_def)
  moreover have "\<exists>r t'. write_retry os bs (Suc t) = Some (r, t') \<and>
      (case r of None \<Rightarrow> os_fails os | Some k \<Rightarrow> 0 < k \<and> k \<le> length bs)"
    using Suc by simp
  ultimately show ?case by (subst write_retry.simps) (auto split: sys_result.splits)
qed

subsection \<open>No byte is lost, duplicated or reordered\<close>

text \<open>The output stream: what was sent followed by what is still buffered.\<close>

definition bw_stream :: "BufferedWriter \<Rightarrow> byte list" where
  "bw_stream w = bw_sent w @ rb_content (bw_buffer w)"

definition bw_inv :: "BufferedWriter \<Rightarrow> bool" where
  "bw_inv w \<longleftrightarrow> rb_inv (bw_buffer w)"

text \<open>What a flush of up to \<open>n\<close> bytes guarantees, as a relation between the states around it.\<close>

definition flushed :: "os \<Rightarrow> int \<Rightarrow> BufferedWriter \<Rightarrow> RC \<Rightarrow> BufferedWriter \<Rightarrow> bool" where
  "flushed os n w rc w' \<longleftrightarrow>
     bw_inv w' \<and> bw_stream w' = bw_stream w \<and> bw_fd w' = bw_fd w \<and>
     rb_capacity (bw_buffer w') = rb_capacity (bw_buffer w) \<and>
     rb_data_size (bw_buffer w') \<le> rb_data_size (bw_buffer w) \<and>
     (rc = SUCCESS \<and> rb_data_size (bw_buffer w') = 0 \<or>
      rc = SUCCESS \<and> n \<le> int (rb_data_size (bw_buffer w)) - int (rb_data_size (bw_buffer w')) \<or>
      rc = IOERR_WRITE \<and> os_fails os)"

lemma rb_forward_capacity [simp]: "rb_capacity (snd (rb_forward r n)) = rb_capacity r"
  by (simp add: rb_forward_def rb_capacity_def)

lemma flush_loop_correct:
  assumes "os_ok os" "os_decides os" "bw_inv w"
  shows "\<exists>rc w'. flush_loop os w n ws = Some (rc, w') \<and> flushed os (n - ws) w rc w'"
  using assms(3)
proof (induction "rb_data_size (bw_buffer w)" arbitrary: w ws rule: less_induct)
  case less
  let ?b = "bw_buffer w"
  show ?case
  proof (cases "rb_data_size ?b > 0 \<and> n > ws")
    case False
    then show ?thesis using less.prems
      by (subst flush_loop.simps) (auto simp: flushed_def)
  next
    case True
    obtain pos k0 where reg: "rb_buffer_region ?b = (pos, k0)" by fastforce
    have inv: "rb_inv ?b" using less.prems by (simp add: bw_inv_def)
    have pos_data: "rb_data_size ?b > 0" using True by simp
    note r = rb_buffer_region_content [OF inv pos_data reg]
    define bs where "bs = take k0 (drop pos (rb_buffer ?b))"
    have len: "length bs = k0" using r by (simp add: bs_def rb_capacity_def)
    have bs1: "bs = take k0 (rb_content ?b)" using r(4) [of k0] by (simp add: bs_def)
    have bs2: "bs \<noteq> []" using len r(1) by (metis less_numeral_extra(3) list.size(3))
    note bs = bs1 bs2 len
    obtain d where d: "os (bw_tick w + d) bs \<noteq> Again" "os (bw_tick w + d) bs \<noteq> Written 0"
      using assms(2) bs(2) unfolding os_decides_def by blast
    obtain res t where res: "write_retry os bs (bw_tick w) = Some (res, t)"
      "case res of None \<Rightarrow> os_fails os | Some k \<Rightarrow> 0 < k \<and> k \<le> length bs"
      using write_retry_total [OF assms(1) d] by blast
    show ?thesis
    proof (cases res)
      case None
      have "flush_loop os w n ws = Some (IOERR_WRITE, w\<lparr>bw_tick := t\<rparr>)"
        using True reg r res None by (subst flush_loop.simps) (simp add: bs_def [symmetric])
      then show ?thesis
        using less.prems res None by (auto simp: flushed_def bw_inv_def bw_stream_def)
    next
      case (Some k)
      have k: "0 < k" "k \<le> k0" "k \<le> rb_data_size ?b" using res Some bs r by auto
      define b1 where "b1 = snd (rb_forward ?b (int k))"
      note f = rb_forward_content [OF inv k(1,3), folded b1_def]
      define w1 where "w1 = w\<lparr>bw_tick := t, bw_sent := bw_sent w @ take k bs, bw_buffer := b1\<rparr>"
      have ds: "rb_data_size b1 = rb_data_size ?b - k" using f(3) by (metis length_drop length_rb_content)
      have rec: "flush_loop os w n ws = flush_loop os w1 n (ws + int k)"
        using True reg r res Some by (subst flush_loop.simps) (simp add: bs_def [symmetric] w1_def b1_def)
      have "take k bs @ rb_content b1 = rb_content ?b" using bs(1) k f(3) by (simp add: min_def)
      then have stream: "bw_stream w1 = bw_stream w" by (simp add: bw_stream_def w1_def)
      obtain rc w' where IH: "flush_loop os w1 n (ws + int k) = Some (rc, w')"
        "flushed os (n - (ws + int k)) w1 rc w'"
        using less.hyps [of w1 "ws + int k"] ds k f(2) by (auto simp: w1_def bw_inv_def)
      have "flushed os (n - ws) w rc w'"
        using IH(2) stream ds k by (auto simp: flushed_def w1_def b1_def)
      with rec IH(1) show ?thesis by auto
    qed
  qed
qed

lemma flush_internal_correct:
  assumes "os_ok os" "os_decides os" "bw_inv w" "bw_fd w \<ge> 0"
  shows "\<exists>rc w'. flush_internal os w n = Some (rc, w') \<and> flushed os n w rc w'"
  using flush_loop_correct [OF assms(1-3), of n 0] assms(4) by (simp add: flush_internal_def)

lemma flush_correct:
  assumes "os_ok os" "os_decides os" "bw_inv w" "bw_fd w \<ge> 0"
  shows "\<exists>rc w'. flush os w = Some (rc, w') \<and> flushed os (int (rb_data_size (bw_buffer w))) w rc w'"
proof (cases "rb_data_size (bw_buffer w) > 0")
  case False
  then show ?thesis using assms by (simp add: flush_def flush_all.simps flushed_def)
next
  case True
  let ?n = "int (rb_data_size (bw_buffer w))"
  obtain rc w' where fi: "flush_internal os w ?n = Some (rc, w')" "flushed os ?n w rc w'"
    using flush_internal_correct [OF assms] by blast
  then have "rc = SUCCESS \<Longrightarrow> rb_data_size (bw_buffer w') = 0" by (auto simp: flushed_def)
  then have "flush_all os w = Some (rc, w')"
    using True fi(1) by (subst flush_all.simps) (auto simp: flush_all.simps [of os w'])
  then show ?thesis using assms(4) fi(2) by (simp add: flush_def)
qed

text \<open>\<open>write\<close> takes at least one byte of a non-empty input unless the system call fails.\<close>

lemma bw_write_correct:
  assumes "os_ok os" "os_decides os" "bw_inv w" "bw_fd w \<ge> 0" "data \<noteq> []"
  shows "\<exists>rc k w'. bw_write os w data (int (length data)) = Some (rc, k, w') \<and> bw_inv w' \<and> bw_fd w' = bw_fd w \<and>
    bw_stream w' = bw_stream w @ take k data \<and>
    (rc = SUCCESS \<and> 0 < k \<and> k \<le> length data \<or> rc = IOERR_WRITE \<and> k = 0 \<and> os_fails os)"
proof -
  let ?n = "int (length data)"
  obtain rc1 w1 where w1: "(if rb_remain (bw_buffer w) = 0 then flush_internal os w ?n else Some (SUCCESS, w)) = Some (rc1, w1)"
    "flushed os (if rb_remain (bw_buffer w) = 0 then ?n else 0) w rc1 w1"
  proof (cases "rb_remain (bw_buffer w) = 0")
    case True
    then show thesis using flush_internal_correct [OF assms(1-4), of ?n] that by auto
  next
    case False
    then show thesis using that [of SUCCESS w] assms(3) by (simp add: flushed_def)
  qed
  show ?thesis
  proof (cases "rc1 = SUCCESS")
    case False
    then show ?thesis using w1 assms(4)
      by (auto simp: bw_write_def flushed_def)
  next
    case True
    have len: "1 \<le> int (length data)" using assms(5) by (cases data) simp_all
    have rem: "rb_remain (bw_buffer w1) > 0"
    proof (cases "rb_remain (bw_buffer w) = 0")
      case False
      then show ?thesis using w1(2) True by (auto simp: flushed_def rb_remain_def)
    next
      case full: True
      have "rb_data_size (bw_buffer w1) < rb_capacity (bw_buffer w)"
        using w1(2) full True len assms(3)
        unfolding flushed_def rb_remain_def bw_inv_def rb_inv_def 
        by (elim conjE disjE) (simp_all, linarith?)
      then show ?thesis using w1(2) by (simp add: flushed_def rb_remain_def)
    qed
    have inv1: "rb_inv (bw_buffer w1)" using w1(2) by (simp add: flushed_def bw_inv_def)
    obtain b where b: "rb_write (bw_buffer w1) data ?n = (SUCCESS, min (length data) (rb_remain (bw_buffer w1)), b)"
      "rb_inv b" "rb_content b = rb_content (bw_buffer w1) @ take (min (length data) (rb_remain (bw_buffer w1))) data"
      using rb_write_correct [OF inv1, of ?n data] by auto
    show ?thesis
      using w1 True b rem assms(4,5)
      by (auto simp: bw_write_def flushed_def bw_inv_def bw_stream_def)
  qed
qed

lemma writen_correct:
  assumes "os_ok os" "os_decides os" "bw_inv w" "bw_fd w \<ge> 0"
  shows "\<exists>rc w' k. bw_writen os w data = Some (rc, w') \<and> bw_inv w' \<and> bw_fd w' = bw_fd w \<and>
    bw_stream w' = bw_stream w @ take k data \<and>
    (rc = SUCCESS \<and> k = length data \<or> rc = IOERR_WRITE \<and> k \<le> length data \<and> os_fails os)"
proof -
  have "\<exists>rc w' k. writen_loop os w data = Some (rc, w') \<and> bw_inv w' \<and> bw_fd w' = bw_fd w \<and>
    bw_stream w' = bw_stream w @ take k data \<and>
    (rc = SUCCESS \<and> k = length data \<or> rc = IOERR_WRITE \<and> k \<le> length data \<and> os_fails os)"
    using assms(3,4)
  proof (induction "length data" arbitrary: data w rule: less_induct)
    case less
    show ?case
    proof (cases "data = []")
      case True
      then show ?thesis using less.prems by (subst writen_loop.simps) simp
    next
      case False
      obtain rc k w1 where w1: "bw_write os w data (int (length data)) = Some (rc, k, w1)" "bw_inv w1"
        "bw_fd w1 = bw_fd w" "bw_stream w1 = bw_stream w @ take k data"
        "rc = SUCCESS \<and> 0 < k \<and> k \<le> length data \<or> rc = IOERR_WRITE \<and> k = 0 \<and> os_fails os"
        using bw_write_correct [OF assms(1,2) less.prems False] by blast
      show ?thesis
      proof (cases "rc = SUCCESS")
        case False
        then show ?thesis using \<open>data \<noteq> []\<close> w1 by (subst writen_loop.simps) auto
      next
        case True
        then have k: "0 < k" "k \<le> length data" using w1(5) by auto
        then have "length (drop k data) < length data" by simp
        from less.hyps [OF this w1(2)] w1(3) less.prems(2) obtain rc' w' j where
          IH: "writen_loop os w1 (drop k data) = Some (rc', w')" "bw_inv w'" "bw_fd w' = bw_fd w"
          "bw_stream w' = bw_stream w1 @ take j (drop k data)"
          "rc' = SUCCESS \<and> j = length data - k \<or> rc' = IOERR_WRITE \<and> j \<le> length data - k \<and> os_fails os"
          by auto
        have "writen_loop os w data = Some (rc', w')"
          using False True w1(1) k IH(1) by (subst writen_loop.simps) simp
        moreover have "bw_stream w' = bw_stream w @ take (k + j) data"
          using IH(4) w1(4) by (simp add: take_add)
        ultimately show ?thesis using IH k by (intro exI [of _ rc'] exI [of _ w'] exI [of _ "k + j"]) auto
      qed
    qed
  qed
  then show ?thesis using assms(4) by (simp add: bw_writen_def)
qed

subsection \<open>Properties\<close>

text \<open>
  Property C28: \<open>writen\<close> always returns when the system call does not say "try again" for ever. It
  either succeeds, and then the output stream (bytes handed to the descriptor followed by bytes
  buffered) is extended by exactly the data, or reports \<open>IOERR_WRITE\<close> after a failed system call, and then
  it is extended by a prefix of the data: nothing is lost, duplicated or reordered.
\<close>

theorem writen_extends_stream:
  assumes "os_ok os" "os_decides os" "bw_inv w" "bw_fd w \<ge> 0"
  shows "\<exists>rc w' k. bw_writen os w data = Some (rc, w') \<and> bw_inv w' \<and>
    bw_stream w' = bw_stream w @ take k data \<and>
    (rc = SUCCESS \<and> k = length data \<or> rc = IOERR_WRITE \<and> k \<le> length data \<and> os_fails os)"
  using writen_correct [OF assms] by blast

text \<open>A system call that takes one byte at a time and says "try again" every other time.\<close>

definition os_slow :: os where
  "os_slow t bs = (if odd t then Written (min 1 (length bs)) else Again)"

lemma os_slow_ok: "os_ok os_slow" "os_decides os_slow" "\<not> os_fails os_slow"
proof -
  show "os_decides os_slow" unfolding os_decides_def
  proof (intro allI impI)
    fix t and bs :: "byte list" assume "bs \<noteq> []"
    then have "length bs \<noteq> 0" by simp
    then show "\<exists>d. os_slow (t + d) bs \<noteq> Again \<and> os_slow (t + d) bs \<noteq> Written 0"
      by (intro exI [of _ "if odd t then 0 else 1"]) (simp add: os_slow_def min_def)
  qed
qed (auto simp: os_ok_def os_fails_def os_slow_def split: if_splits)

definition bw_new :: "int \<Rightarrow> nat \<Rightarrow> BufferedWriter" where
  "bw_new fd n = \<lparr>bw_fd = fd, bw_buffer = RingBuffer_new n, bw_sent = [], bw_tick = 0\<rparr>"

lemma bw_new_inv: "0 < n \<Longrightarrow> bw_inv (bw_new fd n)" "bw_stream (bw_new fd n) = []"
  by (simp_all add: bw_new_def bw_inv_def bw_stream_def rb_inv_new)

theorem writen_extends_stream_witness:
  "\<exists>w'. bw_writen os_slow (bw_new 1 2) [1, 2, 3] = Some (SUCCESS, w') \<and> bw_stream w' = [1, 2, 3]"
  using writen_extends_stream [OF os_slow_ok(1,2) bw_new_inv(1) [of 2 1], of "[1, 2, 3]"] os_slow_ok(3)
  by (auto simp: bw_new_inv) (auto simp: bw_new_def)

text \<open>
  Property C35: \<open>flush\<close> and \<open>close\<close> return; when they report success, everything written so far has been
  handed to the descriptor in order and the buffer is empty; otherwise the error is \<open>IOERR_WRITE\<close>, no
  byte is lost, and \<open>close\<close> keeps the descriptor.
\<close>

theorem flush_delivers:
  assumes "os_ok os" "os_decides os" "bw_inv w" "bw_fd w \<ge> 0"
  shows "\<exists>rc w'. flush os w = Some (rc, w') \<and> bw_stream w' = bw_stream w \<and>
    (rc = SUCCESS \<and> bw_sent w' = bw_stream w \<or> rc = IOERR_WRITE \<and> os_fails os) \<and>
    bw_close os w = Some (rc, if rc = SUCCESS then w'\<lparr>bw_fd := - 1\<rparr> else w')"
proof -
  obtain rc w' where f: "flush os w = Some (rc, w')" "flushed os (int (rb_data_size (bw_buffer w))) w rc w'"
    using flush_correct [OF assms] by blast
  then have "rc = SUCCESS \<Longrightarrow> rb_content (bw_buffer w') = []"
    by (auto simp: flushed_def rb_content_def)
  with f assms(4) show ?thesis by (auto simp: flushed_def bw_close_def bw_stream_def)
qed

theorem flush_delivers_witness:
  "\<exists>w w' w''. bw_writen os_slow (bw_new 1 2) [1, 2, 3] = Some (SUCCESS, w) \<and>
     flush os_slow w = Some (SUCCESS, w') \<and> bw_sent w' = [1, 2, 3]"
proof -
  obtain w where w: "bw_writen os_slow (bw_new 1 2) [1, 2, 3] = Some (SUCCESS, w)" "bw_inv w"
    "bw_stream w = [1, 2, 3]" "bw_fd w \<ge> 0"
    using writen_correct [OF os_slow_ok(1,2) bw_new_inv(1) [of 2 1], of "[1, 2, 3]"] os_slow_ok(3)
    by (auto simp: bw_new_inv) (auto simp: bw_new_def)
  with flush_delivers [OF os_slow_ok(1,2) w(2,4)] os_slow_ok(3) show ?thesis by auto
qed

end
