(* ===== verification/Frame.thy ===== *)
theory Frame
  imports Prelude "HOL-Library.AList"
begin

section \<open>Page frames and their allocator (frame.cpp, mem_pool.h)\<close>

text \<open>
  A frame is the memory image of a page with its dirty flag, its pin count and the latch
  bookkeeping. The build modelled is the default one: \<open>DEBUG\<close> on, so a failing \<open>ASSERT\<close> stops the
  process (\<^const>\<open>None\<close>), and \<open>CONCURRENCY\<close> off, so \<open>lock_\<close> itself does nothing while the latch
  bookkeeping is kept and asserted. \<open>xid\<close> is \<open>get_default_debug_xid()\<close>, the identity of the running
  session or thread. The access time \<open>acc_time_\<close> is written and never read, and is left out.
\<close>

definition BP_PAGE_DATA_SIZE :: nat where
  "BP_PAGE_DATA_SIZE = 2 ^ 13 - 4 - 4"

definition BP_INVALID_PAGE_NUM :: int where
  "BP_INVALID_PAGE_NUM = - 1"

definition BP_HEADER_PAGE :: int where
  "BP_HEADER_PAGE = 0"

record Page =
  pg_num :: int
  pg_lsn :: int
  pg_data :: mem

definition zero_page :: Page where
  "zero_page = \<lparr>pg_num = 0, pg_lsn = 0, pg_data = (\<lambda>_. 0)\<rparr>"

record FrameId =
  fid_file_desc :: int
  fid_page_num :: int

definition FrameId_equal_to :: "FrameId \<Rightarrow> FrameId \<Rightarrow> bool" where
  "FrameId_equal_to a b \<longleftrightarrow> fid_file_desc a = fid_file_desc b \<and> fid_page_num a = fid_page_num b"

record Frame =
  fr_dirty :: bool
  fr_pin :: int
  fr_file_desc :: int
  fr_page :: Page
  fr_write_locker :: int
  fr_write_recursive :: int
  fr_read_lockers :: "(int \<times> int) list"

definition new_frame :: Frame where
  "new_frame = \<lparr>fr_dirty = False, fr_pin = 0, fr_file_desc = - 1, fr_page = zero_page,
     fr_write_locker = 0, fr_write_recursive = 0, fr_read_lockers = []\<rparr>"

abbreviation fr_page_num :: "Frame \<Rightarrow> int" where
  "fr_page_num f \<equiv> pg_num (fr_page f)"

abbreviation fr_data :: "Frame \<Rightarrow> mem" where
  "fr_data f \<equiv> pg_data (fr_page f)"

definition clear_page :: "Frame \<Rightarrow> Frame" where
  "clear_page f = f\<lparr>fr_page := zero_page\<rparr>"

definition set_page_num :: "int \<Rightarrow> Frame \<Rightarrow> Frame" where
  "set_page_num n f = f\<lparr>fr_page := (fr_page f)\<lparr>pg_num := n\<rparr>\<rparr>"

definition set_data :: "mem \<Rightarrow> Frame \<Rightarrow> Frame" where
  "set_data m f = f\<lparr>fr_page := (fr_page f)\<lparr>pg_data := m\<rparr>\<rparr>"

definition frame_id :: "Frame \<Rightarrow> FrameId" where
  "frame_id f = \<lparr>fid_file_desc = fr_file_desc f, fid_page_num = fr_page_num f\<rparr>"

definition mark_dirty :: "Frame \<Rightarrow> Frame" where
  "mark_dirty f = f\<lparr>fr_dirty := True\<rparr>"

definition clear_dirty :: "Frame \<Rightarrow> Frame" where
  "clear_dirty f = f\<lparr>fr_dirty := False\<rparr>"

definition can_purge :: "Frame \<Rightarrow> bool" where
  "can_purge f \<longleftrightarrow> fr_pin f = 0"

definition write_latch :: "int \<Rightarrow> Frame \<Rightarrow> Frame option" where
  "write_latch xid f =
     (if fr_pin f > 0 \<and> map_of (fr_read_lockers f) xid = None
      then Some (f\<lparr>fr_write_locker := xid, fr_write_recursive := fr_write_recursive f + 1\<rparr>)
      else None)"

definition write_unlatch :: "int \<Rightarrow> Frame \<Rightarrow> Frame option" where
  "write_unlatch xid f =
     (if fr_pin f > 0 \<and> fr_write_locker f = xid
      then let c = fr_write_recursive f - 1 in
        Some (f\<lparr>fr_write_recursive := c, fr_write_locker := (if c = 0 then 0 else fr_write_locker f)\<rparr>)
      else None)"

definition read_latch :: "int \<Rightarrow> Frame \<Rightarrow> Frame option" where
  "read_latch xid f =
     (if fr_pin f > 0 \<and> xid \<noteq> fr_write_locker f
      then let c = (case map_of (fr_read_lockers f) xid of None \<Rightarrow> 0 | Some c \<Rightarrow> c) in
        Some (f\<lparr>fr_read_lockers := AList.update xid (c + 1) (fr_read_lockers f)\<rparr>)
      else None)"

text \<open>\<open>try_read_latch\<close>: the shared lock of the default build is always granted.\<close>

definition try_read_latch :: "int \<Rightarrow> Frame \<Rightarrow> (bool \<times> Frame) option" where
  "try_read_latch xid f = map_option (Pair True) (read_latch xid f)"

definition read_unlatch :: "int \<Rightarrow> Frame \<Rightarrow> Frame option" where
  "read_unlatch xid f =
     (if fr_pin f > 0 then
        let recursive_count = (case map_of (fr_read_lockers f) xid of None \<Rightarrow> 0 | Some c \<Rightarrow> c) in
        if recursive_count > 0 then
          Some (if recursive_count = 1 then f\<lparr>fr_read_lockers := AList.delete xid (fr_read_lockers f)\<rparr> else f)
        else None
      else None)"

definition pin :: "Frame \<Rightarrow> Frame" where
  "pin f = f\<lparr>fr_pin := fr_pin f + 1\<rparr>"

definition unpin :: "Frame \<Rightarrow> Frame option" where
  "unpin f =
     (if fr_pin f > 0 then
        let c = fr_pin f - 1 in
        if c = 0 \<and> \<not> (fr_write_locker f = 0 \<and> fr_read_lockers f = []) then None
        else Some (f\<lparr>fr_pin := c\<rparr>)
      else None)"

subsection \<open>Latches\<close>

text \<open>A frame nobody holds a latch of.\<close>

definition unlatched :: "Frame \<Rightarrow> bool" where
  "unlatched f \<longleftrightarrow> fr_write_locker f = 0 \<and> fr_write_recursive f = 0 \<and> fr_read_lockers f = []"

lemma frame_field_simps [simp]:
  "fr_dirty (set_data m f) = fr_dirty f" "fr_pin (set_data m f) = fr_pin f"
  "fr_file_desc (set_data m f) = fr_file_desc f" "fr_page_num (set_data m f) = fr_page_num f"
  "fr_data (set_data m f) = m" "unlatched (set_data m f) = unlatched f"
  "fr_dirty (mark_dirty f)" "fr_pin (mark_dirty f) = fr_pin f" "fr_file_desc (mark_dirty f) = fr_file_desc f"
  "fr_page (mark_dirty f) = fr_page f" "unlatched (mark_dirty f) = unlatched f"
  "\<not> fr_dirty (clear_dirty f)" "fr_pin (clear_dirty f) = fr_pin f" "fr_file_desc (clear_dirty f) = fr_file_desc f"
  "fr_page (clear_dirty f) = fr_page f" "unlatched (clear_dirty f) = unlatched f"
  "fr_dirty (pin f) = fr_dirty f" "fr_pin (pin f) = fr_pin f + 1" "fr_file_desc (pin f) = fr_file_desc f"
  "fr_page (pin f) = fr_page f" "unlatched (pin f) = unlatched f"
  "fr_dirty (set_page_num n f) = fr_dirty f" "fr_pin (set_page_num n f) = fr_pin f"
  "fr_file_desc (set_page_num n f) = fr_file_desc f" "fr_page_num (set_page_num n f) = n"
  "fr_data (set_page_num n f) = fr_data f" "unlatched (set_page_num n f) = unlatched f"
  by (simp_all add: set_data_def mark_dirty_def clear_dirty_def pin_def set_page_num_def unlatched_def)

lemma unpin_pin [simp]: "0 \<le> fr_pin f \<Longrightarrow> unlatched f \<Longrightarrow> unpin (pin f) = Some f"
  by (simp add: unpin_def pin_def unlatched_def)

lemma unpin_unlatched: "fr_pin f > 0 \<Longrightarrow> unlatched f \<Longrightarrow> unpin f = Some (f\<lparr>fr_pin := fr_pin f - 1\<rparr>)"
  by (simp add: unpin_def unlatched_def)

text \<open>
  What a page operation may do to a frame while it holds the latch: change the page image and the
  dirty flag, nothing else.
\<close>

definition page_update :: "Frame \<Rightarrow> Frame \<Rightarrow> bool" where
  "page_update f f' \<longleftrightarrow> f' = f\<lparr>fr_page := fr_page f', fr_dirty := fr_dirty f'\<rparr>"

lemma page_update_refl [simp]: "page_update f f"
  by (simp add: page_update_def)

lemma page_update_mark_set [simp]: "page_update f (mark_dirty (set_data m f))"
  by (simp add: page_update_def mark_dirty_def set_data_def)

lemma write_latch_roundtrip:
  assumes "fr_pin f > 0" "unlatched f" "write_latch xid f = Some f1" "page_update f1 f2"
  shows "write_unlatch xid f2 = Some (f\<lparr>fr_page := fr_page f2, fr_dirty := fr_dirty f2\<rparr>)"
proof -
  have f1: "f1 = f\<lparr>fr_write_locker := xid, fr_write_recursive := 1\<rparr>"
    using assms(1-3) by (auto simp: write_latch_def unlatched_def)
  have f2: "f2 = f1\<lparr>fr_page := fr_page f2, fr_dirty := fr_dirty f2\<rparr>"
    using assms(4) by (simp add: page_update_def)
  have "fr_pin f2 = fr_pin f" "fr_write_locker f2 = xid" "fr_write_recursive f2 = 1"
    using f1 by (subst f2; simp)+
  then have "write_unlatch xid f2 = Some (f2\<lparr>fr_write_recursive := 0, fr_write_locker := 0\<rparr>)"
    using assms(1) by (simp add: write_unlatch_def)
  also have "f2\<lparr>fr_write_recursive := 0, fr_write_locker := 0\<rparr> = f\<lparr>fr_page := fr_page f2, fr_dirty := fr_dirty f2\<rparr>"
    using assms(2) f1 by (subst f2) (simp add: unlatched_def)
  finally show ?thesis .
qed

lemma read_latch_roundtrip:
  assumes "fr_pin f > 0" "unlatched f" "xid \<noteq> 0"
  shows "\<exists>f1. read_latch xid f = Some f1 \<and> read_unlatch xid f1 = Some f \<and> fr_page f1 = fr_page f \<and> fr_pin f1 = fr_pin f"
  using assms by (cases f) (simp add: read_latch_def read_unlatch_def unlatched_def)

subsection \<open>The frame allocator\<close>

text \<open>
  \<open>MemPoolSimple\<close>: objects are addresses; \<open>new T[n]\<close> returns \<open>n\<close> fresh addresses from \<open>mp_brk\<close> on.
\<close>

record MemPool =
  mp_pools :: "nat list"
  mp_used :: "nat set"
  mp_frees :: "nat list"
  mp_item_num :: nat
  mp_size :: nat
  mp_dynamic :: bool
  mp_brk :: nat

definition mp_new :: MemPool where
  "mp_new = \<lparr>mp_pools = [], mp_used = {}, mp_frees = [], mp_item_num = 0, mp_size = 0, mp_dynamic = False, mp_brk = 0\<rparr>"

definition mp_extend :: "MemPool \<Rightarrow> int \<times> MemPool" where
  "mp_extend p =
     (if \<not> mp_dynamic p then (- 1, p)
      else (0, p\<lparr>mp_pools := mp_pools p @ [mp_brk p], mp_size := mp_size p + mp_item_num p,
                mp_frees := mp_frees p @ [mp_brk p..<mp_brk p + mp_item_num p], mp_brk := mp_brk p + mp_item_num p\<rparr>))"

definition mp_cleanup :: "MemPool \<Rightarrow> MemPool" where
  "mp_cleanup p =
     (if mp_pools p = [] then p
      else p\<lparr>mp_used := {}, mp_frees := [], mp_size := 0, mp_pools := []\<rparr>)"

primrec mp_extend_n :: "nat \<Rightarrow> MemPool \<Rightarrow> int \<times> MemPool" where
  "mp_extend_n 0 p = (0, p)"
| "mp_extend_n (Suc n) p =
     (let (r, p) = mp_extend p in if r < 0 then (- 1, mp_cleanup p) else mp_extend_n n p)"

definition mp_init :: "bool \<Rightarrow> int \<Rightarrow> int \<Rightarrow> MemPool \<Rightarrow> int \<times> MemPool" where
  "mp_init dynamic pool_num item_num p =
     (if mp_pools p \<noteq> [] then (0, p)
      else if pool_num \<le> 0 \<or> item_num \<le> 0 then (- 1, p)
      else let (r, p) = mp_extend_n (nat pool_num) (p\<lparr>mp_item_num := nat item_num, mp_dynamic := True\<rparr>) in
        if r < 0 then (- 1, p) else (0, p\<lparr>mp_dynamic := dynamic\<rparr>))"

definition mp_alloc :: "MemPool \<Rightarrow> nat option \<times> MemPool" where
  "mp_alloc p =
     (let (r, p) = (if mp_frees p = [] then mp_extend p else (0, p)) in
      if r < 0 then (None, p)
      else case mp_frees p of
        [] \<Rightarrow> (None, p)
      | b # bs \<Rightarrow> (Some b, p\<lparr>mp_frees := bs, mp_used := insert b (mp_used p)\<rparr>))"

definition mp_free :: "nat \<Rightarrow> MemPool \<Rightarrow> MemPool" where
  "mp_free b p =
     (if b \<notin> mp_used p then p
      else p\<lparr>mp_used := mp_used p - {b}, mp_frees := mp_frees p @ [b]\<rparr>)"

text \<open>Every object of the pool is free or used, not both, and was handed out by \<open>new\<close>.\<close>

definition mp_inv :: "MemPool \<Rightarrow> bool" where
  "mp_inv p \<longleftrightarrow> distinct (mp_frees p) \<and> finite (mp_used p) \<and> set (mp_frees p) \<inter> mp_used p = {} \<and>
     (\<forall>b \<in> set (mp_frees p) \<union> mp_used p. b < mp_brk p) \<and>
     mp_size p = length (mp_frees p) + card (mp_used p)"

lemma mp_size_free [simp]: "mp_size (mp_free b p) = mp_size p"
  by (simp add: mp_free_def)

lemma mp_inv_new: "mp_inv mp_new"
  by (simp add: mp_inv_def mp_new_def)

lemma mp_inv_extend: "mp_inv p \<Longrightarrow> mp_inv (snd (mp_extend p))"
proof (cases "mp_dynamic p")
  case True
  assume inv: "mp_inv p"
  then have below: "b \<in> set (mp_frees p) \<union> mp_used p \<Longrightarrow> \<not> mp_brk p \<le> b" for b
    unfolding mp_inv_def not_le by blast
  have "distinct (mp_frees p @ [mp_brk p..<mp_brk p + mp_item_num p])"
    using inv below by (simp add: mp_inv_def disjoint_iff)
  moreover have "(set (mp_frees p) \<union> {mp_brk p..<mp_brk p + mp_item_num p}) \<inter> mp_used p = {}"
    using inv below by (simp add: mp_inv_def disjoint_iff) blast
  moreover have "b \<in> set (mp_frees p) \<union> mp_used p \<Longrightarrow> b < mp_brk p + mp_item_num p" for b
    using below [of b] by simp
  ultimately show ?thesis using inv True by (auto simp: mp_inv_def mp_extend_def simp del: Un_iff)
qed (simp add: mp_extend_def)

lemma mp_inv_take:
  assumes "mp_inv p" "mp_frees p = b # bs"
  shows "mp_inv (p\<lparr>mp_frees := bs, mp_used := insert b (mp_used p)\<rparr>)" "b \<notin> mp_used p"
  using assms by (auto simp: mp_inv_def)

lemma mp_inv_alloc:
  assumes "mp_inv p" "mp_alloc p = (Some b, p')"
  shows "mp_inv p'" "b \<notin> mp_used p" "mp_used p' = insert b (mp_used p)"
proof -
  define q where "q = (if mp_frees p = [] then snd (mp_extend p) else p)"
  have q: "mp_inv q" "mp_used q = mp_used p"
    using assms(1) mp_inv_extend by (auto simp: q_def mp_extend_def)
  obtain bs where "mp_frees q = b # bs" "p' = q\<lparr>mp_frees := bs, mp_used := insert b (mp_used q)\<rparr>"
    using assms(2) by (auto simp: mp_alloc_def q_def split: if_splits list.splits prod.splits)
  with q mp_inv_take [of q b bs] show "mp_inv p'" "b \<notin> mp_used p" "mp_used p' = insert b (mp_used p)" by auto
qed

lemma mp_alloc_None:
  assumes "mp_alloc p = (None, p')" "\<not> mp_dynamic p"
  shows "p' = p" "mp_frees p = []"
  using assms by (auto simp: mp_alloc_def mp_extend_def split: if_splits list.splits)

lemma mp_alloc_static:
  "mp_frees p = b # bs \<Longrightarrow> mp_alloc p = (Some b, p\<lparr>mp_frees := bs, mp_used := insert b (mp_used p)\<rparr>)"
  by (simp add: mp_alloc_def)

lemma mp_inv_free:
  assumes "mp_inv p"
  shows "mp_inv (mp_free b p)"
proof (cases "b \<in> mp_used p")
  case True
  define u where "u = mp_used p - {b}"
  have u: "mp_used p = insert b u" "b \<notin> u" using True by (auto simp: u_def)
  have eq: "mp_free b p = p\<lparr>mp_used := u, mp_frees := mp_frees p @ [b]\<rparr>"
    using True by (simp add: mp_free_def u_def)
  show ?thesis using assms u(2) unfolding eq mp_inv_def u(1) by auto
qed (use assms in \<open>simp add: mp_free_def\<close>)

end
