(* ===== verification/RecordPage.thy ===== *)
theory RecordPage
  imports Bitmap Comparator Frame "HOL-Library.Signed_Division"
begin

section \<open>Records in a page (record_manager.cpp: RecordPageHandler, RecordPageIterator)\<close>

text \<open>
  A record page is a page header of five \<open>int32_t\<close> fields, a bitmap of occupied slots and an array of
  fixed-size slots, all in the data area of one frame. The operations work on the bytes of the
  frame; the header overlay is read and written as 32-bit fields, the bitmap by the operations of
  \<open>Bitmap\<close>. The content of a page is abstracted to a partial map from slots to records.
  A negative slot number would shift by a negative amount (undefined): the result is \<^const>\<open>None\<close>, as it is
  where more bytes would be copied than the caller supplies.
\<close>

subsection \<open>Layout\<close>

definition PAGE_HEADER_SIZE :: nat where
  "PAGE_HEADER_SIZE = 20"

text \<open>The fields of \<open>PageHeader\<close>.\<close>

definition ph_record_num :: "mem \<Rightarrow> int" where "ph_record_num m = read_i32 m 0"
definition ph_real_size :: "mem \<Rightarrow> int" where "ph_real_size m = read_i32 m 4"
definition ph_record_size :: "mem \<Rightarrow> int" where "ph_record_size m = read_i32 m 8"
definition ph_capacity :: "mem \<Rightarrow> int" where "ph_capacity m = read_i32 m 12"
definition ph_first_offset :: "mem \<Rightarrow> int" where "ph_first_offset m = read_i32 m 16"

lemmas ph_defs = ph_record_num_def ph_real_size_def ph_record_size_def ph_capacity_def ph_first_offset_def

definition align8 :: "int \<Rightarrow> int" where
  "align8 sz = (sz + 7) sdiv 8 * 8"

text \<open>
  The quotient by \<open>record_size + 0.125\<close> in floating point, truncated. Both operands are exact and the
  exact quotient \<open>8 (page_size - 21) / (8 record_size + 1)\<close> is further from the next integer than a
  \<open>double\<close> rounds, so the truncation is that of the exact quotient.
\<close>

definition page_record_capacity :: "int \<Rightarrow> int \<Rightarrow> int" where
  "page_record_capacity page_size record_size =
     (8 * (page_size - int PAGE_HEADER_SIZE - 1)) sdiv (8 * record_size + 1)"

definition page_bitmap_size :: "int \<Rightarrow> int" where
  "page_bitmap_size record_capacity = (record_capacity + 7) sdiv 8"

subsection \<open>Operations\<close>

text \<open>The loop of \<open>fix_record_capacity\<close>.\<close>

partial_function (option) fix_capacity_loop :: "mem \<Rightarrow> int \<Rightarrow> mem option" where
  "fix_capacity_loop m last_record_offset =
     (if last_record_offset > int BP_PAGE_DATA_SIZE
      then fix_capacity_loop (write_i32 m 12 (ph_capacity m - 1)) (last_record_offset - ph_record_size m)
      else Some m)"

definition fix_record_capacity :: "mem \<Rightarrow> mem option" where
  "fix_record_capacity m = fix_capacity_loop m (ph_first_offset m + ph_capacity m * ph_record_size m)"

text \<open>The part of \<open>init_empty_page\<close> that lays out the page, between \<open>init\<close> and \<open>flush_page\<close>.\<close>

definition rp_format :: "mem \<Rightarrow> int \<Rightarrow> mem option" where
  "rp_format m record_size = do {
     m \<leftarrow> Some (write_i32 m 0 0);
     m \<leftarrow> Some (write_i32 m 4 record_size);
     m \<leftarrow> Some (write_i32 m 8 (align8 record_size));
     m \<leftarrow> Some (write_i32 m 12 (page_record_capacity (int BP_PAGE_DATA_SIZE) (ph_record_size m)));
     m \<leftarrow> Some (write_i32 m 16 (align8 (int PAGE_HEADER_SIZE + page_bitmap_size (ph_capacity m))));
     m \<leftarrow> fix_record_capacity m;
     if ph_first_offset m + ph_capacity m * ph_record_size m \<le> int BP_PAGE_DATA_SIZE
     then Some (memset m PAGE_HEADER_SIZE 0 (nat (page_bitmap_size (ph_capacity m))))
     else None
   }"

definition rp_bitmap :: "mem \<Rightarrow> bitmap" where
  "rp_bitmap m = bitmap_init PAGE_HEADER_SIZE (nat (ph_capacity m))"

definition get_record_data :: "mem \<Rightarrow> int \<Rightarrow> nat" where
  "get_record_data m slot = nat (ph_first_offset m + ph_record_size m * slot)"

definition is_full :: "mem \<Rightarrow> bool" where
  "is_full m \<longleftrightarrow> ph_record_num m \<ge> ph_capacity m"

definition rp_insert_record :: "bool \<Rightarrow> Frame \<Rightarrow> byte list \<Rightarrow> (RC \<times> RID option \<times> Frame) option" where
  "rp_insert_record readonly f data =
     (let m = fr_data f in
      if readonly then None
      else if ph_record_num m = ph_capacity m then Some (RECORD_NOMEM, None, f)
      else let index = next_unsetted_bit m (rp_bitmap m) 0 in
        if index < 0 \<or> length data < nat (ph_real_size m) then None
        else let m = set_bit m (rp_bitmap m) (nat index);
                 m = write_i32 m 0 (ph_record_num m + 1);
                 m = memcpy m (get_record_data m index) data (nat (ph_real_size m))
          in Some (SUCCESS, Some \<lparr>page_num = fr_page_num f, slot_num = index\<rparr>, mark_dirty (set_data m f)))"

definition rp_recover_insert_record :: "Frame \<Rightarrow> byte list \<Rightarrow> RID \<Rightarrow> (RC \<times> Frame) option" where
  "rp_recover_insert_record f data rid =
     (let m = fr_data f in
      if slot_num rid \<ge> ph_capacity m then Some (RECORD_INVALID_RID, f)
      else if slot_num rid < 0 \<or> length data < nat (ph_real_size m) then None
      else let m = (if \<not> get_bit m (rp_bitmap m) (nat (slot_num rid))
                    then let m' = set_bit m (rp_bitmap m) (nat (slot_num rid))
                         in write_i32 m' 0 (ph_record_num m' + 1)
                    else m);
               m = memcpy m (get_record_data m (slot_num rid)) data (nat (ph_real_size m))
        in Some (SUCCESS, mark_dirty (set_data m f)))"

text \<open>
  \<open>delete_record\<close> without the call of \<open>cleanup\<close> for an emptied page, which works on the handler: the
  second component says whether that call is made.
\<close>

definition rp_delete_record :: "bool \<Rightarrow> Frame \<Rightarrow> RID \<Rightarrow> (RC \<times> bool \<times> Frame) option" where
  "rp_delete_record readonly f rid =
     (let m = fr_data f in
      if readonly then None
      else if slot_num rid \<ge> ph_capacity m then Some (INVALID_ARGUMENT, False, f)
      else if slot_num rid < 0 then None
      else if get_bit m (rp_bitmap m) (nat (slot_num rid)) then
        let m = clear_bit m (rp_bitmap m) (nat (slot_num rid));
            m = write_i32 m 0 (ph_record_num m - 1)
        in Some (SUCCESS, ph_record_num m = 0, mark_dirty (set_data m f))
      else Some (RECORD_NOT_EXIST, False, f))"

text \<open>A \<open>Record\<close>: its identifier and where its data are, as an offset into the page of its frame.\<close>

record Record =
  rec_rid :: RID
  rec_data :: nat
  rec_len :: int

definition rp_get_record :: "Frame \<Rightarrow> RID \<Rightarrow> (RC \<times> Record option) option" where
  "rp_get_record f rid =
     (let m = fr_data f in
      if slot_num rid \<ge> ph_capacity m then Some (RECORD_INVALID_RID, None)
      else if slot_num rid < 0 then None
      else if \<not> get_bit m (rp_bitmap m) (nat (slot_num rid)) then Some (RECORD_NOT_EXIST, None)
      else Some (SUCCESS, Some \<lparr>rec_rid = rid, rec_data = get_record_data m (slot_num rid), rec_len = ph_real_size m\<rparr>))"

subsection \<open>The page iterator\<close>

record RecordPageIterator =
  it_page_num :: int
  it_bitmap :: bitmap
  it_next_slot :: int

definition rpi_init :: "Frame \<Rightarrow> nat \<Rightarrow> RecordPageIterator" where
  "rpi_init f start_slot_num =
     \<lparr>it_page_num = fr_page_num f, it_bitmap = rp_bitmap (fr_data f),
      it_next_slot = next_setted_bit (fr_data f) (rp_bitmap (fr_data f)) start_slot_num\<rparr>"

definition rpi_has_next :: "RecordPageIterator \<Rightarrow> bool" where
  "rpi_has_next it \<longleftrightarrow> - 1 \<noteq> it_next_slot it"

definition rpi_next :: "Frame \<Rightarrow> RecordPageIterator \<Rightarrow> RC \<times> Record \<times> RecordPageIterator" where
  "rpi_next f it =
     (let rec = \<lparr>rec_rid = \<lparr>page_num = it_page_num it, slot_num = it_next_slot it\<rparr>,
                 rec_data = get_record_data (fr_data f) (it_next_slot it), rec_len = 0\<rparr>;
          it' = (if it_next_slot it \<ge> 0
                 then it\<lparr>it_next_slot := next_setted_bit (fr_data f) (it_bitmap it) (nat (it_next_slot it) + 1)\<rparr>
                 else it)
      in (if slot_num (rec_rid rec) \<noteq> - 1 then SUCCESS else RECORD_EOF, rec, it'))"

subsection \<open>Content and invariant\<close>

definition occupied :: "mem \<Rightarrow> nat \<Rightarrow> bool" where
  "occupied m i \<longleftrightarrow> bit_at m PAGE_HEADER_SIZE i"

definition rp_ok :: "mem \<Rightarrow> bool" where
  "rp_ok m \<longleftrightarrow>
     0 \<le> ph_real_size m \<and> ph_real_size m \<le> ph_record_size m \<and> 0 \<le> ph_capacity m \<and>
     int PAGE_HEADER_SIZE + (ph_capacity m + 7) div 8 \<le> ph_first_offset m \<and>
     ph_first_offset m + ph_capacity m * ph_record_size m \<le> int BP_PAGE_DATA_SIZE \<and>
     ph_record_num m = int (card {i. i < nat (ph_capacity m) \<and> occupied m i})"

definition page_recs :: "mem \<Rightarrow> nat \<Rightarrow> byte list option" where
  "page_recs m i =
     (if i < nat (ph_capacity m) \<and> occupied m i
      then Some (mem_slice m (get_record_data m (int i)) (nat (ph_real_size m))) else None)"

definition page_slots :: "mem \<Rightarrow> nat list" where
  "page_slots m = filter (occupied m) [0..<nat (ph_capacity m)]"

definition same_layout :: "mem \<Rightarrow> mem \<Rightarrow> bool" where
  "same_layout m m' \<longleftrightarrow> ph_real_size m' = ph_real_size m \<and> ph_record_size m' = ph_record_size m \<and>
     ph_capacity m' = ph_capacity m \<and> ph_first_offset m' = ph_first_offset m"

subsection \<open>Geometry of a page\<close>

lemma rp_okD:
  assumes "rp_ok m"
  shows "0 \<le> ph_real_size m" "ph_real_size m \<le> ph_record_size m" "0 \<le> ph_capacity m"
    "20 + (ph_capacity m + 7) div 8 \<le> ph_first_offset m"
    "ph_first_offset m + ph_capacity m * ph_record_size m \<le> 8184"
    "ph_record_num m = int (card {i. i < nat (ph_capacity m) \<and> occupied m i})"
  using assms by (simp_all add: rp_ok_def PAGE_HEADER_SIZE_def BP_PAGE_DATA_SIZE_def)

lemma slot_offset:
  assumes "rp_ok m" "i < nat (ph_capacity m)"
  shows "int (get_record_data m (int i)) = ph_first_offset m + ph_record_size m * int i"
    "PAGE_HEADER_SIZE + i div 8 < nat (ph_first_offset m)"
    "nat (ph_first_offset m) \<le> get_record_data m (int i)"
    "get_record_data m (int i) + nat (ph_real_size m) \<le> BP_PAGE_DATA_SIZE"
proof -
  note ok = rp_okD [OF assms(1)]
  have nn: "0 \<le> ph_first_offset m" "0 \<le> ph_record_size m * int i" using ok by auto
  then show off: "int (get_record_data m (int i)) = ph_first_offset m + ph_record_size m * int i"
    by (simp add: get_record_data_def)
  have "int (i div 8) < (ph_capacity m + 7) div 8"
    using assms(2) by (simp add: zdiv_int)
  then show "PAGE_HEADER_SIZE + i div 8 < nat (ph_first_offset m)"
    using ok(4) by (simp add: PAGE_HEADER_SIZE_def)
  show "nat (ph_first_offset m) \<le> get_record_data m (int i)" using off nn by linarith
  have "ph_record_size m * (int i + 1) \<le> ph_record_size m * ph_capacity m"
    using assms(2) ok by (intro mult_left_mono) auto
  then have "int (get_record_data m (int i)) + ph_real_size m \<le> 8184"
    using off ok by (simp add: algebra_simps)
  then show "get_record_data m (int i) + nat (ph_real_size m) \<le> BP_PAGE_DATA_SIZE"
    using ok(1) by (simp add: BP_PAGE_DATA_SIZE_def)
qed

lemma slot_disjoint:
  assumes "rp_ok m" "i < nat (ph_capacity m)" "j < nat (ph_capacity m)" "i < j"
  shows "get_record_data m (int i) + nat (ph_real_size m) \<le> get_record_data m (int j)"
proof -
  note ok = rp_okD [OF assms(1)]
  have "ph_record_size m * (int i + 1) \<le> ph_record_size m * int j"
    using assms(4) ok by (intro mult_left_mono) auto
  then show ?thesis
    using slot_offset(1) [OF assms(1,2)] slot_offset(1) [OF assms(1,3)] ok
    by (simp add: algebra_simps)
qed

subsection \<open>What a write to one slot and its bit does to the page\<close>

definition slot_write :: "nat \<Rightarrow> mem \<Rightarrow> mem \<Rightarrow> bool" where
  "slot_write i m m' \<longleftrightarrow>
     (\<forall>p \<ge> 4. p \<noteq> PAGE_HEADER_SIZE + i div 8 \<and>
        \<not> (get_record_data m (int i) \<le> p \<and> p < get_record_data m (int i) + nat (ph_real_size m)) \<longrightarrow> m' p = m p)"

lemma slot_write_layout:
  assumes "rp_ok m" "i < nat (ph_capacity m)" "slot_write i m m'"
  shows "same_layout m m'"
proof -
  have "20 \<le> get_record_data m (int i)"
    using slot_offset(2,3) [OF assms(1,2)] by (simp add: PAGE_HEADER_SIZE_def)
  then have "m' p = m p" if "4 \<le> p" "p < 20" for p
    using assms(3) that by (simp add: slot_write_def PAGE_HEADER_SIZE_def)
  then show ?thesis unfolding same_layout_def ph_defs
    by (intro conjI read_i32_cong) simp_all
qed

lemma slot_write_slice:
  assumes "rp_ok m" "i < nat (ph_capacity m)" "slot_write i m m'" "j < nat (ph_capacity m)" "j \<noteq> i"
  shows "mem_slice m' (get_record_data m (int j)) (nat (ph_real_size m)) =
    mem_slice m (get_record_data m (int j)) (nat (ph_real_size m))"
proof (rule mem_slice_cong)
  fix p assume p: "get_record_data m (int j) \<le> p" "p < get_record_data m (int j) + nat (ph_real_size m)"
  have "PAGE_HEADER_SIZE + i div 8 < p"
    using slot_offset(2) [OF assms(1,2)] slot_offset(3) [OF assms(1,4)] p by linarith
  moreover have "\<not> (get_record_data m (int i) \<le> p \<and> p < get_record_data m (int i) + nat (ph_real_size m))"
    using p slot_disjoint [OF assms(1,2,4)] slot_disjoint [OF assms(1,4,2)] assms(5)
    by (cases "i < j") auto
  ultimately show "m' p = m p"
    using assms(3) by (simp add: slot_write_def PAGE_HEADER_SIZE_def)
qed

lemma same_layout_offset: "same_layout m m' \<Longrightarrow> get_record_data m' i = get_record_data m i"
  by (simp add: same_layout_def get_record_data_def)

lemma page_recs_slot_write:
  assumes "rp_ok m" "i < nat (ph_capacity m)" "slot_write i m m'"
    and "\<And>j. j < nat (ph_capacity m) \<Longrightarrow> occupied m' j \<longleftrightarrow> (if j = i then v \<noteq> None else occupied m j)"
    and "\<And>d. v = Some d \<Longrightarrow> mem_slice m' (get_record_data m (int i)) (nat (ph_real_size m)) = d"
  shows "page_recs m' = (page_recs m)(i := v)"
proof
  fix j
  have lay: "same_layout m m'" using slot_write_layout assms by blast
  then show "page_recs m' j = ((page_recs m)(i := v)) j"
    using assms(2,4,5) slot_write_slice [OF assms(1-3)]
    by (cases "j = i"; cases v) (auto simp: page_recs_def same_layout_offset, auto simp: same_layout_def)
qed

lemma card_occupied_insert:
  fixes n :: nat
  assumes "i < n" "\<not> P i" "\<And>j. j < n \<Longrightarrow> Q j \<longleftrightarrow> j = i \<or> P j"
  shows "card {j. j < n \<and> Q j} = Suc (card {j. j < n \<and> P j})"
proof -
  have "{j. j < n \<and> Q j} = insert i {j. j < n \<and> P j}" using assms by auto
  moreover have "finite {j. j < n \<and> P j}" by (rule finite_subset [of _ "{..<n}"]) auto
  ultimately show ?thesis using assms(2) by (simp add: card_insert_if)
qed

lemma rp_ok_layout:
  assumes "rp_ok m" "same_layout m m'" "ph_record_num m' = int (card {j. j < nat (ph_capacity m) \<and> occupied m' j})"
  shows "rp_ok m'"
  using assms by (simp add: rp_ok_def same_layout_def)

text \<open>The three writes of an insertion: the bit, the count and the bytes.\<close>

lemma occupied_rest:
  assumes "rp_ok m" "j < nat (ph_capacity m)" "\<And>p. PAGE_HEADER_SIZE \<le> p \<Longrightarrow> p < nat (ph_first_offset m) \<Longrightarrow> m2 p = m1 p"
  shows "occupied m2 j = occupied m1 j"
  using assms slot_offset(2) [OF assms(1,2)] by (simp add: occupied_def bit_at_def)

definition put_slot :: "mem \<Rightarrow> nat \<Rightarrow> byte list \<Rightarrow> mem" where
  "put_slot m i data =
     memcpy (write_i32 (set_bit m (rp_bitmap m) i) 0 (ph_record_num m + 1)) (get_record_data m (int i)) data (nat (ph_real_size m))"

lemma rp_bitmap_simps [simp]: "bm_ptr (rp_bitmap m) = PAGE_HEADER_SIZE" "bm_size (rp_bitmap m) = nat (ph_capacity m)"
  by (simp_all add: rp_bitmap_def bitmap_init_def)

lemma ph_set_bit [simp]:
  "ph_record_num (set_bit m (rp_bitmap m) i) = ph_record_num m" "ph_real_size (set_bit m (rp_bitmap m) i) = ph_real_size m"
  "ph_record_size (set_bit m (rp_bitmap m) i) = ph_record_size m" "ph_capacity (set_bit m (rp_bitmap m) i) = ph_capacity m"
  "ph_first_offset (set_bit m (rp_bitmap m) i) = ph_first_offset m"
  "ph_record_num (clear_bit m (rp_bitmap m) i) = ph_record_num m"
  unfolding ph_defs
  by (rule read_i32_cong, simp add: set_bit_other clear_bit_other PAGE_HEADER_SIZE_def)+

lemma ph_write_num [simp]:
  "fits_i32 v \<Longrightarrow> ph_record_num (write_i32 m 0 v) = v" "ph_real_size (write_i32 m 0 v) = ph_real_size m"
  "ph_record_size (write_i32 m 0 v) = ph_record_size m" "ph_capacity (write_i32 m 0 v) = ph_capacity m"
  "ph_first_offset (write_i32 m 0 v) = ph_first_offset m"
  by (simp_all add: ph_defs)

lemma get_record_data_upd [simp]:
  "get_record_data (write_i32 m 0 v) i = get_record_data m i"
  "get_record_data (set_bit m (rp_bitmap m) k) i = get_record_data m i"
  by (simp_all add: get_record_data_def)

lemma slot_write_put: "slot_write i m (put_slot m i data)"
  by (auto simp: slot_write_def put_slot_def memcpy_def set_bit_other)

lemma rp_count_bound: "rp_ok m \<Longrightarrow> 0 \<le> ph_record_num m \<and> ph_record_num m \<le> ph_capacity m \<and> ph_capacity m < 2 ^ 31 - 1"
proof -
  assume ok: "rp_ok m"
  have "card {i. i < nat (ph_capacity m) \<and> occupied m i} \<le> card {..<nat (ph_capacity m)}"
    by (intro card_mono) auto
  moreover have "ph_capacity m < 2 ^ 31 - 1"
  proof -
    have "(ph_capacity m + 7) div 8 \<le> 8184"
      using rp_okD [OF ok] mult_nonneg_nonneg [of "ph_capacity m" "ph_record_size m"] by linarith
    then show ?thesis by simp
  qed
  ultimately show ?thesis using rp_okD [OF ok] by simp
qed

lemma put_slot_correct:
  assumes "rp_ok m" "i < nat (ph_capacity m)" "\<not> occupied m i" "nat (ph_real_size m) \<le> length data"
  shows "page_recs (put_slot m i data) = (page_recs m)(i \<mapsto> take (nat (ph_real_size m)) data)"
    "rp_ok (put_slot m i data)" "same_layout m (put_slot m i data)"
proof -
  let ?m = "put_slot m i data" and ?r = "nat (ph_real_size m)"
  note off = slot_offset [OF assms(1,2)]
  have occ: "occupied ?m j \<longleftrightarrow> j = i \<or> occupied m j" if "j < nat (ph_capacity m)" for j
  proof -
    have "occupied ?m j = occupied (set_bit m (rp_bitmap m) i) j"
      using off(3) by (intro occupied_rest [OF assms(1) that]) (simp add: put_slot_def memcpy_def PAGE_HEADER_SIZE_def)
    then show ?thesis using bit_at_set_bit [of m "rp_bitmap m" i j] by (simp add: occupied_def)
  qed
  have "mem_slice ?m (get_record_data m (int i)) ?r = take ?r data"
    using assms(4) by (intro nth_equalityI) (simp_all add: mem_slice_def put_slot_def memcpy_def)
  then show "page_recs ?m = (page_recs m)(i \<mapsto> take ?r data)"
    using occ by (intro page_recs_slot_write [OF assms(1,2) slot_write_put]) auto
  show lay: "same_layout m ?m" by (rule slot_write_layout [OF assms(1,2) slot_write_put])
  have "ph_record_num ?m = ph_record_num m + 1"
    using rp_count_bound [OF assms(1)] off(2,3)
    by (simp add: put_slot_def ph_defs PAGE_HEADER_SIZE_def fits_i32_def)
  then show "rp_ok ?m"
    using rp_okD(6) [OF assms(1)] card_occupied_insert [OF assms(2,3) occ]
    by (intro rp_ok_layout [OF assms(1) lay]) simp
qed

text \<open>Writing over an occupied slot: only the bytes change.\<close>

lemma overwrite_slot_correct:
  assumes "rp_ok m" "i < nat (ph_capacity m)" "occupied m i" "nat (ph_real_size m) \<le> length data"
  defines "m' \<equiv> memcpy m (get_record_data m (int i)) data (nat (ph_real_size m))"
  shows "page_recs m' = (page_recs m)(i \<mapsto> take (nat (ph_real_size m)) data)" "rp_ok m'" "same_layout m m'"
proof -
  let ?r = "nat (ph_real_size m)"
  note off = slot_offset [OF assms(1,2)]
  have sw: "slot_write i m m'" by (auto simp: slot_write_def m'_def memcpy_def)
  have occ: "occupied m' j = occupied m j" if "j < nat (ph_capacity m)" for j
    using off(3) by (intro occupied_rest [OF assms(1) that]) (simp add: m'_def memcpy_def)
  have "mem_slice m' (get_record_data m (int i)) ?r = take ?r data"
    using assms(4) by (intro nth_equalityI) (simp_all add: mem_slice_def m'_def memcpy_def)
  then show "page_recs m' = (page_recs m)(i \<mapsto> take ?r data)"
    using occ assms(3) by (intro page_recs_slot_write [OF assms(1,2) sw]) auto
  show lay: "same_layout m m'" by (rule slot_write_layout [OF assms(1,2) sw])
  have "ph_record_num m' = ph_record_num m"
    using off(2,3) by (simp add: m'_def ph_defs PAGE_HEADER_SIZE_def)
  moreover have "{j. j < nat (ph_capacity m) \<and> occupied m' j} = {j. j < nat (ph_capacity m) \<and> occupied m j}"
    using occ by auto
  ultimately show "rp_ok m'" using rp_okD(6) [OF assms(1)] by (intro rp_ok_layout [OF assms(1) lay]) simp
qed

definition drop_slot :: "mem \<Rightarrow> nat \<Rightarrow> mem" where
  "drop_slot m i = write_i32 (clear_bit m (rp_bitmap m) i) 0 (ph_record_num m - 1)"

lemma drop_slot_correct:
  assumes "rp_ok m" "i < nat (ph_capacity m)" "occupied m i"
  shows "page_recs (drop_slot m i) = (page_recs m)(i := None)" "rp_ok (drop_slot m i)" "same_layout m (drop_slot m i)"
    "ph_record_num (drop_slot m i) = ph_record_num m - 1"
proof -
  let ?m = "drop_slot m i"
  note off = slot_offset [OF assms(1,2)]
  have sw: "slot_write i m ?m" by (simp add: slot_write_def drop_slot_def clear_bit_other)
  have occ: "occupied ?m j \<longleftrightarrow> j \<noteq> i \<and> occupied m j" if "j < nat (ph_capacity m)" for j
  proof -
    have "occupied ?m j = occupied (clear_bit m (rp_bitmap m) i) j"
      by (intro occupied_rest [OF assms(1) that]) (simp add: drop_slot_def PAGE_HEADER_SIZE_def)
    then show ?thesis using bit_at_clear_bit [of m "rp_bitmap m" i j] by (simp add: occupied_def)
  qed
  show "page_recs ?m = (page_recs m)(i := None)"
    using occ by (intro page_recs_slot_write [OF assms(1,2) sw]) auto
  show lay: "same_layout m ?m" by (rule slot_write_layout [OF assms(1,2) sw])
  show num: "ph_record_num ?m = ph_record_num m - 1"
    using rp_count_bound [OF assms(1)] by (simp add: drop_slot_def fits_i32_def)
  have "card {j. j < nat (ph_capacity m) \<and> occupied m j} = Suc (card {j. j < nat (ph_capacity m) \<and> occupied ?m j})"
    using occ assms(2,3) by (intro card_occupied_insert [of i]) auto
  then show "rp_ok ?m" using rp_okD(6) [OF assms(1)] num by (intro rp_ok_layout [OF assms(1) lay]) simp
qed

subsection \<open>The operations\<close>

lemma get_bit_occupied: "get_bit m (rp_bitmap m) i = occupied m i"
  by (simp add: get_bit_iff occupied_def)

lemma free_slot_exists:
  assumes "rp_ok m" "ph_record_num m < ph_capacity m"
  obtains i where "next_unsetted_bit m (rp_bitmap m) 0 = int i" "i < nat (ph_capacity m)" "\<not> occupied m i"
    "\<And>j. j < i \<Longrightarrow> occupied m j"
proof (cases rule: first_from_cases [where P = "\<lambda>j. \<not> occupied m j" and s = 0 and n = "nat (ph_capacity m)"])
  case none
  then have "{i. i < nat (ph_capacity m) \<and> occupied m i} = {..<nat (ph_capacity m)}" by auto
  then have "ph_record_num m = ph_capacity m" using rp_okD(3,6) [OF assms(1)] by simp
  with assms(2) show ?thesis by simp
next
  case (some i)
  then have "next_unsetted_bit m (rp_bitmap m) 0 = int i"
    by (simp add: next_unsetted_bit_zero occupied_def [symmetric])
  with some that show ?thesis by auto
qed

lemma rp_insert_correct:
  assumes "rp_ok (fr_data f)" "ph_record_num (fr_data f) < ph_capacity (fr_data f)"
    "nat (ph_real_size (fr_data f)) \<le> length data"
  shows "\<exists>i. rp_insert_record False f data =
      Some (SUCCESS, Some \<lparr>page_num = fr_page_num f, slot_num = int i\<rparr>, mark_dirty (set_data (put_slot (fr_data f) i data) f)) \<and>
    i < nat (ph_capacity (fr_data f)) \<and> \<not> occupied (fr_data f) i \<and> (\<forall>j < i. occupied (fr_data f) j)"
proof -
  obtain i where i: "next_unsetted_bit (fr_data f) (rp_bitmap (fr_data f)) 0 = int i" "i < nat (ph_capacity (fr_data f))"
    "\<not> occupied (fr_data f) i" "\<And>j. j < i \<Longrightarrow> occupied (fr_data f) j"
    using free_slot_exists [OF assms(1,2)] by metis
  then show ?thesis using assms by (intro exI [of _ i]) (auto simp: rp_insert_record_def Let_def put_slot_def)
qed

lemma rp_insert_full:
  "rp_ok (fr_data f) \<Longrightarrow> is_full (fr_data f) \<Longrightarrow> rp_insert_record False f data = Some (RECORD_NOMEM, None, f)"
  using rp_count_bound [of "fr_data f"] by (simp add: rp_insert_record_def is_full_def)

lemma rp_recover_insert_correct:
  assumes "rp_ok (fr_data f)" "slot_num rid = int i" "i < nat (ph_capacity (fr_data f))"
    "nat (ph_real_size (fr_data f)) \<le> length data"
  shows "\<exists>m'. rp_recover_insert_record f data rid = Some (SUCCESS, mark_dirty (set_data m' f)) \<and> rp_ok m' \<and>
    page_recs m' = (page_recs (fr_data f))(i \<mapsto> take (nat (ph_real_size (fr_data f))) data) \<and> same_layout (fr_data f) m'"
proof (cases "occupied (fr_data f) i")
  case True
  then show ?thesis
    using overwrite_slot_correct [OF assms(1,3) True assms(4)] assms
    by (auto simp: rp_recover_insert_record_def Let_def get_bit_occupied)
next
  case False
  then show ?thesis
    using put_slot_correct [OF assms(1,3) False assms(4)] assms
    by (auto simp: rp_recover_insert_record_def Let_def get_bit_occupied put_slot_def)
qed

lemma rp_delete_correct:
  assumes "rp_ok (fr_data f)" "slot_num rid = int i" "i < nat (ph_capacity (fr_data f))"
  shows "rp_delete_record False f rid =
    (if occupied (fr_data f) i
     then Some (SUCCESS, ph_record_num (fr_data f) = 1, mark_dirty (set_data (drop_slot (fr_data f) i) f))
     else Some (RECORD_NOT_EXIST, False, f))"
  using assms drop_slot_correct(4) [OF assms(1,3)]
  by (auto simp: rp_delete_record_def Let_def get_bit_occupied drop_slot_def)

lemma rp_get_correct:
  assumes "slot_num rid = int i" "i < nat (ph_capacity (fr_data f))"
  shows "rp_get_record f rid =
    (if occupied (fr_data f) i
     then Some (SUCCESS, Some \<lparr>rec_rid = rid, rec_data = get_record_data (fr_data f) (int i), rec_len = ph_real_size (fr_data f)\<rparr>)
     else Some (RECORD_NOT_EXIST, None))"
  using assms by (simp add: rp_get_record_def Let_def get_bit_occupied)

text \<open>The bytes a record handle refers to.\<close>

definition rec_bytes :: "Frame \<Rightarrow> Record \<Rightarrow> byte list" where
  "rec_bytes f r = mem_slice (fr_data f) (rec_data r) (nat (ph_real_size (fr_data f)))"

lemma page_recs_rec_bytes:
  "page_recs (fr_data f) i = Some d \<Longrightarrow>
     d = rec_bytes f \<lparr>rec_rid = r, rec_data = get_record_data (fr_data f) (int i), rec_len = l\<rparr>"
  by (auto simp: page_recs_def rec_bytes_def split: if_splits)

subsection \<open>Formatting an empty page\<close>

lemma sdiv_nonneg: "0 \<le> a \<Longrightarrow> 0 < b \<Longrightarrow> (a :: int) sdiv b = a div b"
  by (cases "a = 0") (simp_all add: signed_divide_int_def)

lemma align8_bounds: "0 \<le> n \<Longrightarrow> n \<le> align8 n \<and> align8 n \<le> n + 7 \<and> align8 n mod 8 = 0"
  by (simp add: align8_def sdiv_nonneg) presburger

lemma fix_capacity_loop_stop: "off \<le> int BP_PAGE_DATA_SIZE \<Longrightarrow> fix_capacity_loop m off = Some m"
  by (subst fix_capacity_loop.simps) simp

lemma fix_capacity_loop_once:
  "off > int BP_PAGE_DATA_SIZE \<Longrightarrow> off - ph_record_size m \<le> int BP_PAGE_DATA_SIZE \<Longrightarrow>
     fix_capacity_loop m off = Some (write_i32 m 12 (ph_capacity m - 1))"
  by (subst fix_capacity_loop.simps) (simp add: fix_capacity_loop_stop)

text \<open>The capacity computed overshoots by less than one slot, so the loop runs at most once.\<close>

lemma capacity_overshoot:
  fixes r c :: int
  assumes "0 \<le> r" "r mod 8 = 0" "c = 65304 div (8 * r + 1)"
  shows "0 \<le> c" "c \<le> 65304" "align8 (20 + (c + 7) div 8) + c * r \<le> 8184 + r"
    "c = 0 \<or> r = 0 \<Longrightarrow> align8 (20 + (c + 7) div 8) + c * r \<le> 8184"
proof -
  show c0: "0 \<le> c" using assms by (simp add: pos_imp_zdiv_nonneg_iff)
  have "c * (8 * r + 1) + 65304 mod (8 * r + 1) = 65304" unfolding assms(3) by (rule div_mult_mod_eq)
  moreover have "0 \<le> 65304 mod (8 * r + 1)" using assms(1) by (intro pos_mod_sign) simp
  ultimately have "c * (8 * r + 1) \<le> 65304" by linarith
  then have le: "8 * (c * r) + c \<le> 65304" by (simp add: algebra_simps)
  then show "c \<le> 65304" using assms(1) c0 mult_nonneg_nonneg [of c r] by linarith
  have al: "align8 (20 + (c + 7) div 8) \<le> 20 + (c + 7) div 8 + 7"
    using align8_bounds [of "20 + (c + 7) div 8"] c0 by simp
  show "c = 0 \<or> r = 0 \<Longrightarrow> align8 (20 + (c + 7) div 8) + c * r \<le> 8184"
    using assms by (auto simp: align8_def sdiv_nonneg)
  then have zero: "r = 0 \<Longrightarrow> align8 (20 + (c + 7) div 8) + c * r \<le> 8184" by simp
  have "r \<noteq> 0 \<Longrightarrow> 8 \<le> r" using assms(1,2) by presburger
  moreover have "8 * ((c + 7) div 8) \<le> c + 7" by simp
  ultimately show "align8 (20 + (c + 7) div 8) + c * r \<le> 8184 + r"
    using zero al le by (cases "r = 0") linarith+
qed

text \<open>The header after \<open>fix_record_capacity\<close>.\<close>

lemma fix_record_capacity_correct:
  assumes "ph_record_size m = r" "ph_capacity m = c" "ph_first_offset m = align8 (20 + (c + 7) div 8)"
    "0 \<le> r" "r mod 8 = 0" "c = 65304 div (8 * r + 1)"
  shows "\<exists>m'. fix_record_capacity m = Some m' \<and> 0 \<le> ph_capacity m' \<and> ph_capacity m' \<le> c \<and> c \<le> ph_capacity m' + 1 \<and>
    ph_first_offset m' + ph_capacity m' * r \<le> 8184 \<and> (\<forall>p. p < 12 \<or> 16 \<le> p \<longrightarrow> m' p = m p)"
proof -
  note ov = capacity_overshoot [OF assms(4-6)]
  let ?last = "align8 (20 + (c + 7) div 8) + c * r"
  have fix_eq: "fix_record_capacity m = fix_capacity_loop m ?last"
    using assms(1-3) by (simp add: fix_record_capacity_def)
  show ?thesis
  proof (cases "?last \<le> 8184")
    case True
    then show ?thesis using ov assms(1-3) fix_eq
      by (intro exI [of _ m]) (simp add: fix_capacity_loop_stop BP_PAGE_DATA_SIZE_def)
  next
    case False
    then have "c \<noteq> 0" using ov(4) by blast
    then have c: "1 \<le> c" "fits_i32 (c - 1)" using ov(1,2) by (auto simp: fits_i32_def)
    let ?m = "write_i32 m 12 (c - 1)"
    have "fix_record_capacity m = Some ?m"
      using False ov(3) assms(1,2) fix_eq by (simp add: fix_capacity_loop_once BP_PAGE_DATA_SIZE_def)
    moreover have "ph_capacity ?m = c - 1" "ph_first_offset ?m = ph_first_offset m"
      using c(2) by (simp_all add: ph_defs)
    moreover have "ph_first_offset m + (c - 1) * r \<le> 8184" using ov(3) assms(3) by (simp add: algebra_simps)
    ultimately show ?thesis using c(1) by (intro exI [of _ ?m]) auto
  qed
qed

lemma page_recs_zeroed:
  assumes "0 \<le> ph_capacity m'" "ph_capacity m' = ph_capacity m"
    "m' = memset m PAGE_HEADER_SIZE 0 (nat ((ph_capacity m + 7) div 8))"
  shows "i < nat (ph_capacity m') \<Longrightarrow> \<not> occupied m' i"
  using assms bit_at_memset_zero [of i "nat ((ph_capacity m + 7) div 8)" m PAGE_HEADER_SIZE]
  by (simp add: occupied_def)

lemma rp_format_correct:
  assumes "0 \<le> rs" "rs \<le> 2 ^ 31 - 8"
  shows "\<exists>m'. rp_format m rs = Some m' \<and> rp_ok m' \<and> page_recs m' = Map.empty \<and> ph_record_num m' = 0 \<and>
    ph_real_size m' = rs \<and> ph_record_size m' = align8 rs \<and>
    ph_capacity m' \<le> 65304 div (8 * align8 rs + 1) \<and> 65304 div (8 * align8 rs + 1) \<le> ph_capacity m' + 1"
proof -
  define r where "r = align8 rs"
  define c where "c = 65304 div (8 * r + 1)"
  have r: "rs \<le> r" "0 \<le> r" "r mod 8 = 0" "fits_i32 r" "fits_i32 rs"
    using align8_bounds [OF assms(1)] assms by (auto simp: r_def fits_i32_def)
  note ov = capacity_overshoot [OF r(2,3) c_def]
  have fo: "20 + (c + 7) div 8 \<le> align8 (20 + (c + 7) div 8)" "align8 (20 + (c + 7) div 8) \<le> 20 + (c + 7) div 8 + 7"
    using align8_bounds [of "20 + (c + 7) div 8"] ov(1) by auto
  have fits: "fits_i32 c" "fits_i32 (align8 (20 + (c + 7) div 8))"
    using ov(1,2) fo by (auto simp: fits_i32_def)
  define m5 where "m5 = write_i32 (write_i32 (write_i32 (write_i32 (write_i32 m 0 0) 4 rs) 8 r) 12 c) 16 (align8 (20 + (c + 7) div 8))"
  have h5: "ph_record_num m5 = 0" "ph_real_size m5 = rs" "ph_record_size m5 = r" "ph_capacity m5 = c"
    "ph_first_offset m5 = align8 (20 + (c + 7) div 8)"
    using r fits by (simp_all add: ph_defs m5_def fits_i32_def)
  obtain m6 where m6: "fix_record_capacity m5 = Some m6" "0 \<le> ph_capacity m6" "ph_capacity m6 \<le> c" "c \<le> ph_capacity m6 + 1"
    "ph_first_offset m6 + ph_capacity m6 * r \<le> 8184" "\<And>p. p < 12 \<or> 16 \<le> p \<Longrightarrow> m6 p = m5 p"
    using fix_record_capacity_correct [OF h5(3-5) r(2,3) c_def] by blast
  have h6: "ph_record_num m6 = 0" "ph_real_size m6 = rs" "ph_record_size m6 = r" "ph_first_offset m6 = align8 (20 + (c + 7) div 8)"
    using h5 read_i32_cong [of _ m6 m5] m6(6) by (simp_all add: ph_defs)
  define m7 where "m7 = memset m6 PAGE_HEADER_SIZE 0 (nat ((ph_capacity m6 + 7) div 8))"
  have h7: "ph_record_num m7 = 0" "ph_real_size m7 = rs" "ph_record_size m7 = r" "ph_first_offset m7 = align8 (20 + (c + 7) div 8)"
    "ph_capacity m7 = ph_capacity m6"
    using h6 by (simp_all add: ph_defs m7_def PAGE_HEADER_SIZE_def)
  have free: "i < nat (ph_capacity m7) \<Longrightarrow> \<not> occupied m7 i" for i
    using page_recs_zeroed [OF _ h7(5) m7_def] m6(2) h7(5) by simp
  have "rp_format m rs = Some m7"
    unfolding rp_format_def
    using r ov(1,2) fits h6 m6 by (simp add: page_record_capacity_def page_bitmap_size_def sdiv_nonneg PAGE_HEADER_SIZE_def
        BP_PAGE_DATA_SIZE_def ph_defs m5_def m7_def r_def [symmetric] c_def [symmetric])
  moreover have "rp_ok m7"
    unfolding rp_ok_def using h7 h6(4) r m6 fo(1) free zdiv_mono1 [of "ph_capacity m6 + 7" "c + 7" 8] assms(1)
    by (simp add: PAGE_HEADER_SIZE_def BP_PAGE_DATA_SIZE_def)
  moreover have "page_recs m7 = Map.empty" using free by (auto simp: page_recs_def fun_eq_iff)
  ultimately show ?thesis using h7 m6(3,4) by (auto simp: r_def c_def)
qed

subsection \<open>The iterator visits the occupied slots in order\<close>

text \<open>A client's loop \<open>while (has_next) next\<close>, for at most \<open>n\<close> rounds.\<close>

primrec rpi_drain :: "nat \<Rightarrow> Frame \<Rightarrow> RecordPageIterator \<Rightarrow> Record list" where
  "rpi_drain 0 f it = []"
| "rpi_drain (Suc n) f it =
     (if rpi_has_next it then (case rpi_next f it of (rc, r, it') \<Rightarrow> r # rpi_drain n f it') else [])"

definition slot_record :: "Frame \<Rightarrow> nat \<Rightarrow> Record" where
  "slot_record f i = \<lparr>rec_rid = \<lparr>page_num = fr_page_num f, slot_num = int i\<rparr>,
     rec_data = get_record_data (fr_data f) (int i), rec_len = 0\<rparr>"

text \<open>The iterator stands before the occupied slots from \<open>s\<close> on.\<close>

definition rpi_at :: "Frame \<Rightarrow> nat \<Rightarrow> RecordPageIterator \<Rightarrow> bool" where
  "rpi_at f s it \<longleftrightarrow> it_page_num it = fr_page_num f \<and> it_bitmap it = rp_bitmap (fr_data f) \<and>
     it_next_slot it = first_from (occupied (fr_data f)) s (nat (ph_capacity (fr_data f)))"

lemma rpi_at_init: "rpi_at f 0 (rpi_init f 0)"
  by (simp add: rpi_at_def rpi_init_def next_setted_bit_zero occupied_def [abs_def])

lemma rpi_next_at:
  assumes "rpi_at f s it" "it_next_slot it = int i"
  shows "\<exists>it'. rpi_next f it = (SUCCESS, slot_record f i, it') \<and> rpi_at f (Suc i) it'"
proof -
  have "occupied (fr_data f) i" using assms first_from_SomeD [of "occupied (fr_data f)" s] by (simp add: rpi_at_def)
  then have "next_setted_bit (fr_data f) (rp_bitmap (fr_data f)) (Suc i) =
      first_from (occupied (fr_data f)) (Suc i) (nat (ph_capacity (fr_data f)))"
    using next_setted_bit_after_set [of "fr_data f" "rp_bitmap (fr_data f)" i] by (simp add: occupied_def [abs_def])
  with assms(2) show ?thesis using assms(1) unfolding rpi_at_def by (simp add: rpi_next_def slot_record_def Let_def)
qed

lemma rpi_drain_at:
  "rpi_at f s it \<Longrightarrow>
     rpi_drain n f it = map (slot_record f) (take n (filter (occupied (fr_data f)) [s..<nat (ph_capacity (fr_data f))]))"
proof (induction n arbitrary: s it)
  case (Suc n)
  let ?occ = "occupied (fr_data f)" and ?cap = "nat (ph_capacity (fr_data f))"
  show ?case
  proof (cases rule: first_from_cases [where P = ?occ and s = s and n = ?cap])
    case none
    then show ?thesis using Suc.prems filter_upt_first(1) [of ?occ s ?cap] by (simp add: rpi_has_next_def rpi_at_def)
  next
    case (some i)
    then have "it_next_slot it = int i" using Suc.prems by (simp add: rpi_at_def)
    from rpi_next_at [OF Suc.prems this] this obtain it' where
      "rpi_next f it = (SUCCESS, slot_record f i, it')" "rpi_at f (Suc i) it'" "rpi_has_next it"
      by (auto simp: rpi_has_next_def)
    with Suc.IH filter_upt_first(2) [OF some(1)] show ?thesis by simp
  qed
qed simp

subsection \<open>Properties\<close>

lemma format_capacity_pos:
  assumes "ph_capacity m' \<le> 65304 div (8 * align8 8 + 1)" "65304 div (8 * align8 8 + 1) \<le> ph_capacity m' + 1"
  shows "100 < ph_capacity m'" "ph_capacity m' < 2000"
  using assms by (simp_all add: align8_def sdiv_nonneg)

text \<open>A page formatted for records of 8 bytes, for the witnesses below.\<close>

lemma sample_page:
  obtains f where "rp_ok (fr_data f)" "page_recs (fr_data f) = Map.empty" "ph_record_num (fr_data f) = 0"
    "ph_real_size (fr_data f) = 8" "100 < ph_capacity (fr_data f)" "ph_capacity (fr_data f) < 2000" "fr_page_num f = 3"
proof -
  obtain m where m: "rp_format zero_mem 8 = Some m" "rp_ok m" "page_recs m = Map.empty" "ph_record_num m = 0"
    "ph_real_size m = 8" "100 < ph_capacity m" "ph_capacity m < 2000"
    using rp_format_correct [of 8 zero_mem] format_capacity_pos by force
  then show thesis using that [of "set_page_num 3 (set_data m new_frame)"] by simp
qed

text \<open>
  Property C31: \<open>init_empty_page\<close> lays out a page without overflow. For every record size it terminates
  (the capacity correction loop included), the assertion on the page size holds, the page is empty, and
  every slot lies behind the slot bitmap and inside the page, no two slots overlapping.
\<close>

theorem record_page_format_layout:
  assumes "0 \<le> record_size" "record_size \<le> 2 ^ 31 - 8"
  shows "\<exists>m'. rp_format m record_size = Some m' \<and> page_recs m' = Map.empty \<and> ph_real_size m' = record_size \<and>
    (\<forall>i < nat (ph_capacity m').
       PAGE_HEADER_SIZE + nat (page_bitmap_size (ph_capacity m')) \<le> get_record_data m' (int i) \<and>
       get_record_data m' (int i) + nat record_size \<le> BP_PAGE_DATA_SIZE \<and>
       (\<forall>j < i. get_record_data m' (int j) + nat record_size \<le> get_record_data m' (int i)))"
proof -
  obtain m' where m': "rp_format m record_size = Some m'" "rp_ok m'" "page_recs m' = Map.empty" "ph_real_size m' = record_size"
    using rp_format_correct [OF assms] by blast
  have "nat (page_bitmap_size (ph_capacity m')) + PAGE_HEADER_SIZE \<le> nat (ph_first_offset m')"
    using rp_okD [OF m'(2)] by (simp add: page_bitmap_size_def sdiv_nonneg PAGE_HEADER_SIZE_def)
  then show ?thesis
    using m' slot_offset(3,4) [OF m'(2)] slot_disjoint [OF m'(2)]
    by (intro exI [of _ m']) (fastforce simp: add.commute)
qed

theorem record_page_format_layout_witness:
  "\<exists>m'. rp_format (\<lambda>_. 255) 100 = Some m' \<and> page_recs m' = Map.empty \<and> ph_real_size m' = 100"
  using record_page_format_layout [of 100 "\<lambda>_. 255"] by auto

text \<open>
  Property C25: insertion into a page that is not full. The record goes to the lowest free slot, whose
  identifier is returned; reading that identifier back gives the inserted bytes, the other slots and
  the layout are unchanged, the page is marked dirty and its count and bitmap stay consistent.
\<close>

theorem record_page_insert_get:
  assumes "rp_ok (fr_data f)" "\<not> is_full (fr_data f)" "nat (ph_real_size (fr_data f)) \<le> length data"
  shows "\<exists>i f' r. rp_insert_record False f data = Some (SUCCESS, Some \<lparr>page_num = fr_page_num f, slot_num = int i\<rparr>, f') \<and>
    page_recs (fr_data f) i = None \<and> (\<forall>j < i. page_recs (fr_data f) j \<noteq> None) \<and>
    page_recs (fr_data f') = (page_recs (fr_data f))(i \<mapsto> take (nat (ph_real_size (fr_data f))) data) \<and>
    rp_get_record f' \<lparr>page_num = fr_page_num f, slot_num = int i\<rparr> = Some (SUCCESS, Some r) \<and>
    rec_bytes f' r = take (nat (ph_real_size (fr_data f))) data \<and> rp_ok (fr_data f') \<and> fr_dirty f' \<and> page_update f f'"
proof -
  let ?m = "fr_data f"
  obtain i where i: "rp_insert_record False f data =
      Some (SUCCESS, Some \<lparr>page_num = fr_page_num f, slot_num = int i\<rparr>, mark_dirty (set_data (put_slot ?m i data) f))"
    "i < nat (ph_capacity ?m)" "\<not> occupied ?m i" "\<And>j. j < i \<Longrightarrow> occupied ?m j"
    using rp_insert_correct [OF assms(1) _ assms(3)] assms(2) by (auto simp: is_full_def)
  let ?f = "mark_dirty (set_data (put_slot ?m i data) f)"
  note p = put_slot_correct [OF assms(1) i(2,3) assms(3)]
  let ?r = "\<lparr>rec_rid = \<lparr>page_num = fr_page_num f, slot_num = int i\<rparr>, rec_data = get_record_data (put_slot ?m i data) (int i),
    rec_len = ph_real_size (put_slot ?m i data)\<rparr>"
  have rec: "page_recs (fr_data ?f) i = Some (take (nat (ph_real_size ?m)) data)" using p(1) by simp
  then have "i < nat (ph_capacity (fr_data ?f))" "occupied (fr_data ?f) i" by (simp_all add: page_recs_def split: if_splits)
  then have "rp_get_record ?f \<lparr>page_num = fr_page_num f, slot_num = int i\<rparr> = Some (SUCCESS, Some ?r)"
    using rp_get_correct [of "\<lparr>page_num = fr_page_num f, slot_num = int i\<rparr>" i ?f] by simp
  moreover have "rec_bytes ?f ?r = take (nat (ph_real_size ?m)) data"
    using page_recs_rec_bytes [OF rec] by simp
  moreover have "\<forall>j < i. page_recs ?m j \<noteq> None" using i(2,4) by (simp add: page_recs_def)
  moreover have "page_recs ?m i = None" using i(3) by (simp add: page_recs_def)
  ultimately show ?thesis using i(1) p by (intro exI [of _ i] exI [of _ ?f] exI [of _ ?r]) simp
qed

theorem record_page_insert_get_witness:
  "\<exists>f f'. rp_insert_record False f [1, 2, 3, 4, 5, 6, 7, 8] = Some (SUCCESS, Some \<lparr>page_num = 3, slot_num = 0\<rparr>, f') \<and>
     page_recs (fr_data f') = [0 \<mapsto> [1, 2, 3, 4, 5, 6, 7, 8]]"
proof (rule sample_page)
  fix f assume f: "rp_ok (fr_data f)" "page_recs (fr_data f) = Map.empty" "ph_record_num (fr_data f) = 0"
    "ph_real_size (fr_data f) = 8" "100 < ph_capacity (fr_data f)" "fr_page_num f = 3"
  then have "\<not> is_full (fr_data f)" by (simp add: is_full_def)
  from record_page_insert_get [OF f(1) this, of "[1, 2, 3, 4, 5, 6, 7, 8]"] f(2,4,6) obtain i f' where
    "rp_insert_record False f [1, 2, 3, 4, 5, 6, 7, 8] = Some (SUCCESS, Some \<lparr>page_num = 3, slot_num = int i\<rparr>, f')"
    "page_recs (fr_data f') = [i \<mapsto> [1, 2, 3, 4, 5, 6, 7, 8]]" "\<forall>j. \<not> j < i"
    by auto
  then show ?thesis by (cases i) auto
qed

lemma rp_delete_spec:
  assumes "rp_ok (fr_data f)" "0 \<le> slot_num rid"
  shows "\<exists>rc emptied f'. rp_delete_record False f rid = Some (rc, emptied, f') \<and> rp_ok (fr_data f') \<and> page_update f f' \<and>
    page_recs (fr_data f') = (page_recs (fr_data f))(nat (slot_num rid) := None) \<and>
    (emptied \<longleftrightarrow> rc = SUCCESS \<and> page_recs (fr_data f') = Map.empty) \<and>
    rc = (if slot_num rid \<ge> ph_capacity (fr_data f) then INVALID_ARGUMENT
          else if page_recs (fr_data f) (nat (slot_num rid)) = None then RECORD_NOT_EXIST else SUCCESS)"
proof (cases "slot_num rid \<ge> ph_capacity (fr_data f)")
  case True
  then show ?thesis using assms by (auto simp: rp_delete_record_def Let_def page_recs_def fun_eq_iff)
next
  case False
  define i where "i = nat (slot_num rid)"
  have i: "slot_num rid = int i" "i < nat (ph_capacity (fr_data f))" using False assms(2) by (simp_all add: i_def)
  note del = rp_delete_correct [OF assms(1) i]
  show ?thesis
  proof (cases "occupied (fr_data f) i")
    case free: False
    then show ?thesis using del False assms(1) i by (auto simp: i_def [symmetric] page_recs_def fun_eq_iff)
  next
    case True
    let ?m = "drop_slot (fr_data f) i"
    note d = drop_slot_correct [OF assms(1) i(2) True]
    have "ph_record_num ?m = 0 \<longleftrightarrow> {j. j < nat (ph_capacity ?m) \<and> occupied ?m j} = {}"
      using rp_okD(6) [OF d(2)] by simp
    also have "\<dots> \<longleftrightarrow> page_recs ?m = Map.empty" by (auto simp: page_recs_def fun_eq_iff)
    finally have "ph_record_num (fr_data f) = 1 \<longleftrightarrow> page_recs ?m = Map.empty" using d(4) by linarith
    moreover have "page_recs (fr_data f) i \<noteq> None" using True i(2) by (simp add: page_recs_def)
    ultimately show ?thesis using del True False d by (simp add: i_def [symmetric])
  qed
qed

text \<open>
  Property C29: deletion and lookup on every branch. A slot beyond the capacity is refused, a free slot
  reports \<open>RECORD_NOT_EXIST\<close> and leaves the frame alone, an occupied one is freed: the record is gone, all
  others stay, the count drops, and the emptied page is reported.
\<close>

theorem record_page_delete:
  assumes "rp_ok (fr_data f)" "0 \<le> slot_num rid"
  shows "\<exists>rc emptied f'. rp_delete_record False f rid = Some (rc, emptied, f') \<and> rp_ok (fr_data f') \<and> page_update f f' \<and>
    page_recs (fr_data f') = (page_recs (fr_data f))(nat (slot_num rid) := None) \<and>
    (emptied \<longleftrightarrow> rc = SUCCESS \<and> page_recs (fr_data f') = Map.empty) \<and>
    rc = (if slot_num rid \<ge> ph_capacity (fr_data f) then INVALID_ARGUMENT
          else if page_recs (fr_data f) (nat (slot_num rid)) = None then RECORD_NOT_EXIST else SUCCESS)"
  by (rule rp_delete_spec [OF assms])

theorem record_page_delete_witness:
  "\<exists>f f'. rp_ok (fr_data f) \<and> rp_delete_record False f \<lparr>page_num = 3, slot_num = 5\<rparr> = Some (RECORD_NOT_EXIST, False, f')"
proof (rule sample_page)
  fix f assume f: "rp_ok (fr_data f)" "page_recs (fr_data f) = Map.empty" "100 < ph_capacity (fr_data f)"
  from record_page_delete [OF f(1), of "\<lparr>page_num = 3, slot_num = 5\<rparr>"] f show ?thesis by auto
qed

text \<open>
  Property C30: the page iterator returns the records of the page in slot order, each exactly once and
  with its bytes: the \<open>n\<close>-th prefix of the iteration is the \<open>n\<close>-th prefix of the occupied slots.
\<close>

theorem record_page_scan:
  "map (slot_num \<circ> rec_rid) (rpi_drain n f (rpi_init f 0)) = map int (take n (page_slots (fr_data f))) \<and>
   map (Some \<circ> rec_bytes f) (rpi_drain n f (rpi_init f 0)) = map (page_recs (fr_data f)) (take n (page_slots (fr_data f))) \<and>
   set (page_slots (fr_data f)) = dom (page_recs (fr_data f)) \<and> sorted (page_slots (fr_data f)) \<and> distinct (page_slots (fr_data f))"
proof -
  have drain: "rpi_drain n f (rpi_init f 0) = map (slot_record f) (take n (page_slots (fr_data f)))"
    using rpi_drain_at [OF rpi_at_init] by (simp add: page_slots_def)
  have "(Some \<circ> rec_bytes f \<circ> slot_record f) i = page_recs (fr_data f) i" if "i \<in> set (page_slots (fr_data f))" for i
    using that by (simp add: rec_bytes_def slot_record_def page_recs_def page_slots_def)
  then have "map (Some \<circ> rec_bytes f \<circ> slot_record f) (take n (page_slots (fr_data f))) =
      map (page_recs (fr_data f)) (take n (page_slots (fr_data f)))"
    by (intro map_cong) (auto dest: in_set_takeD)
  moreover have "set (page_slots (fr_data f)) = dom (page_recs (fr_data f))"
    by (auto simp: page_slots_def page_recs_def dom_def)
  ultimately show ?thesis
    unfolding drain by (simp add: slot_record_def page_slots_def sorted_wrt_filter comp_def)
qed

text \<open>
  Property C32: replaying an insertion during recovery is idempotent and agrees with the slot map: the
  record ends up in the slot of its identifier whether the slot was free or occupied, and replaying it
  once more changes nothing.
\<close>

theorem record_page_recover_idempotent:
  assumes "rp_ok (fr_data f)" "0 \<le> slot_num rid" "slot_num rid < ph_capacity (fr_data f)"
    "nat (ph_real_size (fr_data f)) \<le> length data"
  shows "\<exists>f' f''. rp_recover_insert_record f data rid = Some (SUCCESS, f') \<and> rp_ok (fr_data f') \<and>
    page_recs (fr_data f') = (page_recs (fr_data f))(nat (slot_num rid) \<mapsto> take (nat (ph_real_size (fr_data f))) data) \<and>
    rp_recover_insert_record f' data rid = Some (SUCCESS, f'') \<and> page_recs (fr_data f'') = page_recs (fr_data f')"
proof -
  define i where "i = nat (slot_num rid)"
  have i: "slot_num rid = int i" "i < nat (ph_capacity (fr_data f))" using assms(2,3) by (simp_all add: i_def)
  obtain m' where m': "rp_recover_insert_record f data rid = Some (SUCCESS, mark_dirty (set_data m' f))" "rp_ok m'"
    "page_recs m' = (page_recs (fr_data f))(i \<mapsto> take (nat (ph_real_size (fr_data f))) data)" "same_layout (fr_data f) m'"
    using rp_recover_insert_correct [OF assms(1) i assms(4)] by blast
  let ?f = "mark_dirty (set_data m' f)"
  have lay: "ph_capacity m' = ph_capacity (fr_data f)" "ph_real_size m' = ph_real_size (fr_data f)"
    using m'(4) by (simp_all add: same_layout_def)
  obtain m'' where "rp_recover_insert_record ?f data rid = Some (SUCCESS, mark_dirty (set_data m'' ?f))"
    "page_recs m'' = (page_recs m')(i \<mapsto> take (nat (ph_real_size m')) data)"
    using rp_recover_insert_correct [of ?f rid i data] m'(2) i assms(4) lay by auto
  then show ?thesis using m' lay by (auto simp: i_def)
qed

theorem record_page_recover_idempotent_witness:
  "\<exists>f f'. rp_recover_insert_record f [1, 2, 3, 4, 5, 6, 7, 8] \<lparr>page_num = 3, slot_num = 7\<rparr> = Some (SUCCESS, f') \<and>
     page_recs (fr_data f') = [7 \<mapsto> [1, 2, 3, 4, 5, 6, 7, 8]]"
proof (rule sample_page)
  fix f assume f: "rp_ok (fr_data f)" "page_recs (fr_data f) = Map.empty" "ph_real_size (fr_data f) = 8" "100 < ph_capacity (fr_data f)"
  from record_page_recover_idempotent [OF f(1), of "\<lparr>page_num = 3, slot_num = 7\<rparr>" "[1, 2, 3, 4, 5, 6, 7, 8]"] f(2-4)
  show ?thesis by auto
qed

end
