(* ===== verification/FrameManager.thy ===== *)
theory FrameManager
  imports LruCache Frame
begin

section \<open>The frame manager (disk_buffer_pool.cpp: BPFrameManager)\<close>

text \<open>
  All buffer pools share one frame manager: frames in memory at addresses handed out by the frame
  allocator, and the LRU cache from frame identifiers to frame addresses. The record \<open>Sys\<close> is the
  state of the whole buffer-pool layer: this manager, the files on disk, the open descriptors and
  the pools of the buffer pool manager. Frames are dereferenced through \<open>sy_mem\<close>.

  A file is the list of its pages. A descriptor refers to a file by name.
\<close>

record DiskBufferPool =
  dbp_file_name :: string
  dbp_file_desc :: int
  dbp_hdr_frame :: nat

record Sys =
  sy_mem :: "nat \<Rightarrow> Frame"
  sy_frames :: "(FrameId, nat) LruCache"
  sy_alloc :: MemPool
  sy_disk :: "string \<Rightarrow> Page list option"
  sy_fds :: "(int \<times> string) list"
  sy_tick :: nat                             \<comment> \<open>number of reads and writes issued so far\<close>
  sy_pools :: "nat \<Rightarrow> DiskBufferPool option"  \<comment> \<open>the \<open>DiskBufferPool\<close> objects, by address\<close>
  sy_pool_brk :: nat
  sy_buffer_pools :: "(string \<times> nat) list"
  sy_fd_buffer_pools :: "(int \<times> nat) list"

definition upd_frame :: "nat \<Rightarrow> (Frame \<Rightarrow> Frame) \<Rightarrow> Sys \<Rightarrow> Sys" where
  "upd_frame p f s = s\<lparr>sy_mem := (sy_mem s)(p := f (sy_mem s p))\<rparr>"

definition unpin_frame :: "nat \<Rightarrow> Sys \<Rightarrow> Sys option" where
  "unpin_frame p s = map_option (\<lambda>f. s\<lparr>sy_mem := (sy_mem s)(p := f)\<rparr>) (unpin (sy_mem s p))"

definition FrameId_of :: "int \<Rightarrow> int \<Rightarrow> FrameId" where
  "FrameId_of file_desc page_num = \<lparr>fid_file_desc = file_desc, fid_page_num = page_num\<rparr>"

definition fm_init :: "int \<Rightarrow> Sys \<Rightarrow> RC \<times> Sys" where
  "fm_init pool_num s =
     (let (ret, a) = mp_init False pool_num 128 (sy_alloc s) in
      (if ret = 0 then SUCCESS else NOMEM, s\<lparr>sy_alloc := a\<rparr>))"

definition fm_cleanup :: "Sys \<Rightarrow> RC \<times> Sys" where
  "fm_cleanup s =
     (if lru_count_of (sy_frames s) > 0 then (INTERNAL, s)
      else (SUCCESS, s\<lparr>sy_frames := lru_destroy (sy_frames s)\<rparr>))"

definition fm_get_internal :: "FrameId \<Rightarrow> Sys \<Rightarrow> (nat option \<times> Sys) option" where
  "fm_get_internal fid s = do {
     (c, r) \<leftarrow> lru_get fid (sy_frames s);
     case r of
       None \<Rightarrow> Some (None, s\<lparr>sy_frames := c\<rparr>)
     | Some p \<Rightarrow> Some (Some p, upd_frame p pin (s\<lparr>sy_frames := c\<rparr>))
   }"

definition fm_get :: "int \<Rightarrow> int \<Rightarrow> Sys \<Rightarrow> (nat option \<times> Sys) option" where
  "fm_get file_desc page_num s = fm_get_internal (FrameId_of file_desc page_num) s"

definition fm_alloc :: "int \<Rightarrow> int \<Rightarrow> Sys \<Rightarrow> (nat option \<times> Sys) option" where
  "fm_alloc file_desc page_num s = do {
     (r, s) \<leftarrow> fm_get_internal (FrameId_of file_desc page_num) s;
     case r of
       Some p \<Rightarrow> Some (Some p, s)
     | None \<Rightarrow>
         (case mp_alloc (sy_alloc s) of
            (None, a) \<Rightarrow> Some (None, s\<lparr>sy_alloc := a\<rparr>)
          | (Some p, a) \<Rightarrow>
              if fr_pin (sy_mem s p) \<noteq> 0 then None
              else do {
                s \<leftarrow> Some (upd_frame p pin (upd_frame p (set_page_num page_num) (s\<lparr>sy_alloc := a\<rparr>)));
                c \<leftarrow> lru_put (FrameId_of file_desc page_num) p (sy_frames s);
                Some (Some p, s\<lparr>sy_frames := c\<rparr>)
              })
   }"

definition fm_free_internal :: "FrameId \<Rightarrow> nat \<Rightarrow> Sys \<Rightarrow> (RC \<times> Sys) option" where
  "fm_free_internal fid p s = do {
     (c, r) \<leftarrow> lru_get fid (sy_frames s);
     s \<leftarrow> Some (s\<lparr>sy_frames := c\<rparr>);
     if r = Some p \<and> fr_pin (sy_mem s p) = 1 then do {
       s \<leftarrow> unpin_frame p s;
       c \<leftarrow> lru_remove_key fid (sy_frames s);
       Some (SUCCESS, s\<lparr>sy_frames := c, sy_alloc := mp_free p (sy_alloc s)\<rparr>)
     } else None
   }"

definition fm_free :: "int \<Rightarrow> int \<Rightarrow> nat \<Rightarrow> Sys \<Rightarrow> (RC \<times> Sys) option" where
  "fm_free file_desc page_num p s = fm_free_internal (FrameId_of file_desc page_num) p s"

text \<open>\<open>purge_finder\<close>: collect unpinned frames, at most \<open>count\<close>, and pin them.\<close>

definition purge_finder ::
  "nat \<Rightarrow> FrameId \<Rightarrow> nat \<Rightarrow> (nat \<Rightarrow> Frame) \<times> nat list \<Rightarrow> bool \<times> ((nat \<Rightarrow> Frame) \<times> nat list)" where
  "purge_finder count fid p st =
     (case st of (mem, found) \<Rightarrow>
        if can_purge (mem p)
        then (let found' = found @ [p] in (\<not> length found' \<ge> count, mem(p := pin (mem p)), found'))
        else (True, mem, found))"

text \<open>The loop over the frames found; \<open>purger\<close> writes a frame back where it has to.\<close>

primrec purge_loop ::
  "(nat \<Rightarrow> Sys \<Rightarrow> (RC \<times> Sys) option) \<Rightarrow> nat list \<Rightarrow> nat \<Rightarrow> Sys \<Rightarrow> (nat \<times> Sys) option" where
  "purge_loop purger [] freed s = Some (freed, s)"
| "purge_loop purger (p # ps) freed s = do {
     (rc, s) \<leftarrow> purger p s;
     if rc = SUCCESS then do {
       (_, s) \<leftarrow> fm_free_internal (frame_id (sy_mem s p)) p s;
       purge_loop purger ps (freed + 1) s
     } else do {
       s \<leftarrow> unpin_frame p s;
       purge_loop purger ps freed s
     }
   }"

definition fm_purge_frames ::
  "int \<Rightarrow> (nat \<Rightarrow> Sys \<Rightarrow> (RC \<times> Sys) option) \<Rightarrow> Sys \<Rightarrow> (nat \<times> Sys) option" where
  "fm_purge_frames count purger s = do {
     count \<leftarrow> Some (if count \<le> 0 then 1 else nat count);
     (mem, found) \<leftarrow> lru_foreach_reverse (purge_finder count) (sy_frames s) (sy_mem s, []);
     purge_loop purger found 0 (s\<lparr>sy_mem := mem\<rparr>)
   }"

definition fetcher :: "int \<Rightarrow> FrameId \<Rightarrow> nat \<Rightarrow> (nat \<Rightarrow> Frame) \<times> nat list \<Rightarrow> bool \<times> ((nat \<Rightarrow> Frame) \<times> nat list)" where
  "fetcher file_desc fid p st =
     (case st of (mem, found) \<Rightarrow>
        (True, if file_desc = fid_file_desc fid then (mem(p := pin (mem p)), found @ [p]) else (mem, found)))"

definition fm_find_list :: "int \<Rightarrow> Sys \<Rightarrow> (nat list \<times> Sys) option" where
  "fm_find_list file_desc s = do {
     (mem, found) \<leftarrow> lru_foreach (fetcher file_desc) (sy_frames s) (sy_mem s, []);
     Some (found, s\<lparr>sy_mem := mem\<rparr>)
   }"

subsection \<open>The cache as a lookup table\<close>

text \<open>
  What the frame manager needs of the LRU cache, without the recency order: a table with lookup,
  insertion and deletion, and a walk over all its entries.
\<close>

definition lru_lookup :: "('k, 'v) LruCache \<Rightarrow> 'k \<Rightarrow> 'v option" where
  "lru_lookup c k = do { p \<leftarrow> searcher c k; n \<leftarrow> lheap c p; Some (lvalue n) }"

definition lru_ok :: "('k, 'v) LruCache \<Rightarrow> bool" where
  "lru_ok c \<longleftrightarrow> (\<exists>l. lru_rep c l)"

locale table_cache =
  fixes ok :: "'c \<Rightarrow> bool"
    and lookup :: "'c \<Rightarrow> 'k \<Rightarrow> 'v option"
    and get :: "'k \<Rightarrow> 'c \<Rightarrow> ('c \<times> 'v option) option"
    and put :: "'k \<Rightarrow> 'v \<Rightarrow> 'c \<Rightarrow> 'c option"
    and remove :: "'k \<Rightarrow> 'c \<Rightarrow> 'c option"
  assumes get_lookup: "ok c \<Longrightarrow> \<exists>c'. get k c = Some (c', lookup c k) \<and> ok c' \<and> lookup c' = lookup c"
    and put_lookup: "ok c \<Longrightarrow> \<exists>c'. put k v c = Some c' \<and> ok c' \<and> lookup c' = (lookup c)(k \<mapsto> v)"
    and remove_lookup: "ok c \<Longrightarrow> \<exists>c'. remove k c = Some c' \<and> ok c' \<and> lookup c' = (lookup c)(k := None)"
begin

lemma evict_and_reuse:
  assumes "ok c" "lookup c old = Some v"
  shows "\<exists>c1 c2. remove old c = Some c1 \<and> put new v c1 = Some c2 \<and> ok c2 \<and> lookup c2 = (lookup c)(old := None, new \<mapsto> v)"
  using remove_lookup [OF assms(1), of old] put_lookup by metis

end

lemma lru_lookup_rep: "lru_rep c l \<Longrightarrow> lru_lookup c k = map_of l k"
proof -
  assume "lru_rep c l"
  then obtain ps where inv: "lru_inv c ps" and l: "l = map (entry (lheap c)) ps" by (auto simp: lru_rep_def)
  show ?thesis
  proof (cases "searcher c k")
    case None
    then show ?thesis using map_of_entries [OF inv, of k] l by (simp add: lru_lookup_def)
  next
    case (Some p)
    then have "p \<in> dom (lheap c)" using lru_invD(5,7) [OF inv] by auto
    then obtain n where "lheap c p = Some n" by blast
    with Some show ?thesis using map_of_entries [OF inv, of k] l entry_Some [of "lheap c" p n] by (simp add: lru_lookup_def)
  qed
qed

lemma map_of_al_touch: "map_of (al_touch k l) = map_of l"
proof
  fix k'
  have f: "map_of (filter (\<lambda>e. fst e \<noteq> k) l) k' = (if k' = k then None else map_of l k')" by (induction l) auto
  have g: "map_of (filter (\<lambda>e. fst e = k) l) k' = (if k' = k then map_of l k' else None)" by (induction l) auto
  show "map_of (al_touch k l) k' = map_of l k'"
    using f g by (auto simp: al_touch_def map_add_def split: option.splits)
qed

lemma map_of_al_remove: "map_of (al_remove k l) = (map_of l)(k := None)"
  unfolding al_remove_def by (induction l) (auto simp: fun_eq_iff)

lemma map_of_al_put: "map_of (al_put k v l) = (map_of l)(k \<mapsto> v)"
  using map_of_al_remove [of k l] by (simp add: al_put_def al_remove_def)

interpretation frames: table_cache "lru_ok :: ('k, 'v) LruCache \<Rightarrow> bool" lru_lookup lru_get lru_put lru_remove_key
proof
  fix c :: "('k, 'v) LruCache" and k v
  assume "lru_ok c"
  then obtain l where l: "lru_rep c l" by (auto simp: lru_ok_def)
  then have lk: "lru_lookup c = map_of l" by (simp add: lru_lookup_rep fun_eq_iff)
  show "\<exists>c'. lru_get k c = Some (c', lru_lookup c k) \<and> lru_ok c' \<and> lru_lookup c' = lru_lookup c"
    using lru.get_spec [OF l, of k] map_of_al_touch [of k l] lk by (auto simp: lru_ok_def fun_eq_iff lru_lookup_rep)
  show "\<exists>c'. lru_put k v c = Some c' \<and> lru_ok c' \<and> lru_lookup c' = (lru_lookup c)(k \<mapsto> v)"
    using lru.put_spec [OF l, of k v] map_of_al_put [of k v l] lk by (auto simp: lru_ok_def fun_eq_iff lru_lookup_rep)
  show "\<exists>c'. lru_remove_key k c = Some c' \<and> lru_ok c' \<and> lru_lookup c' = (lru_lookup c)(k := None)"
    using lru.remove_spec [OF l, of k] map_of_al_remove [of k l] lk by (auto simp: lru_ok_def fun_eq_iff lru_lookup_rep)
qed

subsection \<open>Structure of the manager\<close>

definition cached :: "Sys \<Rightarrow> FrameId \<Rightarrow> nat option" where
  "cached s = lru_lookup (sy_frames s)"

text \<open>
  Every cached frame is in use in the allocator and vice versa, under one identifier; the allocator
  does not grow.
\<close>

definition fm_inv :: "Sys \<Rightarrow> bool" where
  "fm_inv s \<longleftrightarrow> lru_ok (sy_frames s) \<and> mp_inv (sy_alloc s) \<and> \<not> mp_dynamic (sy_alloc s) \<and>
     ran (cached s) = mp_used (sy_alloc s) \<and> inj_on (cached s) (dom (cached s))"

lemma inj_map_iff: "inj_on m (dom m) \<longleftrightarrow> (\<forall>k k' p. m k = Some p \<and> m k' = Some p \<longrightarrow> k' = k)"
  by (auto simp: inj_on_def dom_def)

lemma fm_invD:
  assumes "fm_inv s"
  shows "lru_ok (sy_frames s)" "mp_inv (sy_alloc s)" "\<not> mp_dynamic (sy_alloc s)"
    "cached s k = Some p \<Longrightarrow> p \<in> mp_used (sy_alloc s) \<and> p \<notin> set (mp_frees (sy_alloc s))"
    "cached s k = Some p \<Longrightarrow> cached s k' = Some p \<Longrightarrow> k' = k"
proof -
  show "lru_ok (sy_frames s)" "mp_inv (sy_alloc s)" "\<not> mp_dynamic (sy_alloc s)"
    using assms by (simp_all add: fm_inv_def)
  show "cached s k = Some p \<Longrightarrow> p \<in> mp_used (sy_alloc s) \<and> p \<notin> set (mp_frees (sy_alloc s))"
    using assms by (auto simp: fm_inv_def mp_inv_def ran_def)
  show "cached s k = Some p \<Longrightarrow> cached s k' = Some p \<Longrightarrow> k' = k"
    using assms by (auto simp: fm_inv_def inj_on_def dom_def)
qed

lemma upd_frame_simps [simp]:
  "sy_mem (upd_frame p f s) = (sy_mem s)(p := f (sy_mem s p))" "sy_frames (upd_frame p f s) = sy_frames s"
  "sy_alloc (upd_frame p f s) = sy_alloc s" "sy_disk (upd_frame p f s) = sy_disk s" "sy_fds (upd_frame p f s) = sy_fds s"
  "sy_tick (upd_frame p f s) = sy_tick s" "sy_pools (upd_frame p f s) = sy_pools s"
  "sy_buffer_pools (upd_frame p f s) = sy_buffer_pools s" "sy_fd_buffer_pools (upd_frame p f s) = sy_fd_buffer_pools s"
  "cached (upd_frame p f s) = cached s" "fm_inv (upd_frame p f s) = fm_inv s"
  by (simp_all add: upd_frame_def cached_def fm_inv_def)

lemma cached_upd [simp]:
  "cached (s\<lparr>sy_mem := m\<rparr>) = cached s" "cached (s\<lparr>sy_disk := d\<rparr>) = cached s" "cached (s\<lparr>sy_tick := t\<rparr>) = cached s"
  "cached (s\<lparr>sy_alloc := a\<rparr>) = cached s" "fm_inv (s\<lparr>sy_mem := m\<rparr>) = fm_inv s" "fm_inv (s\<lparr>sy_disk := d\<rparr>) = fm_inv s"
  "fm_inv (s\<lparr>sy_tick := t\<rparr>) = fm_inv s" "cached (s\<lparr>sy_frames := c\<rparr>) = lru_lookup c"
  by (simp_all add: cached_def fm_inv_def)

text \<open>Two states that differ only in the recency order of the cache.\<close>

definition same_but_order :: "Sys \<Rightarrow> Sys \<Rightarrow> bool" where
  "same_but_order s s' \<longleftrightarrow> cached s' = cached s \<and> (fm_inv s \<longrightarrow> fm_inv s') \<and> s' = s\<lparr>sy_frames := sy_frames s'\<rparr>"

lemma lru_get_order:
  assumes "fm_inv s"
  shows "\<exists>c. lru_get k (sy_frames s) = Some (c, cached s k) \<and> same_but_order s (s\<lparr>sy_frames := c\<rparr>) \<and>
    fm_inv (s\<lparr>sy_frames := c\<rparr>) \<and> cached (s\<lparr>sy_frames := c\<rparr>) = cached s"
proof -
  obtain c where c: "lru_get k (sy_frames s) = Some (c, lru_lookup (sy_frames s) k)" "lru_ok c" "lru_lookup c = lru_lookup (sy_frames s)"
    using frames.get_lookup [OF fm_invD(1) [OF assms]] by blast
  then have "cached (s\<lparr>sy_frames := c\<rparr>) = cached s" by (simp add: cached_def)
  moreover have "fm_inv (s\<lparr>sy_frames := c\<rparr>)" using assms c(2,3) by (simp add: fm_inv_def cached_def)
  ultimately show ?thesis using c by (auto simp: same_but_order_def cached_def)
qed

lemma fm_get_internal_correct:
  assumes "fm_inv s"
  shows "\<exists>s1. same_but_order s s1 \<and> fm_inv s1 \<and> cached s1 = cached s \<and> sy_mem s1 = sy_mem s \<and>
    fm_get_internal k s = Some (cached s k, (case cached s k of None \<Rightarrow> s1 | Some p \<Rightarrow> upd_frame p pin s1))"
proof -
  obtain c where c: "lru_get k (sy_frames s) = Some (c, cached s k)" "same_but_order s (s\<lparr>sy_frames := c\<rparr>)"
    "fm_inv (s\<lparr>sy_frames := c\<rparr>)" "cached (s\<lparr>sy_frames := c\<rparr>) = cached s"
    using lru_get_order [OF assms] by blast
  then show ?thesis
    by (intro exI [of _ "s\<lparr>sy_frames := c\<rparr>"]) (auto simp: fm_get_internal_def split: option.splits)
qed

text \<open>A new frame: the first free one, pinned and entered under its identifier.\<close>

lemma fm_alloc_new:
  assumes "fm_inv s" "cached s (FrameId_of fd pn) = None" "mp_frees (sy_alloc s) = p # ps" "fr_pin (sy_mem s p) = 0"
  shows "\<exists>c. fm_alloc fd pn s =
      Some (Some p, s\<lparr>sy_frames := c, sy_alloc := (sy_alloc s)\<lparr>mp_frees := ps, mp_used := insert p (mp_used (sy_alloc s))\<rparr>,
                     sy_mem := (sy_mem s)(p := pin (set_page_num pn (sy_mem s p)))\<rparr>) \<and>
    lru_lookup c = (cached s)(FrameId_of fd pn \<mapsto> p) \<and>
    fm_inv (s\<lparr>sy_frames := c, sy_alloc := (sy_alloc s)\<lparr>mp_frees := ps, mp_used := insert p (mp_used (sy_alloc s))\<rparr>\<rparr>)"
proof -
  let ?k = "FrameId_of fd pn" and ?a = "(sy_alloc s)\<lparr>mp_frees := ps, mp_used := insert p (mp_used (sy_alloc s))\<rparr>"
  obtain c where c: "lru_get ?k (sy_frames s) = Some (c, cached s ?k)" "fm_inv (s\<lparr>sy_frames := c\<rparr>)" "lru_lookup c = cached s"
    using lru_get_order [OF assms(1), of ?k] by auto
  obtain c' where c': "lru_put ?k p c = Some c'" "lru_ok c'" "lru_lookup c' = (lru_lookup c)(?k \<mapsto> p)"
    using frames.put_lookup fm_invD(1) [OF c(2)] by fastforce
  have "fm_get_internal ?k s = Some (None, s\<lparr>sy_frames := c\<rparr>)"
    using c assms(2) by (simp add: fm_get_internal_def)
  then have eq: "fm_alloc fd pn s = Some (Some p, s\<lparr>sy_frames := c', sy_alloc := ?a,
      sy_mem := (sy_mem s)(p := pin (set_page_num pn (sy_mem s p)))\<rparr>)"
    using c' assms(3,4) by (simp add: fm_alloc_def mp_alloc_static upd_frame_def)
  have fresh: "p \<notin> ran (cached s)" using assms(1,3) by (auto simp: fm_inv_def mp_inv_def)
  have "inj_on ((cached s)(?k \<mapsto> p)) (dom ((cached s)(?k \<mapsto> p)))"
    using fm_invD(5) [OF assms(1)] fresh unfolding inj_map_iff by (auto simp: ranI)
  moreover have "ran ((cached s)(?k \<mapsto> p)) = insert p (mp_used (sy_alloc s))"
    using assms(1,2) by (simp add: fm_inv_def ran_map_upd)
  moreover have "mp_inv ?a" using mp_inv_take(1) assms by (simp add: fm_inv_def)
  ultimately have "fm_inv (s\<lparr>sy_frames := c', sy_alloc := ?a\<rparr>)"
    using assms(1) c'(2,3) c(3) by (simp add: fm_inv_def cached_def)
  then show ?thesis using eq c'(3) c(3) by (intro exI [of _ c'] conjI) simp_all
qed

lemma fm_alloc_none:
  assumes "fm_inv s" "cached s (FrameId_of fd pn) = None" "mp_frees (sy_alloc s) = []"
  shows "\<exists>s1. fm_alloc fd pn s = Some (None, s1) \<and> same_but_order s s1 \<and> fm_inv s1 \<and> cached s1 = cached s"
proof -
  obtain c where c: "lru_get (FrameId_of fd pn) (sy_frames s) = Some (c, cached s (FrameId_of fd pn))"
    "same_but_order s (s\<lparr>sy_frames := c\<rparr>)" "fm_inv (s\<lparr>sy_frames := c\<rparr>)" "cached (s\<lparr>sy_frames := c\<rparr>) = cached s"
    using lru_get_order [OF assms(1)] by blast
  have "mp_alloc (sy_alloc s) = (None, sy_alloc s)"
    using assms(1,3) by (simp add: mp_alloc_def mp_extend_def fm_inv_def)
  then have "fm_alloc fd pn s = Some (None, s\<lparr>sy_frames := c\<rparr>)"
    using c assms(2) by (simp add: fm_alloc_def fm_get_internal_def)
  with c show ?thesis by blast
qed

text \<open>Freeing a frame held once: it leaves the cache and goes to the end of the free list.\<close>

lemma fm_free_correct:
  assumes "fm_inv s" "cached s k = Some p" "fr_pin (sy_mem s p) = 1" "unlatched (sy_mem s p)"
  shows "\<exists>c. fm_free_internal k p s =
      Some (SUCCESS, s\<lparr>sy_frames := c, sy_alloc := mp_free p (sy_alloc s), sy_mem := (sy_mem s)(p := (sy_mem s p)\<lparr>fr_pin := 0\<rparr>)\<rparr>) \<and>
    lru_lookup c = (cached s)(k := None) \<and> fm_inv (s\<lparr>sy_frames := c, sy_alloc := mp_free p (sy_alloc s)\<rparr>) \<and>
    mp_frees (mp_free p (sy_alloc s)) = mp_frees (sy_alloc s) @ [p]"
proof -
  obtain c where c: "lru_get k (sy_frames s) = Some (c, cached s k)" "fm_inv (s\<lparr>sy_frames := c\<rparr>)" "lru_lookup c = cached s"
    using lru_get_order [OF assms(1), of k] by auto
  obtain c' where c': "lru_remove_key k c = Some c'" "lru_ok c'" "lru_lookup c' = (lru_lookup c)(k := None)"
    using frames.remove_lookup fm_invD(1) [OF c(2)] by fastforce
  have used: "p \<in> mp_used (sy_alloc s)" using fm_invD(4) [OF assms(1,2)] by simp
  have eq: "fm_free_internal k p s =
      Some (SUCCESS, s\<lparr>sy_frames := c', sy_alloc := mp_free p (sy_alloc s), sy_mem := (sy_mem s)(p := (sy_mem s p)\<lparr>fr_pin := 0\<rparr>)\<rparr>)"
    using c(1) c'(1) assms(2-4) by (simp add: fm_free_internal_def unpin_frame_def unpin_unlatched)
  have "ran ((cached s)(k := None)) = ran (cached s) - {p}"
    using fm_invD(5) [OF assms(1)] assms(2) unfolding ran_def by (auto split: if_splits) (metis option.inject)+
  moreover have "inj_on ((cached s)(k := None)) (dom ((cached s)(k := None)))"
    using fm_invD(5) [OF assms(1)] unfolding inj_map_iff by (auto split: if_splits)
  ultimately have "fm_inv (s\<lparr>sy_frames := c', sy_alloc := mp_free p (sy_alloc s)\<rparr>)"
    using assms(1) c'(2,3) c(3) used mp_inv_free [of "sy_alloc s" p] by (simp add: fm_inv_def cached_def mp_free_def)
  moreover have "mp_frees (mp_free p (sy_alloc s)) = mp_frees (sy_alloc s) @ [p]" using used by (simp add: mp_free_def)
  ultimately show ?thesis using eq c'(3) c(3) by (intro exI [of _ c'] conjI) simp_all
qed

text \<open>The frame the finder picks when one is asked for: an unpinned one, if there is one.\<close>

lemma walk_purge_finder_one:
  "walk (purge_finder 1) l (mem, []) =
     (case find (\<lambda>(k, p). can_purge (mem p)) l of
        None \<Rightarrow> (mem, []) | Some (k, p) \<Rightarrow> (mem(p := pin (mem p)), [p]))"
  by (induction l) (auto simp: purge_finder_def)

lemma find_SomeD: "find P xs = Some x \<Longrightarrow> x \<in> set xs \<and> P x"
  by (induction xs) (auto split: if_splits)

lemma foreach_reverse_purge_one:
  assumes "lru_ok c"
  shows "(\<exists>k p. lru_lookup c k = Some p \<and> can_purge (mem p) \<and>
       lru_foreach_reverse (purge_finder 1) c (mem, []) = Some (mem(p := pin (mem p)), [p])) \<or>
    (\<forall>k p. lru_lookup c k = Some p \<longrightarrow> \<not> can_purge (mem p)) \<and>
       lru_foreach_reverse (purge_finder 1) c (mem, []) = Some (mem, [])"
proof -
  obtain l where l: "lru_rep c l" using assms by (auto simp: lru_ok_def)
  note lk = lru_lookup_rep [OF l] and dist = lru_rep_distinct [OF l]
  have w: "lru_foreach_reverse (purge_finder 1) c (mem, []) = Some (walk (purge_finder 1) (rev l) (mem, []))"
    by (rule lru_foreach_reverse_refine [OF l])
  show ?thesis
  proof (cases "find (\<lambda>(k, p). can_purge (mem p)) (rev l)")
    case None
    then have "\<not> can_purge (mem p)" if "lru_lookup c k = Some p" for k p
      using that map_of_SomeD [of l k p] by (auto simp: find_None_iff lk)
    with None w show ?thesis unfolding walk_purge_finder_one by auto
  next
    case (Some kp)
    then have "kp \<in> set l \<and> (case kp of (k, p) \<Rightarrow> can_purge (mem p))"
      using find_SomeD [OF Some] by auto
    then have "lru_lookup c (fst kp) = Some (snd kp)" "can_purge (mem (snd kp))"
      using dist by (auto simp: lk)
    with Some w show ?thesis unfolding walk_purge_finder_one by (auto split: prod.splits)
  qed
qed

end
