(* ===== verification/BufferPool.thy ===== *)
theory BufferPool
  imports FrameManager Bitmap
begin

section \<open>Disk buffer pools (disk_buffer_pool.cpp: DiskBufferPool)\<close>

text \<open>
  A pool maps the pages of one file to frames. Reads and writes of a page are system calls: the
  parameter \<open>io\<close> decides the \<open>t\<close>-th of them, \<open>IoFail\<close> carrying what a failed transfer left behind, if it
  got that far. Descriptors come from \<open>open(2)\<close>: the lowest one that is not in use.
  A pool is addressed by the pointer \<open>b\<close>; \<^const>\<open>None\<close> is a failed assertion or the use of a deleted pool.
  Seeking a file with a non-negative offset does not fail; flushing a page with a negative number
  would write at an unknown position and is \<^const>\<open>None\<close>.
\<close>

datatype io_result = IoOk | IoFail "Page option"

type_synonym io = "nat \<Rightarrow> io_result"

subsection \<open>Files\<close>

definition file_of :: "Sys \<Rightarrow> int \<Rightarrow> Page list option" where
  "file_of s fd = do { n \<leftarrow> map_of (sy_fds s) fd; sy_disk s n }"

definition put_page :: "Page list \<Rightarrow> nat \<Rightarrow> Page \<Rightarrow> Page list" where
  "put_page ps n p = (if n < length ps then ps[n := p] else ps @ replicate (n - length ps) zero_page @ [p])"

definition write_file :: "int \<Rightarrow> nat \<Rightarrow> Page \<Rightarrow> Sys \<Rightarrow> Sys" where
  "write_file fd n p s =
     (case map_of (sy_fds s) fd of
        None \<Rightarrow> s
      | Some name \<Rightarrow> s\<lparr>sy_disk := (sy_disk s)(name := map_option (\<lambda>ps. put_page ps n p) (sy_disk s name))\<rparr>)"

definition tick :: "Sys \<Rightarrow> Sys" where
  "tick s = s\<lparr>sy_tick := Suc (sy_tick s)\<rparr>"

subsection \<open>The file header\<close>

definition MAX_PAGE_NUM :: int where
  "MAX_PAGE_NUM = (int BP_PAGE_DATA_SIZE - 4 - 4) * 8"

definition bh_page_count :: "mem \<Rightarrow> int" where "bh_page_count m = read_i32 m 0"
definition bh_allocated :: "mem \<Rightarrow> int" where "bh_allocated m = read_i32 m 4"
definition bh_bitmap :: "mem \<Rightarrow> bitmap" where "bh_bitmap m = bitmap_init 8 (nat (bh_page_count m))"

definition hdr_of :: "nat \<Rightarrow> Sys \<Rightarrow> nat option" where
  "hdr_of b s = map_option dbp_hdr_frame (sy_pools s b)"

subsection \<open>Operations\<close>

definition flush_page_internal :: "io \<Rightarrow> nat \<Rightarrow> nat \<Rightarrow> Sys \<Rightarrow> (RC \<times> Sys) option" where
  "flush_page_internal io b p s = do {
     pool \<leftarrow> sy_pools s b;
     let fd = dbp_file_desc pool; pg = fr_page (sy_mem s p) in
     if pg_num pg < 0 then None
     else case file_of s fd of
       None \<Rightarrow> Some (if pg_num pg = 0 then IOERR_SEEK else IOERR_WRITE, s)
     | Some _ \<Rightarrow>
         (case io (sy_tick s) of
            IoOk \<Rightarrow> Some (SUCCESS, upd_frame p clear_dirty (write_file fd (nat (pg_num pg)) pg (tick s)))
          | IoFail None \<Rightarrow> Some (IOERR_WRITE, tick s)
          | IoFail (Some q) \<Rightarrow> Some (IOERR_WRITE, write_file fd (nat (pg_num pg)) q (tick s)))
   }"

definition dbp_flush_page :: "io \<Rightarrow> nat \<Rightarrow> nat \<Rightarrow> Sys \<Rightarrow> (RC \<times> Sys) option" where
  "dbp_flush_page io b p s = flush_page_internal io b p s"

definition bpm_flush_page :: "io \<Rightarrow> nat \<Rightarrow> Sys \<Rightarrow> (RC \<times> Sys) option" where
  "bpm_flush_page io p s =
     (case map_of (sy_fd_buffer_pools s) (fr_file_desc (sy_mem s p)) of
        None \<Rightarrow> Some (INTERNAL, s)
      | Some b \<Rightarrow> dbp_flush_page io b p s)"

definition load_page :: "io \<Rightarrow> nat \<Rightarrow> int \<Rightarrow> nat \<Rightarrow> Sys \<Rightarrow> (RC \<times> Sys) option" where
  "load_page io b page_num p s = do {
     pool \<leftarrow> sy_pools s b;
     case file_of s (dbp_file_desc pool) of
       None \<Rightarrow> Some (IOERR_SEEK, s)
     | Some ps \<Rightarrow>
         if page_num < 0 then Some (IOERR_SEEK, s)
         else if page_num \<ge> int (length ps) then Some (IOERR_READ, tick s)
         else (case io (sy_tick s) of
            IoOk \<Rightarrow> Some (SUCCESS, upd_frame p (fr_page_update (\<lambda>_. ps ! nat page_num)) (tick s))
          | IoFail None \<Rightarrow> Some (IOERR_READ, tick s)
          | IoFail (Some q) \<Rightarrow> Some (IOERR_READ, upd_frame p (fr_page_update (\<lambda>_. q)) (tick s)))
   }"

text \<open>The \<open>purger\<close> of \<open>allocate_frame\<close>.\<close>

definition purger :: "io \<Rightarrow> nat \<Rightarrow> nat \<Rightarrow> Sys \<Rightarrow> (RC \<times> Sys) option" where
  "purger io b p s = do {
     pool \<leftarrow> sy_pools s b;
     if \<not> fr_dirty (sy_mem s p) then Some (SUCCESS, s)
     else if fr_file_desc (sy_mem s p) = dbp_file_desc pool then flush_page_internal io b p s
     else bpm_flush_page io p s
   }"

text \<open>The loop ends only when a frame could be allocated.\<close>

partial_function (option) allocate_frame :: "io \<Rightarrow> nat \<Rightarrow> int \<Rightarrow> Sys \<Rightarrow> (nat \<times> Sys) option" where
  "allocate_frame io b page_num s =
     Option.bind (sy_pools s b) (\<lambda>pool.
     Option.bind (fm_alloc (dbp_file_desc pool) page_num s) (\<lambda>(r, s1).
     case r of
       Some p \<Rightarrow> Some (p, s1)
     | None \<Rightarrow> Option.bind (fm_purge_frames 1 (purger io b) s1) (\<lambda>(n, s2). allocate_frame io b page_num s2)))"

definition purge_frame :: "io \<Rightarrow> nat \<Rightarrow> int \<Rightarrow> nat \<Rightarrow> Sys \<Rightarrow> (RC \<times> Sys) option" where
  "purge_frame io b page_num p s =
     (if fr_pin (sy_mem s p) \<noteq> 1 then Some (LOCKED_UNLOCK, s)
      else do {
        (rc, s) \<leftarrow> (if fr_dirty (sy_mem s p) then flush_page_internal io b p s else Some (SUCCESS, s));
        if rc \<noteq> SUCCESS then Some (rc, s)
        else do {
          pool \<leftarrow> sy_pools s b;
          (_, s) \<leftarrow> fm_free (dbp_file_desc pool) page_num p s;
          Some (SUCCESS, s)
        }
      })"

definition get_this_page :: "io \<Rightarrow> nat \<Rightarrow> int \<Rightarrow> Sys \<Rightarrow> (RC \<times> nat option \<times> Sys) option" where
  "get_this_page io b page_num s = do {
     pool \<leftarrow> sy_pools s b;
     (r, s) \<leftarrow> fm_get (dbp_file_desc pool) page_num s;
     case r of
       Some p \<Rightarrow> Some (SUCCESS, Some p, s)
     | None \<Rightarrow> do {
         (p, s) \<leftarrow> allocate_frame io b page_num s;
         s \<leftarrow> Some (upd_frame p (fr_file_desc_update (\<lambda>_. dbp_file_desc pool)) s);
         (rc, s) \<leftarrow> load_page io b page_num p s;
         if rc \<noteq> SUCCESS then do {
           (_, s) \<leftarrow> purge_frame io b page_num p s;
           Some (rc, None, s)
         } else Some (SUCCESS, Some p, s)
       }
   }"

text \<open>The search of \<open>allocate_page\<close> for a page that is not allocated.\<close>

function find_free_page :: "mem \<Rightarrow> nat \<Rightarrow> int \<Rightarrow> nat option" where
  "find_free_page m i n =
     (if int i < n then (if \<not> get_bit m (bh_bitmap m) i then Some i else find_free_page m (Suc i) n) else None)"
  by pat_completeness auto
termination
  by (relation "measure (\<lambda>(m, i, n). nat n - i)") auto

declare find_free_page.simps [simp del]

definition take_free_page :: "nat \<Rightarrow> nat \<Rightarrow> Sys \<Rightarrow> Sys" where
  "take_free_page h i s =
     upd_frame h (\<lambda>f. mark_dirty (set_data
        (let m = write_i32 (fr_data f) 4 (bh_allocated (fr_data f) + 1) in set_bit m (bh_bitmap m) i) f)) s"

definition append_page :: "nat \<Rightarrow> int \<Rightarrow> Sys \<Rightarrow> Sys" where
  "append_page h page_num s =
     upd_frame h (\<lambda>f. mark_dirty (set_data
        (let m = write_i32 (fr_data f) 4 (bh_allocated (fr_data f) + 1);
             m = write_i32 m 0 (bh_page_count m + 1)
         in set_bit m (bh_bitmap m) (nat page_num)) f)) s"

definition allocate_page :: "io \<Rightarrow> nat \<Rightarrow> Sys \<Rightarrow> (RC \<times> nat option \<times> Sys) option" where
  "allocate_page io b s = do {
     pool \<leftarrow> sy_pools s b;
     let h = dbp_hdr_frame pool; m = fr_data (sy_mem s h) in
     case (if bh_allocated m < bh_page_count m then find_free_page m 0 (bh_page_count m) else None) of
       Some i \<Rightarrow> get_this_page io b (int i) (take_free_page h i s)
     | None \<Rightarrow>
         if bh_page_count m \<ge> MAX_PAGE_NUM then Some (BUFFERPOOL_NOBUF, None, s)
         else do {
           page_num \<leftarrow> Some (bh_page_count m);
           (p, s) \<leftarrow> allocate_frame io b page_num s;
           s \<leftarrow> Some (append_page h page_num s);
           s \<leftarrow> Some (upd_frame p (fr_file_desc_update (\<lambda>_. dbp_file_desc pool)) s);
           s \<leftarrow> Some (upd_frame p clear_page s);
           s \<leftarrow> Some (upd_frame p (set_page_num (bh_page_count (fr_data (sy_mem s h)) - 1)) s);
           (_, s) \<leftarrow> flush_page_internal io b p s;
           Some (SUCCESS, Some p, s)
         }
   }"

definition dispose_page :: "nat \<Rightarrow> int \<Rightarrow> Sys \<Rightarrow> (RC \<times> Sys) option" where
  "dispose_page b page_num s = do {
     pool \<leftarrow> sy_pools s b;
     (r, s) \<leftarrow> fm_get (dbp_file_desc pool) page_num s;
     case r of
       None \<Rightarrow> Some (NOTFOUND, s)
     | Some p \<Rightarrow> do {
         (_, s) \<leftarrow> fm_free (dbp_file_desc pool) page_num p s;
         let h = dbp_hdr_frame pool in
         Some (SUCCESS, upd_frame h (\<lambda>f. set_data
            (let m = write_i32 (fr_data f) 4 (bh_allocated (fr_data f) - 1) in clear_bit m (bh_bitmap m) (nat page_num))
            (mark_dirty f)) s)
       }
   }"

definition dbp_unpin_page :: "nat \<Rightarrow> Sys \<Rightarrow> (RC \<times> Sys) option" where
  "dbp_unpin_page p s = map_option (Pair SUCCESS) (unpin_frame p s)"

definition purge_page :: "io \<Rightarrow> nat \<Rightarrow> int \<Rightarrow> Sys \<Rightarrow> (RC \<times> Sys) option" where
  "purge_page io b page_num s = do {
     pool \<leftarrow> sy_pools s b;
     (r, s) \<leftarrow> fm_get (dbp_file_desc pool) page_num s;
     case r of Some p \<Rightarrow> purge_frame io b page_num p s | None \<Rightarrow> Some (SUCCESS, s)
   }"

primrec purge_all_loop :: "io \<Rightarrow> nat \<Rightarrow> nat list \<Rightarrow> Sys \<Rightarrow> Sys option" where
  "purge_all_loop io b [] s = Some s"
| "purge_all_loop io b (p # ps) s = do {
     (_, s) \<leftarrow> purge_frame io b (fr_page_num (sy_mem s p)) p s;
     purge_all_loop io b ps s
   }"

definition purge_all_pages :: "io \<Rightarrow> nat \<Rightarrow> Sys \<Rightarrow> (RC \<times> Sys) option" where
  "purge_all_pages io b s = do {
     pool \<leftarrow> sy_pools s b;
     (used, s) \<leftarrow> fm_find_list (dbp_file_desc pool) s;
     s \<leftarrow> purge_all_loop io b used s;
     Some (SUCCESS, s)
   }"

primrec unpin_all :: "nat list \<Rightarrow> Sys \<Rightarrow> Sys option" where
  "unpin_all [] s = Some s"
| "unpin_all (p # ps) s = do { s \<leftarrow> unpin_frame p s; unpin_all ps s }"

definition check_all_pages_unpinned :: "nat \<Rightarrow> Sys \<Rightarrow> (RC \<times> Sys) option" where
  "check_all_pages_unpinned b s = do {
     pool \<leftarrow> sy_pools s b;
     (frames, s) \<leftarrow> fm_find_list (dbp_file_desc pool) s;
     s \<leftarrow> unpin_all frames s;
     Some (SUCCESS, s)
   }"

primrec flush_all_loop :: "io \<Rightarrow> nat \<Rightarrow> nat list \<Rightarrow> Sys \<Rightarrow> (RC \<times> Sys) option" where
  "flush_all_loop io b [] s = Some (SUCCESS, s)"
| "flush_all_loop io b (p # ps) s = do {
     (rc, s) \<leftarrow> dbp_flush_page io b p s;
     if rc \<noteq> SUCCESS then Some (rc, s) else flush_all_loop io b ps s
   }"

definition flush_all_pages :: "io \<Rightarrow> nat \<Rightarrow> Sys \<Rightarrow> (RC \<times> Sys) option" where
  "flush_all_pages io b s = do {
     pool \<leftarrow> sy_pools s b;
     (used, s) \<leftarrow> fm_find_list (dbp_file_desc pool) s;
     flush_all_loop io b used s
   }"

definition recover_page :: "nat \<Rightarrow> int \<Rightarrow> Sys \<Rightarrow> (RC \<times> Sys) option" where
  "recover_page b page_num s = do {
     pool \<leftarrow> sy_pools s b;
     let h = dbp_hdr_frame pool; m = fr_data (sy_mem s h) in
     if page_num < 0 then None
     else if \<not> get_bit m (bh_bitmap m) (nat page_num) then
       Some (SUCCESS, upd_frame h (\<lambda>f. mark_dirty (set_data
          (let m = set_bit m (bh_bitmap m) (nat page_num);
               m = write_i32 m 4 (bh_allocated m + 1)
           in write_i32 m 0 (bh_page_count m + 1)) f)) s)
     else Some (SUCCESS, s)
   }"

definition check_page_num :: "nat \<Rightarrow> int \<Rightarrow> Sys \<Rightarrow> RC option" where
  "check_page_num b page_num s = do {
     pool \<leftarrow> sy_pools s b;
     let m = fr_data (sy_mem s (dbp_hdr_frame pool)) in
     if page_num \<ge> bh_page_count m then Some BUFFERPOOL_INVALID_PAGE_NUM
     else if page_num < 0 then None
     else if \<not> get_bit m (bh_bitmap m) (nat page_num) then Some BUFFERPOOL_INVALID_PAGE_NUM
     else Some SUCCESS
   }"

subsection \<open>The page iterator\<close>

record BufferPoolIterator =
  bpi_bitmap :: bitmap
  bpi_current :: nat

definition bpi_init :: "mem \<Rightarrow> int \<Rightarrow> BufferPoolIterator" where
  "bpi_init hdr start_page =
     \<lparr>bpi_bitmap = bh_bitmap hdr, bpi_current = (if start_page \<le> 0 then 0 else nat start_page)\<rparr>"

definition bpi_has_next :: "mem \<Rightarrow> BufferPoolIterator \<Rightarrow> bool" where
  "bpi_has_next hdr it \<longleftrightarrow> next_setted_bit hdr (bpi_bitmap it) (bpi_current it + 1) \<noteq> - 1"

definition bpi_next :: "mem \<Rightarrow> BufferPoolIterator \<Rightarrow> int \<times> BufferPoolIterator" where
  "bpi_next hdr it =
     (let next_page = next_setted_bit hdr (bpi_bitmap it) (bpi_current it + 1)
      in (next_page, if next_page \<noteq> - 1 then it\<lparr>bpi_current := nat next_page\<rparr> else it))"

definition bpi_reset :: "BufferPoolIterator \<Rightarrow> BufferPoolIterator" where
  "bpi_reset it = it\<lparr>bpi_current := 0\<rparr>"

subsection \<open>Logical content and invariant\<close>

text \<open>The page of a file as the disk has it, and as the pool presents it: from its frame if it has one.\<close>

definition disk_page :: "Sys \<Rightarrow> FrameId \<Rightarrow> Page option" where
  "disk_page s k =
     (case file_of s (fid_file_desc k) of
        None \<Rightarrow> None
      | Some ps \<Rightarrow> if 0 \<le> fid_page_num k \<and> fid_page_num k < int (length ps) then Some (ps ! nat (fid_page_num k)) else None)"

definition logical :: "Sys \<Rightarrow> FrameId \<Rightarrow> Page option" where
  "logical s k = (case cached s k of Some p \<Rightarrow> Some (fr_page (sy_mem s p)) | None \<Rightarrow> disk_page s k)"

definition idle :: "Frame \<Rightarrow> bool" where
  "idle f \<longleftrightarrow> fr_pin f = 0 \<and> unlatched f \<and> \<not> fr_dirty f"

text \<open>A cached frame: it has its own identifier, its page exists on disk, and if it is not dirty the disk agrees.\<close>

definition good :: "Sys \<Rightarrow> FrameId \<Rightarrow> Frame \<Rightarrow> bool" where
  "good s k f \<longleftrightarrow> frame_id f = k \<and> fr_pin f \<ge> 0 \<and> (fr_pin f = 0 \<longrightarrow> unlatched f) \<and> disk_page s k \<noteq> None \<and>
     (\<not> fr_dirty f \<longrightarrow> disk_page s k = Some (fr_page f))"

definition pool_at :: "Sys \<Rightarrow> nat \<Rightarrow> int \<Rightarrow> bool" where
  "pool_at s b fd \<longleftrightarrow> (\<exists>pool. sy_pools s b = Some pool \<and> dbp_file_desc pool = fd)"

definition bp_inv :: "Sys \<Rightarrow> bool" where
  "bp_inv s \<longleftrightarrow> fm_inv s \<and> (\<forall>p \<in> set (mp_frees (sy_alloc s)). idle (sy_mem s p)) \<and>
     (\<forall>k p. cached s k = Some p \<longrightarrow> good s k (sy_mem s p)) \<and>
     (\<forall>k pg. disk_page s k = Some pg \<and> cached s k = None \<longrightarrow> pg_num pg = fid_page_num k) \<and>
     distinct (map snd (sy_fds s)) \<and>
     (\<forall>fd b. map_of (sy_fd_buffer_pools s) fd = Some b \<longrightarrow> pool_at s b fd)"

lemma bp_invD:
  assumes "bp_inv s"
  shows "fm_inv s" "p \<in> set (mp_frees (sy_alloc s)) \<Longrightarrow> idle (sy_mem s p)"
    "cached s k = Some p \<Longrightarrow> good s k (sy_mem s p)"
    "disk_page s k = Some pg \<Longrightarrow> cached s k = None \<Longrightarrow> pg_num pg = fid_page_num k"
    "distinct (map snd (sy_fds s))" "map_of (sy_fd_buffer_pools s) fd = Some b \<Longrightarrow> pool_at s b fd"
  using assms unfolding bp_inv_def by blast+

text \<open>The parts of the state that the background activity of the pool does not touch.\<close>

definition same_env :: "Sys \<Rightarrow> Sys \<Rightarrow> bool" where
  "same_env s s' \<longleftrightarrow> sy_fds s' = sy_fds s \<and> sy_pools s' = sy_pools s \<and> sy_pool_brk s' = sy_pool_brk s \<and>
     sy_buffer_pools s' = sy_buffer_pools s \<and> sy_fd_buffer_pools s' = sy_fd_buffer_pools s \<and>
     mp_size (sy_alloc s') = mp_size (sy_alloc s)"

text \<open>
  Background activity: frames nobody has pinned may be written back or dropped, and nothing else
  happens. No page changes its content, pinned frames are untouched.
\<close>

definition bg :: "Sys \<Rightarrow> Sys \<Rightarrow> bool" where
  "bg s s' \<longleftrightarrow> same_env s s' \<and> logical s' = logical s \<and> (\<forall>k. disk_page s' k = None \<longleftrightarrow> disk_page s k = None) \<and>
     (\<forall>k. cached s k = None \<longrightarrow> cached s' k = None) \<and>
     (\<forall>k p. cached s k = Some p \<and> fr_pin (sy_mem s p) > 0 \<longrightarrow> cached s' k = Some p \<and> sy_mem s' p = sy_mem s p)"

lemma bgI:
  assumes "same_env s s'" "logical s' = logical s" "\<And>k. disk_page s' k = None \<longleftrightarrow> disk_page s k = None"
    "\<And>k. cached s k = None \<Longrightarrow> cached s' k = None"
    "\<And>k p. cached s k = Some p \<Longrightarrow> fr_pin (sy_mem s p) > 0 \<Longrightarrow> cached s' k = Some p \<and> sy_mem s' p = sy_mem s p"
  shows "bg s s'"
  using assms unfolding bg_def by blast

lemma bg_refl: "bg s s"
  by (simp add: bg_def same_env_def)

lemma bg_trans:
  assumes "bg s s1" "bg s1 s2"
  shows "bg s s2"
proof -
  have "cached s2 k = Some p \<and> sy_mem s2 p = sy_mem s p" if "cached s k = Some p" "fr_pin (sy_mem s p) > 0" for k p
  proof -
    have "cached s1 k = Some p" "sy_mem s1 p = sy_mem s p" using assms(1) that by (auto simp: bg_def)
    with assms(2) that show ?thesis by (auto simp: bg_def)
  qed
  then have "\<forall>k p. cached s k = Some p \<and> fr_pin (sy_mem s p) > 0 \<longrightarrow> cached s2 k = Some p \<and> sy_mem s2 p = sy_mem s p" by blast
  with assms show ?thesis unfolding bg_def same_env_def
    by (elim conjE, intro conjI) (assumption | simp)+
qed

lemma disk_page_cong: "sy_fds s' = sy_fds s \<Longrightarrow> sy_disk s' = sy_disk s \<Longrightarrow> disk_page s' = disk_page s"
  by (simp add: disk_page_def file_of_def fun_eq_iff)

lemma good_cong: "disk_page s' = disk_page s \<Longrightarrow> good s' = good s"
  by (simp add: good_def fun_eq_iff)

lemma pool_at_cong: "sy_pools s' = sy_pools s \<Longrightarrow> pool_at s' = pool_at s"
  by (simp add: pool_at_def fun_eq_iff)

lemma logical_cong:
  "cached s' = cached s \<Longrightarrow> sy_mem s' = sy_mem s \<Longrightarrow> disk_page s' = disk_page s \<Longrightarrow> logical s' = logical s"
  by (intro ext) (simp add: logical_def split: option.split)

lemma same_but_order_bg:
  assumes "same_but_order s s'" "bp_inv s"
  shows "bp_inv s'" "bg s s'"
proof -
  have eq: "s' = s\<lparr>sy_frames := sy_frames s'\<rparr>" and c: "cached s' = cached s" and "fm_inv s'"
    using assms by (auto simp: same_but_order_def bp_inv_def)
  have f: "sy_mem s' = sy_mem s" "sy_alloc s' = sy_alloc s" "sy_disk s' = sy_disk s" "sy_fds s' = sy_fds s"
    "sy_pools s' = sy_pools s" "sy_pool_brk s' = sy_pool_brk s" "sy_buffer_pools s' = sy_buffer_pools s"
    "sy_fd_buffer_pools s' = sy_fd_buffer_pools s"
    by (subst eq; simp)+
  note d = disk_page_cong [OF f(4,3)]
  show "bp_inv s'" using assms(2) \<open>fm_inv s'\<close> f c d good_cong [OF d] pool_at_cong [OF f(5)] by (simp add: bp_inv_def)
  show "bg s s'" using f d logical_cong [OF c f(1) d] by (simp add: bg_def same_env_def c)
qed

subsection \<open>Writing a page back\<close>

lemma map_of_fds_inj:
  assumes "distinct (map snd l)" "map_of l a = Some n" "map_of l b = Some n"
  shows "a = b"
proof -
  have "(a, n) \<in> set l" "(b, n) \<in> set l" using assms(2,3) by (auto dest: map_of_SomeD)
  moreover have "inj_on snd (set l)" using assms(1) by (simp add: distinct_map)
  ultimately show ?thesis using inj_onD [of snd "set l" "(a, n)" "(b, n)"] by simp
qed

lemma FrameId_eqI: "fid_file_desc a = fid_file_desc b \<Longrightarrow> fid_page_num a = fid_page_num b \<Longrightarrow> a = (b :: FrameId)"
  by (cases a, cases b) simp

lemma write_file_simps [simp]:
  "sy_mem (write_file fd n q s) = sy_mem s" "sy_frames (write_file fd n q s) = sy_frames s"
  "sy_alloc (write_file fd n q s) = sy_alloc s" "sy_fds (write_file fd n q s) = sy_fds s"
  "sy_pools (write_file fd n q s) = sy_pools s" "sy_pool_brk (write_file fd n q s) = sy_pool_brk s"
  "sy_buffer_pools (write_file fd n q s) = sy_buffer_pools s" "sy_fd_buffer_pools (write_file fd n q s) = sy_fd_buffer_pools s"
  "cached (write_file fd n q s) = cached s" "fm_inv (write_file fd n q s) = fm_inv s"
  by (simp_all add: write_file_def split: option.splits)

lemma tick_simps [simp]:
  "sy_mem (tick s) = sy_mem s" "sy_frames (tick s) = sy_frames s" "sy_alloc (tick s) = sy_alloc s" "sy_fds (tick s) = sy_fds s"
  "sy_disk (tick s) = sy_disk s" "sy_pools (tick s) = sy_pools s" "sy_pool_brk (tick s) = sy_pool_brk s"
  "sy_buffer_pools (tick s) = sy_buffer_pools s" "sy_fd_buffer_pools (tick s) = sy_fd_buffer_pools s"
  "cached (tick s) = cached s" "fm_inv (tick s) = fm_inv s" "disk_page (tick s) = disk_page s"
  by (simp_all add: tick_def disk_page_def file_of_def fun_eq_iff)

lemma disk_page_upd_frame [simp]: "disk_page (upd_frame p f s) = disk_page s"
  by (rule disk_page_cong) simp_all

lemma file_of_upd [simp]: "file_of (upd_frame p f s) = file_of s" "file_of (tick s) = file_of s"
  by (simp_all add: file_of_def fun_eq_iff)

lemma sy_pool_brk_upd_frame [simp]: "sy_pool_brk (upd_frame p f s) = sy_pool_brk s"
  by (simp add: upd_frame_def)

lemma disk_page_write:
  assumes "distinct (map snd (sy_fds s))" "disk_page s k \<noteq> None"
  shows "disk_page (write_file (fid_file_desc k) (nat (fid_page_num k)) q s) = (disk_page s)(k \<mapsto> q)"
proof
  fix k'
  obtain name ps where n: "map_of (sy_fds s) (fid_file_desc k) = Some name" "sy_disk s name = Some ps"
    "0 \<le> fid_page_num k" "fid_page_num k < int (length ps)"
    using assms(2) by (auto simp: disk_page_def file_of_def split: option.splits if_splits Option.bind_splits)
  let ?s = "write_file (fid_file_desc k) (nat (fid_page_num k)) q s"
  have disk: "sy_disk ?s = (sy_disk s)(name \<mapsto> ps[nat (fid_page_num k) := q])"
    using n zless_nat_conj [of "fid_page_num k" "int (length ps)"] by (auto simp: write_file_def put_page_def)
  show "disk_page ?s k' = ((disk_page s)(k \<mapsto> q)) k'"
  proof (cases "fid_file_desc k' = fid_file_desc k")
    case True
    then show ?thesis using n disk FrameId_eqI [of k' k]
      by (auto simp: disk_page_def file_of_def nth_list_update nat_eq_iff)
  next
    case False
    then have "map_of (sy_fds s) (fid_file_desc k') \<noteq> Some name"
      using map_of_fds_inj [OF assms(1)] n(1) by blast
    then have "file_of ?s (fid_file_desc k') = file_of s (fid_file_desc k')"
      using disk by (cases "map_of (sy_fds s) (fid_file_desc k')") (auto simp: file_of_def)
    then show ?thesis using False by (auto simp: disk_page_def)
  qed
qed

text \<open>A failed or successful write of the page of a cached dirty frame.\<close>

lemma bp_inv_write:
  fixes q :: Page
  assumes "bp_inv s" "cached s k = Some p" "fr_dirty (sy_mem s p)"
  defines "s1 \<equiv> write_file (fid_file_desc k) (nat (fid_page_num k)) q (tick s)"
  shows "bp_inv s1" "logical s1 = logical s" "disk_page s1 = (disk_page s)(k \<mapsto> q)"
proof -
  note g = bp_invD(3) [OF assms(1,2)]
  have dk: "disk_page s k \<noteq> None" using g by (simp add: good_def)
  show d: "disk_page s1 = (disk_page s)(k \<mapsto> q)"
    using disk_page_write [of "tick s" k q] bp_invD(5) [OF assms(1)] dk by (simp add: s1_def)
  have f: "sy_mem s1 = sy_mem s" "cached s1 = cached s" "sy_alloc s1 = sy_alloc s" "fm_inv s1 = fm_inv s" "sy_fds s1 = sy_fds s"
    "sy_pools s1 = sy_pools s" "sy_fd_buffer_pools s1 = sy_fd_buffer_pools s"
    by (simp_all add: s1_def)
  have "good s1 k' (sy_mem s p')" if "cached s k' = Some p'" for k' p'
  proof (cases "k' = k")
    case True
    then show ?thesis using g assms(2,3) that d by (simp add: good_def)
  next
    case False
    then show ?thesis using bp_invD(3) [OF assms(1) that] d by (simp add: good_def)
  qed
  moreover have "pg_num pg = fid_page_num k'" if "disk_page s1 k' = Some pg" "cached s k' = None" for k' pg
  proof -
    have "k' \<noteq> k" using that(2) assms(2) by auto
    then show ?thesis using that bp_invD(4) [OF assms(1)] d by simp
  qed
  ultimately show "bp_inv s1"
    using assms(1) f pool_at_cong [OF f(6)] by (simp add: bp_inv_def)
  show "logical s1 = logical s" using assms(2) f d by (auto simp: logical_def fun_eq_iff split: option.splits)
qed

lemma bp_inv_upd_frame:
  assumes "bp_inv s" "cached s k = Some p" "good s k (f (sy_mem s p))"
  shows "bp_inv (upd_frame p f s)"
proof -
  have "p \<notin> set (mp_frees (sy_alloc s))" using fm_invD(4) [OF bp_invD(1) [OF assms(1)] assms(2)] by simp
  moreover have "good s k' (((sy_mem s)(p := f (sy_mem s p))) p')" if "cached s k' = Some p'" for k' p'
    using that assms(2,3) bp_invD(3) [OF assms(1) that] fm_invD(5) [OF bp_invD(1) [OF assms(1)]] by (cases "p' = p") auto
  ultimately show ?thesis
    using assms(1) good_cong [of "upd_frame p f s" s] pool_at_cong [of "upd_frame p f s" s] unfolding bp_inv_def by simp
qed

lemma logical_upd_frame:
  assumes "fm_inv s" "cached s k = Some p" "fr_page (f (sy_mem s p)) = pg"
  shows "logical (upd_frame p f s) = (logical s)(k \<mapsto> pg)"
proof
  fix k'
  show "logical (upd_frame p f s) k' = ((logical s)(k \<mapsto> pg)) k'"
  proof (cases "k' = k")
    case True
    then show ?thesis using assms by (simp add: logical_def)
  next
    case False
    then have "cached s k' \<noteq> Some p" using fm_invD(5) [OF assms(1,2)] by blast
    with False show ?thesis by (cases "cached s k'") (auto simp: logical_def)
  qed
qed

lemma logical_upd_same:
  assumes "fm_inv s" "cached s k = Some p" "fr_page (f (sy_mem s p)) = fr_page (sy_mem s p)"
  shows "logical (upd_frame p f s) = logical s"
  using logical_upd_frame [OF assms(1,2)] assms(2,3) by (auto simp: logical_def fun_eq_iff)

lemma good_pin: "good s k f \<Longrightarrow> good s k (pin f)"
  by (auto simp: good_def frame_id_def)

lemma upd_pin_correct:
  assumes "bp_inv s" "cached s k = Some p"
  shows "bp_inv (upd_frame p pin s)" "logical (upd_frame p pin s) = logical s"
  using assms bp_inv_upd_frame good_pin [OF bp_invD(3)] logical_upd_same bp_invD(1) by simp_all

text \<open>What writing back a frame gives: the error only when the write failed, and nothing lost.\<close>

definition wrote_back :: "FrameId \<Rightarrow> nat \<Rightarrow> Sys \<Rightarrow> RC \<Rightarrow> Sys \<Rightarrow> bool" where
  "wrote_back k p s rc s' \<longleftrightarrow> bp_inv s' \<and> logical s' = logical s \<and> same_env s s' \<and> cached s' = cached s \<and>
     sy_alloc s' = sy_alloc s \<and> (\<forall>k. disk_page s' k = None \<longleftrightarrow> disk_page s k = None) \<and>
     (if rc = SUCCESS then sy_mem s' = (sy_mem s)(p := clear_dirty (sy_mem s p)) \<and> disk_page s' k = Some (fr_page (sy_mem s p))
      else sy_mem s' = sy_mem s)"

lemma clear_dirty_clean: "\<not> fr_dirty f \<Longrightarrow> clear_dirty f = f"
  by (simp add: clear_dirty_def)

lemma wrote_back_clean:
  assumes "bp_inv s" "cached s k = Some p" "\<not> fr_dirty (sy_mem s p)"
  shows "wrote_back k p s SUCCESS s"
proof -
  have "(sy_mem s)(p := clear_dirty (sy_mem s p)) = sy_mem s" using assms(3) by (simp add: clear_dirty_clean)
  then show ?thesis using assms bp_invD(3) [OF assms(1,2)] by (simp add: wrote_back_def same_env_def good_def)
qed

lemma wrote_back_failed: "bp_inv s \<Longrightarrow> rc \<noteq> SUCCESS \<Longrightarrow> wrote_back k p s rc s"
  by (simp add: wrote_back_def same_env_def)

lemma flush_dirty:
  assumes "bp_inv s" "cached s k = Some p" "fr_dirty (sy_mem s p)" "pool_at s b (fid_file_desc k)"
  shows "\<exists>rc s'. flush_page_internal io b p s = Some (rc, s') \<and> wrote_back k p s rc s' \<and>
    (io (sy_tick s) = IoOk \<longrightarrow> rc = SUCCESS)"
proof -
  let ?pg = "fr_page (sy_mem s p)"
  note g = bp_invD(3) [OF assms(1,2)]
  have num: "pg_num ?pg = fid_page_num k" "0 \<le> fid_page_num k" "file_of s (fid_file_desc k) \<noteq> None"
    using g by (auto simp: good_def frame_id_def disk_page_def split: option.splits if_splits)
  obtain pool where pool: "sy_pools s b = Some pool" "dbp_file_desc pool = fid_file_desc k"
    using assms(4) by (auto simp: pool_at_def)
  let ?w = "\<lambda>q. write_file (fid_file_desc k) (nat (fid_page_num k)) q (tick s)"
  note w = bp_inv_write [OF assms(1-3)]
  have env: "same_env s (?w q)" "\<And>k'. disk_page (?w q) k' = None \<longleftrightarrow> disk_page s k' = None" for q
    using w(3) [of q] g by (auto simp: same_env_def good_def)
  show ?thesis
  proof (cases "io (sy_tick s)")
    case IoOk
    let ?s = "upd_frame p clear_dirty (?w ?pg)"
    have c: "cached (?w ?pg) k = Some p" using assms(2) by simp
    have "good (?w ?pg) k (clear_dirty (sy_mem s p))"
      using g w(3) [of ?pg] by (simp add: good_def frame_id_def)
    then have "bp_inv ?s" using bp_inv_upd_frame [OF w(1) c] by simp
    moreover have "logical ?s = logical s"
      using logical_upd_same [OF bp_invD(1) [OF w(1)] c] w(2) [of ?pg] by simp
    moreover have "same_env s ?s" using env(1) [of ?pg] by (simp add: same_env_def)
    ultimately have "wrote_back k p s SUCCESS ?s"
      using env(2) [of ?pg] w(3) [of ?pg] by (simp add: wrote_back_def)
    moreover have "flush_page_internal io b p s = Some (SUCCESS, ?s)"
      using pool num IoOk by (auto simp: flush_page_internal_def split: option.splits)
    ultimately show ?thesis by blast
  next
    case (IoFail q)
    show ?thesis
    proof (cases q)
      case None
      have tick_inv: "bp_inv (tick s)"
        using assms(1) good_cong [of "tick s" s] pool_at_cong [of "tick s" s] by (simp add: bp_inv_def)
      then have "wrote_back k p s IOERR_WRITE (tick s)"
        using logical_cong [of "tick s" s] by (simp add: wrote_back_def same_env_def)
      moreover have "flush_page_internal io b p s = Some (IOERR_WRITE, tick s)"
        using pool num IoFail None by (auto simp: flush_page_internal_def split: option.splits)
      ultimately show ?thesis using IoFail by auto
    next
      case (Some q')
      have "wrote_back k p s IOERR_WRITE (?w q')"
        using w(1,2) [of q'] env [of q'] by (simp add: wrote_back_def)
      moreover have "flush_page_internal io b p s = Some (IOERR_WRITE, ?w q')"
        using pool num IoFail Some by (auto simp: flush_page_internal_def split: option.splits)
      ultimately show ?thesis using IoFail by auto
    qed
  qed
qed

text \<open>Every cached page can be written back: the writes succeed and the pool of its file is known.\<close>

definition flushable :: "io \<Rightarrow> int \<Rightarrow> Sys \<Rightarrow> bool" where
  "flushable io fd s \<longleftrightarrow> (\<forall>t. io t = IoOk) \<and>
     (\<forall>k p. cached s k = Some p \<longrightarrow> fid_file_desc k = fd \<or> map_of (sy_fd_buffer_pools s) (fid_file_desc k) \<noteq> None)"

lemma purger_correct:
  assumes "bp_inv s" "cached s k = Some p" "pool_at s b fd"
  shows "\<exists>rc s'. purger io b p s = Some (rc, s') \<and> wrote_back k p s rc s' \<and> (flushable io fd s \<longrightarrow> rc = SUCCESS)"
proof -
  obtain pool where pool: "sy_pools s b = Some pool" "dbp_file_desc pool = fd" using assms(3) by (auto simp: pool_at_def)
  have fdk: "fr_file_desc (sy_mem s p) = fid_file_desc k"
    using bp_invD(3) [OF assms(1,2)] by (auto simp: good_def frame_id_def)
  show ?thesis
  proof (cases "fr_dirty (sy_mem s p)")
    case False
    then show ?thesis using pool wrote_back_clean [OF assms(1,2)] by (auto simp: purger_def)
  next
    case True
    show ?thesis
    proof (cases "fid_file_desc k = fd")
      case own: True
      then show ?thesis using flush_dirty [OF assms(1,2) True, of b io] assms(3) pool fdk True
        by (auto simp: purger_def flushable_def)
    next
      case False
      show ?thesis
      proof (cases "map_of (sy_fd_buffer_pools s) (fid_file_desc k)")
        case None
        then show ?thesis using pool fdk True False wrote_back_failed [OF assms(1)] assms(2)
          by (auto simp: purger_def bpm_flush_page_def flushable_def)
      next
        case (Some b')
        then have "pool_at s b' (fid_file_desc k)" using bp_invD(6) [OF assms(1)] by blast
        with Some show ?thesis using flush_dirty [OF assms(1,2) True, of b' io] pool fdk True False
          by (auto simp: purger_def bpm_flush_page_def dbp_flush_page_def flushable_def)
      qed
    qed
  qed
qed

subsection \<open>Dropping and acquiring frames\<close>

text \<open>The state after \<open>free_internal\<close> of a frame held once whose page is on disk.\<close>

lemma bp_inv_free:
  assumes "bp_inv s" "cached s k = Some p" "fr_pin (sy_mem s p) = 1" "unlatched (sy_mem s p)" "\<not> fr_dirty (sy_mem s p)"
  shows "\<exists>s'. fm_free_internal k p s = Some (SUCCESS, s') \<and> bp_inv s' \<and> logical s' = logical s \<and> same_env s s' \<and>
    disk_page s' = disk_page s \<and> cached s' = (cached s)(k := None) \<and>
    sy_mem s' = (sy_mem s)(p := (sy_mem s p)\<lparr>fr_pin := 0\<rparr>) \<and> mp_frees (sy_alloc s') = mp_frees (sy_alloc s) @ [p]"
proof -
  note g = bp_invD(3) [OF assms(1,2)] and fmi = bp_invD(1) [OF assms(1)]
  obtain c where c: "fm_free_internal k p s =
      Some (SUCCESS, s\<lparr>sy_frames := c, sy_alloc := mp_free p (sy_alloc s), sy_mem := (sy_mem s)(p := (sy_mem s p)\<lparr>fr_pin := 0\<rparr>)\<rparr>)"
    "lru_lookup c = (cached s)(k := None)" "fm_inv (s\<lparr>sy_frames := c, sy_alloc := mp_free p (sy_alloc s)\<rparr>)"
    "mp_frees (mp_free p (sy_alloc s)) = mp_frees (sy_alloc s) @ [p]"
    using fm_free_correct [OF fmi assms(2-4)] by blast
  define s' where "s' = s\<lparr>sy_frames := c, sy_alloc := mp_free p (sy_alloc s), sy_mem := (sy_mem s)(p := (sy_mem s p)\<lparr>fr_pin := 0\<rparr>)\<rparr>"
  have f: "cached s' = (cached s)(k := None)" "sy_mem s' = (sy_mem s)(p := (sy_mem s p)\<lparr>fr_pin := 0\<rparr>)"
    "mp_frees (sy_alloc s') = mp_frees (sy_alloc s) @ [p]" "sy_fds s' = sy_fds s" "sy_pools s' = sy_pools s"
    "sy_fd_buffer_pools s' = sy_fd_buffer_pools s" "same_env s s'" "fm_inv s'"
    using c by (simp_all add: s'_def cached_def same_env_def fm_inv_def)
  have d: "disk_page s' = disk_page s" by (rule disk_page_cong) (simp_all add: s'_def)
  have other: "p' \<noteq> p" if "cached s' k' = Some p'" for k' p'
    using that f(1) fm_invD(5) [OF fmi assms(2)] by (auto split: if_splits)
  have "good s k' (sy_mem s' p')" if "cached s' k' = Some p'" for k' p'
    using bp_invD(3) [OF assms(1)] that other [OF that] f(1,2) by (auto split: if_splits)
  moreover have "idle (sy_mem s' q)" if "q \<in> set (mp_frees (sy_alloc s'))" for q
    using that bp_invD(2) [OF assms(1)] assms(4,5) f(2,3) by (auto simp: idle_def unlatched_def)
  moreover have "pg_num pg = fid_page_num k'" if "disk_page s' k' = Some pg" "cached s' k' = None" for k' pg
  proof (cases "k' = k")
    case True
    then show ?thesis using g assms(5) that(1) d by (auto simp: good_def frame_id_def)
  next
    case False
    then show ?thesis using bp_invD(4) [OF assms(1)] that d f(1) by simp
  qed
  ultimately have inv: "bp_inv s'"
    using assms(1) f(4-6,8) good_cong [OF d] pool_at_cong [OF f(5)] unfolding bp_inv_def by simp
  have "logical s' k' = logical s k'" for k'
  proof (cases "k' = k")
    case True
    then show ?thesis using g assms(2,5) f(1) d by (simp add: logical_def good_def)
  next
    case False
    then show ?thesis using f(1,2) d other [of k'] by (cases "cached s k'") (simp_all add: logical_def)
  qed
  then show ?thesis using c(1) inv f d unfolding s'_def [symmetric] by (intro exI [of _ s'] conjI) (simp_all add: fun_eq_iff)
qed

text \<open>One round of eviction.\<close>

lemma wrote_back_bg:
  assumes "wrote_back k p s rc s'" "cached s k = Some p" "fm_inv s" "fr_pin (sy_mem s p) = 0"
  shows "bg s s'"
proof -
  have "sy_mem s' p' = sy_mem s p'" if "p' \<noteq> p" for p'
    using assms(1) that by (auto simp: wrote_back_def split: if_splits)
  moreover have "p' \<noteq> p" if "fr_pin (sy_mem s p') > 0" for p' using assms(4) that by auto
  ultimately show ?thesis using assms(1) unfolding bg_def wrote_back_def by auto
qed

lemma purge_one_correct:
  assumes "bp_inv s" "pool_at s b fd"
  shows "\<exists>n s'. fm_purge_frames 1 (purger io b) s = Some (n, s') \<and> bp_inv s' \<and> bg s s' \<and>
    (if \<exists>k p. cached s k = Some p \<and> fr_pin (sy_mem s p) = 0
     then flushable io fd s \<longrightarrow> mp_frees (sy_alloc s') \<noteq> [] else s' = s)"
  using foreach_reverse_purge_one [OF fm_invD(1) [OF bp_invD(1) [OF assms(1)]], of "sy_mem s"]
proof (elim disjE exE conjE)
  assume "lru_foreach_reverse (purge_finder 1) (sy_frames s) (sy_mem s, []) = Some (sy_mem s, [])"
  then have "fm_purge_frames 1 (purger io b) s = Some (0, s)" by (simp add: fm_purge_frames_def)
  moreover assume "\<forall>k p. lru_lookup (sy_frames s) k = Some p \<longrightarrow> \<not> can_purge (sy_mem s p)"
  ultimately show ?thesis using assms(1) bg_refl by (auto simp: cached_def can_purge_def)
next
  fix k p
  assume "lru_lookup (sy_frames s) k = Some p" and cp: "can_purge (sy_mem s p)"
    and fe: "lru_foreach_reverse (purge_finder 1) (sy_frames s) (sy_mem s, []) = Some ((sy_mem s)(p := pin (sy_mem s p)), [p])"
  then have c: "cached s k = Some p" and pin0: "fr_pin (sy_mem s p) = 0" by (simp_all add: cached_def can_purge_def)
  let ?s1 = "upd_frame p pin s"
  have un: "unlatched (sy_mem s p)" and id: "frame_id (sy_mem s p) = k"
    using bp_invD(3) [OF assms(1) c] pin0 by (auto simp: good_def)
  have c1: "cached ?s1 k = Some p" using c by simp
  note i1 = upd_pin_correct [OF assms(1) c]
  have "pool_at ?s1 b fd" using assms(2) pool_at_cong [of ?s1 s] by simp
  then obtain rc s2 where s2: "purger io b p ?s1 = Some (rc, s2)" "wrote_back k p ?s1 rc s2" and
    fl: "flushable io fd ?s1 \<longrightarrow> rc = SUCCESS"
    using purger_correct [OF i1(1) c1, of b fd io] by blast
  have fl: "flushable io fd s \<Longrightarrow> rc = SUCCESS" using fl by (simp add: flushable_def)
  have run: "fm_purge_frames 1 (purger io b) s = purge_loop (purger io b) [p] 0 ?s1"
    using fe by (simp add: fm_purge_frames_def upd_frame_def)
  have env: "same_env s s2" "\<And>k. disk_page s2 k = None \<longleftrightarrow> disk_page s k = None" "cached s2 = cached s" "logical s2 = logical s" "bp_inv s2"
    using s2(2) i1(2) by (simp_all add: wrote_back_def same_env_def)
  have others: "sy_mem s2 p' = sy_mem s p'" if "p' \<noteq> p" for p'
    using s2(2) that by (auto simp: wrote_back_def split: if_splits)
  have notp: "p' \<noteq> p" if "fr_pin (sy_mem s p') > 0" for p' using pin0 that by auto
  show ?thesis
  proof (cases "rc = SUCCESS")
    case True
    then have m2: "sy_mem s2 p = clear_dirty (pin (sy_mem s p))" using s2(2) by (simp add: wrote_back_def)
    then have "fr_pin (sy_mem s2 p) = 1" "unlatched (sy_mem s2 p)" "\<not> fr_dirty (sy_mem s2 p)" "frame_id (sy_mem s2 p) = k"
      using pin0 un id by (simp_all add: frame_id_def)
    moreover have c2: "cached s2 k = Some p" using c env by simp
    ultimately obtain s' where s': "fm_free_internal k p s2 = Some (SUCCESS, s')" "bp_inv s'" "logical s' = logical s2" "same_env s2 s'"
      "disk_page s' = disk_page s2" "cached s' = (cached s2)(k := None)" "sy_mem s' = (sy_mem s2)(p := (sy_mem s2 p)\<lparr>fr_pin := 0\<rparr>)"
      "mp_frees (sy_alloc s') = mp_frees (sy_alloc s2) @ [p]"
      using bp_inv_free [OF env(5) c2] by blast
    have "fm_purge_frames 1 (purger io b) s = Some (1, s')"
      using run s2(1) True s'(1) \<open>frame_id (sy_mem s2 p) = k\<close> by simp
    moreover have "bg s s'"
    proof (rule bgI)
      fix k' p' assume "cached s k' = Some p'" and pp: "fr_pin (sy_mem s p') > 0"
      then show "cached s' k' = Some p' \<and> sy_mem s' p' = sy_mem s p'"
        using notp [OF pp] others s'(6,7) env(3) c by auto
    next
      show "same_env s s'" using env(1) s'(4) by (simp add: same_env_def)
    qed (use env s' in simp_all)
    ultimately show ?thesis using s'(2,8) c pin0 by (intro exI [of _ 1] exI [of _ s']) auto
  next
    case False
    then have m2: "sy_mem s2 = sy_mem ?s1" using s2(2) by (simp add: wrote_back_def)
    then have "unpin_frame p s2 = Some (s2\<lparr>sy_mem := (sy_mem s2)(p := sy_mem s p)\<rparr>)"
      using pin0 un by (simp add: unpin_frame_def)
    then have "unpin_frame p s2 = Some (upd_frame p (\<lambda>_. sy_mem s p) s2)" by (simp add: upd_frame_def)
    with run s2(1) False have "fm_purge_frames 1 (purger io b) s = Some (0, upd_frame p (\<lambda>_. sy_mem s p) s2)" by simp
    moreover have g2: "good s2 k (sy_mem s p)"
      using bp_invD(3) [OF assms(1) c] bp_invD(3) [OF env(5), of k p] c env(3) m2
      by (auto simp: good_def)
    then have "bp_inv (upd_frame p (\<lambda>_. sy_mem s p) s2)" using bp_inv_upd_frame [OF env(5), of k p] c env(3) by simp
    moreover have "logical (upd_frame p (\<lambda>_. sy_mem s p) s2) = logical s"
      using logical_upd_same [OF bp_invD(1) [OF env(5)], of k p] c env(3,4) m2 by simp
    then have "bg s (upd_frame p (\<lambda>_. sy_mem s p) s2)"
      by (rule bgI [rotated]) (use env others in \<open>simp_all add: same_env_def\<close>)
    ultimately show ?thesis using fl False c pin0
      by (intro exI [of _ 0] exI [of _ "upd_frame p (\<lambda>_. sy_mem s p) s2"]) auto
  qed
qed

lemma bg_pool_at: "bg s s' \<Longrightarrow> pool_at s' = pool_at s"
  by (rule pool_at_cong) (simp add: bg_def same_env_def)

text \<open>
  The loop of \<open>allocate_frame\<close>, if it ends: some rounds of background activity, then a free frame is
  taken.
\<close>

definition alloc_post :: "int \<Rightarrow> int \<Rightarrow> Sys \<Rightarrow> nat \<times> Sys \<Rightarrow> bool" where
  "alloc_post fd pn s y \<longleftrightarrow>
     (\<exists>s1 ps. bp_inv s1 \<and> bg s s1 \<and> cached s1 (FrameId_of fd pn) = None \<and> mp_frees (sy_alloc s1) = fst y # ps \<and>
        fm_alloc fd pn s1 = Some (Some (fst y), snd y))"

lemma alloc_post_bg: "bg s s1 \<Longrightarrow> alloc_post fd pn s1 y \<Longrightarrow> alloc_post fd pn s y"
  unfolding alloc_post_def using bg_trans by blast

lemma allocate_frame_correct:
  assumes "allocate_frame io b pn s = Some y" "bp_inv s" "pool_at s b fd" "cached s (FrameId_of fd pn) = None"
  shows "alloc_post fd pn s y"
proof -
  have "bp_inv s \<longrightarrow> pool_at s b fd \<longrightarrow> cached s (FrameId_of fd pn) = None \<longrightarrow> alloc_post fd pn s y"
  proof (rule allocate_frame.raw_induct [OF _ assms(1)], intro impI)
    fix rec :: "io \<Rightarrow> nat \<Rightarrow> int \<Rightarrow> Sys \<Rightarrow> (nat \<times> Sys) option" and io b pn s y
    assume IH: "\<And>io b pn s y. rec io b pn s = Some y \<Longrightarrow>
        bp_inv s \<longrightarrow> pool_at s b fd \<longrightarrow> cached s (FrameId_of fd pn) = None \<longrightarrow> alloc_post fd pn s y"
      and run: "Option.bind (sy_pools s b) (\<lambda>pool. Option.bind (fm_alloc (dbp_file_desc pool) pn s) (\<lambda>(r, s1).
          case r of Some p \<Rightarrow> Some (p, s1)
          | None \<Rightarrow> Option.bind (fm_purge_frames 1 (purger io b) s1) (\<lambda>(n, s2). rec io b pn s2))) = Some y"
      and inv: "bp_inv s" and pool: "pool_at s b fd" and nc: "cached s (FrameId_of fd pn) = None"
    obtain po where po: "sy_pools s b = Some po" "dbp_file_desc po = fd" using pool by (auto simp: pool_at_def)
    show "alloc_post fd pn s y"
    proof (cases "mp_frees (sy_alloc s)")
      case (Cons p ps)
      then have "fr_pin (sy_mem s p) = 0" using bp_invD(2) [OF inv, of p] by (simp add: idle_def)
      then obtain s' where "fm_alloc fd pn s = Some (Some p, s')"
        using fm_alloc_new [OF bp_invD(1) [OF inv] nc Cons] by blast
      with run po have "y = (p, s')" by simp
      with inv nc Cons \<open>fm_alloc fd pn s = Some (Some p, s')\<close> bg_refl show ?thesis by (auto simp: alloc_post_def)
    next
      case Nil
      obtain s1 where s1: "fm_alloc fd pn s = Some (None, s1)" "same_but_order s s1" "cached s1 = cached s"
        using fm_alloc_none [OF bp_invD(1) [OF inv] nc Nil] by blast
      note i1 = same_but_order_bg [OF s1(2) inv]
      have "pool_at s1 b fd" using pool bg_pool_at [OF i1(2)] by simp
      then obtain n s2 where s2: "fm_purge_frames 1 (purger io b) s1 = Some (n, s2)" "bp_inv s2" "bg s1 s2"
        using purge_one_correct [OF i1(1)] by blast
      have rec: "rec io b pn s2 = Some y" using run po s1(1) s2(1) by simp
      have "pool_at s2 b fd" using \<open>pool_at s1 b fd\<close> bg_pool_at [OF s2(3)] by simp
      moreover have "cached s2 (FrameId_of fd pn) = None" using s2(3) s1(3) nc by (simp add: bg_def)
      ultimately have "alloc_post fd pn s2 y" using IH [OF rec] s2(2) by blast
      then show ?thesis using bg_trans [OF i1(2) s2(3)] alloc_post_bg by blast
    qed
  qed
  with assms show ?thesis by blast
qed

text \<open>It ends when a frame is free, or when an unpinned frame can be written back.\<close>

lemma allocate_frame_free:
  assumes "bp_inv s" "pool_at s b fd" "cached s (FrameId_of fd pn) = None" "mp_frees (sy_alloc s) \<noteq> []"
  shows "\<exists>y. allocate_frame io b pn s = Some y"
proof -
  obtain p ps where f: "mp_frees (sy_alloc s) = p # ps" using assms(4) by (cases "mp_frees (sy_alloc s)") auto
  then have "fr_pin (sy_mem s p) = 0" using bp_invD(2) [OF assms(1), of p] by (simp add: idle_def)
  then obtain s' where "fm_alloc fd pn s = Some (Some p, s')"
    using fm_alloc_new [OF bp_invD(1) [OF assms(1)] assms(3) f] by blast
  then show ?thesis using assms(2) by (subst allocate_frame.simps) (auto simp: pool_at_def)
qed

lemma allocate_frame_evict:
  assumes "bp_inv s" "pool_at s b fd" "cached s (FrameId_of fd pn) = None" "mp_frees (sy_alloc s) = []"
    "flushable io fd s" "cached s k = Some p" "fr_pin (sy_mem s p) = 0"
  shows "\<exists>y. allocate_frame io b pn s = Some y"
proof -
  obtain s1 where s1: "fm_alloc fd pn s = Some (None, s1)" "same_but_order s s1" "cached s1 = cached s"
    using fm_alloc_none [OF bp_invD(1) [OF assms(1)] assms(3,4)] by blast
  note i1 = same_but_order_bg [OF s1(2) assms(1)]
  have mem: "sy_mem s1 = sy_mem s" "sy_fd_buffer_pools s1 = sy_fd_buffer_pools s"
    using s1(2) by (auto simp: same_but_order_def) (metis Sys.select_convs Sys.surjective Sys.update_convs(2))+
  have fl: "flushable io fd s1" using assms(5) s1(3) mem(2) by (simp add: flushable_def)
  have pool1: "pool_at s1 b fd" using assms(2) bg_pool_at [OF i1(2)] by simp
  obtain n s2 where s2: "fm_purge_frames 1 (purger io b) s1 = Some (n, s2)" "bp_inv s2" "bg s1 s2"
    "if \<exists>k p. cached s1 k = Some p \<and> fr_pin (sy_mem s1 p) = 0 then flushable io fd s1 \<longrightarrow> mp_frees (sy_alloc s2) \<noteq> [] else s2 = s1"
    using purge_one_correct [OF i1(1) pool1] by blast
  then have "mp_frees (sy_alloc s2) \<noteq> []" using fl assms(6,7) s1(3) mem(1) by (metis (no_types, lifting))
  moreover have "pool_at s2 b fd" using pool1 bg_pool_at [OF s2(3)] by simp
  moreover have "cached s2 (FrameId_of fd pn) = None" using s2(3) s1(3) assms(3) by (simp add: bg_def)
  ultimately obtain y where "allocate_frame io b pn s2 = Some y" using allocate_frame_free [OF s2(2)] by blast
  then show ?thesis using assms(2) s1(1) s2(1) by (subst allocate_frame.simps) (auto simp: pool_at_def)
qed

text \<open>When every frame is pinned the loop never ends: the error after it is never reported.\<close>

lemma allocate_frame_stuck:
  assumes "bp_inv s" "pool_at s b fd" "cached s (FrameId_of fd pn) = None" "mp_frees (sy_alloc s) = []"
    "\<And>k p. cached s k = Some p \<Longrightarrow> fr_pin (sy_mem s p) \<noteq> 0"
  shows "allocate_frame io b pn s = None"
proof -
  define stuck where "stuck s \<longleftrightarrow> bp_inv s \<and> pool_at s b fd \<and> cached s (FrameId_of fd pn) = None \<and> mp_frees (sy_alloc s) = [] \<and>
    (\<forall>k p. cached s k = Some p \<longrightarrow> fr_pin (sy_mem s p) \<noteq> 0)" for s
  have "\<not> (b' = b \<and> pn' = pn \<and> stuck s)" if run: "allocate_frame io b' pn' s = Some y" for b' pn' y s
  proof (rule allocate_frame.raw_induct [OF _ run], intro notI, elim conjE)
    fix rec :: "io \<Rightarrow> nat \<Rightarrow> int \<Rightarrow> Sys \<Rightarrow> (nat \<times> Sys) option" and io b' pn' s y
    assume IH: "\<And>io b' pn' s y. rec io b' pn' s = Some y \<Longrightarrow> \<not> (b' = b \<and> pn' = pn \<and> stuck s)"
      and run: "Option.bind (sy_pools s b') (\<lambda>pool. Option.bind (fm_alloc (dbp_file_desc pool) pn' s) (\<lambda>(r, s1).
          case r of Some p \<Rightarrow> Some (p, s1)
          | None \<Rightarrow> Option.bind (fm_purge_frames 1 (purger io b') s1) (\<lambda>(n, s2). rec io b' pn' s2))) = Some y"
      and eqs: "b' = b" "pn' = pn" and st: "stuck s"
    obtain po where po: "sy_pools s b = Some po" "dbp_file_desc po = fd" using st by (auto simp: stuck_def pool_at_def)
    obtain s1 where s1: "fm_alloc fd pn s = Some (None, s1)" "same_but_order s s1" "cached s1 = cached s"
      using fm_alloc_none [OF bp_invD(1)] st unfolding stuck_def by blast
    have f: "sy_mem s1 = sy_mem s" "sy_alloc s1 = sy_alloc s"
      using s1(2) unfolding same_but_order_def by (metis Sys.select_convs Sys.surjective Sys.update_convs(2))+
    have i1: "bp_inv s1" "bg s s1" using same_but_order_bg [OF s1(2)] st by (auto simp: stuck_def)
    have st1: "stuck s1" using st i1 f s1(3) bg_pool_at [OF i1(2)] by (simp add: stuck_def)
    then obtain n s2 where s2: "fm_purge_frames 1 (purger io b) s1 = Some (n, s2)" and
      "if \<exists>k p. cached s1 k = Some p \<and> fr_pin (sy_mem s1 p) = 0 then flushable io fd s1 \<longrightarrow> mp_frees (sy_alloc s2) \<noteq> [] else s2 = s1"
      using purge_one_correct [OF i1(1), of b fd io] unfolding stuck_def by blast
    then have "s2 = s1" using st1 unfolding stuck_def by presburger
    then have "rec io b pn s1 = Some y" using run eqs po s1(1) s2 by simp
    with IH st1 show False by blast
  qed
  then show ?thesis using assms unfolding stuck_def by (cases "allocate_frame io b pn s") blast+
qed

subsection \<open>Getting a page\<close>

text \<open>What a successful or failed acquisition of page \<open>k\<close> leaves.\<close>

definition got_page :: "FrameId \<Rightarrow> Sys \<Rightarrow> RC \<Rightarrow> nat option \<Rightarrow> Sys \<Rightarrow> bool" where
  "got_page k s rc r s' \<longleftrightarrow> bp_inv s' \<and> same_env s s' \<and> logical s' = logical s \<and>
     (\<forall>k. disk_page s' k = None \<longleftrightarrow> disk_page s k = None) \<and>
     (\<forall>k' p'. cached s k' = Some p' \<and> fr_pin (sy_mem s p') > 0 \<longrightarrow>
        cached s' k' = Some p' \<and> sy_mem s' p' = (if r = Some p' then pin (sy_mem s p') else sy_mem s p')) \<and>
     (case r of
        None \<Rightarrow> rc \<noteq> SUCCESS
      | Some p \<Rightarrow> rc = SUCCESS \<and> cached s' k = Some p \<and> logical s k = Some (fr_page (sy_mem s' p)) \<and>
          (case cached s k of
             Some q \<Rightarrow> p = q \<and> sy_mem s' p = pin (sy_mem s p)
           | None \<Rightarrow> fr_pin (sy_mem s' p) = 1 \<and> unlatched (sy_mem s' p)))"

lemma FrameId_of_simps [simp]: "fid_file_desc (FrameId_of fd pn) = fd" "fid_page_num (FrameId_of fd pn) = pn"
  by (simp_all add: FrameId_of_def)

lemma get_this_page_hit:
  assumes "bp_inv s" "pool_at s b fd" "cached s (FrameId_of fd pn) = Some p"
  shows "\<exists>s'. get_this_page io b pn s = Some (SUCCESS, Some p, s') \<and> got_page (FrameId_of fd pn) s SUCCESS (Some p) s'"
proof -
  let ?k = "FrameId_of fd pn"
  obtain po where po: "sy_pools s b = Some po" "dbp_file_desc po = fd" using assms(2) by (auto simp: pool_at_def)
  obtain s1 where s1: "same_but_order s s1" "cached s1 = cached s" "sy_mem s1 = sy_mem s"
    "fm_get_internal ?k s = Some (cached s ?k, (case cached s ?k of None \<Rightarrow> s1 | Some p \<Rightarrow> upd_frame p pin s1))"
    using fm_get_internal_correct [OF bp_invD(1) [OF assms(1)]] by blast
  let ?s = "upd_frame p pin s1"
  note i1 = same_but_order_bg [OF s1(1) assms(1)]
  have c1: "cached s1 ?k = Some p" using s1(2) assms(3) by simp
  note u = upd_pin_correct [OF i1(1) c1]
  have "get_this_page io b pn s = Some (SUCCESS, Some p, ?s)"
    using po s1(4) assms(3) by (simp add: get_this_page_def fm_get_def)
  moreover have "got_page ?k s SUCCESS (Some p) ?s"
    unfolding got_page_def using u i1(2) assms(3) s1(2,3)
    by (auto simp: bg_def same_env_def logical_def)
  ultimately show ?thesis by blast
qed

text \<open>Entering a frame for an uncached page, with what load_page and the caller made of it.\<close>

lemma acquire_frame:
  assumes "bp_inv s1" "cached s1 k = None" "mp_frees (sy_alloc s1) = p # ps"
    "k = FrameId_of fd pn" "fm_alloc fd pn s1 = Some (Some p, s2)"
  shows "sy_mem s2 p = pin (set_page_num pn (sy_mem s1 p))" "fr_pin (sy_mem s2 p) = 1" "unlatched (sy_mem s2 p)"
    "\<not> fr_dirty (sy_mem s2 p)" "cached s2 = (cached s1)(k \<mapsto> p)" "disk_page s2 = disk_page s1" "same_env s1 s2"
    "p' \<noteq> p \<Longrightarrow> sy_mem s2 p' = sy_mem s1 p'" "fm_inv s2" "sy_tick s2 = sy_tick s1" "mp_frees (sy_alloc s2) = ps"
    "p \<notin> ran (cached s1)" "file_of s2 = file_of s1"
proof -
  have idle: "idle (sy_mem s1 p)" using bp_invD(2) [OF assms(1), of p] assms(3) by simp
  obtain c where c: "fm_alloc fd pn s1 =
      Some (Some p, s1\<lparr>sy_frames := c, sy_alloc := (sy_alloc s1)\<lparr>mp_frees := ps, mp_used := insert p (mp_used (sy_alloc s1))\<rparr>,
                     sy_mem := (sy_mem s1)(p := pin (set_page_num pn (sy_mem s1 p)))\<rparr>)"
    "lru_lookup c = (cached s1)(k \<mapsto> p)"
    "fm_inv (s1\<lparr>sy_frames := c, sy_alloc := (sy_alloc s1)\<lparr>mp_frees := ps, mp_used := insert p (mp_used (sy_alloc s1))\<rparr>\<rparr>)"
    using fm_alloc_new [OF bp_invD(1) [OF assms(1)] _ assms(3), of fd pn] assms(2,4) idle by (auto simp: idle_def)
  then have s2: "s2 = s1\<lparr>sy_frames := c, sy_alloc := (sy_alloc s1)\<lparr>mp_frees := ps, mp_used := insert p (mp_used (sy_alloc s1))\<rparr>,
                     sy_mem := (sy_mem s1)(p := pin (set_page_num pn (sy_mem s1 p)))\<rparr>"
    using assms(5) by simp
  show "sy_mem s2 p = pin (set_page_num pn (sy_mem s1 p))" "fr_pin (sy_mem s2 p) = 1" "unlatched (sy_mem s2 p)"
    "\<not> fr_dirty (sy_mem s2 p)" "cached s2 = (cached s1)(k \<mapsto> p)" "same_env s1 s2"
    "p' \<noteq> p \<Longrightarrow> sy_mem s2 p' = sy_mem s1 p'" "sy_tick s2 = sy_tick s1" "mp_frees (sy_alloc s2) = ps"
    using idle c(2) by (simp_all add: s2 idle_def cached_def same_env_def)
  show "disk_page s2 = disk_page s1" by (rule disk_page_cong) (simp_all add: s2)
  show "fm_inv s2" using c(3) by (simp add: s2 fm_inv_def cached_def)
  show "p \<notin> ran (cached s1)" using assms(1,3) by (auto simp: bp_inv_def fm_inv_def mp_inv_def)
  show "file_of s2 = file_of s1" by (simp add: file_of_def s2 fun_eq_iff)
qed

lemma bp_inv_install:
  assumes "bp_inv s1" "cached s1 k = None" "p \<notin> ran (cached s1)" "fm_inv s3" "cached s3 = (cached s1)(k \<mapsto> p)"
    "disk_page s3 = disk_page s1" "same_env s1 s3" "\<And>p'. p' \<noteq> p \<Longrightarrow> sy_mem s3 p' = sy_mem s1 p'"
    "set (mp_frees (sy_alloc s3)) \<subseteq> set (mp_frees (sy_alloc s1)) - {p}"
    "good s1 k (sy_mem s3 p)"
  shows "bp_inv s3" "logical s3 = (logical s1)(k \<mapsto> fr_page (sy_mem s3 p))"
proof -
  have e: "sy_fds s3 = sy_fds s1" "sy_pools s3 = sy_pools s1" "sy_fd_buffer_pools s3 = sy_fd_buffer_pools s1"
    using assms(7) by (simp_all add: same_env_def)
  have np: "p' \<noteq> p" if "cached s1 k' = Some p'" for k' p' using that assms(3) by (auto simp: ran_def)
  have "good s1 k' (sy_mem s3 p')" if "cached s3 k' = Some p'" for k' p'
    using that assms(5,8,10) np bp_invD(3) [OF assms(1)] by (auto split: if_splits)
  moreover have "idle (sy_mem s3 q)" if "q \<in> set (mp_frees (sy_alloc s3))" for q
  proof -
    have "q \<in> set (mp_frees (sy_alloc s1))" "q \<noteq> p" using that assms(9) by auto
    then show ?thesis using assms(8) [of q] bp_invD(2) [OF assms(1), of q] by simp
  qed
  moreover have "pg_num pg = fid_page_num k'" if "disk_page s3 k' = Some pg" "cached s3 k' = None" for k' pg
    using that assms(5,6) bp_invD(4) [OF assms(1)] by (auto split: if_splits)
  ultimately show "bp_inv s3"
    using assms(1,4) e good_cong [OF assms(6)] pool_at_cong [OF e(2)] unfolding bp_inv_def by simp
  show "logical s3 = (logical s1)(k \<mapsto> fr_page (sy_mem s3 p))"
  proof
    fix k'
    show "logical s3 k' = ((logical s1)(k \<mapsto> fr_page (sy_mem s3 p))) k'"
      using assms(5,6,8) np by (cases "k' = k"; cases "cached s1 k'") (auto simp: logical_def)
  qed
qed

text \<open>The states a miss goes through: \<open>s1\<close> when a free frame is taken, \<open>s2\<close> after the allocation.\<close>

lemma miss_states:
  assumes "bp_inv s" "pool_at s b fd" "cached s (FrameId_of fd pn) = None" "get_this_page io b pn s = Some (rc, r, s')"
  obtains s1 s2 p ps where "bp_inv s1" "bg s s1" "cached s1 (FrameId_of fd pn) = None" "mp_frees (sy_alloc s1) = p # ps"
    "fm_alloc fd pn s1 = Some (Some p, s2)"
    "(do { (rc, s) \<leftarrow> load_page io b pn p (upd_frame p (fr_file_desc_update (\<lambda>_. fd)) s2);
           if rc \<noteq> SUCCESS then do { (_, s) \<leftarrow> purge_frame io b pn p s; Some (rc, None, s) } else Some (SUCCESS, Some p, s) })
     = Some (rc, r, s')"
proof -
  let ?k = "FrameId_of fd pn"
  obtain po where po: "sy_pools s b = Some po" "dbp_file_desc po = fd" using assms(2) by (auto simp: pool_at_def)
  obtain s0 where s0: "same_but_order s s0" "cached s0 = cached s"
    "fm_get_internal ?k s = Some (cached s ?k, (case cached s ?k of None \<Rightarrow> s0 | Some p \<Rightarrow> upd_frame p pin s0))"
    using fm_get_internal_correct [OF bp_invD(1) [OF assms(1)]] by blast
  note i0 = same_but_order_bg [OF s0(1) assms(1)]
  have fg: "fm_get fd pn s = Some (None, s0)" using s0(3) assms(3) by (simp add: fm_get_def)
  have run: "(do { (p, s) \<leftarrow> allocate_frame io b pn s0;
     s \<leftarrow> Some (upd_frame p (fr_file_desc_update (\<lambda>_. fd)) s);
     (rc, s) \<leftarrow> load_page io b pn p s;
     if rc \<noteq> SUCCESS then do { (_, s) \<leftarrow> purge_frame io b pn p s; Some (rc, None, s) } else Some (SUCCESS, Some p, s) })
     = Some (rc, r, s')"
    using assms(4) po fg by (simp add: get_this_page_def)
  then obtain p s2 where af: "allocate_frame io b pn s0 = Some (p, s2)"
    by (cases "allocate_frame io b pn s0") auto
  have "pool_at s0 b fd" using assms(2) bg_pool_at [OF i0(2)] by simp
  then have "alloc_post fd pn s0 (p, s2)"
    using allocate_frame_correct [OF af i0(1)] s0(2) assms(3) by simp
  then obtain s1 ps where "bp_inv s1" "bg s0 s1" "cached s1 ?k = None" "mp_frees (sy_alloc s1) = p # ps"
    "fm_alloc fd pn s1 = Some (Some p, s2)" by (auto simp: alloc_post_def)
  then show thesis using that bg_trans [OF i0(2)] run af by auto
qed

lemma bg_got_frame:
  assumes "bg s s1" "cached s k = None" "bp_inv s3" "logical s3 = logical s1" "same_env s1 s3" "\<And>k'. disk_page s3 k' = disk_page s1 k'"
    "cached s3 = (cached s1)(k \<mapsto> p)" "p \<notin> ran (cached s1)" "\<And>p'. p' \<noteq> p \<Longrightarrow> sy_mem s3 p' = sy_mem s1 p'"
    "fr_pin (sy_mem s3 p) = 1" "unlatched (sy_mem s3 p)"
  shows "got_page k s SUCCESS (Some p) s3"
proof -
  have "cached s3 k' = Some p' \<and> sy_mem s3 p' = (if Some p = Some p' then pin (sy_mem s p') else sy_mem s p')"
    if "cached s k' = Some p'" "fr_pin (sy_mem s p') > 0" for k' p'
  proof -
    have 1: "cached s1 k' = Some p'" "sy_mem s1 p' = sy_mem s p'" using assms(1) that by (auto simp: bg_def)
    then have "p' \<noteq> p" "k' \<noteq> k" using assms(2,8) that by (auto simp: ran_def)
    with 1 show ?thesis using assms(7,9) by simp
  qed
  then have pinned: "\<forall>k' p'. cached s k' = Some p' \<and> fr_pin (sy_mem s p') > 0 \<longrightarrow>
      cached s3 k' = Some p' \<and> sy_mem s3 p' = (if Some p = Some p' then pin (sy_mem s p') else sy_mem s p')" by blast
  have c3: "cached s3 k = Some p" using assms(7) by simp
  have lg: "logical s3 = logical s" using assms(1,4) by (simp add: bg_def)
  then have pg: "logical s k = Some (fr_page (sy_mem s3 p))" using c3 by (metis logical_def option.simps(5))
  have env: "same_env s s3" using assms(1,5) by (simp add: bg_def same_env_def)
  have dk: "\<forall>k. disk_page s3 k = None \<longleftrightarrow> disk_page s k = None" using assms(1,6) by (simp add: bg_def)
  show ?thesis unfolding got_page_def
    using assms(2,3,10,11) env lg dk pinned c3 pg by (intro conjI) (assumption | simp)+
qed

text \<open>A page that could not be loaded: the frame goes back to the allocator.\<close>

lemma purge_unloaded:
  assumes "bp_inv s1" "cached s1 k = None" "mp_frees (sy_alloc s1) = p # ps" "k = FrameId_of fd pn"
    "fm_alloc fd pn s1 = Some (Some p, s2)" "pool_at s1 b fd" "s3 = upd_frame p (\<lambda>_. f) s2 \<or> s3 = upd_frame p (\<lambda>_. f) (tick s2)"
    "fr_pin f = 1" "unlatched f" "\<not> fr_dirty f"
  shows "\<exists>s'. purge_frame io b pn p s3 = Some (SUCCESS, s') \<and> bp_inv s' \<and> bg s1 s'"
proof -
  note a = acquire_frame [OF assms(1-5)]
  have f3: "sy_mem s3 = (sy_mem s2)(p := f)" "cached s3 = (cached s1)(k \<mapsto> p)" "disk_page s3 = disk_page s1" "same_env s1 s3"
    "fm_inv s3" "mp_frees (sy_alloc s3) = ps"
    using assms(7) a(5,6,7,9,11) by (auto simp: same_env_def)
  have c3: "cached s3 k = Some p" using f3(2) by simp
  have m3: "sy_mem s3 p = f" using f3(1) by simp
  obtain c where c: "fm_free_internal k p s3 =
      Some (SUCCESS, s3\<lparr>sy_frames := c, sy_alloc := mp_free p (sy_alloc s3), sy_mem := (sy_mem s3)(p := (sy_mem s3 p)\<lparr>fr_pin := 0\<rparr>)\<rparr>)"
    "lru_lookup c = (cached s3)(k := None)" "fm_inv (s3\<lparr>sy_frames := c, sy_alloc := mp_free p (sy_alloc s3)\<rparr>)"
    "mp_frees (mp_free p (sy_alloc s3)) = mp_frees (sy_alloc s3) @ [p]"
    using fm_free_correct [OF f3(5) c3] assms(8,9) m3 by auto
  define s' where "s' = s3\<lparr>sy_frames := c, sy_alloc := mp_free p (sy_alloc s3), sy_mem := (sy_mem s3)(p := (sy_mem s3 p)\<lparr>fr_pin := 0\<rparr>)\<rparr>"
  have e: "cached s' = cached s1" "sy_mem s' p = f\<lparr>fr_pin := 0\<rparr>" "same_env s1 s'" "fm_inv s'" "mp_frees (sy_alloc s') = ps @ [p]"
    "\<And>p'. p' \<noteq> p \<Longrightarrow> sy_mem s' p' = sy_mem s1 p'"
    using c(2-4) f3 assms(2) a(8) by (simp_all add: s'_def cached_def same_env_def fm_inv_def fun_eq_iff)
  have d: "disk_page s' = disk_page s1" using disk_page_cong [of s' s3] f3(3) by (simp add: s'_def)
  have e2: "sy_fds s' = sy_fds s1" "sy_pools s' = sy_pools s1" "sy_fd_buffer_pools s' = sy_fd_buffer_pools s1"
    using e(3) by (simp_all add: same_env_def)
  have np: "p' \<noteq> p" if "cached s1 k' = Some p'" for k' p' using that a(12) by (auto simp: ran_def)
  have "idle (sy_mem s' q)" if "q \<in> set (mp_frees (sy_alloc s'))" for q
  proof (cases "q = p")
    case True
    then show ?thesis using e(2) assms(9,10) by (simp add: idle_def unlatched_def)
  next
    case False
    then show ?thesis using that e(5,6) bp_invD(2) [OF assms(1), of q] assms(3) by simp
  qed
  moreover have "good s1 k' (sy_mem s' p')" if "cached s1 k' = Some p'" for k' p'
    using bp_invD(3) [OF assms(1) that] e(6) [OF np [OF that]] by simp
  ultimately have inv: "bp_inv s'"
    using assms(1) e(1,4) e2 d good_cong [OF d] pool_at_cong [OF e2(2)] unfolding bp_inv_def by simp
  have "logical s' k' = logical s1 k'" for k'
    using e(1,6) d np by (cases "cached s1 k'") (simp_all add: logical_def)
  then have "bg s1 s'" using e(1,3,6) d np by (intro bgI) (auto simp: fun_eq_iff)
  moreover have "sy_pools s3 = sy_pools s1" using f3(4) by (simp add: same_env_def)
  then have "purge_frame io b pn p s3 = Some (SUCCESS, s')"
    using assms(4,6,8,10) m3 c(1) unfolding s'_def [symmetric] by (auto simp: purge_frame_def fm_free_def pool_at_def)
  ultimately show ?thesis using inv by blast
qed

text \<open>The frame after a failed load: still held once, clean, whatever its bytes are.\<close>

lemma failed_load:
  assumes "load_page io b pn p (upd_frame p (fr_file_desc_update (\<lambda>_. fd)) s2) = Some (rc, s3)" "rc \<noteq> SUCCESS"
    "fr_pin (sy_mem s2 p) = 1" "unlatched (sy_mem s2 p)" "\<not> fr_dirty (sy_mem s2 p)"
  shows "\<exists>f. (s3 = upd_frame p (\<lambda>_. f) s2 \<or> s3 = upd_frame p (\<lambda>_. f) (tick s2)) \<and> fr_pin f = 1 \<and> unlatched f \<and> \<not> fr_dirty f"
proof -
  let ?s2 = "upd_frame p (fr_file_desc_update (\<lambda>_. fd)) s2" and ?f = "(sy_mem s2 p)\<lparr>fr_file_desc := fd\<rparr>"
  have "s3 = ?s2 \<or> s3 = tick ?s2 \<or> (\<exists>q. s3 = upd_frame p (fr_page_update (\<lambda>_. q)) (tick ?s2))"
    using assms(1,2) by (auto simp: load_page_def split: option.splits if_splits io_result.splits Option.bind_splits)
  moreover have "upd_frame p (fr_page_update (\<lambda>_. q)) (tick ?s2) = upd_frame p (\<lambda>_. ?f\<lparr>fr_page := q\<rparr>) (tick s2)" for q
    by (simp add: upd_frame_def tick_def)
  moreover have "?s2 = upd_frame p (\<lambda>_. ?f) s2" "tick ?s2 = upd_frame p (\<lambda>_. ?f) (tick s2)"
    by (simp_all add: upd_frame_def tick_def)
  moreover have "fr_pin ?f = 1 \<and> unlatched ?f \<and> \<not> fr_dirty ?f" using assms(3-5) by (simp add: unlatched_def)
  moreover have "fr_pin (?f\<lparr>fr_page := q\<rparr>) = 1 \<and> unlatched (?f\<lparr>fr_page := q\<rparr>) \<and> \<not> fr_dirty (?f\<lparr>fr_page := q\<rparr>)" for q
    using assms(3-5) by (simp add: unlatched_def)
  ultimately show ?thesis by metis
qed

text \<open>A page that was loaded: its frame is entered, held once and clean.\<close>

lemma load_installs:
  assumes "bp_inv s1" "cached s1 k = None" "mp_frees (sy_alloc s1) = p # ps" "k = FrameId_of fd pn"
    "fm_alloc fd pn s1 = Some (Some p, s2)" "pool_at s1 b fd"
    "load_page io b pn p (upd_frame p (fr_file_desc_update (\<lambda>_. fd)) s2) = Some (SUCCESS, s3)"
  shows "bp_inv s3" "logical s3 = logical s1" "cached s3 = (cached s1)(k \<mapsto> p)" "disk_page s3 = disk_page s1" "same_env s1 s3"
    "p' \<noteq> p \<Longrightarrow> sy_mem s3 p' = sy_mem s1 p'" "fr_pin (sy_mem s3 p) = 1" "unlatched (sy_mem s3 p)" "\<not> fr_dirty (sy_mem s3 p)"
    "disk_page s1 k = Some (fr_page (sy_mem s3 p))"
proof -
  note a = acquire_frame [OF assms(1-5)]
  let ?f = "(sy_mem s2 p)\<lparr>fr_file_desc := fd\<rparr>" and ?s2 = "upd_frame p (fr_file_desc_update (\<lambda>_. fd)) s2"
  obtain po where po: "sy_pools s2 b = Some po" "dbp_file_desc po = fd"
    using assms(6) a(7) by (auto simp: pool_at_def same_env_def)
  obtain fps where fps: "file_of s2 fd = Some fps" "0 \<le> pn" "pn < int (length fps)"
    "s3 = upd_frame p (fr_page_update (\<lambda>_. fps ! nat pn)) (tick ?s2)"
    using assms(7) po by (auto simp: load_page_def split: option.splits if_splits io_result.splits)
  have dk: "disk_page s1 k = Some (fps ! nat pn)" using fps a(13) assms(4) by (simp add: disk_page_def)
  have m3: "sy_mem s3 p = ?f\<lparr>fr_page := fps ! nat pn\<rparr>" and oth: "\<And>p'. p' \<noteq> p \<Longrightarrow> sy_mem s3 p' = sy_mem s1 p'"
    using fps(4) a(8) by simp_all
  then show "fr_pin (sy_mem s3 p) = 1" "unlatched (sy_mem s3 p)" "\<not> fr_dirty (sy_mem s3 p)" "p' \<noteq> p \<Longrightarrow> sy_mem s3 p' = sy_mem s1 p'"
    "disk_page s1 k = Some (fr_page (sy_mem s3 p))"
    using a(2,3,4) dk by (simp_all add: unlatched_def)
  have g: "good s1 k (sy_mem s3 p)"
    using m3 a(2,3,4) dk bp_invD(4) [OF assms(1) dk assms(2)] assms(4)
    by (auto simp: good_def frame_id_def FrameId_of_def unlatched_def)
  show st: "cached s3 = (cached s1)(k \<mapsto> p)" "disk_page s3 = disk_page s1" "same_env s1 s3"
    using fps(4) a(5,6,7) by (simp_all add: same_env_def)
  have fm: "fm_inv s3" "mp_frees (sy_alloc s3) = ps" using fps(4) a(9,11) by simp_all
  have dist: "set ps \<subseteq> set (mp_frees (sy_alloc s1)) - {p}"
    using assms(1,3) by (auto simp: bp_inv_def fm_inv_def mp_inv_def)
  note ins = bp_inv_install [OF assms(1,2) a(12) fm(1) st oth _ g, unfolded fm(2), OF _ dist]
  show "bp_inv s3" by (rule ins(1))
  show "logical s3 = logical s1" using ins(2) dk m3 assms(2) by (auto simp: logical_def fun_eq_iff)
qed

lemma get_this_page_correct:
  assumes "bp_inv s" "pool_at s b fd" "get_this_page io b pn s = Some (rc, r, s')"
  shows "got_page (FrameId_of fd pn) s rc r s'"
    "(\<And>t. io t = IoOk) \<Longrightarrow> logical s (FrameId_of fd pn) \<noteq> None \<Longrightarrow> rc = SUCCESS"
proof -
  let ?k = "FrameId_of fd pn"
  have "got_page ?k s rc r s' \<and> ((\<forall>t. io t = IoOk) \<longrightarrow> logical s ?k \<noteq> None \<longrightarrow> rc = SUCCESS)"
  proof (cases "cached s ?k")
    case (Some p)
    then show ?thesis using get_this_page_hit [OF assms(1,2) Some, of io] assms(3) by auto
  next
    case None
    obtain s1 s2 p ps where s1: "bp_inv s1" "bg s s1" "cached s1 ?k = None" "mp_frees (sy_alloc s1) = p # ps"
      "fm_alloc fd pn s1 = Some (Some p, s2)" and
      run: "(do { (rc, s) \<leftarrow> load_page io b pn p (upd_frame p (fr_file_desc_update (\<lambda>_. fd)) s2);
           if rc \<noteq> SUCCESS then do { (_, s) \<leftarrow> purge_frame io b pn p s; Some (rc, None, s) } else Some (SUCCESS, Some p, s) })
       = Some (rc, r, s')"
      using miss_states [OF assms(1,2) None assms(3)] .
    note a = acquire_frame [OF s1(1,3,4) refl s1(5)]
    have pool1: "pool_at s1 b fd" using assms(2) bg_pool_at [OF s1(2)] by simp
    then have pool2: "pool_at s2 b fd" using a(7) by (simp add: same_env_def pool_at_def)
    let ?f = "(sy_mem s2 p)\<lparr>fr_file_desc := fd\<rparr>"
    let ?s2 = "upd_frame p (fr_file_desc_update (\<lambda>_. fd)) s2"
    have "logical s1 ?k = disk_page s1 ?k" using s1(3) by (simp add: logical_def)
    then have lk: "logical s ?k = disk_page s1 ?k" using s1(2) by (simp add: bg_def)
    have bgfail: "got_page ?k s rc' None s''" if "bg s1 s''" "bp_inv s''" "rc' \<noteq> SUCCESS" for s'' rc'
      using bg_trans [OF s1(2) that(1)] that(2,3) unfolding got_page_def bg_def by auto
    show ?thesis
    proof (cases "load_page io b pn p ?s2")
      case None
      with run show ?thesis by simp
    next
      case (Some rs)
      obtain rc1 s3 where ld: "load_page io b pn p ?s2 = Some (rc1, s3)" using Some by (cases rs) auto
      obtain po where po: "sy_pools s2 b = Some po" "dbp_file_desc po = fd" using pool2 by (auto simp: pool_at_def)
      show ?thesis
      proof (cases "rc1 = SUCCESS")
        case True
        note li = load_installs [OF s1(1,3,4) refl s1(5) pool1 ld [unfolded True]]
        have "got_page ?k s SUCCESS (Some p) s3"
          using bg_got_frame [OF s1(2) None li(1,2,5) _ li(3) a(12) li(6)] li(4,7,8) by simp
        moreover have "rc = SUCCESS" "r = Some p" "s' = s3" using run ld True by auto
        ultimately show ?thesis by simp
      next
        case False
        from failed_load [OF ld False a(2,3,4)]
        obtain s4 where s4: "purge_frame io b pn p s3 = Some (SUCCESS, s4)" "bp_inv s4" "bg s1 s4"
          using purge_unloaded [OF s1(1,3,4) refl s1(5) pool1] by blast
        have res: "rc = rc1" "r = None" "s' = s4" using run ld False s4(1) by auto
        have "\<not> ((\<forall>t. io t = IoOk) \<and> logical s ?k \<noteq> None)"
        proof
          assume "(\<forall>t. io t = IoOk) \<and> logical s ?k \<noteq> None"
          then show False using ld po False lk a(13)
            by (auto simp: load_page_def disk_page_def split: option.splits if_splits)
        qed
        then show ?thesis using bgfail [OF s4(3,2)] False res by blast
      qed
    qed
  qed
  then show "got_page ?k s rc r s'" "(\<And>t. io t = IoOk) \<Longrightarrow> logical s ?k \<noteq> None \<Longrightarrow> rc = SUCCESS" by blast+
qed

subsection \<open>Getting a page returns\<close>

lemma load_page_total: "pool_at s b fd \<Longrightarrow> \<exists>rc s'. load_page io b pn p s = Some (rc, s')"
  by (auto simp: load_page_def pool_at_def split: option.splits io_result.splits)

text \<open>A frame is available for a page that is not cached.\<close>

definition frame_available :: "io \<Rightarrow> int \<Rightarrow> Sys \<Rightarrow> bool" where
  "frame_available io fd s \<longleftrightarrow> mp_frees (sy_alloc s) \<noteq> [] \<or>
     flushable io fd s \<and> (\<exists>k p. cached s k = Some p \<and> fr_pin (sy_mem s p) = 0)"

lemma same_but_order_fields:
  assumes "same_but_order s s1"
  shows "sy_mem s1 = sy_mem s" "sy_alloc s1 = sy_alloc s" "sy_fd_buffer_pools s1 = sy_fd_buffer_pools s" "cached s1 = cached s"
  using assms unfolding same_but_order_def
  by (metis Sys.select_convs Sys.surjective Sys.update_convs(2))+

lemma allocate_frame_returns:
  assumes "bp_inv s" "pool_at s b fd" "cached s (FrameId_of fd pn) = None" "frame_available io fd s"
  shows "\<exists>y. allocate_frame io b pn s = Some y"
  using assms allocate_frame_free [OF assms(1-3)] allocate_frame_evict [OF assms(1-3)]
  unfolding frame_available_def by blast

lemma get_this_page_returns:
  assumes "bp_inv s" "pool_at s b fd" "cached s (FrameId_of fd pn) \<noteq> None \<or> frame_available io fd s"
  shows "\<exists>rc r s'. get_this_page io b pn s = Some (rc, r, s')"
proof (cases "cached s (FrameId_of fd pn)")
  case (Some p)
  then show ?thesis using get_this_page_hit [OF assms(1,2)] by blast
next
  case None
  let ?k = "FrameId_of fd pn"
  obtain po where po: "sy_pools s b = Some po" "dbp_file_desc po = fd" using assms(2) by (auto simp: pool_at_def)
  obtain s0 where s0: "same_but_order s s0" "fm_get_internal ?k s = Some (None, s0)"
    using fm_get_internal_correct [OF bp_invD(1) [OF assms(1)], of ?k] None by auto
  note i0 = same_but_order_bg [OF s0(1) assms(1)] and f0 = same_but_order_fields [OF s0(1)]
  have pool0: "pool_at s0 b fd" using assms(2) bg_pool_at [OF i0(2)] by simp
  have "frame_available io fd s0" using assms(3) None f0 by (simp add: frame_available_def flushable_def)
  then obtain p s2 where af: "allocate_frame io b pn s0 = Some (p, s2)"
    using allocate_frame_returns [OF i0(1) pool0] None f0(4) by fastforce
  have "alloc_post fd pn s0 (p, s2)" using allocate_frame_correct [OF af i0(1) pool0] None f0(4) by simp
  then obtain s1 ps where s1: "bp_inv s1" "bg s0 s1" "cached s1 ?k = None" "mp_frees (sy_alloc s1) = p # ps"
    "fm_alloc fd pn s1 = Some (Some p, s2)" by (auto simp: alloc_post_def)
  note a = acquire_frame [OF s1(1,3,4) refl s1(5)]
  have pool1: "pool_at s1 b fd" using pool0 bg_pool_at [OF s1(2)] by simp
  let ?s2 = "upd_frame p (fr_file_desc_update (\<lambda>_. fd)) s2"
  have "pool_at ?s2 b fd" using pool1 a(7) by (simp add: same_env_def pool_at_def)
  then obtain rc s3 where ld: "load_page io b pn p ?s2 = Some (rc, s3)" using load_page_total by blast
  show ?thesis
  proof (cases "rc = SUCCESS")
    case True
    then show ?thesis using po s0(2) af ld by (simp add: get_this_page_def fm_get_def)
  next
    case False
    from failed_load [OF ld this a(2,3,4)] obtain f where
      "s3 = upd_frame p (\<lambda>_. f) s2 \<or> s3 = upd_frame p (\<lambda>_. f) (tick s2)" "fr_pin f = 1" "unlatched f" "\<not> fr_dirty f" by blast
    then obtain s4 where "purge_frame io b pn p s3 = Some (SUCCESS, s4)"
      using purge_unloaded [OF s1(1,3,4) refl s1(5) pool1] by blast
    then show ?thesis using po s0(2) af ld False by (simp add: get_this_page_def fm_get_def)
  qed
qed

subsection \<open>Using a page\<close>

lemma unpin_page_correct:
  assumes "bp_inv s" "cached s k = Some p" "fr_pin (sy_mem s p) > 0" "unlatched (sy_mem s p)"
  shows "\<exists>s'. dbp_unpin_page p s = Some (SUCCESS, s') \<and> s' = upd_frame p (\<lambda>f. f\<lparr>fr_pin := fr_pin f - 1\<rparr>) s \<and>
    bp_inv s' \<and> logical s' = logical s"
proof -
  let ?s = "upd_frame p (\<lambda>f. f\<lparr>fr_pin := fr_pin f - 1\<rparr>) s"
  have "dbp_unpin_page p s = Some (SUCCESS, ?s)"
    using assms(3,4) by (simp add: dbp_unpin_page_def unpin_frame_def unpin_unlatched upd_frame_def)
  moreover have "good s k ((sy_mem s p)\<lparr>fr_pin := fr_pin (sy_mem s p) - 1\<rparr>)"
    using bp_invD(3) [OF assms(1,2)] assms(3,4) by (simp add: good_def frame_id_def unlatched_def)
  then have "bp_inv ?s" by (intro bp_inv_upd_frame [OF assms(1,2)]) simp
  ultimately show ?thesis using logical_upd_same [OF bp_invD(1) [OF assms(1)] assms(2)] by simp
qed

text \<open>Changing a pinned page through its frame, marking it dirty.\<close>

lemma modify_page_correct:
  fixes m :: mem
  assumes "bp_inv s" "cached s k = Some p" "logical s k = Some pg"
  defines "s' \<equiv> upd_frame p (\<lambda>f. mark_dirty (set_data m f)) s"
  shows "bp_inv s'" "logical s' = (logical s)(k \<mapsto> pg\<lparr>pg_data := m\<rparr>)"
proof -
  have pg: "pg = fr_page (sy_mem s p)" using assms(2,3) by (simp add: logical_def)
  have "good s k (mark_dirty (set_data m (sy_mem s p)))"
    using bp_invD(3) [OF assms(1,2)] by (auto simp: good_def frame_id_def)
  then show "bp_inv s'" unfolding s'_def by (rule bp_inv_upd_frame [OF assms(1,2)])
  show "logical s' = (logical s)(k \<mapsto> pg\<lparr>pg_data := m\<rparr>)"
    unfolding s'_def by (rule logical_upd_frame [OF bp_invD(1) [OF assms(1)] assms(2)]) (simp add: pg set_data_def)
qed

end
