(* ===== verification/PageAlloc.thy ===== *)
theory PageAlloc
  imports BufferPool
begin

section \<open>Allocation of pages in a file (allocate_page, dispose_page, recover_page, BufferPoolIterator)\<close>

text \<open>
  The header page of a file counts its pages and keeps the bitmap of those in use. This theory
  relates the operations that change the header to the set of allocated pages, and combines them
  with the frame handling of \<open>BufferPool\<close>. Theorems about successful paths assume that the system
  calls succeed (\<open>io_ok\<close>); the frame-level theorems of \<open>BufferPool\<close> do not.
\<close>

definition io_ok :: "io \<Rightarrow> bool" where
  "io_ok io \<longleftrightarrow> (\<forall>t. io t = IoOk)"

subsection \<open>The header\<close>

definition alloc_bit :: "mem \<Rightarrow> nat \<Rightarrow> bool" where
  "alloc_bit m i \<longleftrightarrow> bit_at m 8 i"

definition allocated_pages :: "mem \<Rightarrow> nat set" where
  "allocated_pages m = {i. i < nat (bh_page_count m) \<and> alloc_bit m i}"

definition hdr_ok :: "mem \<Rightarrow> nat \<Rightarrow> bool" where
  "hdr_ok m n \<longleftrightarrow> bh_page_count m = int n \<and> 0 < n \<and> int n \<le> MAX_PAGE_NUM \<and>
     bh_allocated m = int (card (allocated_pages m)) \<and> alloc_bit m 0"

lemma MAX_PAGE_NUM_eq: "MAX_PAGE_NUM = 65408"
  by (simp add: MAX_PAGE_NUM_def BP_PAGE_DATA_SIZE_def)

lemma get_alloc_bit: "get_bit m (bh_bitmap m') i = alloc_bit m i"
  by (simp add: get_bit_iff bh_bitmap_def bitmap_init_def alloc_bit_def)

lemma alloc_bit_simps [simp]:
  "alloc_bit (set_bit m (bh_bitmap m') i) j \<longleftrightarrow> j = i \<or> alloc_bit m j"
  "alloc_bit (clear_bit m (bh_bitmap m') i) j \<longleftrightarrow> j \<noteq> i \<and> alloc_bit m j"
  "alloc_bit (write_i32 m 0 v) j = alloc_bit m j" "alloc_bit (write_i32 m 4 v) j = alloc_bit m j"
  using bit_at_set_bit [of m "bh_bitmap m'" i j] bit_at_clear_bit [of m "bh_bitmap m'" i j]
  by (simp_all add: alloc_bit_def bh_bitmap_def bitmap_init_def bit_at_def)

lemma bh_count_simps [simp]:
  "bh_page_count (set_bit m (bh_bitmap m') i) = bh_page_count m" "bh_allocated (set_bit m (bh_bitmap m') i) = bh_allocated m"
  "bh_page_count (clear_bit m (bh_bitmap m') i) = bh_page_count m" "bh_allocated (clear_bit m (bh_bitmap m') i) = bh_allocated m"
  "bh_page_count (write_i32 m 4 v) = bh_page_count m" "bh_allocated (write_i32 m 0 v) = bh_allocated m"
  "fits_i32 v \<Longrightarrow> bh_page_count (write_i32 m 0 v) = v" "fits_i32 v \<Longrightarrow> bh_allocated (write_i32 m 4 v) = v"
proof -
  show "bh_page_count (set_bit m (bh_bitmap m') i) = bh_page_count m" "bh_allocated (set_bit m (bh_bitmap m') i) = bh_allocated m"
    "bh_page_count (clear_bit m (bh_bitmap m') i) = bh_page_count m" "bh_allocated (clear_bit m (bh_bitmap m') i) = bh_allocated m"
    unfolding bh_page_count_def bh_allocated_def
    by (rule read_i32_cong, simp add: set_bit_other clear_bit_other bh_bitmap_def bitmap_init_def)+
qed (simp_all add: bh_page_count_def bh_allocated_def)

lemma card_allocated: "hdr_ok m n \<Longrightarrow> finite (allocated_pages m) \<and> card (allocated_pages m) \<le> n"
proof -
  assume ok: "hdr_ok m n"
  have "allocated_pages m \<subseteq> {..<n}" using ok by (auto simp: allocated_pages_def hdr_ok_def)
  then show ?thesis using card_mono [of "{..<n}" "allocated_pages m"] finite_subset by auto
qed

lemma hdr_counts_fit:
  assumes "hdr_ok m n"
  shows "fits_i32 (bh_allocated m + 1)" "fits_i32 (bh_allocated m - 1)" "fits_i32 (bh_page_count m + 1)"
    "0 \<le> bh_allocated m" "bh_allocated m \<le> int n"
  using assms card_allocated [OF assms] by (auto simp: hdr_ok_def fits_i32_def MAX_PAGE_NUM_eq)

lemma hdr_take:
  assumes "hdr_ok m n" "i < n" "\<not> alloc_bit m i"
  defines "m' \<equiv> (let m1 = write_i32 m 4 (bh_allocated m + 1) in set_bit m1 (bh_bitmap m1) i)"
  shows "hdr_ok m' n" "allocated_pages m' = insert i (allocated_pages m)"
proof -
  have f: "bh_page_count m' = int n" "bh_allocated m' = bh_allocated m + 1" "\<And>j. alloc_bit m' j \<longleftrightarrow> j = i \<or> alloc_bit m j"
    using assms(1) hdr_counts_fit [OF assms(1)] by (simp_all add: m'_def Let_def hdr_ok_def)
  then show al: "allocated_pages m' = insert i (allocated_pages m)"
    using assms(1,2) by (auto simp: allocated_pages_def hdr_ok_def)
  have "i \<notin> allocated_pages m" using assms(3) by (simp add: allocated_pages_def)
  then show "hdr_ok m' n" using f al assms(1) card_allocated [OF assms(1)] by (simp add: hdr_ok_def)
qed

lemma hdr_append:
  assumes "hdr_ok m n" "int n < MAX_PAGE_NUM"
  defines "m' \<equiv> (let m1 = write_i32 m 4 (bh_allocated m + 1); m2 = write_i32 m1 0 (bh_page_count m1 + 1) in set_bit m2 (bh_bitmap m2) n)"
  shows "hdr_ok m' (Suc n)" "allocated_pages m' = insert n (allocated_pages m)"
proof -
  have f: "bh_page_count m' = int (Suc n)" "bh_allocated m' = bh_allocated m + 1" "\<And>j. alloc_bit m' j \<longleftrightarrow> j = n \<or> alloc_bit m j"
    using assms(1) hdr_counts_fit [OF assms(1)] by (simp_all add: m'_def Let_def hdr_ok_def)
  then show al: "allocated_pages m' = insert n (allocated_pages m)"
    using assms(1) by (auto simp: allocated_pages_def hdr_ok_def less_Suc_eq)
  have "n \<notin> allocated_pages m" using assms(1) by (simp add: allocated_pages_def hdr_ok_def)
  then show "hdr_ok m' (Suc n)" using f al assms(1,2) card_allocated [OF assms(1)] by (simp add: hdr_ok_def)
qed

lemma hdr_dispose:
  assumes "hdr_ok m n" "i < n" "alloc_bit m i" "i \<noteq> 0"
  defines "m' \<equiv> (let m1 = write_i32 m 4 (bh_allocated m - 1) in clear_bit m1 (bh_bitmap m1) i)"
  shows "hdr_ok m' n" "allocated_pages m' = allocated_pages m - {i}"
proof -
  have f: "bh_page_count m' = int n" "bh_allocated m' = bh_allocated m - 1" "\<And>j. alloc_bit m' j \<longleftrightarrow> j \<noteq> i \<and> alloc_bit m j"
    using assms(1) hdr_counts_fit [OF assms(1)] by (simp_all add: m'_def Let_def hdr_ok_def)
  then show al: "allocated_pages m' = allocated_pages m - {i}"
    using assms(1) by (auto simp: allocated_pages_def hdr_ok_def)
  have "i \<in> allocated_pages m" using assms(1-3) by (simp add: allocated_pages_def hdr_ok_def)
  then have "int (card (allocated_pages m - {i})) = int (card (allocated_pages m)) - 1"
    using card_allocated [OF assms(1)] card_Suc_Diff1 [of "allocated_pages m" i] by linarith
  then show "hdr_ok m' n" using f al assms(1,4) by (simp add: hdr_ok_def)
qed

lemma find_free_page_first:
  "find_free_page m i (int n) = (case find (\<lambda>j. \<not> alloc_bit m j) [i..<n] of None \<Rightarrow> None | Some j \<Rightarrow> Some j)"
proof (induction "n - i" arbitrary: i)
  case 0
  then show ?case by (subst find_free_page.simps) simp
next
  case (Suc d)
  then have "i < n" by simp
  with Suc(1) [of "Suc i"] Suc(2) show ?case
    by (subst find_free_page.simps) (simp add: upt_conv_Cons get_alloc_bit)
qed

lemma free_page_exists:
  assumes "hdr_ok m n" "bh_allocated m < bh_page_count m"
  obtains i where "find_free_page m 0 (bh_page_count m) = Some i" "i < n" "\<not> alloc_bit m i" "\<And>j. j < i \<Longrightarrow> alloc_bit m j"
proof (cases "find (\<lambda>j. \<not> alloc_bit m j) [0..<n]")
  case None
  then have "allocated_pages m = {..<n}" using assms(1) by (auto simp: find_None_iff allocated_pages_def hdr_ok_def)
  then show ?thesis using assms by (simp add: hdr_ok_def)
next
  case (Some i)
  then show ?thesis using that [of i] find_upt_Some [OF Some] assms(1) find_free_page_first [of m 0 n] by (auto simp: hdr_ok_def)
qed

subsection \<open>An open pool\<close>

text \<open>Pool \<open>b\<close> of descriptor \<open>fd\<close> has its header page in frame \<open>h\<close>, held, and \<open>n\<close> pages on disk.\<close>

definition pool_inv :: "Sys \<Rightarrow> nat \<Rightarrow> int \<Rightarrow> nat \<Rightarrow> nat \<Rightarrow> bool" where
  "pool_inv s b fd h n \<longleftrightarrow>
     (\<exists>pool. sy_pools s b = Some pool \<and> dbp_file_desc pool = fd \<and> dbp_hdr_frame pool = h) \<and>
     cached s (FrameId_of fd 0) = Some h \<and> fr_pin (sy_mem s h) > 0 \<and> unlatched (sy_mem s h) \<and> hdr_ok (fr_data (sy_mem s h)) n \<and>
     (\<forall>i. disk_page s (FrameId_of fd i) \<noteq> None \<longleftrightarrow> 0 \<le> i \<and> i < int n)"

lemma pool_invD:
  assumes "pool_inv s b fd h n"
  shows "pool_at s b fd" "cached s (FrameId_of fd 0) = Some h" "fr_pin (sy_mem s h) > 0" "unlatched (sy_mem s h)"
    "hdr_ok (fr_data (sy_mem s h)) n" "disk_page s (FrameId_of fd i) \<noteq> None \<longleftrightarrow> 0 \<le> i \<and> i < int n"
    "\<exists>pool. sy_pools s b = Some pool \<and> dbp_file_desc pool = fd \<and> dbp_hdr_frame pool = h"
  using assms unfolding pool_inv_def pool_at_def by blast+

lemma pool_inv_file:
  assumes "pool_inv s b fd h n"
  obtains ps where "file_of s fd = Some ps" "length ps = n"
proof -
  have n: "0 < n" using pool_invD(5) [OF assms] by (simp add: hdr_ok_def)
  have "disk_page s (FrameId_of fd (int n - 1)) \<noteq> None" "disk_page s (FrameId_of fd (int n)) = None"
    using pool_invD(6) [OF assms, of "int n - 1"] pool_invD(6) [OF assms, of "int n"] n by auto
  then show thesis using that by (auto simp: disk_page_def split: option.splits if_splits)
qed

lemma pool_inv_env:
  assumes "pool_inv s b fd h n" "same_env s s'" "\<And>k. disk_page s' k = None \<longleftrightarrow> disk_page s k = None"
    "cached s' (FrameId_of fd 0) = Some h" "sy_mem s' h = sy_mem s h"
  shows "pool_inv s' b fd h n"
  using assms unfolding pool_inv_def same_env_def by simp

lemma pool_inv_bg: "pool_inv s b fd h n \<Longrightarrow> bg s s' \<Longrightarrow> pool_inv s' b fd h n"
  using pool_invD(2,3) [of s b fd h n] by (intro pool_inv_env [of s b fd h n s']) (auto simp: bg_def)

lemma pool_inv_got:
  assumes "pool_inv s b fd h n" "got_page (FrameId_of fd pn) s rc r s'" "r \<noteq> Some h"
  shows "pool_inv s' b fd h n"
  using assms pool_invD(2,3) [OF assms(1)] by (intro pool_inv_env [OF assms(1)]) (auto simp: got_page_def)

text \<open>Writing to the header frame, the only way the counts change.\<close>

lemma pool_inv_header:
  assumes "bp_inv s" "pool_inv s b fd h n" "hdr_ok m n'"
    "\<And>i. disk_page s (FrameId_of fd i) \<noteq> None \<longleftrightarrow> 0 \<le> i \<and> i < int n'"
  defines "s' \<equiv> upd_frame h (\<lambda>f. mark_dirty (set_data m f)) s"
  shows "bp_inv s'" "pool_inv s' b fd h n'" "\<And>k. k \<noteq> FrameId_of fd 0 \<Longrightarrow> logical s' k = logical s k"
    "cached s' = cached s" "fr_data (sy_mem s' h) = m" "\<And>p. p \<noteq> h \<Longrightarrow> sy_mem s' p = sy_mem s p" "same_env s s'" "disk_page s' = disk_page s"
proof -
  note pd = pool_invD [OF assms(2)]
  have lg: "logical s (FrameId_of fd 0) = Some (fr_page (sy_mem s h))" using pd(2) by (simp add: logical_def)
  note mod = modify_page_correct [OF assms(1) pd(2) lg, of m, folded s'_def]
  show "bp_inv s'" by (rule mod(1))
  show "\<And>k. k \<noteq> FrameId_of fd 0 \<Longrightarrow> logical s' k = logical s k" using mod(2) by simp
  show d: "disk_page s' = disk_page s" by (simp add: s'_def)
  show "pool_inv s' b fd h n'" using assms(2-4) d unfolding pool_inv_def by (simp add: s'_def)
  show "cached s' = cached s" "fr_data (sy_mem s' h) = m" "\<And>p. p \<noteq> h \<Longrightarrow> sy_mem s' p = sy_mem s p" "same_env s s'"
    by (simp_all add: s'_def same_env_def)
qed

subsection \<open>Extending the file\<close>

lemma disk_page_append:
  assumes "distinct (map snd (sy_fds s))" "file_of s fd = Some ps"
  shows "disk_page (write_file fd (length ps) pg s) = (disk_page s)(FrameId_of fd (int (length ps)) \<mapsto> pg)"
proof
  fix k'
  obtain name where n: "map_of (sy_fds s) fd = Some name" "sy_disk s name = Some ps"
    using assms(2) by (auto simp: file_of_def split: Option.bind_splits)
  let ?s = "write_file fd (length ps) pg s"
  have disk: "sy_disk ?s = (sy_disk s)(name \<mapsto> ps @ [pg])" using n by (simp add: write_file_def put_page_def)
  show "disk_page ?s k' = ((disk_page s)(FrameId_of fd (int (length ps)) \<mapsto> pg)) k'"
  proof (cases "fid_file_desc k' = fd")
    case True
    then show ?thesis using n disk FrameId_eqI [of k' "FrameId_of fd (int (length ps))"]
      by (auto simp: disk_page_def file_of_def nth_append nat_less_iff)
  next
    case False
    then have "map_of (sy_fds s) (fid_file_desc k') \<noteq> Some name" using map_of_fds_inj [OF assms(1)] n(1) by blast
    then have "file_of ?s (fid_file_desc k') = file_of s (fid_file_desc k')"
      using disk by (cases "map_of (sy_fds s) (fid_file_desc k')") (auto simp: file_of_def)
    then show ?thesis using False by (auto simp: disk_page_def)
  qed
qed

lemma bp_inv_extend:
  assumes "bp_inv s" "file_of s fd = Some ps" "pg_num pg = int (length ps)"
  defines "k \<equiv> FrameId_of fd (int (length ps))" and "s' \<equiv> write_file fd (length ps) pg s"
  shows "bp_inv s'" "logical s' = (logical s)(k \<mapsto> pg)" "disk_page s' = (disk_page s)(k \<mapsto> pg)" "cached s k = None"
proof -
  show d: "disk_page s' = (disk_page s)(k \<mapsto> pg)"
    unfolding s'_def k_def by (rule disk_page_append [OF bp_invD(5) [OF assms(1)] assms(2)])
  have none: "disk_page s k = None" using assms(2) by (simp add: disk_page_def k_def)
  show nc: "cached s k = None"
    using bp_invD(3) [OF assms(1), of k] none by (cases "cached s k") (auto simp: good_def)
  have f: "sy_mem s' = sy_mem s" "cached s' = cached s" "sy_alloc s' = sy_alloc s" "fm_inv s' = fm_inv s" "sy_fds s' = sy_fds s"
    "sy_pools s' = sy_pools s" "sy_fd_buffer_pools s' = sy_fd_buffer_pools s"
    by (simp_all add: s'_def)
  have "good s' k' (sy_mem s p')" if "cached s k' = Some p'" for k' p'
    using bp_invD(3) [OF assms(1) that] that nc d by (auto simp: good_def)
  moreover have "pg_num pg' = fid_page_num k'" if "disk_page s' k' = Some pg'" "cached s k' = None" for k' pg'
    using that d assms(3) bp_invD(4) [OF assms(1), of k' pg'] by (auto simp: k_def split: if_splits)
  ultimately show "bp_inv s'" using assms(1) f pool_at_cong [OF f(6)] unfolding bp_inv_def by simp
  show "logical s' = (logical s)(k \<mapsto> pg)"
  proof
    fix k'
    show "logical s' k' = ((logical s)(k \<mapsto> pg)) k'"
      using nc f(1,2) d by (cases "k' = k"; cases "cached s k'") (simp_all add: logical_def)
  qed
qed

subsection \<open>allocate_page\<close>

definition new_page :: "Sys \<Rightarrow> nat \<Rightarrow> int \<Rightarrow> nat \<Rightarrow> nat \<Rightarrow> nat \<Rightarrow> nat \<Rightarrow> Sys \<Rightarrow> bool" where
  "new_page s b fd h pn n' p s' \<longleftrightarrow> bp_inv s' \<and> pool_inv s' b fd h n' \<and> 0 < pn \<and> pn < n' \<and>
     pn \<notin> allocated_pages (fr_data (sy_mem s h)) \<and>
     allocated_pages (fr_data (sy_mem s' h)) = insert pn (allocated_pages (fr_data (sy_mem s h))) \<and>
     cached s' (FrameId_of fd (int pn)) = Some p \<and> fr_pin (sy_mem s' p) > 0 \<and>
     (cached s (FrameId_of fd (int pn)) = None \<longrightarrow> fr_pin (sy_mem s' p) = 1 \<and> unlatched (sy_mem s' p)) \<and>
     (\<forall>k. k \<noteq> FrameId_of fd 0 \<and> k \<noteq> FrameId_of fd (int pn) \<longrightarrow> logical s' k = logical s k) \<and> same_env s s' \<and>
     (\<forall>k' p'. cached s k' = Some p' \<and> fr_pin (sy_mem s p') > 0 \<and> p' \<noteq> h \<and> p' \<noteq> p \<longrightarrow>
        cached s' k' = Some p' \<and> sy_mem s' p' = sy_mem s p')"

lemma header_key: "FrameId_of fd (int i) = FrameId_of fd 0 \<longleftrightarrow> i = 0"
  by (auto simp: FrameId_of_def)

text \<open>A page below the page count that is not in use.\<close>

lemma allocate_free_page:
  assumes "bp_inv s" "pool_inv s b fd h n" "i < n" "\<not> alloc_bit (fr_data (sy_mem s h)) i" "io_ok io"
    "get_this_page io b (int i) (take_free_page h i s) = Some (rc, r, s')"
  shows "rc = SUCCESS \<and> (\<exists>p. r = Some p \<and> new_page s b fd h i n p s')"
proof -
  let ?m = "fr_data (sy_mem s h)" and ?k = "FrameId_of fd (int i)"
  note pd = pool_invD [OF assms(2)]
  define m' where "m' = (let m1 = write_i32 ?m 4 (bh_allocated ?m + 1) in set_bit m1 (bh_bitmap m1) i)"
  note tk = hdr_take [OF pd(5) assms(3,4), folded m'_def]
  let ?s = "take_free_page h i s"
  have ts: "?s = upd_frame h (\<lambda>f. mark_dirty (set_data m' f)) s"
    by (simp add: take_free_page_def m'_def upd_frame_def)
  note ph = pool_inv_header [OF assms(1,2) tk(1) pd(6), folded ts]
  have i0: "0 < i" using assms(4) pd(5) by (cases i) (auto simp: hdr_ok_def)
  have kne: "?k \<noteq> FrameId_of fd 0" using i0 by (simp add: header_key)
  have "pool_at ?s b fd" using pool_invD(1) [OF ph(2)] .
  note got = get_this_page_correct [OF ph(1) this assms(6)]
  have "disk_page s ?k \<noteq> None" using pd(6) assms(3) by simp
  then have "logical ?s ?k \<noteq> None" using ph(8) by (auto simp: logical_def split: option.splits)
  then have rc: "rc = SUCCESS" using got(2) assms(5) by (simp add: io_ok_def)
  then obtain p where p: "r = Some p" "cached s' ?k = Some p"
    using got(1) by (auto simp: got_page_def split: option.splits)
  have ch: "cached ?s (FrameId_of fd 0) = Some h" "fr_pin (sy_mem ?s h) > 0" using pool_invD(2,3) [OF ph(2)] by auto
  have ph': "p \<noteq> h"
  proof
    assume "p = h"
    have "cached s' (FrameId_of fd 0) = Some h" using got(1) ch by (auto simp: got_page_def)
    moreover have "fm_inv s'" using got(1) bp_invD(1) by (simp add: got_page_def)
    ultimately show False using fm_invD(5) [of s' "FrameId_of fd 0" h ?k] p(2) \<open>p = h\<close> kne by auto
  qed
  have "pool_inv s' b fd h n" using pool_inv_got [OF ph(2) got(1)] p(1) ph' by simp
  moreover have "sy_mem s' h = sy_mem ?s h" using got(1) ch p(1) ph' by (auto simp: got_page_def)
  moreover have "fr_pin (sy_mem s' p) > 0"
  proof (cases "cached ?s ?k")
    case (Some q)
    then have "sy_mem s' p = pin (sy_mem ?s p)" "q = p" using got(1) p(1) by (auto simp: got_page_def)
    then show ?thesis using bp_invD(3) [OF ph(1) Some] by (simp add: good_def)
  qed (use got(1) p(1) in \<open>simp add: got_page_def\<close>)
  moreover have "cached s' k' = Some p' \<and> sy_mem s' p' = sy_mem s p'"
    if "cached s k' = Some p'" "fr_pin (sy_mem s p') > 0" "p' \<noteq> h" "p' \<noteq> p" for k' p'
    using got(1) that ph(4,6) p(1) unfolding got_page_def by auto
  ultimately have "new_page s b fd h i n p s'"
    unfolding new_page_def using got(1) p ph tk(2) rc i0 assms(3,4)
    by (auto simp: got_page_def same_env_def allocated_pages_def)
  then show ?thesis using rc p(1) by blast
qed

text \<open>Extending the file by a page.\<close>

lemma upd_frame_twice [simp]: "upd_frame p f (upd_frame p g s) = upd_frame p (\<lambda>x. f (g x)) s"
  by (simp add: upd_frame_def)

lemma allocate_at_end:
  assumes "bp_inv s" "pool_inv s b fd h n" "int n < MAX_PAGE_NUM" "io_ok io"
    "allocate_frame io b (int n) s = Some (p, s2)"
  defines "s3 \<equiv> upd_frame p clear_page (upd_frame p (fr_file_desc_update (\<lambda>_. fd)) (append_page h (int n) s2))"
  defines "s4 \<equiv> upd_frame p (set_page_num (bh_page_count (fr_data (sy_mem s3 h)) - 1)) s3"
  shows "\<exists>s'. flush_page_internal io b p s4 = Some (SUCCESS, s') \<and> new_page s b fd h n (Suc n) p s' \<and>
    fr_page (sy_mem s' p) = zero_page\<lparr>pg_num := int n\<rparr>"
proof -
  let ?k = "FrameId_of fd (int n)" and ?pg = "zero_page\<lparr>pg_num := int n\<rparr>"
  note pd = pool_invD [OF assms(2)]
  have n0: "0 < n" using pd(5) by (simp add: hdr_ok_def)
  have nc: "cached s ?k = None"
    using pd(6) [of "int n"] bp_invD(3) [OF assms(1), of ?k] by (cases "cached s ?k") (auto simp: good_def)
  obtain s1 ps where s1: "bp_inv s1" "bg s s1" "cached s1 ?k = None" "mp_frees (sy_alloc s1) = p # ps"
    "fm_alloc fd (int n) s1 = Some (Some p, s2)"
    using allocate_frame_correct [OF assms(5,1) pd(1) nc] by (auto simp: alloc_post_def)
  note a = acquire_frame [OF s1(1,3,4) refl s1(5)]
  have pi1: "pool_inv s1 b fd h n" by (rule pool_inv_bg [OF assms(2) s1(2)])
  note pd1 = pool_invD [OF pi1]
  have hp: "h \<noteq> p" using pd1(2) a(12) by (auto simp: ran_def)
  have mh: "sy_mem s1 h = sy_mem s h" using s1(2) pd(2,3) by (auto simp: bg_def)
  define m' where "m' = (let m1 = write_i32 (fr_data (sy_mem s h)) 4 (bh_allocated (fr_data (sy_mem s h)) + 1);
      m2 = write_i32 m1 0 (bh_page_count m1 + 1) in set_bit m2 (bh_bitmap m2) n)"
  note ap = hdr_append [OF pd(5) assms(3), folded m'_def]
  have ap2: "append_page h (int n) s2 = upd_frame h (\<lambda>f. mark_dirty (set_data m' f)) s2"
    using a(8) [of h] hp mh by (simp add: append_page_def m'_def upd_frame_def)
  define f where "f = (sy_mem s2 p)\<lparr>fr_file_desc := fd, fr_page := ?pg\<rparr>"
  have s4: "s4 = upd_frame p (\<lambda>_. f) (upd_frame h (\<lambda>f. mark_dirty (set_data m' f)) s2)"
    using hp ap(1) unfolding s4_def s3_def ap2 by (simp add: upd_frame_def f_def set_page_num_def clear_page_def hdr_ok_def)
  obtain fps where fps: "file_of s1 fd = Some fps" "length fps = n" using pool_inv_file [OF pi1] .
  define s' where "s' = upd_frame p clear_dirty (write_file fd n ?pg (tick s4))"
  have fl: "flush_page_internal io b p s4 = Some (SUCCESS, s')"
    using pd1(1) a(7,13) fps assms(4)
    by (auto simp: flush_page_internal_def s4 f_def s'_def pool_at_def same_env_def io_ok_def Let_def)
  define s1' where "s1' = write_file fd n ?pg s1"
  note ex = bp_inv_extend [OF s1(1) fps(1), of ?pg, unfolded fps(2), folded s1'_def, simplified]
  define s6 where "s6 = s'\<lparr>sy_mem := (sy_mem s')(h := sy_mem s h)\<rparr>"
  have mem6: "sy_mem s6 p = clear_dirty f" "\<And>q. q \<noteq> p \<Longrightarrow> sy_mem s6 q = sy_mem s1' q"
    using hp a(8) mh by (auto simp: s6_def s'_def s4 s1'_def)
  have c6: "cached s6 = (cached s1')(?k \<mapsto> p)" using a(5) by (simp add: s6_def s'_def s4 s1'_def)
  have d6: "disk_page s6 = disk_page s1'"
  proof -
    have "sy_fds s2 = sy_fds s1" using a(7) by (simp add: same_env_def)
    moreover have "file_of s2 fd = Some fps" using a(13) fps by simp
    ultimately have "disk_page (write_file fd n ?pg (tick s4)) = (disk_page s2)(?k \<mapsto> ?pg)"
      using disk_page_append [of "tick s4" fd fps ?pg] bp_invD(5) [OF s1(1)] fps(2) by (simp add: s4)
    moreover have "disk_page s6 = disk_page s'" by (rule disk_page_cong) (simp_all add: s6_def)
    ultimately show ?thesis using ex(3) a(6) by (simp add: s'_def)
  qed
  have g: "good s1' ?k (sy_mem s6 p)"
    using mem6(1) a(2,3) ex(3) by (simp add: good_def f_def frame_id_def FrameId_of_def unlatched_def clear_dirty_def)
  have env6: "same_env s1' s6" using a(7) by (simp add: s6_def s'_def s4 s1'_def same_env_def)
  have fm6: "fm_inv s6" using a(9) by (simp add: s6_def s'_def s4)
  have nr: "cached s1' ?k = None" "p \<notin> ran (cached s1')" using s1(3) a(12) by (simp_all add: s1'_def)
  have fr: "set (mp_frees (sy_alloc s6)) \<subseteq> set (mp_frees (sy_alloc s1')) - {p}"
    using s1(1,4) a(11) by (auto simp: s6_def s'_def s4 s1'_def bp_inv_def fm_inv_def mp_inv_def)
  note ins = bp_inv_install [OF ex(1) nr fm6 c6 d6 env6 mem6(2) fr g]
  have s'6: "s' = upd_frame h (\<lambda>f. mark_dirty (set_data m' f)) s6"
    using hp a(8) [of h] mh by (simp add: s6_def s'_def s4 upd_frame_def fun_upd_twist)
  have kne: "?k \<noteq> FrameId_of fd 0" using n0 by (simp add: header_key)
  have e1: "same_env s1 s6" using env6 by (simp add: same_env_def s1'_def)
  have pi6: "\<And>i. disk_page s6 (FrameId_of fd i) \<noteq> None \<longleftrightarrow> 0 \<le> i \<and> i < int (Suc n)"
    using d6 ex(3) pd1(6) by (auto simp: FrameId_of_def)
  have p6: "(\<exists>pool. sy_pools s6 b = Some pool \<and> dbp_file_desc pool = fd \<and> dbp_hdr_frame pool = h)"
    using pd1(7) e1 by (simp add: same_env_def)
  have c60: "cached s6 (FrameId_of fd 0) = Some h" using c6 kne pd1(2) by (auto simp: s1'_def)
  have h6: "sy_mem s6 h = sy_mem s h" by (simp add: s6_def)
  have final: "bp_inv s'" "pool_inv s' b fd h (Suc n)" "logical s' = (logical s6)(FrameId_of fd 0 \<mapsto> (fr_page (sy_mem s h))\<lparr>pg_data := m'\<rparr>)"
  proof -
    have "logical s6 (FrameId_of fd 0) = Some (fr_page (sy_mem s h))" using c60 h6 by (simp add: logical_def)
    note mod = modify_page_correct [OF ins(1) c60 this, of m', folded s'6]
    show "bp_inv s'" by (rule mod(1))
    show "logical s' = (logical s6)(FrameId_of fd 0 \<mapsto> (fr_page (sy_mem s h))\<lparr>pg_data := m'\<rparr>)" by (rule mod(2))
    show "pool_inv s' b fd h (Suc n)"
      unfolding pool_inv_def using p6 c60 h6 pd(3,4) ap(1) pi6 by (simp add: s'6)
  qed
  have mp: "sy_mem s' p = clear_dirty f" using hp mem6(1) by (simp add: s'6)
  have c': "cached s' = (cached s1)(?k \<mapsto> p)" using c6 by (simp add: s'6 s1'_def)
  have "logical s' k = logical s k" if "k \<noteq> FrameId_of fd 0" "k \<noteq> ?k" for k
    using that final(3) ins(2) ex(2) s1(2) by (simp add: bg_def)
  moreover have "cached s' k' = Some p' \<and> sy_mem s' p' = sy_mem s p'"
    if "cached s k' = Some p'" "fr_pin (sy_mem s p') > 0" "p' \<noteq> h" "p' \<noteq> p" for k' p'
  proof -
    have b1: "cached s1 k' = Some p'" "sy_mem s1 p' = sy_mem s p'" using s1(2) that(1,2) by (auto simp: bg_def)
    then show ?thesis using c' that nc mem6(2) [OF that(4)] by (auto simp: s'6 s1'_def)
  qed
  moreover have "same_env s s'" using s1(2) e1 by (simp add: bg_def same_env_def s'6)
  moreover have "n \<notin> allocated_pages (fr_data (sy_mem s h))" using pd(5) by (simp add: allocated_pages_def hdr_ok_def)
  ultimately have "new_page s b fd h n (Suc n) p s'"
    unfolding new_page_def using final(1,2) ap(2) c' mp a(2,3) n0 nc
    by (auto simp: s'6 f_def unlatched_def clear_dirty_def)
  then show ?thesis using fl mp by (auto simp: f_def clear_dirty_def)
qed

lemma allocate_page_at_end:
  assumes "bp_inv s" "pool_inv s b fd h n" "int n < MAX_PAGE_NUM" "io_ok io"
    "allocate_frame io b (int n) s = Some (p, s2)"
    "\<not> bh_allocated (fr_data (sy_mem s h)) < bh_page_count (fr_data (sy_mem s h))"
  shows "\<exists>s'. allocate_page io b s = Some (SUCCESS, Some p, s') \<and> new_page s b fd h n (Suc n) p s' \<and>
    fr_page (sy_mem s' p) = zero_page\<lparr>pg_num := int n\<rparr>"
proof -
  note pd = pool_invD [OF assms(2)]
  obtain pool where pool: "sy_pools s b = Some pool" "dbp_file_desc pool = fd" "dbp_hdr_frame pool = h" using pd(7) by blast
  have cnt: "bh_page_count (fr_data (sy_mem s h)) = int n" using pd(5) by (simp add: hdr_ok_def)
  obtain s' where "flush_page_internal io b p
      (let s3 = upd_frame p clear_page (upd_frame p (fr_file_desc_update (\<lambda>_. fd)) (append_page h (int n) s2))
       in upd_frame p (set_page_num (bh_page_count (fr_data (sy_mem s3 h)) - 1)) s3) = Some (SUCCESS, s')"
    "new_page s b fd h n (Suc n) p s'" "fr_page (sy_mem s' p) = zero_page\<lparr>pg_num := int n\<rparr>"
    using allocate_at_end [OF assms(1-5)] unfolding Let_def by blast
  then show ?thesis using pool assms(3,5,6) cnt
    by (intro exI [of _ s']) (simp add: allocate_page_def Let_def del: upd_frame_twice upd_frame_simps)
qed

lemma allocate_page_correct:
  assumes "bp_inv s" "pool_inv s b fd h n" "io_ok io" "allocate_page io b s = Some (rc, r, s')"
  shows "rc = BUFFERPOOL_NOBUF \<and> r = None \<and> s' = s \<and> int n = MAX_PAGE_NUM \<and> allocated_pages (fr_data (sy_mem s h)) = {..<n} \<or>
    rc = SUCCESS \<and> (\<exists>p pn n'. r = Some p \<and> new_page s b fd h pn n' p s' \<and>
      (n' = n \<or> pn = n \<and> n' = Suc n \<and> allocated_pages (fr_data (sy_mem s h)) = {..<n} \<and> fr_page (sy_mem s' p) = zero_page\<lparr>pg_num := int n\<rparr>))"
proof -
  let ?m = "fr_data (sy_mem s h)"
  note pd = pool_invD [OF assms(2)]
  obtain pool where pool: "sy_pools s b = Some pool" "dbp_file_desc pool = fd" "dbp_hdr_frame pool = h" using pd(7) by blast
  have cnt: "bh_page_count ?m = int n" using pd(5) by (simp add: hdr_ok_def)
  show ?thesis
  proof (cases "bh_allocated ?m < bh_page_count ?m")
    case True
    obtain i where i: "find_free_page ?m 0 (bh_page_count ?m) = Some i" "i < n" "\<not> alloc_bit ?m i"
      using free_page_exists [OF pd(5) True] by metis
    then have "get_this_page io b (int i) (take_free_page h i s) = Some (rc, r, s')"
      using assms(4) pool True by (simp add: allocate_page_def Let_def)
    then show ?thesis using allocate_free_page [OF assms(1,2) i(2,3) assms(3)] by blast
  next
    case False
    have all: "allocated_pages ?m = {..<n}"
    proof (rule card_subset_eq)
      show "allocated_pages ?m \<subseteq> {..<n}" using cnt by (auto simp: allocated_pages_def)
      show "card (allocated_pages ?m) = card {..<n}"
        using False card_allocated [OF pd(5)] pd(5) by (simp add: hdr_ok_def)
    qed simp
    show ?thesis
    proof (cases "int n < MAX_PAGE_NUM")
      case full: False
      then show ?thesis using assms(4) pool False cnt all pd(5) by (auto simp: allocate_page_def Let_def hdr_ok_def)
    next
      case True
      then obtain p s2 where af: "allocate_frame io b (int n) s = Some (p, s2)"
        using assms(4) pool False cnt by (cases "allocate_frame io b (int n) s") (auto simp: allocate_page_def Let_def)
      obtain s5 where s5: "new_page s b fd h n (Suc n) p s5" "fr_page (sy_mem s5 p) = zero_page\<lparr>pg_num := int n\<rparr>"
        "allocate_page io b s = Some (SUCCESS, Some p, s5)"
        using allocate_page_at_end [OF assms(1,2) True assms(3) af False] by blast
      then have "rc = SUCCESS" "r = Some p" "s' = s5" using assms(4) by simp_all
      then show ?thesis using s5(1,2) all by blast
    qed
  qed
qed

lemma allocate_page_returns:
  assumes "bp_inv s" "pool_inv s b fd h n" "io_ok io" "frame_available io fd s"
  shows "\<exists>rc r s'. allocate_page io b s = Some (rc, r, s')"
proof -
  let ?m = "fr_data (sy_mem s h)"
  note pd = pool_invD [OF assms(2)]
  obtain pool where pool: "sy_pools s b = Some pool" "dbp_file_desc pool = fd" "dbp_hdr_frame pool = h" using pd(7) by blast
  have cnt: "bh_page_count ?m = int n" using pd(5) by (simp add: hdr_ok_def)
  show ?thesis
  proof (cases "bh_allocated ?m < bh_page_count ?m")
    case True
    obtain i where i: "find_free_page ?m 0 (bh_page_count ?m) = Some i" "i < n" "\<not> alloc_bit ?m i"
      using free_page_exists [OF pd(5) True] by metis
    define m' where "m' = (let m1 = write_i32 ?m 4 (bh_allocated ?m + 1) in set_bit m1 (bh_bitmap m1) i)"
    have ts: "take_free_page h i s = upd_frame h (\<lambda>f. mark_dirty (set_data m' f)) s"
      by (simp add: take_free_page_def m'_def upd_frame_def)
    note ph = pool_inv_header [OF assms(1,2) hdr_take(1) [OF pd(5) i(2,3), folded m'_def] pd(6), folded ts]
    have "sy_alloc (take_free_page h i s) = sy_alloc s" "sy_fd_buffer_pools (take_free_page h i s) = sy_fd_buffer_pools s"
      "fr_pin (sy_mem (take_free_page h i s) q) = fr_pin (sy_mem s q)" for q
      by (simp_all add: ts)
    then have "frame_available io fd (take_free_page h i s)"
      using assms(4) ph(4) by (simp add: frame_available_def flushable_def)
    then obtain rc r s' where "get_this_page io b (int i) (take_free_page h i s) = Some (rc, r, s')"
      using get_this_page_returns [OF ph(1) pool_invD(1) [OF ph(2)]] by blast
    then show ?thesis using pool True i(1) by (simp add: allocate_page_def Let_def)
  next
    case False
    show ?thesis
    proof (cases "int n < MAX_PAGE_NUM")
      case full: False
      then show ?thesis using pool False cnt by (auto simp: allocate_page_def Let_def)
    next
      case True
      have nc: "cached s (FrameId_of fd (int n)) = None"
        using pd(6) [of "int n"] bp_invD(3) [OF assms(1), of "FrameId_of fd (int n)"]
        by (cases "cached s (FrameId_of fd (int n))") (auto simp: good_def)
      then obtain p s2 where af: "allocate_frame io b (int n) s = Some (p, s2)"
        using allocate_frame_returns [OF assms(1) pd(1) nc assms(4)] by fastforce
      then show ?thesis using allocate_page_at_end [OF assms(1,2) True assms(3) af False] by blast
    qed
  qed
qed

subsection \<open>dispose_page\<close>

lemma dispose_page_correct:
  assumes "bp_inv s" "pool_inv s b fd h n" "0 < pn" "pn < n" "alloc_bit (fr_data (sy_mem s h)) pn"
    "cached s (FrameId_of fd (int pn)) = Some p" "fr_pin (sy_mem s p) = 0" "\<not> fr_dirty (sy_mem s p)"
  shows "\<exists>s'. dispose_page b (int pn) s = Some (SUCCESS, s') \<and> bp_inv s' \<and> pool_inv s' b fd h n \<and>
    allocated_pages (fr_data (sy_mem s' h)) = allocated_pages (fr_data (sy_mem s h)) - {pn} \<and>
    cached s' (FrameId_of fd (int pn)) = None \<and> mp_frees (sy_alloc s') = mp_frees (sy_alloc s) @ [p]"
proof -
  let ?k = "FrameId_of fd (int pn)"
  note pd = pool_invD [OF assms(2)]
  obtain pool where pool: "sy_pools s b = Some pool" "dbp_file_desc pool = fd" "dbp_hdr_frame pool = h" using pd(7) by blast
  obtain s1 where s1: "same_but_order s s1" "fm_get_internal ?k s = Some (Some p, upd_frame p pin s1)"
    using fm_get_internal_correct [OF bp_invD(1) [OF assms(1)], of ?k] assms(6) by auto
  note i1 = same_but_order_bg [OF s1(1) assms(1)] and f1 = same_but_order_fields [OF s1(1)]
  let ?s1 = "upd_frame p pin s1"
  have c1: "cached s1 ?k = Some p" using f1(4) assms(6) by simp
  note u = upd_pin_correct [OF i1(1) c1]
  have un: "unlatched (sy_mem s p)" using bp_invD(3) [OF assms(1,6)] assms(7) by (simp add: good_def)
  have "fr_pin (sy_mem ?s1 p) = 1" "unlatched (sy_mem ?s1 p)" "\<not> fr_dirty (sy_mem ?s1 p)" "cached ?s1 ?k = Some p"
    using f1(1) assms(7,8) un c1 by simp_all
  then obtain s2 where s2: "fm_free_internal ?k p ?s1 = Some (SUCCESS, s2)" "bp_inv s2" "same_env ?s1 s2" "disk_page s2 = disk_page ?s1"
    "cached s2 = (cached ?s1)(?k := None)" "sy_mem s2 = (sy_mem ?s1)(p := (sy_mem ?s1 p)\<lparr>fr_pin := 0\<rparr>)"
    "mp_frees (sy_alloc s2) = mp_frees (sy_alloc ?s1) @ [p]"
    using bp_inv_free [OF u(1)] by blast
  have kne: "?k \<noteq> FrameId_of fd 0" using assms(3) by (simp add: header_key)
  have hp: "h \<noteq> p" using pd(3) assms(7) by auto
  have mh: "sy_mem s2 h = sy_mem s h" using s2(6) hp f1(1) by simp
  have "pool_inv s1 b fd h n" by (rule pool_inv_bg [OF assms(2) i1(2)])
  then have pi2: "pool_inv s2 b fd h n"
  proof (rule pool_inv_env)
    show "same_env s1 s2" using s2(3) by (simp add: same_env_def)
    show "cached s2 (FrameId_of fd 0) = Some h" using s2(5) f1(4) pd(2) kne by auto
  qed (use s2(4) mh f1(1) in simp_all)
  define m' where "m' = (let m1 = write_i32 (fr_data (sy_mem s h)) 4 (bh_allocated (fr_data (sy_mem s h)) - 1) in clear_bit m1 (bh_bitmap m1) pn)"
  note dp = hdr_dispose [OF pd(5) assms(4,5), folded m'_def]
  let ?s3 = "upd_frame h (\<lambda>f. mark_dirty (set_data m' f)) s2"
  note ph = pool_inv_header [OF s2(2) pi2 dp(1) pool_invD(6) [OF pi2]]
  have comm: "set_data m (mark_dirty f) = mark_dirty (set_data m f)" for m f by (simp add: set_data_def mark_dirty_def)
  have "dispose_page b (int pn) s = Some (SUCCESS, ?s3)"
    using pool s1(2) s2(1) mh by (simp add: dispose_page_def fm_get_def fm_free_def Let_def m'_def comm upd_frame_def)
  moreover have "mp_frees (sy_alloc ?s3) = mp_frees (sy_alloc s) @ [p]" using s2(7) f1(2) by simp
  moreover have "cached ?s3 ?k = None" using s2(5) by simp
  ultimately show ?thesis using ph(1,2,5) dp(2) assms(3) by auto
qed

subsection \<open>The page iterator\<close>

primrec bpi_drain :: "nat \<Rightarrow> mem \<Rightarrow> BufferPoolIterator \<Rightarrow> int list" where
  "bpi_drain 0 hdr it = []"
| "bpi_drain (Suc n) hdr it =
     (if bpi_has_next hdr it then (case bpi_next hdr it of (pn, it') \<Rightarrow> pn # bpi_drain n hdr it') else [])"

definition page_list :: "mem \<Rightarrow> nat list" where
  "page_list m = filter (alloc_bit m) [1..<nat (bh_page_count m)]"

lemma bpi_next_bit:
  assumes "alloc_bit m i"
  shows "next_setted_bit m (bh_bitmap m) (Suc i) = first_from (alloc_bit m) (Suc i) (nat (bh_page_count m))"
  using next_setted_bit_after_set [of m "bh_bitmap m" i] assms
  by (simp add: alloc_bit_def [abs_def] bh_bitmap_def bitmap_init_def)

lemma bpi_drain_from:
  assumes "alloc_bit m i"
  shows "bpi_drain c m \<lparr>bpi_bitmap = bh_bitmap m, bpi_current = i\<rparr> =
    map int (take c (filter (alloc_bit m) [Suc i..<nat (bh_page_count m)]))"
  using assms
proof (induction c arbitrary: i)
  case (Suc c)
  let ?n = "nat (bh_page_count m)"
  note nb = bpi_next_bit [OF Suc.prems]
  show ?case
  proof (cases rule: first_from_cases [where P = "alloc_bit m" and s = "Suc i" and n = ?n])
    case none
    then show ?thesis using nb filter_upt_first(1) [of "alloc_bit m" "Suc i" ?n] by (simp add: bpi_has_next_def)
  next
    case (some j)
    with Suc.IH [of j] nb filter_upt_first(2) [OF some(1)] show ?thesis
      by (simp add: bpi_has_next_def bpi_next_def Let_def)
  qed
qed simp

subsection \<open>Flushing all pages of a file\<close>

lemma walk_fetcher:
  assumes "distinct (map snd l)"
  shows "walk (fetcher fd) l (mem, found) =
    (\<lambda>p. if \<exists>k. (k, p) \<in> set l \<and> fid_file_desc k = fd then pin (mem p) else mem p,
     found @ map snd (filter (\<lambda>(k, p). fid_file_desc k = fd) l))"
  using assms
proof (induction l arbitrary: mem found)
  case (Cons kp l)
  obtain k p where kp: "kp = (k, p)" by fastforce
  have np: "(k', p) \<notin> set l" for k' using Cons.prems kp by force
  have d: "distinct (map snd l)" using Cons.prems by simp
  show ?case
  proof (cases "fid_file_desc k = fd")
    case True
    then have "walk (fetcher fd) (kp # l) (mem, found) = walk (fetcher fd) l (mem(p := pin (mem p)), found @ [p])"
      by (simp add: kp fetcher_def)
    also have "\<dots> = (\<lambda>q. if \<exists>k. (k, q) \<in> set l \<and> fid_file_desc k = fd then pin ((mem(p := pin (mem p))) q) else (mem(p := pin (mem p))) q,
        (found @ [p]) @ map snd (filter (\<lambda>(k, p). fid_file_desc k = fd) l))"
      by (rule Cons.IH [OF d])
    finally show ?thesis using True np kp by (auto simp: fun_eq_iff)
  next
    case False
    then have "walk (fetcher fd) (kp # l) (mem, found) = walk (fetcher fd) l (mem, found)" by (auto simp: kp fetcher_def)
    also have "\<dots> = (\<lambda>q. if \<exists>k. (k, q) \<in> set l \<and> fid_file_desc k = fd then pin (mem q) else mem q,
        found @ map snd (filter (\<lambda>(k, p). fid_file_desc k = fd) l))" by (rule Cons.IH [OF d])
    finally show ?thesis using False kp by (auto simp: fun_eq_iff)
  qed
qed simp

definition file_frames :: "int \<Rightarrow> Sys \<Rightarrow> nat set" where
  "file_frames fd s = {p. \<exists>k. cached s k = Some p \<and> fid_file_desc k = fd}"

definition pin_all :: "nat set \<Rightarrow> Sys \<Rightarrow> Sys" where
  "pin_all ps s = s\<lparr>sy_mem := (\<lambda>p. if p \<in> ps then pin (sy_mem s p) else sy_mem s p)\<rparr>"

lemma fm_find_list_correct:
  assumes "fm_inv s"
  shows "\<exists>found. fm_find_list fd s = Some (found, pin_all (file_frames fd s) s) \<and> set found = file_frames fd s \<and> distinct found"
proof -
  obtain l where l: "lru_rep (sy_frames s) l" using fm_invD(1) [OF assms] by (auto simp: lru_ok_def)
  note dist = lru_rep_distinct [OF l]
  have lk: "cached s k = map_of l k" for k using lru_lookup_rep [OF l] by (simp add: cached_def)
  have mem: "(k, p) \<in> set l \<longleftrightarrow> cached s k = Some p" for k p using dist lk by simp
  have "inj_on snd (set l)" using mem fm_invD(5) [OF assms] by (auto simp: inj_on_def)
  then have dsnd: "distinct (map snd l)" using dist by (simp add: distinct_map)
  have ff: "file_frames fd s = snd ` set (filter (\<lambda>(k, p). fid_file_desc k = fd) l)"
    using mem by (force simp: file_frames_def)
  have "fm_find_list fd s = Some (map snd (filter (\<lambda>(k, p). fid_file_desc k = fd) l), pin_all (file_frames fd s) s)"
    using lru_foreach_refine [OF l, of "fetcher fd" "(sy_mem s, [])"]
    by (simp add: fm_find_list_def walk_fetcher [OF dsnd] pin_all_def file_frames_def mem)
  moreover have "distinct (map snd (filter (\<lambda>(k, p). fid_file_desc k = fd) l))" using dsnd by (simp add: distinct_map_filter)
  ultimately show ?thesis using ff by auto
qed

lemma pin_all_correct:
  assumes "bp_inv s" "ps \<inter> set (mp_frees (sy_alloc s)) = {}"
  shows "bp_inv (pin_all ps s)" "logical (pin_all ps s) = logical s" "cached (pin_all ps s) = cached s"
    "disk_page (pin_all ps s) = disk_page s" "same_env s (pin_all ps s)" "sy_alloc (pin_all ps s) = sy_alloc s"
proof -
  show f: "cached (pin_all ps s) = cached s" "sy_alloc (pin_all ps s) = sy_alloc s" "same_env s (pin_all ps s)"
    by (simp_all add: pin_all_def same_env_def)
  show d: "disk_page (pin_all ps s) = disk_page s" by (rule disk_page_cong) (simp_all add: pin_all_def)
  have "logical (pin_all ps s) k = logical s k" for k
    by (cases "cached s k") (simp_all add: logical_def f d, simp add: pin_all_def)
  then show "logical (pin_all ps s) = logical s" by blast
  have "good s k (sy_mem (pin_all ps s) p)" if "cached s k = Some p" for k p
    using bp_invD(3) [OF assms(1) that] good_pin by (simp add: pin_all_def)
  moreover have "idle (sy_mem (pin_all ps s) p)" if "p \<in> set (mp_frees (sy_alloc s))" for p
    using bp_invD(2) [OF assms(1) that] that assms(2) by (auto simp: pin_all_def)
  ultimately show "bp_inv (pin_all ps s)"
    using assms(1) f d good_cong [OF d] pool_at_cong [of "pin_all ps s" s]
    unfolding bp_inv_def by (simp add: same_env_def pin_all_def)
qed

lemma flush_ok:
  assumes "bp_inv s" "cached s k = Some p" "pool_at s b (fid_file_desc k)" "io_ok io"
  shows "\<exists>s'. flush_page_internal io b p s = Some (SUCCESS, s') \<and> wrote_back k p s SUCCESS s'"
proof -
  let ?sd = "upd_frame p mark_dirty s"
  have "good s k (mark_dirty (sy_mem s p))" using bp_invD(3) [OF assms(1,2)] by (auto simp: good_def frame_id_def)
  then have i: "bp_inv ?sd" using bp_inv_upd_frame [OF assms(1,2)] by blast
  have pd: "pool_at ?sd b (fid_file_desc k)" using assms(3) by (simp add: pool_at_def)
  obtain s' where s': "flush_page_internal io b p ?sd = Some (SUCCESS, s')" "wrote_back k p ?sd SUCCESS s'"
    using flush_dirty [OF i, of k p b io] pd assms(2,4) by (auto simp: io_ok_def)
  have cd: "clear_dirty (mark_dirty f) = clear_dirty f" for f by (simp add: clear_dirty_def mark_dirty_def)
  have "upd_frame p clear_dirty (write_file fd n q (tick ?sd)) = upd_frame p clear_dirty (write_file fd n q (tick s))" for fd n q
    by (simp add: upd_frame_def write_file_def tick_def cd split: option.split)
  then have "flush_page_internal io b p s = flush_page_internal io b p ?sd"
    using s'(1) assms(4) by (auto simp: flush_page_internal_def Let_def io_ok_def split: option.splits if_splits Option.bind_splits)
  moreover have "wrote_back k p s SUCCESS s'"
    using s'(2) logical_upd_same [OF bp_invD(1) [OF assms(1)] assms(2), of mark_dirty]
    by (simp add: wrote_back_def same_env_def cd)
  ultimately show ?thesis using s'(1) by auto
qed

text \<open>The loop over the frames of the file: each is written back once and is clean afterwards.\<close>

lemma flush_all_loop_correct:
  assumes "bp_inv s" "pool_at s b fd" "io_ok io" "set ps \<subseteq> file_frames fd s"
  shows "\<exists>s'. flush_all_loop io b ps s = Some (SUCCESS, s') \<and> bp_inv s' \<and> logical s' = logical s \<and> cached s' = cached s \<and>
    same_env s s' \<and> (\<forall>p. sy_mem s' p = (if p \<in> set ps then clear_dirty (sy_mem s p) else sy_mem s p))"
  using assms(1,2,4)
proof (induction ps arbitrary: s)
  case Nil
  then show ?case by (simp add: same_env_def)
next
  case (Cons p ps)
  obtain k where k: "cached s k = Some p" "fid_file_desc k = fd" using Cons.prems(3) by (auto simp: file_frames_def)
  obtain s1 where s1: "flush_page_internal io b p s = Some (SUCCESS, s1)" "wrote_back k p s SUCCESS s1"
    using flush_ok [OF Cons.prems(1) k(1) _ assms(3)] Cons.prems(2) k(2) by blast
  then have w: "bp_inv s1" "logical s1 = logical s" "same_env s s1" "cached s1 = cached s" "sy_mem s1 = (sy_mem s)(p := clear_dirty (sy_mem s p))"
    by (simp_all add: wrote_back_def)
  have "pool_at s1 b fd" using Cons.prems(2) w(3) by (simp add: same_env_def pool_at_def)
  moreover have "set ps \<subseteq> file_frames fd s1" using Cons.prems(3) w(4) by (simp add: file_frames_def)
  ultimately obtain s' where "flush_all_loop io b ps s1 = Some (SUCCESS, s')" "bp_inv s'" "logical s' = logical s1" "cached s' = cached s1"
    "same_env s1 s'" "\<forall>q. sy_mem s' q = (if q \<in> set ps then clear_dirty (sy_mem s1 q) else sy_mem s1 q)"
    using Cons.IH w(1) by blast
  then show ?case using s1(1) w by (auto simp: dbp_flush_page_def same_env_def clear_dirty_def)
qed

lemma flush_all_pages_correct:
  assumes "bp_inv s" "pool_at s b fd" "io_ok io"
  shows "\<exists>s'. flush_all_pages io b s = Some (SUCCESS, s') \<and> bp_inv s' \<and> logical s' = logical s \<and> cached s' = cached s \<and>
    (\<forall>p. sy_mem s' p = (if p \<in> file_frames fd s then clear_dirty (pin (sy_mem s p)) else sy_mem s p)) \<and>
    (\<forall>k. fid_file_desc k = fd \<longrightarrow> disk_page s' k = logical s k)"
proof -
  obtain pool where pool: "sy_pools s b = Some pool" "dbp_file_desc pool = fd" using assms(2) by (auto simp: pool_at_def)
  obtain found where fl: "fm_find_list fd s = Some (found, pin_all (file_frames fd s) s)" "set found = file_frames fd s"
    using fm_find_list_correct [OF bp_invD(1) [OF assms(1)]] by blast
  have "file_frames fd s \<inter> set (mp_frees (sy_alloc s)) = {}"
    using fm_invD(4) [OF bp_invD(1) [OF assms(1)]] by (auto simp: file_frames_def)
  note pa = pin_all_correct [OF assms(1) this]
  have "pool_at (pin_all (file_frames fd s) s) b fd" using assms(2) pa(5) by (simp add: same_env_def pool_at_def)
  moreover have "set found \<subseteq> file_frames fd (pin_all (file_frames fd s) s)" using fl(2) pa(3) by (simp add: file_frames_def)
  ultimately obtain s' where s': "flush_all_loop io b found (pin_all (file_frames fd s) s) = Some (SUCCESS, s')" "bp_inv s'"
    "logical s' = logical s" "cached s' = cached s"
    "\<forall>p. sy_mem s' p = (if p \<in> file_frames fd s then clear_dirty (sy_mem (pin_all (file_frames fd s) s) p) else sy_mem (pin_all (file_frames fd s) s) p)"
    using flush_all_loop_correct [OF pa(1) _ assms(3)] pa fl(2) by metis
  have mem: "sy_mem s' p = (if p \<in> file_frames fd s then clear_dirty (pin (sy_mem s p)) else sy_mem s p)" for p
    using s'(5) by (simp add: pin_all_def)
  have "disk_page s' k = logical s k" if "fid_file_desc k = fd" for k
  proof (cases "cached s k")
    case None
    then show ?thesis using s'(3,4) by (metis logical_def option.simps(4))
  next
    case (Some p)
    then have "\<not> fr_dirty (sy_mem s' p)" using mem that by (auto simp: file_frames_def)
    then have "disk_page s' k = Some (fr_page (sy_mem s' p))" using bp_invD(3) [OF s'(2), of k p] Some s'(4) by (simp add: good_def)
    then show ?thesis using s'(3,4) Some by (metis logical_def option.simps(5))
  qed
  then show ?thesis using pool fl(1) s' mem by (simp add: flush_all_pages_def)
qed

end
