(* ===== verification/BufferPoolManager.thy ===== *)
theory BufferPoolManager
  imports PageAlloc
begin

section \<open>Opening, closing and creating files (DiskBufferPool::open_file/close_file, BufferPoolManager)\<close>

text \<open>
  The manager keeps the open pools by file name and by descriptor. \<open>DiskBufferPool::close_file\<close> calls
  the manager's \<open>close_file\<close>, which deletes the pool, whose destructor calls \<open>close_file\<close> again: the
  nesting ends because the descriptor is then -1, or because the manager no longer knows the name.
  The two are modelled with that nesting unfolded: \<open>dbp_close_core\<close> is the body of
  \<open>DiskBufferPool::close_file\<close> up to the call of the manager.
\<close>

subsection \<open>Operations\<close>

definition lowest_fd :: "(int \<times> string) list \<Rightarrow> int" where
  "lowest_fd fds =
     (case find (\<lambda>i. int i \<notin> set (map fst fds)) [3..<4 + length fds] of Some i \<Rightarrow> int i | None \<Rightarrow> - 1)"

definition close_fd :: "int \<Rightarrow> Sys \<Rightarrow> Sys" where
  "close_fd fd s = s\<lparr>sy_fds := filter (\<lambda>e. fst e \<noteq> fd) (sy_fds s)\<rparr>"

definition upd_pool :: "nat \<Rightarrow> (DiskBufferPool \<Rightarrow> DiskBufferPool) \<Rightarrow> Sys \<Rightarrow> Sys" where
  "upd_pool b f s = s\<lparr>sy_pools := (sy_pools s)(b := map_option f (sy_pools s b))\<rparr>"

definition header_page :: Page where
  "header_page =
     (let m = write_i32 zero_mem 4 1; m = write_i32 m 0 1
      in zero_page\<lparr>pg_data := m(8 := m 8 OR 1)\<rparr>)"

definition bpm_create_file :: "io \<Rightarrow> string \<Rightarrow> Sys \<Rightarrow> RC \<times> Sys" where
  "bpm_create_file io name s =
     (if sy_disk s name \<noteq> None then (SCHEMA_DB_EXIST, s)
      else let s = s\<lparr>sy_disk := (sy_disk s)(name \<mapsto> [])\<rparr> in
        case io (sy_tick s) of
          IoOk \<Rightarrow> (SUCCESS, tick (s\<lparr>sy_disk := (sy_disk s)(name \<mapsto> [header_page])\<rparr>))
        | IoFail None \<Rightarrow> (IOERR_WRITE, tick s)
        | IoFail (Some q) \<Rightarrow> (IOERR_WRITE, tick (s\<lparr>sy_disk := (sy_disk s)(name \<mapsto> [q])\<rparr>)))"

definition dbp_open_file :: "io \<Rightarrow> nat \<Rightarrow> string \<Rightarrow> Sys \<Rightarrow> (RC \<times> Sys) option" where
  "dbp_open_file io b name s =
     (if sy_disk s name = None then Some (IOERR_ACCESS, s)
      else do {
        fd \<leftarrow> Some (lowest_fd (sy_fds s));
        s \<leftarrow> Some (s\<lparr>sy_fds := (fd, name) # sy_fds s\<rparr>);
        s \<leftarrow> Some (upd_pool b (\<lambda>pool. pool\<lparr>dbp_file_name := name, dbp_file_desc := fd\<rparr>) s);
        (h, s) \<leftarrow> allocate_frame io b BP_HEADER_PAGE s;
        s \<leftarrow> Some (upd_pool b (dbp_hdr_frame_update (\<lambda>_. h)) s);
        s \<leftarrow> Some (upd_frame h (fr_file_desc_update (\<lambda>_. fd)) s);
        (rc, s) \<leftarrow> load_page io b BP_HEADER_PAGE h s;
        if rc \<noteq> SUCCESS then do {
          (_, s) \<leftarrow> purge_frame io b BP_HEADER_PAGE h s;
          Some (rc, upd_pool b (dbp_file_desc_update (\<lambda>_. - 1)) (close_fd fd s))
        } else Some (SUCCESS, s)
      })"

definition dbp_close_core :: "io \<Rightarrow> nat \<Rightarrow> Sys \<Rightarrow> (RC \<times> Sys) option" where
  "dbp_close_core io b s = do {
     pool \<leftarrow> sy_pools s b;
     if dbp_file_desc pool < 0 then Some (SUCCESS, s)
     else do {
       s \<leftarrow> unpin_frame (dbp_hdr_frame pool) s;
       (rc, s) \<leftarrow> purge_all_pages io b s;
       if rc \<noteq> SUCCESS then Some (rc, s)
       else if map_of (sy_fds s) (dbp_file_desc pool) = None then Some (IOERR_CLOSE, s)
       else Some (SUCCESS, upd_pool b (dbp_file_desc_update (\<lambda>_. - 1)) (close_fd (dbp_file_desc pool) s))
     }
   }"

text \<open>Removing a pool from the two tables of the manager; \<^const>\<open>None\<close> is the failed assertion.\<close>

definition bpm_erase :: "string \<Rightarrow> nat \<Rightarrow> Sys \<Rightarrow> Sys option" where
  "bpm_erase name b s = do {
     pool \<leftarrow> sy_pools s b;
     fdp \<leftarrow> (if map_of (sy_fd_buffer_pools s) (dbp_file_desc pool) \<noteq> None
             then Some (filter (\<lambda>e. fst e \<noteq> dbp_file_desc pool) (sy_fd_buffer_pools s))
             else if b \<in> snd ` set (sy_fd_buffer_pools s)
             then Some (filter (\<lambda>e. snd e \<noteq> b) (sy_fd_buffer_pools s))
             else None);
     Some (s\<lparr>sy_fd_buffer_pools := fdp, sy_buffer_pools := filter (\<lambda>e. fst e \<noteq> name) (sy_buffer_pools s)\<rparr>)
   }"

definition delete_pool :: "nat \<Rightarrow> Sys \<Rightarrow> Sys" where
  "delete_pool b s = s\<lparr>sy_pools := (sy_pools s)(b := None)\<rparr>"

definition bpm_close_file :: "io \<Rightarrow> string \<Rightarrow> Sys \<Rightarrow> (RC \<times> Sys) option" where
  "bpm_close_file io name s =
     (case map_of (sy_buffer_pools s) name of
        None \<Rightarrow> Some (INTERNAL, s)
      | Some b \<Rightarrow> do {
          s \<leftarrow> bpm_erase name b s;
          (_, s) \<leftarrow> dbp_close_core io b s;
          Some (SUCCESS, delete_pool b s)
        })"

definition dbp_close_file :: "io \<Rightarrow> nat \<Rightarrow> Sys \<Rightarrow> (RC \<times> Sys) option" where
  "dbp_close_file io b s = do {
     pool \<leftarrow> sy_pools s b;
     if dbp_file_desc pool < 0 then Some (SUCCESS, s)
     else do {
       (rc, s) \<leftarrow> dbp_close_core io b s;
       if rc \<noteq> SUCCESS then Some (rc, s)
       else do {
         (_, s) \<leftarrow> bpm_close_file io (dbp_file_name pool) s;
         Some (SUCCESS, s)
       }
     }
   }"

definition bpm_open_file :: "io \<Rightarrow> string \<Rightarrow> Sys \<Rightarrow> (RC \<times> nat option \<times> Sys) option" where
  "bpm_open_file io name s =
     (if map_of (sy_buffer_pools s) name \<noteq> None then Some (BUFFERPOOL_OPEN, None, s)
      else do {
        b \<leftarrow> Some (sy_pool_brk s);
        s \<leftarrow> Some (s\<lparr>sy_pools := (sy_pools s)(b \<mapsto> \<lparr>dbp_file_name = [], dbp_file_desc = - 1, dbp_hdr_frame = 0\<rparr>), sy_pool_brk := Suc b\<rparr>);
        (rc, s) \<leftarrow> dbp_open_file io b name s;
        if rc \<noteq> SUCCESS then Some (rc, None, delete_pool b s)
        else do {
          pool \<leftarrow> sy_pools s b;
          Some (SUCCESS, Some b, s\<lparr>sy_buffer_pools := (name, b) # sy_buffer_pools s,
            sy_fd_buffer_pools := (if map_of (sy_fd_buffer_pools s) (dbp_file_desc pool) = None
                                   then (dbp_file_desc pool, b) # sy_fd_buffer_pools s else sy_fd_buffer_pools s)\<rparr>)
        }
      })"

text \<open>The state after the constructor of the manager, with the files that exist.\<close>

definition bpm_start :: "int \<Rightarrow> (string \<Rightarrow> Page list option) \<Rightarrow> Sys" where
  "bpm_start memory_size disk =
     (let memory_size = (if memory_size \<le> 0 then 20 * 128 * 8192 else memory_size);
          pool_num = max (memory_size div 8192 div 128) 1
      in snd (fm_init pool_num
           \<lparr>sy_mem = (\<lambda>_. new_frame), sy_frames = lru_empty, sy_alloc = mp_new, sy_disk = disk, sy_fds = [], sy_tick = 0,
            sy_pools = (\<lambda>_. None), sy_pool_brk = 0, sy_buffer_pools = [], sy_fd_buffer_pools = []\<rparr>))"

subsection \<open>The start state and new files\<close>

lemma mp_extend_n_correct:
  assumes "mp_inv p" "mp_dynamic p"
  shows "\<exists>p'. mp_extend_n n p = (0, p') \<and> mp_inv p' \<and> mp_dynamic p' \<and> mp_used p' = mp_used p \<and>
    length (mp_frees p') = length (mp_frees p) + n * mp_item_num p"
  using assms
proof (induction n arbitrary: p)
  case (Suc n)
  have "fst (mp_extend p) = 0" using Suc.prems by (simp add: mp_extend_def)
  moreover have "mp_inv (snd (mp_extend p))" by (rule mp_inv_extend [OF Suc.prems(1)])
  moreover have "mp_dynamic (snd (mp_extend p))" "mp_used (snd (mp_extend p)) = mp_used p" "mp_item_num (snd (mp_extend p)) = mp_item_num p"
    "length (mp_frees (snd (mp_extend p))) = length (mp_frees p) + mp_item_num p"
    using Suc.prems by (simp_all add: mp_extend_def)
  ultimately show ?case using Suc.IH [of "snd (mp_extend p)"] by (cases "mp_extend p") auto
qed simp

lemma bpm_start_alloc:
  "\<exists>a. mp_inv a \<and> \<not> mp_dynamic a \<and> mp_used a = {} \<and> mp_frees a \<noteq> [] \<and>
     bpm_start sz disk = \<lparr>sy_mem = (\<lambda>_. new_frame), sy_frames = lru_empty, sy_alloc = a, sy_disk = disk, sy_fds = [], sy_tick = 0,
       sy_pools = (\<lambda>_. None), sy_pool_brk = 0, sy_buffer_pools = [], sy_fd_buffer_pools = []\<rparr>"
proof -
  define k where "k = max ((if sz \<le> 0 then 20 * 128 * 8192 else sz) div 8192 div 128) (1 :: int)"
  have k: "0 < k" by (simp add: k_def)
  have "mp_inv (mp_new\<lparr>mp_item_num := nat 128, mp_dynamic := True\<rparr>)" by (simp add: mp_inv_def mp_new_def)
  then obtain p where p: "mp_extend_n (nat k) (mp_new\<lparr>mp_item_num := nat 128, mp_dynamic := True\<rparr>) = (0, p)" "mp_inv p" "mp_used p = {}"
    "length (mp_frees p) = nat k * 128"
    using mp_extend_n_correct [of "mp_new\<lparr>mp_item_num := nat 128, mp_dynamic := True\<rparr>" "nat k"] by (auto simp: mp_new_def)
  have "mp_frees p \<noteq> []" using p(4) k by auto
  moreover have "mp_init False k 128 mp_new = (0, p\<lparr>mp_dynamic := False\<rparr>)" using p(1) k by (simp add: mp_init_def mp_new_def)
  moreover have "mp_inv (p\<lparr>mp_dynamic := False\<rparr>)" using p(2) by (simp add: mp_inv_def)
  ultimately show ?thesis using p(3)
    by (intro exI [of _ "p\<lparr>mp_dynamic := False\<rparr>"]) (simp add: bpm_start_def fm_init_def Let_def k_def [symmetric])
qed

lemma cached_lru_empty [simp]: "lru_lookup lru_empty = Map.empty"
  by (simp add: lru_lookup_def lru_empty_def fun_eq_iff)

lemma bpm_start_inv: "bp_inv (bpm_start sz disk)" "frame_available io fd (bpm_start sz disk)"
proof -
  obtain a where a: "mp_inv a" "\<not> mp_dynamic a" "mp_used a = {}" "mp_frees a \<noteq> []"
    "bpm_start sz disk = \<lparr>sy_mem = (\<lambda>_. new_frame), sy_frames = lru_empty, sy_alloc = a, sy_disk = disk, sy_fds = [], sy_tick = 0,
       sy_pools = (\<lambda>_. None), sy_pool_brk = 0, sy_buffer_pools = [], sy_fd_buffer_pools = []\<rparr>"
    using bpm_start_alloc by blast
  have "lru_ok lru_empty" using lru_rep_empty by (auto simp: lru_ok_def)
  moreover have c: "cached (bpm_start sz disk) = Map.empty" using a(5) by (simp add: cached_def)
  ultimately have "fm_inv (bpm_start sz disk)" using a by (simp add: fm_inv_def)
  moreover have "disk_page (bpm_start sz disk) k = None" for k using a(5) by (simp add: disk_page_def file_of_def)
  moreover have "idle new_frame" by (simp add: idle_def new_frame_def unlatched_def)
  ultimately show "bp_inv (bpm_start sz disk)" using a(5) c by (simp add: bp_inv_def)
  show "frame_available io fd (bpm_start sz disk)" using a(4,5) by (simp add: frame_available_def)
qed

text \<open>A file of pages that can be opened: numbered pages behind a consistent header.\<close>

definition file_ok :: "Page list \<Rightarrow> bool" where
  "file_ok ps \<longleftrightarrow> ps \<noteq> [] \<and> hdr_ok (pg_data (ps ! 0)) (length ps) \<and> (\<forall>i < length ps. pg_num (ps ! i) = int i)"

lemma header_page_data:
  "bh_page_count (pg_data header_page) = 1" "bh_allocated (pg_data header_page) = 1"
  "alloc_bit (pg_data header_page) 0" "pg_num header_page = 0"
  by (simp_all add: header_page_def bh_page_count_def bh_allocated_def alloc_bit_def bit_at_def bit_or_iff zero_page_def Let_def fits_i32_def)

lemma header_page_ok: "file_ok [header_page]"
proof -
  have "allocated_pages (pg_data header_page) = {0}" using header_page_data by (auto simp: allocated_pages_def)
  then show ?thesis using header_page_data by (simp add: file_ok_def hdr_ok_def MAX_PAGE_NUM_eq)
qed

subsection \<open>Opening a file\<close>

text \<open>What an operation on the file \<open>fd\<close> of pool \<open>b\<close> leaves to the other files: pages, held frames, sizes, pools.\<close>

definition other_files_kept :: "nat \<Rightarrow> int \<Rightarrow> Sys \<Rightarrow> Sys \<Rightarrow> bool" where
  "other_files_kept b fd s s' \<longleftrightarrow>
     (\<forall>k. fid_file_desc k \<noteq> fd \<longrightarrow> logical s' k = logical s k \<and> (disk_page s' k = None \<longleftrightarrow> disk_page s k = None) \<and>
        (\<forall>p. cached s k = Some p \<and> fr_pin (sy_mem s p) > 0 \<longrightarrow> cached s' k = Some p \<and> sy_mem s' p = sy_mem s p)) \<and>
     (\<forall>b'. b' \<noteq> b \<longrightarrow> sy_pools s' b' = sy_pools s b')"

lemma pool_inv_other:
  assumes "pool_inv s b' fd' h n" "other_files_kept b fd s s'" "fd' \<noteq> fd" "b' \<noteq> b"
  shows "pool_inv s' b' fd' h n"
proof -
  note pd = pool_invD [OF assms(1)]
  have "cached s' (FrameId_of fd' 0) = Some h" "sy_mem s' h = sy_mem s h" "sy_pools s' b' = sy_pools s b'"
    using assms(2-4) pd(2,3) unfolding other_files_kept_def by (metis FrameId_of_simps(1))+
  moreover have "disk_page s' (FrameId_of fd' i) = None \<longleftrightarrow> disk_page s (FrameId_of fd' i) = None" for i
    using assms(2,3) by (simp add: other_files_kept_def)
  ultimately show ?thesis using assms(1) by (simp add: pool_inv_def)
qed

lemma lowest_fd_fresh: "lowest_fd fds \<notin> fst ` set fds" "3 \<le> lowest_fd fds"
proof -
  have "\<exists>i. find (\<lambda>i. int i \<notin> set (map fst fds)) [3..<4 + length fds] = Some i"
  proof (rule ccontr)
    assume "\<nexists>i. find (\<lambda>i. int i \<notin> set (map fst fds)) [3..<4 + length fds] = Some i"
    then have "int ` {3..<4 + length fds} \<subseteq> fst ` set fds"
      by (auto simp: find_None_iff)
    then have "card (int ` {3..<4 + length fds}) \<le> card (fst ` set fds)" by (rule card_mono [rotated]) simp
    also have "\<dots> \<le> length fds" by (metis card_image_le card_length le_trans List.finite_set)
    finally show False by (simp add: card_image)
  qed
  then obtain i where i: "find (\<lambda>i. int i \<notin> set (map fst fds)) [3..<4 + length fds] = Some i" by blast
  then have "int i \<notin> set (map fst fds)" "3 \<le> i" using find_upt_Some [OF i] by simp_all
  then show "lowest_fd fds \<notin> fst ` set fds" "3 \<le> lowest_fd fds" using i by (simp_all add: lowest_fd_def)
qed

lemma upd_pool_simps [simp]:
  "sy_mem (upd_pool b f s) = sy_mem s" "sy_frames (upd_pool b f s) = sy_frames s" "sy_alloc (upd_pool b f s) = sy_alloc s"
  "sy_disk (upd_pool b f s) = sy_disk s" "sy_fds (upd_pool b f s) = sy_fds s" "sy_tick (upd_pool b f s) = sy_tick s"
  "sy_pool_brk (upd_pool b f s) = sy_pool_brk s" "sy_buffer_pools (upd_pool b f s) = sy_buffer_pools s"
  "sy_fd_buffer_pools (upd_pool b f s) = sy_fd_buffer_pools s" "cached (upd_pool b f s) = cached s"
  "fm_inv (upd_pool b f s) = fm_inv s" "disk_page (upd_pool b f s) = disk_page s" "logical (upd_pool b f s) = logical s"
proof -
  show d: "disk_page (upd_pool b f s) = disk_page s" by (rule disk_page_cong) (simp_all add: upd_pool_def)
  show c: "cached (upd_pool b f s) = cached s" by (simp add: upd_pool_def cached_def)
  show "logical (upd_pool b f s) = logical s" by (rule logical_cong [OF c _ d]) (simp add: upd_pool_def)
  show "fm_inv (upd_pool b f s) = fm_inv s" using c by (simp add: fm_inv_def) (simp add: upd_pool_def)
qed (simp_all add: upd_pool_def)

lemma bp_inv_upd_pool:
  assumes "bp_inv s" "b \<notin> snd ` set (sy_fd_buffer_pools s)"
  shows "bp_inv (upd_pool b f s)"
proof -
  have "pool_at (upd_pool b f s) b' fd" if "map_of (sy_fd_buffer_pools s) fd = Some b'" for b' fd
  proof -
    have "b' \<in> snd ` set (sy_fd_buffer_pools s)" using map_of_SomeD [OF that] by force
    then have "b' \<noteq> b" using assms(2) by auto
    then show ?thesis using bp_invD(6) [OF assms(1) that] by (simp add: pool_at_def upd_pool_def)
  qed
  then show ?thesis using assms(1) good_cong [of "upd_pool b f s" s] unfolding bp_inv_def by simp
qed

lemma bp_inv_open_fd:
  assumes "bp_inv s" "fd \<notin> fst ` set (sy_fds s)" "name \<notin> snd ` set (sy_fds s)" "sy_disk s name = Some ps" "file_ok ps"
  defines "s' \<equiv> s\<lparr>sy_fds := (fd, name) # sy_fds s\<rparr>"
  shows "bp_inv s'" "cached s' = cached s" "\<And>k. fid_file_desc k = fd \<Longrightarrow> cached s k = None"
    "\<And>i. disk_page s' (FrameId_of fd i) = (if 0 \<le> i \<and> i < int (length ps) then Some (ps ! nat i) else None)"
    "\<And>k. fid_file_desc k \<noteq> fd \<Longrightarrow> disk_page s' k = disk_page s k"
proof -
  show c: "cached s' = cached s" by (simp add: s'_def cached_def)
  show new: "disk_page s' (FrameId_of fd i) = (if 0 \<le> i \<and> i < int (length ps) then Some (ps ! nat i) else None)" for i
    using assms(4) by (simp add: disk_page_def file_of_def s'_def)
  show old: "\<And>k. fid_file_desc k \<noteq> fd \<Longrightarrow> disk_page s' k = disk_page s k"
    by (simp add: disk_page_def file_of_def s'_def)
  have none: "disk_page s k = None" if "fid_file_desc k = fd" for k :: FrameId
  proof -
    have "map_of (sy_fds s) fd = None" using assms(2) by (simp add: map_of_eq_None_iff)
    then show ?thesis using that by (simp add: disk_page_def file_of_def)
  qed
  show nc: "\<And>k. fid_file_desc k = fd \<Longrightarrow> cached s k = None"
  proof -
    fix k :: FrameId assume "fid_file_desc k = fd"
    then show "cached s k = None" using none [of k] bp_invD(3) [OF assms(1), of k] by (cases "cached s k") (auto simp: good_def)
  qed
  have "good s' k (sy_mem s p)" if "cached s k = Some p" for k p
  proof -
    have "fid_file_desc k \<noteq> fd" using that nc [of k] by auto
    then show ?thesis using bp_invD(3) [OF assms(1) that] old [of k] by (simp add: good_def)
  qed
  moreover have "pg_num pg = fid_page_num k" if "disk_page s' k = Some pg" "cached s k = None" for k pg
  proof (cases "fid_file_desc k = fd")
    case True
    then have "k = FrameId_of fd (fid_page_num k)" by (intro FrameId_eqI) simp_all
    then show ?thesis using that(1) new [of "fid_page_num k"] assms(5) by (auto simp: file_ok_def split: if_splits)
  next
    case False
    then show ?thesis using that old bp_invD(4) [OF assms(1)] by simp
  qed
  moreover have "pool_at s' = pool_at s" by (rule pool_at_cong) (simp add: s'_def)
  moreover have "fm_inv s' = fm_inv s" using c by (simp add: fm_inv_def) (simp add: s'_def)
  ultimately show "bp_inv s'" using assms(1,3) c unfolding bp_inv_def by (simp add: s'_def)
qed

lemma load_page_upd_pool:
  assumes "\<And>pool. dbp_file_desc (f pool) = dbp_file_desc pool"
  shows "load_page io b pn p (upd_frame q g (upd_pool b f s)) =
    map_option (\<lambda>(rc, s). (rc, upd_pool b f s)) (load_page io b pn p (upd_frame q g s))"
proof -
  have "upd_frame q g (upd_pool b f s) = upd_pool b f (upd_frame q g s)" for q g s
    by (simp add: upd_frame_def upd_pool_def)
  moreover have "tick (upd_pool b f s) = upd_pool b f (tick s)" for s by (simp add: tick_def upd_pool_def)
  moreover have "file_of (upd_pool b f s) = file_of s" for s by (simp add: file_of_def fun_eq_iff)
  moreover have "sy_pools (upd_pool b f s) b = map_option f (sy_pools s b)" for s by (simp add: upd_pool_def)
  ultimately show ?thesis using assms
    by (cases "sy_pools s b") (simp_all add: load_page_def split: option.split io_result.split)
qed

lemma open_file_correct:
  assumes "bp_inv s" "sy_disk s name = Some ps" "file_ok ps" "name \<notin> snd ` set (sy_fds s)" "sy_pools s b = Some pool0"
    "b \<notin> snd ` set (sy_fd_buffer_pools s)" "io_ok io" "frame_available io (lowest_fd (sy_fds s)) s"
  defines "fd \<equiv> lowest_fd (sy_fds s)"
  shows "\<exists>h s'. dbp_open_file io b name s = Some (SUCCESS, s') \<and> bp_inv s' \<and> pool_inv s' b fd h (length ps) \<and>
    map_of (sy_fds s') fd = Some name \<and> fr_pin (sy_mem s' h) = 1 \<and> (\<forall>i. i \<noteq> 0 \<longrightarrow> cached s' (FrameId_of fd i) = None) \<and>
    (\<forall>i < length ps. logical s' (FrameId_of fd (int i)) = Some (ps ! i)) \<and> sy_fd_buffer_pools s' = sy_fd_buffer_pools s \<and>
    sy_fds s' = (fd, name) # sy_fds s \<and> sy_buffer_pools s' = sy_buffer_pools s \<and> sy_pool_brk s' = sy_pool_brk s \<and>
    mp_size (sy_alloc s') = mp_size (sy_alloc s) \<and> other_files_kept b fd s s'"
proof -
  let ?f1 = "\<lambda>pool. pool\<lparr>dbp_file_name := name, dbp_file_desc := fd\<rparr>"
  define s0 where "s0 = s\<lparr>sy_fds := (fd, name) # sy_fds s\<rparr>"
  have fresh: "fd \<notin> fst ` set (sy_fds s)" using lowest_fd_fresh by (simp add: fd_def)
  note o = bp_inv_open_fd [OF assms(1) fresh assms(4,2,3), folded s0_def]
  define s1 where "s1 = upd_pool b ?f1 s0"
  have i1: "bp_inv s1" unfolding s1_def by (rule bp_inv_upd_pool [OF o(1)]) (simp add: s0_def assms(6))
  have c1: "cached s1 = cached s" using o(2) by (simp add: s1_def)
  have pool1: "pool_at s1 b fd" using assms(5) by (simp add: pool_at_def s1_def upd_pool_def s0_def)
  have "frame_available io fd s1"
    using assms(8) c1 by (simp add: frame_available_def flushable_def fd_def) (simp add: s1_def s0_def)
  moreover have nc: "cached s1 (FrameId_of fd 0) = None" using c1 o(3) by simp
  ultimately obtain h s2 where af: "allocate_frame io b 0 s1 = Some (h, s2)"
    using allocate_frame_returns [OF i1 pool1] by fastforce
  obtain sa qs where sa: "bp_inv sa" "bg s1 sa" "cached sa (FrameId_of fd 0) = None" "mp_frees (sy_alloc sa) = h # qs"
    "fm_alloc fd 0 sa = Some (Some h, s2)"
    using allocate_frame_correct [OF af i1 pool1 nc] by (auto simp: alloc_post_def)
  have poola: "pool_at sa b fd" using pool1 bg_pool_at [OF sa(2)] by simp
  note a = acquire_frame [OF sa(1,3,4) refl sa(5)]
  have np: "length ps > 0" using assms(3) by (simp add: file_ok_def)
  have dk0: "disk_page sa (FrameId_of fd i) = None \<longleftrightarrow> \<not> (0 \<le> i \<and> i < int (length ps))" for i
    using sa(2) o(4) by (simp add: bg_def s1_def)
  then have "disk_page sa (FrameId_of fd 0) \<noteq> None" using np by simp
  then have "file_of s2 fd \<noteq> None" using a(13) by (auto simp: disk_page_def split: option.splits)
  moreover have pool2: "pool_at s2 b fd" using poola a(7) by (simp add: same_env_def pool_at_def)
  moreover have "disk_page s2 (FrameId_of fd 0) \<noteq> None" using dk0 [of 0] np a(6) by simp
  ultimately obtain s3 where ld: "load_page io b 0 h (upd_frame h (fr_file_desc_update (\<lambda>_. fd)) s2) = Some (SUCCESS, s3)"
    using assms(7) by (auto simp: load_page_def pool_at_def io_ok_def disk_page_def split: option.splits if_splits)
  note li = load_installs [OF sa(1,3,4) refl sa(5) poola ld]
  define s4 where "s4 = upd_pool b (dbp_hdr_frame_update (\<lambda>_. h)) s3"
  have run: "dbp_open_file io b name s = Some (SUCCESS, s4)"
    using assms(2) af ld by (simp add: dbp_open_file_def BP_HEADER_PAGE_def fd_def [symmetric] s0_def [symmetric] s1_def [symmetric]
        load_page_upd_pool s4_def)
  have env: "sy_fd_buffer_pools s3 = sy_fd_buffer_pools s" "sy_fds s3 = (fd, name) # sy_fds s" "sy_pools s3 = sy_pools s1"
    "sy_buffer_pools s3 = sy_buffer_pools s" "sy_pool_brk s3 = sy_pool_brk s" "mp_size (sy_alloc s3) = mp_size (sy_alloc s)"
    using li(5) sa(2) by (simp_all add: same_env_def bg_def s1_def s0_def)
  have i4: "bp_inv s4" unfolding s4_def by (rule bp_inv_upd_pool [OF li(1)]) (simp add: env(1) assms(6))
  have lg: "logical s4 = logical s1" using li(2) sa(2) by (simp add: s4_def bg_def)
  have lgi: "logical s1 (FrameId_of fd (int i)) = Some (ps ! i)" if "i < length ps" for i
    using that c1 o(3) [of "FrameId_of fd (int i)"] o(4) [of "int i"] by (simp add: logical_def s1_def)
  have c4: "cached s4 = (cached sa)(FrameId_of fd 0 \<mapsto> h)" using li(3) by (simp add: s4_def)
  have "logical s4 (FrameId_of fd 0) = Some (fr_page (sy_mem s4 h))" using c4 by (simp add: logical_def)
  then have hd: "fr_page (sy_mem s4 h) = ps ! 0" using lgi [of 0] np lg by simp
  have d4: "disk_page s4 = disk_page sa" "fr_pin (sy_mem s4 h) = 1" "unlatched (sy_mem s4 h)"
    using li(4,7,8) by (simp_all add: s4_def)
  have p4: "\<exists>pool. sy_pools s4 b = Some pool \<and> dbp_file_desc pool = fd \<and> dbp_hdr_frame pool = h"
    using assms(5) env(3) by (simp add: s4_def upd_pool_def s1_def s0_def)
  have "pool_inv s4 b fd h (length ps)"
    unfolding pool_inv_def using c4 d4 p4 dk0 hd assms(3) by (simp add: file_ok_def)
  moreover have "cached s4 (FrameId_of fd i) = None" if "i \<noteq> 0" for i
    using that c4 sa(2) c1 o(3) [of "FrameId_of fd i"] by (simp add: bg_def FrameId_of_def)
  moreover have "sy_fd_buffer_pools s4 = sy_fd_buffer_pools s" "map_of (sy_fds s4) fd = Some name" "fr_pin (sy_mem s4 h) = 1"
    "sy_fds s4 = (fd, name) # sy_fds s" "sy_buffer_pools s4 = sy_buffer_pools s" "sy_pool_brk s4 = sy_pool_brk s"
    "mp_size (sy_alloc s4) = mp_size (sy_alloc s)"
    using env li(7) by (simp_all add: s4_def)
  moreover have "other_files_kept b fd s s4"
  proof -
    have "logical s1 k = logical s k" "disk_page s1 k = disk_page s k" if "fid_file_desc k \<noteq> fd" for k
      using that o(5) c1 by (simp_all add: logical_def s1_def split: option.split) (simp_all add: s0_def)
    moreover have "cached s4 k = Some p \<and> sy_mem s4 p = sy_mem s p"
      if "fid_file_desc k \<noteq> fd" "cached s k = Some p" "fr_pin (sy_mem s p) > 0" for k p
    proof -
      have *: "cached sa k = Some p" "sy_mem sa p = sy_mem s p" using that sa(2) c1 by (simp_all add: bg_def s1_def s0_def)
      then have "p \<noteq> h" using a(12) by (auto simp: ran_def)
      then show ?thesis using * c4 li(6) that(1) by (auto simp: s4_def)
    qed
    moreover have "disk_page s4 k = None \<longleftrightarrow> disk_page s1 k = None" for k using sa(2) d4 by (simp add: bg_def)
    moreover have "sy_pools s4 b' = sy_pools s b'" if "b' \<noteq> b" for b' using that env(3) by (simp add: s4_def upd_pool_def s1_def s0_def)
    ultimately show ?thesis using lg unfolding other_files_kept_def by simp
  qed
  ultimately show ?thesis using run i4 lg lgi by (intro exI [of _ h] exI [of _ s4]) simp
qed

subsection \<open>Closing a file\<close>

lemma purge_frame_ok:
  assumes "bp_inv s" "cached s k = Some p" "fr_pin (sy_mem s p) = 1" "unlatched (sy_mem s p)"
    "pool_at s b (fid_file_desc k)" "io_ok io"
  shows "\<exists>s'. purge_frame io b (fid_page_num k) p s = Some (SUCCESS, s') \<and> bp_inv s' \<and> logical s' = logical s \<and>
    cached s' = (cached s)(k := None) \<and> same_env s s' \<and> (\<forall>q. q \<noteq> p \<longrightarrow> sy_mem s' q = sy_mem s q) \<and>
    mp_frees (sy_alloc s') \<noteq> [] \<and> (\<forall>k. disk_page s' k = None \<longleftrightarrow> disk_page s k = None)"
proof -
  obtain s1 where s1: "(if fr_dirty (sy_mem s p) then flush_page_internal io b p s else Some (SUCCESS, s)) = Some (SUCCESS, s1)"
    "wrote_back k p s SUCCESS s1"
    using flush_ok [OF assms(1,2,5,6)] wrote_back_clean [OF assms(1,2)] by (cases "fr_dirty (sy_mem s p)") auto
  then have w: "bp_inv s1" "logical s1 = logical s" "cached s1 = cached s" "same_env s s1" "sy_mem s1 = (sy_mem s)(p := clear_dirty (sy_mem s p))"
    "\<forall>k. disk_page s1 k = None \<longleftrightarrow> disk_page s k = None"
    by (simp_all add: wrote_back_def)
  obtain s2 where s2: "fm_free_internal k p s1 = Some (SUCCESS, s2)" "bp_inv s2" "logical s2 = logical s1" "same_env s1 s2"
    "cached s2 = (cached s1)(k := None)" "sy_mem s2 = (sy_mem s1)(p := (sy_mem s1 p)\<lparr>fr_pin := 0\<rparr>)" "mp_frees (sy_alloc s2) \<noteq> []"
    "disk_page s2 = disk_page s1"
    using bp_inv_free [OF w(1), of k p] w(3,5) assms(2-4) by auto
  have k: "FrameId_of (fid_file_desc k) (fid_page_num k) = k" by (simp add: FrameId_of_def)
  have pool: "\<exists>pool. sy_pools s1 b = Some pool \<and> dbp_file_desc pool = fid_file_desc k"
    using assms(5) w(4) by (simp add: pool_at_def same_env_def)
  have "purge_frame io b (fid_page_num k) p s = Some (SUCCESS, s2)"
    using assms(3) s1(1) s2(1) pool by (auto simp: purge_frame_def fm_free_def k)
  then show ?thesis using s2 w by (auto simp: same_env_def)
qed

lemma purge_all_loop_correct:
  assumes "bp_inv s" "pool_at s b fd" "io_ok io" "distinct ps" "set ps \<subseteq> file_frames fd s"
    "\<And>p. p \<in> set ps \<Longrightarrow> fr_pin (sy_mem s p) = 1 \<and> unlatched (sy_mem s p)"
  shows "\<exists>s'. purge_all_loop io b ps s = Some s' \<and> bp_inv s' \<and> logical s' = logical s \<and> same_env s s' \<and>
    (\<forall>k. cached s' k = (case cached s k of Some p \<Rightarrow> if p \<in> set ps then None else Some p | None \<Rightarrow> None)) \<and>
    (ps \<noteq> [] \<longrightarrow> mp_frees (sy_alloc s') \<noteq> []) \<and> (mp_frees (sy_alloc s) \<noteq> [] \<longrightarrow> mp_frees (sy_alloc s') \<noteq> []) \<and>
    (\<forall>q. q \<notin> set ps \<longrightarrow> sy_mem s' q = sy_mem s q) \<and> (\<forall>k. disk_page s' k = None \<longleftrightarrow> disk_page s k = None)"
  using assms(1,2,4-6)
proof (induction ps arbitrary: s)
  case Nil
  then show ?case by (auto simp: same_env_def split: option.split)
next
  case (Cons p ps)
  obtain k where k: "cached s k = Some p" "fid_file_desc k = fd" using Cons.prems(4) by (auto simp: file_frames_def)
  have num: "fr_page_num (sy_mem s p) = fid_page_num k" using bp_invD(3) [OF Cons.prems(1) k(1)] by (auto simp: good_def frame_id_def)
  obtain s1 where s1: "purge_frame io b (fid_page_num k) p s = Some (SUCCESS, s1)" "bp_inv s1" "logical s1 = logical s"
    "cached s1 = (cached s)(k := None)" "same_env s s1" "\<And>q. q \<noteq> p \<Longrightarrow> sy_mem s1 q = sy_mem s q" "mp_frees (sy_alloc s1) \<noteq> []"
    "\<forall>k. disk_page s1 k = None \<longleftrightarrow> disk_page s k = None"
    using purge_frame_ok [OF Cons.prems(1) k(1) _ _ _ assms(3), of b] Cons.prems(2) Cons.prems(5) [of p] k(2) by auto
  have only: "cached s k' = Some p \<Longrightarrow> k' = k" for k' using fm_invD(5) [OF bp_invD(1) [OF Cons.prems(1)] k(1)] .
  have sub: "set ps \<subseteq> file_frames fd s1"
  proof
    fix q assume q: "q \<in> set ps"
    then obtain k' where "cached s k' = Some q" "fid_file_desc k' = fd" using Cons.prems(4) by (auto simp: file_frames_def)
    moreover have "q \<noteq> p" using q Cons.prems(3) by auto
    ultimately have "cached s1 k' = Some q" using s1(4) k(1) by auto
    then show "q \<in> file_frames fd s1" using \<open>fid_file_desc k' = fd\<close> by (auto simp: file_frames_def)
  qed
  have "pool_at s1 b fd" using Cons.prems(2) s1(5) by (simp add: pool_at_def same_env_def)
  moreover have "fr_pin (sy_mem s1 q) = 1 \<and> unlatched (sy_mem s1 q)" if "q \<in> set ps" for q
  proof -
    have "q \<noteq> p" using that Cons.prems(3) by auto
    then show ?thesis using Cons.prems(5) [of q] s1(6) that by simp
  qed
  ultimately obtain s' where s': "purge_all_loop io b ps s1 = Some s'" "bp_inv s'" "logical s' = logical s1" "same_env s1 s'"
    "\<forall>k. cached s' k = (case cached s1 k of Some p \<Rightarrow> if p \<in> set ps then None else Some p | None \<Rightarrow> None)"
    "mp_frees (sy_alloc s') \<noteq> []" "\<forall>q. q \<notin> set ps \<longrightarrow> sy_mem s' q = sy_mem s1 q"
    "\<forall>k. disk_page s' k = None \<longleftrightarrow> disk_page s1 k = None"
    using s1(7) Cons.IH [OF s1(2) _ _ sub] Cons.prems(3) by fastforce
  have "cached s' k' = (case cached s k' of Some q \<Rightarrow> if q \<in> set (p # ps) then None else Some q | None \<Rightarrow> None)" for k'
  proof (cases "k' = k")
    case True
    then show ?thesis using s'(5) s1(4) k(1) by simp
  next
    case False
    then have "cached s k' \<noteq> Some p" using only by blast
    then show ?thesis using s'(5) s1(4) False by (cases "cached s k'") auto
  qed
  then show ?case using s1 s' num by (simp add: same_env_def)
qed

lemma map_of_filter_key: "map_of (filter (\<lambda>e. fst e \<noteq> k) xs) = (map_of xs)(k := None)"
  by (induction xs) (auto simp: fun_eq_iff)

lemma bp_inv_close_fd:
  assumes "bp_inv s" "\<And>k. fid_file_desc k = fd \<Longrightarrow> cached s k = None"
  shows "bp_inv (close_fd fd s)" "cached (close_fd fd s) = cached s"
    "\<And>k. fid_file_desc k \<noteq> fd \<Longrightarrow> logical (close_fd fd s) k = logical s k"
    "\<And>k. fid_file_desc k \<noteq> fd \<Longrightarrow> disk_page (close_fd fd s) k = disk_page s k"
proof -
  show c: "cached (close_fd fd s) = cached s" by (simp add: close_fd_def cached_def)
  have d: "disk_page (close_fd fd s) k = (if fid_file_desc k = fd then None else disk_page s k)" for k
    by (simp add: disk_page_def file_of_def close_fd_def map_of_filter_key)
  then show "\<And>k. fid_file_desc k \<noteq> fd \<Longrightarrow> disk_page (close_fd fd s) k = disk_page s k" by simp
  show "\<And>k. fid_file_desc k \<noteq> fd \<Longrightarrow> logical (close_fd fd s) k = logical s k"
    using c d by (simp add: logical_def split: option.split) (simp add: close_fd_def)
  have "good (close_fd fd s) k (sy_mem s p)" if "cached s k = Some p" for k p
  proof -
    have "fid_file_desc k \<noteq> fd" using that assms(2) by fastforce
    then show ?thesis using bp_invD(3) [OF assms(1) that] d by (simp add: good_def)
  qed
  moreover have "pg_num pg = fid_page_num k" if "disk_page (close_fd fd s) k = Some pg" "cached s k = None" for k pg
    using that d bp_invD(4) [OF assms(1), of k pg] by (simp split: if_splits)
  moreover have "pool_at (close_fd fd s) = pool_at s" by (rule pool_at_cong) (simp add: close_fd_def)
  moreover have "fm_inv (close_fd fd s) = fm_inv s" using c by (simp add: fm_inv_def) (simp add: close_fd_def)
  moreover have "distinct (map snd (sy_fds (close_fd fd s)))"
    using bp_invD(5) [OF assms(1)] by (simp add: close_fd_def distinct_map_filter)
  ultimately show "bp_inv (close_fd fd s)" using assms(1) c unfolding bp_inv_def by (simp add: close_fd_def)
qed

text \<open>
  Closing a file whose pages nobody holds: everything is written, no frame of the file remains, and
  the file on disk is what the pool presented.
\<close>

lemma close_core_correct:
  assumes "bp_inv s" "pool_inv s b fd h n" "0 \<le> fd" "fr_pin (sy_mem s h) = 1"
    "\<And>i p. i \<noteq> 0 \<Longrightarrow> cached s (FrameId_of fd i) = Some p \<Longrightarrow> fr_pin (sy_mem s p) = 0"
    "io_ok io" "map_of (sy_fds s) fd = Some name" "b \<notin> snd ` set (sy_fd_buffer_pools s)"
  shows "\<exists>s' ps. dbp_close_core io b s = Some (SUCCESS, s') \<and> bp_inv s' \<and> file_frames fd s' = {} \<and>
    sy_fds s' = filter (\<lambda>e. fst e \<noteq> fd) (sy_fds s) \<and> mp_frees (sy_alloc s') \<noteq> [] \<and>
    sy_fd_buffer_pools s' = sy_fd_buffer_pools s \<and> sy_buffer_pools s' = sy_buffer_pools s \<and> sy_pool_brk s' = sy_pool_brk s \<and>
    mp_size (sy_alloc s') = mp_size (sy_alloc s) \<and> other_files_kept b fd s s' \<and> sy_disk s' name = Some ps \<and> file_ok ps \<and> length ps = n \<and>
    (\<forall>i < n. logical s (FrameId_of fd (int i)) = Some (ps ! i))"
proof -
  note pd = pool_invD [OF assms(2)]
  obtain pool where pool: "sy_pools s b = Some pool" "dbp_file_desc pool = fd" "dbp_hdr_frame pool = h" using pd(7) by blast
  obtain s1 where s1: "dbp_unpin_page h s = Some (SUCCESS, s1)" "s1 = upd_frame h (\<lambda>f. f\<lparr>fr_pin := fr_pin f - 1\<rparr>) s" "bp_inv s1"
    "logical s1 = logical s"
    using unpin_page_correct [OF assms(1) pd(2,3,4)] by blast
  have pool1: "pool_at s1 b fd" using pd(1) s1(2) by (simp add: pool_at_def)
  have zero: "fr_pin (sy_mem s1 p) = 0" if "p \<in> file_frames fd s1" for p
  proof -
    have "cached s1 = cached s" using s1(2) by simp
    then have "p \<in> file_frames fd s" using that by (simp add: file_frames_def)
    then obtain k where k: "cached s k = Some p" "fid_file_desc k = fd" by (auto simp: file_frames_def)
    then have kf: "k = FrameId_of fd (fid_page_num k)" by (intro FrameId_eqI) simp_all
    show ?thesis
    proof (cases "p = h")
      case True
      then show ?thesis using assms(4) s1(2) by simp
    next
      case False
      then have "fid_page_num k \<noteq> 0" using kf k(1) pd(2) by (metis option.inject)
      then show ?thesis using assms(5) kf k(1) s1(2) False by auto
    qed
  qed
  obtain found where found: "fm_find_list fd s1 = Some (found, pin_all (file_frames fd s1) s1)" "set found = file_frames fd s1" "distinct found"
    using fm_find_list_correct [OF bp_invD(1) [OF s1(3)]] by blast
  let ?s2 = "pin_all (file_frames fd s1) s1"
  have "file_frames fd s1 \<inter> set (mp_frees (sy_alloc s1)) = {}"
    using fm_invD(4) [OF bp_invD(1) [OF s1(3)]] by (auto simp: file_frames_def)
  note pa = pin_all_correct [OF s1(3) this]
  have "pool_at ?s2 b fd" using pool1 pa(5) by (simp add: pool_at_def same_env_def)
  moreover have "set found \<subseteq> file_frames fd ?s2" using found(2) pa(3) by (simp add: file_frames_def)
  moreover have "fr_pin (sy_mem ?s2 p) = 1 \<and> unlatched (sy_mem ?s2 p)" if "p \<in> set found" for p
  proof -
    have p: "p \<in> file_frames fd s1" using that found(2) by simp
    then obtain k where "cached s1 k = Some p" by (auto simp: file_frames_def)
    then have "unlatched (sy_mem s1 p)" using bp_invD(3) [OF s1(3)] zero [OF p] by (auto simp: good_def)
    then show ?thesis using zero [OF p] p by (simp add: pin_all_def)
  qed
  ultimately have ex3: "\<exists>s3. purge_all_loop io b found ?s2 = Some s3 \<and> bp_inv s3 \<and> logical s3 = logical ?s2 \<and> same_env ?s2 s3 \<and>
    (\<forall>k. cached s3 k = (case cached ?s2 k of Some p \<Rightarrow> if p \<in> set found then None else Some p | None \<Rightarrow> None)) \<and>
    (found \<noteq> [] \<longrightarrow> mp_frees (sy_alloc s3) \<noteq> []) \<and> (mp_frees (sy_alloc ?s2) \<noteq> [] \<longrightarrow> mp_frees (sy_alloc s3) \<noteq> []) \<and>
    (\<forall>q. q \<notin> set found \<longrightarrow> sy_mem s3 q = sy_mem ?s2 q) \<and> (\<forall>k. disk_page s3 k = None \<longleftrightarrow> disk_page ?s2 k = None)"
    by (rule purge_all_loop_correct [OF pa(1) _ assms(6) found(3)])
  have "same_env ?s2 s3 \<Longrightarrow> same_env s1 s3" for s3 using pa(5) by (simp add: same_env_def)
  with ex3 obtain s3 where s3: "purge_all_loop io b found ?s2 = Some s3" "bp_inv s3" "logical s3 = logical s1" "same_env s1 s3"
    "\<forall>k. cached s3 k = (case cached s1 k of Some p \<Rightarrow> if p \<in> set found then None else Some p | None \<Rightarrow> None)"
    "found \<noteq> [] \<longrightarrow> mp_frees (sy_alloc s3) \<noteq> []" "\<forall>q. q \<notin> set found \<longrightarrow> sy_mem s3 q = sy_mem ?s2 q"
    "\<forall>k. disk_page s3 k = None \<longleftrightarrow> disk_page s1 k = None"
    unfolding pa(2,3,4) by blast
  have nocache: "cached s3 k = None" if "fid_file_desc k = fd" for k
    using s3(5) that found(2) by (auto simp: file_frames_def split: option.splits)
  let ?s4 = "upd_pool b (dbp_file_desc_update (\<lambda>_. - 1)) (close_fd fd s3)"
  have fds3: "sy_fds s3 = sy_fds s" "sy_pools s3 = sy_pools s" using s3(4) s1(2) by (simp_all add: same_env_def)
  have u: "unpin_frame h s = Some s1" using s1(1) by (simp add: dbp_unpin_page_def)
  have "sy_pools s1 b = Some pool" using pool(1) s1(2) by simp
  then have run: "dbp_close_core io b s = Some (SUCCESS, ?s4)"
    using pool assms(3,7) u found(1) s3(1) fds3 by (simp add: dbp_close_core_def purge_all_pages_def)
  have dk: "disk_page s3 (FrameId_of fd i) = logical s (FrameId_of fd i)" for i
  proof -
    have "logical s3 (FrameId_of fd i) = disk_page s3 (FrameId_of fd i)" using nocache by (simp add: logical_def)
    then show ?thesis using s3(3) s1(4) by simp
  qed
  have ex: "logical s (FrameId_of fd i) \<noteq> None \<longleftrightarrow> 0 \<le> i \<and> i < int n" for i
    using pd(6) [of i] bp_invD(3) [OF assms(1), of "FrameId_of fd i"] by (auto simp: logical_def good_def split: option.splits)
  have n0: "0 < n" using pd(5) by (simp add: hdr_ok_def)
  then have "disk_page s3 (FrameId_of fd (int n - 1)) \<noteq> None" "disk_page s3 (FrameId_of fd (int n)) = None"
    using dk ex [of "int n - 1"] ex [of "int n"] by auto
  then obtain ps where ps: "file_of s3 fd = Some ps" "length ps = n"
    by (auto simp: disk_page_def split: option.splits if_splits)
  have name: "sy_disk s3 name = Some ps" using ps(1) assms(7) fds3 by (simp add: file_of_def)
  have "logical s (FrameId_of fd (int i)) = Some (ps ! i)" if "i < n" for i
    using dk [of "int i", symmetric] ps that by (simp add: disk_page_def)
  moreover have "pg_num (ps ! i) = int i" if "i < n" for i
    using that ps bp_invD(4) [OF s3(2), of "FrameId_of fd (int i)" "ps ! i"] nocache by (simp add: disk_page_def)
  moreover have "fr_data (sy_mem s h) = pg_data (ps ! 0)"
    using n0 dk [of 0] pd(2) ps by (simp add: logical_def disk_page_def)
  ultimately have "file_ok ps" "\<forall>i < n. logical s (FrameId_of fd (int i)) = Some (ps ! i)"
    using pd(5) ps(2) n0 by (auto simp: file_ok_def)
  note cl = bp_inv_close_fd [OF s3(2), of fd, OF nocache]
  have "sy_fd_buffer_pools (close_fd fd s3) = sy_fd_buffer_pools s" using s3(4) s1(2) by (simp add: close_fd_def same_env_def)
  then have "bp_inv ?s4" using bp_inv_upd_pool [OF cl(1)] assms(8) by simp
  moreover have "file_frames fd ?s4 = {}" using nocache cl(2) by (auto simp: file_frames_def)
  moreover have "sy_fds ?s4 = filter (\<lambda>e. fst e \<noteq> fd) (sy_fds s)" using fds3 by (simp add: close_fd_def)
  moreover have "sy_disk ?s4 name = Some ps" using name by (simp add: close_fd_def)
  moreover have "cached s1 (FrameId_of fd 0) = Some h" using pd(2) s1(2) by simp
  then have "h \<in> set found" using found(2) by (auto simp: file_frames_def intro!: exI [of _ "FrameId_of fd 0"])
  then have "mp_frees (sy_alloc ?s4) \<noteq> []" using s3(6) by (auto simp: close_fd_def)
  moreover have "sy_fd_buffer_pools ?s4 = sy_fd_buffer_pools s" "sy_buffer_pools ?s4 = sy_buffer_pools s" "sy_pool_brk ?s4 = sy_pool_brk s"
    "mp_size (sy_alloc ?s4) = mp_size (sy_alloc s)"
    using s3(4) s1(2) by (simp_all add: close_fd_def same_env_def)
  moreover have "other_files_kept b fd s ?s4"
  proof -
    have "cached s3 k = Some p \<and> sy_mem s3 p = sy_mem s p" if "fid_file_desc k \<noteq> fd" "cached s k = Some p" for k p
    proof -
      have c1: "cached s1 k = Some p" using that s1(2) by simp
      have "p \<notin> file_frames fd s1"
      proof
        assume "p \<in> file_frames fd s1"
        then obtain k' where "cached s1 k' = Some p" "fid_file_desc k' = fd" by (auto simp: file_frames_def)
        then show False using fm_invD(5) [OF bp_invD(1) [OF s1(3)] c1] that(1) by blast
      qed
      moreover have "p \<noteq> h" using fm_invD(5) [OF bp_invD(1) [OF assms(1)] that(2)] pd(2) that(1) FrameId_of_simps(1) by metis
      ultimately show ?thesis using c1 s3(5,7) found(2) s1(2) by (simp add: pin_all_def)
    qed
    moreover have "disk_page s1 = disk_page s" using s1(2) by simp
    moreover have "sy_pools ?s4 b' = sy_pools s b'" if "b' \<noteq> b" for b' using that fds3 by (simp add: upd_pool_def close_fd_def)
    ultimately show ?thesis using cl s3(3,8) s1(4) unfolding other_files_kept_def by (simp add: close_fd_def)
  qed
  ultimately show ?thesis using run ps(2) \<open>file_ok ps\<close> \<open>\<forall>i < n. _ i\<close> by (intro exI [of _ ?s4] exI [of _ ps]) simp
qed

end
