(* ===== verification/PoolContract.thy ===== *)
theory PoolContract
  imports BufferPoolManager
begin

section \<open>The contract of the buffer pool\<close>

text \<open>
  What the clients of \<open>BufferPoolManager\<close> and \<open>DiskBufferPool\<close> rely on. The manager's three tables
  (open descriptors, pools by name, pools by descriptor) describe one list of open files; opening and
  closing keep that; a page store interface is stated as a locale and interpreted on the pool; the
  properties of the pool follow.
\<close>

subsection \<open>The tables of the manager\<close>

type_synonym open_file = "string \<times> nat \<times> int"

abbreviation of_name :: "open_file \<Rightarrow> string" where "of_name d \<equiv> fst d"
abbreviation of_pool :: "open_file \<Rightarrow> nat" where "of_pool d \<equiv> fst (snd d)"
abbreviation of_fd :: "open_file \<Rightarrow> int" where "of_fd d \<equiv> snd (snd d)"

definition bpm_rep :: "open_file list \<Rightarrow> Sys \<Rightarrow> bool" where
  "bpm_rep ds s \<longleftrightarrow> bp_inv s \<and> sy_fds s = map (\<lambda>d. (of_fd d, of_name d)) ds \<and>
     sy_buffer_pools s = map (\<lambda>d. (of_name d, of_pool d)) ds \<and> sy_fd_buffer_pools s = map (\<lambda>d. (of_fd d, of_pool d)) ds \<and>
     distinct (map of_name ds) \<and> distinct (map of_pool ds) \<and> distinct (map of_fd ds) \<and>
     (\<forall>d \<in> set ds. of_pool d < sy_pool_brk s \<and> 0 \<le> of_fd d \<and> (\<exists>h n. pool_inv s (of_pool d) (of_fd d) h n))"

lemma bpm_repD:
  assumes "bpm_rep ds s"
  shows "bp_inv s" "sy_fds s = map (\<lambda>d. (of_fd d, of_name d)) ds" "sy_buffer_pools s = map (\<lambda>d. (of_name d, of_pool d)) ds"
    "sy_fd_buffer_pools s = map (\<lambda>d. (of_fd d, of_pool d)) ds" "distinct (map of_name ds)" "distinct (map of_pool ds)" "distinct (map of_fd ds)"
    "d \<in> set ds \<Longrightarrow> of_pool d < sy_pool_brk s" "d \<in> set ds \<Longrightarrow> 0 \<le> of_fd d" "d \<in> set ds \<Longrightarrow> \<exists>h n. pool_inv s (of_pool d) (of_fd d) h n"
  using assms unfolding bpm_rep_def by blast+

lemma map_of_table: "distinct (map f ds) \<Longrightarrow> d \<in> set ds \<Longrightarrow> map_of (map (\<lambda>d. (f d, g d)) ds) (f d) = Some (g d)"
  by (intro map_of_is_SomeI) (simp_all add: comp_def)

lemma filter_table: "filter (\<lambda>e. fst e \<noteq> x) (map (\<lambda>d. (f d, g d)) ds) = map (\<lambda>d. (f d, g d)) (filter (\<lambda>d. f d \<noteq> x) ds)"
  by (simp add: filter_map comp_def)

lemma filter_same:
  assumes "distinct (map f ds)" "distinct (map g ds)" "d \<in> set ds"
  shows "filter (\<lambda>e. f e \<noteq> f d) ds = filter (\<lambda>e. g e \<noteq> g d) ds"
  using assms by (intro filter_cong) (auto simp: distinct_map inj_on_def)

text \<open>Every file in the frames belongs to an open pool, so eviction can always write it back.\<close>

lemma bpm_flushable:
  assumes "bpm_rep ds s" "io_ok io"
  shows "flushable io fd s"
proof -
  have "map_of (sy_fd_buffer_pools s) (fid_file_desc k) \<noteq> None" if "cached s k = Some p" for k p
  proof -
    have "disk_page s k \<noteq> None" using bp_invD(3) [OF bpm_repD(1) [OF assms(1)] that] by (simp add: good_def)
    then have "map_of (sy_fds s) (fid_file_desc k) \<noteq> None"
      by (cases "map_of (sy_fds s) (fid_file_desc k)") (simp_all add: disk_page_def file_of_def)
    then show ?thesis unfolding bpm_repD(2,4) [OF assms(1)] map_of_eq_None_iff by (auto simp: image_image)
  qed
  then show ?thesis using assms(2) by (auto simp: flushable_def io_ok_def)
qed

lemma bpm_start_rep: "bpm_rep [] (bpm_start sz disk)"
proof -
  obtain a where "bpm_start sz disk = \<lparr>sy_mem = (\<lambda>_. new_frame), sy_frames = lru_empty, sy_alloc = a, sy_disk = disk, sy_fds = [], sy_tick = 0,
       sy_pools = (\<lambda>_. None), sy_pool_brk = 0, sy_buffer_pools = [], sy_fd_buffer_pools = []\<rparr>"
    using bpm_start_alloc by blast
  then show ?thesis using bpm_start_inv(1) [of sz disk] by (simp add: bpm_rep_def)
qed

text \<open>Creating a file touches no open one.\<close>

lemma create_file_correct:
  assumes "bpm_rep ds s" "name \<notin> of_name ` set ds" "sy_disk s name = None" "io_ok io"
  shows "\<exists>s'. bpm_create_file io name s = (SUCCESS, s') \<and> bpm_rep ds s' \<and> sy_disk s' = (sy_disk s)(name \<mapsto> [header_page]) \<and>
    logical s' = logical s \<and> sy_alloc s' = sy_alloc s"
proof -
  let ?s = "tick (s\<lparr>sy_disk := (sy_disk s)(name \<mapsto> [header_page])\<rparr>)"
  have run: "bpm_create_file io name s = (SUCCESS, ?s)" using assms(3,4) by (simp add: bpm_create_file_def io_ok_def Let_def)
  have fo: "file_of ?s fd = file_of s fd" for fd
  proof -
    have "map_of (sy_fds s) fd \<noteq> Some name" using assms(2) bpm_repD(2) [OF assms(1)] by (auto dest!: map_of_SomeD)
    then show ?thesis by (cases "map_of (sy_fds s) fd") (auto simp: file_of_def tick_def)
  qed
  have c: "cached ?s = cached s" by (simp add: tick_def cached_def)
  have d: "disk_page ?s = disk_page s" using fo by (simp add: disk_page_def fun_eq_iff)
  have l: "logical ?s = logical s" by (rule logical_cong [OF c _ d]) (simp add: tick_def)
  have p: "pool_at ?s = pool_at s" by (rule pool_at_cong) (simp add: tick_def)
  have "fm_inv ?s = fm_inv s" using c by (simp add: fm_inv_def)
  then have "bp_inv ?s" using bpm_repD(1) [OF assms(1)] c d p good_cong [of ?s s] unfolding bp_inv_def by (simp add: tick_def)
  moreover have "pool_inv ?s = pool_inv s" using c d by (simp add: pool_inv_def fun_eq_iff)
  ultimately have "bpm_rep ds ?s" using assms(1) unfolding bpm_rep_def by (simp add: tick_def)
  then show ?thesis using run l by (intro exI [of _ ?s]) (simp add: tick_def)
qed

lemma open_pool_correct:
  assumes "bpm_rep ds s" "name \<notin> of_name ` set ds" "sy_disk s name = Some ps" "file_ok ps" "io_ok io" "frame_available io (lowest_fd (sy_fds s)) s"
  defines "fd \<equiv> lowest_fd (sy_fds s)" and "b \<equiv> sy_pool_brk s"
  shows "\<exists>s' h. bpm_open_file io name s = Some (SUCCESS, Some b, s') \<and> bpm_rep ((name, b, fd) # ds) s' \<and> pool_inv s' b fd h (length ps) \<and>
    fr_pin (sy_mem s' h) = 1 \<and> (\<forall>i. i \<noteq> 0 \<longrightarrow> cached s' (FrameId_of fd i) = None) \<and>
    (\<forall>i < length ps. logical s' (FrameId_of fd (int i)) = Some (ps ! i)) \<and> (\<forall>k. fid_file_desc k \<noteq> fd \<longrightarrow> logical s' k = logical s k) \<and>
    mp_size (sy_alloc s') = mp_size (sy_alloc s)"
proof -
  note r = bpm_repD [OF assms(1)]
  define pool0 where "pool0 = \<lparr>dbp_file_name = [], dbp_file_desc = - 1, dbp_hdr_frame = 0\<rparr>"
  define s0 where "s0 = s\<lparr>sy_pools := (sy_pools s)(b \<mapsto> pool0), sy_pool_brk := Suc b\<rparr>"
  have fresh: "b \<notin> of_pool ` set ds" using r(8) by (force simp: b_def)
  have c0: "cached s0 = cached s" by (simp add: s0_def cached_def)
  have d0: "disk_page s0 = disk_page s" by (rule disk_page_cong) (simp_all add: s0_def)
  have l0: "logical s0 = logical s" by (rule logical_cong [OF c0 _ d0]) (simp add: s0_def)
  have "fm_inv s0 = fm_inv s" using c0 by (simp add: fm_inv_def) (simp add: s0_def)
  moreover have "pool_at s0 b' fd'" if "map_of (sy_fd_buffer_pools s) fd' = Some b'" for b' fd'
  proof -
    have "b' \<in> of_pool ` set ds" using map_of_SomeD [OF that] r(4) by auto
    then show ?thesis using bp_invD(6) [OF r(1) that] fresh by (auto simp: pool_at_def s0_def)
  qed
  ultimately have i0: "bp_inv s0" using r(1) c0 d0 good_cong [of s0 s] unfolding bp_inv_def by (simp add: s0_def)
  have fd0: "lowest_fd (sy_fds s0) = fd" by (simp add: s0_def fd_def)
  have "frame_available io fd s0" using assms(6) c0 by (simp add: frame_available_def flushable_def fd_def) (simp add: s0_def)
  then obtain h s1 where s1: "dbp_open_file io b name s0 = Some (SUCCESS, s1)" "bp_inv s1" "pool_inv s1 b fd h (length ps)"
    "map_of (sy_fds s1) fd = Some name" "fr_pin (sy_mem s1 h) = 1" "\<forall>i. i \<noteq> 0 \<longrightarrow> cached s1 (FrameId_of fd i) = None"
    "\<forall>i < length ps. logical s1 (FrameId_of fd (int i)) = Some (ps ! i)" "sy_fd_buffer_pools s1 = sy_fd_buffer_pools s0"
    "sy_fds s1 = (fd, name) # sy_fds s0" "sy_buffer_pools s1 = sy_buffer_pools s0" "sy_pool_brk s1 = sy_pool_brk s0"
    "mp_size (sy_alloc s1) = mp_size (sy_alloc s0)" "other_files_kept b fd s0 s1"
    using open_file_correct [OF i0, of name ps b pool0 io] assms(2-5) r(2,4) fresh unfolding fd0 by (auto simp: s0_def image_image)
  have fdnew: "fd \<notin> of_fd ` set ds" using lowest_fd_fresh(1) [of "sy_fds s"] r(2) by (force simp: fd_def)
  have tables: "sy_buffer_pools s1 = map (\<lambda>d. (of_name d, of_pool d)) ds" "sy_fd_buffer_pools s1 = map (\<lambda>d. (of_fd d, of_pool d)) ds"
    "sy_fds s1 = (fd, name) # map (\<lambda>d. (of_fd d, of_name d)) ds" "sy_pool_brk s1 = Suc b"
    using s1(8-11) r(2-4) by (simp_all add: s0_def)
  have none: "map_of (sy_buffer_pools s) name = None" "map_of (sy_fd_buffer_pools s1) fd = None"
    using assms(2) r(3) tables(2) fdnew by (force simp: map_of_eq_None_iff)+
  define s2 where "s2 = s1\<lparr>sy_buffer_pools := (name, b) # sy_buffer_pools s1, sy_fd_buffer_pools := (fd, b) # sy_fd_buffer_pools s1\<rparr>"
  obtain pool where pool: "sy_pools s1 b = Some pool" "dbp_file_desc pool = fd" using pool_invD(7) [OF s1(3)] by blast
  have run: "bpm_open_file io name s = Some (SUCCESS, Some b, s2)"
    using none s1(1) pool by (simp add: bpm_open_file_def b_def [symmetric] pool0_def [symmetric] s0_def [symmetric] s2_def)
  have c2: "cached s2 = cached s1" by (simp add: s2_def cached_def)
  have d2: "disk_page s2 = disk_page s1" by (rule disk_page_cong) (simp_all add: s2_def)
  have l2: "logical s2 = logical s1" by (rule logical_cong [OF c2 _ d2]) (simp add: s2_def)
  have "fm_inv s2 = fm_inv s1" using c2 by (simp add: fm_inv_def) (simp add: s2_def)
  moreover have "pool_at s2 = pool_at s1" by (rule pool_at_cong) (simp add: s2_def)
  moreover have "pool_at s1 b fd" by (rule pool_invD(1) [OF s1(3)])
  ultimately have "bp_inv s2" using s1(2) c2 d2 good_cong [of s2 s1] unfolding bp_inv_def by (simp add: s2_def)
  moreover have p2: "pool_inv s2 = pool_inv s1" using c2 d2 by (simp add: pool_inv_def fun_eq_iff) (simp add: s2_def)
  have "\<exists>h n. pool_inv s2 (of_pool d) (of_fd d) h n" if d: "d \<in> set ds" for d
  proof -
    obtain h n where "pool_inv s (of_pool d) (of_fd d) h n" using r(10) [OF d] by blast
    moreover have "of_pool d \<noteq> b" "of_fd d \<noteq> fd" using d fresh fdnew by auto
    ultimately have "pool_inv s0 (of_pool d) (of_fd d) h n" using c0 d0 by (simp add: pool_inv_def) (simp add: s0_def)
    then show ?thesis using pool_inv_other [OF _ s1(13) \<open>of_fd d \<noteq> fd\<close> \<open>of_pool d \<noteq> b\<close>] p2 by metis
  qed
  moreover have "\<exists>h n. pool_inv s2 b fd h n" using s1(3) p2 by metis
  moreover have "0 \<le> fd" using lowest_fd_fresh(2) [of "sy_fds s"] by (simp add: fd_def)
  moreover have "\<forall>d \<in> set ds. of_pool d < Suc b" using r(8) by (auto simp: b_def less_Suc_eq)
  ultimately have "bpm_rep ((name, b, fd) # ds) s2"
    using tables assms(2) fresh fdnew r(5-7,9) unfolding bpm_rep_def by (simp add: s2_def image_iff)
  moreover have "\<forall>k. fid_file_desc k \<noteq> fd \<longrightarrow> logical s2 k = logical s k" using s1(13) l0 l2 by (simp add: other_files_kept_def)
  ultimately show ?thesis using run s1(3,5,6,7) s1(12) p2 c2 l2 by (intro exI [of _ s2] exI [of _ h]) (simp add: s2_def s0_def)
qed

text \<open>Closing an open file of which only the header page is held.\<close>

lemma bpm_erase_correct:
  assumes "bpm_rep ds s" "d \<in> set ds"
  defines "ds' \<equiv> filter (\<lambda>e. of_name e \<noteq> of_name d) ds"
  shows "bpm_erase (of_name d) (of_pool d) s =
    Some (s\<lparr>sy_fd_buffer_pools := map (\<lambda>d. (of_fd d, of_pool d)) ds', sy_buffer_pools := map (\<lambda>d. (of_name d, of_pool d)) ds'\<rparr>)"
proof -
  note r = bpm_repD [OF assms(1)]
  obtain h n where "pool_inv s (of_pool d) (of_fd d) h n" using r(10) [OF assms(2)] by blast
  then obtain pool where "sy_pools s (of_pool d) = Some pool" "dbp_file_desc pool = of_fd d" using pool_invD(7) by blast
  moreover have "map_of (sy_fd_buffer_pools s) (of_fd d) = Some (of_pool d)" unfolding r(4) by (rule map_of_table [OF r(7) assms(2)])
  moreover have "filter (\<lambda>e. of_fd e \<noteq> of_fd d) ds = ds'" unfolding ds'_def by (rule filter_same [OF r(7,5) assms(2)])
  ultimately show ?thesis using r(3,4) by (simp add: bpm_erase_def filter_table ds'_def)
qed

lemma close_pool_correct:
  assumes "bpm_rep ds s" "d \<in> set ds" "pool_inv s (of_pool d) (of_fd d) h n" "fr_pin (sy_mem s h) = 1"
    "\<And>i p. i \<noteq> 0 \<Longrightarrow> cached s (FrameId_of (of_fd d) i) = Some p \<Longrightarrow> fr_pin (sy_mem s p) = 0" "io_ok io"
  shows "\<exists>s' ps. bpm_close_file io (of_name d) s = Some (SUCCESS, s') \<and> bpm_rep (filter (\<lambda>e. of_name e \<noteq> of_name d) ds) s' \<and>
    mp_frees (sy_alloc s') \<noteq> [] \<and> sy_disk s' (of_name d) = Some ps \<and> file_ok ps \<and> length ps = n \<and>
    (\<forall>i < n. logical s (FrameId_of (of_fd d) (int i)) = Some (ps ! i)) \<and>
    (\<forall>k. fid_file_desc k \<noteq> of_fd d \<longrightarrow> logical s' k = logical s k) \<and> mp_size (sy_alloc s') = mp_size (sy_alloc s)"
proof -
  note r = bpm_repD [OF assms(1)]
  define ds' where "ds' = filter (\<lambda>e. of_name e \<noteq> of_name d) ds"
  define s1 where "s1 = s\<lparr>sy_fd_buffer_pools := map (\<lambda>d. (of_fd d, of_pool d)) ds', sy_buffer_pools := map (\<lambda>d. (of_name d, of_pool d)) ds'\<rparr>"
  have erase: "bpm_erase (of_name d) (of_pool d) s = Some s1"
    using bpm_erase_correct [OF assms(1,2)] by (simp add: s1_def ds'_def)
  have sub: "set ds' \<subseteq> set ds" by (auto simp: ds'_def)
  have same: "filter (\<lambda>e. of_fd e \<noteq> of_fd d) ds = ds'" "filter (\<lambda>e. of_pool e \<noteq> of_pool d) ds = ds'"
    unfolding ds'_def by (rule filter_same [OF r(7,5) assms(2)], rule filter_same [OF r(6,5) assms(2)])
  have ne: "of_pool e \<noteq> of_pool d \<and> of_fd e \<noteq> of_fd d" if "e \<in> set ds'" for e
  proof -
    have "e \<in> set (filter (\<lambda>e. of_pool e \<noteq> of_pool d) ds)" using that same(2) by simp
    moreover have "e \<in> set (filter (\<lambda>e. of_fd e \<noteq> of_fd d) ds)" using that same(1) by simp
    ultimately show ?thesis by simp
  qed
  have c1: "cached s1 = cached s" by (simp add: s1_def cached_def)
  have d1: "disk_page s1 = disk_page s" by (rule disk_page_cong) (simp_all add: s1_def)
  have l1: "logical s1 = logical s" by (rule logical_cong [OF c1 _ d1]) (simp add: s1_def)
  have p1: "pool_inv s1 = pool_inv s" using c1 d1 by (simp add: pool_inv_def fun_eq_iff) (simp add: s1_def)
  have "fm_inv s1 = fm_inv s" using c1 by (simp add: fm_inv_def) (simp add: s1_def)
  moreover have "pool_at s1 = pool_at s" by (rule pool_at_cong) (simp add: s1_def)
  moreover have "pool_at s b fd" if "map_of (map (\<lambda>d. (of_fd d, of_pool d)) ds') fd = Some b" for b fd
    using map_of_SomeD [OF that] sub r(10) pool_invD(1) by fastforce
  ultimately have i1: "bp_inv s1" using r(1) c1 d1 good_cong [of s1 s] unfolding bp_inv_def by (simp add: s1_def)
  have name: "map_of (sy_fds s1) (of_fd d) = Some (of_name d)" using map_of_table [OF r(7) assms(2)] r(2) by (simp add: s1_def)
  have gone: "of_pool d \<notin> snd ` set (sy_fd_buffer_pools s1)" using ne by (force simp: s1_def)
  have fr1: "fr_pin (sy_mem s1 h) = 1" "\<And>i p. i \<noteq> 0 \<Longrightarrow> cached s1 (FrameId_of (of_fd d) i) = Some p \<Longrightarrow> fr_pin (sy_mem s1 p) = 0"
    using assms(4,5) c1 by (simp_all add: s1_def)
  have pi1: "pool_inv s1 (of_pool d) (of_fd d) h n" using assms(3) p1 by simp
  obtain s2 ps where s2: "dbp_close_core io (of_pool d) s1 = Some (SUCCESS, s2)" "bp_inv s2"
    "sy_fds s2 = filter (\<lambda>e. fst e \<noteq> of_fd d) (sy_fds s1)" "mp_frees (sy_alloc s2) \<noteq> []" "sy_fd_buffer_pools s2 = sy_fd_buffer_pools s1"
    "sy_buffer_pools s2 = sy_buffer_pools s1" "sy_pool_brk s2 = sy_pool_brk s1"
    "mp_size (sy_alloc s2) = mp_size (sy_alloc s1)" "other_files_kept (of_pool d) (of_fd d) s1 s2"
    "sy_disk s2 (of_name d) = Some ps" "file_ok ps" "length ps = n" "\<forall>i < n. logical s1 (FrameId_of (of_fd d) (int i)) = Some (ps ! i)"
    using close_core_correct [OF i1 pi1 r(9) [OF assms(2)] fr1(1) _ assms(6) name gone] fr1(2) by blast
  let ?s3 = "delete_pool (of_pool d) s2"
  have "map_of (sy_buffer_pools s) (of_name d) = Some (of_pool d)" unfolding r(3) by (rule map_of_table [OF r(5) assms(2)])
  then have run: "bpm_close_file io (of_name d) s = Some (SUCCESS, ?s3)" using erase s2(1) by (simp add: bpm_close_file_def)
  have c3: "cached ?s3 = cached s2" by (simp add: delete_pool_def cached_def)
  have d3: "disk_page ?s3 = disk_page s2" by (rule disk_page_cong) (simp_all add: delete_pool_def)
  have l3: "logical ?s3 = logical s2" by (rule logical_cong [OF c3 _ d3]) (simp add: delete_pool_def)
  have p3: "pool_inv ?s3 b = pool_inv s2 b" if "b \<noteq> of_pool d" for b
    using that c3 d3 by (simp add: pool_inv_def fun_eq_iff) (simp add: delete_pool_def)
  have pools: "\<exists>h n. pool_inv ?s3 (of_pool e) (of_fd e) h n" if e: "e \<in> set ds'" for e
  proof -
    obtain h n where "pool_inv s1 (of_pool e) (of_fd e) h n" using r(10) [of e] e sub p1 by auto
    then have "pool_inv s2 (of_pool e) (of_fd e) h n" using pool_inv_other [OF _ s2(9)] ne [OF e] by blast
    then show ?thesis using p3 ne [OF e] by metis
  qed
  have "fm_inv ?s3 = fm_inv s2" using c3 by (simp add: fm_inv_def) (simp add: delete_pool_def)
  moreover have "pool_at ?s3 b fd" if "map_of (sy_fd_buffer_pools s2) fd = Some b" for b fd
    using map_of_SomeD [OF that] pools pool_invD(1) s2(5) by (fastforce simp: s1_def)
  ultimately have "bp_inv ?s3" using s2(2) c3 d3 good_cong [of ?s3 s2] unfolding bp_inv_def by (simp add: delete_pool_def)
  then have "bpm_rep ds' ?s3"
    using s2(3,5-7) r(2,5-9) pools sub same(1) unfolding bpm_rep_def
    by (auto simp: delete_pool_def s1_def filter_table) (simp_all add: ds'_def distinct_map_filter)
  then show ?thesis using run s2(4,8-13) l3 l1 unfolding ds'_def
    by (intro exI [of _ ?s3] exI [of _ ps]) (simp add: delete_pool_def other_files_kept_def s1_def)
qed

subsection \<open>When a frame can be had\<close>

definition pinned_pages :: "Sys \<Rightarrow> FrameId set" where
  "pinned_pages s = {k. \<exists>p. cached s k = Some p \<and> fr_pin (sy_mem s p) > 0}"

lemma finite_cached: "fm_inv s \<Longrightarrow> finite (dom (cached s)) \<and> card (dom (cached s)) = card (mp_used (sy_alloc s))"
proof -
  assume fm: "fm_inv s"
  have img: "(\<lambda>k. the (cached s k)) ` dom (cached s) = mp_used (sy_alloc s)"
    using fm by (force simp: fm_inv_def ran_def dom_def)
  have inj: "inj_on (\<lambda>k. the (cached s k)) (dom (cached s))"
    using fm by (auto simp: fm_inv_def inj_on_def dom_def)
  have "finite (mp_used (sy_alloc s))" using fm by (simp add: fm_inv_def mp_inv_def)
  then show ?thesis using img inj card_image [OF inj] finite_imageD [OF _ inj] by metis
qed

lemma frame_available_if:
  assumes "bpm_rep ds s" "io_ok io" "card (pinned_pages s) < mp_size (sy_alloc s)"
  shows "frame_available io fd s"
proof (rule ccontr)
  assume no: "\<not> frame_available io fd s"
  note fm = bp_invD(1) [OF bpm_repD(1) [OF assms(1)]]
  have f: "mp_frees (sy_alloc s) = []" and p: "\<And>k p. cached s k = Some p \<Longrightarrow> fr_pin (sy_mem s p) \<noteq> 0"
    using no bpm_flushable [OF assms(1,2)] by (auto simp: frame_available_def)
  have "pinned_pages s = dom (cached s)"
    using p bp_invD(3) [OF bpm_repD(1) [OF assms(1)]] by (fastforce simp: pinned_pages_def good_def dom_def)
  then have "card (pinned_pages s) = card (mp_used (sy_alloc s))" using finite_cached [OF fm] by simp
  also have "\<dots> = mp_size (sy_alloc s)" using fm f by (simp add: fm_inv_def mp_inv_def)
  finally show False using assms(3) by simp
qed

lemma bpm_start_size: "128 \<le> mp_size (sy_alloc (bpm_start sz disk))"
proof -
  define k where "k = max ((if sz \<le> 0 then 20 * 128 * 8192 else sz) div 8192 div 128) (1 :: int)"
  have k: "0 < k" by (simp add: k_def)
  have "mp_inv (mp_new\<lparr>mp_item_num := nat 128, mp_dynamic := True\<rparr>)" by (simp add: mp_inv_def mp_new_def)
  then obtain p where p: "mp_extend_n (nat k) (mp_new\<lparr>mp_item_num := nat 128, mp_dynamic := True\<rparr>) = (0, p)" "mp_inv p"
    "length (mp_frees p) = nat k * 128"
    using mp_extend_n_correct [of "mp_new\<lparr>mp_item_num := nat 128, mp_dynamic := True\<rparr>" "nat k"] by (auto simp: mp_new_def)
  have "mp_init False k 128 mp_new = (0, p\<lparr>mp_dynamic := False\<rparr>)" using p(1) k by (simp add: mp_init_def mp_new_def)
  then have "sy_alloc (bpm_start sz disk) = p\<lparr>mp_dynamic := False\<rparr>"
    by (simp add: bpm_start_def fm_init_def Let_def k_def [symmetric])
  moreover have "nat k \<ge> 1" using k by simp
  ultimately show ?thesis using p(2,3) by (simp add: mp_inv_def)
qed

subsection \<open>A pool with one file\<close>

text \<open>The state the witnesses below use: a fresh manager, one created and opened file.\<close>

definition demo_io :: io where
  "demo_io = (\<lambda>_. IoOk)"

definition demo_sys :: Sys where
  "demo_sys = (case bpm_open_file demo_io ''t'' (snd (bpm_create_file demo_io ''t'' (bpm_start 1048576 Map.empty))) of
     Some (_, _, s) \<Rightarrow> s | None \<Rightarrow> bpm_start 1048576 Map.empty)"

definition demo_hdr :: nat where
  "demo_hdr = dbp_hdr_frame (the (sy_pools demo_sys 0))"

lemma demo_io_ok: "io_ok demo_io"
  by (simp add: io_ok_def demo_io_def)

lemma pool_inv_hdr: "pool_inv s b fd h n \<Longrightarrow> dbp_hdr_frame (the (sy_pools s b)) = h"
  using pool_invD(7) by fastforce

lemma demo_sys_facts:
  shows "bpm_rep [(''t'', 0, 3)] demo_sys" "pool_inv demo_sys 0 3 demo_hdr 1" "fr_pin (sy_mem demo_sys demo_hdr) = 1"
    "i \<noteq> 0 \<Longrightarrow> cached demo_sys (FrameId_of 3 i) = None" "logical demo_sys (FrameId_of 3 0) = Some header_page"
    "128 \<le> mp_size (sy_alloc demo_sys)"
proof -
  let ?s0 = "bpm_start 1048576 Map.empty"
  obtain a where a: "mp_frees a \<noteq> []" "?s0 = \<lparr>sy_mem = (\<lambda>_. new_frame), sy_frames = lru_empty, sy_alloc = a, sy_disk = Map.empty,
      sy_fds = [], sy_tick = 0, sy_pools = (\<lambda>_. None), sy_pool_brk = 0, sy_buffer_pools = [], sy_fd_buffer_pools = []\<rparr>"
    using bpm_start_alloc by blast
  obtain s1 where s1: "bpm_create_file demo_io ''t'' ?s0 = (SUCCESS, s1)" "bpm_rep [] s1" "sy_disk s1 = (sy_disk ?s0)(''t'' \<mapsto> [header_page])"
    "sy_alloc s1 = sy_alloc ?s0"
    using create_file_correct [OF bpm_start_rep, of "''t''" 1048576 Map.empty demo_io] a demo_io_ok by auto
  have fd: "lowest_fd (sy_fds s1) = 3" "sy_pool_brk s1 = 0"
  proof -
    have "sy_fds s1 = []" using bpm_repD(2) [OF s1(2)] by simp
    then show "lowest_fd (sy_fds s1) = 3" by (simp add: lowest_fd_def upt_rec)
    show "sy_pool_brk s1 = 0" using s1(1) a by (auto simp: bpm_create_file_def demo_io_def tick_def Let_def)
  qed
  have av: "frame_available demo_io (lowest_fd (sy_fds s1)) s1" using a s1(4) by (simp add: frame_available_def)
  have "sy_disk s1 ''t'' = Some [header_page]" using s1(3) by simp
  from open_pool_correct [OF s1(2) _ this header_page_ok demo_io_ok av]
  obtain s2 h where s2: "bpm_open_file demo_io ''t'' s1 = Some (SUCCESS, Some 0, s2)" "bpm_rep [(''t'', 0, 3)] s2" "pool_inv s2 0 3 h 1"
    "fr_pin (sy_mem s2 h) = 1" "\<forall>i. i \<noteq> 0 \<longrightarrow> cached s2 (FrameId_of 3 i) = None" "logical s2 (FrameId_of 3 0) = Some header_page"
    "mp_size (sy_alloc s2) = mp_size (sy_alloc s1)"
    unfolding fd by auto
  have d: "demo_sys = s2" using s1(1) s2(1) by (simp add: demo_sys_def)
  moreover have "demo_hdr = h" using pool_inv_hdr [OF s2(3)] d by (simp add: demo_hdr_def)
  ultimately show "bpm_rep [(''t'', 0, 3)] demo_sys" "pool_inv demo_sys 0 3 demo_hdr 1" "fr_pin (sy_mem demo_sys demo_hdr) = 1"
    "i \<noteq> 0 \<Longrightarrow> cached demo_sys (FrameId_of 3 i) = None" "logical demo_sys (FrameId_of 3 0) = Some header_page"
    "128 \<le> mp_size (sy_alloc demo_sys)"
    using s2 s1(4) bpm_start_size by simp_all
qed

lemma demo_bp_inv: "bp_inv demo_sys" "pool_at demo_sys 0 3"
  using bpm_repD(1) [OF demo_sys_facts(1)] pool_invD(1) [OF demo_sys_facts(2)] .

lemma demo_pinned: "card (pinned_pages demo_sys) < mp_size (sy_alloc demo_sys)"
proof -
  have "k = FrameId_of 3 0" if k: "k \<in> pinned_pages demo_sys" for k
  proof -
    obtain p where p: "cached demo_sys k = Some p" using k by (auto simp: pinned_pages_def)
    then have "disk_page demo_sys k \<noteq> None" using bp_invD(3) [OF demo_bp_inv(1)] by (simp add: good_def)
    then have "map_of (sy_fds demo_sys) (fid_file_desc k) \<noteq> None"
      by (cases "map_of (sy_fds demo_sys) (fid_file_desc k)") (simp_all add: disk_page_def file_of_def)
    then have "fid_file_desc k = 3" using bpm_repD(2) [OF demo_sys_facts(1)] by (simp split: if_splits)
    then have "k = FrameId_of 3 (fid_page_num k)" by (intro FrameId_eqI) simp_all
    then show ?thesis using p demo_sys_facts(4) [of "fid_page_num k"] by (cases "fid_page_num k = 0") auto
  qed
  then have "pinned_pages demo_sys \<subseteq> {FrameId_of 3 0}" by blast
  then have "card (pinned_pages demo_sys) \<le> 1" using card_mono [of "{FrameId_of 3 0}"] by fastforce
  then show ?thesis using demo_sys_facts(6) by simp
qed

lemma demo_available: "frame_available demo_io fd demo_sys"
  by (rule frame_available_if [OF demo_sys_facts(1) demo_io_ok demo_pinned])

subsection \<open>Properties\<close>

lemma bpi_drain_pages:
  assumes "hdr_ok m n"
  shows "bpi_drain n m \<lparr>bpi_bitmap = bh_bitmap m, bpi_current = 0\<rparr> = map int (filter (alloc_bit m) [1..<n])"
proof -
  have "length (filter (alloc_bit m) [1..<n]) \<le> n" using length_filter_le [of "alloc_bit m" "[1..<n]"] by simp
  then show ?thesis using assms bpi_drain_from [of m 0 n] by (simp add: hdr_ok_def)
qed

text \<open>
  Property C21. Reading a page through the pool is transparent: whatever \<open>get_this_page\<close> has to evict or
  write back, no page of any file changes its logical content, a page somebody holds stays in its frame
  with its bytes, and a successful call returns a frame of the requested page with exactly its logical
  content, pinned once more.
\<close>

theorem get_this_page_transparent:
  assumes "bp_inv s" "pool_at s b fd" "get_this_page io b pn s = Some (rc, r, s')"
  shows "bp_inv s' \<and> logical s' = logical s \<and>
    (\<forall>k p. cached s k = Some p \<and> fr_pin (sy_mem s p) > 0 \<longrightarrow> cached s' k = Some p \<and> fr_page (sy_mem s' p) = fr_page (sy_mem s p)) \<and>
    (r = None \<longleftrightarrow> rc \<noteq> SUCCESS) \<and>
    (\<forall>p. r = Some p \<longrightarrow> cached s' (FrameId_of fd pn) = Some p \<and> Some (fr_page (sy_mem s' p)) = logical s (FrameId_of fd pn) \<and>
       fr_pin (sy_mem s' p) = (if cached s (FrameId_of fd pn) = None then 1 else fr_pin (sy_mem s p) + 1))"
proof -
  have g: "got_page (FrameId_of fd pn) s rc r s'" by (rule get_this_page_correct(1) [OF assms])
  have pf: "fr_page (pin f) = fr_page f" "fr_pin (pin f) = fr_pin f + 1" for f by (simp_all add: pin_def)
  have "cached s' k = Some p \<and> fr_page (sy_mem s' p) = fr_page (sy_mem s p)" if "cached s k = Some p" "fr_pin (sy_mem s p) > 0" for k p
    using g that pf(1) unfolding got_page_def by (cases "r = Some p") auto
  moreover have "bp_inv s' \<and> logical s' = logical s" "r = None \<longleftrightarrow> rc \<noteq> SUCCESS"
    using g unfolding got_page_def by (cases r; simp)+
  moreover have "cached s' (FrameId_of fd pn) = Some p \<and> Some (fr_page (sy_mem s' p)) = logical s (FrameId_of fd pn) \<and>
       fr_pin (sy_mem s' p) = (if cached s (FrameId_of fd pn) = None then 1 else fr_pin (sy_mem s p) + 1)" if "r = Some p" for p
    using g that pf unfolding got_page_def by (cases "cached s (FrameId_of fd pn)") auto
  ultimately show ?thesis by blast
qed

theorem get_this_page_transparent_witness:
  "\<exists>rc r s'. get_this_page demo_io 0 0 demo_sys = Some (rc, r, s') \<and> logical s' = logical demo_sys"
proof -
  obtain rc r s' where run: "get_this_page demo_io 0 0 demo_sys = Some (rc, r, s')"
    using get_this_page_returns [OF demo_bp_inv, of 0 demo_io] demo_available by blast
  then show ?thesis using get_this_page_transparent [OF demo_bp_inv run] by blast
qed

text \<open>
  Property C26. \<open>get_this_page\<close> succeeds whenever it should: the page exists, the disk works, the file tables
  are consistent, and fewer pages are held than the pool has frames.
\<close>

theorem get_this_page_progress:
  assumes "bpm_rep ds s" "(name, b, fd) \<in> set ds" "io_ok io" "card (pinned_pages s) < mp_size (sy_alloc s)"
    "logical s (FrameId_of fd pn) \<noteq> None"
  shows "\<exists>p s'. get_this_page io b pn s = Some (SUCCESS, Some p, s')"
proof -
  have pool: "pool_at s b fd" using bpm_repD(10) [OF assms(1,2)] pool_invD(1) by auto
  obtain rc r s' where run: "get_this_page io b pn s = Some (rc, r, s')"
    using get_this_page_returns [OF bpm_repD(1) [OF assms(1)] pool] frame_available_if [OF assms(1,3,4)] by blast
  note c = get_this_page_correct [OF bpm_repD(1) [OF assms(1)] pool run]
  have "rc = SUCCESS" using c(2) assms(3,5) by (simp add: io_ok_def)
  moreover have "r \<noteq> None" using c(1) calculation by (cases r) (simp_all add: got_page_def)
  ultimately show ?thesis using run by auto
qed

theorem get_this_page_progress_witness:
  "\<exists>p s'. get_this_page demo_io 0 0 demo_sys = Some (SUCCESS, Some p, s')"
proof (rule get_this_page_progress [OF demo_sys_facts(1) _ demo_io_ok])
  show "(''t'', 0, 3) \<in> set [(''t'', 0, 3 :: int)]" by simp
  show "logical demo_sys (FrameId_of 3 0) \<noteq> None" using demo_sys_facts(5) by simp
  show "card (pinned_pages demo_sys) < mp_size (sy_alloc demo_sys)" by (rule demo_pinned)
qed

text \<open>
  Property C24. \<open>allocate_page\<close> hands out a page that was not in use: the page number is marked in the header,
  the frame is held, no page other than the header and the new one changes; the file grows only when
  all its pages are in use, by a zeroed page; and the only failure is a full file.
\<close>

theorem allocate_page_fresh:
  assumes "bp_inv s" "pool_inv s b fd h n" "io_ok io" "frame_available io fd s"
  shows "\<exists>rc r s'. allocate_page io b s = Some (rc, r, s') \<and>
    (case r of
       None \<Rightarrow> rc = BUFFERPOOL_NOBUF \<and> s' = s \<and> int n = MAX_PAGE_NUM \<and> allocated_pages (fr_data (sy_mem s h)) = {..<n}
     | Some p \<Rightarrow> rc = SUCCESS \<and> (\<exists>pn n'. bp_inv s' \<and> pool_inv s' b fd h n' \<and> pn \<notin> allocated_pages (fr_data (sy_mem s h)) \<and>
         allocated_pages (fr_data (sy_mem s' h)) = insert pn (allocated_pages (fr_data (sy_mem s h))) \<and>
         cached s' (FrameId_of fd (int pn)) = Some p \<and> fr_pin (sy_mem s' p) > 0 \<and>
         (\<forall>k. k \<noteq> FrameId_of fd 0 \<and> k \<noteq> FrameId_of fd (int pn) \<longrightarrow> logical s' k = logical s k) \<and>
         (n' = n \<or> pn = n \<and> n' = Suc n \<and> allocated_pages (fr_data (sy_mem s h)) = {..<n} \<and>
            fr_page (sy_mem s' p) = zero_page\<lparr>pg_num := int n\<rparr>)))"
proof -
  obtain rc r s' where run: "allocate_page io b s = Some (rc, r, s')" using allocate_page_returns [OF assms] by blast
  then show ?thesis using allocate_page_correct [OF assms(1-3) run]
    by (intro exI [of _ rc] exI [of _ r] exI [of _ s']) (auto simp: new_page_def split: option.split)
qed

theorem allocate_page_fresh_witness:
  "\<exists>rc r s'. allocate_page demo_io 0 demo_sys = Some (rc, r, s')"
  using allocate_page_fresh [OF demo_bp_inv(1) demo_sys_facts(2) demo_io_ok demo_available] by blast

text \<open>
  Property C33. Draining a \<open>BufferPoolIterator\<close> that starts at the header page gives every other page in use, once, in
  ascending order, and no unused one.
\<close>

theorem page_iterator_complete:
  assumes "hdr_ok m n"
  shows "bpi_drain n m \<lparr>bpi_bitmap = bh_bitmap m, bpi_current = 0\<rparr> = map int (sorted_list_of_set (allocated_pages m - {0}))"
proof -
  have "set (filter (alloc_bit m) [1..<n]) = allocated_pages m - {0}" using assms by (auto simp: allocated_pages_def hdr_ok_def)
  moreover have "sorted (filter (alloc_bit m) [1..<n])" "distinct (filter (alloc_bit m) [1..<n])" by (simp_all add: sorted_wrt_filter)
  ultimately have "sorted_list_of_set (allocated_pages m - {0}) = filter (alloc_bit m) [1..<n]"
    by (metis sorted_list_of_set.idem_if_sorted_distinct)
  then show ?thesis using bpi_drain_pages [OF assms] by simp
qed

theorem page_iterator_complete_witness:
  "bpi_drain 1 (pg_data header_page) \<lparr>bpi_bitmap = bh_bitmap (pg_data header_page), bpi_current = 0\<rparr> = []"
proof -
  have "hdr_ok (pg_data header_page) 1" using header_page_ok by (simp add: file_ok_def)
  note it = page_iterator_complete [OF this]
  have none: "allocated_pages (pg_data header_page) - {0} = {}" using header_page_data(1) by (auto simp: allocated_pages_def)
  show ?thesis using it unfolding none by simp
qed

text \<open>
  Property C34. \<open>flush_all_pages\<close> makes the file on disk equal to what the pool presents and leaves every page as it was,
  but it returns with one pin more on each frame of the file than before: \<open>find_list\<close> pins them and nothing
  unpins them.
\<close>

theorem flush_all_pages_durable:
  assumes "bp_inv s" "pool_at s b fd" "io_ok io"
  shows "\<exists>s'. flush_all_pages io b s = Some (SUCCESS, s') \<and> bp_inv s' \<and> logical s' = logical s \<and>
    (\<forall>k. fid_file_desc k = fd \<longrightarrow> disk_page s' k = logical s k) \<and>
    (\<forall>k p. cached s k = Some p \<longrightarrow> cached s' k = Some p \<and>
       fr_pin (sy_mem s' p) = fr_pin (sy_mem s p) + (if fid_file_desc k = fd then 1 else 0))"
proof -
  obtain s' where s': "flush_all_pages io b s = Some (SUCCESS, s')" "bp_inv s'" "logical s' = logical s" "cached s' = cached s"
    "\<forall>p. sy_mem s' p = (if p \<in> file_frames fd s then clear_dirty (pin (sy_mem s p)) else sy_mem s p)"
    "\<forall>k. fid_file_desc k = fd \<longrightarrow> disk_page s' k = logical s k"
    using flush_all_pages_correct [OF assms] by blast
  have "p \<in> file_frames fd s \<longleftrightarrow> fid_file_desc k = fd" if k: "cached s k = Some p" for k p
  proof
    assume "p \<in> file_frames fd s"
    then obtain k' where "cached s k' = Some p" "fid_file_desc k' = fd" by (auto simp: file_frames_def)
    then show "fid_file_desc k = fd" using fm_invD(5) [OF bp_invD(1) [OF assms(1)] k] by metis
  qed (use k in \<open>auto simp: file_frames_def\<close>)
  then have "fr_pin (sy_mem s' p) = fr_pin (sy_mem s p) + (if fid_file_desc k = fd then 1 else 0)" if "cached s k = Some p" for k p
    using that s'(5) by (simp add: pin_def clear_dirty_def)
  then show ?thesis using s'(1-4,6) by (intro exI [of _ s']) simp
qed

theorem flush_all_pages_durable_witness:
  "\<exists>s'. flush_all_pages demo_io 0 demo_sys = Some (SUCCESS, s') \<and> disk_page s' (FrameId_of 3 0) = Some header_page \<and>
    fr_pin (sy_mem s' demo_hdr) = 2"
  using flush_all_pages_durable [OF demo_bp_inv demo_io_ok] demo_sys_facts(3,5) pool_invD(2) [OF demo_sys_facts(2)]
  by fastforce

text \<open>
  Property C22. Closing a file and opening it again loses nothing: when only the header page of the file is held,
  \<open>close_file\<close> succeeds and a following \<open>open_file\<close> presents every page with the content it had.
\<close>

theorem close_then_open:
  assumes "bpm_rep ds s" "(name, b, fd) \<in> set ds" "pool_inv s b fd h n" "fr_pin (sy_mem s h) = 1"
    "\<forall>i p. i \<noteq> 0 \<and> cached s (FrameId_of fd i) = Some p \<longrightarrow> fr_pin (sy_mem s p) = 0" "io_ok io"
  shows "\<exists>s1 b' fd' s2. bpm_close_file io name s = Some (SUCCESS, s1) \<and> bpm_open_file io name s1 = Some (SUCCESS, Some b', s2) \<and>
    bpm_rep ((name, b', fd') # filter (\<lambda>d. of_name d \<noteq> name) ds) s2 \<and>
    (\<forall>i < n. logical s2 (FrameId_of fd' (int i)) = logical s (FrameId_of fd (int i)))"
proof -
  let ?ds = "filter (\<lambda>d. of_name d \<noteq> name) ds"
  obtain s1 ps where s1: "bpm_close_file io name s = Some (SUCCESS, s1)" "bpm_rep ?ds s1" "mp_frees (sy_alloc s1) \<noteq> []"
    "sy_disk s1 name = Some ps" "file_ok ps" "length ps = n" "\<forall>i < n. logical s (FrameId_of fd (int i)) = Some (ps ! i)"
    using close_pool_correct [OF assms(1,2), of h n io] assms(3-6) by auto
  have "frame_available io (lowest_fd (sy_fds s1)) s1" using s1(3) by (simp add: frame_available_def)
  then obtain s2 where s2: "bpm_open_file io name s1 = Some (SUCCESS, Some (sy_pool_brk s1), s2)"
    "bpm_rep ((name, sy_pool_brk s1, lowest_fd (sy_fds s1)) # ?ds) s2"
    "\<forall>i < length ps. logical s2 (FrameId_of (lowest_fd (sy_fds s1)) (int i)) = Some (ps ! i)"
    using open_pool_correct [OF s1(2) _ s1(4,5) assms(6)] by auto
  show ?thesis using s1(1,6,7) s2 by (intro exI [of _ s1] exI [of _ "sy_pool_brk s1"] exI [of _ "lowest_fd (sy_fds s1)"] exI [of _ s2]) simp
qed

theorem close_then_open_witness:
  "\<exists>s1 b' fd' s2. bpm_close_file demo_io ''t'' demo_sys = Some (SUCCESS, s1) \<and> bpm_open_file demo_io ''t'' s1 = Some (SUCCESS, Some b', s2) \<and>
    bpm_rep [(''t'', b', fd')] s2 \<and> (\<forall>i < 1. logical s2 (FrameId_of fd' (int i)) = logical demo_sys (FrameId_of 3 (int i)))"
proof -
  have "\<forall>i p. i \<noteq> 0 \<and> cached demo_sys (FrameId_of 3 i) = Some p \<longrightarrow> fr_pin (sy_mem demo_sys p) = 0" using demo_sys_facts(4) by fastforce
  from close_then_open [OF demo_sys_facts(1) _ demo_sys_facts(2,3) this demo_io_ok, of "''t''"] show ?thesis by simp
qed

end
