(* ===== verification/BplusNode.thy ===== *)
theory BplusNode
  imports Comparator Frame
begin

section \<open>Nodes of the B+ tree (IndexNodeHandler, LeafIndexNodeHandler, InternalIndexNodeHandler)\<close>

text \<open>
  A node lives in the data area of a page: a header and an array of \<open>key_num\<close> items of fixed size. The
  model keeps the first \<open>key_num\<close> items as a list (\<open>size()\<close> is its length), so that the moves of
  memory blocks become operations on lists; what lies behind the last item is never read. Keys are the
  bytes of the attribute followed by the record identifier. A failing \<open>assert\<close> is \<^const>\<open>None\<close>. The
  operations of internal nodes that also change the parent field of children work on the page store
  and are in the theory of the tree.
\<close>

subsection \<open>Data\<close>

type_synonym key = "byte list"

record IndexFileHeader =
  fh_root_page :: int
  fh_internal_max_size :: int
  fh_leaf_max_size :: int
  fh_attr_length :: int
  fh_key_length :: int
  fh_attr_type :: AttrType

datatype BplusTreeOperationType = READ | INSERT | DELETE

record LeafIndexNode =
  lf_parent :: int
  lf_next_brother :: int
  lf_array :: "(key \<times> RID) list"

record InternalIndexNode =
  in_parent :: int
  in_array :: "(key \<times> int) list"

datatype IndexNode = LeafNode LeafIndexNode | InternalNode InternalIndexNode

text \<open>How many items fit into a page.\<close>

definition calc_internal_page_capacity :: "int \<Rightarrow> int" where
  "calc_internal_page_capacity attr_length = (int BP_PAGE_DATA_SIZE - 12) div (attr_length + 8 + 4)"

definition calc_leaf_page_capacity :: "int \<Rightarrow> int" where
  "calc_leaf_page_capacity attr_length = (int BP_PAGE_DATA_SIZE - (12 + 4)) div (attr_length + 8 + 8)"

subsection \<open>IndexNodeHandler\<close>

fun nd_is_leaf :: "IndexNode \<Rightarrow> bool" where
  "nd_is_leaf (LeafNode _) = True"
| "nd_is_leaf (InternalNode _) = False"

fun nd_size :: "IndexNode \<Rightarrow> int" where
  "nd_size (LeafNode n) = int (length (lf_array n))"
| "nd_size (InternalNode n) = int (length (in_array n))"

definition nd_max_size :: "IndexFileHeader \<Rightarrow> IndexNode \<Rightarrow> int" where
  "nd_max_size header n = (if nd_is_leaf n then fh_leaf_max_size header else fh_internal_max_size header)"

text \<open>\<open>/\<close> truncates towards zero, as \<open>div\<close> does for the positive sizes that occur.\<close>

definition nd_min_size :: "IndexFileHeader \<Rightarrow> IndexNode \<Rightarrow> int" where
  "nd_min_size header n = (let mx = nd_max_size header n in mx - mx div 2)"

fun nd_parent :: "IndexNode \<Rightarrow> int" where
  "nd_parent (LeafNode n) = lf_parent n"
| "nd_parent (InternalNode n) = in_parent n"

fun nd_set_parent :: "int \<Rightarrow> IndexNode \<Rightarrow> IndexNode" where
  "nd_set_parent p (LeafNode n) = LeafNode (n\<lparr>lf_parent := p\<rparr>)"
| "nd_set_parent p (InternalNode n) = InternalNode (n\<lparr>in_parent := p\<rparr>)"

definition nd_is_safe :: "IndexFileHeader \<Rightarrow> BplusTreeOperationType \<Rightarrow> bool \<Rightarrow> IndexNode \<Rightarrow> bool" where
  "nd_is_safe header op is_root_node n =
     (case op of
        READ \<Rightarrow> True
      | INSERT \<Rightarrow> nd_size n < nd_max_size header n
      | DELETE \<Rightarrow>
          if is_root_node then (if nd_is_leaf n then nd_size n > 1 else nd_size n > 2)
          else nd_size n > nd_min_size header n)"

definition nd_validate :: "IndexNode \<Rightarrow> bool" where
  "nd_validate n =
     (if nd_parent n = BP_INVALID_PAGE_NUM then
        (if nd_size n < 1 then False
         else if \<not> nd_is_leaf n \<and> nd_size n < 2 then False
         else True)
      else True)"

subsection \<open>LeafIndexNodeHandler\<close>

definition leaf_init_empty :: LeafIndexNode where
  "leaf_init_empty = \<lparr>lf_parent = BP_INVALID_PAGE_NUM, lf_next_brother = BP_INVALID_PAGE_NUM, lf_array = []\<rparr>"

definition leaf_key_at :: "int \<Rightarrow> LeafIndexNode \<Rightarrow> key option" where
  "leaf_key_at index n = (if 0 \<le> index \<and> index < int (length (lf_array n)) then Some (fst (lf_array n ! nat index)) else None)"

definition leaf_value_at :: "int \<Rightarrow> LeafIndexNode \<Rightarrow> RID option" where
  "leaf_value_at index n = (if 0 \<le> index \<and> index < int (length (lf_array n)) then Some (snd (lf_array n ! nat index)) else None)"

definition leaf_lookup :: "(key \<Rightarrow> key \<Rightarrow> int) \<Rightarrow> key \<Rightarrow> LeafIndexNode \<Rightarrow> nat \<times> bool" where
  "leaf_lookup comparator key n = lower_bound (\<lambda>item val. comparator (fst item) val) (lf_array n) key"

text \<open>Inserting at a position up to the size: the items from the position on move up by one.\<close>

definition leaf_insert :: "nat \<Rightarrow> key \<Rightarrow> RID \<Rightarrow> LeafIndexNode \<Rightarrow> LeafIndexNode" where
  "leaf_insert index key value n =
     n\<lparr>lf_array := take index (lf_array n) @ (key, value) # drop index (lf_array n)\<rparr>"

definition leaf_remove :: "int \<Rightarrow> LeafIndexNode \<Rightarrow> LeafIndexNode option" where
  "leaf_remove index n =
     (if 0 \<le> index \<and> index < int (length (lf_array n))
      then Some (n\<lparr>lf_array := take (nat index) (lf_array n) @ drop (Suc (nat index)) (lf_array n)\<rparr>)
      else None)"

definition leaf_remove_key :: "(key \<Rightarrow> key \<Rightarrow> int) \<Rightarrow> key \<Rightarrow> LeafIndexNode \<Rightarrow> (int \<times> LeafIndexNode) option" where
  "leaf_remove_key comparator key n =
     (let (index, found) = leaf_lookup comparator key n
      in if found then map_option (Pair 1) (leaf_remove (int index) n) else Some (0, n))"

text \<open>The other node has just been initialised: its array starts with the moved items.\<close>

definition leaf_move_half_to :: "LeafIndexNode \<Rightarrow> LeafIndexNode \<Rightarrow> LeafIndexNode \<times> LeafIndexNode" where
  "leaf_move_half_to n other =
     (let move_index = length (lf_array n) div 2
      in (n\<lparr>lf_array := take move_index (lf_array n)\<rparr>,
          other\<lparr>lf_array := drop move_index (lf_array n)\<rparr>))"

definition leaf_append :: "key \<times> RID \<Rightarrow> LeafIndexNode \<Rightarrow> LeafIndexNode" where
  "leaf_append item n = n\<lparr>lf_array := lf_array n @ [item]\<rparr>"

definition leaf_preappend :: "key \<times> RID \<Rightarrow> LeafIndexNode \<Rightarrow> LeafIndexNode" where
  "leaf_preappend item n = n\<lparr>lf_array := item # lf_array n\<rparr>"

text \<open>On an empty node the next two read an item that is not there: \<^const>\<open>None\<close>.\<close>

definition leaf_move_first_to_end :: "LeafIndexNode \<Rightarrow> LeafIndexNode \<Rightarrow> (LeafIndexNode \<times> LeafIndexNode) option" where
  "leaf_move_first_to_end n other =
     (case lf_array n of [] \<Rightarrow> None | item # rest \<Rightarrow> Some (n\<lparr>lf_array := rest\<rparr>, leaf_append item other))"

definition leaf_move_last_to_front :: "LeafIndexNode \<Rightarrow> LeafIndexNode \<Rightarrow> (LeafIndexNode \<times> LeafIndexNode) option" where
  "leaf_move_last_to_front n other =
     (if lf_array n = [] then None
      else Some (n\<lparr>lf_array := butlast (lf_array n)\<rparr>, leaf_preappend (last (lf_array n)) other))"

definition leaf_move_to :: "LeafIndexNode \<Rightarrow> LeafIndexNode \<Rightarrow> LeafIndexNode \<times> LeafIndexNode" where
  "leaf_move_to n other =
     (n\<lparr>lf_array := []\<rparr>, other\<lparr>lf_array := lf_array other @ lf_array n, lf_next_brother := lf_next_brother n\<rparr>)"

subsection \<open>InternalIndexNodeHandler\<close>

definition internal_init_empty :: InternalIndexNode where
  "internal_init_empty = \<lparr>in_parent = BP_INVALID_PAGE_NUM, in_array = []\<rparr>"

definition internal_create_new_root :: "IndexFileHeader \<Rightarrow> int \<Rightarrow> key \<Rightarrow> int \<Rightarrow> InternalIndexNode \<Rightarrow> InternalIndexNode" where
  "internal_create_new_root header first_pgno key pgno n =
     n\<lparr>in_array := [(replicate (nat (fh_key_length header)) 0, first_pgno), (key, pgno)]\<rparr>"

definition internal_key_at :: "int \<Rightarrow> InternalIndexNode \<Rightarrow> key option" where
  "internal_key_at index n = (if 0 \<le> index \<and> index < int (length (in_array n)) then Some (fst (in_array n ! nat index)) else None)"

definition internal_value_at :: "int \<Rightarrow> InternalIndexNode \<Rightarrow> int option" where
  "internal_value_at index n = (if 0 \<le> index \<and> index < int (length (in_array n)) then Some (snd (in_array n ! nat index)) else None)"

definition internal_set_key_at :: "int \<Rightarrow> key \<Rightarrow> InternalIndexNode \<Rightarrow> InternalIndexNode option" where
  "internal_set_key_at index key n =
     (if 0 \<le> index \<and> index < int (length (in_array n))
      then Some (n\<lparr>in_array := (in_array n)[nat index := (key, snd (in_array n ! nat index))]\<rparr>)
      else None)"

text \<open>
  The first key is not compared. The result is the index of the child to follow, whether the key was
  found among the separators, and the position at which a new separator would go.
\<close>

definition internal_lookup :: "(key \<Rightarrow> key \<Rightarrow> int) \<Rightarrow> key \<Rightarrow> InternalIndexNode \<Rightarrow> nat \<times> bool \<times> nat" where
  "internal_lookup comparator key n =
     (let size = length (in_array n)
      in if size = 0 then (0, False, 1)
         else let (i, found) = lower_bound (\<lambda>item val. comparator (fst item) val) (tl (in_array n)) key;
                  ret = i + 1
              in (if ret \<ge> size \<or> comparator key (fst (in_array n ! ret)) < 0 then ret - 1 else ret, found, ret))"

definition internal_insert :: "key \<Rightarrow> int \<Rightarrow> (key \<Rightarrow> key \<Rightarrow> int) \<Rightarrow> InternalIndexNode \<Rightarrow> InternalIndexNode" where
  "internal_insert key pgno comparator n =
     (let (_, _, insert_position) = internal_lookup comparator key n
      in n\<lparr>in_array := take insert_position (in_array n) @ (key, pgno) # drop insert_position (in_array n)\<rparr>)"

definition internal_value_index :: "int \<Rightarrow> InternalIndexNode \<Rightarrow> int" where
  "internal_value_index pgno n = first_from (\<lambda>i. pgno = snd (in_array n ! i)) 0 (length (in_array n))"

definition internal_remove :: "int \<Rightarrow> InternalIndexNode \<Rightarrow> InternalIndexNode option" where
  "internal_remove index n =
     (if 0 \<le> index \<and> index < int (length (in_array n))
      then Some (n\<lparr>in_array := take (nat index) (in_array n) @ drop (Suc (nat index)) (in_array n)\<rparr>)
      else None)"

end
