(* ===== verification/BplusTree.thy ===== *)
theory BplusTree
  imports BplusNode PoolContract
begin

section \<open>The B+ tree (BplusTreeHandler, BplusTreeScanner)\<close>

text \<open>
  The tree works on pages of a buffer pool. What it relies on is the contract of the pool: a page keeps
  its content between two accesses, and \<open>allocate_page\<close> returns the lowest page that is not in use
  (\<open>PoolContract\<close>). The state here is therefore the map from page numbers to the nodes they
  hold; \<open>bt_fault\<close> and \<open>bt_alloc_fault\<close> are the codes the pool answers with when a page is fetched or
  allocated, so that every error path is a branch. Reading a page that was never initialised as a node
  is undefined and is \<^const>\<open>None\<close>, as is a failing assertion. The pages an operation disposes of leave the map when the operation ends.

  The nodes are the ones in the frames. \<open>bt_dirty\<close> holds the pages whose frames are marked dirty: before the pool evicts such a frame it writes it to the
  disk, while a clean one is dropped together with whatever was changed in it. Every \<open>mark_dirty\<close> of the code is a \<open>bt_mark\<close> at its place, and there is no other.
\<close>

subsection \<open>The page store\<close>

type_synonym pages = "int \<Rightarrow> IndexNode option"

record BplusTreeHandler =
  bt_header :: IndexFileHeader
  bt_header_dirty :: bool
  bt_pages :: pages
  bt_dirty :: "int set"
  bt_disposed :: "int list"
  bt_fault :: "int \<Rightarrow> RC"
  bt_alloc_fault :: RC

definition FIRST_INDEX_PAGE :: int where
  "FIRST_INDEX_PAGE = 1"

definition bt_get :: "int \<Rightarrow> BplusTreeHandler \<Rightarrow> (RC \<times> IndexNode) option" where
  "bt_get pgno s = map_option (Pair (bt_fault s pgno)) (bt_pages s pgno)"

definition bt_set :: "int \<Rightarrow> IndexNode \<Rightarrow> BplusTreeHandler \<Rightarrow> BplusTreeHandler" where
  "bt_set pgno n s = s\<lparr>bt_pages := (bt_pages s)(pgno \<mapsto> n)\<rparr>"

definition bt_mark :: "int \<Rightarrow> BplusTreeHandler \<Rightarrow> BplusTreeHandler" where
  "bt_mark pgno s = s\<lparr>bt_dirty := insert pgno (bt_dirty s)\<rparr>"

function lowest_free :: "pages \<Rightarrow> nat \<Rightarrow> nat \<Rightarrow> nat option" where
  "lowest_free ps i n = (if i < n then if ps (int i) = None then Some i else lowest_free ps (Suc i) n else None)"
  by pat_completeness auto
termination
  by (relation "measure (\<lambda>(ps, i, n). n - i)") auto

declare lowest_free.simps [simp del]

text \<open>Page 0 is the header of the file, page 1 the header of the index; both are always in use.\<close>

definition bt_allocate :: "BplusTreeHandler \<Rightarrow> RC \<times> int" where
  "bt_allocate s =
     (if bt_alloc_fault s \<noteq> SUCCESS then (bt_alloc_fault s, BP_INVALID_PAGE_NUM)
      else case lowest_free (bt_pages s) 2 (nat MAX_PAGE_NUM) of
        None \<Rightarrow> (BUFFERPOOL_NOBUF, BP_INVALID_PAGE_NUM)
      | Some i \<Rightarrow> (SUCCESS, int i))"

definition bt_dispose :: "int \<Rightarrow> BplusTreeHandler \<Rightarrow> BplusTreeHandler" where
  "bt_dispose pgno s = s\<lparr>bt_disposed := bt_disposed s @ [pgno]\<rparr>"

text \<open>The destructor of the latch memo at the end of an operation.\<close>

definition bt_release :: "BplusTreeHandler \<Rightarrow> BplusTreeHandler" where
  "bt_release s = s\<lparr>bt_pages := (\<lambda>p. if p \<in> set (bt_disposed s) then None else bt_pages s p),
     bt_dirty := bt_dirty s - set (bt_disposed s), bt_disposed := []\<rparr>"

definition bt_leaf :: "int \<Rightarrow> BplusTreeHandler \<Rightarrow> LeafIndexNode option" where
  "bt_leaf pgno s = (case bt_pages s pgno of Some (LeafNode n) \<Rightarrow> Some n | _ \<Rightarrow> None)"

definition bt_internal :: "int \<Rightarrow> BplusTreeHandler \<Rightarrow> InternalIndexNode option" where
  "bt_internal pgno s = (case bt_pages s pgno of Some (InternalNode n) \<Rightarrow> Some n | _ \<Rightarrow> None)"

definition bt_is_empty :: "BplusTreeHandler \<Rightarrow> bool" where
  "bt_is_empty s \<longleftrightarrow> fh_root_page (bt_header s) = BP_INVALID_PAGE_NUM"

definition update_root_page_num_locked :: "int \<Rightarrow> BplusTreeHandler \<Rightarrow> BplusTreeHandler" where
  "update_root_page_num_locked pgno s = s\<lparr>bt_header := (bt_header s)\<lparr>fh_root_page := pgno\<rparr>, bt_header_dirty := True\<rparr>"

subsection \<open>Internal nodes and their children\<close>

text \<open>The loop of \<open>copy_from\<close>: every child whose item was copied gets the new parent.\<close>

primrec adopt_children :: "int \<Rightarrow> (key \<times> int) list \<Rightarrow> BplusTreeHandler \<Rightarrow> (RC \<times> BplusTreeHandler) option" where
  "adopt_children this_pgno [] s = Some (SUCCESS, s)"
| "adopt_children this_pgno (item # items) s = do {
     (rc, child) \<leftarrow> bt_get (snd item) s;
     if rc \<noteq> SUCCESS then Some (rc, s)
     else adopt_children this_pgno items (bt_mark (snd item) (bt_set (snd item) (nd_set_parent this_pgno child) s))
   }"

definition internal_copy_from :: "int \<Rightarrow> (key \<times> int) list \<Rightarrow> BplusTreeHandler \<Rightarrow> (RC \<times> BplusTreeHandler) option" where
  "internal_copy_from this_pgno items s = do {
     (rc, s) \<leftarrow> adopt_children this_pgno items s;
     if rc \<noteq> SUCCESS then Some (rc, s)
     else do {
       n \<leftarrow> bt_internal this_pgno s;
       Some (rc, bt_set this_pgno (InternalNode (n\<lparr>in_array := in_array n @ items\<rparr>)) s)
     }
   }"

definition internal_move_half_to :: "int \<Rightarrow> int \<Rightarrow> BplusTreeHandler \<Rightarrow> (RC \<times> BplusTreeHandler) option" where
  "internal_move_half_to this_pgno other_pgno s = do {
     n \<leftarrow> bt_internal this_pgno s;
     let move_index = length (in_array n) div 2;
     (rc, s) \<leftarrow> internal_copy_from other_pgno (drop move_index (in_array n)) s;
     if rc \<noteq> SUCCESS then Some (rc, s)
     else do {
       n \<leftarrow> bt_internal this_pgno s;
       Some (rc, bt_set this_pgno (InternalNode (n\<lparr>in_array := take move_index (in_array n)\<rparr>)) s)
     }
   }"

definition internal_move_to :: "int \<Rightarrow> int \<Rightarrow> BplusTreeHandler \<Rightarrow> (RC \<times> BplusTreeHandler) option" where
  "internal_move_to this_pgno other_pgno s = do {
     n \<leftarrow> bt_internal this_pgno s;
     (rc, s) \<leftarrow> internal_copy_from other_pgno (in_array n) s;
     if rc \<noteq> SUCCESS then Some (rc, s)
     else do {
       n \<leftarrow> bt_internal this_pgno s;
       Some (SUCCESS, bt_set this_pgno (InternalNode (n\<lparr>in_array := []\<rparr>)) s)
     }
   }"

definition internal_move_first_to_end :: "int \<Rightarrow> int \<Rightarrow> BplusTreeHandler \<Rightarrow> (RC \<times> BplusTreeHandler) option" where
  "internal_move_first_to_end this_pgno other_pgno s = do {
     n \<leftarrow> bt_internal this_pgno s;
     case in_array n of
       [] \<Rightarrow> None
     | item # _ \<Rightarrow> do {
         (rc, s) \<leftarrow> internal_copy_from other_pgno [item] s;
         if rc \<noteq> SUCCESS then Some (rc, s)
         else do {
           n \<leftarrow> bt_internal this_pgno s;
           Some (rc, bt_set this_pgno (InternalNode (n\<lparr>in_array := tl (in_array n)\<rparr>)) s)
         }
       }
   }"

definition internal_preappend :: "int \<Rightarrow> key \<times> int \<Rightarrow> BplusTreeHandler \<Rightarrow> (RC \<times> BplusTreeHandler) option" where
  "internal_preappend this_pgno item s = do {
     (rc, child) \<leftarrow> bt_get (snd item) s;
     if rc \<noteq> SUCCESS then Some (rc, s)
     else do {
       s \<leftarrow> Some (bt_mark (snd item) (bt_set (snd item) (nd_set_parent this_pgno child) s));
       n \<leftarrow> bt_internal this_pgno s;
       Some (SUCCESS, bt_set this_pgno (InternalNode (n\<lparr>in_array := item # in_array n\<rparr>)) s)
     }
   }"

definition internal_move_last_to_front :: "int \<Rightarrow> int \<Rightarrow> BplusTreeHandler \<Rightarrow> (RC \<times> BplusTreeHandler) option" where
  "internal_move_last_to_front this_pgno other_pgno s = do {
     n \<leftarrow> bt_internal this_pgno s;
     if in_array n = [] then None
     else do {
       (rc, s) \<leftarrow> internal_preappend other_pgno (last (in_array n)) s;
       if rc \<noteq> SUCCESS then Some (rc, s)
       else do {
         n \<leftarrow> bt_internal this_pgno s;
         Some (rc, bt_set this_pgno (InternalNode (n\<lparr>in_array := butlast (in_array n)\<rparr>)) s)
       }
     }
   }"

subsection \<open>Finding a leaf\<close>

partial_function (option) find_leaf_loop ::
  "(InternalIndexNode \<Rightarrow> int option) \<Rightarrow> int \<Rightarrow> BplusTreeHandler \<Rightarrow> (RC \<times> int) option" where
  "find_leaf_loop child_page_getter pgno s = do {
     (rc, node) \<leftarrow> bt_get pgno s;
     if rc \<noteq> SUCCESS then Some (rc, pgno)
     else case node of
       LeafNode _ \<Rightarrow> Some (SUCCESS, pgno)
     | InternalNode n \<Rightarrow> Option.bind (child_page_getter n) (\<lambda>next_page_id. find_leaf_loop child_page_getter next_page_id s)
   }"

definition find_leaf_internal :: "(InternalIndexNode \<Rightarrow> int option) \<Rightarrow> BplusTreeHandler \<Rightarrow> (RC \<times> int) option" where
  "find_leaf_internal child_page_getter s =
     (if bt_is_empty s then Some (EMPTY, BP_INVALID_PAGE_NUM)
      else find_leaf_loop child_page_getter (fh_root_page (bt_header s)) s)"

definition find_leaf :: "(key \<Rightarrow> key \<Rightarrow> int) \<Rightarrow> key \<Rightarrow> BplusTreeHandler \<Rightarrow> (RC \<times> int) option" where
  "find_leaf key_comparator key s =
     find_leaf_internal (\<lambda>n. internal_value_at (int (fst (internal_lookup key_comparator key n))) n) s"

definition left_most_page :: "BplusTreeHandler \<Rightarrow> (RC \<times> int) option" where
  "left_most_page s = find_leaf_internal (internal_value_at 0) s"

subsection \<open>Insertion\<close>

definition split_leaf :: "int \<Rightarrow> BplusTreeHandler \<Rightarrow> (RC \<times> int \<times> BplusTreeHandler) option" where
  "split_leaf pgno s = do {
     old \<leftarrow> bt_leaf pgno s;
     let (rc, new_pgno) = bt_allocate s;
     if rc \<noteq> SUCCESS then Some (rc, new_pgno, s)
     else do {
       let (old', new') = leaf_move_half_to old (leaf_init_empty\<lparr>lf_parent := lf_parent old\<rparr>);
       Some (SUCCESS, new_pgno, bt_mark new_pgno (bt_mark pgno (bt_set pgno (LeafNode old') (bt_set new_pgno (LeafNode new') s))))
     }
   }"

text \<open>The result of \<open>move_half_to\<close> is ignored.\<close>

definition split_internal :: "int \<Rightarrow> BplusTreeHandler \<Rightarrow> (RC \<times> int \<times> BplusTreeHandler) option" where
  "split_internal pgno s = do {
     old \<leftarrow> bt_internal pgno s;
     let (rc, new_pgno) = bt_allocate s;
     if rc \<noteq> SUCCESS then Some (rc, new_pgno, s)
     else do {
       s \<leftarrow> Some (bt_set new_pgno (InternalNode (internal_init_empty\<lparr>in_parent := in_parent old\<rparr>)) s);
       (_, s) \<leftarrow> internal_move_half_to pgno new_pgno s;
       Some (SUCCESS, new_pgno, bt_mark new_pgno (bt_mark pgno s))
     }
   }"

definition set_parent :: "int \<Rightarrow> int \<Rightarrow> BplusTreeHandler \<Rightarrow> BplusTreeHandler option" where
  "set_parent pgno parent s = do {
     n \<leftarrow> bt_pages s pgno;
     Some (bt_set pgno (nd_set_parent parent n) s)
   }"

partial_function (option) insert_entry_into_parent ::
  "(key \<Rightarrow> key \<Rightarrow> int) \<Rightarrow> int \<Rightarrow> int \<Rightarrow> key \<Rightarrow> BplusTreeHandler \<Rightarrow> (RC \<times> BplusTreeHandler) option" where
  "insert_entry_into_parent key_comparator pgno new_pgno key s = do {
     node \<leftarrow> bt_pages s pgno;
     (if nd_parent node = BP_INVALID_PAGE_NUM then
        (case bt_allocate s of (rc, root_pgno) \<Rightarrow>
         if rc \<noteq> SUCCESS then Some (rc, s)
         else Option.bind (set_parent pgno root_pgno (bt_set root_pgno
                (InternalNode (internal_create_new_root (bt_header s) pgno key new_pgno internal_init_empty)) s)) (\<lambda>s.
              Option.bind (set_parent new_pgno root_pgno s) (\<lambda>s.
              Some (SUCCESS, bt_mark root_pgno (update_root_page_num_locked root_pgno (bt_mark new_pgno (bt_mark pgno s)))))))
      else Option.bind (bt_get (nd_parent node) s) (\<lambda>(rc, parent).
        if rc \<noteq> SUCCESS then Some (rc, s)
        else Option.bind (bt_internal (nd_parent node) s) (\<lambda>parent_node.
          if nd_size parent < nd_max_size (bt_header s) parent then
            Option.bind (set_parent new_pgno (nd_parent node)
              (bt_set (nd_parent node) (InternalNode (internal_insert key new_pgno key_comparator parent_node)) s)) (\<lambda>s.
            Some (SUCCESS, bt_mark (nd_parent node) (bt_mark new_pgno (bt_mark pgno s))))
          else Option.bind (split_internal (nd_parent node) s) (\<lambda>(rc, new_parent_pgno, s).
            if rc \<noteq> SUCCESS then Some (rc, s)
            else Option.bind (bt_internal new_parent_pgno s) (\<lambda>new_node.
              Option.bind (internal_key_at 0 new_node) (\<lambda>new_key0.
              Option.bind (if key_comparator key new_key0 > 0
                 then set_parent new_pgno new_parent_pgno
                        (bt_set new_parent_pgno (InternalNode (internal_insert key new_pgno key_comparator new_node)) s)
                 else Option.bind (bt_internal (nd_parent node) s) (\<lambda>parent_node.
                        set_parent new_pgno (nd_parent node)
                          (bt_set (nd_parent node) (InternalNode (internal_insert key new_pgno key_comparator parent_node)) s))) (\<lambda>s.
              Option.bind (bt_internal new_parent_pgno s) (\<lambda>new_node.
              Option.bind (internal_key_at 0 new_node) (\<lambda>key.
              insert_entry_into_parent key_comparator (nd_parent node) new_parent_pgno key s)))))))))
   }"

definition insert_entry_into_leaf_node ::
  "(key \<Rightarrow> key \<Rightarrow> int) \<Rightarrow> int \<Rightarrow> key \<Rightarrow> RID \<Rightarrow> BplusTreeHandler \<Rightarrow> (RC \<times> BplusTreeHandler) option" where
  "insert_entry_into_leaf_node key_comparator pgno key rid s = do {
     leaf_node \<leftarrow> bt_leaf pgno s;
     let (insert_position, found) = leaf_lookup key_comparator key leaf_node;
     if found then Some (RECORD_DUPLICATE_KEY, s)
     else if int (length (lf_array leaf_node)) < fh_leaf_max_size (bt_header s) then
       Some (SUCCESS, bt_mark pgno (bt_set pgno (LeafNode (leaf_insert insert_position key rid leaf_node)) s))
     else do {
       (rc, new_pgno, s) \<leftarrow> split_leaf pgno s;
       if rc \<noteq> SUCCESS then Some (rc, s)
       else do {
         leaf_node \<leftarrow> bt_leaf pgno s;
         new_node \<leftarrow> bt_leaf new_pgno s;
         let new_node = new_node\<lparr>lf_next_brother := lf_next_brother leaf_node, lf_parent := lf_parent leaf_node\<rparr>;
         let leaf_node = leaf_node\<lparr>lf_next_brother := new_pgno\<rparr>;
         let size = length (lf_array leaf_node);
         let (leaf_node, new_node) =
           (if insert_position < size then (leaf_insert insert_position key rid leaf_node, new_node)
            else (leaf_node, leaf_insert (insert_position - size) key rid new_node));
         s \<leftarrow> Some (bt_set new_pgno (LeafNode new_node) (bt_set pgno (LeafNode leaf_node) s));
         new_key \<leftarrow> leaf_key_at 0 new_node;
         insert_entry_into_parent key_comparator pgno new_pgno new_key s
       }
     }
   }"

definition create_new_tree :: "key \<Rightarrow> RID \<Rightarrow> BplusTreeHandler \<Rightarrow> RC \<times> BplusTreeHandler" where
  "create_new_tree key rid s =
     (if fh_root_page (bt_header s) \<noteq> BP_INVALID_PAGE_NUM then (INTERNAL, s)
      else let (rc, pgno) = bt_allocate s in
        if rc \<noteq> SUCCESS then (rc, s)
        else (SUCCESS, bt_mark pgno (update_root_page_num_locked pgno (bt_set pgno (LeafNode (leaf_insert 0 key rid leaf_init_empty)) s))))"

definition rid_bytes :: "RID \<Rightarrow> byte list" where
  "rid_bytes rid = mem_slice (write_i32 (write_i32 zero_mem 0 (page_num rid)) 4 (slot_num rid)) 0 8"

definition make_key :: "IndexFileHeader \<Rightarrow> byte list \<Rightarrow> RID \<Rightarrow> key" where
  "make_key header user_key rid = take (nat (fh_attr_length header)) user_key @ rid_bytes rid"

definition insert_entry ::
  "(key \<Rightarrow> key \<Rightarrow> int) \<Rightarrow> byte list option \<Rightarrow> RID option \<Rightarrow> BplusTreeHandler \<Rightarrow> (RC \<times> BplusTreeHandler) option" where
  "insert_entry key_comparator user_key rid s =
     (case (user_key, rid) of
        (Some user_key, Some rid) \<Rightarrow>
          let key = make_key (bt_header s) user_key rid in
          if bt_is_empty s then Some (create_new_tree key rid s)
          else do {
            (rc, pgno) \<leftarrow> find_leaf key_comparator key s;
            if rc \<noteq> SUCCESS then Some (rc, bt_release s)
            else do {
              (rc, s) \<leftarrow> insert_entry_into_leaf_node key_comparator pgno key rid s;
              Some (rc, bt_release s)
            }
          }
      | _ \<Rightarrow> Some (INVALID_ARGUMENT, s))"

subsection \<open>Deletion\<close>

text \<open>The result of \<open>adjust_root\<close> is ignored by its only caller. The child that becomes the root is changed and not marked.\<close>

definition adjust_root :: "int \<Rightarrow> BplusTreeHandler \<Rightarrow> (RC \<times> BplusTreeHandler) option" where
  "adjust_root root_pgno s = do {
     root_node \<leftarrow> bt_pages s root_pgno;
     if nd_is_leaf root_node \<and> nd_size root_node > 0 then Some (SUCCESS, bt_mark root_pgno s)
     else if nd_is_leaf root_node then
       (if nd_size root_node = 0
        then Some (SUCCESS, bt_dispose root_pgno (update_root_page_num_locked BP_INVALID_PAGE_NUM s)) else None)
     else do {
       internal_node \<leftarrow> bt_internal root_pgno s;
       child_pgno \<leftarrow> internal_value_at 0 internal_node;
       (rc, child) \<leftarrow> bt_get child_pgno s;
       if rc \<noteq> SUCCESS then Some (rc, s)
       else Some (SUCCESS, bt_dispose root_pgno (update_root_page_num_locked child_pgno
              (bt_set child_pgno (nd_set_parent BP_INVALID_PAGE_NUM child) s)))
     }
   }"

fun nd_key_at :: "int \<Rightarrow> IndexNode \<Rightarrow> key option" where
  "nd_key_at index (LeafNode n) = leaf_key_at index n"
| "nd_key_at index (InternalNode n) = internal_key_at index n"

text \<open>The moves between siblings, for the two instances of the templates.\<close>

definition move_to :: "bool \<Rightarrow> int \<Rightarrow> int \<Rightarrow> BplusTreeHandler \<Rightarrow> (RC \<times> BplusTreeHandler) option" where
  "move_to leaf this_pgno other_pgno s =
     (if leaf then do {
        n \<leftarrow> bt_leaf this_pgno s;
        other \<leftarrow> bt_leaf other_pgno s;
        let (n, other) = leaf_move_to n other;
        Some (SUCCESS, bt_set other_pgno (LeafNode other) (bt_set this_pgno (LeafNode n) s))
      } else internal_move_to this_pgno other_pgno s)"

definition move_first_to_end :: "bool \<Rightarrow> int \<Rightarrow> int \<Rightarrow> BplusTreeHandler \<Rightarrow> (RC \<times> BplusTreeHandler) option" where
  "move_first_to_end leaf this_pgno other_pgno s =
     (if leaf then do {
        n \<leftarrow> bt_leaf this_pgno s;
        other \<leftarrow> bt_leaf other_pgno s;
        (n, other) \<leftarrow> leaf_move_first_to_end n other;
        Some (SUCCESS, bt_set other_pgno (LeafNode other) (bt_set this_pgno (LeafNode n) s))
      } else internal_move_first_to_end this_pgno other_pgno s)"

definition move_last_to_front :: "bool \<Rightarrow> int \<Rightarrow> int \<Rightarrow> BplusTreeHandler \<Rightarrow> (RC \<times> BplusTreeHandler) option" where
  "move_last_to_front leaf this_pgno other_pgno s =
     (if leaf then do {
        n \<leftarrow> bt_leaf this_pgno s;
        other \<leftarrow> bt_leaf other_pgno s;
        (n, other) \<leftarrow> leaf_move_last_to_front n other;
        Some (SUCCESS, bt_set other_pgno (LeafNode other) (bt_set this_pgno (LeafNode n) s))
      } else internal_move_last_to_front this_pgno other_pgno s)"

definition set_key_at :: "int \<Rightarrow> int \<Rightarrow> key \<Rightarrow> BplusTreeHandler \<Rightarrow> BplusTreeHandler option" where
  "set_key_at pgno index key s = do {
     n \<leftarrow> bt_internal pgno s;
     n \<leftarrow> internal_set_key_at index key n;
     Some (bt_set pgno (InternalNode n) s)
   }"

text \<open>The results of the two moves are ignored.\<close>

definition redistribute :: "bool \<Rightarrow> int \<Rightarrow> int \<Rightarrow> int \<Rightarrow> int \<Rightarrow> BplusTreeHandler \<Rightarrow> (RC \<times> BplusTreeHandler) option" where
  "redistribute leaf neighbor_pgno pgno parent_pgno index s =
     (if index = 0 then do {
        (_, s) \<leftarrow> move_first_to_end leaf neighbor_pgno pgno s;
        neighbor \<leftarrow> bt_pages s neighbor_pgno;
        key \<leftarrow> nd_key_at 0 neighbor;
        s \<leftarrow> set_key_at parent_pgno (index + 1) key s;
        Some (SUCCESS, bt_mark parent_pgno (bt_mark pgno (bt_mark neighbor_pgno s)))
      } else do {
        (_, s) \<leftarrow> move_last_to_front leaf neighbor_pgno pgno s;
        node \<leftarrow> bt_pages s pgno;
        key \<leftarrow> nd_key_at 0 node;
        s \<leftarrow> set_key_at parent_pgno index key s;
        Some (SUCCESS, bt_mark parent_pgno (bt_mark pgno (bt_mark neighbor_pgno s)))
      })"

text \<open>\<open>coalesce\<close> up to its last call, which goes on with the parent. It marks neither the left node nor the parent.\<close>

definition coalesce :: "bool \<Rightarrow> int \<Rightarrow> int \<Rightarrow> int \<Rightarrow> int \<Rightarrow> BplusTreeHandler \<Rightarrow> (RC \<times> BplusTreeHandler) option" where
  "coalesce leaf neighbor_pgno pgno parent_pgno index s = do {
     let (left_pgno, right_pgno, index) =
       (if index = 0 then (pgno, neighbor_pgno, index + 1) else (neighbor_pgno, pgno, index));
     parent_node \<leftarrow> bt_internal parent_pgno s;
     parent_node \<leftarrow> internal_remove index parent_node;
     s \<leftarrow> Some (bt_set parent_pgno (InternalNode parent_node) s);
     (rc, s) \<leftarrow> move_to leaf right_pgno left_pgno s;
     if rc \<noteq> SUCCESS then Some (rc, s)
     else do {
       s \<leftarrow> (case bt_pages s left_pgno of
              Some (LeafNode left) \<Rightarrow> map_option (\<lambda>right. bt_set left_pgno (LeafNode (left\<lparr>lf_next_brother := lf_next_brother right\<rparr>)) s)
                (bt_leaf right_pgno s)
            | Some (InternalNode _) \<Rightarrow> Some s
            | None \<Rightarrow> None);
       Some (SUCCESS, bt_dispose right_pgno s)
     }
   }"

partial_function (option) coalesce_or_redistribute ::
  "(key \<Rightarrow> key \<Rightarrow> int) \<Rightarrow> bool \<Rightarrow> int \<Rightarrow> BplusTreeHandler \<Rightarrow> (RC \<times> BplusTreeHandler) option" where
  "coalesce_or_redistribute key_comparator leaf pgno s =
     Option.bind (bt_pages s pgno) (\<lambda>index_node.
     if nd_size index_node \<ge> nd_min_size (bt_header s) index_node then Some (SUCCESS, s)
     else if nd_parent index_node = BP_INVALID_PAGE_NUM then
       (if nd_size index_node > 1 then Some (SUCCESS, s)
        else Option.bind (adjust_root pgno s) (\<lambda>(_, s). Some (SUCCESS, s)))
     else Option.bind (bt_get (nd_parent index_node) s) (\<lambda>(rc, _).
       if rc \<noteq> SUCCESS then Some (rc, s)
       else Option.bind (bt_internal (nd_parent index_node) s) (\<lambda>parent_node.
         Option.bind (nd_key_at (nd_size index_node - 1) index_node) (\<lambda>last_key.
         let index = int (fst (internal_lookup key_comparator last_key parent_node)) in
         Option.bind (internal_value_at index parent_node) (\<lambda>v.
         if v \<noteq> pgno then None
         else Option.bind (internal_value_at (if index = 0 then 1 else index - 1) parent_node) (\<lambda>neighbor_pgno.
           Option.bind (bt_get neighbor_pgno s) (\<lambda>(rc, neighbor_node).
           if rc \<noteq> SUCCESS then Some (rc, s)
           else if nd_size index_node + nd_size neighbor_node > nd_max_size (bt_header s) index_node
           then redistribute leaf neighbor_pgno pgno (nd_parent index_node) index s
           else Option.bind (coalesce leaf neighbor_pgno pgno (nd_parent index_node) index s) (\<lambda>(rc, s).
             if rc \<noteq> SUCCESS then Some (rc, s)
             else coalesce_or_redistribute key_comparator False (nd_parent index_node) s))))))))"

definition delete_entry_internal ::
  "(key \<Rightarrow> key \<Rightarrow> int) \<Rightarrow> int \<Rightarrow> key \<Rightarrow> BplusTreeHandler \<Rightarrow> (RC \<times> BplusTreeHandler) option" where
  "delete_entry_internal key_comparator leaf_pgno key s = do {
     leaf_node \<leftarrow> bt_leaf leaf_pgno s;
     (remove_count, leaf_node) \<leftarrow> leaf_remove_key key_comparator key leaf_node;
     if remove_count = 0 then Some (RECORD_NOT_EXIST, s)
     else do {
       s \<leftarrow> Some (bt_mark leaf_pgno (bt_set leaf_pgno (LeafNode leaf_node) s));
       if nd_size (LeafNode leaf_node) \<ge> nd_min_size (bt_header s) (LeafNode leaf_node) then Some (SUCCESS, s)
       else coalesce_or_redistribute key_comparator True leaf_pgno s
     }
   }"

definition delete_entry ::
  "(key \<Rightarrow> key \<Rightarrow> int) \<Rightarrow> byte list \<Rightarrow> RID \<Rightarrow> BplusTreeHandler \<Rightarrow> (RC \<times> BplusTreeHandler) option" where
  "delete_entry key_comparator user_key rid s = do {
     key \<leftarrow> Some (make_key (bt_header s) user_key rid);
     (rc, leaf_pgno) \<leftarrow> find_leaf key_comparator key s;
     if rc = EMPTY then Some (RECORD_NOT_EXIST, bt_release s)
     else if rc \<noteq> SUCCESS then Some (rc, bt_release s)
     else do {
       (rc, s) \<leftarrow> delete_entry_internal key_comparator leaf_pgno key s;
       Some (rc, bt_release s)
     }
   }"

subsection \<open>Range scans\<close>

record BplusTreeScanner =
  sc_inited :: bool
  sc_current :: "int option"
  sc_right_key :: "key option"
  sc_iter_index :: int
  sc_first_emitted :: bool

definition sc_new :: BplusTreeScanner where
  "sc_new = \<lparr>sc_inited = False, sc_current = None, sc_right_key = None, sc_iter_index = - 1, sc_first_emitted = False\<rparr>"

text \<open>
  \<open>fix_user_key\<close> for attributes of type \<open>CHARS\<close>: a key shorter than the attribute is padded, a longer
  one is cut, and when the cut key is a lower bound its last byte is increased. The result is the fixed
  key and whether the bound becomes inclusive; \<^const>\<open>None\<close> is a failing assertion.
\<close>

definition fix_user_key :: "IndexFileHeader \<Rightarrow> byte list \<Rightarrow> int \<Rightarrow> bool \<Rightarrow> (byte list \<times> bool) option" where
  "fix_user_key header user_key key_len want_greater =
     (let n = nat (fh_attr_length header) in
      if key_len \<le> fh_attr_length header then
        Some (take (nat key_len) user_key @ replicate (n - nat key_len) (if want_greater then 0 else 255), False)
      else if length (takeWhile (\<lambda>c. c \<noteq> 0) user_key) < nat key_len then None
      else let key_buf = take n user_key in
        if user_key ! n = 0 then Some (key_buf, False)
        else Some (if want_greater then key_buf[n - 1 := key_buf ! (n - 1) + 1] else key_buf, True))"

definition touch_end :: "(key \<Rightarrow> key \<Rightarrow> int) \<Rightarrow> BplusTreeHandler \<Rightarrow> BplusTreeScanner \<Rightarrow> bool option" where
  "touch_end key_comparator s sc =
     (case sc_right_key sc of
        None \<Rightarrow> Some False
      | Some right_key \<Rightarrow> do {
          pgno \<leftarrow> sc_current sc;
          node \<leftarrow> bt_leaf pgno s;
          this_key \<leftarrow> leaf_key_at (sc_iter_index sc) node;
          Some (key_comparator this_key right_key > 0)
        })"

text \<open>A bound of the scan: no bound, or the key, its length and whether it is inclusive.\<close>

type_synonym bound = "(byte list \<times> int) option"

definition fix_bound :: "IndexFileHeader \<Rightarrow> byte list \<times> int \<Rightarrow> bool \<Rightarrow> bool \<Rightarrow> (byte list \<times> bool) option" where
  "fix_bound header b inclusive want_greater =
     (if fh_attr_type header = CHARS
      then map_option (\<lambda>(k, should_inclusive). (k, should_inclusive \<or> inclusive)) (fix_user_key header (fst b) (snd b) want_greater)
      else Some (fst b, inclusive))"

text \<open>\<open>open\<close>: first the left bound (\<open>sc_open_left\<close>), then the right one.\<close>

definition sc_open_left ::
  "(key \<Rightarrow> key \<Rightarrow> int) \<Rightarrow> bound \<Rightarrow> bool \<Rightarrow> BplusTreeHandler \<Rightarrow> BplusTreeScanner \<Rightarrow> (RC \<times> bool \<times> BplusTreeScanner) option" where
  "sc_open_left key_comparator left left_inclusive s sc =
     (case left of
        None \<Rightarrow> do {
          (rc, pgno) \<leftarrow> left_most_page s;
          if rc \<noteq> SUCCESS then Some (rc, True, if rc = EMPTY then sc else sc\<lparr>sc_current := None\<rparr>)
          else Some (SUCCESS, False, sc\<lparr>sc_current := Some pgno, sc_iter_index := 0\<rparr>)
        }
      | Some b \<Rightarrow> do {
          (fixed_left_key, left_inclusive) \<leftarrow> fix_bound (bt_header s) b left_inclusive True;
          let left_key = make_key (bt_header s) fixed_left_key (if left_inclusive then RID_min else RID_max);
          (rc, pgno) \<leftarrow> find_leaf key_comparator left_key s;
          if rc = EMPTY then Some (SUCCESS, True, sc\<lparr>sc_current := None\<rparr>)
          else if rc \<noteq> SUCCESS then Some (rc, True, sc\<lparr>sc_current := None\<rparr>)
          else do {
            left_node \<leftarrow> bt_leaf pgno s;
            let left_index = fst (leaf_lookup key_comparator left_key left_node);
            if left_index \<ge> length (lf_array left_node) then
              (if lf_next_brother left_node = BP_INVALID_PAGE_NUM then Some (SUCCESS, True, sc\<lparr>sc_current := None\<rparr>)
               else do {
                 (rc, _) \<leftarrow> bt_get (lf_next_brother left_node) s;
                 if rc \<noteq> SUCCESS then Some (rc, True, sc\<lparr>sc_current := None\<rparr>)
                 else Some (SUCCESS, False, sc\<lparr>sc_current := Some (lf_next_brother left_node), sc_iter_index := 0\<rparr>)
               })
            else Some (SUCCESS, False, sc\<lparr>sc_current := Some pgno, sc_iter_index := int left_index\<rparr>)
          }
        })"

definition sc_open ::
  "(key \<Rightarrow> key \<Rightarrow> int) \<Rightarrow> (key \<Rightarrow> key \<Rightarrow> int) \<Rightarrow> bound \<Rightarrow> bool \<Rightarrow> bound \<Rightarrow> bool \<Rightarrow> BplusTreeHandler \<Rightarrow> BplusTreeScanner
     \<Rightarrow> (RC \<times> BplusTreeScanner) option" where
  "sc_open attr_comparator key_comparator left left_inclusive right right_inclusive s sc =
     (if sc_inited sc then Some (INTERNAL, sc)
      else let sc = sc\<lparr>sc_inited := True, sc_first_emitted := False\<rparr>;
               result = (case (left, right) of (Some l, Some r) \<Rightarrow> attr_comparator (fst l) (fst r) | _ \<Rightarrow> - 1)
           in if result > 0 \<or> (result = 0 \<and> (left_inclusive = False \<or> right_inclusive = False)) then Some (INVALID_ARGUMENT, sc)
      else do {
        (rc, stop, sc) \<leftarrow> sc_open_left key_comparator left left_inclusive s sc;
        if stop then Some (rc, sc)
        else do {
          right_key \<leftarrow> (case right of
              None \<Rightarrow> Some None
            | Some b \<Rightarrow> do {
                (fixed_right_key, right_inclusive) \<leftarrow> fix_bound (bt_header s) b right_inclusive False;
                Some (Some (make_key (bt_header s) fixed_right_key (if right_inclusive then RID_max else RID_min)))
              });
          let sc = sc\<lparr>sc_right_key := right_key\<rparr>;
          e \<leftarrow> touch_end key_comparator s sc;
          Some (SUCCESS, if e then sc\<lparr>sc_current := None\<rparr> else sc)
        }
      })"

definition fetch_item :: "BplusTreeHandler \<Rightarrow> BplusTreeScanner \<Rightarrow> RID option" where
  "fetch_item s sc = do {
     pgno \<leftarrow> sc_current sc;
     node \<leftarrow> bt_leaf pgno s;
     leaf_value_at (sc_iter_index sc) node
   }"

text \<open>Moving to the next leaf; the shared latch on it is granted.\<close>

partial_function (option) sc_next_entry ::
  "(key \<Rightarrow> key \<Rightarrow> int) \<Rightarrow> BplusTreeHandler \<Rightarrow> BplusTreeScanner \<Rightarrow> (RC \<times> RID option \<times> BplusTreeScanner) option" where
  "sc_next_entry key_comparator s sc =
     (case sc_current sc of
        None \<Rightarrow> Some (RECORD_EOF, None, sc)
      | Some pgno \<Rightarrow>
          if \<not> sc_first_emitted sc then
            Option.bind (fetch_item s sc) (\<lambda>rid. Some (SUCCESS, Some rid, sc\<lparr>sc_first_emitted := True\<rparr>))
          else
            (let sc = sc\<lparr>sc_iter_index := sc_iter_index sc + 1\<rparr> in
             Option.bind (bt_leaf pgno s) (\<lambda>node.
             if sc_iter_index sc < int (length (lf_array node)) then
               Option.bind (touch_end key_comparator s sc) (\<lambda>e.
               if e then Some (RECORD_EOF, None, sc)
               else Option.bind (fetch_item s sc) (\<lambda>rid. Some (SUCCESS, Some rid, sc)))
             else if lf_next_brother node = BP_INVALID_PAGE_NUM then Some (RECORD_EOF, None, sc)
             else Option.bind (bt_get (lf_next_brother node) s) (\<lambda>(rc, _).
               if rc \<noteq> SUCCESS then Some (rc, None, sc\<lparr>sc_current := None\<rparr>)
               else sc_next_entry key_comparator s (sc\<lparr>sc_current := Some (lf_next_brother node), sc_iter_index := - 1\<rparr>)))))"

definition sc_close :: "BplusTreeScanner \<Rightarrow> RC \<times> BplusTreeScanner" where
  "sc_close sc = (SUCCESS, sc\<lparr>sc_inited := False\<rparr>)"

partial_function (option) get_entry_loop ::
  "(key \<Rightarrow> key \<Rightarrow> int) \<Rightarrow> BplusTreeHandler \<Rightarrow> BplusTreeScanner \<Rightarrow> RID list \<Rightarrow> (RC \<times> RID list) option" where
  "get_entry_loop key_comparator s sc rids =
     Option.bind (sc_next_entry key_comparator s sc) (\<lambda>(rc, rid, sc).
     case rid of
       Some rid \<Rightarrow> get_entry_loop key_comparator s sc (rids @ [rid])
     | None \<Rightarrow> Some (if rc = RECORD_EOF then SUCCESS else rc, rids))"

definition get_entry ::
  "(key \<Rightarrow> key \<Rightarrow> int) \<Rightarrow> (key \<Rightarrow> key \<Rightarrow> int) \<Rightarrow> byte list \<Rightarrow> int \<Rightarrow> BplusTreeHandler \<Rightarrow> (RC \<times> RID list) option" where
  "get_entry attr_comparator key_comparator user_key key_len s = do {
     (rc, sc) \<leftarrow> sc_open attr_comparator key_comparator (Some (user_key, key_len)) True (Some (user_key, key_len)) True s sc_new;
     if rc \<noteq> SUCCESS then Some (rc, [])
     else get_entry_loop key_comparator s sc []
   }"

declare find_leaf_loop.simps [code] insert_entry_into_parent.simps [code] coalesce_or_redistribute.simps [code]
  sc_next_entry.simps [code] get_entry_loop.simps [code]

end
