(* ===== verification/BplusRep.thy ===== *)
theory BplusRep
  imports BplusTree "HOL-Library.Multiset"
begin

section \<open>What the pages of a B+ tree represent\<close>

text \<open>
  The pages an index file consists of represent an ordered tree: every node is on its page, with the
  page of its parent in the parent field and its children in order. The predicates below say when a
  tree is represented (\<open>trep\<close>), ordered between bounds (\<open>tord\<close>), within the node capacities (\<open>tsz\<close>),
  balanced (\<open>tbal\<close>), and linked along its leaves (\<open>chain\<close>). A position in a tree is a context (the path
  from a node up to the root with the siblings left and right of it); every predicate splits into a part
  about the context and a part about the subtree, which is how a local change is lifted to the tree.
\<close>

subsection \<open>Ordered trees\<close>

datatype tree = TLeaf int "(key \<times> RID) list" | TNode int "(key \<times> tree) list"

fun troot :: "tree \<Rightarrow> int" where
  "troot (TLeaf p xs) = p"
| "troot (TNode p kts) = p"

fun tflat :: "tree \<Rightarrow> (key \<times> RID) list" where
  "tflat (TLeaf p xs) = xs"
| "tflat (TNode p kts) = concat (map (\<lambda>kt. tflat (snd kt)) kts)"

fun tpages :: "tree \<Rightarrow> int list" where
  "tpages (TLeaf p xs) = [p]"
| "tpages (TNode p kts) = p # concat (map (\<lambda>kt. tpages (snd kt)) kts)"

fun tleaves :: "tree \<Rightarrow> int list" where
  "tleaves (TLeaf p xs) = [p]"
| "tleaves (TNode p kts) = concat (map (\<lambda>kt. tleaves (snd kt)) kts)"

abbreviation child_ptrs :: "(key \<times> tree) list \<Rightarrow> (key \<times> int) list" where
  "child_ptrs kts \<equiv> map (\<lambda>kt. (fst kt, troot (snd kt))) kts"

fun trep :: "pages \<Rightarrow> int \<Rightarrow> tree \<Rightarrow> bool" where
  "trep ps par (TLeaf p xs) = (\<exists>nx. ps p = Some (LeafNode \<lparr>lf_parent = par, lf_next_brother = nx, lf_array = xs\<rparr>))"
| "trep ps par (TNode p kts) =
     (ps p = Some (InternalNode \<lparr>in_parent = par, in_array = child_ptrs kts\<rparr>) \<and> (\<forall>kt \<in> set kts. trep ps p (snd kt)))"

text \<open>Every node but the root is at least half full; an inner root has two children.\<close>

fun tsz :: "int \<Rightarrow> int \<Rightarrow> tree \<Rightarrow> bool" where
  "tsz lm im (TLeaf p xs) = (lm div 2 \<le> int (length xs) \<and> int (length xs) \<le> lm)"
| "tsz lm im (TNode p kts) = (im div 2 \<le> int (length kts) \<and> int (length kts) \<le> im \<and> (\<forall>kt \<in> set kts. tsz lm im (snd kt)))"

fun trsz :: "int \<Rightarrow> int \<Rightarrow> tree \<Rightarrow> bool" where
  "trsz lm im (TLeaf p xs) = (int (length xs) \<le> lm)"
| "trsz lm im (TNode p kts) = (2 \<le> length kts \<and> int (length kts) \<le> im \<and> (\<forall>kt \<in> set kts. tsz lm im (snd kt)))"

fun tbal :: "nat \<Rightarrow> tree \<Rightarrow> bool" where
  "tbal n (TLeaf p xs) = (n = 0)"
| "tbal n (TNode p kts) = (0 < n \<and> (\<forall>kt \<in> set kts. tbal (n - 1) (snd kt)))"

text \<open>Bounds: at least the lower one, below the upper one; \<open>strictly\<close> above the lower one for separators.\<close>

definition above :: "(key \<Rightarrow> key \<Rightarrow> int) \<Rightarrow> key option \<Rightarrow> key \<Rightarrow> bool" where
  "above cmp lo x = (case lo of None \<Rightarrow> True | Some l \<Rightarrow> cmp l x \<le> 0)"

definition sabove :: "(key \<Rightarrow> key \<Rightarrow> int) \<Rightarrow> key option \<Rightarrow> key \<Rightarrow> bool" where
  "sabove cmp lo x = (case lo of None \<Rightarrow> True | Some l \<Rightarrow> cmp l x < 0)"

definition below :: "(key \<Rightarrow> key \<Rightarrow> int) \<Rightarrow> key option \<Rightarrow> key \<Rightarrow> bool" where
  "below cmp hi x = (case hi of None \<Rightarrow> True | Some h \<Rightarrow> cmp x h < 0)"

lemma bounds_simps [simp]:
  "above cmp None x" "sabove cmp None x" "below cmp None x" "above cmp (Some l) x \<longleftrightarrow> cmp l x \<le> 0"
  "sabove cmp (Some l) x \<longleftrightarrow> cmp l x < 0" "below cmp (Some l) x \<longleftrightarrow> cmp x l < 0"
  by (simp_all add: above_def sabove_def below_def)

definition sep_ok :: "(key \<Rightarrow> key \<Rightarrow> int) \<Rightarrow> (key \<Rightarrow> bool) \<Rightarrow> key option \<Rightarrow> key option \<Rightarrow> key \<Rightarrow> bool" where
  "sep_ok cmp ok lo hi k \<longleftrightarrow> ok k \<and> sabove cmp lo k \<and> below cmp hi k"

definition leaf_ok :: "(key \<Rightarrow> key \<Rightarrow> int) \<Rightarrow> (key \<Rightarrow> bool) \<Rightarrow> key option \<Rightarrow> key option \<Rightarrow> (key \<times> RID) list \<Rightarrow> bool" where
  "leaf_ok cmp ok lo hi xs \<longleftrightarrow> xs \<noteq> [] \<and> sorted_wrt (\<lambda>x y. cmp (fst x) (fst y) < 0) xs \<and>
     (\<forall>x \<in> set xs. ok (fst x) \<and> above cmp lo (fst x) \<and> below cmp hi (fst x))"

text \<open>
  The first key of an inner node is its lower bound when it has one: the separator its parent keeps for
  it. (Without a lower bound it is not looked at.)
\<close>

fun tord :: "(key \<Rightarrow> key \<Rightarrow> int) \<Rightarrow> (key \<Rightarrow> bool) \<Rightarrow> key option \<Rightarrow> key option \<Rightarrow> tree \<Rightarrow> bool"
and tords :: "(key \<Rightarrow> key \<Rightarrow> int) \<Rightarrow> (key \<Rightarrow> bool) \<Rightarrow> key option \<Rightarrow> key option \<Rightarrow> (key \<times> tree) list \<Rightarrow> bool" where
  "tord cmp ok lo hi (TLeaf p xs) = leaf_ok cmp ok lo hi xs"
| "tord cmp ok lo hi (TNode p kts) = (kts \<noteq> [] \<and> (lo = None \<or> lo = Some (fst (hd kts))) \<and> tords cmp ok lo hi kts)"
| "tords cmp ok lo hi [] = True"
| "tords cmp ok lo hi ((k, t) # kts) =
     (case kts of
        [] \<Rightarrow> tord cmp ok lo hi t
      | (k', _) # _ \<Rightarrow> tord cmp ok lo (Some k') t \<and> sep_ok cmp ok lo hi k' \<and> tords cmp ok (Some k') hi kts)"

lemma tords_single [simp]: "tords cmp ok lo hi [kt] = tord cmp ok lo hi (snd kt)"
  by (cases kt) simp

lemma tords_two:
  "tords cmp ok lo hi (kt # kt' # kts) \<longleftrightarrow>
     tord cmp ok lo (Some (fst kt')) (snd kt) \<and> sep_ok cmp ok lo hi (fst kt') \<and> tords cmp ok (Some (fst kt')) hi (kt' # kts)"
  by (cases kt; cases kt') simp

declare tords.simps(2) [simp del]

subsection \<open>Links between the leaves\<close>

definition nxt :: "pages \<Rightarrow> int \<Rightarrow> int" where
  "nxt ps p = (case ps p of Some (LeafNode n) \<Rightarrow> lf_next_brother n | _ \<Rightarrow> 0)"

fun chain :: "pages \<Rightarrow> int list \<Rightarrow> int \<Rightarrow> bool" where
  "chain ps [] e = True"
| "chain ps (p # r) e = (nxt ps p = (case r of [] \<Rightarrow> e | q # _ \<Rightarrow> q) \<and> chain ps r e)"

lemma chain_append: "chain ps (xs @ ys) e \<longleftrightarrow> chain ps xs (case ys of [] \<Rightarrow> e | q # _ \<Rightarrow> q) \<and> chain ps ys e"
  by (induction xs) (auto split: list.split)

lemma chain_cong: "(\<And>p. p \<in> set xs \<Longrightarrow> nxt ps p = nxt ps' p) \<Longrightarrow> chain ps xs e = chain ps' xs e"
  by (induction xs) auto

subsection \<open>Pages, frames and framing\<close>

lemma troot_in [simp]: "troot t \<in> set (tpages t)"
  by (cases t) auto

lemma tree_induct [case_names TLeaf TNode]:
  assumes "\<And>p xs. P (TLeaf p xs)" "\<And>p kts. (\<And>kt. kt \<in> set kts \<Longrightarrow> P (snd kt)) \<Longrightarrow> P (TNode p kts)"
  shows "P t"
  using assms(1)
proof (induction t)
  case (TNode p kts)
  then show ?case by (intro assms(2)) (metis prod.collapse snds.intros)
qed auto

lemma tleaves_pages: "set (tleaves t) \<subseteq> set (tpages t)"
  by (induction t rule: tree_induct) auto

lemma tords_first: "tords cmp ok lo hi (kt # kts) \<Longrightarrow> \<exists>hi'. tord cmp ok lo hi' (snd kt)"
  by (cases kts) (auto simp: tords_two)

lemma tleaves_ne [simp]: "tord cmp ok lo hi t \<Longrightarrow> tleaves t \<noteq> []"
proof (induction t arbitrary: lo hi rule: tree_induct)
  case (TNode p kts)
  then obtain kt kts' where kts: "kts = kt # kts'" by (cases kts) auto
  then have "tords cmp ok lo hi (kt # kts')" using TNode.prems by simp
  then obtain hi' where "tord cmp ok lo hi' (snd kt)" using tords_first by blast
  then show ?case using TNode.IH [of kt] kts by auto
qed auto

lemma trep_cong: "(\<And>p. p \<in> set (tpages t) \<Longrightarrow> ps p = ps' p) \<Longrightarrow> trep ps par t = trep ps' par t"
proof (induction t arbitrary: par rule: tree_induct)
  case (TNode p kts)
  have "trep ps p (snd kt) = trep ps' p (snd kt)" if "kt \<in> set kts" for kt
    using TNode.IH [OF that] TNode.prems that by auto
  then show ?case using TNode.prems [of p] by auto
qed auto

lemma trep_other [simp]: "q \<notin> set (tpages t) \<Longrightarrow> trep (ps(q := x)) par t = trep ps par t"
  by (rule trep_cong) auto

lemma trep_reparent:
  assumes "trep ps par t" "distinct (tpages t)"
  shows "\<exists>n. ps (troot t) = Some n \<and> trep (ps(troot t \<mapsto> nd_set_parent par' n)) par' t"
proof (cases t)
  case (TLeaf p xs)
  then show ?thesis using assms(1) by auto
next
  case (TNode p kts)
  have "trep (ps(p \<mapsto> x)) p (snd kt) = trep ps p (snd kt)" if "kt \<in> set kts" for kt x
    using that assms(2) TNode by (intro trep_other) auto
  then show ?thesis using assms(1) TNode by auto
qed

lemma trep_root: "trep ps par t \<Longrightarrow> \<exists>n. ps (troot t) = Some n \<and> nd_parent n = par"
  by (cases t) auto

lemma nd_parent_set [simp]: "nd_parent (nd_set_parent p n) = p" "nd_size (nd_set_parent p n) = nd_size n"
  "nd_is_leaf (nd_set_parent p n) = nd_is_leaf n"
  by (cases n; simp)+

subsection \<open>Contexts\<close>

text \<open>A frame is an inner node around a hole: its page, the children left of the hole, the key of the hole, the children right of it.\<close>

type_synonym frame = "int \<times> (key \<times> tree) list \<times> key \<times> (key \<times> tree) list"

fun plug :: "frame list \<Rightarrow> tree \<Rightarrow> tree" where
  "plug [] t = t"
| "plug ((p, ls, k, rs) # c) t = plug c (TNode p (ls @ (k, t) # rs))"

fun cpar :: "frame list \<Rightarrow> int" where
  "cpar [] = BP_INVALID_PAGE_NUM"
| "cpar ((p, _) # c) = p"

fun crep :: "pages \<Rightarrow> frame list \<Rightarrow> int \<Rightarrow> bool" where
  "crep ps [] r = True"
| "crep ps ((p, ls, k, rs) # c) r =
     (ps p = Some (InternalNode \<lparr>in_parent = cpar c, in_array = child_ptrs ls @ (k, r) # child_ptrs rs\<rparr>) \<and>
      (\<forall>kt \<in> set (ls @ rs). trep ps p (snd kt)) \<and> crep ps c p)"

lemma trep_plug: "trep ps BP_INVALID_PAGE_NUM (plug c t) \<longleftrightarrow> crep ps c (troot t) \<and> trep ps (cpar c) t"
  by (induction c t rule: plug.induct) auto

abbreviation kts_pages :: "(key \<times> tree) list \<Rightarrow> int list" where
  "kts_pages kts \<equiv> concat (map (\<lambda>kt. tpages (snd kt)) kts)"

fun cpages :: "frame list \<Rightarrow> int list" where
  "cpages [] = []"
| "cpages ((p, ls, k, rs) # c) = p # kts_pages ls @ kts_pages rs @ cpages c"

lemma mset_plug: "mset (tpages (plug c t)) = mset (cpages c @ tpages t)"
  by (induction c t rule: plug.induct) (auto simp: ac_simps)

lemma set_plug: "set (tpages (plug c t)) = set (cpages c) \<union> set (tpages t)"
  using mset_plug [of c t] by (metis mset_eq_setD set_append)

lemma distinct_plug: "distinct (tpages (plug c t) @ xs) \<longleftrightarrow> distinct (cpages c @ tpages t @ xs)"
  using mset_plug [of c t] by (intro mset_eq_imp_distinct_iff) simp

lemma crep_cong: "(\<And>p. p \<in> set (cpages c) \<Longrightarrow> ps p = ps' p) \<Longrightarrow> crep ps c r = crep ps' c r"
proof (induction c arbitrary: r)
  case (Cons f c)
  obtain p ls k rs where f: "f = (p, ls, k, rs)" by (cases f) auto
  have "trep ps p (snd kt) = trep ps' p (snd kt)" if "kt \<in> set ls \<union> set rs" for kt
    using Cons.prems that f by (intro trep_cong) auto
  moreover have "ps p = ps' p" "crep ps c p = crep ps' c p" using Cons f by auto
  ultimately show ?case unfolding f crep.simps by auto
qed simp

lemma crep_other [simp]: "q \<notin> set (cpages c) \<Longrightarrow> crep (ps(q := x)) c r = crep ps c r"
  by (rule crep_cong) auto

lemma cpar_in: "c \<noteq> [] \<Longrightarrow> cpar c \<in> set (cpages c)"
  by (cases c rule: cpar.cases) auto

lemma troot_plug: "troot (plug c t) = (if c = [] then troot t else fst (last c))"
  by (induction c t rule: plug.induct) auto

fun cfl :: "frame list \<Rightarrow> (key \<times> RID) list" where
  "cfl [] = []"
| "cfl ((p, ls, k, rs) # c) = cfl c @ concat (map (\<lambda>kt. tflat (snd kt)) ls)"

fun cfr :: "frame list \<Rightarrow> (key \<times> RID) list" where
  "cfr [] = []"
| "cfr ((p, ls, k, rs) # c) = concat (map (\<lambda>kt. tflat (snd kt)) rs) @ cfr c"

lemma tflat_plug: "tflat (plug c t) = cfl c @ tflat t @ cfr c"
  by (induction c t rule: plug.induct) auto

fun cll :: "frame list \<Rightarrow> int list" where
  "cll [] = []"
| "cll ((p, ls, k, rs) # c) = cll c @ concat (map (\<lambda>kt. tleaves (snd kt)) ls)"

fun clr :: "frame list \<Rightarrow> int list" where
  "clr [] = []"
| "clr ((p, ls, k, rs) # c) = concat (map (\<lambda>kt. tleaves (snd kt)) rs) @ clr c"

lemma tleaves_plug: "tleaves (plug c t) = cll c @ tleaves t @ clr c"
  by (induction c t rule: plug.induct) auto

lemma cleaves_pages: "set (cll c) \<union> set (clr c) \<subseteq> set (cpages c)"
  by (induction c rule: cpages.induct) (use tleaves_pages in fastforce)+

fun csz :: "int \<Rightarrow> int \<Rightarrow> frame list \<Rightarrow> bool" where
  "csz lm im [] = True"
| "csz lm im ((p, ls, k, rs) # c) =
     ((if c = [] then 2 else im div 2) \<le> int (length ls + Suc (length rs)) \<and> int (length ls + Suc (length rs)) \<le> im \<and>
      (\<forall>kt \<in> set (ls @ rs). tsz lm im (snd kt)) \<and> csz lm im c)"

definition hsz :: "int \<Rightarrow> int \<Rightarrow> frame list \<Rightarrow> tree \<Rightarrow> bool" where
  "hsz lm im c t \<longleftrightarrow> (if c = [] then trsz lm im t else tsz lm im t)"

lemma tsz_plug: "trsz lm im (plug c t) \<longleftrightarrow> csz lm im c \<and> hsz lm im c t"
  by (induction c t rule: plug.induct) (auto simp: hsz_def)

fun cbal :: "nat \<Rightarrow> frame list \<Rightarrow> bool" where
  "cbal n [] = True"
| "cbal n ((p, ls, k, rs) # c) = ((\<forall>kt \<in> set (ls @ rs). tbal n (snd kt)) \<and> cbal (Suc n) c)"

lemma tbal_plug: "tbal n (plug c t) \<longleftrightarrow> length c \<le> n \<and> cbal (n - length c) c \<and> tbal (n - length c) t"
proof (induction c t rule: plug.induct)
  case (2 p ls k rs c t)
  show ?case
  proof (cases "length c < n")
    case True
    then have "n - length c = Suc (n - Suc (length c))" by simp
    then show ?thesis using 2 True by auto
  qed (use 2 in auto)
qed simp

fun clo :: "frame list \<Rightarrow> key option" where
  "clo [] = None"
| "clo ((p, ls, k, rs) # c) = (if ls = [] then clo c else Some k)"

fun chi :: "frame list \<Rightarrow> key option" where
  "chi [] = None"
| "chi ((p, ls, k, rs) # c) = (if rs = [] then chi c else Some (fst (hd rs)))"

fun cord :: "(key \<Rightarrow> key \<Rightarrow> int) \<Rightarrow> (key \<Rightarrow> bool) \<Rightarrow> frame list \<Rightarrow> bool" where
  "cord cmp ok [] = True"
| "cord cmp ok ((p, ls, k, rs) # c) =
     (cord cmp ok c \<and> (clo c = None \<or> clo c = Some (if ls = [] then k else fst (hd ls))) \<and>
      (ls \<noteq> [] \<longrightarrow> tords cmp ok (clo c) (Some k) ls \<and> sep_ok cmp ok (clo c) (chi c) k) \<and>
      (rs \<noteq> [] \<longrightarrow> sep_ok cmp ok (if ls = [] then clo c else Some k) (chi c) (fst (hd rs)) \<and>
         tords cmp ok (Some (fst (hd rs))) (chi c) rs))"

subsection \<open>Ordering of subsequences of children\<close>

text \<open>The order of an index: a comparator that meets its contract on the admitted keys.\<close>

locale index_order = three_way cmp ok for cmp :: "key \<Rightarrow> key \<Rightarrow> int" and ok :: "key \<Rightarrow> bool"
begin

definition okb :: "key option \<Rightarrow> bool" where
  "okb b = (case b of None \<Rightarrow> True | Some k \<Rightarrow> ok k)"

lemma okb_simps [simp]: "okb None" "okb (Some k) = ok k"
  by (simp_all add: okb_def)

lemma sep_okD: "sep_ok cmp ok lo hi k \<Longrightarrow> ok k \<and> sabove cmp lo k \<and> below cmp hi k"
  by (simp add: sep_ok_def)

lemma sabove_trans: "okb lo \<Longrightarrow> ok x \<Longrightarrow> ok y \<Longrightarrow> sabove cmp lo x \<Longrightarrow> cmp x y \<le> 0 \<Longrightarrow> sabove cmp lo y"
  by (cases lo) (auto intro: cmp_less_le)

lemma below_trans: "okb hi \<Longrightarrow> ok x \<Longrightarrow> ok y \<Longrightarrow> cmp x y \<le> 0 \<Longrightarrow> below cmp hi y \<Longrightarrow> below cmp hi x"
  by (cases hi) (auto intro: cmp_le_less)

lemma sep_swap:
  assumes "okb lo" "okb hi"
  shows "sep_ok cmp ok lo hi k \<and> sep_ok cmp ok (Some k) hi b \<longleftrightarrow> sep_ok cmp ok lo (Some b) k \<and> sep_ok cmp ok lo hi b"
  using sabove_trans [OF assms(1), of k b] below_trans [OF assms(2), of k b] by (auto simp: sep_ok_def)

lemma tords_append:
  assumes "A \<noteq> []" "B \<noteq> []" "okb lo" "okb hi"
  shows "tords cmp ok lo hi (A @ B) \<longleftrightarrow>
     tords cmp ok lo (Some (fst (hd B))) A \<and> sep_ok cmp ok lo hi (fst (hd B)) \<and> tords cmp ok (Some (fst (hd B))) hi B"
  using assms(1,3)
proof (induction A arbitrary: lo)
  case (Cons a A)
  show ?case
  proof (cases A)
    case Nil
    then show ?thesis using assms(2) by (cases B) (simp_all add: tords_two)
  next
    case A: (Cons a' A')
    let ?k = "fst a'" and ?b = "fst (hd B)"
    have "tords cmp ok lo hi ((a # A) @ B) \<longleftrightarrow>
        tord cmp ok lo (Some ?k) (snd a) \<and> sep_ok cmp ok lo hi ?k \<and> tords cmp ok (Some ?k) hi (A @ B)"
      by (simp add: A tords_two)
    also have "\<dots> \<longleftrightarrow> tord cmp ok lo (Some ?k) (snd a) \<and> sep_ok cmp ok lo hi ?k \<and>
        tords cmp ok (Some ?k) (Some ?b) A \<and> sep_ok cmp ok (Some ?k) hi ?b \<and> tords cmp ok (Some ?b) hi B"
      using Cons.IH [of "Some ?k"] A sep_okD [of lo hi ?k] by (metis list.distinct(1) okb_simps(2))
    also have "\<dots> \<longleftrightarrow> tord cmp ok lo (Some ?k) (snd a) \<and> sep_ok cmp ok lo (Some ?b) ?k \<and>
        tords cmp ok (Some ?k) (Some ?b) A \<and> sep_ok cmp ok lo hi ?b \<and> tords cmp ok (Some ?b) hi B"
      using sep_swap [OF Cons.prems(2) assms(4), of ?k ?b] by blast
    finally show ?thesis by (simp add: A tords_two)
  qed
qed simp

lemma tord_frame:
  assumes "okb lo" "okb hi"
  shows "tord cmp ok lo hi (TNode p (ls @ (k, t) # rs)) \<longleftrightarrow>
    (lo = None \<or> lo = Some (if ls = [] then k else fst (hd ls))) \<and>
    (ls \<noteq> [] \<longrightarrow> tords cmp ok lo (Some k) ls \<and> sep_ok cmp ok lo hi k) \<and>
    (rs \<noteq> [] \<longrightarrow> sep_ok cmp ok (if ls = [] then lo else Some k) hi (fst (hd rs)) \<and> tords cmp ok (Some (fst (hd rs))) hi rs) \<and>
    tord cmp ok (if ls = [] then lo else Some k) (if rs = [] then hi else Some (fst (hd rs))) t"
proof -
  have right: "tords cmp ok lo' hi ((k, t) # rs) \<longleftrightarrow>
      (rs \<noteq> [] \<longrightarrow> sep_ok cmp ok lo' hi (fst (hd rs)) \<and> tords cmp ok (Some (fst (hd rs))) hi rs) \<and>
      tord cmp ok lo' (if rs = [] then hi else Some (fst (hd rs))) t" for lo'
    by (cases rs) (auto simp: tords_two)
  show ?thesis
  proof (cases "ls = []")
    case False
    then have "tords cmp ok lo hi (ls @ (k, t) # rs) \<longleftrightarrow>
        tords cmp ok lo (Some k) ls \<and> sep_ok cmp ok lo hi k \<and> tords cmp ok (Some k) hi ((k, t) # rs)"
      using tords_append [of ls "(k, t) # rs" lo hi] assms by simp
    then show ?thesis using False right [of "Some k"] by auto
  qed (use right [of lo] in auto)
qed

lemma cord_okb: "cord cmp ok c \<Longrightarrow> okb (clo c) \<and> okb (chi c)"
  by (induction c rule: cpages.induct) (auto simp: sep_ok_def)

lemma tord_plug: "tord cmp ok None None (plug c t) \<longleftrightarrow> cord cmp ok c \<and> tord cmp ok (clo c) (chi c) t"
proof (induction c t rule: plug.induct)
  case (2 p ls k rs c t)
  show ?case
  proof (cases "cord cmp ok c")
    case True
    then have "tord cmp ok (clo c) (chi c) (TNode p (ls @ (k, t) # rs)) \<longleftrightarrow>
        cord cmp ok ((p, ls, k, rs) # c) \<and> tord cmp ok (clo ((p, ls, k, rs) # c)) (chi ((p, ls, k, rs) # c)) t"
      using tord_frame [of "clo c" "chi c" p ls k t rs] cord_okb [OF True] by auto
    then show ?thesis using 2 True by simp
  qed (use 2 in simp)
qed simp

end

end
