(* ===== verification/BplusInsert.thy ===== *)
theory BplusInsert
  imports BplusRep
begin

section \<open>Insertion into the B+ tree\<close>

text \<open>
  A handler whose pages represent a well-formed tree keeps doing so under \<open>insert_entry\<close>, and the
  entries of the tree gain exactly the new one. The proof follows the code: find the leaf (a context in
  the tree), insert or split there, and carry a split up the context.
\<close>

subsection \<open>Well-formed handlers\<close>

definition no_fault :: "BplusTreeHandler \<Rightarrow> bool" where
  "no_fault s \<longleftrightarrow> bt_fault s = (\<lambda>_. SUCCESS) \<and> bt_alloc_fault s = SUCCESS \<and> bt_disposed s = []"

definition max_sizes :: "BplusTreeHandler \<Rightarrow> int \<times> int" where
  "max_sizes s = (fh_leaf_max_size (bt_header s), fh_internal_max_size (bt_header s))"

definition bt_ok :: "(key \<Rightarrow> key \<Rightarrow> int) \<Rightarrow> (key \<Rightarrow> bool) \<Rightarrow> BplusTreeHandler \<Rightarrow> tree \<Rightarrow> bool" where
  "bt_ok cmp ok s t \<longleftrightarrow> no_fault s \<and> fh_root_page (bt_header s) = troot t \<and>
     trep (bt_pages s) BP_INVALID_PAGE_NUM t \<and> distinct (tpages t) \<and> dom (bt_pages s) = set (tpages t) \<and>
     (\<forall>p \<in> set (tpages t). 2 \<le> p) \<and> tord cmp ok None None t \<and>
     2 \<le> fst (max_sizes s) \<and> 2 \<le> snd (max_sizes s) \<and> trsz (fst (max_sizes s)) (snd (max_sizes s)) t \<and>
     chain (bt_pages s) (tleaves t) BP_INVALID_PAGE_NUM \<and> (\<exists>n. tbal n t)"

text \<open>Of the header only the root page ever changes.\<close>

definition hdr_kept :: "BplusTreeHandler \<Rightarrow> BplusTreeHandler \<Rightarrow> bool" where
  "hdr_kept s s' \<longleftrightarrow> bt_header s' = (bt_header s)\<lparr>fh_root_page := fh_root_page (bt_header s')\<rparr>"

lemma hdr_kept_same: "bt_header s' = bt_header s \<Longrightarrow> hdr_kept s s'"
  by (simp add: hdr_kept_def)

lemma hdr_kept_root: "bt_header s' = (bt_header s)\<lparr>fh_root_page := r\<rparr> \<Longrightarrow> hdr_kept s s'"
  by (simp add: hdr_kept_def)

lemma hdr_kept_trans: "hdr_kept s s' \<Longrightarrow> hdr_kept s' s'' \<Longrightarrow> hdr_kept s s''"
  unfolding hdr_kept_def by (cases "bt_header s"; cases "bt_header s'"; cases "bt_header s''") simp

definition free_count :: "pages \<Rightarrow> nat" where
  "free_count ps = card {i. 2 \<le> i \<and> i < nat MAX_PAGE_NUM \<and> ps (int i) = None}"

lemma finite_free: "finite {i. 2 \<le> i \<and> i < nat MAX_PAGE_NUM \<and> ps (int i) = None}"
  by (rule finite_subset [of _ "{..<nat MAX_PAGE_NUM}"]) auto

lemma lowest_free_Some: "lowest_free ps i n = Some q \<Longrightarrow> i \<le> q \<and> q < n \<and> ps (int q) = None"
proof (induction ps i n rule: lowest_free.induct)
  case (1 ps i n)
  show ?case
    using 1 by (subst (asm) (2) lowest_free.simps) (auto split: if_splits dest: Suc_leD)
qed

lemma lowest_free_None: "lowest_free ps i n = None \<Longrightarrow> i \<le> j \<Longrightarrow> j < n \<Longrightarrow> ps (int j) \<noteq> None"
proof (induction ps i n rule: lowest_free.induct)
  case (1 ps i n)
  then have lt: "i < n" by simp
  have "lowest_free ps i n = (if ps (int i) = None then Some i else lowest_free ps (Suc i) n)"
    using lt lowest_free.simps [of ps i n] by simp
  with 1(2) have "ps (int i) \<noteq> None" "lowest_free ps (Suc i) n = None" by (auto split: if_splits)
  with 1 lt show ?case by (cases "i = j") auto
qed

lemma bt_allocate_ok:
  assumes "no_fault s" "0 < free_count (bt_pages s)"
  shows "\<exists>q. bt_allocate s = (SUCCESS, q) \<and> 2 \<le> q \<and> bt_pages s q = None \<and>
    (\<forall>x. free_count ((bt_pages s)(q \<mapsto> x)) = free_count (bt_pages s) - 1)"
proof -
  let ?F = "\<lambda>ps. {i. 2 \<le> i \<and> i < nat MAX_PAGE_NUM \<and> ps (int i) = (None :: IndexNode option)}"
  have "lowest_free (bt_pages s) 2 (nat MAX_PAGE_NUM) \<noteq> None"
  proof
    assume "lowest_free (bt_pages s) 2 (nat MAX_PAGE_NUM) = None"
    then have e: "?F (bt_pages s) = {}" using lowest_free_None by blast
    show False using assms(2) unfolding free_count_def e by simp
  qed
  then obtain q where q: "lowest_free (bt_pages s) 2 (nat MAX_PAGE_NUM) = Some q" by auto
  note qq = lowest_free_Some [OF q]
  have "?F ((bt_pages s)(int q \<mapsto> x)) = ?F (bt_pages s) - {q}" for x by auto
  then have "free_count ((bt_pages s)(int q \<mapsto> x)) = free_count (bt_pages s) - 1" for x
    unfolding free_count_def using qq finite_free [of "bt_pages s"] by (simp add: card_Diff_singleton)
  then show ?thesis using q qq assms(1) by (intro exI [of _ "int q"]) (simp add: bt_allocate_def no_fault_def)
qed

lemma free_count_dom: "dom ps = dom ps' \<Longrightarrow> free_count ps = free_count ps'"
  unfolding free_count_def by (metis domIff)

subsection \<open>Binary search in nodes\<close>

context index_order
begin

lemma lower_bound_by:
  assumes "sorted_wrt (\<lambda>x y. cmp (f x) (f y) < 0) xs" "\<forall>x \<in> set xs. ok (f x)" "ok val" "lower_bound (\<lambda>x. cmp (f x)) xs val = (p, found)"
  shows "p \<le> length xs" "\<And>i. i < p \<Longrightarrow> cmp (f (xs ! i)) val < 0" "\<And>i. p \<le> i \<Longrightarrow> i < length xs \<Longrightarrow> cmp (f (xs ! i)) val \<ge> 0"
    "found \<longleftrightarrow> p < length xs \<and> cmp (f (xs ! p)) val = 0"
proof -
  have mono: "cmp (f (xs ! i)) val < 0" if "i < j" "j < length xs" "cmp (f (xs ! j)) val \<le> 0" for i j
    using that assms(1-3) sorted_wrt_nth_less [OF assms(1), of i j] cmp_less_le [of "f (xs ! i)" "f (xs ! j)" val] by simp
  have "partition_point (\<lambda>i. cmp (f (xs ! i)) val) 0 (0 + length xs) p found"
    by (rule lower_bound_loop_correct [OF _ assms(4) [unfolded lower_bound_def]]) (auto intro: mono)
  then show "p \<le> length xs" "\<And>i. i < p \<Longrightarrow> cmp (f (xs ! i)) val < 0"
    "\<And>i. p \<le> i \<Longrightarrow> i < length xs \<Longrightarrow> cmp (f (xs ! i)) val \<ge> 0"
    "found \<longleftrightarrow> p < length xs \<and> cmp (f (xs ! p)) val = 0" by (auto simp: partition_point_def)
qed

lemma tords_keys:
  assumes "tords cmp ok lo hi kts" "okb lo"
  shows "sorted_wrt (\<lambda>x y. cmp (fst x) (fst y) < 0) (tl kts) \<and> (\<forall>x \<in> set (tl kts). ok (fst x) \<and> sabove cmp lo (fst x) \<and> below cmp hi (fst x))"
  using assms
proof (induction kts arbitrary: lo)
  case (Cons a kts)
  show ?case
  proof (cases kts)
    case (Cons b r)
    then have t: "sep_ok cmp ok lo hi (fst b)" "tords cmp ok (Some (fst b)) hi (b # r)" using Cons.prems(1) by (simp_all add: tords_two)
    then have ih: "sorted_wrt (\<lambda>x y. cmp (fst x) (fst y) < 0) r"
      "\<forall>x \<in> set r. ok (fst x) \<and> cmp (fst b) (fst x) < 0 \<and> below cmp hi (fst x)"
      using Cons.IH [of "Some (fst b)"] Cons sep_okD [OF t(1)] by auto
    have "sabove cmp lo (fst x)" if "x \<in> set r" for x
      using sabove_trans [OF Cons.prems(2), of "fst b" "fst x"] ih(2) that sep_okD [OF t(1)] by auto
    then show ?thesis using Cons ih sep_okD [OF t(1)] by auto
  qed simp
qed simp

text \<open>The child \<open>lookup\<close> chooses is the one whose bounds contain the key.\<close>

lemma lookup_child:
  assumes "kts \<noteq> []" "tords cmp ok lo hi kts" "okb lo" "ok key" "above cmp lo key" "below cmp hi key"
  shows "\<exists>ls k t rs. kts = ls @ (k, t) # rs \<and>
    fst (internal_lookup cmp key \<lparr>in_parent = par, in_array = child_ptrs kts\<rparr>) = length ls \<and>
    above cmp (if ls = [] then lo else Some k) key \<and> below cmp (if rs = [] then hi else Some (fst (hd rs))) key"
proof -
  let ?n = "length kts"
  note keys = tords_keys [OF assms(2,3)]
  obtain i found where lb: "lower_bound (\<lambda>item. cmp (fst item)) (tl (child_ptrs kts)) key = (i, found)" by fastforce
  have srt: "sorted_wrt (\<lambda>x y. cmp (fst x) (fst y) < 0) (tl (child_ptrs kts))" "\<forall>x \<in> set (tl (child_ptrs kts)). ok (fst x)"
    using keys by (auto simp: map_tl [symmetric] sorted_wrt_map)
  note b = lower_bound_by [of fst, OF srt assms(4) lb]
  have nthtl: "fst (tl (child_ptrs kts) ! j) = fst (kts ! Suc j)" if "Suc j < ?n" for j
    using that by (simp add: nth_tl)
  have i: "Suc i \<le> ?n" using b(1) assms(1) by (cases kts) auto
  have lt: "cmp (fst (kts ! Suc j)) key < 0" if "j < i" for j using b(2) [OF that] nthtl [of j] that i by simp
  have ge: "cmp (fst (kts ! Suc j)) key \<ge> 0" if "i \<le> j" "Suc j < ?n" for j using b(3) [of j] nthtl [OF that(2)] that by simp
  define c where "c = (if Suc i \<ge> ?n \<or> cmp key (fst (kts ! Suc i)) < 0 then i else Suc i)"
  have look: "fst (internal_lookup cmp key \<lparr>in_parent = par, in_array = child_ptrs kts\<rparr>) = c"
    using assms(1) lb i by (auto simp: internal_lookup_def c_def Let_def)
  have okk: "ok (fst (kts ! Suc j))" if "Suc j < ?n" for j
    using keys that by (metis nth_mem nth_tl length_tl less_diff_conv Suc_eq_plus1)
  have c: "c < ?n" using i by (auto simp: c_def)
  have lo': "cmp (fst (kts ! c)) key \<le> 0" if "0 < c"
  proof (cases "c = i")
    case True
    then show ?thesis using lt [of "c - 1"] that by simp
  next
    case False
    then have e: "c = Suc i" "Suc i < ?n" "\<not> cmp key (fst (kts ! Suc i)) < 0" by (auto simp: c_def split: if_splits)
    then show ?thesis using cmp_flip [OF assms(4) okk [OF e(2)]] by simp
  qed
  have hi': "cmp key (fst (kts ! Suc c)) < 0" if "Suc c < ?n"
  proof (cases "c = i")
    case True
    then show ?thesis using that by (auto simp: c_def split: if_splits)
  next
    case False
    then have e: "c = Suc i" "Suc i < ?n" by (auto simp: c_def split: if_splits)
    have "cmp (fst (kts ! Suc i)) (fst (kts ! Suc (Suc i))) < 0"
      using keys that e nth_tl [of i kts] nth_tl [of "Suc i" kts] sorted_wrt_nth_less [of "\<lambda>x y. cmp (fst x) (fst y) < 0" "tl kts" i "Suc i"] by simp
    then show ?thesis
      using cmp_le_less [of key "fst (kts ! Suc i)" "fst (kts ! Suc (Suc i))"] cmp_flip [of key "fst (kts ! Suc i)"] okk e that ge [of i] assms(4)
        cmp_flip [of "fst (kts ! Suc i)" key]  by simp
  qed
  have "kts = take c kts @ (fst (kts ! c), snd (kts ! c)) # drop (Suc c) kts" using c by (simp add: id_take_nth_drop [symmetric])
  moreover have "take c kts = [] \<longleftrightarrow> c = 0" using assms(1) by auto
  moreover have "drop (Suc c) kts = [] \<longleftrightarrow> Suc c = ?n" "Suc c < ?n \<Longrightarrow> hd (drop (Suc c) kts) = kts ! Suc c"
    using c by (auto simp: hd_drop_conv_nth)
  ultimately show ?thesis using look lo' hi' c assms(5,6)
    by (intro exI [of _ "take c kts"] exI [of _ "fst (kts ! c)"] exI [of _ "snd (kts ! c)"] exI [of _ "drop (Suc c) kts"]) auto
qed

lemma find_leaf_plug:
  assumes "trep (bt_pages s) BP_INVALID_PAGE_NUM (plug c0 t)" "tord cmp ok None None (plug c0 t)" "no_fault s"
    "ok key" "above cmp (clo c0) key" "below cmp (chi c0) key"
  shows "\<exists>c p xs. find_leaf_loop (\<lambda>n. internal_value_at (int (fst (internal_lookup cmp key n))) n) (troot t) s = Some (SUCCESS, p) \<and>
    plug c0 t = plug c (TLeaf p xs) \<and> above cmp (clo c) key \<and> below cmp (chi c) key"
  using assms(1,2,5,6)
proof (induction t arbitrary: c0 rule: tree_induct)
  case (TLeaf p xs)
  have "trep (bt_pages s) (cpar c0) (TLeaf p xs)" using TLeaf.prems(1) by (simp add: trep_plug)
  then show ?case using TLeaf.prems assms(3)
    by (intro exI [of _ c0] exI [of _ p] exI [of _ xs]) (subst find_leaf_loop.simps, auto simp: bt_get_def no_fault_def)
next
  case (TNode p kts)
  have rep: "bt_pages s p = Some (InternalNode \<lparr>in_parent = cpar c0, in_array = child_ptrs kts\<rparr>)"
    using TNode.prems(1) by (simp add: trep_plug)
  have co: "cord cmp ok c0" and kts: "kts \<noteq> []" "tords cmp ok (clo c0) (chi c0) kts" using TNode.prems(2) by (simp_all add: tord_plug)
  obtain ls k t rs where sp: "kts = ls @ (k, t) # rs"
    "fst (internal_lookup cmp key \<lparr>in_parent = cpar c0, in_array = child_ptrs kts\<rparr>) = length ls"
    "above cmp (if ls = [] then clo c0 else Some k) key" "below cmp (if rs = [] then chi c0 else Some (fst (hd rs))) key"
    using lookup_child [OF kts _ assms(4) TNode.prems(3,4)] cord_okb [OF co] by blast
  have pl: "plug c0 (TNode p kts) = plug ((p, ls, k, rs) # c0) t" by (simp add: sp(1))
  have "\<exists>c q xs. find_leaf_loop (\<lambda>n. internal_value_at (int (fst (internal_lookup cmp key n))) n) (troot t) s = Some (SUCCESS, q) \<and>
      plug ((p, ls, k, rs) # c0) t = plug c (TLeaf q xs) \<and> above cmp (clo c) key \<and> below cmp (chi c) key"
    using TNode.IH [of "(k, t)" "(p, ls, k, rs) # c0"] TNode.prems(1,2) sp pl by simp
  moreover have "find_leaf_loop (\<lambda>n. internal_value_at (int (fst (internal_lookup cmp key n))) n) (troot (TNode p kts)) s =
      find_leaf_loop (\<lambda>n. internal_value_at (int (fst (internal_lookup cmp key n))) n) (troot t) s"
    using rep sp(1,2) assms(3) by (subst find_leaf_loop.simps) (simp add: bt_get_def no_fault_def internal_value_at_def nth_append)
  ultimately show ?case using pl by simp
qed

text \<open>Inserting a separator: it goes behind the children with smaller keys.\<close>

lemma internal_insert_at:
  assumes "X \<noteq> []" "\<forall>x \<in> set (tl X @ Y). ok (fst x)" "ok k" "sorted_wrt (\<lambda>x y. cmp (fst x) (fst y) < 0) (tl X @ Y)"
    "\<forall>x \<in> set (tl X). cmp (fst x) k < 0" "\<forall>y \<in> set Y. cmp k (fst y) < 0" "in_array n = X @ Y"
  shows "internal_insert k pg cmp n = n\<lparr>in_array := X @ (k, pg) # Y\<rparr>"
proof -
  obtain i found where lb: "lower_bound (\<lambda>item. cmp (fst item)) (tl X @ Y) k = (i, found)" by fastforce
  note b = lower_bound_by [of fst, OF assms(4,2,3) lb]
  have "i = length (tl X)"
  proof (rule ccontr)
    assume "i \<noteq> length (tl X)"
    then consider "i < length (tl X)" | "length (tl X) < i" by linarith
    then show False
    proof cases
      case 1
      then have "cmp (fst (tl X ! i)) k < 0" "cmp (fst ((tl X @ Y) ! i)) k \<ge> 0" using assms(5) b(3) [of i] by simp_all
      then show False using 1 by (simp add: nth_append)
    next
      case 2
      then have "Y ! 0 \<in> set Y" using b(1) by (cases Y) auto
      then have "cmp k (fst (Y ! 0)) < 0" "ok (fst (Y ! 0))" using assms(2,6) by auto
      moreover have "cmp (fst (Y ! 0)) k < 0" using b(2) [OF 2] by (simp add: nth_append)
      ultimately show False using cmp_anti [OF assms(3), of "fst (Y ! 0)"] by simp
    qed
  qed
  then have i: "Suc i = length X" using assms(1) by (cases X) auto
  have tl: "tl (in_array n) = tl X @ Y" "in_array n \<noteq> []" using assms(1,7) by simp_all
  have "snd (snd (internal_lookup cmp k n)) = length X" using lb tl(2) i unfolding internal_lookup_def tl(1) by simp
  then show ?thesis by (cases "internal_lookup cmp k n") (simp add: internal_insert_def assms(7))
qed

lemma tords_insert:
  assumes "cord cmp ok ((p, ls, k0, rs) # c)" "tord cmp ok (clo ((p, ls, k0, rs) # c)) (Some k) l"
    "tord cmp ok (Some k) (chi ((p, ls, k0, rs) # c)) r" "sep_ok cmp ok (clo ((p, ls, k0, rs) # c)) (chi ((p, ls, k0, rs) # c)) k"
  shows "tords cmp ok (clo c) (chi c) (ls @ (k0, l) # (k, r) # rs)"
proof -
  have okc: "okb (clo c)" "okb (chi c)" using cord_okb [of c] assms(1) by simp_all
  let ?lo = "if ls = [] then clo c else Some k0"
  have rgt: "tords cmp ok (Some k) (chi c) ((k, r) # rs) \<and> sep_ok cmp ok ?lo (chi c) k"
  proof (cases rs)
    case Nil
    then show ?thesis using assms(3,4) by simp
  next
    case (Cons x xs)
    have "sep_ok cmp ok ?lo (chi c) (fst x)" "tords cmp ok (Some (fst x)) (chi c) rs" using assms(1) Cons by simp_all
    moreover have "sep_ok cmp ok ?lo (Some (fst x)) k" using assms(4) Cons by simp
    moreover have "okb ?lo" using cord_okb [OF assms(1)] by simp
    ultimately show ?thesis using sep_swap [of ?lo "chi c" k "fst x"] okc assms(3) Cons by (simp add: tords_two)
  qed
  then have "tords cmp ok ?lo (chi c) ((k0, l) # (k, r) # rs)" using assms(2) by (simp add: tords_two)
  then show ?thesis
    using tords_append [of ls "(k0, l) # (k, r) # rs" "clo c" "chi c"] okc assms(1) by (cases "ls = []") simp_all
qed

end

subsection \<open>Children change their parent\<close>

lemma nxt_set_parent [simp]: "ps x = Some n \<Longrightarrow> nxt (ps(x \<mapsto> nd_set_parent par n)) = nxt ps"
  by (cases n) (auto simp: nxt_def fun_eq_iff)

lemma nxt_internal [simp]: "ps x = None \<or> ps x = Some (InternalNode m) \<Longrightarrow> nxt (ps(x \<mapsto> InternalNode n)) = nxt ps"
  by (auto simp: nxt_def fun_eq_iff)

lemma bt_set_pages [simp]: "bt_pages (bt_set p n s) = (bt_pages s)(p \<mapsto> n)" "bt_header (bt_set p n s) = bt_header s"
  "bt_fault (bt_set p n s) = bt_fault s" "bt_alloc_fault (bt_set p n s) = bt_alloc_fault s" "bt_disposed (bt_set p n s) = bt_disposed s"
  by (simp_all add: bt_set_def)

lemma bt_mark_simps [simp]: "bt_pages (bt_mark p s) = bt_pages s" "bt_header (bt_mark p s) = bt_header s" "bt_fault (bt_mark p s) = bt_fault s"
  "bt_alloc_fault (bt_mark p s) = bt_alloc_fault s" "bt_disposed (bt_mark p s) = bt_disposed s" "bt_dirty (bt_mark p s) = insert p (bt_dirty s)"
  "bt_dirty (bt_set p n s) = bt_dirty s"
  by (simp_all add: bt_mark_def bt_set_def)

lemma no_fault_set [simp]: "no_fault (bt_set p n s) = no_fault s" "no_fault (s\<lparr>bt_pages := ps\<rparr>) = no_fault s" "no_fault (bt_mark p s) = no_fault s"
  "no_fault (s\<lparr>bt_dirty := D\<rparr>) = no_fault s"
  "max_sizes (bt_set p n s) = max_sizes s" "max_sizes (s\<lparr>bt_pages := ps\<rparr>) = max_sizes s" "max_sizes (bt_mark p s) = max_sizes s"
  "max_sizes (s\<lparr>bt_dirty := D\<rparr>) = max_sizes s"
  by (simp_all add: no_fault_def max_sizes_def)

lemma dirty_last [simp]: "s\<lparr>bt_dirty := D, bt_pages := ps\<rparr> = s\<lparr>bt_pages := ps, bt_dirty := D\<rparr>"
  by simp

lemma bt_ok_mark [simp]: "bt_ok cmp ok (bt_mark p s) t = bt_ok cmp ok s t"
  by (simp add: bt_ok_def)

lemma adopt_children_correct:
  assumes "\<forall>kt \<in> set B. trep (bt_pages s) p (snd kt)" "distinct (kts_pages B)" "bt_fault s = (\<lambda>_. SUCCESS)"
  shows "\<exists>ps D. adopt_children q (child_ptrs B) s = Some (SUCCESS, s\<lparr>bt_pages := ps, bt_dirty := D\<rparr>) \<and> (\<forall>kt \<in> set B. trep ps q (snd kt)) \<and>
    (\<forall>x. x \<notin> set (kts_pages B) \<longrightarrow> ps x = bt_pages s x) \<and> nxt ps = nxt (bt_pages s) \<and> dom ps = dom (bt_pages s)"
  using assms
proof (induction B arbitrary: s)
  case (Cons kt B)
  let ?t = "snd kt"
  obtain n where n: "bt_pages s (troot ?t) = Some n" "trep ((bt_pages s)(troot ?t \<mapsto> nd_set_parent q n)) q ?t"
    using trep_reparent [of "bt_pages s" p ?t q] Cons.prems(1,2) by auto
  let ?s1 = "bt_mark (troot ?t) (bt_set (troot ?t) (nd_set_parent q n) s)"
  have reps: "\<forall>kt' \<in> set B. trep (bt_pages ?s1) p (snd kt')"
  proof
    fix kt' assume that: "kt' \<in> set B"
    have "set (tpages (snd kt')) \<subseteq> set (kts_pages B)" "set (tpages ?t) \<inter> set (kts_pages B) = {}" using that Cons.prems(2) by auto
    then have "troot ?t \<notin> set (tpages (snd kt'))" using troot_in [of ?t] by blast
    then show "trep (bt_pages ?s1) p (snd kt')" using Cons.prems(1) that by simp
  qed
  have "distinct (kts_pages B)" "bt_fault ?s1 = (\<lambda>_. SUCCESS)" using Cons.prems(2,3) by simp_all
  from Cons.IH [OF reps this] obtain ps D where ps: "adopt_children q (child_ptrs B) ?s1 = Some (SUCCESS, ?s1\<lparr>bt_pages := ps, bt_dirty := D\<rparr>)" "\<forall>kt \<in> set B. trep ps q (snd kt)"
    "\<forall>x. x \<notin> set (kts_pages B) \<longrightarrow> ps x = bt_pages ?s1 x" "nxt ps = nxt (bt_pages ?s1)" "dom ps = dom (bt_pages ?s1)"
    by blast
  have disj: "set (tpages ?t) \<inter> set (kts_pages B) = {}" using Cons.prems(2) by simp
  have "trep ps q ?t = trep (bt_pages ?s1) q ?t"
    using ps(3) disj by (intro trep_cong) blast
  then have "trep ps q ?t" using n(2) by simp
  moreover have "\<forall>x. x \<notin> set (kts_pages (kt # B)) \<longrightarrow> ps x = bt_pages s x"
  proof (intro allI impI)
    fix x assume "x \<notin> set (kts_pages (kt # B))"
    then have "x \<notin> set (kts_pages B)" "x \<noteq> troot ?t" using troot_in [of ?t] by auto
    then show "ps x = bt_pages s x" using ps(3) by simp
  qed
  moreover have "nxt ps = nxt (bt_pages s)" using ps(4) n(1) by simp
  moreover have "dom ps = dom (bt_pages s)" using ps(5) n(1) by (auto simp: dom_def)
  moreover have "?s1\<lparr>bt_pages := ps, bt_dirty := D\<rparr> = s\<lparr>bt_pages := ps, bt_dirty := D\<rparr>" by (simp add: bt_set_def bt_mark_def)
  ultimately show ?case using ps(1,2) n(1) Cons.prems(3) by (intro exI [of _ ps] exI [of _ D]) (simp add: bt_get_def no_fault_def)
next
  case Nil
  then show ?case by (intro exI [of _ "bt_pages s"] exI [of _ "bt_dirty s"]) simp
qed

text \<open>Splitting an inner node: the second half of its children moves to a new page.\<close>

lemma split_internal_correct:
  assumes p: "bt_pages s p = Some (InternalNode \<lparr>in_parent = par, in_array = child_ptrs (A @ B)\<rparr>)"
    and half: "length A = (length A + length B) div 2"
    and ch: "\<forall>kt \<in> set (A @ B). trep (bt_pages s) p (snd kt)" and dist: "distinct (p # kts_pages (A @ B))"
    and nf: "no_fault s" and al: "bt_allocate s = (SUCCESS, q)" "bt_pages s q = None" "q \<notin> set (kts_pages (A @ B))"
  shows "\<exists>ps D. split_internal p s = Some (SUCCESS, q, s\<lparr>bt_pages := ps, bt_dirty := D\<rparr>) \<and>
    ps p = Some (InternalNode \<lparr>in_parent = par, in_array = child_ptrs A\<rparr>) \<and>
    ps q = Some (InternalNode \<lparr>in_parent = par, in_array = child_ptrs B\<rparr>) \<and>
    (\<forall>kt \<in> set A. trep ps p (snd kt)) \<and> (\<forall>kt \<in> set B. trep ps q (snd kt)) \<and>
    (\<forall>x. x \<noteq> p \<and> x \<noteq> q \<and> x \<notin> set (kts_pages B) \<longrightarrow> ps x = bt_pages s x) \<and>
    nxt ps = nxt (bt_pages s) \<and> dom ps = insert q (dom (bt_pages s))"
proof -
  have pq: "p \<noteq> q" using p al(2) by auto
  let ?s1 = "bt_set q (InternalNode \<lparr>in_parent = par, in_array = []\<rparr>) s"
  have "trep (bt_pages ?s1) p (snd kt)" if "kt \<in> set B" for kt
    using ch al(3) that by auto
  then obtain ps D where ps: "adopt_children q (child_ptrs B) ?s1 = Some (SUCCESS, ?s1\<lparr>bt_pages := ps, bt_dirty := D\<rparr>)" "\<forall>kt \<in> set B. trep ps q (snd kt)"
    "\<forall>x. x \<notin> set (kts_pages B) \<longrightarrow> ps x = bt_pages ?s1 x" "nxt ps = nxt (bt_pages ?s1)" "dom ps = dom (bt_pages ?s1)"
    using adopt_children_correct [of B ?s1 p q] dist nf by (auto simp: no_fault_def)
  have notB: "p \<notin> set (kts_pages B)" "q \<notin> set (kts_pages B)" using dist al(3) by auto
  define ps' where "ps' = ps(q \<mapsto> InternalNode \<lparr>in_parent = par, in_array = child_ptrs B\<rparr>,
    p \<mapsto> InternalNode \<lparr>in_parent = par, in_array = child_ptrs A\<rparr>)"
  have psq: "ps q = Some (InternalNode \<lparr>in_parent = par, in_array = []\<rparr>)" "ps p = bt_pages s p" using ps(3) notB pq by auto
  have tk: "take ((length A + length B) div 2) (child_ptrs (A @ B)) = child_ptrs A"
    "drop ((length A + length B) div 2) (child_ptrs (A @ B)) = child_ptrs B"
    unfolding half [symmetric] by simp_all
  have "internal_move_half_to p q ?s1 = Some (SUCCESS, s\<lparr>bt_pages := ps', bt_dirty := D\<rparr>)"
    using p pq ps(1) psq tk
    by (simp add: internal_move_half_to_def internal_copy_from_def bt_internal_def ps'_def bt_set_def Let_def)
  then have run: "split_internal p s = Some (SUCCESS, q, s\<lparr>bt_pages := ps', bt_dirty := insert q (insert p D)\<rparr>)"
    using p al(1) by (simp add: split_internal_def bt_internal_def internal_init_empty_def bt_mark_def Let_def)
  have reps: "trep ps' x (snd kt) = trep ps x (snd kt)" if "kt \<in> set (A @ B)" for kt x
    using that dist al(3) by (intro trep_cong) (auto simp: ps'_def)
  have repA: "trep ps' p (snd kt)" if "kt \<in> set A" for kt
  proof -
    have "trep ps p (snd kt) = trep (bt_pages s) p (snd kt)"
    proof (rule trep_cong)
      fix x assume "x \<in> set (tpages (snd kt))"
      then have "x \<notin> set (kts_pages B)" "x \<noteq> q" using that dist al(3) by (auto 4 3)
      then show "ps x = bt_pages s x" using ps(3) by simp
    qed
    then show ?thesis using reps ch that by simp
  qed
  then have "\<forall>kt \<in> set A. trep ps' p (snd kt)" by blast
  moreover have "\<forall>kt \<in> set B. trep ps' q (snd kt)" using reps ps(2) by simp
  moreover have "nxt ps' = nxt (bt_pages s)"
  proof -
    have "nxt ps = nxt (bt_pages s)" using ps(4) al(2) by simp
    moreover have "nxt (ps(q \<mapsto> InternalNode \<lparr>in_parent = par, in_array = child_ptrs B\<rparr>)) = nxt ps" using psq(1) by simp
    moreover have "nxt ps' = nxt (ps(q \<mapsto> InternalNode \<lparr>in_parent = par, in_array = child_ptrs B\<rparr>))"
      unfolding ps'_def using psq(2) p pq by (intro nxt_internal) auto
    ultimately show ?thesis by simp
  qed
  moreover have "\<forall>x. x \<noteq> p \<and> x \<noteq> q \<and> x \<notin> set (kts_pages B) \<longrightarrow> ps' x = bt_pages s x" using ps(3) by (simp add: ps'_def)
  moreover have "dom ps' = insert q (dom (bt_pages s))" using ps(5) p by (auto simp: ps'_def)
  moreover have "ps' p = Some (InternalNode \<lparr>in_parent = par, in_array = child_ptrs A\<rparr>)"
    "ps' q = Some (InternalNode \<lparr>in_parent = par, in_array = child_ptrs B\<rparr>)" using pq by (simp_all add: ps'_def)
  ultimately show ?thesis using run by (intro exI [of _ ps'] exI [of _ "insert q (insert p D)"] conjI) assumption+
qed

subsection \<open>Carrying a split up the tree\<close>

text \<open>The state while a node has been split in two and the parent does not know the right half yet.\<close>

definition split_pending ::
  "(key \<Rightarrow> key \<Rightarrow> int) \<Rightarrow> (key \<Rightarrow> bool) \<Rightarrow> BplusTreeHandler \<Rightarrow> frame list \<Rightarrow> tree \<Rightarrow> key \<Rightarrow> tree \<Rightarrow> nat \<Rightarrow> bool" where
  "split_pending cmp ok s c l k r m \<longleftrightarrow> no_fault s \<and> fh_root_page (bt_header s) = troot (plug c l) \<and>
     crep (bt_pages s) c (troot l) \<and> trep (bt_pages s) (cpar c) l \<and> trep (bt_pages s) (cpar c) r \<and>
     distinct (cpages c @ tpages l @ tpages r) \<and> dom (bt_pages s) = set (cpages c @ tpages l @ tpages r) \<and>
     (\<forall>p \<in> set (cpages c @ tpages l @ tpages r). 2 \<le> p) \<and>
     cord cmp ok c \<and> tord cmp ok (clo c) (Some k) l \<and> tord cmp ok (Some k) (chi c) r \<and> sep_ok cmp ok (clo c) (chi c) k \<and>
     2 \<le> fst (max_sizes s) \<and> 2 \<le> snd (max_sizes s) \<and> csz (fst (max_sizes s)) (snd (max_sizes s)) c \<and>
     tsz (fst (max_sizes s)) (snd (max_sizes s)) l \<and> tsz (fst (max_sizes s)) (snd (max_sizes s)) r \<and>
     chain (bt_pages s) (cll c @ tleaves l @ tleaves r @ clr c) BP_INVALID_PAGE_NUM \<and>
     cbal m c \<and> tbal m l \<and> tbal m r"

lemma split_pendingD:
  assumes "split_pending cmp ok s c l k r m"
  shows "no_fault s" "fh_root_page (bt_header s) = troot (plug c l)"
    "crep (bt_pages s) c (troot l)" "trep (bt_pages s) (cpar c) l" "trep (bt_pages s) (cpar c) r"
    "distinct (cpages c @ tpages l @ tpages r)" "dom (bt_pages s) = set (cpages c @ tpages l @ tpages r)"
    "\<And>p. p \<in> set (cpages c @ tpages l @ tpages r) \<Longrightarrow> 2 \<le> p"
    "cord cmp ok c" "tord cmp ok (clo c) (Some k) l" "tord cmp ok (Some k) (chi c) r" "sep_ok cmp ok (clo c) (chi c) k"
    "2 \<le> fst (max_sizes s)" "2 \<le> snd (max_sizes s)" "csz (fst (max_sizes s)) (snd (max_sizes s)) c"
    "tsz (fst (max_sizes s)) (snd (max_sizes s)) l" "tsz (fst (max_sizes s)) (snd (max_sizes s)) r"
    "chain (bt_pages s) (cll c @ tleaves l @ tleaves r @ clr c) BP_INVALID_PAGE_NUM"
    "cbal m c" "tbal m l" "tbal m r"
  using assms unfolding split_pending_def by blast+

lemma split_pending_mark [simp]: "split_pending cmp ok (bt_mark p s) c l k r m = split_pending cmp ok s c l k r m"
  by (simp add: split_pending_def)

lemma nd_set_parent_same: "nd_parent n = p \<Longrightarrow> nd_set_parent p n = n"
  by (cases n) auto

lemma set_parent_rep:
  assumes "trep (bt_pages s) par t" "distinct (tpages t)"
  shows "\<exists>n. bt_pages s (troot t) = Some n \<and> set_parent (troot t) q s = Some (bt_set (troot t) (nd_set_parent q n) s) \<and>
    trep ((bt_pages s)(troot t \<mapsto> nd_set_parent q n)) q t"
  using trep_reparent [OF assms, of q] by (auto simp: set_parent_def)

lemma set_parent_same:
  assumes "bt_pages s x = Some n" "nd_parent n = p"
  shows "set_parent x p s = Some s"
  using assms by (simp add: set_parent_def nd_set_parent_same bt_set_def fun_upd_idem)

context index_order
begin

lemma internal_insert_child:
  assumes "X \<noteq> []" "sorted_wrt (\<lambda>x y. cmp (fst x) (fst y) < 0) (tl X @ (k, r) # Y)" "\<forall>x \<in> set (tl X @ (k, r) # Y). ok (fst x)"
  shows "internal_insert k (troot r) cmp \<lparr>in_parent = par, in_array = child_ptrs (X @ Y)\<rparr> =
    \<lparr>in_parent = par, in_array = child_ptrs (X @ (k, r) # Y)\<rparr>"
proof -
  have "sorted_wrt (\<lambda>x y. cmp (fst x) (fst y) < 0) (tl (child_ptrs X) @ child_ptrs Y)"
    using assms(2) by (simp add: map_tl [symmetric] sorted_wrt_append sorted_wrt_map)
  moreover have "\<forall>x \<in> set (tl (child_ptrs X) @ child_ptrs Y). ok (fst x)" "ok k"
    using assms(3) by (simp_all add: map_tl [symmetric] ball_Un)
  moreover have "\<forall>x \<in> set (tl (child_ptrs X)). cmp (fst x) k < 0" "\<forall>y \<in> set (child_ptrs Y). cmp k (fst y) < 0"
    using assms(2) by (auto simp: map_tl [symmetric] sorted_wrt_append)
  ultimately show ?thesis
    using internal_insert_at [of "child_ptrs X" "child_ptrs Y" k "\<lparr>in_parent = par, in_array = child_ptrs (X @ Y)\<rparr>" "troot r"] assms(1)
    by simp
qed

lemma split_pending_up:
  assumes pending: "split_pending cmp ok s ((p, ls, k0, rs) # c) l k r m"
    and AB: "A @ B = ls @ (k0, l) # (k, r) # rs" "A \<noteq> []" "B \<noteq> []" "int (length A) \<le> snd (max_sizes s)" "int (length B) \<le> snd (max_sizes s)"
      "snd (max_sizes s) div 2 \<le> int (length A)" "snd (max_sizes s) div 2 \<le> int (length B)"
    and ps: "ps p = Some (InternalNode \<lparr>in_parent = cpar c, in_array = child_ptrs A\<rparr>)"
      "ps q = Some (InternalNode \<lparr>in_parent = cpar c, in_array = child_ptrs B\<rparr>)"
      "\<forall>kt \<in> set A. trep ps p (snd kt)" "\<forall>kt \<in> set B. trep ps q (snd kt)"
      "\<forall>x \<in> set (cpages c). ps x = bt_pages s x" "nxt ps = nxt (bt_pages s)" "dom ps = insert q (dom (bt_pages s))"
      "bt_pages s q = None" "2 \<le> q"
  shows "split_pending cmp ok (s\<lparr>bt_pages := ps, bt_dirty := D\<rparr>) c (TNode p A) (fst (hd B)) (TNode q B) (Suc m)"
proof -
  note d = split_pendingD [OF pending]
  have okc: "okb (clo c)" "okb (chi c)" using cord_okb [of c] d(9) by simp_all
  have fstA: "fst (hd A) = (if ls = [] then k0 else fst (hd ls))"
    using arg_cong [OF AB(1), of hd] AB(2) by (simp add: hd_append split: if_splits)
  have tds: "tords cmp ok (clo c) (Some (fst (hd B))) A" "sep_ok cmp ok (clo c) (chi c) (fst (hd B))" "tords cmp ok (Some (fst (hd B))) (chi c) B"
    using tords_insert [OF d(9-12)] tords_append [OF AB(2,3) okc] unfolding AB(1) by simp_all
  have cond: "clo c = None \<or> clo c = Some (fst (hd A))" using d(9) fstA by simp
  have pages: "kts_pages A @ kts_pages B = kts_pages ls @ tpages l @ tpages r @ kts_pages rs"
    using arg_cong [OF AB(1), of kts_pages] by simp
  have qn: "q \<notin> set (cpages ((p, ls, k0, rs) # c) @ tpages l @ tpages r)" using ps(8) d(7) by (auto simp: domIff)
  have "mset (cpages c @ tpages (TNode p A) @ tpages (TNode q B)) = mset (q # cpages ((p, ls, k0, rs) # c) @ tpages l @ tpages r)"
    using arg_cong [OF pages, of mset] by simp
  then have dist: "distinct (cpages c @ tpages (TNode p A) @ tpages (TNode q B))" "set (cpages c @ tpages (TNode p A) @ tpages (TNode q B)) =
      insert q (set (cpages ((p, ls, k0, rs) # c) @ tpages l @ tpages r))"
    using d(6) qn by (metis distinct.simps(2) mset_eq_imp_distinct_iff, metis list.simps(15) mset_eq_setD)
  have flat: "concat (map (\<lambda>kt. tleaves (snd kt)) A) @ concat (map (\<lambda>kt. tleaves (snd kt)) B) =
      concat (map (\<lambda>kt. tleaves (snd kt)) ls) @ tleaves l @ tleaves r @ concat (map (\<lambda>kt. tleaves (snd kt)) rs)"
    using arg_cong [OF AB(1), of "\<lambda>xs. concat (map (\<lambda>kt. tleaves (snd kt)) xs)"] by simp
  have lv: "cll c @ tleaves (TNode p A) @ tleaves (TNode q B) @ clr c =
      cll ((p, ls, k0, rs) # c) @ tleaves l @ tleaves r @ clr ((p, ls, k0, rs) # c)"
    using flat by (simp add: append_assoc [symmetric] del: append_assoc)
  have sets: "set A \<union> set B = set ls \<union> {(k0, l), (k, r)} \<union> set rs" using arg_cong [OF AB(1), of set] by auto
  have "\<forall>kt \<in> set A \<union> set B. tsz (fst (max_sizes s)) (snd (max_sizes s)) (snd kt) \<and> tbal m (snd kt)"
    unfolding sets using d(15-17,19-21) by auto
  then have sz: "tsz (fst (max_sizes s)) (snd (max_sizes s)) (TNode p A)" "tsz (fst (max_sizes s)) (snd (max_sizes s)) (TNode q B)"
    "tbal (Suc m) (TNode p A)" "tbal (Suc m) (TNode q B)" using AB(4-7) by auto
  have cr: "crep ps c p" using crep_cong [of c ps "bt_pages s" p] ps(5) d(3) by simp
  have ch: "chain ps (cll c @ tleaves (TNode p A) @ tleaves (TNode q B) @ clr c) BP_INVALID_PAGE_NUM"
    unfolding lv using d(18) chain_cong [of _ ps "bt_pages s"] ps(6) by metis
  have root: "fh_root_page (bt_header s) = troot (plug c (TNode p A))" using d(2) by (simp add: troot_plug)
  show ?thesis
    unfolding split_pending_def
    using d(1,8,13-15,19) root cr ps(1-4,7,9) dist d(7) cond tds AB(2,3) sz ch d(9)
    by simp
qed

text \<open>A well-formed handler, seen from a position in the tree.\<close>

lemma bt_ok_plug:
  "bt_ok cmp ok s (plug c t) \<longleftrightarrow> no_fault s \<and> fh_root_page (bt_header s) = troot (plug c t) \<and>
     crep (bt_pages s) c (troot t) \<and> trep (bt_pages s) (cpar c) t \<and>
     distinct (cpages c @ tpages t) \<and> dom (bt_pages s) = set (cpages c @ tpages t) \<and> (\<forall>p \<in> set (cpages c @ tpages t). 2 \<le> p) \<and>
     cord cmp ok c \<and> tord cmp ok (clo c) (chi c) t \<and>
     2 \<le> fst (max_sizes s) \<and> 2 \<le> snd (max_sizes s) \<and> csz (fst (max_sizes s)) (snd (max_sizes s)) c \<and>
     hsz (fst (max_sizes s)) (snd (max_sizes s)) c t \<and>
     chain (bt_pages s) (cll c @ tleaves t @ clr c) BP_INVALID_PAGE_NUM \<and> (\<exists>m. cbal m c \<and> tbal m t)"
proof -
  have bal: "(\<exists>n. tbal n (plug c t)) \<longleftrightarrow> (\<exists>m. cbal m c \<and> tbal m t)"
    unfolding tbal_plug by (metis add_diff_cancel_right' le_add2)
  have "distinct (tpages (plug c t)) \<longleftrightarrow> distinct (cpages c @ tpages t)" using distinct_plug [of c t "[]"] by simp
  then show ?thesis
    unfolding bt_ok_def bal trep_plug tord_plug tsz_plug tleaves_plug set_plug by auto
qed

lemma pending_keys:
  assumes "split_pending cmp ok s ((p, ls, k0, rs) # c) l k r m" "A @ B = ls @ (k0, l) # (k, r) # rs" "A \<noteq> []"
  shows "sorted_wrt (\<lambda>x y. cmp (fst x) (fst y) < 0) (tl A @ B)" "\<forall>x \<in> set (tl A @ B). ok (fst x)"
proof -
  note d = split_pendingD [OF assms(1)]
  have okc: "okb (clo c)" using cord_okb [of c] d(9) by simp
  have "tl (A @ B) = tl A @ B" using assms(3) by simp
  then show "sorted_wrt (\<lambda>x y. cmp (fst x) (fst y) < 0) (tl A @ B)" "\<forall>x \<in> set (tl A @ B). ok (fst x)"
    using tords_keys [OF tords_insert [OF d(9-12)] okc] unfolding assms(2) [symmetric] by auto
qed

lemma insert_into_parent_room:
  assumes pending: "split_pending cmp ok s ((p, ls, k0, rs) # c) l k r m"
    and room: "int (length ls + Suc (length rs)) < snd (max_sizes s)"
  shows "\<exists>s'. insert_entry_into_parent cmp (troot l) (troot r) k s = Some (SUCCESS, s') \<and>
    bt_ok cmp ok s' (plug c (TNode p (ls @ (k0, l) # (k, r) # rs))) \<and> hdr_kept s s'"
proof -
  let ?kts = "ls @ (k0, l) # (k, r) # rs"
  note d = split_pendingD [OF pending]
  have p: "bt_pages s p = Some (InternalNode \<lparr>in_parent = cpar c, in_array = child_ptrs (ls @ (k0, l) # rs)\<rparr>)"
    using d(3) by simp
  obtain nl nr where nl: "bt_pages s (troot l) = Some nl" "nd_parent nl = p" and nr: "bt_pages s (troot r) = Some nr" "nd_parent nr = p"
    using trep_root [OF d(4)] trep_root [OF d(5)] by auto
  have pne: "p \<noteq> BP_INVALID_PAGE_NUM" "troot r \<noteq> p"
    using d(8) [of p] d(6) troot_in [of r] by (auto simp: BP_INVALID_PAGE_NUM_def)
  have keys: "sorted_wrt (\<lambda>x y. cmp (fst x) (fst y) < 0) (tl (ls @ [(k0, l)]) @ (k, r) # rs)" "\<forall>x \<in> set (tl (ls @ [(k0, l)]) @ (k, r) # rs). ok (fst x)"
    by (rule pending_keys [OF pending]; simp)+
  have ins: "internal_insert k (troot r) cmp \<lparr>in_parent = cpar c, in_array = child_ptrs (ls @ (k0, l) # rs)\<rparr> =
      \<lparr>in_parent = cpar c, in_array = child_ptrs ?kts\<rparr>"
    using internal_insert_child [OF _ keys, of "cpar c"] by simp
  let ?s = "bt_set p (InternalNode \<lparr>in_parent = cpar c, in_array = child_ptrs ?kts\<rparr>) s"
  have "set_parent (troot r) p ?s = Some ?s" using nr pne by (intro set_parent_same [of _ _ nr]) simp_all
  then have run: "insert_entry_into_parent cmp (troot l) (troot r) k s = Some (SUCCESS, bt_mark p (bt_mark (troot r) (bt_mark (troot l) ?s)))"
    using p nl pne room d(1) ins
    by (subst insert_entry_into_parent.simps) (simp add: bt_get_def bt_internal_def nd_max_size_def max_sizes_def no_fault_def)
  have np: "p \<notin> set (kts_pages ls)" "p \<notin> set (kts_pages rs)" "p \<notin> set (cpages c)" "p \<notin> set (tpages l)" "p \<notin> set (tpages r)"
    using d(6) by auto
  have ch: "\<forall>kt \<in> set ?kts. trep (bt_pages ?s) p (snd kt)" using d(3,4,5) np by (simp add: ball_Un)
  have "mset (cpages c @ tpages (TNode p ?kts)) = mset (cpages ((p, ls, k0, rs) # c) @ tpages l @ tpages r)" by simp
  then have dist: "distinct (cpages c @ tpages (TNode p ?kts))" "set (cpages c @ tpages (TNode p ?kts)) = set (cpages ((p, ls, k0, rs) # c) @ tpages l @ tpages r)"
    using d(6) by (metis mset_eq_imp_distinct_iff, metis mset_eq_setD)
  have "crep (bt_pages ?s) c p" using d(3) np by simp
  moreover have "nxt (bt_pages ?s) = nxt (bt_pages s)" using p by simp
  then have "chain (bt_pages ?s) (cll c @ tleaves (TNode p ?kts) @ clr c) BP_INVALID_PAGE_NUM"
    using d(18) chain_cong [of _ "bt_pages ?s" "bt_pages s"] by simp
  moreover have "\<exists>m. cbal m c \<and> tbal m (TNode p ?kts)" using d(19-21) by (intro exI [of _ "Suc m"]) auto
  moreover have "dom (bt_pages ?s) = set (cpages c @ tpages (TNode p ?kts))" unfolding dist(2) using d(7) by auto
  moreover have "tord cmp ok (clo c) (chi c) (TNode p ?kts)"
    using tords_insert [OF d(9-12)] d(9) by (cases ls) simp_all
  moreover have "fh_root_page (bt_header s) = troot (plug c (TNode p ?kts))" using d(2) by (simp add: troot_plug)
  moreover have "\<forall>x \<in> set (cpages c @ tpages (TNode p ?kts)). 2 \<le> x" unfolding dist(2) using d(8) by blast
  moreover have "hsz (fst (max_sizes s)) (snd (max_sizes s)) c (TNode p ?kts)" using room d(15-17) by (auto simp: hsz_def split: if_splits)
  ultimately have "bt_ok cmp ok ?s (plug c (TNode p ?kts))"
    unfolding bt_ok_plug using d(1,9,13-15) ch dist(1) by simp
  then show ?thesis using run by (simp add: hdr_kept_def)
qed

text \<open>The pages around a split, before the new separator goes in: what the two cases below share.\<close>

lemma pending_split_internal:
  assumes pending: "split_pending cmp ok s ((p, ls, k0, rs) # c) l k r m"
    and full: "int (length ls + Suc (length rs)) = snd (max_sizes s)"
    and AB: "A @ B = ls @ (k0, l) # rs" "length A = (length A + length B) div 2" and free: "0 < free_count (bt_pages s)"
  obtains q ps D nl nr where "split_internal p s = Some (SUCCESS, q, s\<lparr>bt_pages := ps, bt_dirty := D\<rparr>)" "2 \<le> q" "bt_pages s q = None"
    "bt_pages s (troot l) = Some nl" "nd_parent nl = p" "bt_pages s (troot r) = Some nr" "nd_parent nr = p"
    "ps p = Some (InternalNode \<lparr>in_parent = cpar c, in_array = child_ptrs A\<rparr>)"
    "ps q = Some (InternalNode \<lparr>in_parent = cpar c, in_array = child_ptrs B\<rparr>)"
    "\<forall>kt \<in> set A. trep ps p (snd kt)" "\<forall>kt \<in> set B. trep ps q (snd kt)"
    "\<forall>x \<in> set (cpages c) \<union> set (tpages r). ps x = bt_pages s x" "nxt ps = nxt (bt_pages s)" "dom ps = insert q (dom (bt_pages s))"
    "free_count ps = free_count (bt_pages s) - 1" "q \<notin> insert p (set (cpages c @ kts_pages (A @ B) @ tpages r))"
    "distinct (p # cpages c @ kts_pages A @ kts_pages B @ tpages r)" "p \<noteq> BP_INVALID_PAGE_NUM"
proof -
  note d = split_pendingD [OF pending]
  obtain q where q: "bt_allocate s = (SUCCESS, q)" "2 \<le> q" "bt_pages s q = None"
    "\<And>x. free_count ((bt_pages s)(q \<mapsto> x)) = free_count (bt_pages s) - 1"
    using bt_allocate_ok [OF d(1) free] by blast
  obtain nl nr where nl: "bt_pages s (troot l) = Some nl" "nd_parent nl = p" "bt_pages s (troot r) = Some nr" "nd_parent nr = p"
    using trep_root [OF d(4)] trep_root [OF d(5)] by auto
  have pages: "kts_pages A @ kts_pages B = kts_pages ls @ tpages l @ kts_pages rs"
    using arg_cong [OF AB(1), of kts_pages] by simp
  have "mset (p # cpages c @ kts_pages A @ kts_pages B @ tpages r) = mset (cpages ((p, ls, k0, rs) # c) @ tpages l @ tpages r)"
    using arg_cong [OF pages, of mset] by simp
  then have dist: "distinct (p # cpages c @ kts_pages A @ kts_pages B @ tpages r)"
    "set (p # cpages c @ kts_pages A @ kts_pages B @ tpages r) = dom (bt_pages s)"
    unfolding d(7) using d(6) by (metis mset_eq_imp_distinct_iff, metis mset_eq_setD)
  have qn: "q \<notin> insert p (set (cpages c @ kts_pages (A @ B) @ tpages r))" using q(3) dist(2) by (auto simp: domIff)
  have pp: "bt_pages s p = Some (InternalNode \<lparr>in_parent = cpar c, in_array = child_ptrs (A @ B)\<rparr>)" using d(3) unfolding AB(1) by simp
  have ch: "\<forall>kt \<in> set (A @ B). trep (bt_pages s) p (snd kt)" unfolding AB(1) using d(3,4) by auto
  have dAB: "distinct (p # kts_pages (A @ B))" "q \<notin> set (kts_pages (A @ B))" using dist(1) qn by auto
  obtain ps D where ps: "split_internal p s = Some (SUCCESS, q, s\<lparr>bt_pages := ps, bt_dirty := D\<rparr>)"
    "ps p = Some (InternalNode \<lparr>in_parent = cpar c, in_array = child_ptrs A\<rparr>)"
    "ps q = Some (InternalNode \<lparr>in_parent = cpar c, in_array = child_ptrs B\<rparr>)"
    "\<forall>kt \<in> set A. trep ps p (snd kt)" "\<forall>kt \<in> set B. trep ps q (snd kt)"
    "\<forall>x. x \<noteq> p \<and> x \<noteq> q \<and> x \<notin> set (kts_pages B) \<longrightarrow> ps x = bt_pages s x"
    "nxt ps = nxt (bt_pages s)" "dom ps = insert q (dom (bt_pages s))"
    using split_internal_correct [OF pp AB(2) ch dAB(1) d(1) q(1,3) dAB(2)] by blast
  have disj: "set (kts_pages B) \<inter> (set (cpages c) \<union> set (tpages r)) = {}" "p \<notin> set (cpages c) \<union> set (tpages r)" using dist(1) by auto
  have keep: "\<forall>x \<in> set (cpages c) \<union> set (tpages r). ps x = bt_pages s x" using ps(6) disj qn by (metis IntI empty_iff insertCI set_append Un_iff)
  have "free_count ps = free_count (bt_pages s) - 1"
    using q(4) free_count_dom [of ps "(bt_pages s)(q \<mapsto> undefined)"] ps(8) by simp
  moreover have "p \<noteq> BP_INVALID_PAGE_NUM" using d(8) [of p] by (auto simp: BP_INVALID_PAGE_NUM_def)
  ultimately show ?thesis by (rule that [OF ps(1) q(2,3) nl ps(2-5) keep ps(7,8) _ qn dist(1)])
qed

lemma insert_full_left:
  assumes pending: "split_pending cmp ok s ((p, ls, k0, rs1 @ rs2) # c) l k r m"
    and full: "int (length ls + Suc (length (rs1 @ rs2))) = snd (max_sizes s)"
    and half: "length ls + Suc (length rs1) = (length ls + Suc (length (rs1 @ rs2))) div 2" and free: "0 < free_count (bt_pages s)"
  shows "\<exists>q s' A B. A @ B = ls @ (k0, l) # (k, r) # rs1 @ rs2 \<and> split_pending cmp ok s' c (TNode p A) (fst (hd B)) (TNode q B) (Suc m) \<and>
    insert_entry_into_parent cmp (troot l) (troot r) k s = insert_entry_into_parent cmp p q (fst (hd B)) s' \<and>
    free_count (bt_pages s') = free_count (bt_pages s) - 1 \<and> bt_header s' = bt_header s"
proof -
  let ?old = "ls @ (k0, l) # rs1" and ?new = "ls @ (k0, l) # (k, r) # rs1"
  note d = split_pendingD [OF pending]
  obtain q ps D nl nr where q: "split_internal p s = Some (SUCCESS, q, s\<lparr>bt_pages := ps, bt_dirty := D\<rparr>)" "2 \<le> q" "bt_pages s q = None"
    "bt_pages s (troot l) = Some nl" "nd_parent nl = p" "bt_pages s (troot r) = Some nr" "nd_parent nr = p"
    "ps p = Some (InternalNode \<lparr>in_parent = cpar c, in_array = child_ptrs ?old\<rparr>)"
    "ps q = Some (InternalNode \<lparr>in_parent = cpar c, in_array = child_ptrs rs2\<rparr>)"
    "\<forall>kt \<in> set ?old. trep ps p (snd kt)" "\<forall>kt \<in> set rs2. trep ps q (snd kt)"
    "\<forall>x \<in> set (cpages c) \<union> set (tpages r). ps x = bt_pages s x" "nxt ps = nxt (bt_pages s)" "dom ps = insert q (dom (bt_pages s))"
    "free_count ps = free_count (bt_pages s) - 1" "q \<notin> insert p (set (cpages c @ kts_pages (?old @ rs2) @ tpages r))"
    "distinct (p # cpages c @ kts_pages ?old @ kts_pages rs2 @ tpages r)" "p \<noteq> BP_INVALID_PAGE_NUM"
    by (rule pending_split_internal [OF pending full, of ?old rs2]) (use half free in simp_all)
  have rs2: "rs2 \<noteq> []" using half full d(14) by auto
  have sz: "int (length ?new) \<le> snd (max_sizes s)" "int (length rs2) \<le> snd (max_sizes s)"
    "snd (max_sizes s) div 2 \<le> int (length ?new)" "snd (max_sizes s) div 2 \<le> int (length rs2)"
    using half d(14) unfolding full [symmetric] by (auto simp: zdiv_int [symmetric])
  have e: "?new @ rs2 = ls @ (k0, l) # (k, r) # rs1 @ rs2" by simp
  have tln: "tl ?new = tl (ls @ [(k0, l)]) @ (k, r) # rs1" by (cases ls) simp_all
  note keys = pending_keys [OF pending e, unfolded tln]
  have "internal_insert k (troot r) cmp \<lparr>in_parent = cpar c, in_array = child_ptrs ((ls @ [(k0, l)]) @ rs1)\<rparr> =
      \<lparr>in_parent = cpar c, in_array = child_ptrs ((ls @ [(k0, l)]) @ (k, r) # rs1)\<rparr>"
    using keys by (intro internal_insert_child) (auto simp: sorted_wrt_append)
  then have ins: "internal_insert k (troot r) cmp \<lparr>in_parent = cpar c, in_array = child_ptrs ?old\<rparr> = \<lparr>in_parent = cpar c, in_array = child_ptrs ?new\<rparr>"
    by simp
  have less: "cmp k (fst (hd rs2)) < 0" using keys rs2 by (auto simp: sorted_wrt_append)
  define ps' where "ps' = ps(p \<mapsto> InternalNode \<lparr>in_parent = cpar c, in_array = child_ptrs ?new\<rparr>)"
  have pq: "p \<noteq> q" "troot r \<noteq> p" "troot r \<noteq> q" using q(16,17) troot_in [of r] by auto
  have "set_parent (troot r) p (s\<lparr>bt_pages := ps', bt_dirty := D\<rparr>) = Some (s\<lparr>bt_pages := ps', bt_dirty := D\<rparr>)"
    using pq q(6,7,12) by (intro set_parent_same [of _ _ nr]) (simp_all add: ps'_def)
  moreover have "int (length (in_array \<lparr>in_parent = cpar c, in_array = child_ptrs (ls @ (k0, l) # rs1 @ rs2)\<rparr>)) = snd (max_sizes s)"
    using full by simp
  ultimately have run: "insert_entry_into_parent cmp (troot l) (troot r) k s =
      insert_entry_into_parent cmp p q (fst (hd rs2)) (s\<lparr>bt_pages := ps', bt_dirty := D\<rparr>)"
    using d(1,3) q(1,4,5,8,9,18) ins less rs2 pq
    by (subst insert_entry_into_parent.simps)
      (simp add: bt_get_def bt_internal_def nd_max_size_def max_sizes_def no_fault_def internal_key_at_def ps'_def bt_set_def hd_map hd_conv_nth [symmetric])
  have np: "p \<notin> set (kts_pages ?new)" "p \<notin> set (kts_pages rs2)" "p \<notin> set (cpages c)" using q(17) by auto
  have "trep ps p r = trep (bt_pages s) p r" using q(12) by (intro trep_cong) auto
  then have "\<forall>kt \<in> set ?new. trep ps' p (snd kt)" using q(10) d(5) np(1) by (simp add: ps'_def ball_Un)
  moreover have "\<forall>kt \<in> set rs2. trep ps' q (snd kt)" using q(11) np(2) by (simp add: ps'_def)
  moreover have "\<forall>x \<in> set (cpages c). ps' x = bt_pages s x" using q(12) np(3) by (auto simp: ps'_def)
  moreover have "nxt ps' = nxt (bt_pages s)" using q(8,13) by (simp add: ps'_def)
  moreover have "dom ps' = insert q (dom (bt_pages s))" using q(8,14) by (auto simp: ps'_def)
  ultimately have "split_pending cmp ok (s\<lparr>bt_pages := ps', bt_dirty := D\<rparr>) c (TNode p ?new) (fst (hd rs2)) (TNode q rs2) (Suc m)"
    using sz rs2 q(2,3,9) pq
    by (intro split_pending_up [OF pending e]) (simp_all add: ps'_def)
  moreover have "free_count ps' = free_count (bt_pages s) - 1"
    using q(8,15) free_count_dom [of ps' ps] by (auto simp: ps'_def)
  ultimately show ?thesis using run e by (intro exI [of _ q] exI [of _ "s\<lparr>bt_pages := ps', bt_dirty := D\<rparr>"] exI [of _ ?new] exI [of _ rs2]) simp
qed

lemma insert_full_right:
  assumes pending: "split_pending cmp ok s ((p, A @ ls, k0, rs) # c) l k r m"
    and full: "int (length (A @ ls) + Suc (length rs)) = snd (max_sizes s)"
    and half: "length A = (length (A @ ls) + Suc (length rs)) div 2" and free: "0 < free_count (bt_pages s)"
  shows "\<exists>q s' B. A @ B = A @ ls @ (k0, l) # (k, r) # rs \<and> split_pending cmp ok s' c (TNode p A) (fst (hd B)) (TNode q B) (Suc m) \<and>
    insert_entry_into_parent cmp (troot l) (troot r) k s = insert_entry_into_parent cmp p q (fst (hd B)) s' \<and>
    free_count (bt_pages s') = free_count (bt_pages s) - 1 \<and> bt_header s' = bt_header s"
proof -
  let ?old = "ls @ (k0, l) # rs" and ?new = "ls @ (k0, l) # (k, r) # rs"
  note d = split_pendingD [OF pending]
  obtain q ps D nl nr where q: "split_internal p s = Some (SUCCESS, q, s\<lparr>bt_pages := ps, bt_dirty := D\<rparr>)" "2 \<le> q" "bt_pages s q = None"
    "bt_pages s (troot l) = Some nl" "nd_parent nl = p" "bt_pages s (troot r) = Some nr" "nd_parent nr = p"
    "ps p = Some (InternalNode \<lparr>in_parent = cpar c, in_array = child_ptrs A\<rparr>)"
    "ps q = Some (InternalNode \<lparr>in_parent = cpar c, in_array = child_ptrs ?old\<rparr>)"
    "\<forall>kt \<in> set A. trep ps p (snd kt)" "\<forall>kt \<in> set ?old. trep ps q (snd kt)"
    "\<forall>x \<in> set (cpages c) \<union> set (tpages r). ps x = bt_pages s x" "nxt ps = nxt (bt_pages s)" "dom ps = insert q (dom (bt_pages s))"
    "free_count ps = free_count (bt_pages s) - 1" "q \<notin> insert p (set (cpages c @ kts_pages (A @ ?old) @ tpages r))"
    "distinct (p # cpages c @ kts_pages A @ kts_pages ?old @ tpages r)" "p \<noteq> BP_INVALID_PAGE_NUM"
    by (rule pending_split_internal [OF pending full, of A ?old]) (use half free in simp_all)
  have A: "A \<noteq> []" using half full d(14) by auto
  have e: "A @ ?new = (A @ ls) @ (k0, l) # (k, r) # rs" by simp
  have tln: "tl ?new = tl (ls @ [(k0, l)]) @ (k, r) # rs" by (cases ls) simp_all
  note keys = pending_keys [OF pending e A]
  have sub: "sorted_wrt (\<lambda>x y. cmp (fst x) (fst y) < 0) ?new" "\<forall>x \<in> set ?new. ok (fst x)" using keys by (simp_all add: sorted_wrt_append ball_Un)
  have "sorted_wrt (\<lambda>x y. cmp (fst x) (fst y) < 0) (tl ?new)" "\<forall>x \<in> set (tl ?new). ok (fst x)"
    using sub by (cases ls; simp add: sorted_wrt_append ball_Un)+
  then have "internal_insert k (troot r) cmp \<lparr>in_parent = cpar c, in_array = child_ptrs ((ls @ [(k0, l)]) @ rs)\<rparr> =
      \<lparr>in_parent = cpar c, in_array = child_ptrs ((ls @ [(k0, l)]) @ (k, r) # rs)\<rparr>"
    unfolding tln by (intro internal_insert_child) simp_all
  then have ins: "internal_insert k (troot r) cmp \<lparr>in_parent = cpar c, in_array = child_ptrs ?old\<rparr> = \<lparr>in_parent = cpar c, in_array = child_ptrs ?new\<rparr>"
    by simp
  have hd: "fst (hd ?old) = fst (hd ?new)" by (cases ls) simp_all
  have "cmp (fst (hd ?new)) k < 0" "ok (fst (hd ?new))" "ok k" using sub by (cases ls; simp add: sorted_wrt_append ball_Un)+
  then have gr: "cmp k (fst (hd ?old)) > 0" using cmp_anti [of "fst (hd ?new)" k] hd by simp
  define ps' where "ps' = ps(q \<mapsto> InternalNode \<lparr>in_parent = cpar c, in_array = child_ptrs ?new\<rparr>)"
  define ps'' where "ps'' = ps'(troot r \<mapsto> nd_set_parent q nr)"
  have disj: "set (tpages r) \<inter> insert p (set (cpages c @ kts_pages (A @ ?old))) = {}" "p \<noteq> q" "q \<notin> set (tpages r)" using q(16,17) by auto
  have pq: "troot r \<noteq> p" "troot r \<noteq> q" "ps' (troot r) = Some nr" using disj troot_in [of r] q(6,12) by (auto simp: ps'_def)
  have "set_parent (troot r) q (s\<lparr>bt_pages := ps', bt_dirty := D\<rparr>) = Some (s\<lparr>bt_pages := ps'', bt_dirty := D\<rparr>)"
    using pq by (simp add: set_parent_def ps''_def bt_set_def)
  moreover have "int (length (in_array \<lparr>in_parent = cpar c, in_array = child_ptrs ((A @ ls) @ (k0, l) # rs)\<rparr>)) = snd (max_sizes s)"
    using full by simp
  moreover have "ps'' q = Some (InternalNode \<lparr>in_parent = cpar c, in_array = child_ptrs ?new\<rparr>)" using pq by (simp add: ps''_def ps'_def)
  ultimately have run: "insert_entry_into_parent cmp (troot l) (troot r) k s =
      insert_entry_into_parent cmp p q (fst (hd ?new)) (s\<lparr>bt_pages := ps'', bt_dirty := D\<rparr>)"
    using d(1,3) q(1,4,5,8,9,18) ins gr disj(2)
    by (subst insert_entry_into_parent.simps)
      (cases ls; simp add: bt_get_def bt_internal_def nd_max_size_def max_sizes_def no_fault_def internal_key_at_def ps'_def bt_set_def)
  have other: "ps'' x = ps x" if "x \<notin> set (tpages r)" "x \<noteq> q" for x using that troot_in [of r] by (auto simp: ps''_def ps'_def)
  have kt: "trep ps'' y (snd kt) = trep ps y (snd kt)" if "kt \<in> set (A @ ?old)" for kt y
  proof (rule trep_cong)
    fix x assume "x \<in> set (tpages (snd kt))"
    then have "x \<in> set (kts_pages (A @ ?old))" using that by auto
    then have "x \<notin> set (tpages r)" "x \<noteq> q" using disj q(16) by auto
    then show "ps'' x = ps x" by (rule other)
  qed
  have "trep ps' p r = trep (bt_pages s) p r" using q(12) disj(3) by (intro trep_cong) (auto simp: ps'_def)
  moreover have "distinct (tpages r)" using d(6) by simp
  ultimately have r: "trep ps'' q r" using trep_reparent [of ps' p r q] d(5) pq(3) by (auto simp: ps''_def)
  have chA: "\<forall>kt \<in> set A. trep ps'' p (snd kt)" using kt q(10) by simp
  have chB: "trep ps'' q (snd kt)" if "kt \<in> set ?new" for kt
  proof (cases "kt = (k, r)")
    case False
    then have "kt \<in> set ?old" using that by auto
    then have "kt \<in> set (A @ ?old)" "trep ps q (snd kt)" using q(11) by auto
    then show ?thesis using kt by blast
  qed (use r in simp)
  have keep: "ps'' x = bt_pages s x" if "x \<in> set (cpages c)" for x
  proof -
    have "x \<notin> set (tpages r)" "x \<noteq> q" using disj q(16) that by auto
    then show ?thesis using other q(12) that by simp
  qed
  have nx: "nxt ps'' = nxt (bt_pages s)" using q(9,13) pq(3) by (simp add: ps''_def ps'_def)
  have dom: "dom ps'' = insert q (dom (bt_pages s))" using q(6,9,14) by (auto simp: ps''_def ps'_def)
  have new: "ps'' p = Some (InternalNode \<lparr>in_parent = cpar c, in_array = child_ptrs A\<rparr>)"
    "ps'' q = Some (InternalNode \<lparr>in_parent = cpar c, in_array = child_ptrs ?new\<rparr>)" using q(8) pq disj(2) by (simp_all add: ps''_def ps'_def)
  have sz: "int (length A) \<le> snd (max_sizes s)" "int (length ?new) \<le> snd (max_sizes s)" "?new \<noteq> []"
  proof -
    have "1 \<le> int (length A)" using A by (cases A) simp_all
    then show "int (length A) \<le> snd (max_sizes s)" "int (length ?new) \<le> snd (max_sizes s)" using full unfolding length_append list.size by linarith+
  qed simp
  have low: "snd (max_sizes s) div 2 \<le> int (length A)" "snd (max_sizes s) div 2 \<le> int (length ?new)"
    using half unfolding full [symmetric] by (auto simp: zdiv_int [symmetric])
  have "split_pending cmp ok (s\<lparr>bt_pages := ps'', bt_dirty := D\<rparr>) c (TNode p A) (fst (hd ?new)) (TNode q ?new) (Suc m)"
    by (rule split_pending_up [OF pending e A sz(3,1,2) low new chA _ _ nx dom q(3,2)]) (rule ballI, erule chB, rule ballI, erule keep)
  moreover have "free_count ps'' = free_count (bt_pages s) - 1"
    using q(14,15) free_count_dom [of ps'' ps] dom by simp
  ultimately show ?thesis using run e by (intro exI [of _ q] exI [of _ "s\<lparr>bt_pages := ps'', bt_dirty := D\<rparr>"] exI [of _ ?new]) simp
qed

lemma insert_into_parent_full:
  assumes pending: "split_pending cmp ok s ((p, ls, k0, rs) # c) l k r m"
    and full: "int (length ls + Suc (length rs)) = snd (max_sizes s)" and free: "0 < free_count (bt_pages s)"
  shows "\<exists>q s' A B. A @ B = ls @ (k0, l) # (k, r) # rs \<and> split_pending cmp ok s' c (TNode p A) (fst (hd B)) (TNode q B) (Suc m) \<and>
    insert_entry_into_parent cmp (troot l) (troot r) k s = insert_entry_into_parent cmp p q (fst (hd B)) s' \<and>
    free_count (bt_pages s') = free_count (bt_pages s) - 1 \<and> bt_header s' = bt_header s"
proof -
  define h where "h = (length ls + Suc (length rs)) div 2"
  show ?thesis
  proof (cases "length ls < h")
    case True
    let ?i = "h - Suc (length ls)"
    have i: "?i \<le> length rs" using True by (simp add: h_def)
    have rs: "rs = take ?i rs @ drop ?i rs" by simp
    have "length ls + Suc (length (take ?i rs)) = h" using True i by simp
    then show ?thesis
      using insert_full_left [of s p ls k0 "take ?i rs" "drop ?i rs" c l k r m] pending full free unfolding rs [symmetric] h_def by simp
  next
    case False
    have ls: "ls = take h ls @ drop h ls" by simp
    have "length (take h ls) = h" using False by simp
    then have "\<exists>q s' B. take h ls @ B = take h ls @ drop h ls @ (k0, l) # (k, r) # rs \<and>
        split_pending cmp ok s' c (TNode p (take h ls)) (fst (hd B)) (TNode q B) (Suc m) \<and>
        insert_entry_into_parent cmp (troot l) (troot r) k s = insert_entry_into_parent cmp p q (fst (hd B)) s' \<and>
        free_count (bt_pages s') = free_count (bt_pages s) - 1 \<and> bt_header s' = bt_header s"
      using pending full free unfolding h_def by (intro insert_full_right) simp_all
    then show ?thesis by (metis append_assoc ls)
  qed
qed

text \<open>At the root: a new root over the two halves.\<close>

lemma insert_new_root:
  assumes pending: "split_pending cmp ok s [] l k r m" and free: "0 < free_count (bt_pages s)"
  shows "\<exists>s' q k0. insert_entry_into_parent cmp (troot l) (troot r) k s = Some (SUCCESS, s') \<and> bt_ok cmp ok s' (TNode q [(k0, l), (k, r)]) \<and> hdr_kept s s'"
proof -
  note d = split_pendingD [OF pending]
  obtain q where q: "bt_allocate s = (SUCCESS, q)" "2 \<le> q" "bt_pages s q = None" using bt_allocate_ok [OF d(1) free] by blast
  obtain nl nr where n: "bt_pages s (troot l) = Some nl" "nd_parent nl = BP_INVALID_PAGE_NUM"
      "trep ((bt_pages s)(troot l \<mapsto> nd_set_parent q nl)) q l"
      "bt_pages s (troot r) = Some nr" "trep ((bt_pages s)(troot r \<mapsto> nd_set_parent q nr)) q r"
    using trep_root [OF d(4)] trep_reparent [OF d(4), of q] trep_reparent [OF d(5), of q] d(6) by auto
  let ?k0 = "replicate (nat (fh_key_length (bt_header s))) 0"
  let ?root = "InternalNode \<lparr>in_parent = BP_INVALID_PAGE_NUM, in_array = [(?k0, troot l), (k, troot r)]\<rparr>"
  define ps where "ps = (bt_pages s)(q \<mapsto> ?root, troot l \<mapsto> nd_set_parent q nl, troot r \<mapsto> nd_set_parent q nr)"
  define s' where "s' = bt_mark q (update_root_page_num_locked q (bt_mark (troot r) (bt_mark (troot l) (s\<lparr>bt_pages := ps\<rparr>))))"
  have qn: "q \<notin> set (tpages l)" "q \<notin> set (tpages r)" using q(3) d(7) by (auto simp: domIff)
  have disj: "set (tpages l) \<inter> set (tpages r) = {}" using d(6) by simp
  have roots: "troot l \<in> set (tpages l)" "troot r \<in> set (tpages r)" by simp_all
  have "troot l \<notin> set (tpages r)" "troot r \<notin> set (tpages l)" using disj roots by blast+
  moreover have "q \<noteq> troot l" "q \<noteq> troot r" using qn roots by metis+
  moreover have "troot l \<noteq> troot r" using calculation roots by metis
  ultimately have ne: "q \<noteq> troot l" "q \<noteq> troot r" "troot l \<noteq> troot r" "troot l \<notin> set (tpages r)" "troot r \<notin> set (tpages l)" by blast+
  have run: "insert_entry_into_parent cmp (troot l) (troot r) k s = Some (SUCCESS, s')"
    using n q(1) ne
    by (subst insert_entry_into_parent.simps)
      (simp add: set_parent_def internal_create_new_root_def internal_init_empty_def bt_set_def s'_def ps_def)
  have "trep ps q l = trep ((bt_pages s)(troot l \<mapsto> nd_set_parent q nl)) q l" "trep ps q r = trep ((bt_pages s)(troot r \<mapsto> nd_set_parent q nr)) q r"
    using qn ne by (intro trep_cong; auto simp: ps_def)+
  then have lr: "trep ps q l" "trep ps q r" using n by simp_all
  have pq: "ps q = Some ?root" using ne by (simp add: ps_def)
  have dom: "dom ps = insert q (set (tpages l @ tpages r))" using d(7) n(1,4) by (auto simp: ps_def)
  have "nxt ps = nxt (bt_pages s)"
    using q(3) n(1,4) ne by (simp add: ps_def)
  then have ch: "chain ps (tleaves l @ tleaves r) BP_INVALID_PAGE_NUM" using d(18) chain_cong [of _ ps "bt_pages s"] by simp
  have "bt_ok cmp ok s' (TNode q [(?k0, l), (k, r)])"
    unfolding bt_ok_def using d(1,6,8,10-14,16,17,20,21) q(2) lr pq dom ch qn
    by (auto simp: s'_def update_root_page_num_locked_def no_fault_def max_sizes_def tords_two intro!: exI [of _ "Suc m"])
  moreover have "hdr_kept s s'" by (simp add: hdr_kept_def s'_def update_root_page_num_locked_def)
  ultimately show ?thesis using run by blast
qed

lemma insert_up:
  assumes "split_pending cmp ok s c l k r m" "length c < free_count (bt_pages s)"
  shows "\<exists>s' t'. insert_entry_into_parent cmp (troot l) (troot r) k s = Some (SUCCESS, s') \<and> bt_ok cmp ok s' t' \<and>
    tflat t' = cfl c @ tflat l @ tflat r @ cfr c \<and> hdr_kept s s'"
  using assms
proof (induction c arbitrary: s l k r m)
  case Nil
  then show ?case using insert_new_root [of s l k r m] by fastforce
next
  case (Cons f c)
  obtain p ls k0 rs where f: "f = (p, ls, k0, rs)" by (cases f) auto
  note pending = Cons.prems(1) [unfolded f]
  have fl: "tflat (plug c (TNode p (ls @ (k0, l) # (k, r) # rs))) = cfl (f # c) @ tflat l @ tflat r @ cfr (f # c)"
    by (simp add: f tflat_plug)
  show ?case
  proof (cases "int (length ls + Suc (length rs)) < snd (max_sizes s)")
    case True
    then show ?thesis using insert_into_parent_room [OF pending True] fl by metis
  next
    case False
    moreover have "int (length ls + Suc (length rs)) \<le> snd (max_sizes s)" using split_pendingD(15) [OF pending] by simp
    ultimately have full: "int (length ls + Suc (length rs)) = snd (max_sizes s)" by simp
    obtain q s' A B where AB: "A @ B = ls @ (k0, l) # (k, r) # rs" "split_pending cmp ok s' c (TNode p A) (fst (hd B)) (TNode q B) (Suc m)"
      "insert_entry_into_parent cmp (troot l) (troot r) k s = insert_entry_into_parent cmp p q (fst (hd B)) s'"
      "free_count (bt_pages s') = free_count (bt_pages s) - 1" "bt_header s' = bt_header s"
      using insert_into_parent_full [OF pending full] Cons.prems(2) by force
    have "concat (map (\<lambda>kt. tflat (snd kt)) A) @ concat (map (\<lambda>kt. tflat (snd kt)) B) = concat (map (\<lambda>kt. tflat (snd kt)) (ls @ (k0, l) # (k, r) # rs))"
      using arg_cong [OF AB(1), of "\<lambda>xs. concat (map (\<lambda>kt. tflat (snd kt)) xs)"] by simp
    then have "cfl c @ tflat (TNode p A) @ tflat (TNode q B) @ cfr c = cfl (f # c) @ tflat l @ tflat r @ cfr (f # c)"
      by (simp add: f append_assoc [symmetric] del: append_assoc)
    then show ?thesis using Cons.IH [OF AB(2)] Cons.prems(2) AB(3,4,5) by (simp add: hdr_kept_def)
  qed
qed

end

end
