(* ===== verification/BplusIndex.thy ===== *)
theory BplusIndex
  imports BplusInsert
begin

section \<open>The B+ tree as an ordered index\<close>

text \<open>
  The abstract view of an index is the ascending list of its entries. Inserting an entry puts it at its
  place, an entry that is there already is refused, and a scan returns the entries between its bounds in
  order. The theorems show that the operations of the handler implement this.
\<close>

subsection \<open>Insertion into a leaf\<close>

lemma insert_split:
  assumes "i \<le> length xs" "h \<le> length xs"
  shows "(if i < h then take i (take h xs) @ x # drop i (take h xs) else take h xs) @
    (if i < h then drop h xs else take (i - h) (drop h xs) @ x # drop (i - h) (drop h xs)) = take i xs @ x # drop i xs"
proof (cases "i < h")
  case True
  have "drop i xs = drop i (take h xs @ drop h xs)" by simp
  also have "\<dots> = drop i (take h xs) @ drop h xs" using True assms(2) by (subst drop_append) simp
  finally show ?thesis using True by (simp add: min_def)
next
  case False
  have "take i xs = take h xs @ take (i - h) (drop h xs)" using False by (metis le_add_diff_inverse not_less take_add)
  then show ?thesis using False by simp
qed

context index_order
begin

lemma leaf_ok_append:
  assumes "leaf_ok cmp ok lo hi (A @ B)" "A \<noteq> []" "B \<noteq> []" "okb lo" "okb hi"
  shows "leaf_ok cmp ok lo (Some (fst (hd B))) A" "leaf_ok cmp ok (Some (fst (hd B))) hi B" "sep_ok cmp ok lo hi (fst (hd B))"
proof -
  obtain b B' where B: "B = b # B'" using assms(3) by (cases B) auto
  obtain a where a: "a \<in> set A" using assms(2) by (cases A) auto
  have o: "\<forall>x \<in> set A. ok (fst x) \<and> above cmp lo (fst x) \<and> below cmp hi (fst x) \<and> cmp (fst x) (fst b) < 0"
      "ok (fst b)" "below cmp hi (fst b)" "above cmp lo (fst b)" "sorted_wrt (\<lambda>x y. cmp (fst x) (fst y) < 0) A"
      "\<forall>x \<in> set B'. ok (fst x) \<and> below cmp hi (fst x) \<and> cmp (fst b) (fst x) < 0" "sorted_wrt (\<lambda>x y. cmp (fst x) (fst y) < 0) B'"
    using assms(1) unfolding leaf_ok_def B by (auto simp: sorted_wrt_append)
  show "leaf_ok cmp ok lo (Some (fst (hd B))) A" using o assms(2) by (auto simp: leaf_ok_def B)
  show "leaf_ok cmp ok (Some (fst (hd B))) hi B" using o cmp_refl [of "fst b"] by (auto simp: leaf_ok_def B intro: less_imp_le)
  have "sabove cmp lo (fst b)"
  proof (cases lo)
    case (Some x)
    then show ?thesis using o(1) a assms(4) cmp_le_less [of x "fst a" "fst b"] o(2) by auto
  qed simp
  then show "sep_ok cmp ok lo hi (fst (hd B))" using o(2,3) by (simp add: sep_ok_def B)
qed

lemma leaf_ok_insert:
  assumes "leaf_ok cmp ok lo hi xs" "ok key" "above cmp lo key" "below cmp hi key" "leaf_lookup cmp key \<lparr>lf_parent = par, lf_next_brother = nx, lf_array = xs\<rparr> = (i, False)"
  shows "i \<le> length xs" "leaf_ok cmp ok lo hi (take i xs @ (key, rid) # drop i xs)"
    "\<forall>x \<in> set (take i xs). cmp (fst x) key < 0" "\<forall>x \<in> set (drop i xs). cmp key (fst x) < 0"
proof -
  have x: "xs \<noteq> []" "sorted_wrt (\<lambda>x y. cmp (fst x) (fst y) < 0) xs" "\<forall>x \<in> set xs. ok (fst x) \<and> above cmp lo (fst x) \<and> below cmp hi (fst x)"
    using assms(1) by (simp_all add: leaf_ok_def)
  have "lower_bound (\<lambda>x. cmp (fst x)) xs key = (i, False)" using assms(5) by (simp add: leaf_lookup_def)
  note b = lower_bound_by [of fst, OF x(2) _ assms(2) this]
  have okx: "\<forall>x \<in> set xs. ok (fst x)" using x(3) by blast
  show i: "i \<le> length xs" using b(1) okx by simp
  show lt: "\<forall>x \<in> set (take i xs). cmp (fst x) key < 0"
  proof
    fix x assume "x \<in> set (take i xs)"
    then obtain j where "j < i" "x = xs ! j" by (auto simp: in_set_conv_nth)
    then show "cmp (fst x) key < 0" using b(2) [OF okx] by simp
  qed
  have ge: "cmp (fst (xs ! j)) key > 0" if "i \<le> j" "j < length xs" for j
  proof -
    have "cmp (fst (xs ! i)) key > 0" using b(3) [OF okx, of i] b(4) [OF okx] that by auto
    then have ki: "cmp key (fst (xs ! i)) < 0" using cmp_anti [of key "fst (xs ! i)"] assms(2) okx that by simp
    have "cmp key (fst (xs ! j)) < 0"
    proof (cases "i = j")
      case False
      then have "cmp (fst (xs ! i)) (fst (xs ! j)) < 0" using sorted_wrt_nth_less [OF x(2), of i j] that by simp
      then show ?thesis using cmp_less_trans [OF assms(2) _ _ ki, of "fst (xs ! j)"] okx that by simp
    qed (use ki in simp)
    then show ?thesis using cmp_anti [of key "fst (xs ! j)"] assms(2) okx that by simp
  qed
  show gt: "\<forall>x \<in> set (drop i xs). cmp key (fst x) < 0"
  proof
    fix x assume "x \<in> set (drop i xs)"
    then obtain j where j: "i \<le> j" "j < length xs" "x = xs ! j" by (auto simp: in_set_conv_nth intro!: that [of "i + _"])
    then show "cmp key (fst x) < 0" using ge cmp_anti [of key "fst x"] assms(2) okx by simp
  qed
  have "sorted_wrt (\<lambda>x y. cmp (fst x) (fst y) < 0) (take i xs @ drop i xs)" using x(2) by simp
  then have "sorted_wrt (\<lambda>x y. cmp (fst x) (fst y) < 0) (take i xs @ (key, rid) # drop i xs)"
    using lt gt unfolding sorted_wrt_append by simp
  moreover have "\<forall>x \<in> set (take i xs @ (key, rid) # drop i xs). ok (fst x) \<and> above cmp lo (fst x) \<and> below cmp hi (fst x)"
    using x(3) assms(2-4) by (auto dest: in_set_takeD in_set_dropD)
  ultimately show "leaf_ok cmp ok lo hi (take i xs @ (key, rid) # drop i xs)" by (simp add: leaf_ok_def)
qed

text \<open>The content of one leaf changes: the rest of the tree does not notice.\<close>

lemma leaf_update_ok:
  assumes "bt_ok cmp ok s (plug c (TLeaf p xs))" "bt_pages s p = Some (LeafNode \<lparr>lf_parent = cpar c, lf_next_brother = nx, lf_array = xs\<rparr>)"
    "leaf_ok cmp ok (clo c) (chi c) ys" "int (length ys) \<le> fst (max_sizes s)" "c \<noteq> [] \<Longrightarrow> fst (max_sizes s) div 2 \<le> int (length ys)"
  shows "bt_ok cmp ok (bt_set p (LeafNode \<lparr>lf_parent = cpar c, lf_next_brother = nx, lf_array = ys\<rparr>) s) (plug c (TLeaf p ys))"
proof -
  let ?s = "bt_set p (LeafNode \<lparr>lf_parent = cpar c, lf_next_brother = nx, lf_array = ys\<rparr>) s"
  note b = assms(1) [unfolded bt_ok_plug]
  have "p \<notin> set (cpages c)" using b by simp
  then have "crep (bt_pages ?s) c p" using b by simp
  moreover have "nxt (bt_pages ?s) = nxt (bt_pages s)" using assms(2) by (auto simp: nxt_def fun_eq_iff)
  then have "chain (bt_pages ?s) (cll c @ tleaves (TLeaf p ys) @ clr c) BP_INVALID_PAGE_NUM"
    using b chain_cong [of _ "bt_pages ?s" "bt_pages s"] by simp
  moreover have "troot (plug c (TLeaf p ys)) = troot (plug c (TLeaf p xs))" by (simp add: troot_plug)
  moreover have "dom (bt_pages ?s) = dom (bt_pages s)" using assms(2) by auto
  ultimately show ?thesis unfolding bt_ok_plug using b assms(3-5) by (simp add: hsz_def)
qed

lemma leaf_split_pending:
  assumes "bt_ok cmp ok s (plug c (TLeaf p xs))" "bt_pages s p = Some (LeafNode \<lparr>lf_parent = cpar c, lf_next_brother = nx, lf_array = xs\<rparr>)"
    "leaf_ok cmp ok (clo c) (chi c) (A @ B)" "A \<noteq> []" "B \<noteq> []" "int (length A) \<le> fst (max_sizes s)" "int (length B) \<le> fst (max_sizes s)"
    "fst (max_sizes s) div 2 \<le> int (length A)" "fst (max_sizes s) div 2 \<le> int (length B)" "bt_pages s q = None" "2 \<le> q"
  shows "split_pending cmp ok (bt_set q (LeafNode \<lparr>lf_parent = cpar c, lf_next_brother = nx, lf_array = B\<rparr>)
    (bt_set p (LeafNode \<lparr>lf_parent = cpar c, lf_next_brother = q, lf_array = A\<rparr>) s)) c (TLeaf p A) (fst (hd B)) (TLeaf q B) 0"
proof -
  let ?s = "bt_set q (LeafNode \<lparr>lf_parent = cpar c, lf_next_brother = nx, lf_array = B\<rparr>)
    (bt_set p (LeafNode \<lparr>lf_parent = cpar c, lf_next_brother = q, lf_array = A\<rparr>) s)"
  note b = assms(1) [unfolded bt_ok_plug]
  have okc: "okb (clo c)" "okb (chi c)" using cord_okb [of c] b by simp_all
  have dist: "distinct (cpages c @ [p])" "dom (bt_pages s) = set (cpages c @ [p])" using b by simp_all
  have qn: "q \<notin> set (cpages c)" "p \<noteq> q" "p \<notin> set (cpages c)" using assms(2,10) dist by (auto simp: domIff)
  have nx: "nxt (bt_pages ?s) x = nxt (bt_pages s) x" if "x \<noteq> p" "x \<noteq> q" for x using that by (simp add: nxt_def)
  have "chain (bt_pages s) (cll c @ p # clr c) BP_INVALID_PAGE_NUM" using b by simp
  then have ch: "chain (bt_pages s) (cll c) p" "nx = (case clr c of [] \<Rightarrow> BP_INVALID_PAGE_NUM | r # _ \<Rightarrow> r)" "chain (bt_pages s) (clr c) BP_INVALID_PAGE_NUM"
    using assms(2) by (simp_all add: chain_append nxt_def)
  have out: "p \<notin> set (cll c)" "p \<notin> set (clr c)" "q \<notin> set (cll c)" "q \<notin> set (clr c)" using qn cleaves_pages [of c] by auto
  then have "chain (bt_pages ?s) (cll c) p" "chain (bt_pages ?s) (clr c) BP_INVALID_PAGE_NUM"
    using ch chain_cong [of "cll c" "bt_pages ?s" "bt_pages s"] chain_cong [of "clr c" "bt_pages ?s" "bt_pages s"] nx by metis+
  then have "chain (bt_pages ?s) (cll c @ tleaves (TLeaf p A) @ tleaves (TLeaf q B) @ clr c) BP_INVALID_PAGE_NUM"
    using ch(2) qn(2) by (simp add: chain_append nxt_def)
  moreover have "dom (bt_pages ?s) = set (cpages c @ tpages (TLeaf p A) @ tpages (TLeaf q B))" using dist(2) by auto
  moreover have "cbal 0 c" using b by auto
  moreover have "troot (plug c (TLeaf p A)) = troot (plug c (TLeaf p xs))" by (simp add: troot_plug)
  moreover have "crep (bt_pages ?s) c p" using b qn by simp
  ultimately show ?thesis
    unfolding split_pending_def using b assms(6-9,11) leaf_ok_append [OF assms(3-5) okc] qn by simp
qed

text \<open>The entries of an ordered tree are ascending and within the bounds.\<close>

lemma leaf_ok_join:
  assumes "leaf_ok cmp ok lo (Some k) A" "sep_ok cmp ok lo hi k" "leaf_ok cmp ok (Some k) hi B" "okb lo" "okb hi"
  shows "leaf_ok cmp ok lo hi (A @ B)"
proof -
  note k = sep_okD [OF assms(2)]
  have A: "ok (fst x) \<and> above cmp lo (fst x) \<and> cmp (fst x) k < 0" if "x \<in> set A" for x using assms(1) that by (simp add: leaf_ok_def)
  have B: "ok (fst x) \<and> cmp k (fst x) \<le> 0 \<and> below cmp hi (fst x)" if "x \<in> set B" for x using assms(3) that by (simp add: leaf_ok_def)
  have "above cmp lo (fst x)" if "x \<in> set B" for x
    using B [OF that] k assms(4) by (cases lo) (auto intro: less_imp_le cmp_less_le [of _ k])
  moreover have "below cmp hi (fst x)" if "x \<in> set A" for x
    using A [OF that] k assms(5) below_trans [of hi "fst x" k] by (simp add: less_imp_le)
  moreover have "cmp (fst x) (fst y) < 0" if "x \<in> set A" "y \<in> set B" for x y
    using A [OF that(1)] B [OF that(2)] k cmp_less_le [of "fst x" k "fst y"] by simp
  ultimately show ?thesis using assms(1,3) by (auto simp: leaf_ok_def sorted_wrt_append)
qed

lemma tords_flat:
  assumes "\<And>kt lo hi. kt \<in> set kts \<Longrightarrow> tord cmp ok lo hi (snd kt) \<Longrightarrow> okb lo \<Longrightarrow> okb hi \<Longrightarrow> leaf_ok cmp ok lo hi (tflat (snd kt))"
    "tords cmp ok lo hi kts" "kts \<noteq> []" "okb lo" "okb hi"
  shows "leaf_ok cmp ok lo hi (concat (map (\<lambda>kt. tflat (snd kt)) kts))"
  using assms
proof (induction kts arbitrary: lo)
  case (Cons a kts)
  show ?case
  proof (cases kts)
    case Nil
    then show ?thesis using Cons.prems by simp
  next
    case (Cons b r)
    then have t: "tord cmp ok lo (Some (fst b)) (snd a)" "sep_ok cmp ok lo hi (fst b)" "tords cmp ok (Some (fst b)) hi kts"
      using Cons.prems(2) by (simp_all add: tords_two)
    have "leaf_ok cmp ok (Some (fst b)) hi (concat (map (\<lambda>kt. tflat (snd kt)) kts))"
      using Cons.IH [of "Some (fst b)"] Cons.prems(1,5) t sep_okD [OF t(2)] Cons by simp
    moreover have "leaf_ok cmp ok lo (Some (fst b)) (tflat (snd a))" using Cons.prems(1) [OF _ t(1)] Cons.prems(4) sep_okD [OF t(2)] by simp
    ultimately show ?thesis using leaf_ok_join [OF _ t(2)] Cons.prems(4,5) by simp
  qed
qed simp

lemma tord_flat: "tord cmp ok lo hi t \<Longrightarrow> okb lo \<Longrightarrow> okb hi \<Longrightarrow> leaf_ok cmp ok lo hi (tflat t)"
proof (induction t arbitrary: lo hi rule: tree_induct)
  case (TNode p kts)
  then show ?case using tords_flat [of kts lo hi] by simp
qed simp

lemma context_left: "cord cmp ok c \<Longrightarrow> x \<in> set (cfl c) \<Longrightarrow> ok (fst x) \<and> (\<exists>l. clo c = Some l \<and> cmp (fst x) l < 0)"
proof (induction c rule: cpages.induct)
  case (2 p ls k rs c)
  have c: "cord cmp ok c" and okc: "okb (clo c)" "okb (chi c)" using 2(2) cord_okb [of c] by simp_all
  show ?case
  proof (cases "ls = []")
    case False
    then have ls: "leaf_ok cmp ok (clo c) (Some k) (concat (map (\<lambda>kt. tflat (snd kt)) ls))" "ok k" "sabove cmp (clo c) k"
      using 2(2) okc tords_flat [OF tord_flat, of ls "clo c" "Some k"] sep_okD [of "clo c" "chi c" k] by simp_all
    have "ok (fst x) \<and> cmp (fst x) k < 0" if x: "x \<in> set (cfl c)"
    proof -
      obtain l where l: "clo c = Some l" "cmp (fst x) l < 0" "ok (fst x)" using 2(1) [OF c x] by blast
      then show ?thesis using ls(2,3) okc cmp_less_trans [of "fst x" l k] by simp
    qed
    then show ?thesis using 2(3) False ls(1) by (auto simp: leaf_ok_def)
  qed (use 2 c in simp)
qed simp

lemma context_right: "cord cmp ok c \<Longrightarrow> x \<in> set (cfr c) \<Longrightarrow> ok (fst x) \<and> (\<exists>h. chi c = Some h \<and> cmp h (fst x) \<le> 0)"
proof (induction c rule: cpages.induct)
  case (2 p ls k rs c)
  have c: "cord cmp ok c" and okc: "okb (clo c)" "okb (chi c)" using 2(2) cord_okb [of c] by simp_all
  show ?case
  proof (cases "rs = []")
    case False
    let ?h = "fst (hd rs)"
    have sep: "sep_ok cmp ok (clo ((p, ls, k, rs) # c)) (chi c) ?h" "tords cmp ok (Some ?h) (chi c) rs" using 2(2) False by simp_all
    note h = sep_okD [OF sep(1)]
    have rs: "leaf_ok cmp ok (Some ?h) (chi c) (concat (map (\<lambda>kt. tflat (snd kt)) rs))"
      using tords_flat [OF tord_flat sep(2)] False okc h by simp
    have "ok (fst x) \<and> cmp ?h (fst x) \<le> 0" if x: "x \<in> set (cfr c)"
    proof -
      obtain b where b: "chi c = Some b" "cmp b (fst x) \<le> 0" "ok (fst x)" using 2(1) [OF c x] by blast
      then show ?thesis using h okc cmp_less_le [of ?h b "fst x"] by simp
    qed
    then show ?thesis using 2(3) False rs by (auto simp: leaf_ok_def)
  qed (use 2 c in simp)
qed simp

text \<open>Around a position whose bounds contain a key, the entries to the left are smaller and those to the right larger.\<close>

lemma context_key:
  assumes "cord cmp ok c" "ok key" "above cmp (clo c) key" "below cmp (chi c) key"
  shows "x \<in> set (cfl c) \<Longrightarrow> cmp (fst x) key < 0" "x \<in> set (cfr c) \<Longrightarrow> cmp key (fst x) < 0"
proof -
  note okc = cord_okb [OF assms(1)]
  show "cmp (fst x) key < 0" if x: "x \<in> set (cfl c)"
  proof -
    obtain l where "clo c = Some l" "cmp (fst x) l < 0" "ok (fst x)" using context_left [OF assms(1) x] by blast
    then show ?thesis using assms(2,3) okc cmp_less_le [of "fst x" l key] by simp
  qed
  show "cmp key (fst x) < 0" if x: "x \<in> set (cfr c)"
  proof -
    obtain h where "chi c = Some h" "cmp h (fst x) \<le> 0" "ok (fst x)" using context_right [OF assms(1) x] by blast
    then show ?thesis using assms(2,4) okc cmp_less_le [of key h "fst x"] by simp
  qed
qed

end

subsection \<open>The abstract index\<close>

type_synonym entries = "(key \<times> RID) list"

definition index_insert :: "(key \<Rightarrow> key \<Rightarrow> int) \<Rightarrow> key \<Rightarrow> RID \<Rightarrow> entries \<Rightarrow> entries" where
  "index_insert cmp key rid xs =
     takeWhile (\<lambda>x. cmp (fst x) key < 0) xs @ (key, rid) # dropWhile (\<lambda>x. cmp (fst x) key < 0) xs"

definition index_has :: "(key \<Rightarrow> key \<Rightarrow> int) \<Rightarrow> key \<Rightarrow> entries \<Rightarrow> bool" where
  "index_has cmp key xs \<longleftrightarrow> (\<exists>x \<in> set xs. cmp (fst x) key = 0)"

definition bt_empty :: "BplusTreeHandler \<Rightarrow> bool" where
  "bt_empty s \<longleftrightarrow> no_fault s \<and> fh_root_page (bt_header s) = BP_INVALID_PAGE_NUM \<and> bt_pages s = Map.empty \<and>
     2 \<le> fst (max_sizes s) \<and> 2 \<le> snd (max_sizes s)"

text \<open>The handler represents an index with these entries in a tree with \<open>n\<close> levels of inner nodes.\<close>

definition bt_index :: "(key \<Rightarrow> key \<Rightarrow> int) \<Rightarrow> (key \<Rightarrow> bool) \<Rightarrow> nat \<Rightarrow> BplusTreeHandler \<Rightarrow> entries \<Rightarrow> bool" where
  "bt_index cmp ok n s xs \<longleftrightarrow> (xs = [] \<and> n = 0 \<and> bt_empty s) \<or> (\<exists>t. bt_ok cmp ok s t \<and> tbal n t \<and> xs = tflat t)"

lemma index_insert_at:
  assumes "\<forall>x \<in> set A. cmp (fst x) key < 0" "\<forall>x \<in> set B. \<not> cmp (fst x) key < 0"
  shows "index_insert cmp key rid (A @ B) = A @ (key, rid) # B"
proof -
  have "takeWhile (\<lambda>x. cmp (fst x) key < 0) B = []" "dropWhile (\<lambda>x. cmp (fst x) key < 0) B = B"
    using assms(2) by (cases B; simp)+
  then show ?thesis using assms(1) by (simp add: index_insert_def)
qed

lemma bt_release_no_fault: "no_fault s \<Longrightarrow> bt_release s = s"
  by (simp add: bt_release_def no_fault_def)

context index_order
begin

lemma leaf_lookup_found:
  assumes "leaf_ok cmp ok lo hi xs" "ok key" "leaf_lookup cmp key \<lparr>lf_parent = par, lf_next_brother = nx, lf_array = xs\<rparr> = (i, found)"
  shows "found \<longleftrightarrow> index_has cmp key xs"
proof -
  have x: "sorted_wrt (\<lambda>x y. cmp (fst x) (fst y) < 0) xs" "\<forall>x \<in> set xs. ok (fst x)"
    using assms(1) by (auto simp: leaf_ok_def)
  have "lower_bound (\<lambda>x. cmp (fst x)) xs key = (i, found)" using assms(3) by (simp add: leaf_lookup_def)
  note b = lower_bound_by [of fst, OF x assms(2) this]
  have f: "found" if "cmp (fst (xs ! j)) key = 0" "j < length xs" for j
  proof -
    have "i \<le> j" using b(2) [of j] that by (cases "j < i") auto
    then have "cmp (fst (xs ! i)) (fst (xs ! j)) \<le> 0"
      using sorted_wrt_nth_less [OF x(1), of i j] that(2) cmp_refl [of "fst (xs ! j)"] x(2) by (cases "i = j") auto
    then have "cmp (fst (xs ! i)) key \<le> 0" using cmp_trans [of "fst (xs ! i)" "fst (xs ! j)" key] that x(2) assms(2) \<open>i \<le> j\<close> by simp
    then show ?thesis using b(3) [of i] b(4) \<open>i \<le> j\<close> that(2) by simp
  qed
  show ?thesis unfolding index_has_def
  proof
    assume found
    then show "\<exists>x \<in> set xs. cmp (fst x) key = 0" using b(4) by (intro bexI [of _ "xs ! i"]) simp_all
  next
    assume "\<exists>x \<in> set xs. cmp (fst x) key = 0"
    then obtain j where "j < length xs" "cmp (fst (xs ! j)) key = 0" by (metis in_set_conv_nth)
    then show found using f by blast
  qed
qed

lemma insert_into_leaf:
  assumes bt: "bt_ok cmp ok s (plug c (TLeaf p xs))" and key: "ok key" "above cmp (clo c) key" "below cmp (chi c) key"
    and new: "\<not> index_has cmp key xs" and free: "length c + 1 < free_count (bt_pages s)"
  shows "\<exists>s' t'. insert_entry_into_leaf_node cmp p key rid s = Some (SUCCESS, s') \<and> bt_ok cmp ok s' t' \<and>
    tflat t' = index_insert cmp key rid (tflat (plug c (TLeaf p xs))) \<and> hdr_kept s s'"
proof -
  note b = bt [unfolded bt_ok_plug]
  obtain nx where pg: "bt_pages s p = Some (LeafNode \<lparr>lf_parent = cpar c, lf_next_brother = nx, lf_array = xs\<rparr>)" using b by auto
  have lo: "leaf_ok cmp ok (clo c) (chi c) xs" using b by simp
  obtain i found where lk: "leaf_lookup cmp key \<lparr>lf_parent = cpar c, lf_next_brother = nx, lf_array = xs\<rparr> = (i, found)" by fastforce
  with leaf_lookup_found [OF lo key(1) lk] new have lk: "leaf_lookup cmp key \<lparr>lf_parent = cpar c, lf_next_brother = nx, lf_array = xs\<rparr> = (i, False)"
    by simp
  note ins = leaf_ok_insert [OF lo key lk]
  have cord: "cord cmp ok c" using b by simp
  have okx: "\<forall>x \<in> set xs. ok (fst x)" using lo by (simp add: leaf_ok_def)
  have gt: "\<not> cmp (fst x) key < 0" if x: "x \<in> set (drop i xs @ cfr c)" for x
  proof -
    have "ok (fst x)" using x okx context_right [OF cord, of x] in_set_dropD [of x i xs] by auto
    moreover have "cmp key (fst x) < 0" using x ins(4) context_key(2) [OF cord key, of x] by auto
    ultimately show ?thesis using cmp_anti [of key "fst x"] key(1) by simp
  qed
  have lt: "\<forall>x \<in> set (cfl c @ take i xs). cmp (fst x) key < 0" using ins(3) context_key(1) [OF cord key] by auto
  have "(cfl c @ take i xs) @ drop i xs @ cfr c = tflat (plug c (TLeaf p xs))" by (simp add: tflat_plug)
  with index_insert_at [of "cfl c @ take i xs" cmp key "drop i xs @ cfr c" rid] lt gt
  have flat: "index_insert cmp key rid (tflat (plug c (TLeaf p xs))) = cfl c @ (take i xs @ (key, rid) # drop i xs) @ cfr c" by simp
  show ?thesis
  proof (cases "int (length xs) < fst (max_sizes s)")
    case True
    let ?ys = "take i xs @ (key, rid) # drop i xs"
    let ?s = "bt_set p (LeafNode \<lparr>lf_parent = cpar c, lf_next_brother = nx, lf_array = ?ys\<rparr>) s"
    have "insert_entry_into_leaf_node cmp p key rid s = Some (SUCCESS, bt_mark p ?s)"
      using pg lk True by (simp add: insert_entry_into_leaf_node_def bt_leaf_def leaf_insert_def max_sizes_def)
    moreover have "bt_ok cmp ok ?s (plug c (TLeaf p ?ys))"
      using True ins(1) b by (intro leaf_update_ok [OF bt pg ins(2)]) (auto simp: hsz_def)
    moreover have "hdr_kept s (bt_mark p ?s)" by (simp add: hdr_kept_def)
    ultimately show ?thesis using flat by (metis tflat.simps(1) tflat_plug bt_ok_mark)
  next
    case False
    then have full: "int (length xs) = fst (max_sizes s)" "2 \<le> length xs" using b by (auto simp: hsz_def split: if_splits)
    define h where "h = length xs div 2"
    define A where "A = (if i < h then take i (take h xs) @ (key, rid) # drop i (take h xs) else take h xs)"
    define B where "B = (if i < h then drop h xs else take (i - h) (drop h xs) @ (key, rid) # drop (i - h) (drop h xs))"
    have h: "0 < h" "h < length xs" using full(2) by (auto simp: h_def)
    have AB: "A @ B = take i xs @ (key, rid) # drop i xs" unfolding A_def B_def using insert_split [OF ins(1), of h "(key, rid)"] h by simp
    have ne: "A \<noteq> []" "B \<noteq> []" using h by (auto simp: A_def B_def)
    have len: "int (length A) \<le> fst (max_sizes s)" "int (length B) \<le> fst (max_sizes s)"
      using h full(1) ins(1) by (auto simp: A_def B_def)
    have low: "fst (max_sizes s) div 2 \<le> int (length A)" "fst (max_sizes s) div 2 \<le> int (length B)"
      using ins(1) unfolding full(1) [symmetric] by (auto simp: A_def B_def h_def zdiv_int [symmetric])
    obtain q where q: "bt_allocate s = (SUCCESS, q)" "2 \<le> q" "bt_pages s q = None"
      "\<And>x. free_count ((bt_pages s)(q \<mapsto> x)) = free_count (bt_pages s) - 1"
      using bt_allocate_ok [of s] b free by auto
    have pq: "p \<noteq> q" using pg q(3) by auto
    let ?s = "bt_set q (LeafNode \<lparr>lf_parent = cpar c, lf_next_brother = nx, lf_array = B\<rparr>)
      (bt_set p (LeafNode \<lparr>lf_parent = cpar c, lf_next_brother = q, lf_array = A\<rparr>) s)"
    have sp: "split_leaf p s = Some (SUCCESS, q, bt_mark q (bt_mark p (bt_set p (LeafNode \<lparr>lf_parent = cpar c, lf_next_brother = nx, lf_array = take h xs\<rparr>)
        (bt_set q (LeafNode \<lparr>lf_parent = cpar c, lf_next_brother = BP_INVALID_PAGE_NUM, lf_array = drop h xs\<rparr>) s))))"
      using pg q(1) by (simp add: split_leaf_def bt_leaf_def leaf_move_half_to_def leaf_init_empty_def h_def Let_def)
    have upd: "bt_set q X (bt_set p Y (bt_mark q (bt_mark p (bt_set p Y' (bt_set q X' s))))) = bt_mark q (bt_mark p (bt_set q X (bt_set p Y s)))" for X Y X' Y'
      using pq by (simp add: bt_set_def bt_mark_def fun_upd_twist)
    have min: "min (length xs) h = h" using h by simp
    have "insert_entry_into_leaf_node cmp p key rid s = insert_entry_into_parent cmp p q (fst (hd B)) (bt_mark q (bt_mark p ?s))"
      using pg lk False sp pq h
      by (cases "i < h"; simp add: insert_entry_into_leaf_node_def bt_leaf_def leaf_insert_def max_sizes_def leaf_key_at_def Let_def min upd
          A_def B_def hd_conv_nth)
    moreover have "split_pending cmp ok (bt_mark q (bt_mark p ?s)) c (TLeaf p A) (fst (hd B)) (TLeaf q B) 0"
      unfolding split_pending_mark by (rule leaf_split_pending [OF bt pg _ ne len low q(3,2)]) (simp add: AB ins(2))
    moreover have "free_count (bt_pages ?s) = free_count (bt_pages s) - 1"
      using q(4) free_count_dom [of "bt_pages ?s" "(bt_pages s)(q \<mapsto> undefined)"] pg by auto
    moreover have "cfl c @ tflat (TLeaf p A) @ tflat (TLeaf q B) @ cfr c = index_insert cmp key rid (tflat (plug c (TLeaf p xs)))"
      unfolding flat AB [symmetric] by simp
    ultimately show ?thesis using insert_up [of "bt_mark q (bt_mark p ?s)" c "TLeaf p A" "fst (hd B)" "TLeaf q B" 0] free by (simp add: hdr_kept_def)
  qed
qed

text \<open>A key that is there already is refused and nothing changes.\<close>

lemma insert_duplicate:
  assumes bt: "bt_ok cmp ok s (plug c (TLeaf p xs))" and key: "ok key" and dup: "index_has cmp key xs"
  shows "insert_entry_into_leaf_node cmp p key rid s = Some (RECORD_DUPLICATE_KEY, s)"
proof -
  note b = bt [unfolded bt_ok_plug]
  obtain nx where pg: "bt_pages s p = Some (LeafNode \<lparr>lf_parent = cpar c, lf_next_brother = nx, lf_array = xs\<rparr>)" using b by auto
  have lo: "leaf_ok cmp ok (clo c) (chi c) xs" using b by simp
  obtain i found where lk: "leaf_lookup cmp key \<lparr>lf_parent = cpar c, lf_next_brother = nx, lf_array = xs\<rparr> = (i, found)" by fastforce
  with leaf_lookup_found [OF lo key lk] dup pg show ?thesis by (simp add: insert_entry_into_leaf_node_def bt_leaf_def)
qed

lemma index_has_plug:
  assumes "cord cmp ok c" "ok key" "above cmp (clo c) key" "below cmp (chi c) key"
  shows "index_has cmp key (tflat (plug c t)) = index_has cmp key (tflat t)"
proof -
  have "cmp (fst x) key \<noteq> 0" if x: "x \<in> set (cfl c) \<union> set (cfr c)" for x
  proof -
    have "ok (fst x)" using x context_left [OF assms(1), of x] context_right [OF assms(1), of x] by auto
    moreover have "cmp (fst x) key < 0 \<or> cmp key (fst x) < 0" using x context_key [OF assms, of x] by auto
    ultimately show ?thesis using cmp_anti [of key "fst x"] assms(2) by auto
  qed
  then show ?thesis by (auto simp: index_has_def tflat_plug)
qed

lemma find_leaf_ok:
  assumes "bt_ok cmp ok s t" "ok key"
  shows "\<exists>c p xs. find_leaf cmp key s = Some (SUCCESS, p) \<and> t = plug c (TLeaf p xs) \<and> above cmp (clo c) key \<and> below cmp (chi c) key"
proof -
  have t: "trep (bt_pages s) BP_INVALID_PAGE_NUM t" "tord cmp ok None None t" "no_fault s" "fh_root_page (bt_header s) = troot t"
    using assms(1) by (simp_all add: bt_ok_def)
  have "2 \<le> troot t" using assms(1) by (simp add: bt_ok_def)
  then have "\<not> bt_is_empty s" using t(4) by (simp add: bt_is_empty_def BP_INVALID_PAGE_NUM_def)
  then show ?thesis
    using find_leaf_plug [of s "[]" t key] t assms(2) by (simp add: find_leaf_def find_leaf_internal_def)
qed

lemma tbal_plug_leaf: "tbal n (plug c (TLeaf p xs)) \<Longrightarrow> n = length c"
  by (simp add: tbal_plug)

lemma insert_entry_index:
  assumes idx: "bt_index cmp ok n s xs" and key: "key = make_key (bt_header s) user_key rid" "ok key"
    and free: "n + 1 < free_count (bt_pages s)"
  shows "\<exists>rc s'. insert_entry cmp (Some user_key) (Some rid) s = Some (rc, s') \<and>
    (if index_has cmp key xs then rc = RECORD_DUPLICATE_KEY \<and> s' = s
     else rc = SUCCESS \<and> (\<exists>n'. bt_index cmp ok n' s' (index_insert cmp key rid xs)) \<and> hdr_kept s s')"
proof (cases "bt_empty s")
  case True
  have "\<not> bt_ok cmp ok s t" for t
  proof
    assume "bt_ok cmp ok s t"
    then have "2 \<le> troot t" "fh_root_page (bt_header s) = troot t" by (simp_all add: bt_ok_def)
    then show False using True by (simp add: bt_empty_def BP_INVALID_PAGE_NUM_def)
  qed
  then have xs: "xs = []" using idx by (simp add: bt_index_def)
  have e: "no_fault s" "fh_root_page (bt_header s) = BP_INVALID_PAGE_NUM" "bt_pages s = Map.empty" using True by (simp_all add: bt_empty_def)
  obtain q where q: "bt_allocate s = (SUCCESS, q)" "2 \<le> q" using bt_allocate_ok [OF e(1)] free by auto
  let ?s = "bt_mark q (update_root_page_num_locked q
    (bt_set q (LeafNode \<lparr>lf_parent = BP_INVALID_PAGE_NUM, lf_next_brother = BP_INVALID_PAGE_NUM, lf_array = [(key, rid)]\<rparr>) s))"
  have "insert_entry cmp (Some user_key) (Some rid) s = Some (SUCCESS, ?s)"
    using e q key(1) by (simp add: insert_entry_def bt_is_empty_def create_new_tree_def leaf_init_empty_def leaf_insert_def Let_def)
  moreover have "bt_ok cmp ok ?s (TLeaf q [(key, rid)])"
    using True q(2) key(2) by (auto simp: bt_ok_def bt_empty_def update_root_page_num_locked_def no_fault_def max_sizes_def leaf_ok_def nxt_def)
  then have "bt_index cmp ok 0 ?s [(key, rid)]" by (auto simp: bt_index_def)
  moreover have "hdr_kept s ?s" by (simp add: hdr_kept_def update_root_page_num_locked_def)
  ultimately show ?thesis using xs by (auto simp: index_has_def index_insert_def)
next
  case False
  then obtain t where t: "bt_ok cmp ok s t" "tbal n t" "xs = tflat t" using idx by (auto simp: bt_index_def)
  obtain c p ys where c: "find_leaf cmp key s = Some (SUCCESS, p)" "t = plug c (TLeaf p ys)" "above cmp (clo c) key" "below cmp (chi c) key"
    using find_leaf_ok [OF t(1) key(2)] by blast
  have "2 \<le> troot t" "fh_root_page (bt_header s) = troot t" "no_fault s" using t(1) by (simp_all add: bt_ok_def)
  then have ne: "\<not> bt_is_empty s" and nf: "no_fault s" by (auto simp: bt_is_empty_def BP_INVALID_PAGE_NUM_def)
  have cord: "cord cmp ok c" using t(1) c(2) by (simp add: bt_ok_plug)
  have has: "index_has cmp key xs = index_has cmp key ys" using index_has_plug [OF cord key(2) c(3,4)] t(3) c(2) by simp
  have run: "insert_entry cmp (Some user_key) (Some rid) s =
      Option.bind (insert_entry_into_leaf_node cmp p key rid s) (\<lambda>(rc, s). Some (rc, bt_release s))"
    using ne c(1) key(1) by (simp add: insert_entry_def Let_def)
  show ?thesis
  proof (cases "index_has cmp key ys")
    case True
    then show ?thesis using insert_duplicate [OF t(1) [unfolded c(2)] key(2) True] run has nf by (simp add: bt_release_no_fault)
  next
    case False
    have "length c = n" using t(2) tbal_plug_leaf c(2) by simp
    then obtain s' t' where s': "insert_entry_into_leaf_node cmp p key rid s = Some (SUCCESS, s')" "bt_ok cmp ok s' t'"
      "tflat t' = index_insert cmp key rid xs" "hdr_kept s s'"
      using insert_into_leaf [OF t(1) [unfolded c(2)] key(2) c(3,4) False, of rid] free t(3) c(2) by auto
    obtain n' where n': "no_fault s'" "tbal n' t'" using s'(2) unfolding bt_ok_def by blast
    have "bt_index cmp ok n' s' (tflat t')" unfolding bt_index_def using s'(2) n'(2) by blast
    then show ?thesis using s' run has False n'(1) by (auto simp: bt_release_no_fault)
  qed
qed

end

end
