(* ===== verification/BplusScan.thy ===== *)
theory BplusScan
  imports BplusIndex
begin

section \<open>Range scans over the B+ tree\<close>

text \<open>
  A scanner stands at a position in the sequence of leaves that the \<open>next_brother\<close> links form. What it
  still returns are the entries from there on, up to the first one beyond the right bound. Opening a scan
  finds the position of the left bound, so a scan returns exactly the entries within its bounds.
\<close>

subsection \<open>The leaves in order\<close>

fun tpairs :: "tree \<Rightarrow> (int \<times> entries) list" where
  "tpairs (TLeaf p xs) = [(p, xs)]"
| "tpairs (TNode p kts) = concat (map (\<lambda>kt. tpairs (snd kt)) kts)"

fun cpr :: "frame list \<Rightarrow> (int \<times> entries) list" where
  "cpr [] = []"
| "cpr ((p, ls, k, rs) # c) = concat (map (\<lambda>kt. tpairs (snd kt)) rs) @ cpr c"

fun cpl :: "frame list \<Rightarrow> (int \<times> entries) list" where
  "cpl [] = []"
| "cpl ((p, ls, k, rs) # c) = cpl c @ concat (map (\<lambda>kt. tpairs (snd kt)) ls)"

lemma tpairs_plug: "tpairs (plug c t) = cpl c @ tpairs t @ cpr c"
  by (induction c t rule: plug.induct) auto

lemma map_concat_kts: "(\<And>kt. kt \<in> set kts \<Longrightarrow> map f (g (snd kt)) = h (snd kt)) \<Longrightarrow>
    map f (concat (map (\<lambda>kt. g (snd kt)) kts)) = concat (map (\<lambda>kt. h (snd kt)) kts)"
  by (induction kts) auto

lemma tpairs_pages: "map fst (tpairs t) = tleaves t"
  by (induction t rule: tree_induct) (simp_all add: map_concat_kts)

lemma tpairs_flat: "concat (map snd (tpairs t)) = tflat t"
proof (induction t rule: tree_induct)
  case (TNode p kts)
  then show ?case by (induction kts) auto
qed simp

lemma cpr_flat: "concat (map snd (cpr c)) = cfr c"
proof (induction c rule: cpr.induct)
  case (2 p ls k rs c)
  then show ?case using tpairs_flat [of "TNode p rs"] by simp
qed simp

fun leaf_run :: "pages \<Rightarrow> (int \<times> entries) list \<Rightarrow> bool" where
  "leaf_run ps [] = True"
| "leaf_run ps ((p, ys) # L) =
     ((\<exists>par. ps p = Some (LeafNode \<lparr>lf_parent = par, lf_next_brother = (case L of [] \<Rightarrow> BP_INVALID_PAGE_NUM | (q, _) # _ \<Rightarrow> q), lf_array = ys\<rparr>)) \<and>
      ys \<noteq> [] \<and> 2 \<le> p \<and> leaf_run ps L)"

lemma leaf_run_append: "leaf_run ps (A @ B) \<Longrightarrow> leaf_run ps B"
  by (induction A) auto

lemma leaf_runI:
  assumes "\<And>p ys. (p, ys) \<in> set L \<Longrightarrow> \<exists>par nx. ps p = Some (LeafNode \<lparr>lf_parent = par, lf_next_brother = nx, lf_array = ys\<rparr>) \<and> ys \<noteq> [] \<and> 2 \<le> p"
    "chain ps (map fst L) BP_INVALID_PAGE_NUM"
  shows "leaf_run ps L"
  using assms
proof (induction L)
  case (Cons a L)
  obtain p ys where a: "a = (p, ys)" by fastforce
  have "leaf_run ps L"
  proof (rule Cons.IH)
    fix q zs assume "(q, zs) \<in> set L"
    then show "\<exists>par nx. ps q = Some (LeafNode \<lparr>lf_parent = par, lf_next_brother = nx, lf_array = zs\<rparr>) \<and> zs \<noteq> [] \<and> 2 \<le> q"
      by (intro Cons.prems(1)) simp
  qed (use Cons.prems(2) in simp)
  moreover obtain par nx where p: "ps p = Some (LeafNode \<lparr>lf_parent = par, lf_next_brother = nx, lf_array = ys\<rparr>)" "ys \<noteq> []" "2 \<le> p"
    using Cons.prems(1) [of p ys] a by auto
  moreover have "nx = (case L of [] \<Rightarrow> BP_INVALID_PAGE_NUM | (q, _) # _ \<Rightarrow> q)"
    using Cons.prems(2) p(1) by (cases L) (auto simp: a nxt_def)
  ultimately show ?case by (simp add: a)
qed simp

lemma trep_pairs:
  assumes "trep ps par t" "(p, ys) \<in> set (tpairs t)"
  shows "\<exists>par nx. ps p = Some (LeafNode \<lparr>lf_parent = par, lf_next_brother = nx, lf_array = ys\<rparr>)"
  using assms
proof (induction t arbitrary: par rule: tree_induct)
  case (TNode q kts)
  then obtain kt where "kt \<in> set kts" "(p, ys) \<in> set (tpairs (snd kt))" by auto
  then show ?case using TNode by (meson trep.simps(2))
qed auto

lemma tords_pairs:
  assumes "\<And>kt lo hi. kt \<in> set kts \<Longrightarrow> tord cmp ok lo hi (snd kt) \<Longrightarrow> \<forall>x \<in> set (tpairs (snd kt)). snd x \<noteq> []"
    "tords cmp ok lo hi kts"
  shows "\<forall>kt \<in> set kts. \<forall>x \<in> set (tpairs (snd kt)). snd x \<noteq> []"
  using assms
proof (induction kts arbitrary: lo)
  case (Cons a kts)
  show ?case
  proof (cases kts)
    case Nil
    then show ?thesis using Cons.prems by simp
  next
    case (Cons b r)
    then have t: "tord cmp ok lo (Some (fst b)) (snd a)" "tords cmp ok (Some (fst b)) hi kts" using Cons.prems(2) by (simp_all add: tords_two)
    have "\<forall>kt \<in> set kts. \<forall>x \<in> set (tpairs (snd kt)). snd x \<noteq> []" by (rule Cons.IH [OF _ t(2)]) (use Cons.prems(1) in \<open>meson list.set_intros(2)\<close>)
    moreover have "\<forall>x \<in> set (tpairs (snd a)). snd x \<noteq> []" using Cons.prems(1) [OF _ t(1)] by simp
    ultimately show ?thesis by simp
  qed
qed simp

lemma tord_pairs: "tord cmp ok lo hi t \<Longrightarrow> \<forall>x \<in> set (tpairs t). snd x \<noteq> []"
proof (induction t arbitrary: lo hi rule: tree_induct)
  case (TNode p kts)
  then show ?case using tords_pairs [of kts cmp ok lo hi] by auto
qed (simp add: leaf_ok_def)

lemma bt_ok_leaf_run:
  assumes "bt_ok cmp ok s t"
  shows "leaf_run (bt_pages s) (tpairs t)"
proof (rule leaf_runI)
  fix p ys assume p: "(p, ys) \<in> set (tpairs t)"
  then have "p \<in> set (tleaves t)" using tpairs_pages [of t] by (metis fst_conv image_eqI set_map)
  then have "2 \<le> p" using assms tleaves_pages [of t] by (auto simp: bt_ok_def)
  moreover have "ys \<noteq> []" using tord_pairs [of cmp ok None None t] assms p by (auto simp: bt_ok_def)
  ultimately show "\<exists>par nx. bt_pages s p = Some (LeafNode \<lparr>lf_parent = par, lf_next_brother = nx, lf_array = ys\<rparr>) \<and> ys \<noteq> [] \<and> 2 \<le> p"
    using trep_pairs [OF _ p] assms by (auto simp: bt_ok_def)
qed (use assms in \<open>simp add: tpairs_pages bt_ok_def\<close>)

subsection \<open>Moving on\<close>

text \<open>The scanner has emitted an entry and stands before the entries \<open>rest\<close>.\<close>

definition sc_at :: "BplusTreeHandler \<Rightarrow> BplusTreeScanner \<Rightarrow> entries \<Rightarrow> bool" where
  "sc_at s sc rest \<longleftrightarrow> sc_first_emitted sc \<and> (\<exists>p ys R. sc_current sc = Some p \<and> leaf_run (bt_pages s) ((p, ys) # R) \<and>
     - 1 \<le> sc_iter_index sc \<and> sc_iter_index sc < int (length ys) \<and> rest = drop (nat (sc_iter_index sc + 1)) ys @ concat (map snd R))"

definition beyond :: "(key \<Rightarrow> key \<Rightarrow> int) \<Rightarrow> BplusTreeScanner \<Rightarrow> key \<times> RID \<Rightarrow> bool" where
  "beyond cmp sc x = (case sc_right_key sc of None \<Rightarrow> False | Some r \<Rightarrow> cmp (fst x) r > 0)"

lemma touch_end_at:
  assumes "bt_pages s p = Some (LeafNode \<lparr>lf_parent = par, lf_next_brother = nx, lf_array = ys\<rparr>)" "sc_current sc = Some p"
    "0 \<le> sc_iter_index sc" "sc_iter_index sc < int (length ys)"
  shows "touch_end cmp s sc = Some (beyond cmp sc (ys ! nat (sc_iter_index sc)))" "fetch_item s sc = Some (snd (ys ! nat (sc_iter_index sc)))"
  using assms
  by (auto simp: touch_end_def beyond_def bt_leaf_def leaf_key_at_def fetch_item_def leaf_value_at_def split: option.split)

lemma next_entry_inside:
  assumes "sc_first_emitted sc" "sc_current sc = Some p" "leaf_run (bt_pages s) ((p, ys) # R)" "- 1 \<le> sc_iter_index sc"
    "sc_iter_index sc + 1 < int (length ys)"
  shows "\<exists>sc'. sc_right_key sc' = sc_right_key sc \<and>
    (let x = ys ! nat (sc_iter_index sc + 1) in
     if beyond cmp sc x then sc_next_entry cmp s sc = Some (RECORD_EOF, None, sc')
     else sc_next_entry cmp s sc = Some (SUCCESS, Some (snd x), sc') \<and>
       sc_at s sc' (drop (Suc (nat (sc_iter_index sc + 1))) ys @ concat (map snd R)))"
proof -
  let ?sc = "sc\<lparr>sc_iter_index := sc_iter_index sc + 1\<rparr>"
  obtain par nx where p: "bt_pages s p = Some (LeafNode \<lparr>lf_parent = par, lf_next_brother = nx, lf_array = ys\<rparr>)" using assms(3) by auto
  have b: "beyond cmp ?sc x = beyond cmp sc x" for x by (simp add: beyond_def)
  have t: "touch_end cmp s ?sc = Some (beyond cmp sc (ys ! nat (sc_iter_index sc + 1)))" "fetch_item s ?sc = Some (snd (ys ! nat (sc_iter_index sc + 1)))"
    using touch_end_at(1) [OF p, of ?sc cmp] touch_end_at(2) [OF p, of ?sc] assms(2,4,5) b by simp_all
  have "sc_next_entry cmp s sc = (if beyond cmp sc (ys ! nat (sc_iter_index sc + 1)) then Some (RECORD_EOF, None, ?sc)
      else Some (SUCCESS, Some (snd (ys ! nat (sc_iter_index sc + 1))), ?sc))"
    using assms(1,2,5) p t by (subst sc_next_entry.simps) (simp add: bt_leaf_def Let_def)
  moreover have "sc_at s ?sc (drop (Suc (nat (sc_iter_index sc + 1))) ys @ concat (map snd R))"
    unfolding sc_at_def using assms
    by (intro conjI exI [of _ p] exI [of _ ys] exI [of _ R]) (simp_all add: Suc_nat_eq_nat_zadd1 add.commute)
  ultimately show ?thesis by (intro exI [of _ ?sc]) (simp add: Let_def)
qed

lemma next_entry_at:
  assumes "no_fault s" "sc_at s sc rest"
  shows "\<exists>sc'. sc_right_key sc' = sc_right_key sc \<and>
    (case rest of
       [] \<Rightarrow> sc_next_entry cmp s sc = Some (RECORD_EOF, None, sc')
     | x # rest' \<Rightarrow> if beyond cmp sc x then sc_next_entry cmp s sc = Some (RECORD_EOF, None, sc')
         else sc_next_entry cmp s sc = Some (SUCCESS, Some (snd x), sc') \<and> sc_at s sc' rest')"
proof -
  obtain p ys R where at: "sc_first_emitted sc" "sc_current sc = Some p" "leaf_run (bt_pages s) ((p, ys) # R)" "- 1 \<le> sc_iter_index sc"
    "sc_iter_index sc < int (length ys)" "rest = drop (nat (sc_iter_index sc + 1)) ys @ concat (map snd R)"
    using assms(2) by (auto simp: sc_at_def)
  show ?thesis
  proof (cases "sc_iter_index sc + 1 < int (length ys)")
    case True
    then have "drop (nat (sc_iter_index sc + 1)) ys = ys ! nat (sc_iter_index sc + 1) # drop (Suc (nat (sc_iter_index sc + 1))) ys"
      using at(4) by (intro Cons_nth_drop_Suc [symmetric]) simp
    then show ?thesis using next_entry_inside [OF at(1-4) True, of cmp] at(6) by (simp add: Let_def)
  next
    case False
    obtain par where p: "bt_pages s p = Some (LeafNode \<lparr>lf_parent = par,
        lf_next_brother = (case R of [] \<Rightarrow> BP_INVALID_PAGE_NUM | (q, _) # _ \<Rightarrow> q), lf_array = ys\<rparr>)" using at(3) by auto
    have rest: "rest = concat (map snd R)" using False at(6) by simp
    show ?thesis
    proof (cases R)
      case Nil
      then have "sc_next_entry cmp s sc = Some (RECORD_EOF, None, sc\<lparr>sc_iter_index := sc_iter_index sc + 1\<rparr>)"
        using at(1,2) p False by (subst sc_next_entry.simps) (simp add: bt_leaf_def Let_def)
      then show ?thesis using Nil rest by (intro exI [of _ "sc\<lparr>sc_iter_index := sc_iter_index sc + 1\<rparr>"]) simp
    next
      case (Cons a R')
      obtain q zs where a: "a = (q, zs)" by fastforce
      let ?sc = "sc\<lparr>sc_current := Some q, sc_iter_index := - 1\<rparr>"
      have q: "leaf_run (bt_pages s) ((q, zs) # R')" "zs \<noteq> []" "2 \<le> q" using at(3) Cons a by auto
      obtain n where n: "bt_pages s q = Some n" using q(1) by auto
      have step: "sc_next_entry cmp s sc = sc_next_entry cmp s ?sc"
        using at(1,2) p False Cons a q(3) n assms(1)
        by (subst sc_next_entry.simps) (simp add: bt_leaf_def Let_def bt_get_def no_fault_def BP_INVALID_PAGE_NUM_def)
      have b: "beyond cmp ?sc x = beyond cmp sc x" for x by (simp add: beyond_def)
      obtain z zs' where z: "zs = z # zs'" using q(2) by (cases zs) auto
      show ?thesis using next_entry_inside [of ?sc q s zs R' cmp] at(1) q rest z Cons a step b
        by (cases "beyond cmp sc z") (simp_all add: Let_def)
    qed
  qed
qed

text \<open>Collecting what is left: the entries up to the first one beyond the right bound.\<close>

lemma get_entry_loop_at:
  assumes "no_fault s" "sc_at s sc rest"
  shows "get_entry_loop cmp s sc rids = Some (SUCCESS, rids @ map snd (takeWhile (\<lambda>x. \<not> beyond cmp sc x) rest))"
  using assms(2)
proof (induction rest arbitrary: sc rids)
  case Nil
  obtain sc' where "sc_next_entry cmp s sc = Some (RECORD_EOF, None, sc')" using next_entry_at [OF assms(1) Nil, of cmp] by auto
  then show ?case by (subst get_entry_loop.simps) simp
next
  case (Cons x rest)
  obtain sc' where sc': "sc_right_key sc' = sc_right_key sc" "if beyond cmp sc x then sc_next_entry cmp s sc = Some (RECORD_EOF, None, sc')
      else sc_next_entry cmp s sc = Some (SUCCESS, Some (snd x), sc') \<and> sc_at s sc' rest"
    using next_entry_at [OF assms(1) Cons.prems, of cmp] by auto
  have b: "beyond cmp sc' = beyond cmp sc" using sc'(1) by (simp add: beyond_def fun_eq_iff)
  show ?case
  proof (cases "beyond cmp sc x")
    case True
    then show ?thesis using sc'(2) by (subst get_entry_loop.simps) simp
  next
    case False
    then show ?thesis using sc'(2) Cons.IH [of sc' "rids @ [snd x]"] b by (subst get_entry_loop.simps) simp
  qed
qed

subsection \<open>Opening a scan\<close>

text \<open>The bounds of a scan as keys, and the entries between them.\<close>

definition left_bound :: "IndexFileHeader \<Rightarrow> byte list \<times> int \<Rightarrow> bool \<Rightarrow> key" where
  "left_bound h b incl = (let f = the (fix_bound h b incl True) in make_key h (fst f) (if snd f then RID_min else RID_max))"

definition right_bound :: "IndexFileHeader \<Rightarrow> byte list \<times> int \<Rightarrow> bool \<Rightarrow> key" where
  "right_bound h b incl = (let f = the (fix_bound h b incl False) in make_key h (fst f) (if snd f then RID_max else RID_min))"

definition index_range :: "(key \<Rightarrow> key \<Rightarrow> int) \<Rightarrow> key option \<Rightarrow> key option \<Rightarrow> entries \<Rightarrow> entries" where
  "index_range cmp lk rk xs =
     filter (\<lambda>x. (case lk of None \<Rightarrow> True | Some l \<Rightarrow> cmp (fst x) l \<ge> 0) \<and> (case rk of None \<Rightarrow> True | Some r \<Rightarrow> cmp (fst x) r \<le> 0)) xs"

definition sc_pos :: "BplusTreeHandler \<Rightarrow> BplusTreeScanner \<Rightarrow> entries \<Rightarrow> bool" where
  "sc_pos s sc rest \<longleftrightarrow> (\<exists>p ys R. sc_current sc = Some p \<and> leaf_run (bt_pages s) ((p, ys) # R) \<and>
     0 \<le> sc_iter_index sc \<and> sc_iter_index sc < int (length ys) \<and> rest = drop (nat (sc_iter_index sc)) ys @ concat (map snd R))"

lemma sc_pos_first:
  assumes "sc_pos s sc rest"
  shows "\<exists>x rest'. rest = x # rest' \<and> touch_end cmp s sc = Some (beyond cmp sc x) \<and> fetch_item s sc = Some (snd x) \<and>
    sc_at s (sc\<lparr>sc_first_emitted := True\<rparr>) rest'"
proof -
  obtain p ys R where at: "sc_current sc = Some p" "leaf_run (bt_pages s) ((p, ys) # R)" "0 \<le> sc_iter_index sc"
    "sc_iter_index sc < int (length ys)" "rest = drop (nat (sc_iter_index sc)) ys @ concat (map snd R)"
    using assms by (auto simp: sc_pos_def)
  obtain par nx where p: "bt_pages s p = Some (LeafNode \<lparr>lf_parent = par, lf_next_brother = nx, lf_array = ys\<rparr>)" using at(2) by auto
  have "drop (nat (sc_iter_index sc)) ys = ys ! nat (sc_iter_index sc) # drop (Suc (nat (sc_iter_index sc))) ys"
    using at(3,4) by (intro Cons_nth_drop_Suc [symmetric]) simp
  moreover have "sc_at s (sc\<lparr>sc_first_emitted := True\<rparr>) (drop (Suc (nat (sc_iter_index sc))) ys @ concat (map snd R))"
    unfolding sc_at_def using at(1-4)
    by (intro conjI exI [of _ p] exI [of _ ys] exI [of _ R]) (simp_all add: Suc_nat_eq_nat_zadd1 add.commute)
  ultimately show ?thesis using touch_end_at(1) [OF p at(1,3,4), of cmp] touch_end_at(2) [OF p at(1,3,4)] at(5)
    by (intro exI [of _ "ys ! nat (sc_iter_index sc)"] exI [of _ "drop (Suc (nat (sc_iter_index sc))) ys @ concat (map snd R)"]) simp
qed

text \<open>What \<open>open\<close> leaves behind: a closed scan when nothing is in range, otherwise a position in the leaves.\<close>

lemma get_entry_loop_open:
  assumes "no_fault s" "sc_pos s sc rest" "\<not> sc_first_emitted sc"
  shows "get_entry_loop cmp s (if beyond cmp sc (hd rest) then sc\<lparr>sc_current := None\<rparr> else sc) [] =
    Some (SUCCESS, map snd (takeWhile (\<lambda>x. \<not> beyond cmp sc x) rest))"
proof -
  obtain x rest' where x: "rest = x # rest'" "touch_end cmp s sc = Some (beyond cmp sc x)" "fetch_item s sc = Some (snd x)"
    "sc_at s (sc\<lparr>sc_first_emitted := True\<rparr>) rest'"
    using sc_pos_first [OF assms(2), of cmp] by blast
  obtain p where p: "sc_current sc = Some p" using assms(2) by (auto simp: sc_pos_def)
  have b: "beyond cmp (sc\<lparr>sc_first_emitted := True\<rparr>) = beyond cmp sc" by (simp add: beyond_def fun_eq_iff)
  show ?thesis
  proof (cases "beyond cmp sc x")
    case True
    have "sc_next_entry cmp s (sc\<lparr>sc_current := None\<rparr>) = Some (RECORD_EOF, None, sc\<lparr>sc_current := None\<rparr>)"
      by (subst sc_next_entry.simps) simp
    then show ?thesis using True x(1) by (subst get_entry_loop.simps) simp
  next
    case False
    have "sc_next_entry cmp s sc = Some (SUCCESS, Some (snd x), sc\<lparr>sc_first_emitted := True\<rparr>)"
      using p x(3) assms(3) by (subst sc_next_entry.simps) simp
    then show ?thesis using False x(1) get_entry_loop_at [OF assms(1) x(4), of cmp "[snd x]"] b by (subst get_entry_loop.simps) simp
  qed
qed

lemma dropWhile_split:
  assumes "\<forall>x \<in> set A. P x" "\<forall>x \<in> set B. \<not> P x"
  shows "dropWhile P (A @ B) = B"
  using assms by (cases B) (simp_all add: dropWhile_append)

context index_order
begin

lemma left_most_plug:
  assumes "trep (bt_pages s) par t" "tord cmp ok lo hi t" "no_fault s"
  shows "\<exists>p ys L. find_leaf_loop (internal_value_at 0) (troot t) s = Some (SUCCESS, p) \<and> tpairs t = (p, ys) # L"
  using assms(1,2)
proof (induction t arbitrary: par lo hi rule: tree_induct)
  case (TLeaf p xs)
  then show ?case using assms(3) by (subst find_leaf_loop.simps) (auto simp: bt_get_def no_fault_def)
next
  case (TNode p kts)
  then obtain kt kts' where kts: "kts = kt # kts'" by (cases kts) auto
  then have "tords cmp ok lo hi (kt # kts')" using TNode.prems(2) by simp
  then obtain hi' where "tord cmp ok lo hi' (snd kt)" using tords_first by blast
  then obtain q ys L where q: "find_leaf_loop (internal_value_at 0) (troot (snd kt)) s = Some (SUCCESS, q)" "tpairs (snd kt) = (q, ys) # L"
    using TNode.IH [of kt p lo hi'] TNode.prems(1) kts by auto
  have "find_leaf_loop (internal_value_at 0) (troot (TNode p kts)) s = find_leaf_loop (internal_value_at 0) (troot (snd kt)) s"
    using TNode.prems(1) kts assms(3) by (subst find_leaf_loop.simps) (simp add: bt_get_def no_fault_def internal_value_at_def)
  then show ?case using q kts by simp
qed

lemma left_most_ok:
  assumes "bt_ok cmp ok s t"
  shows "\<exists>p ys L. left_most_page s = Some (SUCCESS, p) \<and> tpairs t = (p, ys) # L"
proof -
  have t: "trep (bt_pages s) BP_INVALID_PAGE_NUM t" "tord cmp ok None None t" "no_fault s" "fh_root_page (bt_header s) = troot t"
    using assms by (simp_all add: bt_ok_def)
  have "2 \<le> troot t" using assms by (simp add: bt_ok_def)
  then have "\<not> bt_is_empty s" using t(4) by (simp add: bt_is_empty_def BP_INVALID_PAGE_NUM_def)
  then show ?thesis using left_most_plug [OF t(1-3)] t(4) by (simp add: left_most_page_def find_leaf_internal_def)
qed

text \<open>The left bound of a scan as a key.\<close>

definition from_left :: "key option \<Rightarrow> entries \<Rightarrow> entries" where
  "from_left lk xs = (case lk of None \<Rightarrow> xs | Some l \<Rightarrow> dropWhile (\<lambda>x. cmp (fst x) l < 0) xs)"

lemma from_left_found:
  assumes "bt_ok cmp ok s (plug c (TLeaf p ys))" "ok l" "above cmp (clo c) l" "below cmp (chi c) l"
    "leaf_lookup cmp l \<lparr>lf_parent = par, lf_next_brother = nx, lf_array = ys\<rparr> = (i, found)"
  shows "i \<le> length ys" "dropWhile (\<lambda>x. cmp (fst x) l < 0) (tflat (plug c (TLeaf p ys))) = drop i ys @ cfr c"
proof -
  note b = assms(1) [unfolded bt_ok_plug]
  have cord: "cord cmp ok c" and lo: "leaf_ok cmp ok (clo c) (chi c) ys" using b by simp_all
  have y: "sorted_wrt (\<lambda>x y. cmp (fst x) (fst y) < 0) ys" "\<forall>x \<in> set ys. ok (fst x)" using lo by (auto simp: leaf_ok_def)
  have "lower_bound (\<lambda>x. cmp (fst x)) ys l = (i, found)" using assms(5) by (simp add: leaf_lookup_def)
  note lb = lower_bound_by [of fst, OF y assms(2) this]
  show "i \<le> length ys" by (rule lb(1))
  have "cmp (fst x) l < 0" if "x \<in> set (take i ys)" for x
  proof -
    obtain j where "j < i" "x = ys ! j" using \<open>x \<in> set (take i ys)\<close> by (auto simp: in_set_conv_nth)
    then show ?thesis using lb(2) by simp
  qed
  moreover have "\<not> cmp (fst x) l < 0" if "x \<in> set (drop i ys)" for x
  proof -
    obtain j where "i \<le> j" "j < length ys" "x = ys ! j" using \<open>x \<in> set (drop i ys)\<close> by (auto simp: in_set_conv_nth intro!: that [of "i + _"])
    then show ?thesis using lb(3) [of j] by simp
  qed
  moreover have "\<not> cmp (fst x) l < 0" if "x \<in> set (cfr c)" for x
    using context_key(2) [OF cord assms(2-4) that] context_right [OF cord that] cmp_anti [of l "fst x"] assms(2) by auto
  ultimately have "\<forall>x \<in> set (cfl c @ take i ys). cmp (fst x) l < 0" "\<forall>x \<in> set (drop i ys @ cfr c). \<not> cmp (fst x) l < 0"
    using context_key(1) [OF cord assms(2-4)] by auto
  note split = dropWhile_split [OF this]
  have "(cfl c @ take i ys) @ drop i ys @ cfr c = tflat (plug c (TLeaf p ys))" by (simp add: tflat_plug)
  then show "dropWhile (\<lambda>x. cmp (fst x) l < 0) (tflat (plug c (TLeaf p ys))) = drop i ys @ cfr c" using split by metis
qed

lemma sc_open_left_ok:
  assumes bt: "bt_ok cmp ok s t"
    and lk: "lk = map_option (\<lambda>b. left_bound (bt_header s) b incl) left"
    and fixb: "\<And>b. left = Some b \<Longrightarrow> fix_bound (bt_header s) b incl True \<noteq> None" and ok: "\<And>l. lk = Some l \<Longrightarrow> ok l"
  shows "\<exists>sc'. sc_right_key sc' = sc_right_key sc \<and> sc_first_emitted sc' = sc_first_emitted sc \<and>
    (if from_left lk (tflat t) = [] then sc_open_left cmp left incl s sc = Some (SUCCESS, True, sc') \<and> sc_current sc' = None
     else sc_open_left cmp left incl s sc = Some (SUCCESS, False, sc') \<and> sc_pos s sc' (from_left lk (tflat t)))"
proof (cases left)
  case None
  obtain p ys L where p: "left_most_page s = Some (SUCCESS, p)" "tpairs t = (p, ys) # L" using left_most_ok [OF bt] by blast
  have run: "leaf_run (bt_pages s) ((p, ys) # L)" using bt_ok_leaf_run [OF bt] p(2) by simp
  then have "ys \<noteq> []" by simp
  moreover have flat: "tflat t = ys @ concat (map snd L)" using tpairs_flat [of t] p(2) by simp
  moreover have "sc_pos s (sc\<lparr>sc_current := Some p, sc_iter_index := 0\<rparr>) (tflat t)"
    unfolding sc_pos_def using run \<open>ys \<noteq> []\<close> flat by (intro exI [of _ p] exI [of _ ys] exI [of _ L]) simp
  ultimately show ?thesis using None lk p(1)
    by (intro exI [of _ "sc\<lparr>sc_current := Some p, sc_iter_index := 0\<rparr>"]) (simp add: sc_open_left_def from_left_def)
next
  case (Some b)
  obtain k ic where k: "fix_bound (bt_header s) b incl True = Some (k, ic)" using fixb [OF Some] by auto
  define l where "l = make_key (bt_header s) k (if ic then RID_min else RID_max)"
  have lk': "lk = Some l" using lk Some k by (simp add: l_def left_bound_def)
  then have okl: "ok l" by (rule ok)
  obtain c p ys where c: "find_leaf cmp l s = Some (SUCCESS, p)" "t = plug c (TLeaf p ys)" "above cmp (clo c) l" "below cmp (chi c) l"
    using find_leaf_ok [OF bt okl] by blast
  have "leaf_run (bt_pages s) (cpl c @ (p, ys) # cpr c)" using bt_ok_leaf_run [OF bt] by (simp add: c(2) tpairs_plug)
  then have run: "leaf_run (bt_pages s) ((p, ys) # cpr c)" by (rule leaf_run_append)
  then obtain par where pg: "bt_pages s p = Some (LeafNode \<lparr>lf_parent = par,
      lf_next_brother = (case cpr c of [] \<Rightarrow> BP_INVALID_PAGE_NUM | (q, _) # _ \<Rightarrow> q), lf_array = ys\<rparr>)" (is "_ = Some (LeafNode ?n)") by auto
  obtain i found where lkp: "leaf_lookup cmp l ?n = (i, found)" by fastforce
  note f = from_left_found [OF bt [unfolded c(2)] okl c(3,4) lkp]
  have rest: "from_left lk (tflat t) = drop i ys @ concat (map snd (cpr c))"
    using f(2) c(2) lk' by (simp add: from_left_def cpr_flat)
  have open': "sc_open_left cmp left incl s sc =
      (if i \<ge> length ys then
         (case cpr c of [] \<Rightarrow> Some (SUCCESS, True, sc\<lparr>sc_current := None\<rparr>)
          | (q, _) # _ \<Rightarrow> Some (SUCCESS, False, sc\<lparr>sc_current := Some q, sc_iter_index := 0\<rparr>))
       else Some (SUCCESS, False, sc\<lparr>sc_current := Some p, sc_iter_index := int i\<rparr>))"
  proof -
    have "\<exists>n. bt_pages s q = Some n" "2 \<le> q" if "cpr c = (q, zs) # R" for q zs R using run that by auto
    moreover have "no_fault s" using bt by (simp add: bt_ok_def)
    ultimately show ?thesis using Some k c(1) pg lkp
      by (auto simp: sc_open_left_def l_def [symmetric] bt_leaf_def Let_def bt_get_def no_fault_def BP_INVALID_PAGE_NUM_def split: list.splits)
  qed
  show ?thesis
  proof (cases "i < length ys")
    case True
    have "sc_pos s (sc\<lparr>sc_current := Some p, sc_iter_index := int i\<rparr>) (from_left lk (tflat t))"
      unfolding sc_pos_def using run True rest by (intro exI [of _ p] exI [of _ ys] exI [of _ "cpr c"]) simp
    then show ?thesis using True rest open' by (intro exI [of _ "sc\<lparr>sc_current := Some p, sc_iter_index := int i\<rparr>"]) simp
  next
    case False
    show ?thesis
    proof (cases "cpr c")
      case Nil
      then show ?thesis using False rest open' by (intro exI [of _ "sc\<lparr>sc_current := None\<rparr>"]) simp
    next
      case (Cons a R)
      obtain q zs where a: "a = (q, zs)" by fastforce
      have run': "leaf_run (bt_pages s) ((q, zs) # R)" "zs \<noteq> []" using run Cons a by auto
      have "sc_pos s (sc\<lparr>sc_current := Some q, sc_iter_index := 0\<rparr>) (from_left lk (tflat t))"
        unfolding sc_pos_def using run' rest False Cons a by (intro exI [of _ q] exI [of _ zs] exI [of _ R]) simp
      then show ?thesis using False rest open' Cons a run'(2) by (intro exI [of _ "sc\<lparr>sc_current := Some q, sc_iter_index := 0\<rparr>"]) simp
    qed
  qed
qed

text \<open>On an ascending list the entries between two bounds are a middle part.\<close>

lemma sorted_dropWhile:
  assumes "sorted_wrt (\<lambda>x y. cmp (fst x) (fst y) < 0) xs" "\<forall>x \<in> set xs. ok (fst x)" "ok l"
  shows "dropWhile (\<lambda>x. cmp (fst x) l < 0) xs = filter (\<lambda>x. cmp (fst x) l \<ge> 0) xs"
  using assms(1,2)
proof (induction xs)
  case (Cons x xs)
  have "cmp (fst y) l \<ge> 0" if "\<not> cmp (fst x) l < 0" "y \<in> set xs" for y
    using that Cons.prems assms(3) cmp_less_le [of "fst x" "fst y" l] by (meson list.set_intros not_le less_imp_le sorted_wrt.simps(2))
  then show ?case using Cons by (auto simp: filter_id_conv not_less)
qed simp

lemma sorted_takeWhile:
  assumes "sorted_wrt (\<lambda>x y. cmp (fst x) (fst y) < 0) xs" "\<forall>x \<in> set xs. ok (fst x)" "ok r"
  shows "takeWhile (\<lambda>x. \<not> cmp (fst x) r > 0) xs = filter (\<lambda>x. cmp (fst x) r \<le> 0) xs"
  using assms(1,2)
proof (induction xs)
  case (Cons x xs)
  have "\<not> cmp (fst y) r \<le> 0" if "\<not> cmp (fst x) r \<le> 0" "y \<in> set xs" for y
    using that Cons.prems assms(3) cmp_trans [of "fst x" "fst y" r] by (meson list.set_intros less_imp_le sorted_wrt.simps(2))
  then show ?case using Cons by (auto simp: filter_empty_conv not_less)
qed simp

lemma range_eq:
  assumes "sorted_wrt (\<lambda>x y. cmp (fst x) (fst y) < 0) xs" "\<forall>x \<in> set xs. ok (fst x)" "\<And>l. lk = Some l \<Longrightarrow> ok l" "\<And>r. rk = Some r \<Longrightarrow> ok r"
    "sc_right_key sc = rk"
  shows "takeWhile (\<lambda>x. \<not> beyond cmp sc x) (from_left lk xs) = index_range cmp lk rk xs"
proof -
  have l: "from_left lk xs = filter (\<lambda>x. case lk of None \<Rightarrow> True | Some l \<Rightarrow> cmp (fst x) l \<ge> 0) xs"
    using sorted_dropWhile [OF assms(1,2)] assms(3) by (simp add: from_left_def split: option.split)
  have "sorted_wrt (\<lambda>x y. cmp (fst x) (fst y) < 0) (from_left lk xs)" "\<forall>x \<in> set (from_left lk xs). ok (fst x)"
    unfolding l using assms(1,2) by (simp_all add: sorted_wrt_filter)
  from sorted_takeWhile [OF this] assms(4)
  have "takeWhile (\<lambda>x. \<not> beyond cmp sc x) (from_left lk xs) = filter (\<lambda>x. case rk of None \<Rightarrow> True | Some r \<Rightarrow> cmp (fst x) r \<le> 0) (from_left lk xs)"
    using assms(5) by (cases rk) (simp_all add: beyond_def)
  then show ?thesis unfolding l by (simp add: index_range_def conj_commute)
qed

lemma scan_collects:
  assumes bt: "bt_ok cmp ok s t" and sc: "\<not> sc_inited sc"
    and lk: "lk = map_option (\<lambda>b. left_bound (bt_header s) b li) left" and rk: "rk = map_option (\<lambda>b. right_bound (bt_header s) b ri) right"
    and fixb: "\<And>b. left = Some b \<Longrightarrow> fix_bound (bt_header s) b li True \<noteq> None" "\<And>b. right = Some b \<Longrightarrow> fix_bound (bt_header s) b ri False \<noteq> None"
    and ok: "\<And>l. lk = Some l \<Longrightarrow> ok l" "\<And>r. rk = Some r \<Longrightarrow> ok r"
    and valid: "\<And>l r. left = Some l \<Longrightarrow> right = Some r \<Longrightarrow> attr (fst l) (fst r) < 0 \<or> attr (fst l) (fst r) = 0 \<and> li \<and> ri"
  shows "\<exists>sc'. sc_open attr cmp left li right ri s sc = Some (SUCCESS, sc') \<and>
    get_entry_loop cmp s sc' [] = Some (SUCCESS, map snd (index_range cmp lk rk (tflat t)))"
proof -
  let ?sc = "sc\<lparr>sc_inited := True, sc_first_emitted := False\<rparr>"
  have nf: "no_fault s" and ord: "leaf_ok cmp ok None None (tflat t)" using bt tord_flat [of None None t] by (simp_all add: bt_ok_def)
  obtain sc' where sc': "sc_right_key sc' = sc_right_key ?sc" "sc_first_emitted sc' = sc_first_emitted ?sc"
    "if from_left lk (tflat t) = [] then sc_open_left cmp left li s ?sc = Some (SUCCESS, True, sc') \<and> sc_current sc' = None
     else sc_open_left cmp left li s ?sc = Some (SUCCESS, False, sc') \<and> sc_pos s sc' (from_left lk (tflat t))"
    using sc_open_left_ok [OF bt lk fixb(1) ok(1), of ?sc] by blast
  have rng: "takeWhile (\<lambda>x. \<not> beyond cmp sc'' x) (from_left lk (tflat t)) = index_range cmp lk rk (tflat t)" if "sc_right_key sc'' = rk" for sc''
    using ord ok that by (intro range_eq) (auto simp: leaf_ok_def)
  have pass: "\<not> (case (left, right) of (Some l, Some r) \<Rightarrow> attr (fst l) (fst r) | _ \<Rightarrow> - 1) > 0"
    "\<not> ((case (left, right) of (Some l, Some r) \<Rightarrow> attr (fst l) (fst r) | _ \<Rightarrow> - 1) = 0 \<and> (li = False \<or> ri = False))"
    using valid by (auto split: option.splits) fastforce+
  have right: "(case right of None \<Rightarrow> Some None
      | Some b \<Rightarrow> Option.bind (fix_bound (bt_header s) b ri False) (\<lambda>(k, ic). Some (Some (make_key (bt_header s) k (if ic then RID_max else RID_min))))) = Some rk"
    using rk fixb(2) by (auto simp: right_bound_def Let_def split: option.splits)
  show ?thesis
  proof (cases "from_left lk (tflat t) = []")
    case True
    then have "sc_open attr cmp left li right ri s sc = Some (SUCCESS, sc')"
      using sc'(3) sc pass by (simp add: sc_open_def Let_def)
    moreover have "sc_next_entry cmp s sc' = Some (RECORD_EOF, None, sc')" using sc'(3) True by (subst sc_next_entry.simps) simp
    then have "get_entry_loop cmp s sc' [] = Some (SUCCESS, [])" by (subst get_entry_loop.simps) simp
    ultimately show ?thesis using True rng [of "sc'\<lparr>sc_right_key := rk\<rparr>"] by simp
  next
    case False
    let ?sc' = "sc'\<lparr>sc_right_key := rk\<rparr>"
    have pos: "sc_pos s ?sc' (from_left lk (tflat t))" using sc'(3) False by (simp add: sc_pos_def)
    obtain x rest' where x: "from_left lk (tflat t) = x # rest'" "touch_end cmp s ?sc' = Some (beyond cmp ?sc' x)"
      using sc_pos_first [OF pos, of cmp] by blast
    have "sc_open attr cmp left li right ri s sc = Some (SUCCESS, if beyond cmp ?sc' x then ?sc'\<lparr>sc_current := None\<rparr> else ?sc')"
      using sc'(3) sc pass False right x(2) by (simp add: sc_open_def Let_def)
    then show ?thesis using get_entry_loop_open [OF nf pos, of cmp] x(1) sc'(2) rng [of ?sc'] by simp
  qed
qed

end

end
