(* ===== verification/BplusDelete.thy ===== *)
theory BplusDelete
  imports BplusIndex
begin

section \<open>Deletion from the B+ tree\<close>

text \<open>
  \<open>delete_entry\<close> removes the entry from its leaf; a node that falls below the minimum takes an entry from a sibling
  or is merged with it, which takes a child from the parent, and so on up to the root. Both repairs replace two
  adjacent children by others with the same entries: seen as one node they are joined, and a redistribution
  splits the joined node at another place. Pages that become superfluous are disposed of when the operation ends.
\<close>

subsection \<open>Handlers during a deletion\<close>

text \<open>What holds throughout, without the sizes of nodes: the pages are those of the tree and those to be disposed of.\<close>

definition bt_core :: "(key \<Rightarrow> key \<Rightarrow> int) \<Rightarrow> (key \<Rightarrow> bool) \<Rightarrow> BplusTreeHandler \<Rightarrow> tree \<Rightarrow> bool" where
  "bt_core cmp ok s t \<longleftrightarrow> bt_fault s = (\<lambda>_. SUCCESS) \<and> bt_alloc_fault s = SUCCESS \<and> fh_root_page (bt_header s) = troot t \<and>
     trep (bt_pages s) BP_INVALID_PAGE_NUM t \<and> distinct (tpages t @ bt_disposed s) \<and>
     dom (bt_pages s) = set (tpages t @ bt_disposed s) \<and> (\<forall>p \<in> set (tpages t). 2 \<le> p) \<and> tord cmp ok None None t \<and>
     chain (bt_pages s) (tleaves t) BP_INVALID_PAGE_NUM \<and> (\<exists>n. tbal n t)"

lemma bt_core_dirty [simp]: "bt_core cmp ok (s\<lparr>bt_dirty := D\<rparr>) t = bt_core cmp ok s t" "bt_core cmp ok (bt_mark p s) t = bt_core cmp ok s t"
  by (simp_all add: bt_core_def)

lemma bt_ok_core:
  "bt_ok cmp ok s t \<longleftrightarrow> bt_core cmp ok s t \<and> bt_disposed s = [] \<and> 2 \<le> fst (max_sizes s) \<and> 2 \<le> snd (max_sizes s) \<and>
     trsz (fst (max_sizes s)) (snd (max_sizes s)) t"
  unfolding bt_ok_def bt_core_def no_fault_def by auto

lemma bt_core_release:
  assumes "bt_core cmp ok s t"
  shows "bt_core cmp ok (bt_release s) t" "bt_disposed (bt_release s) = []" "max_sizes (bt_release s) = max_sizes s"
proof -
  have out: "p \<notin> set (bt_disposed s)" if "p \<in> set (tpages t)" for p using assms that by (auto simp: bt_core_def)
  then have same: "bt_pages (bt_release s) p = bt_pages s p" if "p \<in> set (tpages t)" for p using that by (simp add: bt_release_def)
  have "trep (bt_pages (bt_release s)) BP_INVALID_PAGE_NUM t = trep (bt_pages s) BP_INVALID_PAGE_NUM t" using same by (rule trep_cong)
  moreover have "chain (bt_pages (bt_release s)) (tleaves t) BP_INVALID_PAGE_NUM = chain (bt_pages s) (tleaves t) BP_INVALID_PAGE_NUM"
    using same tleaves_pages [of t] by (intro chain_cong) (auto simp: nxt_def)
  moreover have "dom (bt_pages (bt_release s)) = set (tpages t)" using assms out by (auto simp: bt_core_def bt_release_def dom_def split: if_splits)
  moreover have "bt_disposed (bt_release s) = []" "max_sizes (bt_release s) = max_sizes s" by (simp_all add: bt_release_def max_sizes_def)
  ultimately show "bt_core cmp ok (bt_release s) t" "bt_disposed (bt_release s) = []" "max_sizes (bt_release s) = max_sizes s"
    using assms by (simp_all add: bt_core_def bt_release_def [abs_def])
qed

context index_order
begin

lemma bt_core_plug:
  "bt_core cmp ok s (plug c t) \<longleftrightarrow> bt_fault s = (\<lambda>_. SUCCESS) \<and> bt_alloc_fault s = SUCCESS \<and> fh_root_page (bt_header s) = troot (plug c t) \<and>
     crep (bt_pages s) c (troot t) \<and> trep (bt_pages s) (cpar c) t \<and>
     distinct (cpages c @ tpages t @ bt_disposed s) \<and> dom (bt_pages s) = set (cpages c @ tpages t @ bt_disposed s) \<and>
     (\<forall>p \<in> set (cpages c @ tpages t). 2 \<le> p) \<and> cord cmp ok c \<and> tord cmp ok (clo c) (chi c) t \<and>
     chain (bt_pages s) (cll c @ tleaves t @ clr c) BP_INVALID_PAGE_NUM \<and> (\<exists>m. cbal m c \<and> tbal m t)"
proof -
  have bal: "(\<exists>n. tbal n (plug c t)) \<longleftrightarrow> (\<exists>m. cbal m c \<and> tbal m t)"
    unfolding tbal_plug by (metis add_diff_cancel_right' le_add2)
  show ?thesis
    unfolding bt_core_def bal trep_plug tord_plug tleaves_plug distinct_plug set_append set_plug by (auto simp: Un_assoc)
qed

text \<open>A subtree is replaced: what has to be shown about the new one.\<close>

lemma bt_core_replace:
  assumes core: "bt_core cmp ok s (plug c t)"
    and keep: "bt_fault s' = bt_fault s" "bt_alloc_fault s' = bt_alloc_fault s" "bt_header s' = bt_header s"
      "\<forall>x \<in> set (cpages c). bt_pages s' x = bt_pages s x" "dom (bt_pages s') = dom (bt_pages s)"
    and new: "troot t' = troot t" "trep (bt_pages s') (cpar c) t'" "set (tpages t') \<subseteq> set (tpages t)" "mset (tpages t' @ bt_disposed s') = mset (tpages t @ bt_disposed s)"
      "tord cmp ok (clo c) (chi c) t'" "\<And>m. tbal m t \<Longrightarrow> tbal m t'"
    and links: "chain (bt_pages s') (cll c @ tleaves t' @ clr c) BP_INVALID_PAGE_NUM"
  shows "bt_core cmp ok s' (plug c t')"
proof -
  note b = core [unfolded bt_core_plug]
  have "crep (bt_pages s') c (troot t')" using b keep(4) new(1) crep_cong [of c "bt_pages s'" "bt_pages s"] by simp
  moreover have "mset (cpages c @ tpages t' @ bt_disposed s') = mset (cpages c @ tpages t @ bt_disposed s)" using new(4) by simp
  then have "distinct (cpages c @ tpages t' @ bt_disposed s') = distinct (cpages c @ tpages t @ bt_disposed s)"
    "set (cpages c @ tpages t' @ bt_disposed s') = set (cpages c @ tpages t @ bt_disposed s)"
    by (rule mset_eq_imp_distinct_iff, rule mset_eq_setD)
  moreover have "\<forall>p \<in> set (cpages c @ tpages t'). 2 \<le> p" using b new(3) by auto
  moreover obtain m where "cbal m c" "tbal m t" using b by blast
  then have "\<exists>m. cbal m c \<and> tbal m t'" using new(6) by blast
  ultimately show ?thesis unfolding bt_core_plug using b keep new(1,2,5) links by (simp add: troot_plug)
qed

subsection \<open>Joining two siblings\<close>

fun tjoin :: "tree \<Rightarrow> tree \<Rightarrow> tree" where
  "tjoin (TLeaf p xs) (TLeaf q ys) = TLeaf p (xs @ ys)"
| "tjoin (TNode p ks) (TNode q ls) = TNode p (ks @ ls)"
| "tjoin t u = t"

text \<open>Siblings: the first key of an inner node is the separator in front of it.\<close>

fun siblings :: "tree \<Rightarrow> key \<Rightarrow> tree \<Rightarrow> bool" where
  "siblings (TLeaf p xs) k (TLeaf q ys) = (xs \<noteq> [] \<and> ys \<noteq> [])"
| "siblings (TNode p ks) k (TNode q ls) = (ks \<noteq> [] \<and> ls \<noteq> [] \<and> fst (hd ls) = k)"
| "siblings t k u = False"

lemma tord_join:
  assumes "siblings t k u" "tord cmp ok lo (Some k) t" "sep_ok cmp ok lo hi k" "tord cmp ok (Some k) hi u" "okb lo" "okb hi"
  shows "tord cmp ok lo hi (tjoin t u)"
proof (cases t)
  case (TLeaf p xs)
  then obtain q ys where u: "u = TLeaf q ys" using assms(1) by (cases u) auto
  then show ?thesis using assms leaf_ok_join TLeaf by simp
next
  case (TNode p ks)
  then obtain q ls where u: "u = TNode q ls" using assms(1) by (cases u) auto
  then show ?thesis using assms TNode tords_append [of ks ls lo hi] by (auto simp: hd_append)
qed

lemma tords_join:
  assumes "siblings t k u" "okb lo" "okb hi" "tords cmp ok lo hi ((k1, t) # (k, u) # Y)"
  shows "tords cmp ok lo hi ((k1, tjoin t u) # Y)"
proof (cases Y)
  case Nil
  then show ?thesis using assms tord_join [OF assms(1)] by (simp add: tords_two)
next
  case (Cons y Y')
  have h: "tord cmp ok lo (Some k) t" "sep_ok cmp ok lo hi k" "tord cmp ok (Some k) (Some (fst y)) u" "sep_ok cmp ok (Some k) hi (fst y)"
    "tords cmp ok (Some (fst y)) hi Y" using assms(4) Cons by (simp_all add: tords_two)
  have s: "sep_ok cmp ok lo (Some (fst y)) k" "sep_ok cmp ok lo hi (fst y)" using sep_swap [OF assms(2,3)] h(2,4) by blast+
  have "okb (Some (fst y))" using sep_okD [OF h(4)] by simp
  then show ?thesis using tord_join [OF assms(1) h(1) s(1) h(3) assms(2)] s(2) h(5) Cons by (simp add: tords_two)
qed

text \<open>The other direction: a node is cut in two, the first key of the second part becomes the separator.\<close>

fun cut_at :: "tree \<Rightarrow> tree \<Rightarrow> key" where
  "cut_at (TLeaf p xs) (TLeaf q ys) = fst (hd ys)"
| "cut_at (TNode p ks) (TNode q ls) = fst (hd ls)"
| "cut_at t u = []"

lemma tord_cut:
  assumes "siblings t (cut_at t u) u" "tord cmp ok lo hi (tjoin t u)" "okb lo" "okb hi"
  shows "tord cmp ok lo (Some (cut_at t u)) t" "sep_ok cmp ok lo hi (cut_at t u)" "tord cmp ok (Some (cut_at t u)) hi u"
proof -
  have "tord cmp ok lo (Some (cut_at t u)) t \<and> sep_ok cmp ok lo hi (cut_at t u) \<and> tord cmp ok (Some (cut_at t u)) hi u"
  proof (cases t)
    case (TLeaf p xs)
    then obtain q ys where u: "u = TLeaf q ys" using assms(1) by (cases u) auto
    then show ?thesis using assms leaf_ok_append [of lo hi xs ys] TLeaf by simp
  next
    case (TNode p ks)
    then obtain q ls where u: "u = TNode q ls" using assms(1) by (cases u) auto
    then show ?thesis using assms TNode tords_append [of ks ls lo hi] by (auto simp: hd_append)
  qed
  then show "tord cmp ok lo (Some (cut_at t u)) t" "sep_ok cmp ok lo hi (cut_at t u)" "tord cmp ok (Some (cut_at t u)) hi u" by blast+
qed

lemma tords_cut:
  assumes "siblings t (cut_at t u) u" "okb lo" "okb hi" "tords cmp ok lo hi ((k1, tjoin t u) # Y)"
  shows "tords cmp ok lo hi ((k1, t) # (cut_at t u, u) # Y)"
proof (cases Y)
  case Nil
  then show ?thesis using assms tord_cut [OF assms(1)] by (simp add: tords_two)
next
  case (Cons y Y')
  let ?k = "cut_at t u"
  have h: "tord cmp ok lo (Some (fst y)) (tjoin t u)" "sep_ok cmp ok lo hi (fst y)" "tords cmp ok (Some (fst y)) hi Y"
    using assms(4) Cons by (simp_all add: tords_two)
  have "okb (Some (fst y))" using sep_okD [OF h(2)] by simp
  note c = tord_cut [OF assms(1) h(1) assms(2) this]
  have "sep_ok cmp ok lo hi ?k" "sep_ok cmp ok (Some ?k) hi (fst y)" using sep_swap [OF assms(2,3)] h(2) c(2) by blast+
  then show ?thesis using c h(3) Cons by (simp add: tords_two)
qed

text \<open>Within the children of an inner node.\<close>

lemma tord_children:
  assumes "\<And>lo. okb lo \<Longrightarrow> tords cmp ok lo hi (a # A) \<Longrightarrow> tords cmp ok lo hi (b # B)" "fst a = fst b" "okb lo" "okb hi"
    "tord cmp ok lo hi (TNode p (X @ a # A))"
  shows "tord cmp ok lo hi (TNode p (X @ b # B))"
proof (cases X)
  case Nil
  then show ?thesis using assms by simp
next
  case (Cons x X')
  then have "tords cmp ok lo (Some (fst a)) X" "sep_ok cmp ok lo hi (fst a)" "tords cmp ok (Some (fst a)) hi (a # A)"
    using assms(3-5) tords_append [of X "a # A" lo hi] by simp_all
  moreover from this have "tords cmp ok (Some (fst a)) hi (b # B)" using assms(1) sep_okD by simp
  ultimately show ?thesis using assms(2-5) tords_append [of X "b # B" lo hi] Cons by simp
qed

lemma tord_node_join:
  assumes "siblings t k u" "okb lo" "okb hi" "tord cmp ok lo hi (TNode p (X @ (k1, t) # (k, u) # Y))"
  shows "tord cmp ok lo hi (TNode p (X @ (k1, tjoin t u) # Y))"
  by (rule tord_children [OF _ _ assms(2-4)]) (auto intro: tords_join [OF assms(1) _ assms(3)])

lemma tord_node_cut:
  assumes "siblings t k u" "siblings t' (cut_at t' u') u'" "tjoin t u = tjoin t' u'" "okb lo" "okb hi" "tord cmp ok lo hi (TNode p (X @ (k1, t) # (k, u) # Y))"
  shows "tord cmp ok lo hi (TNode p (X @ (k1, t') # (cut_at t' u', u') # Y))"
proof -
  have "tord cmp ok lo hi (TNode p (X @ (k1, tjoin t' u') # Y))" using tord_node_join [OF assms(1,4-6)] assms(3) by simp
  then show ?thesis by (rule tord_children [OF _ _ assms(4,5), rotated 2]) (auto intro: tords_cut [OF assms(2) _ assms(5)])
qed

subsection \<open>Replacing two adjacent children\<close>

lemma pair_facts:
  assumes "bt_core cmp ok s (plug c (TNode p (X @ (k1, t) # (k, u) # Y)))"
  shows "bt_pages s p = Some (InternalNode \<lparr>in_parent = cpar c, in_array = child_ptrs (X @ (k1, t) # (k, u) # Y)\<rparr>)"
    "\<And>q. bt_fault s q = SUCCESS" "trep (bt_pages s) p t" "trep (bt_pages s) p u" "\<And>kt. kt \<in> set X \<union> set Y \<Longrightarrow> trep (bt_pages s) p (snd kt)"
    "distinct (p # cpages c @ kts_pages X @ tpages t @ tpages u @ kts_pages Y @ bt_disposed s)"
    "okb (clo c)" "okb (chi c)" "tord cmp ok (clo c) (chi c) (TNode p (X @ (k1, t) # (k, u) # Y))" "2 \<le> p"
  using assms unfolding bt_core_plug by (auto dest: cord_okb)

lemma distinct_parts:
  assumes "distinct (p # A @ B @ C @ D @ E @ F)"
  shows "p \<notin> set A" "p \<notin> set B" "p \<notin> set C" "p \<notin> set D" "p \<notin> set E" "set A \<inter> set C = {}" "set A \<inter> set D = {}"
    "set B \<inter> set C = {}" "set B \<inter> set D = {}" "set E \<inter> set C = {}" "set E \<inter> set D = {}" "set C \<inter> set D = {}" "distinct C" "distinct D"
  using assms by auto

lemma pair_siblings:
  assumes "bt_core cmp ok s (plug c (TNode p (X @ (k1, t) # (k, u) # Y)))"
  shows "siblings t k u"
proof -
  obtain m where bal: "tbal m t" "tbal m u" using assms unfolding bt_core_plug by auto
  note f = pair_facts [OF assms]
  have "tords cmp ok (clo c) (chi c) (X @ (k1, t) # (k, u) # Y)" using f(9) by simp
  then obtain lo where "tords cmp ok lo (chi c) ((k1, t) # (k, u) # Y)"
    using tords_append [of X "(k1, t) # (k, u) # Y" "clo c" "chi c"] f(7,8) by (cases X) auto
  then obtain hi where "tord cmp ok lo (Some k) t" "tord cmp ok (Some k) hi u" by (cases Y) (auto simp: tords_two)
  then show ?thesis using bal by (cases t; cases u) (auto simp: leaf_ok_def)
qed

lemma pair_replace:
  assumes core: "bt_core cmp ok s (plug c (TNode p (X @ (k1, t) # (k, u) # Y)))"
    and keep: "bt_fault s' = bt_fault s" "bt_alloc_fault s' = bt_alloc_fault s" "bt_header s' = bt_header s" "bt_disposed s' = bt_disposed s @ D"
      "\<And>x. x \<noteq> p \<Longrightarrow> x \<notin> set (tpages t) \<Longrightarrow> x \<notin> set (tpages u) \<Longrightarrow> bt_pages s' x = bt_pages s x" "dom (bt_pages s') = dom (bt_pages s)"
    and new: "bt_pages s' p = Some (InternalNode \<lparr>in_parent = cpar c, in_array = child_ptrs (X @ N @ Y)\<rparr>)"
      "\<And>kt. kt \<in> set N \<Longrightarrow> trep (bt_pages s') p (snd kt)" "mset (kts_pages N @ D) = mset (tpages t @ tpages u)"
      "tord cmp ok (clo c) (chi c) (TNode p (X @ N @ Y))" "\<And>m kt. tbal m t \<Longrightarrow> tbal m u \<Longrightarrow> kt \<in> set N \<Longrightarrow> tbal m (snd kt)"
    and links: "chain (bt_pages s') (cll c @ tleaves (TNode p (X @ N @ Y)) @ clr c) BP_INVALID_PAGE_NUM"
  shows "bt_core cmp ok s' (plug c (TNode p (X @ N @ Y)))"
proof (rule bt_core_replace [OF core keep(1-3) _ keep(6)])
  note f = pair_facts [OF core]
  have sub: "set (kts_pages N) \<subseteq> set (tpages t) \<union> set (tpages u)" using new(3) by (metis mset_eq_setD set_append sup_ge1)
  show "\<forall>x \<in> set (cpages c). bt_pages s' x = bt_pages s x"
  proof
    fix x assume "x \<in> set (cpages c)"
    then have "x \<noteq> p" "x \<notin> set (tpages t)" "x \<notin> set (tpages u)" using distinct_parts(1,6,7) [OF f(6)] by blast+
    then show "bt_pages s' x = bt_pages s x" by (rule keep(5))
  qed
  have "trep (bt_pages s') p (snd kt) = trep (bt_pages s) p (snd kt)" if "kt \<in> set X \<union> set Y" for kt
  proof (rule trep_cong, rule keep(5))
    fix x assume "x \<in> set (tpages (snd kt))"
    then have "x \<in> set (kts_pages X) \<union> set (kts_pages Y)" using that by auto
    then show "x \<noteq> p" "x \<notin> set (tpages t)" "x \<notin> set (tpages u)" using distinct_parts(2,5,8-11) [OF f(6)] by blast+
  qed
  then show "trep (bt_pages s') (cpar c) (TNode p (X @ N @ Y))" using new(1,2) f(5) by auto
  show "set (tpages (TNode p (X @ N @ Y))) \<subseteq> set (tpages (TNode p (X @ (k1, t) # (k, u) # Y)))" using sub by auto
  show "mset (tpages (TNode p (X @ N @ Y)) @ bt_disposed s') = mset (tpages (TNode p (X @ (k1, t) # (k, u) # Y)) @ bt_disposed s)"
    using new(3) keep(4) by (simp add: ac_simps)
  show "tbal m (TNode p (X @ N @ Y))" if "tbal m (TNode p (X @ (k1, t) # (k, u) # Y))" for m using that new(5) by auto
qed (use new(4) links in simp_all)

subsection \<open>Merging\<close>

lemma coalesce_args:
  assumes "index = 0 \<and> X = [] \<and> pg = troot t \<and> nb = troot u \<or> index = int (Suc (length X)) \<and> pg = troot u \<and> nb = troot t"
  shows "(if index = 0 then (pg, nb, index + 1) else (nb, pg, index)) = (troot t, troot u, int (Suc (length X)))"
  using assms by auto

lemma remove_child:
  "internal_remove (int (Suc (length X))) \<lparr>in_parent = par, in_array = child_ptrs (X @ (k1, t) # (k, u) # Y)\<rparr> =
   Some \<lparr>in_parent = par, in_array = child_ptrs (X @ (k1, t) # Y)\<rparr>"
  by (simp add: internal_remove_def nat_add_distrib)

lemma chain_merge:
  assumes "chain ps (A @ a # b # B) e" "\<And>x. x \<noteq> a \<Longrightarrow> x \<noteq> b \<Longrightarrow> nxt ps' x = nxt ps x" "nxt ps' a = nxt ps b" "a \<notin> set A" "b \<notin> set A" "a \<notin> set B" "b \<notin> set B"
  shows "chain ps' (A @ a # B) e"
proof -
  have "chain ps' A a = chain ps A a" "chain ps' B e = chain ps B e" using assms(2,4-7) by (intro chain_cong; metis)+
  then show ?thesis using assms(1,3) by (simp add: chain_append)
qed

lemma coalesce_leaf:
  assumes core: "bt_core cmp ok s (plug c (TNode p (X @ (k1, TLeaf a xs) # (k, TLeaf b ys) # Y)))"
    and args: "index = 0 \<and> X = [] \<and> pg = a \<and> nb = b \<or> index = int (Suc (length X)) \<and> pg = b \<and> nb = a"
  shows "\<exists>s'. coalesce True nb pg p index s = Some (SUCCESS, s') \<and> bt_core cmp ok s' (plug c (TNode p (X @ (k1, TLeaf a (xs @ ys)) # Y))) \<and>
    bt_header s' = bt_header s"
proof -
  note f = pair_facts [OF core]
  obtain na nb' where n: "bt_pages s a = Some (LeafNode \<lparr>lf_parent = p, lf_next_brother = na, lf_array = xs\<rparr>)"
    "bt_pages s b = Some (LeafNode \<lparr>lf_parent = p, lf_next_brother = nb', lf_array = ys\<rparr>)" using f(3,4) by auto
  note apart = distinct_parts [OF f(6), simplified]
  have ne: "a \<noteq> b" "a \<noteq> p" "b \<noteq> p" using apart by auto
  define ps where "ps = (bt_pages s)(p \<mapsto> InternalNode \<lparr>in_parent = cpar c, in_array = child_ptrs (X @ (k1, TLeaf a (xs @ ys)) # Y)\<rparr>,
    b \<mapsto> LeafNode \<lparr>lf_parent = p, lf_next_brother = nb', lf_array = []\<rparr>, a \<mapsto> LeafNode \<lparr>lf_parent = p, lf_next_brother = nb', lf_array = xs @ ys\<rparr>)"
  let ?s = "bt_dispose b (s\<lparr>bt_pages := ps\<rparr>)"
  have sel: "(if index = 0 then (pg, nb, index + 1) else (nb, pg, index)) = (a, b, int (Suc (length X)))"
    using coalesce_args [of index X pg "TLeaf a xs" nb "TLeaf b ys"] args by simp
  have run: "coalesce True nb pg p index s = Some (SUCCESS, ?s)"
    unfolding coalesce_def sel using f(1) n ne remove_child [of X "cpar c" k1 "TLeaf a xs" k "TLeaf b ys" Y]
    by (simp add: bt_internal_def move_to_def bt_leaf_def leaf_move_to_def bt_set_def ps_def)
  have lv: "cll c @ tleaves (TNode p (X @ (k1, TLeaf a xs) # (k, TLeaf b ys) # Y)) @ clr c =
      (cll c @ concat (map (\<lambda>kt. tleaves (snd kt)) X)) @ a # b # concat (map (\<lambda>kt. tleaves (snd kt)) Y) @ clr c"
    and lv': "cll c @ tleaves (TNode p (X @ [(k1, TLeaf a (xs @ ys))] @ Y)) @ clr c =
      (cll c @ concat (map (\<lambda>kt. tleaves (snd kt)) X)) @ a # concat (map (\<lambda>kt. tleaves (snd kt)) Y) @ clr c" by simp_all
  have old: "chain (bt_pages s) (cll c @ tleaves (TNode p (X @ (k1, TLeaf a xs) # (k, TLeaf b ys) # Y)) @ clr c) BP_INVALID_PAGE_NUM"
    using core unfolding bt_core_plug by blast
  have leaves: "set (concat (map (\<lambda>kt. tleaves (snd kt)) Z)) \<subseteq> set (kts_pages Z)" for Z :: "(key \<times> tree) list" using tleaves_pages by auto
  have links: "chain ps (cll c @ tleaves (TNode p (X @ [(k1, TLeaf a (xs @ ys))] @ Y)) @ clr c) BP_INVALID_PAGE_NUM"
    unfolding lv'
  proof (rule chain_merge [OF old [unfolded lv]])
    show "nxt ps x = nxt (bt_pages s) x" if "x \<noteq> a" "x \<noteq> b" for x using that f(1) by (auto simp: nxt_def ps_def)
    show "nxt ps a = nxt (bt_pages s) b" using n(2) by (simp add: nxt_def ps_def)
    show "a \<notin> set (cll c @ concat (map (\<lambda>kt. tleaves (snd kt)) X))" "b \<notin> set (cll c @ concat (map (\<lambda>kt. tleaves (snd kt)) X))"
      "a \<notin> set (concat (map (\<lambda>kt. tleaves (snd kt)) Y) @ clr c)" "b \<notin> set (concat (map (\<lambda>kt. tleaves (snd kt)) Y) @ clr c)"
      using distinct_parts(6-11) [OF f(6)] cleaves_pages [of c] leaves [of X] leaves [of Y] by auto
  qed
  have "bt_core cmp ok ?s (plug c (TNode p (X @ [(k1, TLeaf a (xs @ ys))] @ Y)))"
  proof (rule pair_replace [OF core, where D = "[b]"])
    show "tord cmp ok (clo c) (chi c) (TNode p (X @ [(k1, TLeaf a (xs @ ys))] @ Y))"
      using tord_node_join [OF pair_siblings [OF core] f(7-9)] by simp
  qed (use f(1) n ne links in \<open>auto simp: bt_dispose_def ps_def\<close>)
  then show ?thesis using run by (simp add: bt_dispose_def)
qed

text \<open>
  Two inner siblings whose children are divided anew: some children of one have the other as their parent now.
\<close>

lemma inner_pair_replace:
  assumes core: "bt_core cmp ok s (plug c (TNode p (X @ (k1, TNode a ks) # (k, TNode b ls) # Y)))"
    and keep: "bt_fault s' = bt_fault s" "bt_alloc_fault s' = bt_alloc_fault s" "bt_header s' = bt_header s" "bt_disposed s' = bt_disposed s"
      "\<And>x. x \<noteq> p \<Longrightarrow> x \<notin> set (tpages (TNode a ks)) \<Longrightarrow> x \<notin> set (tpages (TNode b ls)) \<Longrightarrow> bt_pages s' x = bt_pages s x"
      "dom (bt_pages s') = dom (bt_pages s)" "nxt (bt_pages s') = nxt (bt_pages s)"
    and new: "A @ B = ks @ ls" "A \<noteq> []" "B \<noteq> []"
      "bt_pages s' p = Some (InternalNode \<lparr>in_parent = cpar c, in_array = child_ptrs (X @ (k1, TNode a A) # (fst (hd B), TNode b B) # Y)\<rparr>)"
      "bt_pages s' a = Some (InternalNode \<lparr>in_parent = p, in_array = child_ptrs A\<rparr>)" "bt_pages s' b = Some (InternalNode \<lparr>in_parent = p, in_array = child_ptrs B\<rparr>)"
      "\<And>kt. kt \<in> set A \<Longrightarrow> trep (bt_pages s') a (snd kt)" "\<And>kt. kt \<in> set B \<Longrightarrow> trep (bt_pages s') b (snd kt)"
  shows "bt_core cmp ok s' (plug c (TNode p (X @ (k1, TNode a A) # (fst (hd B), TNode b B) # Y)))"
proof -
  let ?N = "[(k1, TNode a A), (fst (hd B), TNode b B)]"
  note f = pair_facts [OF core]
  have map: "concat (map g A) @ concat (map g B) = concat (map g ks) @ concat (map g ls)" for g :: "key \<times> tree \<Rightarrow> int list"
    using arg_cong [OF new(1), of "\<lambda>xs. concat (map g xs)"] by simp
  have sets: "set A \<union> set B = set ks \<union> set ls" using arg_cong [OF new(1), of set] by simp
  have old: "chain (bt_pages s) (cll c @ tleaves (TNode p (X @ (k1, TNode a ks) # (k, TNode b ls) # Y)) @ clr c) BP_INVALID_PAGE_NUM"
    using core unfolding bt_core_plug by blast
  have "tleaves (TNode p (X @ ?N @ Y)) = tleaves (TNode p (X @ (k1, TNode a ks) # (k, TNode b ls) # Y))"
    using map [of "\<lambda>kt. tleaves (snd kt)"] by (simp add: append_assoc [symmetric] del: append_assoc)
  then have links: "chain (bt_pages s') (cll c @ tleaves (TNode p (X @ ?N @ Y)) @ clr c) BP_INVALID_PAGE_NUM"
    using old chain_cong [of _ "bt_pages s'" "bt_pages s"] keep(7) by metis
  have "bt_core cmp ok s' (plug c (TNode p (X @ ?N @ Y)))"
  proof (rule pair_replace [OF core keep(1-3) _ keep(5,6) _ _ _ _ _ links, where D = "[]"])
    show "tord cmp ok (clo c) (chi c) (TNode p (X @ ?N @ Y))"
      using tord_node_cut [OF pair_siblings [OF core], of "TNode a A" "TNode b B" "clo c" "chi c" p X k1 Y] new(1-3) f(7-9) by simp
    show "mset (kts_pages ?N @ []) = mset (tpages (TNode a ks) @ tpages (TNode b ls))"
      using arg_cong [OF map [of "\<lambda>kt. tpages (snd kt)"], of mset] by simp
    show "tbal m (snd kt)" if "tbal m (TNode a ks)" "tbal m (TNode b ls)" "kt \<in> set ?N" for m kt
    proof -
      have "\<forall>x \<in> set A \<union> set B. tbal (m - 1) (snd x)" unfolding sets using that(1,2) by auto
      then show ?thesis using that by auto
    qed
  qed (use keep(4) new(4-8) in auto)
  then show ?thesis by simp
qed

lemma coalesce_inner:
  assumes core: "bt_core cmp ok s (plug c (TNode p (X @ (k1, TNode a ks) # (k, TNode b ls) # Y)))"
    and args: "index = 0 \<and> X = [] \<and> pg = a \<and> nb = b \<or> index = int (Suc (length X)) \<and> pg = b \<and> nb = a"
  shows "\<exists>s'. coalesce False nb pg p index s = Some (SUCCESS, s') \<and> bt_core cmp ok s' (plug c (TNode p (X @ (k1, TNode a (ks @ ls)) # Y))) \<and>
    bt_header s' = bt_header s"
proof -
  note f = pair_facts [OF core]
  let ?par = "InternalNode \<lparr>in_parent = cpar c, in_array = child_ptrs (X @ (k1, TNode a ks) # Y)\<rparr>"
  have n: "bt_pages s a = Some (InternalNode \<lparr>in_parent = p, in_array = child_ptrs ks\<rparr>)" "bt_pages s b = Some (InternalNode \<lparr>in_parent = p, in_array = child_ptrs ls\<rparr>)"
    "\<forall>kt \<in> set ks. trep (bt_pages s) a (snd kt)" "\<forall>kt \<in> set ls. trep (bt_pages s) b (snd kt)" using f(3,4) by auto
  have ne: "a \<noteq> b" "a \<noteq> p" "b \<noteq> p" "p \<notin> set (kts_pages ls)" "a \<notin> set (kts_pages ls)" "b \<notin> set (kts_pages ls)" "p \<notin> set (kts_pages ks)" "a \<notin> set (kts_pages ks)"
    "b \<notin> set (kts_pages ks)" "distinct (kts_pages ls)" "set (kts_pages ks) \<inter> set (kts_pages ls) = {}"
    using distinct_parts(3,4,12-14) [OF f(6)] by simp_all
  let ?s1 = "bt_set p ?par s"
  have "\<forall>kt \<in> set ls. trep (bt_pages ?s1) b (snd kt)" using n(4) ne(4) by simp
  moreover have "bt_fault ?s1 = (\<lambda>_. SUCCESS)" using f(2) by (simp add: fun_eq_iff)
  ultimately obtain ps D where ps: "adopt_children a (child_ptrs ls) ?s1 = Some (SUCCESS, ?s1\<lparr>bt_pages := ps, bt_dirty := D\<rparr>)" "\<forall>kt \<in> set ls. trep ps a (snd kt)"
    "\<forall>x. x \<notin> set (kts_pages ls) \<longrightarrow> ps x = bt_pages ?s1 x" "nxt ps = nxt (bt_pages ?s1)" "dom ps = dom (bt_pages ?s1)"
    using adopt_children_correct [of ls ?s1 b a] ne(10) by blast
  define ps' where "ps' = ps(a \<mapsto> InternalNode \<lparr>in_parent = p, in_array = child_ptrs (ks @ ls)\<rparr>, b \<mapsto> InternalNode \<lparr>in_parent = p, in_array = []\<rparr>)"
  let ?s = "bt_dispose b (s\<lparr>bt_pages := ps', bt_dirty := D\<rparr>)"
  have at: "ps a = bt_pages s a" "ps b = bt_pages s b" "ps p = Some ?par" using ps(3) ne by auto
  have sel: "(if index = 0 then (pg, nb, index + 1) else (nb, pg, index)) = (a, b, int (Suc (length X)))"
    using coalesce_args [of index X pg "TNode a ks" nb "TNode b ls"] args by simp
  have run: "coalesce False nb pg p index s = Some (SUCCESS, ?s)"
    unfolding coalesce_def sel using f(1) n(1,2) ne(1-3) at ps(1) remove_child [of X "cpar c" k1 "TNode a ks" k "TNode b ls" Y]
    by (simp add: bt_internal_def move_to_def internal_move_to_def internal_copy_from_def bt_set_def bt_mark_def ps'_def)
  have other: "ps' x = bt_pages s x" if "x \<noteq> p" "x \<noteq> a" "x \<noteq> b" "x \<notin> set (kts_pages ls)" for x using that ps(3) by (simp add: ps'_def)
  have ch: "trep ps' a (snd kt)" if "kt \<in> set (ks @ ls)" for kt
  proof (cases "kt \<in> set ks")
    case True
    then have "set (tpages (snd kt)) \<subseteq> set (kts_pages ks)" by auto
    then have "x \<noteq> p \<and> x \<noteq> a \<and> x \<noteq> b \<and> x \<notin> set (kts_pages ls)" if "x \<in> set (tpages (snd kt))" for x using that ne(7-9,11) by blast
    then have "trep ps' a (snd kt) = trep (bt_pages s) a (snd kt)" by (intro trep_cong other) blast+
    then show ?thesis using n(3) True by simp
  next
    case False
    then have k: "kt \<in> set ls" using that by simp
    then have "set (tpages (snd kt)) \<subseteq> set (kts_pages ls)" by auto
    then have "trep ps' a (snd kt) = trep ps a (snd kt)" using ne(5,6) by (intro trep_cong) (auto simp: ps'_def)
    then show ?thesis using ps(2) k by simp
  qed
  have dom: "dom ps' = dom (bt_pages s)" using ps(5) f(1) n(1,2) by (auto simp: ps'_def)
  have nx: "nxt ps' = nxt (bt_pages s)" using ps(4) at n(1,2) f(1) ne(1) by (simp add: ps'_def)
  have old: "chain (bt_pages s) (cll c @ tleaves (TNode p (X @ (k1, TNode a ks) # (k, TNode b ls) # Y)) @ clr c) BP_INVALID_PAGE_NUM"
    using core unfolding bt_core_plug by blast
  have "tleaves (TNode p (X @ [(k1, TNode a (ks @ ls))] @ Y)) = tleaves (TNode p (X @ (k1, TNode a ks) # (k, TNode b ls) # Y))" by simp
  then have links: "chain ps' (cll c @ tleaves (TNode p (X @ [(k1, TNode a (ks @ ls))] @ Y)) @ clr c) BP_INVALID_PAGE_NUM"
    using old chain_cong [of _ ps' "bt_pages s"] nx by metis
  have "bt_core cmp ok ?s (plug c (TNode p (X @ [(k1, TNode a (ks @ ls))] @ Y)))"
  proof (rule pair_replace [OF core, where D = "[b]"])
    show "tord cmp ok (clo c) (chi c) (TNode p (X @ [(k1, TNode a (ks @ ls))] @ Y))"
      using tord_node_join [OF pair_siblings [OF core] f(7-9)] by simp
    show "bt_pages ?s x = bt_pages s x" if "x \<noteq> p" "x \<notin> set (tpages (TNode a ks))" "x \<notin> set (tpages (TNode b ls))" for x
      using that other [of x] by (simp add: bt_dispose_def)
    show "trep (bt_pages ?s) p (snd kt)" if "kt \<in> set [(k1, TNode a (ks @ ls))]" for kt
      using that ch ne(1) by (auto simp: bt_dispose_def ps'_def)
  qed (use dom links at ne in \<open>auto simp: bt_dispose_def ps'_def\<close>)
  then show ?thesis using run by (simp add: bt_dispose_def)
qed

subsection \<open>Redistribution\<close>

lemma set_child_key:
  assumes "troot t' = troot t" "troot u' = troot u"
  shows "internal_set_key_at (int (Suc (length X))) key \<lparr>in_parent = par, in_array = child_ptrs (X @ (k1, t) # (k, u) # Y)\<rparr> =
    Some \<lparr>in_parent = par, in_array = child_ptrs (X @ (k1, t') # (key, u') # Y)\<rparr>"
  using assms by (simp add: internal_set_key_at_def nat_add_distrib nth_append list_update_append)

lemma two_or_more:
  assumes "2 \<le> length xs"
  shows "butlast xs \<noteq> []" "tl xs \<noteq> []" "zs @ hd xs # tl xs = zs @ xs" "(zs @ [hd xs]) @ tl xs = zs @ xs" "butlast xs @ last xs # zs = xs @ zs"
proof -
  have ne: "xs \<noteq> []" and l: "0 < length (butlast xs)" "0 < length (tl xs)" using assms by auto
  from l show "butlast xs \<noteq> []" "tl xs \<noteq> []" by force+
  from ne show "zs @ hd xs # tl xs = zs @ xs" "(zs @ [hd xs]) @ tl xs = zs @ xs" by simp_all
  have "butlast xs @ [last xs] = xs" using ne by simp
  then show "butlast xs @ last xs # zs = xs @ zs" by (metis append.assoc append_Cons append_Nil)
qed

lemma redistribute_leaf:
  assumes core: "bt_core cmp ok s (plug c (TNode p (X @ (k1, TLeaf a xs) # (k, TLeaf b ys) # Y)))"
    and args: "index = 0 \<and> X = [] \<and> pg = a \<and> nb = b \<and> A = xs @ [hd ys] \<and> B = tl ys \<and> 2 \<le> length ys \<or>
      index = int (Suc (length X)) \<and> pg = b \<and> nb = a \<and> A = butlast xs \<and> B = last xs # ys \<and> 2 \<le> length xs"
  shows "\<exists>s'. redistribute True nb pg p index s = Some (SUCCESS, s') \<and>
    bt_core cmp ok s' (plug c (TNode p (X @ (k1, TLeaf a A) # (fst (hd B), TLeaf b B) # Y))) \<and> bt_header s' = bt_header s"
proof -
  note f = pair_facts [OF core]
  let ?N = "[(k1, TLeaf a A), (fst (hd B), TLeaf b B)]"
  obtain na nb' where n: "bt_pages s a = Some (LeafNode \<lparr>lf_parent = p, lf_next_brother = na, lf_array = xs\<rparr>)"
    "bt_pages s b = Some (LeafNode \<lparr>lf_parent = p, lf_next_brother = nb', lf_array = ys\<rparr>)" using f(3,4) by auto
  have ne: "a \<noteq> b" "a \<noteq> p" "b \<noteq> p" using distinct_parts(3,4,12) [OF f(6)] by auto
  have AB: "A @ B = xs @ ys" "A \<noteq> []" "B \<noteq> []"
    using args two_or_more(1,5) [of xs] two_or_more(2,4) [of ys] by (elim disjE conjE; metis list.distinct(1) snoc_eq_iff_butlast)+
  define pc where "pc = (bt_pages s)(a \<mapsto> LeafNode \<lparr>lf_parent = p, lf_next_brother = na, lf_array = A\<rparr>,
    b \<mapsto> LeafNode \<lparr>lf_parent = p, lf_next_brother = nb', lf_array = B\<rparr>)"
  define ps where "ps = pc(p \<mapsto> InternalNode \<lparr>in_parent = cpar c, in_array = child_ptrs (X @ ?N @ Y)\<rparr>)"
  let ?s = "bt_mark p (bt_mark pg (bt_mark nb (s\<lparr>bt_pages := ps\<rparr>)))"
  have key: "internal_set_key_at (int (Suc (length X))) (fst (hd B)) \<lparr>in_parent = cpar c, in_array = child_ptrs (X @ (k1, TLeaf a xs) # (k, TLeaf b ys) # Y)\<rparr> =
      Some \<lparr>in_parent = cpar c, in_array = child_ptrs (X @ ?N @ Y)\<rparr>"
    using set_child_key [of "TLeaf a A" "TLeaf a xs" "TLeaf b B" "TLeaf b ys"] by simp
  have run: "redistribute True nb pg p index s = Some (SUCCESS, ?s)"
    using args
  proof (elim disjE conjE)
    assume h: "index = 0" "X = []" "pg = a" "nb = b" "A = xs @ [hd ys]" "B = tl ys" "2 \<le> length ys"
    have "move_first_to_end True b a s = Some (SUCCESS, s\<lparr>bt_pages := pc\<rparr>)"
      using n ne h(5-7) f(1) by (cases ys) (auto simp: move_first_to_end_def bt_leaf_def leaf_move_first_to_end_def leaf_append_def bt_set_def pc_def fun_upd_twist)
    then show ?thesis using h(1-4) AB(3) ne key f(1)
      by (simp add: redistribute_def leaf_key_at_def set_key_at_def bt_internal_def bt_set_def bt_mark_def ps_def pc_def hd_conv_nth)
  next
    assume h: "index = int (Suc (length X))" "pg = b" "nb = a" "A = butlast xs" "B = last xs # ys" "2 \<le> length xs"
    have "move_last_to_front True a b s = Some (SUCCESS, s\<lparr>bt_pages := pc\<rparr>)"
      using n ne h(4-6) f(1) by (auto simp: move_last_to_front_def bt_leaf_def leaf_move_last_to_front_def leaf_preappend_def bt_set_def pc_def fun_upd_twist)
    then show ?thesis using h(1-3) AB(3) ne key f(1)
      by (simp add: redistribute_def leaf_key_at_def set_key_at_def bt_internal_def bt_set_def bt_mark_def ps_def pc_def hd_conv_nth)
  qed
  have nx: "nxt ps = nxt (bt_pages s)" using n f(1) ne by (auto simp: nxt_def ps_def pc_def fun_eq_iff)
  have old: "chain (bt_pages s) (cll c @ tleaves (TNode p (X @ (k1, TLeaf a xs) # (k, TLeaf b ys) # Y)) @ clr c) BP_INVALID_PAGE_NUM"
    using core unfolding bt_core_plug by blast
  have "tleaves (TNode p (X @ ?N @ Y)) = tleaves (TNode p (X @ (k1, TLeaf a xs) # (k, TLeaf b ys) # Y))" by simp
  then have links: "chain ps (cll c @ tleaves (TNode p (X @ ?N @ Y)) @ clr c) BP_INVALID_PAGE_NUM"
    using old chain_cong [of _ ps "bt_pages s"] nx by metis
  have "bt_core cmp ok ?s (plug c (TNode p (X @ ?N @ Y)))"
  proof (rule pair_replace [OF core, where D = "[]"])
    show "tord cmp ok (clo c) (chi c) (TNode p (X @ ?N @ Y))"
      using tord_node_cut [OF pair_siblings [OF core], of "TLeaf a A" "TLeaf b B" "clo c" "chi c" p X k1 Y] AB f(7-9) by simp
  qed (use f(1) n ne links in \<open>auto simp: ps_def pc_def\<close>)
  then show ?thesis using run by simp
qed

text \<open>One child moves from an inner node to its sibling.\<close>

lemma inner_move:
  assumes core: "bt_core cmp ok s (plug c (TNode p (X @ (k1, TNode a ks) # (k, TNode b ls) # Y)))"
    and move: "ks = P \<and> ls = kt # Q \<and> A = P @ [kt] \<and> B = Q \<and> dst = a \<or> ks = P @ [kt] \<and> ls = Q \<and> A = P \<and> B = kt # Q \<and> dst = b" "A \<noteq> []" "B \<noteq> []"
    and n: "bt_pages s (troot (snd kt)) = Some n"
    and ps: "ps = (bt_pages s)(troot (snd kt) \<mapsto> nd_set_parent dst n, a \<mapsto> InternalNode \<lparr>in_parent = p, in_array = child_ptrs A\<rparr>,
      b \<mapsto> InternalNode \<lparr>in_parent = p, in_array = child_ptrs B\<rparr>,
      p \<mapsto> InternalNode \<lparr>in_parent = cpar c, in_array = child_ptrs (X @ (k1, TNode a A) # (fst (hd B), TNode b B) # Y)\<rparr>)"
  shows "bt_core cmp ok (s\<lparr>bt_pages := ps\<rparr>) (plug c (TNode p (X @ (k1, TNode a A) # (fst (hd B), TNode b B) # Y)))"
proof -
  note f = pair_facts [OF core]
  have pg: "bt_pages s a = Some (InternalNode \<lparr>in_parent = p, in_array = child_ptrs ks\<rparr>)" "bt_pages s b = Some (InternalNode \<lparr>in_parent = p, in_array = child_ptrs ls\<rparr>)"
    "\<forall>x \<in> set ks. trep (bt_pages s) a (snd x)" "\<forall>x \<in> set ls. trep (bt_pages s) b (snd x)" using f(3,4) by auto
  have all: "ks @ ls = P @ kt # Q" using move(1) by auto
  have pages: "kts_pages ks @ kts_pages ls = kts_pages P @ tpages (snd kt) @ kts_pages Q" using arg_cong [OF all, of kts_pages] by simp
  have d: "a \<noteq> b" "a \<noteq> p" "b \<noteq> p" "a \<notin> set (kts_pages ks @ kts_pages ls)" "b \<notin> set (kts_pages ks @ kts_pages ls)" "p \<notin> set (kts_pages ks @ kts_pages ls)"
    "distinct (kts_pages ks @ kts_pages ls)" using distinct_parts(3,4,12-14) [OF f(6)] by simp_all
  note d = d [unfolded pages]
  let ?r = "troot (snd kt)"
  have r: "?r \<in> set (tpages (snd kt))" by simp
  have ne: "a \<noteq> ?r" "b \<noteq> ?r" "p \<noteq> ?r" "distinct (tpages (snd kt))" using d(4-7) r by (auto simp del: troot_in)
  have other: "ps x = bt_pages s x" if "x \<noteq> p" "x \<noteq> a" "x \<noteq> b" "x \<noteq> ?r" for x using that by (simp add: ps)
  have keep: "trep ps y (snd x) = trep (bt_pages s) y (snd x)" if x: "x \<in> set P \<union> set Q" for x y
  proof (rule trep_cong, rule other)
    fix z assume "z \<in> set (tpages (snd x))"
    then have "z \<in> set (kts_pages P) \<union> set (kts_pages Q)" using x by auto
    then show "z \<noteq> p" "z \<noteq> a" "z \<noteq> b" "z \<noteq> ?r" using d(4-7) r by (auto simp del: troot_in)
  qed
  have src: "trep (bt_pages s) (if dst = a then b else a) (snd kt)" using move(1) pg(3,4) d(1) by auto
  have "trep ((bt_pages s)(?r \<mapsto> nd_set_parent dst n)) dst (snd kt)" using trep_reparent [OF src ne(4), of dst] n by auto
  moreover have "trep ps dst (snd kt) = trep ((bt_pages s)(?r \<mapsto> nd_set_parent dst n)) dst (snd kt)"
    using d(4-6) by (intro trep_cong) (auto simp: ps)
  ultimately have moved: "trep ps dst (snd kt)" by simp
  have arrays: "ps a = Some (InternalNode \<lparr>in_parent = p, in_array = child_ptrs A\<rparr>)" "ps b = Some (InternalNode \<lparr>in_parent = p, in_array = child_ptrs B\<rparr>)"
    "ps p = Some (InternalNode \<lparr>in_parent = cpar c, in_array = child_ptrs (X @ (k1, TNode a A) # (fst (hd B), TNode b B) # Y)\<rparr>)"
    using d(1-3) by (simp_all add: ps)
  have nx: "nxt ps = nxt (bt_pages s)" unfolding ps using n pg(1,2) f(1) d(1-3) ne(1-3) by simp
  have chA: "trep ps a (snd x)" if "x \<in> set A" for x using that move(1) moved keep [of x a] pg(3) by auto
  have chB: "trep ps b (snd x)" if "x \<in> set B" for x using that move(1) moved keep [of x b] pg(4) by auto
  have sub: "?r \<in> set (tpages (TNode a ks)) \<union> set (tpages (TNode b ls))" using move(1) by auto
  have AB: "A @ B = ks @ ls" using move(1) by auto
  show ?thesis
    by (rule inner_pair_replace [OF core _ _ _ _ _ _ _ AB move(2,3)])
      (use arrays nx chA chB sub other n pg f(1) in \<open>auto simp: ps\<close>)
qed

lemma redistribute_inner:
  assumes core: "bt_core cmp ok s (plug c (TNode p (X @ (k1, TNode a ks) # (k, TNode b ls) # Y)))"
    and args: "index = 0 \<and> X = [] \<and> pg = a \<and> nb = b \<and> A = ks @ [hd ls] \<and> B = tl ls \<and> 2 \<le> length ls \<or>
      index = int (Suc (length X)) \<and> pg = b \<and> nb = a \<and> A = butlast ks \<and> B = last ks # ls \<and> 2 \<le> length ks"
  shows "\<exists>s'. redistribute False nb pg p index s = Some (SUCCESS, s') \<and>
    bt_core cmp ok s' (plug c (TNode p (X @ (k1, TNode a A) # (fst (hd B), TNode b B) # Y))) \<and> bt_header s' = bt_header s"
proof -
  note f = pair_facts [OF core]
  have n: "bt_pages s a = Some (InternalNode \<lparr>in_parent = p, in_array = child_ptrs ks\<rparr>)" "bt_pages s b = Some (InternalNode \<lparr>in_parent = p, in_array = child_ptrs ls\<rparr>)"
    "\<forall>kt \<in> set ks. trep (bt_pages s) a (snd kt)" "\<forall>kt \<in> set ls. trep (bt_pages s) b (snd kt)" using f(3,4) by auto
  have ne: "a \<noteq> b" "a \<noteq> p" "b \<noteq> p" using distinct_parts(3,4,12) [OF f(6)] by auto
  have out: "troot (snd kt) \<noteq> a \<and> troot (snd kt) \<noteq> b \<and> troot (snd kt) \<noteq> p" if "kt \<in> set ks \<union> set ls" for kt
  proof -
    have "set (tpages (snd kt)) \<subseteq> set (kts_pages ks) \<union> set (kts_pages ls)" using that by auto
    then have "troot (snd kt) \<in> set (kts_pages ks) \<union> set (kts_pages ls)" using troot_in by blast
    moreover have "a \<notin> set (kts_pages ks) \<union> set (kts_pages ls)" "b \<notin> set (kts_pages ks) \<union> set (kts_pages ls)" "p \<notin> set (kts_pages ks) \<union> set (kts_pages ls)"
      using distinct_parts(3,4,12-14) [OF f(6)] by simp_all
    ultimately show ?thesis by metis
  qed
  have flt: "bt_get q s' = map_option (Pair SUCCESS) (bt_pages s' q)" if "bt_fault s' = bt_fault s" for q s' using that f(2) by (simp add: bt_get_def)
  have key: "internal_set_key_at (int (Suc (length X))) (fst (hd B)) \<lparr>in_parent = cpar c, in_array = child_ptrs (X @ (k1, TNode a ks) # (k, TNode b ls) # Y)\<rparr> =
      Some \<lparr>in_parent = cpar c, in_array = child_ptrs (X @ (k1, TNode a A) # (fst (hd B), TNode b B) # Y)\<rparr>"
    using set_child_key [of "TNode a A" "TNode a ks" "TNode b B" "TNode b ls"] by simp
  let ?p = "InternalNode \<lparr>in_parent = cpar c, in_array = child_ptrs (X @ (k1, TNode a A) # (fst (hd B), TNode b B) # Y)\<rparr>"
  from args show ?thesis
  proof (elim disjE conjE)
    assume h: "index = 0" "X = []" "pg = a" "nb = b" "A = ks @ [hd ls]" "B = tl ls" "2 \<le> length ls"
    then obtain kt where ls: "ls = kt # B" "B \<noteq> []" using two_or_more(2) [OF h(7)] by (cases ls) auto
    then obtain nd where nd: "bt_pages s (troot (snd kt)) = Some nd" using n(4) trep_root by fastforce
    define pc where "pc = (bt_pages s)(troot (snd kt) \<mapsto> nd_set_parent a nd, a \<mapsto> InternalNode \<lparr>in_parent = p, in_array = child_ptrs A\<rparr>,
      b \<mapsto> InternalNode \<lparr>in_parent = p, in_array = child_ptrs B\<rparr>)"
    have o: "troot (snd kt) \<noteq> a" "troot (snd kt) \<noteq> b" "troot (snd kt) \<noteq> p" using out [of kt] ls by auto
    have "move_first_to_end False b a s = Some (SUCCESS, bt_mark (troot (snd kt)) (s\<lparr>bt_pages := pc\<rparr>))"
      using n(1,2) ne o nd h(5) ls
      by (simp add: move_first_to_end_def internal_move_first_to_end_def internal_copy_from_def bt_internal_def bt_set_def bt_mark_def flt pc_def)
    then have "redistribute False nb pg p index s = Some (SUCCESS, bt_mark p (bt_mark pg (bt_mark nb (bt_mark (troot (snd kt)) (s\<lparr>bt_pages := pc(p \<mapsto> ?p)\<rparr>)))))"
      using h(1-4) ls(2) ne o key f(1)
      by (simp add: redistribute_def internal_key_at_def set_key_at_def bt_internal_def bt_set_def bt_mark_def pc_def hd_conv_nth)
    moreover have "bt_core cmp ok (s\<lparr>bt_pages := pc(p \<mapsto> ?p)\<rparr>) (plug c (TNode p (X @ (k1, TNode a A) # (fst (hd B), TNode b B) # Y)))"
      using h(5) ls by (intro inner_move [OF core, of ks kt B A B a, OF _ _ _ nd]) (simp_all add: pc_def)
    ultimately show ?thesis by simp
  next
    assume h: "index = int (Suc (length X))" "pg = b" "nb = a" "A = butlast ks" "B = last ks # ls" "2 \<le> length ks"
    let ?kt = "last ks"
    have "ks \<noteq> []" using h(6) by auto
    then have ks: "ks = A @ [?kt]" "A \<noteq> []" "ks \<noteq> []" using two_or_more(1) [OF h(6)] h(4) by simp_all
    have mem: "?kt \<in> set ks" using ks(3) by simp
    then obtain nd where nd: "bt_pages s (troot (snd ?kt)) = Some nd" using n(3) trep_root by fastforce
    define pc where "pc = (bt_pages s)(troot (snd ?kt) \<mapsto> nd_set_parent b nd, a \<mapsto> InternalNode \<lparr>in_parent = p, in_array = child_ptrs A\<rparr>,
      b \<mapsto> InternalNode \<lparr>in_parent = p, in_array = child_ptrs B\<rparr>)"
    have o: "troot (snd ?kt) \<noteq> a" "troot (snd ?kt) \<noteq> b" "troot (snd ?kt) \<noteq> p" using out [of ?kt] mem by auto
    have ar: "last (child_ptrs ks) = (fst ?kt, troot (snd ?kt))" "butlast (child_ptrs ks) = child_ptrs A"
      using ks(3) h(4) by (simp_all add: last_map map_butlast)
    have "move_last_to_front False a b s = Some (SUCCESS, bt_mark (troot (snd ?kt)) (s\<lparr>bt_pages := pc\<rparr>))"
      using n(1,2) ne o nd h(5) ks(3) ar
      by (simp add: move_last_to_front_def internal_move_last_to_front_def internal_preappend_def bt_internal_def bt_set_def bt_mark_def flt pc_def fun_upd_twist)
    then have "redistribute False nb pg p index s = Some (SUCCESS, bt_mark p (bt_mark pg (bt_mark nb (bt_mark (troot (snd ?kt)) (s\<lparr>bt_pages := pc(p \<mapsto> ?p)\<rparr>)))))"
      using h(1-3,5) ne o key f(1)
      by (simp add: redistribute_def internal_key_at_def set_key_at_def bt_internal_def bt_set_def bt_mark_def pc_def)
    moreover have "bt_core cmp ok (s\<lparr>bt_pages := pc(p \<mapsto> ?p)\<rparr>) (plug c (TNode p (X @ (k1, TNode a A) # (fst (hd B), TNode b B) # Y)))"
      using h(5) ks(1,2) by (intro inner_move [OF core, of A ?kt ls A B b, OF _ _ _ nd]) (simp_all add: pc_def)
    ultimately show ?thesis by simp
  qed
qed

end

subsection \<open>Leaves and inner nodes alike\<close>

fun tleaf :: "tree \<Rightarrow> bool" where
  "tleaf (TLeaf p xs) = True"
| "tleaf (TNode p kts) = False"

fun tsize :: "tree \<Rightarrow> nat" where
  "tsize (TLeaf p xs) = length xs"
| "tsize (TNode p kts) = length kts"

fun tkids :: "int \<Rightarrow> int \<Rightarrow> tree \<Rightarrow> bool" where
  "tkids lm im (TLeaf p xs) = True"
| "tkids lm im (TNode p kts) = (\<forall>kt \<in> set kts. tsz lm im (snd kt))"

definition tmax :: "int \<Rightarrow> int \<Rightarrow> tree \<Rightarrow> int" where
  "tmax lm im t = (if tleaf t then lm else im)"

lemma tsz_alt: "tsz lm im t \<longleftrightarrow> tmax lm im t div 2 \<le> int (tsize t) \<and> int (tsize t) \<le> tmax lm im t \<and> tkids lm im t"
  by (cases t) (auto simp: tmax_def)

lemma trsz_alt: "trsz lm im t \<longleftrightarrow> (\<not> tleaf t \<longrightarrow> 2 \<le> tsize t) \<and> int (tsize t) \<le> tmax lm im t \<and> tkids lm im t"
  by (cases t) (auto simp: tmax_def)

text \<open>A node that may have one entry too few.\<close>

definition dsz :: "int \<Rightarrow> int \<Rightarrow> frame list \<Rightarrow> tree \<Rightarrow> bool" where
  "dsz lm im c t \<longleftrightarrow> (if c = [] then 1 \<le> tsize t else tmax lm im t div 2 \<le> int (tsize t) + 1) \<and> int (tsize t) \<le> tmax lm im t \<and> tkids lm im t"

lemma trep_node: "trep ps par t \<Longrightarrow> \<exists>n. ps (troot t) = Some n \<and> nd_parent n = par \<and> nd_size n = int (tsize t) \<and> nd_is_leaf n = tleaf t"
  by (cases t) auto

context index_order
begin

lemma siblings_join:
  assumes "siblings t k u"
  shows "tleaf u = tleaf t" "tleaf (tjoin t u) = tleaf t" "tsize (tjoin t u) = tsize t + tsize u" "tflat (tjoin t u) = tflat t @ tflat u"
    "tkids lm im (tjoin t u) \<longleftrightarrow> tkids lm im t \<and> tkids lm im u" "1 \<le> tsize t" "1 \<le> tsize u"
  using assms by (cases t; cases u; auto simp: Suc_le_eq)+

definition pair_args :: "int \<Rightarrow> (key \<times> tree) list \<Rightarrow> int \<Rightarrow> int \<Rightarrow> tree \<Rightarrow> tree \<Rightarrow> bool" where
  "pair_args index X pg nb t u \<longleftrightarrow>
     index = 0 \<and> X = [] \<and> pg = troot t \<and> nb = troot u \<or> index = int (Suc (length X)) \<and> pg = troot u \<and> nb = troot t"

lemma coalesce_pair:
  assumes core: "bt_core cmp ok s (plug c (TNode p (X @ (k1, t) # (k, u) # Y)))" and args: "pair_args index X pg nb t u"
  shows "\<exists>s'. coalesce (tleaf t) nb pg p index s = Some (SUCCESS, s') \<and> bt_core cmp ok s' (plug c (TNode p (X @ (k1, tjoin t u) # Y))) \<and>
    bt_header s' = bt_header s"
proof (cases t)
  case (TLeaf a xs)
  then obtain b ys where u: "u = TLeaf b ys" using pair_siblings [OF core] by (cases u) auto
  show ?thesis using coalesce_leaf [OF core [unfolded TLeaf u], of index pg nb] args by (simp add: TLeaf u pair_args_def)
next
  case (TNode a ks)
  then obtain b ls where u: "u = TNode b ls" using pair_siblings [OF core] by (cases u) auto
  show ?thesis using coalesce_inner [OF core [unfolded TNode u], of index pg nb] args by (simp add: TNode u pair_args_def)
qed

text \<open>How redistribution changes the two siblings.\<close>

definition shifted :: "int \<Rightarrow> tree \<Rightarrow> tree \<Rightarrow> tree \<Rightarrow> tree \<Rightarrow> bool" where
  "shifted index t u t' u' \<longleftrightarrow> tleaf t' = tleaf t \<and> tleaf u' = tleaf u \<and> tflat t' @ tflat u' = tflat t @ tflat u \<and>
     (\<forall>lm im. tkids lm im t \<and> tkids lm im u \<longrightarrow> tkids lm im t' \<and> tkids lm im u') \<and>
     (if index = 0 then tsize t' = tsize t + 1 \<and> tsize u' + 1 = tsize u else tsize t' + 1 = tsize t \<and> tsize u' = tsize u + 1)"

lemma list_shift:
  assumes "index = 0 \<and> A = xs @ [hd ys] \<and> B = tl ys \<and> 2 \<le> length ys \<or> index \<noteq> 0 \<and> A = butlast xs \<and> B = last xs # ys \<and> 2 \<le> length xs"
  shows "A @ B = xs @ ys" "if index = 0 then length A = length xs + 1 \<and> length B + 1 = length ys else length A + 1 = length xs \<and> length B = length ys + 1"
  using assms two_or_more(4) [of ys xs] two_or_more(5) [of xs ys] by auto

lemma redistribute_pair:
  assumes core: "bt_core cmp ok s (plug c (TNode p (X @ (k1, t) # (k, u) # Y)))" and args: "pair_args index X pg nb t u"
    "2 \<le> (if index = 0 then tsize u else tsize t)"
  shows "\<exists>s' t' k' u'. redistribute (tleaf t) nb pg p index s = Some (SUCCESS, s') \<and>
    bt_core cmp ok s' (plug c (TNode p (X @ (k1, t') # (k', u') # Y))) \<and> bt_header s' = bt_header s \<and> shifted index t u t' u'"
proof (cases t)
  case (TLeaf a xs)
  then obtain b ys where u: "u = TLeaf b ys" using pair_siblings [OF core] by (cases u) auto
  define A where "A = (if index = 0 then xs @ [hd ys] else butlast xs)"
  define B where "B = (if index = 0 then tl ys else last xs # ys)"
  have "index = 0 \<and> A = xs @ [hd ys] \<and> B = tl ys \<and> 2 \<le> length ys \<or> index \<noteq> 0 \<and> A = butlast xs \<and> B = last xs # ys \<and> 2 \<le> length xs"
    using args(2) by (auto simp: TLeaf u A_def B_def split: if_splits)
  from list_shift [OF this] have "shifted index t u (TLeaf a A) (TLeaf b B)" by (auto simp: shifted_def TLeaf u split: if_splits)
  moreover have "\<exists>s'. redistribute True nb pg p index s = Some (SUCCESS, s') \<and>
      bt_core cmp ok s' (plug c (TNode p (X @ (k1, TLeaf a A) # (fst (hd B), TLeaf b B) # Y))) \<and> bt_header s' = bt_header s"
    by (rule redistribute_leaf [OF core [unfolded TLeaf u]]) (use args in \<open>auto simp: pair_args_def TLeaf u A_def B_def\<close>)
  ultimately show ?thesis using TLeaf by auto
next
  case (TNode a ks)
  then obtain b ls where u: "u = TNode b ls" using pair_siblings [OF core] by (cases u) auto
  define A where "A = (if index = 0 then ks @ [hd ls] else butlast ks)"
  define B where "B = (if index = 0 then tl ls else last ks # ls)"
  have "index = 0 \<and> A = ks @ [hd ls] \<and> B = tl ls \<and> 2 \<le> length ls \<or> index \<noteq> 0 \<and> A = butlast ks \<and> B = last ks # ls \<and> 2 \<le> length ks"
    using args(2) by (auto simp: TNode u A_def B_def split: if_splits)
  note sh = list_shift [OF this]
  note AB = sh(1)
  have "concat (map (\<lambda>kt. tflat (snd kt)) A) @ concat (map (\<lambda>kt. tflat (snd kt)) B) = concat (map (\<lambda>kt. tflat (snd kt)) ks) @ concat (map (\<lambda>kt. tflat (snd kt)) ls)"
    using arg_cong [OF AB, of "\<lambda>xs. concat (map (\<lambda>kt. tflat (snd kt)) xs)"] by simp
  moreover have "set A \<union> set B = set ks \<union> set ls" using arg_cong [OF AB, of set] by simp
  then have "(\<forall>kt \<in> set A. Q kt) \<and> (\<forall>kt \<in> set B. Q kt)" if "(\<forall>kt \<in> set ks. Q kt) \<and> (\<forall>kt \<in> set ls. Q kt)" for Q using that by blast
  ultimately have "shifted index t u (TNode a A) (TNode b B)" using sh(2) by (auto simp: shifted_def TNode u split: if_splits)
  moreover have "\<exists>s'. redistribute False nb pg p index s = Some (SUCCESS, s') \<and>
      bt_core cmp ok s' (plug c (TNode p (X @ (k1, TNode a A) # (fst (hd B), TNode b B) # Y))) \<and> bt_header s' = bt_header s"
    by (rule redistribute_inner [OF core [unfolded TNode u]]) (use args in \<open>auto simp: pair_args_def TNode u A_def B_def\<close>)
  ultimately show ?thesis using TNode by auto
qed

subsection \<open>Repairing a node that is too small\<close>

lemma split_before:
  assumes "ls @ x # rs = ls' @ y # rs'" "length ls' < length ls"
  shows "\<exists>B. ls = ls' @ y # B \<and> rs' = B @ x # rs"
proof -
  obtain us where "ls = ls' @ us" "us @ x # rs = y # rs'" using assms by (auto simp: append_eq_append_conv2)
  then show ?thesis using assms(2) by (cases us) auto
qed

text \<open>The parent finds a child by a key within the bounds of the child.\<close>

lemma lookup_frame:
  assumes "tords cmp ok lo hi (ls @ (k, t) # rs)" "okb lo" "ok key" "above cmp (if ls = [] then lo else Some k) key"
    "below cmp (if rs = [] then hi else Some (fst (hd rs))) key" "above cmp lo key" "below cmp hi key"
  shows "fst (internal_lookup cmp key \<lparr>in_parent = par, in_array = child_ptrs (ls @ (k, t) # rs)\<rparr>) = length ls"
proof -
  let ?kts = "ls @ (k, t) # rs"
  obtain ls' k' t' rs' where o: "?kts = ls' @ (k', t') # rs'" "fst (internal_lookup cmp key \<lparr>in_parent = par, in_array = child_ptrs ?kts\<rparr>) = length ls'"
    "above cmp (if ls' = [] then lo else Some k') key" "below cmp (if rs' = [] then hi else Some (fst (hd rs'))) key"
    using lookup_child [OF _ assms(1,2,3,6,7)] by blast
  note keys = tords_keys [OF assms(1,2)]
  have clash: False if "A @ a # B @ b # C = ?kts" "cmp (fst b) key \<le> 0" "below cmp (Some (fst (hd (B @ [b])))) key" for A a B b C
  proof -
    have "set (tl (A @ a # B @ b # C)) \<supseteq> set (B @ [b])" by (cases A) auto
    then have okB: "\<forall>x \<in> set (B @ [b]). ok (fst x)" using keys unfolding that(1) by blast
    have "tl (A @ a # B @ b # C) = (if A = [] then [] else tl A @ [a]) @ (B @ [b]) @ C" by (cases A) auto
    then have "sorted_wrt (\<lambda>x y. cmp (fst x) (fst y) < 0) ((if A = [] then [] else tl A @ [a]) @ (B @ [b]) @ C)" using keys unfolding that(1) by simp
    then have "sorted_wrt (\<lambda>x y. cmp (fst x) (fst y) < 0) (B @ [b])" unfolding sorted_wrt_append by blast
    then have "cmp (fst (hd (B @ [b]))) (fst b) \<le> 0" using okB cmp_refl [of "fst b"] by (cases B) auto
    then have "cmp (fst (hd (B @ [b]))) key \<le> 0" using that(2) cmp_trans [of "fst (hd (B @ [b]))" "fst b" key] okB assms(3) by (cases B) auto
    moreover have "cmp key (fst (hd (B @ [b]))) < 0" using that(3) by simp
    ultimately show False using cmp_anti [of key "fst (hd (B @ [b]))"] okB assms(3) by (cases B) auto
  qed
  have "\<not> length ls' < length ls"
  proof
    assume "length ls' < length ls"
    then obtain B where "ls = ls' @ (k', t') # B" "rs' = B @ (k, t) # rs" using split_before [OF o(1)] by blast
    then show False using clash [of ls' "(k', t')" B "(k, t)" rs] assms(4) o(4) by (cases B) auto
  qed
  moreover have "\<not> length ls < length ls'"
  proof
    assume "length ls < length ls'"
    then obtain B where "ls' = ls @ (k, t) # B" "rs = B @ (k', t') # rs'" using split_before [OF o(1) [symmetric]] by blast
    then show False using clash [of ls "(k, t)" B "(k', t')" rs'] assms(5) o(3) by (cases B) auto
  qed
  ultimately show ?thesis using o(2) by simp
qed

lemma last_key:
  assumes "trep ps par t" "tord cmp ok lo hi t" "tleaf t \<or> 2 \<le> tsize t" "okb lo"
  shows "\<exists>n key. ps (troot t) = Some n \<and> nd_key_at (nd_size n - 1) n = Some key \<and> ok key \<and> above cmp lo key \<and> below cmp hi key"
proof (cases t)
  case (TLeaf p xs)
  then have xs: "xs \<noteq> []" "\<forall>x \<in> set xs. ok (fst x) \<and> above cmp lo (fst x) \<and> below cmp hi (fst x)" using assms(2) by (auto simp: leaf_ok_def)
  then show ?thesis using assms(1) TLeaf last_in_set [OF xs(1)] by (auto simp: leaf_key_at_def last_conv_nth nat_diff_distrib Suc_le_eq)
next
  case (TNode p kts)
  then have kts: "2 \<le> length kts" "tords cmp ok lo hi kts" using assms(2,3) by auto
  then have "last kts = last (tl kts)" "tl kts \<noteq> []" "kts \<noteq> []" using two_or_more(2) [of kts] by (cases kts; auto)+
  then have "last kts \<in> set (tl kts)" by simp
  then have k: "ok (fst (last kts))" "sabove cmp lo (fst (last kts))" "below cmp hi (fst (last kts))" using tords_keys [OF kts(2) assms(4)] by blast+
  have "above cmp lo (fst (last kts))" using k(2) by (cases lo) auto
  then show ?thesis using assms(1) TNode k \<open>kts \<noteq> []\<close> by (auto simp: internal_key_at_def last_conv_nth nat_diff_distrib Suc_le_eq)
qed

lemma child_index:
  assumes "cord cmp ok ((p, ls, k, rs) # c)" "tord cmp ok (clo ((p, ls, k, rs) # c)) (chi ((p, ls, k, rs) # c)) t"
    "ok key" "above cmp (clo ((p, ls, k, rs) # c)) key" "below cmp (chi ((p, ls, k, rs) # c)) key"
  shows "fst (internal_lookup cmp key \<lparr>in_parent = par, in_array = child_ptrs (ls @ (k, t) # rs)\<rparr>) = length ls"
proof -
  have okc: "okb (clo c)" "okb (chi c)" "cord cmp ok c" using cord_okb [of c] assms(1) by simp_all
  have "tord cmp ok (clo c) (chi c) (TNode p (ls @ (k, t) # rs))" using tord_frame [OF okc(1,2), of p ls k t rs] assms(1,2) by simp
  then have "tords cmp ok (clo c) (chi c) (ls @ (k, t) # rs)" by simp
  moreover have "above cmp (clo c) key"
  proof (cases "ls = []")
    case False
    then have "ok k" "sabove cmp (clo c) k" "cmp k key \<le> 0" using assms(1,4) sep_okD [of "clo c" "chi c" k] by auto
    then have "sabove cmp (clo c) key" using sabove_trans okc(1) assms(3) by blast
    then show ?thesis by (cases "clo c") auto
  qed (use assms(4) in simp)
  moreover have "below cmp (chi c) key"
  proof (cases "rs = []")
    case False
    then have "ok (fst (hd rs))" "below cmp (chi c) (fst (hd rs))" "cmp key (fst (hd rs)) < 0" using assms(1,5) sep_okD by auto
    then show ?thesis using below_trans [OF okc(2) assms(3)] by (meson less_imp_le)
  qed (use assms(5) in simp)
  ultimately show ?thesis using assms(3-5) okc(1) by (intro lookup_frame) simp_all
qed

lemma pick_pair:
  assumes "2 \<le> length ls + Suc (length rs)"
  obtains X k1 a k2 b Y u where "ls @ (k, t) # rs = X @ (k1, a) # (k2, b) # Y" "pair_args (int (length ls)) X (troot t) (troot u) a b"
    "a = t \<and> b = u \<and> ls = [] \<or> a = u \<and> b = t \<and> ls \<noteq> []" "(\<exists>k'. (k', u) \<in> set (ls @ rs)) \<and> set X \<union> set Y \<subseteq> set (ls @ rs)"
    "internal_value_at (if int (length ls) = 0 then 1 else int (length ls) - 1) \<lparr>in_parent = par, in_array = child_ptrs (ls @ (k, t) # rs)\<rparr> = Some (troot u)"
proof (cases ls rule: rev_cases)
  case Nil
  then obtain k2 u Y where "rs = (k2, u) # Y" using assms by (cases rs) auto
  then show ?thesis using Nil by (intro that [of "[]" k t k2 u Y u]) (auto simp: pair_args_def internal_value_at_def)
next
  case (snoc X ku)
  then show ?thesis
    by (intro that [of X "fst ku" "snd ku" k t rs "snd ku"]) (auto simp: pair_args_def internal_value_at_def nth_append intro!: exI [of _ "fst ku"])
qed

text \<open>A root with a single child gives way to it.\<close>

lemma root_shrink:
  assumes "bt_core cmp ok s (TNode p [(k, t)])"
  shows "\<exists>s'. adjust_root p s = Some (SUCCESS, s') \<and> bt_core cmp ok s' t \<and> bt_header s' = (bt_header s)\<lparr>fh_root_page := troot t\<rparr>"
proof -
  have b: "bt_pages s p = Some (InternalNode \<lparr>in_parent = BP_INVALID_PAGE_NUM, in_array = [(k, troot t)]\<rparr>)" "trep (bt_pages s) p t"
    "distinct (p # tpages t @ bt_disposed s)" "\<And>q. bt_fault s q = SUCCESS" "tord cmp ok None None t"
    "dom (bt_pages s) = set (p # tpages t @ bt_disposed s)" "chain (bt_pages s) (tleaves t) BP_INVALID_PAGE_NUM" "\<exists>n. tbal n t"
    using assms by (auto simp: bt_core_def)
  obtain n where n: "bt_pages s (troot t) = Some n" "trep ((bt_pages s)(troot t \<mapsto> nd_set_parent BP_INVALID_PAGE_NUM n)) BP_INVALID_PAGE_NUM t"
    using trep_reparent [OF b(2)] b(3) by auto
  let ?s = "bt_dispose p (update_root_page_num_locked (troot t) (bt_set (troot t) (nd_set_parent BP_INVALID_PAGE_NUM n) s))"
  have "adjust_root p s = Some (SUCCESS, ?s)"
    using b(1,4) n(1) by (simp add: adjust_root_def bt_internal_def internal_value_at_def bt_get_def)
  moreover have "bt_pages ?s = (bt_pages s)(troot t \<mapsto> nd_set_parent BP_INVALID_PAGE_NUM n)" "bt_disposed ?s = bt_disposed s @ [p]"
    by (simp_all add: bt_dispose_def update_root_page_num_locked_def)
  moreover have "chain ((bt_pages s)(troot t \<mapsto> nd_set_parent BP_INVALID_PAGE_NUM n)) (tleaves t) BP_INVALID_PAGE_NUM"
    using b(7) chain_cong [of _ "(bt_pages s)(troot t \<mapsto> nd_set_parent BP_INVALID_PAGE_NUM n)" "bt_pages s"] nxt_set_parent [of "bt_pages s", OF n(1)] by metis
  ultimately have "bt_core cmp ok ?s t"
    using assms b(3,5,6,8) n unfolding bt_core_def by (auto simp: bt_dispose_def update_root_page_num_locked_def)
  then show ?thesis using \<open>adjust_root p s = Some (SUCCESS, ?s)\<close>
    by (intro exI [of _ ?s]) (simp add: bt_dispose_def update_root_page_num_locked_def)
qed

text \<open>What the search for a sibling amounts to.\<close>

lemma repair_unfold:
  assumes core: "bt_core cmp ok s (plug ((p, ls, k, rs) # c) t)" and mx: "max_sizes s = (lm, im)"
    and small: "int (tsize t) < tmax lm im t - tmax lm im t div 2" and key: "tleaf t \<or> 2 \<le> tsize t" and two: "2 \<le> length ls + Suc (length rs)"
  obtains X k1 a k2 b Y u where "ls @ (k, t) # rs = X @ (k1, a) # (k2, b) # Y" "pair_args (int (length ls)) X (troot t) (troot u) a b"
    "a = t \<and> b = u \<and> ls = [] \<or> a = u \<and> b = t \<and> ls \<noteq> []" "(\<exists>k'. (k', u) \<in> set (ls @ rs)) \<and> set X \<union> set Y \<subseteq> set (ls @ rs)"
    "coalesce_or_redistribute cmp (tleaf t) (troot t) s =
       (if int (tsize t) + int (tsize u) > tmax lm im t
        then redistribute (tleaf t) (troot u) (troot t) p (int (length ls)) s
        else Option.bind (coalesce (tleaf t) (troot u) (troot t) p (int (length ls)) s) (\<lambda>(rc, s).
          if rc \<noteq> SUCCESS then Some (rc, s) else coalesce_or_redistribute cmp False p s))"
proof -
  note b = core [unfolded bt_core_plug]
  let ?par = "\<lparr>in_parent = cpar c, in_array = child_ptrs (ls @ (k, t) # rs)\<rparr>"
  obtain X k1 a k2 b' Y u where o: "ls @ (k, t) # rs = X @ (k1, a) # (k2, b') # Y" "pair_args (int (length ls)) X (troot t) (troot u) a b'"
    "a = t \<and> b' = u \<and> ls = [] \<or> a = u \<and> b' = t \<and> ls \<noteq> []" "(\<exists>k'. (k', u) \<in> set (ls @ rs)) \<and> set X \<union> set Y \<subseteq> set (ls @ rs)"
    "internal_value_at (if int (length ls) = 0 then 1 else int (length ls) - 1) ?par = Some (troot u)"
    using pick_pair [OF two, of k t "cpar c"] by blast
  have pp: "bt_pages s p = Some (InternalNode ?par)" "p \<noteq> BP_INVALID_PAGE_NUM" "trep (bt_pages s) p t" "\<And>q. bt_fault s q = SUCCESS"
    using b by (auto simp: BP_INVALID_PAGE_NUM_def)
  have "crep (bt_pages s) ((p, ls, k, rs) # c) (troot t)" using b by blast
  then have "\<forall>kt \<in> set (ls @ rs). trep (bt_pages s) p (snd kt)" unfolding crep.simps by blast
  then have "trep (bt_pages s) p u" using o(4) by force
  then obtain m where m: "bt_pages s (troot u) = Some m" "nd_size m = int (tsize u)" using trep_node by blast
  obtain n where n: "bt_pages s (troot t) = Some n" "nd_parent n = p" "nd_size n = int (tsize t)" "nd_is_leaf n = tleaf t" using trep_node [OF pp(3)] by blast
  have cord: "cord cmp ok ((p, ls, k, rs) # c)" "tord cmp ok (clo ((p, ls, k, rs) # c)) (chi ((p, ls, k, rs) # c)) t" using b by blast+
  obtain lk where lk: "nd_key_at (nd_size n - 1) n = Some lk" "ok lk" "above cmp (clo ((p, ls, k, rs) # c)) lk" "below cmp (chi ((p, ls, k, rs) # c)) lk"
    using last_key [OF pp(3) cord(2) key] cord_okb [OF cord(1)] n(1) by auto
  have ix: "fst (internal_lookup cmp lk ?par) = length ls" by (rule child_index [OF cord lk(2-4)])
  have val: "internal_value_at (int (length ls)) ?par = Some (troot t)" by (simp add: internal_value_at_def nth_append)
  have sizes: "nd_max_size (bt_header s) n = tmax lm im t" "nd_min_size (bt_header s) n = tmax lm im t - tmax lm im t div 2"
    using mx n(4) by (auto simp: nd_max_size_def nd_min_size_def tmax_def max_sizes_def Let_def)
  have "coalesce_or_redistribute cmp (tleaf t) (troot t) s =
       (if int (tsize t) + int (tsize u) > tmax lm im t
        then redistribute (tleaf t) (troot u) (troot t) p (int (length ls)) s
        else Option.bind (coalesce (tleaf t) (troot u) (troot t) p (int (length ls)) s) (\<lambda>(rc, s).
          if rc \<noteq> SUCCESS then Some (rc, s) else coalesce_or_redistribute cmp False p s))"
    using pp(1,2,4) n lk(1) ix val o(5) m sizes small
    by (subst coalesce_or_redistribute.simps) (cases "ls = []"; simp add: bt_get_def bt_internal_def Let_def cong: if_cong)
  then show thesis by (rule that [OF o(1-4)])
qed

lemma repair_root:
  assumes core: "bt_core cmp ok s t" and mx: "max_sizes s = (lm, im)" "4 \<le> lm" "6 \<le> im" and sz: "dsz lm im [] t"
  shows "\<exists>s' t' r. coalesce_or_redistribute cmp (tleaf t) (troot t) s = Some (SUCCESS, s') \<and> bt_core cmp ok s' t' \<and> trsz lm im t' \<and>
    tflat t' = tflat t \<and> bt_header s' = (bt_header s)\<lparr>fh_root_page := r\<rparr>"
proof -
  obtain n where n: "bt_pages s (troot t) = Some n" "nd_parent n = BP_INVALID_PAGE_NUM" "nd_size n = int (tsize t)" "nd_is_leaf n = tleaf t"
    using trep_node core unfolding bt_core_def by blast
  have sizes: "nd_max_size (bt_header s) n = tmax lm im t" "nd_min_size (bt_header s) n = tmax lm im t - tmax lm im t div 2"
    using mx n(4) by (auto simp: nd_max_size_def nd_min_size_def tmax_def max_sizes_def Let_def)
  have min: "tmax lm im t - tmax lm im t div 2 \<ge> 2" using mx by (auto simp: tmax_def)
  have d: "1 \<le> tsize t" "int (tsize t) \<le> tmax lm im t" "tkids lm im t" using sz by (auto simp: dsz_def)
  have same: "bt_header s = (bt_header s)\<lparr>fh_root_page := troot t\<rparr>" using core by (simp add: bt_core_def)
  show ?thesis
  proof (cases "tsize t = 1 \<and> \<not> tleaf t")
    case True
    then obtain p kt where t: "t = TNode p [kt]" by (cases t) (auto simp: length_Suc_conv)
    obtain s' where s': "adjust_root p s = Some (SUCCESS, s')" "bt_core cmp ok s' (snd kt)" "bt_header s' = (bt_header s)\<lparr>fh_root_page := troot (snd kt)\<rparr>"
      using root_shrink [of s p "fst kt" "snd kt"] core t by auto
    have "coalesce_or_redistribute cmp (tleaf t) (troot t) s = Some (SUCCESS, s')"
      using n sizes min s'(1) by (subst coalesce_or_redistribute.simps) (simp add: t)
    moreover have "tsz lm im (snd kt)" using d(3) t by simp
    then have "trsz lm im (snd kt)" using mx by (auto simp: tsz_alt trsz_alt tmax_def)
    ultimately show ?thesis using s' t by (intro exI [of _ s'] exI [of _ "snd kt"]) auto
  next
    case False
    have "coalesce_or_redistribute cmp (tleaf t) (troot t) s \<in> {Some (SUCCESS, s), Some (SUCCESS, bt_mark (troot t) s)}"
      using n sizes False d(1) by (subst coalesce_or_redistribute.simps) (auto simp: adjust_root_def)
    then obtain s' where "coalesce_or_redistribute cmp (tleaf t) (troot t) s = Some (SUCCESS, s')" "s' = s \<or> s' = bt_mark (troot t) s" by blast
    moreover have "trsz lm im t" using d False by (auto simp: trsz_alt)
    moreover have "bt_core cmp ok s' t" "bt_header s' = bt_header s" using core calculation(2) by auto
    ultimately show ?thesis using same by metis
  qed
qed

lemma kids_split: "tkids lm im (TNode p (X @ (k1, a) # (k2, b) # Y)) \<longleftrightarrow> (\<forall>kt \<in> set X \<union> set Y. tsz lm im (snd kt)) \<and> tsz lm im a \<and> tsz lm im b"
  by auto

lemma repair:
  assumes "bt_core cmp ok s (plug c t)" "max_sizes s = (lm, im)" "4 \<le> lm" "6 \<le> im" "csz lm im c" "dsz lm im c t"
  shows "\<exists>s' t' r. coalesce_or_redistribute cmp (tleaf t) (troot t) s = Some (SUCCESS, s') \<and> bt_core cmp ok s' t' \<and> trsz lm im t' \<and>
    tflat t' = tflat (plug c t) \<and> bt_header s' = (bt_header s)\<lparr>fh_root_page := r\<rparr>"
  using assms
proof (induction c arbitrary: s t)
  case Nil
  then show ?case using repair_root [of s t lm im] by simp
next
  case (Cons f c)
  obtain p ls k rs where f: "f = (p, ls, k, rs)" by (cases f) auto
  note core = Cons.prems(1) [unfolded f]
  have cz: "(if c = [] then 2 else im div 2) \<le> int (length ls + Suc (length rs))" "int (length ls + Suc (length rs)) \<le> im"
    "\<forall>kt \<in> set (ls @ rs). tsz lm im (snd kt)" "csz lm im c" using Cons.prems(5) unfolding f csz.simps by blast+
  have d: "tmax lm im t div 2 \<le> int (tsize t) + 1" "int (tsize t) \<le> tmax lm im t" "tkids lm im t" using Cons.prems(6) by (simp_all add: dsz_def)
  have two: "2 \<le> length ls + Suc (length rs)" using cz(1) Cons.prems(4) by (auto split: if_splits)
  show ?case
  proof (cases "int (tsize t) \<ge> tmax lm im t - tmax lm im t div 2")
    case True
    obtain n where n: "bt_pages s (troot t) = Some n" "nd_size n = int (tsize t)" "nd_is_leaf n = tleaf t"
      using trep_node core unfolding bt_core_plug by blast
    have "nd_min_size (bt_header s) n = tmax lm im t - tmax lm im t div 2"
      using Cons.prems(2) n(3) by (auto simp: nd_max_size_def nd_min_size_def tmax_def max_sizes_def Let_def)
    then have "coalesce_or_redistribute cmp (tleaf t) (troot t) s = Some (SUCCESS, s)" using n True by (subst coalesce_or_redistribute.simps) simp
    moreover have "tsz lm im t" using True d by (simp add: tsz_alt)
    then have "trsz lm im (plug (f # c) t)" unfolding tsz_plug hsz_def using Cons.prems(5) by simp
    moreover have "bt_header s = (bt_header s)\<lparr>fh_root_page := fh_root_page (bt_header s)\<rparr>" by simp
    ultimately show ?thesis using Cons.prems(1) by metis
  next
    case False
    have small: "int (tsize t) < tmax lm im t - tmax lm im t div 2" using False by simp
    have "3 \<le> im div 2" "2 \<le> lm div 2" using Cons.prems(3,4) by simp_all
    then have key: "tleaf t \<or> 2 \<le> tsize t" using d(1) by (cases "tleaf t") (simp_all add: tmax_def)
    obtain X k1 a k2 b Y u where o: "ls @ (k, t) # rs = X @ (k1, a) # (k2, b) # Y" "pair_args (int (length ls)) X (troot t) (troot u) a b"
      "a = t \<and> b = u \<and> ls = [] \<or> a = u \<and> b = t \<and> ls \<noteq> []" "(\<exists>k'. (k', u) \<in> set (ls @ rs)) \<and> set X \<union> set Y \<subseteq> set (ls @ rs)"
      "coalesce_or_redistribute cmp (tleaf t) (troot t) s =
         (if int (tsize t) + int (tsize u) > tmax lm im t
          then redistribute (tleaf t) (troot u) (troot t) p (int (length ls)) s
          else Option.bind (coalesce (tleaf t) (troot u) (troot t) p (int (length ls)) s) (\<lambda>(rc, s).
            if rc \<noteq> SUCCESS then Some (rc, s) else coalesce_or_redistribute cmp False p s))"
      by (rule repair_unfold [OF core Cons.prems(2) small key two])
    have pl: "plug (f # c) t = plug c (TNode p (X @ (k1, a) # (k2, b) # Y))" unfolding f plug.simps o(1) ..
    note core = Cons.prems(1) [unfolded pl]
    note sib = siblings_join [OF pair_siblings [OF core]]
    have u: "tsz lm im u" using o(4) cz(3) by force
    have alike: "tleaf a = tleaf t" "tleaf b = tleaf t" "tleaf u = tleaf t" using o(3) sib(1) by auto
    then have mx: "tmax lm im u = tmax lm im t" "tmax lm im t \<ge> 4" using Cons.prems(3,4) by (auto simp: tmax_def)
    note us = u [unfolded tsz_alt mx(1)]
    have kids: "tkids lm im a" "tkids lm im b" using o(3) us d(3) by auto
    have len: "length ls + Suc (length rs) = length X + 2 + length Y" using arg_cong [OF o(1), of length] by simp
    have rest: "\<forall>kt \<in> set X \<union> set Y. tsz lm im (snd kt)"
      using o(4) cz(3) by blast
    show ?thesis
    proof (cases "int (tsize t) + int (tsize u) > tmax lm im t")
      case True
      have "tsize u \<ge> 2" using True False mx(2) by linarith
      then have "2 \<le> (if int (length ls) = 0 then tsize b else tsize a)" using o(3) by auto
      from redistribute_pair [OF core o(2) this] obtain s' t' k' u' where s': "redistribute (tleaf t) (troot u) (troot t) p (int (length ls)) s = Some (SUCCESS, s')"
        "bt_core cmp ok s' (plug c (TNode p (X @ (k1, t') # (k', u') # Y)))" "bt_header s' = bt_header s" "shifted (int (length ls)) a b t' u'"
        unfolding alike(1) by blast
      note sh = s'(4) [unfolded shifted_def]
      let ?M = "tmax lm im t"
      have "?M div 2 \<le> int (tsize t') \<and> int (tsize t') \<le> ?M \<and> ?M div 2 \<le> int (tsize u') \<and> int (tsize u') \<le> ?M"
      proof (cases "ls = []")
        case ls: True
        then have "tsize t' = tsize t + 1" "tsize u' + 1 = tsize u" using o(3) sh by auto
        then show ?thesis using True False d(1,2) us by linarith
      next
        case ls: False
        then have "tsize t' + 1 = tsize u" "tsize u' = tsize t + 1" using o(3) sh by auto
        then show ?thesis using True False d(1,2) us by linarith
      qed
      moreover have "tmax lm im t' = ?M" "tmax lm im u' = ?M" using sh alike by (simp_all add: tmax_def)
      moreover have "tkids lm im t'" "tkids lm im u'" using sh kids by blast+
      ultimately have "tsz lm im t'" "tsz lm im u'" unfolding tsz_alt by simp_all
      then have "hsz lm im c (TNode p (X @ (k1, t') # (k', u') # Y))" using rest len cz(1,2) by (cases "c = []") (simp_all add: hsz_def ball_Un)
      then have "trsz lm im (plug c (TNode p (X @ (k1, t') # (k', u') # Y)))" unfolding tsz_plug using cz(4) by simp
      moreover have "tflat (plug c (TNode p (X @ (k1, t') # (k', u') # Y))) = tflat (plug (f # c) t)" unfolding pl tflat_plug using sh by simp
      moreover have "bt_header s' = (bt_header s)\<lparr>fh_root_page := fh_root_page (bt_header s)\<rparr>" using s'(3) by simp
      ultimately show ?thesis using o(5) True s'(1,2)
        by (intro exI [of _ s'] exI [of _ "plug c (TNode p (X @ (k1, t') # (k', u') # Y))"] exI [of _ "fh_root_page (bt_header s)"]) simp
    next
      case merge: False
      obtain s' where s': "coalesce (tleaf t) (troot u) (troot t) p (int (length ls)) s = Some (SUCCESS, s')"
        "bt_core cmp ok s' (plug c (TNode p (X @ (k1, tjoin a b) # Y)))" "bt_header s' = bt_header s"
        using coalesce_pair [OF core o(2)] unfolding alike(1) by blast
      have "tsize a + tsize b = tsize t + tsize u" using o(3) by auto
      moreover have "tmax lm im (tjoin a b) = tmax lm im t" using sib(2) alike by (simp add: tmax_def)
      moreover have "tkids lm im (tjoin a b)" using sib(5) kids by blast
      ultimately have "tsz lm im (tjoin a b)" unfolding tsz_alt sib(3) using us merge by simp
      then have dz: "dsz lm im c (TNode p (X @ (k1, tjoin a b) # Y))" using rest len cz(1,2) by (cases "c = []") (simp_all add: dsz_def tmax_def ball_Un)
      have "max_sizes s' = (lm, im)" using Cons.prems(2) s'(3) by (simp add: max_sizes_def)
      from Cons.IH [OF s'(2) this Cons.prems(3,4) cz(4) dz] obtain s'' t'' r where s'': "coalesce_or_redistribute cmp False p s' = Some (SUCCESS, s'')"
        "bt_core cmp ok s'' t''" "trsz lm im t''" "tflat t'' = tflat (plug c (TNode p (X @ (k1, tjoin a b) # Y)))" "bt_header s'' = (bt_header s')\<lparr>fh_root_page := r\<rparr>"
        by auto
      have "tflat t'' = tflat (plug (f # c) t)" unfolding pl s''(4) tflat_plug using sib(4) by simp
      then show ?thesis using o(5) merge s'(1,3) s'' by auto
    qed
  qed
qed

subsection \<open>Deleting an entry\<close>

lemma leaf_remove_found:
  assumes "leaf_ok cmp ok lo hi xs" "ok key" "leaf_lookup cmp key \<lparr>lf_parent = par, lf_next_brother = nx, lf_array = xs\<rparr> = (i, True)"
  shows "i < length xs" "take i xs @ drop (Suc i) xs = filter (\<lambda>x. cmp (fst x) key \<noteq> 0) xs" "cmp (fst (xs ! i)) key = 0"
proof -
  have x: "sorted_wrt (\<lambda>x y. cmp (fst x) (fst y) < 0) xs" "\<forall>x \<in> set xs. ok (fst x)" using assms(1) by (auto simp: leaf_ok_def)
  have "lower_bound (\<lambda>x. cmp (fst x)) xs key = (i, True)" using assms(3) by (simp add: leaf_lookup_def)
  note b = lower_bound_by [of fst, OF x assms(2) this]
  show i: "i < length xs" and z: "cmp (fst (xs ! i)) key = 0" using b(4) by simp_all
  have "\<forall>x \<in> set (take i xs). cmp (fst x) key \<noteq> 0" using b(2) i by (force simp: in_set_conv_nth)
  moreover have "cmp (fst y) key \<noteq> 0" if y: "y \<in> set (drop (Suc i) xs)" for y
  proof -
    have "sorted_wrt (\<lambda>x y. cmp (fst x) (fst y) < 0) (take i xs @ xs ! i # drop (Suc i) xs)" using x(1) i by (simp add: id_take_nth_drop [symmetric])
    then have "cmp (fst (xs ! i)) (fst y) < 0" using y by (simp add: sorted_wrt_append)
    moreover have "ok (fst y)" "ok (fst (xs ! i))" using y x(2) i by (auto dest: in_set_dropD)
    ultimately have "cmp key (fst y) < 0" using z cmp_flip [of key "fst (xs ! i)"] cmp_flip [of "fst (xs ! i)" key] cmp_le_less [of key "fst (xs ! i)" "fst y"] assms(2) by simp
    then show ?thesis using cmp_anti [of key "fst y"] assms(2) \<open>ok (fst y)\<close> by simp
  qed
  moreover have "filter (\<lambda>x. cmp (fst x) key \<noteq> 0) xs = filter (\<lambda>x. cmp (fst x) key \<noteq> 0) (take i xs @ xs ! i # drop (Suc i) xs)"
    using i by (simp add: id_take_nth_drop [symmetric])
  ultimately show "take i xs @ drop (Suc i) xs = filter (\<lambda>x. cmp (fst x) key \<noteq> 0) xs" using z by (simp add: filter_id_conv)
qed

lemma leaf_ok_filter:
  "leaf_ok cmp ok lo hi xs \<Longrightarrow> filter P xs \<noteq> [] \<Longrightarrow> leaf_ok cmp ok lo hi (filter P xs)"
  by (auto simp: leaf_ok_def sorted_wrt_filter)

lemma delete_from_leaf:
  assumes bt: "bt_ok cmp ok s (plug c (TLeaf p xs))" and key: "ok key" "above cmp (clo c) key" "below cmp (chi c) key"
    and has: "index_has cmp key xs" and mx: "max_sizes s = (lm, im)" "4 \<le> lm" "6 \<le> im"
  defines "ys \<equiv> filter (\<lambda>x. cmp (fst x) key \<noteq> 0) xs"
  shows "\<exists>s' r. delete_entry_internal cmp p key s = Some (SUCCESS, s') \<and> bt_header s' = (bt_header s)\<lparr>fh_root_page := r\<rparr> \<and>
    (c = [] \<and> ys = [] \<and> bt_empty (bt_release s') \<or>
     (\<exists>t'. bt_core cmp ok s' t' \<and> trsz lm im t' \<and> tflat t' = cfl c @ ys @ cfr c))"
proof -
  note b = bt [unfolded bt_ok_plug]
  obtain nx where pg: "bt_pages s p = Some (LeafNode \<lparr>lf_parent = cpar c, lf_next_brother = nx, lf_array = xs\<rparr>)" using b by auto
  have lo: "leaf_ok cmp ok (clo c) (chi c) xs" using b by simp
  obtain i found where "leaf_lookup cmp key \<lparr>lf_parent = cpar c, lf_next_brother = nx, lf_array = xs\<rparr> = (i, found)" by fastforce
  with leaf_lookup_found [OF lo key(1) this] has
  have lk: "leaf_lookup cmp key \<lparr>lf_parent = cpar c, lf_next_brother = nx, lf_array = xs\<rparr> = (i, True)" by simp
  note rm = leaf_remove_found [OF lo key(1) lk]
  have "length (take i xs @ drop (Suc i) xs) + 1 = length xs" using rm(1) by simp
  then have len: "length ys + 1 = length xs" unfolding rm(2) ys_def .
  let ?n = "\<lparr>lf_parent = cpar c, lf_next_brother = nx, lf_array = ys\<rparr>"
  define s1 where "s1 = bt_mark p (bt_set p (LeafNode ?n) s)"
  have hdr: "bt_header s1 = bt_header s" "max_sizes s1 = (lm, im)" using mx by (simp_all add: s1_def)
  have run: "delete_entry_internal cmp p key s = coalesce_or_redistribute cmp True p s1"
  proof -
    have "delete_entry_internal cmp p key s = (if nd_size (LeafNode ?n) \<ge> nd_min_size (bt_header s1) (LeafNode ?n) then Some (SUCCESS, s1)
        else coalesce_or_redistribute cmp True p s1)"
      using pg lk rm(1,2) by (simp add: delete_entry_internal_def bt_leaf_def leaf_remove_key_def leaf_remove_def s1_def ys_def)
    moreover have "coalesce_or_redistribute cmp True p s1 = Some (SUCCESS, s1)" if "nd_size (LeafNode ?n) \<ge> nd_min_size (bt_header s1) (LeafNode ?n)"
      using that by (subst coalesce_or_redistribute.simps) (simp add: s1_def)
    ultimately show ?thesis by (simp split: if_splits)
  qed
  have hs: "hsz lm im c (TLeaf p xs)" "csz lm im c" "bt_disposed s = []" using b mx(1) by (simp_all add: no_fault_def)
  show ?thesis
  proof (cases "ys = []")
    case True
    then have c: "c = []" using len hs(1) mx(2) by (auto simp: hsz_def split: if_splits)
    have m: "nd_min_size (bt_header s1) (LeafNode ?n) > 0" using mx hdr by (simp add: nd_min_size_def nd_max_size_def max_sizes_def Let_def)
    let ?s = "bt_dispose p (update_root_page_num_locked BP_INVALID_PAGE_NUM s1)"
    have "coalesce_or_redistribute cmp True p s1 = Some (SUCCESS, ?s)"
      using m True c by (subst coalesce_or_redistribute.simps) (simp add: s1_def adjust_root_def)
    moreover have "bt_empty (bt_release ?s)"
      using b c hs(3) by (auto simp: bt_empty_def bt_release_def bt_dispose_def update_root_page_num_locked_def s1_def no_fault_def max_sizes_def fun_eq_iff domIff)
    ultimately show ?thesis using run c True hdr(1)
      by (intro exI [of _ ?s] exI [of _ BP_INVALID_PAGE_NUM]) (simp add: bt_dispose_def update_root_page_num_locked_def)
  next
    case False
    have core: "bt_core cmp ok s (plug c (TLeaf p xs))" using bt by (simp add: bt_ok_core)
    have np: "p \<notin> set (cpages c)" using b by simp
    have nx: "nxt (bt_pages s1) = nxt (bt_pages s)" using pg by (auto simp: nxt_def fun_eq_iff s1_def)
    have "chain (bt_pages s) (cll c @ tleaves (TLeaf p xs) @ clr c) BP_INVALID_PAGE_NUM" using b by blast
    then have links: "chain (bt_pages s1) (cll c @ tleaves (TLeaf p ys) @ clr c) BP_INVALID_PAGE_NUM"
      using chain_cong [of _ "bt_pages s1" "bt_pages s"] nx by simp
    have core1: "bt_core cmp ok s1 (plug c (TLeaf p ys))"
      by (rule bt_core_replace [OF core _ _ _ _ _ _ _ _ _ _ _ links])
        (use pg np leaf_ok_filter [OF lo] False in \<open>auto simp: s1_def ys_def\<close>)
    have "dsz lm im c (TLeaf p ys)" using hs(1) len False by (cases "c = []") (auto simp: dsz_def hsz_def tmax_def Suc_le_eq)
    from repair [OF core1 hdr(2) mx(2,3) hs(2) this] obtain s' t' r where "coalesce_or_redistribute cmp True p s1 = Some (SUCCESS, s')"
      "bt_core cmp ok s' t'" "trsz lm im t'" "tflat t' = tflat (plug c (TLeaf p ys))" "bt_header s' = (bt_header s1)\<lparr>fh_root_page := r\<rparr>" by auto
    then show ?thesis using run hdr(1) by (auto simp: tflat_plug)
  qed
qed

end

definition index_delete :: "(key \<Rightarrow> key \<Rightarrow> int) \<Rightarrow> key \<Rightarrow> entries \<Rightarrow> entries" where
  "index_delete cmp key xs = filter (\<lambda>x. cmp (fst x) key \<noteq> 0) xs"

context index_order
begin

lemma delete_entry_index:
  assumes idx: "bt_index cmp ok n s xs" and key: "key = make_key (bt_header s) user_key rid" "ok key"
    and mx: "4 \<le> fst (max_sizes s)" "6 \<le> snd (max_sizes s)"
  shows "\<exists>rc s' r. delete_entry cmp user_key rid s = Some (rc, s') \<and> bt_header s' = (bt_header s)\<lparr>fh_root_page := r\<rparr> \<and>
    (if index_has cmp key xs then rc = SUCCESS \<and> (\<exists>n'. bt_index cmp ok n' s' (index_delete cmp key xs))
     else rc = RECORD_NOT_EXIST \<and> s' = s)"
proof (cases "bt_empty s")
  case True
  then have "delete_entry cmp user_key rid s = Some (RECORD_NOT_EXIST, s)"
    by (simp add: delete_entry_def find_leaf_def find_leaf_internal_def bt_is_empty_def bt_empty_def bt_release_no_fault)
  moreover have "xs = []"
  proof -
    have "\<not> bt_ok cmp ok s t" for t
    proof
      assume "bt_ok cmp ok s t"
      then have "2 \<le> troot t" "fh_root_page (bt_header s) = troot t" by (simp_all add: bt_ok_def)
      then show False using True by (simp add: bt_empty_def BP_INVALID_PAGE_NUM_def)
    qed
    then show ?thesis using idx by (simp add: bt_index_def)
  qed
  ultimately show ?thesis by (intro exI [of _ RECORD_NOT_EXIST] exI [of _ s] exI [of _ "fh_root_page (bt_header s)"]) (simp add: index_has_def)
next
  case False
  then obtain t where t: "bt_ok cmp ok s t" "xs = tflat t" using idx by (auto simp: bt_index_def)
  obtain c p ys where c: "find_leaf cmp key s = Some (SUCCESS, p)" "t = plug c (TLeaf p ys)" "above cmp (clo c) key" "below cmp (chi c) key"
    using find_leaf_ok [OF t(1) key(2)] by blast
  note bt = t(1) [unfolded c(2)]
  note b = bt [unfolded bt_ok_plug]
  have cord: "cord cmp ok c" and nf: "no_fault s" using b by simp_all
  have has: "index_has cmp key xs = index_has cmp key ys" using index_has_plug [OF cord key(2) c(3,4)] t(2) c(2) by simp
  have run: "delete_entry cmp user_key rid s = Option.bind (delete_entry_internal cmp p key s) (\<lambda>(rc, s). Some (rc, bt_release s))"
    using c(1) key(1) by (simp add: delete_entry_def)
  show ?thesis
  proof (cases "index_has cmp key ys")
    case False
    obtain nx where pg: "bt_pages s p = Some (LeafNode \<lparr>lf_parent = cpar c, lf_next_brother = nx, lf_array = ys\<rparr>)" using b by auto
    obtain i found where lk: "leaf_lookup cmp key \<lparr>lf_parent = cpar c, lf_next_brother = nx, lf_array = ys\<rparr> = (i, found)" by fastforce
    have "leaf_ok cmp ok (clo c) (chi c) ys" using b by simp
    then have "\<not> found" using leaf_lookup_found [OF _ key(2) lk] False by blast
    then have "delete_entry_internal cmp p key s = Some (RECORD_NOT_EXIST, s)"
      using pg lk by (simp add: delete_entry_internal_def bt_leaf_def leaf_remove_key_def)
    then show ?thesis using run has False nf
      by (intro exI [of _ RECORD_NOT_EXIST] exI [of _ s] exI [of _ "fh_root_page (bt_header s)"]) (simp add: bt_release_no_fault)
  next
    case True
    define zs where "zs = filter (\<lambda>x. cmp (fst x) key \<noteq> 0) ys"
    obtain s' r where s': "delete_entry_internal cmp p key s = Some (SUCCESS, s')" "bt_header s' = (bt_header s)\<lparr>fh_root_page := r\<rparr>"
      "c = [] \<and> zs = [] \<and> bt_empty (bt_release s') \<or>
       (\<exists>t'. bt_core cmp ok s' t' \<and> trsz (fst (max_sizes s)) (snd (max_sizes s)) t' \<and> tflat t' = cfl c @ zs @ cfr c)"
      using delete_from_leaf [OF bt key(2) c(3,4) True _ mx] unfolding zs_def by auto
    have ne: "cmp (fst x) key \<noteq> 0" if x: "x \<in> set (cfl c) \<union> set (cfr c)" for x
    proof -
      have "ok (fst x)" using x context_left [OF cord, of x] context_right [OF cord, of x] by auto
      moreover have "cmp (fst x) key < 0 \<or> cmp key (fst x) < 0" using x context_key [OF cord key(2) c(3,4), of x] by auto
      ultimately show ?thesis using cmp_anti [of key "fst x"] key(2) by auto
    qed
    then have flat: "index_delete cmp key xs = cfl c @ zs @ cfr c"
      unfolding t(2) c(2) index_delete_def zs_def tflat_plug by (simp add: filter_id_conv)
    have sizes: "max_sizes s' = max_sizes s" using s'(2) by (simp add: max_sizes_def)
    have "\<exists>n'. bt_index cmp ok n' (bt_release s') (cfl c @ zs @ cfr c)"
      using s'(3)
    proof (elim disjE exE conjE)
      assume "c = []" "zs = []" "bt_empty (bt_release s')"
      then show ?thesis by (auto simp: bt_index_def)
    next
      fix t' assume t': "bt_core cmp ok s' t'" "trsz (fst (max_sizes s)) (snd (max_sizes s)) t'" "tflat t' = cfl c @ zs @ cfr c"
      have "bt_ok cmp ok (bt_release s') t'" unfolding bt_ok_core using bt_core_release [OF t'(1)] t'(2) sizes mx by simp
      moreover obtain n' where "tbal n' t'" using t'(1) unfolding bt_core_def by blast
      ultimately show ?thesis using t'(3) unfolding bt_index_def by metis
    qed
    then show ?thesis using run s'(1,2) has True flat
      by (intro exI [of _ SUCCESS] exI [of _ "bt_release s'"] exI [of _ r]) (simp add: bt_release_def)
  qed
qed

end

end
