(* ===== verification/BplusDirty.thy ===== *)
theory BplusDirty
  imports BplusDelete
begin

section \<open>Which frames are marked dirty\<close>

text \<open>
  The pool drops a clean frame when it needs the room, so an operation has to mark every frame it changes. Insertion does; deletion does where no nodes are
  merged and the root stays. \<open>coalesce\<close> and \<open>adjust_root\<close> change frames that they do not mark.
\<close>

definition tracked :: "int set \<Rightarrow> BplusTreeHandler \<Rightarrow> BplusTreeHandler \<Rightarrow> bool" where
  "tracked P s s' \<longleftrightarrow> bt_dirty s \<subseteq> bt_dirty s' \<and> (\<forall>p. p \<notin> P \<longrightarrow> p \<notin> bt_dirty s' \<longrightarrow> bt_pages s' p = bt_pages s p)"

text \<open>Every node whose frame is clean is on the disk as it is in the frame: what the handler may rely on after any evictions.\<close>

definition bt_saved :: "pages \<Rightarrow> BplusTreeHandler \<Rightarrow> bool" where
  "bt_saved disk s \<longleftrightarrow> (\<forall>p n. bt_pages s p = Some n \<and> p \<notin> bt_dirty s \<longrightarrow> disk p = Some n)"

lemma tracked_saved: "tracked {} s s' \<Longrightarrow> bt_saved disk s \<Longrightarrow> bt_saved disk s'"
  unfolding tracked_def bt_saved_def by (metis empty_iff subset_iff)

lemma tracked_refl [simp]: "tracked P s s"
  by (simp add: tracked_def)

lemma tracked_trans: "tracked P s s' \<Longrightarrow> tracked Q s' s'' \<Longrightarrow> P \<subseteq> R \<Longrightarrow> Q \<subseteq> R \<Longrightarrow> tracked R s s''"
  unfolding tracked_def by (metis subset_iff)

lemma tracked_marked: "tracked P s s' \<Longrightarrow> P \<subseteq> bt_dirty s' \<Longrightarrow> tracked Q s s'"
  by (auto simp: tracked_def)


text \<open>A page that is changed and not marked yet goes into the set.\<close>

lemma tracked_set: "tracked P s s' \<Longrightarrow> tracked (insert p P) s (bt_set p n s')"
  by (auto simp: tracked_def)

lemma tracked_mark: "tracked P s s' \<Longrightarrow> tracked (P - {p}) s (bt_mark p s')"
  by (auto simp: tracked_def)

lemma tracked_header [simp]: "tracked P s (update_root_page_num_locked r s') = tracked P s s'" "tracked P s (bt_dispose r s') = tracked P s s'"
  by (simp_all add: tracked_def update_root_page_num_locked_def bt_dispose_def)

lemma adopt_children_tracked: "adopt_children q items s = Some (rc, s') \<Longrightarrow> tracked {} s s'"
proof (induction items arbitrary: s)
  case (Cons item items)
  obtain rc0 child where c: "bt_get (snd item) s = Some (rc0, child)" using Cons.prems by (auto simp: bind_eq_Some_conv)
  let ?s = "bt_mark (snd item) (bt_set (snd item) (nd_set_parent q child) s)"
  have "tracked {} s ?s" by (auto simp: tracked_def)
  then show ?case using Cons.IH [of ?s] Cons.prems c tracked_trans [of "{}" s ?s "{}" s' "{}"] by (auto split: if_splits)
qed simp

lemma copy_from_tracked: "internal_copy_from this items s = Some (rc, s') \<Longrightarrow> tracked {this} s s'"
proof -
  assume a: "internal_copy_from this items s = Some (rc, s')"
  then obtain s1 where s1: "tracked {} s s1" "s' = s1 \<or> (\<exists>n. s' = bt_set this n s1)"
    using adopt_children_tracked by (fastforce simp: internal_copy_from_def bind_eq_Some_conv split: if_splits)
  then show ?thesis using tracked_set [OF s1(1), of this] by (auto simp: tracked_def)
qed

lemma move_half_tracked: "internal_move_half_to this other s = Some (rc, s') \<Longrightarrow> tracked {this, other} s s'"
proof -
  assume a: "internal_move_half_to this other s = Some (rc, s')"
  then obtain s1 where s1: "tracked {other} s s1" "s' = s1 \<or> (\<exists>n. s' = bt_set this n s1)"
    using copy_from_tracked by (fastforce simp: internal_move_half_to_def bind_eq_Some_conv Let_def split: if_splits)
  then show ?thesis using tracked_set [OF s1(1), of this] by (auto simp: tracked_def)
qed

lemma split_internal_tracked:
  assumes "split_internal p s = Some (rc, q, s')"
  shows "tracked {} s s'" "rc = SUCCESS \<Longrightarrow> p \<in> bt_dirty s' \<and> q \<in> bt_dirty s'"
proof -
  have "(rc \<noteq> SUCCESS \<and> s' = s) \<or> (\<exists>n rc' s1. internal_move_half_to p q (bt_set q n s) = Some (rc', s1) \<and> s' = bt_mark q (bt_mark p s1))"
    using assms by (cases "bt_allocate s") (auto simp: split_internal_def bind_eq_Some_conv Let_def split: if_splits)
  then have "tracked {} s s' \<and> (rc = SUCCESS \<longrightarrow> p \<in> bt_dirty s' \<and> q \<in> bt_dirty s')"
  proof (elim disjE exE conjE)
    fix n rc' s1 assume a: "internal_move_half_to p q (bt_set q n s) = Some (rc', s1)" "s' = bt_mark q (bt_mark p s1)"
    have "tracked {p, q} s s1" by (rule tracked_trans [OF tracked_set [OF tracked_refl] move_half_tracked [OF a(1)], of "{}"]) auto
    then show ?thesis using a(2) by (auto simp: tracked_def)
  qed simp
  then show "tracked {} s s'" "rc = SUCCESS \<Longrightarrow> p \<in> bt_dirty s' \<and> q \<in> bt_dirty s'" by simp_all
qed

lemma set_parent_tracked: "set_parent p par s = Some s' \<Longrightarrow> tracked {p} s s' \<and> bt_dirty s' = bt_dirty s"
  by (auto simp: set_parent_def tracked_def bind_eq_Some_conv)

lemma split_leaf_tracked:
  assumes "split_leaf p s = Some (rc, q, s')"
  shows "tracked {} s s' \<and> (rc = SUCCESS \<longrightarrow> p \<in> bt_dirty s' \<and> q \<in> bt_dirty s')"
proof (cases "bt_allocate s")
  case (Pair rc0 q0)
  show ?thesis
  proof (cases "rc0 = SUCCESS")
    case True
    obtain old where old: "bt_leaf p s = Some old" using assms by (auto simp: split_leaf_def bind_eq_Some_conv)
    obtain a b where "leaf_move_half_to old (leaf_init_empty\<lparr>lf_parent := lf_parent old\<rparr>) = (a, b)" by fastforce
    then have "s' = bt_mark q (bt_mark p (bt_set p (LeafNode a) (bt_set q (LeafNode b) s)))"
      using assms Pair True old by (auto simp: split_leaf_def)
    then show ?thesis by (auto simp: tracked_def)
  next
    case False
    then have "rc = rc0" "s' = s" using assms Pair by (auto simp: split_leaf_def bind_eq_Some_conv)
    then show ?thesis using False by simp
  qed
qed

subsection \<open>Insertion marks what it changes\<close>

lemma insert_parent_tracked:
  assumes "insert_entry_into_parent cmp p q key s = Some y" "p \<in> bt_dirty s" "q \<in> bt_dirty s"
  shows "tracked {} s (snd y)"
proof -
  have "insert_entry_into_parent cmp p q key s = Some y \<Longrightarrow> p \<in> bt_dirty s \<longrightarrow> q \<in> bt_dirty s \<longrightarrow> tracked {} s (snd y)"
  proof (rule insert_entry_into_parent.raw_induct [where P = "\<lambda>cmp p q key s y. p \<in> bt_dirty s \<longrightarrow> q \<in> bt_dirty s \<longrightarrow> tracked {} s (snd y)"], goal_cases)
    case (1 f cmp p q key s y)
    note IH = 1(2) and body = 1(3)
    show ?case
    proof (intro impI)
      assume pq: "p \<in> bt_dirty s" "q \<in> bt_dirty s"
      obtain node where node: "bt_pages s p = Some node" using body by (auto simp: bind_eq_Some_conv)
      show "tracked {} s (snd y)"
      proof (cases "nd_parent node = BP_INVALID_PAGE_NUM")
        case True
        obtain rc r where r: "bt_allocate s = (rc, r)" by fastforce
        then consider "y = (rc, s)" | n1 n2 n3 where "snd y = bt_mark r (update_root_page_num_locked r (bt_mark q (bt_mark p (bt_set q n1 (bt_set p n2 (bt_set r n3 s))))))"
          using body node True by (fastforce simp: bind_eq_Some_conv set_parent_def split: if_splits)
        then show ?thesis by cases (auto simp: tracked_def update_root_page_num_locked_def)
      next
        case False
        let ?par = "nd_parent node"
        obtain rc parent where g: "bt_get ?par s = Some (rc, parent)" using body node False by (auto simp: bind_eq_Some_conv)
        show ?thesis
        proof (cases "rc = SUCCESS")
          case False
          then show ?thesis using body node \<open>nd_parent node \<noteq> _\<close> g by auto
        next
          case True
          obtain par where par: "bt_internal ?par s = Some par" using body node False g True by (auto simp: bind_eq_Some_conv)
          show ?thesis
          proof (cases "nd_size parent < nd_max_size (bt_header s) parent")
            case room: True
            obtain n1 n2 where "snd y = bt_mark ?par (bt_mark q (bt_mark p (bt_set q n1 (bt_set ?par n2 s))))"
              using body node False g True par room by (fastforce simp: bind_eq_Some_conv set_parent_def)
            then show ?thesis by (auto simp: tracked_def)
          next
            case full: False
            obtain rc2 r s2 where sp: "split_internal ?par s = Some (rc2, r, s2)" using body node False g True par full by (auto simp: bind_eq_Some_conv)
            note t2 = split_internal_tracked [OF sp]
            show ?thesis
            proof (cases "rc2 = SUCCESS")
              case ok: False
              then show ?thesis using body node False g True par full sp t2(1) by auto
            next
              case ok: True
              obtain s3 x n key' where s3': "set_parent q x (bt_set x n s2) = Some s3" "x = ?par \<or> x = r" and fy: "f cmp ?par r key' s3 = Some y"
                using body node False g True par full sp ok by (auto simp: bind_eq_Some_conv split: if_splits)
              then have "bt_dirty s3 = bt_dirty s2" "tracked {q, ?par, r} s2 s3"
                by (auto simp: set_parent_def bind_eq_Some_conv tracked_def)
              note s3 = this(2,1) fy
              have "p \<in> bt_dirty s2" "q \<in> bt_dirty s2" using t2(1) pq by (auto simp: tracked_def)
              then have "tracked {} s2 s3" using s3(1,2) t2(2) [OF ok] by (intro tracked_marked [OF s3(1)]) auto
              moreover have "tracked {} s3 (snd y)" using IH [OF s3(3)] s3(2) t2(2) [OF ok] by simp
              ultimately show ?thesis using t2(1) tracked_trans [of "{}" _ _ "{}" _ "{}"] by blast
            qed
          qed
        qed
      qed
    qed
  qed
  then show ?thesis using assms by blast
qed

lemma insert_leaf_tracked:
  assumes "insert_entry_into_leaf_node cmp p key rid s = Some (rc, s')"
  shows "tracked {} s s'"
proof -
  obtain leaf where leaf: "bt_leaf p s = Some leaf" using assms by (auto simp: insert_entry_into_leaf_node_def bind_eq_Some_conv)
  obtain i found where lk: "leaf_lookup cmp key leaf = (i, found)" by fastforce
  show ?thesis
  proof (cases "found \<or> int (length (lf_array leaf)) < fh_leaf_max_size (bt_header s)")
    case True
    then have "s' = s \<or> (\<exists>n. s' = bt_mark p (bt_set p n s))" using assms leaf lk by (auto simp: insert_entry_into_leaf_node_def split: if_splits)
    then show ?thesis by (auto simp: tracked_def)
  next
    case False
    obtain rc1 q s1 where sp: "split_leaf p s = Some (rc1, q, s1)" using assms leaf lk False by (auto simp: insert_entry_into_leaf_node_def bind_eq_Some_conv)
    note t1 = split_leaf_tracked [OF sp]
    show ?thesis
    proof (cases "rc1 = SUCCESS")
      case ok: False
      then show ?thesis using assms leaf lk False sp t1 by (auto simp: insert_entry_into_leaf_node_def)
    next
      case ok: True
      obtain l1 n1 where l1: "bt_leaf p s1 = Some l1" "bt_leaf q s1 = Some n1"
        using assms leaf lk False sp ok by (auto simp: insert_entry_into_leaf_node_def bind_eq_Some_conv Let_def)
      obtain a b key' where up: "insert_entry_into_parent cmp p q key' (bt_set q b (bt_set p a s1)) = Some (rc, s')"
        using assms leaf lk False sp ok l1
        by (cases "i < length (lf_array l1)") (auto simp: insert_entry_into_leaf_node_def bind_eq_Some_conv Let_def)
      have "tracked {} s1 (bt_set q b (bt_set p a s1))" using t1 ok by (auto simp: tracked_def)
      moreover have "tracked {} (bt_set q b (bt_set p a s1)) s'" using insert_parent_tracked [OF up] t1 ok by simp
      ultimately show ?thesis using t1 tracked_trans [of "{}" _ _ "{}" _ "{}"] by blast
    qed
  qed
qed

lemma saved_release: "bt_saved disk s \<Longrightarrow> bt_saved disk (bt_release s)"
  by (auto simp: bt_saved_def bt_release_def)

lemma insert_entry_saved:
  assumes "insert_entry cmp u r s = Some (rc, s')" "bt_saved disk s"
  shows "bt_saved disk s'"
proof (cases "u = None \<or> r = None")
  case True
  then show ?thesis using assms by (auto simp: insert_entry_def split: option.splits)
next
  case False
  then obtain user_key rid where u: "u = Some user_key" "r = Some rid" by auto
  let ?key = "make_key (bt_header s) user_key rid"
  show ?thesis
  proof (cases "bt_is_empty s")
    case True
    then have "(rc, s') = create_new_tree ?key rid s" using assms(1) u by (simp add: insert_entry_def Let_def)
    then have "tracked {} s s'" by (cases "bt_allocate s") (auto simp: create_new_tree_def tracked_def update_root_page_num_locked_def split: if_splits)
    then show ?thesis using assms(2) by (rule tracked_saved)
  next
    case False
    then obtain rc1 s1 where "tracked {} s s1" "s' = bt_release s1"
      using assms(1) u by (force simp: insert_entry_def Let_def bind_eq_Some_conv split: if_splits dest: insert_leaf_tracked)
    then show ?thesis using saved_release [OF tracked_saved [OF _ assms(2)]] by simp
  qed
qed

subsection \<open>Deletion\<close>

text \<open>Changes of pages in use, the unmarked ones in \<open>P\<close>.\<close>

definition changes :: "int set \<Rightarrow> BplusTreeHandler \<Rightarrow> BplusTreeHandler \<Rightarrow> bool" where
  "changes P s s' \<longleftrightarrow> tracked P s s' \<and> dom (bt_pages s') = dom (bt_pages s) \<and> bt_disposed s' = bt_disposed s"

lemma changes_refl [simp]: "changes P s s"
  by (simp add: changes_def)

lemma changes_set: "changes P s s' \<Longrightarrow> bt_pages s' p \<noteq> None \<Longrightarrow> insert p P \<subseteq> Q \<Longrightarrow> changes Q s (bt_set p n s')"
  by (auto simp: changes_def tracked_def domIff)

lemma changes_mono: "changes P s s' \<Longrightarrow> P \<subseteq> Q \<Longrightarrow> changes Q s s'"
  unfolding changes_def tracked_def by blast

lemma changes_trans: "changes P s s' \<Longrightarrow> changes Q s' s'' \<Longrightarrow> P \<union> Q \<subseteq> R \<Longrightarrow> changes R s s''"
  unfolding changes_def using tracked_trans by (metis Un_subset_iff)

lemma changes_marked: "changes P s s' \<Longrightarrow> P \<subseteq> bt_dirty s' \<Longrightarrow> changes Q s s'"
  unfolding changes_def using tracked_marked by blast

lemma changes_mark: "changes P s s' \<Longrightarrow> changes P s (bt_mark p s')"
  by (auto simp: changes_def tracked_def)

lemma bt_leaf_page: "bt_leaf p s = Some n \<Longrightarrow> bt_pages s p \<noteq> None" "bt_internal p s = Some m \<Longrightarrow> bt_pages s p \<noteq> None"
  by (auto simp: bt_leaf_def bt_internal_def split: option.splits)

lemma adopt_children_changes: "adopt_children q items s = Some (rc, s') \<Longrightarrow> changes {} s s'"
proof (induction items arbitrary: s)
  case (Cons item items)
  obtain rc0 child where c: "bt_get (snd item) s = Some (rc0, child)" using Cons.prems by (auto simp: bind_eq_Some_conv)
  let ?s = "bt_mark (snd item) (bt_set (snd item) (nd_set_parent q child) s)"
  have "bt_pages s (snd item) \<noteq> None" using c by (auto simp: bt_get_def)
  then have "changes {snd item} s ?s" by (intro changes_mark changes_set [OF changes_refl, of _ _ "{}"]) simp_all
  then have "changes {} s ?s" by (rule changes_marked) simp
  then show ?case using Cons.IH [of ?s] Cons.prems c changes_trans [of "{}" s ?s "{}" s' "{}"] by (auto split: if_splits)
qed simp

lemma copy_from_changes: "internal_copy_from this items s = Some (rc, s') \<Longrightarrow> changes {this} s s'"
proof -
  assume a: "internal_copy_from this items s = Some (rc, s')"
  then obtain rc1 s1 where s1: "adopt_children this items s = Some (rc1, s1)" by (auto simp: internal_copy_from_def bind_eq_Some_conv)
  note c = adopt_children_changes [OF s1]
  show ?thesis
  proof (cases "rc1 = SUCCESS")
    case True
    then obtain n m where "bt_internal this s1 = Some n" "s' = bt_set this m s1" using a s1 by (auto simp: internal_copy_from_def bind_eq_Some_conv)
    then show ?thesis using changes_set [OF c] bt_leaf_page(2) by auto
  next
    case False
    then show ?thesis using a s1 changes_mono [OF c, of "{this}"] by (auto simp: internal_copy_from_def)
  qed
qed

text \<open>A move of children and then a change of the node they come from.\<close>

lemma changes_after_copy:
  assumes "internal_copy_from other items s = Some (rc, s1)" "s' = s1 \<or> (\<exists>n m. bt_internal this s1 = Some n \<and> s' = bt_set this m s1)"
  shows "changes {this, other} s s'"
proof -
  note c = copy_from_changes [OF assms(1)]
  show ?thesis using assms(2) changes_set [OF c, of this "{this, other}"] bt_leaf_page(2) [of this s1] changes_mono [OF c, of "{this, other}"] by auto
qed

lemma move_to_changes: "move_to leaf this other s = Some (rc, s') \<Longrightarrow> changes {this, other} s s' \<and> bt_pages s this \<noteq> None"
proof (cases leaf)
  case True
  assume a: "move_to leaf this other s = Some (rc, s')"
  then obtain n m where n: "bt_leaf this s = Some n" "bt_leaf other s = Some m" using True by (auto simp: move_to_def bind_eq_Some_conv)
  then have s': "\<exists>x y. s' = bt_set other y (bt_set this x s)" using a True by (auto simp: move_to_def split: prod.splits)
  have "changes {this} s (bt_set this x s)" for x by (rule changes_set [OF changes_refl [of "{}"]]) (use n bt_leaf_page in auto)
  then have "changes {this, other} s (bt_set other y (bt_set this x s))" for x y by (rule changes_set) (use n bt_leaf_page in auto)
  then show ?thesis using s' n bt_leaf_page(1) by auto
next
  case False
  assume a: "move_to leaf this other s = Some (rc, s')"
  then obtain n rc1 s1 where "bt_internal this s = Some n" "internal_copy_from other (in_array n) s = Some (rc1, s1)"
    "s' = s1 \<or> (\<exists>n m. bt_internal this s1 = Some n \<and> s' = bt_set this m s1)"
    using False by (auto simp: move_to_def internal_move_to_def bind_eq_Some_conv split: if_splits)
  then show ?thesis using changes_after_copy bt_leaf_page(2) by blast
qed

lemma move_first_to_end_changes: "move_first_to_end leaf this other s = Some (rc, s') \<Longrightarrow> changes {this, other} s s'"
proof (cases leaf)
  case True
  assume a: "move_first_to_end leaf this other s = Some (rc, s')"
  then obtain n m x y where n: "bt_leaf this s = Some n" "bt_leaf other s = Some m" "s' = bt_set other y (bt_set this x s)"
    using True by (auto simp: move_first_to_end_def bind_eq_Some_conv)
  have "changes {this} s (bt_set this x s)" by (rule changes_set [OF changes_refl [of "{}"]]) (use n bt_leaf_page in auto)
  then have "changes {this, other} s (bt_set other y (bt_set this x s))" by (rule changes_set) (use n bt_leaf_page in auto)
  then show ?thesis using n(3) by simp
next
  case False
  assume a: "move_first_to_end leaf this other s = Some (rc, s')"
  then obtain n where m: "bt_internal this s = Some n" using False by (cases "bt_internal this s") (auto simp: move_first_to_end_def internal_move_first_to_end_def)
  then obtain item rest where n: "bt_internal this s = Some n" "in_array n = item # rest"
    using a False by (cases "in_array n") (auto simp: move_first_to_end_def internal_move_first_to_end_def)
  then obtain rc1 s1 where "internal_copy_from other [item] s = Some (rc1, s1)" "s' = s1 \<or> (\<exists>n m. bt_internal this s1 = Some n \<and> s' = bt_set this m s1)"
    using a False by (auto simp: move_first_to_end_def internal_move_first_to_end_def bind_eq_Some_conv split: if_splits)
  then show ?thesis by (rule changes_after_copy)
qed

lemma preappend_changes: "internal_preappend this item s = Some (rc, s') \<Longrightarrow> changes {this} s s'"
proof -
  assume a: "internal_preappend this item s = Some (rc, s')"
  then obtain rc0 child where c: "bt_get (snd item) s = Some (rc0, child)" by (auto simp: internal_preappend_def bind_eq_Some_conv)
  let ?s = "bt_mark (snd item) (bt_set (snd item) (nd_set_parent this child) s)"
  have "bt_pages s (snd item) \<noteq> None" using c by (auto simp: bt_get_def)
  then have "changes {snd item} s ?s" by (intro changes_mark changes_set [OF changes_refl, of _ _ "{}"]) simp_all
  then have m: "changes {} s ?s" by (rule changes_marked) simp
  show ?thesis
  proof (cases "rc0 = SUCCESS")
    case True
    then obtain n x where "bt_internal this ?s = Some n" "s' = bt_set this x ?s" using a c by (auto simp: internal_preappend_def bind_eq_Some_conv)
    then show ?thesis using changes_set [OF m] bt_leaf_page(2) by blast
  next
    case False
    then show ?thesis using a c by (auto simp: internal_preappend_def)
  qed
qed

lemma move_last_to_front_changes: "move_last_to_front leaf this other s = Some (rc, s') \<Longrightarrow> changes {this, other} s s'"
proof (cases leaf)
  case True
  assume a: "move_last_to_front leaf this other s = Some (rc, s')"
  then obtain n m x y where n: "bt_leaf this s = Some n" "bt_leaf other s = Some m" "s' = bt_set other y (bt_set this x s)"
    using True by (auto simp: move_last_to_front_def bind_eq_Some_conv)
  have "changes {this} s (bt_set this x s)" by (rule changes_set [OF changes_refl [of "{}"]]) (use n bt_leaf_page in auto)
  then have "changes {this, other} s (bt_set other y (bt_set this x s))" by (rule changes_set) (use n bt_leaf_page in auto)
  then show ?thesis using n(3) by simp
next
  case False
  assume a: "move_last_to_front leaf this other s = Some (rc, s')"
  then obtain n where n: "bt_internal this s = Some n" using False by (auto simp: move_last_to_front_def internal_move_last_to_front_def bind_eq_Some_conv)
  then obtain rc1 s1 where s1: "internal_preappend other (last (in_array n)) s = Some (rc1, s1)" "s' = s1 \<or> (\<exists>n m. bt_internal this s1 = Some n \<and> s' = bt_set this m s1)"
    using a False by (auto simp: move_last_to_front_def internal_move_last_to_front_def bind_eq_Some_conv split: if_splits)
  note c = preappend_changes [OF s1(1)]
  show ?thesis using s1(2) changes_set [OF c, of this "{this, other}"] bt_leaf_page(2) [of this s1] changes_mono [OF c, of "{this, other}"] by auto
qed

lemma redistribute_changes:
  assumes "redistribute leaf nb pg p index s = Some (rc, s')"
  shows "changes {} s s'"
proof -
  have "\<exists>s1 i key. changes {nb, pg} s s1 \<and> Option.bind (set_key_at p i key s1) (\<lambda>s. Some (SUCCESS, bt_mark p (bt_mark pg (bt_mark nb s)))) = Some (rc, s')"
    using assms by (fastforce simp: redistribute_def bind_eq_Some_conv split: if_splits dest: move_first_to_end_changes move_last_to_front_changes)
  then obtain s1 n where s1: "changes {nb, pg} s s1" "bt_pages s1 p \<noteq> None" "s' = bt_mark p (bt_mark pg (bt_mark nb (bt_set p n s1)))"
    by (auto simp: set_key_at_def bind_eq_Some_conv dest: bt_leaf_page(2))
  have "changes {nb, pg, p} s s'" unfolding s1(3) by (intro changes_mark changes_set [OF s1(1,2)]) auto
  then show ?thesis by (rule changes_marked) (simp add: s1(3))
qed

text \<open>Where pages are disposed of, changes may be lost; where none are, every change is marked.\<close>

definition kept_marked :: "BplusTreeHandler \<Rightarrow> BplusTreeHandler \<Rightarrow> bool" where
  "kept_marked s s' \<longleftrightarrow> dom (bt_pages s') = dom (bt_pages s) \<and>
     (\<exists>ds. bt_disposed s' = bt_disposed s @ ds \<and> set ds \<subseteq> dom (bt_pages s) \<and> (ds = [] \<longrightarrow> tracked {} s s'))"

lemma changes_kept: "changes {} s s' \<Longrightarrow> kept_marked s s'"
  by (simp add: changes_def kept_marked_def)

lemma kept_marked_trans: "kept_marked s s' \<Longrightarrow> kept_marked s' s'' \<Longrightarrow> kept_marked s s''"
  unfolding kept_marked_def by (elim conjE exE) (auto intro: tracked_trans [of "{}" _ _ "{}" _ "{}"])

lemma kept_disposed:
  assumes "changes P s s1" "r \<in> dom (bt_pages s)"
  shows "kept_marked s (bt_dispose r s1)"
  using assms by (auto simp: kept_marked_def changes_def bt_dispose_def)

lemma changes_header: "changes P s (update_root_page_num_locked r s') = changes P s s'"
  by (simp add: changes_def update_root_page_num_locked_def tracked_def)

lemma adjust_root_kept:
  assumes "adjust_root r s = Some (rc, s')"
  shows "kept_marked s s'"
proof -
  obtain n where n: "bt_pages s r = Some n" using assms by (auto simp: adjust_root_def bind_eq_Some_conv)
  show ?thesis
  proof (cases "nd_is_leaf n")
    case True
    then have "s' = bt_mark r s \<or> s' = bt_dispose r (update_root_page_num_locked BP_INVALID_PAGE_NUM s)"
      using assms n by (auto simp: adjust_root_def split: if_splits)
    then show ?thesis
    proof
      assume "s' = bt_mark r s"
      then show ?thesis by (simp add: changes_kept changes_mark)
    next
      assume "s' = bt_dispose r (update_root_page_num_locked BP_INVALID_PAGE_NUM s)"
      then show ?thesis using n by (auto intro: kept_disposed [of "{}"] simp: changes_header)
    qed
  next
    case False
    then obtain c rc1 m where c: "bt_get c s = Some (rc1, m)"
      "s' = s \<or> s' = bt_dispose r (update_root_page_num_locked c (bt_set c (nd_set_parent BP_INVALID_PAGE_NUM m) s))"
      using assms n by (auto simp: adjust_root_def bind_eq_Some_conv split: if_splits)
    have "changes {c} s (bt_set c x s)" for x by (rule changes_set [OF changes_refl [of "{}"]]) (use c(1) in \<open>auto simp: bt_get_def\<close>)
    then have "kept_marked s (bt_dispose r (update_root_page_num_locked c (bt_set c x s)))" for x
      using n by (intro kept_disposed [of "{c}"]) (auto simp: changes_header)
    then show ?thesis using c(2) by (auto simp: changes_kept)
  qed
qed

lemma coalesce_kept:
  assumes "coalesce leaf nb pg p index s = Some (SUCCESS, s')"
  shows "kept_marked s s'"
proof -
  define sel where "sel = (if index = 0 then (pg, nb, index + 1) else (nb, pg, index))"
  obtain l r i where lr: "sel = (l, r, i)" by (cases sel) auto
  obtain par par' where par: "bt_internal p s = Some par" "internal_remove i par = Some par'"
    using assms unfolding coalesce_def sel_def [symmetric] lr by (auto simp: bind_eq_Some_conv)
  let ?s = "bt_set p (InternalNode par') s"
  obtain rc s1 where mv: "move_to leaf r l ?s = Some (rc, s1)" using assms par unfolding coalesce_def sel_def [symmetric] lr by (auto simp: bind_eq_Some_conv)
  have c0: "changes {p} s ?s" by (rule changes_set [OF changes_refl [of "{}"]]) (use par bt_leaf_page(2) in auto)
  note c1 = move_to_changes [OF mv]
  have c: "changes {p, l, r} s s1" by (rule changes_trans [OF c0 conjunct1 [OF c1]]) auto
  have r: "r \<in> dom (bt_pages s)" using conjunct2 [OF c1] c0 by (auto simp: changes_def)
  have "\<exists>s2. s' = bt_dispose r s2 \<and> (s2 = s1 \<or> (\<exists>x. bt_pages s1 l \<noteq> None \<and> s2 = bt_set l x s1))"
    using assms par mv unfolding coalesce_def sel_def [symmetric] lr by (auto simp: bind_eq_Some_conv split: if_splits option.splits IndexNode.splits)
  then obtain s2 where s2: "s' = bt_dispose r s2" "changes {p, l, r} s s2" using c changes_set [OF c, of l "{p, l, r}"] by auto
  show ?thesis unfolding s2(1) by (rule kept_disposed [OF s2(2) r])
qed

lemma coalesce_or_redistribute_kept:
  assumes "coalesce_or_redistribute cmp leaf p s = Some y" "fst y = SUCCESS"
  shows "kept_marked s (snd y)"
proof -
  have "coalesce_or_redistribute cmp leaf p s = Some y \<Longrightarrow> fst y = SUCCESS \<longrightarrow> kept_marked s (snd y)"
  proof (rule coalesce_or_redistribute.raw_induct [where P = "\<lambda>cmp leaf p s y. fst y = SUCCESS \<longrightarrow> kept_marked s (snd y)"], goal_cases)
    case (1 f cmp leaf p s y)
    note IH = 1(2) and body = 1(3)
    show ?case
    proof
      assume ok: "fst y = SUCCESS"
      obtain n where n: "bt_pages s p = Some n" using body by (auto simp: bind_eq_Some_conv)
      consider (same) "snd y = s" | (root) rc where "adjust_root p s = Some (rc, snd y)"
        | (share) nb i where "redistribute leaf nb p (nd_parent n) i s = Some y"
        | (merge) nb i s1 where "coalesce leaf nb p (nd_parent n) i s = Some (SUCCESS, s1)" "f cmp False (nd_parent n) s1 = Some y"
      proof (cases "nd_size n \<ge> nd_min_size (bt_header s) n \<or> nd_parent n = BP_INVALID_PAGE_NUM")
        case True
        then show thesis using body n that(1,2) by (fastforce simp: bind_eq_Some_conv split: if_splits)
      next
        case False
        obtain rc m where m: "bt_get (nd_parent n) s = Some (rc, m)" using body n False by (cases "bt_get (nd_parent n) s") auto
        have rc: "rc = SUCCESS" using body n False m ok by (auto split: if_splits)
        obtain par where par: "bt_internal (nd_parent n) s = Some par" using body n False m rc by (cases "bt_internal (nd_parent n) s") auto
        obtain key where key: "nd_key_at (nd_size n - 1) n = Some key" using body n False m rc par by (cases "nd_key_at (nd_size n - 1) n") auto
        define i where "i = int (fst (internal_lookup cmp key par))"
        obtain v where v: "internal_value_at i par = Some v" using body n False m rc par key by (cases "internal_value_at i par") (auto simp: i_def Let_def)
        have vp: "v = p" using body n False m rc par key v by (auto simp: i_def Let_def split: if_splits)
        have "Option.bind (internal_value_at (if i = 0 then 1 else i - 1) par) (\<lambda>nb. Option.bind (bt_get nb s) (\<lambda>(rc, u).
            if rc \<noteq> SUCCESS then Some (rc, s)
            else if nd_size n + nd_size u > nd_max_size (bt_header s) n then redistribute leaf nb p (nd_parent n) i s
            else Option.bind (coalesce leaf nb p (nd_parent n) i s) (\<lambda>(rc, s). if rc \<noteq> SUCCESS then Some (rc, s) else f cmp False (nd_parent n) s))) = Some y"
          using body n False m rc par key v vp unfolding i_def by (simp add: Let_def)
        then obtain nb rc2 u where u: "(if rc2 \<noteq> SUCCESS then Some (rc2, s)
            else if nd_size n + nd_size u > nd_max_size (bt_header s) n then redistribute leaf nb p (nd_parent n) i s
            else Option.bind (coalesce leaf nb p (nd_parent n) i s) (\<lambda>(rc, s). if rc \<noteq> SUCCESS then Some (rc, s) else f cmp False (nd_parent n) s)) = Some y"
          by (auto simp only: bind_eq_Some_conv prod.case split_paired_all split_paired_Ex)
        then have "rc2 = SUCCESS" using ok by (auto split: if_splits)
        then have rest: "(if nd_size n + nd_size u > nd_max_size (bt_header s) n then redistribute leaf nb p (nd_parent n) i s
            else Option.bind (coalesce leaf nb p (nd_parent n) i s) (\<lambda>(rc, s). if rc \<noteq> SUCCESS then Some (rc, s) else f cmp False (nd_parent n) s)) = Some y"
          using u by simp
        show thesis
        proof (cases "nd_size n + nd_size u > nd_max_size (bt_header s) n")
          case True
          then show thesis using rest that(3) by simp
        next
          case more: False
          then obtain rc3 s1 where "coalesce leaf nb p (nd_parent n) i s = Some (rc3, s1)" using rest by (auto simp: bind_eq_Some_conv)
          then show thesis using rest more that(4) [of nb i s1] ok by (cases "rc3 = SUCCESS") auto
        qed
      qed
      then show "kept_marked s (snd y)"
      proof cases
        case same
        then show ?thesis by (simp add: changes_kept)
      next
        case root
        then show ?thesis by (rule adjust_root_kept)
      next
        case share
        then show ?thesis using redistribute_changes changes_kept by (metis prod.collapse)
      next
        case merge
        then show ?thesis using kept_marked_trans [OF coalesce_kept [OF merge(1)]] IH [OF merge(2)] ok by blast
      qed
    qed
  qed
  then show ?thesis using assms by blast
qed

text \<open>A deletion that leaves the same pages in use has marked every page it changed.\<close>

lemma delete_entry_saved:
  assumes "delete_entry cmp u r s = Some (SUCCESS, s')" "bt_disposed s = []" "dom (bt_pages s') = dom (bt_pages s)" "bt_saved disk s"
  shows "bt_saved disk s'"
proof -
  let ?key = "make_key (bt_header s) u r"
  obtain p s1 where s1: "delete_entry_internal cmp p ?key s = Some (SUCCESS, s1)" "s' = bt_release s1"
    using assms(1) by (auto simp: delete_entry_def bind_eq_Some_conv split: if_splits)
  obtain leaf where l: "bt_leaf p s = Some leaf" using s1(1) by (cases "bt_leaf p s") (auto simp: delete_entry_internal_def)
  obtain k leaf' where k: "leaf_remove_key cmp ?key leaf = Some (k, leaf')"
    using s1(1) l by (cases "leaf_remove_key cmp ?key leaf") (auto simp: delete_entry_internal_def)
  have "k \<noteq> 0" using s1(1) l k by (auto simp: delete_entry_internal_def)
  note leaf = l k this
  let ?s = "bt_mark p (bt_set p (LeafNode leaf') s)"
  have "changes {p} s ?s" by (intro changes_mark changes_set [OF changes_refl [of "{}"]]) (use leaf(1) bt_leaf_page(1) in auto)
  then have "changes {} s ?s" by (rule changes_marked) simp
  moreover have "kept_marked ?s s1"
  proof (cases "nd_size (LeafNode leaf') \<ge> nd_min_size (bt_header ?s) (LeafNode leaf')")
    case True
    then show ?thesis using s1(1) leaf by (simp add: delete_entry_internal_def changes_kept)
  next
    case False
    then have "coalesce_or_redistribute cmp True p ?s = Some (SUCCESS, s1)" using s1(1) leaf by (simp add: delete_entry_internal_def)
    from coalesce_or_redistribute_kept [OF this] show ?thesis by simp
  qed
  ultimately have "kept_marked s s1" by (rule kept_marked_trans [OF changes_kept])
  then obtain ds where ds: "dom (bt_pages s1) = dom (bt_pages s)" "bt_disposed s1 = ds" "set ds \<subseteq> dom (bt_pages s)" "ds = [] \<longrightarrow> tracked {} s s1"
    using assms(2) by (auto simp: kept_marked_def)
  have "dom (bt_pages s') = dom (bt_pages s1) - set ds" using s1(2) ds(2) by (auto simp: bt_release_def split: if_splits)
  then have "ds = []" using assms(3) ds(1,3) by (cases ds) auto
  then show ?thesis using saved_release [OF tracked_saved [OF _ assms(4)]] ds(4) s1(2) by simp
qed

end
