(* ===== verification/BplusKeys.thy ===== *)
theory BplusKeys
  imports BplusScan BplusDirty "HOL-Library.List_Lexorder"
begin

section \<open>The keys of an index and the bounds of a scan\<close>

text \<open>
  The order of an index is the one of its key comparator: the attribute first, then the record identifier. The bounds of a scan are given by user keys that may be
  shorter or longer than the attribute. Here it is said what such a bound means for the attribute of an entry, independently of \<open>fix_user_key\<close>, and shown what
  the keys that the scanner makes of it select.
\<close>

subsection \<open>Keys\<close>

interpretation idx: index_order "key_cmp t n" "key_ok t n" for t n
  by (simp add: index_order_def key.three_way_axioms)

definition header_type :: "IndexFileHeader \<Rightarrow> AttrType \<Rightarrow> nat \<Rightarrow> bool" where
  "header_type h t n \<longleftrightarrow> fh_attr_type h = t \<and> fh_attr_length h = int n \<and> t \<in> {INTS, CHARS, DATES} \<and> (t \<noteq> CHARS \<longrightarrow> n = 4)"

text \<open>The comparators of the handler; they do not fail for the types an index is created on.\<close>

definition key_comparator :: "(byte list \<Rightarrow> byte list \<Rightarrow> int) \<Rightarrow> IndexFileHeader \<Rightarrow> key \<Rightarrow> key \<Rightarrow> int" where
  "key_comparator cf h x y = the (KeyComparator cf (fh_attr_type h) (nat (fh_attr_length h)) x y)"

definition attr_comparator :: "(byte list \<Rightarrow> byte list \<Rightarrow> int) \<Rightarrow> IndexFileHeader \<Rightarrow> byte list \<Rightarrow> byte list \<Rightarrow> int" where
  "attr_comparator cf h x y = the (AttrComparator cf (fh_attr_type h) (nat (fh_attr_length h)) x y)"

lemma comparators_eq:
  assumes "header_type h t n"
  shows "key_comparator cf h = key_cmp t n" "attr_comparator cf h = attr_cmp t n"
  using assms KeyComparator_eq [of t cf n]
  by (auto simp: fun_eq_iff header_type_def key_comparator_def attr_comparator_def AttrComparator_def attr_cmp_def)

lemma rid_bytes_length [simp]: "length (rid_bytes r) = 8"
  by (simp add: rid_bytes_def mem_slice_def)

lemma read_append: "read_i32 (nth (xs @ ys)) (length xs + k) = read_i32 (nth ys) k"
  by (simp add: read_i32_def read_w32_def nth_append)

lemma read_append_left: "k + 4 \<le> length xs \<Longrightarrow> read_i32 (nth (xs @ ys)) k = read_i32 (nth xs) k"
  by (simp add: read_i32_def read_w32_def nth_append)

lemma read_rid_bytes:
  assumes "RID_ok r"
  shows "read_i32 (nth (rid_bytes r)) 0 = page_num r" "read_i32 (nth (rid_bytes r)) 4 = slot_num r"
proof -
  let ?m = "write_i32 (write_i32 zero_mem 0 (page_num r)) 4 (slot_num r)"
  have sl: "read_i32 (nth (rid_bytes r)) k = read_i32 ?m k" if "k + 4 \<le> 8" for k
    using that by (simp add: read_i32_def read_w32_def rid_bytes_def mem_slice_def)
  have "fits_i32 (page_num r)" "fits_i32 (slot_num r)" using assms by (auto simp: RID_ok_def nonneg_i32_def fits_i32_def)
  then show "read_i32 (nth (rid_bytes r)) 0 = page_num r" "read_i32 (nth (rid_bytes r)) 4 = slot_num r"
    using sl [of 0] sl [of 4] by simp_all
qed

lemma make_key_parts:
  assumes "header_type h t n" "n \<le> length u" "RID_ok r"
  shows "length (make_key h u r) = n + 8" "key_rid n (make_key h u r) = r" "take n (make_key h u r) = take n u"
    "n = 4 \<Longrightarrow> read_i32 (nth (make_key h u r)) 0 = read_i32 (nth u) 0"
proof -
  have mk: "make_key h u r = take n u @ rid_bytes r" and len: "length (take n u) = n"
    using assms by (simp_all add: make_key_def header_type_def)
  show "length (make_key h u r) = n + 8" "take n (make_key h u r) = take n u" using len by (simp_all add: mk)
  show "key_rid n (make_key h u r) = r"
    using read_append [of "take n u" "rid_bytes r" 0] read_append [of "take n u" "rid_bytes r" 4] len read_rid_bytes [OF assms(3)]
    by (simp add: key_rid_def mk)
  show "read_i32 (nth (make_key h u r)) 0 = read_i32 (nth u) 0" if "n = 4"
    using read_append_left [of 0 "take n u" "rid_bytes r"] read_append_left [of 0 "take n u" "drop n u"] len that by (simp add: mk)
qed

text \<open>The user's key: long enough, and an integer whose differences do not wrap.\<close>

definition user_key_ok :: "AttrType \<Rightarrow> nat \<Rightarrow> byte list \<Rightarrow> bool" where
  "user_key_ok t n u \<longleftrightarrow> n \<le> length u \<and> (t \<noteq> CHARS \<longrightarrow> small_i32 (read_i32 (nth u) 0))"

lemma make_key_ok: "header_type h t n \<Longrightarrow> user_key_ok t n u \<Longrightarrow> RID_ok r \<Longrightarrow> key_ok t n (make_key h u r)"
  using make_key_parts [of h t n u r] by (auto simp: key_ok_def attr_ok_def user_key_ok_def header_type_def)

lemma RID_bounds: "RID_ok RID_min" "RID_ok RID_max" "RID_ok r \<Longrightarrow> RID_compare r RID_min \<ge> 0" "RID_ok r \<Longrightarrow> RID_compare r RID_max \<le> 0"
  by (auto simp: RID_ok_def RID_min_def RID_max_def nonneg_i32_def RID_compare_def sub_i32_nonneg Let_def)

lemma RID_compare_zero: "RID_ok r \<Longrightarrow> RID_ok s \<Longrightarrow> RID_compare r s = 0 \<longleftrightarrow> r = s"
  by (cases r; cases s) (auto simp: RID_compare_def RID_ok_def sub_i32_nonneg Let_def)

lemma memcmp_take: "n \<le> length xs \<Longrightarrow> n \<le> length ys \<Longrightarrow> memcmp zs (take n xs @ ws) n = memcmp zs xs n"
proof (induction zs xs n rule: memcmp.induct)
  case (1 a as b bs n)
  then show ?case by (cases ys) auto
qed auto

lemma attr_cmp_make_key:
  assumes "header_type h t n" "user_key_ok t n u" "RID_ok r"
  shows "attr_cmp t n x (make_key h u r) = attr_cmp t n x u"
proof (cases "t = CHARS")
  case True
  have "make_key h u r = take n u @ rid_bytes r" using assms(1) by (simp add: make_key_def header_type_def)
  then show ?thesis using True assms(2) memcmp_take [of n u u x "rid_bytes r"] by (simp add: attr_cmp_def compare_string_def user_key_ok_def)
next
  case False
  then show ?thesis using assms make_key_parts(4) [OF assms(1) _ assms(3)]
    by (simp add: attr_cmp_def compare_int_def user_key_ok_def header_type_def)
qed

text \<open>Between the smallest and the largest key with an attribute value lie exactly the keys with this value.\<close>

lemma key_between:
  assumes "header_type h t n" "user_key_ok t n u" "key_ok t n x"
  shows "key_cmp t n x (make_key h u RID_min) \<ge> 0 \<and> key_cmp t n x (make_key h u RID_max) \<le> 0 \<longleftrightarrow> attr_cmp t n x u = 0"
proof -
  have len: "n \<le> length u" using assms(2) by (simp add: user_key_ok_def)
  note a = attr_cmp_make_key [OF assms(1,2), of _ x]
  note p = make_key_parts(2) [OF assms(1) len]
  have "RID_ok (key_rid n x)" using assms(3) by (simp add: key_ok_def)
  then show ?thesis using RID_bounds a [of RID_min] a [of RID_max] p [of RID_min] p [of RID_max]
    by (auto simp: key_cmp_def lex_cmp_def)
qed

subsection \<open>Strings\<close>

lemma less_append_same:
  fixes p q s t :: "'a :: linorder list"
  shows "length p = length q \<Longrightarrow> p @ s < q @ t \<longleftrightarrow> p < q \<or> p = q \<and> s < t"
  by (induction p q rule: list_induct2) auto

lemma zeros_least: "\<not> xs < replicate (length xs) (0 :: byte)"
  by (induction xs) auto

lemma ones_greatest: "\<not> replicate (length xs) (255 :: byte) < xs"
proof (induction xs)
  case (Cons x xs)
  have "uint x \<le> 255" using uint_lt2p [of x] by simp
  then have "\<not> 255 < x" by (simp add: word_less_def)
  then show ?case using Cons by auto
qed simp

lemma memcmp_less: "n \<le> length xs \<Longrightarrow> n \<le> length ys \<Longrightarrow> memcmp xs ys n < 0 \<longleftrightarrow> take n xs < take n ys"
  by (induction xs ys n rule: memcmp.induct) auto

lemma attr_cmp_chars:
  assumes "n \<le> length x" "n \<le> length u"
  shows "attr_cmp CHARS n x u < 0 \<longleftrightarrow> take n x < take n u" "attr_cmp CHARS n x u = 0 \<longleftrightarrow> take n x = take n u" "attr_cmp CHARS n x u > 0 \<longleftrightarrow> take n u < take n x"
  using memcmp_less [OF assms] memcmp_less [OF assms(2,1)] memcmp_zero_iff [OF assms] memcmp_anti [of u x n] by (simp_all add: attr_cmp_def compare_string_def Let_def)

lemma successor_le:
  fixes w a :: "byte list"
  assumes "w \<noteq> []" "length a = length w" "last w \<noteq> 255"
  shows "w[length w - 1 := last w + 1] \<le> a \<longleftrightarrow> w < a"
proof -
  obtain p c where w: "w = p @ [c]" using assms(1) by (cases w rule: rev_cases) auto
  obtain q d where a: "a = q @ [d]" "length p = length q" using assms(2) w by (cases a rule: rev_cases) auto
  have "c \<noteq> - 1"
  proof
    assume "c = - 1"
    also have "\<dots> = (255 :: byte)" by simp
    finally show False using assms(3) w by simp
  qed
  then have "c + 1 \<le> d \<longleftrightarrow> c < d" by (simp add: inc_less_eq_iff)
  then show ?thesis using less_append_same [OF a(2), of "[c + 1]" "[d]"] less_append_same [OF a(2), of "[c]" "[d]"]
    by (auto simp: w a(1) le_less)
qed

subsection \<open>What a bound of a scan means\<close>

text \<open>
  The value of a bound on a string attribute of \<open>n\<close> bytes: the bytes of the key, filled up with zeros as the attribute is, or longer than the attribute. The entries
  a bound is meant to let through are those whose attribute lies on its right side; \<open>incl\<close> says whether the value itself belongs to the range.
\<close>

definition bound_string :: "nat \<Rightarrow> byte list \<times> int \<Rightarrow> byte list" where
  "bound_string n b = take (nat (snd b)) (fst b) @ replicate (n - nat (snd b)) 0"

definition right_of :: "AttrType \<Rightarrow> nat \<Rightarrow> byte list \<times> int \<Rightarrow> bool \<Rightarrow> key \<Rightarrow> bool" where
  "right_of t n b incl x \<longleftrightarrow>
     (if t = CHARS then bound_string n b < take n x \<or> incl \<and> take n x = bound_string n b
      else read_i32 (nth (fst b)) 0 < read_i32 (nth x) 0 \<or> incl \<and> read_i32 (nth x) 0 = read_i32 (nth (fst b)) 0)"

definition left_of :: "AttrType \<Rightarrow> nat \<Rightarrow> byte list \<times> int \<Rightarrow> bool \<Rightarrow> key \<Rightarrow> bool" where
  "left_of t n b incl x \<longleftrightarrow>
     (if t = CHARS then take n x < bound_string n b \<or> incl \<and> take n x = bound_string n b
      else read_i32 (nth x) 0 < read_i32 (nth (fst b)) 0 \<or> incl \<and> read_i32 (nth x) 0 = read_i32 (nth (fst b)) 0)"

text \<open>
  What a right bound shorter than the attribute lets through besides: the attributes that begin with the key, because the key is filled up with bytes 255.
\<close>

definition begins_with :: "AttrType \<Rightarrow> nat \<Rightarrow> byte list \<times> int \<Rightarrow> bool \<Rightarrow> key \<Rightarrow> bool" where
  "begins_with t n b incl x \<longleftrightarrow> t = CHARS \<and> snd b < int n \<and> take (nat (snd b)) x = take (nat (snd b)) (fst b) \<and>
     (incl \<or> drop (nat (snd b)) (take n x) \<noteq> replicate (n - nat (snd b)) 255)"

text \<open>
  The keys the scanner takes: at least as many bytes as the comparator reads, integers whose differences do not wrap, and a key longer than the attribute is a
  string without a zero byte; as a left bound its byte at the end of the attribute can be increased (the code assumes characters of ASCII).
\<close>

definition bound_ok :: "AttrType \<Rightarrow> nat \<Rightarrow> bool \<Rightarrow> byte list \<times> int \<Rightarrow> bool" where
  "bound_ok t n left b \<longleftrightarrow> user_key_ok t n (fst b) \<and>
     (t = CHARS \<longrightarrow> 0 \<le> snd b \<and> nat (snd b) \<le> length (fst b) \<and>
        (int n < snd b \<longrightarrow> 0 < n \<and> (\<forall>c \<in> set (take (nat (snd b)) (fst b)). c \<noteq> 0) \<and> (left \<longrightarrow> fst b ! (n - 1) \<noteq> 255)))"

lemma bound_key_left:
  assumes h: "header_type h t n" and u: "user_key_ok t n u" and x: "key_ok t n x" "incl \<or> key_rid n x \<noteq> RID_max"
  shows "key_cmp t n x (make_key h u (if incl then RID_min else RID_max)) \<ge> 0 \<longleftrightarrow> attr_cmp t n x u > 0 \<or> incl \<and> attr_cmp t n x u = 0"
proof -
  have len: "n \<le> length u" using u by (simp add: user_key_ok_def)
  note a = attr_cmp_make_key [OF h u, of _ x]
  note p = make_key_parts(2) [OF h len]
  have "RID_ok (key_rid n x)" using x(1) by (simp add: key_ok_def)
  moreover have "RID_compare (key_rid n x) RID_max < 0" if "\<not> incl"
    using RID_compare_zero [of "key_rid n x" RID_max] RID_bounds(2) RID_bounds(4) [of "key_rid n x"] x(2) that calculation by linarith
  ultimately show ?thesis using RID_bounds(3) a [of RID_min] a [of RID_max] p [of RID_min] p [of RID_max] RID_bounds(1,2)
    by (auto simp: key_cmp_def lex_cmp_def)
qed

lemma bound_key_right:
  assumes h: "header_type h t n" and u: "user_key_ok t n u" and x: "key_ok t n x" "incl \<or> key_rid n x \<noteq> RID_min"
  shows "key_cmp t n x (make_key h u (if incl then RID_max else RID_min)) \<le> 0 \<longleftrightarrow> attr_cmp t n x u < 0 \<or> incl \<and> attr_cmp t n x u = 0"
proof -
  have len: "n \<le> length u" using u by (simp add: user_key_ok_def)
  note a = attr_cmp_make_key [OF h u, of _ x]
  note p = make_key_parts(2) [OF h len]
  have "RID_ok (key_rid n x)" using x(1) by (simp add: key_ok_def)
  moreover have "RID_compare (key_rid n x) RID_min > 0" if "\<not> incl"
    using RID_compare_zero [of "key_rid n x" RID_min] RID_bounds(1) RID_bounds(3) [of "key_rid n x"] x(2) that calculation by linarith
  ultimately show ?thesis using RID_bounds(4) a [of RID_min] a [of RID_max] p [of RID_min] p [of RID_max] RID_bounds(1,2)
    by (auto simp: key_cmp_def lex_cmp_def)
qed

text \<open>The three cases of \<open>fix_user_key\<close>: a key that is filled up, one of the length of the attribute, one that is cut.\<close>

lemma fix_user_key_long:
  assumes "header_type h CHARS n" "bound_ok CHARS n left b" "int n < snd b"
  shows "fix_user_key h (fst b) (snd b) g = Some (if g then (take n (fst b))[n - 1 := fst b ! (n - 1) + 1] else take n (fst b), True)"
    "0 < n" "n < nat (snd b)" "nat (snd b) \<le> length (fst b)"
proof -
  let ?u = "fst b" and ?k = "nat (snd b)"
  show k: "0 < n" "n < ?k" "?k \<le> length ?u" using assms by (simp_all add: bound_ok_def)
  have nz: "\<forall>c \<in> set (take ?k ?u). c \<noteq> 0" using assms(2,3) by (simp add: bound_ok_def)
  have "takeWhile (\<lambda>c. c \<noteq> 0) ?u = take ?k ?u @ takeWhile (\<lambda>c. c \<noteq> 0) (drop ?k ?u)"
    using nz takeWhile_append2 [of "take ?k ?u" "\<lambda>c. c \<noteq> 0" "drop ?k ?u"] by simp
  then have "\<not> length (takeWhile (\<lambda>c. c \<noteq> 0) ?u) < ?k" using k(3) by simp
  moreover have "?u ! n \<in> set (take ?k ?u)" using k by (metis length_take min.absorb2 nth_mem nth_take)
  ultimately show "fix_user_key h ?u (snd b) g = Some (if g then (take n ?u)[n - 1 := ?u ! (n - 1) + 1] else take n ?u, True)"
    using assms(1,3) nz k by (auto simp: fix_user_key_def header_type_def Let_def)
qed

lemma fix_user_key_short:
  assumes "header_type h CHARS n" "snd b \<le> int n"
  shows "fix_user_key h (fst b) (snd b) g = Some (take (nat (snd b)) (fst b) @ replicate (n - nat (snd b)) (if g then 0 else 255), False)"
  using assms by (simp add: fix_user_key_def header_type_def Let_def)

lemma long_string:
  assumes "n < k" "k \<le> length u" "length a = n"
  shows "take k u @ replicate (n - k) 0 < a \<longleftrightarrow> take n u < a" "a < take k u @ replicate (n - k) 0 \<longleftrightarrow> a \<le> take n u"
    "a \<noteq> take k u @ replicate (n - k) (0 :: byte)"
proof -
  have k: "take k u = take n u @ drop n (take k u)" "drop n (take k u) \<noteq> []"
    using assms append_take_drop_id [of n "take k u"] by (auto simp: min_def)
  have len: "length (take n u) = length a" using assms by simp
  have "drop n (take k u) < [] \<longleftrightarrow> False" "[] < drop n (take k u)" using k(2) by (cases "drop n (take k u)"; simp)+
  then show "take k u @ replicate (n - k) 0 < a \<longleftrightarrow> take n u < a" "a < take k u @ replicate (n - k) 0 \<longleftrightarrow> a \<le> take n u"
    using less_append_same [OF len, of "drop n (take k u)" "[]"] less_append_same [OF len [symmetric], of "[]" "drop n (take k u)"] k(1) assms(1) by (auto simp: le_less)
  show "a \<noteq> take k u @ replicate (n - k) 0" using assms by (auto dest: arg_cong [where f = length])
qed

lemma left_bound_means:
  assumes h: "header_type h t n" and b: "bound_ok t n True b"
  obtains f incl' where "fix_bound h b incl True = Some (f, incl')" "user_key_ok t n f" "incl \<longrightarrow> incl'"
    "\<And>x. key_ok t n x \<Longrightarrow> attr_cmp t n x f > 0 \<or> incl' \<and> attr_cmp t n x f = 0 \<longleftrightarrow> right_of t n b incl x"
proof (cases "t = CHARS")
  case False
  have u: "user_key_ok t n (fst b)" using b by (simp add: bound_ok_def)
  show thesis
  proof (rule that)
    show "fix_bound h b incl True = Some (fst b, incl)" using h False by (simp add: fix_bound_def header_type_def)
    show "attr_cmp t n x (fst b) > 0 \<or> incl \<and> attr_cmp t n x (fst b) = 0 \<longleftrightarrow> right_of t n b incl x" if "key_ok t n x" for x
      using that u False by (auto simp: attr_cmp_def compare_int_def sub_i32_small user_key_ok_def key_ok_def attr_ok_def right_of_def)
  qed (use u in simp_all)
next
  case True
  let ?u = "fst b" and ?k = "nat (snd b)"
  note h = h [unfolded True] and b = b [unfolded True]
  have u: "n \<le> length ?u" using b by (simp add: bound_ok_def user_key_ok_def)
  have a: "length (take n x) = n" "n \<le> length x" if "key_ok CHARS n x" for x using that by (simp_all add: key_ok_def attr_ok_def)
  show thesis
  proof (cases "snd b \<le> int n")
    case short: True
    let ?f = "bound_string n b"
    have len: "length ?f = n" using u short by (simp add: bound_string_def nat_le_iff)
    show thesis
    proof (rule that [unfolded True])
      show "fix_bound h b incl True = Some (?f, incl)" using h fix_user_key_short [OF h short, of True] by (simp add: fix_bound_def header_type_def bound_string_def)
      show "user_key_ok CHARS n ?f" "incl \<longrightarrow> incl" using len by (simp_all add: user_key_ok_def)
      show "attr_cmp CHARS n x ?f > 0 \<or> incl \<and> attr_cmp CHARS n x ?f = 0 \<longleftrightarrow> right_of CHARS n b incl x" if x: "key_ok CHARS n x" for x
        using attr_cmp_chars [OF a(2) [OF x], of ?f] len by (simp add: right_of_def)
    qed
  next
    case False
    then have k: "int n < snd b" by simp
    note f = fix_user_key_long [OF h b k]
    let ?w = "take n ?u"
    let ?f = "?w[n - 1 := ?u ! (n - 1) + 1]"
    have w: "length ?w = n" "?w \<noteq> []" using u f(2) by auto
    then have w: "length ?w = n" "?w \<noteq> []" "last ?w = ?u ! (n - 1)" using last_conv_nth [of ?w] f(2) by simp_all
    have nz: "last ?w \<noteq> 255" using b k w(3) by (simp add: bound_ok_def)
    show thesis
    proof (rule that [unfolded True])
      show "fix_bound h b incl True = Some (?f, True)" using h f(1) [of True] by (simp add: fix_bound_def header_type_def)
      show "user_key_ok CHARS n ?f" "incl \<longrightarrow> True" using w(1) by (simp_all add: user_key_ok_def)
      show "attr_cmp CHARS n x ?f > 0 \<or> True \<and> attr_cmp CHARS n x ?f = 0 \<longleftrightarrow> right_of CHARS n b incl x" if x: "key_ok CHARS n x" for x
      proof -
        have "attr_cmp CHARS n x ?f > 0 \<or> attr_cmp CHARS n x ?f = 0 \<longleftrightarrow> ?f \<le> take n x"
          using attr_cmp_chars [OF a(2) [OF x], of ?f] w(1) by (auto simp: le_less)
        also have "\<dots> \<longleftrightarrow> ?w < take n x" using successor_le [OF w(2) _ nz, of "take n x"] a(1) [OF x] w(1,3) by simp
        also have "\<dots> \<longleftrightarrow> right_of CHARS n b incl x" using long_string [OF f(3,4) a(1) [OF x]] by (simp add: right_of_def bound_string_def)
        finally show ?thesis by simp
      qed
    qed
  qed
qed

lemma right_bound_means:
  assumes h: "header_type h t n" and b: "bound_ok t n False b"
  obtains f incl' where "fix_bound h b incl False = Some (f, incl')" "user_key_ok t n f" "incl \<longrightarrow> incl'"
    "\<And>x. key_ok t n x \<Longrightarrow> attr_cmp t n x f < 0 \<or> incl' \<and> attr_cmp t n x f = 0 \<longleftrightarrow> left_of t n b incl x \<or> begins_with t n b incl x"
proof (cases "t = CHARS")
  case False
  have u: "user_key_ok t n (fst b)" using b by (simp add: bound_ok_def)
  show thesis
  proof (rule that)
    show "fix_bound h b incl False = Some (fst b, incl)" using h False by (simp add: fix_bound_def header_type_def)
    show "attr_cmp t n x (fst b) < 0 \<or> incl \<and> attr_cmp t n x (fst b) = 0 \<longleftrightarrow> left_of t n b incl x \<or> begins_with t n b incl x" if "key_ok t n x" for x
      using that u False by (auto simp: attr_cmp_def compare_int_def sub_i32_small user_key_ok_def key_ok_def attr_ok_def left_of_def begins_with_def)
  qed (use u in simp_all)
next
  case True
  let ?u = "fst b" and ?k = "nat (snd b)"
  note h = h [unfolded True] and b = b [unfolded True]
  have u: "n \<le> length ?u" using b by (simp add: bound_ok_def user_key_ok_def)
  have a: "length (take n x) = n" "n \<le> length x" if "key_ok CHARS n x" for x using that by (simp_all add: key_ok_def attr_ok_def)
  show thesis
  proof (cases "snd b \<le> int n")
    case short: True
    let ?f = "take ?k ?u @ replicate (n - ?k) 255"
    have "?k \<le> n" using short by (simp add: nat_le_iff)
    then have k: "?k \<le> n" "length (take ?k ?u) = ?k" using u by simp_all
    show thesis
    proof (rule that [unfolded True])
      show "fix_bound h b incl False = Some (?f, incl)" using h fix_user_key_short [OF h short, of False] by (simp add: fix_bound_def header_type_def)
      show "user_key_ok CHARS n ?f" "incl \<longrightarrow> incl" using k by (simp_all add: user_key_ok_def)
      show "attr_cmp CHARS n x ?f < 0 \<or> incl \<and> attr_cmp CHARS n x ?f = 0 \<longleftrightarrow> left_of CHARS n b incl x \<or> begins_with CHARS n b incl x" if x: "key_ok CHARS n x" for x
      proof -
        define q r v F Z where "q = take ?k x" and "r = drop ?k (take n x)" and "v = take ?k ?u" and "F = replicate (n - ?k) (255 :: byte)"
          and "Z = replicate (n - ?k) (0 :: byte)"
        note defs = q_def r_def v_def F_def Z_def
        have x': "take n x = q @ r" "length q = length v" "length r = n - ?k"
          using k a [OF x] append_take_drop_id [of ?k "take n x"] by (simp_all add: defs min_def)
        have f: "take n ?f = v @ F" "n \<le> length ?f" using k by (simp_all add: defs)
        have "r < F \<longleftrightarrow> r \<noteq> F" "\<not> r < Z" using ones_greatest [of r] zeros_least [of r] x'(3) by (auto simp: defs)
        then have less: "take n x < v @ F \<longleftrightarrow> q < v \<or> q = v \<and> r \<noteq> F" "take n x < v @ Z \<longleftrightarrow> q < v"
          unfolding x'(1) less_append_same [OF x'(2)] by simp_all
        have eq: "take n x = v @ F \<longleftrightarrow> q = v \<and> r = F" "take n x = v @ Z \<longleftrightarrow> q = v \<and> r = Z" unfolding x'(1) using x'(2) by simp_all
        have bs: "bound_string n b = v @ Z" by (simp add: bound_string_def defs)
        have bw: "begins_with CHARS n b incl x \<longleftrightarrow> snd b < int n \<and> q = v \<and> (incl \<or> r \<noteq> F)" by (simp add: begins_with_def defs)
        have full: "r = F" "Z = F" if "\<not> snd b < int n" using that short x'(3) by (simp_all add: defs)
        have "attr_cmp CHARS n x ?f < 0 \<longleftrightarrow> take n x < v @ F" "attr_cmp CHARS n x ?f = 0 \<longleftrightarrow> take n x = v @ F"
          using attr_cmp_chars [OF a(2) [OF x] f(2)] f(1) by simp_all
        then show ?thesis unfolding bw left_of_def bs less eq using full by (cases "snd b < int n") auto
      qed
    qed
  next
    case False
    then have k: "int n < snd b" by simp
    note f = fix_user_key_long [OF h b k]
    show thesis
    proof (rule that [unfolded True])
      show "fix_bound h b incl False = Some (take n ?u, True)" using h f(1) [of False] by (simp add: fix_bound_def header_type_def)
      show "user_key_ok CHARS n (take n ?u)" "incl \<longrightarrow> True" using u by (simp_all add: user_key_ok_def)
      show "attr_cmp CHARS n x (take n ?u) < 0 \<or> True \<and> attr_cmp CHARS n x (take n ?u) = 0 \<longleftrightarrow> left_of CHARS n b incl x \<or> begins_with CHARS n b incl x"
        if x: "key_ok CHARS n x" for x
        using attr_cmp_chars [OF a(2) [OF x], of "take n ?u"] long_string [OF f(3,4) a(1) [OF x]] u k
        by (auto simp: left_of_def begins_with_def bound_string_def le_less)
    qed
  qed
qed

text \<open>The keys of the scanner and the bounds they stand for.\<close>

lemma scan_bounds_mean:
  fixes li ri :: bool
  assumes h: "header_type h t n" and xs: "\<forall>x \<in> set xs. key_ok t n (fst x) \<and> (li \<or> key_rid n (fst x) \<noteq> RID_max) \<and> (ri \<or> key_rid n (fst x) \<noteq> RID_min)"
    and b: "pred_option (bound_ok t n True) left" "pred_option (bound_ok t n False) right"
    and lk_def: "lk = map_option (\<lambda>b. left_bound h b li) left" and rk_def: "rk = map_option (\<lambda>b. right_bound h b ri) right"
  shows "pred_option (\<lambda>b. fix_bound h b li True \<noteq> None) left" "pred_option (\<lambda>b. fix_bound h b ri False \<noteq> None) right"
    "pred_option (key_ok t n) lk" "pred_option (key_ok t n) rk"
    "index_range (key_cmp t n) lk rk xs =
      filter (\<lambda>x. pred_option (\<lambda>b. right_of t n b li (fst x)) left \<and> pred_option (\<lambda>b. left_of t n b ri (fst x) \<or> begins_with t n b ri (fst x)) right) xs"
proof -
  have l: "fix_bound h b li True \<noteq> None \<and> key_ok t n (left_bound h b li) \<and>
      (\<forall>x \<in> set xs. key_cmp t n (fst x) (left_bound h b li) \<ge> 0 \<longleftrightarrow> right_of t n b li (fst x))" if lb: "left = Some b" for b
  proof -
    obtain f incl' where f: "fix_bound h b li True = Some (f, incl')" "user_key_ok t n f" "li \<longrightarrow> incl'"
      "\<And>x. key_ok t n x \<Longrightarrow> attr_cmp t n x f > 0 \<or> incl' \<and> attr_cmp t n x f = 0 \<longleftrightarrow> right_of t n b li x"
      using left_bound_means [OF h, of b li] b(1) lb by auto
    have lb: "left_bound h b li = make_key h f (if incl' then RID_min else RID_max)" using f(1) by (simp add: left_bound_def Let_def)
    show ?thesis unfolding lb using f(1,3,4) make_key_ok [OF h f(2)] RID_bounds(1,2) bound_key_left [OF h f(2), of _ incl'] xs by auto
  qed
  have r: "fix_bound h b ri False \<noteq> None \<and> key_ok t n (right_bound h b ri) \<and>
      (\<forall>x \<in> set xs. key_cmp t n (fst x) (right_bound h b ri) \<le> 0 \<longleftrightarrow> left_of t n b ri (fst x) \<or> begins_with t n b ri (fst x))" if rb: "right = Some b" for b
  proof -
    obtain f incl' where f: "fix_bound h b ri False = Some (f, incl')" "user_key_ok t n f" "ri \<longrightarrow> incl'"
      "\<And>x. key_ok t n x \<Longrightarrow> attr_cmp t n x f < 0 \<or> incl' \<and> attr_cmp t n x f = 0 \<longleftrightarrow> left_of t n b ri x \<or> begins_with t n b ri x"
      using right_bound_means [OF h, of b ri] b(2) rb by auto
    have rb: "right_bound h b ri = make_key h f (if incl' then RID_max else RID_min)" using f(1) by (simp add: right_bound_def Let_def)
    show ?thesis unfolding rb using f(1,3,4) make_key_ok [OF h f(2)] RID_bounds(1,2) bound_key_right [OF h f(2), of _ incl'] xs by auto
  qed
  show "pred_option (\<lambda>b. fix_bound h b li True \<noteq> None) left" "pred_option (\<lambda>b. fix_bound h b ri False \<noteq> None) right"
    "pred_option (key_ok t n) lk" "pred_option (key_ok t n) rk"
    using l r by (cases left; cases right; simp add: lk_def rk_def)+
  show "index_range (key_cmp t n) lk rk xs =
      filter (\<lambda>x. pred_option (\<lambda>b. right_of t n b li (fst x)) left \<and> pred_option (\<lambda>b. left_of t n b ri (fst x) \<or> begins_with t n b ri (fst x)) right) xs"
    unfolding index_range_def
    by (rule filter_cong) (use l r in \<open>cases left; cases right; auto simp: lk_def rk_def\<close>)+
qed

end
