(* ===== verification/BplusContract.thy ===== *)
theory BplusContract
  imports BplusKeys
begin

section \<open>The contract of the B+ tree index\<close>

text \<open>
  With the order of its key comparator the handler implements the abstract index, and no eviction of a frame loses an insertion.
\<close>

subsection \<open>Looking up a value\<close>

lemma attr_cmp_self: "attr_cmp t n u u = 0"
  by (simp add: attr_cmp_def compare_string_def memcmp_refl compare_int_def sub_i32_def)

lemma fix_bound_exact:
  assumes "header_type h t n" "user_key_ok t n u"
  shows "\<exists>k. fix_bound h (u, int n) True g = Some (k, True) \<and> make_key h k = make_key h u"
  using assms by (auto simp: fix_bound_def fix_user_key_def header_type_def user_key_ok_def make_key_def fun_eq_iff)

lemma get_entry_index:
  assumes idx: "bt_index (key_cmp t n) (key_ok t n) l s xs" and h: "header_type (bt_header s) t n" and u: "user_key_ok t n u"
  shows "get_entry (attr_cmp t n) (key_cmp t n) u (int n) s = Some (SUCCESS, map snd (filter (\<lambda>x. attr_cmp t n (fst x) u = 0) xs))"
proof -
  let ?b = "Some (u, int n)"
  obtain k1 k2 where k: "fix_bound (bt_header s) (u, int n) True True = Some (k1, True)" "make_key (bt_header s) k1 = make_key (bt_header s) u"
    "fix_bound (bt_header s) (u, int n) True False = Some (k2, True)" "make_key (bt_header s) k2 = make_key (bt_header s) u"
    using fix_bound_exact [OF h u] by metis
  have lb: "left_bound (bt_header s) (u, int n) True = make_key (bt_header s) u RID_min"
    "right_bound (bt_header s) (u, int n) True = make_key (bt_header s) u RID_max"
    using k by (simp_all add: left_bound_def right_bound_def Let_def)
  have ok: "key_ok t n (make_key (bt_header s) u RID_min)" "key_ok t n (make_key (bt_header s) u RID_max)"
    using make_key_ok [OF h u] RID_bounds by simp_all
  show ?thesis
  proof (cases "xs = [] \<and> bt_empty s")
    case True
    then have "bt_is_empty s" by (simp add: bt_empty_def bt_is_empty_def)
    then have "sc_open_left (key_cmp t n) ?b True s sc = Some (SUCCESS, True, sc\<lparr>sc_current := None\<rparr>)" for sc
      using k(1,2) by (simp add: sc_open_left_def find_leaf_def find_leaf_internal_def Let_def)
    then have "sc_open (attr_cmp t n) (key_cmp t n) ?b True ?b True s sc_new = Some (SUCCESS, sc_new\<lparr>sc_inited := True, sc_first_emitted := False, sc_current := None\<rparr>)"
      by (simp add: sc_open_def sc_new_def attr_cmp_self Let_def)
    moreover have "sc_next_entry (key_cmp t n) s (sc\<lparr>sc_current := None\<rparr>) = Some (RECORD_EOF, None, sc\<lparr>sc_current := None\<rparr>)" for sc
      by (subst sc_next_entry.simps) simp
    then have "get_entry_loop (key_cmp t n) s (sc\<lparr>sc_current := None\<rparr>) [] = Some (SUCCESS, [])" for sc
      by (subst get_entry_loop.simps) simp
    ultimately show ?thesis using True by (simp add: get_entry_def)
  next
    case False
    then obtain tr where tr: "bt_ok (key_cmp t n) (key_ok t n) s tr" "xs = tflat tr" using idx by (auto simp: bt_index_def)
    obtain sc' where "sc_open (attr_cmp t n) (key_cmp t n) ?b True ?b True s sc_new = Some (SUCCESS, sc')"
      "get_entry_loop (key_cmp t n) s sc' [] =
        Some (SUCCESS, map snd (index_range (key_cmp t n) (Some (make_key (bt_header s) u RID_min)) (Some (make_key (bt_header s) u RID_max)) xs))"
      using idx.scan_collects [OF tr(1), of sc_new "Some (make_key (bt_header s) u RID_min)" True ?b "Some (make_key (bt_header s) u RID_max)" True ?b "attr_cmp t n"]
        k lb ok attr_cmp_self tr(2) by (auto simp: sc_new_def)
    moreover have "\<forall>x \<in> set xs. key_ok t n (fst x)"
      using idx.tord_flat [of t n None None tr] tr by (auto simp: bt_ok_def leaf_ok_def)
    then have "index_range (key_cmp t n) (Some (make_key (bt_header s) u RID_min)) (Some (make_key (bt_header s) u RID_max)) xs =
        filter (\<lambda>x. attr_cmp t n (fst x) u = 0) xs"
      using key_between [OF h u] by (auto simp: index_range_def intro!: filter_cong)
    ultimately show ?thesis by (simp add: get_entry_def)
  qed
qed

subsection \<open>A small index\<close>

text \<open>An index on an integer attribute with one full leaf, on which the properties are instantiated.\<close>

definition demo_index_header :: IndexFileHeader where
  "demo_index_header = \<lparr>fh_root_page = 2, fh_internal_max_size = 3, fh_leaf_max_size = 2, fh_attr_length = 4, fh_key_length = 12, fh_attr_type = INTS\<rparr>"

definition demo_rid :: "int \<Rightarrow> RID" where
  "demo_rid i = \<lparr>page_num = 1, slot_num = i\<rparr>"

definition demo_user_key :: "byte \<Rightarrow> byte list" where
  "demo_user_key b = [b, 0, 0, 0]"

definition demo_entry :: "byte \<Rightarrow> int \<Rightarrow> key \<times> RID" where
  "demo_entry b i = (make_key demo_index_header (demo_user_key b) (demo_rid i), demo_rid i)"

definition demo_index :: BplusTreeHandler where
  "demo_index = \<lparr>bt_header = demo_index_header, bt_header_dirty = False,
     bt_pages = [2 \<mapsto> LeafNode \<lparr>lf_parent = BP_INVALID_PAGE_NUM, lf_next_brother = BP_INVALID_PAGE_NUM, lf_array = [demo_entry 1 0, demo_entry 3 1]\<rparr>],
     bt_dirty = {}, bt_disposed = [], bt_fault = (\<lambda>_. SUCCESS), bt_alloc_fault = SUCCESS\<rparr>"

lemma demo_header: "header_type demo_index_header INTS 4" "bt_header demo_index = demo_index_header"
  by (simp_all add: header_type_def demo_index_header_def demo_index_def)

lemma demo_read: "b \<in> {1, 2, 3} \<Longrightarrow> read_i32 (nth (demo_user_key b)) 0 = uint b"
  by (auto simp: demo_user_key_def read_i32_def read_w32_def word32_of_bytes_def)

lemma demo_user_key_ok: "b \<in> {1, 2, 3} \<Longrightarrow> user_key_ok INTS 4 (demo_user_key b)"
  using demo_read [of b] by (auto simp: user_key_ok_def small_i32_def demo_user_key_def)

lemma demo_rid_ok: "0 \<le> i \<Longrightarrow> i < 100 \<Longrightarrow> RID_ok (demo_rid i)"
  by (simp add: RID_ok_def demo_rid_def nonneg_i32_def)

lemma demo_entry_parts:
  assumes "b \<in> {1, 2, 3}" "0 \<le> i" "i < 100"
  shows "read_i32 (nth (fst (demo_entry b i))) 0 = uint b" "key_rid 4 (fst (demo_entry b i)) = demo_rid i" "small_i32 (uint b)"
    "key_ok INTS 4 (fst (demo_entry b i))"
  using make_key_parts [OF demo_header(1) _ demo_rid_ok [OF assms(2,3)], of "demo_user_key b"] demo_read [OF assms(1)] demo_user_key_ok [OF assms(1)]
    make_key_ok [OF demo_header(1) demo_user_key_ok [OF assms(1)] demo_rid_ok [OF assms(2,3)]]
  by (simp_all add: demo_entry_def user_key_ok_def)

lemma demo_attr:
  assumes "a \<in> {1, 2, 3}" "b \<in> {1, 2, 3}" "0 \<le> i" "i < 100"
  shows "attr_cmp INTS 4 (fst (demo_entry a i)) (demo_user_key b) = uint a - uint b"
  using demo_entry_parts [OF assms(1,3,4)] demo_read [OF assms(2)] demo_user_key_ok [OF assms(2)]
  by (simp add: attr_cmp_def compare_int_def sub_i32_small user_key_ok_def)

lemma demo_cmp:
  assumes "a \<in> {1, 2, 3}" "b \<in> {1, 2, 3}" "0 \<le> i" "i < 100" "0 \<le> j" "j < 100"
  shows "key_cmp INTS 4 (fst (demo_entry a i)) (fst (demo_entry b j)) = (if a = b then i - j else uint a - uint b)"
proof -
  note pa = demo_entry_parts [OF assms(1,3,4)] and pb = demo_entry_parts [OF assms(2,5,6)]
  have "attr_cmp INTS 4 (fst (demo_entry a i)) (fst (demo_entry b j)) = uint a - uint b"
    using pa pb by (simp add: attr_cmp_def compare_int_def sub_i32_small)
  moreover have "RID_compare (demo_rid i) (demo_rid j) = i - j"
    using assms(3-6) by (simp add: RID_compare_def demo_rid_def sub_i32_nonneg nonneg_i32_def)
  ultimately show ?thesis
    using pa(2) pb(2) word_uint_eq_iff [of a b] by (auto simp: key_cmp_def lex_cmp_def)
qed

lemma demo_index_ok: "bt_index (key_cmp INTS 4) (key_ok INTS 4) 0 demo_index [demo_entry 1 0, demo_entry 3 1]"
proof -
  have "key_ok INTS 4 (fst (demo_entry 1 0))" "key_ok INTS 4 (fst (demo_entry 3 1))" by (simp_all add: demo_entry_parts)
  moreover have "key_cmp INTS 4 (fst (demo_entry 1 0)) (fst (demo_entry 3 1)) < 0" by (simp add: demo_cmp)
  ultimately have "bt_ok (key_cmp INTS 4) (key_ok INTS 4) demo_index (TLeaf 2 [demo_entry 1 0, demo_entry 3 1])"
    by (auto simp: bt_ok_def demo_index_def no_fault_def max_sizes_def demo_index_header_def leaf_ok_def nxt_def)
  then show ?thesis by (auto simp: bt_index_def)
qed

lemma demo_free: "1 < free_count (bt_pages demo_index)"
proof -
  have "{3, 4} \<subseteq> {i. 2 \<le> i \<and> i < nat MAX_PAGE_NUM \<and> bt_pages demo_index (int i) = None}"
    by (auto simp: demo_index_def MAX_PAGE_NUM_def BP_PAGE_DATA_SIZE_def)
  from card_mono [OF finite_free this] show ?thesis by (simp add: free_count_def)
qed

subsection \<open>Properties\<close>

text \<open>
  Property C8: inserting into the index. On a handler that represents an index with the entries \<open>xs\<close>, and
  with enough free pages for every level to split, \<open>insert_entry\<close> returns. When the key (attribute and
  record) is there already, it returns \<open>RECORD_DUPLICATE_KEY\<close> and changes nothing. Otherwise it returns
  \<open>SUCCESS\<close>, and the handler represents the index with the entry put at its place: the tree is again
  ordered, balanced, within the node capacities, with right parent pages and leaf links, however many
  nodes were split. Every frame that was changed is marked dirty: when all nodes in clean frames were on the
  disk as they are in memory, they still are, so that evicting frames loses nothing.
\<close>

theorem btree_insert_refines:
  assumes "header_type (bt_header s) t n" "bt_index (key_cmp t n) (key_ok t n) l s xs"
    "user_key_ok t n user_key" "RID_ok rid" "l + 1 < free_count (bt_pages s)"
  shows "\<exists>rc s'. insert_entry (key_comparator cf (bt_header s)) (Some user_key) (Some rid) s = Some (rc, s') \<and>
    (if index_has (key_cmp t n) (make_key (bt_header s) user_key rid) xs then rc = RECORD_DUPLICATE_KEY \<and> s' = s
     else rc = SUCCESS \<and> (\<exists>l'. bt_index (key_cmp t n) (key_ok t n) l' s'
       (index_insert (key_cmp t n) (make_key (bt_header s) user_key rid) rid xs))) \<and>
    (\<forall>disk. bt_saved disk s \<longrightarrow> bt_saved disk s')"
  unfolding comparators_eq [OF assms(1)]
  using idx.insert_entry_index [OF assms(2) refl make_key_ok [OF assms(1,3,4)] assms(5)] insert_entry_saved by metis

theorem btree_insert_refines_witness:
  "\<exists>s' l'. insert_entry (key_comparator (\<lambda>_ _. 0) demo_index_header) (Some (demo_user_key 2)) (Some (demo_rid 7)) demo_index = Some (SUCCESS, s') \<and>
     bt_index (key_cmp INTS 4) (key_ok INTS 4) l' s' [demo_entry 1 0, demo_entry 2 7, demo_entry 3 1] \<and> bt_saved (bt_pages demo_index) s'"
proof -
  let ?k = "make_key demo_index_header (demo_user_key 2) (demo_rid 7)"
  have k: "?k = fst (demo_entry 2 7)" "demo_entry 2 7 = (?k, demo_rid 7)" by (simp_all add: demo_entry_def)
  have "\<not> index_has (key_cmp INTS 4) ?k [demo_entry 1 0, demo_entry 3 1]" unfolding k(1) by (simp add: index_has_def demo_cmp)
  moreover have "index_insert (key_cmp INTS 4) ?k (demo_rid 7) [demo_entry 1 0, demo_entry 3 1] = [demo_entry 1 0, demo_entry 2 7, demo_entry 3 1]"
    unfolding k(2) unfolding k(1) by (simp add: index_insert_def demo_cmp)
  moreover have "header_type (bt_header demo_index) INTS 4" "bt_saved (bt_pages demo_index) demo_index" using demo_header by (simp_all add: bt_saved_def)
  ultimately show ?thesis
    using btree_insert_refines [of demo_index INTS 4 0 "[demo_entry 1 0, demo_entry 3 1]" "demo_user_key 2" "demo_rid 7" "\<lambda>_ _. 0"]
      demo_index_ok demo_user_key_ok [of 2] demo_rid_ok [of 7] demo_free demo_header(2) by auto
qed

subsubsection \<open>Deleting\<close>

text \<open>
  Two leaves under a root, as the pages are after insertions and a \<open>sync\<close>. Deleting the smallest entry of the second leaf merges the leaves.
\<close>

definition demo_header4 :: IndexFileHeader where
  "demo_header4 = demo_index_header\<lparr>fh_root_page := 4, fh_internal_max_size := 6, fh_leaf_max_size := 4\<rparr>"

definition demo_pair :: BplusTreeHandler where
  "demo_pair = demo_index\<lparr>bt_header := demo_header4,
     bt_pages := [2 \<mapsto> LeafNode \<lparr>lf_parent = 4, lf_next_brother = 3, lf_array = [demo_entry 1 0, demo_entry 1 1]\<rparr>,
       3 \<mapsto> LeafNode \<lparr>lf_parent = 4, lf_next_brother = BP_INVALID_PAGE_NUM, lf_array = [demo_entry 2 0, demo_entry 3 0]\<rparr>,
       4 \<mapsto> InternalNode \<lparr>in_parent = BP_INVALID_PAGE_NUM, in_array = [(replicate 12 0, 2), (fst (demo_entry 2 0), 3)]\<rparr>]\<rparr>"

lemma demo_header4: "header_type demo_header4 INTS 4" "make_key demo_header4 = make_key demo_index_header" "bt_header demo_pair = demo_header4"
  using demo_header(1) by (simp_all add: demo_header4_def demo_pair_def header_type_def make_key_def fun_eq_iff)

lemma demo_pair_ok: "bt_index (key_cmp INTS 4) (key_ok INTS 4) 1 demo_pair [demo_entry 1 0, demo_entry 1 1, demo_entry 2 0, demo_entry 3 0]"
proof -
  let ?t = "TNode 4 [(replicate 12 0, TLeaf 2 [demo_entry 1 0, demo_entry 1 1]), (fst (demo_entry 2 0), TLeaf 3 [demo_entry 2 0, demo_entry 3 0])]"
  have "bt_ok (key_cmp INTS 4) (key_ok INTS 4) demo_pair ?t"
    by (auto simp: bt_ok_def demo_pair_def demo_header4_def demo_index_def demo_index_header_def no_fault_def max_sizes_def leaf_ok_def nxt_def sep_ok_def
      tords_two demo_cmp demo_entry_parts(4))
  then show ?thesis unfolding bt_index_def by (intro disjI2 exI [of _ ?t]) simp
qed


lemma lower_bound_loop_empty [simp]: "lower_bound_loop cmpf i 0 = (i, False)"
  by (subst lower_bound_loop.simps) simp

lemmas demo_run = bt_leaf_def bt_internal_def bt_get_def bt_set_def bt_mark_def bt_dispose_def lower_bound_def lower_bound_loop_unfold demo_cmp

text \<open>The merge: the pages 3 and 4 are disposed of, and nothing of what is left is marked dirty.\<close>

lemma demo_delete:
  "delete_entry (key_cmp INTS 4) (demo_user_key 2) (demo_rid 0) demo_pair = Some (SUCCESS, demo_pair
     \<lparr>bt_header := demo_header4\<lparr>fh_root_page := 2\<rparr>, bt_header_dirty := True, bt_dirty := {},
      bt_pages := [2 \<mapsto> LeafNode \<lparr>lf_parent = BP_INVALID_PAGE_NUM, lf_next_brother = BP_INVALID_PAGE_NUM, lf_array = [demo_entry 1 0, demo_entry 1 1, demo_entry 3 0]\<rparr>]\<rparr>)"
  (is "_ = Some (SUCCESS, ?e)")
proof -
  let ?k = "fst (demo_entry 2 0)" and ?cmp = "key_cmp INTS 4"
  let ?root = "\<lparr>in_parent = BP_INVALID_PAGE_NUM, in_array = [(replicate 12 0, 2), (?k, 3)]\<rparr>"
  let ?left = "\<lparr>lf_parent = 4, lf_next_brother = 3, lf_array = [demo_entry 1 0, demo_entry 1 1]\<rparr>"
  let ?right = "\<lparr>lf_parent = 4, lf_next_brother = BP_INVALID_PAGE_NUM, lf_array = [demo_entry 2 0, demo_entry 3 0]\<rparr>"
  let ?s = "bt_mark 3 (bt_set 3 (LeafNode (?right\<lparr>lf_array := [demo_entry 3 0]\<rparr>)) demo_pair)"
  let ?c = "bt_dispose 3 (bt_set 2 (LeafNode \<lparr>lf_parent = 4, lf_next_brother = BP_INVALID_PAGE_NUM, lf_array = [demo_entry 1 0, demo_entry 1 1, demo_entry 3 0]\<rparr>)
    (bt_set 3 (LeafNode (?right\<lparr>lf_array := []\<rparr>)) (bt_set 4 (InternalNode (?root\<lparr>in_array := [(replicate 12 0, 2)]\<rparr>)) ?s)))"
  let ?d = "bt_dispose 4 (update_root_page_num_locked 2 (bt_set 2 (LeafNode \<lparr>lf_parent = BP_INVALID_PAGE_NUM, lf_next_brother = BP_INVALID_PAGE_NUM,
    lf_array = [demo_entry 1 0, demo_entry 1 1, demo_entry 3 0]\<rparr>) ?c))"
  have pg [simp]: "bt_pages demo_pair 2 = Some (LeafNode ?left)" "bt_pages demo_pair 3 = Some (LeafNode ?right)" "bt_pages demo_pair 4 = Some (InternalNode ?root)"
    "bt_fault demo_pair p = SUCCESS" "fh_root_page (bt_header demo_pair) = 4" "fh_leaf_max_size (bt_header demo_pair) = 4" "fh_internal_max_size (bt_header demo_pair) = 6"
    "(4 :: int) \<noteq> BP_INVALID_PAGE_NUM" for p
    by (simp_all add: demo_pair_def demo_index_def demo_header4_def BP_INVALID_PAGE_NUM_def)
  have key: "make_key (bt_header demo_pair) (demo_user_key 2) (demo_rid 0) = ?k" by (simp add: demo_header4(2,3) demo_entry_def)
  have lk: "internal_lookup ?cmp (fst (demo_entry b 0)) ?root = (1, b = 2, if b = 2 then 1 else 2)" if "b \<in> {2, 3}" for b
    using that by (auto simp: internal_lookup_def demo_run)
  have "find_leaf_loop g 3 demo_pair = Some (SUCCESS, 3)" for g
    by (subst find_leaf_loop.simps) (simp add: bt_get_def)
  then have "find_leaf ?cmp ?k demo_pair = Some (SUCCESS, 3)"
    unfolding find_leaf_def find_leaf_internal_def
    by (subst find_leaf_loop.simps) (simp add: bt_get_def lk internal_value_at_def bt_is_empty_def)
  moreover have "delete_entry_internal ?cmp 3 ?k demo_pair = coalesce_or_redistribute ?cmp True 3 ?s"
    by (simp add: delete_entry_internal_def leaf_remove_key_def leaf_lookup_def leaf_remove_def nd_min_size_def nd_max_size_def Let_def demo_run)
  moreover have "coalesce_or_redistribute ?cmp True 3 ?s = Option.bind (coalesce True 2 3 4 1 ?s)
      (\<lambda>(rc, s). if rc \<noteq> SUCCESS then Some (rc, s) else coalesce_or_redistribute ?cmp False 4 s)"
    by (subst coalesce_or_redistribute.simps)
      (simp add: demo_run lk nd_min_size_def nd_max_size_def internal_value_at_def leaf_key_at_def Let_def cong: if_cong)
  moreover have "coalesce True 2 3 4 1 ?s = Some (SUCCESS, ?c)"
    by (simp add: coalesce_def demo_run internal_remove_def move_to_def leaf_move_to_def fun_upd_def cong: if_cong)
  moreover have "coalesce_or_redistribute ?cmp False 4 ?c = Some (SUCCESS, ?d)"
    by (subst coalesce_or_redistribute.simps) (simp add: demo_run nd_min_size_def nd_max_size_def adjust_root_def internal_value_at_def Let_def)
  moreover have "bt_release ?d = ?e"
    by (auto simp: bt_release_def demo_run update_root_page_num_locked_def demo_pair_def demo_index_def fun_eq_iff)
  ultimately show ?thesis by (simp add: delete_entry_def key)
qed

lemma merge_loses_changes:
  "\<exists>s'. delete_entry (key_cmp INTS 4) (demo_user_key 2) (demo_rid 0) demo_pair = Some (SUCCESS, s') \<and>
     bt_saved (bt_pages demo_pair) demo_pair \<and> bt_dirty s' = {} \<and> \<not> bt_saved (bt_pages demo_pair) s'"
  unfolding demo_delete by (auto simp: bt_saved_def demo_pair_def intro!: exI [of _ 2])

text \<open>
  Property C9: deleting from the index. On a handler that represents an index, with capacities of at least four
  entries in a leaf and six children in an inner node, \<open>delete_entry\<close> returns and no assertion fails. When the
  entry is there, it returns \<open>SUCCESS\<close> and the nodes in the frames represent the index without it: nodes that
  became too small have borrowed from a sibling or have been merged with it, up to the root, and the superfluous
  pages are disposed of. Otherwise it returns \<open>RECORD_NOT_EXIST\<close> and changes nothing. When no page was disposed
  of, every changed frame is marked dirty, so that evicting frames loses nothing. After a merge this does not hold:
  \<open>coalesce\<close> marks neither the left node nor the parent, and \<open>adjust_root\<close> does not mark the new root. The index
  the frames represent is then lost with the eviction of such a frame; the witness ends in such a state.
\<close>

theorem btree_delete_refines:
  assumes "header_type (bt_header s) t n" "bt_index (key_cmp t n) (key_ok t n) l s xs" "user_key_ok t n user_key" "RID_ok rid"
    "4 \<le> fh_leaf_max_size (bt_header s)" "6 \<le> fh_internal_max_size (bt_header s)"
  shows "\<exists>rc s'. delete_entry (key_comparator cf (bt_header s)) user_key rid s = Some (rc, s') \<and>
    (if index_has (key_cmp t n) (make_key (bt_header s) user_key rid) xs
     then rc = SUCCESS \<and> (\<exists>l'. bt_index (key_cmp t n) (key_ok t n) l' s' (index_delete (key_cmp t n) (make_key (bt_header s) user_key rid) xs)) \<and>
       (dom (bt_pages s') = dom (bt_pages s) \<longrightarrow> (\<forall>disk. bt_saved disk s \<longrightarrow> bt_saved disk s'))
     else rc = RECORD_NOT_EXIST \<and> s' = s)"
proof -
  have "bt_disposed s = []" using assms(2) by (auto simp: bt_index_def bt_ok_def bt_empty_def no_fault_def)
  note saved = delete_entry_saved [OF _ this]
  show ?thesis
    unfolding comparators_eq [OF assms(1)]
    using idx.delete_entry_index [OF assms(2) refl make_key_ok [OF assms(1,3,4)]] assms(5,6) saved by (simp add: max_sizes_def) metis
qed

theorem btree_delete_refines_witness:
  "\<exists>s' l'. delete_entry (key_comparator (\<lambda>_ _. 0) (bt_header demo_pair)) (demo_user_key 2) (demo_rid 0) demo_pair = Some (SUCCESS, s') \<and>
     bt_index (key_cmp INTS 4) (key_ok INTS 4) l' s' [demo_entry 1 0, demo_entry 1 1, demo_entry 3 0] \<and>
     bt_saved (bt_pages demo_pair) demo_pair \<and> \<not> bt_saved (bt_pages demo_pair) s'"
proof -
  let ?k = "make_key (bt_header demo_pair) (demo_user_key 2) (demo_rid 0)" and ?xs = "[demo_entry 1 0, demo_entry 1 1, demo_entry 2 0, demo_entry 3 0]"
  have h: "header_type (bt_header demo_pair) INTS 4" using demo_header4 by simp
  have k: "?k = fst (demo_entry 2 0)" by (simp add: demo_header4(2,3) demo_entry_def)
  have "index_has (key_cmp INTS 4) ?k ?xs" unfolding k by (simp add: index_has_def demo_cmp)
  moreover have "index_delete (key_cmp INTS 4) ?k ?xs = [demo_entry 1 0, demo_entry 1 1, demo_entry 3 0]" unfolding k by (simp add: index_delete_def demo_cmp)
  moreover have "4 \<le> fh_leaf_max_size (bt_header demo_pair)" "6 \<le> fh_internal_max_size (bt_header demo_pair)" by (simp_all add: demo_header4 demo_header4_def)
  ultimately show ?thesis
    using btree_delete_refines [OF h demo_pair_ok demo_user_key_ok [of 2] demo_rid_ok [of 0], of "\<lambda>_ _. 0"] merge_loses_changes
    unfolding comparators_eq [OF h] by auto
qed

subsubsection \<open>Looking up and scanning\<close>

text \<open>
  Property C10: looking up a value. \<open>get_entry\<close> on a handler that represents an index returns the record
  identifiers of exactly the entries whose attribute equals the key, in the order of the index; in
  particular the scan over the leaves ends.
\<close>

theorem btree_get_entry_exact:
  assumes "header_type (bt_header s) t n" "bt_index (key_cmp t n) (key_ok t n) l s xs" "user_key_ok t n user_key"
  shows "get_entry (attr_comparator cf (bt_header s)) (key_comparator cf (bt_header s)) user_key (int n) s =
    Some (SUCCESS, map snd (filter (\<lambda>x. attr_cmp t n (fst x) user_key = 0) xs))"
  unfolding comparators_eq [OF assms(1)] by (rule get_entry_index [OF assms(2,1,3)])

theorem btree_get_entry_exact_witness:
  "get_entry (attr_comparator (\<lambda>_ _. 0) demo_index_header) (key_comparator (\<lambda>_ _. 0) demo_index_header) (demo_user_key 3) 4 demo_index =
     Some (SUCCESS, [demo_rid 1])"
proof -
  have "header_type (bt_header demo_index) INTS 4" using demo_header by simp
  from btree_get_entry_exact [OF this demo_index_ok demo_user_key_ok [of 3], of "\<lambda>_ _. 0"] show ?thesis
    by (simp add: demo_header(2) demo_attr) (simp add: demo_entry_def)
qed

text \<open>
  Property C11: range scans. Opening a scan between two bounds (either may be missing) on a non-empty index
  succeeds when the bounds are a valid range, and collecting what \<open>next_entry\<close> returns until it says
  \<open>RECORD_EOF\<close> gives the record identifiers, in order, of exactly the entries whose attribute is on the right side of
  both bounds: compared as an integer, or as a string of the length of the attribute in which a shorter key is
  filled up with zeros (\<open>right_of\<close>, \<open>left_of\<close>). There is one deviation (\<open>begins_with\<close>): a right bound
  shorter than the attribute also lets through every attribute that begins with it, whether it is inclusive or
  not. The keys of a composite index want this of an inclusive bound; the strings of the test \<open>test_chars\<close> do not.
  Without an inclusive bound a record identifier that is the smallest or largest one cannot be told from the bound.
\<close>

theorem btree_scan_range:
  assumes "header_type (bt_header s) t n" "bt_index (key_cmp t n) (key_ok t n) l s xs" "xs \<noteq> []" "\<not> sc_inited sc"
    "pred_option (bound_ok t n True) left" "pred_option (bound_ok t n False) right"
    "\<forall>x \<in> set xs. (li \<or> key_rid n (fst x) \<noteq> RID_max) \<and> (ri \<or> key_rid n (fst x) \<noteq> RID_min)"
    "left = None \<or> right = None \<or> attr_cmp t n (fst (the left)) (fst (the right)) < 0 \<or>
       attr_cmp t n (fst (the left)) (fst (the right)) = 0 \<and> li \<and> ri"
  shows "\<exists>sc'. sc_open (attr_comparator cf (bt_header s)) (key_comparator cf (bt_header s)) left li right ri s sc = Some (SUCCESS, sc') \<and>
    get_entry_loop (key_comparator cf (bt_header s)) s sc' [] = Some (SUCCESS, map snd (filter (\<lambda>x.
      pred_option (\<lambda>b. right_of t n b li (fst x)) left \<and>
      pred_option (\<lambda>b. left_of t n b ri (fst x) \<or> begins_with t n b ri (fst x)) right) xs))"
proof -
  obtain tr where tr: "bt_ok (key_cmp t n) (key_ok t n) s tr" "xs = tflat tr" using assms(2,3) by (auto simp: bt_index_def)
  have "\<forall>x \<in> set xs. key_ok t n (fst x)" using idx.tord_flat [of t n None None tr] tr by (auto simp: bt_ok_def leaf_ok_def)
  then have ok: "\<forall>x \<in> set xs. key_ok t n (fst x) \<and> (li \<or> key_rid n (fst x) \<noteq> RID_max) \<and> (ri \<or> key_rid n (fst x) \<noteq> RID_min)"
    using assms(7) by blast
  note m = scan_bounds_mean [OF assms(1) ok assms(5,6) refl refl]
  show ?thesis
    unfolding comparators_eq [OF assms(1)] m(5) [symmetric] unfolding tr(2)
    by (rule idx.scan_collects [OF tr(1) assms(4) refl refl]) (use m(1-4) assms(8) in \<open>auto simp: option.pred_set\<close>)
qed

text \<open>The index of the test \<open>test_chars\<close>: strings of eight bytes, at most four entries in a leaf, five insertions.\<close>

definition chars_header :: IndexFileHeader where
  "chars_header = \<lparr>fh_root_page = 4, fh_internal_max_size = 4, fh_leaf_max_size = 4, fh_attr_length = 8, fh_key_length = 16, fh_attr_type = CHARS\<rparr>"

definition abcdefg :: "byte list" where
  "abcdefg = [97, 98, 99, 100, 101, 102, 103, 0]"

definition abcdefga :: "byte list" where
  "abcdefga = [97, 98, 99, 100, 101, 102, 103, 97]"

definition digits8 :: "byte list" where
  "digits8 = [49, 50, 51, 52, 53, 54, 55, 56]"

definition chars_rid :: "int \<Rightarrow> RID" where
  "chars_rid i = \<lparr>page_num = 0, slot_num = i\<rparr>"

definition chars_entry :: "byte list \<Rightarrow> int \<Rightarrow> key \<times> RID" where
  "chars_entry u i = (make_key chars_header u (chars_rid i), chars_rid i)"

definition chars_index :: BplusTreeHandler where
  "chars_index = demo_index\<lparr>bt_header := chars_header,
     bt_pages := [2 \<mapsto> LeafNode \<lparr>lf_parent = 4, lf_next_brother = 3, lf_array = [chars_entry digits8 1, chars_entry digits8 2]\<rparr>,
       3 \<mapsto> LeafNode \<lparr>lf_parent = 4, lf_next_brother = BP_INVALID_PAGE_NUM, lf_array = [chars_entry abcdefg 0, chars_entry abcdefg 3, chars_entry abcdefga 4]\<rparr>,
       4 \<mapsto> InternalNode \<lparr>in_parent = BP_INVALID_PAGE_NUM, in_array = [(replicate 16 0, 2), (fst (chars_entry abcdefg 0), 3)]\<rparr>]\<rparr>"

abbreviation "chars_entries \<equiv> [chars_entry digits8 1, chars_entry digits8 2, chars_entry abcdefg 0, chars_entry abcdefg 3, chars_entry abcdefga 4]"

lemma chars_header: "header_type chars_header CHARS 8" "bt_header chars_index = chars_header"
  by (simp_all add: header_type_def chars_header_def chars_index_def)

lemma chars_parts:
  assumes "length u = 8" "0 \<le> i" "i < 100"
  shows "take 8 (fst (chars_entry u i)) = u" "key_rid 8 (fst (chars_entry u i)) = chars_rid i" "key_ok CHARS 8 (fst (chars_entry u i))"
    "length (fst (chars_entry u i)) = 16"
proof -
  have "RID_ok (chars_rid i)" using assms by (simp add: RID_ok_def chars_rid_def nonneg_i32_def)
  then show "take 8 (fst (chars_entry u i)) = u" "key_rid 8 (fst (chars_entry u i)) = chars_rid i" "key_ok CHARS 8 (fst (chars_entry u i))"
    "length (fst (chars_entry u i)) = 16"
    using make_key_parts [OF chars_header(1), of u "chars_rid i"] make_key_ok [OF chars_header(1), of u "chars_rid i"] assms(1)
    by (simp_all add: chars_entry_def user_key_ok_def)
qed

lemma chars_cmp:
  assumes "length u = 8" "length v = 8" "0 \<le> i" "i < 100" "0 \<le> j" "j < 100"
  shows "key_cmp CHARS 8 (fst (chars_entry u i)) (fst (chars_entry v j)) < 0 \<longleftrightarrow> u < v \<or> u = v \<and> i < j"
    "key_cmp CHARS 8 (fst (chars_entry u i)) (fst (chars_entry v j)) \<le> 0 \<longleftrightarrow> u < v \<or> u = v \<and> i \<le> j"
proof -
  note p = chars_parts [OF assms(1,3,4)] chars_parts [OF assms(2,5,6)]
  have "RID_compare (chars_rid i) (chars_rid j) < 0 \<longleftrightarrow> i < j" "RID_compare (chars_rid i) (chars_rid j) \<le> 0 \<longleftrightarrow> i \<le> j"
    using assms(3-6) by (simp_all add: RID_compare_def chars_rid_def sub_i32_nonneg nonneg_i32_def)
  then show "key_cmp CHARS 8 (fst (chars_entry u i)) (fst (chars_entry v j)) < 0 \<longleftrightarrow> u < v \<or> u = v \<and> i < j"
    "key_cmp CHARS 8 (fst (chars_entry u i)) (fst (chars_entry v j)) \<le> 0 \<longleftrightarrow> u < v \<or> u = v \<and> i \<le> j"
    using attr_cmp_chars [of 8 "fst (chars_entry u i)" "fst (chars_entry v j)"] p by (auto simp: key_cmp_def lex_cmp_def)
qed

lemma chars_less: "length abcdefg = 8" "length abcdefga = 8" "length digits8 = 8" "digits8 < abcdefg" "digits8 < abcdefga" "abcdefg < abcdefga"
  by (simp_all add: abcdefg_def abcdefga_def digits8_def)

lemma chars_index_ok: "bt_index (key_cmp CHARS 8) (key_ok CHARS 8) 1 chars_index chars_entries"
proof -
  let ?t = "TNode 4 [(replicate 16 0, TLeaf 2 [chars_entry digits8 1, chars_entry digits8 2]),
    (fst (chars_entry abcdefg 0), TLeaf 3 [chars_entry abcdefg 0, chars_entry abcdefg 3, chars_entry abcdefga 4])]"
  have "bt_ok (key_cmp CHARS 8) (key_ok CHARS 8) chars_index ?t"
    by (auto simp: bt_ok_def chars_index_def chars_header_def demo_index_def no_fault_def max_sizes_def leaf_ok_def nxt_def sep_ok_def
      tords_two chars_cmp chars_parts(3) chars_less)
  then show ?thesis unfolding bt_index_def by (intro disjI2 exI [of _ ?t]) simp
qed

text \<open>The scan of the test, between \<open>abcdefg\<close> and \<open>abcdefg\<close> of length 7, finds three records; the test expects two.\<close>

theorem btree_scan_range_witness:
  "\<exists>sc'. sc_open (attr_comparator (\<lambda>_ _. 0) chars_header) (key_comparator (\<lambda>_ _. 0) chars_header)
      (Some (abcdefg, 7)) True (Some (abcdefg, 7)) True chars_index sc_new = Some (SUCCESS, sc') \<and>
    get_entry_loop (key_comparator (\<lambda>_ _. 0) chars_header) chars_index sc' [] = Some (SUCCESS, [chars_rid 0, chars_rid 3, chars_rid 4])"
proof -
  have h: "header_type (bt_header chars_index) CHARS 8" using chars_header by simp
  have b: "bound_ok CHARS 8 g (abcdefg, 7)" for g by (simp add: bound_ok_def user_key_ok_def chars_less)
  have v: "bound_string 8 (abcdefg, 7) = abcdefg" by (simp add: bound_string_def abcdefg_def)
  have sat: "right_of CHARS 8 (abcdefg, 7) True (fst (chars_entry u i)) \<longleftrightarrow> abcdefg \<le> u"
    "left_of CHARS 8 (abcdefg, 7) True (fst (chars_entry u i)) \<longleftrightarrow> u \<le> abcdefg"
    "begins_with CHARS 8 (abcdefg, 7) True (fst (chars_entry u i)) \<longleftrightarrow> take 7 u = take 7 abcdefg" if "length u = 8" "0 \<le> i" "i < 100" for u i
  proof -
    note p = chars_parts(1) [OF that]
    have "take 7 (fst (chars_entry u i)) = take 7 u" using arg_cong [OF p, of "take 7"] by simp
    then show "right_of CHARS 8 (abcdefg, 7) True (fst (chars_entry u i)) \<longleftrightarrow> abcdefg \<le> u"
      "left_of CHARS 8 (abcdefg, 7) True (fst (chars_entry u i)) \<longleftrightarrow> u \<le> abcdefg"
      "begins_with CHARS 8 (abcdefg, 7) True (fst (chars_entry u i)) \<longleftrightarrow> take 7 u = take 7 abcdefg"
      using p v by (auto simp: right_of_def left_of_def begins_with_def le_less)
  qed
  have "abcdefg \<le> digits8 \<longleftrightarrow> False" "abcdefg \<le> abcdefga" "take 7 abcdefga = take 7 abcdefg" using chars_less by (auto simp: abcdefg_def abcdefga_def)
  then have "filter (\<lambda>x. right_of CHARS 8 (abcdefg, 7) True (fst x) \<and> (left_of CHARS 8 (abcdefg, 7) True (fst x) \<or> begins_with CHARS 8 (abcdefg, 7) True (fst x)))
      chars_entries = [chars_entry abcdefg 0, chars_entry abcdefg 3, chars_entry abcdefga 4]"
    by (simp add: sat chars_less(1-3))
  then show ?thesis
    using btree_scan_range [OF h chars_index_ok, of sc_new "Some (abcdefg, 7)" "Some (abcdefg, 7)" True True "\<lambda>_ _. 0"] b
    by (simp add: chars_header(2) sc_new_def attr_cmp_self) (simp add: chars_entry_def)
qed

end
