(* ===== verification/RecordFile.thy ===== *)
theory RecordFile
  imports RecordPage PoolContract
begin

section \<open>Files of records (record_manager.cpp: RecordPageHandler, RecordFileHandler, RecordFileScanner)\<close>

text \<open>
  A record file is a buffer pool whose pages, but for the header page, are record pages. What the code
  relies on is the contract of the pool (\<open>PoolContract\<close>): a page keeps its content, fetching it pins its
  frame, allocation returns a page that is not in use with one pin, and the page iterator visits the pages in use
  in ascending order. The state here is the map from the page numbers of the file to frames, with their pins
  and latches, and the set of pages in use; a page that is not in use can be fetched all the same, as the pool does not check.
  \<open>rf_fault\<close>, \<open>rf_alloc_fault\<close> and \<open>rf_flush_fault\<close> are the codes the pool answers with, so every error path
  is a branch. Which element \<open>std::unordered_set\<close> yields first is not specified: \<open>pick\<close> is a parameter. The
  mutex of the file handler does nothing in the build modelled. \<^const>\<open>None\<close> is a failed assertion.
\<close>

subsection \<open>The pages\<close>

record RecordFileHandler =
  rf_open :: bool
  rf_free_pages :: "int set"
  rf_pages :: "int \<Rightarrow> Frame option"
  rf_used :: "int set"
  rf_fault :: "int \<Rightarrow> RC"
  rf_alloc_fault :: RC
  rf_flush_fault :: RC

definition rf_set :: "int \<Rightarrow> Frame \<Rightarrow> RecordFileHandler \<Rightarrow> RecordFileHandler" where
  "rf_set p f s = s\<lparr>rf_pages := (rf_pages s)(p \<mapsto> f)\<rparr>"

definition rf_get_page :: "int \<Rightarrow> RecordFileHandler \<Rightarrow> RC \<times> RecordFileHandler" where
  "rf_get_page p s =
     (if rf_fault s p \<noteq> SUCCESS then (rf_fault s p, s)
      else case rf_pages s p of
        None \<Rightarrow> (IOERR_READ, s)
      | Some f \<Rightarrow> (SUCCESS, rf_set p (pin f) s))"

definition rf_unpin :: "int \<Rightarrow> RecordFileHandler \<Rightarrow> RecordFileHandler option" where
  "rf_unpin p s = do { f \<leftarrow> rf_pages s p; f \<leftarrow> unpin f; Some (rf_set p f s) }"

text \<open>The next page in use behind a page, \<open>-1\<close> when there is none (BufferPoolIterator).\<close>

definition rf_next_page :: "int \<Rightarrow> RecordFileHandler \<Rightarrow> int" where
  "rf_next_page cur s = first_from (\<lambda>i. int i \<in> rf_used s) (Suc (nat cur)) (nat MAX_PAGE_NUM)"

text \<open>The lowest unused page: one of the file with what it holds, or a new page of zeros behind the end.\<close>

definition rf_allocate :: "RecordFileHandler \<Rightarrow> RC \<times> int \<times> RecordFileHandler" where
  "rf_allocate s =
     (if rf_alloc_fault s \<noteq> SUCCESS then (rf_alloc_fault s, BP_INVALID_PAGE_NUM, s)
      else let p = first_from (\<lambda>i. int i \<notin> rf_used s) 1 (nat MAX_PAGE_NUM) in
        if p = - 1 then (BUFFERPOOL_NOBUF, BP_INVALID_PAGE_NUM, s)
        else let f = (case rf_pages s p of Some f \<Rightarrow> f | None \<Rightarrow> set_page_num p (clear_page new_frame))
          in (SUCCESS, p, rf_set p (pin f) (s\<lparr>rf_used := insert p (rf_used s)\<rparr>)))"

subsection \<open>RecordPageHandler\<close>

text \<open>The handler of a page: the page it holds (pinned and latched), if any, and how.\<close>

record RecordPageHandler =
  rph_page :: "int option"
  rph_readonly :: bool

definition rph_new :: RecordPageHandler where
  "rph_new = \<lparr>rph_page = None, rph_readonly = False\<rparr>"

definition rph_latch :: "int \<Rightarrow> int \<Rightarrow> bool \<Rightarrow> RecordFileHandler \<Rightarrow> RecordFileHandler option" where
  "rph_latch xid p readonly s = do {
     f \<leftarrow> rf_pages s p;
     f \<leftarrow> (if readonly then read_latch xid f else write_latch xid f);
     Some (rf_set p f s)
   }"

definition rph_init ::
  "int \<Rightarrow> int \<Rightarrow> bool \<Rightarrow> RecordPageHandler \<Rightarrow> RecordFileHandler \<Rightarrow> (RC \<times> RecordPageHandler \<times> RecordFileHandler) option" where
  "rph_init xid p readonly h s =
     (if rph_page h \<noteq> None then Some (RECORD_OPENNED, h, s)
      else case rf_get_page p s of (ret, s) \<Rightarrow>
        if ret \<noteq> SUCCESS then Some (ret, h, s)
        else do {
          s \<leftarrow> rph_latch xid p readonly s;
          Some (ret, \<lparr>rph_page = Some p, rph_readonly = readonly\<rparr>, s)
        })"

text \<open>\<open>recover_page\<close> marks the page as used.\<close>

definition rph_recover_init ::
  "int \<Rightarrow> int \<Rightarrow> RecordPageHandler \<Rightarrow> RecordFileHandler \<Rightarrow> (RC \<times> RecordPageHandler \<times> RecordFileHandler) option" where
  "rph_recover_init xid p h s =
     (if rph_page h \<noteq> None then Some (RECORD_OPENNED, h, s)
      else case rf_get_page p s of (ret, s) \<Rightarrow>
        if ret \<noteq> SUCCESS then Some (ret, h, s)
        else do {
          s \<leftarrow> rph_latch xid p False s;
          Some (ret, \<lparr>rph_page = Some p, rph_readonly = False\<rparr>, s\<lparr>rf_used := insert p (rf_used s)\<rparr>)
        })"

text \<open>Flushing writes the page and clears its dirty flag.\<close>

definition rph_init_empty_page ::
  "int \<Rightarrow> int \<Rightarrow> int \<Rightarrow> RecordPageHandler \<Rightarrow> RecordFileHandler \<Rightarrow> (RC \<times> RecordPageHandler \<times> RecordFileHandler) option" where
  "rph_init_empty_page xid p record_size h s = do {
     (ret, h, s) \<leftarrow> rph_init xid p False h s;
     if ret \<noteq> SUCCESS then Some (ret, h, s)
     else do {
       f \<leftarrow> rf_pages s p;
       m \<leftarrow> rp_format (fr_data f) record_size;
       s \<leftarrow> Some (rf_set p (set_data m f) s);
       if rf_flush_fault s \<noteq> SUCCESS then Some (rf_flush_fault s, h, s)
       else Some (SUCCESS, h, rf_set p (clear_dirty (set_data m f)) s)
     }
   }"

definition rph_cleanup :: "int \<Rightarrow> RecordPageHandler \<Rightarrow> RecordFileHandler \<Rightarrow> (RecordPageHandler \<times> RecordFileHandler) option" where
  "rph_cleanup xid h s =
     (case rph_page h of
        None \<Rightarrow> Some (h, s)
      | Some p \<Rightarrow> do {
          f \<leftarrow> rf_pages s p;
          f \<leftarrow> (if rph_readonly h then read_unlatch xid f else write_unlatch xid f);
          s \<leftarrow> rf_unpin p (rf_set p f s);
          Some (h\<lparr>rph_page := None\<rparr>, s)
        })"

subsection \<open>RecordFileHandler\<close>

partial_function (option) init_free_loop :: "int \<Rightarrow> int \<Rightarrow> RecordFileHandler \<Rightarrow> (RC \<times> RecordFileHandler) option" where
  "init_free_loop xid cur s =
     (let current_page_num = rf_next_page cur s in
      if current_page_num = - 1 then Some (SUCCESS, s)
      else Option.bind (rph_init xid current_page_num True rph_new s) (\<lambda>(rc, h, s).
        if rc \<noteq> SUCCESS then Some (rc, s)
        else Option.bind (rf_pages s current_page_num) (\<lambda>f.
          let s = (if is_full (fr_data f) then s else s\<lparr>rf_free_pages := insert current_page_num (rf_free_pages s)\<rparr>) in
          Option.bind (rph_cleanup xid h s) (\<lambda>(_, s). init_free_loop xid current_page_num s))))"

definition init_free_pages :: "int \<Rightarrow> RecordFileHandler \<Rightarrow> (RC \<times> RecordFileHandler) option" where
  "init_free_pages xid s = init_free_loop xid 0 s"

text \<open>The result of \<open>init_free_pages\<close> is logged and dropped.\<close>

definition rf_init :: "int \<Rightarrow> RecordFileHandler \<Rightarrow> (RC \<times> RecordFileHandler) option" where
  "rf_init xid s =
     (if rf_open s then Some (RECORD_OPENNED, s)
      else do { (_, s) \<leftarrow> init_free_pages xid (s\<lparr>rf_open := True\<rparr>); Some (SUCCESS, s) })"

definition rf_close :: "RecordFileHandler \<Rightarrow> RecordFileHandler" where
  "rf_close s = (if rf_open s then s\<lparr>rf_free_pages := {}, rf_open := False\<rparr> else s)"

text \<open>The search for a page with room: the page it stops at stays held.\<close>

partial_function (option) find_room ::
  "(int set \<Rightarrow> int) \<Rightarrow> int \<Rightarrow> RecordFileHandler \<Rightarrow> (RC \<times> RecordPageHandler \<times> RecordFileHandler) option" where
  "find_room pick xid s =
     (if rf_free_pages s = {} then Some (SUCCESS, rph_new, s)
      else let current_page_num = pick (rf_free_pages s) in
        Option.bind (rph_init xid current_page_num False rph_new s) (\<lambda>(ret, h, s).
        if ret \<noteq> SUCCESS then Some (ret, h, s)
        else Option.bind (rf_pages s current_page_num) (\<lambda>f.
          if \<not> is_full (fr_data f) then Some (SUCCESS, h, s)
          else Option.bind (rph_cleanup xid h s) (\<lambda>(_, s).
            find_room pick xid (s\<lparr>rf_free_pages := rf_free_pages s - {current_page_num}\<rparr>)))))"

text \<open>The last step of \<open>insert_record\<close>, and the destructor of the page handler.\<close>

definition rph_insert_record ::
  "int \<Rightarrow> RecordPageHandler \<Rightarrow> byte list \<Rightarrow> RecordFileHandler \<Rightarrow> (RC \<times> RID option \<times> RecordFileHandler) option" where
  "rph_insert_record xid h data s = do {
     p \<leftarrow> rph_page h;
     f \<leftarrow> rf_pages s p;
     (rc, rid, f) \<leftarrow> rp_insert_record (rph_readonly h) f data;
     (_, s) \<leftarrow> rph_cleanup xid h (rf_set p f s);
     Some (rc, rid, s)
   }"

definition rf_insert_record ::
  "(int set \<Rightarrow> int) \<Rightarrow> int \<Rightarrow> byte list \<Rightarrow> int \<Rightarrow> RecordFileHandler \<Rightarrow> (RC \<times> RID option \<times> RecordFileHandler) option" where
  "rf_insert_record pick xid data record_size s = do {
     (ret, h, s) \<leftarrow> find_room pick xid s;
     if ret \<noteq> SUCCESS then Some (ret, None, s)
     else if rph_page h \<noteq> None then rph_insert_record xid h data s
     else case rf_allocate s of (ret, p, s) \<Rightarrow>
       if ret \<noteq> SUCCESS then Some (ret, None, s)
       else do {
         (ret, h, s) \<leftarrow> rph_init_empty_page xid p record_size h s;
         s \<leftarrow> rf_unpin p s;
         if ret \<noteq> SUCCESS then do { (_, s) \<leftarrow> rph_cleanup xid h s; Some (ret, None, s) }
         else rph_insert_record xid h data (s\<lparr>rf_free_pages := insert p (rf_free_pages s)\<rparr>)
       }
   }"

definition rf_recover_insert_record ::
  "int \<Rightarrow> byte list \<Rightarrow> RID \<Rightarrow> RecordFileHandler \<Rightarrow> (RC \<times> RecordFileHandler) option" where
  "rf_recover_insert_record xid data rid s = do {
     (ret, h, s) \<leftarrow> rph_recover_init xid (page_num rid) rph_new s;
     if ret \<noteq> SUCCESS then Some (ret, s)
     else do {
       f \<leftarrow> rf_pages s (page_num rid);
       (rc, f) \<leftarrow> rp_recover_insert_record f data rid;
       (_, s) \<leftarrow> rph_cleanup xid h (rf_set (page_num rid) f s);
       Some (rc, s)
     }
   }"

text \<open>For an emptied page \<open>delete_record\<close> cleans up itself; the second cleanup then finds nothing to do.\<close>

definition rf_delete_record :: "int \<Rightarrow> RID \<Rightarrow> RecordFileHandler \<Rightarrow> (RC \<times> RecordFileHandler) option" where
  "rf_delete_record xid rid s = do {
     (rc, h, s) \<leftarrow> rph_init xid (page_num rid) False rph_new s;
     if rc \<noteq> SUCCESS then Some (rc, s)
     else do {
       f \<leftarrow> rf_pages s (page_num rid);
       (rc, emptied, f) \<leftarrow> rp_delete_record (rph_readonly h) f rid;
       s \<leftarrow> Some (rf_set (page_num rid) f s);
       (h, s) \<leftarrow> (if emptied then rph_cleanup xid h s else Some (h, s));
       (h, s) \<leftarrow> rph_cleanup xid h s;
       Some (rc, if rc = SUCCESS then s\<lparr>rf_free_pages := insert (page_num rid) (rf_free_pages s)\<rparr> else s)
     }
   }"

definition rf_get_record ::
  "int \<Rightarrow> RID option \<Rightarrow> bool \<Rightarrow> RecordPageHandler \<Rightarrow> RecordFileHandler
     \<Rightarrow> (RC \<times> Record option \<times> RecordPageHandler \<times> RecordFileHandler) option" where
  "rf_get_record xid rid readonly h s =
     (case rid of
        None \<Rightarrow> Some (INVALID_ARGUMENT, None, h, s)
      | Some rid \<Rightarrow> do {
          (ret, h, s) \<leftarrow> rph_init xid (page_num rid) readonly h s;
          if ret \<noteq> SUCCESS then Some (ret, None, h, s)
          else do {
            f \<leftarrow> rf_pages s (page_num rid);
            (ret, rec) \<leftarrow> rp_get_record f rid;
            Some (ret, rec, h, s)
          }
        })"

text \<open>
  The visitor reads the record and may change its bytes in the page; what it leaves in the variables it captures is its
  result, and a failing assertion of it is \<^const>\<open>None\<close>. The frame is not marked dirty.
\<close>

definition rf_visit_record ::
  "int \<Rightarrow> RID \<Rightarrow> bool \<Rightarrow> (Record \<Rightarrow> mem \<Rightarrow> ('a \<times> mem) option) \<Rightarrow> RecordFileHandler \<Rightarrow> (RC \<times> 'a option \<times> RecordFileHandler) option" where
  "rf_visit_record xid rid readonly visitor s = do {
     (rc, h, s) \<leftarrow> rph_init xid (page_num rid) readonly rph_new s;
     if rc \<noteq> SUCCESS then Some (rc, None, s)
     else do {
       f \<leftarrow> rf_pages s (page_num rid);
       (rc, rec) \<leftarrow> rp_get_record f rid;
       (out, s) \<leftarrow> (case rec of
           None \<Rightarrow> Some (None, s)
         | Some rec \<Rightarrow> do { (x, m) \<leftarrow> visitor rec (fr_data f); Some (Some x, rf_set (page_num rid) (set_data m f) s) });
       (_, s) \<leftarrow> rph_cleanup xid h s;
       Some (rc, out, s)
     }
   }"

subsection \<open>RecordFileScanner\<close>

text \<open>
  The scanner holds the page it is on. \<open>cond\<close> is the condition filter and \<open>visit\<close> the transaction's
  \<open>visit_record\<close>, each \<^const>\<open>None\<close> for a null pointer; both see the record and the bytes of its page.
\<close>

record RecordFileScanner =
  rs_readonly :: bool
  rs_current :: int
  rs_handler :: RecordPageHandler
  rs_iterator :: "RecordPageIterator option"
  rs_next :: "Record"

type_synonym rec_filter = "(Record \<Rightarrow> mem \<Rightarrow> bool) option"
type_synonym rec_visit = "(Record \<Rightarrow> mem \<Rightarrow> RC) option"

definition no_record :: Record where
  "no_record = \<lparr>rec_rid = \<lparr>page_num = - 1, slot_num = - 1\<rparr>, rec_data = 0, rec_len = 0\<rparr>"

definition rs_new :: RecordFileScanner where
  "rs_new = \<lparr>rs_readonly = False, rs_current = 0, rs_handler = rph_new, rs_iterator = None, rs_next = no_record\<rparr>"

definition rs_no_next :: "RecordFileScanner \<Rightarrow> RecordFileScanner" where
  "rs_no_next sc = sc\<lparr>rs_next := (rs_next sc)\<lparr>rec_rid := (rec_rid (rs_next sc))\<lparr>slot_num := - 1\<rparr>\<rparr>\<rparr>"

partial_function (option) fetch_next_record_in_page ::
  "rec_filter \<Rightarrow> rec_visit \<Rightarrow> Frame \<Rightarrow> RecordFileScanner \<Rightarrow> RecordPageIterator \<Rightarrow> (RC \<times> RecordFileScanner) option" where
  "fetch_next_record_in_page cond visit f sc it =
     (if \<not> rpi_has_next it then Some (RECORD_EOF, rs_no_next (sc\<lparr>rs_iterator := Some it\<rparr>))
      else case rpi_next f it of (rc, rec, it) \<Rightarrow>
        let sc = sc\<lparr>rs_iterator := Some it, rs_next := rec\<rparr> in
        if rc \<noteq> SUCCESS then Some (rc, sc)
        else if (case cond of None \<Rightarrow> False | Some flt \<Rightarrow> \<not> flt rec (fr_data f)) then fetch_next_record_in_page cond visit f sc it
        else case visit of
          None \<Rightarrow> Some (rc, sc)
        | Some v \<Rightarrow> if v rec (fr_data f) = RECORD_INVISIBLE then fetch_next_record_in_page cond visit f sc it
            else Some (v rec (fr_data f), sc))"

partial_function (option) fetch_next_page ::
  "rec_filter \<Rightarrow> rec_visit \<Rightarrow> int \<Rightarrow> RecordFileScanner \<Rightarrow> RecordFileHandler \<Rightarrow> (RC \<times> RecordFileScanner \<times> RecordFileHandler) option" where
  "fetch_next_page cond visit xid sc s =
     (let page_num = rf_next_page (rs_current sc) s in
      if page_num = - 1 then
        Option.bind (rph_cleanup xid (rs_handler sc) s) (\<lambda>(h, s). Some (RECORD_EOF, (rs_no_next sc)\<lparr>rs_handler := h\<rparr>, s))
      else
        Option.bind (rph_cleanup xid (rs_handler sc) s) (\<lambda>(h, s).
        Option.bind (rph_init xid page_num (rs_readonly sc) h s) (\<lambda>(rc, h, s).
        let sc = sc\<lparr>rs_current := page_num, rs_handler := h\<rparr> in
        if rc \<noteq> SUCCESS then Some (rc, sc, s)
        else Option.bind (rf_pages s page_num) (\<lambda>f.
          Option.bind (fetch_next_record_in_page cond visit f sc (rpi_init f 0)) (\<lambda>(rc, sc).
          if rc \<noteq> RECORD_EOF then Some (rc, sc, s)
          else fetch_next_page cond visit xid sc s)))))"

text \<open>An iterator left from an earlier scan reads a page that is no longer held: undefined unless it is exhausted.\<close>

definition fetch_next_record ::
  "rec_filter \<Rightarrow> rec_visit \<Rightarrow> int \<Rightarrow> RecordFileScanner \<Rightarrow> RecordFileHandler \<Rightarrow> (RC \<times> RecordFileScanner \<times> RecordFileHandler) option" where
  "fetch_next_record cond visit xid sc s =
     (case rs_iterator sc of
        None \<Rightarrow> fetch_next_page cond visit xid sc s
      | Some it \<Rightarrow> do {
          f \<leftarrow> (if rpi_has_next it then Option.bind (rph_page (rs_handler sc)) (rf_pages s) else Some new_frame);
          (rc, sc) \<leftarrow> fetch_next_record_in_page cond visit f sc it;
          if rc \<noteq> RECORD_EOF then Some (rc, sc, s)
          else fetch_next_page cond visit xid sc s
        })"

definition close_scan :: "int \<Rightarrow> RecordFileScanner \<Rightarrow> RecordFileHandler \<Rightarrow> (RecordFileScanner \<times> RecordFileHandler) option" where
  "close_scan xid sc s = do {
     (h, s) \<leftarrow> rph_cleanup xid (rs_handler sc) s;
     Some (sc\<lparr>rs_handler := h\<rparr>, s)
   }"

definition open_scan ::
  "rec_filter \<Rightarrow> rec_visit \<Rightarrow> int \<Rightarrow> bool \<Rightarrow> RecordFileScanner \<Rightarrow> RecordFileHandler \<Rightarrow> (RC \<times> RecordFileScanner \<times> RecordFileHandler) option" where
  "open_scan cond visit xid readonly sc s = do {
     (sc, s) \<leftarrow> close_scan xid sc s;
     (rc, sc, s) \<leftarrow> fetch_next_record cond visit xid (sc\<lparr>rs_readonly := readonly, rs_current := 0\<rparr>) s;
     Some (if rc = RECORD_EOF then SUCCESS else rc, sc, s)
   }"

definition scan_has_next :: "RecordFileScanner \<Rightarrow> bool" where
  "scan_has_next sc \<longleftrightarrow> slot_num (rec_rid (rs_next sc)) \<noteq> - 1"

definition scan_next ::
  "rec_filter \<Rightarrow> rec_visit \<Rightarrow> int \<Rightarrow> RecordFileScanner \<Rightarrow> RecordFileHandler \<Rightarrow> (RC \<times> Record \<times> RecordFileScanner \<times> RecordFileHandler) option" where
  "scan_next cond visit xid sc s = do {
     let record = rs_next sc;
     (rc, sc, s) \<leftarrow> fetch_next_record cond visit xid sc s;
     Some (if rc = RECORD_EOF then SUCCESS else rc, record, sc, s)
   }"

subsection \<open>Content and invariant\<close>

definition page_idle :: "int \<Rightarrow> Frame \<Rightarrow> bool" where
  "page_idle p f \<longleftrightarrow> fr_page_num f = p \<and> 0 \<le> fr_pin f \<and> unlatched f"

text \<open>
  Between two operations no page is latched, every page in use is a well-formed record page, and every one
  with room is known as free.
\<close>

definition rf_ok :: "int \<Rightarrow> RecordFileHandler \<Rightarrow> bool" where
  "rf_ok rs s \<longleftrightarrow> rf_fault s = (\<lambda>_. SUCCESS) \<and> rf_alloc_fault s = SUCCESS \<and> rf_flush_fault s = SUCCESS \<and>
     rf_used s \<subseteq> {1..<MAX_PAGE_NUM} \<and> rf_free_pages s \<subseteq> rf_used s \<and>
     (\<forall>p f. rf_pages s p = Some f \<longrightarrow> page_idle p f) \<and>
     (\<forall>p \<in> rf_used s. \<exists>f. rf_pages s p = Some f \<and> rp_ok (fr_data f) \<and> ph_real_size (fr_data f) = rs \<and>
        (is_full (fr_data f) \<or> p \<in> rf_free_pages s))"

definition rf_content :: "RecordFileHandler \<Rightarrow> RID \<Rightarrow> byte list option" where
  "rf_content s rid =
     (if page_num rid \<in> rf_used s \<and> 0 \<le> slot_num rid
      then Option.bind (rf_pages s (page_num rid)) (\<lambda>f. page_recs (fr_data f) (nat (slot_num rid))) else None)"

text \<open>How often each page is pinned; a page without a frame is not.\<close>

definition rf_pins :: "RecordFileHandler \<Rightarrow> int \<Rightarrow> int" where
  "rf_pins s p = (case rf_pages s p of None \<Rightarrow> 0 | Some f \<Rightarrow> fr_pin f)"

lemma rf_set_simps [simp]:
  "rf_pages (rf_set p f s) = (rf_pages s)(p \<mapsto> f)" "rf_free_pages (rf_set p f s) = rf_free_pages s" "rf_used (rf_set p f s) = rf_used s"
  "rf_fault (rf_set p f s) = rf_fault s" "rf_alloc_fault (rf_set p f s) = rf_alloc_fault s" "rf_flush_fault (rf_set p f s) = rf_flush_fault s"
  "rf_set p f (rf_set p g s) = rf_set p f s"
  by (simp_all add: rf_set_def)

lemma rf_set_same [simp]: "rf_pages s p = Some f \<Longrightarrow> rf_set p f s = s"
  by (simp add: rf_set_def fun_upd_idem)

lemma rf_set_free: "(rf_set p f s)\<lparr>rf_free_pages := F\<rparr> = rf_set p f (s\<lparr>rf_free_pages := F\<rparr>)"
  by (simp add: rf_set_def)

lemma rf_okD:
  assumes "rf_ok rs s"
  shows "rf_fault s p = SUCCESS" "rf_alloc_fault s = SUCCESS" "rf_flush_fault s = SUCCESS" "rf_used s \<subseteq> {1..<MAX_PAGE_NUM}"
    "rf_free_pages s \<subseteq> rf_used s" "rf_pages s q = Some g \<Longrightarrow> page_idle q g"
    "r \<in> rf_used s \<Longrightarrow> \<exists>f. rf_pages s r = Some f \<and> rp_ok (fr_data f) \<and> ph_real_size (fr_data f) = rs \<and> (is_full (fr_data f) \<or> r \<in> rf_free_pages s)"
  using assms unfolding rf_ok_def by auto

subsection \<open>Holding a page\<close>

text \<open>A frame while it is held for writing.\<close>

definition write_held :: "int \<Rightarrow> Frame \<Rightarrow> Frame" where
  "write_held xid f = (pin f)\<lparr>fr_write_locker := xid, fr_write_recursive := 1\<rparr>"

definition with_page :: "Frame \<Rightarrow> Frame \<Rightarrow> Frame" where
  "with_page f g = f\<lparr>fr_page := fr_page g, fr_dirty := fr_dirty g\<rparr>"

lemma write_held_page [simp]: "fr_page (write_held xid f) = fr_page f"
  by (simp add: write_held_def)

lemma idle_with_page: "page_idle p f \<Longrightarrow> fr_page_num g = p \<Longrightarrow> page_idle p (with_page f g)"
  by (simp add: page_idle_def with_page_def unlatched_def)

lemma with_page_page [simp]: "fr_page (with_page f g) = fr_page g"
  by (simp add: with_page_def)

lemma rph_init_write:
  assumes "rf_fault s p = SUCCESS" "rf_pages s p = Some f" "page_idle p f" "rph_page h = None"
  shows "rph_init xid p False h s = Some (SUCCESS, \<lparr>rph_page = Some p, rph_readonly = False\<rparr>, rf_set p (write_held xid f) s)"
proof -
  have "write_latch xid (pin f) = Some (write_held xid f)"
    using assms(3) by (simp add: write_latch_def page_idle_def unlatched_def write_held_def pin_def)
  then show ?thesis using assms by (simp add: rph_init_def rf_get_page_def rph_latch_def)
qed

lemma rph_cleanup_write:
  assumes "page_idle p f" "page_update (write_held xid f) g"
  shows "rph_cleanup xid \<lparr>rph_page = Some p, rph_readonly = False\<rparr> (rf_set p g s) = Some (\<lparr>rph_page = None, rph_readonly = False\<rparr>, rf_set p (with_page f g) s)"
proof -
  have i: "0 \<le> fr_pin f" "unlatched f" using assms(1) by (simp_all add: page_idle_def)
  have "write_latch xid (pin f) = Some (write_held xid f)" using i by (simp add: write_latch_def unlatched_def write_held_def pin_def)
  from write_latch_roundtrip [OF _ _ this assms(2)] i
  have "write_unlatch xid g = Some ((pin f)\<lparr>fr_page := fr_page g, fr_dirty := fr_dirty g\<rparr>)" by simp
  moreover have "(pin f)\<lparr>fr_page := fr_page g, fr_dirty := fr_dirty g\<rparr> = pin (with_page f g)" by (simp add: pin_def with_page_def)
  moreover have "unpin (pin (with_page f g)) = Some (with_page f g)" using i by (intro unpin_pin) (simp_all add: with_page_def unlatched_def)
  ultimately show ?thesis by (simp add: rph_cleanup_def rf_unpin_def)
qed

lemma with_page_held: "with_page f (write_held xid f) = f"
  by (simp add: with_page_def write_held_def pin_def)

lemma rf_pins_simps [simp]: "rf_pins (s\<lparr>rf_free_pages := F\<rparr>) = rf_pins s" "rf_pins (s\<lparr>rf_used := U\<rparr>) = rf_pins s"
  by (simp_all add: rf_pins_def fun_eq_iff)

lemma rf_pins_set: "fr_pin f = rf_pins s p \<Longrightarrow> rf_pins (rf_set p (with_page f g) s) = rf_pins s"
  by (auto simp: rf_pins_def with_page_def fun_eq_iff)

lemma rf_pins_page: "rf_pages s p = Some f \<Longrightarrow> rf_pins s p = fr_pin f"
  by (simp add: rf_pins_def)

text \<open>Replacing the content of one page in use.\<close>

lemma rf_ok_set:
  assumes "rf_ok rs s" "p \<in> rf_used s" "rf_pages s p = Some f" "fr_page_num g = p" "rp_ok (fr_data g)" "ph_real_size (fr_data g) = rs"
    "is_full (fr_data g) \<or> p \<in> rf_free_pages s"
  shows "rf_ok rs (rf_set p (with_page f g) s)"
  using assms idle_with_page [OF rf_okD(6) [OF assms(1,3)] assms(4)] unfolding rf_ok_def by auto

lemma rf_content_set:
  assumes "rf_pages s p = Some f" "p \<in> rf_used s"
    "page_recs (fr_data g) = (page_recs (fr_data f))(i := v)"
  shows "rf_content (rf_set p g s) = (rf_content s)(\<lparr>page_num = p, slot_num = int i\<rparr> := v)"
proof
  fix rid :: RID
  show "rf_content (rf_set p g s) rid = ((rf_content s)(\<lparr>page_num = p, slot_num = int i\<rparr> := v)) rid"
    using assms by (cases rid) (auto simp: rf_content_def)
qed

text \<open>The slots of the pages in use, free or not.\<close>

definition rf_slots :: "RecordFileHandler \<Rightarrow> RID set" where
  "rf_slots s = {r. page_num r \<in> rf_used s \<and> 0 \<le> slot_num r \<and> (\<exists>f. rf_pages s (page_num r) = Some f \<and> slot_num r < ph_capacity (fr_data f))}"

lemma rf_slots_set: "rf_pages s p = Some f \<Longrightarrow> ph_capacity (fr_data g) = ph_capacity (fr_data f) \<Longrightarrow> rf_slots (rf_set p g s) = rf_slots s"
  by (auto simp: rf_slots_def)

lemma rf_slots_free [simp]: "rf_slots (s\<lparr>rf_free_pages := F\<rparr>) = rf_slots s"
  by (simp add: rf_slots_def)

subsection \<open>Insertion\<close>

lemma find_room_correct:
  assumes pick: "\<forall>S. finite S \<and> S \<noteq> {} \<longrightarrow> pick S \<in> S" and ok: "rf_ok rs s"
  shows "\<exists>F. F \<subseteq> rf_free_pages s \<and> rf_ok rs (s\<lparr>rf_free_pages := F\<rparr>) \<and>
    (F = {} \<and> find_room pick xid s = Some (SUCCESS, rph_new, s\<lparr>rf_free_pages := F\<rparr>) \<or>
     (\<exists>p f. p \<in> F \<and> rf_pages s p = Some f \<and> \<not> is_full (fr_data f) \<and>
        find_room pick xid s = Some (SUCCESS, \<lparr>rph_page = Some p, rph_readonly = False\<rparr>, rf_set p (write_held xid f) (s\<lparr>rf_free_pages := F\<rparr>))))"
proof -
  have "finite (rf_free_pages s)" using rf_okD(4,5) [OF ok] by (meson finite_atLeastLessThan_int finite_subset)
  then show ?thesis
    using ok
  proof (induction "rf_free_pages s" arbitrary: s rule: finite_psubset_induct)
    case (psubset s)
    show ?case
    proof (cases "rf_free_pages s = {}")
      case True
      then have "find_room pick xid s = Some (SUCCESS, rph_new, s)" by (subst find_room.simps) simp
      moreover have e: "s\<lparr>rf_free_pages := {}\<rparr> = s" using True by (cases s) simp
      ultimately show ?thesis using True psubset.prems by (intro exI [of _ "{}"], unfold e) simp
    next
      case False
      define p where "p = pick (rf_free_pages s)"
      have p: "p \<in> rf_free_pages s" using pick False psubset.hyps(1) by (simp add: p_def)
      then obtain f where f: "rf_pages s p = Some f" "page_idle p f" using rf_okD(5,6,7) [OF psubset.prems] by blast
      note init = rph_init_write [OF rf_okD(1) [OF psubset.prems] f, of rph_new xid]
      show ?thesis
      proof (cases "is_full (fr_data f)")
        case False
        then have "find_room pick xid s = Some (SUCCESS, \<lparr>rph_page = Some p, rph_readonly = False\<rparr>, rf_set p (write_held xid f) s)"
          using init \<open>rf_free_pages s \<noteq> {}\<close> by (subst find_room.simps) (simp add: p_def [symmetric] Let_def rph_new_def)
        then show ?thesis using False p f(1) psubset.prems by (intro exI [of _ "rf_free_pages s"]) auto
      next
        case True
        let ?s = "s\<lparr>rf_free_pages := rf_free_pages s - {p}\<rparr>"
        have "rph_cleanup xid \<lparr>rph_page = Some p, rph_readonly = False\<rparr> (rf_set p (write_held xid f) s) = Some (\<lparr>rph_page = None, rph_readonly = False\<rparr>, s)"
          using rph_cleanup_write [OF f(2) page_update_refl] f(1) by (simp add: with_page_held)
        then have step: "find_room pick xid s = find_room pick xid ?s"
          using init True \<open>rf_free_pages s \<noteq> {}\<close> by (subst find_room.simps) (simp add: p_def [symmetric] Let_def rph_new_def)
        have "rf_ok rs ?s" using psubset.prems True f(1) unfolding rf_ok_def by (auto; fastforce)
        then show ?thesis using psubset.hyps(2) [of ?s] p step by auto
      qed
    qed
  qed
qed

text \<open>The insertion into the page that is held, and its release.\<close>

lemma insert_held:
  assumes "page_idle p f" "page_update (write_held xid f) g" "fr_page_num g = p" "rp_ok (fr_data g)" "\<not> is_full (fr_data g)"
    "nat (ph_real_size (fr_data g)) \<le> length data"
  shows "\<exists>i g'. rph_insert_record xid \<lparr>rph_page = Some p, rph_readonly = False\<rparr> data (rf_set p g s) =
      Some (SUCCESS, Some \<lparr>page_num = p, slot_num = int i\<rparr>, rf_set p (with_page f g') s) \<and> page_recs (fr_data g) i = None \<and>
    page_recs (fr_data g') = (page_recs (fr_data g))(i \<mapsto> take (nat (ph_real_size (fr_data g))) data) \<and>
    fr_page_num g' = p \<and> rp_ok (fr_data g') \<and> ph_real_size (fr_data g') = ph_real_size (fr_data g)"
proof -
  obtain i where i: "rp_insert_record False g data =
      Some (SUCCESS, Some \<lparr>page_num = fr_page_num g, slot_num = int i\<rparr>, mark_dirty (set_data (put_slot (fr_data g) i data) g))"
    "i < nat (ph_capacity (fr_data g))" "\<not> occupied (fr_data g) i"
    using rp_insert_correct [OF assms(4) _ assms(6)] assms(5) by (auto simp: is_full_def)
  let ?g = "mark_dirty (set_data (put_slot (fr_data g) i data) g)"
  note put = put_slot_correct [OF assms(4) i(2,3) assms(6)]
  have "page_update (write_held xid f) ?g" using assms(2) by (cases f; cases g) (simp add: page_update_def mark_dirty_def set_data_def write_held_def pin_def)
  from rph_cleanup_write [OF assms(1) this]
  have "rph_insert_record xid \<lparr>rph_page = Some p, rph_readonly = False\<rparr> data (rf_set p g s) =
      Some (SUCCESS, Some \<lparr>page_num = p, slot_num = int i\<rparr>, rf_set p (with_page f ?g) s)"
    using i(1) assms(3) by (simp add: rph_insert_record_def)
  moreover have "page_recs (fr_data g) i = None" using i(3) by (simp add: page_recs_def)
  moreover have "fr_page_num ?g = p" using assms(3) by (simp add: set_data_def)
  ultimately show ?thesis using put by (intro exI [of _ i] exI [of _ ?g]) (simp add: same_layout_def)
qed

lemma allocate_cases:
  assumes "rf_ok rs s"
  obtains (full) "rf_allocate s = (BUFFERPOOL_NOBUF, BP_INVALID_PAGE_NUM, s)" "rf_used s = {1..<MAX_PAGE_NUM}"
  | (page) p f where "rf_allocate s = (SUCCESS, p, rf_set p (pin f) (s\<lparr>rf_used := insert p (rf_used s)\<rparr>))" "p \<notin> rf_used s" "1 \<le> p" "p < MAX_PAGE_NUM" "page_idle p f"
      "fr_pin f = rf_pins s p"
proof (cases rule: first_from_cases [where P = "\<lambda>i. int i \<notin> rf_used s" and s = 1 and n = "nat MAX_PAGE_NUM"])
  case none
  have "x \<in> rf_used s" if "1 \<le> x" "x < MAX_PAGE_NUM" for x using none(2) [of "nat x"] that by auto
  then have "rf_used s = {1..<MAX_PAGE_NUM}" using rf_okD(4) [OF assms] by auto
  moreover have "rf_allocate s = (BUFFERPOOL_NOBUF, BP_INVALID_PAGE_NUM, s)" using none(1) rf_okD(2) [OF assms] by (simp add: rf_allocate_def)
  ultimately show ?thesis using full by blast
next
  case (some j)
  define f where "f = (case rf_pages s (int j) of Some f \<Rightarrow> f | None \<Rightarrow> set_page_num (int j) (clear_page new_frame))"
  have "page_idle (int j) f" using rf_okD(6) [OF assms] by (auto simp: f_def page_idle_def clear_page_def new_frame_def unlatched_def set_page_num_def split: option.split)
  moreover have "rf_allocate s = (SUCCESS, int j, rf_set (int j) (pin f) (s\<lparr>rf_used := insert (int j) (rf_used s)\<rparr>))"
    using some(1) rf_okD(2) [OF assms] by (simp add: rf_allocate_def f_def Let_def)
  moreover have "fr_pin f = rf_pins s (int j)" by (simp add: f_def rf_pins_def clear_page_def new_frame_def set_page_num_def split: option.split)
  ultimately show ?thesis using page [of "int j" f] some by simp
qed

lemma init_new_page:
  assumes "page_idle p f" "0 \<le> rs" "rs \<le> 4000" "rf_fault s p = SUCCESS" "rf_flush_fault s = SUCCESS"
  shows "\<exists>s' g. rph_init_empty_page xid p rs rph_new (rf_set p (pin f) s) = Some (SUCCESS, \<lparr>rph_page = Some p, rph_readonly = False\<rparr>, s') \<and>
    rf_unpin p s' = Some (rf_set p g s) \<and> page_update (write_held xid f) g \<and> fr_page_num g = p \<and> rp_ok (fr_data g) \<and>
    \<not> is_full (fr_data g) \<and> page_recs (fr_data g) = Map.empty \<and> ph_real_size (fr_data g) = rs"
proof -
  obtain m where m: "rp_format (fr_data f) rs = Some m" "rp_ok m" "page_recs m = Map.empty" "ph_record_num m = 0" "ph_real_size m = rs"
    "65304 div (8 * align8 rs + 1) \<le> ph_capacity m + 1"
    using rp_format_correct [OF assms(2), of "fr_data f"] assms(3) by auto
  have "align8 rs \<le> 4007" "0 \<le> align8 rs" using align8_bounds [OF assms(2)] assms(2,3) by linarith+
  then have "2 \<le> 65304 div (8 * align8 rs + 1)" using zdiv_mono2 [of 65304 "8 * align8 rs + 1" 32057] by simp
  then have full: "\<not> is_full m" using m(4,6) by (simp add: is_full_def)
  let ?h = "write_held xid (pin f)"
  define g where "g = (clear_dirty (set_data m ?h))\<lparr>fr_pin := fr_pin f + 1\<rparr>"
  have pf: "page_idle p (pin f)" using assms(1) by (simp add: page_idle_def)
  have "rph_init_empty_page xid p rs rph_new (rf_set p (pin f) s) =
      Some (SUCCESS, \<lparr>rph_page = Some p, rph_readonly = False\<rparr>, rf_set p (clear_dirty (set_data m ?h)) s)"
    using rph_init_write [of "rf_set p (pin f) s" p "pin f" rph_new xid] pf assms(4,5) m(1)
    by (simp add: rph_init_empty_page_def rph_new_def)
  moreover have "unpin (clear_dirty (set_data m ?h)) = Some g"
    using assms(1) by (simp add: unpin_def g_def page_idle_def write_held_def clear_dirty_def set_data_def pin_def)
  then have "rf_unpin p (rf_set p (clear_dirty (set_data m ?h)) s) = Some (rf_set p g s)" by (simp add: rf_unpin_def)
  moreover have "page_update (write_held xid f) g" "fr_page_num g = p" "fr_data g = m"
    using assms(1) by (simp_all add: g_def page_update_def write_held_def clear_dirty_def set_data_def pin_def page_idle_def)
  ultimately show ?thesis using m full
    by (intro exI [of _ "rf_set p (clear_dirty (set_data m ?h)) s"] exI [of _ g]) simp
qed

lemma rf_ok_new_page:
  assumes "rf_ok rs s" "p \<notin> rf_used s" "1 \<le> p" "p < MAX_PAGE_NUM" "page_idle p f" "fr_page_num g = p" "rp_ok (fr_data g)" "ph_real_size (fr_data g) = rs"
  shows "rf_ok rs (rf_set p (with_page f g) (s\<lparr>rf_used := insert p (rf_used s), rf_free_pages := insert p (rf_free_pages s)\<rparr>))"
  using assms idle_with_page [OF assms(5,6)] unfolding rf_ok_def by auto

lemma rf_content_new_page:
  assumes "p \<notin> rf_used s" "page_recs (fr_data g) = [i \<mapsto> d]"
  shows "rf_content (rf_set p g (s\<lparr>rf_used := insert p (rf_used s), rf_free_pages := F\<rparr>)) = (rf_content s)(\<lparr>page_num = p, slot_num = int i\<rparr> \<mapsto> d)"
proof
  fix rid :: RID
  show "rf_content (rf_set p g (s\<lparr>rf_used := insert p (rf_used s), rf_free_pages := F\<rparr>)) rid = ((rf_content s)(\<lparr>page_num = p, slot_num = int i\<rparr> \<mapsto> d)) rid"
    using assms by (cases rid) (auto simp: rf_content_def)
qed

lemma rf_content_free [simp]: "rf_content (s\<lparr>rf_free_pages := F\<rparr>) = rf_content s"
  by (simp add: rf_content_def fun_eq_iff)

subsection \<open>Deletion and lookup\<close>

lemma rf_delete_correct:
  assumes "rf_ok rs s" "page_num rid \<in> rf_used s" "0 \<le> slot_num rid" "rf_pages s (page_num rid) = Some f"
  shows "\<exists>rc s'. rf_delete_record xid rid s = Some (rc, s') \<and> rf_ok rs s' \<and> rf_content s' = (rf_content s)(rid := None) \<and>
    rc = (if slot_num rid \<ge> ph_capacity (fr_data f) then INVALID_ARGUMENT
          else if rf_content s rid = None then RECORD_NOT_EXIST else SUCCESS) \<and> rf_slots s' = rf_slots s \<and> rf_pins s' = rf_pins s"
proof -
  let ?p = "page_num rid" and ?i = "nat (slot_num rid)"
  have idle: "page_idle ?p f" and ok: "rp_ok (fr_data f)" "ph_real_size (fr_data f) = rs" and fp: "is_full (fr_data f) \<or> ?p \<in> rf_free_pages s"
    using rf_okD(6) [OF assms(1,4)] rf_okD(7) [OF assms(1,2)] assms(4) by auto
  obtain rc emptied g where g: "rp_delete_record False (write_held xid f) rid = Some (rc, emptied, g)" "rp_ok (fr_data g)"
    "page_update (write_held xid f) g" "page_recs (fr_data g) = (page_recs (fr_data f))(?i := None)"
    "rc = (if slot_num rid \<ge> ph_capacity (fr_data f) then INVALID_ARGUMENT
          else if page_recs (fr_data f) ?i = None then RECORD_NOT_EXIST else SUCCESS)"
    using rp_delete_spec [of "write_held xid f" rid] ok(1) assms(3) unfolding write_held_page by blast
  have kept: "g = write_held xid f \<or> rc = SUCCESS \<and> same_layout (fr_data f) (fr_data g) \<and> fr_page_num g = fr_page_num f"
  proof (cases "slot_num rid \<ge> ph_capacity (fr_data f)")
    case True
    then show ?thesis using g(1) by (simp add: rp_delete_record_def Let_def)
  next
    case False
    then have "rp_delete_record False (write_held xid f) rid = (if occupied (fr_data f) ?i
        then Some (SUCCESS, ph_record_num (fr_data f) = 1, mark_dirty (set_data (drop_slot (fr_data f) ?i) (write_held xid f)))
        else Some (RECORD_NOT_EXIST, False, write_held xid f))"
      using rp_delete_correct [of "write_held xid f" rid ?i] ok(1) assms(3) by simp
    then show ?thesis using g(1) False assms(3) drop_slot_correct(3) [OF ok(1), of ?i] by (cases "occupied (fr_data f) ?i") auto
  qed
  have num: "fr_page_num g = ?p" using kept idle by (auto simp: page_idle_def)
  have rs: "ph_real_size (fr_data g) = rs" using kept ok(2) by (auto simp: same_layout_def)
  note init = rph_init_write [OF rf_okD(1) [OF assms(1)] assms(4) idle, of rph_new xid]
  note clean = rph_cleanup_write [OF idle g(3), of s]
  have twice: "rph_cleanup xid \<lparr>rph_page = None, rph_readonly = False\<rparr> s' = Some (\<lparr>rph_page = None, rph_readonly = False\<rparr>, s')" for s'
    by (simp add: rph_cleanup_def)
  let ?s = "rf_set ?p (with_page f g) s"
  let ?s' = "if rc = SUCCESS then ?s\<lparr>rf_free_pages := insert ?p (rf_free_pages ?s)\<rparr> else ?s"
  have run: "rf_delete_record xid rid s = Some (rc, ?s')"
    using init clean twice g(1) by (cases emptied) (simp_all add: rf_delete_record_def rph_new_def)
  have "rf_ok rs ?s'"
  proof (cases "rc = SUCCESS")
    case True
    have "rf_ok rs (s\<lparr>rf_free_pages := insert ?p (rf_free_pages s)\<rparr>)" using assms(1,2) unfolding rf_ok_def by auto
    then have "rf_ok rs (rf_set ?p (with_page f g) (s\<lparr>rf_free_pages := insert ?p (rf_free_pages s)\<rparr>))"
      using assms(2,4) num g(2) rs by (intro rf_ok_set) simp_all
    then show ?thesis using True by (simp add: rf_set_free)
  next
    case False
    then show ?thesis using kept assms(1,4) by (auto simp: with_page_held)
  qed
  moreover have "rf_content ?s = (rf_content s)(\<lparr>page_num = ?p, slot_num = int ?i\<rparr> := None)"
    using assms(2,4) g(4) by (intro rf_content_set) simp_all
  moreover have "\<lparr>page_num = ?p, slot_num = int ?i\<rparr> = rid" using assms(3) by (cases rid) simp
  ultimately have "rf_ok rs ?s'" "rf_content ?s' = (rf_content s)(rid := None)" by simp_all
  moreover have "rf_slots ?s' = rf_slots s"
    using kept rf_slots_set [OF assms(4), of "with_page f g"] by (auto simp: same_layout_def)
  moreover have "rf_pins ?s' = rf_pins s" using rf_pins_set [of f s ?p g] rf_pins_page [OF assms(4)] by simp
  moreover have "rf_content s rid = page_recs (fr_data f) ?i" using assms(2,3,4) by (simp add: rf_content_def)
  ultimately show ?thesis using run g(5) by (intro exI [of _ rc] exI [of _ ?s']) simp
qed

text \<open>A frame while it is held in either mode.\<close>

definition held :: "bool \<Rightarrow> int \<Rightarrow> Frame \<Rightarrow> Frame" where
  "held readonly xid f = (if readonly then (pin f)\<lparr>fr_read_lockers := [(xid, 1)]\<rparr> else write_held xid f)"

lemma held_page [simp]: "fr_page (held ro xid f) = fr_page f"
  by (simp add: held_def)

lemma rph_hold:
  assumes "page_idle p f" "xid \<noteq> 0" "rf_fault s p = SUCCESS" "rf_pages s p = Some f" "rph_page h = None"
  shows "rph_init xid p ro h s = Some (SUCCESS, \<lparr>rph_page = Some p, rph_readonly = ro\<rparr>, rf_set p (held ro xid f) s)"
    "rph_cleanup xid \<lparr>rph_page = Some p, rph_readonly = ro\<rparr> (rf_set p (held ro xid f) s) = Some (\<lparr>rph_page = None, rph_readonly = ro\<rparr>, s)"
proof -
  have u: "0 \<le> fr_pin f" "unlatched f" using assms(1) by (simp_all add: page_idle_def)
  have "read_latch xid (pin f) = Some ((pin f)\<lparr>fr_read_lockers := [(xid, 1)]\<rparr>)"
    using u assms(2) by (simp add: read_latch_def unlatched_def pin_def)
  moreover have "read_unlatch xid ((pin f)\<lparr>fr_read_lockers := [(xid, 1)]\<rparr>) = Some (pin f)"
    using u by (simp add: read_unlatch_def unlatched_def pin_def)
  ultimately show "rph_init xid p ro h s = Some (SUCCESS, \<lparr>rph_page = Some p, rph_readonly = ro\<rparr>, rf_set p (held ro xid f) s)"
    "rph_cleanup xid \<lparr>rph_page = Some p, rph_readonly = ro\<rparr> (rf_set p (held ro xid f) s) = Some (\<lparr>rph_page = None, rph_readonly = ro\<rparr>, s)"
    using rph_init_write [OF assms(3,4,1,5), of xid] rph_cleanup_write [OF assms(1) page_update_refl, of xid s] assms(3-5) u
    by (cases ro; simp add: held_def with_page_held rph_init_def rph_cleanup_def rf_get_page_def rph_latch_def rf_unpin_def)+
qed

lemma rf_get_correct:
  assumes "rf_ok rs s" "page_num rid \<in> rf_used s" "0 \<le> slot_num rid" "xid \<noteq> 0" "rf_pages s (page_num rid) = Some f" "rph_page h = None"
  shows "\<exists>rc r h' s'. rf_get_record xid (Some rid) ro h s = Some (rc, r, h', s') \<and> rph_page h' = Some (page_num rid) \<and>
    rf_pages s' (page_num rid) = Some (held ro xid f) \<and>
    map_option (rec_bytes (held ro xid f)) r = rf_content s rid \<and>
    rc = (if slot_num rid \<ge> ph_capacity (fr_data f) then RECORD_INVALID_RID else if rf_content s rid = None then RECORD_NOT_EXIST else SUCCESS) \<and>
    rph_cleanup xid h' s' = Some (\<lparr>rph_page = None, rph_readonly = ro\<rparr>, s)"
proof -
  let ?p = "page_num rid" and ?i = "nat (slot_num rid)" and ?f = "held ro xid f"
  note hold = rph_hold [OF rf_okD(6) [OF assms(1,5)] assms(4) rf_okD(1) [OF assms(1)] assms(5,6), of ro]
  have c: "rf_content s rid = page_recs (fr_data f) ?i" using assms(2,3,5) by (simp add: rf_content_def)
  obtain rc r where r: "rp_get_record ?f rid = Some (rc, r)" "map_option (rec_bytes ?f) r = page_recs (fr_data f) ?i"
    "rc = (if slot_num rid \<ge> ph_capacity (fr_data f) then RECORD_INVALID_RID else if page_recs (fr_data f) ?i = None then RECORD_NOT_EXIST else SUCCESS)"
  proof (cases "slot_num rid \<ge> ph_capacity (fr_data f)")
    case True
    then show ?thesis using assms(3) by (intro that [of RECORD_INVALID_RID None]) (simp_all add: rp_get_record_def Let_def page_recs_def)
  next
    case False
    then show ?thesis using rp_get_correct [of rid ?i ?f] assms(3)
      by (cases "occupied (fr_data f) ?i") (auto simp: page_recs_def rec_bytes_def intro: that)
  qed
  show ?thesis
    using hold r c by (intro exI [of _ rc] exI [of _ r] exI [of _ "\<lparr>rph_page = Some ?p, rph_readonly = ro\<rparr>"] exI [of _ "rf_set ?p ?f s"])
      (simp add: rf_get_record_def)
qed

lemma rf_insert_correct:
  assumes "rf_ok rs s" "\<forall>S. finite S \<and> S \<noteq> {} \<longrightarrow> pick S \<in> S" "0 \<le> rs" "rs \<le> 4000" "nat rs \<le> length data"
  shows "\<exists>rc rid s'. rf_insert_record pick xid data rs s = Some (rc, rid, s') \<and> rf_ok rs s' \<and> rf_pins s' = rf_pins s \<and>
    (rc = SUCCESS \<and> (\<exists>r. rid = Some r \<and> rf_content s r = None \<and> rf_content s' = (rf_content s)(r \<mapsto> take (nat rs) data)) \<or>
     rc = BUFFERPOOL_NOBUF \<and> rid = None \<and> rf_content s' = rf_content s \<and> rf_used s = {1..<MAX_PAGE_NUM} \<and>
       (\<forall>p \<in> rf_used s. \<forall>f. rf_pages s p = Some f \<longrightarrow> is_full (fr_data f)))"
proof -
  obtain F where F: "F \<subseteq> rf_free_pages s" "rf_ok rs (s\<lparr>rf_free_pages := F\<rparr>)"
    "F = {} \<and> find_room pick xid s = Some (SUCCESS, rph_new, s\<lparr>rf_free_pages := F\<rparr>) \<or>
     (\<exists>p f. p \<in> F \<and> rf_pages s p = Some f \<and> \<not> is_full (fr_data f) \<and>
        find_room pick xid s = Some (SUCCESS, \<lparr>rph_page = Some p, rph_readonly = False\<rparr>, rf_set p (write_held xid f) (s\<lparr>rf_free_pages := F\<rparr>)))"
    using find_room_correct [OF assms(2,1), of xid] by blast
  let ?s = "s\<lparr>rf_free_pages := F\<rparr>"
  from F(3) show ?thesis
  proof (elim disjE conjE exE)
    fix p f assume p: "p \<in> F" "rf_pages s p = Some f" "\<not> is_full (fr_data f)"
      "find_room pick xid s = Some (SUCCESS, \<lparr>rph_page = Some p, rph_readonly = False\<rparr>, rf_set p (write_held xid f) ?s)"
    have u: "p \<in> rf_used ?s" using p(1) rf_okD(5) [OF F(2)] by auto
    have f: "page_idle p f" "rp_ok (fr_data f)" "ph_real_size (fr_data f) = rs" using rf_okD(6) [OF F(2), of p f] rf_okD(7) [OF F(2), of p] p(2) u by auto
    obtain i g where g: "rph_insert_record xid \<lparr>rph_page = Some p, rph_readonly = False\<rparr> data (rf_set p (write_held xid f) ?s) =
        Some (SUCCESS, Some \<lparr>page_num = p, slot_num = int i\<rparr>, rf_set p (with_page f g) ?s)" "page_recs (fr_data f) i = None"
      "page_recs (fr_data g) = (page_recs (fr_data f))(i \<mapsto> take (nat rs) data)" "fr_page_num g = p" "rp_ok (fr_data g)" "ph_real_size (fr_data g) = rs"
      using insert_held [OF f(1) page_update_refl, of xid data ?s] f p(3) assms(5) by (auto simp: page_idle_def)
    have "rf_ok rs (rf_set p (with_page f g) ?s)" using rf_ok_set [OF F(2) u, of f g] p(1,2) g by simp
    moreover have "rf_content (rf_set p (with_page f g) ?s) = (rf_content s)(\<lparr>page_num = p, slot_num = int i\<rparr> \<mapsto> take (nat rs) data)"
      using rf_content_set [of ?s p f "with_page f g" i] p(2) u g(3) by simp
    moreover have "rf_pins (rf_set p (with_page f g) ?s) = rf_pins s" using rf_pins_set [of f ?s p g] rf_pins_page [OF p(2)] by simp
    moreover have "rf_content s \<lparr>page_num = p, slot_num = int i\<rparr> = None" using p(2) u g(2) by (simp add: rf_content_def)
    ultimately show ?thesis using p(4) g(1) by (intro exI [of _ SUCCESS] exI [of _ "Some \<lparr>page_num = p, slot_num = int i\<rparr>"] exI [of _ "rf_set p (with_page f g) ?s"])
      (simp add: rf_insert_record_def)
  next
    assume none: "F = {}" "find_room pick xid s = Some (SUCCESS, rph_new, ?s)"
    from F(2) show ?thesis
    proof (cases rule: allocate_cases)
      case full
      have "\<forall>p \<in> rf_used s. \<forall>f. rf_pages s p = Some f \<longrightarrow> is_full (fr_data f)" using rf_okD(7) [OF F(2)] none(1) by fastforce
      then show ?thesis using full none F(2)
        by (intro exI [of _ BUFFERPOOL_NOBUF] exI [of _ None] exI [of _ ?s]) (simp add: rf_insert_record_def rph_new_def)
    next
      case (page p f)
      let ?u = "?s\<lparr>rf_used := insert p (rf_used ?s)\<rparr>"
      obtain s' g where g: "rph_init_empty_page xid p rs rph_new (rf_set p (pin f) ?u) = Some (SUCCESS, \<lparr>rph_page = Some p, rph_readonly = False\<rparr>, s')"
        "rf_unpin p s' = Some (rf_set p g ?u)" "page_update (write_held xid f) g" "fr_page_num g = p" "rp_ok (fr_data g)" "\<not> is_full (fr_data g)"
        "page_recs (fr_data g) = Map.empty" "ph_real_size (fr_data g) = rs"
        using init_new_page [OF page(5) assms(3,4), of ?u xid] rf_okD(1,3) [OF F(2)] by auto
      let ?v = "?s\<lparr>rf_used := insert p (rf_used ?s), rf_free_pages := insert p (rf_free_pages ?s)\<rparr>"
      obtain i g' where g': "rph_insert_record xid \<lparr>rph_page = Some p, rph_readonly = False\<rparr> data (rf_set p g ?v) =
          Some (SUCCESS, Some \<lparr>page_num = p, slot_num = int i\<rparr>, rf_set p (with_page f g') ?v)"
        "page_recs (fr_data g') = [i \<mapsto> take (nat rs) data]" "fr_page_num g' = p" "rp_ok (fr_data g')" "ph_real_size (fr_data g') = rs"
        using insert_held [OF page(5) g(3-6), of data ?v] g(7,8) assms(5) by auto
      have e: "(rf_set p g ?u)\<lparr>rf_free_pages := insert p (rf_free_pages (rf_set p g ?u))\<rparr> = rf_set p g ?v" by (simp add: rf_set_def)
      have "rf_ok rs (rf_set p (with_page f g') ?v)" using rf_ok_new_page [OF F(2) page(2-5) g'(3-5)] .
      moreover have "rf_content (rf_set p (with_page f g') ?v) = (rf_content s)(\<lparr>page_num = p, slot_num = int i\<rparr> \<mapsto> take (nat rs) data)"
        using rf_content_new_page [OF page(2), of "with_page f g'" i "take (nat rs) data" "insert p (rf_free_pages ?s)"] g'(2) by simp
      moreover have "rf_pins (rf_set p (with_page f g') ?v) = rf_pins s" using rf_pins_set [of f ?v p g'] page(6) by simp
      moreover have "rf_content s \<lparr>page_num = p, slot_num = int i\<rparr> = None" using page(2) by (simp add: rf_content_def)
      moreover have "rf_insert_record pick xid data rs s = Some (SUCCESS, Some \<lparr>page_num = p, slot_num = int i\<rparr>, rf_set p (with_page f g') ?v)"
        unfolding rf_insert_record_def using none(2) page(1) g(1,2) g'(1) e by (simp add: rph_new_def)
      ultimately show ?thesis by blast
    qed
  qed
qed

text \<open>An empty file.\<close>

definition no_pages :: RecordFileHandler where
  "no_pages = \<lparr>rf_open = True, rf_free_pages = {}, rf_pages = Map.empty, rf_used = {}, rf_fault = (\<lambda>_. SUCCESS),
     rf_alloc_fault = SUCCESS, rf_flush_fault = SUCCESS\<rparr>"

lemma no_pages_ok [simp]: "rf_ok rs no_pages" "rf_content no_pages = Map.empty" "rf_used no_pages = {}"
  by (auto simp: rf_ok_def no_pages_def rf_content_def)

text \<open>The file after one insertion.\<close>

definition one_record :: RecordFileHandler where
  "one_record = (case rf_insert_record Min 7 [1, 2, 3, 4, 5, 6, 7, 8] 8 no_pages of Some (rc, rid, s') \<Rightarrow> s')"

lemma one_record_ok:
  obtains p i where "rf_ok 8 one_record" "rf_content one_record = [\<lparr>page_num = p, slot_num = i\<rparr> \<mapsto> [1, 2, 3, 4, 5, 6, 7, 8]]" "p \<in> rf_used one_record" "0 \<le> i"
proof -
  obtain r where r: "rf_ok 8 one_record" "rf_content one_record = [r \<mapsto> [1, 2, 3, 4, 5, 6, 7, 8]]"
    using rf_insert_correct [of 8 no_pages Min "[1, 2, 3, 4, 5, 6, 7, 8]" 7] Min_in
    by (auto simp: MAX_PAGE_NUM_def BP_PAGE_DATA_SIZE_def one_record_def)
  then have "rf_content one_record r \<noteq> None" by simp
  then have "page_num r \<in> rf_used one_record" "0 \<le> slot_num r" by (simp_all add: rf_content_def split: if_splits)
  then show thesis using r that by (cases r) simp
qed

subsection \<open>Properties\<close>

text \<open>
  Property C12: inserting a record into a file. Whichever page the free set yields first, \<open>insert_record\<close>
  returns. Either it reports \<open>SUCCESS\<close> with an identifier that named no record before and now names the
  inserted bytes, all other records being unchanged; or every page of a file of maximal size is in use and full,
  and it reports \<open>BUFFERPOOL_NOBUF\<close> and changes no record. No page is left latched, every page is pinned as
  often as before (a new page not at all), and every page with room is still known to be free.
\<close>

theorem record_file_insert:
  assumes "rf_ok rs s" "\<forall>S. finite S \<and> S \<noteq> {} \<longrightarrow> pick S \<in> S" "0 \<le> rs" "rs \<le> 4000" "nat rs \<le> length data"
  shows "\<exists>rc rid s'. rf_insert_record pick xid data rs s = Some (rc, rid, s') \<and> rf_ok rs s' \<and> rf_pins s' = rf_pins s \<and>
    (rc = SUCCESS \<and> (\<exists>r. rid = Some r \<and> rf_content s r = None \<and> rf_content s' = (rf_content s)(r \<mapsto> take (nat rs) data)) \<or>
     rc = BUFFERPOOL_NOBUF \<and> rid = None \<and> rf_content s' = rf_content s \<and> rf_used s = {1..<MAX_PAGE_NUM} \<and>
       (\<forall>p \<in> rf_used s. \<forall>f. rf_pages s p = Some f \<longrightarrow> is_full (fr_data f)))"
  using assms by (rule rf_insert_correct)

theorem record_file_insert_witness:
  "\<exists>r s'. rf_insert_record Min 7 [1, 2, 3, 4, 5, 6, 7, 8] 8 no_pages = Some (SUCCESS, Some r, s') \<and>
     rf_content s' = [r \<mapsto> [1, 2, 3, 4, 5, 6, 7, 8]]"
  using record_file_insert [of 8 no_pages Min "[1, 2, 3, 4, 5, 6, 7, 8]" 7] Min_in by (auto simp: MAX_PAGE_NUM_def BP_PAGE_DATA_SIZE_def)

text \<open>
  Property C14: deleting a record. On a page of the file, \<open>delete_record\<close> removes exactly the record the
  identifier names and reports \<open>SUCCESS\<close>, or reports that there is none and changes nothing; the page is released
  (no latch is left, and the pins are those from before) and, having room now, is known to be free.
\<close>

theorem record_file_delete:
  assumes "rf_ok rs s" "page_num rid \<in> rf_used s" "0 \<le> slot_num rid"
  shows "\<exists>f rc s'. rf_pages s (page_num rid) = Some f \<and> rf_delete_record xid rid s = Some (rc, s') \<and> rf_ok rs s' \<and>
    rf_content s' = (rf_content s)(rid := None) \<and> rf_pins s' = rf_pins s \<and>
    rc = (if slot_num rid \<ge> ph_capacity (fr_data f) then INVALID_ARGUMENT
          else if rf_content s rid = None then RECORD_NOT_EXIST else SUCCESS)"
proof -
  obtain f where f: "rf_pages s (page_num rid) = Some f" using rf_okD(7) [OF assms(1,2)] by blast
  show ?thesis using rf_delete_correct [OF assms f, of xid] f by blast
qed

theorem record_file_delete_witness:
  "\<exists>r s'. rf_delete_record 7 r one_record = Some (SUCCESS, s') \<and> rf_content one_record r \<noteq> None \<and> rf_content s' = Map.empty"
proof (rule one_record_ok)
  fix p i assume r: "rf_ok 8 one_record" "rf_content one_record = [\<lparr>page_num = p, slot_num = i\<rparr> \<mapsto> [1, 2, 3, 4, 5, 6, 7, 8]]"
    "p \<in> rf_used one_record" "0 \<le> i"
  then have "rf_content one_record \<lparr>page_num = p, slot_num = i\<rparr> \<noteq> None" by simp
  then obtain f where "rf_pages one_record p = Some f" "i < ph_capacity (fr_data f)"
    using r(4) by (auto simp: rf_content_def page_recs_def bind_eq_Some_conv split: if_splits)
  then show ?thesis using record_file_delete [of 8 one_record "\<lparr>page_num = p, slot_num = i\<rparr>" 7] r
    by (intro exI [of _ "\<lparr>page_num = p, slot_num = i\<rparr>"]) auto
qed

text \<open>
  Property C20: reading a record. \<open>get_record\<close> returns a handle on exactly the bytes stored under the
  identifier, or reports that there is no such record, and holds the page, latched and pinned; cleaning up the page
  handler gives the state back as it was.
\<close>

theorem record_file_get:
  assumes "rf_ok rs s" "page_num rid \<in> rf_used s" "0 \<le> slot_num rid" "xid \<noteq> 0"
  shows "\<exists>f rc r h s'. rf_get_record xid (Some rid) ro rph_new s = Some (rc, r, h, s') \<and>
    rph_page h = Some (page_num rid) \<and> rf_pages s' (page_num rid) = Some f \<and> map_option (rec_bytes f) r = rf_content s rid \<and>
    (rc = SUCCESS \<longleftrightarrow> rf_content s rid \<noteq> None) \<and> rph_cleanup xid h s' = Some (\<lparr>rph_page = None, rph_readonly = ro\<rparr>, s)"
proof -
  obtain f where f: "rf_pages s (page_num rid) = Some f" using rf_okD(7) [OF assms(1,2)] by blast
  have "slot_num rid \<ge> ph_capacity (fr_data f) \<Longrightarrow> rf_content s rid = None"
    using assms(3) f by (simp add: rf_content_def page_recs_def)
  then show ?thesis using rf_get_correct [OF assms f, of rph_new ro] by (fastforce simp: rph_new_def)
qed

theorem record_file_get_witness:
  "\<exists>p i f r h s'. rf_get_record 7 (Some \<lparr>page_num = p, slot_num = i\<rparr>) True rph_new one_record = Some (SUCCESS, Some r, h, s') \<and>
     rf_pages s' p = Some f \<and> rec_bytes f r = [1, 2, 3, 4, 5, 6, 7, 8] \<and>
     rph_cleanup 7 h s' = Some (\<lparr>rph_page = None, rph_readonly = True\<rparr>, one_record)"
proof (rule one_record_ok)
  fix p i assume r: "rf_ok 8 one_record" "rf_content one_record = [\<lparr>page_num = p, slot_num = i\<rparr> \<mapsto> [1, 2, 3, 4, 5, 6, 7, 8]]"
    "p \<in> rf_used one_record" "0 \<le> i"
  then show ?thesis using record_file_get [of 8 one_record "\<lparr>page_num = p, slot_num = i\<rparr>" 7 True]
    by (intro exI [of _ p] exI [of _ i]) auto
qed

end
