(* ===== verification/RecordScan.thy ===== *)
theory RecordScan
  imports RecordFile
begin

section \<open>Scanning a file of records\<close>

text \<open>
  The scanner visits the pages in use in ascending order and the occupied slots of each in ascending order, and
  keeps the records that pass the filter and are visible to the transaction. It holds one page at a time and has
  released all when it is at the end.
\<close>

subsection \<open>What a scan returns\<close>

definition rec_passes :: "rec_filter \<Rightarrow> rec_visit \<Rightarrow> Frame \<Rightarrow> nat \<Rightarrow> bool" where
  "rec_passes cond visit f i \<longleftrightarrow>
     (case cond of None \<Rightarrow> True | Some c \<Rightarrow> c (slot_record f i) (fr_data f)) \<and>
     (case visit of None \<Rightarrow> True | Some v \<Rightarrow> v (slot_record f i) (fr_data f) \<noteq> RECORD_INVISIBLE)"

definition slots_from :: "Frame \<Rightarrow> nat \<Rightarrow> nat list" where
  "slots_from f st = filter (occupied (fr_data f)) [st..<nat (ph_capacity (fr_data f))]"

definition recs_from :: "rec_filter \<Rightarrow> rec_visit \<Rightarrow> Frame \<Rightarrow> nat \<Rightarrow> Record list" where
  "recs_from cond visit f st = map (slot_record f) (filter (rec_passes cond visit f) (slots_from f st))"

definition pages_after :: "RecordFileHandler \<Rightarrow> nat \<Rightarrow> nat list" where
  "pages_after s cur = filter (\<lambda>i. int i \<in> rf_used s) [Suc cur..<nat MAX_PAGE_NUM]"

definition file_recs :: "rec_filter \<Rightarrow> rec_visit \<Rightarrow> RecordFileHandler \<Rightarrow> nat list \<Rightarrow> Record list" where
  "file_recs cond visit s ps = concat (map (\<lambda>p. recs_from cond visit (the (rf_pages s (int p))) 0) ps)"

text \<open>The transaction answers that a record is visible or that it is not.\<close>

definition visit_ok :: "rec_visit \<Rightarrow> bool" where
  "visit_ok visit \<longleftrightarrow> (case visit of None \<Rightarrow> True | Some v \<Rightarrow> \<forall>r m. v r m = SUCCESS \<or> v r m = RECORD_INVISIBLE)"

lemma slots_from_cases:
  obtains (none) "first_from (occupied (fr_data f)) st (nat (ph_capacity (fr_data f))) = - 1" "slots_from f st = []"
  | (some) i where "first_from (occupied (fr_data f)) st (nat (ph_capacity (fr_data f))) = int i" "slots_from f st = i # slots_from f (Suc i)" "st \<le> i"
    "i < nat (ph_capacity (fr_data f))"
proof (cases rule: first_from_cases [where P = "occupied (fr_data f)" and s = st and n = "nat (ph_capacity (fr_data f))"])
  case none
  then show ?thesis using that(1) filter_upt_first(1) by (simp add: slots_from_def)
next
  case (some i)
  then show ?thesis using that(2) filter_upt_first(2) by (simp add: slots_from_def)
qed

text \<open>Frames that agree on the page image look the same to a scan.\<close>

lemma slot_record_held [simp]: "slot_record (held ro xid f) = slot_record f"
  by (simp add: slot_record_def fun_eq_iff)

lemma rec_passes_held [simp]: "rec_passes cond visit (held ro xid f) = rec_passes cond visit f"
  by (simp add: rec_passes_def fun_eq_iff cong: option.case_cong)

lemma recs_from_held [simp]: "recs_from cond visit (held ro xid f) st = recs_from cond visit f st"
  by (simp add: recs_from_def slots_from_def)

lemma rpi_held [simp]: "rpi_at (held ro xid f) st it = rpi_at f st it" "rpi_init (held ro xid f) k = rpi_init f k"
  by (simp_all add: rpi_at_def rpi_init_def)

subsection \<open>Within a page\<close>

lemma in_page_correct:
  assumes "rpi_at f st it" "visit_ok visit"
  shows "\<exists>sc' it'. rs_iterator sc' = Some it' \<and> rs_handler sc' = rs_handler sc \<and> rs_current sc' = rs_current sc \<and> rs_readonly sc' = rs_readonly sc \<and>
    (case recs_from cond visit f st of
       [] \<Rightarrow> fetch_next_record_in_page cond visit f sc it = Some (RECORD_EOF, sc') \<and> \<not> rpi_has_next it' \<and> \<not> scan_has_next sc'
     | r # rest \<Rightarrow> fetch_next_record_in_page cond visit f sc it = Some (SUCCESS, sc') \<and> rs_next sc' = r \<and> slot_num (rec_rid r) \<noteq> - 1 \<and>
         (\<exists>st'. rpi_at f st' it' \<and> recs_from cond visit f st' = rest))"
  using assms(1)
proof (induction "length (slots_from f st)" arbitrary: st it sc rule: less_induct)
  case less
  show ?case
  proof (cases rule: slots_from_cases [of f st])
    case none
    then have "\<not> rpi_has_next it" using less.prems by (simp add: rpi_at_def rpi_has_next_def)
    then have "fetch_next_record_in_page cond visit f sc it = Some (RECORD_EOF, rs_no_next (sc\<lparr>rs_iterator := Some it\<rparr>))"
      by (subst fetch_next_record_in_page.simps) simp
    then show ?thesis using none \<open>\<not> rpi_has_next it\<close>
      by (intro exI [of _ "rs_no_next (sc\<lparr>rs_iterator := Some it\<rparr>)"] exI [of _ it])
        (simp add: recs_from_def rs_no_next_def scan_has_next_def)
  next
    case (some i)
    have nx: "it_next_slot it = int i" "rpi_has_next it" using less.prems some by (simp_all add: rpi_at_def rpi_has_next_def)
    obtain it1 where it1: "rpi_next f it = (SUCCESS, slot_record f i, it1)" "rpi_at f (Suc i) it1" using rpi_next_at [OF less.prems nx(1)] by blast
    let ?sc = "sc\<lparr>rs_iterator := Some it1, rs_next := slot_record f i\<rparr>"
    show ?thesis
    proof (cases "rec_passes cond visit f i")
      case True
      have "fetch_next_record_in_page cond visit f sc it = Some (SUCCESS, ?sc)"
        using nx(2) it1(1) True assms(2) by (subst fetch_next_record_in_page.simps) (auto simp: rec_passes_def visit_ok_def Let_def split: option.splits)
      moreover have "recs_from cond visit f st = slot_record f i # recs_from cond visit f (Suc i)" using some(2) True by (simp add: recs_from_def)
      ultimately show ?thesis using it1(2) by (intro exI [of _ ?sc] exI [of _ it1]) (auto simp: slot_record_def)
    next
      case False
      have skip: "fetch_next_record_in_page cond visit f sc it = fetch_next_record_in_page cond visit f ?sc it1"
        using nx(2) it1(1) False assms(2) by (subst fetch_next_record_in_page.simps) (auto simp: rec_passes_def visit_ok_def Let_def split: option.splits)
      have rest: "recs_from cond visit f st = recs_from cond visit f (Suc i)" using some(2) False by (simp add: recs_from_def)
      have "length (slots_from f (Suc i)) < length (slots_from f st)" using some(2) by simp
      from less.hyps [OF this it1(2), of ?sc] show ?thesis unfolding skip rest by simp
    qed
  qed
qed

text \<open>The same, read as a case distinction, for the frame the scanner holds.\<close>

lemma in_page_cases:
  assumes "rpi_at f st it" "visit_ok visit"
  obtains (eof) sc' where "recs_from cond visit f st = []" "fetch_next_record_in_page cond visit (held ro xid f) sc it = Some (RECORD_EOF, sc')"
      "rs_handler sc' = rs_handler sc" "rs_current sc' = rs_current sc" "rs_readonly sc' = rs_readonly sc"
  | (found) sc' it' st' where "recs_from cond visit f st = rs_next sc' # recs_from cond visit f st'"
      "fetch_next_record_in_page cond visit (held ro xid f) sc it = Some (SUCCESS, sc')" "scan_has_next sc'"
      "rs_handler sc' = rs_handler sc" "rs_current sc' = rs_current sc" "rs_readonly sc' = rs_readonly sc"
      "rs_iterator sc' = Some it'" "rpi_at f st' it'"
proof -
  have "rpi_at (held ro xid f) st it" using assms(1) by (simp only: rpi_held)
  from in_page_correct [OF this assms(2), unfolded recs_from_held rpi_held, of sc cond]
  obtain sc' it' where sc': "rs_iterator sc' = Some it' \<and> rs_handler sc' = rs_handler sc \<and> rs_current sc' = rs_current sc \<and> rs_readonly sc' = rs_readonly sc \<and>
     (case recs_from cond visit f st of
       [] \<Rightarrow> fetch_next_record_in_page cond visit (held ro xid f) sc it = Some (RECORD_EOF, sc') \<and> \<not> rpi_has_next it' \<and> \<not> scan_has_next sc'
     | r # rest \<Rightarrow> fetch_next_record_in_page cond visit (held ro xid f) sc it = Some (SUCCESS, sc') \<and> rs_next sc' = r \<and> slot_num (rec_rid r) \<noteq> - 1 \<and>
         (\<exists>st'. rpi_at f st' it' \<and> recs_from cond visit f st' = rest))" by (elim exE) (erule that)
  show thesis
  proof (cases "recs_from cond visit f st")
    case Nil
    then show ?thesis using that(1) sc' by simp
  next
    case (Cons r rest)
    then obtain st' where "rpi_at f st' it'" "recs_from cond visit f st' = rest" using sc' by auto
    then show ?thesis using that(2) [of sc' st' it'] Cons sc' by (simp add: scan_has_next_def)
  qed
qed

subsection \<open>From page to page\<close>

text \<open>
  The scanner in the middle of a scan over the file \<open>s0\<close>: it holds the page it is on, and \<open>rest\<close> is what follows
  the record it has found.
\<close>

definition scanning ::
  "rec_filter \<Rightarrow> rec_visit \<Rightarrow> int \<Rightarrow> RecordFileHandler \<Rightarrow> RecordFileScanner \<Rightarrow> RecordFileHandler \<Rightarrow> Record list \<Rightarrow> bool" where
  "scanning cond visit xid s0 sc s rest \<longleftrightarrow>
     (\<exists>p f it st. rs_current sc = int p \<and> rs_handler sc = \<lparr>rph_page = Some (int p), rph_readonly = rs_readonly sc\<rparr> \<and>
        rf_pages s0 (int p) = Some f \<and> s = rf_set (int p) (held (rs_readonly sc) xid f) s0 \<and>
        rs_iterator sc = Some it \<and> rpi_at f st it \<and>
        rest = recs_from cond visit f st @ file_recs cond visit s0 (pages_after s0 p))"

definition scan_done :: "RecordFileHandler \<Rightarrow> RecordFileScanner \<Rightarrow> RecordFileHandler \<Rightarrow> bool" where
  "scan_done s0 sc s \<longleftrightarrow> s = s0 \<and> rph_page (rs_handler sc) = None \<and> \<not> scan_has_next sc"

lemma next_page_cases:
  assumes "rf_ok rs s"
  obtains (none) "rf_next_page (int p) s = - 1" "pages_after s p = []"
  | (some) q f where "rf_next_page (int p) s = int q" "pages_after s p = q # pages_after s q" "rf_pages s (int q) = Some f" "page_idle (int q) f"
proof (cases rule: first_from_cases [where P = "\<lambda>i. int i \<in> rf_used s" and s = "Suc p" and n = "nat MAX_PAGE_NUM"])
  case none
  then show ?thesis using that(1) filter_upt_first(1) by (simp add: rf_next_page_def pages_after_def)
next
  case (some q)
  then obtain f where "rf_pages s (int q) = Some f" using rf_okD(7) [OF assms] by blast
  then show ?thesis using that(2) some filter_upt_first(2) rf_okD(6) [OF assms] by (simp add: rf_next_page_def pages_after_def)
qed

lemma rf_next_page_set [simp]: "rf_next_page p (rf_set q f s) = rf_next_page p s"
  by (simp add: rf_next_page_def)

lemma next_page_correct:
  assumes ok: "rf_ok rs s0" and xid: "xid \<noteq> 0" and v: "visit_ok visit"
    and cur: "rs_current sc = int p" and clean: "rph_cleanup xid (rs_handler sc) s = Some (h, s0)" "rph_page h = None" "rf_used s = rf_used s0"
  shows "\<exists>rc sc' s'. fetch_next_page cond visit xid sc s = Some (rc, sc', s') \<and>
    (case file_recs cond visit s0 (pages_after s0 p) of
       [] \<Rightarrow> rc = RECORD_EOF \<and> scan_done s0 sc' s'
     | r # rest \<Rightarrow> rc = SUCCESS \<and> rs_next sc' = r \<and> scan_has_next sc' \<and> scanning cond visit xid s0 sc' s' rest)"
  using cur clean
proof (induction "length (pages_after s0 p)" arbitrary: p sc s h rule: less_induct)
  case less
  have nx: "rf_next_page (rs_current sc) s = rf_next_page (int p) s0" using less.prems(1,4) by (simp add: rf_next_page_def)
  from ok show ?case
  proof (cases rule: next_page_cases [of _ _ p])
    case none
    then have "fetch_next_page cond visit xid sc s = Some (RECORD_EOF, (rs_no_next sc)\<lparr>rs_handler := h\<rparr>, s0)"
      using nx less.prems(2) by (subst fetch_next_page.simps) (simp add: Let_def)
    then show ?thesis using none(2) less.prems(3)
      by (simp add: file_recs_def scan_done_def rs_no_next_def scan_has_next_def)
  next
    case (some q f)
    let ?ro = "rs_readonly sc" and ?f = "held (rs_readonly sc) xid f"
    let ?h = "\<lparr>rph_page = Some (int q), rph_readonly = ?ro\<rparr>" and ?s = "rf_set (int q) ?f s0"
    let ?sc = "sc\<lparr>rs_current := int q, rs_handler := ?h\<rparr>"
    note hold = rph_hold [OF some(4) xid rf_okD(1) [OF ok] some(3) less.prems(3), of ?ro]
    have step: "fetch_next_page cond visit xid sc s =
        Option.bind (fetch_next_record_in_page cond visit ?f ?sc (rpi_init f 0)) (\<lambda>(rc, sc).
          if rc \<noteq> RECORD_EOF then Some (rc, sc, ?s) else fetch_next_page cond visit xid sc ?s)"
      using nx some(1) less.prems(2) hold(1) by (subst fetch_next_page.simps) (simp add: Let_def)
    have recs: "file_recs cond visit s0 (pages_after s0 p) = recs_from cond visit f 0 @ file_recs cond visit s0 (pages_after s0 q)"
      using some(2,3) by (simp add: file_recs_def)
    from rpi_at_init [of f] v show ?thesis
    proof (cases rule: in_page_cases [of _ _ _ _ cond ?ro xid ?sc])
      case (eof sc')
      have "length (pages_after s0 q) < length (pages_after s0 p)" using some(2) by simp
      moreover have "rph_cleanup xid (rs_handler sc') ?s = Some (\<lparr>rph_page = None, rph_readonly = ?ro\<rparr>, s0)" using hold(2) eof(3) by simp
      moreover have "fetch_next_page cond visit xid sc s = fetch_next_page cond visit xid sc' ?s" using step eof(2) by simp
      ultimately show ?thesis using less.hyps [of q sc' ?s] eof(1,4) recs by simp
    next
      case (found sc' it' st')
      have "scanning cond visit xid s0 sc' ?s (recs_from cond visit f st' @ file_recs cond visit s0 (pages_after s0 q))"
        unfolding scanning_def using found(4-8) some(3)
        by (intro exI [of _ q] exI [of _ f] exI [of _ it'] exI [of _ st']) simp
      then show ?thesis using step found(1-3) recs
        by (intro exI [of _ SUCCESS] exI [of _ sc'] exI [of _ ?s]) simp
    qed
  qed
qed

text \<open>One \<open>fetch_next_record\<close>: the next of the remaining records, or the end with everything released.\<close>

lemma fetch_next_correct:
  assumes "rf_ok rs s0" "xid \<noteq> 0" "visit_ok visit" "scanning cond visit xid s0 sc s recs"
  shows "\<exists>rc sc' s'. fetch_next_record cond visit xid sc s = Some (rc, sc', s') \<and>
    (case recs of
       [] \<Rightarrow> rc = RECORD_EOF \<and> scan_done s0 sc' s'
     | r # rest \<Rightarrow> rc = SUCCESS \<and> rs_next sc' = r \<and> scan_has_next sc' \<and> scanning cond visit xid s0 sc' s' rest)"
proof -
  obtain p f it st where at: "rs_current sc = int p" "rs_handler sc = \<lparr>rph_page = Some (int p), rph_readonly = rs_readonly sc\<rparr>"
    "rf_pages s0 (int p) = Some f" "s = rf_set (int p) (held (rs_readonly sc) xid f) s0" "rs_iterator sc = Some it" "rpi_at f st it"
    "recs = recs_from cond visit f st @ file_recs cond visit s0 (pages_after s0 p)"
    using assms(4) unfolding scanning_def by blast
  let ?ro = "rs_readonly sc"
  let ?f = "held ?ro xid f"
  note hold = rph_hold [OF rf_okD(6) [OF assms(1) at(3)] assms(2) rf_okD(1) [OF assms(1)] at(3), of rph_new ?ro]
  have same: "fetch_next_record_in_page cond visit g sc it = fetch_next_record_in_page cond visit ?f sc it" if "\<not> rpi_has_next it" for g
    using that by (subst (1 2) fetch_next_record_in_page.simps) simp
  have step: "fetch_next_record cond visit xid sc s =
      Option.bind (fetch_next_record_in_page cond visit ?f sc it) (\<lambda>(rc, sc).
        if rc \<noteq> RECORD_EOF then Some (rc, sc, s) else fetch_next_page cond visit xid sc s)"
    using at(2,5) same [of new_frame] unfolding at(4) by (cases "rpi_has_next it") (simp_all add: fetch_next_record_def)
  from at(6) assms(3) show ?thesis
  proof (cases rule: in_page_cases [of _ _ _ _ cond ?ro xid sc])
    case (eof sc')
    have "rph_cleanup xid (rs_handler sc') s = Some (\<lparr>rph_page = None, rph_readonly = ?ro\<rparr>, s0)" using hold(2) eof(3) at(2,4) by (simp add: rph_new_def)
    from next_page_correct [OF assms(1-3) _ this, of p cond]
    show ?thesis using step eof(1,2,4) at(1,4,7) by simp
  next
    case (found sc' it' st')
    have "scanning cond visit xid s0 sc' s (recs_from cond visit f st' @ file_recs cond visit s0 (pages_after s0 p))"
      unfolding scanning_def using found(4-8) at(1-4)
      by (intro exI [of _ p] exI [of _ f] exI [of _ it'] exI [of _ st']) simp
    then show ?thesis using step found(1-3) at(7)
      by (intro exI [of _ SUCCESS] exI [of _ sc'] exI [of _ s]) simp
  qed
qed

subsection \<open>A whole scan\<close>

text \<open>The loop of the callers: take records while there are any, at most \<open>n\<close>. It fails when \<open>next\<close> reports an error.\<close>

primrec scan_drain ::
  "rec_filter \<Rightarrow> rec_visit \<Rightarrow> int \<Rightarrow> nat \<Rightarrow> RecordFileScanner \<Rightarrow> RecordFileHandler \<Rightarrow> (Record list \<times> RecordFileScanner \<times> RecordFileHandler) option" where
  "scan_drain cond visit xid 0 sc s = Some ([], sc, s)"
| "scan_drain cond visit xid (Suc n) sc s =
     (if scan_has_next sc then do {
        (rc, r, sc, s) \<leftarrow> scan_next cond visit xid sc s;
        if rc = SUCCESS then do { (rs, sc, s) \<leftarrow> scan_drain cond visit xid n sc s; Some (r # rs, sc, s) } else None
      } else Some ([], sc, s))"

lemma scan_drain_done: "\<not> scan_has_next sc \<Longrightarrow> scan_drain cond visit xid n sc s = Some ([], sc, s)"
  by (cases n) simp_all

lemma scan_drain_correct:
  assumes "rf_ok rs s0" "xid \<noteq> 0" "visit_ok visit"
  shows "scanning cond visit xid s0 sc s recs \<Longrightarrow> scan_has_next sc \<Longrightarrow>
    \<exists>sc'. scan_done s0 sc' s0 \<and> (\<forall>n > length recs. scan_drain cond visit xid n sc s = Some (rs_next sc # recs, sc', s0))"
proof (induction recs arbitrary: sc s)
  case Nil
  then obtain sc' where sc': "fetch_next_record cond visit xid sc s = Some (RECORD_EOF, sc', s0)" "scan_done s0 sc' s0"
    using fetch_next_correct [OF assms, of cond sc s "[]"] by (auto simp: scan_done_def)
  have "scan_drain cond visit xid (Suc n) sc s = Some ([rs_next sc], sc', s0)" for n
    using sc' Nil.prems(2) scan_drain_done [of sc'] by (simp add: scan_next_def scan_done_def)
  then show ?case using sc'(2) by (auto simp: gr0_conv_Suc)
next
  case (Cons r recs)
  then obtain sc1 s1 where sc1: "fetch_next_record cond visit xid sc s = Some (SUCCESS, sc1, s1)" "rs_next sc1 = r" "scan_has_next sc1"
    "scanning cond visit xid s0 sc1 s1 recs"
    using fetch_next_correct [OF assms, of cond sc s "r # recs"] by auto
  from Cons.IH [OF sc1(4,3)] obtain sc' where sc': "scan_done s0 sc' s0"
    "\<forall>n > length recs. scan_drain cond visit xid n sc1 s1 = Some (rs_next sc1 # recs, sc', s0)" by blast
  then have "scan_drain cond visit xid (Suc n) sc s = Some (rs_next sc # r # recs, sc', s0)" if "n > length recs" for n
    using that sc1(1,2) Cons.prems(2) by (simp add: scan_next_def)
  then show ?case using sc'(1) by (metis Suc_lessE length_Cons)
qed

text \<open>Without a filter and a transaction the scan meets every record of the file, once.\<close>

lemma pages_after_page:
  assumes "rf_ok rs s" "p \<in> set (pages_after s 0)"
  obtains f where "rf_pages s (int p) = Some f" "fr_page_num f = int p" "int p \<in> rf_used s"
proof -
  have p: "int p \<in> rf_used s" using assms(2) by (simp add: pages_after_def)
  then obtain f where f: "rf_pages s (int p) = Some f" using rf_okD(7) [OF assms(1)] by blast
  then show thesis using that p rf_okD(6) [OF assms(1) f] by (simp add: page_idle_def)
qed

lemma file_recs_distinct:
  assumes "rf_ok rs s"
  shows "distinct (map rec_rid (file_recs cond visit s (pages_after s 0)))"
proof -
  have "distinct (map rec_rid (file_recs cond visit s ps))" if "distinct ps" "set ps \<subseteq> set (pages_after s 0)" for ps
    using that
  proof (induction ps)
    case Nil
    then show ?case by (simp add: file_recs_def)
  next
    case (Cons p ps)
    have num: "fr_page_num (the (rf_pages s (int q))) = int q" if "q \<in> set (p # ps)" for q
      using pages_after_page [OF assms, of q] that Cons.prems(2) by (metis option.sel subsetD)
    have "distinct (map rec_rid (recs_from cond visit f 0))" for f
      by (auto simp: recs_from_def slots_from_def slot_record_def distinct_map inj_on_def)
    moreover have "rec_rid ` set (recs_from cond visit (the (rf_pages s (int p))) 0) \<inter> rec_rid ` set (file_recs cond visit s ps) = {}"
      using num Cons.prems(1) by (auto simp: file_recs_def recs_from_def slot_record_def)
    ultimately show ?case using Cons by (simp add: file_recs_def)
  qed
  then show ?thesis by (simp add: pages_after_def)
qed

lemma file_recs_complete:
  assumes "rf_ok rs s"
  shows "rec_rid ` set (file_recs None None s (pages_after s 0)) = dom (rf_content s)"
proof (rule set_eqI)
  fix rid :: RID
  have "rid \<in> rec_rid ` set (file_recs None None s (pages_after s 0)) \<longleftrightarrow>
    (\<exists>p f i. p \<in> set (pages_after s 0) \<and> rf_pages s (int p) = Some f \<and> i < nat (ph_capacity (fr_data f)) \<and> occupied (fr_data f) i \<and>
       rid = \<lparr>page_num = int p, slot_num = int i\<rparr>)" (is "_ \<longleftrightarrow> ?R")
  proof
    assume "rid \<in> rec_rid ` set (file_recs None None s (pages_after s 0))"
    then obtain p i where p: "p \<in> set (pages_after s 0)" "i \<in> set (slots_from (the (rf_pages s (int p))) 0)"
      "rid = rec_rid (slot_record (the (rf_pages s (int p))) i)" by (auto simp: file_recs_def recs_from_def)
    obtain f where "rf_pages s (int p) = Some f" "fr_page_num f = int p" using pages_after_page [OF assms p(1)] by blast
    then show ?R using p by (auto simp: slots_from_def slot_record_def)
  next
    assume ?R
    then obtain p f i where p: "p \<in> set (pages_after s 0)" "rf_pages s (int p) = Some f" "i < nat (ph_capacity (fr_data f))" "occupied (fr_data f) i"
      "rid = \<lparr>page_num = int p, slot_num = int i\<rparr>" by blast
    have "fr_page_num f = int p" using pages_after_page [OF assms p(1)] p(2) by (metis option.inject)
    then have "rid = rec_rid (slot_record f i)" using p(5) by (simp add: slot_record_def)
    moreover have "slot_record f i \<in> set (recs_from None None f 0)" using p(3,4) by (simp add: recs_from_def slots_from_def rec_passes_def)
    ultimately show "rid \<in> rec_rid ` set (file_recs None None s (pages_after s 0))" using p(1,2) by (auto simp: file_recs_def intro!: imageI UN_I [of p])
  qed
  also have "\<dots> \<longleftrightarrow> rid \<in> dom (rf_content s)"
  proof
    assume "rid \<in> dom (rf_content s)"
    then obtain f where f: "page_num rid \<in> rf_used s" "0 \<le> slot_num rid" "rf_pages s (page_num rid) = Some f"
      "nat (slot_num rid) < nat (ph_capacity (fr_data f))" "occupied (fr_data f) (nat (slot_num rid))"
      by (auto simp: rf_content_def page_recs_def bind_eq_Some_conv split: if_splits)
    moreover have "1 \<le> page_num rid" "page_num rid < MAX_PAGE_NUM" using rf_okD(4) [OF assms] f(1) by auto
    ultimately show ?R
      by (intro exI [of _ "nat (page_num rid)"] exI [of _ f] exI [of _ "nat (slot_num rid)"]) (cases rid, simp add: pages_after_def)
  qed (auto simp: rf_content_def page_recs_def pages_after_def)
  finally show "rid \<in> rec_rid ` set (file_recs None None s (pages_after s 0)) \<longleftrightarrow> rid \<in> dom (rf_content s)" .
qed

subsection \<open>Property\<close>

text \<open>
  Property C13: scanning a file of records. \<open>open_scan\<close> followed by \<open>next\<close> while \<open>has_next\<close> terminates without an
  error, whichever filter and whichever transaction that decides on visibility, and returns the records that pass
  both, in the order of their pages and slots, none twice; a scan without filter and transaction returns
  exactly the records of the file. At the end the pages are as they were: nothing stays pinned or latched.
\<close>

theorem record_file_scan:
  assumes "rf_ok rs s" "xid \<noteq> 0" "visit_ok visit"
  shows "\<exists>sc t sc'. open_scan cond visit xid ro rs_new s = Some (SUCCESS, sc, t) \<and>
    (let recs = file_recs cond visit s (pages_after s 0) in
      (\<forall>n \<ge> length recs. scan_drain cond visit xid n sc t = Some (recs, sc', s)) \<and> distinct (map rec_rid recs) \<and>
      (cond = None \<and> visit = None \<longrightarrow> rec_rid ` set recs = dom (rf_content s)) \<and> \<not> scan_has_next sc' \<and> rph_page (rs_handler sc') = None)"
proof -
  let ?sc = "rs_new\<lparr>rs_readonly := ro, rs_current := 0\<rparr>" and ?recs = "file_recs cond visit s (pages_after s 0)"
  have "rph_cleanup xid (rs_handler ?sc) s = Some (rph_new, s)" by (simp add: rs_new_def rph_new_def rph_cleanup_def)
  from next_page_correct [OF assms, of ?sc 0 s rph_new cond] this
  obtain rc sc t where f: "fetch_next_page cond visit xid ?sc s = Some (rc, sc, t)"
    "case ?recs of [] \<Rightarrow> rc = RECORD_EOF \<and> scan_done s sc t
     | r # rest \<Rightarrow> rc = SUCCESS \<and> rs_next sc = r \<and> scan_has_next sc \<and> scanning cond visit xid s sc t rest"
    by (auto simp: rph_new_def)
  have op: "open_scan cond visit xid ro rs_new s = Some (if rc = RECORD_EOF then SUCCESS else rc, sc, t)"
    using f(1) by (simp add: open_scan_def close_scan_def fetch_next_record_def rs_new_def rph_new_def rph_cleanup_def)
  have "\<exists>sc'. scan_done s sc' s \<and> (\<forall>n \<ge> length ?recs. scan_drain cond visit xid n sc t = Some (?recs, sc', s))"
  proof (cases ?recs)
    case Nil
    then show ?thesis using f(2) scan_drain_done [of sc] by (auto simp: scan_done_def)
  next
    case (Cons r rest)
    then show ?thesis using f(2) scan_drain_correct [OF assms, of cond sc t rest] by (auto simp: Suc_le_eq)
  qed
  moreover have "rc = RECORD_EOF \<or> rc = SUCCESS" using f(2) by (cases ?recs) auto
  ultimately show ?thesis using op file_recs_distinct [OF assms(1), of cond visit] file_recs_complete [OF assms(1)]
    by (auto simp: Let_def scan_done_def)
qed

theorem record_file_scan_witness:
  "\<exists>sc t r sc'. open_scan None None 7 True rs_new one_record = Some (SUCCESS, sc, t) \<and>
     scan_drain None None 7 1 sc t = Some ([r], sc', one_record) \<and> rf_content one_record (rec_rid r) = Some [1, 2, 3, 4, 5, 6, 7, 8]"
proof (rule one_record_ok)
  fix p i assume r: "rf_ok 8 one_record" "rf_content one_record = [\<lparr>page_num = p, slot_num = i\<rparr> \<mapsto> [1, 2, 3, 4, 5, 6, 7, 8]]"
  define recs where "recs = file_recs None None one_record (pages_after one_record 0)"
  from record_file_scan [OF r(1), of 7 None None True]
  obtain sc t sc' where s: "open_scan None None 7 True rs_new one_record = Some (SUCCESS, sc, t)"
    "\<forall>n \<ge> length recs. scan_drain None None 7 n sc t = Some (recs, sc', one_record)" "distinct (map rec_rid recs)"
    "rec_rid ` set recs = {\<lparr>page_num = p, slot_num = i\<rparr>}" using r(2) by (auto simp: visit_ok_def Let_def recs_def)
  have "length recs = 1" using s(3,4) distinct_card [of "map rec_rid recs"] by simp
  then obtain x where "recs = [x]" by (auto simp: length_Suc_conv)
  then show ?thesis using s r(2) by (intro exI [of _ sc] exI [of _ t] exI [of _ x] exI [of _ sc']) (simp del: scan_drain.simps)
qed

subsection \<open>Opening a file\<close>

text \<open>A closed file whose pages are well formed: the invariant of an open file but for the set of free pages.\<close>

definition rf_closed_ok :: "int \<Rightarrow> RecordFileHandler \<Rightarrow> bool" where
  "rf_closed_ok rs s \<longleftrightarrow> \<not> rf_open s \<and> rf_free_pages s = {} \<and> rf_ok rs (s\<lparr>rf_free_pages := rf_used s\<rparr>)"

definition rooms :: "RecordFileHandler \<Rightarrow> nat list \<Rightarrow> int set" where
  "rooms s ps = int ` {p \<in> set ps. \<not> is_full (fr_data (the (rf_pages s (int p))))}"

lemma init_free_loop_correct:
  assumes "rf_ok rs (s\<lparr>rf_free_pages := rf_used s\<rparr>)" "xid \<noteq> 0"
  shows "init_free_loop xid (int p) (s\<lparr>rf_free_pages := F\<rparr>) = Some (SUCCESS, s\<lparr>rf_free_pages := F \<union> rooms s (pages_after s p)\<rparr>)"
proof (induction "length (pages_after s p)" arbitrary: p F rule: less_induct)
  case less
  have nx: "rf_next_page c (s\<lparr>rf_free_pages := G\<rparr>) = rf_next_page c s" "pages_after (s\<lparr>rf_free_pages := G\<rparr>) q = pages_after s q" for c G q
    by (simp_all add: rf_next_page_def pages_after_def)
  from assms(1) show ?case
  proof (cases rule: next_page_cases [of _ _ p])
    case none
    then show ?thesis by (subst init_free_loop.simps) (simp add: nx rooms_def Let_def)
  next
    case (some q f)
    let ?s = "\<lambda>G. s\<lparr>rf_free_pages := G\<rparr>"
    have f: "rf_pages (?s G) (int q) = Some f" "rf_fault (?s G) (int q) = SUCCESS" for G using some(3) rf_okD(1) [OF assms(1)] by simp_all
    note hold = rph_hold [OF some(4) assms(2) f(2,1), of rph_new True]
    let ?G = "if is_full (fr_data f) then F else insert (int q) F"
    have "(rf_set (int q) g (?s F))\<lparr>rf_free_pages := G\<rparr> = rf_set (int q) g (?s G)" for g G by (simp add: rf_set_def)
    then have "init_free_loop xid (int p) (?s F) = init_free_loop xid (int q) (?s ?G)"
      using some(1) hold by (subst init_free_loop.simps) (simp add: nx rph_new_def Let_def)
    also have "\<dots> = Some (SUCCESS, ?s (?G \<union> rooms s (pages_after s q)))" using some(2) by (intro less.hyps) (simp add: nx)
    also have "?G \<union> rooms s (pages_after s q) = F \<union> rooms s (pages_after s p)" using some(2,3) by (auto simp: rooms_def nx)
    finally show ?thesis .
  qed
qed

text \<open>
  Property C15: opening a file of records establishes the invariant. \<open>init\<close> on a closed file whose pages are
  well formed ends, finds exactly the pages that have room, changes no page and leaves none held; the operations on
  the open file may assume the invariant from then on.
\<close>

theorem record_file_init:
  assumes "rf_closed_ok rs s" "xid \<noteq> 0"
  shows "\<exists>s'. rf_init xid s = Some (SUCCESS, s') \<and> rf_ok rs s' \<and> rf_pages s' = rf_pages s \<and> rf_used s' = rf_used s \<and>
    rf_free_pages s' = {p \<in> rf_used s. \<not> is_full (fr_data (the (rf_pages s p)))} \<and> rf_content s' = rf_content s"
proof -
  let ?s = "s\<lparr>rf_open := True\<rparr>"
  have ok: "rf_ok rs (?s\<lparr>rf_free_pages := rf_used ?s\<rparr>)" "\<not> rf_open s" and e: "?s = ?s\<lparr>rf_free_pages := {}\<rparr>"
    using assms(1) by (auto simp: rf_closed_ok_def rf_ok_def)
  let ?R = "rooms ?s (pages_after ?s 0)"
  have run: "rf_init xid s = Some (SUCCESS, ?s\<lparr>rf_free_pages := ?R\<rparr>)"
    using init_free_loop_correct [OF ok(1) assms(2), of 0 "{}"] ok(2) e by (simp add: rf_init_def init_free_pages_def)
  have R: "?R = {p \<in> rf_used s. \<not> is_full (fr_data (the (rf_pages s p)))}"
  proof -
    have "int ` set (pages_after ?s 0) = rf_used s"
    proof
      show "rf_used s \<subseteq> int ` set (pages_after ?s 0)"
      proof
        fix p assume "p \<in> rf_used s"
        moreover from this have "1 \<le> p" "p < MAX_PAGE_NUM" using rf_okD(4) [OF ok(1)] by auto
        ultimately show "p \<in> int ` set (pages_after ?s 0)" by (intro image_eqI [of _ _ "nat p"]) (simp_all add: pages_after_def)
      qed
    qed (auto simp: pages_after_def)
    moreover have "?R = {p \<in> int ` set (pages_after ?s 0). \<not> is_full (fr_data (the (rf_pages s p)))}" by (auto simp: rooms_def)
    ultimately show ?thesis by simp
  qed
  have "rf_ok rs (?s\<lparr>rf_free_pages := ?R\<rparr>)" using ok(1) unfolding R rf_ok_def by (auto; fastforce)
  moreover have "rf_content (?s\<lparr>rf_free_pages := ?R\<rparr>) = rf_content s" by (simp add: rf_content_def fun_eq_iff)
  ultimately show ?thesis using run by (intro exI [of _ "?s\<lparr>rf_free_pages := ?R\<rparr>"]) (simp add: R)
qed

theorem record_file_init_witness:
  "\<exists>s'. rf_init 7 (one_record\<lparr>rf_open := False, rf_free_pages := {}\<rparr>) = Some (SUCCESS, s') \<and> rf_ok 8 s' \<and>
     rf_content s' = rf_content one_record"
proof (rule one_record_ok)
  assume "rf_ok 8 one_record"
  then have "rf_closed_ok 8 (one_record\<lparr>rf_open := False, rf_free_pages := {}\<rparr>)"
    by (auto simp: rf_closed_ok_def rf_ok_def)
  then show ?thesis using record_file_init [of 8 "one_record\<lparr>rf_open := False, rf_free_pages := {}\<rparr>" 7]
    by (auto simp: rf_content_def fun_eq_iff)
qed

end
