(* ===== verification/Value.thy ===== *)
theory Value
  imports Comparator
begin

section \<open>Values (value.h, value.cpp)\<close>

text \<open>
  The values of SQL: a type tag, a null flag, a four-byte union for numbers and a string. The union is a
  32-bit word; a field of it is what its bytes say, so writing the one-byte \<open>bool_value_\<close> keeps the other three
  bytes, as in the code. IEEE arithmetic and the conversions of the C++ library between strings and floating
  point numbers are the parameter \<open>IEEE\<close>: single and double precision numbers are their bits.
\<close>

subsection \<open>Decimal numbers\<close>

text \<open>\<open>std::to_string\<close>, \<open>operator<<\<close> and \<open>snprintf\<close> with \<open>%0nd\<close>, as ASCII bytes.\<close>

fun dec_nat :: "nat \<Rightarrow> byte list" where
  "dec_nat n = (if n < 10 then [of_nat (48 + n)] else dec_nat (n div 10) @ [of_nat (48 + n mod 10)])"

declare dec_nat.simps [simp del]

definition dec_int :: "int \<Rightarrow> byte list" where
  "dec_int i = (if i < 0 then 45 # dec_nat (nat (- i)) else dec_nat (nat i))"

definition dec_padded :: "nat \<Rightarrow> int \<Rightarrow> byte list" where
  "dec_padded n i =
     (if i < 0 then 45 # replicate (n - 1 - length (dec_nat (nat (- i)))) 48 @ dec_nat (nat (- i))
      else replicate (n - length (dec_nat (nat i))) 48 @ dec_nat (nat i))"

definition is_digit :: "byte \<Rightarrow> bool" where
  "is_digit b \<longleftrightarrow> 48 \<le> b \<and> b \<le> 57"

definition is_space :: "byte \<Rightarrow> bool" where
  "is_space b \<longleftrightarrow> b = 32 \<or> 9 \<le> b \<and> b \<le> 13"

definition digits_value :: "byte list \<Rightarrow> int" where
  "digits_value ds = foldl (\<lambda>v b. 10 * v + (uint b - 48)) 0 ds"

text \<open>\<open>std::stol\<close> in base ten; \<^const>\<open>None\<close> stands for the exception.\<close>

definition stol :: "byte list \<Rightarrow> int option" where
  "stol s =
     (let s = dropWhile is_space s;
          (neg, s) = (case s of b # r \<Rightarrow> if b = 45 then (True, r) else if b = 43 then (False, r) else (False, s) | [] \<Rightarrow> (False, s));
          ds = takeWhile is_digit s;
          v = (if neg then - digits_value ds else digits_value ds)
      in if ds = [] \<or> v < - (2 ^ 63) \<or> v \<ge> 2 ^ 63 then None else Some v)"

definition cast_i32 :: "int \<Rightarrow> int" where
  "cast_i32 v = sint (word_of_int v :: 32 word)"

subsection \<open>Floating point\<close>

type_synonym float32 = "32 word"
type_synonym float64 = "64 word"

record IEEE =
  d_of_f :: "float32 \<Rightarrow> float64"
  f_of_d :: "float64 \<Rightarrow> float32"
  f_of_i :: "int \<Rightarrow> float32"
  d_of_i :: "int \<Rightarrow> float64"
  i_of_f :: "float32 \<Rightarrow> int"
  f_sub :: "float32 \<Rightarrow> float32 \<Rightarrow> float32"
  d_add :: "float64 \<Rightarrow> float64 \<Rightarrow> float64"
  d_sub :: "float64 \<Rightarrow> float64 \<Rightarrow> float64"
  d_mul :: "float64 \<Rightarrow> float64 \<Rightarrow> float64"
  d_div :: "float64 \<Rightarrow> float64 \<Rightarrow> float64"
  d_neg :: "float64 \<Rightarrow> float64"
  d_leq :: "float64 \<Rightarrow> float64 \<Rightarrow> bool"
  d_less :: "float64 \<Rightarrow> float64 \<Rightarrow> bool"
  d_round :: "float64 \<Rightarrow> float64"
  d_lround :: "float64 \<Rightarrow> int"
  d_epsilon :: float64
  d_hundred :: float64
  s_to_f :: "byte list \<Rightarrow> float32 option"
  s_to_d :: "byte list \<Rightarrow> float64 option"
  d_fixed2 :: "float64 \<Rightarrow> byte list"

definition compare_float :: "IEEE \<Rightarrow> float32 \<Rightarrow> float32 \<Rightarrow> int" where
  "compare_float io v1 v2 =
     (let cmp = d_of_f io (f_sub io v1 v2) in
      if d_less io (d_epsilon io) cmp then 1
      else if d_less io cmp (d_neg io (d_epsilon io)) then - 1
      else 0)"

definition round2 :: "IEEE \<Rightarrow> float64 \<Rightarrow> float64" where
  "round2 io v = d_div io (d_round io (d_mul io v (d_hundred io))) (d_hundred io)"

text \<open>Cutting the zeros and the point off the end of \<open>%.2f\<close>; \<open>double_to_str\<close> rounds first.\<close>

definition trim_fraction :: "byte list \<Rightarrow> byte list" where
  "trim_fraction s =
     (let s = rev (dropWhile (\<lambda>b. b = 48) (rev s))
      in if s \<noteq> [] \<and> last s = 46 then butlast s else s)"

definition plain_double_to_str :: "IEEE \<Rightarrow> float64 \<Rightarrow> byte list" where
  "plain_double_to_str io v = trim_fraction (d_fixed2 io v)"

definition double_to_str :: "IEEE \<Rightarrow> float64 \<Rightarrow> byte list" where
  "double_to_str io v = trim_fraction (d_fixed2 io (round2 io v))"

subsection \<open>Value\<close>

record Value =
  v_type :: AttrType
  v_length :: int
  v_null :: bool
  v_has_double :: bool
  v_plain :: bool
  v_double :: float64
  v_num :: "32 word"
  v_str :: "byte list"

text \<open>The members an empty constructor leaves uninitialised (\<open>num_value_\<close>) are whatever they were.\<close>

definition value_new :: "32 word \<Rightarrow> Value" where
  "value_new junk = \<lparr>v_type = UNDEFINED, v_length = 0, v_null = False, v_has_double = False, v_plain = False, v_double = 0, v_num = junk, v_str = []\<rparr>"

definition set_int :: "int \<Rightarrow> Value \<Rightarrow> Value" where
  "set_int val v = v\<lparr>v_type := INTS, v_has_double := False, v_plain := False, v_num := word_of_int val, v_length := 4\<rparr>"

definition set_float :: "float32 \<Rightarrow> Value \<Rightarrow> Value" where
  "set_float val v = v\<lparr>v_type := FLOATS, v_has_double := False, v_plain := False, v_num := val, v_length := 4\<rparr>"

definition set_double :: "IEEE \<Rightarrow> float64 \<Rightarrow> bool \<Rightarrow> Value \<Rightarrow> Value" where
  "set_double io val plain_format v =
     v\<lparr>v_type := FLOATS, v_num := f_of_d io val, v_double := val, v_has_double := True, v_plain := plain_format, v_length := 4\<rparr>"

definition set_date :: "int \<Rightarrow> Value \<Rightarrow> Value" where
  "set_date val v = v\<lparr>v_type := DATES, v_has_double := False, v_plain := False, v_num := word_of_int val, v_length := 4\<rparr>"

definition put_bool :: "bool \<Rightarrow> 32 word \<Rightarrow> 32 word" where
  "put_bool b w = (w AND NOT 255) OR (if b then 1 else 0)"

definition set_boolean :: "bool \<Rightarrow> Value \<Rightarrow> Value" where
  "set_boolean val v = v\<lparr>v_type := BOOLEANS, v_has_double := False, v_plain := False, v_num := put_bool val (v_num v), v_length := 1\<rparr>"

text \<open>The bytes of a C string up to its terminator.\<close>

definition c_str :: "byte list \<Rightarrow> byte list" where
  "c_str s = takeWhile (\<lambda>b. b \<noteq> 0) s"

definition set_string :: "byte list \<Rightarrow> int \<Rightarrow> Value \<Rightarrow> Value" where
  "set_string s len v =
     (let str = (if len > 0 then c_str (take (nat len) s) else c_str s)
      in v\<lparr>v_type := CHARS, v_has_double := False, v_plain := False, v_str := str, v_length := int (length str)\<rparr>)"

definition set_null :: "bool \<Rightarrow> Value \<Rightarrow> Value" where
  "set_null val v = (if val then v\<lparr>v_null := True, v_type := NULLS, v_has_double := False, v_plain := False\<rparr> else v\<lparr>v_null := False\<rparr>)"

definition value_set_data :: "byte list \<Rightarrow> int \<Rightarrow> Value \<Rightarrow> Value" where
  "value_set_data data len v =
     (case v_type v of
        CHARS \<Rightarrow> (set_string data len v)\<lparr>v_type := CHARS\<rparr>
      | TEXTS \<Rightarrow> (set_string data len v)\<lparr>v_type := TEXTS\<rparr>
      | INTS \<Rightarrow> v\<lparr>v_num := read_w32 (nth data) 0, v_has_double := False, v_plain := False, v_length := len\<rparr>
      | FLOATS \<Rightarrow> v\<lparr>v_num := read_w32 (nth data) 0, v_has_double := False, v_plain := True, v_length := len\<rparr>
      | BOOLEANS \<Rightarrow> v\<lparr>v_num := put_bool (read_w32 (nth data) 0 \<noteq> 0) (v_num v), v_has_double := False, v_plain := False, v_length := len\<rparr>
      | DATES \<Rightarrow> v\<lparr>v_num := read_w32 (nth data) 0, v_has_double := False, v_plain := False, v_length := len\<rparr>
      | _ \<Rightarrow> v)"

definition value_of_data :: "32 word \<Rightarrow> AttrType \<Rightarrow> byte list \<Rightarrow> int \<Rightarrow> Value" where
  "value_of_data junk t data len = value_set_data data len ((value_new junk)\<lparr>v_type := t\<rparr>)"

abbreviation v_int :: "Value \<Rightarrow> int" where
  "v_int v \<equiv> sint (v_num v)"

definition v_bool :: "Value \<Rightarrow> bool" where
  "v_bool v \<longleftrightarrow> v_num v AND 255 \<noteq> 0"

definition get_int :: "IEEE \<Rightarrow> Value \<Rightarrow> int" where
  "get_int io v =
     (case v_type v of
        CHARS \<Rightarrow> (case stol (v_str v) of Some i \<Rightarrow> cast_i32 i | None \<Rightarrow> 0)
      | TEXTS \<Rightarrow> (case stol (v_str v) of Some i \<Rightarrow> cast_i32 i | None \<Rightarrow> 0)
      | INTS \<Rightarrow> v_int v
      | FLOATS \<Rightarrow> i_of_f io (v_num v)
      | BOOLEANS \<Rightarrow> (if v_bool v then 1 else 0)
      | _ \<Rightarrow> 0)"

definition get_float :: "IEEE \<Rightarrow> Value \<Rightarrow> float32" where
  "get_float io v =
     (case v_type v of
        CHARS \<Rightarrow> (case s_to_f io (v_str v) of Some x \<Rightarrow> x | None \<Rightarrow> 0)
      | TEXTS \<Rightarrow> (case s_to_f io (v_str v) of Some x \<Rightarrow> x | None \<Rightarrow> 0)
      | INTS \<Rightarrow> f_of_i io (v_int v)
      | FLOATS \<Rightarrow> v_num v
      | DATES \<Rightarrow> f_of_i io (v_int v)
      | BOOLEANS \<Rightarrow> f_of_i io (if v_bool v then 1 else 0)
      | _ \<Rightarrow> 0)"

definition get_double :: "IEEE \<Rightarrow> Value \<Rightarrow> float64" where
  "get_double io v =
     (case v_type v of
        CHARS \<Rightarrow> (case s_to_d io (v_str v) of Some x \<Rightarrow> x | None \<Rightarrow> 0)
      | TEXTS \<Rightarrow> (case s_to_d io (v_str v) of Some x \<Rightarrow> x | None \<Rightarrow> 0)
      | INTS \<Rightarrow> d_of_i io (v_int v)
      | FLOATS \<Rightarrow> if v_has_double v then v_double v
                  else if v_plain v then round2 io (d_of_f io (v_num v)) else d_of_f io (v_num v)
      | DATES \<Rightarrow> d_of_i io (v_int v)
      | BOOLEANS \<Rightarrow> d_of_i io (if v_bool v then 1 else 0)
      | _ \<Rightarrow> 0)"

text \<open>A date is the decimal number \<open>yyyymmdd\<close>; \<open>/\<close> and \<open>%\<close> truncate towards zero.\<close>

definition c_div :: "int \<Rightarrow> int \<Rightarrow> int" where
  "c_div a b = sgn a * sgn b * (\<bar>a\<bar> div \<bar>b\<bar>)"

definition c_mod :: "int \<Rightarrow> int \<Rightarrow> int" where
  "c_mod a b = a - b * c_div a b"

definition check_date :: "int \<Rightarrow> int \<Rightarrow> int \<Rightarrow> bool" where
  "check_date y m d =
     (if y < 1 \<or> y > 9999 then False
      else if m < 1 \<or> m > 12 \<or> d < 1 then False
      else let days_of_month = [0, 31, 28, 31, 30, 31, 30, 31, 31, 30, 31, 30, 31];
               leap = (c_mod y 4 = 0 \<and> c_mod y 100 \<noteq> 0 \<or> c_mod y 400 = 0);
               max_day = (if m = 2 \<and> leap then 29 else days_of_month ! nat m)
        in d \<le> max_day)"

definition date_to_string :: "int \<Rightarrow> byte list" where
  "date_to_string date =
     take 15 (dec_padded 4 (c_div date 10000) @ 45 # dec_padded 2 (c_div (c_mod date 10000) 100) @ 45 # dec_padded 2 (c_mod date 100))"

definition null_string :: "byte list" where
  "null_string = [78, 85, 76, 76]"

definition to_string :: "IEEE \<Rightarrow> Value \<Rightarrow> byte list" where
  "to_string io v =
     (if v_null v then null_string
      else case v_type v of
        INTS \<Rightarrow> dec_int (v_int v)
      | FLOATS \<Rightarrow>
          (let x = (if v_has_double v then v_double v else d_of_f io (v_num v))
           in if v_plain v then plain_double_to_str io x else double_to_str io x)
      | BOOLEANS \<Rightarrow> dec_int (if v_bool v then 1 else 0)
      | CHARS \<Rightarrow> v_str v
      | TEXTS \<Rightarrow> v_str v
      | DATES \<Rightarrow> date_to_string (v_int v)
      | _ \<Rightarrow> [])"

definition get_string :: "IEEE \<Rightarrow> Value \<Rightarrow> byte list" where
  "get_string io v = (if v_null v then null_string else to_string io v)"

definition beyond_epsilon :: "IEEE \<Rightarrow> float32 \<Rightarrow> bool" where
  "beyond_epsilon io x \<longleftrightarrow> d_leq io (d_epsilon io) (d_of_f io x) \<or> d_leq io (d_of_f io x) (d_neg io (d_epsilon io))"

definition string_boolean :: "IEEE \<Rightarrow> byte list \<Rightarrow> bool" where
  "string_boolean io s =
     (case s_to_f io s of
        None \<Rightarrow> s \<noteq> []
      | Some val \<Rightarrow>
          if beyond_epsilon io val then True
          else case stol s of
            None \<Rightarrow> s \<noteq> []
          | Some i \<Rightarrow> if cast_i32 i \<noteq> 0 then True else s \<noteq> [])"

definition get_boolean :: "IEEE \<Rightarrow> Value \<Rightarrow> bool" where
  "get_boolean io v =
     (if v_null v then False
      else case v_type v of
        CHARS \<Rightarrow> string_boolean io (v_str v)
      | TEXTS \<Rightarrow> string_boolean io (v_str v)
      | INTS \<Rightarrow> v_int v \<noteq> 0
      | FLOATS \<Rightarrow> beyond_epsilon io (v_num v)
      | BOOLEANS \<Rightarrow> v_bool v
      | _ \<Rightarrow> False)"

text \<open>\<^const>\<open>None\<close>: the failing assertion on a value without a type. \<open>NULLS\<close> without the null flag leaves the target.\<close>

definition set_value :: "IEEE \<Rightarrow> Value \<Rightarrow> Value \<Rightarrow> Value option" where
  "set_value io value v =
     (if v_null value then Some (set_null True v)
      else case v_type value of
        INTS \<Rightarrow> Some (set_int (get_int io value) v)
      | FLOATS \<Rightarrow> Some (set_double io (get_double io value) (v_plain value) v)
      | CHARS \<Rightarrow> Some (set_string (get_string io value) 0 v)
      | TEXTS \<Rightarrow> Some (set_string (get_string io value) 0 v)
      | DATES \<Rightarrow> Some (set_date (v_int value) v)
      | BOOLEANS \<Rightarrow> Some (set_boolean (get_boolean io value) v)
      | UNDEFINED \<Rightarrow> None
      | NULLS \<Rightarrow> Some v)"

text \<open>
  \<open>compare\<close>. The boolean case reads the whole union as an \<open>int\<close>, as the code does.
\<close>

definition compare_num :: "32 word \<Rightarrow> 32 word \<Rightarrow> int" where
  "compare_num a b = sub_i32 (sint a) (sint b)"

definition compare_converted :: "IEEE \<Rightarrow> float32 option \<Rightarrow> float32 option \<Rightarrow> int" where
  "compare_converted io x y = (case (x, y) of (Some x, Some y) \<Rightarrow> compare_float io x y | _ \<Rightarrow> - 1)"

definition is_string_type :: "AttrType \<Rightarrow> bool" where
  "is_string_type t \<longleftrightarrow> t = CHARS \<or> t = TEXTS"

definition value_compare :: "IEEE \<Rightarrow> Value \<Rightarrow> Value \<Rightarrow> int" where
  "value_compare io this other =
     (if v_null this \<or> v_null other then - 2
      else if v_type this = v_type other then
        (case v_type this of
           INTS \<Rightarrow> compare_num (v_num this) (v_num other)
         | FLOATS \<Rightarrow> compare_float io (v_num this) (v_num other)
         | CHARS \<Rightarrow> compare_string (v_str this) (length (v_str this)) (v_str other) (length (v_str other))
         | TEXTS \<Rightarrow> compare_string (v_str this) (length (v_str this)) (v_str other) (length (v_str other))
         | DATES \<Rightarrow> compare_num (v_num this) (v_num other)
         | BOOLEANS \<Rightarrow> compare_num (v_num this) (v_num other)
         | _ \<Rightarrow> - 1)
      else if v_type this = INTS \<and> v_type other = FLOATS then compare_float io (f_of_i io (v_int this)) (v_num other)
      else if v_type this = FLOATS \<and> v_type other = INTS then compare_float io (v_num this) (f_of_i io (v_int other))
      else if is_string_type (v_type this) \<and> v_type other = FLOATS then
        compare_converted io (map_option (f_of_d io) (s_to_d io (v_str this))) (Some (v_num other))
      else if v_type this = FLOATS \<and> is_string_type (v_type other) then
        compare_converted io (Some (v_num this)) (map_option (f_of_d io) (s_to_d io (v_str other)))
      else if is_string_type (v_type this) \<and> v_type other = INTS then
        compare_converted io (map_option (f_of_d io) (s_to_d io (v_str this))) (Some (f_of_i io (v_int other)))
      else if v_type this = INTS \<and> is_string_type (v_type other) then
        compare_converted io (Some (f_of_i io (v_int this))) (map_option (f_of_d io) (s_to_d io (v_str other)))
      else - 1)"

subsection \<open>Type names\<close>

definition ATTR_TYPES :: "AttrType list" where
  "ATTR_TYPES = [UNDEFINED, CHARS, INTS, FLOATS, DATES, BOOLEANS, TEXTS, NULLS]"

fun attr_type_to_string :: "AttrType \<Rightarrow> string" where
  "attr_type_to_string UNDEFINED = ''undefined''"
| "attr_type_to_string CHARS = ''chars''"
| "attr_type_to_string INTS = ''ints''"
| "attr_type_to_string FLOATS = ''floats''"
| "attr_type_to_string DATES = ''dates''"
| "attr_type_to_string BOOLEANS = ''booleans''"
| "attr_type_to_string TEXTS = ''texts''"
| "attr_type_to_string NULLS = ''nulls''"

definition attr_type_from_string :: "string \<Rightarrow> AttrType" where
  "attr_type_from_string s = (case find (\<lambda>t. attr_type_to_string t = s) ATTR_TYPES of Some t \<Rightarrow> t | None \<Rightarrow> UNDEFINED)"

end
