(* ===== verification/TableMeta.thy ===== *)
theory TableMeta
  imports Value
begin

section \<open>Fields, indexes and tables: the metadata (field_meta.cpp, index_meta.cpp, table_meta.cpp, field.cpp)\<close>

text \<open>
  What a table knows about its records: the fields with their place in the record, the descriptions of the
  indexes, the size of a record. Names are \<open>std::string\<close>s, byte lists here. The transaction fields that every table
  starts with come from the transaction kit of the process; \<open>kit\<close> is what its \<open>trx_fields\<close> returns, \<^const>\<open>None\<close> for the
  null pointer of the vacuous kit.
\<close>

type_synonym name = "byte list"

definition is_blank :: "name \<Rightarrow> bool" where
  "is_blank s \<longleftrightarrow> list_all is_space (c_str s)"

subsection \<open>FieldMeta\<close>

record FieldMeta =
  fm_name :: name
  fm_type :: AttrType
  fm_offset :: int
  fm_len :: int
  fm_visible :: bool
  fm_nullable :: bool

definition field_new :: FieldMeta where
  "field_new = \<lparr>fm_name = [], fm_type = UNDEFINED, fm_offset = - 1, fm_len = 0, fm_visible = False, fm_nullable = False\<rparr>"

definition field_init :: "name \<Rightarrow> AttrType \<Rightarrow> int \<Rightarrow> int \<Rightarrow> bool \<Rightarrow> bool \<Rightarrow> FieldMeta \<Rightarrow> RC \<times> FieldMeta" where
  "field_init name attr_type attr_offset attr_len visible nullable f =
     (if is_blank name then (INVALID_ARGUMENT, f)
      else if attr_type = UNDEFINED \<or> attr_offset < 0 \<or> attr_len \<le> 0 then (INVALID_ARGUMENT, f)
      else (SUCCESS, \<lparr>fm_name = c_str name, fm_type = attr_type, fm_offset = attr_offset, fm_len = attr_len,
              fm_visible = visible, fm_nullable = nullable\<rparr>))"

text \<open>The constructor asserts that \<open>init\<close> succeeds.\<close>

definition field_make :: "name \<Rightarrow> AttrType \<Rightarrow> int \<Rightarrow> int \<Rightarrow> bool \<Rightarrow> bool \<Rightarrow> FieldMeta option" where
  "field_make name attr_type attr_offset attr_len visible nullable =
     (case field_init name attr_type attr_offset attr_len visible nullable field_new of
        (rc, f) \<Rightarrow> if rc = SUCCESS then Some f else None)"

subsection \<open>Field: one field of a record\<close>

text \<open>A record is its bytes; a field of a record in a page is read and written at the address of the record.\<close>

definition put_i32 :: "byte list \<Rightarrow> nat \<Rightarrow> int \<Rightarrow> byte list" where
  "put_i32 d off v = mem_slice (write_i32 (nth d) off v) 0 (length d)"

definition field_set_int :: "FieldMeta \<Rightarrow> int \<Rightarrow> byte list \<Rightarrow> byte list option" where
  "field_set_int f value record =
     (if fm_type f = INTS \<and> fm_len f = 4 then Some (put_i32 record (nat (fm_offset f)) value) else None)"

definition field_get_int :: "IEEE \<Rightarrow> FieldMeta \<Rightarrow> byte list \<Rightarrow> int" where
  "field_get_int io f record = get_int io (value_of_data 0 (fm_type f) (drop (nat (fm_offset f)) record) (fm_len f))"

definition field_get_data :: "FieldMeta \<Rightarrow> byte list \<Rightarrow> byte list" where
  "field_get_data f record = drop (nat (fm_offset f)) record"

subsection \<open>IndexMeta\<close>

record IndexMeta =
  im_name :: name
  im_field :: name
  im_field_names :: "name list"
  im_unique :: bool

definition index_meta_new :: IndexMeta where
  "index_meta_new = \<lparr>im_name = [], im_field = [], im_field_names = [], im_unique = False\<rparr>"

text \<open>\<open>split_field_names\<close>: the loop over the characters with the token so far.\<close>

fun split_loop :: "byte list \<Rightarrow> byte list \<Rightarrow> name list \<Rightarrow> name list" where
  "split_loop [] token names = (if token \<noteq> [] then names @ [token] else names)"
| "split_loop (c # cs) token names =
     (if c = 44 then (if token \<noteq> [] then split_loop cs [] (names @ [token]) else split_loop cs token names)
      else split_loop cs (token @ [c]) names)"

definition split_field_names :: "byte list \<Rightarrow> name list" where
  "split_field_names field_str = split_loop field_str [] []"

text \<open>The fields given as pointers, \<^const>\<open>None\<close> the null pointer.\<close>

fun index_meta_fields :: "nat \<Rightarrow> FieldMeta option list \<Rightarrow> IndexMeta \<Rightarrow> RC \<times> IndexMeta" where
  "index_meta_fields i [] im = (SUCCESS, im)"
| "index_meta_fields i (None # fs) im = (INVALID_ARGUMENT, im)"
| "index_meta_fields i (Some f # fs) im =
     index_meta_fields (Suc i) fs (im\<lparr>im_field_names := im_field_names im @ [fm_name f],
       im_field := im_field im @ (if i > 0 then [44] else []) @ fm_name f\<rparr>)"

definition index_meta_init :: "name \<Rightarrow> FieldMeta option list \<Rightarrow> bool \<Rightarrow> IndexMeta \<Rightarrow> RC \<times> IndexMeta" where
  "index_meta_init name metas unique im =
     (if is_blank name then (INVALID_ARGUMENT, im)
      else if metas = [] then (INVALID_ARGUMENT, im)
      else case index_meta_fields 0 metas (im\<lparr>im_name := c_str name, im_field_names := [], im_field := []\<rparr>) of
        (rc, im) \<Rightarrow> if rc \<noteq> SUCCESS then (rc, im) else (SUCCESS, im\<lparr>im_unique := unique\<rparr>))"

definition contains_field :: "IndexMeta \<Rightarrow> name \<Rightarrow> bool" where
  "contains_field im field \<longleftrightarrow> list_ex (\<lambda>n. n = field) (im_field_names im)"

subsection \<open>TableMeta\<close>

record AttrInfoSqlNode =
  ai_type :: AttrType
  ai_name :: name
  ai_length :: nat
  ai_nullable :: bool

record TableMeta =
  tm_table_id :: int
  tm_name :: name
  tm_fields :: "FieldMeta list"
  tm_indexes :: "IndexMeta list"
  tm_record_size :: int

definition table_meta_new :: TableMeta where
  "table_meta_new = \<lparr>tm_table_id = - 1, tm_name = [], tm_fields = [], tm_indexes = [], tm_record_size = 0\<rparr>"

text \<open>The transaction fields, in the order of the kit; the result is the fields and the offset behind them.\<close>

fun trx_field_loop :: "FieldMeta list \<Rightarrow> int \<Rightarrow> (FieldMeta list \<times> int) option" where
  "trx_field_loop [] field_offset = Some ([], field_offset)"
| "trx_field_loop (k # ks) field_offset = do {
     f \<leftarrow> field_make (fm_name k) (fm_type k) field_offset (fm_len k) False False;
     (fs, off) \<leftarrow> trx_field_loop ks (cast_i32 (field_offset + fm_len k));
     Some (f # fs, off)
   }"

text \<open>
  The fields of the user. \<open>length\<close> is a \<open>size_t\<close>: passing it as an \<open>int\<close> and adding it to the \<open>int\<close> offset both
  keep its low 32 bits. Each attribute comes with the field it initialises; the fields from one that fails on keep what they held.
\<close>

definition resize :: "nat \<Rightarrow> FieldMeta list \<Rightarrow> FieldMeta list" where
  "resize n fs = take n fs @ replicate (n - length fs) field_new"

fun user_field_loop :: "(AttrInfoSqlNode \<times> FieldMeta) list \<Rightarrow> int \<Rightarrow> RC \<times> FieldMeta list \<times> int" where
  "user_field_loop [] field_offset = (SUCCESS, [], field_offset)"
| "user_field_loop ((a, f) # as) field_offset =
     (case field_init (ai_name a) (ai_type a) field_offset (cast_i32 (int (ai_length a))) True (ai_nullable a) f of
        (rc, f) \<Rightarrow>
          if rc \<noteq> SUCCESS then (rc, f # map snd as, field_offset)
          else case user_field_loop as (cast_i32 (field_offset + int (ai_length a))) of
            (rc, fs, off) \<Rightarrow> (rc, f # fs, off))"

definition table_meta_init ::
  "FieldMeta list option \<Rightarrow> int \<Rightarrow> name \<Rightarrow> AttrInfoSqlNode list \<Rightarrow> TableMeta \<Rightarrow> (RC \<times> TableMeta) option" where
  "table_meta_init kit table_id name attributes tm =
     (if is_blank name then Some (INVALID_ARGUMENT, tm)
      else if attributes = [] then Some (INVALID_ARGUMENT, tm)
      else do {
        (trx_fields, field_offset) \<leftarrow> (case kit of None \<Rightarrow> Some ([], 0) | Some ks \<Rightarrow> trx_field_loop ks 0);
        let fields = resize (length attributes + length trx_fields) (tm_fields tm);
        let (rc, user_fields, field_offset) = user_field_loop (zip attributes (drop (length trx_fields) fields)) field_offset;
        let tm = tm\<lparr>tm_fields := trx_fields @ user_fields\<rparr>;
        if rc \<noteq> SUCCESS then Some (rc, tm)
        else Some (SUCCESS, tm\<lparr>tm_record_size := field_offset, tm_table_id := table_id, tm_name := c_str name\<rparr>)
      })"

definition add_index :: "IndexMeta \<Rightarrow> TableMeta \<Rightarrow> RC \<times> TableMeta" where
  "add_index im tm = (SUCCESS, tm\<lparr>tm_indexes := tm_indexes tm @ [im]\<rparr>)"

definition sys_field_num :: "FieldMeta list option \<Rightarrow> nat" where
  "sys_field_num kit = (case kit of None \<Rightarrow> 0 | Some ks \<Rightarrow> length ks)"

definition find_field :: "name \<Rightarrow> TableMeta \<Rightarrow> FieldMeta option" where
  "find_field name tm = find (\<lambda>f. fm_name f = name) (tm_fields tm)"

definition find_field_by_offset :: "int \<Rightarrow> TableMeta \<Rightarrow> FieldMeta option" where
  "find_field_by_offset offset tm = find (\<lambda>f. fm_offset f = offset) (tm_fields tm)"

definition find_index_meta :: "name \<Rightarrow> TableMeta \<Rightarrow> IndexMeta option" where
  "find_index_meta name tm = find (\<lambda>im. im_name im = name) (tm_indexes tm)"

definition find_index_by_field :: "name \<Rightarrow> TableMeta \<Rightarrow> IndexMeta option" where
  "find_index_by_field field tm = find (\<lambda>im. contains_field im field) (tm_indexes tm)"

text \<open>\<open>swap\<close> leaves the table ids where they are.\<close>

definition table_meta_swap :: "TableMeta \<Rightarrow> TableMeta \<Rightarrow> TableMeta \<times> TableMeta" where
  "table_meta_swap a b = (b\<lparr>tm_table_id := tm_table_id a\<rparr>, a\<lparr>tm_table_id := tm_table_id b\<rparr>)"

subsection \<open>The layout of a record\<close>

text \<open>The fields lie one behind the other, from \<open>off\<close> on.\<close>

fun laid_out :: "int \<Rightarrow> FieldMeta list \<Rightarrow> bool" where
  "laid_out off [] \<longleftrightarrow> True"
| "laid_out off (f # fs) \<longleftrightarrow> fm_offset f = off \<and> 0 \<le> off \<and> 0 < fm_len f \<and> laid_out (off + fm_len f) fs"

definition fields_len :: "FieldMeta list \<Rightarrow> int" where
  "fields_len fs = sum_list (map fm_len fs)"

lemma laid_out_append: "laid_out off (fs @ gs) \<longleftrightarrow> laid_out off fs \<and> laid_out (off + fields_len fs) gs"
  by (induction fs arbitrary: off) (auto simp: fields_len_def add.assoc)

lemma laid_out_len: "laid_out off fs \<Longrightarrow> 0 \<le> fields_len fs"
  by (induction fs arbitrary: off) (auto simp: fields_len_def)

lemma laid_out_bounds:
  "laid_out off fs \<Longrightarrow> f \<in> set fs \<Longrightarrow> off \<le> fm_offset f \<and> 0 < fm_len f \<and> fm_offset f + fm_len f \<le> off + fields_len fs"
proof (induction fs arbitrary: off)
  case (Cons g fs)
  then have g: "off = fm_offset g" "0 < fm_len g" "laid_out (off + fm_len g) fs" by auto
  then have len: "fields_len (g # fs) = fm_len g + fields_len fs" "0 \<le> fields_len fs" using laid_out_len by (auto simp: fields_len_def)
  show ?case
  proof (cases "f = g")
    case True
    then show ?thesis using g len by simp
  next
    case False
    then show ?thesis using Cons.IH [OF g(3)] Cons.prems(2) g(2) len by auto
  qed
qed simp

lemma laid_out_nth: "laid_out off fs \<Longrightarrow> i < length fs \<Longrightarrow> fm_offset (fs ! i) = off + fields_len (take i fs)"
proof (induction fs arbitrary: off i)
  case (Cons g fs)
  then show ?case by (cases i) (auto simp: fields_len_def)
qed simp

text \<open>Two fields do not overlap.\<close>

lemma laid_out_disjoint:
  assumes "laid_out off fs" "i < j" "j < length fs"
  shows "fm_offset (fs ! i) + fm_len (fs ! i) \<le> fm_offset (fs ! j)"
proof -
  have fs: "fs = take j fs @ drop j fs" by simp
  then have "laid_out off (take j fs)" using assms(1) laid_out_append by metis
  moreover have "fs ! i \<in> set (take j fs)" using assms(2,3) by (auto simp: in_set_conv_nth)
  ultimately show ?thesis using laid_out_bounds laid_out_nth [OF assms(1,3)] by fastforce
qed

lemma cast_i32_take: "cast_i32 v = signed_take_bit 31 v"
  by (simp only: cast_i32_def sint_sbintrunc') simp

lemma cast_i32_cong: "cast_i32 (a + int n) = cast_i32 (a + cast_i32 (int n))"
  using signed_take_bit_add [of 31 a "int n"] signed_take_bit_add [of 31 a "signed_take_bit 31 (int n)"] by (simp add: cast_i32_take)

lemma cast_i32_fits: "fits_i32 v \<Longrightarrow> cast_i32 v = v"
  by (simp only: cast_i32_def sint_word_of_int_fits)

lemma cast_i32_range: "cast_i32 a \<ge> - (2 ^ 31)" "cast_i32 a < 2 ^ 31"
  using sint_ge [of "word_of_int a :: 32 word"] sint_lt [of "word_of_int a :: 32 word"] by (simp_all add: cast_i32_def)

lemma cast_i32_add:
  assumes "0 \<le> a" "a < 2 ^ 31" "0 \<le> b" "b < 2 ^ 31" "0 \<le> cast_i32 (a + b)"
  shows "cast_i32 (a + b) = a + b"
proof (cases "a + b < 2 ^ 31")
  case True
  then show ?thesis using assms by (intro cast_i32_fits) (simp add: fits_i32_def)
next
  case False
  have "(a + b - 2 ^ 32 + 2 ^ 31) mod 2 ^ 32 = (a + b + 2 ^ 31) mod (2 :: int) ^ 32"
    using mod_add_self2 [of "a + b - 2 ^ 32 + 2 ^ 31" "(2 :: int) ^ 32"] by (simp add: algebra_simps)
  then have "cast_i32 (a + b) = cast_i32 (a + b - 2 ^ 32)"
    by (simp add: cast_i32_take signed_take_bit_eq_take_bit_shift take_bit_eq_mod)
  moreover have "fits_i32 (a + b - 2 ^ 32)" using False assms by (simp add: fits_i32_def)
  ultimately have "cast_i32 (a + b) < 0" using assms cast_i32_fits [of "a + b - 2 ^ 32"] by simp
  then show ?thesis using assms by simp
qed

lemma next_offset:
  assumes "0 \<le> off" "fits_i32 off" "0 < len" "len < 2 ^ 31" "0 \<le> cast_i32 (off + len)"
  shows "cast_i32 (off + len) = off + len"
  using assms by (intro cast_i32_add) (simp_all add: fits_i32_def)

lemma field_init_ok:
  assumes "field_init n t off len vis nul f = (SUCCESS, g)"
  shows "0 \<le> off \<and> 0 < len \<and> g = \<lparr>fm_name = c_str n, fm_type = t, fm_offset = off, fm_len = len, fm_visible = vis, fm_nullable = nul\<rparr> \<and> t \<noteq> UNDEFINED"
  using assms by (auto simp: field_init_def split: if_splits)

lemma user_field_loop_layout:
  "user_field_loop as off = (SUCCESS, fs, off') \<Longrightarrow> fits_i32 off \<Longrightarrow>
     laid_out off fs \<and> map fm_name fs = map (c_str \<circ> ai_name \<circ> fst) as \<and> off' = cast_i32 (off + fields_len fs)"
proof (induction as arbitrary: off fs off')
  case (Cons x as)
  obtain a f0 where x: "x = (a, f0)" by fastforce
  obtain rc f where f: "field_init (ai_name a) (ai_type a) off (cast_i32 (int (ai_length a))) True (ai_nullable a) f0 = (rc, f)" by fastforce
  obtain rc' gs o' where g: "user_field_loop as (cast_i32 (off + int (ai_length a))) = (rc', gs, o')" using prod_cases3 by blast
  have rc: "rc = SUCCESS" "rc' = SUCCESS" "fs = f # gs" "off' = o'" using Cons.prems(1) f g x by (auto split: if_splits)
  have fo: "0 \<le> off" "0 < fm_len f" "fm_offset f = off" "fm_len f = cast_i32 (int (ai_length a))" "fm_name f = c_str (ai_name a)"
    using field_init_ok f rc by force+
  let ?o = "cast_i32 (off + fm_len f)"
  have o: "cast_i32 (off + int (ai_length a)) = ?o" using cast_i32_cong fo(4) by simp
  have fits: "fits_i32 ?o" using cast_i32_range [of "off + fm_len f"] by (simp add: fits_i32_def)
  have ih: "laid_out ?o gs \<and> map fm_name gs = map (c_str \<circ> ai_name \<circ> fst) as \<and> o' = cast_i32 (?o + fields_len gs)"
    using Cons.IH [of ?o gs o'] g rc(2) o fits by simp
  show ?case
  proof (cases as)
    case Nil
    then show ?thesis using g rc fo o x by (auto simp: fields_len_def)
  next
    case (Cons b bs)
    then have "0 \<le> ?o" using ih by (cases gs) auto
    then have "?o = off + fm_len f" using next_offset [of off "fm_len f"] fo Cons.prems(2) cast_i32_range(2) [of "int (ai_length a)"] by simp
    then show ?thesis using ih rc fo x by (simp add: fields_len_def add.assoc)
  qed
qed (simp add: fields_len_def cast_i32_fits)

lemma trx_field_loop_layout:
  "trx_field_loop ks off = Some (fs, off') \<Longrightarrow> fits_i32 off \<Longrightarrow> \<forall>k \<in> set ks. fm_len k < 2 ^ 31 \<Longrightarrow> 0 \<le> off' \<or> ks = [] \<Longrightarrow>
     laid_out off fs \<and> map fm_name fs = map (c_str \<circ> fm_name) ks \<and> map fm_type fs = map fm_type ks \<and> map fm_len fs = map fm_len ks \<and>
     off' = off + fields_len fs \<and> fits_i32 off'"
proof (induction ks arbitrary: off fs off')
  case (Cons k ks)
  let ?o = "cast_i32 (off + fm_len k)"
  obtain f gs where f: "field_make (fm_name k) (fm_type k) off (fm_len k) False False = Some f"
    "trx_field_loop ks ?o = Some (gs, off')" "fs = f # gs" using Cons.prems(1) by (auto split: bind_splits)
  have fo: "0 \<le> off" "0 < fm_len k" "fm_offset f = off" "fm_len f = fm_len k" "fm_name f = c_str (fm_name k)" "fm_type f = fm_type k"
    using f(1) by (auto simp: field_make_def split: prod.splits if_splits dest!: field_init_ok)
  have fits: "fits_i32 ?o" using cast_i32_range [of "off + fm_len k"] by (simp add: fits_i32_def)
  have pos: "0 \<le> ?o"
  proof (cases ks)
    case Nil
    then show ?thesis using f(2) Cons.prems(4) by simp
  next
    case (Cons l ls)
    then show ?thesis using f(2) by (auto simp: field_make_def field_init_def split: bind_splits if_splits)
  qed
  then have "?o = off + fm_len k" using next_offset [of off "fm_len k"] fo Cons.prems(2,3) by simp
  then show ?case using Cons.IH [OF f(2) fits] Cons.prems(3,4) f(2,3) fo by (auto simp: fields_len_def add.assoc)
qed (simp add: fields_len_def)

lemma table_meta_init_layout:
  assumes "table_meta_init kit table_id name attributes tm = Some (SUCCESS, tm')"
    and kit: "case kit of None \<Rightarrow> True | Some ks \<Rightarrow> \<forall>k \<in> set ks. fm_len k < 2 ^ 31"
  obtains tf uf where "tm_fields tm' = tf @ uf" "laid_out 0 (tf @ uf)" "length tf = sys_field_num kit"
    "map fm_name uf = map (c_str \<circ> ai_name) attributes" "tm_record_size tm' = cast_i32 (fields_len (tf @ uf))" "uf \<noteq> []"
    "kit \<noteq> None \<Longrightarrow> map fm_type tf = map fm_type (the kit) \<and> map fm_len tf = map fm_len (the kit)" "tm_indexes tm' = tm_indexes tm"
proof -
  have ne: "attributes \<noteq> []" "\<not> is_blank name" using assms(1) by (auto simp: table_meta_init_def split: if_splits)
  obtain tf o1 where tf: "(case kit of None \<Rightarrow> Some ([], 0) | Some ks \<Rightarrow> trx_field_loop ks 0) = Some (tf, o1)"
    using assms(1) ne by (auto simp: table_meta_init_def split: bind_splits)
  let ?as = "zip attributes (drop (length tf) (resize (length attributes + length tf) (tm_fields tm)))"
  have zip: "map fst ?as = attributes" by (simp add: resize_def)
  obtain uf o2 where uf: "user_field_loop ?as o1 = (SUCCESS, uf, o2)" and t: "tm_fields tm' = tf @ uf" "tm_record_size tm' = o2" "tm_indexes tm' = tm_indexes tm"
    using assms(1) ne tf by (auto simp: table_meta_init_def Let_def split: prod.splits if_splits)
  have "0 \<le> o1"
  proof (cases ?as)
    case Nil
    then show ?thesis using zip ne by simp
  next
    case (Cons x as)
    then show ?thesis using uf by (cases x) (auto simp: field_init_def split: prod.splits if_splits)
  qed
  then have l: "laid_out 0 tf \<and> o1 = fields_len tf \<and> length tf = sys_field_num kit \<and> fits_i32 o1 \<and>
    (kit \<noteq> None \<longrightarrow> map fm_type tf = map fm_type (the kit) \<and> map fm_len tf = map fm_len (the kit))"
  proof (cases kit)
    case (Some ks)
    then have k: "trx_field_loop ks 0 = Some (tf, o1)" "\<forall>k \<in> set ks. fm_len k < 2 ^ 31" using tf kit by auto
    from trx_field_loop_layout [OF k(1) _ k(2)] \<open>0 \<le> o1\<close>
    have *: "laid_out 0 tf" "map fm_type tf = map fm_type ks" "map fm_len tf = map fm_len ks" "o1 = fields_len tf" "fits_i32 o1"
      by (simp_all add: fits_i32_def)
    then have "length tf = length ks" by (metis length_map)
    then show ?thesis using * Some by (simp add: sys_field_num_def)
  qed (use tf in \<open>auto simp: fields_len_def sys_field_num_def fits_i32_def\<close>)
  from user_field_loop_layout [OF uf] l have u: "laid_out o1 uf" "map fm_name uf = map (c_str \<circ> ai_name \<circ> fst) ?as" "o2 = cast_i32 (o1 + fields_len uf)" by auto
  have "map fm_name uf = map (c_str \<circ> ai_name) (map fst ?as)" using u(2) by simp
  then have n: "map fm_name uf = map (c_str \<circ> ai_name) attributes" unfolding zip .
  with u have "laid_out 0 (tf @ uf)" "uf \<noteq> []" "fields_len (tf @ uf) = o1 + fields_len uf" using l ne by (auto simp: laid_out_append fields_len_def)
  then show ?thesis using t l u n by (intro that [of tf uf]) auto
qed

subsection \<open>The names of an index\<close>

lemma split_loop_token: "44 \<notin> set n \<Longrightarrow> split_loop (n @ cs) token names = split_loop cs (token @ n) names"
  by (induction n arbitrary: token) auto

lemma split_loop_rest:
  assumes "\<forall>n \<in> set ns. n \<noteq> [] \<and> 44 \<notin> set n" "token \<noteq> []"
  shows "split_loop (concat (map (\<lambda>n. 44 # n) ns)) token names = names @ token # ns"
  using assms
proof (induction ns arbitrary: token names)
  case (Cons n ns)
  then show ?case using split_loop_token [of n "concat (map (\<lambda>n. 44 # n) ns)" "[]"] by simp
qed simp

lemma split_joined:
  assumes "\<forall>n \<in> set ns. n \<noteq> [] \<and> 44 \<notin> set n" "n \<noteq> []" "44 \<notin> set n"
  shows "split_field_names (n @ concat (map (\<lambda>n. 44 # n) ns)) = n # ns"
  using assms split_loop_token [of n _ "[]" "[]"] split_loop_rest [of ns n "[]"] by (simp add: split_field_names_def)

lemma index_meta_fields_names:
  "index_meta_fields i fs im = (SUCCESS, im') \<Longrightarrow> \<exists>gs. fs = map Some gs \<and> im_field_names im' = im_field_names im @ map fm_name gs \<and>
     im_field im' = im_field im @ (case gs of [] \<Rightarrow> [] | g # gs' \<Rightarrow> (if i > 0 then [44] else []) @ fm_name g @ concat (map (\<lambda>g. 44 # fm_name g) gs')) \<and>
     im_name im' = im_name im \<and> im_unique im' = im_unique im"
proof (induction i fs im rule: index_meta_fields.induct)
  case (3 i f fs im)
  then obtain gs where gs: "fs = map Some gs" "im_field_names im' = im_field_names im @ fm_name f # map fm_name gs"
    "im_field im' = (im_field im @ (if i > 0 then [44] else []) @ fm_name f) @ (case gs of [] \<Rightarrow> [] | g # gs' \<Rightarrow> [44] @ fm_name g @ concat (map (\<lambda>g. 44 # fm_name g) gs'))"
    "im_name im' = im_name im" "im_unique im' = im_unique im"
    by auto
  then show ?case by (intro exI [of _ "f # gs"]) (auto split: list.splits)
qed auto

lemma index_meta_init_parts:
  assumes "index_meta_init name fs unique im = (SUCCESS, im')"
  obtains g gs where "fs = Some g # map Some gs" "im_field_names im' = fm_name g # map fm_name gs"
    "im_field im' = fm_name g @ concat (map (\<lambda>g. 44 # fm_name g) gs)" "im_name im' = c_str name" "im_unique im' = unique"
proof -
  obtain im1 where f: "index_meta_fields 0 fs (im\<lparr>im_name := c_str name, im_field_names := [], im_field := []\<rparr>) = (SUCCESS, im1)"
    and im': "im' = im1\<lparr>im_unique := unique\<rparr>" "fs \<noteq> []"
    using assms by (auto simp: index_meta_init_def split: if_splits prod.splits)
  from index_meta_fields_names [OF f] obtain gs where gs: "fs = map Some gs" "im_field_names im1 = map fm_name gs"
    "im_field im1 = (case gs of [] \<Rightarrow> [] | g # gs' \<Rightarrow> fm_name g @ concat (map (\<lambda>g. 44 # fm_name g) gs'))" "im_name im1 = c_str name"
    by (auto cong: list.case_cong)
  then show ?thesis using im' by (cases gs) (auto intro: that)
qed

subsection \<open>Properties\<close>

text \<open>
  Property C38: the layout of a record. When \<open>TableMeta::init\<close> succeeds, the fields are those of the transaction kit followed
  by the given attributes under their names; they lie one behind the other from offset 0, so that no two of them overlap, whatever
  the lengths: an offset that leaves the range of \<open>int\<close> makes \<open>init\<close> fail at the next field. The record size is the sum of the lengths
  as an \<open>int\<close>: it is the true sum unless the last field crosses \<open>2\<^sup>31\<close>.
\<close>

theorem table_layout:
  assumes "table_meta_init kit table_id name attributes tm = Some (SUCCESS, tm')"
    and "case kit of None \<Rightarrow> True | Some ks \<Rightarrow> \<forall>k \<in> set ks. fm_len k < 2 ^ 31"
  shows "drop (sys_field_num kit) (map fm_name (tm_fields tm')) = map (c_str \<circ> ai_name) attributes \<and>
    tm_record_size tm' = cast_i32 (fields_len (tm_fields tm')) \<and>
    (fields_len (tm_fields tm') < 2 ^ 31 \<longrightarrow> tm_record_size tm' = fields_len (tm_fields tm')) \<and>
    (\<forall>f \<in> set (tm_fields tm'). 0 \<le> fm_offset f \<and> 0 < fm_len f \<and> fm_offset f + fm_len f \<le> fields_len (tm_fields tm')) \<and>
    (\<forall>i j. i < j \<and> j < length (tm_fields tm') \<longrightarrow> fm_offset (tm_fields tm' ! i) + fm_len (tm_fields tm' ! i) \<le> fm_offset (tm_fields tm' ! j))"
proof (rule table_meta_init_layout [OF assms])
  fix tf uf
  assume t: "tm_fields tm' = tf @ uf" "laid_out 0 (tf @ uf)" "length tf = sys_field_num kit"
    "map fm_name uf = map (c_str \<circ> ai_name) attributes" "tm_record_size tm' = cast_i32 (fields_len (tf @ uf))"
  then have "drop (sys_field_num kit) (map fm_name (tm_fields tm')) = map (c_str \<circ> ai_name) attributes" by (simp flip: t(3))
  moreover have "fields_len (tf @ uf) < 2 ^ 31 \<longrightarrow> cast_i32 (fields_len (tf @ uf)) = fields_len (tf @ uf)"
    using laid_out_len [OF t(2)] by (auto intro!: cast_i32_fits)
  ultimately show ?thesis using t laid_out_bounds [OF t(2)] laid_out_disjoint [OF t(2)] by auto
qed

theorem table_layout_witness:
  "table_meta_init (Some [field_new\<lparr>fm_name := [98], fm_type := INTS, fm_len := 4\<rparr>]) 1 [116]
     [\<lparr>ai_type = CHARS, ai_name = [97], ai_length = 3, ai_nullable = False\<rparr>] table_meta_new =
   Some (SUCCESS, \<lparr>tm_table_id = 1, tm_name = [116], tm_fields =
     [\<lparr>fm_name = [98], fm_type = INTS, fm_offset = 0, fm_len = 4, fm_visible = False, fm_nullable = False\<rparr>,
      \<lparr>fm_name = [97], fm_type = CHARS, fm_offset = 4, fm_len = 3, fm_visible = True, fm_nullable = False\<rparr>], tm_indexes = [], tm_record_size = 7\<rparr>) \<and>
   cast_i32 7 = 7"
proof -
  have run: "table_meta_init (Some [field_new\<lparr>fm_name := [98], fm_type := INTS, fm_len := 4\<rparr>]) 1 [116]
     [\<lparr>ai_type = CHARS, ai_name = [97], ai_length = 3, ai_nullable = False\<rparr>] table_meta_new =
   Some (SUCCESS, \<lparr>tm_table_id = 1, tm_name = [116], tm_fields =
     [\<lparr>fm_name = [98], fm_type = INTS, fm_offset = 0, fm_len = 4, fm_visible = False, fm_nullable = False\<rparr>,
      \<lparr>fm_name = [97], fm_type = CHARS, fm_offset = 4, fm_len = 3, fm_visible = True, fm_nullable = False\<rparr>], tm_indexes = [], tm_record_size = 7\<rparr>)"
    by code_simp
  from table_layout [OF this] show ?thesis unfolding run by (simp add: field_new_def fields_len_def)
qed

text \<open>
  Property C39: the field names of an index survive their storage. The metadata file keeps the names of a multi-column index as
  one string with commas, and \<open>split_field_names\<close> takes it apart when the table is opened: for names without
  commas (and not empty) it gives back the names, in their order.
\<close>

theorem index_names_roundtrip:
  assumes "index_meta_init name (map Some fs) unique im = (SUCCESS, im')" "\<forall>f \<in> set fs. fm_name f \<noteq> [] \<and> 44 \<notin> set (fm_name f)"
  shows "split_field_names (im_field im') = map fm_name fs \<and> im_field_names im' = map fm_name fs"
proof (rule index_meta_init_parts [OF assms(1)])
  fix g gs assume g: "map Some fs = Some g # map Some gs" "im_field_names im' = fm_name g # map fm_name gs"
    "im_field im' = fm_name g @ concat (map (\<lambda>g. 44 # fm_name g) gs)"
  from g(1) have "fs = g # gs" by (metis list.inj_map_strong list.simps(9) option.inject)
  then show ?thesis using g split_joined [of "map fm_name gs" "fm_name g"] assms(2) by (simp add: comp_def)
qed

theorem index_names_roundtrip_witness:
  "\<exists>im. index_meta_init [105] (map Some [field_new\<lparr>fm_name := [97, 98]\<rparr>, field_new\<lparr>fm_name := [99]\<rparr>]) True index_meta_new = (SUCCESS, im) \<and>
     im_field im = [97, 98, 44, 99] \<and> split_field_names (im_field im) = [[97, 98], [99]]"
proof -
  let ?im = "\<lparr>im_name = [105], im_field = [97, 98, 44, 99], im_field_names = [[97, 98], [99]], im_unique = True\<rparr>"
  have run: "index_meta_init [105] (map Some [field_new\<lparr>fm_name := [97, 98]\<rparr>, field_new\<lparr>fm_name := [99]\<rparr>]) True index_meta_new = (SUCCESS, ?im)"
    by code_simp
  from index_names_roundtrip [OF this] show ?thesis unfolding run by simp
qed

end
