(* ===== verification/TableIndex.thy ===== *)
theory TableIndex
  imports TableMeta BplusContract
begin

section \<open>The indexes of a table (index.cpp, bplus_tree_index.cpp, the opening of bplus_tree.cpp)\<close>

text \<open>
  An index of a table: its metadata, the fields its key is made of, and the B+ tree handler. What the table relies on is the
  interface \<open>Index\<close> of the code: inserting and deleting the entry of a record, and asking whether a key is there. The locale
  \<open>record_index\<close> states what an implementation promises about the set of its entries, the loops of the table over its
  indexes are proved in it, and \<open>BplusTreeIndex\<close> is an interpretation.
\<close>

subsection \<open>Creating and opening the tree\<close>

text \<open>
  What the buffer pool answers: the codes of \<open>create_file\<close>, \<open>open_file\<close>, \<open>allocate_page\<close> and \<open>get_this_page\<close>, the number of
  the first page allocated, and whether the pool of key buffers can be set up. \<open>close\<close> and the handler's flag of an open
  file are kept with the index below.
\<close>

record IndexFile =
  if_create :: RC
  if_open :: RC
  if_alloc :: RC
  if_first_page :: int
  if_get :: RC
  if_mem_pool :: bool
  if_flush :: RC

definition bt_create :: "IndexFile \<Rightarrow> AttrType \<Rightarrow> int \<Rightarrow> int \<Rightarrow> int \<Rightarrow> BplusTreeHandler \<Rightarrow> RC \<times> BplusTreeHandler" where
  "bt_create env attr_type attr_length internal_max_size leaf_max_size s =
     (if if_create env \<noteq> SUCCESS then (if_create env, s)
      else if if_open env \<noteq> SUCCESS then (if_open env, s)
      else if if_alloc env \<noteq> SUCCESS then (if_alloc env, s)
      else if if_first_page env \<noteq> FIRST_INDEX_PAGE then (INTERNAL, s)
      else
        let internal_max_size = (if internal_max_size < 0 then calc_internal_page_capacity attr_length else internal_max_size);
            leaf_max_size = (if leaf_max_size < 0 then calc_leaf_page_capacity attr_length else leaf_max_size);
            s = s\<lparr>bt_header := \<lparr>fh_root_page = BP_INVALID_PAGE_NUM, fh_internal_max_size = internal_max_size,
                  fh_leaf_max_size = leaf_max_size, fh_attr_length = attr_length, fh_key_length = attr_length + 8, fh_attr_type = attr_type\<rparr>,
                  bt_header_dirty := False, bt_pages := Map.empty, bt_dirty := {}, bt_disposed := []\<rparr>
        in (if if_mem_pool env then SUCCESS else NOMEM, s))"

text \<open>Opening reads the header page \<open>stored\<close> and finds the pages of the file.\<close>

definition bt_open :: "IndexFile \<Rightarrow> bool \<Rightarrow> IndexFileHeader \<Rightarrow> pages \<Rightarrow> BplusTreeHandler \<Rightarrow> RC \<times> BplusTreeHandler" where
  "bt_open env opened stored ps s =
     (if opened then (RECORD_OPENNED, s)
      else if if_open env \<noteq> SUCCESS then (if_open env, s)
      else if if_get env \<noteq> SUCCESS then (if_get env, s)
      else
        let s = s\<lparr>bt_header := stored, bt_header_dirty := False, bt_pages := ps, bt_dirty := {}, bt_disposed := []\<rparr>
        in (if if_mem_pool env then SUCCESS else NOMEM, s))"

text \<open>
  \<open>sync\<close>: the header goes to its page when it has changed, then \<open>flush_all_pages\<close> writes every frame, marked or not; the result is the header page's new content,
  the handler, and the code of the flush. When the flush fails, the frames still count as dirty here, although some of them may have been written.
\<close>

definition bt_sync :: "IndexFile \<Rightarrow> IndexFileHeader \<Rightarrow> BplusTreeHandler \<Rightarrow> RC \<times> IndexFileHeader \<times> BplusTreeHandler" where
  "bt_sync env stored s =
     (let s = s\<lparr>bt_dirty := if if_flush env = SUCCESS then {} else bt_dirty s\<rparr> in
      if bt_header_dirty s \<and> if_get env = SUCCESS then (if_flush env, bt_header s, s\<lparr>bt_header_dirty := False\<rparr>)
      else (if_flush env, stored, s))"

subsection \<open>BplusTreeIndex\<close>

record BplusTreeIndex =
  bi_inited :: bool
  bi_meta :: IndexMeta
  bi_fields :: "FieldMeta list"
  bi_key_length :: int
  bi_handler :: BplusTreeHandler

fun index_init_loop :: "FieldMeta option list \<Rightarrow> BplusTreeIndex \<Rightarrow> RC \<times> BplusTreeIndex" where
  "index_init_loop [] bi = (SUCCESS, bi)"
| "index_init_loop (None # fs) bi = (INVALID_ARGUMENT, bi)"
| "index_init_loop (Some f # fs) bi =
     index_init_loop fs (bi\<lparr>bi_fields := bi_fields bi @ [f], bi_key_length := cast_i32 (bi_key_length bi + fm_len f)\<rparr>)"

definition index_init :: "IndexMeta \<Rightarrow> FieldMeta option list \<Rightarrow> BplusTreeIndex \<Rightarrow> RC \<times> BplusTreeIndex" where
  "index_init index_meta field_metas bi =
     (if field_metas = [] then (INVALID_ARGUMENT, bi)
      else index_init_loop field_metas (bi\<lparr>bi_meta := index_meta, bi_fields := [], bi_key_length := 0\<rparr>))"

text \<open>The pieces of the record that make the key, one behind the other.\<close>

definition field_bytes :: "byte list \<Rightarrow> FieldMeta \<Rightarrow> byte list" where
  "field_bytes record f = take (nat (fm_len f)) (drop (nat (fm_offset f)) record)"

definition build_record_key :: "BplusTreeIndex \<Rightarrow> byte list \<Rightarrow> byte list" where
  "build_record_key bi record = concat (map (field_bytes record) (bi_fields bi))"

definition bi_create :: "IndexFile \<Rightarrow> IndexMeta \<Rightarrow> FieldMeta option list \<Rightarrow> BplusTreeIndex \<Rightarrow> RC \<times> BplusTreeIndex" where
  "bi_create env index_meta field_metas bi =
     (if bi_inited bi then (RECORD_OPENNED, bi)
      else case index_init index_meta field_metas bi of (rc, bi) \<Rightarrow>
        if rc \<noteq> SUCCESS then (rc, bi)
        else let key_type = (case bi_fields bi of [f] \<Rightarrow> fm_type f | _ \<Rightarrow> CHARS) in
          case bt_create env key_type (bi_key_length bi) (- 1) (- 1) (bi_handler bi) of (rc, h) \<Rightarrow>
            let bi = bi\<lparr>bi_handler := h\<rparr> in
            if rc \<noteq> SUCCESS then (rc, bi) else (SUCCESS, bi\<lparr>bi_inited := True\<rparr>))"

definition bi_open ::
  "IndexFile \<Rightarrow> bool \<Rightarrow> IndexFileHeader \<Rightarrow> pages \<Rightarrow> IndexMeta \<Rightarrow> FieldMeta option list \<Rightarrow> BplusTreeIndex \<Rightarrow> RC \<times> BplusTreeIndex" where
  "bi_open env opened stored ps index_meta field_metas bi =
     (if bi_inited bi then (RECORD_OPENNED, bi)
      else case index_init index_meta field_metas bi of (rc, bi) \<Rightarrow>
        if rc \<noteq> SUCCESS then (rc, bi)
        else case bt_open env opened stored ps (bi_handler bi) of (rc, h) \<Rightarrow>
          let bi = bi\<lparr>bi_handler := h\<rparr> in
          if rc \<noteq> SUCCESS then (rc, bi) else (SUCCESS, bi\<lparr>bi_inited := True\<rparr>))"

definition bi_close :: "BplusTreeIndex \<Rightarrow> RC \<times> BplusTreeIndex" where
  "bi_close bi = (SUCCESS, bi\<lparr>bi_inited := False\<rparr>)"

text \<open>The user key: the bytes of the record from the field on, or the key put together.\<close>

definition index_key :: "BplusTreeIndex \<Rightarrow> byte list \<Rightarrow> byte list" where
  "index_key bi record = (case bi_fields bi of [f] \<Rightarrow> drop (nat (fm_offset f)) record | _ \<Rightarrow> build_record_key bi record)"

abbreviation bi_cmp :: "(byte list \<Rightarrow> byte list \<Rightarrow> int) \<Rightarrow> BplusTreeIndex \<Rightarrow> key \<Rightarrow> key \<Rightarrow> int" where
  "bi_cmp cf bi \<equiv> key_comparator cf (bt_header (bi_handler bi))"

definition bi_insert_entry :: "(byte list \<Rightarrow> byte list \<Rightarrow> int) \<Rightarrow> byte list \<Rightarrow> RID \<Rightarrow> BplusTreeIndex \<Rightarrow> (RC \<times> BplusTreeIndex) option" where
  "bi_insert_entry cf record rid bi = do {
     (rc, h) \<leftarrow> insert_entry (bi_cmp cf bi) (Some (index_key bi record)) (Some rid) (bi_handler bi);
     Some (rc, bi\<lparr>bi_handler := h\<rparr>)
   }"

definition bi_delete_entry :: "(byte list \<Rightarrow> byte list \<Rightarrow> int) \<Rightarrow> byte list \<Rightarrow> RID \<Rightarrow> BplusTreeIndex \<Rightarrow> (RC \<times> BplusTreeIndex) option" where
  "bi_delete_entry cf record rid bi = do {
     (rc, h) \<leftarrow> delete_entry (bi_cmp cf bi) (index_key bi record) rid (bi_handler bi);
     Some (rc, bi\<lparr>bi_handler := h\<rparr>)
   }"

text \<open>\<^const>\<open>None\<close> inside: the null pointer of a scanner that does not open.\<close>

definition bi_create_scanner ::
  "(byte list \<Rightarrow> byte list \<Rightarrow> int) \<Rightarrow> bound \<Rightarrow> bool \<Rightarrow> bound \<Rightarrow> bool \<Rightarrow> BplusTreeIndex \<Rightarrow> BplusTreeScanner option option" where
  "bi_create_scanner cf left left_inclusive right right_inclusive bi = do {
     (rc, sc) \<leftarrow> sc_open (attr_comparator cf (bt_header (bi_handler bi))) (bi_cmp cf bi) left left_inclusive right right_inclusive (bi_handler bi) sc_new;
     Some (if rc \<noteq> SUCCESS then None else Some sc)
   }"

text \<open>The check of a unique index: is there an entry with the key of the record?\<close>

definition bi_has_key :: "(byte list \<Rightarrow> byte list \<Rightarrow> int) \<Rightarrow> byte list \<Rightarrow> BplusTreeIndex \<Rightarrow> bool option" where
  "bi_has_key cf record bi = do {
     let key = build_record_key bi record;
     scanner \<leftarrow> bi_create_scanner cf (Some (key, bi_key_length bi)) True (Some (key, bi_key_length bi)) True bi;
     case scanner of
       None \<Rightarrow> Some False
     | Some sc \<Rightarrow> do {
         (rc, rid, sc) \<leftarrow> sc_next_entry (bi_cmp cf bi) (bi_handler bi) sc;
         Some (rc = SUCCESS)
       }
   }"

subsection \<open>Loops over the indexes of a table\<close>

text \<open>
  \<open>for (Index *index : indexes_)\<close>: indexes that are skipped stay, the loop ends at a code that \<open>stop\<close> names;
  the result is the code of the last operation and the indexes.
\<close>

fun for_indexes :: "('i \<Rightarrow> bool) \<Rightarrow> ('i \<Rightarrow> (RC \<times> 'i) option) \<Rightarrow> (RC \<Rightarrow> bool) \<Rightarrow> RC \<Rightarrow> 'i list \<Rightarrow> (RC \<times> 'i list) option" where
  "for_indexes skip oper stop rc [] = Some (rc, [])"
| "for_indexes skip oper stop rc (i # is) =
     (if skip i then map_option (\<lambda>(rc, is). (rc, i # is)) (for_indexes skip oper stop rc is)
      else do {
        (rc, i) \<leftarrow> oper i;
        if stop rc then Some (rc, i # is)
        else map_option (\<lambda>(rc, is). (rc, i # is)) (for_indexes skip oper stop rc is)
      })"

fun any_index :: "('i \<Rightarrow> bool) \<Rightarrow> ('i \<Rightarrow> bool option) \<Rightarrow> 'i list \<Rightarrow> bool option" where
  "any_index checked found [] = Some False"
| "any_index checked found (i # is) =
     (if \<not> checked i then any_index checked found is
      else do { b \<leftarrow> found i; if b then Some True else any_index checked found is })"

subsection \<open>What a table relies on\<close>

text \<open>
  \<open>rep i E\<close>: the index holds the entries \<open>E\<close>, pairs of key bytes and record identifiers. \<open>same\<close> relates an index to what an
  operation makes of it: the key of a record stays what it was.
\<close>

locale record_index =
  fixes rep :: "'i \<Rightarrow> (byte list \<times> RID) set \<Rightarrow> bool"
    and key_of :: "'i \<Rightarrow> byte list \<Rightarrow> byte list"
    and fits :: "'i \<Rightarrow> byte list \<Rightarrow> bool"
    and room :: "'i \<Rightarrow> bool"
    and same :: "'i \<Rightarrow> 'i \<Rightarrow> bool"
    and ins :: "byte list \<Rightarrow> RID \<Rightarrow> 'i \<Rightarrow> (RC \<times> 'i) option"
    and del :: "byte list \<Rightarrow> RID \<Rightarrow> 'i \<Rightarrow> (RC \<times> 'i) option"
    and has :: "byte list \<Rightarrow> 'i \<Rightarrow> bool option"
  assumes ins_new: "\<lbrakk>rep i E; room i; fits i d; RID_ok r; (key_of i d, r) \<notin> E\<rbrakk> \<Longrightarrow>
      \<exists>i'. ins d r i = Some (SUCCESS, i') \<and> rep i' (insert (key_of i d, r) E) \<and> same i i'"
    and del_old: "\<lbrakk>rep i E; fits i d; RID_ok r\<rbrakk> \<Longrightarrow>
      \<exists>i'. del d r i = Some (if (key_of i d, r) \<in> E then SUCCESS else RECORD_NOT_EXIST, i') \<and> rep i' (E - {(key_of i d, r)}) \<and> same i i'"
    and has_key: "\<lbrakk>rep i E; fits i d\<rbrakk> \<Longrightarrow> has d i = Some (\<exists>r. (key_of i d, r) \<in> E)"
    and same_key: "same i i' \<Longrightarrow> key_of i' = key_of i \<and> fits i' = fits i"
    and same_refl: "same i i"
begin

text \<open>
  The entries an index holds for the rows of a table: those of the rows it does not skip.
\<close>

definition row_entries :: "('i \<Rightarrow> byte list \<Rightarrow> bool) \<Rightarrow> 'i \<Rightarrow> (RID \<Rightarrow> byte list option) \<Rightarrow> (byte list \<times> RID) set" where
  "row_entries skip i rows = {(k, r). \<exists>d. rows r = Some d \<and> \<not> skip i d \<and> k = key_of i d}"

definition in_sync :: "('i \<Rightarrow> byte list \<Rightarrow> bool) \<Rightarrow> (RID \<Rightarrow> byte list option) \<Rightarrow> 'i \<Rightarrow> bool" where
  "in_sync skip rows i \<longleftrightarrow> rep i (row_entries skip i rows) \<and> (\<forall>r d. rows r = Some d \<longrightarrow> fits i d)"

lemma row_entries_insert:
  "rows r = None \<Longrightarrow> row_entries skip i (rows(r \<mapsto> d)) = (if skip i d then row_entries skip i rows else insert (key_of i d, r) (row_entries skip i rows))"
  by (auto simp: row_entries_def split: if_splits)

lemma row_entries_delete:
  "rows r = Some d \<Longrightarrow> row_entries skip i (rows(r := None)) = (if skip i d then row_entries skip i rows else row_entries skip i rows - {(key_of i d, r)})"
  by (auto simp: row_entries_def split: if_splits)

lemma row_entries_same: "same i i' \<Longrightarrow> skip i' = skip i \<Longrightarrow> row_entries skip i' rows = row_entries skip i rows"
  using same_key by (simp add: row_entries_def)

text \<open>One index follows the insertion or deletion of a row.\<close>

lemma sync_insert:
  assumes "in_sync skip rows i" "rows r = None" "\<not> skip i d" "room i" "fits i d" "RID_ok r" "\<And>i i'. same i i' \<Longrightarrow> skip i' = skip i"
  shows "\<exists>i'. ins d r i = Some (SUCCESS, i') \<and> in_sync skip (rows(r \<mapsto> d)) i' \<and> same i i'"
proof -
  have "(key_of i d, r) \<notin> row_entries skip i rows" using assms(2) by (auto simp: row_entries_def)
  then obtain i' where i': "ins d r i = Some (SUCCESS, i')" "rep i' (insert (key_of i d, r) (row_entries skip i rows))" "same i i'"
    using ins_new [of i "row_entries skip i rows" d r] assms by (auto simp: in_sync_def)
  moreover have "row_entries skip i' (rows(r \<mapsto> d)) = insert (key_of i d, r) (row_entries skip i rows)"
    using row_entries_same [OF i'(3)] assms(7) [OF i'(3)] row_entries_insert [of rows r skip i d] assms(2,3) by simp
  moreover have "fits i' = fits i" using same_key [OF i'(3)] by simp
  ultimately show ?thesis using assms(1,5) by (auto simp: in_sync_def)
qed

lemma sync_delete:
  assumes "in_sync skip rows i" "rows r = Some d" "\<not> skip i d" "RID_ok r" "\<And>i i'. same i i' \<Longrightarrow> skip i' = skip i"
  shows "\<exists>i'. del d r i = Some (SUCCESS, i') \<and> in_sync skip (rows(r := None)) i' \<and> same i i'"
proof -
  have "(key_of i d, r) \<in> row_entries skip i rows" using assms(2,3) by (auto simp: row_entries_def)
  then obtain i' where i': "del d r i = Some (SUCCESS, i')" "rep i' (row_entries skip i rows - {(key_of i d, r)})" "same i i'"
    using del_old [of i "row_entries skip i rows" d r] assms by (auto simp: in_sync_def)
  moreover have "row_entries skip i' (rows(r := None)) = row_entries skip i rows - {(key_of i d, r)}"
    using row_entries_same [OF i'(3)] assms(5) [OF i'(3)] row_entries_delete [of rows r d skip i] assms(2,3) by simp
  moreover have "fits i' = fits i" using same_key [OF i'(3)] by simp
  ultimately show ?thesis using assms(1) by (auto simp: in_sync_def)
qed

lemma sync_skip:
  assumes "in_sync skip rows i" "skip i d"
  shows "rows r = None \<Longrightarrow> fits i d \<Longrightarrow> in_sync skip (rows(r \<mapsto> d)) i" "rows r = Some d \<Longrightarrow> in_sync skip (rows(r := None)) i"
  using assms row_entries_insert [of rows r skip i d] row_entries_delete [of rows r d skip i] by (auto simp: in_sync_def)

text \<open>The loops over all indexes.\<close>

lemma for_insert:
  assumes "\<And>i i'. same i i' \<Longrightarrow> skip i' = skip i" "rows r = None" "RID_ok r" "stop SUCCESS = False"
  shows "\<forall>i \<in> set is. in_sync skip rows i \<and> room i \<and> fits i d \<Longrightarrow>
    \<exists>is'. for_indexes (\<lambda>i. skip i d) (ins d r) stop SUCCESS is = Some (SUCCESS, is') \<and>
      list_all2 same is is' \<and> (\<forall>i \<in> set is'. in_sync skip (rows(r \<mapsto> d)) i)"
proof (induction "is")
  case (Cons i "is")
  then have "\<forall>i \<in> set is. in_sync skip rows i \<and> room i \<and> fits i d" by simp
  from Cons.IH [OF this] obtain is' where is': "for_indexes (\<lambda>i. skip i d) (ins d r) stop SUCCESS is = Some (SUCCESS, is')" "list_all2 same is is'"
    "\<forall>i \<in> set is'. in_sync skip (rows(r \<mapsto> d)) i" by blast
  show ?case
  proof (cases "skip i d")
    case True
    then have "for_indexes (\<lambda>i. skip i d) (ins d r) stop SUCCESS (i # is) = Some (SUCCESS, i # is')" using is'(1) by simp
    moreover have "in_sync skip (rows(r \<mapsto> d)) i" using sync_skip(1) [of skip rows i d r] True Cons.prems assms(2) by simp
    then have "\<forall>j \<in> set (i # is'). in_sync skip (rows(r \<mapsto> d)) j" using is'(3) by simp
    moreover have "list_all2 same (i # is) (i # is')" using is'(2) same_refl by simp
    ultimately show ?thesis by blast
  next
    case False
    have "in_sync skip rows i" "room i" "fits i d" using Cons.prems by simp_all
    from sync_insert [OF this(1) assms(2) False this(2,3) assms(3,1)]
    obtain i' where i': "ins d r i = Some (SUCCESS, i')" "in_sync skip (rows(r \<mapsto> d)) i'" "same i i'" by blast
    then have "for_indexes (\<lambda>i. skip i d) (ins d r) stop SUCCESS (i # is) = Some (SUCCESS, i' # is')" using is'(1) False assms(4) by simp
    moreover have "\<forall>j \<in> set (i' # is'). in_sync skip (rows(r \<mapsto> d)) j" using is'(3) i'(2) by simp
    moreover have "list_all2 same (i # is) (i' # is')" using is'(2) i'(3) by simp
    ultimately show ?thesis by blast
  qed
qed auto

lemma for_delete:
  assumes "\<And>i i'. same i i' \<Longrightarrow> skip i' = skip i" "rows r = Some d" "RID_ok r" "stop SUCCESS = False"
  shows "\<forall>i \<in> set is. in_sync skip rows i \<Longrightarrow>
    \<exists>is'. for_indexes (\<lambda>i. skip i d) (del d r) stop SUCCESS is = Some (SUCCESS, is') \<and>
      list_all2 same is is' \<and> (\<forall>i \<in> set is'. in_sync skip (rows(r := None)) i)"
proof (induction "is")
  case (Cons i "is")
  then have "\<forall>i \<in> set is. in_sync skip rows i" by simp
  from Cons.IH [OF this] obtain is' where is': "for_indexes (\<lambda>i. skip i d) (del d r) stop SUCCESS is = Some (SUCCESS, is')" "list_all2 same is is'"
    "\<forall>i \<in> set is'. in_sync skip (rows(r := None)) i" by blast
  show ?case
  proof (cases "skip i d")
    case True
    then have "for_indexes (\<lambda>i. skip i d) (del d r) stop SUCCESS (i # is) = Some (SUCCESS, i # is')" using is'(1) by simp
    moreover have "in_sync skip (rows(r := None)) i" using sync_skip(2) [of skip rows i d r] True Cons.prems assms(2) by simp
    then have "\<forall>j \<in> set (i # is'). in_sync skip (rows(r := None)) j" using is'(3) by simp
    moreover have "list_all2 same (i # is) (i # is')" using is'(2) same_refl by simp
    ultimately show ?thesis by blast
  next
    case False
    have "in_sync skip rows i" using Cons.prems by simp
    from sync_delete [OF this assms(2) False assms(3,1)]
    obtain i' where i': "del d r i = Some (SUCCESS, i')" "in_sync skip (rows(r := None)) i'" "same i i'" by blast
    then have "for_indexes (\<lambda>i. skip i d) (del d r) stop SUCCESS (i # is) = Some (SUCCESS, i' # is')" using is'(1) False assms(4) by simp
    moreover have "\<forall>j \<in> set (i' # is'). in_sync skip (rows(r := None)) j" using is'(3) i'(2) by simp
    moreover have "list_all2 same (i # is) (i' # is')" using is'(2) i'(3) by simp
    ultimately show ?thesis by blast
  qed
qed auto

lemma any_has:
  assumes "\<forall>i \<in> set is. in_sync skip rows i \<and> fits i d"
  shows "any_index checked (has d) is =
    Some (\<exists>i \<in> set is. checked i \<and> (\<exists>r d'. rows r = Some d' \<and> \<not> skip i d' \<and> key_of i d' = key_of i d))"
proof -
  define H where "H i \<longleftrightarrow> (\<exists>r d'. rows r = Some d' \<and> \<not> skip i d' \<and> key_of i d' = key_of i d)" for i
  have "any_index checked (has d) is = Some (\<exists>i \<in> set is. checked i \<and> H i)"
    using assms
  proof (induction "is")
    case (Cons i "is")
    have "has d i = Some (H i)"
      using has_key [of i "row_entries skip i rows" d] Cons.prems by (simp add: in_sync_def row_entries_def H_def) metis
    then show ?case using Cons by auto
  qed simp
  then show ?thesis by (simp add: H_def)
qed

end

subsection \<open>The B+ tree index keeps the contract\<close>

text \<open>Equal attributes are equal bytes.\<close>

lemma memcmp_append_left: "n \<le> length u \<Longrightarrow> memcmp (u @ w) v n = memcmp u v n"
  by (induction u v n rule: memcmp.induct) simp_all

lemma byte_of_word32_of_bytes:
  "byte_of_word32 0 (word32_of_bytes a b c d) = a" "byte_of_word32 1 (word32_of_bytes a b c d) = b"
  "byte_of_word32 2 (word32_of_bytes a b c d) = c" "byte_of_word32 3 (word32_of_bytes a b c d) = d"
  by (rule bit_word_eqI; simp add: bit_byte_of_word32 bit_word32_of_bytes)+

lemma read_i32_inject:
  assumes "length u = 4" "length v = 4" "read_i32 (nth u) 0 = read_i32 (nth v) 0"
  shows "u = v"
proof -
  have "read_w32 (nth u) 0 = read_w32 (nth v) 0" using assms(3) by (intro signed_word_eqI) (simp add: read_i32_def)
  then have "u ! k = v ! k" if "k < 4" for k
    using that byte_of_word32_of_bytes [of "u ! 0" "u ! 1" "u ! 2" "u ! 3"] byte_of_word32_of_bytes [of "v ! 0" "v ! 1" "v ! 2" "v ! 3"]
    by (auto simp: read_w32_def numeral_eq_Suc less_Suc_eq)
  then show ?thesis using assms(1,2) by (intro nth_equalityI) simp_all
qed

lemma read_i32_take: "4 \<le> length u \<Longrightarrow> 4 \<le> n \<Longrightarrow> read_i32 (nth (take n u)) 0 = read_i32 (nth u) 0"
  by (intro read_i32_cong) simp

lemma attr_cmp_zero:
  assumes "header_type h t n" "user_key_ok t n u" "user_key_ok t n v" "length u = n" "length v = n"
  shows "attr_cmp t n u v = 0 \<longleftrightarrow> u = v"
proof (cases "t = CHARS")
  case True
  then show ?thesis using assms(4,5) memcmp_zero_iff [of n u v] by (simp add: attr_cmp_def compare_string_def)
next
  case False
  then have "n = 4" using assms(1) by (simp add: header_type_def)
  then show ?thesis using False assms read_i32_inject [of u v] by (auto simp: attr_cmp_def compare_int_def user_key_ok_def sub_i32_small)
qed

lemma attr_cmp_make_keys:
  assumes "header_type h t n" "user_key_ok t n u" "user_key_ok t n v" "length u = n" "length v = n" "RID_ok r" "RID_ok s"
  shows "attr_cmp t n (make_key h u r) (make_key h v s) = attr_cmp t n u v" "attr_cmp t n (make_key h u r) v = attr_cmp t n u v"
proof -
  have mk: "make_key h u r = u @ rid_bytes r" using assms(1,4) by (simp add: make_key_def header_type_def)
  show *: "attr_cmp t n (make_key h u r) v = attr_cmp t n u v"
  proof (cases "t = CHARS")
    case True
    have "memcmp (u @ rid_bytes r) v n = memcmp u v n"
      using memcmp_zero_iff [of n "u @ rid_bytes r" v] memcmp_append_left assms(4,5) by simp
    then show ?thesis using True by (simp add: attr_cmp_def compare_string_def mk)
  next
    case False
    then show ?thesis using assms make_key_parts(4) [OF assms(1) _ assms(6), of u]
      by (simp add: attr_cmp_def compare_int_def header_type_def)
  qed
  then show "attr_cmp t n (make_key h u r) (make_key h v s) = attr_cmp t n u v" using attr_cmp_make_key [OF assms(1,3,7)] by simp
qed

lemma key_cmp_zero:
  assumes "header_type h t n" "user_key_ok t n u" "user_key_ok t n v" "length u = n" "length v = n" "RID_ok r" "RID_ok s"
  shows "key_cmp t n (make_key h u r) (make_key h v s) = 0 \<longleftrightarrow> u = v \<and> r = s"
  using attr_cmp_make_keys(1) [OF assms] attr_cmp_zero [OF assms(1-5)] RID_compare_zero [OF assms(6,7)]
    make_key_parts(2) [OF assms(1) _ assms(6), of u] make_key_parts(2) [OF assms(1) _ assms(7), of v] assms(4,5)
  by (auto simp: key_cmp_def lex_cmp_def)

text \<open>
  The tree of the index holds the key bytes of \<open>E\<close> with their record identifiers, its nodes are wide enough for deletions,
  and its attribute is as long as the key that is built from a record.
\<close>

definition bi_entry :: "BplusTreeIndex \<Rightarrow> byte list \<times> RID \<Rightarrow> key \<times> RID" where
  "bi_entry bi e = (make_key (bt_header (bi_handler bi)) (fst e) (snd e), snd e)"

definition bi_type :: "BplusTreeIndex \<Rightarrow> AttrType" where
  "bi_type bi = fh_attr_type (bt_header (bi_handler bi))"

definition bi_attr_len :: "BplusTreeIndex \<Rightarrow> nat" where
  "bi_attr_len bi = nat (fh_attr_length (bt_header (bi_handler bi)))"

definition bi_wf :: "BplusTreeIndex \<Rightarrow> bool" where
  "bi_wf bi \<longleftrightarrow> header_type (bt_header (bi_handler bi)) (bi_type bi) (bi_attr_len bi) \<and>
     4 \<le> fh_leaf_max_size (bt_header (bi_handler bi)) \<and> 6 \<le> fh_internal_max_size (bt_header (bi_handler bi)) \<and>
     bi_key_length bi = int (bi_attr_len bi) \<and> bi_key_length bi = fields_len (bi_fields bi) \<and> bi_fields bi \<noteq> [] \<and>
     (\<forall>f \<in> set (bi_fields bi). 0 \<le> fm_offset f \<and> 0 < fm_len f)"

definition key_bytes_ok :: "BplusTreeIndex \<Rightarrow> byte list \<Rightarrow> bool" where
  "key_bytes_ok bi u \<longleftrightarrow> length u = bi_attr_len bi \<and> user_key_ok (bi_type bi) (bi_attr_len bi) u"

definition bi_rep :: "BplusTreeIndex \<Rightarrow> (byte list \<times> RID) set \<Rightarrow> bool" where
  "bi_rep bi E \<longleftrightarrow> bi_wf bi \<and> (\<forall>(u, r) \<in> E. key_bytes_ok bi u \<and> RID_ok r) \<and>
     (\<exists>l xs. bt_index (key_cmp (bi_type bi) (bi_attr_len bi)) (key_ok (bi_type bi) (bi_attr_len bi)) l (bi_handler bi) xs \<and>
        set xs = bi_entry bi ` E)"

definition bi_fits :: "BplusTreeIndex \<Rightarrow> byte list \<Rightarrow> bool" where
  "bi_fits bi d \<longleftrightarrow> (\<forall>f \<in> set (bi_fields bi). nat (fm_offset f) + nat (fm_len f) \<le> length d) \<and>
     (bi_type bi \<noteq> CHARS \<longrightarrow> small_i32 (read_i32 (nth (build_record_key bi d)) 0))"

definition bi_room :: "BplusTreeIndex \<Rightarrow> bool" where
  "bi_room bi \<longleftrightarrow> (\<forall>l xs. bt_index (key_cmp (bi_type bi) (bi_attr_len bi)) (key_ok (bi_type bi) (bi_attr_len bi)) l (bi_handler bi) xs \<longrightarrow>
     l + 1 < free_count (bt_pages (bi_handler bi)))"

definition bi_same :: "BplusTreeIndex \<Rightarrow> BplusTreeIndex \<Rightarrow> bool" where
  "bi_same bi bi' \<longleftrightarrow> bi_meta bi' = bi_meta bi \<and> bi_fields bi' = bi_fields bi \<and> bi_key_length bi' = bi_key_length bi \<and>
     hdr_kept (bi_handler bi) (bi_handler bi')"

lemma hdr_kept_fields:
  assumes "hdr_kept s s'"
  shows "fh_attr_type (bt_header s') = fh_attr_type (bt_header s)" "fh_attr_length (bt_header s') = fh_attr_length (bt_header s)"
    "fh_leaf_max_size (bt_header s') = fh_leaf_max_size (bt_header s)" "fh_internal_max_size (bt_header s') = fh_internal_max_size (bt_header s)"
  using assms unfolding hdr_kept_def by (metis IndexFileHeader.simps(1-6) IndexFileHeader.select_convs IndexFileHeader.update_convs(1) IndexFileHeader.surjective)+

lemma bi_same_parts:
  assumes "bi_same bi bi'"
  shows "bi_type bi' = bi_type bi" "bi_attr_len bi' = bi_attr_len bi" "bi_wf bi' = bi_wf bi" "build_record_key bi' = build_record_key bi"
    "bi_fits bi' = bi_fits bi" "bi_entry bi' = bi_entry bi" "key_bytes_ok bi' = key_bytes_ok bi" "bi_meta bi' = bi_meta bi"
proof -
  note h = hdr_kept_fields [of "bi_handler bi" "bi_handler bi'"]
  have k: "hdr_kept (bi_handler bi) (bi_handler bi')" "bi_fields bi' = bi_fields bi" "bi_key_length bi' = bi_key_length bi" "bi_meta bi' = bi_meta bi"
    using assms by (simp_all add: bi_same_def)
  show t: "bi_type bi' = bi_type bi" "bi_attr_len bi' = bi_attr_len bi" "bi_meta bi' = bi_meta bi" using h k by (simp_all add: bi_type_def bi_attr_len_def)
  show "bi_wf bi' = bi_wf bi" using h k t by (simp add: bi_wf_def header_type_def)
  show b: "build_record_key bi' = build_record_key bi" using k by (simp add: build_record_key_def fun_eq_iff)
  show "bi_fits bi' = bi_fits bi" using k b t by (simp add: bi_fits_def fun_eq_iff)
  show "bi_entry bi' = bi_entry bi" using h k by (simp add: bi_entry_def make_key_def fun_eq_iff)
  show "key_bytes_ok bi' = key_bytes_ok bi" using t by (simp add: key_bytes_ok_def fun_eq_iff)
qed

lemma record_key_ok:
  assumes "bi_wf bi" "bi_fits bi d"
  shows "key_bytes_ok bi (build_record_key bi d)"
proof -
  have "length (field_bytes d f) = nat (fm_len f)" if "f \<in> set (bi_fields bi)" for f
    using assms that by (auto simp: field_bytes_def bi_fits_def bi_wf_def)
  moreover have "0 \<le> fm_len f" if "f \<in> set (bi_fields bi)" for f using assms(1) that by (simp add: bi_wf_def less_imp_le)
  ultimately have "int (length (concat (map (field_bytes d) fs))) = fields_len fs" if "set fs \<subseteq> set (bi_fields bi)" for fs
    using that by (induction fs) (auto simp: fields_len_def)
  then have "int (length (build_record_key bi d)) = fields_len (bi_fields bi)" by (simp add: build_record_key_def)
  then have "length (build_record_key bi d) = bi_attr_len bi" using assms(1) by (simp add: bi_wf_def)
  then show ?thesis using assms(2) by (simp add: key_bytes_ok_def user_key_ok_def bi_fits_def)
qed

lemma make_index_key:
  assumes "bi_wf bi"
  shows "make_key (bt_header (bi_handler bi)) (index_key bi d) = make_key (bt_header (bi_handler bi)) (build_record_key bi d)"
proof -
  have "take (bi_attr_len bi) (index_key bi d) = take (bi_attr_len bi) (build_record_key bi d)"
  proof (cases "bi_fields bi")
    case (Cons f fs)
    then have "fs = [] \<Longrightarrow> bi_attr_len bi = nat (fm_len f)" using assms by (auto simp: bi_wf_def fields_len_def)
    then show ?thesis using Cons by (cases fs) (simp_all add: index_key_def build_record_key_def field_bytes_def)
  qed (use assms in \<open>simp add: bi_wf_def\<close>)
  then show ?thesis by (simp add: make_key_def bi_attr_len_def fun_eq_iff)
qed

lemma bi_entry_inj: "bi_wf bi \<Longrightarrow> key_bytes_ok bi u \<Longrightarrow> key_bytes_ok bi v \<Longrightarrow> RID_ok r \<Longrightarrow> RID_ok s \<Longrightarrow>
   key_cmp (bi_type bi) (bi_attr_len bi) (fst (bi_entry bi (u, r))) (fst (bi_entry bi (v, s))) = 0 \<longleftrightarrow> (u, r) = (v, s)"
  using key_cmp_zero [of "bt_header (bi_handler bi)" "bi_type bi" "bi_attr_len bi" u v r s]
  by (simp add: bi_entry_def bi_wf_def key_bytes_ok_def)

lemma rep_has:
  assumes "bi_wf bi" "\<forall>(u, r) \<in> E. key_bytes_ok bi u \<and> RID_ok r" "set xs = bi_entry bi ` E" "key_bytes_ok bi u" "RID_ok r"
  shows "index_has (key_cmp (bi_type bi) (bi_attr_len bi)) (fst (bi_entry bi (u, r))) xs \<longleftrightarrow> (u, r) \<in> E"
    "set (index_delete (key_cmp (bi_type bi) (bi_attr_len bi)) (fst (bi_entry bi (u, r))) xs) = bi_entry bi ` (E - {(u, r)})"
proof -
  have z: "key_cmp (bi_type bi) (bi_attr_len bi) (fst (bi_entry bi e)) (fst (bi_entry bi (u, r))) = 0 \<longleftrightarrow> e = (u, r)" if "e \<in> E" for e
    using that assms bi_entry_inj [of bi "fst e" u "snd e" r] by (cases e) auto
  show "index_has (key_cmp (bi_type bi) (bi_attr_len bi)) (fst (bi_entry bi (u, r))) xs \<longleftrightarrow> (u, r) \<in> E"
    using z by (auto simp: index_has_def assms(3))
  show "set (index_delete (key_cmp (bi_type bi) (bi_attr_len bi)) (fst (bi_entry bi (u, r))) xs) = bi_entry bi ` (E - {(u, r)})"
    using z by (auto simp: index_delete_def assms(3))
qed

lemma set_index_insert: "set (index_insert cmp k r xs) = insert (k, r) (set xs)"
  by (metis Un_insert_right index_insert_def list.set(2) set_append takeWhile_dropWhile_id)

lemma bi_insert_new:
  assumes "bi_rep bi E" "bi_room bi" "bi_fits bi d" "RID_ok r" "(build_record_key bi d, r) \<notin> E"
  shows "\<exists>bi'. bi_insert_entry cf d r bi = Some (SUCCESS, bi') \<and> bi_rep bi' (insert (build_record_key bi d, r) E) \<and> bi_same bi bi'"
proof -
  let ?t = "bi_type bi" and ?n = "bi_attr_len bi" and ?s = "bi_handler bi" and ?u = "build_record_key bi d"
  have wf: "bi_wf bi" and h: "header_type (bt_header ?s) ?t ?n" and E: "\<forall>(u, r) \<in> E. key_bytes_ok bi u \<and> RID_ok r"
    using assms(1) by (simp_all add: bi_rep_def bi_wf_def)
  obtain l xs where xs: "bt_index (key_cmp ?t ?n) (key_ok ?t ?n) l ?s xs" "set xs = bi_entry bi ` E" using assms(1) by (auto simp: bi_rep_def)
  have u: "key_bytes_ok bi ?u" by (rule record_key_ok [OF wf assms(3)])
  let ?k = "make_key (bt_header ?s) (index_key bi d) r"
  have k: "?k = fst (bi_entry bi (?u, r))" "bi_entry bi (?u, r) = (?k, r)" using make_index_key [OF wf] by (simp_all add: bi_entry_def)
  have ok: "key_ok ?t ?n ?k" using make_key_ok [OF h, of ?u r] u assms(4) make_index_key [OF wf] by (simp add: key_bytes_ok_def)
  have "\<not> index_has (key_cmp ?t ?n) ?k xs" using rep_has(1) [OF wf E xs(2) u assms(4)] assms(5) k(1) by simp
  moreover have "l + 1 < free_count (bt_pages ?s)" using assms(2) xs(1) unfolding bi_room_def by blast
  ultimately obtain s' l' where s': "insert_entry (key_cmp ?t ?n) (Some (index_key bi d)) (Some r) ?s = Some (SUCCESS, s')"
    "bt_index (key_cmp ?t ?n) (key_ok ?t ?n) l' s' (index_insert (key_cmp ?t ?n) ?k r xs)" "hdr_kept ?s s'"
    using idx.insert_entry_index [OF xs(1) refl ok] by auto
  let ?bi = "bi\<lparr>bi_handler := s'\<rparr>"
  have same: "bi_same bi ?bi" using s'(3) by (simp add: bi_same_def)
  note p = bi_same_parts [OF same]
  have "set (index_insert (key_cmp ?t ?n) ?k r xs) = bi_entry bi ` insert (?u, r) E" using k(2) xs(2) by (simp add: set_index_insert)
  then have "bi_rep ?bi (insert (?u, r) E)"
    unfolding bi_rep_def using p wf E u assms(4) s'(2) by auto
  moreover have "bi_insert_entry cf d r bi = Some (SUCCESS, ?bi)"
    using s'(1) comparators_eq(1) [OF h] by (simp add: bi_insert_entry_def)
  ultimately show ?thesis using same by blast
qed

lemma bi_delete_old:
  assumes "bi_rep bi E" "bi_fits bi d" "RID_ok r"
  shows "\<exists>bi'. bi_delete_entry cf d r bi = Some (if (build_record_key bi d, r) \<in> E then SUCCESS else RECORD_NOT_EXIST, bi') \<and>
    bi_rep bi' (E - {(build_record_key bi d, r)}) \<and> bi_same bi bi'"
proof -
  let ?t = "bi_type bi" and ?n = "bi_attr_len bi" and ?s = "bi_handler bi" and ?u = "build_record_key bi d"
  have wf: "bi_wf bi" and h: "header_type (bt_header ?s) ?t ?n" and E: "\<forall>(u, r) \<in> E. key_bytes_ok bi u \<and> RID_ok r"
    and mx: "4 \<le> fst (max_sizes ?s)" "6 \<le> snd (max_sizes ?s)" using assms(1) by (simp_all add: bi_rep_def bi_wf_def max_sizes_def)
  obtain l xs where xs: "bt_index (key_cmp ?t ?n) (key_ok ?t ?n) l ?s xs" "set xs = bi_entry bi ` E" using assms(1) by (auto simp: bi_rep_def)
  have u: "key_bytes_ok bi ?u" by (rule record_key_ok [OF wf assms(2)])
  let ?k = "make_key (bt_header ?s) (index_key bi d) r"
  have k: "?k = fst (bi_entry bi (?u, r))" using make_index_key [OF wf] by (simp add: bi_entry_def)
  have ok: "key_ok ?t ?n ?k" using make_key_ok [OF h, of ?u r] u assms(3) make_index_key [OF wf] by (simp add: key_bytes_ok_def)
  note rh = rep_has [OF wf E xs(2) u assms(3), folded k]
  obtain rc s' q where s': "delete_entry (key_cmp ?t ?n) (index_key bi d) r ?s = Some (rc, s')" "bt_header s' = (bt_header ?s)\<lparr>fh_root_page := q\<rparr>"
    "if (?u, r) \<in> E then rc = SUCCESS \<and> (\<exists>n'. bt_index (key_cmp ?t ?n) (key_ok ?t ?n) n' s' (index_delete (key_cmp ?t ?n) ?k xs)) else rc = RECORD_NOT_EXIST \<and> s' = ?s"
    using idx.delete_entry_index [OF xs(1) refl ok mx] rh(1) by auto
  let ?bi = "bi\<lparr>bi_handler := s'\<rparr>"
  have same: "bi_same bi ?bi" using hdr_kept_root [OF s'(2)] by (simp add: bi_same_def)
  note p = bi_same_parts [OF same]
  have run: "bi_delete_entry cf d r bi = Some (rc, ?bi)" using s'(1) comparators_eq(1) [OF h] by (simp add: bi_delete_entry_def)
  show ?thesis
  proof (cases "(?u, r) \<in> E")
    case True
    then obtain n' where n': "rc = SUCCESS" "bt_index (key_cmp ?t ?n) (key_ok ?t ?n) n' s' (index_delete (key_cmp ?t ?n) ?k xs)" using s'(3) by auto
    then have "bi_rep ?bi (E - {(?u, r)})" unfolding bi_rep_def using p wf E rh(2) by auto
    then show ?thesis using run same True n'(1) by auto
  next
    case False
    then have "E - {(?u, r)} = E" "?bi = bi" "rc = RECORD_NOT_EXIST" using s'(3) by auto
    then show ?thesis using run same False assms(1) by auto
  qed
qed

text \<open>The first entry of a scan tells whether the scan finds anything.\<close>

lemma sc_next_entry_rc:
  assumes "sc_next_entry cmp s sc = Some (rc, rid, sc')"
  shows "rc = SUCCESS \<longleftrightarrow> rid \<noteq> None"
proof -
  have "fst x = SUCCESS \<longleftrightarrow> fst (snd x) \<noteq> None" if "sc_next_entry cmp s sc = Some x" for x
    using that
  proof (rule sc_next_entry.raw_induct [of "\<lambda>cmp s sc x. fst x = SUCCESS \<longleftrightarrow> fst (snd x) \<noteq> None", rotated])
    fix f :: "(key \<Rightarrow> key \<Rightarrow> int) \<Rightarrow> BplusTreeHandler \<Rightarrow> BplusTreeScanner \<Rightarrow> (RC \<times> RID option \<times> BplusTreeScanner) option" and cmp s sc y
    assume ih: "\<And>cmp s sc y. f cmp s sc = Some y \<Longrightarrow> fst y = SUCCESS \<longleftrightarrow> fst (snd y) \<noteq> None"
    assume "(case sc_current sc of None \<Rightarrow> Some (RECORD_EOF, None, sc)
      | Some pgno \<Rightarrow>
          if \<not> sc_first_emitted sc then Option.bind (fetch_item s sc) (\<lambda>rid. Some (SUCCESS, Some rid, sc\<lparr>sc_first_emitted := True\<rparr>))
          else
            (let sc = sc\<lparr>sc_iter_index := sc_iter_index sc + 1\<rparr> in
             Option.bind (bt_leaf pgno s) (\<lambda>node.
             if sc_iter_index sc < int (length (lf_array node)) then
               Option.bind (touch_end cmp s sc) (\<lambda>e.
               if e then Some (RECORD_EOF, None, sc) else Option.bind (fetch_item s sc) (\<lambda>rid. Some (SUCCESS, Some rid, sc)))
             else if lf_next_brother node = BP_INVALID_PAGE_NUM then Some (RECORD_EOF, None, sc)
             else Option.bind (bt_get (lf_next_brother node) s) (\<lambda>(rc, _).
               if rc \<noteq> SUCCESS then Some (rc, None, sc\<lparr>sc_current := None\<rparr>)
               else f cmp s (sc\<lparr>sc_current := Some (lf_next_brother node), sc_iter_index := - 1\<rparr>))))) = Some y"
    then show "fst y = SUCCESS \<longleftrightarrow> fst (snd y) \<noteq> None"
      by (auto simp: Let_def dest: ih split: option.split_asm if_split_asm bind_split_asm) (metis ih option.distinct(1))
  qed
  from this [OF assms] show ?thesis by simp
qed

lemma get_entry_loop_grows:
  assumes "get_entry_loop cmp s sc rids = Some x"
  shows "length rids \<le> length (snd x)"
  using assms
proof (rule get_entry_loop.raw_induct [of "\<lambda>cmp s sc rids x. length rids \<le> length (snd x)", rotated])
  fix f cmp s sc rids y
  assume ih: "\<And>cmp s sc rids y. f cmp s sc rids = Some y \<Longrightarrow> length rids \<le> length (snd y)"
    and run: "Option.bind (sc_next_entry cmp s sc) (\<lambda>(rc, rid, sc). case rid of
      Some rid \<Rightarrow> f cmp s sc (rids @ [rid]) | None \<Rightarrow> Some (if rc = RECORD_EOF then SUCCESS else rc, rids)) = Some y"
  then obtain rc rid sc' where n: "sc_next_entry cmp s sc = Some (rc, rid, sc')" by (auto split: bind_split_asm)
  show "length rids \<le> length (snd y)"
  proof (cases rid)
    case None
    then show ?thesis using run n by auto
  next
    case (Some r)
    then show ?thesis using run n ih [of cmp s sc' "rids @ [r]" y] by simp
  qed
qed

lemma scan_first:
  assumes "get_entry_loop cmp s sc [] = Some (rc, L)"
  shows "\<exists>rc' rid sc'. sc_next_entry cmp s sc = Some (rc', rid, sc') \<and> (rc' = SUCCESS \<longleftrightarrow> L \<noteq> [])"
proof -
  obtain rc' rid sc' where n: "sc_next_entry cmp s sc = Some (rc', rid, sc')"
    using assms by (subst (asm) get_entry_loop.simps) (auto split: bind_splits)
  have "rid \<noteq> None \<longleftrightarrow> L \<noteq> []"
  proof (cases rid)
    case None
    then show ?thesis using assms n by (subst (asm) get_entry_loop.simps) simp
  next
    case (Some r)
    then have "get_entry_loop cmp s sc' [r] = Some (rc, L)" using assms n by (subst (asm) get_entry_loop.simps) simp
    from get_entry_loop_grows [OF this] show ?thesis using Some by auto
  qed
  then show ?thesis using n sc_next_entry_rc [OF n] by blast
qed

lemma bi_has_key_eq:
  assumes "bi_rep bi E" "bi_fits bi d"
  shows "bi_has_key cf d bi = Some (\<exists>r. (build_record_key bi d, r) \<in> E)"
proof -
  let ?t = "bi_type bi" and ?n = "bi_attr_len bi" and ?s = "bi_handler bi" and ?u = "build_record_key bi d"
  have wf: "bi_wf bi" and h: "header_type (bt_header ?s) ?t ?n" and E: "\<forall>(u, r) \<in> E. key_bytes_ok bi u \<and> RID_ok r" and len: "bi_key_length bi = int ?n"
    using assms(1) by (simp_all add: bi_rep_def bi_wf_def)
  obtain l xs where xs: "bt_index (key_cmp ?t ?n) (key_ok ?t ?n) l ?s xs" "set xs = bi_entry bi ` E" using assms(1) by (auto simp: bi_rep_def)
  have u: "key_bytes_ok bi ?u" by (rule record_key_ok [OF wf assms(2)])
  have "get_entry (attr_cmp ?t ?n) (key_cmp ?t ?n) ?u (int ?n) ?s = Some (SUCCESS, map snd (filter (\<lambda>x. attr_cmp ?t ?n (fst x) ?u = 0) xs))" (is "_ = Some (_, ?L)")
    using get_entry_index [OF xs(1) h] u by (simp add: key_bytes_ok_def)
  then obtain rc sc where sc: "sc_open (attr_cmp ?t ?n) (key_cmp ?t ?n) (Some (?u, int ?n)) True (Some (?u, int ?n)) True ?s sc_new = Some (rc, sc)"
    and r: "(if rc \<noteq> SUCCESS then Some (rc, []) else get_entry_loop (key_cmp ?t ?n) ?s sc []) = Some (SUCCESS, ?L)"
    by (auto simp: get_entry_def split: bind_splits)
  have ok: "rc = SUCCESS" "get_entry_loop (key_cmp ?t ?n) ?s sc [] = Some (SUCCESS, ?L)" using r by (auto split: if_splits)
  obtain rc' rid sc' where n: "sc_next_entry (key_cmp ?t ?n) ?s sc = Some (rc', rid, sc')" "rc' = SUCCESS \<longleftrightarrow> ?L \<noteq> []" using scan_first [OF ok(2)] by blast
  have "bi_has_key cf d bi = Some (rc' = SUCCESS)"
    using sc ok(1) n(1) len comparators_eq [OF h] by (simp add: bi_has_key_def bi_create_scanner_def)
  moreover have "attr_cmp ?t ?n (fst (bi_entry bi (v, r))) ?u = 0 \<longleftrightarrow> v = ?u" if "(v, r) \<in> E" for v r
    using attr_cmp_make_keys(2) [OF h, of v ?u r r] attr_cmp_zero [OF h, of v ?u] E that u by (auto simp: bi_entry_def key_bytes_ok_def)
  then have "?L \<noteq> [] \<longleftrightarrow> (\<exists>r. (?u, r) \<in> E)" by (auto simp: filter_empty_conv xs(2))
  ultimately show ?thesis using n(2) by simp
qed

interpretation tix: record_index bi_rep build_record_key bi_fits bi_room bi_same "bi_insert_entry cf" "bi_delete_entry cf" "bi_has_key cf" for cf
  using bi_insert_new bi_delete_old bi_has_key_eq bi_same_parts(4,5)
  by unfold_locales (auto simp: bi_same_def hdr_kept_same)

end
