(* ===== verification/Table.thy ===== *)
theory Table
  imports TableIndex RecordScan
begin

section \<open>Tables (table.cpp)\<close>

text \<open>
  A table is its metadata, its record file and its indexes, with two maps that live in memory only: the texts that do not fit their
  field, under the marker the field holds instead, and the fields of a record that were forced to be null. The operations are those
  of \<open>Table\<close>, on top of \<open>RecordFileHandler\<close> and \<open>BplusTreeIndex\<close>. The environment \<open>TableEnv\<close> holds what they take from elsewhere:
  IEEE arithmetic, the choice of a page out of the set of free pages, the identity of the thread for the latches, and the
  fields of the transaction kit.
\<close>

record TableEnv =
  te_io :: IEEE
  te_pick :: "int set \<Rightarrow> int"
  te_xid :: int
  te_kit :: "FieldMeta list option"

definition te_cf :: "TableEnv \<Rightarrow> byte list \<Rightarrow> byte list \<Rightarrow> int" where
  "te_cf env u v = compare_float (te_io env) (read_w32 (nth u) 0) (read_w32 (nth v) 0)"

record Table =
  tb_meta :: TableMeta
  tb_handler :: RecordFileHandler
  tb_indexes :: "BplusTreeIndex list"
  tb_forced_null :: "byte list \<Rightarrow> name set option"
  tb_overflow :: "byte list \<Rightarrow> byte list option"
  tb_next_text :: nat

subsection \<open>Null values and unique indexes\<close>

definition field_data_is_null :: "byte list \<Rightarrow> FieldMeta option \<Rightarrow> bool" where
  "field_data_is_null record field =
     (case field of
        None \<Rightarrow> False
      | Some f \<Rightarrow> fm_nullable f \<and> (\<forall>i < nat (fm_len f). record ! (nat (fm_offset f) + i) = 0))"

definition index_key_has_null :: "TableMeta \<Rightarrow> IndexMeta \<Rightarrow> byte list \<Rightarrow> bool" where
  "index_key_has_null tm im record = list_ex (\<lambda>n. field_data_is_null record (find_field n tm)) (im_field_names im)"

definition skip_unique_null_key :: "TableMeta \<Rightarrow> IndexMeta \<Rightarrow> byte list \<Rightarrow> bool" where
  "skip_unique_null_key tm im record \<longleftrightarrow> im_unique im \<and> index_key_has_null tm im record"

abbreviation skip_index :: "TableMeta \<Rightarrow> BplusTreeIndex \<Rightarrow> byte list \<Rightarrow> bool" where
  "skip_index tm bi record \<equiv> skip_unique_null_key tm (bi_meta bi) record"

subsection \<open>Overflow texts\<close>

definition TEXT_OVERFLOW_PREFIX :: "byte list" where
  "TEXT_OVERFLOW_PREFIX = [1, 77, 73, 78, 73, 79, 66, 95, 84, 69, 88, 84, 58]"

definition MAX_TEXT_VALUE_LENGTH :: int where
  "MAX_TEXT_VALUE_LENGTH = 65535"

definition text_overflow_marker :: "byte list \<Rightarrow> int \<Rightarrow> byte list option" where
  "text_overflow_marker field_data field_len =
     (if field_len \<le> 0 then None
      else let prefix_len = length TEXT_OVERFLOW_PREFIX in
        if nat field_len \<le> prefix_len \<or> memcmp field_data TEXT_OVERFLOW_PREFIX prefix_len \<noteq> 0 then None
        else let marker = c_str (take (nat field_len) field_data) in
          if length marker \<le> prefix_len \<or> length marker \<ge> nat field_len then None else Some marker)"

definition store_overflow_text :: "byte list \<Rightarrow> Table \<Rightarrow> byte list \<times> Table" where
  "store_overflow_text data tb =
     (let marker = TEXT_OVERFLOW_PREFIX @ dec_nat (tb_next_text tb)
      in (marker, tb\<lparr>tb_next_text := (tb_next_text tb + 1) mod 2 ^ 64, tb_overflow := (tb_overflow tb)(marker \<mapsto> data)\<rparr>))"

definition resolve_overflow_text :: "byte list \<Rightarrow> int \<Rightarrow> Table \<Rightarrow> byte list option" where
  "resolve_overflow_text field_data field_len tb = Option.bind (text_overflow_marker field_data field_len) (tb_overflow tb)"

fun erase_texts_loop :: "FieldMeta list \<Rightarrow> byte list \<Rightarrow> Table \<Rightarrow> Table" where
  "erase_texts_loop [] record tb = tb"
| "erase_texts_loop (f # fs) record tb =
     erase_texts_loop fs record
       (if fm_type f \<noteq> TEXTS then tb
        else case text_overflow_marker (drop (nat (fm_offset f)) record) (fm_len f) of
          None \<Rightarrow> tb
        | Some marker \<Rightarrow> tb\<lparr>tb_overflow := (tb_overflow tb)(marker := None)\<rparr>)"

definition erase_overflow_texts :: "FieldMeta list option \<Rightarrow> byte list \<Rightarrow> Table \<Rightarrow> Table" where
  "erase_overflow_texts kit record tb = erase_texts_loop (drop (sys_field_num kit) (tm_fields (tb_meta tb))) record tb"

subsection \<open>Fields forced to be null\<close>

definition rid_key :: "RID \<Rightarrow> byte list" where
  "rid_key rid = dec_int (page_num rid) @ 58 # dec_int (slot_num rid)"

definition clear_forced_null_fields :: "RID \<Rightarrow> Table \<Rightarrow> Table" where
  "clear_forced_null_fields rid tb = tb\<lparr>tb_forced_null := (tb_forced_null tb)(rid_key rid := None)\<rparr>"

text \<open>\<open>forced\<close>: the flags given for the user's fields, \<^const>\<open>None\<close> the null pointer.\<close>

definition mark_forced_null_fields :: "FieldMeta list option \<Rightarrow> RID \<Rightarrow> bool list option \<Rightarrow> Table \<Rightarrow> Table" where
  "mark_forced_null_fields kit rid forced tb =
     (case forced of
        None \<Rightarrow> clear_forced_null_fields rid tb
      | Some flags \<Rightarrow>
          let fields = fm_name ` snd ` set (filter fst (zip flags (drop (sys_field_num kit) (tm_fields (tb_meta tb)))))
          in if fields = {} then clear_forced_null_fields rid tb
             else tb\<lparr>tb_forced_null := (tb_forced_null tb)(rid_key rid \<mapsto> fields)\<rparr>)"

definition is_forced_null_field :: "RID \<Rightarrow> FieldMeta option \<Rightarrow> Table \<Rightarrow> bool" where
  "is_forced_null_field rid field tb =
     (case field of
        None \<Rightarrow> False
      | Some f \<Rightarrow> (case tb_forced_null tb (rid_key rid) of None \<Rightarrow> False | Some fs \<Rightarrow> fm_name f \<in> fs))"

subsection \<open>Building a record\<close>

definition type_compatible :: "FieldMeta \<Rightarrow> Value \<Rightarrow> bool" where
  "type_compatible f v \<longleftrightarrow> fm_type f = v_type v \<or> fm_type f = TEXTS \<and> v_type v = CHARS \<or> fm_type f = CHARS \<and> v_type v = TEXTS \<or>
     fm_type f = INTS \<and> v_type v = FLOATS"

fun check_values :: "(FieldMeta \<times> Value \<times> bool) list \<Rightarrow> RC" where
  "check_values [] = SUCCESS"
| "check_values ((f, v, forced_null) # rest) =
     (if v_null v \<or> forced_null then
        (if \<not> fm_nullable f \<and> \<not> forced_null then SCHEMA_FIELD_TYPE_MISMATCH else check_values rest)
      else if \<not> type_compatible f v \<and> v_type v \<noteq> NULLS then SCHEMA_FIELD_TYPE_MISMATCH
      else if fm_type f = TEXTS \<and> v_length v > MAX_TEXT_VALUE_LENGTH then SCHEMA_FIELD_TYPE_MISMATCH
      else check_values rest)"

text \<open>The bytes of a value: the string with its terminator, or the union.\<close>

definition value_bytes :: "Value \<Rightarrow> byte list" where
  "value_bytes v =
     (if is_string_type (v_type v) then v_str v @ [0]
      else [byte_of_word32 0 (v_num v), byte_of_word32 1 (v_num v), byte_of_word32 2 (v_num v), byte_of_word32 3 (v_num v)])"

definition put_bytes :: "byte list \<Rightarrow> int \<Rightarrow> byte list \<Rightarrow> byte list" where
  "put_bytes d off src = take (nat off) d @ src @ drop (nat off + length src) d"

text \<open>
  Copying a value into its field. A number is copied with the length of the field, four bytes being there: a longer
  field would read past the union, which is undefined.
\<close>

definition copy_value :: "IEEE \<Rightarrow> FieldMeta \<Rightarrow> Value \<Rightarrow> byte list \<Rightarrow> Table \<Rightarrow> (RC \<times> byte list \<times> Table) option" where
  "copy_value io f v record tb =
     (if fm_type f = INTS \<and> v_type v = FLOATS then
        Some (SUCCESS, put_i32 record (nat (fm_offset f)) (cast_i32 (d_lround io (get_double io v))), tb)
      else if is_string_type (fm_type f) then
        (if \<not> is_string_type (v_type v) then None
         else if fm_type f = TEXTS \<and> v_length v > fm_len f then
          (case store_overflow_text (v_str v) tb of (marker, tb) \<Rightarrow>
             if length marker \<ge> nat (fm_len f) then Some (INTERNAL, record, tb)
             else Some (SUCCESS, put_bytes record (fm_offset f) (marker @ [0]), tb))
         else if v_length v < fm_len f then Some (SUCCESS, put_bytes record (fm_offset f) (v_str v @ [0]), tb)
         else Some (SUCCESS, put_bytes record (fm_offset f) (take (nat (fm_len f)) (v_str v)), tb))
      else if fm_len f > 4 then None
      else Some (SUCCESS, put_bytes record (fm_offset f) (take (nat (fm_len f)) (value_bytes v)), tb))"

fun copy_values :: "IEEE \<Rightarrow> (FieldMeta \<times> Value \<times> bool) list \<Rightarrow> byte list \<Rightarrow> Table \<Rightarrow> (RC \<times> byte list \<times> Table) option" where
  "copy_values io [] record tb = Some (SUCCESS, record, tb)"
| "copy_values io ((f, v, forced_null) # rest) record tb =
     (if v_null v \<or> forced_null then copy_values io rest record tb
      else do {
        (rc, record, tb) \<leftarrow> copy_value io f v record tb;
        if rc \<noteq> SUCCESS then Some (rc, record, tb) else copy_values io rest record tb
      })"

definition make_record :: "TableEnv \<Rightarrow> Value list \<Rightarrow> bool list option \<Rightarrow> Table \<Rightarrow> (RC \<times> byte list option \<times> Table) option" where
  "make_record env values forced tb =
     (let tm = tb_meta tb; sys = sys_field_num (te_kit env) in
      if length values + sys \<noteq> length (tm_fields tm) then Some (SCHEMA_FIELD_MISSING, None, tb)
      else
        let flags = (case forced of None \<Rightarrow> replicate (length values) False | Some fs \<Rightarrow> fs);
            items = zip (drop sys (tm_fields tm)) (zip values flags);
            rc = check_values items
        in if rc \<noteq> SUCCESS then Some (rc, None, tb)
           else do {
             (rc, record, tb) \<leftarrow> copy_values (te_io env) items (replicate (nat (tm_record_size tm)) 0) tb;
             if rc \<noteq> SUCCESS then Some (rc, None, tb) else Some (SUCCESS, Some record, tb)
           })"

subsection \<open>Records and index entries\<close>

definition insert_entry_of_indexes :: "TableEnv \<Rightarrow> byte list \<Rightarrow> RID \<Rightarrow> Table \<Rightarrow> (RC \<times> Table) option" where
  "insert_entry_of_indexes env record rid tb = do {
     (rc, is) \<leftarrow> for_indexes (\<lambda>i. skip_index (tb_meta tb) i record) (bi_insert_entry (te_cf env) record rid) (\<lambda>rc. rc \<noteq> SUCCESS) SUCCESS (tb_indexes tb);
     Some (rc, tb\<lparr>tb_indexes := is\<rparr>)
   }"

definition delete_entry_of_indexes :: "TableEnv \<Rightarrow> byte list \<Rightarrow> RID \<Rightarrow> bool \<Rightarrow> Table \<Rightarrow> (RC \<times> Table) option" where
  "delete_entry_of_indexes env record rid error_on_not_exists tb = do {
     (rc, is) \<leftarrow> for_indexes (\<lambda>i. skip_index (tb_meta tb) i record) (bi_delete_entry (te_cf env) record rid)
       (\<lambda>rc. rc \<noteq> SUCCESS \<and> (rc \<noteq> RECORD_INVALID_KEY \<or> \<not> error_on_not_exists)) SUCCESS (tb_indexes tb);
     Some (rc, tb\<lparr>tb_indexes := is\<rparr>)
   }"

text \<open>The result carries the record identifier that the code stores into the record.\<close>

definition insert_record :: "TableEnv \<Rightarrow> byte list \<Rightarrow> Table \<Rightarrow> (RC \<times> RID option \<times> Table) option" where
  "insert_record env record tb = do {
     duplicate \<leftarrow> any_index (\<lambda>i. im_unique (bi_meta i) \<and> \<not> skip_index (tb_meta tb) i record) (bi_has_key (te_cf env) record) (tb_indexes tb);
     if duplicate then Some (RECORD_DUPLICATE_KEY, None, erase_overflow_texts (te_kit env) record tb)
     else do {
       (rc, rid, h) \<leftarrow> rf_insert_record (te_pick env) (te_xid env) record (tm_record_size (tb_meta tb)) (tb_handler tb);
       let tb = tb\<lparr>tb_handler := h\<rparr>;
       if rc \<noteq> SUCCESS then Some (rc, None, erase_overflow_texts (te_kit env) record tb)
       else do {
         r \<leftarrow> rid;
         (rc, tb) \<leftarrow> insert_entry_of_indexes env record r tb;
         if rc = SUCCESS then Some (rc, rid, tb)
         else do {
           (_, tb) \<leftarrow> delete_entry_of_indexes env record r False tb;
           (_, h) \<leftarrow> rf_delete_record (te_xid env) r (tb_handler tb);
           Some (rc, rid, erase_overflow_texts (te_kit env) record (tb\<lparr>tb_handler := h\<rparr>))
         }
       }
     }
   }"

definition visit_record ::
  "TableEnv \<Rightarrow> RID \<Rightarrow> bool \<Rightarrow> (Record \<Rightarrow> mem \<Rightarrow> ('a \<times> mem) option) \<Rightarrow> Table \<Rightarrow> (RC \<times> 'a option \<times> Table) option" where
  "visit_record env rid readonly visitor tb = do {
     (rc, x, h) \<leftarrow> rf_visit_record (te_xid env) rid readonly visitor (tb_handler tb);
     Some (rc, x, tb\<lparr>tb_handler := h\<rparr>)
   }"

text \<open>The record is copied out of its page.\<close>

definition get_record :: "TableEnv \<Rightarrow> RID \<Rightarrow> Table \<Rightarrow> (RC \<times> (byte list \<times> RID) option \<times> Table) option" where
  "get_record env rid tb =
     visit_record env rid True (\<lambda>src m. Some ((mem_slice m (rec_data src) (nat (tm_record_size (tb_meta tb))), rec_rid src), m)) tb"

definition recover_insert_record :: "TableEnv \<Rightarrow> byte list \<Rightarrow> RID \<Rightarrow> Table \<Rightarrow> (RC \<times> Table) option" where
  "recover_insert_record env record rid tb = do {
     (rc, h) \<leftarrow> rf_recover_insert_record (te_xid env) record rid (tb_handler tb);
     let tb = tb\<lparr>tb_handler := h\<rparr>;
     if rc \<noteq> SUCCESS then Some (rc, tb)
     else do {
       (rc, tb) \<leftarrow> insert_entry_of_indexes env record rid tb;
       if rc = SUCCESS then Some (rc, tb)
       else do {
         (_, tb) \<leftarrow> delete_entry_of_indexes env record rid False tb;
         (_, h) \<leftarrow> rf_delete_record (te_xid env) rid (tb_handler tb);
         Some (rc, tb\<lparr>tb_handler := h\<rparr>)
       }
     }
   }"

text \<open>Every index must know the record: a code other than \<open>SUCCESS\<close> fails the assertion.\<close>

definition delete_record :: "TableEnv \<Rightarrow> byte list \<Rightarrow> RID \<Rightarrow> Table \<Rightarrow> (RC \<times> Table) option" where
  "delete_record env record rid tb = do {
     (rc, is) \<leftarrow> for_indexes (\<lambda>i. skip_index (tb_meta tb) i record) (bi_delete_entry (te_cf env) record rid) (\<lambda>rc. rc \<noteq> SUCCESS) SUCCESS (tb_indexes tb);
     if rc \<noteq> SUCCESS then None
     else do {
       (rc, h) \<leftarrow> rf_delete_record (te_xid env) rid (tb_handler tb);
       let tb = tb\<lparr>tb_indexes := is, tb_handler := h\<rparr>;
       Some (rc, if rc = SUCCESS then erase_overflow_texts (te_kit env) record (clear_forced_null_fields rid tb) else tb)
     }
   }"

subsection \<open>Indexes of the table\<close>

definition find_index :: "name \<Rightarrow> Table \<Rightarrow> BplusTreeIndex option" where
  "find_index name tb = find (\<lambda>i. im_name (bi_meta i) = name) (tb_indexes tb)"

definition table_find_index_by_field :: "name \<Rightarrow> Table \<Rightarrow> BplusTreeIndex option" where
  "table_find_index_by_field field tb = Option.bind (find_index_by_field field (tb_meta tb)) (\<lambda>im. find_index (im_name im) tb)"

end
