(* ===== verification/TableContract.thy ===== *)
theory TableContract
  imports Table
begin

section \<open>What a table promises\<close>

text \<open>
  A table is a map from record identifiers to rows. Its invariant says that the record file is in order and that every index
  holds exactly the entries of the rows: one for every row it does not skip. The operations are proved to be the operations on
  the map, and to keep the indexes in step with it.
\<close>

subsection \<open>Records in place\<close>

lemma memcpy_region:
  assumes "\<And>i. i < base \<or> base + n \<le> i \<Longrightarrow> m' i = m i" "mem_slice m' base n = d"
  shows "m' = memcpy m base d n"
proof
  fix i
  show "m' i = memcpy m base d n i"
  proof (cases "base \<le> i \<and> i < base + n")
    case True
    then obtain k where k: "i = base + k" "k < n" by (metis add_less_cancel_left le_Suc_ex)
    then have "d ! k = m' i" unfolding assms(2) [symmetric] by (simp add: mem_slice_def)
    then show ?thesis using k by (simp add: memcpy_def)
  qed (use assms(1) in \<open>auto simp: memcpy_def\<close>)
qed

lemma rf_content_page:
  assumes "rf_ok rs s" "rf_content s rid = Some d"
  obtains f where "rf_pages s (page_num rid) = Some f" "page_num rid \<in> rf_used s" "0 \<le> slot_num rid" "page_recs (fr_data f) (nat (slot_num rid)) = Some d"
    "page_idle (page_num rid) f" "rp_ok (fr_data f)" "ph_real_size (fr_data f) = rs" "is_full (fr_data f) \<or> page_num rid \<in> rf_free_pages s"
proof -
  have u: "page_num rid \<in> rf_used s" "0 \<le> slot_num rid" using assms(2) by (auto simp: rf_content_def split: if_splits)
  then obtain f where "rf_pages s (page_num rid) = Some f" "rp_ok (fr_data f)" "ph_real_size (fr_data f) = rs"
    "is_full (fr_data f) \<or> page_num rid \<in> rf_free_pages s" using rf_okD(7) [OF assms(1)] by blast
  then show ?thesis using u assms(2) rf_okD(6) [OF assms(1)] by (intro that [of f]) (auto simp: rf_content_def)
qed

lemma record_num_dom: "rp_ok m \<Longrightarrow> ph_record_num m = int (card (dom (page_recs m)))"
proof -
  have "dom (page_recs m) = {i. i < nat (ph_capacity m) \<and> occupied m i}" by (auto simp: page_recs_def split: if_splits)
  then show "rp_ok m \<Longrightarrow> ph_record_num m = int (card (dom (page_recs m)))" using rp_okD(6) by simp
qed

text \<open>A record identifier in use is in the range of the comparator.\<close>

lemma rf_content_rid: "rf_ok rs s \<Longrightarrow> rf_content s rid = Some d \<Longrightarrow> RID_ok rid"
proof (rule rf_content_page)
  fix f assume a: "rf_ok rs s" "page_num rid \<in> rf_used s" "0 \<le> slot_num rid" "page_recs (fr_data f) (nat (slot_num rid)) = Some d" "rp_ok (fr_data f)"
  then have "1 \<le> page_num rid" "page_num rid < MAX_PAGE_NUM" using rf_okD(4) [OF a(1)] by auto
  moreover have "nat (slot_num rid) < nat (ph_capacity (fr_data f))" using a(4) by (auto simp: page_recs_def split: if_splits)
  then have "slot_num rid < 2 ^ 31" using rp_count_bound [OF a(5)] a(3) by simp
  ultimately show "RID_ok rid" using a(3) by (simp add: RID_ok_def nonneg_i32_def MAX_PAGE_NUM_def BP_PAGE_DATA_SIZE_def)
qed

lemma set_data_same: "set_data (fr_data f) f = f"
  by (cases f) (simp add: set_data_def)

text \<open>A visitor that changes the bytes of the record only.\<close>

definition visits :: "nat \<Rightarrow> (Record \<Rightarrow> mem \<Rightarrow> ('a \<times> mem) option) \<Rightarrow> RID \<Rightarrow> byte list \<Rightarrow> 'a \<Rightarrow> byte list \<Rightarrow> bool" where
  "visits n visitor rid d x d' \<longleftrightarrow> (\<forall>r m. rec_rid r = rid \<and> mem_slice m (rec_data r) n = d \<longrightarrow>
     (\<exists>m'. visitor r m = Some (x, m') \<and> (\<forall>i. i < rec_data r \<or> rec_data r + n \<le> i \<longrightarrow> m' i = m i) \<and> mem_slice m' (rec_data r) n = d'))"

lemma rf_visit_correct:
  assumes ok: "rf_ok rs s" and d: "rf_content s rid = Some d" and xid: "xid \<noteq> 0" and v: "visits (nat rs) visitor rid d x d'"
    and ro: "ro \<longrightarrow> d' = d"
  shows "\<exists>s'. rf_visit_record xid rid ro visitor s = Some (SUCCESS, Some x, s') \<and> rf_ok rs s' \<and> rf_content s' = (rf_content s)(rid \<mapsto> d') \<and>
    rf_slots s' = rf_slots s"
proof (rule rf_content_page [OF ok d])
  fix f
  let ?p = "page_num rid" and ?i = "nat (slot_num rid)" and ?n = "nat rs" and ?f = "held ro xid f"
  assume f: "rf_pages s ?p = Some f" "?p \<in> rf_used s" "0 \<le> slot_num rid" "page_recs (fr_data f) ?i = Some d" "page_idle ?p f"
    "rp_ok (fr_data f)" "ph_real_size (fr_data f) = rs" "is_full (fr_data f) \<or> ?p \<in> rf_free_pages s"
  let ?r = "\<lparr>rec_rid = rid, rec_data = get_record_data (fr_data f) (int ?i), rec_len = ph_real_size (fr_data f)\<rparr>"
  have i: "?i < nat (ph_capacity (fr_data f))" "occupied (fr_data f) ?i" "mem_slice (fr_data f) (rec_data ?r) ?n = d"
    using f(4,7) by (auto simp: page_recs_def split: if_splits)
  have get: "rp_get_record ?f rid = Some (SUCCESS, Some ?r)" using rp_get_correct [of rid ?i ?f] i f(3) by simp
  obtain m' where m': "visitor ?r (fr_data f) = Some (x, m')" "\<forall>k. k < rec_data ?r \<or> rec_data ?r + ?n \<le> k \<longrightarrow> m' k = fr_data f k" "mem_slice m' (rec_data ?r) ?n = d'"
    using v [unfolded visits_def, rule_format, of ?r "fr_data f"] i(3) by (simp only: Record.select_convs) blast
  have eq: "m' = memcpy (fr_data f) (rec_data ?r) d' ?n" using m'(2,3) by (intro memcpy_region) auto
  have len: "length d' = ?n" using m'(3) by auto
  have w: "page_recs m' = (page_recs (fr_data f))(?i \<mapsto> d')" "rp_ok m'" "same_layout (fr_data f) m'"
    using overwrite_slot_correct [OF f(6) i(1,2), of d'] len f(7) eq by simp_all
  note hold = rph_hold [OF f(5) xid rf_okD(1) [OF ok] f(1), of rph_new ro]
  have rid: "\<lparr>page_num = ?p, slot_num = int ?i\<rparr> = rid" using f(3) by (cases rid) simp
  show ?thesis
  proof (cases ro)
    case True
    then have "d' = d" using ro by simp
    then have "m' = fr_data f" using eq i(3) memcpy_region [of "rec_data ?r" ?n "fr_data f" "fr_data f" d] by simp
    moreover have "set_data (fr_data f) ?f = ?f" using set_data_same [of ?f] by simp
    ultimately have "rf_visit_record xid rid ro visitor s = Some (SUCCESS, Some x, s)"
      using hold get m'(1) by (simp add: rf_visit_record_def rph_new_def)
    then show ?thesis using ok d \<open>d' = d\<close> by (intro exI [of _ s]) (simp add: fun_upd_idem)
  next
    case False
    let ?g = "set_data m' ?f"
    have "page_update (write_held xid f) ?g" using False by (simp add: page_update_def set_data_def held_def)
    note clean = rph_cleanup_write [OF f(5) this, of s]
    have run: "rf_visit_record xid rid ro visitor s = Some (SUCCESS, Some x, rf_set ?p (with_page f ?g) s)"
      using hold(1) get m'(1) clean False by (simp add: rf_visit_record_def rph_new_def)
    have "dom (page_recs m') = dom (page_recs (fr_data f))" using w(1) f(4) by auto
    then have full: "is_full m' \<longleftrightarrow> is_full (fr_data f)"
      using record_num_dom [OF w(2)] record_num_dom [OF f(6)] w(3) by (simp add: is_full_def same_layout_def)
    have "fr_page_num ?g = ?p" using f(5) by (simp add: page_idle_def)
    then have "rf_ok rs (rf_set ?p (with_page f ?g) s)"
      using w(2,3) f full by (intro rf_ok_set [OF ok f(2,1)]) (auto simp: same_layout_def)
    moreover have "rf_content (rf_set ?p (with_page f ?g) s) = (rf_content s)(rid \<mapsto> d')"
      using rf_content_set [OF f(1,2), of "with_page f ?g" ?i "Some d'"] w(1) rid by simp
    moreover have "rf_slots (rf_set ?p (with_page f ?g) s) = rf_slots s"
      using w(3) by (intro rf_slots_set [OF f(1)]) (simp add: same_layout_def)
    ultimately show ?thesis using run by blast
  qed
qed

subsection \<open>The invariant\<close>

definition tb_rows :: "Table \<Rightarrow> RID \<Rightarrow> byte list option" where
  "tb_rows tb = rf_content (tb_handler tb)"

abbreviation tb_skip :: "Table \<Rightarrow> BplusTreeIndex \<Rightarrow> byte list \<Rightarrow> bool" where
  "tb_skip tb \<equiv> skip_index (tb_meta tb)"

text \<open>Does a unique index hold a row with the key of this record?\<close>

definition clashes :: "Table \<Rightarrow> byte list \<Rightarrow> BplusTreeIndex \<Rightarrow> RID \<Rightarrow> bool" where
  "clashes tb d i r \<longleftrightarrow> im_unique (bi_meta i) \<and> \<not> tb_skip tb i d \<and>
     (\<exists>d'. tb_rows tb r = Some d' \<and> \<not> tb_skip tb i d' \<and> build_record_key i d' = build_record_key i d)"

definition index_synced :: "Table \<Rightarrow> BplusTreeIndex \<Rightarrow> bool" where
  "index_synced tb i \<longleftrightarrow> record_index.in_sync bi_rep build_record_key bi_fits (tb_skip tb) (tb_rows tb) i"

text \<open>What every operation on records in place leaves alone: the metadata, the indexes but for their entries, the slots of the file.\<close>

definition tb_kept :: "Table \<Rightarrow> Table \<Rightarrow> bool" where
  "tb_kept tb tb' \<longleftrightarrow> tb_meta tb' = tb_meta tb \<and> list_all2 bi_same (tb_indexes tb) (tb_indexes tb') \<and> rf_slots (tb_handler tb') = rf_slots (tb_handler tb)"

lemma tb_kept_refl [simp]: "tb_kept tb tb"
  by (simp add: tb_kept_def list.rel_refl tix.same_refl)

lemma tb_kept_handler: "rf_slots h = rf_slots (tb_handler tb) \<Longrightarrow> tb_kept tb (tb\<lparr>tb_handler := h\<rparr>)"
  by (simp add: tb_kept_def list.rel_refl tix.same_refl)

lemma bi_same_trans: "bi_same i i' \<Longrightarrow> bi_same i' i'' \<Longrightarrow> bi_same i i''"
  by (auto simp: bi_same_def intro: hdr_kept_trans)

lemma tb_kept_trans: "tb_kept tb tb' \<Longrightarrow> tb_kept tb' tb'' \<Longrightarrow> tb_kept tb tb''"
  unfolding tb_kept_def by (auto intro: list_all2_trans [of bi_same bi_same bi_same, OF bi_same_trans])

definition env_ok :: "TableEnv \<Rightarrow> bool" where
  "env_ok env \<longleftrightarrow> te_xid env \<noteq> 0 \<and> (\<forall>S. finite S \<and> S \<noteq> {} \<longrightarrow> te_pick env S \<in> S)"

definition tb_ok :: "Table \<Rightarrow> bool" where
  "tb_ok tb \<longleftrightarrow> rf_ok (tm_record_size (tb_meta tb)) (tb_handler tb) \<and> 0 \<le> tm_record_size (tb_meta tb) \<and> tm_record_size (tb_meta tb) \<le> 4000 \<and>
     (\<forall>i \<in> set (tb_indexes tb). index_synced tb i \<and> (\<forall>r d r'. tb_rows tb r = Some d \<and> clashes tb d i r' \<longrightarrow> r' = r))"

lemma tb_okD:
  assumes "tb_ok tb"
  shows "rf_ok (tm_record_size (tb_meta tb)) (tb_handler tb)" "0 \<le> tm_record_size (tb_meta tb)" "tm_record_size (tb_meta tb) \<le> 4000"
    "i \<in> set (tb_indexes tb) \<Longrightarrow> record_index.in_sync bi_rep build_record_key bi_fits (tb_skip tb) (tb_rows tb) i"
    "i \<in> set (tb_indexes tb) \<Longrightarrow> tb_rows tb r = Some d \<Longrightarrow> clashes tb d i r' \<Longrightarrow> r' = r"
  using assms unfolding tb_ok_def index_synced_def by blast+

text \<open>What an index in step with the table means, spelled out.\<close>

lemma index_synced_iff:
  "index_synced tb i \<longleftrightarrow> bi_rep i {(k, r). \<exists>d. tb_rows tb r = Some d \<and> \<not> tb_skip tb i d \<and> k = build_record_key i d} \<and>
     (\<forall>r d. tb_rows tb r = Some d \<longrightarrow> bi_fits i d)"
  unfolding index_synced_def tix.in_sync_def tix.row_entries_def ..

lemma tb_handler_erase [simp]:
  "tb_handler (erase_overflow_texts kit d tb) = tb_handler tb" "tb_meta (erase_overflow_texts kit d tb) = tb_meta tb"
  "tb_indexes (erase_overflow_texts kit d tb) = tb_indexes tb"
proof -
  have "tb_handler (erase_texts_loop fs d tb) = tb_handler tb \<and> tb_meta (erase_texts_loop fs d tb) = tb_meta tb \<and> tb_indexes (erase_texts_loop fs d tb) = tb_indexes tb" for fs
    by (induction fs d tb rule: erase_texts_loop.induct) (auto split: option.splits)
  then show "tb_handler (erase_overflow_texts kit d tb) = tb_handler tb" "tb_meta (erase_overflow_texts kit d tb) = tb_meta tb"
    "tb_indexes (erase_overflow_texts kit d tb) = tb_indexes tb" by (simp_all add: erase_overflow_texts_def)
qed

lemma tb_handler_clear [simp]:
  "tb_handler (clear_forced_null_fields r tb) = tb_handler tb" "tb_meta (clear_forced_null_fields r tb) = tb_meta tb"
  "tb_indexes (clear_forced_null_fields r tb) = tb_indexes tb"
  by (simp_all add: clear_forced_null_fields_def)

lemma tb_ok_cong: "tb_handler tb' = tb_handler tb \<Longrightarrow> tb_meta tb' = tb_meta tb \<Longrightarrow> tb_indexes tb' = tb_indexes tb \<Longrightarrow> tb_ok tb' = tb_ok tb"
  by (simp add: tb_ok_def index_synced_def tb_rows_def clashes_def)

lemma tb_rows_erase [simp]: "tb_rows (erase_overflow_texts kit d tb) = tb_rows tb" "tb_rows (clear_forced_null_fields r tb) = tb_rows tb"
  by (simp_all add: tb_rows_def)

text \<open>The indexes only grow and shrink with the rows; their keys stay.\<close>

lemma same_clashes: "bi_same i i' \<Longrightarrow> clashes tb d i' r = clashes tb d i r"
  using bi_same_parts [of i i'] by (simp add: clashes_def)

lemma same_skip: "bi_same i i' \<Longrightarrow> skip_index tm i' = skip_index tm i"
  using bi_same_parts(8) [of i i'] by simp

lemma tb_ok_indexes:
  assumes "tb_ok tb" "tb_meta tb' = tb_meta tb" "rf_ok (tm_record_size (tb_meta tb)) (tb_handler tb')"
    "list_all2 bi_same (tb_indexes tb) (tb_indexes tb')" "\<forall>i \<in> set (tb_indexes tb'). index_synced tb' i"
    "\<And>i r d r'. i \<in> set (tb_indexes tb) \<Longrightarrow> tb_rows tb' r = Some d \<Longrightarrow> clashes tb' d i r' \<Longrightarrow> r' = r"
  shows "tb_ok tb'"
proof -
  have "r' = r" if q: "i' \<in> set (tb_indexes tb')" "tb_rows tb' r = Some d" "clashes tb' d i' r'" for i' r d r'
  proof -
    obtain i where i: "i \<in> set (tb_indexes tb)" "bi_same i i'"
    proof -
      obtain k where k: "k < length (tb_indexes tb')" "tb_indexes tb' ! k = i'" using q(1) by (auto simp: in_set_conv_nth)
      then have "bi_same (tb_indexes tb ! k) i'" "k < length (tb_indexes tb)"
        using list_all2_nthD2 [OF assms(4) k(1)] list_all2_lengthD [OF assms(4)] by simp_all
      then show thesis using that [of "tb_indexes tb ! k"] nth_mem by blast
    qed
    then show ?thesis using assms(6) [OF i(1) q(2)] q(3) same_clashes [OF i(2)] by simp
  qed
  then show ?thesis using assms(2,3,5) tb_okD(2,3) [OF assms(1)] unfolding tb_ok_def by simp
qed

subsection \<open>Insertion and deletion\<close>

lemma insert_duplicate_check:
  assumes "tb_ok tb" "\<forall>i \<in> set (tb_indexes tb). bi_fits i d"
  shows "any_index (\<lambda>i. im_unique (bi_meta i) \<and> \<not> tb_skip tb i d) (bi_has_key (te_cf env) d) (tb_indexes tb) =
    Some (\<exists>i \<in> set (tb_indexes tb). \<exists>r. clashes tb d i r)"
proof -
  have "\<forall>i \<in> set (tb_indexes tb). record_index.in_sync bi_rep build_record_key bi_fits (tb_skip tb) (tb_rows tb) i \<and> bi_fits i d"
    using tb_okD(4) [OF assms(1)] assms(2) by blast
  note any = tix.any_has [OF this, of "\<lambda>i. im_unique (bi_meta i) \<and> \<not> tb_skip tb i d" "te_cf env"]
  have "(\<exists>i \<in> set (tb_indexes tb). (im_unique (bi_meta i) \<and> \<not> tb_skip tb i d) \<and>
      (\<exists>r d'. tb_rows tb r = Some d' \<and> \<not> tb_skip tb i d' \<and> build_record_key i d' = build_record_key i d)) \<longleftrightarrow>
    (\<exists>i \<in> set (tb_indexes tb). \<exists>r. clashes tb d i r)" unfolding clashes_def by blast
  then show ?thesis unfolding any by simp
qed

lemma insert_entries_correct:
  assumes ok: "tb_ok tb" and d: "\<forall>i \<in> set (tb_indexes tb). bi_fits i d \<and> bi_room i" and r: "tb_rows tb r = None" "RID_ok r"
    and tb': "tb' = tb\<lparr>tb_handler := h\<rparr>" and rows: "rf_content h = (tb_rows tb)(r \<mapsto> d)"
  shows "\<exists>is. insert_entry_of_indexes env d r tb' = Some (SUCCESS, tb'\<lparr>tb_indexes := is\<rparr>) \<and> list_all2 bi_same (tb_indexes tb) is \<and>
    (\<forall>i \<in> set is. index_synced (tb'\<lparr>tb_indexes := is\<rparr>) i)"
proof -
  have "\<forall>i \<in> set (tb_indexes tb). record_index.in_sync bi_rep build_record_key bi_fits (tb_skip tb) (tb_rows tb) i \<and> bi_room i \<and> bi_fits i d"
    using tb_okD(4) [OF ok] d by blast
  from tix.for_insert [OF same_skip r _ this, of "\<lambda>rc. rc \<noteq> SUCCESS" "te_cf env"]
  obtain "is" where "for_indexes (\<lambda>i. tb_skip tb i d) (bi_insert_entry (te_cf env) d r) (\<lambda>rc. rc \<noteq> SUCCESS) SUCCESS (tb_indexes tb) = Some (SUCCESS, is)"
    "list_all2 bi_same (tb_indexes tb) is"
    "\<forall>i \<in> set is. record_index.in_sync bi_rep build_record_key bi_fits (tb_skip tb) ((tb_rows tb)(r \<mapsto> d)) i" by auto
  then show ?thesis using rows by (intro exI [of _ "is"]) (simp add: insert_entry_of_indexes_def tb' index_synced_def tb_rows_def)
qed

lemma clashes_insert:
  assumes "tb_ok tb" "\<not> (\<exists>i \<in> set (tb_indexes tb). \<exists>r. clashes tb d i r)" "tb_rows tb r = None" "i \<in> set (tb_indexes tb)"
    "tb_meta tb' = tb_meta tb" "tb_rows tb' = (tb_rows tb)(r \<mapsto> d)" "tb_rows tb' q = Some d'" "clashes tb' d' i q'"
  shows "q' = q"
proof (rule ccontr)
  assume ne: "q' \<noteq> q"
  obtain d'' where c: "im_unique (bi_meta i)" "\<not> tb_skip tb i d'" "tb_rows tb' q' = Some d''" "\<not> tb_skip tb i d''" "build_record_key i d'' = build_record_key i d'"
    using assms(5,8) by (auto simp: clashes_def)
  have none: "\<not> clashes tb d i p" for p using assms(2,4) by blast
  consider "q = r" | "q' = r" | "q \<noteq> r" "q' \<noteq> r" by blast
  then show False
  proof cases
    case 1
    then have "d' = d" "tb_rows tb q' = Some d''" using assms(6,7) c(3) ne by auto
    then have "clashes tb d i q'" using c by (auto simp: clashes_def)
    then show False using none by blast
  next
    case 2
    then have "d'' = d" "tb_rows tb q = Some d'" using assms(6,7) c(3) ne by auto
    then have "clashes tb d i q" using c by (auto simp: clashes_def)
    then show False using none by blast
  next
    case 3
    then have "tb_rows tb q = Some d'" "tb_rows tb q' = Some d''" using assms(6,7) c(3) by auto
    then have "clashes tb d' i q'" using c by (auto simp: clashes_def)
    then show False using assms(1,4) \<open>tb_rows tb q = Some d'\<close> ne by (blast dest: tb_okD(5))
  qed
qed

lemma table_insert_correct:
  assumes env: "env_ok env" and ok: "tb_ok tb" and len: "length d = nat (tm_record_size (tb_meta tb))"
    and d: "\<forall>i \<in> set (tb_indexes tb). bi_fits i d \<and> bi_room i"
  shows "\<exists>rc rid tb'. insert_record env d tb = Some (rc, rid, tb') \<and> tb_ok tb' \<and> tb_meta tb' = tb_meta tb \<and> list_all2 bi_same (tb_indexes tb) (tb_indexes tb') \<and>
    (if \<exists>i \<in> set (tb_indexes tb). \<exists>r. clashes tb d i r then rc = RECORD_DUPLICATE_KEY \<and> tb_rows tb' = tb_rows tb
     else rc = SUCCESS \<and> (\<exists>r. rid = Some r \<and> tb_rows tb r = None \<and> tb_rows tb' = (tb_rows tb)(r \<mapsto> d)) \<or>
       rc = BUFFERPOOL_NOBUF \<and> rid = None \<and> tb_rows tb' = tb_rows tb \<and> rf_used (tb_handler tb) = {1..<MAX_PAGE_NUM})"
proof -
  let ?rs = "tm_record_size (tb_meta tb)" and ?dup = "\<exists>i \<in> set (tb_indexes tb). \<exists>r. clashes tb d i r"
  have same: "list_all2 bi_same (tb_indexes tb) (tb_indexes tb)" by (simp add: list.rel_refl tix.same_refl)
  have check: "any_index (\<lambda>i. im_unique (bi_meta i) \<and> \<not> tb_skip tb i d) (bi_has_key (te_cf env) d) (tb_indexes tb) = Some ?dup"
    using insert_duplicate_check [OF ok] d by blast
  show ?thesis
  proof (cases ?dup)
    case True
    then have "insert_record env d tb = Some (RECORD_DUPLICATE_KEY, None, erase_overflow_texts (te_kit env) d tb)"
      using check by (simp add: insert_record_def)
    then show ?thesis using True ok tb_ok_cong [of "erase_overflow_texts (te_kit env) d tb" tb] same by simp
  next
    case False
    have f: "rf_ok ?rs (tb_handler tb)" "0 \<le> ?rs" "?rs \<le> 4000" using tb_okD(1-3) [OF ok] by simp_all
    have pick: "\<forall>S. finite S \<and> S \<noteq> {} \<longrightarrow> te_pick env S \<in> S" using env by (simp add: env_ok_def)
    obtain rc rid h where h: "rf_insert_record (te_pick env) (te_xid env) d ?rs (tb_handler tb) = Some (rc, rid, h)" "rf_ok ?rs h"
      "rc = SUCCESS \<and> (\<exists>r. rid = Some r \<and> tb_rows tb r = None \<and> rf_content h = (tb_rows tb)(r \<mapsto> d)) \<or>
       rc = BUFFERPOOL_NOBUF \<and> rid = None \<and> rf_content h = tb_rows tb \<and> rf_used (tb_handler tb) = {1..<MAX_PAGE_NUM}"
      using rf_insert_correct [OF f(1) pick f(2,3), of d "te_xid env"] len by (auto simp: tb_rows_def)
    from h(3) show ?thesis
    proof (elim disjE conjE exE)
      assume e: "rc = BUFFERPOOL_NOBUF" "rid = None" "rf_content h = tb_rows tb" "rf_used (tb_handler tb) = {1..<MAX_PAGE_NUM}"
      let ?tb = "tb\<lparr>tb_handler := h\<rparr>"
      have rows: "tb_rows ?tb = tb_rows tb" using e(3) by (simp add: tb_rows_def)
      then have "tb_ok ?tb" using ok h(2) unfolding tb_ok_def index_synced_def clashes_def by simp blast
      then have "tb_ok (erase_overflow_texts (te_kit env) d ?tb)" using tb_ok_cong [of "erase_overflow_texts (te_kit env) d ?tb" ?tb] by simp
      moreover have "insert_record env d tb = Some (BUFFERPOOL_NOBUF, None, erase_overflow_texts (te_kit env) d ?tb)"
        using check False h(1) e by (simp add: insert_record_def)
      ultimately show ?thesis using False rows same e(4) by simp
    next
      fix r assume e: "rc = SUCCESS" "rid = Some r" "tb_rows tb r = None" "rf_content h = (tb_rows tb)(r \<mapsto> d)"
      let ?tb = "tb\<lparr>tb_handler := h\<rparr>"
      have rid: "RID_ok r" using rf_content_rid [OF h(2), of r d] e(4) by simp
      obtain "is" where "is": "insert_entry_of_indexes env d r ?tb = Some (SUCCESS, ?tb\<lparr>tb_indexes := is\<rparr>)" "list_all2 bi_same (tb_indexes tb) is"
        "\<forall>i \<in> set is. index_synced (?tb\<lparr>tb_indexes := is\<rparr>) i" using insert_entries_correct [OF ok d e(3) rid refl e(4)] by blast
      let ?tb' = "?tb\<lparr>tb_indexes := is\<rparr>"
      have rows: "tb_rows ?tb' = (tb_rows tb)(r \<mapsto> d)" using e(4) by (simp add: tb_rows_def)
      have "q' = q" if q: "i \<in> set (tb_indexes tb)" "tb_rows ?tb' q = Some d'" "clashes ?tb' d' i q'" for i q d' q'
        by (rule clashes_insert [OF ok False e(3) q(1) _ rows q(2,3)]) simp
      then have "tb_ok ?tb'" using "is" h(2) by (intro tb_ok_indexes [OF ok]) simp_all
      moreover have "insert_record env d tb = Some (SUCCESS, Some r, ?tb')"
        using check False h(1) e "is"(1) by (simp add: insert_record_def)
      ultimately show ?thesis using False rows e(3) "is"(2) by auto
    qed
  qed
qed

lemma table_delete_correct:
  assumes env: "env_ok env" and ok: "tb_ok tb" and d: "tb_rows tb r = Some d"
  shows "\<exists>tb'. delete_record env d r tb = Some (SUCCESS, tb') \<and> tb_ok tb' \<and> tb_meta tb' = tb_meta tb \<and>
    list_all2 bi_same (tb_indexes tb) (tb_indexes tb') \<and> tb_rows tb' = (tb_rows tb)(r := None) \<and>
    rf_slots (tb_handler tb') = rf_slots (tb_handler tb)"
proof -
  let ?rs = "tm_record_size (tb_meta tb)"
  have f: "rf_ok ?rs (tb_handler tb)" "rf_content (tb_handler tb) r = Some d" using tb_okD(1) [OF ok] d by (simp_all add: tb_rows_def)
  have rid: "RID_ok r" by (rule rf_content_rid [OF f])
  have sync: "\<forall>i \<in> set (tb_indexes tb). record_index.in_sync bi_rep build_record_key bi_fits (tb_skip tb) (tb_rows tb) i"
    using tb_okD(4) [OF ok] by blast
  from tix.for_delete [OF same_skip d rid _ sync, of "\<lambda>rc. rc \<noteq> SUCCESS" "te_cf env"]
  obtain "is" where "is": "for_indexes (\<lambda>i. tb_skip tb i d) (bi_delete_entry (te_cf env) d r) (\<lambda>rc. rc \<noteq> SUCCESS) SUCCESS (tb_indexes tb) = Some (SUCCESS, is)"
    "list_all2 bi_same (tb_indexes tb) is"
    "\<forall>i \<in> set is. record_index.in_sync bi_rep build_record_key bi_fits (tb_skip tb) ((tb_rows tb)(r := None)) i" by auto
  obtain h where h: "rf_delete_record (te_xid env) r (tb_handler tb) = Some (SUCCESS, h)" "rf_ok ?rs h" "rf_content h = (tb_rows tb)(r := None)"
    "rf_slots h = rf_slots (tb_handler tb)"
  proof (rule rf_content_page [OF f])
    fix g assume g: "rf_pages (tb_handler tb) (page_num r) = Some g" "page_num r \<in> rf_used (tb_handler tb)" "0 \<le> slot_num r"
      "page_recs (fr_data g) (nat (slot_num r)) = Some d"
    then have "\<not> slot_num r \<ge> ph_capacity (fr_data g)" by (auto simp: page_recs_def split: if_splits)
    then show thesis using rf_delete_correct [OF f(1) g(2,3,1), of "te_xid env"] f(2) by (auto simp: tb_rows_def intro: that)
  qed
  let ?tb = "tb\<lparr>tb_indexes := is, tb_handler := h\<rparr>"
  have rows: "tb_rows ?tb = (tb_rows tb)(r := None)" using h(3) by (simp add: tb_rows_def)
  have "q' = q" if q: "i \<in> set (tb_indexes tb)" "tb_rows ?tb q = Some d'" "clashes ?tb d' i q'" for i q d' q'
  proof -
    have "tb_rows tb q = Some d'" using q(2) rows by (auto split: if_splits)
    moreover have "clashes tb d' i q'" using q(3) rows by (auto simp: clashes_def split: if_splits)
    ultimately show ?thesis by (rule tb_okD(5) [OF ok q(1)])
  qed
  moreover have "\<forall>i \<in> set is. index_synced ?tb i" using "is"(3) h(3) by (simp add: index_synced_def tb_rows_def)
  ultimately have tb: "tb_ok ?tb" using "is"(2) h(2) by (intro tb_ok_indexes [OF ok]) simp_all
  let ?tb' = "erase_overflow_texts (te_kit env) d (clear_forced_null_fields r ?tb)"
  have "tb_ok ?tb'" using tb tb_ok_cong [of ?tb' ?tb] by simp
  moreover have "delete_record env d r tb = Some (SUCCESS, ?tb')" using "is"(1) h(1) by (simp add: delete_record_def)
  ultimately show ?thesis using "is"(2) rows h(4) by (intro exI [of _ ?tb']) simp
qed

subsection \<open>Reading and changing a row in place\<close>

text \<open>
  A change of a row that leaves the indexes alone: no index key and no null test sees it.
\<close>

definition index_neutral :: "Table \<Rightarrow> byte list \<Rightarrow> byte list \<Rightarrow> bool" where
  "index_neutral tb d d' \<longleftrightarrow> (\<forall>i \<in> set (tb_indexes tb). build_record_key i d' = build_record_key i d \<and> tb_skip tb i d' = tb_skip tb i d \<and>
     bi_fits i d' = bi_fits i d)"

lemma table_visit_correct:
  assumes env: "env_ok env" and ok: "tb_ok tb" and d: "tb_rows tb r = Some d" and v: "visits (nat (tm_record_size (tb_meta tb))) visitor r d x d'"
    and ro: "ro \<longrightarrow> d' = d" and neutral: "index_neutral tb d d'"
  shows "\<exists>h. visit_record env r ro visitor tb = Some (SUCCESS, Some x, tb\<lparr>tb_handler := h\<rparr>) \<and> tb_ok (tb\<lparr>tb_handler := h\<rparr>) \<and>
    tb_rows (tb\<lparr>tb_handler := h\<rparr>) = (tb_rows tb)(r \<mapsto> d') \<and> rf_slots h = rf_slots (tb_handler tb)"
proof -
  let ?rs = "tm_record_size (tb_meta tb)"
  have f: "rf_ok ?rs (tb_handler tb)" "rf_content (tb_handler tb) r = Some d" using tb_okD(1) [OF ok] d by (simp_all add: tb_rows_def)
  have "te_xid env \<noteq> 0" using env by (simp add: env_ok_def)
  from rf_visit_correct [OF f this v ro] obtain h where
    h: "rf_visit_record (te_xid env) r ro visitor (tb_handler tb) = Some (SUCCESS, Some x, h)" "rf_ok ?rs h" "rf_content h = (tb_rows tb)(r \<mapsto> d')"
    "rf_slots h = rf_slots (tb_handler tb)"
    by (auto simp: tb_rows_def)
  let ?tb = "tb\<lparr>tb_handler := h\<rparr>"
  have rows: "tb_rows ?tb = (tb_rows tb)(r \<mapsto> d')" using h(3) by (simp add: tb_rows_def)
  have n: "build_record_key i d' = build_record_key i d" "tb_skip tb i d' = tb_skip tb i d" "bi_fits i d' = bi_fits i d"
    if "i \<in> set (tb_indexes tb)" for i using neutral that by (simp_all add: index_neutral_def)
  have "index_synced ?tb i" if i: "i \<in> set (tb_indexes tb)" for i
  proof -
    have s: "index_synced tb i" using ok i by (simp add: tb_ok_def)
    have "(\<exists>e. ((tb_rows tb)(r \<mapsto> d')) q = Some e \<and> \<not> tb_skip tb i e \<and> k = build_record_key i e) \<longleftrightarrow>
      (\<exists>e. tb_rows tb q = Some e \<and> \<not> tb_skip tb i e \<and> k = build_record_key i e)" for k q
      using n [OF i] d by (cases "q = r") simp_all
    then show ?thesis using s n(3) [OF i] d unfolding index_synced_iff rows by (auto split: if_splits)
  qed
  moreover have "q' = q" if q: "i \<in> set (tb_indexes tb)" "tb_rows ?tb q = Some e" "clashes ?tb e i q'" for i q e q'
  proof -
    obtain e' where c: "im_unique (bi_meta i)" "\<not> tb_skip tb i e" "((tb_rows tb)(r \<mapsto> d')) q' = Some e'" "\<not> tb_skip tb i e'" "build_record_key i e' = build_record_key i e"
      using q(3) rows by (auto simp: clashes_def)
    let ?e = "if q = r then d else e" and ?e' = "if q' = r then d else e'"
    have "tb_rows tb q = Some ?e" using q(2) d unfolding rows by (cases "q = r") simp_all
    moreover have "clashes tb ?e i q'"
      using c n [OF q(1)] d q(2) unfolding rows clashes_def by (intro conjI exI [of _ ?e']) (auto split: if_splits)
    ultimately show ?thesis by (rule tb_okD(5) [OF ok q(1)])
  qed
  ultimately have "tb_ok ?tb"
    using h(2) by (intro tb_ok_indexes [OF ok]) (simp_all add: list.rel_refl tix.same_refl)
  moreover have "visit_record env r ro visitor tb = Some (SUCCESS, Some x, ?tb)" using h(1) by (simp add: visit_record_def)
  ultimately show ?thesis using rows h(4) by blast
qed

lemma table_get_correct:
  assumes env: "env_ok env" and ok: "tb_ok tb" and d: "tb_rows tb r = Some d"
  shows "\<exists>h. get_record env r tb = Some (SUCCESS, Some (d, r), tb\<lparr>tb_handler := h\<rparr>) \<and> tb_ok (tb\<lparr>tb_handler := h\<rparr>) \<and>
    tb_rows (tb\<lparr>tb_handler := h\<rparr>) = tb_rows tb \<and> rf_slots h = rf_slots (tb_handler tb)"
proof -
  have v: "visits (nat (tm_record_size (tb_meta tb)))
      (\<lambda>src m. Some ((mem_slice m (rec_data src) (nat (tm_record_size (tb_meta tb))), rec_rid src), m)) r d (d, r) d"
    by (simp add: visits_def)
  have n: "index_neutral tb d d" by (simp add: index_neutral_def)
  from table_visit_correct [OF env ok d v _ n, of True] obtain h where
    h: "get_record env r tb = Some (SUCCESS, Some (d, r), tb\<lparr>tb_handler := h\<rparr>)" "tb_ok (tb\<lparr>tb_handler := h\<rparr>)"
    "tb_rows (tb\<lparr>tb_handler := h\<rparr>) = (tb_rows tb)(r \<mapsto> d)" "rf_slots h = rf_slots (tb_handler tb)"
    by (auto simp: get_record_def)
  have "(tb_rows tb)(r \<mapsto> d) = tb_rows tb" using d by (rule fun_upd_idem)
  then show ?thesis using h by (intro exI [of _ h]) simp
qed

subsection \<open>A new index\<close>

lemma fields_len_pos: "\<forall>f \<in> set fs. 0 < fm_len f \<Longrightarrow> 0 \<le> fields_len fs"
  by (induction fs) (auto simp: fields_len_def)

lemma index_init_loop_result:
  "\<lbrakk>\<forall>f \<in> set fs. 0 < fm_len f; 0 \<le> bi_key_length bi; bi_key_length bi + fields_len fs < 2 ^ 31\<rbrakk> \<Longrightarrow>
   index_init_loop (map Some fs) bi = (SUCCESS, bi\<lparr>bi_fields := bi_fields bi @ fs, bi_key_length := bi_key_length bi + fields_len fs\<rparr>)"
proof (induction fs arbitrary: bi)
  case (Cons f fs)
  have "0 \<le> fields_len fs" using Cons.prems(1) by (simp add: fields_len_pos)
  then have "cast_i32 (bi_key_length bi + fm_len f) = bi_key_length bi + fm_len f"
    using Cons.prems by (intro cast_i32_fits) (auto simp: fields_len_def fits_i32_def)
  then show ?case using Cons.prems Cons.IH [of "bi\<lparr>bi_fields := bi_fields bi @ [f], bi_key_length := bi_key_length bi + fm_len f\<rparr>"]
    by (simp add: fields_len_def add.assoc)
qed (simp add: fields_len_def)

lemma free_count_empty: "1 < free_count Map.empty"
proof -
  have "{3, 4} \<subseteq> {i. 2 \<le> i \<and> i < nat MAX_PAGE_NUM \<and> (Map.empty :: pages) (int i) = None}"
    by (auto simp: MAX_PAGE_NUM_def BP_PAGE_DATA_SIZE_def)
  from card_mono [OF finite_free this] show ?thesis by (simp add: free_count_def)
qed

lemma bt_empty_index: "bt_empty s \<Longrightarrow> bt_index cmp ok l s xs \<longleftrightarrow> xs = [] \<and> l = 0"
proof -
  assume e: "bt_empty s"
  have "\<not> bt_ok cmp ok s t" for t
    using e by (cases t) (auto simp: bt_ok_def bt_empty_def)
  then show "bt_index cmp ok l s xs \<longleftrightarrow> xs = [] \<and> l = 0" using e by (auto simp: bt_index_def)
qed

text \<open>The type of the keys of an index on these fields: a single field has its own type, several make a string of bytes.\<close>

definition index_type :: "FieldMeta list \<Rightarrow> AttrType" where
  "index_type fs = (case fs of [f] \<Rightarrow> fm_type f | _ \<Rightarrow> CHARS)"

definition index_file_ok :: "IndexFile \<Rightarrow> bool" where
  "index_file_ok e \<longleftrightarrow> if_create e = SUCCESS \<and> if_open e = SUCCESS \<and> if_alloc e = SUCCESS \<and> if_first_page e = FIRST_INDEX_PAGE \<and>
     if_get e = SUCCESS \<and> if_mem_pool e \<and> if_flush e = SUCCESS"

lemma bi_create_correct:
  assumes e: "index_file_ok e" and bi: "\<not> bi_inited bi" "bt_fault (bi_handler bi) = (\<lambda>_. SUCCESS)" "bt_alloc_fault (bi_handler bi) = SUCCESS"
    and fs: "fs \<noteq> []" "\<forall>f \<in> set fs. 0 \<le> fm_offset f \<and> 0 < fm_len f" "fields_len fs \<le> 1000"
    and t: "index_type fs \<in> {INTS, CHARS, DATES}" "index_type fs \<noteq> CHARS \<Longrightarrow> fields_len fs = 4"
  shows "\<exists>bi'. bi_create e im (map Some fs) bi = (SUCCESS, bi') \<and> bi_meta bi' = im \<and> bi_fields bi' = fs \<and> bi_rep bi' {} \<and> bi_room bi'"
proof -
  let ?n = "fields_len fs"
  have n: "0 \<le> ?n" using fs(2) by (simp add: fields_len_pos)
  let ?b = "bi\<lparr>bi_meta := im, bi_fields := fs, bi_key_length := ?n\<rparr>"
  let ?h = "(bi_handler bi)\<lparr>bt_header := \<lparr>fh_root_page = BP_INVALID_PAGE_NUM, fh_internal_max_size = calc_internal_page_capacity ?n,
      fh_leaf_max_size = calc_leaf_page_capacity ?n, fh_attr_length = ?n, fh_key_length = ?n + 8, fh_attr_type = index_type fs\<rparr>,
      bt_header_dirty := False, bt_pages := Map.empty, bt_dirty := {}, bt_disposed := []\<rparr>"
  let ?bi = "?b\<lparr>bi_handler := ?h, bi_inited := True\<rparr>"
  have i: "index_init im (map Some fs) bi = (SUCCESS, ?b)"
    using fs n index_init_loop_result [of fs "bi\<lparr>bi_meta := im, bi_fields := [], bi_key_length := 0\<rparr>"] by (simp add: index_init_def)
  have run: "bi_create e im (map Some fs) bi = (SUCCESS, ?bi)"
    using e bi(1) i by (simp add: bi_create_def bt_create_def index_file_ok_def index_type_def)
  have cap: "4 \<le> calc_leaf_page_capacity ?n" "6 \<le> calc_internal_page_capacity ?n"
    using n fs(3) by (simp_all add: calc_leaf_page_capacity_def calc_internal_page_capacity_def BP_PAGE_DATA_SIZE_def pos_imp_zdiv_nonneg_iff
      zdiv_mono2 order_trans [OF _ zdiv_mono2, of _ _ 1016])
  have wf: "bi_wf ?bi" using fs(1,2) t n cap by (auto simp: bi_wf_def header_type_def bi_type_def bi_attr_len_def)
  have empty: "bt_empty ?h" using bi(2,3) cap by (simp add: bt_empty_def no_fault_def max_sizes_def)
  have "bi_rep ?bi {}" using wf bt_empty_index [OF empty] by (simp add: bi_rep_def)
  moreover have "bi_room ?bi" using bt_empty_index [OF empty] free_count_empty by (simp add: bi_room_def)
  ultimately show ?thesis using run by simp
qed

subsection \<open>A table with one column and a unique index on it\<close>

definition demo_field :: FieldMeta where
  "demo_field = \<lparr>fm_name = [105, 100], fm_type = INTS, fm_offset = 0, fm_len = 4, fm_visible = True, fm_nullable = False\<rparr>"

definition demo_index_file :: IndexFile where
  "demo_index_file = \<lparr>if_create = SUCCESS, if_open = SUCCESS, if_alloc = SUCCESS, if_first_page = FIRST_INDEX_PAGE, if_get = SUCCESS,
     if_mem_pool = True, if_flush = SUCCESS\<rparr>"

definition demo_unique :: IndexMeta where
  "demo_unique = \<lparr>im_name = [117], im_field = [105, 100], im_field_names = [[105, 100]], im_unique = True\<rparr>"

definition demo_unique_index :: BplusTreeIndex where
  "demo_unique_index = snd (bi_create demo_index_file demo_unique [Some demo_field]
     \<lparr>bi_inited = False, bi_meta = demo_unique, bi_fields = [], bi_key_length = 0, bi_handler = demo_index\<rparr>)"

definition demo_table :: Table where
  "demo_table = \<lparr>tb_meta = \<lparr>tm_table_id = 1, tm_name = [116], tm_fields = [demo_field], tm_indexes = [demo_unique], tm_record_size = 4\<rparr>,
     tb_handler = no_pages, tb_indexes = [demo_unique_index], tb_forced_null = Map.empty, tb_overflow = Map.empty, tb_next_text = 1\<rparr>"

definition demo_env :: "IEEE \<Rightarrow> TableEnv" where
  "demo_env io = \<lparr>te_io = io, te_pick = Min, te_xid = 1, te_kit = None\<rparr>"

lemma demo_env_ok: "env_ok (demo_env io)"
  using Min_in by (auto simp: env_ok_def demo_env_def)

lemma demo_unique_index_ok:
  "bi_meta demo_unique_index = demo_unique" "bi_fields demo_unique_index = [demo_field]" "bi_rep demo_unique_index {}" "bi_room demo_unique_index"
proof -
  have "\<exists>bi'. bi_create demo_index_file demo_unique (map Some [demo_field])
      \<lparr>bi_inited = False, bi_meta = demo_unique, bi_fields = [], bi_key_length = 0, bi_handler = demo_index\<rparr> = (SUCCESS, bi') \<and>
    bi_meta bi' = demo_unique \<and> bi_fields bi' = [demo_field] \<and> bi_rep bi' {} \<and> bi_room bi'"
    by (rule bi_create_correct) (simp_all add: index_file_ok_def demo_index_file_def demo_index_def demo_field_def fields_len_def index_type_def)
  then show "bi_meta demo_unique_index = demo_unique" "bi_fields demo_unique_index = [demo_field]" "bi_rep demo_unique_index {}" "bi_room demo_unique_index"
    by (auto simp: demo_unique_index_def)
qed

lemma demo_table_ok: "tb_ok demo_table" "tb_rows demo_table = Map.empty" "tb_indexes demo_table = [demo_unique_index]"
proof -
  show r: "tb_rows demo_table = Map.empty" and i: "tb_indexes demo_table = [demo_unique_index]" by (simp_all add: tb_rows_def demo_table_def)
  show "tb_ok demo_table" using demo_unique_index_ok unfolding tb_ok_def index_synced_iff i r by (simp add: demo_table_def)
qed

lemma demo_fits: "bi_fits demo_unique_index (demo_user_key 1)"
proof -
  have "length (demo_user_key 1) = 4" by (simp add: demo_user_key_def)
  then show ?thesis using demo_unique_index_ok demo_read [of 1]
    by (simp add: bi_fits_def demo_field_def build_record_key_def field_bytes_def small_i32_def)
qed

lemma demo_no_clash: "\<not> clashes demo_table d i r"
  by (simp add: clashes_def demo_table_ok)

definition demo_filled :: "IEEE \<Rightarrow> Table" where
  "demo_filled io = (case insert_record (demo_env io) (demo_user_key 1) demo_table of Some (rc, rid, tb) \<Rightarrow> tb)"

lemma demo_insert:
  "\<exists>r. insert_record (demo_env io) (demo_user_key 1) demo_table = Some (SUCCESS, Some r, demo_filled io) \<and> tb_ok (demo_filled io) \<and>
     tb_rows (demo_filled io) = [r \<mapsto> demo_user_key 1]"
proof -
  have "rf_used (tb_handler demo_table) \<noteq> {1..<MAX_PAGE_NUM}" by (auto simp: demo_table_def MAX_PAGE_NUM_def BP_PAGE_DATA_SIZE_def)
  moreover have "length (demo_user_key 1) = nat (tm_record_size (tb_meta demo_table))" by (simp add: demo_table_def demo_user_key_def)
  ultimately show ?thesis
    using table_insert_correct [OF demo_env_ok demo_table_ok(1), of "demo_user_key 1" io] demo_fits demo_unique_index_ok demo_table_ok demo_no_clash
    by (auto simp: demo_filled_def)
qed

subsection \<open>Properties\<close>

text \<open>
  Property C1: inserting a row. \<open>insert_record\<close> returns on every table in order, with a code, and leaves the table in order: every
  index holds exactly the entries of the rows it does not skip, and no two rows share the key of a unique index. When a
  unique index has a row with the key of the new one, the code is \<open>RECORD_DUPLICATE_KEY\<close> and the rows are as before. Otherwise the
  code is \<open>SUCCESS\<close>, the identifier was not in use, and the rows are the old ones and the new one under that identifier; the only other code is
  \<open>BUFFERPOOL_NOBUF\<close>, when every page of the record file is in use, and then the rows are as before.
\<close>

theorem table_insert:
  assumes "env_ok env" "tb_ok tb" "length d = nat (tm_record_size (tb_meta tb))" "\<forall>i \<in> set (tb_indexes tb). bi_fits i d \<and> bi_room i"
  shows "\<exists>rc rid tb'. insert_record env d tb = Some (rc, rid, tb') \<and> tb_ok tb' \<and> tb_meta tb' = tb_meta tb \<and> list_all2 bi_same (tb_indexes tb) (tb_indexes tb') \<and>
    (if \<exists>i \<in> set (tb_indexes tb). \<exists>r. clashes tb d i r then rc = RECORD_DUPLICATE_KEY \<and> tb_rows tb' = tb_rows tb
     else rc = SUCCESS \<and> (\<exists>r. rid = Some r \<and> tb_rows tb r = None \<and> tb_rows tb' = (tb_rows tb)(r \<mapsto> d)) \<or>
       rc = BUFFERPOOL_NOBUF \<and> rid = None \<and> tb_rows tb' = tb_rows tb \<and> rf_used (tb_handler tb) = {1..<MAX_PAGE_NUM})"
  using assms by (rule table_insert_correct)

theorem table_insert_witness:
  "\<exists>r tb'. insert_record (demo_env undefined) (demo_user_key 1) demo_table = Some (SUCCESS, Some r, tb') \<and> tb_ok tb' \<and> tb_rows tb' = [r \<mapsto> demo_user_key 1]"
proof -
  have "rf_used (tb_handler demo_table) \<noteq> {1..<MAX_PAGE_NUM}" by (auto simp: demo_table_def MAX_PAGE_NUM_def BP_PAGE_DATA_SIZE_def)
  moreover have "length (demo_user_key 1) = nat (tm_record_size (tb_meta demo_table))" by (simp add: demo_table_def demo_user_key_def)
  ultimately show ?thesis
    using table_insert [OF demo_env_ok demo_table_ok(1), of "demo_user_key 1" undefined] demo_fits demo_unique_index_ok demo_table_ok demo_no_clash
    by auto
qed

text \<open>
  Property C2: deleting a row. \<open>delete_record\<close>, called with the identifier of a row and its bytes, reports \<open>SUCCESS\<close>: no index misses the
  entry (the assertion in the loop holds). The row is gone, every other row is as before, and every index again holds exactly
  the entries of the rows that remain.
\<close>

theorem table_delete:
  assumes "env_ok env" "tb_ok tb" "tb_rows tb r = Some d"
  shows "\<exists>tb'. delete_record env d r tb = Some (SUCCESS, tb') \<and> tb_ok tb' \<and> tb_meta tb' = tb_meta tb \<and>
    list_all2 bi_same (tb_indexes tb) (tb_indexes tb') \<and> tb_rows tb' = (tb_rows tb)(r := None)"
  using table_delete_correct [OF assms] by blast

theorem table_delete_witness:
  "\<exists>r tb'. tb_rows (demo_filled undefined) r = Some (demo_user_key 1) \<and>
     delete_record (demo_env undefined) (demo_user_key 1) r (demo_filled undefined) = Some (SUCCESS, tb') \<and> tb_ok tb' \<and> tb_rows tb' = Map.empty"
proof -
  obtain r where r: "tb_ok (demo_filled undefined)" "tb_rows (demo_filled undefined) = [r \<mapsto> demo_user_key 1]" using demo_insert [of undefined] by blast
  have "tb_rows (demo_filled undefined) r = Some (demo_user_key 1)" "(tb_rows (demo_filled undefined))(r := None) = Map.empty" using r(2) by auto
  then show ?thesis using table_delete [OF demo_env_ok r(1), of r "demo_user_key 1" undefined] by metis
qed

end
