(* ===== verification/FileIo.thy ===== *)
theory FileIo
  imports BufferedWriter
begin

section \<open>Reading and writing a file whole (src/deps/common/io/io.cpp)\<close>

text \<open>
  \<open>writen\<close> and \<open>readn\<close> repeat the system calls until all bytes are through, a call fails for good or the file ends.
  The calls are a parameter: how many bytes they move may depend on how many calls were made before, and they may ask
  for another try. The file is opened with \<open>O_APPEND\<close>, so every \<open>write\<close> adds at its end and leaves the position there.
\<close>

record OsFile =
  of_bytes :: "byte list"
  of_pos :: nat
  of_tick :: nat

record OsIo =
  io_write :: "nat \<Rightarrow> byte list \<Rightarrow> sys_result"
  io_read :: "nat \<Rightarrow> byte list \<Rightarrow> nat \<Rightarrow> sys_result"

definition of_rest :: "OsFile \<Rightarrow> byte list" where
  "of_rest f = drop (of_pos f) (of_bytes f)"

definition of_append :: "byte list \<Rightarrow> OsFile \<Rightarrow> OsFile" where
  "of_append bs f = f\<lparr>of_bytes := of_bytes f @ bs, of_pos := length (of_bytes f @ bs)\<rparr>"

definition of_step :: "OsFile \<Rightarrow> OsFile" where
  "of_step f = f\<lparr>of_tick := Suc (of_tick f)\<rparr>"

text \<open>The result of \<open>writen\<close>: did it write everything?\<close>

partial_function (option) writen :: "OsIo \<Rightarrow> byte list \<Rightarrow> OsFile \<Rightarrow> (bool \<times> OsFile) option" where
  "writen io tmp f =
     (if tmp = [] then Some (True, f)
      else case io_write io (of_tick f) tmp of
        Written k \<Rightarrow> writen io (drop k tmp) (of_append (take k tmp) (of_step f))
      | Again \<Rightarrow> writen io tmp (of_step f)
      | Fail \<Rightarrow> Some (False, of_step f))"

datatype readn_result = ReadAll | ReadEof | ReadFail

text \<open>The bytes read so far are \<open>tmp\<close>.\<close>

partial_function (option) readn :: "OsIo \<Rightarrow> nat \<Rightarrow> byte list \<Rightarrow> OsFile \<Rightarrow> (readn_result \<times> byte list \<times> OsFile) option" where
  "readn io n tmp f =
     (if n = 0 then Some (ReadAll, tmp, f)
      else case io_read io (of_tick f) (of_rest f) n of
        Written k \<Rightarrow>
          (let f' = (of_step f)\<lparr>of_pos := of_pos f + k\<rparr>
           in if k > 0 then readn io (n - k) (tmp @ take k (of_rest f)) f' else Some (ReadEof, tmp, f'))
      | Again \<Rightarrow> readn io n tmp (of_step f)
      | Fail \<Rightarrow> Some (ReadFail, tmp, of_step f))"

subsection \<open>What is relied on of write(2) and read(2)\<close>

text \<open>
  \<open>write\<close> takes no more than it is offered. \<open>read\<close> gives no more than was asked for and than the file has, and nothing
  only at its end. Neither asks for another try, nor does \<open>write\<close> take nothing, for ever.
\<close>

definition file_io_ok :: "OsIo \<Rightarrow> bool" where
  "file_io_ok io \<longleftrightarrow> os_ok (io_write io) \<and> os_decides (io_write io) \<and>
     (\<forall>t rest n k. io_read io t rest n = Written k \<longrightarrow> k \<le> n \<and> k \<le> length rest \<and> (k = 0 \<longrightarrow> n = 0 \<or> rest = [])) \<and>
     (\<forall>t rest n. \<exists>d. io_read io (t + d) rest n \<noteq> Again)"

definition io_never_fails :: "OsIo \<Rightarrow> bool" where
  "io_never_fails io \<longleftrightarrow> (\<forall>t bs. io_write io t bs \<noteq> Fail) \<and> (\<forall>t rest n. io_read io t rest n \<noteq> Fail)"

lemma of_step_simps [simp]:
  "of_bytes (of_step f) = of_bytes f" "of_pos (of_step f) = of_pos f" "of_rest (of_step f) = of_rest f" "of_tick (of_step f) = Suc (of_tick f)"
  by (simp_all add: of_step_def of_rest_def)

lemma of_append_simps [simp]:
  "of_bytes (of_append bs f) = of_bytes f @ bs" "of_pos (of_append bs f) = length (of_bytes f) + length bs" "of_tick (of_append bs f) = of_tick f"
  by (simp_all add: of_append_def)

text \<open>A call that is repeated until it decides.\<close>

lemma writen_progress:
  assumes "tmp \<noteq> []" "os_ok (io_write io)" "io_write io (of_tick f + d) tmp \<noteq> Again" "io_write io (of_tick f + d) tmp \<noteq> Written 0"
    and step: "\<And>k f'. \<lbrakk>0 < k; k \<le> length tmp; of_bytes f' = of_bytes f @ take k tmp; of_pos f' = length (of_bytes f')\<rbrakk> \<Longrightarrow> P (writen io (drop k tmp) f')"
    and fail: "\<And>t f'. \<lbrakk>io_write io t tmp = Fail; of_bytes f' = of_bytes f\<rbrakk> \<Longrightarrow> P (Some (False, f'))"
  shows "P (writen io tmp f)"
  using assms(3-)
proof (induction d arbitrary: f)
  case 0
  note step = 0(3) and fail = 0(4)
  show ?case
  proof (cases "io_write io (of_tick f) tmp")
    case (Written k)
    then have "0 < k" "k \<le> length tmp" using 0(2) assms(2) by (auto simp: os_ok_def)
    then have "P (writen io (drop k tmp) (of_append (take k tmp) (of_step f)))" by (intro step) simp_all
    then show ?thesis using Written assms(1) by (subst writen.simps) simp
  next
    case Fail
    then have "P (Some (False, of_step f))" by (intro fail) simp_all
    then show ?thesis using Fail assms(1) by (subst writen.simps) simp
  qed (use 0(1) in simp)
next
  case (Suc d)
  note step = Suc.prems(3) and fail = Suc.prems(4)
  have later: "P (writen io tmp f')" if f': "of_tick f' = Suc (of_tick f)" "of_bytes f' = of_bytes f" for f'
    using Suc.prems(1,2) f' by (intro Suc.IH) (auto intro: step fail)
  show ?case
  proof (cases "io_write io (of_tick f) tmp")
    case (Written k)
    show ?thesis
    proof (cases "k = 0")
      case True
      have "P (writen io tmp (of_append [] (of_step f)))" by (rule later) simp_all
      then show ?thesis using Written True assms(1) by (subst writen.simps) simp
    next
      case False
      then have "0 < k" "k \<le> length tmp" using Written assms(2) by (auto simp: os_ok_def)
      then have "P (writen io (drop k tmp) (of_append (take k tmp) (of_step f)))" by (intro step) simp_all
      then show ?thesis using Written assms(1) by (subst writen.simps) simp
    qed
  next
    case Again
    have "P (writen io tmp (of_step f))" by (rule later) simp_all
    then show ?thesis using Again assms(1) by (subst writen.simps) simp
  next
    case Fail
    then have "P (Some (False, of_step f))" by (intro fail) simp_all
    then show ?thesis using Fail assms(1) by (subst writen.simps) simp
  qed
qed

lemma file_writen_correct:
  assumes "file_io_ok io"
  shows "\<exists>ok f'. writen io data f = Some (ok, f') \<and>
    (if ok then of_bytes f' = of_bytes f @ data \<and> (data \<noteq> [] \<longrightarrow> of_pos f' = length (of_bytes f')) \<and> (data = [] \<longrightarrow> f' = f)
     else (\<exists>t bs. io_write io t bs = Fail) \<and> (\<exists>k < length data. of_bytes f' = of_bytes f @ take k data))"
proof (induction "length data" arbitrary: data f rule: less_induct)
  case less
  show ?case
  proof (cases "data = []")
    case True
    then show ?thesis by (subst writen.simps) (auto intro: exI [of _ True])
  next
    case False
    have "os_decides (io_write io)" "os_ok (io_write io)" using assms by (simp_all add: file_io_ok_def)
    then obtain d where d: "os_ok (io_write io)" "io_write io (of_tick f + d) data \<noteq> Again" "io_write io (of_tick f + d) data \<noteq> Written 0"
      using False by (auto simp: os_decides_def)
    show ?thesis
    proof (rule writen_progress [OF False d])
      fix k and f1 :: OsFile assume k: "0 < k" "k \<le> length data" "of_bytes f1 = of_bytes f @ take k data" "of_pos f1 = length (of_bytes f1)"
      have "length (drop k data) < length data" using k(1,2) by simp
      from less.hyps [OF this, of f1] obtain ok f' where w: "writen io (drop k data) f1 = Some (ok, f')"
        "if ok then of_bytes f' = of_bytes f1 @ drop k data \<and> (drop k data \<noteq> [] \<longrightarrow> of_pos f' = length (of_bytes f')) \<and> (drop k data = [] \<longrightarrow> f' = f1)
         else (\<exists>t bs. io_write io t bs = Fail) \<and> (\<exists>j < length (drop k data). of_bytes f' = of_bytes f1 @ take j (drop k data))" by blast
      have take: "take k data @ take j (drop k data) = take (k + j) data" for j by (simp add: take_add)
      have "if ok then of_bytes f' = of_bytes f @ data \<and> of_pos f' = length (of_bytes f')
        else (\<exists>t bs. io_write io t bs = Fail) \<and> (\<exists>j < length data. of_bytes f' = of_bytes f @ take j data)"
      proof (cases ok)
        case True
        then show ?thesis using w(2) k by (cases "drop k data = []") auto
      next
        case F: False
        then obtain j where "j < length (drop k data)" "of_bytes f' = of_bytes f @ take (k + j) data" using w(2) k(3) take by auto
        then have "k + j < length data \<and> of_bytes f' = of_bytes f @ take (k + j) data" by simp
        then show ?thesis using F w(2) by auto
      qed
      then show "\<exists>ok f'. writen io (drop k data) f1 = Some (ok, f') \<and>
        (if ok then of_bytes f' = of_bytes f @ data \<and> (data \<noteq> [] \<longrightarrow> of_pos f' = length (of_bytes f')) \<and> (data = [] \<longrightarrow> f' = f)
         else (\<exists>t bs. io_write io t bs = Fail) \<and> (\<exists>k < length data. of_bytes f' = of_bytes f @ take k data))"
        using w(1) False by auto
    next
      fix t and f1 :: OsFile assume "io_write io t data = Fail" "of_bytes f1 = of_bytes f"
      then show "\<exists>ok f'. Some (False, f1) = Some (ok, f') \<and>
        (if ok then of_bytes f' = of_bytes f @ data \<and> (data \<noteq> [] \<longrightarrow> of_pos f' = length (of_bytes f')) \<and> (data = [] \<longrightarrow> f' = f)
         else (\<exists>t bs. io_write io t bs = Fail) \<and> (\<exists>k < length data. of_bytes f' = of_bytes f @ take k data))"
        using False by auto
    qed
  qed
qed

lemma readn_progress:
  assumes "0 < n" "file_io_ok io" "io_read io (of_tick f + d) (of_rest f) n \<noteq> Again"
    and step: "\<And>k f'. \<lbrakk>0 < k; k \<le> n; k \<le> length (of_rest f); of_bytes f' = of_bytes f; of_pos f' = of_pos f + k\<rbrakk> \<Longrightarrow> P (readn io (n - k) (tmp @ take k (of_rest f)) f')"
    and eof: "\<And>f'. \<lbrakk>of_rest f = []; of_bytes f' = of_bytes f; of_pos f' = of_pos f\<rbrakk> \<Longrightarrow> P (Some (ReadEof, tmp, f'))"
    and fail: "\<And>t f'. \<lbrakk>io_read io t (of_rest f) n = Fail; of_bytes f' = of_bytes f\<rbrakk> \<Longrightarrow> P (Some (ReadFail, tmp, f'))"
  shows "P (readn io n tmp f)"
  using assms(3-)
proof (induction d arbitrary: f)
  case 0
  note step = 0(2) and eof = 0(3) and fail = 0(4)
  show ?case
  proof (cases "io_read io (of_tick f) (of_rest f) n")
    case (Written k)
    then have k: "k \<le> n" "k \<le> length (of_rest f)" "k = 0 \<longrightarrow> of_rest f = []" using assms(1,2) unfolding file_io_ok_def by fastforce+
    have "0 < k \<Longrightarrow> P (readn io (n - k) (tmp @ take k (of_rest f)) ((of_step f)\<lparr>of_pos := of_pos f + k\<rparr>))"
      using k by (intro step) simp_all
    moreover have "k = 0 \<Longrightarrow> P (Some (ReadEof, tmp, (of_step f)\<lparr>of_pos := of_pos f + k\<rparr>))" using k by (intro eof) simp_all
    ultimately show ?thesis using Written assms(1) by (subst readn.simps) (simp add: Let_def)
  next
    case Fail
    then have "P (Some (ReadFail, tmp, of_step f))" by (intro fail) simp_all
    then show ?thesis using Fail assms(1) by (subst readn.simps) simp
  qed (use 0(1) in simp)
next
  case (Suc d)
  note step = Suc.prems(2) and eof = Suc.prems(3) and fail = Suc.prems(4)
  show ?case
  proof (cases "io_read io (of_tick f) (of_rest f) n")
    case (Written k)
    then have k: "k \<le> n" "k \<le> length (of_rest f)" "k = 0 \<longrightarrow> of_rest f = []" using assms(1,2) unfolding file_io_ok_def by fastforce+
    have "0 < k \<Longrightarrow> P (readn io (n - k) (tmp @ take k (of_rest f)) ((of_step f)\<lparr>of_pos := of_pos f + k\<rparr>))"
      using k by (intro step) simp_all
    moreover have "k = 0 \<Longrightarrow> P (Some (ReadEof, tmp, (of_step f)\<lparr>of_pos := of_pos f + k\<rparr>))" using k by (intro eof) simp_all
    ultimately show ?thesis using Written assms(1) by (subst readn.simps) (simp add: Let_def)
  next
    case Again
    have "P (readn io n tmp (of_step f))" using Suc.prems(1) by (intro Suc.IH) (auto intro: step eof fail)
    then show ?thesis using Again assms(1) by (subst readn.simps) simp
  next
    case Fail
    then have "P (Some (ReadFail, tmp, of_step f))" by (intro fail) simp_all
    then show ?thesis using Fail assms(1) by (subst readn.simps) simp
  qed
qed

lemma readn_correct:
  assumes "file_io_ok io"
  shows "\<exists>r data f'. readn io n tmp f = Some (r, data, f') \<and> of_bytes f' = of_bytes f \<and>
    (case r of ReadAll \<Rightarrow> n \<le> length (of_rest f) \<and> data = tmp @ take n (of_rest f) \<and> of_pos f' = of_pos f + n
     | ReadEof \<Rightarrow> length (of_rest f) < n \<and> of_rest f' = []
     | ReadFail \<Rightarrow> \<exists>t rest m. io_read io t rest m = Fail)"
proof (induction n arbitrary: tmp f rule: less_induct)
  case (less n)
  show ?case
  proof (cases "n = 0")
    case True
    then show ?thesis by (subst readn.simps) simp
  next
    case False
    then have n: "0 < n" by simp
    obtain d where d: "io_read io (of_tick f + d) (of_rest f) n \<noteq> Again" using assms unfolding file_io_ok_def by blast
    show ?thesis
    proof (rule readn_progress [OF n assms d])
      fix k and f1 :: OsFile assume k: "0 < k" "k \<le> n" "k \<le> length (of_rest f)" "of_bytes f1 = of_bytes f" "of_pos f1 = of_pos f + k"
      have rest: "of_rest f1 = drop k (of_rest f)" using k by (simp add: of_rest_def add.commute)
      have "n - k < n" using k(1) n by simp
      from less.IH [OF this, of "tmp @ take k (of_rest f)" f1] obtain r data f' where
        r: "readn io (n - k) (tmp @ take k (of_rest f)) f1 = Some (r, data, f')" "of_bytes f' = of_bytes f1"
        "case r of ReadAll \<Rightarrow> n - k \<le> length (of_rest f1) \<and> data = (tmp @ take k (of_rest f)) @ take (n - k) (of_rest f1) \<and> of_pos f' = of_pos f1 + (n - k)
         | ReadEof \<Rightarrow> length (of_rest f1) < n - k \<and> of_rest f' = [] | ReadFail \<Rightarrow> \<exists>t rest m. io_read io t rest m = Fail" by blast
      have t: "take k (of_rest f) @ take (n - k) (drop k (of_rest f)) = take n (of_rest f)" using k(2) by (metis le_add_diff_inverse take_add)
      show "\<exists>r data f'. readn io (n - k) (tmp @ take k (of_rest f)) f1 = Some (r, data, f') \<and> of_bytes f' = of_bytes f \<and>
        (case r of ReadAll \<Rightarrow> n \<le> length (of_rest f) \<and> data = tmp @ take n (of_rest f) \<and> of_pos f' = of_pos f + n
         | ReadEof \<Rightarrow> length (of_rest f) < n \<and> of_rest f' = [] | ReadFail \<Rightarrow> \<exists>t rest m. io_read io t rest m = Fail)"
        using r k rest t by (cases r) auto
    next
      fix f1 :: OsFile assume "of_rest f = []" "of_bytes f1 = of_bytes f" "of_pos f1 = of_pos f"
      then show "\<exists>r data f'. Some (ReadEof, tmp, f1) = Some (r, data, f') \<and> of_bytes f' = of_bytes f \<and>
        (case r of ReadAll \<Rightarrow> n \<le> length (of_rest f) \<and> data = tmp @ take n (of_rest f) \<and> of_pos f' = of_pos f + n
         | ReadEof \<Rightarrow> length (of_rest f) < n \<and> of_rest f' = [] | ReadFail \<Rightarrow> \<exists>t rest m. io_read io t rest m = Fail)"
        using n by (auto simp: of_rest_def)
    next
      fix t and f1 :: OsFile assume "io_read io t (of_rest f) n = Fail" "of_bytes f1 = of_bytes f"
      then show "\<exists>r data f'. Some (ReadFail, tmp, f1) = Some (r, data, f') \<and> of_bytes f' = of_bytes f \<and>
        (case r of ReadAll \<Rightarrow> n \<le> length (of_rest f) \<and> data = tmp @ take n (of_rest f) \<and> of_pos f' = of_pos f + n
         | ReadEof \<Rightarrow> length (of_rest f) < n \<and> of_rest f' = [] | ReadFail \<Rightarrow> \<exists>t rest m. io_read io t rest m = Fail)"
        by auto
    qed
  qed
qed

subsection \<open>Properties\<close>

text \<open>Calls that move one byte at a time, every other one asking for another try.\<close>

definition file_demo_io :: OsIo where
  "file_demo_io = \<lparr>io_write = (\<lambda>t bs. if even t then Again else Written (min 1 (length bs))),
     io_read = (\<lambda>t rest n. if even t then Again else Written (min 1 (min n (length rest))))\<rparr>"

lemma file_demo_io_ok: "file_io_ok file_demo_io" "io_never_fails file_demo_io"
proof -
  have odd: "\<exists>d. odd (t + d)" for t :: nat by (rule exI [of _ "Suc t"]) simp
  then show "file_io_ok file_demo_io" by (auto simp: file_io_ok_def file_demo_io_def os_ok_def os_decides_def min_def Suc_le_eq split: if_splits)
  show "io_never_fails file_demo_io" by (simp add: io_never_fails_def file_demo_io_def)
qed

text \<open>
  Property C40: \<open>writen\<close> and \<open>readn\<close> end, however few bytes the system calls move and however often they ask for another try.
  \<open>writen\<close> then has added all of its data to the file, in order, or a call failed and a proper prefix was added. \<open>readn\<close> has
  read the next \<open>n\<close> bytes and moved on by \<open>n\<close>, or the file has fewer than \<open>n\<close> bytes left, or a call failed; the file is as before.
\<close>

theorem file_io_terminates:
  assumes "file_io_ok io"
  shows "(\<exists>ok f'. writen io data f = Some (ok, f') \<and>
      (if ok then of_bytes f' = of_bytes f @ data
       else (\<exists>t bs. io_write io t bs = Fail) \<and> (\<exists>k < length data. of_bytes f' = of_bytes f @ take k data))) \<and>
    (\<exists>r bytes f'. readn io n [] f = Some (r, bytes, f') \<and> of_bytes f' = of_bytes f \<and>
      (case r of ReadAll \<Rightarrow> n \<le> length (of_rest f) \<and> bytes = take n (of_rest f) \<and> of_pos f' = of_pos f + n
       | ReadEof \<Rightarrow> length (of_rest f) < n
       | ReadFail \<Rightarrow> \<exists>t rest m. io_read io t rest m = Fail))"
proof
  show "\<exists>ok f'. writen io data f = Some (ok, f') \<and>
      (if ok then of_bytes f' = of_bytes f @ data
       else (\<exists>t bs. io_write io t bs = Fail) \<and> (\<exists>k < length data. of_bytes f' = of_bytes f @ take k data))"
  proof -
    obtain ok f' where "writen io data f = Some (ok, f')"
      "if ok then of_bytes f' = of_bytes f @ data \<and> (data \<noteq> [] \<longrightarrow> of_pos f' = length (of_bytes f')) \<and> (data = [] \<longrightarrow> f' = f)
       else (\<exists>t bs. io_write io t bs = Fail) \<and> (\<exists>k < length data. of_bytes f' = of_bytes f @ take k data)"
      using file_writen_correct [OF assms, of data f] by blast
    then show ?thesis by (intro exI [of _ ok] exI [of _ f']) simp
  qed
  obtain r bytes f' where "readn io n [] f = Some (r, bytes, f') \<and> of_bytes f' = of_bytes f \<and>
    (case r of ReadAll \<Rightarrow> n \<le> length (of_rest f) \<and> bytes = [] @ take n (of_rest f) \<and> of_pos f' = of_pos f + n
     | ReadEof \<Rightarrow> length (of_rest f) < n \<and> of_rest f' = []
     | ReadFail \<Rightarrow> \<exists>t rest m. io_read io t rest m = Fail)" using readn_correct [OF assms, of n "[]" f] by blast
  then show "\<exists>r bytes f'. readn io n [] f = Some (r, bytes, f') \<and> of_bytes f' = of_bytes f \<and>
      (case r of ReadAll \<Rightarrow> n \<le> length (of_rest f) \<and> bytes = take n (of_rest f) \<and> of_pos f' = of_pos f + n
       | ReadEof \<Rightarrow> length (of_rest f) < n
       | ReadFail \<Rightarrow> \<exists>t rest m. io_read io t rest m = Fail)"
    by (cases r) auto
qed

theorem file_io_terminates_witness:
  "(\<exists>f'. writen file_demo_io [1, 2, 3] \<lparr>of_bytes = [7], of_pos = 0, of_tick = 0\<rparr> = Some (True, f') \<and> of_bytes f' = [7, 1, 2, 3]) \<and>
   (\<exists>f'. readn file_demo_io 2 [] \<lparr>of_bytes = [7, 8, 9], of_pos = 1, of_tick = 0\<rparr> = Some (ReadAll, [8, 9], f') \<and> of_pos f' = 3)"
proof
  show "\<exists>f'. writen file_demo_io [1, 2, 3] \<lparr>of_bytes = [7], of_pos = 0, of_tick = 0\<rparr> = Some (True, f') \<and> of_bytes f' = [7, 1, 2, 3]"
    using file_io_terminates [OF file_demo_io_ok(1), of "[1, 2, 3]" "\<lparr>of_bytes = [7], of_pos = 0, of_tick = 0\<rparr>" 0] file_demo_io_ok(2)
    by (auto simp: io_never_fails_def split: if_splits)
  let ?f = "\<lparr>of_bytes = [7, 8, 9], of_pos = 1, of_tick = 0\<rparr>"
  have rest: "of_rest ?f = [8, 9]" by (simp add: of_rest_def)
  obtain r bytes f' where r: "readn file_demo_io 2 [] ?f = Some (r, bytes, f')"
    "case r of ReadAll \<Rightarrow> 2 \<le> length (of_rest ?f) \<and> bytes = take 2 (of_rest ?f) \<and> of_pos f' = of_pos ?f + 2
     | ReadEof \<Rightarrow> length (of_rest ?f) < 2 | ReadFail \<Rightarrow> \<exists>t rest m. io_read file_demo_io t rest m = Fail"
    using conjunct2 [OF file_io_terminates [OF file_demo_io_ok(1), of "[]" ?f 2]] by blast
  then show "\<exists>f'. readn file_demo_io 2 [] \<lparr>of_bytes = [7, 8, 9], of_pos = 1, of_tick = 0\<rparr> = Some (ReadAll, [8, 9], f') \<and> of_pos f' = 3"
    using file_demo_io_ok(2) unfolding rest by (cases r) (auto simp: io_never_fails_def)
qed

end
