(* ===== verification/Clog.thy ===== *)
theory Clog
  imports FileIo TableMeta
begin

section \<open>The commit log (src/observer/storage/clog/clog.h, clog.cpp)\<close>

text \<open>
  Log records, the buffer of records that wait to be written, the log file, the iterator over a log file and the manager.
  An enumerator outside the named ones, which a cast from an integer can make, is \<open>CLOG_OTHER\<close>. The null pointer of a data
  record without data is the empty list; four bytes of padding stand between the header of a data record and its pointer.
\<close>

datatype CLogType = CLOG_ERROR | MTR_BEGIN | MTR_COMMIT | MTR_ROLLBACK | CLOG_INSERT | CLOG_DELETE | CLOG_OTHER int

fun clog_type_to_integer :: "CLogType \<Rightarrow> int" where
  "clog_type_to_integer CLOG_ERROR = 0"
| "clog_type_to_integer MTR_BEGIN = 1"
| "clog_type_to_integer MTR_COMMIT = 2"
| "clog_type_to_integer MTR_ROLLBACK = 3"
| "clog_type_to_integer CLOG_INSERT = 4"
| "clog_type_to_integer CLOG_DELETE = 5"
| "clog_type_to_integer (CLOG_OTHER v) = v"

definition clog_type_from_integer :: "int \<Rightarrow> CLogType" where
  "clog_type_from_integer value =
     (if value = 0 then CLOG_ERROR else if value = 1 then MTR_BEGIN else if value = 2 then MTR_COMMIT else if value = 3 then MTR_ROLLBACK
      else if value = 4 then CLOG_INSERT else if value = 5 then CLOG_DELETE else CLOG_OTHER value)"

record CLogRecordHeader =
  lh_lsn :: int
  lh_trx_id :: int
  lh_type :: int
  lh_logrec_len :: int

record CLogRecordData =
  ld_table_id :: int
  ld_rid :: RID
  ld_data_len :: int
  ld_data_offset :: int
  ld_padding :: "byte list"
  ld_data :: "byte list"

record CLogRecord =
  lr_header :: CLogRecordHeader
  lr_commit_xid :: int
  lr_data :: CLogRecordData

abbreviation log_type :: "CLogRecord \<Rightarrow> CLogType" where
  "log_type r \<equiv> clog_type_from_integer (lh_type (lr_header r))"

abbreviation logrec_len :: "CLogRecord \<Rightarrow> int" where
  "logrec_len r \<equiv> lh_logrec_len (lr_header r)"

text \<open>\<open>sizeof(CLogRecordData) - sizeof(data_)\<close> on a 64-bit machine.\<close>

definition CLOG_DATA_HEADER_SIZE :: nat where
  "CLOG_DATA_HEADER_SIZE = 24"

definition clog_record_new :: CLogRecord where
  "clog_record_new =
     \<lparr>lr_header = \<lparr>lh_lsn = - 1, lh_trx_id = - 1, lh_type = clog_type_to_integer CLOG_ERROR, lh_logrec_len = 0\<rparr>,
      lr_commit_xid = - 1,
      lr_data = \<lparr>ld_table_id = - 1, ld_rid = \<lparr>page_num = 0, slot_num = 0\<rparr>, ld_data_len = 0, ld_data_offset = 0, ld_padding = [0, 0, 0, 0], ld_data = []\<rparr>\<rparr>"

subsection \<open>Building records\<close>

definition build_mtr_record :: "CLogType \<Rightarrow> int \<Rightarrow> CLogRecord" where
  "build_mtr_record t trx_id =
     clog_record_new\<lparr>lr_header := (lr_header clog_record_new)\<lparr>lh_trx_id := trx_id, lh_type := clog_type_to_integer t\<rparr>\<rparr>"

definition build_commit_record :: "int \<Rightarrow> int \<Rightarrow> CLogRecord" where
  "build_commit_record trx_id commit_xid =
     clog_record_new\<lparr>lr_header := (lr_header clog_record_new)\<lparr>lh_type := clog_type_to_integer MTR_COMMIT, lh_trx_id := trx_id, lh_logrec_len := 4\<rparr>,
       lr_commit_xid := commit_xid\<rparr>"

text \<open>\<^const>\<open>None\<close>: reading past the end of \<open>data\<close>.\<close>

definition build_data_record :: "CLogType \<Rightarrow> int \<Rightarrow> int \<Rightarrow> RID \<Rightarrow> int \<Rightarrow> int \<Rightarrow> byte list \<Rightarrow> CLogRecord option" where
  "build_data_record t trx_id table_id rid data_len data_offset data =
     (if data_len > int (length data) then None
      else Some (clog_record_new\<lparr>
        lr_header := (lr_header clog_record_new)\<lparr>lh_trx_id := trx_id, lh_type := clog_type_to_integer t,
          lh_logrec_len := int CLOG_DATA_HEADER_SIZE + data_len\<rparr>,
        lr_data := (lr_data clog_record_new)\<lparr>ld_table_id := table_id, ld_rid := rid, ld_data_len := data_len, ld_data_offset := data_offset,
          ld_data := take (nat data_len) data\<rparr>\<rparr>))"

text \<open>From the bytes that follow a header. \<^const>\<open>None\<close>: a failing assertion, or reading past the end of \<open>data\<close>.\<close>

definition clog_build :: "bool \<Rightarrow> CLogRecordHeader \<Rightarrow> byte list \<Rightarrow> CLogRecord option" where
  "clog_build debug header data =
     (let r = clog_record_new\<lparr>lr_header := header\<rparr> in
      if lh_logrec_len header \<le> 0 then Some r
      else if lh_type header = clog_type_to_integer MTR_COMMIT then
        (if debug \<and> lh_logrec_len header \<noteq> 4 \<or> length data < 4 then None
         else Some (r\<lparr>lr_commit_xid := read_i32 (nth data) 0\<rparr>))
      else if length data < CLOG_DATA_HEADER_SIZE then None
      else let d = \<lparr>ld_table_id = read_i32 (nth data) 0, ld_rid = \<lparr>page_num = read_i32 (nth data) 4, slot_num = read_i32 (nth data) 8\<rparr>,
                 ld_data_len = read_i32 (nth data) 12, ld_data_offset = read_i32 (nth data) 16, ld_padding = take 4 (drop 20 data), ld_data = []\<rparr>
        in Some (r\<lparr>lr_data := (if lh_logrec_len header > int CLOG_DATA_HEADER_SIZE
             then d\<lparr>ld_data := take (nat (lh_logrec_len header) - CLOG_DATA_HEADER_SIZE) (drop CLOG_DATA_HEADER_SIZE data)\<rparr> else d)\<rparr>))"

subsection \<open>The log file\<close>

record CLogEnv =
  ce_io :: OsIo
  ce_sync :: bool
  ce_debug :: bool

record CLogFile =
  lf_file :: OsFile
  lf_eof :: bool

definition clog_write :: "CLogEnv \<Rightarrow> byte list \<Rightarrow> CLogFile \<Rightarrow> (RC \<times> CLogFile) option" where
  "clog_write env data f = do {
     (ok, file) \<leftarrow> writen (ce_io env) data (lf_file f);
     Some (if ok then SUCCESS else IOERR_WRITE, f\<lparr>lf_file := file\<rparr>)
   }"

definition clog_read :: "CLogEnv \<Rightarrow> nat \<Rightarrow> CLogFile \<Rightarrow> (RC \<times> byte list \<times> CLogFile) option" where
  "clog_read env n f = do {
     (r, data, file) \<leftarrow> readn (ce_io env) n [] (lf_file f);
     let f = f\<lparr>lf_file := file\<rparr>;
     Some (case r of ReadAll \<Rightarrow> (SUCCESS, data, f) | ReadEof \<Rightarrow> (IOERR_READ, data, f\<lparr>lf_eof := True\<rparr>) | ReadFail \<Rightarrow> (IOERR_READ, data, f))
   }"

definition clog_file_sync :: "CLogEnv \<Rightarrow> RC" where
  "clog_file_sync env = (if ce_sync env then SUCCESS else IOERR_SYNC)"

text \<open>\<open>open\<close> creates the file or finds its bytes; the position is its start.\<close>

definition clog_file_init :: "byte list option \<Rightarrow> CLogFile \<Rightarrow> RC \<times> CLogFile" where
  "clog_file_init opened f =
     (case opened of None \<Rightarrow> (IOERR_OPEN, f) | Some bytes \<Rightarrow> (SUCCESS, f\<lparr>lf_file := \<lparr>of_bytes = bytes, of_pos = 0, of_tick = 0\<rparr>\<rparr>))"

definition clog_file_offset :: "CLogFile \<Rightarrow> RC \<times> int" where
  "clog_file_offset f = (SUCCESS, int (of_pos (lf_file f)))"

subsection \<open>The buffer of log records\<close>

record CLogBuffer =
  lb_records :: "CLogRecord list"
  lb_total_size :: int

definition CLOG_BUFFER_SIZE :: int where
  "CLOG_BUFFER_SIZE = 4 * 1024 * 1024"

definition clog_buffer_new :: CLogBuffer where
  "clog_buffer_new = \<lparr>lb_records = [], lb_total_size = 0\<rparr>"

definition append_log_record :: "CLogRecord \<Rightarrow> CLogBuffer \<Rightarrow> RC \<times> CLogBuffer" where
  "append_log_record r b =
     (if cast_i32 (lb_total_size b + logrec_len r) \<ge> CLOG_BUFFER_SIZE then (LOGBUF_FULL, b)
      else (SUCCESS, b\<lparr>lb_records := lb_records b @ [r], lb_total_size := cast_i32 (lb_total_size b + logrec_len r)\<rparr>))"

text \<open>The bytes of the structures.\<close>

definition i32_bytes :: "int \<Rightarrow> byte list" where
  "i32_bytes v = (let w = word_of_int v in [byte_of_word32 0 w, byte_of_word32 1 w, byte_of_word32 2 w, byte_of_word32 3 w])"

definition clog_header_bytes :: "CLogRecordHeader \<Rightarrow> byte list" where
  "clog_header_bytes h = i32_bytes (lh_lsn h) @ i32_bytes (lh_trx_id h) @ i32_bytes (lh_type h) @ i32_bytes (lh_logrec_len h)"

definition clog_data_bytes :: "CLogRecordData \<Rightarrow> byte list" where
  "clog_data_bytes d = i32_bytes (ld_table_id d) @ i32_bytes (page_num (ld_rid d)) @ i32_bytes (slot_num (ld_rid d)) @
     i32_bytes (ld_data_len d) @ i32_bytes (ld_data_offset d) @ ld_padding d"

text \<open>\<^const>\<open>None\<close>: reading past the end of the structure or of the data.\<close>

definition write_log_record :: "CLogEnv \<Rightarrow> CLogRecord \<Rightarrow> CLogFile \<Rightarrow> (RC \<times> CLogFile) option" where
  "write_log_record env r f = do {
     (rc, f) \<leftarrow> clog_write env (clog_header_bytes (lr_header r)) f;
     if rc \<noteq> SUCCESS then Some (rc, f)
     else case log_type r of
       MTR_BEGIN \<Rightarrow> Some (rc, f)
     | MTR_ROLLBACK \<Rightarrow> Some (rc, f)
     | MTR_COMMIT \<Rightarrow> if logrec_len r > 4 then None else clog_write env (take (nat (logrec_len r)) (i32_bytes (lr_commit_xid r))) f
     | _ \<Rightarrow> do {
         (rc, f) \<leftarrow> clog_write env (clog_data_bytes (lr_data r)) f;
         if rc \<noteq> SUCCESS then Some (rc, f)
         else if ld_data_len (lr_data r) > int (length (ld_data (lr_data r))) then None
         else clog_write env (take (nat (ld_data_len (lr_data r))) (ld_data (lr_data r))) f
       }
   }"

text \<open>The loop of \<open>flush_buffer\<close>; a record that cannot be written fails the assertion of the debug build and is lost otherwise.\<close>

fun flush_records :: "CLogEnv \<Rightarrow> CLogRecord list \<Rightarrow> int \<Rightarrow> CLogFile \<Rightarrow> (int \<times> CLogFile) option" where
  "flush_records env [] ts f = Some (ts, f)"
| "flush_records env (r # rs) ts f = do {
     (rc, f) \<leftarrow> write_log_record env r f;
     if rc \<noteq> SUCCESS \<and> ce_debug env then None
     else flush_records env rs (cast_i32 (ts - logrec_len r)) f
   }"

definition flush_buffer :: "CLogEnv \<Rightarrow> CLogBuffer \<Rightarrow> CLogFile \<Rightarrow> (RC \<times> CLogBuffer \<times> CLogFile) option" where
  "flush_buffer env b f = do {
     (ts, f) \<leftarrow> flush_records env (lb_records b) (lb_total_size b) f;
     Some (clog_file_sync env, \<lparr>lb_records = [], lb_total_size = ts\<rparr>, f)
   }"

subsection \<open>Iterating over a log file\<close>

text \<open>\<open>next\<close>: the code, the record (\<^const>\<open>None\<close> the null pointer, so \<open>valid\<close> is false) and the file.\<close>

definition clog_iter_next :: "CLogEnv \<Rightarrow> CLogFile \<Rightarrow> (RC \<times> CLogRecord option \<times> CLogFile) option" where
  "clog_iter_next env f = do {
     (rc, h, f) \<leftarrow> clog_read env 16 f;
     if rc \<noteq> SUCCESS then Some (if lf_eof f then RECORD_EOF else rc, None, f)
     else do {
       let header = \<lparr>lh_lsn = read_i32 (nth h) 0, lh_trx_id = read_i32 (nth h) 4, lh_type = read_i32 (nth h) 8, lh_logrec_len = read_i32 (nth h) 12\<rparr>;
       (rc, data, f) \<leftarrow> (if lh_logrec_len header > 0 then clog_read env (nat (lh_logrec_len header)) f else Some (SUCCESS, [], f));
       if rc \<noteq> SUCCESS then Some (rc, None, f)
       else do { r \<leftarrow> clog_build (ce_debug env) header data; Some (rc, Some r, f) }
     }
   }"

subsection \<open>The log manager\<close>

record CLogManager =
  lm_buffer :: CLogBuffer
  lm_file :: CLogFile

definition clog_manager_init :: "byte list option \<Rightarrow> CLogManager \<Rightarrow> RC \<times> CLogManager" where
  "clog_manager_init opened lm =
     (case clog_file_init opened \<lparr>lf_file = \<lparr>of_bytes = [], of_pos = 0, of_tick = 0\<rparr>, lf_eof = False\<rparr> of
        (rc, f) \<Rightarrow> (rc, \<lparr>lm_buffer = clog_buffer_new, lm_file = f\<rparr>))"

definition append_log :: "CLogRecord \<Rightarrow> CLogManager \<Rightarrow> RC \<times> CLogManager" where
  "append_log r lm = (case append_log_record r (lm_buffer lm) of (rc, b) \<Rightarrow> (rc, lm\<lparr>lm_buffer := b\<rparr>))"

definition append_data_log :: "CLogType \<Rightarrow> int \<Rightarrow> int \<Rightarrow> RID \<Rightarrow> int \<Rightarrow> int \<Rightarrow> byte list \<Rightarrow> CLogManager \<Rightarrow> (RC \<times> CLogManager) option" where
  "append_data_log t trx_id table_id rid data_len data_offset data lm =
     map_option (\<lambda>r. append_log r lm) (build_data_record t trx_id table_id rid data_len data_offset data)"

definition clog_sync :: "CLogEnv \<Rightarrow> CLogManager \<Rightarrow> (RC \<times> CLogManager) option" where
  "clog_sync env lm = do {
     (rc, b, f) \<leftarrow> flush_buffer env (lm_buffer lm) (lm_file lm);
     Some (rc, \<lparr>lm_buffer = b, lm_file = f\<rparr>)
   }"

definition begin_trx :: "int \<Rightarrow> CLogManager \<Rightarrow> RC \<times> CLogManager" where
  "begin_trx trx_id lm = append_log (build_mtr_record MTR_BEGIN trx_id) lm"

definition commit_trx :: "CLogEnv \<Rightarrow> int \<Rightarrow> int \<Rightarrow> CLogManager \<Rightarrow> (RC \<times> CLogManager) option" where
  "commit_trx env trx_id commit_xid lm =
     (case append_log (build_commit_record trx_id commit_xid) lm of (rc, lm) \<Rightarrow>
        if rc \<noteq> SUCCESS then Some (rc, lm) else clog_sync env lm)"

definition rollback_trx :: "int \<Rightarrow> CLogManager \<Rightarrow> RC \<times> CLogManager" where
  "rollback_trx trx_id lm = append_log (build_mtr_record MTR_ROLLBACK trx_id) lm"

subsection \<open>Records and their bytes\<close>

definition clog_encode :: "CLogRecord \<Rightarrow> byte list" where
  "clog_encode r = clog_header_bytes (lr_header r) @
     (case log_type r of
        MTR_BEGIN \<Rightarrow> [] | MTR_ROLLBACK \<Rightarrow> []
      | MTR_COMMIT \<Rightarrow> i32_bytes (lr_commit_xid r)
      | _ \<Rightarrow> clog_data_bytes (lr_data r) @ ld_data (lr_data r))"

text \<open>The records the manager makes: the lengths agree, and what a kind of record does not use has its initial value.\<close>

definition clog_wf :: "CLogRecord \<Rightarrow> bool" where
  "clog_wf r \<longleftrightarrow> fits_i32 (lh_lsn (lr_header r)) \<and> fits_i32 (lh_trx_id (lr_header r)) \<and> fits_i32 (lh_type (lr_header r)) \<and> fits_i32 (logrec_len r) \<and>
     (case log_type r of
        MTR_BEGIN \<Rightarrow> logrec_len r = 0 \<and> lr_commit_xid r = - 1 \<and> lr_data r = lr_data clog_record_new
      | MTR_ROLLBACK \<Rightarrow> logrec_len r = 0 \<and> lr_commit_xid r = - 1 \<and> lr_data r = lr_data clog_record_new
      | MTR_COMMIT \<Rightarrow> logrec_len r = 4 \<and> fits_i32 (lr_commit_xid r) \<and> lr_data r = lr_data clog_record_new
      | _ \<Rightarrow> lr_commit_xid r = - 1 \<and> logrec_len r = int CLOG_DATA_HEADER_SIZE + int (length (ld_data (lr_data r))) \<and>
          fits_i32 (ld_table_id (lr_data r)) \<and> fits_i32 (page_num (ld_rid (lr_data r))) \<and> fits_i32 (slot_num (ld_rid (lr_data r))) \<and>
          ld_data_len (lr_data r) = int (length (ld_data (lr_data r))) \<and> fits_i32 (ld_data_offset (lr_data r)) \<and> length (ld_padding (lr_data r)) = 4)"

lemma length_i32_bytes [simp]: "length (i32_bytes v) = 4"
  by (simp add: i32_bytes_def Let_def)

lemma length_header_bytes [simp]: "length (clog_header_bytes h) = 16"
  by (simp add: clog_header_bytes_def)

lemma length_data_bytes: "length (ld_padding d) = 4 \<Longrightarrow> length (clog_data_bytes d) = 24"
  by (simp add: clog_data_bytes_def)

lemma read_i32_append: "off + 4 \<le> length xs \<Longrightarrow> read_i32 (nth (xs @ ys)) off = read_i32 (nth xs) off"
  by (rule read_i32_cong) (simp add: nth_append)

lemma read_i32_skip: "read_i32 (nth (xs @ ys)) (length xs + off) = read_i32 (nth ys) off"
  by (simp add: read_i32_def read_w32_def nth_append)

lemma read_i32_bytes [simp]: "fits_i32 v \<Longrightarrow> read_i32 (nth (i32_bytes v @ ys)) 0 = v"
  by (simp add: i32_bytes_def Let_def read_i32_def read_w32_def word32_of_bytes_inverse [simplified] sint_word_of_int_fits)

lemma read_i32_next [simp]: "4 \<le> off \<Longrightarrow> read_i32 (nth (i32_bytes v @ ys)) off = read_i32 (nth ys) (off - 4)"
  using read_i32_skip [of "i32_bytes v" ys "off - 4"] by simp

lemma read_header_bytes:
  assumes "fits_i32 (lh_lsn h)" "fits_i32 (lh_trx_id h)" "fits_i32 (lh_type h)" "fits_i32 (lh_logrec_len h)"
  shows "read_i32 (nth (clog_header_bytes h)) 0 = lh_lsn h" "read_i32 (nth (clog_header_bytes h)) 4 = lh_trx_id h"
    "read_i32 (nth (clog_header_bytes h)) 8 = lh_type h" "read_i32 (nth (clog_header_bytes h)) 12 = lh_logrec_len h"
  using assms read_i32_bytes [of "lh_logrec_len h" "[]"] by (simp_all add: clog_header_bytes_def)

lemma read_data_bytes:
  assumes "fits_i32 (ld_table_id d)" "fits_i32 (page_num (ld_rid d))" "fits_i32 (slot_num (ld_rid d))" "fits_i32 (ld_data_len d)"
    "fits_i32 (ld_data_offset d)" "length (ld_padding d) = 4"
  shows "read_i32 (nth (clog_data_bytes d @ xs)) 0 = ld_table_id d" "read_i32 (nth (clog_data_bytes d @ xs)) 4 = page_num (ld_rid d)"
    "read_i32 (nth (clog_data_bytes d @ xs)) 8 = slot_num (ld_rid d)" "read_i32 (nth (clog_data_bytes d @ xs)) 12 = ld_data_len d"
    "read_i32 (nth (clog_data_bytes d @ xs)) 16 = ld_data_offset d" "take 4 (drop 20 (clog_data_bytes d @ xs)) = ld_padding d"
  using assms by (simp_all add: clog_data_bytes_def)

lemma type_commit: "clog_type_from_integer t = MTR_COMMIT \<longleftrightarrow> t = 2"
  by (simp add: clog_type_from_integer_def)

text \<open>What follows the header of a record, read back.\<close>

definition clog_body :: "CLogRecord \<Rightarrow> byte list" where
  "clog_body r = drop 16 (clog_encode r)"

lemma clog_encode_body: "clog_encode r = clog_header_bytes (lr_header r) @ clog_body r"
  by (simp add: clog_body_def clog_encode_def)

lemma length_body: "clog_wf r \<Longrightarrow> int (length (clog_body r)) = logrec_len r"
  by (cases "log_type r") (simp_all add: clog_body_def clog_encode_def clog_wf_def length_data_bytes CLOG_DATA_HEADER_SIZE_def)

lemma build_data:
  assumes wf: "clog_wf r" and t: "log_type r \<noteq> MTR_BEGIN" "log_type r \<noteq> MTR_ROLLBACK" "log_type r \<noteq> MTR_COMMIT"
  shows "clog_build debug (lr_header r) (clog_data_bytes (lr_data r) @ ld_data (lr_data r)) = Some r"
proof -
  let ?d = "lr_data r" and ?h = "lr_header r"
  have w: "lr_commit_xid r = - 1" "logrec_len r = 24 + int (length (ld_data ?d))" "fits_i32 (ld_table_id ?d)" "fits_i32 (page_num (ld_rid ?d))"
    "fits_i32 (slot_num (ld_rid ?d))" "ld_data_len ?d = int (length (ld_data ?d))" "fits_i32 (ld_data_offset ?d)" "length (ld_padding ?d) = 4"
    using wf t by (cases "log_type r"; simp add: clog_wf_def CLOG_DATA_HEADER_SIZE_def)+
  have "fits_i32 (logrec_len r)" using wf by (simp add: clog_wf_def)
  then have "fits_i32 (ld_data_len ?d)" using w(2,6) by (simp add: fits_i32_def)
  note rd = read_data_bytes [OF w(3,4,5) this w(7,8), of "ld_data ?d"]
  have len: "length (clog_data_bytes ?d) = 24" by (rule length_data_bytes [OF w(8)])
  have ty: "lh_type ?h \<noteq> clog_type_to_integer MTR_COMMIT" using t(3) type_commit by simp
  have take: "take (nat (logrec_len r) - 24) (drop 24 (clog_data_bytes ?d @ ld_data ?d)) = ld_data ?d" using w(2) len by simp
  have rid: "\<lparr>page_num = page_num (ld_rid ?d), slot_num = slot_num (ld_rid ?d)\<rparr> = ld_rid ?d" by simp
  show ?thesis
    unfolding clog_build_def Let_def rd CLOG_DATA_HEADER_SIZE_def take rid
    using w(1,2) len ty by (cases r; cases ?d) (auto simp: clog_record_new_def)
qed

lemma build_body:
  assumes "clog_wf r"
  shows "clog_build debug (lr_header r) (clog_body r) = Some r"
proof -
  consider "log_type r = MTR_BEGIN \<or> log_type r = MTR_ROLLBACK" | "log_type r = MTR_COMMIT"
    | "log_type r \<noteq> MTR_BEGIN" "log_type r \<noteq> MTR_ROLLBACK" "log_type r \<noteq> MTR_COMMIT" by blast
  then show ?thesis
  proof cases
    case 1
    then have "logrec_len r = 0 \<and> lr_commit_xid r = - 1 \<and> lr_data r = lr_data clog_record_new"
      using assms by (cases "log_type r") (simp_all add: clog_wf_def)
    then show ?thesis by (cases r) (simp add: clog_build_def clog_record_new_def)
  next
    case 2
    then have "logrec_len r = 4" "fits_i32 (lr_commit_xid r)" "lr_data r = lr_data clog_record_new" "clog_body r = i32_bytes (lr_commit_xid r)"
      using assms by (simp_all add: clog_wf_def clog_body_def clog_encode_def)
    moreover have "lh_type (lr_header r) = 2" using 2 type_commit by simp
    ultimately show ?thesis using read_i32_bytes [of "lr_commit_xid r" "[]"] by (cases r) (simp add: clog_build_def clog_record_new_def)
  next
    case 3
    then have "clog_body r = clog_data_bytes (lr_data r) @ ld_data (lr_data r)"
      by (cases "log_type r") (simp_all add: clog_body_def clog_encode_def)
    then show ?thesis using build_data [OF assms 3] by simp
  qed
qed

subsection \<open>Writing and reading the log\<close>

definition clog_env_ok :: "CLogEnv \<Rightarrow> bool" where
  "clog_env_ok env \<longleftrightarrow> file_io_ok (ce_io env) \<and> io_never_fails (ce_io env)"

abbreviation clog_bytes :: "CLogFile \<Rightarrow> byte list" where
  "clog_bytes f \<equiv> of_bytes (lf_file f)"

abbreviation clog_rest :: "CLogFile \<Rightarrow> byte list" where
  "clog_rest f \<equiv> of_rest (lf_file f)"

lemma clog_write_correct:
  assumes "clog_env_ok env"
  shows "\<exists>f'. clog_write env data f = Some (SUCCESS, f') \<and> clog_bytes f' = clog_bytes f @ data \<and> lf_eof f' = lf_eof f"
proof -
  obtain ok g where w: "writen (ce_io env) data (lf_file f) = Some (ok, g)"
    "if ok then of_bytes g = clog_bytes f @ data \<and> (data \<noteq> [] \<longrightarrow> of_pos g = length (of_bytes g)) \<and> (data = [] \<longrightarrow> g = lf_file f)
     else (\<exists>t bs. io_write (ce_io env) t bs = Fail) \<and> (\<exists>k < length data. of_bytes g = clog_bytes f @ take k data)"
    using file_writen_correct [of "ce_io env" data "lf_file f"] assms unfolding clog_env_ok_def by blast
  moreover have ok using w(2) assms by (auto simp: clog_env_ok_def io_never_fails_def split: if_splits)
  ultimately show ?thesis by (simp add: clog_write_def)
qed

lemma clog_read_correct:
  assumes "clog_env_ok env"
  shows "\<exists>rc data f'. clog_read env n f = Some (rc, data, f') \<and> clog_bytes f' = clog_bytes f \<and>
    (if n \<le> length (clog_rest f) then rc = SUCCESS \<and> data = take n (clog_rest f) \<and> clog_rest f' = drop n (clog_rest f) \<and> lf_eof f' = lf_eof f
     else rc = IOERR_READ \<and> lf_eof f')"
proof -
  obtain r data g where r: "readn (ce_io env) n [] (lf_file f) = Some (r, data, g)" "of_bytes g = clog_bytes f"
    "case r of ReadAll \<Rightarrow> n \<le> length (clog_rest f) \<and> data = [] @ take n (clog_rest f) \<and> of_pos g = of_pos (lf_file f) + n
     | ReadEof \<Rightarrow> length (clog_rest f) < n \<and> of_rest g = [] | ReadFail \<Rightarrow> \<exists>t rest m. io_read (ce_io env) t rest m = Fail"
    using readn_correct [of "ce_io env" n "[]" "lf_file f"] assms unfolding clog_env_ok_def by blast
  show ?thesis
  proof (cases r)
    case ReadAll
    then have "of_rest g = drop n (clog_rest f)" using r by (simp add: of_rest_def add.commute)
    then show ?thesis using r ReadAll by (simp add: clog_read_def)
  qed (use r assms in \<open>auto simp: clog_read_def clog_env_ok_def io_never_fails_def\<close>)
qed

lemma write_log_record_correct:
  assumes env: "clog_env_ok env" and wf: "clog_wf r"
  shows "\<exists>f'. write_log_record env r f = Some (SUCCESS, f') \<and> clog_bytes f' = clog_bytes f @ clog_encode r \<and> lf_eof f' = lf_eof f"
proof -
  note w = clog_write_correct [OF env]
  obtain f1 where f1: "clog_write env (clog_header_bytes (lr_header r)) f = Some (SUCCESS, f1)"
    "clog_bytes f1 = clog_bytes f @ clog_header_bytes (lr_header r)" "lf_eof f1 = lf_eof f" using w by blast
  show ?thesis
  proof (cases "log_type r \<in> {MTR_BEGIN, MTR_ROLLBACK}")
    case True
    then show ?thesis using f1 by (auto simp: write_log_record_def clog_encode_def)
  next
    case nobody: False
    show ?thesis
    proof (cases "log_type r = MTR_COMMIT")
      case True
      then have len: "logrec_len r = 4" using wf by (simp add: clog_wf_def)
      obtain f2 where "clog_write env (i32_bytes (lr_commit_xid r)) f1 = Some (SUCCESS, f2)" "clog_bytes f2 = clog_bytes f1 @ i32_bytes (lr_commit_xid r)"
        "lf_eof f2 = lf_eof f1" using w by blast
      then show ?thesis using f1 True len by (simp add: write_log_record_def clog_encode_def)
    next
      case False
      let ?d = "lr_data r"
      have len: "ld_data_len ?d = int (length (ld_data ?d))" using wf False nobody by (cases "log_type r") (simp_all add: clog_wf_def)
      obtain f2 where f2: "clog_write env (clog_data_bytes ?d) f1 = Some (SUCCESS, f2)" "clog_bytes f2 = clog_bytes f1 @ clog_data_bytes ?d"
        "lf_eof f2 = lf_eof f1" using w by blast
      obtain f3 where f3: "clog_write env (ld_data ?d) f2 = Some (SUCCESS, f3)" "clog_bytes f3 = clog_bytes f2 @ ld_data ?d" "lf_eof f3 = lf_eof f2"
        using w by blast
      show ?thesis using f1 f2 f3 False nobody len by (cases "log_type r") (simp_all add: write_log_record_def clog_encode_def)
    qed
  qed
qed

definition records_len :: "CLogRecord list \<Rightarrow> int" where
  "records_len rs = sum_list (map logrec_len rs)"

lemma wf_logrec_len: "clog_wf r \<Longrightarrow> 0 \<le> logrec_len r"
  using length_body [of r] by simp

lemma records_len_simps [simp]: "records_len [] = 0" "records_len (r # rs) = logrec_len r + records_len rs"
  "records_len (rs @ rs') = records_len rs + records_len rs'"
  by (simp_all add: records_len_def)

lemma records_len_pos: "\<forall>r \<in> set rs. clog_wf r \<Longrightarrow> 0 \<le> records_len rs"
  by (induction rs) (simp_all add: wf_logrec_len)

lemma flush_records_correct:
  "\<lbrakk>clog_env_ok env; \<forall>r \<in> set rs. clog_wf r; fits_i32 (n + records_len rs); 0 \<le> n\<rbrakk> \<Longrightarrow>
   \<exists>f'. flush_records env rs (n + records_len rs) f = Some (n, f') \<and> clog_bytes f' = clog_bytes f @ concat (map clog_encode rs) \<and> lf_eof f' = lf_eof f"
proof (induction rs arbitrary: f)
  case (Cons r rs)
  obtain f1 where f1: "write_log_record env r f = Some (SUCCESS, f1)" "clog_bytes f1 = clog_bytes f @ clog_encode r" "lf_eof f1 = lf_eof f"
    using write_log_record_correct [of env r f] Cons.prems by auto
  have pos: "0 \<le> logrec_len r" "0 \<le> records_len rs" using Cons.prems(2) by (simp_all add: wf_logrec_len records_len_pos)
  then have fits: "fits_i32 (n + records_len rs)" using Cons.prems(3,4) by (simp add: fits_i32_def)
  then have "cast_i32 (n + (logrec_len r + records_len rs) - logrec_len r) = n + records_len rs" by (simp add: cast_i32_fits)
  moreover obtain f' where "flush_records env rs (n + records_len rs) f1 = Some (n, f')" "clog_bytes f' = clog_bytes f1 @ concat (map clog_encode rs)"
    "lf_eof f' = lf_eof f1" using Cons.IH [of f1] Cons.prems fits by auto
  ultimately show ?case using f1 by simp
qed simp

text \<open>The buffer keeps count of what it holds.\<close>

definition clog_buffer_ok :: "CLogBuffer \<Rightarrow> bool" where
  "clog_buffer_ok b \<longleftrightarrow> (\<forall>r \<in> set (lb_records b). clog_wf r) \<and> lb_total_size b = records_len (lb_records b) \<and> lb_total_size b < CLOG_BUFFER_SIZE"

lemma append_log_record_correct:
  assumes "clog_buffer_ok b" "clog_wf r" "logrec_len r < 2 ^ 30"
  shows "\<exists>rc b'. append_log_record r b = (rc, b') \<and> clog_buffer_ok b' \<and>
    (if lb_total_size b + logrec_len r < CLOG_BUFFER_SIZE then rc = SUCCESS \<and> lb_records b' = lb_records b @ [r] else rc = LOGBUF_FULL \<and> b' = b)"
proof -
  have "0 \<le> lb_total_size b" "0 \<le> logrec_len r" "lb_total_size b < CLOG_BUFFER_SIZE"
    using assms by (auto simp: clog_buffer_ok_def records_len_pos wf_logrec_len)
  then have "cast_i32 (lb_total_size b + logrec_len r) = lb_total_size b + logrec_len r"
    using assms(3) by (intro cast_i32_fits) (simp add: fits_i32_def CLOG_BUFFER_SIZE_def)
  then show ?thesis using assms by (auto simp: append_log_record_def clog_buffer_ok_def)
qed

lemma flush_buffer_correct:
  assumes "clog_env_ok env" "clog_buffer_ok b"
  shows "\<exists>f'. flush_buffer env b f = Some (clog_file_sync env, clog_buffer_new, f') \<and>
    clog_bytes f' = clog_bytes f @ concat (map clog_encode (lb_records b)) \<and> lf_eof f' = lf_eof f"
proof -
  have "0 \<le> lb_total_size b" "lb_total_size b < CLOG_BUFFER_SIZE" using assms(2) by (auto simp: clog_buffer_ok_def records_len_pos)
  then have "fits_i32 (0 + records_len (lb_records b))" using assms(2) by (simp add: clog_buffer_ok_def fits_i32_def CLOG_BUFFER_SIZE_def)
  from flush_records_correct [OF assms(1) _ this, of f] obtain f' where
    "flush_records env (lb_records b) (lb_total_size b) f = Some (0, f')" "clog_bytes f' = clog_bytes f @ concat (map clog_encode (lb_records b))"
    "lf_eof f' = lf_eof f" using assms(2) by (auto simp: clog_buffer_ok_def)
  then show ?thesis by (simp add: flush_buffer_def clog_buffer_new_def)
qed

lemma iter_next_record:
  assumes env: "clog_env_ok env" and wf: "clog_wf r" and rest: "clog_rest f = clog_encode r @ bs"
  shows "\<exists>f'. clog_iter_next env f = Some (SUCCESS, Some r, f') \<and> clog_rest f' = bs \<and> clog_bytes f' = clog_bytes f \<and> lf_eof f' = lf_eof f"
proof -
  let ?h = "clog_header_bytes (lr_header r)"
  have rest': "clog_rest f = ?h @ clog_body r @ bs" using rest by (simp add: clog_encode_body)
  obtain f1 where f1: "clog_read env 16 f = Some (SUCCESS, ?h, f1)" "clog_rest f1 = clog_body r @ bs" "clog_bytes f1 = clog_bytes f" "lf_eof f1 = lf_eof f"
    using clog_read_correct [OF env, of 16 f] rest' by auto
  have "fits_i32 (lh_lsn (lr_header r))" "fits_i32 (lh_trx_id (lr_header r))" "fits_i32 (lh_type (lr_header r))" "fits_i32 (logrec_len r)"
    using wf by (simp_all add: clog_wf_def)
  note hd = read_header_bytes [OF this]
  have hdr: "\<lparr>lh_lsn = lh_lsn (lr_header r), lh_trx_id = lh_trx_id (lr_header r), lh_type = lh_type (lr_header r), lh_logrec_len = logrec_len r\<rparr> = lr_header r"
    by simp
  have len: "int (length (clog_body r)) = logrec_len r" by (rule length_body [OF wf])
  obtain f2 where f2: "(if logrec_len r > 0 then clog_read env (nat (logrec_len r)) f1 else Some (SUCCESS, [], f1)) = Some (SUCCESS, clog_body r, f2)"
    "clog_rest f2 = bs" "clog_bytes f2 = clog_bytes f" "lf_eof f2 = lf_eof f"
  proof (cases "logrec_len r > 0")
    case True
    have n: "nat (logrec_len r) = length (clog_body r)" using len by simp
    obtain f2 where "clog_read env (nat (logrec_len r)) f1 = Some (SUCCESS, clog_body r, f2)" "clog_rest f2 = bs" "clog_bytes f2 = clog_bytes f1" "lf_eof f2 = lf_eof f1"
      using clog_read_correct [OF env, of "nat (logrec_len r)" f1] f1(2) unfolding n by auto
    then show thesis using that True f1 by simp
  next
    case False
    then have "length (clog_body r) = 0" using len by linarith
    then have "clog_body r = []" by simp
    then show thesis using that [of f1] False f1 by simp
  qed
  show ?thesis using f1 f2 build_body [OF wf, of "ce_debug env"] by (simp add: clog_iter_next_def hd hdr)
qed

lemma iter_next_end:
  assumes "clog_env_ok env" "length (clog_rest f) < 16"
  shows "\<exists>f'. clog_iter_next env f = Some (RECORD_EOF, None, f') \<and> clog_bytes f' = clog_bytes f"
  using clog_read_correct [OF assms(1), of 16 f] assms(2) by (auto simp: clog_iter_next_def)

text \<open>A record whose end is missing.\<close>

lemma iter_next_torn:
  assumes env: "clog_env_ok env" and wf: "clog_wf r" and rest: "clog_rest f = take n (clog_encode r)" "16 \<le> n" "n < length (clog_encode r)"
  shows "\<exists>f'. clog_iter_next env f = Some (IOERR_READ, None, f') \<and> clog_bytes f' = clog_bytes f"
proof -
  let ?h = "clog_header_bytes (lr_header r)"
  have rest': "clog_rest f = ?h @ take (n - 16) (clog_body r)" using rest(1,2) by (simp add: clog_encode_body)
  obtain f1 where f1: "clog_read env 16 f = Some (SUCCESS, ?h, f1)" "clog_rest f1 = take (n - 16) (clog_body r)" "clog_bytes f1 = clog_bytes f"
    using clog_read_correct [OF env, of 16 f] rest' by auto
  have "fits_i32 (lh_lsn (lr_header r))" "fits_i32 (lh_trx_id (lr_header r))" "fits_i32 (lh_type (lr_header r))" "fits_i32 (logrec_len r)"
    using wf by (simp_all add: clog_wf_def)
  note hd = read_header_bytes [OF this]
  have "n - 16 < length (clog_body r)" using rest(2,3) by (simp add: clog_encode_body)
  then have len: "length (clog_rest f1) < nat (logrec_len r)" "0 < logrec_len r" using length_body [OF wf] f1(2) by auto
  obtain data f2 where "clog_read env (nat (logrec_len r)) f1 = Some (IOERR_READ, data, f2)" "clog_bytes f2 = clog_bytes f1"
    using clog_read_correct [OF env, of "nat (logrec_len r)" f1] len(1) by (auto simp: not_le [symmetric])
  then show ?thesis using f1 len(2) by (simp add: clog_iter_next_def hd)
qed

text \<open>The loop over the log that recovery makes, without the redoing; the fuel bounds the calls of \<open>next\<close>.\<close>

fun clog_scan :: "CLogEnv \<Rightarrow> nat \<Rightarrow> CLogFile \<Rightarrow> (RC \<times> CLogRecord list \<times> CLogFile) option" where
  "clog_scan env 0 f = None"
| "clog_scan env (Suc n) f = do {
     (rc, r, f) \<leftarrow> clog_iter_next env f;
     case r of
       None \<Rightarrow> Some (rc, [], f)
     | Some r \<Rightarrow> do { (rc, rs, f) \<leftarrow> clog_scan env n f; Some (rc, r # rs, f) }
   }"

lemma clog_scan_correct:
  "\<lbrakk>clog_env_ok env; \<forall>r \<in> set rs. clog_wf r; clog_rest f = concat (map clog_encode rs); length rs < n\<rbrakk> \<Longrightarrow>
   \<exists>f'. clog_scan env n f = Some (RECORD_EOF, rs, f')"
proof (induction rs arbitrary: f n)
  case Nil
  then obtain m where "n = Suc m" by (cases n) auto
  then show ?case using iter_next_end [OF Nil(1), of f] Nil(3) by auto
next
  case (Cons r rs)
  then obtain m where m: "n = Suc m" "length rs < m" by (cases n) auto
  obtain f1 where f1: "clog_iter_next env f = Some (SUCCESS, Some r, f1)" "clog_rest f1 = concat (map clog_encode rs)"
    using iter_next_record [OF Cons.prems(1), of r f "concat (map clog_encode rs)"] Cons.prems by auto
  then show ?case using Cons.IH [OF Cons.prems(1) _ f1(2) m(2)] Cons.prems(2) m(1) by auto
qed

text \<open>The manager makes well-formed records.\<close>

lemma build_mtr_wf: "t \<in> {MTR_BEGIN, MTR_ROLLBACK} \<Longrightarrow> fits_i32 trx_id \<Longrightarrow> clog_wf (build_mtr_record t trx_id) \<and> logrec_len (build_mtr_record t trx_id) = 0"
  by (auto simp: clog_wf_def build_mtr_record_def clog_record_new_def clog_type_from_integer_def fits_i32_def)

lemma build_commit_wf:
  "fits_i32 trx_id \<Longrightarrow> fits_i32 xid \<Longrightarrow> clog_wf (build_commit_record trx_id xid) \<and> logrec_len (build_commit_record trx_id xid) = 4"
  by (simp add: clog_wf_def build_commit_record_def clog_record_new_def clog_type_from_integer_def fits_i32_def)

lemma build_data_wf:
  assumes "t \<in> {CLOG_INSERT, CLOG_DELETE}" "fits_i32 trx_id" "fits_i32 table_id" "fits_i32 (page_num rid)" "fits_i32 (slot_num rid)"
    "fits_i32 off" "0 \<le> n" "n \<le> int (length data)" "n < 2 ^ 30 - 24"
  shows "\<exists>r. build_data_record t trx_id table_id rid n off data = Some r \<and> clog_wf r \<and> logrec_len r = 24 + n"
  using assms by (auto simp: build_data_record_def clog_wf_def clog_record_new_def clog_type_from_integer_def fits_i32_def CLOG_DATA_HEADER_SIZE_def)

subsection \<open>Properties\<close>

text \<open>
  Property C17: what goes into the log comes out of it. \<open>flush_buffer\<close> adds the records that wait, in order, to the log file and
  leaves the buffer empty, its size zero; and reading the file from where it ended before, \<open>next\<close> gives exactly these records, every field as it
  was, and then \<open>RECORD_EOF\<close>. The system calls may move the bytes in any pieces.
\<close>

theorem log_roundtrip:
  assumes "clog_env_ok env" "clog_buffer_ok b"
  shows "\<exists>f'. flush_buffer env b f = Some (clog_file_sync env, clog_buffer_new, f') \<and>
    (\<forall>g. clog_bytes g = clog_bytes f' \<and> of_pos (lf_file g) = length (clog_bytes f) \<longrightarrow>
      (\<exists>g'. clog_scan env (Suc (length (lb_records b))) g = Some (RECORD_EOF, lb_records b, g')))"
proof -
  obtain f' where f': "flush_buffer env b f = Some (clog_file_sync env, clog_buffer_new, f')"
    "clog_bytes f' = clog_bytes f @ concat (map clog_encode (lb_records b))" using flush_buffer_correct [OF assms, of f] by blast
  have "\<exists>g'. clog_scan env (Suc (length (lb_records b))) g = Some (RECORD_EOF, lb_records b, g')"
    if "clog_bytes g = clog_bytes f'" "of_pos (lf_file g) = length (clog_bytes f)" for g
    using that f'(2) assms by (intro clog_scan_correct) (auto simp: clog_buffer_ok_def of_rest_def)
  then show ?thesis using f'(1) by blast
qed

definition demo_clog_env :: CLogEnv where
  "demo_clog_env = \<lparr>ce_io = file_demo_io, ce_sync = True, ce_debug = True\<rparr>"

lemma demo_clog_env_ok: "clog_env_ok demo_clog_env"
  using file_demo_io_ok by (simp add: clog_env_ok_def demo_clog_env_def)

definition demo_log :: "CLogRecord list" where
  "demo_log = [build_mtr_record MTR_BEGIN 7,
     the (build_data_record CLOG_INSERT 7 3 \<lparr>page_num = 1, slot_num = 4\<rparr> 3 0 [65, 66, 67]),
     build_commit_record 7 9]"

lemma demo_log_ok: "\<forall>r \<in> set demo_log. clog_wf r" "records_len demo_log = 31"
proof -
  obtain r where r: "build_data_record CLOG_INSERT 7 3 \<lparr>page_num = 1, slot_num = 4\<rparr> 3 0 [65, 66, 67] = Some r" "clog_wf r" "logrec_len r = 27"
    using build_data_wf [of CLOG_INSERT 7 3 "\<lparr>page_num = 1, slot_num = 4\<rparr>" 0 3 "[65, 66, 67]"] by (auto simp: fits_i32_def)
  then show "\<forall>r \<in> set demo_log. clog_wf r" "records_len demo_log = 31"
    using build_mtr_wf [of MTR_BEGIN 7] build_commit_wf [of 7 9] by (auto simp: demo_log_def fits_i32_def)
qed

theorem log_roundtrip_witness:
  "\<exists>f' g'. flush_buffer demo_clog_env \<lparr>lb_records = demo_log, lb_total_size = 31\<rparr> \<lparr>lf_file = \<lparr>of_bytes = [], of_pos = 0, of_tick = 0\<rparr>, lf_eof = False\<rparr> =
     Some (SUCCESS, clog_buffer_new, f') \<and>
     clog_scan demo_clog_env 4 (f'\<lparr>lf_file := (lf_file f')\<lparr>of_pos := 0\<rparr>\<rparr>) = Some (RECORD_EOF, demo_log, g')"
proof -
  let ?b = "\<lparr>lb_records = demo_log, lb_total_size = 31\<rparr>" and ?f = "\<lparr>lf_file = \<lparr>of_bytes = [], of_pos = 0, of_tick = 0\<rparr>, lf_eof = False\<rparr>"
  have "clog_buffer_ok ?b" using demo_log_ok by (simp add: clog_buffer_ok_def CLOG_BUFFER_SIZE_def)
  from log_roundtrip [OF demo_clog_env_ok this, of ?f] obtain f' where
    f': "flush_buffer demo_clog_env ?b ?f = Some (clog_file_sync demo_clog_env, clog_buffer_new, f')"
    "\<And>g. clog_bytes g = clog_bytes f' \<Longrightarrow> of_pos (lf_file g) = 0 \<Longrightarrow> \<exists>g'. clog_scan demo_clog_env (Suc (length demo_log)) g = Some (RECORD_EOF, demo_log, g')"
    by auto
  have "Suc (length demo_log) = 4" by (simp add: demo_log_def)
  then have "\<exists>g'. clog_scan demo_clog_env 4 (f'\<lparr>lf_file := (lf_file f')\<lparr>of_pos := 0\<rparr>\<rparr>) = Some (RECORD_EOF, demo_log, g')"
    using f'(2) [of "f'\<lparr>lf_file := (lf_file f')\<lparr>of_pos := 0\<rparr>\<rparr>"] by simp
  moreover have "clog_file_sync demo_clog_env = SUCCESS" by (simp add: clog_file_sync_def demo_clog_env_def)
  ultimately show ?thesis using f'(1) by auto
qed

text \<open>
  Property C18: a log that ends in the middle of a record. If the file breaks off inside the header of a record, the iterator takes this for the
  end of the log and gives \<open>RECORD_EOF\<close>; if it breaks off after the header, \<open>next\<close> fails with \<open>IOERR_READ\<close>. In no case is a record made of the rest.
\<close>

theorem log_torn_tail:
  assumes "clog_env_ok env" "clog_wf r" "clog_rest f = take n (clog_encode r)" "n < length (clog_encode r)"
  shows "\<exists>f'. clog_iter_next env f = Some (if n < 16 then RECORD_EOF else IOERR_READ, None, f')"
proof (cases "n < 16")
  case True
  then show ?thesis using iter_next_end [OF assms(1), of f] assms(3,4) by auto
next
  case False
  then show ?thesis using iter_next_torn [OF assms(1-3) _ assms(4)] by auto
qed

theorem log_torn_tail_witness:
  "\<exists>f'. clog_iter_next demo_clog_env \<lparr>lf_file = \<lparr>of_bytes = take 18 (clog_encode (build_commit_record 7 9)), of_pos = 0, of_tick = 0\<rparr>, lf_eof = False\<rparr> =
     Some (IOERR_READ, None, f')"
proof -
  have wf: "clog_wf (build_commit_record 7 9)" "logrec_len (build_commit_record 7 9) = 4" using build_commit_wf [of 7 9] by (auto simp: fits_i32_def)
  then have "length (clog_encode (build_commit_record 7 9)) = 20" using length_body [OF wf(1)] by (simp add: clog_encode_body)
  then show ?thesis
    using log_torn_tail [OF demo_clog_env_ok wf(1), of "\<lparr>lf_file = \<lparr>of_bytes = take 18 (clog_encode (build_commit_record 7 9)), of_pos = 0, of_tick = 0\<rparr>, lf_eof = False\<rparr>" 18]
    by (simp add: of_rest_def)
qed

end
