(* ===== verification/Mvcc.thy ===== *)
theory Mvcc
  imports Table Clog
begin

section \<open>Transactions (src/observer/storage/trx, recovery in src/observer/storage/clog/clog.cpp)\<close>

text \<open>
  A transaction is reached by a handle, the pointer of the code; \<open>ms_store\<close> holds the objects, \<open>ms_trxes\<close> the list of the kit. A table is
  reached by its id. The set of operations of a transaction is hashed, so the order of an iteration over it is not fixed: it is the
  parameter \<open>me_order\<close>. With \<open>ce_debug\<close> the assertions are those of a debug build and a failing one is \<^const>\<open>None\<close>; without it they do nothing.
\<close>

subsection \<open>Operations (trx.h)\<close>

datatype OperationType = OP_INSERT | OP_UPDATE | OP_DELETE | OP_UNDEFINED

record Operation =
  op_type :: OperationType
  op_table :: int
  op_page_num :: int
  op_slot_num :: int

abbreviation op_rid :: "Operation \<Rightarrow> RID" where
  "op_rid op \<equiv> \<lparr>page_num = op_page_num op, slot_num = op_slot_num op\<rparr>"

definition operation_new :: "OperationType \<Rightarrow> int \<Rightarrow> RID \<Rightarrow> Operation" where
  "operation_new t table rid = \<lparr>op_type = t, op_table = table, op_page_num = page_num rid, op_slot_num = slot_num rid\<rparr>"

definition operation_equal :: "Operation \<Rightarrow> Operation \<Rightarrow> bool" where
  "operation_equal op1 op2 \<longleftrightarrow> op_table op1 = op_table op2 \<and> op_page_num op1 = op_page_num op2 \<and> op_slot_num op1 = op_slot_num op2"

text \<open>\<open>insert\<close> into the set: whether the operation was added.\<close>

definition operations_insert :: "Operation \<Rightarrow> Operation list \<Rightarrow> bool \<times> Operation list" where
  "operations_insert op ops = (if list_ex (operation_equal op) ops then (False, ops) else (True, ops @ [op]))"

subsection \<open>The kit and its transactions (mvcc_trx.h)\<close>

record MvccTrx =
  mt_id :: int
  mt_started :: bool
  mt_recovering :: bool
  mt_ops :: "Operation list"

record MvccEnv =
  me_table :: TableEnv
  me_clog :: CLogEnv
  me_order :: "Operation list \<Rightarrow> Operation list"

abbreviation me_debug :: "MvccEnv \<Rightarrow> bool" where
  "me_debug env \<equiv> ce_debug (me_clog env)"

record MvccState =
  ms_current :: int
  ms_store :: "nat \<Rightarrow> MvccTrx option"
  ms_trxes :: "nat list"
  ms_tables :: "int \<Rightarrow> Table option"
  ms_log :: CLogManager

definition xid_begin_name :: name where
  "xid_begin_name = [95, 95, 116, 114, 120, 95, 120, 105, 100, 95, 98, 101, 103, 105, 110]"

definition xid_end_name :: name where
  "xid_end_name = [95, 95, 116, 114, 120, 95, 120, 105, 100, 95, 101, 110, 100]"

text \<open>\<open>init\<close>: the two fields every table starts with.\<close>

definition mvcc_kit_fields :: "FieldMeta list option" where
  "mvcc_kit_fields = do {
     b \<leftarrow> field_make xid_begin_name INTS 0 4 False False;
     e \<leftarrow> field_make xid_end_name INTS 0 4 False False;
     Some [b, e]
   }"

definition next_trx_id :: "MvccState \<Rightarrow> int \<times> MvccState" where
  "next_trx_id st = (let c = cast_i32 (ms_current st + 1) in (c, st\<lparr>ms_current := c\<rparr>))"

definition max_trx_id :: int where
  "max_trx_id = 2 ^ 31 - 1"

definition neg_i32 :: "int \<Rightarrow> int" where
  "neg_i32 v = cast_i32 (- v)"

text \<open>\<open>h\<close> is the pointer that \<open>new\<close> returns.\<close>

definition create_trx :: "nat \<Rightarrow> MvccState \<Rightarrow> MvccState" where
  "create_trx h st = st\<lparr>ms_store := (ms_store st)(h \<mapsto> \<lparr>mt_id = - 1, mt_started = False, mt_recovering = False, mt_ops = []\<rparr>), ms_trxes := ms_trxes st @ [h]\<rparr>"

definition create_trx_with_id :: "nat \<Rightarrow> int \<Rightarrow> MvccState \<Rightarrow> MvccState" where
  "create_trx_with_id h trx_id st =
     st\<lparr>ms_store := (ms_store st)(h \<mapsto> \<lparr>mt_id = trx_id, mt_started = True, mt_recovering = True, mt_ops = []\<rparr>), ms_trxes := ms_trxes st @ [h],
        ms_current := (if ms_current st < trx_id then trx_id else ms_current st)\<rparr>"

definition destroy_trx :: "nat \<Rightarrow> MvccState \<Rightarrow> MvccState" where
  "destroy_trx h st = st\<lparr>ms_trxes := remove1 h (ms_trxes st), ms_store := (ms_store st)(h := None)\<rparr>"

definition find_trx :: "int \<Rightarrow> MvccState \<Rightarrow> nat option" where
  "find_trx trx_id st = find (\<lambda>h. case ms_store st h of None \<Rightarrow> False | Some t \<Rightarrow> mt_id t = trx_id) (ms_trxes st)"

subsection \<open>Rows under version control (mvcc_trx.cpp)\<close>

definition trx_fields :: "MvccEnv \<Rightarrow> Table \<Rightarrow> (FieldMeta \<times> FieldMeta) option" where
  "trx_fields env tb =
     (if sys_field_num (te_kit (me_table env)) < 2 \<or> length (tm_fields (tb_meta tb)) < 2 then None
      else Some (tm_fields (tb_meta tb) ! 0, tm_fields (tb_meta tb) ! 1))"

abbreviation me_get :: "MvccEnv \<Rightarrow> FieldMeta \<Rightarrow> byte list \<Rightarrow> int" where
  "me_get env \<equiv> field_get_int (te_io (me_table env))"

text \<open>A field of a record in its page.\<close>

definition stored_get :: "MvccEnv \<Rightarrow> FieldMeta \<Rightarrow> Record \<Rightarrow> mem \<Rightarrow> int" where
  "stored_get env f r m = me_get env f (mem_slice m (rec_data r) (nat (fm_offset f) + nat (fm_len f)))"

definition stored_set :: "FieldMeta \<Rightarrow> int \<Rightarrow> Record \<Rightarrow> mem \<Rightarrow> mem option" where
  "stored_set f v r m = (if fm_type f = INTS \<and> fm_len f = 4 then Some (write_i32 m (rec_data r + nat (fm_offset f)) v) else None)"

text \<open>The updaters that the transaction hands to the table: the assertion, then the new value.\<close>

definition xid_updater :: "MvccEnv \<Rightarrow> FieldMeta \<Rightarrow> int \<Rightarrow> int \<Rightarrow> Record \<Rightarrow> mem \<Rightarrow> (unit \<times> mem) option" where
  "xid_updater env f expected v r m =
     (if me_debug env \<and> stored_get env f r m \<noteq> expected then None else map_option (Pair ()) (stored_set f v r m))"

definition set_ops :: "nat \<Rightarrow> MvccTrx \<Rightarrow> Operation list \<Rightarrow> MvccState \<Rightarrow> MvccState" where
  "set_ops h t ops st = st\<lparr>ms_store := (ms_store st)(h \<mapsto> t\<lparr>mt_ops := ops\<rparr>)\<rparr>"

text \<open>The record is the user's bytes; the result carries the bytes with the transaction's fields and the identifier the table gave.\<close>

definition mvcc_insert_record :: "MvccEnv \<Rightarrow> nat \<Rightarrow> int \<Rightarrow> byte list \<Rightarrow> MvccState \<Rightarrow> (RC \<times> (byte list \<times> RID option) \<times> MvccState) option" where
  "mvcc_insert_record env h tid record st = do {
     t \<leftarrow> ms_store st h;
     tb \<leftarrow> ms_tables st tid;
     (begin_field, end_field) \<leftarrow> trx_fields env tb;
     record \<leftarrow> field_set_int begin_field (neg_i32 (mt_id t)) record;
     record \<leftarrow> field_set_int end_field max_trx_id record;
     (rc, rid, tb) \<leftarrow> insert_record (me_table env) record tb;
     let st = st\<lparr>ms_tables := (ms_tables st)(tid \<mapsto> tb)\<rparr>;
     if rc \<noteq> SUCCESS then Some (rc, (record, rid), st)
     else do {
       r \<leftarrow> rid;
       (rc, lm) \<leftarrow> append_data_log CLOG_INSERT (mt_id t) (tm_table_id (tb_meta tb)) r (int (length record)) 0 record (ms_log st);
       let st = st\<lparr>ms_log := lm\<rparr>;
       if me_debug env \<and> rc \<noteq> SUCCESS then None
       else case operations_insert (operation_new OP_INSERT tid r) (mt_ops t) of (added, ops) \<Rightarrow>
         Some (if added then rc else INTERNAL, (record, rid), set_ops h t ops st)
     }
   }"

text \<open>
  \<open>alias\<close>: the record the caller hands over points into the page, as the records of a scan do. Then \<open>set_int\<close> on the record has
  changed the page before the updater looks at it.
\<close>

definition mvcc_delete_record :: "MvccEnv \<Rightarrow> nat \<Rightarrow> int \<Rightarrow> bool \<Rightarrow> byte list \<Rightarrow> RID \<Rightarrow> MvccState \<Rightarrow> (RC \<times> MvccState) option" where
  "mvcc_delete_record env h tid alias record rid st = do {
     t \<leftarrow> ms_store st h;
     tb \<leftarrow> ms_tables st tid;
     (begin_field, end_field) \<leftarrow> trx_fields env tb;
     let end_xid = me_get env end_field record;
     if me_debug env \<and> end_xid \<le> 0 then None
     else if end_xid \<noteq> max_trx_id then Some (SUCCESS, st)
     else do {
       let v = neg_i32 (mt_id t);
       (rc, _, tb) \<leftarrow> visit_record (me_table env) rid False
         (\<lambda>r m. if me_debug env \<and> (if alias then v else stored_get env end_field r m) \<noteq> max_trx_id then None
           else map_option (Pair ()) (stored_set end_field v r m)) tb;
       let st = st\<lparr>ms_tables := (ms_tables st)(tid \<mapsto> tb)\<rparr>;
       if rc \<noteq> SUCCESS then Some (rc, st)
       else do {
         (rc, lm) \<leftarrow> append_data_log CLOG_DELETE (mt_id t) (tm_table_id (tb_meta tb)) rid 0 0 [] (ms_log st);
         let st = st\<lparr>ms_log := lm\<rparr>;
         if me_debug env \<and> rc \<noteq> SUCCESS then None
         else Some (SUCCESS, set_ops h t (snd (operations_insert (operation_new OP_DELETE tid rid) (mt_ops t))) st)
       }
     }
   }"

definition mvcc_visible :: "int \<Rightarrow> int \<Rightarrow> int \<Rightarrow> bool \<Rightarrow> RC" where
  "mvcc_visible trx_id begin_xid end_xid readonly =
     (if begin_xid > 0 \<and> end_xid > 0 then (if trx_id \<ge> begin_xid \<and> trx_id \<le> end_xid then SUCCESS else RECORD_INVISIBLE)
      else if begin_xid < 0 then (if neg_i32 begin_xid = trx_id then SUCCESS else RECORD_INVISIBLE)
      else if end_xid < 0 then
        (if readonly then (if neg_i32 end_xid \<noteq> trx_id then SUCCESS else RECORD_INVISIBLE)
         else if neg_i32 end_xid \<noteq> trx_id then LOCKED_CONCURRENCY_CONFLICT else RECORD_INVISIBLE)
      else SUCCESS)"

definition mvcc_visit_record :: "MvccEnv \<Rightarrow> nat \<Rightarrow> int \<Rightarrow> byte list \<Rightarrow> bool \<Rightarrow> MvccState \<Rightarrow> RC option" where
  "mvcc_visit_record env h tid record readonly st = do {
     t \<leftarrow> ms_store st h;
     tb \<leftarrow> ms_tables st tid;
     (begin_field, end_field) \<leftarrow> trx_fields env tb;
     Some (mvcc_visible (mt_id t) (me_get env begin_field record) (me_get env end_field record) readonly)
   }"

definition start_if_need :: "MvccEnv \<Rightarrow> nat \<Rightarrow> MvccState \<Rightarrow> (RC \<times> MvccState) option" where
  "start_if_need env h st = do {
     t \<leftarrow> ms_store st h;
     if mt_started t then Some (SUCCESS, st)
     else if me_debug env \<and> mt_ops t \<noteq> [] then None
     else case next_trx_id st of (new_id, st) \<Rightarrow>
       case begin_trx new_id (ms_log st) of (rc, lm) \<Rightarrow>
         if me_debug env \<and> rc \<noteq> SUCCESS then None
         else Some (SUCCESS, st\<lparr>ms_store := (ms_store st)(h \<mapsto> t\<lparr>mt_id := new_id, mt_started := True\<rparr>), ms_log := lm\<rparr>)
   }"

subsection \<open>Commit and rollback\<close>

definition update_row :: "MvccEnv \<Rightarrow> Operation \<Rightarrow> FieldMeta \<Rightarrow> int \<Rightarrow> int \<Rightarrow> Table \<Rightarrow> (RC \<times> Table) option" where
  "update_row env op f expected v tb = do {
     (rc, _, tb) \<leftarrow> visit_record (me_table env) (op_rid op) False (xid_updater env f expected v) tb;
     if me_debug env \<and> rc \<noteq> SUCCESS then None else Some (rc, tb)
   }"

definition commit_op :: "MvccEnv \<Rightarrow> MvccTrx \<Rightarrow> int \<Rightarrow> Operation \<Rightarrow> RC \<Rightarrow> Table \<Rightarrow> (RC \<times> Table) option" where
  "commit_op env t commit_xid op rc tb =
     (case op_type op of
        OP_INSERT \<Rightarrow> do {
          (begin_field, end_field) \<leftarrow> trx_fields env tb;
          update_row env op begin_field (neg_i32 (mt_id t)) commit_xid tb }
      | OP_DELETE \<Rightarrow> do {
          (begin_field, end_field) \<leftarrow> trx_fields env tb;
          update_row env op end_field (neg_i32 (mt_id t)) commit_xid tb }
      | _ \<Rightarrow> if me_debug env then None else Some (rc, tb))"

definition rollback_op :: "MvccEnv \<Rightarrow> MvccTrx \<Rightarrow> Operation \<Rightarrow> RC \<Rightarrow> Table \<Rightarrow> (RC \<times> Table) option" where
  "rollback_op env t op rc tb =
     (case op_type op of
        OP_INSERT \<Rightarrow> do {
          (rc, record, tb) \<leftarrow> get_record (me_table env) (op_rid op) tb;
          if me_debug env \<and> rc \<noteq> SUCCESS then None
          else do {
            (data, rid) \<leftarrow> record;
            (rc, tb) \<leftarrow> delete_record (me_table env) data rid tb;
            if me_debug env \<and> rc \<noteq> SUCCESS then None else Some (rc, tb)
          } }
      | OP_DELETE \<Rightarrow>
          (if me_debug env \<and> rc \<noteq> SUCCESS then None
           else do {
             (begin_field, end_field) \<leftarrow> trx_fields env tb;
             update_row env op end_field (neg_i32 (mt_id t)) max_trx_id tb })
      | _ \<Rightarrow> if me_debug env then None else Some (rc, tb))"

text \<open>The loop over the operations, each on its table.\<close>

fun ops_loop :: "(Operation \<Rightarrow> RC \<Rightarrow> Table \<Rightarrow> (RC \<times> Table) option) \<Rightarrow> Operation list \<Rightarrow> RC \<Rightarrow> (int \<Rightarrow> Table option) \<Rightarrow> (RC \<times> (int \<Rightarrow> Table option)) option" where
  "ops_loop step [] rc tables = Some (rc, tables)"
| "ops_loop step (op # ops) rc tables = do {
     tb \<leftarrow> tables (op_table op);
     (rc, tb) \<leftarrow> step op rc tb;
     ops_loop step ops rc (tables(op_table op \<mapsto> tb))
   }"

definition end_trx :: "nat \<Rightarrow> MvccTrx \<Rightarrow> (int \<Rightarrow> Table option) \<Rightarrow> MvccState \<Rightarrow> MvccState" where
  "end_trx h t tables st = st\<lparr>ms_tables := tables, ms_store := (ms_store st)(h \<mapsto> t\<lparr>mt_started := False, mt_ops := []\<rparr>)\<rparr>"

definition commit_with_trx_id :: "MvccEnv \<Rightarrow> int \<Rightarrow> nat \<Rightarrow> MvccState \<Rightarrow> (RC \<times> MvccState) option" where
  "commit_with_trx_id env commit_xid h st = do {
     t \<leftarrow> ms_store st h;
     (rc, tables) \<leftarrow> ops_loop (commit_op env t commit_xid) (me_order env (mt_ops t)) SUCCESS (ms_tables st);
     let st = end_trx h t tables st;
     if mt_recovering t then Some (rc, st)
     else do {
       (rc, lm) \<leftarrow> commit_trx (me_clog env) (mt_id t) commit_xid (ms_log st);
       Some (rc, st\<lparr>ms_log := lm\<rparr>)
     }
   }"

definition mvcc_commit :: "MvccEnv \<Rightarrow> nat \<Rightarrow> MvccState \<Rightarrow> (RC \<times> MvccState) option" where
  "mvcc_commit env h st = (case next_trx_id st of (commit_id, st) \<Rightarrow> commit_with_trx_id env commit_id h st)"

definition mvcc_rollback :: "MvccEnv \<Rightarrow> nat \<Rightarrow> MvccState \<Rightarrow> (RC \<times> MvccState) option" where
  "mvcc_rollback env h st = do {
     t \<leftarrow> ms_store st h;
     (rc, tables) \<leftarrow> ops_loop (rollback_op env t) (me_order env (mt_ops t)) SUCCESS (ms_tables st);
     let st = end_trx h t tables st;
     if mt_recovering t then Some (rc, st)
     else case rollback_trx (mt_id t) (ms_log st) of (rc, lm) \<Rightarrow> Some (rc, st\<lparr>ms_log := lm\<rparr>)
   }"

subsection \<open>Redoing the log\<close>

definition find_table :: "CLogRecord \<Rightarrow> MvccState \<Rightarrow> RC" where
  "find_table r st =
     (if log_type r \<in> {CLOG_INSERT, CLOG_DELETE} \<and> ms_tables st (ld_table_id (lr_data r)) = None then SCHEMA_TABLE_NOT_EXIST else SUCCESS)"

definition mvcc_redo :: "MvccEnv \<Rightarrow> nat \<Rightarrow> CLogRecord \<Rightarrow> MvccState \<Rightarrow> (RC \<times> MvccState) option" where
  "mvcc_redo env h r st =
     (let d = lr_data r; tid = ld_table_id d; rc = find_table r st in
      if rc \<noteq> SUCCESS then Some (rc, st)
      else case log_type r of
        CLOG_INSERT \<Rightarrow> do {
          t \<leftarrow> ms_store st h;
          tb \<leftarrow> ms_tables st tid;
          (rc, tb) \<leftarrow> recover_insert_record (me_table env) (ld_data d) (ld_rid d) tb;
          let st = st\<lparr>ms_tables := (ms_tables st)(tid \<mapsto> tb)\<rparr>;
          if rc \<noteq> SUCCESS then Some (rc, st)
          else Some (SUCCESS, set_ops h t (snd (operations_insert (operation_new OP_INSERT tid (ld_rid d)) (mt_ops t))) st) }
      | CLOG_DELETE \<Rightarrow> do {
          t \<leftarrow> ms_store st h;
          tb \<leftarrow> ms_tables st tid;
          (begin_field, end_field) \<leftarrow> trx_fields env tb;
          (rc, _, tb) \<leftarrow> visit_record (me_table env) (ld_rid d) False (xid_updater env end_field max_trx_id (neg_i32 (mt_id t))) tb;
          if me_debug env \<and> rc \<noteq> SUCCESS then None
          else Some (SUCCESS, set_ops h t (snd (operations_insert (operation_new OP_DELETE tid (ld_rid d)) (mt_ops t)))
            (st\<lparr>ms_tables := (ms_tables st)(tid \<mapsto> tb)\<rparr>)) }
      | MTR_COMMIT \<Rightarrow> do { (rc, st) \<leftarrow> commit_with_trx_id env (lr_commit_xid r) h st; Some (SUCCESS, st) }
      | MTR_ROLLBACK \<Rightarrow> do { (rc, st) \<leftarrow> mvcc_rollback env h st; Some (SUCCESS, st) }
      | _ \<Rightarrow> if me_debug env then None else Some (INTERNAL, st))"

text \<open>\<open>CLogManager::recover\<close>: the transactions still open when the log ends are rolled back, and every transaction is destroyed.\<close>

fun rollback_all :: "MvccEnv \<Rightarrow> nat list \<Rightarrow> MvccState \<Rightarrow> MvccState option" where
  "rollback_all env [] st = Some st"
| "rollback_all env (h # hs) st = do {
     (rc, st) \<leftarrow> mvcc_rollback env h st;
     rollback_all env hs (destroy_trx h st)
   }"

text \<open>One record; \<open>h\<close> is the pointer that \<open>new\<close> would return. Data without a transaction fails an assertion or uses a null pointer.\<close>

definition recover_record :: "MvccEnv \<Rightarrow> nat \<Rightarrow> CLogRecord \<Rightarrow> MvccState \<Rightarrow> (RC \<times> MvccState) option" where
  "recover_record env h r st =
     (case log_type r of
        MTR_BEGIN \<Rightarrow> Some (SUCCESS, create_trx_with_id h (lh_trx_id (lr_header r)) st)
      | t \<Rightarrow> (case find_trx (lh_trx_id (lr_header r)) st of
          None \<Rightarrow> if t \<in> {MTR_COMMIT, MTR_ROLLBACK} then Some (INTERNAL, st) else None
        | Some h \<Rightarrow> mvcc_redo env h r st))"

text \<open>The fuel bounds the calls of \<open>next\<close>, and is where the pointers come from.\<close>

fun recover_loop :: "MvccEnv \<Rightarrow> nat \<Rightarrow> MvccState \<Rightarrow> (RC \<times> MvccState) option" where
  "recover_loop env 0 st = None"
| "recover_loop env (Suc n) st = do {
     (rc, r, f) \<leftarrow> clog_iter_next (me_clog env) (lm_file (ms_log st));
     let st = st\<lparr>ms_log := (ms_log st)\<lparr>lm_file := f\<rparr>\<rparr>;
     case r of
       None \<Rightarrow> Some (rc, st)
     | Some r \<Rightarrow> do {
         (rc, st) \<leftarrow> recover_record env n r st;
         if rc \<noteq> SUCCESS then Some (rc, st) else recover_loop env n st
       }
   }"

definition recover :: "MvccEnv \<Rightarrow> nat \<Rightarrow> MvccState \<Rightarrow> (RC \<times> MvccState) option" where
  "recover env n st = do {
     (rc, st) \<leftarrow> recover_loop env n st;
     if rc \<noteq> RECORD_EOF then Some (rc, st)
     else do {
       st \<leftarrow> rollback_all env (ms_trxes st) st;
       Some (SUCCESS, st)
     }
   }"

subsection \<open>The transactions that do nothing (vacuous_trx.cpp) and the choice of a kit (trx.cpp)\<close>

definition vacuous_insert_record :: "TableEnv \<Rightarrow> byte list \<Rightarrow> Table \<Rightarrow> (RC \<times> RID option \<times> Table) option" where
  "vacuous_insert_record = insert_record"

definition vacuous_delete_record :: "TableEnv \<Rightarrow> byte list \<Rightarrow> RID \<Rightarrow> Table \<Rightarrow> (RC \<times> Table) option" where
  "vacuous_delete_record = delete_record"

definition vacuous_visit_record :: "byte list \<Rightarrow> bool \<Rightarrow> RC" where
  "vacuous_visit_record record readonly = SUCCESS"

datatype TrxKitType = VACUOUS | MVCC

definition lower :: "byte \<Rightarrow> byte" where
  "lower b = (if 65 \<le> b \<and> b \<le> 90 then b + 32 else b)"

definition trx_kit_create :: "name \<Rightarrow> TrxKitType option" where
  "trx_kit_create name =
     (if is_blank name \<or> map lower (c_str name) = [118, 97, 99, 117, 111, 117, 115] then Some VACUOUS
      else if map lower (c_str name) = [109, 118, 99, 99] then Some MVCC
      else None)"

end
