(* ===== verification/MvccContract.thy ===== *)
theory MvccContract
  imports Mvcc TableContract
begin

section \<open>What the transactions promise\<close>

text \<open>
  A row carries two transaction numbers, \<open>row_begin\<close> and \<open>row_end\<close>. A negative one is the mark of a transaction that has not ended.
  The transaction's set of operations names the rows that carry its marks; ending the transaction replaces the marks.
\<close>

subsection \<open>The numbers of a row\<close>

definition row_begin :: "byte list \<Rightarrow> int" where
  "row_begin d = read_i32 (nth d) 0"

definition row_end :: "byte list \<Rightarrow> int" where
  "row_end d = read_i32 (nth d) 4"

lemma length_put_i32 [simp]: "length (put_i32 d off v) = length d"
  by (simp add: put_i32_def)

lemma nth_put_i32: "i < length d \<Longrightarrow> put_i32 d off v ! i = write_i32 (nth d) off v i"
  by (simp add: put_i32_def mem_slice_def)

lemma read_put_same: "off + 4 \<le> length d \<Longrightarrow> fits_i32 v \<Longrightarrow> read_i32 (nth (put_i32 d off v)) off = v"
proof -
  assume a: "off + 4 \<le> length d" "fits_i32 v"
  have "read_i32 (nth (put_i32 d off v)) off = read_i32 (write_i32 (nth d) off v) off"
    using a(1) by (intro read_i32_cong) (simp add: nth_put_i32)
  then show ?thesis using a(2) by simp
qed

lemma read_put_other: "off' + 4 \<le> length d \<Longrightarrow> off + 4 \<le> off' \<or> off' + 4 \<le> off \<Longrightarrow> read_i32 (nth (put_i32 d off v)) off' = read_i32 (nth d) off'"
proof -
  assume a: "off' + 4 \<le> length d" "off + 4 \<le> off' \<or> off' + 4 \<le> off"
  have "read_i32 (nth (put_i32 d off v)) off' = read_i32 (write_i32 (nth d) off v) off'"
    using a(1) by (intro read_i32_cong) (simp add: nth_put_i32)
  then show ?thesis using a(2) by auto
qed

lemma row_put [simp]:
  assumes "8 \<le> length d" "fits_i32 v"
  shows "row_begin (put_i32 d 0 v) = v" "row_end (put_i32 d 0 v) = row_end d" "row_begin (put_i32 d 4 v) = row_begin d" "row_end (put_i32 d 4 v) = v"
  using assms by (simp_all add: row_begin_def row_end_def read_put_same read_put_other)

lemma fits_row [simp]: "fits_i32 (row_begin d)" "fits_i32 (row_end d)"
  by (simp_all add: row_begin_def row_end_def)

lemma put_i32_drop: "off + 4 \<le> n \<Longrightarrow> drop n (put_i32 d off v) = drop n d"
  by (rule nth_equalityI) (auto simp: nth_put_i32)

lemma nth_beyond: "length xs \<le> k \<Longrightarrow> xs ! k = [] ! (k - length xs)"
  by (induction xs arbitrary: k) (auto simp: nth_Cons split: nat.splits)

lemma put_i32_nth: "off + 4 \<le> k \<Longrightarrow> put_i32 d off v ! k = d ! k"
proof (cases "k < length d")
  case False
  then show "off + 4 \<le> k \<Longrightarrow> put_i32 d off v ! k = d ! k" using nth_beyond [of "put_i32 d off v" k] nth_beyond [of d k] by simp
qed (simp add: nth_put_i32)

subsection \<open>Tables under version control\<close>

definition xid_field :: "FieldMeta \<Rightarrow> int \<Rightarrow> bool" where
  "xid_field f off \<longleftrightarrow> fm_type f = INTS \<and> fm_offset f = off \<and> fm_len f = 4"

definition mvcc_env_ok :: "MvccEnv \<Rightarrow> bool" where
  "mvcc_env_ok env \<longleftrightarrow> env_ok (me_table env) \<and> sys_field_num (te_kit (me_table env)) = 2 \<and> clog_env_ok (me_clog env) \<and>
     (\<forall>ops. distinct ops \<longrightarrow> set (me_order env ops) = set ops \<and> distinct (me_order env ops))"

definition mvcc_meta :: "Table \<Rightarrow> bool" where
  "mvcc_meta tb \<longleftrightarrow> 2 \<le> length (tm_fields (tb_meta tb)) \<and> xid_field (tm_fields (tb_meta tb) ! 0) 0 \<and> xid_field (tm_fields (tb_meta tb) ! 1) 4 \<and>
     8 \<le> tm_record_size (tb_meta tb) \<and> fits_i32 (tm_table_id (tb_meta tb)) \<and>
     (\<forall>i \<in> set (tb_indexes tb). (\<forall>f \<in> set (bi_fields i). 8 \<le> fm_offset f) \<and>
        (\<forall>n \<in> set (im_field_names (bi_meta i)). \<forall>f. find_field n (tb_meta tb) = Some f \<and> fm_nullable f \<longrightarrow> 8 \<le> fm_offset f))"

definition mvcc_table :: "Table \<Rightarrow> bool" where
  "mvcc_table tb \<longleftrightarrow> tb_ok tb \<and> mvcc_meta tb"

lemma trx_fields_ok:
  assumes "mvcc_env_ok env" "mvcc_meta tb"
  shows "trx_fields env tb = Some (tm_fields (tb_meta tb) ! 0, tm_fields (tb_meta tb) ! 1)"
  using assms by (simp add: trx_fields_def mvcc_env_ok_def mvcc_meta_def)

lemma get_xid:
  assumes "xid_field f (int off)" "off \<le> length d"
  shows "field_get_int io f d = read_i32 (nth d) off"
proof -
  have "field_get_int io f d = read_i32 (nth (drop off d)) 0"
    using assms(1) by (simp add: field_get_int_def xid_field_def value_of_data_def value_set_data_def get_int_def read_i32_def)
  then show ?thesis using assms(2) by (simp add: read_i32_def read_w32_def)
qed

lemma row_length: "tb_ok tb \<Longrightarrow> tb_rows tb r = Some d \<Longrightarrow> length d = nat (tm_record_size (tb_meta tb))"
proof -
  assume a: "tb_ok tb" "tb_rows tb r = Some d"
  have f: "rf_ok (tm_record_size (tb_meta tb)) (tb_handler tb)" "rf_content (tb_handler tb) r = Some d" using tb_okD(1) [OF a(1)] a(2) by (simp_all add: tb_rows_def)
  show "length d = nat (tm_record_size (tb_meta tb))"
    by (rule rf_content_page [OF f]) (auto simp: page_recs_def split: if_splits)
qed

lemma row_length8: "mvcc_table tb \<Longrightarrow> tb_rows tb r = Some d \<Longrightarrow> 8 \<le> length d"
  using row_length [of tb r d] by (auto simp: mvcc_table_def mvcc_meta_def le_nat_iff)

text \<open>A change of a number of the row is a change in place that no index sees.\<close>

lemma set_visits:
  assumes f: "xid_field f (int off)" "off + 4 \<le> n" "length d = n"
    and u: "\<And>r m. rec_rid r = rid \<Longrightarrow> mem_slice m (rec_data r) n = d \<Longrightarrow> visitor r m = Some ((), write_i32 m (rec_data r + off) v)"
  shows "visits n visitor rid d () (put_i32 d off v)"
proof -
  have "(\<forall>i. i < rec_data r \<or> rec_data r + n \<le> i \<longrightarrow> write_i32 m (rec_data r + off) v i = m i) \<and>
      mem_slice (write_i32 m (rec_data r + off) v) (rec_data r) n = put_i32 d off v" if d: "mem_slice m (rec_data r) n = d" for r :: Record and m
  proof (intro conjI allI impI)
    fix i assume "i < rec_data r \<or> rec_data r + n \<le> i"
    then show "write_i32 m (rec_data r + off) v i = m i" using f(2) by (intro write_i32_other) auto
  next
    show "mem_slice (write_i32 m (rec_data r + off) v) (rec_data r) n = put_i32 d off v"
    proof (rule nth_equalityI)
      fix i assume "i < length (mem_slice (write_i32 m (rec_data r + off) v) (rec_data r) n)"
      then have i: "i < n" by simp
      have "mem_slice (write_i32 m (rec_data r + off) v) (rec_data r) n ! i = write_i32 m (rec_data r + off) v (rec_data r + i)"
        using i by (simp add: mem_slice_def)
      moreover have "put_i32 d off v ! i = write_i32 (nth d) off v i" using i f(3) by (simp add: nth_put_i32)
      moreover have "d ! i = m (rec_data r + i)" using d i by (auto simp: mem_slice_def)
      ultimately show "mem_slice (write_i32 m (rec_data r + off) v) (rec_data r) n ! i = put_i32 d off v ! i"
        by (auto simp: write_i32_def write_w32_def)
    qed (use f(3) in simp)
  qed
  then show ?thesis unfolding visits_def using u by fastforce
qed

lemma updater_visits:
  assumes f: "xid_field f (int off)" "off + 4 \<le> n" "length d = n" and e: "read_i32 (nth d) off = expected"
  shows "visits n (xid_updater env f expected v) rid d () (put_i32 d off v)"
proof (rule set_visits [OF f])
  fix r :: Record and m assume d: "mem_slice m (rec_data r) n = d"
  let ?s = "mem_slice m (rec_data r) (off + 4)"
  have "stored_get env f r m = read_i32 (nth ?s) off"
    using get_xid [OF f(1), of ?s] f(1) by (simp add: stored_get_def xid_field_def nat_add_distrib)
  also have "\<dots> = read_i32 (nth d) off"
    unfolding d [symmetric] using f(2) by (intro read_i32_cong) (simp add: mem_slice_def)
  finally show "xid_updater env f expected v r m = Some ((), write_i32 m (rec_data r + off) v)"
    using e f(1) by (simp add: xid_updater_def stored_set_def xid_field_def)
qed

lemma neutral_put:
  assumes "mvcc_meta tb" "off + 4 \<le> 8"
  shows "index_neutral tb d (put_i32 d off v)"
proof -
  have "field_bytes (put_i32 d off v) f = field_bytes d f" if "8 \<le> fm_offset f" for f
    using that assms(2) by (simp add: field_bytes_def put_i32_drop)
  then have key: "build_record_key i (put_i32 d off v) = build_record_key i d" if "i \<in> set (tb_indexes tb)" for i
    using assms(1) that by (auto simp: build_record_key_def mvcc_meta_def intro!: arg_cong [where f = concat] map_cong)
  have "field_data_is_null (put_i32 d off v) (find_field n (tb_meta tb)) = field_data_is_null d (find_field n (tb_meta tb))"
    if "i \<in> set (tb_indexes tb)" "n \<in> set (im_field_names (bi_meta i))" for i n
  proof (cases "find_field n (tb_meta tb)")
    case (Some f)
    then have "fm_nullable f \<Longrightarrow> 8 \<le> fm_offset f" using assms(1) that by (auto simp: mvcc_meta_def)
    then show ?thesis using Some assms(2) by (auto simp: field_data_is_null_def put_i32_nth)
  qed (simp add: field_data_is_null_def)
  then have "tb_skip tb i (put_i32 d off v) = tb_skip tb i d" if "i \<in> set (tb_indexes tb)" for i
    using that by (simp add: skip_unique_null_key_def index_key_has_null_def list_ex_iff)
  then show ?thesis using key by (simp add: index_neutral_def bi_fits_def)
qed

lemma mvcc_meta_cong: "tb_meta tb' = tb_meta tb \<Longrightarrow> tb_indexes tb' = tb_indexes tb \<Longrightarrow> mvcc_meta tb' = mvcc_meta tb"
  by (simp add: mvcc_meta_def)

lemma mvcc_meta_same:
  assumes "mvcc_meta tb" "tb_meta tb' = tb_meta tb" "list_all2 bi_same (tb_indexes tb) (tb_indexes tb')"
  shows "mvcc_meta tb'"
proof -
  have "\<exists>i \<in> set (tb_indexes tb). bi_fields i' = bi_fields i \<and> bi_meta i' = bi_meta i" if q: "i' \<in> set (tb_indexes tb')" for i'
  proof -
    obtain k where k: "k < length (tb_indexes tb')" "tb_indexes tb' ! k = i'" using q unfolding in_set_conv_nth by blast
    then have "bi_same (tb_indexes tb ! k) i'" "k < length (tb_indexes tb)"
      using list_all2_nthD2 [OF assms(3) k(1)] list_all2_lengthD [OF assms(3)] by simp_all
    then show ?thesis by (intro bexI [of _ "tb_indexes tb ! k"]) (simp_all add: bi_same_def)
  qed
  then show ?thesis using assms(1,2) unfolding mvcc_meta_def by metis
qed

lemma visit_row_correct:
  assumes env: "mvcc_env_ok env" and tb: "mvcc_table tb" and d: "tb_rows tb rid = Some d"
    and f: "xid_field f (int off)" "off + 4 \<le> 8"
    and v: "visits (nat (tm_record_size (tb_meta tb))) visitor rid d () (put_i32 d off v)"
  shows "\<exists>h. visit_record (me_table env) rid False visitor tb = Some (SUCCESS, Some (), tb\<lparr>tb_handler := h\<rparr>) \<and>
    mvcc_table (tb\<lparr>tb_handler := h\<rparr>) \<and> tb_rows (tb\<lparr>tb_handler := h\<rparr>) = (tb_rows tb)(rid \<mapsto> put_i32 d off v) \<and>
    tb_kept tb (tb\<lparr>tb_handler := h\<rparr>)"
proof -
  have "env_ok (me_table env)" "tb_ok tb" "mvcc_meta tb" using env tb by (simp_all add: mvcc_env_ok_def mvcc_table_def)
  from table_visit_correct [OF this(1,2) d v _ neutral_put [OF this(3) f(2)], of False] obtain h where
    "visit_record (me_table env) rid False visitor tb = Some (SUCCESS, Some (), tb\<lparr>tb_handler := h\<rparr>)" "tb_ok (tb\<lparr>tb_handler := h\<rparr>)"
    "tb_rows (tb\<lparr>tb_handler := h\<rparr>) = (tb_rows tb)(rid \<mapsto> put_i32 d off v)" "rf_slots h = rf_slots (tb_handler tb)" by auto
  then show ?thesis using tb tb_kept_handler by (auto simp: mvcc_table_def mvcc_meta_def)
qed

lemma update_row_correct:
  assumes env: "mvcc_env_ok env" and tb: "mvcc_table tb" and d: "tb_rows tb (op_rid op) = Some d"
    and f: "xid_field f (int off)" "off + 4 \<le> 8" and e: "read_i32 (nth d) off = expected"
  shows "\<exists>h. update_row env op f expected v tb = Some (SUCCESS, tb\<lparr>tb_handler := h\<rparr>) \<and>
    mvcc_table (tb\<lparr>tb_handler := h\<rparr>) \<and> tb_rows (tb\<lparr>tb_handler := h\<rparr>) = (tb_rows tb)(op_rid op \<mapsto> put_i32 d off v) \<and>
    tb_kept tb (tb\<lparr>tb_handler := h\<rparr>)"
proof -
  have len: "length d = nat (tm_record_size (tb_meta tb))" "8 \<le> length d" using row_length [OF _ d] row_length8 [OF tb d] tb by (auto simp: mvcc_table_def)
  have "visits (nat (tm_record_size (tb_meta tb))) (xid_updater env f expected v) (op_rid op) d () (put_i32 d off v)"
    using f(2) len by (intro updater_visits [OF f(1) _ len(1) e]) simp
  from visit_row_correct [OF env tb d f this] show ?thesis by (auto simp: update_row_def)
qed

subsection \<open>The rows of the database\<close>

type_synonym target = "int \<times> RID"

definition op_target :: "Operation \<Rightarrow> target" where
  "op_target op = (op_table op, op_rid op)"

definition db_rows :: "(int \<Rightarrow> Table option) \<Rightarrow> target \<Rightarrow> byte list option" where
  "db_rows tables k = Option.bind (tables (fst k)) (\<lambda>tb. tb_rows tb (snd k))"

definition tables_ok :: "(int \<Rightarrow> Table option) \<Rightarrow> bool" where
  "tables_ok tables \<longleftrightarrow> (\<forall>tid tb. tables tid = Some tb \<longrightarrow> mvcc_table tb \<and> tm_table_id (tb_meta tb) = tid)"

lemma tables_okD: "tables_ok tables \<Longrightarrow> tables tid = Some tb \<Longrightarrow> mvcc_table tb \<and> tm_table_id (tb_meta tb) = tid"
  by (simp add: tables_ok_def)

lemma db_rows_Some: "db_rows tables k = Some d \<Longrightarrow> \<exists>tb. tables (fst k) = Some tb \<and> tb_rows tb (snd k) = Some d"
  by (auto simp: db_rows_def bind_eq_Some_conv)

lemma db_rows_length: "tables_ok tables \<Longrightarrow> db_rows tables k = Some d \<Longrightarrow> 8 \<le> length d"
  using db_rows_Some row_length8 tables_okD by blast

lemma db_rows_table:
  assumes "tables tid = Some tb" "tb_rows tb' = (tb_rows tb)(r := x)"
  shows "db_rows (tables(tid \<mapsto> tb')) = (db_rows tables)((tid, r) := x)"
  using assms by (auto simp: db_rows_def fun_eq_iff split: prod.splits)

lemma tables_ok_upd: "tables_ok tables \<Longrightarrow> mvcc_table tb \<Longrightarrow> tm_table_id (tb_meta tb) = tid \<Longrightarrow> tables_ok (tables(tid \<mapsto> tb))"
  by (simp add: tables_ok_def)

definition db_kept :: "(int \<Rightarrow> Table option) \<Rightarrow> (int \<Rightarrow> Table option) \<Rightarrow> bool" where
  "db_kept tables tables' \<longleftrightarrow> (\<forall>tid. rel_option tb_kept (tables tid) (tables' tid))"

lemma db_kept_refl [simp]: "db_kept tables tables"
  by (simp add: db_kept_def option.rel_refl)

lemma db_kept_trans: "db_kept t t' \<Longrightarrow> db_kept t' t'' \<Longrightarrow> db_kept t t''"
  unfolding db_kept_def by (blast intro: option.rel_transp [unfolded transp_def, rule_format, of tb_kept] tb_kept_trans)

lemma db_kept_upd: "tables tid = Some tb \<Longrightarrow> tb_kept tb tb' \<Longrightarrow> db_kept tables (tables(tid \<mapsto> tb'))"
  by (simp add: db_kept_def option.rel_refl)

text \<open>What the operations of a transaction do to the rows they name.\<close>

definition op_effect :: "(Operation \<Rightarrow> byte list \<Rightarrow> byte list option) \<Rightarrow> Operation list \<Rightarrow> (target \<Rightarrow> byte list option) \<Rightarrow> target \<Rightarrow> byte list option" where
  "op_effect g ops rows k = (case find (\<lambda>op. op_target op = k) ops of None \<Rightarrow> rows k | Some op \<Rightarrow> Option.bind (rows k) (g op))"

lemma op_effect_Nil [simp]: "op_effect g [] rows = rows"
  by (simp add: op_effect_def fun_eq_iff)

lemma op_effect_out: "k \<notin> op_target ` set ops \<Longrightarrow> op_effect g ops rows k = rows k"
proof -
  assume "k \<notin> op_target ` set ops"
  then have "find (\<lambda>op. op_target op = k) ops = None" by (auto simp: find_None_iff)
  then show ?thesis by (simp add: op_effect_def)
qed

lemma op_effect_in: "inj_on op_target (set ops) \<Longrightarrow> op \<in> set ops \<Longrightarrow> op_effect g ops rows (op_target op) = Option.bind (rows (op_target op)) (g op)"
proof -
  assume a: "inj_on op_target (set ops)" "op \<in> set ops"
  have "find (\<lambda>op'. op_target op' = op_target op) ops \<noteq> None" using a(2) by (auto simp: find_None_iff)
  then obtain op' where f: "find (\<lambda>op'. op_target op' = op_target op) ops = Some op'" by blast
  then have "op' \<in> set ops" "op_target op' = op_target op" by (auto simp: find_Some_iff)
  then have "op' = op" using a by (auto dest: inj_onD)
  then show ?thesis using f by (simp add: op_effect_def)
qed

lemma op_effect_order:
  assumes "inj_on op_target (set ops)" "set ops' = set ops"
  shows "op_effect g ops' rows = op_effect g ops rows"
proof
  fix k
  show "op_effect g ops' rows k = op_effect g ops rows k"
  proof (cases "k \<in> op_target ` set ops")
    case True
    then show ?thesis using assms by (auto simp: op_effect_in)
  qed (simp add: op_effect_out assms(2))
qed

lemma op_effect_Cons:
  assumes "op_target op \<notin> op_target ` set ops"
  shows "op_effect g (op # ops) rows = op_effect g ops (rows(op_target op := Option.bind (rows (op_target op)) (g op)))"
proof
  fix k
  show "op_effect g (op # ops) rows k = op_effect g ops (rows(op_target op := Option.bind (rows (op_target op)) (g op))) k"
  proof (cases "k = op_target op")
    case True
    then have "op_effect g ops (rows(op_target op := Option.bind (rows (op_target op)) (g op))) k = Option.bind (rows (op_target op)) (g op)"
      using assms by (simp add: op_effect_out)
    then show ?thesis using True by (simp add: op_effect_def)
  next
    case False
    then show ?thesis by (auto simp: op_effect_def split: option.split)
  qed
qed

lemma ops_loop_correct:
  assumes step: "\<And>op tb d. \<lbrakk>op \<in> set ops; mvcc_table tb; tb_rows tb (op_rid op) = Some d; own op d\<rbrakk> \<Longrightarrow>
      \<exists>tb'. step op SUCCESS tb = Some (SUCCESS, tb') \<and> mvcc_table tb' \<and> tb_kept tb tb' \<and> tb_rows tb' = (tb_rows tb)(op_rid op := g op d)"
  shows "\<lbrakk>tables_ok tables; distinct (map op_target ops); \<forall>op \<in> set ops. \<exists>d. db_rows tables (op_target op) = Some d \<and> own op d\<rbrakk> \<Longrightarrow>
    \<exists>tables'. ops_loop step ops SUCCESS tables = Some (SUCCESS, tables') \<and> tables_ok tables' \<and> db_rows tables' = op_effect g ops (db_rows tables) \<and>
      db_kept tables tables'"
  using step
proof (induction ops arbitrary: tables)
  case (Cons op ops)
  obtain d where d: "db_rows tables (op_target op) = Some d" "own op d" using Cons.prems(3) by auto
  then obtain tb where tb: "tables (op_table op) = Some tb" "tb_rows tb (op_rid op) = Some d" using db_rows_Some [OF d(1)] by (auto simp: op_target_def)
  note t = tables_okD [OF Cons.prems(1) tb(1)]
  obtain tb' where tb': "step op SUCCESS tb = Some (SUCCESS, tb')" "mvcc_table tb'" "tb_kept tb tb'" "tb_rows tb' = (tb_rows tb)(op_rid op := g op d)"
    using Cons.prems(4) [OF list.set_intros(1) conjunct1 [OF t] tb(2) d(2)] by blast
  let ?tables = "tables(op_table op \<mapsto> tb')"
  have rows: "db_rows ?tables = (db_rows tables)(op_target op := g op d)" using db_rows_table [where tables = tables and tid = "op_table op", OF tb(1) tb'(4)] by (simp add: op_target_def)
  have "tables_ok ?tables" using Cons.prems(1) tb'(2,3) t by (intro tables_ok_upd) (simp_all add: tb_kept_def)
  moreover have "\<forall>op' \<in> set ops. \<exists>d. db_rows ?tables (op_target op') = Some d \<and> own op' d"
    using Cons.prems(2,3) unfolding rows by (auto simp: image_iff)
  moreover have "distinct (map op_target ops)" using Cons.prems(2) by simp
  ultimately obtain tables' where t': "ops_loop step ops SUCCESS ?tables = Some (SUCCESS, tables')" "tables_ok tables'"
    "db_rows tables' = op_effect g ops (db_rows ?tables)" "db_kept ?tables tables'" using Cons.IH [of ?tables, OF _ _ _ Cons.prems(4) [OF list.set_intros(2)]] by blast
  have "op_target op \<notin> op_target ` set ops" using Cons.prems(2) by auto
  then have "op_effect g (op # ops) (db_rows tables) = db_rows tables'" unfolding t'(3) rows using d(1) by (simp add: op_effect_Cons)
  moreover have "db_kept tables tables'" using db_kept_trans [OF db_kept_upd [where tables = tables and tid = "op_table op", OF tb(1) tb'(3)] t'(4)] .
  ultimately show ?case using tb(1) tb'(1) t'(1,2) by simp
qed simp

text \<open>A transaction owns the rows its operations name; a row it deletes was committed before it began.\<close>

definition owned :: "int \<Rightarrow> Operation \<Rightarrow> byte list \<Rightarrow> bool" where
  "owned trx_id op d \<longleftrightarrow> op_type op = OP_INSERT \<and> row_begin d = - trx_id \<or> op_type op = OP_DELETE \<and> row_end d = - trx_id \<and> 0 < row_begin d \<and> row_begin d \<le> trx_id"

definition commit_effect :: "int \<Rightarrow> Operation \<Rightarrow> byte list \<Rightarrow> byte list option" where
  "commit_effect xid op d = Some (if op_type op = OP_INSERT then put_i32 d 0 xid else put_i32 d 4 xid)"

definition rollback_effect :: "Operation \<Rightarrow> byte list \<Rightarrow> byte list option" where
  "rollback_effect op d = (if op_type op = OP_INSERT then None else Some (put_i32 d 4 max_trx_id))"

lemma neg_i32_exact: "0 < v \<Longrightarrow> v < 2 ^ 31 \<Longrightarrow> neg_i32 v = - v"
  by (simp add: neg_i32_def cast_i32_fits fits_i32_def)

lemma meta_fields: "mvcc_meta tb \<Longrightarrow> xid_field (tm_fields (tb_meta tb) ! 0) (int 0) \<and> xid_field (tm_fields (tb_meta tb) ! 1) (int 4)"
  by (simp add: mvcc_meta_def)

lemma commit_op_correct:
  assumes env: "mvcc_env_ok env" and id: "0 < mt_id t" "mt_id t < 2 ^ 31" and tb: "mvcc_table tb" and d: "tb_rows tb (op_rid op) = Some d" and own: "owned (mt_id t) op d"
  shows "\<exists>tb'. commit_op env t xid op rc tb = Some (SUCCESS, tb') \<and> mvcc_table tb' \<and> tb_kept tb tb' \<and>
    tb_rows tb' = (tb_rows tb)(op_rid op := commit_effect xid op d)"
proof -
  have m: "mvcc_meta tb" using tb by (simp add: mvcc_table_def)
  note f = meta_fields [OF m] and tf = trx_fields_ok [OF env m] and n = neg_i32_exact [OF id]
  show ?thesis
  proof (cases "op_type op = OP_INSERT")
    case True
    then have "read_i32 (nth d) 0 = - mt_id t" using own by (simp add: owned_def row_begin_def)
    from update_row_correct [OF env tb d conjunct1 [OF f] _ this, of xid] show ?thesis
      using True tf n by (auto simp: commit_op_def commit_effect_def)
  next
    case False
    then have t: "op_type op = OP_DELETE" using own by (simp add: owned_def)
    then have "read_i32 (nth d) 4 = - mt_id t" using own by (simp add: owned_def row_end_def)
    from update_row_correct [OF env tb d conjunct2 [OF f] _ this, of xid] show ?thesis
      using t tf n by (auto simp: commit_op_def commit_effect_def)
  qed
qed

lemma rollback_op_correct:
  assumes env: "mvcc_env_ok env" and id: "0 < mt_id t" "mt_id t < 2 ^ 31" and tb: "mvcc_table tb" and d: "tb_rows tb (op_rid op) = Some d" and own: "owned (mt_id t) op d"
  shows "\<exists>tb'. rollback_op env t op SUCCESS tb = Some (SUCCESS, tb') \<and> mvcc_table tb' \<and> tb_kept tb tb' \<and>
    tb_rows tb' = (tb_rows tb)(op_rid op := rollback_effect op d)"
proof -
  have m: "mvcc_meta tb" "tb_ok tb" and e: "env_ok (me_table env)" using env tb by (simp_all add: mvcc_table_def mvcc_env_ok_def)
  show ?thesis
  proof (cases "op_type op = OP_INSERT")
    case True
    obtain h where h: "get_record (me_table env) (op_rid op) tb = Some (SUCCESS, Some (d, op_rid op), tb\<lparr>tb_handler := h\<rparr>)" "tb_ok (tb\<lparr>tb_handler := h\<rparr>)"
      "tb_rows (tb\<lparr>tb_handler := h\<rparr>) = tb_rows tb" "rf_slots h = rf_slots (tb_handler tb)" using table_get_correct [OF e m(2) d] by auto
    obtain tb' where tb': "delete_record (me_table env) d (op_rid op) (tb\<lparr>tb_handler := h\<rparr>) = Some (SUCCESS, tb')" "tb_ok tb'" "tb_meta tb' = tb_meta tb"
      "list_all2 bi_same (tb_indexes tb) (tb_indexes tb')" "tb_rows tb' = (tb_rows tb)(op_rid op := None)" "rf_slots (tb_handler tb') = rf_slots h"
      using table_delete_correct [OF e h(2), of "op_rid op" d] d h(3) by auto
    have "mvcc_table tb'" using mvcc_meta_same [OF m(1) tb'(3,4)] tb'(2) by (simp add: mvcc_table_def)
    then show ?thesis using True h(1,4) tb' by (simp add: rollback_op_def rollback_effect_def tb_kept_def)
  next
    case False
    then have t: "op_type op = OP_DELETE" using own by (simp add: owned_def)
    then have "read_i32 (nth d) 4 = - mt_id t" using own by (simp add: owned_def row_end_def)
    from update_row_correct [OF env tb d conjunct2 [OF meta_fields [OF m(1)]] _ this, of max_trx_id] show ?thesis
      using t trx_fields_ok [OF env m(1)] neg_i32_exact [OF id] by (auto simp: rollback_op_def rollback_effect_def)
  qed
qed

subsection \<open>The invariant\<close>

abbreviation st_rows :: "MvccState \<Rightarrow> target \<Rightarrow> byte list option" where
  "st_rows st \<equiv> db_rows (ms_tables st)"

definition row_ok :: "int \<Rightarrow> byte list \<Rightarrow> bool" where
  "row_ok cur d \<longleftrightarrow> row_begin d \<noteq> 0 \<and> row_begin d \<le> cur \<and> row_end d \<noteq> 0 \<and> (row_end d = max_trx_id \<or> row_end d \<le> cur)"

definition trx_ok :: "(target \<Rightarrow> byte list option) \<Rightarrow> int \<Rightarrow> MvccTrx \<Rightarrow> bool" where
  "trx_ok rows cur t \<longleftrightarrow> (mt_started t \<longrightarrow> 0 < mt_id t \<and> mt_id t \<le> cur) \<and> (\<not> mt_started t \<longrightarrow> mt_ops t = []) \<and> \<not> mt_recovering t \<and>
     distinct (map op_target (mt_ops t)) \<and> (\<forall>op \<in> set (mt_ops t). \<exists>d. rows (op_target op) = Some d \<and> owned (mt_id t) op d)"

definition mvcc_ok :: "MvccState \<Rightarrow> bool" where
  "mvcc_ok st \<longleftrightarrow> tables_ok (ms_tables st) \<and> 0 \<le> ms_current st \<and> ms_current st < max_trx_id \<and> clog_buffer_ok (lm_buffer (ms_log st)) \<and>
     (\<forall>k d. st_rows st k = Some d \<longrightarrow> row_ok (ms_current st) d) \<and>
     (\<forall>h t. ms_store st h = Some t \<longrightarrow> trx_ok (st_rows st) (ms_current st) t) \<and>
     (\<forall>h h' t t'. ms_store st h = Some t \<and> ms_store st h' = Some t' \<and> mt_started t \<and> mt_started t' \<and> mt_id t = mt_id t' \<longrightarrow> h = h') \<and>
     (\<forall>k d. st_rows st k = Some d \<and> row_begin d < 0 \<longrightarrow>
       (\<exists>h t op. ms_store st h = Some t \<and> op \<in> set (mt_ops t) \<and> op_type op = OP_INSERT \<and> op_target op = k \<and> mt_id t = - row_begin d))"

lemma mvcc_okD:
  assumes "mvcc_ok st"
  shows "tables_ok (ms_tables st)" "0 \<le> ms_current st" "ms_current st < max_trx_id" "clog_buffer_ok (lm_buffer (ms_log st))"
    "st_rows st k = Some d \<Longrightarrow> row_ok (ms_current st) d"
    "ms_store st h = Some t \<Longrightarrow> trx_ok (st_rows st) (ms_current st) t"
    "\<lbrakk>ms_store st h = Some t; ms_store st h' = Some t'; mt_started t; mt_started t'; mt_id t = mt_id t'\<rbrakk> \<Longrightarrow> h = h'"
    "\<lbrakk>st_rows st k = Some d; row_begin d < 0\<rbrakk> \<Longrightarrow>
       \<exists>h t op. ms_store st h = Some t \<and> op \<in> set (mt_ops t) \<and> op_type op = OP_INSERT \<and> op_target op = k \<and> mt_id t = - row_begin d"
  using assms unfolding mvcc_ok_def by blast+

lemma mvcc_okI:
  assumes "ms_tables st = T" "ms_current st = c" "ms_store st = S" "tables_ok T" "0 \<le> c" "c < max_trx_id" "clog_buffer_ok (lm_buffer (ms_log st))"
    "\<And>k d. db_rows T k = Some d \<Longrightarrow> row_ok c d"
    "\<And>h t. S h = Some t \<Longrightarrow> trx_ok (db_rows T) c t"
    "\<And>h h' t t'. \<lbrakk>S h = Some t; S h' = Some t'; mt_started t; mt_started t'; mt_id t = mt_id t'\<rbrakk> \<Longrightarrow> h = h'"
    "\<And>k d. \<lbrakk>db_rows T k = Some d; row_begin d < 0\<rbrakk> \<Longrightarrow>
       \<exists>h t op. S h = Some t \<and> op \<in> set (mt_ops t) \<and> op_type op = OP_INSERT \<and> op_target op = k \<and> mt_id t = - row_begin d"
  shows "mvcc_ok st"
  using assms(4-) unfolding mvcc_ok_def assms(1,2,3) by blast

lemma trx_okD:
  assumes "trx_ok rows cur t"
  shows "mt_started t \<Longrightarrow> 0 < mt_id t \<and> mt_id t \<le> cur" "op \<in> set (mt_ops t) \<Longrightarrow> mt_started t" "\<not> mt_recovering t" "distinct (map op_target (mt_ops t))"
    "op \<in> set (mt_ops t) \<Longrightarrow> \<exists>d. rows (op_target op) = Some d \<and> owned (mt_id t) op d"
  using assms unfolding trx_ok_def by auto

lemma row_ok_mono: "row_ok cur d \<Longrightarrow> cur \<le> cur' \<Longrightarrow> row_ok cur' d"
  by (auto simp: row_ok_def)

lemma trx_ok_mono:
  assumes "trx_ok rows cur t" "cur \<le> cur'" "\<And>op. op \<in> set (mt_ops t) \<Longrightarrow> rows' (op_target op) = rows (op_target op)"
  shows "trx_ok rows' cur' t"
  using assms unfolding trx_ok_def by auto

text \<open>No two transactions own a row.\<close>

lemma owners_disjoint:
  assumes ok: "mvcc_ok st" and h: "ms_store st h = Some t" "ms_store st h' = Some t'" "h \<noteq> h'" and ops: "op \<in> set (mt_ops t)" "op' \<in> set (mt_ops t')"
  shows "op_target op \<noteq> op_target op'"
proof
  assume eq: "op_target op = op_target op'"
  note t = mvcc_okD(6) [OF ok h(1)] and t' = mvcc_okD(6) [OF ok h(2)]
  obtain d where d: "st_rows st (op_target op) = Some d" "owned (mt_id t) op d" "owned (mt_id t') op' d"
    using trx_okD(5) [OF t ops(1)] trx_okD(5) [OF t' ops(2)] eq by auto
  have s: "mt_started t" "mt_started t'" using trx_okD(2) [OF t ops(1)] trx_okD(2) [OF t' ops(2)] by auto
  then have "0 < mt_id t" "0 < mt_id t'" using trx_okD(1) [OF t] trx_okD(1) [OF t'] by auto
  then have "mt_id t = mt_id t'" using d(2,3) by (auto simp: owned_def)
  then show False using mvcc_okD(7) [OF ok h(1,2) s] h(3) by simp
qed

lemma trx_inj: "trx_ok rows cur t \<Longrightarrow> inj_on op_target (set (mt_ops t)) \<and> distinct (mt_ops t)"
  using trx_okD(4) by (auto simp: distinct_map)

text \<open>Ending a transaction: whatever replaces its marks, provided no mark is left.\<close>

lemma mvcc_ok_end:
  assumes ok: "mvcc_ok st" and h: "ms_store st h = Some t"
    and g: "\<And>op d. \<lbrakk>op \<in> set (mt_ops t); st_rows st (op_target op) = Some d; owned (mt_id t) op d; row_ok (ms_current st) d\<rbrakk> \<Longrightarrow>
      case g op d of None \<Rightarrow> True | Some d' \<Rightarrow> row_ok cur' d' \<and> 0 < row_begin d'"
    and st': "tables_ok (ms_tables st')" "st_rows st' = op_effect g (mt_ops t) (st_rows st)" "ms_current st' = cur'" "ms_current st \<le> cur'" "cur' < max_trx_id"
      "ms_store st' = (ms_store st)(h \<mapsto> t\<lparr>mt_started := False, mt_ops := []\<rparr>)" "clog_buffer_ok (lm_buffer (ms_log st'))"
  shows "mvcc_ok st'"
proof -
  have t: "trx_ok (st_rows st) (ms_current st) t" by (rule mvcc_okD(6) [OF ok h])
  note inj = conjunct1 [OF trx_inj [OF t]]
  have ended: "row_ok cur' d' \<and> 0 < row_begin d'" if r: "st_rows st' k = Some d'" "k \<in> op_target ` set (mt_ops t)" for k d'
  proof -
    obtain op where op: "op \<in> set (mt_ops t)" "k = op_target op" using r(2) by blast
    obtain d where d: "st_rows st k = Some d" "owned (mt_id t) op d" using trx_okD(5) [OF t op(1)] op(2) by auto
    then have "g op d = Some d'" using r(1) op op_effect_in [OF inj op(1), of g "st_rows st"] st'(2) by simp
    then show ?thesis using g [OF op(1) _ d(2) mvcc_okD(5) [OF ok d(1)]] d(1) op(2) by (auto split: option.splits)
  qed
  have kept: "st_rows st' k = st_rows st k" if "k \<notin> op_target ` set (mt_ops t)" for k using that st'(2) by (simp add: op_effect_out)
  have rows: "row_ok cur' d" if "st_rows st' k = Some d" for k d
    using ended [OF that] kept [of k] that row_ok_mono [OF mvcc_okD(5) [OF ok] st'(4)] by (cases "k \<in> op_target ` set (mt_ops t)") auto
  have trx: "trx_ok (st_rows st') cur' u" if u: "ms_store st' h' = Some u" for h' u
  proof (cases "h' = h")
    case True
    then show ?thesis using u st'(6) t by (auto simp: trx_ok_def)
  next
    case False
    then have s: "ms_store st h' = Some u" using u st'(6) by simp
    show ?thesis
    proof (rule trx_ok_mono [OF mvcc_okD(6) [OF ok s] st'(4)])
      fix op assume "op \<in> set (mt_ops u)"
      then have "op_target op \<notin> op_target ` set (mt_ops t)" using owners_disjoint [OF ok s h False] by blast
      then show "st_rows st' (op_target op) = st_rows st (op_target op)" by (rule kept)
    qed
  qed
  have uniq: "i = j" if "ms_store st' i = Some u" "ms_store st' j = Some v" "mt_started u" "mt_started v" "mt_id u = mt_id v" for i j u v
    using that st'(6) mvcc_okD(7) [OF ok, of i u j v] by (auto split: if_splits)
  have begins: "\<exists>h t op. ms_store st' h = Some t \<and> op \<in> set (mt_ops t) \<and> op_type op = OP_INSERT \<and> op_target op = k \<and> mt_id t = - row_begin d"
    if r: "st_rows st' k = Some d" "row_begin d < 0" for k d
  proof -
    have k: "k \<notin> op_target ` set (mt_ops t)" using ended [OF r(1)] r(2) by auto
    then obtain h' u op where u: "ms_store st h' = Some u" "op \<in> set (mt_ops u)" "op_type op = OP_INSERT" "op_target op = k" "mt_id u = - row_begin d"
      using mvcc_okD(8) [OF ok, of k d] kept r by auto
    then have "h' \<noteq> h" using k h by auto
    then show ?thesis using u st'(6) by (intro exI [of _ h'] exI [of _ u] exI [of _ op]) simp
  qed
  show ?thesis
    by (rule mvcc_okI [OF refl st'(3) refl st'(1) _ st'(5,7) rows trx uniq begins]) (use st'(4) mvcc_okD(2) [OF ok] in \<open>assumption | simp\<close>)+
qed

subsection \<open>Commit and rollback\<close>

text \<open>Room in the log for another record with so many bytes of data.\<close>

abbreviation log_size :: "MvccState \<Rightarrow> int" where
  "log_size st \<equiv> lb_total_size (lm_buffer (ms_log st))"

definition log_room :: "MvccState \<Rightarrow> int \<Rightarrow> bool" where
  "log_room st n \<longleftrightarrow> log_size st + n < CLOG_BUFFER_SIZE \<and> n < 2 ^ 30"

lemma append_log_ok:
  assumes "clog_buffer_ok (lm_buffer lm)" "clog_wf r" "lb_total_size (lm_buffer lm) + logrec_len r < CLOG_BUFFER_SIZE" "logrec_len r < 2 ^ 30"
  shows "\<exists>b. append_log r lm = (SUCCESS, lm\<lparr>lm_buffer := b\<rparr>) \<and> clog_buffer_ok b \<and> lb_total_size b = lb_total_size (lm_buffer lm) + logrec_len r"
  using append_log_record_correct [OF assms(1,2,4)] assms(1,3) by (auto simp: append_log_def clog_buffer_ok_def)

lemma ops_loop_ordered:
  assumes env: "mvcc_env_ok env" and ok: "tables_ok tables" and ops: "distinct (map op_target ops)"
    "\<And>op. op \<in> set ops \<Longrightarrow> \<exists>d. db_rows tables (op_target op) = Some d \<and> owned x op d"
    and step: "\<And>op tb d. \<lbrakk>mvcc_table tb; tb_rows tb (op_rid op) = Some d; owned x op d\<rbrakk> \<Longrightarrow>
      \<exists>tb'. step op SUCCESS tb = Some (SUCCESS, tb') \<and> mvcc_table tb' \<and> tb_kept tb tb' \<and> tb_rows tb' = (tb_rows tb)(op_rid op := g op d)"
  shows "\<exists>tables'. ops_loop step (me_order env ops) SUCCESS tables = Some (SUCCESS, tables') \<and> tables_ok tables' \<and>
    db_rows tables' = op_effect g ops (db_rows tables) \<and> db_kept tables tables'"
proof -
  have i: "inj_on op_target (set ops)" "distinct ops" using ops(1) by (simp_all add: distinct_map)
  then have o: "set (me_order env ops) = set ops" "distinct (me_order env ops)" using env by (simp_all add: mvcc_env_ok_def)
  have d: "distinct (map op_target (me_order env ops))" using i(1) o by (simp add: distinct_map)
  have own: "\<forall>op \<in> set (me_order env ops). \<exists>d. db_rows tables (op_target op) = Some d \<and> owned x op d"
    using ops(2) o(1) by blast
  obtain tables' where "ops_loop step (me_order env ops) SUCCESS tables = Some (SUCCESS, tables')" "tables_ok tables'"
    "db_rows tables' = op_effect g (me_order env ops) (db_rows tables)" "db_kept tables tables'"
    using ops_loop_correct [where step = step and own = "owned x" and g = g, OF step ok d own] by blast
  then show ?thesis using op_effect_order [OF i(1) o(1)] by auto
qed

lemma ops_loop_any_order:
  assumes env: "mvcc_env_ok env" and ok: "mvcc_ok st" and h: "ms_store st h = Some t" "mt_started t"
    and step: "\<And>op tb d. \<lbrakk>mvcc_table tb; tb_rows tb (op_rid op) = Some d; owned (mt_id t) op d\<rbrakk> \<Longrightarrow>
      \<exists>tb'. step op SUCCESS tb = Some (SUCCESS, tb') \<and> mvcc_table tb' \<and> tb_kept tb tb' \<and> tb_rows tb' = (tb_rows tb)(op_rid op := g op d)"
  shows "\<exists>tables'. ops_loop step (me_order env (mt_ops t)) SUCCESS (ms_tables st) = Some (SUCCESS, tables') \<and> tables_ok tables' \<and>
    db_rows tables' = op_effect g (mt_ops t) (st_rows st)"
proof -
  have t: "trx_ok (st_rows st) (ms_current st) t" by (rule mvcc_okD(6) [OF ok h(1)])
  show ?thesis
    using ops_loop_ordered [where step = step and x = "mt_id t" and g = g and tables = "ms_tables st" and ops = "mt_ops t",
      OF env mvcc_okD(1) [OF ok] trx_okD(4) [OF t] trx_okD(5) [OF t] step] by blast
qed

lemma trx_id_range: "mvcc_ok st \<Longrightarrow> ms_store st h = Some t \<Longrightarrow> mt_started t \<Longrightarrow> 0 < mt_id t \<and> mt_id t < 2 ^ 31 \<and> mt_id t \<le> ms_current st"
  using trx_okD(1) [OF mvcc_okD(6)] mvcc_okD(3) by (fastforce simp: max_trx_id_def)

lemma mvcc_commit_correct:
  assumes env: "mvcc_env_ok env" and ok: "mvcc_ok st" and h: "ms_store st h = Some t" "mt_started t"
    and room: "ms_current st + 1 < max_trx_id" "log_room st 4"
  shows "\<exists>st'. mvcc_commit env h st = Some (clog_file_sync (me_clog env), st') \<and> mvcc_ok st' \<and> ms_current st' = ms_current st + 1 \<and>
    st_rows st' = op_effect (commit_effect (ms_current st + 1)) (mt_ops t) (st_rows st) \<and>
    ms_store st' = (ms_store st)(h \<mapsto> t\<lparr>mt_started := False, mt_ops := []\<rparr>) \<and>
    (\<exists>b. append_log (build_commit_record (mt_id t) (ms_current st + 1)) (ms_log st) = (SUCCESS, (ms_log st)\<lparr>lm_buffer := b\<rparr>) \<and> clog_buffer_ok b \<and>
       lb_records (lm_buffer (ms_log st')) = [] \<and>
       clog_bytes (lm_file (ms_log st')) = clog_bytes (lm_file (ms_log st)) @ concat (map clog_encode (lb_records b)))"
proof -
  let ?c = "ms_current st + 1"
  have cur: "0 \<le> ms_current st" by (rule mvcc_okD(2) [OF ok])
  have c: "cast_i32 ?c = ?c" "fits_i32 ?c" using cur room(1) by (auto simp: cast_i32_fits fits_i32_def max_trx_id_def)
  note id = trx_id_range [OF ok h]
  let ?st = "st\<lparr>ms_current := ?c\<rparr>"
  have next_id: "next_trx_id st = (?c, ?st)" using c(1) by (simp add: next_trx_id_def Let_def)
  obtain tables' where l: "ops_loop (commit_op env t ?c) (me_order env (mt_ops t)) SUCCESS (ms_tables st) = Some (SUCCESS, tables')" "tables_ok tables'"
    "db_rows tables' = op_effect (commit_effect ?c) (mt_ops t) (st_rows st)"
    using ops_loop_any_order [OF env ok h, of "commit_op env t ?c" "commit_effect ?c"] commit_op_correct [OF env] id by blast
  have nrec: "\<not> mt_recovering t" by (rule trx_okD(3) [OF mvcc_okD(6) [OF ok h(1)]])
  have wf: "clog_wf (build_commit_record (mt_id t) ?c)" "logrec_len (build_commit_record (mt_id t) ?c) = 4"
    using build_commit_wf [of "mt_id t" ?c] id c(2) by (auto simp: fits_i32_def)
  obtain b where b: "append_log (build_commit_record (mt_id t) ?c) (ms_log st) = (SUCCESS, (ms_log st)\<lparr>lm_buffer := b\<rparr>)" "clog_buffer_ok b"
    using append_log_ok [OF mvcc_okD(4) [OF ok] wf(1)] room(2) wf(2) by (auto simp: log_room_def)
  obtain f where f: "flush_buffer (me_clog env) b (lm_file (ms_log st)) = Some (clog_file_sync (me_clog env), clog_buffer_new, f)"
    "clog_bytes f = clog_bytes (lm_file (ms_log st)) @ concat (map clog_encode (lb_records b))"
    using flush_buffer_correct [OF _ b(2)] env unfolding mvcc_env_ok_def by blast
  let ?st' = "(end_trx h t tables' ?st)\<lparr>ms_log := \<lparr>lm_buffer = clog_buffer_new, lm_file = f\<rparr>\<rparr>"
  have run: "mvcc_commit env h st = Some (clog_file_sync (me_clog env), ?st')"
    using next_id h l(1) nrec b(1) f(1) by (simp add: mvcc_commit_def commit_with_trx_id_def commit_trx_def clog_sync_def end_trx_def)
  have "mvcc_ok ?st'"
  proof (rule mvcc_ok_end [OF ok h(1), where g = "commit_effect ?c" and cur' = ?c])
    fix op d assume a: "op \<in> set (mt_ops t)" "st_rows st (op_target op) = Some d" "owned (mt_id t) op d" "row_ok (ms_current st) d"
    then have "8 \<le> length d" using db_rows_length [OF mvcc_okD(1) [OF ok]] by blast
    then show "case commit_effect ?c op d of None \<Rightarrow> True | Some d' \<Rightarrow> row_ok ?c d' \<and> 0 < row_begin d'"
      using a(3,4) c(2) cur by (auto simp: commit_effect_def row_ok_def owned_def)
  qed (use l room(1) in \<open>simp_all add: end_trx_def clog_buffer_new_def clog_buffer_ok_def CLOG_BUFFER_SIZE_def\<close>)
  then show ?thesis using run l(3) b f(2)
    by (intro exI [of _ ?st'] conjI exI [of _ b]) (simp_all add: end_trx_def clog_buffer_new_def)
qed

lemma mvcc_rollback_correct:
  assumes env: "mvcc_env_ok env" and ok: "mvcc_ok st" and h: "ms_store st h = Some t" "mt_started t" and room: "log_room st 0"
  shows "\<exists>st'. mvcc_rollback env h st = Some (SUCCESS, st') \<and> mvcc_ok st' \<and> ms_current st' = ms_current st \<and>
    st_rows st' = op_effect rollback_effect (mt_ops t) (st_rows st) \<and>
    ms_store st' = (ms_store st)(h \<mapsto> t\<lparr>mt_started := False, mt_ops := []\<rparr>) \<and>
    append_log (build_mtr_record MTR_ROLLBACK (mt_id t)) (ms_log st) = (SUCCESS, ms_log st')"
proof -
  note id = trx_id_range [OF ok h]
  obtain tables' where l: "ops_loop (rollback_op env t) (me_order env (mt_ops t)) SUCCESS (ms_tables st) = Some (SUCCESS, tables')" "tables_ok tables'"
    "db_rows tables' = op_effect rollback_effect (mt_ops t) (st_rows st)"
    using ops_loop_any_order [OF env ok h, of "rollback_op env t" rollback_effect] rollback_op_correct [OF env] id by blast
  have nrec: "\<not> mt_recovering t" by (rule trx_okD(3) [OF mvcc_okD(6) [OF ok h(1)]])
  have wf: "clog_wf (build_mtr_record MTR_ROLLBACK (mt_id t))" "logrec_len (build_mtr_record MTR_ROLLBACK (mt_id t)) = 0"
    using build_mtr_wf [of MTR_ROLLBACK "mt_id t"] id by (auto simp: fits_i32_def)
  obtain b where b: "append_log (build_mtr_record MTR_ROLLBACK (mt_id t)) (ms_log st) = (SUCCESS, (ms_log st)\<lparr>lm_buffer := b\<rparr>)" "clog_buffer_ok b"
    using append_log_ok [OF mvcc_okD(4) [OF ok] wf(1)] room wf(2) by (auto simp: log_room_def)
  let ?st' = "(end_trx h t tables' st)\<lparr>ms_log := (ms_log st)\<lparr>lm_buffer := b\<rparr>\<rparr>"
  have run: "mvcc_rollback env h st = Some (SUCCESS, ?st')"
    using h l(1) nrec b(1) by (simp add: mvcc_rollback_def rollback_trx_def end_trx_def)
  have "mvcc_ok ?st'"
  proof (rule mvcc_ok_end [OF ok h(1), where g = rollback_effect and cur' = "ms_current st"])
    fix op d assume a: "op \<in> set (mt_ops t)" "st_rows st (op_target op) = Some d" "owned (mt_id t) op d" "row_ok (ms_current st) d"
    then have "8 \<le> length d" using db_rows_length [OF mvcc_okD(1) [OF ok]] by blast
    then show "case rollback_effect op d of None \<Rightarrow> True | Some d' \<Rightarrow> row_ok (ms_current st) d' \<and> 0 < row_begin d'"
      using a(3,4) by (auto simp: rollback_effect_def row_ok_def owned_def max_trx_id_def fits_i32_def)
  qed (use l b(2) mvcc_okD(3) [OF ok] in \<open>simp_all add: end_trx_def\<close>)
  then show ?thesis using run l(3) b(1) by (intro exI [of _ ?st']) (simp add: end_trx_def)
qed

subsection \<open>Starting, inserting and deleting\<close>

lemma mvcc_create_ok:
  assumes ok: "mvcc_ok st" and h: "ms_store st h = None"
  shows "mvcc_ok (create_trx h st)"
proof -
  have uniq: "i = j" if "ms_store (create_trx h st) i = Some u" "ms_store (create_trx h st) j = Some v" "mt_started u" "mt_started v" "mt_id u = mt_id v" for i j u v
    using that mvcc_okD(7) [OF ok, of i u j v] by (auto simp: create_trx_def split: if_splits)
  have trx: "trx_ok (st_rows st) (ms_current st) u" if "ms_store (create_trx h st) i = Some u" for i u
    using that mvcc_okD(6) [OF ok, of i u] by (auto simp: create_trx_def trx_ok_def split: if_splits)
  have begins: "\<exists>h' t op. ms_store (create_trx h st) h' = Some t \<and> op \<in> set (mt_ops t) \<and> op_type op = OP_INSERT \<and> op_target op = k \<and> mt_id t = - row_begin d"
    if r: "st_rows st k = Some d" "row_begin d < 0" for k d
  proof -
    obtain h' u op where u: "ms_store st h' = Some u" "op \<in> set (mt_ops u)" "op_type op = OP_INSERT" "op_target op = k" "mt_id u = - row_begin d"
      using mvcc_okD(8) [OF ok r] by blast
    then have "ms_store (create_trx h st) h' = Some u" using h by (auto simp: create_trx_def)
    then show ?thesis using u by blast
  qed
  have "ms_tables (create_trx h st) = ms_tables st" "ms_current (create_trx h st) = ms_current st" "ms_log (create_trx h st) = ms_log st"
    by (simp_all add: create_trx_def)
  then show ?thesis
    by (intro mvcc_okI [OF _ _ refl mvcc_okD(1-3) [OF ok] _ mvcc_okD(5) [OF ok] trx uniq begins]) (use mvcc_okD(4) [OF ok] in \<open>assumption | simp\<close>)+
qed

lemma mvcc_start_correct:
  assumes ok: "mvcc_ok st" and h: "ms_store st h = Some t" and room: "ms_current st + 1 < max_trx_id" "log_room st 0"
  shows "\<exists>st' t'. start_if_need env h st = Some (SUCCESS, st') \<and> mvcc_ok st' \<and> st_rows st' = st_rows st \<and> ms_store st' = (ms_store st)(h \<mapsto> t') \<and>
    mt_started t' \<and> mt_ops t' = mt_ops t \<and> log_size st' = log_size st \<and>
    (if mt_started t then st' = st else mt_id t' = ms_current st + 1 \<and> ms_current st' = ms_current st + 1) \<and>
    (\<not> mt_started t \<longrightarrow> append_log (build_mtr_record MTR_BEGIN (ms_current st + 1)) (ms_log st) = (SUCCESS, ms_log st'))"
proof (cases "mt_started t")
  case True
  then show ?thesis using ok h by (auto simp: start_if_need_def fun_upd_idem intro!: exI [of _ t])
next
  case False
  let ?c = "ms_current st + 1"
  have t: "trx_ok (st_rows st) (ms_current st) t" by (rule mvcc_okD(6) [OF ok h])
  have ops: "mt_ops t = []" using t False by (simp add: trx_ok_def)
  have cur: "0 \<le> ms_current st" by (rule mvcc_okD(2) [OF ok])
  have c: "cast_i32 ?c = ?c" "fits_i32 ?c" using cur room(1) by (auto simp: cast_i32_fits fits_i32_def max_trx_id_def)
  have wf: "clog_wf (build_mtr_record MTR_BEGIN ?c)" "logrec_len (build_mtr_record MTR_BEGIN ?c) = 0" using build_mtr_wf [of MTR_BEGIN ?c] c(2) by auto
  obtain b where b: "append_log (build_mtr_record MTR_BEGIN ?c) (ms_log st) = (SUCCESS, (ms_log st)\<lparr>lm_buffer := b\<rparr>)" "clog_buffer_ok b"
    "lb_total_size b = log_size st"
    using append_log_ok [OF mvcc_okD(4) [OF ok] wf(1)] room wf(2) by (auto simp: log_room_def)
  let ?t = "t\<lparr>mt_id := ?c, mt_started := True\<rparr>"
  let ?st = "st\<lparr>ms_current := ?c, ms_store := (ms_store st)(h \<mapsto> ?t), ms_log := (ms_log st)\<lparr>lm_buffer := b\<rparr>\<rparr>"
  have run: "start_if_need env h st = Some (SUCCESS, ?st)"
    using h False ops c(1) b(1) by (simp add: start_if_need_def next_trx_id_def Let_def begin_trx_def)
  have trx: "trx_ok (st_rows st) ?c u" if "ms_store ?st i = Some u" for i u
  proof (cases "i = h")
    case True
    then show ?thesis using that ops cur t by (auto simp: trx_ok_def)
  next
    case False
    then show ?thesis using that trx_ok_mono [OF mvcc_okD(6) [OF ok], of i u ?c "st_rows st"] by simp
  qed
  have uniq: "i = j" if "ms_store ?st i = Some u" "ms_store ?st j = Some v" "mt_started u" "mt_started v" "mt_id u = mt_id v" for i j u v
  proof -
    have "mt_id w \<le> ms_current st" if "ms_store st k = Some w" "mt_started w" for k w using trx_id_range [OF ok that] by simp
    then have n: "mt_id w \<noteq> ?c" if "ms_store st k = Some w" "mt_started w" for k w using that by force
    show ?thesis
    proof (cases "i = h \<or> j = h")
      case True
      then show ?thesis using that n [of i u] n [of j v] by (auto split: if_splits)
    next
      case False
      then show ?thesis using that mvcc_okD(7) [OF ok, of i u j v] by simp
    qed
  qed
  have begins: "\<exists>h' t op. ms_store ?st h' = Some t \<and> op \<in> set (mt_ops t) \<and> op_type op = OP_INSERT \<and> op_target op = k \<and> mt_id t = - row_begin d"
    if r: "st_rows st k = Some d" "row_begin d < 0" for k d
  proof -
    obtain h' u op where u: "ms_store st h' = Some u" "op \<in> set (mt_ops u)" "op_type op = OP_INSERT" "op_target op = k" "mt_id u = - row_begin d"
      using mvcc_okD(8) [OF ok r] by blast
    then have "h' \<noteq> h" using h ops by auto
    then show ?thesis using u by (intro exI [of _ h'] exI [of _ u] exI [of _ op]) simp
  qed
  have rows: "row_ok ?c d" if "st_rows st k = Some d" for k d using row_ok_mono [OF mvcc_okD(5) [OF ok that]] by simp
  have "ms_tables ?st = ms_tables st" "ms_current ?st = ?c" by simp_all
  then have "mvcc_ok ?st"
    by (rule mvcc_okI [OF _ _ refl mvcc_okD(1) [OF ok] _ room(1) _ rows trx uniq begins]) (use cur b(2) in \<open>assumption | simp\<close>)+
  then show ?thesis using run False b(1,3) by (intro exI [of _ ?st] exI [of _ ?t]) simp
qed

text \<open>The bytes that \<open>insert_record\<close> stores.\<close>

definition marked :: "int \<Rightarrow> byte list \<Rightarrow> byte list" where
  "marked trx_id d = put_i32 (put_i32 d 0 (- trx_id)) 4 max_trx_id"

lemma fits_max: "fits_i32 max_trx_id"
  by (simp add: fits_i32_def max_trx_id_def)

lemma row_marked [simp]:
  assumes "8 \<le> length d" "fits_i32 (- trx_id)"
  shows "row_begin (marked trx_id d) = - trx_id" "row_end (marked trx_id d) = max_trx_id" "length (marked trx_id d) = length d"
  using assms fits_max by (simp_all add: marked_def)

text \<open>Adding a row that carries the mark of its transaction, and the operation that names it.\<close>

lemma uniq_upd:
  assumes ok: "mvcc_ok st" and h: "ms_store st h = Some t" and t': "mt_started t' = mt_started t" "mt_id t' = mt_id t" and S: "S = (ms_store st)(h \<mapsto> t')"
    and q: "S i = Some u" "S j = Some v" "mt_started u" "mt_started v" "mt_id u = mt_id v"
  shows "i = j"
proof -
  have "\<exists>w'. ms_store st k = Some w' \<and> mt_started w' = mt_started w \<and> mt_id w' = mt_id w" if "S k = Some w" for k w
    using that h t' unfolding S by (cases "k = h") auto
  then obtain u' v' where "ms_store st i = Some u'" "mt_started u'" "mt_id u' = mt_id u" "ms_store st j = Some v'" "mt_started v'" "mt_id v' = mt_id v"
    using q by metis
  then show ?thesis using mvcc_okD(7) [OF ok, of i u' j v'] q(5) by simp
qed

lemma mvcc_ok_insert:
  assumes ok: "mvcc_ok st" and h: "ms_store st h = Some t" "mt_started t" and k: "st_rows st (tid, r) = None"
    and d: "row_begin d = - mt_id t" "row_end d = max_trx_id"
    and st': "tables_ok (ms_tables st')" "st_rows st' = (st_rows st)((tid, r) \<mapsto> d)" "ms_current st' = ms_current st"
      "ms_store st' = (ms_store st)(h \<mapsto> t\<lparr>mt_ops := mt_ops t @ [operation_new OP_INSERT tid r]\<rparr>)" "clog_buffer_ok (lm_buffer (ms_log st'))"
  shows "mvcc_ok st'"
proof -
  let ?op = "operation_new OP_INSERT tid r" and ?t = "t\<lparr>mt_ops := mt_ops t @ [operation_new OP_INSERT tid r]\<rparr>"
  have target: "op_target ?op = (tid, r)" "op_type ?op = OP_INSERT" by (simp_all add: op_target_def operation_new_def)
  have t: "trx_ok (st_rows st) (ms_current st) t" by (rule mvcc_okD(6) [OF ok h(1)])
  note id = trx_id_range [OF ok h]
  have other: "op_target op \<noteq> (tid, r)" if "ms_store st i = Some u" "op \<in> set (mt_ops u)" for i u op
    using trx_okD(5) [OF mvcc_okD(6) [OF ok that(1)] that(2)] k by auto
  have rows: "row_ok (ms_current st) e" if "st_rows st' q = Some e" for q e
    using that mvcc_okD(5) [OF ok, of q e] id d st'(2) by (auto simp: row_ok_def max_trx_id_def split: if_splits)
  have trx: "trx_ok (st_rows st') (ms_current st) u" if u: "ms_store st' i = Some u" for i u
  proof (cases "i = h")
    case True
    then have "u = ?t" using u st'(4) by simp
    moreover have "(tid, r) \<notin> op_target ` set (mt_ops t)"
    proof
      assume "(tid, r) \<in> op_target ` set (mt_ops t)"
      then show False by (rule imageE) (use other [OF h(1)] in metis)
    qed
    then have "distinct (map op_target (mt_ops ?t))" using trx_okD(4) [OF t] target by simp
    moreover have "\<exists>e. st_rows st' (op_target op) = Some e \<and> owned (mt_id t) op e" if "op \<in> set (mt_ops ?t)" for op
    proof (cases "op = ?op")
      case True
      then show ?thesis using target d st'(2) by (simp add: owned_def)
    next
      case False
      then have "op \<in> set (mt_ops t)" using that by simp
      then show ?thesis using trx_okD(5) [OF t] other [OF h(1)] st'(2) by auto
    qed
    ultimately show ?thesis using id h(2) trx_okD(3) [OF t] by (simp add: trx_ok_def)
  next
    case False
    then have s: "ms_store st i = Some u" using u st'(4) by simp
    show ?thesis by (rule trx_ok_mono [OF mvcc_okD(6) [OF ok s] order_refl]) (use other [OF s] st'(2) in simp)
  qed
  have same: "mt_started ?t = mt_started t" "mt_id ?t = mt_id t" by simp_all
  note uniq = uniq_upd [OF ok h(1) same st'(4)]
  have begins: "\<exists>h' t op. ms_store st' h' = Some t \<and> op \<in> set (mt_ops t) \<and> op_type op = OP_INSERT \<and> op_target op = q \<and> mt_id t = - row_begin e"
    if r: "st_rows st' q = Some e" "row_begin e < 0" for q e
  proof (cases "q = (tid, r)")
    case True
    then show ?thesis using r st'(2,4) d target by (intro exI [of _ h] exI [of _ ?t] exI [of _ ?op]) simp
  next
    case False
    then obtain h' u op where u: "ms_store st h' = Some u" "op \<in> set (mt_ops u)" "op_type op = OP_INSERT" "op_target op = q" "mt_id u = - row_begin e"
      using mvcc_okD(8) [OF ok, of q e] r st'(2) by auto
    show ?thesis
    proof (cases "h' = h")
      case True
      then show ?thesis using u h(1) st'(4) by (intro exI [of _ h] exI [of _ ?t] exI [of _ op]) simp
    next
      case False
      then show ?thesis using u st'(4) by (intro exI [of _ h'] exI [of _ u] exI [of _ op]) simp
    qed
  qed
  show ?thesis
    by (rule mvcc_okI [OF refl st'(3) refl st'(1) mvcc_okD(2,3) [OF ok] st'(5) rows trx uniq begins]) assumption+
qed

text \<open>Marking a row as deleted, when its end is open and no other transaction has marked it.\<close>

lemma mvcc_ok_delete:
  assumes ok: "mvcc_ok st" and h: "ms_store st h = Some t" "mt_started t" and k: "st_rows st (tid, r) = Some d" "row_end d = max_trx_id"
    and b: "row_begin d < 0 \<longrightarrow> row_begin d = - mt_id t" "row_begin d \<le> mt_id t" and d': "row_begin d' = row_begin d" "row_end d' = - mt_id t"
    and ops: "ops = snd (operations_insert (operation_new OP_DELETE tid r) (mt_ops t))"
    and st': "tables_ok (ms_tables st')" "st_rows st' = (st_rows st)((tid, r) \<mapsto> d')" "ms_current st' = ms_current st"
      "ms_store st' = (ms_store st)(h \<mapsto> t\<lparr>mt_ops := ops\<rparr>)" "clog_buffer_ok (lm_buffer (ms_log st'))"
  shows "mvcc_ok st'"
proof -
  let ?op = "operation_new OP_DELETE tid r" and ?t = "t\<lparr>mt_ops := ops\<rparr>"
  have target: "op_target ?op = (tid, r)" "op_type ?op = OP_DELETE" by (simp_all add: op_target_def operation_new_def)
  have equal: "operation_equal ?op op \<longleftrightarrow> op_target op = (tid, r)" for op
    by (cases r) (auto simp: operation_equal_def op_target_def operation_new_def)
  have t: "trx_ok (st_rows st) (ms_current st) t" by (rule mvcc_okD(6) [OF ok h(1)])
  note id = trx_id_range [OF ok h]
  have rok: "row_ok (ms_current st) d" by (rule mvcc_okD(5) [OF ok k(1)])
  have owner: "i = h \<and> op_type op = OP_INSERT \<and> row_begin d = - mt_id t"
    if u: "ms_store st i = Some u" "op \<in> set (mt_ops u)" "op_target op = (tid, r)" for i u op
  proof -
    note u' = mvcc_okD(6) [OF ok u(1)]
    have s: "mt_started u" "0 < mt_id u" using trx_okD(1,2) [OF u'] u(2) by auto
    have "owned (mt_id u) op d" using trx_okD(5) [OF u' u(2)] u(3) k(1) by auto
    then have o: "op_type op = OP_INSERT" "row_begin d = - mt_id u" using k(2) s(2) by (auto simp: owned_def max_trx_id_def)
    then have "mt_id u = mt_id t" using b(1) s(2) by simp
    then have "i = h" using mvcc_okD(7) [OF ok u(1) h(1) s(1) h(2)] by simp
    then show ?thesis using o u(1) h(1) by simp
  qed
  have added: "ops = mt_ops t \<or> ops = mt_ops t @ [?op] \<and> 0 < row_begin d \<and> (tid, r) \<notin> op_target ` set (mt_ops t)"
  proof (cases "list_ex (operation_equal ?op) (mt_ops t)")
    case True
    then show ?thesis by (simp add: ops operations_insert_def)
  next
    case False
    then have no: "(tid, r) \<notin> op_target ` set (mt_ops t)" by (auto simp: list_ex_iff equal)
    have "0 < row_begin d"
    proof (rule ccontr)
      assume "\<not> 0 < row_begin d"
      then have neg: "row_begin d < 0" using rok by (simp add: row_ok_def)
      obtain i u op where u: "ms_store st i = Some u" "op \<in> set (mt_ops u)" "op_target op = (tid, r)"
        using mvcc_okD(8) [OF ok k(1) neg] by blast
      then have "i = h" using owner by blast
      then have "op \<in> set (mt_ops t)" using u h(1) by simp
      then show False using no u(3) by force
    qed
    then show ?thesis using False no by (simp add: ops operations_insert_def)
  qed
  have rows: "row_ok (ms_current st) e" if "st_rows st' q = Some e" for q e
    using that mvcc_okD(5) [OF ok, of q e] id d' rok st'(2) by (auto simp: row_ok_def split: if_splits)
  have old: "\<exists>e. st_rows st' (op_target op) = Some e \<and> owned (mt_id u) op e" if u: "ms_store st i = Some u" "op \<in> set (mt_ops u)" for i u op
  proof (cases "op_target op = (tid, r)")
    case True
    then have "i = h" "op_type op = OP_INSERT" "row_begin d = - mt_id t" using owner [OF u] by auto
    then show ?thesis using True st'(2) d' u(1) h(1) by (simp add: owned_def)
  next
    case False
    then show ?thesis using trx_okD(5) [OF mvcc_okD(6) [OF ok u(1)] u(2)] st'(2) by simp
  qed
  have trx: "trx_ok (st_rows st') (ms_current st) u" if u: "ms_store st' i = Some u" for i u
  proof (cases "i = h")
    case True
    then have u': "u = ?t" using u st'(4) by simp
    have "distinct (map op_target ops)" using added trx_okD(4) [OF t] target(1) by auto
    moreover have "\<exists>e. st_rows st' (op_target op) = Some e \<and> owned (mt_id t) op e" if "op \<in> set ops" for op
    proof (cases "op \<in> set (mt_ops t)")
      case False
      then have "op = ?op" "0 < row_begin d" using that added by auto
      then show ?thesis using target d' st'(2) b(2) by (simp add: owned_def)
    qed (rule old [OF h(1)])
    ultimately show ?thesis using id h(2) trx_okD(3) [OF t] unfolding u' trx_ok_def by simp
  next
    case False
    then have s: "ms_store st i = Some u" using u st'(4) by simp
    then show ?thesis using mvcc_okD(6) [OF ok s] old [OF s] by (simp add: trx_ok_def)
  qed
  have same: "mt_started ?t = mt_started t" "mt_id ?t = mt_id t" by simp_all
  note uniq = uniq_upd [OF ok h(1) same st'(4)]
  have begins: "\<exists>h' t op. ms_store st' h' = Some t \<and> op \<in> set (mt_ops t) \<and> op_type op = OP_INSERT \<and> op_target op = q \<and> mt_id t = - row_begin e"
    if r': "st_rows st' q = Some e" "row_begin e < 0" for q e
  proof -
    obtain e' where e': "st_rows st q = Some e'" "row_begin e' = row_begin e" using r'(1) st'(2) k(1) d'(1) by (cases "q = (tid, r)") auto
    then obtain i u op where u: "ms_store st i = Some u" "op \<in> set (mt_ops u)" "op_type op = OP_INSERT" "op_target op = q" "mt_id u = - row_begin e"
      using mvcc_okD(8) [OF ok e'(1)] r'(2) by auto
    show ?thesis
    proof (cases "i = h")
      case True
      then have "op \<in> set ops" "mt_id t = - row_begin e" using u h(1) added by auto
      then show ?thesis using u(3,4) st'(4) by (intro exI [of _ h] exI [of _ ?t] exI [of _ op]) simp
    next
      case False
      then show ?thesis using u st'(4) by (intro exI [of _ i] exI [of _ u] exI [of _ op]) simp
    qed
  qed
  show ?thesis
    by (rule mvcc_okI [OF refl st'(3) refl st'(1) mvcc_okD(2,3) [OF ok] st'(5) rows trx uniq begins]) assumption+
qed

lemma mvcc_ok_cong:
  assumes "mvcc_ok st" "tables_ok (ms_tables st')" "st_rows st' = st_rows st" "ms_current st' = ms_current st" "ms_store st' = ms_store st"
    "clog_buffer_ok (lm_buffer (ms_log st'))"
  shows "mvcc_ok st'"
  using assms(1,2,6) unfolding mvcc_ok_def assms(3-5) by blast

lemma db_rows_same:
  assumes "tables tid = Some tb" "tb_rows tb' = tb_rows tb"
  shows "db_rows (tables(tid \<mapsto> tb')) = db_rows tables"
  using assms by (auto simp: db_rows_def fun_eq_iff)

lemma row_RID_ok: "tb_ok tb \<Longrightarrow> tb_rows tb r = Some d \<Longrightarrow> RID_ok r"
  using rf_content_rid tb_okD(1) by (fastforce simp: tb_rows_def)

definition data_entry :: "CLogType \<Rightarrow> int \<Rightarrow> target \<Rightarrow> byte list \<Rightarrow> CLogRecord" where
  "data_entry ty x k d = the (build_data_record ty x (fst k) (snd k) (int (length d)) 0 d)"

lemma append_data_ok:
  assumes ok: "clog_buffer_ok (lm_buffer lm)" and t: "ty \<in> {CLOG_INSERT, CLOG_DELETE}" and fits: "fits_i32 trx_id" "fits_i32 table_id" "RID_ok rid"
    and n: "length data < 2 ^ 20" "lb_total_size (lm_buffer lm) + (24 + int (length data)) < CLOG_BUFFER_SIZE"
  shows "\<exists>b. append_data_log ty trx_id table_id rid (int (length data)) 0 data lm = Some (SUCCESS, lm\<lparr>lm_buffer := b\<rparr>) \<and> clog_buffer_ok b \<and>
    lb_total_size b = lb_total_size (lm_buffer lm) + 24 + int (length data) \<and>
    append_log (data_entry ty trx_id (table_id, rid) data) lm = (SUCCESS, lm\<lparr>lm_buffer := b\<rparr>)"
proof -
  have r: "fits_i32 (page_num rid)" "fits_i32 (slot_num rid)" using fits(3) by (auto simp: RID_ok_def nonneg_i32_def fits_i32_def)
  have "fits_i32 0" by (simp add: fits_i32_def)
  moreover have "0 \<le> int (length data)" "int (length data) \<le> int (length data)" "int (length data) < 2 ^ 30 - 24" using n(1) by simp_all
  ultimately obtain rec where rec: "build_data_record ty trx_id table_id rid (int (length data)) 0 data = Some rec" "clog_wf rec" "logrec_len rec = 24 + int (length data)"
    using build_data_wf [OF t fits(1,2) r, of 0 "int (length data)" data] by blast
  have "logrec_len rec < 2 ^ 30" using rec(3) n(1) by simp
  then obtain b where "append_log rec lm = (SUCCESS, lm\<lparr>lm_buffer := b\<rparr>)" "clog_buffer_ok b" "lb_total_size b = lb_total_size (lm_buffer lm) + logrec_len rec"
    using append_log_ok [OF ok rec(2)] rec(3) n(2) by auto
  then show ?thesis using rec(1,3) by (intro exI [of _ b]) (simp add: append_data_log_def data_entry_def)
qed

lemma set_xid: "xid_field f (int off) \<Longrightarrow> field_set_int f v d = Some (put_i32 d off v)"
  by (simp add: field_set_int_def xid_field_def)

lemma mvcc_insert_correct:
  assumes env: "mvcc_env_ok env" and ok: "mvcc_ok st" and h: "ms_store st h = Some t" "mt_started t" and tb: "ms_tables st tid = Some tb"
    and len: "length d = nat (tm_record_size (tb_meta tb))" and fits: "\<forall>i \<in> set (tb_indexes tb). bi_fits i d \<and> bi_room i" and room: "log_room st (24 + int (length d))"
  shows "\<exists>rc rid st'. mvcc_insert_record env h tid d st = Some (rc, (marked (mt_id t) d, rid), st') \<and> mvcc_ok st' \<and> ms_current st' = ms_current st \<and>
    log_size st' \<le> log_size st + 24 + int (length d) \<and>
    (rc = SUCCESS \<and> (\<exists>r. rid = Some r \<and> st_rows st (tid, r) = None \<and> st_rows st' = (st_rows st)((tid, r) \<mapsto> marked (mt_id t) d) \<and>
        ms_store st' = (ms_store st)(h \<mapsto> t\<lparr>mt_ops := mt_ops t @ [operation_new OP_INSERT tid r]\<rparr>) \<and>
        append_log (data_entry CLOG_INSERT (mt_id t) (tid, r) (marked (mt_id t) d)) (ms_log st) = (SUCCESS, ms_log st')) \<or>
     (rc = RECORD_DUPLICATE_KEY \<and> (\<exists>i \<in> set (tb_indexes tb). \<exists>r. clashes tb (marked (mt_id t) d) i r) \<or>
      rc = BUFFERPOOL_NOBUF \<and> rf_used (tb_handler tb) = {1..<MAX_PAGE_NUM}) \<and> st_rows st' = st_rows st \<and> ms_store st' = ms_store st \<and> ms_log st' = ms_log st)"
proof -
  let ?d = "marked (mt_id t) d"
  note t = tables_okD [OF mvcc_okD(1) [OF ok] tb]
  have m: "mvcc_meta tb" "tb_ok tb" and e: "env_ok (me_table env)" using t env by (simp_all add: mvcc_table_def mvcc_env_ok_def)
  note id = trx_id_range [OF ok h]
  have neg: "neg_i32 (mt_id t) = - mt_id t" "fits_i32 (- mt_id t)" using id neg_i32_exact by (auto simp: fits_i32_def)
  have size: "8 \<le> tm_record_size (tb_meta tb)" "tm_record_size (tb_meta tb) \<le> 4000" using m(1) tb_okD(3) [OF m(2)] by (simp_all add: mvcc_meta_def)
  then have l8: "8 \<le> length d" "length d < 2 ^ 20" using len by (simp_all add: le_nat_iff nat_less_iff)
  note f = meta_fields [OF m(1)]
  have n: "index_neutral tb d (put_i32 d 0 (- mt_id t))" "index_neutral tb (put_i32 d 0 (- mt_id t)) ?d"
    using neutral_put [OF m(1), of 0 d] neutral_put [OF m(1), of 4 "put_i32 d 0 (- mt_id t)"] by (simp_all add: marked_def)
  have fits': "\<forall>i \<in> set (tb_indexes tb). bi_fits i ?d \<and> bi_room i" using fits n by (simp add: index_neutral_def)
  have len': "length ?d = nat (tm_record_size (tb_meta tb))" using len l8 neg(2) by simp
  obtain rc rid tb' where ins: "insert_record (me_table env) ?d tb = Some (rc, rid, tb')" "tb_ok tb'" "tb_meta tb' = tb_meta tb" "list_all2 bi_same (tb_indexes tb) (tb_indexes tb')"
    "if \<exists>i \<in> set (tb_indexes tb). \<exists>r. clashes tb ?d i r then rc = RECORD_DUPLICATE_KEY \<and> tb_rows tb' = tb_rows tb
     else rc = SUCCESS \<and> (\<exists>r. rid = Some r \<and> tb_rows tb r = None \<and> tb_rows tb' = (tb_rows tb)(r \<mapsto> ?d)) \<or>
       rc = BUFFERPOOL_NOBUF \<and> rid = None \<and> tb_rows tb' = tb_rows tb \<and> rf_used (tb_handler tb) = {1..<MAX_PAGE_NUM}"
    using table_insert_correct [OF e m(2) len' fits'] by blast
  have mt: "mvcc_table tb'" using ins(2) mvcc_meta_same [OF m(1) ins(3,4)] by (simp add: mvcc_table_def)
  have tok: "tables_ok ((ms_tables st)(tid \<mapsto> tb'))" using mvcc_okD(1) [OF ok] mt ins(3) t by (intro tables_ok_upd) simp_all
  have sets: "field_set_int (tm_fields (tb_meta tb) ! 0) (- mt_id t) d = Some (put_i32 d 0 (- mt_id t))"
    "field_set_int (tm_fields (tb_meta tb) ! 1) max_trx_id (put_i32 d 0 (- mt_id t)) = Some ?d" using f by (simp_all add: set_xid [of _ 0] set_xid [of _ 4] marked_def)
  let ?st = "st\<lparr>ms_tables := (ms_tables st)(tid \<mapsto> tb')\<rparr>"
  show ?thesis
  proof (cases "rc = SUCCESS")
    case False
    then have rows: "tb_rows tb' = tb_rows tb" using ins(5) by (auto split: if_splits)
    have run: "mvcc_insert_record env h tid d st = Some (rc, (?d, rid), ?st)"
      using h tb trx_fields_ok [OF env m(1)] sets ins(1) False neg(1) by (simp add: mvcc_insert_record_def)
    have "mvcc_ok ?st" by (rule mvcc_ok_cong [OF ok]) (use tok db_rows_same [where tables = "ms_tables st" and tid = tid, OF tb rows] mvcc_okD(4) [OF ok] in simp_all)
    moreover have "st_rows ?st = st_rows st" using db_rows_same [where tables = "ms_tables st" and tid = tid, OF tb rows] by simp
    moreover have "rc = RECORD_DUPLICATE_KEY \<and> (\<exists>i \<in> set (tb_indexes tb). \<exists>r. clashes tb ?d i r) \<or> rc = BUFFERPOOL_NOBUF \<and> rf_used (tb_handler tb) = {1..<MAX_PAGE_NUM}"
      using ins(5) False by (auto split: if_splits)
    ultimately show ?thesis using run by (intro exI [of _ rc] exI [of _ rid] exI [of _ ?st]) simp
  next
    case True
    then obtain r where r: "rid = Some r" "tb_rows tb r = None" "tb_rows tb' = (tb_rows tb)(r \<mapsto> ?d)" using ins(5) by (auto split: if_splits)
    have rid: "RID_ok r" using row_RID_ok [OF ins(2), of r ?d] r(3) by simp
    have none: "st_rows st (tid, r) = None" using tb r(2) by (simp add: db_rows_def)
    have rows: "st_rows ?st = (st_rows st)((tid, r) \<mapsto> ?d)" using db_rows_table [where tables = "ms_tables st" and tid = tid, OF tb r(3)] by simp
    have "fits_i32 (mt_id t)" "fits_i32 (tm_table_id (tb_meta tb))" using id m(1) by (simp_all add: fits_i32_def mvcc_meta_def)
    then obtain b where b: "append_data_log CLOG_INSERT (mt_id t) (tm_table_id (tb_meta tb')) r (int (length ?d)) 0 ?d (ms_log st) =
        Some (SUCCESS, (ms_log st)\<lparr>lm_buffer := b\<rparr>)" "clog_buffer_ok b" "lb_total_size b = log_size st + 24 + int (length d)"
      "append_log (data_entry CLOG_INSERT (mt_id t) (tid, r) ?d) (ms_log st) = (SUCCESS, (ms_log st)\<lparr>lm_buffer := b\<rparr>)"
      using append_data_ok [OF mvcc_okD(4) [OF ok], of CLOG_INSERT "mt_id t" "tm_table_id (tb_meta tb')" r ?d] rid room l8 neg(2) ins(3) t
      by (auto simp: log_room_def)
    have "op_target op \<noteq> (tid, r)" if "op \<in> set (mt_ops t)" for op
      using trx_okD(5) [OF mvcc_okD(6) [OF ok h(1)] that] none by auto
    then have "\<not> list_ex (operation_equal (operation_new OP_INSERT tid r)) (mt_ops t)"
      by (cases r) (auto simp: list_ex_iff operation_equal_def op_target_def operation_new_def)
    then have added: "operations_insert (operation_new OP_INSERT tid r) (mt_ops t) = (True, mt_ops t @ [operation_new OP_INSERT tid r])"
      by (simp add: operations_insert_def)
    let ?st' = "set_ops h t (mt_ops t @ [operation_new OP_INSERT tid r]) (?st\<lparr>ms_log := (ms_log st)\<lparr>lm_buffer := b\<rparr>\<rparr>)"
    have run: "mvcc_insert_record env h tid d st = Some (SUCCESS, (?d, rid), ?st')"
      using h tb trx_fields_ok [OF env m(1)] sets ins(1) True neg(1) r(1) b(1) added l8 neg(2) by (simp add: mvcc_insert_record_def)
    have d: "row_begin ?d = - mt_id t" "row_end ?d = max_trx_id" using l8 neg(2) by simp_all
    have "mvcc_ok ?st'"
      by (rule mvcc_ok_insert [OF ok h none d]) (use tok rows b(2) in \<open>simp_all add: set_ops_def\<close>)
    then show ?thesis using run rows none r(1) b(3,4) by (intro exI [of _ SUCCESS] exI [of _ rid] exI [of _ ?st']) (simp add: set_ops_def)
  qed
qed

text \<open>
  Deleting a row that the transaction may change. The caller hands over the bytes of the row as they are stored; \<open>alias\<close> is excluded in a debug build,
  where the updater's assertion would then compare the new mark.
\<close>

lemma delete_visits:
  assumes f: "xid_field f (int off)" "off + 4 \<le> n" "length d = n" and e: "read_i32 (nth d) off = max_trx_id" and a: "\<not> (alias \<and> me_debug env)"
  shows "visits n (\<lambda>r m. if me_debug env \<and> (if alias then v else stored_get env f r m) \<noteq> max_trx_id then None
    else map_option (Pair ()) (stored_set f v r m)) rid d () (put_i32 d off v)"
proof (rule set_visits [OF f])
  fix r :: Record and m assume d: "mem_slice m (rec_data r) n = d"
  let ?s = "mem_slice m (rec_data r) (off + 4)"
  have "stored_get env f r m = read_i32 (nth ?s) off"
    using get_xid [OF f(1), of ?s] f(1) by (simp add: stored_get_def xid_field_def nat_add_distrib)
  also have "\<dots> = read_i32 (nth d) off"
    unfolding d [symmetric] using f(2) by (intro read_i32_cong) (simp add: mem_slice_def)
  finally show "(if me_debug env \<and> (if alias then v else stored_get env f r m) \<noteq> max_trx_id then None
    else map_option (Pair ()) (stored_set f v r m)) = Some ((), write_i32 m (rec_data r + off) v)"
    using e f(1) a by (auto simp: stored_set_def xid_field_def)
qed

lemma mvcc_delete_begin:
  assumes ok: "mvcc_ok st" and h: "ms_store st h = Some t" "mt_started t" and row: "st_rows st k = Some d"
    and vis: "mvcc_visible (mt_id t) (row_begin d) (row_end d) False = SUCCESS" "0 < row_end d"
  shows "row_begin d < 0 \<longrightarrow> row_begin d = - mt_id t" "row_begin d \<le> mt_id t"
proof -
  have "row_begin d \<noteq> 0" using mvcc_okD(5) [OF ok row] by (simp add: row_ok_def)
  then show "row_begin d \<le> mt_id t" using vis trx_id_range [OF ok h] by (auto simp: mvcc_visible_def split: if_splits)
  show "row_begin d < 0 \<longrightarrow> row_begin d = - mt_id t"
  proof
    assume n: "row_begin d < 0"
    then have "neg_i32 (row_begin d) = mt_id t" using vis(1) by (auto simp: mvcc_visible_def split: if_splits)
    moreover have "neg_i32 (row_begin d) = - row_begin d"
    proof -
      obtain i u op where "ms_store st i = Some u" "op \<in> set (mt_ops u)" "mt_id u = - row_begin d" using mvcc_okD(8) [OF ok row n] by blast
      then have "- row_begin d < 2 ^ 31" using trx_id_range [OF ok] trx_okD(2) [OF mvcc_okD(6) [OF ok]] by metis
      then show ?thesis using n by (auto simp: neg_i32_def fits_i32_def intro!: cast_i32_fits)
    qed
    ultimately show "row_begin d = - mt_id t" by simp
  qed
qed

lemma mvcc_delete_correct:
  assumes env: "mvcc_env_ok env" and ok: "mvcc_ok st" and h: "ms_store st h = Some t" "mt_started t" and tb: "ms_tables st tid = Some tb"
    and d: "tb_rows tb r = Some d" and vis: "mvcc_visible (mt_id t) (row_begin d) (row_end d) False = SUCCESS" "0 < row_end d"
    and na: "\<not> (alias \<and> me_debug env)" and room: "log_room st 24"
  shows "\<exists>st'. mvcc_delete_record env h tid alias d r st = Some (SUCCESS, st') \<and> mvcc_ok st' \<and> ms_current st' = ms_current st \<and> log_size st' \<le> log_size st + 24 \<and>
    (if row_end d = max_trx_id
     then st_rows st' = (st_rows st)((tid, r) \<mapsto> put_i32 d 4 (- mt_id t)) \<and>
       ms_store st' = (ms_store st)(h \<mapsto> t\<lparr>mt_ops := snd (operations_insert (operation_new OP_DELETE tid r) (mt_ops t))\<rparr>)
     else st' = st) \<and>
    (row_end d = max_trx_id \<longrightarrow> append_log (data_entry CLOG_DELETE (mt_id t) (tid, r) []) (ms_log st) = (SUCCESS, ms_log st'))"
proof -
  note t = tables_okD [OF mvcc_okD(1) [OF ok] tb]
  have m: "mvcc_meta tb" "tb_ok tb" using t by (simp_all add: mvcc_table_def)
  note id = trx_id_range [OF ok h] and f = meta_fields [OF m(1)]
  have neg: "neg_i32 (mt_id t) = - mt_id t" "fits_i32 (- mt_id t)" using id neg_i32_exact by (auto simp: fits_i32_def)
  have l8: "8 \<le> length d" by (rule row_length8 [OF conjunct1 [OF t] d])
  have row: "st_rows st (tid, r) = Some d" using tb d by (simp add: db_rows_def)
  have e: "me_get env (tm_fields (tb_meta tb) ! 1) d = row_end d" using get_xid [OF conjunct2 [OF f], of d] l8 by (simp add: row_end_def)
  show ?thesis
  proof (cases "row_end d = max_trx_id")
    case False
    then have "mvcc_delete_record env h tid alias d r st = Some (SUCCESS, st)"
      using h tb trx_fields_ok [OF env m(1)] e vis(2) by (simp add: mvcc_delete_record_def)
    then show ?thesis using False ok by simp
  next
    case True
    let ?v = "- mt_id t" and ?f = "tm_fields (tb_meta tb) ! 1"
    have "visits (nat (tm_record_size (tb_meta tb))) (\<lambda>r m. if me_debug env \<and> (if alias then ?v else stored_get env ?f r m) \<noteq> max_trx_id then None
        else map_option (Pair ()) (stored_set ?f ?v r m)) r d () (put_i32 d 4 ?v)"
      using delete_visits [OF conjunct2 [OF f] _ row_length [OF m(2) d] _ na] True l8 row_length [OF m(2) d] by (simp add: row_end_def)
    from visit_row_correct [OF env conjunct1 [OF t] d conjunct2 [OF f] _ this] obtain hd where
      v: "visit_record (me_table env) r False (\<lambda>r m. if me_debug env \<and> (if alias then ?v else stored_get env ?f r m) \<noteq> max_trx_id then None
        else map_option (Pair ()) (stored_set ?f ?v r m)) tb = Some (SUCCESS, Some (), tb\<lparr>tb_handler := hd\<rparr>)"
      "mvcc_table (tb\<lparr>tb_handler := hd\<rparr>)" "tb_rows (tb\<lparr>tb_handler := hd\<rparr>) = (tb_rows tb)(r \<mapsto> put_i32 d 4 ?v)" by auto
    let ?tb = "tb\<lparr>tb_handler := hd\<rparr>"
    let ?st = "st\<lparr>ms_tables := (ms_tables st)(tid \<mapsto> ?tb)\<rparr>"
    have rows: "st_rows ?st = (st_rows st)((tid, r) \<mapsto> put_i32 d 4 ?v)" using db_rows_table [where tables = "ms_tables st" and tid = tid, OF tb v(3)] by simp
    have tok: "tables_ok ((ms_tables st)(tid \<mapsto> ?tb))" using mvcc_okD(1) [OF ok] v(2) t by (intro tables_ok_upd) simp_all
    have "fits_i32 (mt_id t)" "fits_i32 (tm_table_id (tb_meta tb))" using id m(1) by (simp_all add: fits_i32_def mvcc_meta_def)
    then obtain b where b: "append_data_log CLOG_DELETE (mt_id t) (tm_table_id (tb_meta tb)) r 0 0 [] (ms_log st) = Some (SUCCESS, (ms_log st)\<lparr>lm_buffer := b\<rparr>)"
      "clog_buffer_ok b" "lb_total_size b = log_size st + 24"
      "append_log (data_entry CLOG_DELETE (mt_id t) (tid, r) []) (ms_log st) = (SUCCESS, (ms_log st)\<lparr>lm_buffer := b\<rparr>)"
      using append_data_ok [OF mvcc_okD(4) [OF ok], of CLOG_DELETE "mt_id t" "tm_table_id (tb_meta tb)" r "[]"] row_RID_ok [OF m(2) d] room t
      by (auto simp: log_room_def)
    let ?ops = "snd (operations_insert (operation_new OP_DELETE tid r) (mt_ops t))"
    let ?st' = "set_ops h t ?ops (?st\<lparr>ms_log := (ms_log st)\<lparr>lm_buffer := b\<rparr>\<rparr>)"
    have run: "mvcc_delete_record env h tid alias d r st = Some (SUCCESS, ?st')"
      using h tb trx_fields_ok [OF env m(1)] e True v(1) [folded neg(1)] b(1) by (simp add: mvcc_delete_record_def Let_def max_trx_id_def del: One_nat_def)
    note begin_own = mvcc_delete_begin [OF ok h row vis]
    have "mvcc_ok ?st'"
      by (rule mvcc_ok_delete [OF ok h row True begin_own _ _ refl]) (use tok rows b(2) l8 neg(2) in \<open>simp_all add: set_ops_def\<close>)
    then show ?thesis using run rows True b(3,4) by (intro exI [of _ ?st']) (simp add: set_ops_def)
  qed
qed

end
