(* ===== verification/MvccSteps.thy ===== *)
theory MvccSteps
  imports MvccContract
begin

section \<open>Interleaved transactions\<close>

text \<open>
  The transactions of all connections as one step relation: a step is one call of one transaction, with what its caller sees to. The deleted row was
  read before and may be changed (\<open>visit_record\<close> for writing said so); a debug build needs a copy of it. The log has room and the numbers do not run out.
\<close>

subsection \<open>Steps\<close>

inductive mvcc_step :: "MvccEnv \<Rightarrow> nat \<Rightarrow> MvccState \<Rightarrow> MvccState \<Rightarrow> bool" for env :: MvccEnv and h :: nat where
  create: "ms_store st h = None \<Longrightarrow> mvcc_step env h st (create_trx h st)"
| start: "\<lbrakk>ms_store st h = Some t; ms_current st + 1 < max_trx_id; log_room st 0; start_if_need env h st = Some (rc, st')\<rbrakk> \<Longrightarrow> mvcc_step env h st st'"
| insert: "\<lbrakk>ms_store st h = Some t; mt_started t; ms_tables st tid = Some tb; length d = nat (tm_record_size (tb_meta tb));
     \<forall>i \<in> set (tb_indexes tb). bi_fits i d \<and> bi_room i; log_room st (24 + int (length d));
     mvcc_insert_record env h tid d st = Some (rc, x, st')\<rbrakk> \<Longrightarrow> mvcc_step env h st st'"
| delete: "\<lbrakk>ms_store st h = Some t; mt_started t; ms_tables st tid = Some tb; tb_rows tb r = Some d;
     mvcc_visit_record env h tid d False st = Some SUCCESS; 0 < row_end d; \<not> (alias \<and> me_debug env); log_room st 24;
     mvcc_delete_record env h tid alias d r st = Some (rc, st')\<rbrakk> \<Longrightarrow> mvcc_step env h st st'"
| commit: "\<lbrakk>ms_store st h = Some t; mt_started t; ms_current st + 1 < max_trx_id; log_room st 4; mvcc_commit env h st = Some (rc, st')\<rbrakk> \<Longrightarrow> mvcc_step env h st st'"
| rollback: "\<lbrakk>ms_store st h = Some t; mt_started t; log_room st 0; mvcc_rollback env h st = Some (rc, st')\<rbrakk> \<Longrightarrow> mvcc_step env h st st'"

text \<open>A database that has been opened: no transaction, no mark.\<close>

definition mvcc_init :: "MvccState \<Rightarrow> bool" where
  "mvcc_init st \<longleftrightarrow> tables_ok (ms_tables st) \<and> 0 \<le> ms_current st \<and> ms_current st < max_trx_id \<and> clog_buffer_ok (lm_buffer (ms_log st)) \<and>
     ms_store st = Map.empty \<and> (\<forall>k d. st_rows st k = Some d \<longrightarrow> row_ok (ms_current st) d \<and> 0 < row_begin d)"

inductive mvcc_reach :: "MvccEnv \<Rightarrow> MvccState \<Rightarrow> bool" for env :: MvccEnv where
  init: "mvcc_init st \<Longrightarrow> mvcc_reach env st"
| step: "mvcc_reach env st \<Longrightarrow> mvcc_step env h st st' \<Longrightarrow> mvcc_reach env st'"

text \<open>A run from a given state.\<close>

inductive mvcc_run :: "MvccEnv \<Rightarrow> MvccState \<Rightarrow> MvccState \<Rightarrow> bool" for env :: MvccEnv and st0 :: MvccState where
  none: "mvcc_run env st0 st0"
| more: "mvcc_run env st0 st \<Longrightarrow> mvcc_step env h st st' \<Longrightarrow> mvcc_run env st0 st'"

lemma mvcc_run_reach: "mvcc_run env st0 st \<Longrightarrow> mvcc_init st0 \<Longrightarrow> mvcc_reach env st"
  by (induction rule: mvcc_run.induct) (auto intro: mvcc_reach.intros)

lemma mvcc_init_ok: "mvcc_init st \<Longrightarrow> mvcc_ok st"
  by (rule mvcc_okI [OF refl refl refl]) (fastforce simp: mvcc_init_def)+

lemma visit_for_delete:
  assumes env: "mvcc_env_ok env" and ok: "mvcc_ok st" and h: "ms_store st h = Some t" and tb: "ms_tables st tid = Some tb" and d: "tb_rows tb r = Some d"
  shows "mvcc_visit_record env h tid d ro st = Some (mvcc_visible (mt_id t) (row_begin d) (row_end d) ro)"
proof -
  note t = tables_okD [OF mvcc_okD(1) [OF ok] tb]
  then have m: "mvcc_meta tb" by (simp add: mvcc_table_def)
  have "8 \<le> length d" by (rule row_length8 [OF conjunct1 [OF t] d])
  then show ?thesis using h tb trx_fields_ok [OF env m] get_xid [OF conjunct1 [OF meta_fields [OF m]], of d] get_xid [OF conjunct2 [OF meta_fields [OF m]], of d]
    by (simp add: mvcc_visit_record_def row_begin_def row_end_def)
qed

text \<open>
  What a step does: to the rows, and nothing to the other transactions.
\<close>

definition row_step :: "MvccTrx \<Rightarrow> int \<Rightarrow> byte list option \<Rightarrow> byte list option \<Rightarrow> bool" where
  "row_step t cur x y \<longleftrightarrow> x = y \<or>
     (x = None \<and> (\<exists>d. y = Some d \<and> row_begin d = - mt_id t)) \<or>
     (\<exists>d. x = Some d \<and> row_begin d = - mt_id t \<and> y = None) \<or>
     (\<exists>d d'. x = Some d \<and> y = Some d' \<and> drop 8 d' = drop 8 d \<and>
       (row_begin d = - mt_id t \<and> (row_begin d' = - mt_id t \<or> row_begin d' = cur + 1) \<or>
        0 < row_begin d \<and> row_begin d \<le> mt_id t \<and> row_begin d' = row_begin d \<and>
          (row_end d = max_trx_id \<and> row_end d' = - mt_id t \<or> row_end d = - mt_id t \<and> (row_end d' = cur + 1 \<or> row_end d' = max_trx_id))))"

definition others_kept :: "nat \<Rightarrow> MvccState \<Rightarrow> MvccState \<Rightarrow> bool" where
  "others_kept h st st' \<longleftrightarrow> (\<forall>i. i \<noteq> h \<longrightarrow> ms_store st' i = ms_store st i) \<and> ms_current st \<le> ms_current st'"

lemma drop_put_i32 [simp]: "off + 4 \<le> 8 \<Longrightarrow> drop 8 (put_i32 d off v) = drop 8 d"
  by (rule put_i32_drop)

lemma row_step_effect:
  assumes ok: "mvcc_ok st" and h: "ms_store st h = Some t" "mt_started t" and cur: "fits_i32 (ms_current st + 1)"
    and g: "g = commit_effect (ms_current st + 1) \<or> g = rollback_effect"
  shows "row_step t (ms_current st) (st_rows st k) (op_effect g (mt_ops t) (st_rows st) k)"
proof (cases "k \<in> op_target ` set (mt_ops t)")
  case False
  then show ?thesis by (simp add: op_effect_out row_step_def)
next
  case True
  then obtain op where op: "op \<in> set (mt_ops t)" "k = op_target op" by blast
  have t: "trx_ok (st_rows st) (ms_current st) t" by (rule mvcc_okD(6) [OF ok h(1)])
  obtain d where d: "st_rows st k = Some d" "owned (mt_id t) op d" using trx_okD(5) [OF t op(1)] op(2) by auto
  have l: "8 \<le> length d" by (rule db_rows_length [OF mvcc_okD(1) [OF ok] d(1)])
  have e: "op_effect g (mt_ops t) (st_rows st) k = g op d" using op_effect_in [OF conjunct1 [OF trx_inj [OF t]] op(1), of g] op(2) d(1) by simp
  show ?thesis using d l g cur fits_max unfolding e d(1) row_step_def
    by (auto simp: commit_effect_def rollback_effect_def owned_def)
qed

lemma mvcc_step_effect:
  assumes env: "mvcc_env_ok env" and ok: "mvcc_ok st" and step: "mvcc_step env h st st'"
  shows "mvcc_ok st' \<and> others_kept h st st' \<and>
    (st_rows st' = st_rows st \<or> (\<exists>t. ms_store st h = Some t \<and> mt_started t \<and> (\<forall>k. row_step t (ms_current st) (st_rows st k) (st_rows st' k))))"
  using step
proof cases
  case create
  have "ms_tables (create_trx h st) = ms_tables st" "others_kept h st (create_trx h st)" by (simp_all add: create_trx_def others_kept_def)
  then show ?thesis using mvcc_create_ok [OF ok create(2)] create(1) by simp
next
  case (start t rc)
  obtain s u where s: "start_if_need env h st = Some (SUCCESS, s)" "mvcc_ok s" "st_rows s = st_rows st" "ms_store s = (ms_store st)(h \<mapsto> u)"
    "if mt_started t then s = st else mt_id u = ms_current st + 1 \<and> ms_current s = ms_current st + 1"
    using mvcc_start_correct [OF ok start(1,2,3)] by blast
  then have "st' = s" using start(4) by simp
  then show ?thesis using s by (auto simp: others_kept_def split: if_splits)
next
  case (insert t tid tb d rc x)
  note h = insert(1,2)
  obtain rc' rid s where s: "mvcc_insert_record env h tid d st = Some (rc', (marked (mt_id t) d, rid), s)" "mvcc_ok s" "ms_current s = ms_current st"
    "rc' = SUCCESS \<and> (\<exists>r. rid = Some r \<and> st_rows st (tid, r) = None \<and> st_rows s = (st_rows st)((tid, r) \<mapsto> marked (mt_id t) d) \<and>
        ms_store s = (ms_store st)(h \<mapsto> t\<lparr>mt_ops := mt_ops t @ [operation_new OP_INSERT tid r]\<rparr>)) \<or> st_rows s = st_rows st \<and> ms_store s = ms_store st"
    using mvcc_insert_correct [OF env ok insert(1-6)] by blast
  have st': "st' = s" using s(1) insert(7) by simp
  have "mvcc_table tb" using tables_okD [OF mvcc_okD(1) [OF ok] insert(3)] by simp
  then have "8 \<le> length d" "fits_i32 (- mt_id t)" using insert(4) trx_id_range [OF ok h] by (auto simp: mvcc_table_def mvcc_meta_def le_nat_iff fits_i32_def)
  then have m: "row_begin (marked (mt_id t) d) = - mt_id t" by simp
  from s(4) show ?thesis
  proof (elim disjE conjE exE)
    fix r assume r: "st_rows st (tid, r) = None" "st_rows s = (st_rows st)((tid, r) \<mapsto> marked (mt_id t) d)"
      "ms_store s = (ms_store st)(h \<mapsto> t\<lparr>mt_ops := mt_ops t @ [operation_new OP_INSERT tid r]\<rparr>)"
    have "row_step t (ms_current st) (st_rows st k) (st_rows s k)" for k using r(1,2) m by (auto simp: row_step_def)
    moreover have "others_kept h st s" using r(3) s(3) by (simp add: others_kept_def)
    ultimately show ?thesis using s(2) h st' by blast
  next
    assume "st_rows s = st_rows st" "ms_store s = ms_store st"
    then show ?thesis using s(2,3) st' by (simp add: others_kept_def)
  qed
next
  case (delete t tid tb r d al rc)
  note h = delete(1,2)
  have vis: "mvcc_visible (mt_id t) (row_begin d) (row_end d) False = SUCCESS" using delete(5) visit_for_delete [OF env ok delete(1,3,4)] by simp
  obtain s where s: "mvcc_delete_record env h tid al d r st = Some (SUCCESS, s)" "mvcc_ok s" "ms_current s = ms_current st"
    "if row_end d = max_trx_id then st_rows s = (st_rows st)((tid, r) \<mapsto> put_i32 d 4 (- mt_id t)) \<and>
       ms_store s = (ms_store st)(h \<mapsto> t\<lparr>mt_ops := snd (operations_insert (operation_new OP_DELETE tid r) (mt_ops t))\<rparr>) else s = st"
    using mvcc_delete_correct [OF env ok delete(1-4) vis delete(6-8)] by blast
  have st': "st' = s" using s(1) delete(9) by simp
  show ?thesis
  proof (cases "row_end d = max_trx_id")
    case False
    then show ?thesis using s st' by (simp add: others_kept_def)
  next
    case True
    have row: "st_rows st (tid, r) = Some d" using delete(3,4) by (simp add: db_rows_def)
    have l: "8 \<le> length d" by (rule db_rows_length [OF mvcc_okD(1) [OF ok] row])
    have neg: "fits_i32 (- mt_id t)" using trx_id_range [OF ok h] by (auto simp: fits_i32_def)
    have "row_begin d = - mt_id t \<or> 0 < row_begin d" "row_begin d \<le> mt_id t"
      using mvcc_delete_begin [OF ok h row vis delete(6)] mvcc_okD(5) [OF ok row] by (auto simp: row_ok_def)
    then have "row_step t (ms_current st) (st_rows st k) (st_rows s k)" for k using s(4) True row l neg by (auto simp: row_step_def)
    moreover have "others_kept h st s" using s(3,4) True by (simp add: others_kept_def)
    ultimately show ?thesis using s(2) h st' by blast
  qed
next
  case (commit t rc)
  have c: "fits_i32 (ms_current st + 1)" using mvcc_okD(2) [OF ok] commit(3) by (auto simp: fits_i32_def max_trx_id_def)
  obtain s where s: "mvcc_commit env h st = Some (clog_file_sync (me_clog env), s)" "mvcc_ok s" "ms_current s = ms_current st + 1"
    "st_rows s = op_effect (commit_effect (ms_current st + 1)) (mt_ops t) (st_rows st)" "ms_store s = (ms_store st)(h \<mapsto> t\<lparr>mt_started := False, mt_ops := []\<rparr>)"
    using mvcc_commit_correct [OF env ok commit(1-4)] by blast
  moreover have "st' = s" using s(1) commit(5) by simp
  ultimately show ?thesis using row_step_effect [OF ok commit(1,2) c] commit(1,2) by (auto simp: others_kept_def)
next
  case (rollback t rc)
  have c: "fits_i32 (ms_current st + 1)" using mvcc_okD(2,3) [OF ok] by (auto simp: fits_i32_def max_trx_id_def)
  obtain s where s: "mvcc_rollback env h st = Some (SUCCESS, s)" "mvcc_ok s" "ms_current s = ms_current st"
    "st_rows s = op_effect rollback_effect (mt_ops t) (st_rows st)" "ms_store s = (ms_store st)(h \<mapsto> t\<lparr>mt_started := False, mt_ops := []\<rparr>)"
    using mvcc_rollback_correct [OF env ok rollback(1-3)] by blast
  moreover have "st' = s" using s(1) rollback(4) by simp
  ultimately show ?thesis using row_step_effect [OF ok rollback(1,2) c] rollback(1,2) by (auto simp: others_kept_def)
qed

lemma mvcc_reach_ok:
  assumes "mvcc_env_ok env" "mvcc_reach env st"
  shows "mvcc_ok st"
  using assms(2)
proof (induction rule: mvcc_reach.induct)
  case (init st)
  then show ?case by (rule mvcc_init_ok)
next
  case (step st h st')
  then show ?case using mvcc_step_effect [OF assms(1)] by blast
qed

subsection \<open>What a transaction sees\<close>

text \<open>
  The rows a transaction with the number \<open>x\<close> is meant to see: those it has inserted and those committed before it began, without the ones it has deleted itself
  and the ones whose deletion was committed before it began. A row that another transaction is deleting belongs to them, as that deletion is not committed; but a transaction can only
  delete what was committed before it began. When the begin of a row is larger than the number in its end mark, the transaction with that number has inserted and
  deleted the row and has committed both, and nobody is meant to see the row.
\<close>

definition in_snapshot :: "int \<Rightarrow> byte list \<Rightarrow> bool" where
  "in_snapshot x d \<longleftrightarrow> row_end d \<noteq> - x \<and>
     (row_begin d = - x \<or> 0 < row_begin d \<and> row_begin d \<le> x \<and> (if row_end d < 0 then row_begin d \<le> - row_end d else x \<le> row_end d))"

definition snapshot :: "MvccState \<Rightarrow> int \<Rightarrow> (target \<times> byte list) set" where
  "snapshot st x = {(k, drop 8 d) | k d. st_rows st k = Some d \<and> in_snapshot x d}"

lemma neg_i32_eq: "0 < x \<Longrightarrow> x < 2 ^ 31 \<Longrightarrow> fits_i32 v \<Longrightarrow> neg_i32 v = x \<longleftrightarrow> v = - x"
proof -
  assume a: "0 < x" "x < 2 ^ 31" "fits_i32 v"
  show "neg_i32 v = x \<longleftrightarrow> v = - x"
  proof (cases "v = - (2 ^ 31)")
    case True
    then have "neg_i32 v = - (2 ^ 31)" by (simp add: neg_i32_def cast_i32_def)
    then show ?thesis using True a(1,2) by simp
  next
    case False
    then have "neg_i32 v = - v" using a(3) by (auto simp: neg_i32_def fits_i32_def intro!: cast_i32_fits)
    then show ?thesis by auto
  qed
qed

lemma visible_exact:
  assumes "row_ok cur d" "0 < x" "x < 2 ^ 31"
  shows "mvcc_visible x (row_begin d) (row_end d) True = SUCCESS \<longleftrightarrow> in_snapshot x d \<or> row_begin d = - x \<and> row_end d = - x \<or>
    0 < row_begin d \<and> row_end d < 0 \<and> row_end d \<noteq> - x \<and> (x < row_begin d \<or> - row_end d < row_begin d)"
  using assms neg_i32_eq [OF assms(2,3), of "row_begin d"] neg_i32_eq [OF assms(2,3), of "row_end d"]
  by (auto simp: mvcc_visible_def in_snapshot_def row_ok_def)

lemma unseen_mark: "row_begin d = - m \<Longrightarrow> 0 < m \<Longrightarrow> m \<noteq> i \<Longrightarrow> \<not> in_snapshot i d"
  by (auto simp: in_snapshot_def)

lemma row_step_snapshot:
  assumes step: "row_step t cur x y" and i: "0 < mt_id t" "mt_id t \<noteq> i" "0 < i" "i \<le> cur" "i \<le> max_trx_id"
  shows "(\<exists>d. x = Some d \<and> in_snapshot i d \<and> z = drop 8 d) \<longleftrightarrow> (\<exists>d. y = Some d \<and> in_snapshot i d \<and> z = drop 8 d)"
  using step unfolding row_step_def
proof (elim disjE exE)
  fix d d' assume a: "x = Some d \<and> y = Some d' \<and> drop 8 d' = drop 8 d \<and>
    (row_begin d = - mt_id t \<and> (row_begin d' = - mt_id t \<or> row_begin d' = cur + 1) \<or>
     0 < row_begin d \<and> row_begin d \<le> mt_id t \<and> row_begin d' = row_begin d \<and>
       (row_end d = max_trx_id \<and> row_end d' = - mt_id t \<or> row_end d = - mt_id t \<and> (row_end d' = cur + 1 \<or> row_end d' = max_trx_id)))"
  have "in_snapshot i d = in_snapshot i d'"
  proof (cases "row_begin d = - mt_id t")
    case True
    then have "row_begin d' = - mt_id t \<or> row_begin d' = cur + 1" using a i(1) by auto
    then have "\<not> in_snapshot i d'" using unseen_mark [of d', OF _ i(1,2)] i(3,4) by (auto simp: in_snapshot_def)
    then show ?thesis using unseen_mark [OF True i(1,2)] by simp
  next
    case False
    then have "row_begin d' = row_begin d" "row_begin d \<le> mt_id t" and e: "row_end d = max_trx_id \<and> row_end d' = - mt_id t \<or> row_end d = - mt_id t \<and> (row_end d' = cur + 1 \<or> row_end d' = max_trx_id)"
      using a by auto
    from e i this(1,2) show ?thesis by (elim disjE conjE) (auto simp: in_snapshot_def max_trx_id_def)
  qed
  then show ?thesis using a by auto
qed (use i unseen_mark in auto)

lemma snapshot_eqI: "(\<And>k z. (\<exists>d. st_rows st k = Some d \<and> in_snapshot i d \<and> z = drop 8 d) \<longleftrightarrow> (\<exists>d. st_rows st' k = Some d \<and> in_snapshot i d \<and> z = drop 8 d)) \<Longrightarrow>
  snapshot st i = snapshot st' i"
  unfolding snapshot_def by fastforce

lemma snapshot_stable_step:
  assumes env: "mvcc_env_ok env" and ok: "mvcc_ok st" and step: "mvcc_step env h st st'" and u: "ms_store st i = Some u" "mt_started u" "i \<noteq> h"
  shows "snapshot st' (mt_id u) = snapshot st (mt_id u)"
proof -
  note id = trx_id_range [OF ok u(1,2)]
  have le: "mt_id u \<le> max_trx_id" using id by (simp add: max_trx_id_def)
  from conjunct2 [OF conjunct2 [OF mvcc_step_effect [OF env ok step]]] show ?thesis
  proof (elim disjE exE conjE)
    assume "st_rows st' = st_rows st"
    then show ?thesis by (simp add: snapshot_def)
  next
    fix t assume t: "ms_store st h = Some t" "mt_started t" and rows: "\<forall>k. row_step t (ms_current st) (st_rows st k) (st_rows st' k)"
    have "mt_id t \<noteq> mt_id u" using mvcc_okD(7) [OF ok t(1) u(1) t(2) u(2)] u(3) by blast
    moreover have "0 < mt_id t" using trx_id_range [OF ok t] by simp
    ultimately have "snapshot st (mt_id u) = snapshot st' (mt_id u)"
      by (intro snapshot_eqI row_step_snapshot [OF rows [rule_format]]) (use id le in simp_all)
    then show ?thesis by simp
  qed
qed

text \<open>A row that its own transaction has inserted and deleted again; the set of operations still holds the insertion only.\<close>

lemma commit_keeps_own_end:
  assumes env: "mvcc_env_ok env" and ok: "mvcc_ok st" and h: "ms_store st h = Some t" "mt_started t"
    and room: "ms_current st + 1 < max_trx_id" "log_room st 4" and d: "st_rows st k = Some d" "row_begin d = - mt_id t" "row_end d = - mt_id t"
  shows "\<exists>st' d'. mvcc_commit env h st = Some (clog_file_sync (me_clog env), st') \<and> st_rows st' k = Some d' \<and>
    row_begin d' = ms_current st + 1 \<and> row_end d' = - mt_id t"
proof -
  note id = trx_id_range [OF ok h]
  obtain i u op where u: "ms_store st i = Some u" "op \<in> set (mt_ops u)" "op_type op = OP_INSERT" "op_target op = k" "mt_id u = - row_begin d"
    using mvcc_okD(8) [OF ok d(1)] d(2) id by auto
  have "mt_started u" using trx_okD(2) [OF mvcc_okD(6) [OF ok u(1)] u(2)] .
  then have "i = h" using mvcc_okD(7) [OF ok u(1) h(1) _ h(2)] u(5) d(2) by simp
  then have op: "op \<in> set (mt_ops t)" using u(1,2) h(1) by simp
  obtain st' where st': "mvcc_commit env h st = Some (clog_file_sync (me_clog env), st')"
    "st_rows st' = op_effect (commit_effect (ms_current st + 1)) (mt_ops t) (st_rows st)" using mvcc_commit_correct [OF env ok h room] by blast
  have "st_rows st' k = Some (put_i32 d 0 (ms_current st + 1))"
    using op_effect_in [OF conjunct1 [OF trx_inj [OF mvcc_okD(6) [OF ok h(1)]]] op] u(3,4) d(1) st'(2) by (auto simp: commit_effect_def)
  moreover have "8 \<le> length d" by (rule db_rows_length [OF mvcc_okD(1) [OF ok] d(1)])
  moreover have "fits_i32 (ms_current st + 1)" using mvcc_okD(2) [OF ok] room(1) by (auto simp: fits_i32_def max_trx_id_def)
  ultimately show ?thesis using st'(1) d(3) by (intro exI [of _ st'] exI [of _ "put_i32 d 0 (ms_current st + 1)"]) simp
qed

lemma visible_open_end: "0 < b \<Longrightarrow> 0 < u \<Longrightarrow> u < 2 ^ 31 \<Longrightarrow> 0 < x \<Longrightarrow> x < 2 ^ 31 \<Longrightarrow> x \<noteq> u \<Longrightarrow>
  mvcc_visible x b (- u) True = SUCCESS \<and> mvcc_visible x b (- u) False = LOCKED_CONCURRENCY_CONFLICT"
  using neg_i32_eq [of x "- u"] by (simp add: mvcc_visible_def fits_i32_def)

subsection \<open>A small database\<close>

definition xid_demo_table :: Table where
  "xid_demo_table = \<lparr>tb_meta = \<lparr>tm_table_id = 1, tm_name = [116], tm_fields =
       [\<lparr>fm_name = xid_begin_name, fm_type = INTS, fm_offset = 0, fm_len = 4, fm_visible = False, fm_nullable = False\<rparr>,
        \<lparr>fm_name = xid_end_name, fm_type = INTS, fm_offset = 4, fm_len = 4, fm_visible = False, fm_nullable = False\<rparr>,
        \<lparr>fm_name = [105, 100], fm_type = INTS, fm_offset = 8, fm_len = 4, fm_visible = True, fm_nullable = False\<rparr>],
       tm_indexes = [], tm_record_size = 12\<rparr>,
     tb_handler = no_pages, tb_indexes = [], tb_forced_null = Map.empty, tb_overflow = Map.empty, tb_next_text = 1\<rparr>"

definition xid_demo_env :: MvccEnv where
  "xid_demo_env = \<lparr>me_table = (demo_env undefined)\<lparr>te_kit := mvcc_kit_fields\<rparr>, me_clog = demo_clog_env, me_order = rev\<rparr>"

definition xid_demo_init :: MvccState where
  "xid_demo_init = \<lparr>ms_current = 0, ms_store = Map.empty, ms_trxes = [], ms_tables = [1 \<mapsto> xid_demo_table],
     ms_log = \<lparr>lm_buffer = clog_buffer_new, lm_file = \<lparr>lf_file = \<lparr>of_bytes = [], of_pos = 0, of_tick = 0\<rparr>, lf_eof = False\<rparr>\<rparr>\<rparr>"

definition xid_demo_row :: "byte list" where
  "xid_demo_row = [0, 0, 0, 0, 0, 0, 0, 0, 7, 0, 0, 0]"

lemma xid_demo_env_ok: "mvcc_env_ok xid_demo_env"
proof -
  have "sys_field_num mvcc_kit_fields = 2"
    by (simp add: sys_field_num_def mvcc_kit_fields_def field_make_def field_init_def is_blank_def is_space_def xid_begin_name_def xid_end_name_def c_str_def)
  then show ?thesis using demo_env_ok [of undefined] demo_clog_env_ok by (simp add: mvcc_env_ok_def xid_demo_env_def env_ok_def)
qed

lemma xid_demo_init_ok: "mvcc_init xid_demo_init" "st_rows xid_demo_init = Map.empty" "ms_tables xid_demo_init 1 = Some xid_demo_table"
proof -
  have rows: "tb_rows xid_demo_table = Map.empty" by (simp add: tb_rows_def xid_demo_table_def)
  have "tb_ok xid_demo_table" by (simp add: tb_ok_def xid_demo_table_def)
  moreover have "mvcc_meta xid_demo_table" by (simp add: mvcc_meta_def xid_field_def xid_demo_table_def fits_i32_def)
  ultimately have "tables_ok (ms_tables xid_demo_init)" by (auto simp: tables_ok_def mvcc_table_def xid_demo_init_def xid_demo_table_def split: if_splits)
  moreover show none: "st_rows xid_demo_init = Map.empty" using rows by (auto simp: db_rows_def xid_demo_init_def fun_eq_iff)
  ultimately show "mvcc_init xid_demo_init" unfolding mvcc_init_def none
    by (simp add: xid_demo_init_def max_trx_id_def clog_buffer_ok_def clog_buffer_new_def CLOG_BUFFER_SIZE_def)
  show "ms_tables xid_demo_init 1 = Some xid_demo_table" by (simp add: xid_demo_init_def)
qed

text \<open>Two transactions, numbered 1 and 2; the first has inserted a row.\<close>

lemma xid_demo_run:
  obtains st r u l1 l2 where "mvcc_run xid_demo_env xid_demo_init st" "ms_store st 0 = Some \<lparr>mt_id = 1, mt_started = True, mt_recovering = False, mt_ops = [operation_new OP_INSERT 1 r]\<rparr>"
    "ms_store st 1 = Some u" "mt_started u" "mt_id u = 2" "mt_ops u = []" "st_rows st = [(1, r) \<mapsto> marked 1 xid_demo_row]" "ms_current st = 2" "log_size st \<le> 36"
    "append_log (build_mtr_record MTR_BEGIN 1) (ms_log xid_demo_init) = (SUCCESS, l1)" "append_log (build_mtr_record MTR_BEGIN 2) l1 = (SUCCESS, l2)"
    "append_log (data_entry CLOG_INSERT 1 (1, r) (marked 1 xid_demo_row)) l2 = (SUCCESS, ms_log st)"
proof -
  note env = xid_demo_env_ok
  define s1 where "s1 = create_trx 1 (create_trx 0 xid_demo_init)"
  note reach = mvcc_reach_ok [OF env mvcc_run_reach [OF _ xid_demo_init_ok(1)]]
  have r1: "mvcc_run xid_demo_env xid_demo_init s1"
    unfolding s1_def by (intro mvcc_run.more [OF mvcc_run.more [OF mvcc_run.none mvcc_step.create] mvcc_step.create])
      (simp_all add: create_trx_def xid_demo_init_def)
  let ?t = "\<lparr>mt_id = - 1, mt_started = False, mt_recovering = False, mt_ops = []\<rparr>"
  have s1: "ms_store s1 = [0 \<mapsto> ?t, 1 \<mapsto> ?t]" "ms_current s1 = 0" "log_size s1 = 0" "ms_tables s1 = ms_tables xid_demo_init"
    by (simp_all add: s1_def create_trx_def xid_demo_init_def clog_buffer_new_def)
  have room: "ms_current s1 + 1 < max_trx_id" "log_room s1 0" using s1 by (simp_all add: max_trx_id_def log_room_def CLOG_BUFFER_SIZE_def)
  obtain s2 t2 where s2: "start_if_need xid_demo_env 0 s1 = Some (SUCCESS, s2)" "mvcc_ok s2" "st_rows s2 = st_rows s1" "ms_store s2 = (ms_store s1)(0 \<mapsto> t2)"
    "mt_started t2" "mt_ops t2 = []" "log_size s2 = 0" "mt_id t2 = 1" "ms_current s2 = 1"
    "append_log (build_mtr_record MTR_BEGIN 1) (ms_log s1) = (SUCCESS, ms_log s2)"
    using mvcc_start_correct [OF reach [OF r1], of 0 ?t xid_demo_env] room s1 by auto
  have r2: "mvcc_run xid_demo_env xid_demo_init s2"
    by (rule mvcc_run.more [OF r1 mvcc_step.start [where h = 0, OF _ room s2(1)]]) (simp add: s1)
  have room2: "ms_current s2 + 1 < max_trx_id" "log_room s2 0" using s2 by (simp_all add: max_trx_id_def log_room_def CLOG_BUFFER_SIZE_def)
  obtain s3 u where s3: "start_if_need xid_demo_env 1 s2 = Some (SUCCESS, s3)" "mvcc_ok s3" "st_rows s3 = st_rows s2" "ms_store s3 = (ms_store s2)(1 \<mapsto> u)"
    "mt_started u" "mt_ops u = []" "log_size s3 = 0" "mt_id u = 2" "ms_current s3 = 2"
    "append_log (build_mtr_record MTR_BEGIN 2) (ms_log s2) = (SUCCESS, ms_log s3)"
    using mvcc_start_correct [OF s2(2), of 1 ?t xid_demo_env] room2 s1 s2 by auto
  have r3: "mvcc_run xid_demo_env xid_demo_init s3"
    by (rule mvcc_run.more [OF r2 mvcc_step.start [where h = 1, OF _ room2 s3(1)]]) (simp add: s1 s2)
  have rows: "st_rows s3 = Map.empty" using s3(3) s2(3) s1(4) xid_demo_init_ok(2) by simp
  have "\<exists>tb. ms_tables s3 1 = Some tb \<and> tm_record_size (tb_meta tb) = 12 \<and> tb_indexes tb = [] \<and> rf_used (tb_handler tb) = {}"
    using s2(1) s3(1) s1 by (auto simp: start_if_need_def next_trx_id_def begin_trx_def append_log_def xid_demo_init_def xid_demo_table_def Let_def
      split: if_splits prod.splits)
  then obtain tb where tb: "ms_tables s3 1 = Some tb" "tm_record_size (tb_meta tb) = 12" "tb_indexes tb = []" "rf_used (tb_handler tb) = {}" by blast
  have h: "ms_store s3 0 = Some t2" "mt_started t2" using s3(4) s2(4,5) by simp_all
  have len: "length xid_demo_row = nat (tm_record_size (tb_meta tb))" using tb(2) by (simp add: xid_demo_row_def)
  have room3: "log_room s3 (24 + int (length xid_demo_row))" using s3(7) by (simp add: log_room_def xid_demo_row_def CLOG_BUFFER_SIZE_def)
  have fits: "\<forall>i \<in> set (tb_indexes tb). bi_fits i xid_demo_row \<and> bi_room i" using tb(3) by simp
  have used: "{} \<noteq> {1..<MAX_PAGE_NUM}" by (auto simp: MAX_PAGE_NUM_def BP_PAGE_DATA_SIZE_def)
  obtain rid r s4 where s4: "mvcc_insert_record xid_demo_env 0 1 xid_demo_row s3 = Some (SUCCESS, (marked 1 xid_demo_row, rid), s4)" "mvcc_ok s4"
    "ms_current s4 = 2" "log_size s4 \<le> 36" "st_rows s4 = [(1, r) \<mapsto> marked 1 xid_demo_row]"
    "ms_store s4 = (ms_store s3)(0 \<mapsto> t2\<lparr>mt_ops := [operation_new OP_INSERT 1 r]\<rparr>)"
    "append_log (data_entry CLOG_INSERT 1 (1, r) (marked 1 xid_demo_row)) (ms_log s3) = (SUCCESS, ms_log s4)"
    using mvcc_insert_correct [OF env s3(2) h tb(1) len fits room3] tb(3,4) used s2(6,8) s3(7,9) rows by (auto simp: xid_demo_row_def)
  have r4: "mvcc_run xid_demo_env xid_demo_init s4"
    by (rule mvcc_run.more [OF r3 mvcc_step.insert [OF h tb(1) len fits room3 s4(1)]])
  have "\<not> mt_recovering t2" using trx_okD(3) [OF mvcc_okD(6) [OF s2(2), of 0 t2]] s2(4) by simp
  then have "t2\<lparr>mt_ops := [operation_new OP_INSERT 1 r]\<rparr> = \<lparr>mt_id = 1, mt_started = True, mt_recovering = False, mt_ops = [operation_new OP_INSERT 1 r]\<rparr>"
    using s2(5,8) by (cases t2) simp
  moreover have "ms_log s1 = ms_log xid_demo_init" by (simp add: s1_def create_trx_def)
  ultimately show thesis using that [of s4 r u "ms_log s2" "ms_log s3"] r4 s4 s3(4,5,6,8,10) s2(10) by simp
qed

lemma xid_demo_insert:
  obtains st r u where "mvcc_reach xid_demo_env st" "ms_store st 0 = Some \<lparr>mt_id = 1, mt_started = True, mt_recovering = False, mt_ops = [operation_new OP_INSERT 1 r]\<rparr>"
    "ms_store st 1 = Some u" "mt_started u" "mt_id u = 2" "mt_ops u = []" "st_rows st = [(1, r) \<mapsto> marked 1 xid_demo_row]" "ms_current st = 2" "log_size st \<le> 36"
  using xid_demo_run mvcc_run_reach [OF _ xid_demo_init_ok(1)] by metis

lemma xid_demo_marks: "row_begin (put_i32 (marked 1 xid_demo_row) 4 (- 1)) = - 1" "row_end (put_i32 (marked 1 xid_demo_row) 4 (- 1)) = - 1"
  by (simp_all add: xid_demo_row_def fits_i32_def)

text \<open>The first transaction has deleted its row again.\<close>

lemma xid_demo_delete:
  obtains st1 r t where "mvcc_reach xid_demo_env st1" "ms_store st1 0 = Some t" "mt_started t" "mt_id t = 1" "ms_current st1 = 2" "log_size st1 \<le> 60"
    "st_rows st1 = [(1, r) \<mapsto> put_i32 (marked 1 xid_demo_row) 4 (- 1)]"
proof -
  obtain st r u where st: "mvcc_reach xid_demo_env st" "ms_store st 0 = Some \<lparr>mt_id = 1, mt_started = True, mt_recovering = False, mt_ops = [operation_new OP_INSERT 1 r]\<rparr>"
    "st_rows st = [(1, r) \<mapsto> marked 1 xid_demo_row]" "ms_current st = 2" "log_size st \<le> 36" using xid_demo_insert by metis
  note ok = mvcc_reach_ok [OF xid_demo_env_ok st(1)]
  obtain tb where tb: "ms_tables st 1 = Some tb" "tb_rows tb r = Some (marked 1 xid_demo_row)" using db_rows_Some [of "ms_tables st" "(1, r)"] st(3) by auto
  have d: "row_begin (marked 1 xid_demo_row) = - 1" "row_end (marked 1 xid_demo_row) = max_trx_id" "8 \<le> length (marked 1 xid_demo_row)"
    by (simp_all add: xid_demo_row_def fits_i32_def)
  have vis: "mvcc_visible 1 (- 1) max_trx_id False = SUCCESS" "0 < max_trx_id" by (simp_all add: mvcc_visible_def neg_i32_def cast_i32_def max_trx_id_def)
  have room: "log_room st 24" using st(5) by (simp add: log_room_def CLOG_BUFFER_SIZE_def)
  obtain st1 where s1: "mvcc_delete_record xid_demo_env 0 1 False (marked 1 xid_demo_row) r st = Some (SUCCESS, st1)" "ms_current st1 = 2"
    "log_size st1 \<le> 60" "st_rows st1 = [(1, r) \<mapsto> put_i32 (marked 1 xid_demo_row) 4 (- 1)]"
    "ms_store st1 0 = Some \<lparr>mt_id = 1, mt_started = True, mt_recovering = False, mt_ops = snd (operations_insert (operation_new OP_DELETE 1 r) [operation_new OP_INSERT 1 r])\<rparr>"
    using mvcc_delete_correct [OF xid_demo_env_ok ok st(2) _ tb, of False] d vis room st(3,4,5) by auto
  have "mvcc_visit_record xid_demo_env 0 1 (marked 1 xid_demo_row) False st = Some SUCCESS"
    using visit_for_delete [OF xid_demo_env_ok ok st(2) tb] d vis(1) by simp
  then have "mvcc_step xid_demo_env 0 st st1" using mvcc_step.delete [OF st(2) _ tb _ _ _ room s1(1)] d vis(2) by simp
  then show thesis using mvcc_reach.step [OF st(1)] s1(2-5) that by fastforce
qed

subsection \<open>Properties\<close>

text \<open>
  Property C5: commit. Whatever the order in which the set of operations is iterated, \<open>commit\<close> of a started transaction passes all its assertions and returns the
  code of the log's flush. Every row the transaction inserted gets the commit number as its begin, every row it deleted
  gets it as its end; no other row changes; the invariant holds again, and the transaction has no operations and is not started.
\<close>

theorem mvcc_commit_rows:
  assumes "mvcc_env_ok env" "mvcc_ok st" "ms_store st h = Some t" "mt_started t" "ms_current st + 1 < max_trx_id" "log_room st 4"
  shows "\<exists>st'. mvcc_commit env h st = Some (clog_file_sync (me_clog env), st') \<and> mvcc_ok st' \<and>
    (\<forall>op \<in> set (mt_ops t). \<exists>d. st_rows st (op_target op) = Some d \<and>
      st_rows st' (op_target op) = Some (if op_type op = OP_INSERT then put_i32 d 0 (ms_current st + 1) else put_i32 d 4 (ms_current st + 1))) \<and>
    (\<forall>k. k \<notin> op_target ` set (mt_ops t) \<longrightarrow> st_rows st' k = st_rows st k) \<and>
    ms_store st' = (ms_store st)(h \<mapsto> t\<lparr>mt_started := False, mt_ops := []\<rparr>)"
proof -
  obtain st' where st': "mvcc_commit env h st = Some (clog_file_sync (me_clog env), st')" "mvcc_ok st'"
    "st_rows st' = op_effect (commit_effect (ms_current st + 1)) (mt_ops t) (st_rows st)" "ms_store st' = (ms_store st)(h \<mapsto> t\<lparr>mt_started := False, mt_ops := []\<rparr>)"
    using mvcc_commit_correct [OF assms] by blast
  have t: "trx_ok (st_rows st) (ms_current st) t" by (rule mvcc_okD(6) [OF assms(2,3)])
  have "\<exists>d. st_rows st (op_target op) = Some d \<and>
      st_rows st' (op_target op) = Some (if op_type op = OP_INSERT then put_i32 d 0 (ms_current st + 1) else put_i32 d 4 (ms_current st + 1))"
    if op: "op \<in> set (mt_ops t)" for op
    using trx_okD(5) [OF t op] op_effect_in [OF conjunct1 [OF trx_inj [OF t]] op, of "commit_effect (ms_current st + 1)" "st_rows st"] st'(3)
    by (auto simp: commit_effect_def)
  then show ?thesis using st' by (intro exI [of _ st']) (simp add: op_effect_out)
qed

theorem mvcc_commit_rows_witness:
  "\<exists>st st' r. mvcc_reach xid_demo_env st \<and> st_rows st = [(1, r) \<mapsto> marked 1 xid_demo_row] \<and>
     mvcc_commit xid_demo_env 0 st = Some (SUCCESS, st') \<and> st_rows st' (1, r) = Some (put_i32 (marked 1 xid_demo_row) 0 3)"
proof -
  obtain st r u where st: "mvcc_reach xid_demo_env st" "ms_store st 0 = Some \<lparr>mt_id = 1, mt_started = True, mt_recovering = False, mt_ops = [operation_new OP_INSERT 1 r]\<rparr>"
    "st_rows st = [(1, r) \<mapsto> marked 1 xid_demo_row]" "ms_current st = 2" "log_size st \<le> 36" using xid_demo_insert by metis
  have room: "ms_current st + 1 < max_trx_id" "log_room st 4" using st(4,5) by (simp_all add: max_trx_id_def log_room_def CLOG_BUFFER_SIZE_def)
  have op: "op_target (operation_new OP_INSERT 1 r) = (1, r)" "op_type (operation_new OP_INSERT 1 r) = OP_INSERT" by (simp_all add: op_target_def operation_new_def)
  have "clog_file_sync (me_clog xid_demo_env) = SUCCESS" by (simp add: clog_file_sync_def xid_demo_env_def demo_clog_env_def)
  then show ?thesis
    using mvcc_commit_rows [OF xid_demo_env_ok mvcc_reach_ok [OF xid_demo_env_ok st(1)] st(2) _ room] st(1,3,4) op by auto
qed

text \<open>
  Property C6: rollback. Whatever the order of iteration, \<open>rollback\<close> of a started transaction passes all its assertions and succeeds. Every row the transaction inserted
  is gone, from the record file and from every index; every row it deleted has an open end again and is otherwise as before; no other row changes.
\<close>

theorem mvcc_rollback_rows:
  assumes "mvcc_env_ok env" "mvcc_ok st" "ms_store st h = Some t" "mt_started t" "log_room st 0"
  shows "\<exists>st'. mvcc_rollback env h st = Some (SUCCESS, st') \<and> mvcc_ok st' \<and>
    (\<forall>op \<in> set (mt_ops t). \<exists>d. st_rows st (op_target op) = Some d \<and>
      st_rows st' (op_target op) = (if op_type op = OP_INSERT then None else Some (put_i32 d 4 max_trx_id))) \<and>
    (\<forall>k. k \<notin> op_target ` set (mt_ops t) \<longrightarrow> st_rows st' k = st_rows st k) \<and>
    ms_store st' = (ms_store st)(h \<mapsto> t\<lparr>mt_started := False, mt_ops := []\<rparr>)"
proof -
  obtain st' where st': "mvcc_rollback env h st = Some (SUCCESS, st')" "mvcc_ok st'"
    "st_rows st' = op_effect rollback_effect (mt_ops t) (st_rows st)" "ms_store st' = (ms_store st)(h \<mapsto> t\<lparr>mt_started := False, mt_ops := []\<rparr>)"
    using mvcc_rollback_correct [OF assms] by blast
  have t: "trx_ok (st_rows st) (ms_current st) t" by (rule mvcc_okD(6) [OF assms(2,3)])
  have "\<exists>d. st_rows st (op_target op) = Some d \<and> st_rows st' (op_target op) = (if op_type op = OP_INSERT then None else Some (put_i32 d 4 max_trx_id))"
    if op: "op \<in> set (mt_ops t)" for op
    using trx_okD(5) [OF t op] op_effect_in [OF conjunct1 [OF trx_inj [OF t]] op, of rollback_effect "st_rows st"] st'(3)
    by (auto simp: rollback_effect_def)
  then show ?thesis using st' by (intro exI [of _ st']) (simp add: op_effect_out)
qed

theorem mvcc_rollback_rows_witness:
  "\<exists>st st' r. mvcc_reach xid_demo_env st \<and> st_rows st = [(1, r) \<mapsto> marked 1 xid_demo_row] \<and>
     mvcc_rollback xid_demo_env 0 st = Some (SUCCESS, st') \<and> st_rows st' (1, r) = None"
proof -
  obtain st r u where st: "mvcc_reach xid_demo_env st" "ms_store st 0 = Some \<lparr>mt_id = 1, mt_started = True, mt_recovering = False, mt_ops = [operation_new OP_INSERT 1 r]\<rparr>"
    "st_rows st = [(1, r) \<mapsto> marked 1 xid_demo_row]" "ms_current st = 2" "log_size st \<le> 36" using xid_demo_insert by metis
  have room: "log_room st 0" using st(5) by (simp add: log_room_def CLOG_BUFFER_SIZE_def)
  have op: "op_target (operation_new OP_INSERT 1 r) = (1, r)" "op_type (operation_new OP_INSERT 1 r) = OP_INSERT" by (simp_all add: op_target_def operation_new_def)
  show ?thesis
    using mvcc_rollback_rows [OF xid_demo_env_ok mvcc_reach_ok [OF xid_demo_env_ok st(1)] st(2) _ room] st(1,3) op by auto
qed

text \<open>
  Property C3: however the calls of the transactions interleave, from a database without marks: the tables and their indexes stay in order; no two started transactions have a
  number in common; every operation names a row that carries the mark of its transaction, and no row is named by two transactions; and every
  row with a mark in its begin is named by an insertion of the transaction whose mark it is. So no mark is ever orphaned by an insertion.
\<close>

theorem mvcc_invariant:
  assumes "mvcc_env_ok env" "mvcc_reach env st"
  shows "mvcc_ok st \<and>
    (\<forall>h h' t t'. ms_store st h = Some t \<and> ms_store st h' = Some t' \<and> h \<noteq> h' \<longrightarrow> op_target ` set (mt_ops t) \<inter> op_target ` set (mt_ops t') = {}) \<and>
    (\<forall>k d. st_rows st k = Some d \<and> row_begin d < 0 \<longrightarrow>
      (\<exists>h t op. ms_store st h = Some t \<and> op \<in> set (mt_ops t) \<and> op_type op = OP_INSERT \<and> op_target op = k \<and> row_begin d = - mt_id t))"
proof -
  have ok: "mvcc_ok st" by (rule mvcc_reach_ok [OF assms])
  have "op_target ` set (mt_ops t) \<inter> op_target ` set (mt_ops t') = {}"
    if "ms_store st h = Some t" "ms_store st h' = Some t'" "h \<noteq> h'" for h h' t t'
    using owners_disjoint [OF ok that] by blast
  moreover have "\<exists>h t op. ms_store st h = Some t \<and> op \<in> set (mt_ops t) \<and> op_type op = OP_INSERT \<and> op_target op = k \<and> row_begin d = - mt_id t"
    if "st_rows st k = Some d" "row_begin d < 0" for k d
    using mvcc_okD(8) [OF ok that] by force
  ultimately show ?thesis using ok by blast
qed

theorem mvcc_invariant_witness:
  "\<exists>st t. mvcc_reach xid_demo_env st \<and> ms_store st 0 = Some t \<and> mt_ops t \<noteq> [] \<and> mvcc_ok st"
proof -
  obtain st r u where st: "mvcc_reach xid_demo_env st" "ms_store st 0 = Some \<lparr>mt_id = 1, mt_started = True, mt_recovering = False, mt_ops = [operation_new OP_INSERT 1 r]\<rparr>"
    using xid_demo_insert by metis
  show ?thesis using mvcc_invariant [OF xid_demo_env_ok st(1)] st by auto
qed

text \<open>
  Property C4: snapshots. Whatever another transaction does in a step (start, insert, delete, commit, roll back, in any of the interleavings of reachable states), the rows that
  a started transaction is meant to see, with their user data, are the same before and after.
\<close>

theorem mvcc_snapshot_stable:
  assumes "mvcc_env_ok env" "mvcc_reach env st" "mvcc_step env h st st'" "ms_store st i = Some u" "mt_started u" "i \<noteq> h"
  shows "mvcc_ok st' \<and> ms_store st' i = Some u \<and> snapshot st' (mt_id u) = snapshot st (mt_id u)"
  using mvcc_step_effect [OF assms(1) mvcc_reach_ok [OF assms(1,2)] assms(3)] snapshot_stable_step [OF assms(1) mvcc_reach_ok [OF assms(1,2)] assms(3-6)] assms(4,6)
  by (simp add: others_kept_def)

theorem mvcc_snapshot_stable_witness:
  "\<exists>st st' r. mvcc_reach xid_demo_env st \<and> st_rows st = [(1, r) \<mapsto> marked 1 xid_demo_row] \<and> mvcc_commit xid_demo_env 0 st = Some (SUCCESS, st') \<and>
     snapshot st' 2 = snapshot st 2"
proof -
  obtain st r u where st: "mvcc_reach xid_demo_env st" "ms_store st 0 = Some \<lparr>mt_id = 1, mt_started = True, mt_recovering = False, mt_ops = [operation_new OP_INSERT 1 r]\<rparr>"
    "ms_store st 1 = Some u" "mt_started u" "mt_id u = 2" "st_rows st = [(1, r) \<mapsto> marked 1 xid_demo_row]" "ms_current st = 2" "log_size st \<le> 36"
    using xid_demo_insert by metis
  have room: "ms_current st + 1 < max_trx_id" "log_room st 4" using st(7,8) by (simp_all add: max_trx_id_def log_room_def CLOG_BUFFER_SIZE_def)
  have "clog_file_sync (me_clog xid_demo_env) = SUCCESS" by (simp add: clog_file_sync_def xid_demo_env_def demo_clog_env_def)
  then obtain st' where c: "mvcc_commit xid_demo_env 0 st = Some (SUCCESS, st')"
    using mvcc_commit_correct [OF xid_demo_env_ok mvcc_reach_ok [OF xid_demo_env_ok st(1)] st(2) _ room] by auto
  have "mvcc_step xid_demo_env 0 st st'" by (rule mvcc_step.commit [OF st(2) _ room c]) simp
  then have "snapshot st' (mt_id u) = snapshot st (mt_id u)" using mvcc_snapshot_stable [OF xid_demo_env_ok st(1) _ st(3,4)] by blast
  then show ?thesis using c st(1,5,6) by auto
qed

text \<open>
  Property C16: what \<open>visit_record\<close> lets a transaction read: the rows it is meant to see, and besides them exactly two kinds of rows that it should not see. A row it has
  inserted and deleted itself is still shown, since the test for a marked begin does not look at the end. And since the test for a marked end does not look at the begin, a row
  with the mark of another transaction in its end is shown whatever its begin: the row may have been committed after the reader began, or have been inserted,
  deleted and committed by that other transaction (C19).
\<close>

theorem mvcc_visible_rows:
  assumes "mvcc_env_ok env" "mvcc_reach env st" "ms_store st h = Some t" "mt_started t" "ms_tables st tid = Some tb" "tb_rows tb r = Some d"
  shows "mvcc_visit_record env h tid d True st = Some SUCCESS \<longleftrightarrow>
    in_snapshot (mt_id t) d \<or> row_begin d = - mt_id t \<and> row_end d = - mt_id t \<or>
    0 < row_begin d \<and> row_end d < 0 \<and> row_end d \<noteq> - mt_id t \<and> (mt_id t < row_begin d \<or> - row_end d < row_begin d)"
proof -
  have ok: "mvcc_ok st" by (rule mvcc_reach_ok [OF assms(1,2)])
  have "st_rows st (tid, r) = Some d" using assms(5,6) by (simp add: db_rows_def)
  from visible_exact [OF mvcc_okD(5) [OF ok this], of "mt_id t"] trx_id_range [OF ok assms(3,4)] show ?thesis
    using visit_for_delete [OF assms(1) ok assms(3,5,6), of True] by simp
qed

theorem mvcc_visible_rows_witness:
  "(\<exists>st d. mvcc_reach xid_demo_env st \<and> row_begin d = - 1 \<and> mvcc_visit_record xid_demo_env 0 1 d True st = Some SUCCESS \<and>
     mvcc_visit_record xid_demo_env 1 1 d True st \<noteq> Some SUCCESS) \<and>
   (\<exists>st d. mvcc_reach xid_demo_env st \<and> row_begin d = - 1 \<and> row_end d = - 1 \<and> \<not> in_snapshot 1 d \<and>
     mvcc_visit_record xid_demo_env 0 1 d True st = Some SUCCESS)"
proof
  obtain st r u where st: "mvcc_reach xid_demo_env st" "ms_store st 0 = Some \<lparr>mt_id = 1, mt_started = True, mt_recovering = False, mt_ops = [operation_new OP_INSERT 1 r]\<rparr>"
    "ms_store st 1 = Some u" "mt_started u" "mt_id u = 2" "st_rows st = [(1, r) \<mapsto> marked 1 xid_demo_row]"
    using xid_demo_insert by metis
  obtain tb where tb: "ms_tables st 1 = Some tb" "tb_rows tb r = Some (marked 1 xid_demo_row)" using db_rows_Some [of "ms_tables st" "(1, r)"] st(6) by auto
  have d: "row_begin (marked 1 xid_demo_row) = - 1" by (simp add: xid_demo_row_def fits_i32_def)
  show "\<exists>st d. mvcc_reach xid_demo_env st \<and> row_begin d = - 1 \<and> mvcc_visit_record xid_demo_env 0 1 d True st = Some SUCCESS \<and>
     mvcc_visit_record xid_demo_env 1 1 d True st \<noteq> Some SUCCESS"
    using mvcc_visible_rows [OF xid_demo_env_ok st(1,2) _ tb] mvcc_visible_rows [OF xid_demo_env_ok st(1,3,4) tb] st(1,5) d by (auto simp: in_snapshot_def)
next
  obtain st1 r t where s1: "mvcc_reach xid_demo_env st1" "ms_store st1 0 = Some t" "mt_started t" "mt_id t = 1"
    "st_rows st1 = [(1, r) \<mapsto> put_i32 (marked 1 xid_demo_row) 4 (- 1)]" using xid_demo_delete by metis
  obtain tb where tb: "ms_tables st1 1 = Some tb" "tb_rows tb r = Some (put_i32 (marked 1 xid_demo_row) 4 (- 1))"
    using db_rows_Some [of "ms_tables st1" "(1, r)"] s1(5) by auto
  show "\<exists>st d. mvcc_reach xid_demo_env st \<and> row_begin d = - 1 \<and> row_end d = - 1 \<and> \<not> in_snapshot 1 d \<and> mvcc_visit_record xid_demo_env 0 1 d True st = Some SUCCESS"
    using mvcc_visible_rows [OF xid_demo_env_ok s1(1-3) tb] s1(1,4) xid_demo_marks
    by (intro exI [of _ st1] exI [of _ "put_i32 (marked 1 xid_demo_row) 4 (- 1)"]) (simp add: in_snapshot_def)
qed

text \<open>
  Property C19: a row that a transaction inserts and deletes again. The set of operations takes the deletion for the insertion it already holds, so \<open>commit\<close>
  replaces the mark in the begin only: the row stays with the mark of the ended transaction in its end. Nobody is meant to see it, but every other transaction sees it
  as a row that is being deleted, whatever its number, and any attempt to change it is refused as a conflict.
\<close>

theorem mvcc_own_delete_leaks:
  assumes "mvcc_env_ok env" "mvcc_ok st" "ms_store st h = Some t" "mt_started t" "ms_current st + 1 < max_trx_id" "log_room st 4"
    "st_rows st k = Some d" "row_begin d = - mt_id t" "row_end d = - mt_id t"
  shows "\<exists>st' d'. mvcc_commit env h st = Some (clog_file_sync (me_clog env), st') \<and> st_rows st' k = Some d' \<and> row_end d' = - mt_id t \<and>
    (\<forall>x. 0 < x \<longrightarrow> \<not> in_snapshot x d') \<and>
    (\<forall>x. 0 < x \<and> x < 2 ^ 31 \<and> x \<noteq> mt_id t \<longrightarrow> mvcc_visible x (row_begin d') (row_end d') True = SUCCESS \<and>
      mvcc_visible x (row_begin d') (row_end d') False = LOCKED_CONCURRENCY_CONFLICT)"
proof -
  note id = trx_id_range [OF assms(2-4)] and cur = mvcc_okD(2) [OF assms(2)]
  obtain st' d' where c: "mvcc_commit env h st = Some (clog_file_sync (me_clog env), st')" "st_rows st' k = Some d'" "row_begin d' = ms_current st + 1" "row_end d' = - mt_id t"
    using commit_keeps_own_end [OF assms] by blast
  then show ?thesis using visible_open_end [of "ms_current st + 1" "mt_id t"] id cur by (intro exI [of _ st'] exI [of _ d']) (auto simp: in_snapshot_def)
qed

theorem mvcc_own_delete_leaks_witness:
  "\<exists>st1 st2 r d. mvcc_reach xid_demo_env st1 \<and> st_rows st1 = [(1, r) \<mapsto> put_i32 (marked 1 xid_demo_row) 4 (- 1)] \<and>
     mvcc_commit xid_demo_env 0 st1 = Some (SUCCESS, st2) \<and> st_rows st2 (1, r) = Some d \<and> \<not> in_snapshot 9 d \<and> mvcc_visible 9 (row_begin d) (row_end d) True = SUCCESS"
proof -
  obtain st1 r t where s1: "mvcc_reach xid_demo_env st1" "ms_store st1 0 = Some t" "mt_started t" "mt_id t = 1" "ms_current st1 = 2" "log_size st1 \<le> 60"
    "st_rows st1 = [(1, r) \<mapsto> put_i32 (marked 1 xid_demo_row) 4 (- 1)]" using xid_demo_delete by metis
  have room1: "ms_current st1 + 1 < max_trx_id" "log_room st1 4" using s1(5,6) by (simp_all add: max_trx_id_def log_room_def CLOG_BUFFER_SIZE_def)
  have row: "st_rows st1 (1, r) = Some (put_i32 (marked 1 xid_demo_row) 4 (- 1))" using s1(7) by simp
  have "clog_file_sync (me_clog xid_demo_env) = SUCCESS" by (simp add: clog_file_sync_def xid_demo_env_def demo_clog_env_def)
  then obtain st2 d' where "mvcc_commit xid_demo_env 0 st1 = Some (SUCCESS, st2)" "st_rows st2 (1, r) = Some d'" "\<not> in_snapshot 9 d'"
    "mvcc_visible 9 (row_begin d') (row_end d') True = SUCCESS"
    using mvcc_own_delete_leaks [OF xid_demo_env_ok mvcc_reach_ok [OF xid_demo_env_ok s1(1)] s1(2,3) room1 row] s1(4) xid_demo_marks by auto
  then show ?thesis using s1(1,7) by blast
qed

end
