(* ===== verification/Recovery.thy ===== *)
theory Recovery
  imports MvccSteps
begin

section \<open>The log and recovery\<close>

text \<open>
  The log says what happened to the rows: \<open>log_step\<close> is the meaning of a record, and the state of a running database is the meaning of its log.
  Recovery replays the log on the pages that a crash left behind, whatever mix of old and new ones that is, and rolls back what did not end.
\<close>

subsection \<open>The meaning of a log\<close>

type_synonym rows = "target \<Rightarrow> byte list option"

definition rec_target :: "CLogRecord \<Rightarrow> target" where
  "rec_target r = (ld_table_id (lr_data r), ld_rid (lr_data r))"

definition add_op :: "OperationType \<Rightarrow> target \<Rightarrow> Operation list \<Rightarrow> Operation list" where
  "add_op t k ops = snd (operations_insert (operation_new t (fst k) (snd k)) ops)"

definition log_step :: "CLogRecord \<Rightarrow> rows \<times> (int \<Rightarrow> Operation list option) \<Rightarrow> rows \<times> (int \<Rightarrow> Operation list option)" where
  "log_step r s = (case s of (rows, opens) \<Rightarrow>
     let x = lh_trx_id (lr_header r); k = rec_target r; ops = (case opens x of None \<Rightarrow> [] | Some ops \<Rightarrow> ops) in
     case log_type r of
       MTR_BEGIN \<Rightarrow> (rows, opens(x \<mapsto> []))
     | CLOG_INSERT \<Rightarrow> (rows(k \<mapsto> ld_data (lr_data r)), opens(x \<mapsto> add_op OP_INSERT k ops))
     | CLOG_DELETE \<Rightarrow> (rows(k := map_option (\<lambda>d. put_i32 d 4 (- x)) (rows k)), opens(x \<mapsto> add_op OP_DELETE k ops))
     | MTR_COMMIT \<Rightarrow> (op_effect (commit_effect (lr_commit_xid r)) ops rows, opens(x := None))
     | MTR_ROLLBACK \<Rightarrow> (op_effect rollback_effect ops rows, opens(x := None))
     | _ \<Rightarrow> (rows, opens))"

text \<open>The operations of the started transactions, by number.\<close>

definition open_ops :: "MvccState \<Rightarrow> int \<Rightarrow> Operation list option" where
  "open_ops st x = (if \<exists>h t. ms_store st h = Some t \<and> mt_started t \<and> mt_id t = x
     then Some (mt_ops (THE t. \<exists>h. ms_store st h = Some t \<and> mt_started t \<and> mt_id t = x)) else None)"

definition log_view :: "MvccState \<Rightarrow> rows \<times> (int \<Rightarrow> Operation list option)" where
  "log_view st = (st_rows st, open_ops st)"

definition log_bytes :: "MvccState \<Rightarrow> byte list" where
  "log_bytes st = clog_bytes (lm_file (ms_log st)) @ concat (map clog_encode (lb_records (lm_buffer (ms_log st))))"

lemma open_ops_Some:
  assumes "mvcc_ok st" "ms_store st h = Some t" "mt_started t"
  shows "open_ops st (mt_id t) = Some (mt_ops t)"
proof -
  have "(THE u. \<exists>i. ms_store st i = Some u \<and> mt_started u \<and> mt_id u = mt_id t) = t"
  proof (rule the_equality)
    fix u assume "\<exists>i. ms_store st i = Some u \<and> mt_started u \<and> mt_id u = mt_id t"
    then obtain i where i: "ms_store st i = Some u" "mt_started u" "mt_id u = mt_id t" by blast
    have "i = h" by (rule mvcc_okD(7) [OF assms(1) i(1) assms(2) i(2) assms(3) i(3)])
    then show "u = t" using i(1) assms(2) by simp
  qed (use assms in blast)
  then show ?thesis using assms by (auto simp: open_ops_def)
qed

lemma open_ops_None: "(\<And>h t. ms_store st h = Some t \<Longrightarrow> mt_started t \<Longrightarrow> mt_id t \<noteq> x) \<Longrightarrow> open_ops st x = None"
  by (auto simp: open_ops_def)

lemma open_opsD:
  assumes "mvcc_ok st" "open_ops st x = Some ops"
  obtains h t where "ms_store st h = Some t" "mt_started t" "mt_id t = x" "mt_ops t = ops"
proof -
  obtain h t where h: "ms_store st h = Some t" "mt_started t" "mt_id t = x" using assms(2) by (auto simp: open_ops_def split: if_splits)
  then show thesis using that open_ops_Some [OF assms(1) h(1,2)] assms(2) by simp
qed

text \<open>How a change of one transaction changes the view.\<close>

lemma open_ops_upd:
  assumes ok: "mvcc_ok st" "mvcc_ok st'" and S: "ms_store st' = (ms_store st)(h \<mapsto> t')"
    and old: "\<And>t. ms_store st h = Some t \<Longrightarrow> mt_started t \<Longrightarrow> mt_id t = x" and new: "mt_started t' \<Longrightarrow> mt_id t' = x"
    and others: "\<And>i u. i \<noteq> h \<Longrightarrow> ms_store st i = Some u \<Longrightarrow> mt_started u \<Longrightarrow> mt_id u \<noteq> x"
  shows "open_ops st' = (open_ops st)(x := if mt_started t' then Some (mt_ops t') else None)"
proof
  fix y
  show "open_ops st' y = ((open_ops st)(x := if mt_started t' then Some (mt_ops t') else None)) y"
  proof (cases "y = x")
    case True
    show ?thesis
    proof (cases "mt_started t'")
      case True
      then show ?thesis using open_ops_Some [OF ok(2), of h t'] S new \<open>y = x\<close> by simp
    next
      case False
      have "open_ops st' x = None" by (rule open_ops_None) (use S False others in \<open>auto split: if_splits\<close>)
      then show ?thesis using False \<open>y = x\<close> by simp
    qed
  next
    case False
    show ?thesis
    proof (cases "open_ops st y")
      case None
      have "open_ops st' y = None"
      proof (rule open_ops_None)
        fix i u assume u: "ms_store st' i = Some u" "mt_started u"
        show "mt_id u \<noteq> y"
        proof (cases "i = h")
          case True
          then show ?thesis using u S new False by auto
        next
          case False
          then show ?thesis using u S None open_ops_Some [OF ok(1), of i u] by auto
        qed
      qed
      then show ?thesis using None False by simp
    next
      case (Some ops)
      then obtain i u where u: "ms_store st i = Some u" "mt_started u" "mt_id u = y" "mt_ops u = ops" by (rule open_opsD [OF ok(1)])
      then have "i \<noteq> h" using old False by auto
      then show ?thesis using open_ops_Some [OF ok(2), of i u] u S Some False by simp
    qed
  qed
qed

subsection \<open>The running database writes its log\<close>

lemma entry_simps [simp]:
  "log_type (data_entry CLOG_INSERT x k d) = CLOG_INSERT" "log_type (data_entry CLOG_DELETE x k d) = CLOG_DELETE"
  "lh_trx_id (lr_header (data_entry t x k d)) = x" "rec_target (data_entry t x k d) = k" "ld_data (lr_data (data_entry t x k d)) = d"
  "ld_table_id (lr_data (data_entry t x k d)) = fst k" "ld_rid (lr_data (data_entry t x k d)) = snd k"
  by (simp_all add: data_entry_def build_data_record_def rec_target_def clog_record_new_def clog_type_from_integer_def)

lemma mtr_simps [simp]:
  "log_type (build_mtr_record MTR_BEGIN x) = MTR_BEGIN" "log_type (build_mtr_record MTR_ROLLBACK x) = MTR_ROLLBACK"
  "lh_trx_id (lr_header (build_mtr_record t x)) = x"
  "log_type (build_commit_record x c) = MTR_COMMIT" "lh_trx_id (lr_header (build_commit_record x c)) = x" "lr_commit_xid (build_commit_record x c) = c"
  by (auto simp: build_mtr_record_def build_commit_record_def clog_record_new_def clog_type_from_integer_def)

lemma append_log_records:
  "append_log r lm = (SUCCESS, lm') \<Longrightarrow> lm_file lm' = lm_file lm \<and> lb_records (lm_buffer lm') = lb_records (lm_buffer lm) @ [r]"
  by (auto simp: append_log_def append_log_record_def split: if_splits)

lemma log_bytes_append:
  assumes "append_log r (ms_log st) = (SUCCESS, ms_log st')" "mvcc_ok st'"
  shows "log_bytes st' = log_bytes st @ clog_encode r \<and> clog_wf r"
  using append_log_records [OF assms(1)] mvcc_okD(4) [OF assms(2)] by (simp add: log_bytes_def clog_buffer_ok_def)

text \<open>The records of a step, and what the step does to the view.\<close>

definition step_logged :: "MvccState \<Rightarrow> CLogRecord list \<Rightarrow> MvccState \<Rightarrow> bool" where
  "step_logged st rs st' \<longleftrightarrow> log_bytes st' = log_bytes st @ concat (map clog_encode rs) \<and> (\<forall>r \<in> set rs. clog_wf r) \<and>
     log_view st' = fold log_step rs (log_view st) \<and> ms_current st \<le> ms_current st'"

text \<open>A record that recovery can redo where the view is as before the step.\<close>

definition redoable :: "MvccState \<Rightarrow> CLogRecord \<Rightarrow> bool" where
  "redoable st r \<longleftrightarrow> (let x = lh_trx_id (lr_header r) in
     case log_type r of
       MTR_BEGIN \<Rightarrow> ms_current st < x \<and> x < max_trx_id
     | CLOG_INSERT \<Rightarrow> open_ops st x \<noteq> None \<and> st_rows st (rec_target r) = None
     | CLOG_DELETE \<Rightarrow> open_ops st x \<noteq> None \<and> (\<exists>d. st_rows st (rec_target r) = Some d \<and> row_end d = max_trx_id)
     | MTR_COMMIT \<Rightarrow> open_ops st x \<noteq> None
     | MTR_ROLLBACK \<Rightarrow> open_ops st x \<noteq> None
     | _ \<Rightarrow> False)"

lemma open_ops_cong:
  assumes "\<And>t. mt_started t \<Longrightarrow> (\<exists>i. ms_store st' i = Some t) = (\<exists>i. ms_store st i = Some t)"
  shows "open_ops st' = open_ops st"
proof
  fix x
  have t: "(\<exists>i. ms_store st' i = Some t \<and> mt_started t \<and> mt_id t = x) \<longleftrightarrow> (\<exists>i. ms_store st i = Some t \<and> mt_started t \<and> mt_id t = x)" for t
    using assms [of t] by blast
  have e: "open_ops s x = (if \<exists>t i. ms_store s i = Some t \<and> mt_started t \<and> mt_id t = x
      then Some (mt_ops (THE t. \<exists>i. ms_store s i = Some t \<and> mt_started t \<and> mt_id t = x)) else None)" for s
    unfolding open_ops_def by (subst ex_comm) (rule refl)
  show "open_ops st' x = open_ops st x" unfolding e by (simp only: t)
qed

lemma log_same_view:
  assumes "st_rows st' = st_rows st" "ms_store st' = ms_store st"
  shows "log_view st' = log_view st"
proof -
  have "open_ops st' = open_ops st" by (rule open_ops_cong) (simp add: assms(2))
  then show ?thesis by (simp add: log_view_def assms(1))
qed

lemma others_ids:
  assumes ok: "mvcc_ok st" and h: "ms_store st h = Some t" "mt_started t"
  shows "i \<noteq> h \<Longrightarrow> ms_store st i = Some u \<Longrightarrow> mt_started u \<Longrightarrow> mt_id u \<noteq> mt_id t"
  using mvcc_okD(7) [OF ok _ h(1) _ h(2)] by blast

lemma open_ops_step:
  assumes ok: "mvcc_ok st" "mvcc_ok st'" and h: "ms_store st h = Some t" "mt_started t" and S: "ms_store st' = (ms_store st)(h \<mapsto> t')"
    and same: "mt_started t' \<Longrightarrow> mt_id t' = mt_id t"
  shows "open_ops st' = (open_ops st)(mt_id t := if mt_started t' then Some (mt_ops t') else None)"
  by (rule open_ops_upd [OF ok S _ same others_ids [OF ok(1) h]]) (use h in simp_all)

lemma step_logs_record:
  assumes ok': "mvcc_ok st'" and log: "append_log r (ms_log st) = (SUCCESS, ms_log st')" and view: "log_view st' = log_step r (log_view st)"
    and cur: "ms_current st \<le> ms_current st'" and r: "redoable st r"
  shows "\<exists>rs. step_logged st rs st' \<and> (rs = [] \<or> (\<exists>r. rs = [r] \<and> redoable st r))"
  using log_bytes_append [OF log ok'] view cur r by (intro exI [of _ "[r]"]) (simp add: step_logged_def)

lemma no_record:
  "log_view st' = log_view st \<Longrightarrow> ms_log st' = ms_log st \<Longrightarrow> ms_current st \<le> ms_current st' \<Longrightarrow>
   \<exists>rs. step_logged st rs st' \<and> (rs = [] \<or> (\<exists>r. rs = [r] \<and> redoable st r))"
  by (intro exI [of _ "[]"]) (simp add: step_logged_def log_bytes_def)

lemma add_op_fresh:
  assumes ok: "mvcc_ok st" and h: "ms_store st h = Some t" and k: "st_rows st k = None"
  shows "add_op OP_INSERT k (mt_ops t) = mt_ops t @ [operation_new OP_INSERT (fst k) (snd k)]"
proof -
  have "op_target op \<noteq> k" if "op \<in> set (mt_ops t)" for op
    using trx_okD(5) [OF mvcc_okD(6) [OF ok h] that] k by auto
  then have "\<not> list_ex (operation_equal (operation_new OP_INSERT (fst k) (snd k))) (mt_ops t)"
    by (cases k, cases "snd k") (auto simp: list_ex_iff operation_equal_def op_target_def operation_new_def)
  then show ?thesis by (simp add: add_op_def operations_insert_def)
qed

lemma create_view:
  assumes "ms_store st h = None"
  shows "log_view (create_trx h st) = log_view st"
proof -
  have "(\<exists>i. ms_store (create_trx h st) i = Some t) = (\<exists>i. ms_store st i = Some t)" if "mt_started t" for t
  proof -
    have "ms_store (create_trx h st) i = Some t \<longleftrightarrow> ms_store st i = Some t" for i using that assms by (auto simp: create_trx_def)
    then show ?thesis by simp
  qed
  then have "open_ops (create_trx h st) = open_ops st" by (rule open_ops_cong)
  then show ?thesis by (simp add: log_view_def create_trx_def)
qed

lemma mvcc_step_logged:
  assumes env: "mvcc_env_ok env" and ok: "mvcc_ok st" and step: "mvcc_step env h st st'"
  shows "\<exists>rs. step_logged st rs st' \<and> (rs = [] \<or> (\<exists>r. rs = [r] \<and> redoable st r))"
  using step
proof cases
  case create
  then show ?thesis using create_view by (intro no_record) (simp_all add: create_trx_def)
next
  case (start t rc)
  obtain s u where s: "start_if_need env h st = Some (SUCCESS, s)" "mvcc_ok s" "st_rows s = st_rows st" "ms_store s = (ms_store st)(h \<mapsto> u)"
    "mt_started u" "mt_ops u = mt_ops t" "if mt_started t then s = st else mt_id u = ms_current st + 1 \<and> ms_current s = ms_current st + 1"
    "\<not> mt_started t \<longrightarrow> append_log (build_mtr_record MTR_BEGIN (ms_current st + 1)) (ms_log st) = (SUCCESS, ms_log s)"
    using mvcc_start_correct [OF ok start(1,2,3), of env] by blast
  have st': "st' = s" using s(1) start(4) by simp
  show ?thesis
  proof (cases "mt_started t")
    case True
    then have "st' = st" using s(7) st' by simp
    then show ?thesis by (intro no_record) simp_all
  next
    case False
    let ?c = "ms_current st + 1"
    have id: "mt_id u = ?c" "ms_current s = ?c" using False s(7) by simp_all
    have ops: "mt_ops u = []" using mvcc_okD(6) [OF ok start(1)] False s(6) by (simp add: trx_ok_def)
    have "mt_id v \<noteq> ?c" if "ms_store st i = Some v" "mt_started v" for i v using trx_id_range [OF ok that] by simp
    then have "open_ops s = (open_ops st)(?c := if mt_started u then Some (mt_ops u) else None)"
      using id False start(1) by (intro open_ops_upd [OF ok s(2,4)]) simp_all
    then have "log_view s = log_step (build_mtr_record MTR_BEGIN ?c) (log_view st)" using s(3,5) ops by (simp add: log_view_def log_step_def Let_def)
    moreover have "redoable st (build_mtr_record MTR_BEGIN ?c)" using start(2) by (simp add: redoable_def Let_def)
    ultimately show ?thesis unfolding st' using s(2,8) False id by (intro step_logs_record) simp_all
  qed
next
  case (insert t tid tb d rc x)
  note h = insert(1,2)
  let ?m = "marked (mt_id t) d"
  obtain rc' rid s where s: "mvcc_insert_record env h tid d st = Some (rc', (?m, rid), s)" "mvcc_ok s" "ms_current s = ms_current st"
    "rc' = SUCCESS \<and> (\<exists>r. rid = Some r \<and> st_rows st (tid, r) = None \<and> st_rows s = (st_rows st)((tid, r) \<mapsto> ?m) \<and>
        ms_store s = (ms_store st)(h \<mapsto> t\<lparr>mt_ops := mt_ops t @ [operation_new OP_INSERT tid r]\<rparr>) \<and>
        append_log (data_entry CLOG_INSERT (mt_id t) (tid, r) ?m) (ms_log st) = (SUCCESS, ms_log s)) \<or>
     st_rows s = st_rows st \<and> ms_store s = ms_store st \<and> ms_log s = ms_log st"
    using mvcc_insert_correct [OF env ok insert(1-6)] by blast
  have st': "st' = s" using s(1) insert(7) by simp
  from s(4) show ?thesis
  proof (elim disjE conjE exE)
    fix r assume r: "st_rows st (tid, r) = None" "st_rows s = (st_rows st)((tid, r) \<mapsto> ?m)"
      "ms_store s = (ms_store st)(h \<mapsto> t\<lparr>mt_ops := mt_ops t @ [operation_new OP_INSERT tid r]\<rparr>)"
      "append_log (data_entry CLOG_INSERT (mt_id t) (tid, r) ?m) (ms_log st) = (SUCCESS, ms_log s)"
    have "open_ops s = (open_ops st)(mt_id t \<mapsto> mt_ops t @ [operation_new OP_INSERT tid r])"
      using open_ops_step [OF ok s(2) h r(3)] h(2) by simp
    then have "log_view s = log_step (data_entry CLOG_INSERT (mt_id t) (tid, r) ?m) (log_view st)"
      using r(2) add_op_fresh [OF ok h(1) r(1)] open_ops_Some [OF ok h] by (simp add: log_view_def log_step_def Let_def)
    moreover have "redoable st (data_entry CLOG_INSERT (mt_id t) (tid, r) ?m)" using r(1) open_ops_Some [OF ok h] by (simp add: redoable_def Let_def)
    ultimately show ?thesis unfolding st' using s(2,3) r(4) by (intro step_logs_record) simp_all
  next
    assume "st_rows s = st_rows st" "ms_store s = ms_store st" "ms_log s = ms_log st"
    then show ?thesis unfolding st' using s(3) by (intro no_record log_same_view) simp_all
  qed
next
  case (delete t tid tb r d al rc)
  note h = delete(1,2)
  have vis: "mvcc_visible (mt_id t) (row_begin d) (row_end d) False = SUCCESS" using delete(5) visit_for_delete [OF env ok delete(1,3,4)] by simp
  obtain s where s: "mvcc_delete_record env h tid al d r st = Some (SUCCESS, s)" "mvcc_ok s" "ms_current s = ms_current st"
    "if row_end d = max_trx_id then st_rows s = (st_rows st)((tid, r) \<mapsto> put_i32 d 4 (- mt_id t)) \<and>
       ms_store s = (ms_store st)(h \<mapsto> t\<lparr>mt_ops := snd (operations_insert (operation_new OP_DELETE tid r) (mt_ops t))\<rparr>) else s = st"
    "row_end d = max_trx_id \<longrightarrow> append_log (data_entry CLOG_DELETE (mt_id t) (tid, r) []) (ms_log st) = (SUCCESS, ms_log s)"
    using mvcc_delete_correct [OF env ok delete(1-4) vis delete(6-8)] by blast
  have st': "st' = s" using s(1) delete(9) by simp
  show ?thesis
  proof (cases "row_end d = max_trx_id")
    case False
    then show ?thesis unfolding st' using s(4) by (intro no_record) simp_all
  next
    case True
    have row: "st_rows st (tid, r) = Some d" using delete(3,4) by (simp add: db_rows_def)
    have S: "ms_store s = (ms_store st)(h \<mapsto> t\<lparr>mt_ops := add_op OP_DELETE (tid, r) (mt_ops t)\<rparr>)" using s(4) True by (simp add: add_op_def)
    have "open_ops s = (open_ops st)(mt_id t \<mapsto> add_op OP_DELETE (tid, r) (mt_ops t))" using open_ops_step [OF ok s(2) h S] h(2) by simp
    then have "log_view s = log_step (data_entry CLOG_DELETE (mt_id t) (tid, r) []) (log_view st)"
      using s(4) True row open_ops_Some [OF ok h] by (simp add: log_view_def log_step_def Let_def)
    moreover have "redoable st (data_entry CLOG_DELETE (mt_id t) (tid, r) [])" using row True open_ops_Some [OF ok h] by (simp add: redoable_def Let_def)
    ultimately show ?thesis unfolding st' using s(2,3,5) True by (intro step_logs_record) simp_all
  qed
next
  case (commit t rc)
  note h = commit(1,2)
  let ?c = "ms_current st + 1" and ?t = "t\<lparr>mt_started := False, mt_ops := []\<rparr>"
  obtain s b where s: "mvcc_commit env h st = Some (clog_file_sync (me_clog env), s)" "mvcc_ok s" "ms_current s = ?c"
    "st_rows s = op_effect (commit_effect ?c) (mt_ops t) (st_rows st)" "ms_store s = (ms_store st)(h \<mapsto> ?t)"
    "append_log (build_commit_record (mt_id t) ?c) (ms_log st) = (SUCCESS, (ms_log st)\<lparr>lm_buffer := b\<rparr>)" "clog_buffer_ok b"
    "lb_records (lm_buffer (ms_log s)) = []" "clog_bytes (lm_file (ms_log s)) = clog_bytes (lm_file (ms_log st)) @ concat (map clog_encode (lb_records b))"
    using mvcc_commit_correct [OF env ok commit(1-4)] by blast
  have st': "st' = s" using s(1) commit(5) by simp
  have "open_ops s = (open_ops st)(mt_id t := None)" using open_ops_step [OF ok s(2) h s(5)] by simp
  then have view: "log_view s = log_step (build_commit_record (mt_id t) ?c) (log_view st)"
    using s(4) open_ops_Some [OF ok h] by (simp add: log_view_def log_step_def Let_def)
  have b: "lb_records b = lb_records (lm_buffer (ms_log st)) @ [build_commit_record (mt_id t) ?c]" using append_log_records [OF s(6)] by simp
  then have "step_logged st [build_commit_record (mt_id t) ?c] s"
    using view s(3,7,8,9) by (simp add: step_logged_def log_bytes_def clog_buffer_ok_def)
  moreover have "redoable st (build_commit_record (mt_id t) ?c)" using open_ops_Some [OF ok h] by (simp add: redoable_def Let_def)
  ultimately show ?thesis unfolding st' by blast
next
  case (rollback t rc)
  note h = rollback(1,2)
  let ?t = "t\<lparr>mt_started := False, mt_ops := []\<rparr>"
  obtain s where s: "mvcc_rollback env h st = Some (SUCCESS, s)" "mvcc_ok s" "ms_current s = ms_current st"
    "st_rows s = op_effect rollback_effect (mt_ops t) (st_rows st)" "ms_store s = (ms_store st)(h \<mapsto> ?t)"
    "append_log (build_mtr_record MTR_ROLLBACK (mt_id t)) (ms_log st) = (SUCCESS, ms_log s)"
    using mvcc_rollback_correct [OF env ok rollback(1-3)] by blast
  have st': "st' = s" using s(1) rollback(4) by simp
  have "open_ops s = (open_ops st)(mt_id t := None)" using open_ops_step [OF ok s(2) h s(5)] by simp
  then have "log_view s = log_step (build_mtr_record MTR_ROLLBACK (mt_id t)) (log_view st)"
    using s(4) open_ops_Some [OF ok h] by (simp add: log_view_def log_step_def Let_def)
  moreover have "redoable st (build_mtr_record MTR_ROLLBACK (mt_id t))" using open_ops_Some [OF ok h] by (simp add: redoable_def Let_def)
  ultimately show ?thesis unfolding st' using s(2,3,6) by (intro step_logs_record) simp_all
qed

subsection \<open>Inserting at a known place\<close>

text \<open>Whether the slot is free or holds a record of some age: afterwards it holds this one.\<close>

lemma recover_init_used:
  assumes "rf_fault s p = SUCCESS" "rf_pages s p = Some f" "page_idle p f" "p \<in> rf_used s"
  shows "rph_recover_init xid p rph_new s = Some (SUCCESS, \<lparr>rph_page = Some p, rph_readonly = False\<rparr>, rf_set p (write_held xid f) s)"
proof -
  have "write_latch xid (pin f) = Some (write_held xid f)"
    using assms(3) by (simp add: write_latch_def page_idle_def unlatched_def write_held_def pin_def)
  moreover have "(rf_set p (write_held xid f) s)\<lparr>rf_used := insert p (rf_used s)\<rparr> = rf_set p (write_held xid f) s"
    using assms(4) by (cases s) (simp add: rf_set_def insert_absorb)
  ultimately show ?thesis using assms(1,2) by (simp add: rph_recover_init_def rf_get_page_def rph_latch_def rph_new_def)
qed

lemma full_occupied:
  assumes "rp_ok m" "is_full m" "i < nat (ph_capacity m)"
  shows "page_recs m i \<noteq> None"
proof -
  have sub: "dom (page_recs m) \<subseteq> {..<nat (ph_capacity m)}" by (auto simp: page_recs_def split: if_splits)
  have "nat (ph_capacity m) \<le> card (dom (page_recs m))" using record_num_dom [OF assms(1)] assms(2) by (simp add: is_full_def)
  then have "dom (page_recs m) = {..<nat (ph_capacity m)}" using sub by (intro card_seteq) auto
  then show ?thesis using assms(3) by blast
qed

lemma rf_recover_insert_correct:
  assumes ok: "rf_ok rs s" and slot: "rid \<in> rf_slots s" and data: "length data = nat rs"
  shows "\<exists>s'. rf_recover_insert_record xid data rid s = Some (SUCCESS, s') \<and> rf_ok rs s' \<and> rf_content s' = (rf_content s)(rid \<mapsto> data) \<and> rf_slots s' = rf_slots s"
proof -
  let ?p = "page_num rid" and ?i = "nat (slot_num rid)"
  obtain f where f: "rf_pages s ?p = Some f" "?p \<in> rf_used s" "0 \<le> slot_num rid" "slot_num rid < ph_capacity (fr_data f)"
    using slot by (auto simp: rf_slots_def)
  have idle: "page_idle ?p f" by (rule rf_okD(6) [OF ok f(1)])
  have page: "rp_ok (fr_data f)" "ph_real_size (fr_data f) = rs" "is_full (fr_data f) \<or> ?p \<in> rf_free_pages s" using rf_okD(7) [OF ok f(2)] f(1) by auto
  let ?h = "write_held xid f"
  obtain m' where m': "rp_recover_insert_record ?h data rid = Some (SUCCESS, mark_dirty (set_data m' ?h))" "rp_ok m'"
    "page_recs m' = (page_recs (fr_data f))(?i \<mapsto> data)" "same_layout (fr_data f) m'"
    using rp_recover_insert_correct [of ?h rid ?i data] page(1,2) f(3,4) data by auto
  let ?g = "mark_dirty (set_data m' ?h)"
  have upd: "page_update ?h ?g" by (simp add: page_update_def mark_dirty_def set_data_def)
  have g: "fr_data ?g = m'" "fr_page_num ?g = ?p" using idle by (simp_all add: mark_dirty_def set_data_def page_idle_def)
  have full: "is_full m' \<or> ?p \<in> rf_free_pages s"
  proof (cases "is_full (fr_data f)")
    case True
    then have "page_recs (fr_data f) ?i \<noteq> None" using full_occupied [OF page(1)] f(3,4) by (simp add: nat_less_eq_zless)
    then have "dom (page_recs m') = dom (page_recs (fr_data f))" using m'(3) by auto
    then show ?thesis using True record_num_dom [OF m'(2)] record_num_dom [OF page(1)] m'(4) by (simp add: is_full_def same_layout_def)
  qed (use page(3) in simp)
  have run: "rf_recover_insert_record xid data rid s = Some (SUCCESS, rf_set ?p (with_page f ?g) s)"
    using recover_init_used [OF _ f(1) idle f(2)] rf_okD(1) [OF ok] m'(1) rph_cleanup_write [OF idle upd, of s] by (simp add: rf_recover_insert_record_def)
  have "rf_ok rs (rf_set ?p (with_page f ?g) s)"
    using m'(2,4) g full page(2) by (intro rf_ok_set [OF ok f(2,1)]) (simp_all add: same_layout_def)
  moreover have "rf_content (rf_set ?p (with_page f ?g) s) = (rf_content s)(rid \<mapsto> data)"
    using rf_content_set [OF f(1,2), of "with_page f ?g" ?i "Some data"] m'(3) g(1) f(3) by (cases rid) simp
  moreover have "rf_slots (rf_set ?p (with_page f ?g) s) = rf_slots s"
    using m'(4) g(1) by (intro rf_slots_set [OF f(1)]) (simp add: same_layout_def)
  ultimately show ?thesis using run by blast
qed

lemma table_recover_insert:
  assumes ok: "mvcc_table tb" and ix: "tb_indexes tb = []" and slot: "rid \<in> rf_slots (tb_handler tb)" and data: "length d = nat (tm_record_size (tb_meta tb))"
  shows "\<exists>tb'. recover_insert_record env d rid tb = Some (SUCCESS, tb') \<and> mvcc_table tb' \<and> tb_kept tb tb' \<and> tb_rows tb' = (tb_rows tb)(rid \<mapsto> d)"
proof -
  have tb: "tb_ok tb" "mvcc_meta tb" using ok by (simp_all add: mvcc_table_def)
  obtain h where h: "rf_recover_insert_record (te_xid env) d rid (tb_handler tb) = Some (SUCCESS, h)" "rf_ok (tm_record_size (tb_meta tb)) h"
    "rf_content h = (rf_content (tb_handler tb))(rid \<mapsto> d)" "rf_slots h = rf_slots (tb_handler tb)"
    using rf_recover_insert_correct [OF tb_okD(1) [OF tb(1)] slot data] by blast
  let ?tb = "tb\<lparr>tb_handler := h\<rparr>"
  have "recover_insert_record env d rid tb = Some (SUCCESS, ?tb)"
    using h(1) ix by (simp add: recover_insert_record_def insert_entry_of_indexes_def)
  moreover have "tb_ok ?tb" using tb(1) ix h(2) by (simp add: tb_ok_def)
  moreover have "mvcc_meta ?tb" using tb(2) by (simp add: mvcc_meta_def)
  ultimately show ?thesis using h(3,4) tb_kept_handler [of h tb] by (intro exI [of _ ?tb]) (simp add: mvcc_table_def tb_rows_def)
qed

subsection \<open>Redoing one record\<close>

text \<open>
  The recovering database \<open>s\<close> mirrors the state \<open>st\<close> that the running one had at this place of the log: in the rows \<open>K\<close> that the log has
  inserted so far, and in the open transactions. The other rows are as the crash left them in the tables \<open>T\<close>.
\<close>

definition rec_trx :: "MvccState \<Rightarrow> nat \<Rightarrow> MvccTrx \<Rightarrow> bool" where
  "rec_trx s h t \<longleftrightarrow> h \<in> set (ms_trxes s) \<and> ms_store s h = Some t"

definition mirrors :: "(int \<Rightarrow> Table option) \<Rightarrow> target set \<Rightarrow> MvccState \<Rightarrow> MvccState \<Rightarrow> nat \<Rightarrow> bool" where
  "mirrors T K st s n \<longleftrightarrow> tables_ok (ms_tables s) \<and> db_kept T (ms_tables s) \<and>
     (\<forall>k. st_rows s k = (if k \<in> K then st_rows st k else db_rows T k)) \<and> (\<forall>k. st_rows st k \<noteq> None \<longrightarrow> k \<in> K) \<and>
     distinct (ms_trxes s) \<and> (\<forall>h \<in> set (ms_trxes s). n \<le> h \<and> ms_store s h \<noteq> None) \<and>
     (\<forall>h t. rec_trx s h t \<longrightarrow> mt_recovering t \<and> 0 < mt_id t \<and> mt_id t \<le> ms_current st \<and>
        mt_ops t = (case open_ops st (mt_id t) of None \<Rightarrow> [] | Some ops \<Rightarrow> ops)) \<and>
     (\<forall>h t h' t'. rec_trx s h t \<and> rec_trx s h' t' \<and> mt_id t = mt_id t' \<longrightarrow> h = h') \<and>
     (\<forall>x. open_ops st x \<noteq> None \<longrightarrow> (\<exists>h t. rec_trx s h t \<and> mt_id t = x))"

lemma mirrorsD:
  assumes "mirrors T K st s n"
  shows "tables_ok (ms_tables s)" "db_kept T (ms_tables s)" "st_rows s k = (if k \<in> K then st_rows st k else db_rows T k)"
    "st_rows st k \<noteq> None \<Longrightarrow> k \<in> K" "distinct (ms_trxes s)" "h \<in> set (ms_trxes s) \<Longrightarrow> n \<le> h \<and> ms_store s h \<noteq> None"
    "rec_trx s h t \<Longrightarrow> mt_recovering t \<and> 0 < mt_id t \<and> mt_id t \<le> ms_current st"
    "rec_trx s h t \<Longrightarrow> mt_ops t = (case open_ops st (mt_id t) of None \<Rightarrow> [] | Some ops \<Rightarrow> ops)"
    "rec_trx s h t \<Longrightarrow> rec_trx s h' t' \<Longrightarrow> mt_id t = mt_id t' \<Longrightarrow> h = h'"
    "open_ops st x \<noteq> None \<Longrightarrow> \<exists>h t. rec_trx s h t \<and> mt_id t = x"
  using assms unfolding mirrors_def by blast+

lemma find_trx_rec:
  assumes M: "mirrors T K st s n" and h: "rec_trx s h t"
  shows "find_trx (mt_id t) s = Some h"
proof -
  let ?P = "\<lambda>h. case ms_store s h of None \<Rightarrow> False | Some u \<Rightarrow> mt_id u = mt_id t"
  have "find ?P (ms_trxes s) \<noteq> None" using h by (auto simp: find_None_iff rec_trx_def)
  then obtain h' where f: "find ?P (ms_trxes s) = Some h'" by blast
  then have "?P h'" "h' \<in> set (ms_trxes s)" by (auto simp: find_Some_iff)
  then obtain u where "rec_trx s h' u" "mt_id u = mt_id t" by (auto simp: rec_trx_def split: option.splits)
  then have "h' = h" using mirrorsD(9) [OF M _ h] by blast
  then show ?thesis using f by (simp add: find_trx_def)
qed

lemma redo_trx:
  assumes M: "mirrors T K st s n" and x: "open_ops st x = Some ops"
  obtains h t where "rec_trx s h t" "mt_id t = x" "mt_ops t = ops" "find_trx x s = Some h" "ms_store s h = Some t" "mt_recovering t"
proof -
  obtain h t where h: "rec_trx s h t" "mt_id t = x" using mirrorsD(10) [OF M, of x] x by auto
  then show thesis using that mirrorsD(7,8) [OF M h(1)] find_trx_rec [OF M h(1)] x by (auto simp: rec_trx_def)
qed

lemma mirrors_step:
  assumes M: "mirrors T K st s (Suc n)" and h: "rec_trx s h t"
    and S: "ms_trxes s' = ms_trxes s" "ms_store s' = (ms_store s)(h \<mapsto> t')" "mt_id t' = mt_id t" "mt_recovering t'"
    and T: "tables_ok (ms_tables s')" "db_kept (ms_tables s) (ms_tables s')"
    and rows: "\<And>k. st_rows s' k = (if k \<in> K' then st_rows st' k else db_rows T k)" "\<And>k. st_rows st' k \<noteq> None \<Longrightarrow> k \<in> K'"
    and cur: "ms_current st \<le> ms_current st'"
    and ops: "open_ops st' = (open_ops st)(mt_id t := o')" "mt_ops t' = (case o' of None \<Rightarrow> [] | Some ops \<Rightarrow> ops)"
  shows "mirrors T K' st' s' n"
proof -
  have old: "\<exists>u'. rec_trx s i u' \<and> mt_id u = mt_id u' \<and> (if i = h then u = t' else u = u')" if "rec_trx s' i u" for i u
    using that h S by (cases "i = h") (auto simp: rec_trx_def)
  have new: "\<exists>u'. rec_trx s' i u' \<and> mt_id u' = mt_id u" if "rec_trx s i u" for i u
    using that h S by (cases "i = h") (auto simp: rec_trx_def)
  have trx: "mt_recovering u \<and> 0 < mt_id u \<and> mt_id u \<le> ms_current st' \<and> mt_ops u = (case open_ops st' (mt_id u) of None \<Rightarrow> [] | Some ops \<Rightarrow> ops)"
    if u: "rec_trx s' i u" for i u
  proof (cases "i = h")
    case True
    then have "u = t'" using u S by (auto simp: rec_trx_def)
    then show ?thesis using mirrorsD(7) [OF M h] S ops cur by simp
  next
    case False
    then have r: "rec_trx s i u" using u S by (auto simp: rec_trx_def)
    have "mt_id u \<noteq> mt_id t" using mirrorsD(9) [OF M r h] False by blast
    then show ?thesis using mirrorsD(7,8) [OF M r] ops(1) cur by simp
  qed
  have uniq: "i = j" if "rec_trx s' i u" "rec_trx s' j v" "mt_id u = mt_id v" for i u j v
    using old [OF that(1)] old [OF that(2)] that(3) mirrorsD(9) [OF M] by metis
  have opened: "\<exists>i u. rec_trx s' i u \<and> mt_id u = x" if "open_ops st' x \<noteq> None" for x
  proof (cases "x = mt_id t")
    case True
    then show ?thesis using new [OF h] by blast
  next
    case False
    then have "open_ops st x \<noteq> None" using that ops(1) by simp
    then obtain i u where "rec_trx s i u" "mt_id u = x" using mirrorsD(10) [OF M] by blast
    then show ?thesis using new by metis
  qed
  have handles: "n \<le> i \<and> ms_store s' i \<noteq> None" if "i \<in> set (ms_trxes s')" for i
    using mirrorsD(6) [OF M, of i] that S(1,2) by auto
  have "distinct (ms_trxes s')" using mirrorsD(5) [OF M] S(1) by simp
  moreover have "db_kept T (ms_tables s')" using db_kept_trans [OF mirrorsD(2) [OF M] T(2)] .
  ultimately show ?thesis unfolding mirrors_def using T(1) rows trx uniq opened handles by blast
qed

definition log_targets :: "CLogRecord list \<Rightarrow> target set" where
  "log_targets rs = {rec_target r | r. r \<in> set rs \<and> log_type r = CLOG_INSERT}"

text \<open>The tables have a slot of the right size for every row that the log inserts, and no index.\<close>

definition log_fits :: "(int \<Rightarrow> Table option) \<Rightarrow> CLogRecord list \<Rightarrow> bool" where
  "log_fits T rs \<longleftrightarrow> (\<forall>tid tb. T tid = Some tb \<longrightarrow> tb_indexes tb = []) \<and>
     (\<forall>r \<in> set rs. log_type r = CLOG_INSERT \<longrightarrow> (\<exists>tb. T (ld_table_id (lr_data r)) = Some tb \<and> ld_rid (lr_data r) \<in> rf_slots (tb_handler tb) \<and>
        length (ld_data (lr_data r)) = nat (tm_record_size (tb_meta tb))))"

lemma kept_table:
  assumes "db_kept T T'" "T tid = Some tb0"
  obtains tb where "T' tid = Some tb" "tb_kept tb0 tb"
proof -
  have "rel_option tb_kept (T tid) (T' tid)" using assms(1) by (simp add: db_kept_def)
  then show thesis using assms(2) that by (cases "T' tid") auto
qed

lemma redo_begin:
  assumes M: "mirrors T K st s (Suc n)" and ok: "mvcc_ok st" "mvcc_ok st'" and ty: "log_type r = MTR_BEGIN" and x: "x = lh_trx_id (lr_header r)" "ms_current st < x"
    and view: "log_view st' = log_step r (log_view st)" and cur: "ms_current st \<le> ms_current st'"
  shows "\<exists>s'. recover_record env n r s = Some (SUCCESS, s') \<and> ms_log s' = ms_log s \<and> mirrors T K st' s' n"
proof -
  have v: "st_rows st' = st_rows st" "open_ops st' = (open_ops st)(x \<mapsto> [])" using view ty x(1) by (simp_all add: log_view_def log_step_def Let_def)
  have "open_ops st' x = Some []" using v(2) by simp
  then obtain i u where "ms_store st' i = Some u" "mt_started u" "mt_id u = x" by (rule open_opsD [OF ok(2)])
  then have range: "0 < x" "x \<le> ms_current st'" using trx_id_range [OF ok(2)] by auto
  let ?t = "\<lparr>mt_id = x, mt_started = True, mt_recovering = True, mt_ops = []\<rparr>" and ?s = "create_trx_with_id n x s"
  have fresh: "n \<notin> set (ms_trxes s)" using mirrorsD(6) [OF M, of n] by auto
  have S: "ms_trxes ?s = ms_trxes s @ [n]" "ms_store ?s = (ms_store s)(n \<mapsto> ?t)" "ms_tables ?s = ms_tables s" by (simp_all add: create_trx_with_id_def)
  have rec: "rec_trx ?s h t \<longleftrightarrow> (if h = n then t = ?t else rec_trx s h t)" for h t using fresh S by (auto simp: rec_trx_def)
  have old: "mt_id t \<noteq> x" if "rec_trx s h t" for h t using mirrorsD(7) [OF M that] x(2) by auto
  have "\<forall>h t. rec_trx ?s h t \<longrightarrow> mt_recovering t \<and> 0 < mt_id t \<and> mt_id t \<le> ms_current st' \<and>
      mt_ops t = (case open_ops st' (mt_id t) of None \<Rightarrow> [] | Some ops \<Rightarrow> ops)"
  proof (intro allI impI)
    fix h t assume "rec_trx ?s h t"
    then show "mt_recovering t \<and> 0 < mt_id t \<and> mt_id t \<le> ms_current st' \<and> mt_ops t = (case open_ops st' (mt_id t) of None \<Rightarrow> [] | Some ops \<Rightarrow> ops)"
      using rec [of h t] old [of h t] mirrorsD(7,8) [OF M, of h t] range v(2) cur by (cases "h = n") auto
  qed
  moreover have "\<forall>h t h' t'. rec_trx ?s h t \<and> rec_trx ?s h' t' \<and> mt_id t = mt_id t' \<longrightarrow> h = h'"
  proof (intro allI impI)
    fix h t h' t' assume "rec_trx ?s h t \<and> rec_trx ?s h' t' \<and> mt_id t = mt_id t'"
    then show "h = h'" using rec [of h t] rec [of h' t'] old mirrorsD(9) [OF M, of h t h' t'] by (auto split: if_splits)
  qed
  moreover have "\<forall>y. open_ops st' y \<noteq> None \<longrightarrow> (\<exists>h t. rec_trx ?s h t \<and> mt_id t = y)"
  proof (intro allI impI)
    fix y assume y: "open_ops st' y \<noteq> None"
    show "\<exists>h t. rec_trx ?s h t \<and> mt_id t = y"
    proof (cases "y = x")
      case True
      then show ?thesis using rec [of n ?t] by (intro exI [of _ n] exI [of _ ?t]) simp
    next
      case False
      then have "open_ops st y \<noteq> None" using y v(2) by simp
      then obtain h t where "rec_trx s h t" "mt_id t = y" using mirrorsD(10) [OF M] by blast
      moreover have "h \<noteq> n" using \<open>rec_trx s h t\<close> fresh by (auto simp: rec_trx_def)
      ultimately show ?thesis using rec [of h t] by auto
    qed
  qed
  moreover have "\<forall>h \<in> set (ms_trxes ?s). n \<le> h \<and> ms_store ?s h \<noteq> None" using mirrorsD(6) [OF M] S by fastforce
  moreover have "distinct (ms_trxes ?s)" using mirrorsD(5) [OF M] fresh S(1) by simp
  ultimately have "mirrors T K st' ?s n"
    unfolding mirrors_def S(3) v(1) using mirrorsD(1-4) [OF M] by blast
  moreover have "recover_record env n r s = Some (SUCCESS, ?s)" "ms_log ?s = ms_log s"
    using ty x(1) by (simp_all add: recover_record_def create_trx_with_id_def)
  ultimately show ?thesis by blast
qed

lemma redo_insert:
  assumes M: "mirrors T K st s (Suc n)" and ty: "log_type r = CLOG_INSERT" and x: "x = lh_trx_id (lr_header r)" "open_ops st x = Some ops"
    and fits: "log_fits T [r]" and view: "log_view st' = log_step r (log_view st)" and cur: "ms_current st \<le> ms_current st'"
  shows "\<exists>s'. recover_record env n r s = Some (SUCCESS, s') \<and> ms_log s' = ms_log s \<and> mirrors T (insert (rec_target r) K) st' s' n"
proof -
  let ?d = "lr_data r" and ?k = "rec_target r"
  let ?tid = "ld_table_id ?d" and ?rid = "ld_rid ?d"
  obtain h t where h: "rec_trx s h t" "mt_id t = x" "mt_ops t = ops" "find_trx x s = Some h" "ms_store s h = Some t" "mt_recovering t"
    by (rule redo_trx [OF M x(2)])
  have v: "st_rows st' = (st_rows st)(?k \<mapsto> ld_data ?d)" "open_ops st' = (open_ops st)(x \<mapsto> add_op OP_INSERT ?k ops)"
    using view ty x by (simp_all add: log_view_def log_step_def Let_def)
  obtain tb0 where tb0: "T ?tid = Some tb0" "tb_indexes tb0 = []" "?rid \<in> rf_slots (tb_handler tb0)" "length (ld_data ?d) = nat (tm_record_size (tb_meta tb0))"
    using fits ty by (auto simp: log_fits_def)
  obtain tb where tb: "ms_tables s ?tid = Some tb" "tb_kept tb0 tb" by (rule kept_table [OF mirrorsD(2) [OF M] tb0(1)])
  have t: "mvcc_table tb" "tm_table_id (tb_meta tb) = ?tid" using tables_okD [OF mirrorsD(1) [OF M] tb(1)] by simp_all
  have k: "tb_indexes tb = []" "?rid \<in> rf_slots (tb_handler tb)" "length (ld_data ?d) = nat (tm_record_size (tb_meta tb))"
    using tb(2) tb0 by (simp_all add: tb_kept_def)
  obtain tb' where tb': "recover_insert_record (me_table env) (ld_data ?d) ?rid tb = Some (SUCCESS, tb')" "mvcc_table tb'" "tb_kept tb tb'"
    "tb_rows tb' = (tb_rows tb)(?rid \<mapsto> ld_data ?d)" using table_recover_insert [OF t(1) k] by blast
  let ?s = "s\<lparr>ms_tables := (ms_tables s)(?tid \<mapsto> tb')\<rparr>"
  let ?t = "t\<lparr>mt_ops := add_op OP_INSERT ?k ops\<rparr>"
  let ?s' = "?s\<lparr>ms_store := (ms_store s)(h \<mapsto> ?t)\<rparr>"
  have run: "recover_record env n r s = Some (SUCCESS, ?s')"
    using ty h tb(1) tb'(1) x(1) by (simp add: recover_record_def mvcc_redo_def find_table_def Let_def set_ops_def add_op_def rec_target_def)
  have rows: "st_rows ?s' = (st_rows s)(?k \<mapsto> ld_data ?d)"
    using db_rows_table [where tables = "ms_tables s" and tid = ?tid, OF tb(1) tb'(4)] by (simp add: rec_target_def)
  have "mirrors T (insert ?k K) st' ?s' n"
  proof (rule mirrors_step [where t' = ?t, OF M h(1)])
    show "tables_ok (ms_tables ?s')" using mirrorsD(1) [OF M] tb'(2,3) t(2) by (simp add: tables_ok_upd tb_kept_def)
    show "db_kept (ms_tables s) (ms_tables ?s')" using db_kept_upd [where tables = "ms_tables s" and tid = ?tid, OF tb(1) tb'(3)] by simp
    show "st_rows ?s' q = (if q \<in> insert ?k K then st_rows st' q else db_rows T q)" for q
      unfolding rows v(1) using mirrorsD(3) [OF M, of q] by simp
    show "st_rows st' q \<noteq> None \<Longrightarrow> q \<in> insert ?k K" for q unfolding v(1) using mirrorsD(4) [OF M, of q] by (auto split: if_splits)
    show "open_ops st' = (open_ops st)(mt_id t := Some (add_op OP_INSERT ?k ops))" using v(2) h(2) by simp
  qed (use h(6) cur in simp_all)
  moreover have "ms_log ?s' = ms_log s" by simp
  ultimately show ?thesis using run by blast
qed

lemma redo_delete:
  assumes env: "mvcc_env_ok env" and M: "mirrors T K st s (Suc n)" and ok: "mvcc_ok st" and ty: "log_type r = CLOG_DELETE"
    and x: "x = lh_trx_id (lr_header r)" "open_ops st x = Some ops"
    and row: "st_rows st (rec_target r) = Some d" "row_end d = max_trx_id" and view: "log_view st' = log_step r (log_view st)" and cur: "ms_current st \<le> ms_current st'"
  shows "\<exists>s'. recover_record env n r s = Some (SUCCESS, s') \<and> ms_log s' = ms_log s \<and> mirrors T K st' s' n"
proof -
  let ?k = "rec_target r"
  let ?tid = "ld_table_id (lr_data r)" and ?rid = "ld_rid (lr_data r)"
  obtain h t where h: "rec_trx s h t" "mt_id t = x" "mt_ops t = ops" "find_trx x s = Some h" "ms_store s h = Some t" "mt_recovering t"
    by (rule redo_trx [OF M x(2)])
  have id: "0 < mt_id t" "mt_id t < 2 ^ 31" using mirrorsD(7) [OF M h(1)] mvcc_okD(3) [OF ok] by (simp_all add: max_trx_id_def)
  have v: "st_rows st' = (st_rows st)(?k \<mapsto> put_i32 d 4 (- x))" "open_ops st' = (open_ops st)(x \<mapsto> add_op OP_DELETE ?k ops)"
    using view ty x row(1) by (simp_all add: log_view_def log_step_def Let_def)
  have K: "?k \<in> K" using mirrorsD(4) [OF M, of ?k] row(1) by simp
  then have srow: "st_rows s ?k = Some d" using mirrorsD(3) [OF M, of ?k] row(1) by simp
  obtain tb where tb: "ms_tables s ?tid = Some tb" "tb_rows tb ?rid = Some d" using db_rows_Some [OF srow] by (auto simp: rec_target_def)
  have t: "mvcc_table tb" "tm_table_id (tb_meta tb) = ?tid" using tables_okD [OF mirrorsD(1) [OF M] tb(1)] by simp_all
  have m: "mvcc_meta tb" "tb_ok tb" using t(1) by (simp_all add: mvcc_table_def)
  note f = conjunct2 [OF meta_fields [OF m(1)]]
  have len: "length d = nat (tm_record_size (tb_meta tb))" "8 \<le> length d" using row_length [OF m(2) tb(2)] row_length8 [OF t(1) tb(2)] by simp_all
  have "visits (nat (tm_record_size (tb_meta tb))) (xid_updater env (tm_fields (tb_meta tb) ! 1) max_trx_id (neg_i32 (mt_id t))) ?rid d () (put_i32 d 4 (neg_i32 (mt_id t)))"
    using row(2) len by (intro updater_visits [OF f _ len(1)]) (simp_all add: row_end_def)
  from visit_row_correct [OF env t(1) tb(2) f _ this] obtain hd where
    vis: "visit_record (me_table env) ?rid False (xid_updater env (tm_fields (tb_meta tb) ! 1) max_trx_id (neg_i32 (mt_id t))) tb = Some (SUCCESS, Some (), tb\<lparr>tb_handler := hd\<rparr>)"
    "mvcc_table (tb\<lparr>tb_handler := hd\<rparr>)" "tb_rows (tb\<lparr>tb_handler := hd\<rparr>) = (tb_rows tb)(?rid \<mapsto> put_i32 d 4 (- x))" "tb_kept tb (tb\<lparr>tb_handler := hd\<rparr>)"
    using neg_i32_exact [OF id] h(2) by auto
  let ?tb = "tb\<lparr>tb_handler := hd\<rparr>" and ?t = "t\<lparr>mt_ops := add_op OP_DELETE ?k ops\<rparr>"
  let ?s' = "s\<lparr>ms_tables := (ms_tables s)(?tid \<mapsto> ?tb), ms_store := (ms_store s)(h \<mapsto> ?t)\<rparr>"
  have run: "recover_record env n r s = Some (SUCCESS, ?s')"
    using ty h tb(1) vis(1) trx_fields_ok [OF env m(1)] x(1)
    by (simp add: recover_record_def mvcc_redo_def find_table_def Let_def set_ops_def add_op_def rec_target_def del: One_nat_def)
  have rows: "st_rows ?s' = (st_rows s)(?k \<mapsto> put_i32 d 4 (- x))"
    using db_rows_table [where tables = "ms_tables s" and tid = ?tid, OF tb(1) vis(3)] by (simp add: rec_target_def)
  have "mirrors T K st' ?s' n"
  proof (rule mirrors_step [where t' = ?t, OF M h(1)])
    show "tables_ok (ms_tables ?s')" using mirrorsD(1) [OF M] vis(2) t(2) by (simp add: tables_ok_upd)
    show "db_kept (ms_tables s) (ms_tables ?s')" using db_kept_upd [where tables = "ms_tables s" and tid = ?tid, OF tb(1) vis(4)] by simp
    show "st_rows ?s' q = (if q \<in> K then st_rows st' q else db_rows T q)" for q
      unfolding rows v(1) using mirrorsD(3) [OF M, of q] K by auto
    show "st_rows st' q \<noteq> None \<Longrightarrow> q \<in> K" for q unfolding v(1) using mirrorsD(4) [OF M, of q] K by (auto split: if_splits)
    show "open_ops st' = (open_ops st)(mt_id t := Some (add_op OP_DELETE ?k ops))" using v(2) h(2) by simp
  qed (use h(6) cur in simp_all)
  moreover have "ms_log ?s' = ms_log s" by simp
  ultimately show ?thesis using run by blast
qed

text \<open>The end of a transaction, with the effect \<open>g\<close> on its rows.\<close>

lemma redo_ops:
  assumes M: "mirrors T K st s n" and ok: "mvcc_ok st" and x: "open_ops st x = Some ops"
  shows "distinct (map op_target ops)" "0 < x" "x < 2 ^ 31"
    "op \<in> set ops \<Longrightarrow> op_target op \<in> K \<and> (\<exists>d. st_rows s (op_target op) = Some d \<and> st_rows st (op_target op) = Some d \<and> owned x op d)"
proof -
  obtain i u where u: "ms_store st i = Some u" "mt_started u" "mt_id u = x" "mt_ops u = ops" by (rule open_opsD [OF ok x])
  note t = mvcc_okD(6) [OF ok u(1)]
  show "distinct (map op_target ops)" using trx_okD(4) [OF t] u(4) by simp
  show "0 < x" "x < 2 ^ 31" using trx_id_range [OF ok u(1,2)] u(3) by auto
  assume "op \<in> set ops"
  then obtain d where d: "st_rows st (op_target op) = Some d" "owned x op d" using trx_okD(5) [OF t] u(3,4) by auto
  moreover have "op_target op \<in> K" using mirrorsD(4) [OF M, of "op_target op"] d(1) by simp
  ultimately show "op_target op \<in> K \<and> (\<exists>d. st_rows s (op_target op) = Some d \<and> st_rows st (op_target op) = Some d \<and> owned x op d)"
    using mirrorsD(3) [OF M, of "op_target op"] by simp
qed

lemma op_effect_mirror:
  assumes "\<And>k. rows k = (if k \<in> K then rows' k else other k)" "op_target ` set ops \<subseteq> K"
  shows "op_effect g ops rows k = (if k \<in> K then op_effect g ops rows' k else other k)"
proof (cases "k \<in> K")
  case True
  then show ?thesis using assms(1) [of k] by (simp add: op_effect_def split: option.split)
next
  case False
  then have "k \<notin> op_target ` set ops" using assms(2) by blast
  then show ?thesis using False assms(1) [of k] by (simp add: op_effect_out)
qed

lemma redo_end:
  assumes env: "mvcc_env_ok env" and M: "mirrors T K st s (Suc n)" and ok: "mvcc_ok st" and x: "open_ops st x = Some ops" and h: "rec_trx s h t" "mt_id t = x"
    and st': "st_rows st' = op_effect g ops (st_rows st)" "open_ops st' = (open_ops st)(x := None)" "ms_current st \<le> ms_current st'"
    and tables: "tables_ok tables" "db_rows tables = op_effect g ops (st_rows s)" "db_kept (ms_tables s) tables"
  shows "mirrors T K st' (end_trx h t tables s) n"
proof (rule mirrors_step [OF M h(1)])
  have sub: "op_target ` set ops \<subseteq> K" using redo_ops(4) [OF M ok x] by blast
  show "st_rows (end_trx h t tables s) q = (if q \<in> K then st_rows st' q else db_rows T q)" for q
    using op_effect_mirror [OF mirrorsD(3) [OF M] sub, of g q] tables(2) st'(1) by (simp add: end_trx_def)
  show "q \<in> K" if "st_rows st' q \<noteq> None" for q
  proof (rule ccontr)
    assume n: "q \<notin> K"
    then have "q \<notin> op_target ` set ops" using sub by blast
    then have "st_rows st q \<noteq> None" using that st'(1) by (simp add: op_effect_out)
    then show False using mirrorsD(4) [OF M] n by blast
  qed
  show "open_ops st' = (open_ops st)(mt_id t := None)" using st'(2) h(2) by simp
  show "mt_recovering (t\<lparr>mt_started := False, mt_ops := []\<rparr>)" using mirrorsD(7) [OF M h(1)] by simp
qed (use tables st'(3) in \<open>simp_all add: end_trx_def\<close>)

lemma redo_commit:
  assumes env: "mvcc_env_ok env" and M: "mirrors T K st s (Suc n)" and ok: "mvcc_ok st" and ty: "log_type r = MTR_COMMIT"
    and x: "x = lh_trx_id (lr_header r)" "open_ops st x = Some ops" and view: "log_view st' = log_step r (log_view st)" and cur: "ms_current st \<le> ms_current st'"
  shows "\<exists>s'. recover_record env n r s = Some (SUCCESS, s') \<and> ms_log s' = ms_log s \<and> mirrors T K st' s' n"
proof -
  let ?c = "lr_commit_xid r"
  obtain h t where h: "rec_trx s h t" "mt_id t = x" "mt_ops t = ops" "find_trx x s = Some h" "ms_store s h = Some t" "mt_recovering t"
    by (rule redo_trx [OF M x(2)])
  note o = redo_ops [OF M ok x(2)]
  have v: "st_rows st' = op_effect (commit_effect ?c) ops (st_rows st)" "open_ops st' = (open_ops st)(x := None)"
    using view ty x by (simp_all add: log_view_def log_step_def Let_def)
  have step: "\<exists>tb'. commit_op env t ?c op SUCCESS tb = Some (SUCCESS, tb') \<and> mvcc_table tb' \<and> tb_kept tb tb' \<and> tb_rows tb' = (tb_rows tb)(op_rid op := commit_effect ?c op d)"
    if "mvcc_table tb" "tb_rows tb (op_rid op) = Some d" "owned x op d" for op tb d
    using commit_op_correct [OF env _ _ that(1,2), of t ?c SUCCESS] that(3) o(2,3) h(2) by simp
  have own: "\<exists>d. st_rows s (op_target op) = Some d \<and> owned x op d" if "op \<in> set ops" for op using o(4) [OF that] by blast
  obtain tables where tables: "ops_loop (commit_op env t ?c) (me_order env ops) SUCCESS (ms_tables s) = Some (SUCCESS, tables)" "tables_ok tables"
    "db_rows tables = op_effect (commit_effect ?c) ops (st_rows s)" "db_kept (ms_tables s) tables"
    using ops_loop_ordered [where step = "commit_op env t ?c" and g = "commit_effect ?c", OF env mirrorsD(1) [OF M] o(1) own step] by blast
  have "recover_record env n r s = Some (SUCCESS, end_trx h t tables s)"
    using ty h tables(1) x(1) by (simp add: recover_record_def mvcc_redo_def find_table_def Let_def commit_with_trx_id_def)
  moreover have "ms_log (end_trx h t tables s) = ms_log s" by (simp add: end_trx_def)
  ultimately show ?thesis using redo_end [OF env M ok x(2) h(1,2) v cur tables(2-4)] by blast
qed

lemma redo_rollback:
  assumes env: "mvcc_env_ok env" and M: "mirrors T K st s (Suc n)" and ok: "mvcc_ok st" and ty: "log_type r = MTR_ROLLBACK"
    and x: "x = lh_trx_id (lr_header r)" "open_ops st x = Some ops" and view: "log_view st' = log_step r (log_view st)" and cur: "ms_current st \<le> ms_current st'"
  shows "\<exists>s'. recover_record env n r s = Some (SUCCESS, s') \<and> ms_log s' = ms_log s \<and> mirrors T K st' s' n"
proof -
  obtain h t where h: "rec_trx s h t" "mt_id t = x" "mt_ops t = ops" "find_trx x s = Some h" "ms_store s h = Some t" "mt_recovering t"
    by (rule redo_trx [OF M x(2)])
  note o = redo_ops [OF M ok x(2)]
  have v: "st_rows st' = op_effect rollback_effect ops (st_rows st)" "open_ops st' = (open_ops st)(x := None)"
    using view ty x by (simp_all add: log_view_def log_step_def Let_def)
  have step: "\<exists>tb'. rollback_op env t op SUCCESS tb = Some (SUCCESS, tb') \<and> mvcc_table tb' \<and> tb_kept tb tb' \<and> tb_rows tb' = (tb_rows tb)(op_rid op := rollback_effect op d)"
    if "mvcc_table tb" "tb_rows tb (op_rid op) = Some d" "owned x op d" for op tb d
    using rollback_op_correct [OF env _ _ that(1,2), of t] that(3) o(2,3) h(2) by simp
  have own: "\<exists>d. st_rows s (op_target op) = Some d \<and> owned x op d" if "op \<in> set ops" for op using o(4) [OF that] by blast
  obtain tables where tables: "ops_loop (rollback_op env t) (me_order env ops) SUCCESS (ms_tables s) = Some (SUCCESS, tables)" "tables_ok tables"
    "db_rows tables = op_effect rollback_effect ops (st_rows s)" "db_kept (ms_tables s) tables"
    using ops_loop_ordered [where step = "rollback_op env t" and g = rollback_effect, OF env mirrorsD(1) [OF M] o(1) own step] by blast
  have "recover_record env n r s = Some (SUCCESS, end_trx h t tables s)"
    using ty h tables(1) x(1) by (simp add: recover_record_def mvcc_redo_def find_table_def Let_def mvcc_rollback_def)
  moreover have "ms_log (end_trx h t tables s) = ms_log s" by (simp add: end_trx_def)
  ultimately show ?thesis using redo_end [OF env M ok x(2) h(1,2) v cur tables(2-4)] by blast
qed

text \<open>Any record of the running database.\<close>

lemma redo_record:
  assumes env: "mvcc_env_ok env" and M: "mirrors T K st s (Suc n)" and ok: "mvcc_ok st" "mvcc_ok st'" and r: "redoable st r" and fits: "log_fits T [r]"
    and view: "log_view st' = log_step r (log_view st)" and cur: "ms_current st \<le> ms_current st'"
  shows "\<exists>s'. recover_record env n r s = Some (SUCCESS, s') \<and> ms_log s' = ms_log s \<and> mirrors T (log_targets [r] \<union> K) st' s' n"
proof -
  let ?x = "lh_trx_id (lr_header r)"
  have t: "log_targets [r] = (if log_type r = CLOG_INSERT then {rec_target r} else {})" by (auto simp: log_targets_def)
  show ?thesis
  proof (cases "log_type r")
    case MTR_BEGIN
    then show ?thesis using redo_begin [OF M ok MTR_BEGIN refl _ view cur] r t by (simp add: redoable_def Let_def)
  next
    case MTR_COMMIT
    then obtain ops where "open_ops st ?x = Some ops" using r by (auto simp: redoable_def Let_def)
    then show ?thesis using redo_commit [OF env M ok(1) MTR_COMMIT refl _ view cur] MTR_COMMIT t by simp
  next
    case MTR_ROLLBACK
    then obtain ops where "open_ops st ?x = Some ops" using r by (auto simp: redoable_def Let_def)
    then show ?thesis using redo_rollback [OF env M ok(1) MTR_ROLLBACK refl _ view cur] MTR_ROLLBACK t by simp
  next
    case CLOG_INSERT
    then obtain ops where "open_ops st ?x = Some ops" using r by (auto simp: redoable_def Let_def)
    then show ?thesis using redo_insert [OF M CLOG_INSERT refl _ fits view cur] CLOG_INSERT t by simp
  next
    case CLOG_DELETE
    then obtain ops d where "open_ops st ?x = Some ops" "st_rows st (rec_target r) = Some d" "row_end d = max_trx_id"
      using r by (auto simp: redoable_def Let_def)
    then show ?thesis using redo_delete [OF env M ok(1) CLOG_DELETE refl _ _ _ view cur] CLOG_DELETE t by simp
  qed (use r in \<open>simp_all add: redoable_def Let_def\<close>)
qed

subsection \<open>Redoing the log\<close>

text \<open>A stretch of the life of the database and the records it wrote.\<close>

inductive history :: "MvccState \<Rightarrow> CLogRecord list \<Rightarrow> MvccState \<Rightarrow> bool" where
  stop: "history st [] st"
| quiet: "\<lbrakk>log_view st1 = log_view st; ms_current st \<le> ms_current st1; history st1 L st'\<rbrakk> \<Longrightarrow> history st L st'"
| logged: "\<lbrakk>mvcc_ok st; mvcc_ok st1; redoable st r; clog_wf r; log_view st1 = log_step r (log_view st); ms_current st \<le> ms_current st1; history st1 L st'\<rbrakk> \<Longrightarrow>
    history st (r # L) st'"

lemma history_append: "history st L st1 \<Longrightarrow> history st1 L' st' \<Longrightarrow> history st (L @ L') st'"
  by (induction rule: history.induct) (auto intro: history.intros)

lemma history_wf: "history st L st' \<Longrightarrow> \<forall>r \<in> set L. clog_wf r"
  by (induction rule: history.induct) simp_all

lemma mvcc_run_history:
  assumes env: "mvcc_env_ok env" and ok: "mvcc_ok st0"
  shows "mvcc_run env st0 st \<Longrightarrow> mvcc_ok st \<and> (\<exists>L. history st0 L st \<and> log_bytes st = log_bytes st0 @ concat (map clog_encode L))"
proof (induction rule: mvcc_run.induct)
  case none
  then show ?case using ok by (auto intro: exI [of _ "[]"] history.stop)
next
  case (more st h st')
  then obtain L where L: "mvcc_ok st" "history st0 L st" "log_bytes st = log_bytes st0 @ concat (map clog_encode L)" by blast
  have ok': "mvcc_ok st'" using mvcc_step_effect [OF env L(1) more(2)] by blast
  obtain rs where rs: "step_logged st rs st'" "rs = [] \<or> (\<exists>r. rs = [r] \<and> redoable st r)" using mvcc_step_logged [OF env L(1) more(2)] by blast
  have "history st rs st'"
    using rs(2)
  proof (elim disjE exE conjE)
    assume "rs = []"
    then show ?thesis using rs(1) by (auto simp: step_logged_def intro: history.quiet [OF _ _ history.stop])
  next
    fix r assume "rs = [r]" "redoable st r"
    then show ?thesis using rs(1) L(1) ok' by (auto simp: step_logged_def intro: history.logged [OF _ _ _ _ _ _ history.stop])
  qed
  then have "history st0 (L @ rs) st'" by (rule history_append [OF L(2)])
  then show ?case using ok' L(3) rs(1) by (auto simp: step_logged_def intro!: exI [of _ "L @ rs"])
qed

lemma mirrors_log [simp]: "mirrors T K st (s\<lparr>ms_log := l\<rparr>) n = mirrors T K st s n"
  by (simp add: mirrors_def rec_trx_def)

lemma mirrors_quiet:
  assumes "mirrors T K st s n" "log_view st1 = log_view st" "ms_current st \<le> ms_current st1"
  shows "mirrors T K st1 s n"
proof -
  have v: "st_rows st1 = st_rows st" "open_ops st1 = open_ops st" using assms(2) by (simp_all add: log_view_def)
  have "\<forall>h t. rec_trx s h t \<longrightarrow> mt_recovering t \<and> 0 < mt_id t \<and> mt_id t \<le> ms_current st1 \<and>
      mt_ops t = (case open_ops st (mt_id t) of None \<Rightarrow> [] | Some ops \<Rightarrow> ops)"
    using mirrorsD(7,8) [OF assms(1)] assms(3) by fastforce
  then show ?thesis using assms(1) unfolding mirrors_def v by blast
qed

lemma log_fits_Cons: "log_fits T (r # L) \<longleftrightarrow> log_fits T [r] \<and> log_fits T L"
  by (auto simp: log_fits_def)

lemma log_targets_Cons: "log_targets (r # L) = log_targets [r] \<union> log_targets L"
  by (auto simp: log_targets_def)

lemma recover_loop_history:
  assumes env: "mvcc_env_ok env"
  shows "history st L st' \<Longrightarrow> mirrors T K st s (length L + Suc n) \<Longrightarrow> log_fits T L \<Longrightarrow> clog_rest (lm_file (ms_log s)) = concat (map clog_encode L) \<Longrightarrow>
    \<exists>s'. recover_loop env (length L + Suc n) s = Some (RECORD_EOF, s') \<and> mirrors T (log_targets L \<union> K) st' s' (Suc n)"
proof (induction arbitrary: s K rule: history.induct)
  case (stop st)
  have ce: "clog_env_ok (me_clog env)" using env by (simp add: mvcc_env_ok_def)
  obtain f where "clog_iter_next (me_clog env) (lm_file (ms_log s)) = Some (RECORD_EOF, None, f)"
    using iter_next_end [OF ce, of "lm_file (ms_log s)"] stop(3) by auto
  then show ?case using stop(1) by (simp add: log_targets_def)
next
  case (quiet st1 st L st')
  show ?case by (rule quiet.IH [OF mirrors_quiet [OF quiet.prems(1) quiet.hyps(1,2)] quiet.prems(2,3)])
next
  case (logged st st1 r L st')
  have ce: "clog_env_ok (me_clog env)" using env by (simp add: mvcc_env_ok_def)
  obtain f where f: "clog_iter_next (me_clog env) (lm_file (ms_log s)) = Some (SUCCESS, Some r, f)" "clog_rest f = concat (map clog_encode L)"
    using iter_next_record [OF ce logged.hyps(4), of "lm_file (ms_log s)" "concat (map clog_encode L)"] logged.prems(3) by auto
  let ?s = "s\<lparr>ms_log := (ms_log s)\<lparr>lm_file := f\<rparr>\<rparr>"
  have M: "mirrors T K st ?s (Suc (length L + Suc n))" using logged.prems(1) by simp
  have fits: "log_fits T [r]" "log_fits T L" using logged.prems(2) log_fits_Cons [of T r L] by simp_all
  obtain s1 where s1: "recover_record env (length L + Suc n) r ?s = Some (SUCCESS, s1)" "ms_log s1 = ms_log ?s" "mirrors T (log_targets [r] \<union> K) st1 s1 (length L + Suc n)"
    using redo_record [OF env M logged.hyps(1-3) fits(1) logged.hyps(5,6)] by blast
  have "clog_rest (lm_file (ms_log s1)) = concat (map clog_encode L)" using s1(2) f(2) by simp
  from logged.IH [OF s1(3) fits(2) this] obtain s' where
    s': "recover_loop env (length L + Suc n) s1 = Some (RECORD_EOF, s')" "mirrors T (log_targets L \<union> (log_targets [r] \<union> K)) st' s' (Suc n)" by blast
  have "recover_loop env (Suc (length L + Suc n)) s = Some (RECORD_EOF, s')" using f(1) s1(1) s'(1) by simp
  then show ?case using s'(2) log_targets_Cons [of r L] by (simp add: Un_ac)
qed

subsection \<open>Rolling back what did not end\<close>

definition trx_owns :: "rows \<Rightarrow> MvccTrx \<Rightarrow> bool" where
  "trx_owns rows t \<longleftrightarrow> mt_recovering t \<and> 0 < mt_id t \<and> mt_id t < 2 ^ 31 \<and> distinct (map op_target (mt_ops t)) \<and>
     (\<forall>op \<in> set (mt_ops t). \<exists>d. rows (op_target op) = Some d \<and> owned (mt_id t) op d)"

abbreviation trx_targets :: "MvccTrx \<Rightarrow> target set" where
  "trx_targets t \<equiv> op_target ` set (mt_ops t)"

lemma trx_owns_cong: "trx_owns rows t \<Longrightarrow> (\<And>k. k \<in> trx_targets t \<Longrightarrow> rows' k = rows k) \<Longrightarrow> trx_owns rows' t"
  by (simp add: trx_owns_def)

lemma rollback_one:
  assumes env: "mvcc_env_ok env" and ok: "tables_ok (ms_tables s)" and h: "ms_store s h = Some t" "trx_owns (st_rows s) t"
  shows "\<exists>tables. mvcc_rollback env h s = Some (SUCCESS, end_trx h t tables s) \<and> tables_ok tables \<and> db_rows tables = op_effect rollback_effect (mt_ops t) (st_rows s)"
proof -
  have o: "mt_recovering t" "0 < mt_id t" "mt_id t < 2 ^ 31" "distinct (map op_target (mt_ops t))"
    "\<And>op. op \<in> set (mt_ops t) \<Longrightarrow> \<exists>d. st_rows s (op_target op) = Some d \<and> owned (mt_id t) op d" using h(2) by (simp_all add: trx_owns_def)
  obtain tables where "ops_loop (rollback_op env t) (me_order env (mt_ops t)) SUCCESS (ms_tables s) = Some (SUCCESS, tables)" "tables_ok tables"
    "db_rows tables = op_effect rollback_effect (mt_ops t) (st_rows s)"
    using ops_loop_ordered [where step = "rollback_op env t" and g = rollback_effect, OF env ok o(4,5) rollback_op_correct [OF env o(2,3)]] by blast
  then show ?thesis using h(1) o(1) by (intro exI [of _ tables]) (simp add: mvcc_rollback_def)
qed

lemma rollback_all_correct:
  assumes env: "mvcc_env_ok env"
  shows "\<lbrakk>tables_ok (ms_tables s); distinct hs; \<forall>h \<in> set hs. \<exists>t. ms_store s h = Some t \<and> trx_owns (st_rows s) t;
    \<forall>h t h' t'. h \<in> set hs \<and> h' \<in> set hs \<and> h \<noteq> h' \<and> ms_store s h = Some t \<and> ms_store s h' = Some t' \<longrightarrow> trx_targets t \<inter> trx_targets t' = {}\<rbrakk> \<Longrightarrow>
    \<exists>s'. rollback_all env hs s = Some s' \<and> tables_ok (ms_tables s') \<and> ms_trxes s' = fold remove1 hs (ms_trxes s) \<and>
      (\<forall>k. (\<forall>h \<in> set hs. \<forall>t. ms_store s h = Some t \<longrightarrow> k \<notin> trx_targets t) \<longrightarrow> st_rows s' k = st_rows s k) \<and>
      (\<forall>h \<in> set hs. \<forall>t. \<forall>op \<in> set (mt_ops t). ms_store s h = Some t \<longrightarrow> st_rows s' (op_target op) = Option.bind (st_rows s (op_target op)) (rollback_effect op))"
proof (induction hs arbitrary: s)
  case (Cons h hs)
  obtain t where t: "ms_store s h = Some t" "trx_owns (st_rows s) t" using Cons.prems(3) by auto
  obtain tables where tables: "mvcc_rollback env h s = Some (SUCCESS, end_trx h t tables s)" "tables_ok tables"
    "db_rows tables = op_effect rollback_effect (mt_ops t) (st_rows s)" using rollback_one [OF env Cons.prems(1) t] by blast
  let ?s = "destroy_trx h (end_trx h t tables s)"
  have S: "ms_tables ?s = tables" "ms_trxes ?s = remove1 h (ms_trxes s)" "i \<noteq> h \<Longrightarrow> ms_store ?s i = ms_store s i" for i
    by (simp_all add: destroy_trx_def end_trx_def)
  have new: "h' \<noteq> h" if "h' \<in> set hs" for h' using that Cons.prems(2) by auto
  have out: "st_rows ?s k = st_rows s k" if "k \<notin> trx_targets t" for k using that tables(3) S(1) by (simp add: op_effect_out)
  have apart: "trx_targets t \<inter> trx_targets u = {}" if "h' \<in> set hs" "ms_store s h' = Some u" for h' u
    using Cons.prems(4) [rule_format, of h h' t u] that new [OF that(1)] t(1) by auto
  have "\<forall>h' \<in> set hs. \<exists>u. ms_store ?s h' = Some u \<and> trx_owns (st_rows ?s) u"
  proof
    fix h' assume h': "h' \<in> set hs"
    then obtain u where u: "ms_store s h' = Some u" "trx_owns (st_rows s) u" using Cons.prems(3) by auto
    have "trx_owns (st_rows ?s) u" by (rule trx_owns_cong [OF u(2) out]) (use apart [OF h' u(1)] in blast)
    then show "\<exists>u. ms_store ?s h' = Some u \<and> trx_owns (st_rows ?s) u" using u(1) S(3) [OF new [OF h']] by auto
  qed
  moreover have "\<forall>i u j v. i \<in> set hs \<and> j \<in> set hs \<and> i \<noteq> j \<and> ms_store ?s i = Some u \<and> ms_store ?s j = Some v \<longrightarrow> trx_targets u \<inter> trx_targets v = {}"
  proof (intro allI impI)
    fix i u j v assume a: "i \<in> set hs \<and> j \<in> set hs \<and> i \<noteq> j \<and> ms_store ?s i = Some u \<and> ms_store ?s j = Some v"
    then have "ms_store s i = Some u" "ms_store s j = Some v" using S(3) new by metis+
    then show "trx_targets u \<inter> trx_targets v = {}" using a Cons.prems(4) [rule_format, of i j u v] by auto
  qed
  moreover have "distinct hs" "tables_ok (ms_tables ?s)" using Cons.prems(2) tables(2) S(1) by simp_all
  ultimately obtain s' where s': "rollback_all env hs ?s = Some s'" "tables_ok (ms_tables s')" "ms_trxes s' = fold remove1 hs (ms_trxes ?s)"
    "\<And>k. (\<forall>h \<in> set hs. \<forall>t. ms_store ?s h = Some t \<longrightarrow> k \<notin> trx_targets t) \<Longrightarrow> st_rows s' k = st_rows ?s k"
    "\<And>h t op. h \<in> set hs \<Longrightarrow> op \<in> set (mt_ops t) \<Longrightarrow> ms_store ?s h = Some t \<Longrightarrow> st_rows s' (op_target op) = Option.bind (st_rows ?s (op_target op)) (rollback_effect op)"
    using Cons.IH [of ?s] by blast
  have rest: "st_rows s' k = st_rows ?s k" if "\<And>h u. h \<in> set hs \<Longrightarrow> ms_store s h = Some u \<Longrightarrow> k \<notin> trx_targets u" for k
    using s'(4) [of k] that S(3) new by metis
  have kept: "st_rows s' k = st_rows s k" if "\<forall>h' \<in> set (h # hs). \<forall>u. ms_store s h' = Some u \<longrightarrow> k \<notin> trx_targets u" for k
  proof -
    have "st_rows s' k = st_rows ?s k" by (rule rest) (use that in simp)
    also have "\<dots> = st_rows s k" by (rule out) (use that t(1) in simp)
    finally show ?thesis .
  qed
  have undone: "st_rows s' (op_target op) = Option.bind (st_rows s (op_target op)) (rollback_effect op)"
    if op: "h' \<in> set (h # hs)" "op \<in> set (mt_ops u)" "ms_store s h' = Some u" for h' u op
  proof (cases "h' = h")
    case True
    then have u: "u = t" using op(3) t(1) by simp
    have "st_rows s' (op_target op) = st_rows ?s (op_target op)" by (rule rest) (use apart op(2) u in blast)
    moreover have "inj_on op_target (set (mt_ops t))" using t(2) by (simp add: trx_owns_def distinct_map)
    ultimately show ?thesis using op(2) u tables(3) S(1) by (simp add: op_effect_in)
  next
    case False
    then have h': "h' \<in> set hs" using op(1) by simp
    then have "st_rows s' (op_target op) = Option.bind (st_rows ?s (op_target op)) (rollback_effect op)" using s'(5) [OF h' op(2)] op(3) S(3) [OF False] by simp
    moreover have "op_target op \<notin> trx_targets t" using apart [OF h' op(3)] op(2) by blast
    ultimately show ?thesis using out by simp
  qed
  have "rollback_all env (h # hs) s = Some s'" using tables(1) s'(1) by simp
  then show ?case using s'(2,3) S(2) kept undone by (intro exI [of _ s']) simp
qed simp

subsection \<open>Recovery\<close>

lemma mirrors_owns:
  assumes M: "mirrors T K st s n" and ok: "mvcc_ok st" and h: "rec_trx s h t"
  shows "trx_owns (st_rows s) t"
proof -
  have id: "mt_recovering t" "0 < mt_id t" "mt_id t < 2 ^ 31" using mirrorsD(7) [OF M h] mvcc_okD(3) [OF ok] by (simp_all add: max_trx_id_def)
  show ?thesis
  proof (cases "open_ops st (mt_id t)")
    case None
    then have "mt_ops t = []" using mirrorsD(8) [OF M h] by simp
    then show ?thesis using id by (simp add: trx_owns_def)
  next
    case (Some ops)
    then have "mt_ops t = ops" using mirrorsD(8) [OF M h] by simp
    then show ?thesis using id redo_ops(1) [OF M ok Some] redo_ops(4) [OF M ok Some] by (auto simp: trx_owns_def)
  qed
qed

lemma mirrors_apart:
  assumes M: "mirrors T K st s n" and ok: "mvcc_ok st" and h: "rec_trx s h t" "rec_trx s h' t'" "h \<noteq> h'"
  shows "trx_targets t \<inter> trx_targets t' = {}"
proof (rule ccontr)
  assume "trx_targets t \<inter> trx_targets t' \<noteq> {}"
  then obtain op op' where op: "op \<in> set (mt_ops t)" "op' \<in> set (mt_ops t')" "op_target op = op_target op'" by blast
  have ids: "mt_id t \<noteq> mt_id t'" using mirrorsD(9) [OF M h(1,2)] h(3) by blast
  have o: "open_ops st (mt_id t) = Some (mt_ops t)" "open_ops st (mt_id t') = Some (mt_ops t')"
    using mirrorsD(8) [OF M h(1)] mirrorsD(8) [OF M h(2)] op(1,2) by (auto split: option.splits)
  obtain i u where u: "ms_store st i = Some u" "mt_id u = mt_id t" "mt_ops u = mt_ops t" by (rule open_opsD [OF ok o(1)])
  obtain j v where v: "ms_store st j = Some v" "mt_id v = mt_id t'" "mt_ops v = mt_ops t'" by (rule open_opsD [OF ok o(2)])
  have "i \<noteq> j" using u v ids by auto
  then show False using owners_disjoint [OF ok u(1) v(1) _ , of op op'] op u(3) v(3) by simp
qed

lemma fold_remove_all: "distinct hs \<Longrightarrow> fold remove1 hs hs = []"
  by (induction hs) simp_all

lemma clog_scan_more: "clog_scan ce n f = Some x \<Longrightarrow> clog_scan ce (n + m) f = Some x"
proof (induction n arbitrary: f x)
  case (Suc n)
  obtain rc r g where g: "clog_iter_next ce f = Some (rc, r, g)" using Suc.prems by (auto simp: bind_eq_Some_conv)
  show ?case
  proof (cases r)
    case None
    then show ?thesis using Suc.prems g by simp
  next
    case (Some q)
    then obtain y where "clog_scan ce n g = Some y" using Suc.prems g by (auto simp: bind_eq_Some_conv)
    then show ?thesis using Suc.IH Suc.prems g Some by simp
  qed
qed simp

lemma clog_scan_length: "clog_scan ce n f = Some (rc, L, f') \<Longrightarrow> length L < n"
proof (induction n arbitrary: f rc L f')
  case (Suc n)
  then show ?case by (fastforce simp: bind_eq_Some_conv split: option.splits prod.splits)
qed simp

lemma clog_scan_unique:
  assumes "clog_env_ok ce" "\<forall>r \<in> set rs. clog_wf r" "clog_rest f = concat (map clog_encode rs)" "clog_scan ce n f = Some (rc, L, f')"
  shows "L = rs \<and> length rs < n"
proof -
  have "clog_scan ce (n + Suc (length rs)) f = Some (rc, L, f')" by (rule clog_scan_more [OF assms(4)])
  moreover obtain f'' where "clog_scan ce (n + Suc (length rs)) f = Some (RECORD_EOF, rs, f'')"
    using clog_scan_correct [OF assms(1-3), of "n + Suc (length rs)"] by auto
  ultimately show ?thesis using clog_scan_length [OF assms(4)] by simp
qed

text \<open>A recovering database: the log from its beginning, any tables, no transaction.\<close>

definition recovering_from :: "byte list \<Rightarrow> MvccState \<Rightarrow> bool" where
  "recovering_from bs s \<longleftrightarrow> clog_bytes (lm_file (ms_log s)) = bs \<and> of_pos (lf_file (lm_file (ms_log s))) = 0 \<and> ms_trxes s = [] \<and> tables_ok (ms_tables s)"

lemma recover_run:
  assumes env: "mvcc_env_ok env" and st0: "mvcc_init st0" "st_rows st0 = Map.empty" "log_bytes st0 = []" and run: "mvcc_run env st0 st"
    and s: "recovering_from (log_bytes st) s" "clog_scan (me_clog env) n (lm_file (ms_log s)) = Some (rc, L, f)" "log_fits (ms_tables s) L"
  shows "mvcc_ok st \<and> (\<exists>s1 n'. recover_loop env n s = Some (RECORD_EOF, s1) \<and> mirrors (ms_tables s) (log_targets L) st s1 n')"
proof -
  obtain rs where rs: "mvcc_ok st" "history st0 rs st" "log_bytes st = concat (map clog_encode rs)"
    using mvcc_run_history [OF env mvcc_init_ok [OF st0(1)] run] st0(3) by auto
  have ce: "clog_env_ok (me_clog env)" using env by (simp add: mvcc_env_ok_def)
  have rest: "clog_rest (lm_file (ms_log s)) = concat (map clog_encode rs)" using s(1) rs(3) by (simp add: recovering_from_def of_rest_def)
  have L: "L = rs" "length rs < n" using clog_scan_unique [OF ce history_wf [OF rs(2)] rest s(2)] by simp_all
  obtain m where m: "n = length rs + Suc m" using L(2) by (metis add_Suc_right less_imp_Suc_add)
  have "open_ops st0 = Map.empty" using st0(1) by (auto simp: open_ops_def mvcc_init_def fun_eq_iff)
  then have "mirrors (ms_tables s) {} st0 s (length rs + Suc m)"
    using s(1) st0(2) by (simp add: mirrors_def recovering_from_def rec_trx_def)
  from recover_loop_history [OF env rs(2) this _ rest] s(3) L(1) m show ?thesis using rs(1) by auto
qed

text \<open>
  Property C7: recovery after a crash. A database runs from the beginning of its log, with any interleaving of transactions; then it is started again, on the log as it was
  at some point of the run (the last point that the flushed log reaches) and on tables whose pages are old or new or in between, as the crash left them, provided they have
  the slots that the log names, and no index. \<open>recover\<close> replays the log and succeeds, and every row that the log ever inserted is as the running database had it at that
  point, but for the rows of transactions that had not ended: what they inserted is gone and what they deleted has an open end again. Rows that the log does not name are
  not touched, and no transaction is left.
\<close>

theorem recovery_restores:
  assumes "mvcc_env_ok env" "mvcc_init st0" "st_rows st0 = Map.empty" "log_bytes st0 = []" "mvcc_run env st0 st"
    "recovering_from (log_bytes st) s" "clog_scan (me_clog env) n (lm_file (ms_log s)) = Some (rc, L, f)" "log_fits (ms_tables s) L"
  shows "\<exists>s'. recover env n s = Some (SUCCESS, s') \<and> tables_ok (ms_tables s') \<and> ms_trxes s' = [] \<and> {k. st_rows st k \<noteq> None} \<subseteq> log_targets L \<and>
    (\<forall>k \<in> log_targets L. (\<forall>h t. ms_store st h = Some t \<longrightarrow> k \<notin> op_target ` set (mt_ops t)) \<longrightarrow> st_rows s' k = st_rows st k) \<and>
    (\<forall>h t. \<forall>op \<in> set (mt_ops t). ms_store st h = Some t \<longrightarrow> st_rows s' (op_target op) = Option.bind (st_rows st (op_target op)) (rollback_effect op)) \<and>
    (\<forall>k. k \<notin> log_targets L \<longrightarrow> st_rows s' k = st_rows s k)"
proof -
  obtain s1 n' where ok: "mvcc_ok st" and s1: "recover_loop env n s = Some (RECORD_EOF, s1)" and M: "mirrors (ms_tables s) (log_targets L) st s1 n'"
    using recover_run [OF assms] by blast
  let ?hs = "ms_trxes s1"
  have own: "\<forall>h \<in> set ?hs. \<exists>t. ms_store s1 h = Some t \<and> trx_owns (st_rows s1) t"
  proof
    fix h assume h: "h \<in> set ?hs"
    then obtain t where "ms_store s1 h = Some t" using mirrorsD(6) [OF M] by auto
    then show "\<exists>t. ms_store s1 h = Some t \<and> trx_owns (st_rows s1) t" using mirrors_owns [OF M ok, of h t] h by (simp add: rec_trx_def)
  qed
  have apart: "\<forall>h t h' t'. h \<in> set ?hs \<and> h' \<in> set ?hs \<and> h \<noteq> h' \<and> ms_store s1 h = Some t \<and> ms_store s1 h' = Some t' \<longrightarrow> trx_targets t \<inter> trx_targets t' = {}"
    using mirrors_apart [OF M ok] unfolding rec_trx_def by blast
  obtain s' where s': "rollback_all env ?hs s1 = Some s'" "tables_ok (ms_tables s')" "ms_trxes s' = fold remove1 ?hs ?hs"
    "\<And>k. (\<forall>h \<in> set ?hs. \<forall>t. ms_store s1 h = Some t \<longrightarrow> k \<notin> trx_targets t) \<Longrightarrow> st_rows s' k = st_rows s1 k"
    "\<And>h t op. h \<in> set ?hs \<Longrightarrow> op \<in> set (mt_ops t) \<Longrightarrow> ms_store s1 h = Some t \<Longrightarrow> st_rows s' (op_target op) = Option.bind (st_rows s1 (op_target op)) (rollback_effect op)"
    using rollback_all_correct [OF assms(1) mirrorsD(1) [OF M] mirrorsD(5) [OF M] own apart] by blast
  have live: "\<exists>i u. ms_store st i = Some u \<and> mt_ops u = mt_ops t" if t: "rec_trx s1 h t" "mt_ops t \<noteq> []" for h t
  proof -
    have "open_ops st (mt_id t) = Some (mt_ops t)" using mirrorsD(8) [OF M t(1)] t(2) by (auto split: option.splits)
    then show ?thesis by (rule open_opsD [OF ok]) blast
  qed
  have same: "st_rows s' k = st_rows s1 k" if k: "\<And>h t. ms_store st h = Some t \<Longrightarrow> k \<notin> trx_targets t" for k
  proof (rule s'(4), intro ballI allI impI)
    fix h t assume "h \<in> set ?hs" "ms_store s1 h = Some t"
    then have r: "rec_trx s1 h t" by (simp add: rec_trx_def)
    show "k \<notin> trx_targets t"
    proof (cases "mt_ops t = []")
      case False
      then show ?thesis using live [OF r] k by metis
    qed simp
  qed
  have rows: "{k. st_rows st k \<noteq> None} \<subseteq> log_targets L" using mirrorsD(4) [OF M] by blast
  have named: "st_rows s' k = st_rows st k" if "k \<in> log_targets L" "\<forall>h t. ms_store st h = Some t \<longrightarrow> k \<notin> trx_targets t" for k
    using same [of k] that mirrorsD(3) [OF M, of k] by simp
  have others: "st_rows s' k = st_rows s k" if out: "k \<notin> log_targets L" for k
  proof -
    have "k \<notin> trx_targets t" if h: "ms_store st h = Some t" for h t
    proof
      assume "k \<in> trx_targets t"
      then obtain op where "op \<in> set (mt_ops t)" "k = op_target op" by blast
      then have "st_rows st k \<noteq> None" using trx_okD(5) [OF mvcc_okD(6) [OF ok h]] by fastforce
      then show False using rows out by blast
    qed
    then show ?thesis using same [of k] out mirrorsD(3) [OF M, of k] by simp
  qed
  have undone: "st_rows s' (op_target op) = Option.bind (st_rows st (op_target op)) (rollback_effect op)"
    if op: "op \<in> set (mt_ops t)" "ms_store st h = Some t" for h t op
  proof -
    have "mt_started t" by (rule trx_okD(2) [OF mvcc_okD(6) [OF ok op(2)] op(1)])
    note o = open_ops_Some [OF ok op(2) this]
    obtain i u where u: "rec_trx s1 i u" "mt_ops u = mt_ops t" by (rule redo_trx [OF M o])
    have "st_rows s1 (op_target op) = st_rows st (op_target op)" using redo_ops(4) [OF M ok o op(1)] by auto
    then show ?thesis using s'(5) [of i op u] u op(1) by (simp add: rec_trx_def)
  qed
  have "recover env n s = Some (SUCCESS, s')" using s1 s'(1) by (simp add: recover_def)
  moreover have "ms_trxes s' = []" using s'(3) fold_remove_all [OF mirrorsD(5) [OF M]] by simp
  ultimately show ?thesis using s'(2) rows named others undone by (intro exI [of _ s']) blast
qed

text \<open>Two transactions start, the first inserts a row and commits with the number 3. The restarted database has the pages as the insertion left them.\<close>

lemma rf_content_slots:
  assumes "rf_content s rid = Some d"
  shows "rid \<in> rf_slots s"
  using assms by (auto simp: rf_content_def rf_slots_def page_recs_def bind_eq_Some_conv split: if_splits)

theorem recovery_restores_witness:
  "\<exists>st s r s'. mvcc_run xid_demo_env xid_demo_init st \<and> recovering_from (log_bytes st) s \<and> st_rows s (1, r) = Some (marked 1 xid_demo_row) \<and>
     recover xid_demo_env 5 s = Some (SUCCESS, s') \<and> st_rows s' (1, r) = Some (put_i32 (marked 1 xid_demo_row) 0 3)"
proof -
  let ?d = "marked 1 xid_demo_row" and ?e = xid_demo_env
  obtain st r u l1 l2 where run: "mvcc_run ?e xid_demo_init st" and st: "ms_store st 0 = Some \<lparr>mt_id = 1, mt_started = True, mt_recovering = False, mt_ops = [operation_new OP_INSERT 1 r]\<rparr>"
    "st_rows st = [(1, r) \<mapsto> ?d]" "ms_current st = 2" "log_size st \<le> 36"
    and log: "append_log (build_mtr_record MTR_BEGIN 1) (ms_log xid_demo_init) = (SUCCESS, l1)" "append_log (build_mtr_record MTR_BEGIN 2) l1 = (SUCCESS, l2)"
      "append_log (data_entry CLOG_INSERT 1 (1, r) ?d) l2 = (SUCCESS, ms_log st)" by (rule xid_demo_run)
  note ok = mvcc_reach_ok [OF xid_demo_env_ok mvcc_run_reach [OF run xid_demo_init_ok(1)]]
  have room: "ms_current st + 1 < max_trx_id" "log_room st 4" using st(3,4) by (simp_all add: max_trx_id_def log_room_def CLOG_BUFFER_SIZE_def)
  let ?L = "[build_mtr_record MTR_BEGIN 1, build_mtr_record MTR_BEGIN 2, data_entry CLOG_INSERT 1 (1, r) ?d, build_commit_record 1 3]"
  let ?op = "operation_new OP_INSERT 1 r"
  obtain st' b where st': "mvcc_commit ?e 0 st = Some (clog_file_sync (me_clog ?e), st')" "st_rows st' = op_effect (commit_effect 3) [?op] (st_rows st)"
    "ms_store st' = (ms_store st)(0 \<mapsto> \<lparr>mt_id = 1, mt_started = False, mt_recovering = False, mt_ops = []\<rparr>)"
    "append_log (build_commit_record 1 3) (ms_log st) = (SUCCESS, (ms_log st)\<lparr>lm_buffer := b\<rparr>)" "lb_records (lm_buffer (ms_log st')) = []"
    "clog_bytes (lm_file (ms_log st')) = clog_bytes (lm_file (ms_log st)) @ concat (map clog_encode (lb_records b))" "clog_buffer_ok b"
    using mvcc_commit_correct [OF xid_demo_env_ok ok st(1) _ room] st(3) by auto
  have run': "mvcc_run ?e xid_demo_init st'" by (rule mvcc_run.more [OF run mvcc_step.commit [OF st(1) _ room st'(1)]]) simp
  have recs: "lb_records b = ?L" "lm_file (ms_log st) = lm_file (ms_log xid_demo_init)"
    using append_log_records [OF log(1)] append_log_records [OF log(2)] append_log_records [OF log(3)] append_log_records [OF st'(4)]
    by (simp_all add: xid_demo_init_def clog_buffer_new_def)
  have wf: "\<forall>r \<in> set ?L. clog_wf r" using st'(7) unfolding clog_buffer_ok_def recs(1) by blast
  have bytes0: "clog_bytes (lm_file (ms_log xid_demo_init)) = []" "log_bytes xid_demo_init = []" by (simp_all add: log_bytes_def xid_demo_init_def clog_buffer_new_def)
  have bytes: "log_bytes st' = concat (map clog_encode ?L)" using st'(5,6) recs bytes0(1) by (simp add: log_bytes_def)
  obtain tb where tb: "ms_tables st 1 = Some tb" "tb_rows tb r = Some ?d" using st(2) db_rows_Some [of "ms_tables st" "(1, r)" ?d] by auto
  note t = tables_okD [OF mvcc_okD(1) [OF ok] tb(1)]
  let ?tb = "tb\<lparr>tb_indexes := []\<rparr>"
  define s where "s = st\<lparr>ms_tables := [1 \<mapsto> ?tb], ms_trxes := [], ms_log := (ms_log st)\<lparr>lm_file := \<lparr>lf_file = \<lparr>of_bytes = log_bytes st', of_pos = 0, of_tick = 0\<rparr>, lf_eof = False\<rparr>\<rparr>\<rparr>"
  have s: "ms_tables s = [1 \<mapsto> ?tb]" "clog_rest (lm_file (ms_log s)) = concat (map clog_encode ?L)" using bytes by (simp_all add: s_def of_rest_def)
  have rows: "tb_rows ?tb = tb_rows tb" by (simp add: tb_rows_def)
  have "mvcc_table ?tb" using t rows by (simp add: mvcc_table_def tb_ok_def mvcc_meta_def fits_i32_def)
  then have from_log: "recovering_from (log_bytes st') s" using t by (simp add: recovering_from_def s_def tables_ok_def)
  have ce: "clog_env_ok (me_clog ?e)" using xid_demo_env_ok by (simp add: mvcc_env_ok_def)
  obtain f where scan: "clog_scan (me_clog ?e) 5 (lm_file (ms_log s)) = Some (RECORD_EOF, ?L, f)"
    using clog_scan_correct [OF ce wf s(2), of 5] by auto
  have "r \<in> rf_slots (tb_handler tb)" using tb(2) by (auto simp: tb_rows_def intro: rf_content_slots)
  then have fits: "log_fits (ms_tables s) ?L" using row_length [of tb r ?d] t tb(2) s(1) by (simp add: log_fits_def mvcc_table_def)
  have target: "(1, r) \<in> log_targets ?L" by (force simp: log_targets_def)
  have op: "op_target ?op = (1, r)" "op_type ?op = OP_INSERT" by (simp_all add: op_target_def operation_new_def)
  have free: "(1, r) \<notin> op_target ` set (mt_ops v)" if "ms_store st' h = Some v" for h v
  proof (cases "h = 0")
    case False
    then have v: "ms_store st h = Some v" using that st'(3) by simp
    show ?thesis using owners_disjoint [OF ok st(1) v, of ?op] False op by auto
  qed (use that st'(3) in auto)
  obtain s' where s': "recover ?e 5 s = Some (SUCCESS, s')" "st_rows s' (1, r) = st_rows st' (1, r)"
    using recovery_restores [OF xid_demo_env_ok xid_demo_init_ok(1,2) bytes0(2) run' from_log scan fits] target free by blast
  have "st_rows st' (1, r) = Some (put_i32 ?d 0 3)" using op_effect_in [of "[?op]" ?op "commit_effect 3" "st_rows st"] st'(2) st(2) op by (simp add: commit_effect_def)
  moreover have "st_rows s (1, r) = Some ?d" using s(1) tb(2) rows by (simp add: db_rows_def)
  ultimately show ?thesis using run' from_log s' by (intro exI [of _ st'] exI [of _ s] exI [of _ r] exI [of _ s']) simp
qed

end
