(* ===== verification/Spec2Isabelle.thy ===== *)
theory Spec2Isabelle
  imports Bitmap Comparator LruCache BufferedWriter RecordPage PoolContract BplusContract RecordScan TableContract Recovery
begin

text \<open>
  \<^bold>\<open>The storage engine of MiniOB\<close>

  MiniOB is a small relational database server. A statement passes through the network layer, the SQL parser, the resolver, the optimizer and
  the executor (\<open>src/observer/net\<close>, \<open>src/observer/sql\<close>), which call the storage engine (\<open>src/observer/storage\<close>) through transactions and tables.
  This development models the storage engine and the containers it is built on (\<open>deps/common\<close>), from the bytes of a page up to
  interleaved transactions, the log and its replay. Paths below are under \<open>src/src/\<close> or, for \<open>deps\<close>, under \<open>src/\<close>.

  \<^bold>\<open>How the parts rest on each other\<close>

  A transaction (\<open>Mvcc\<close>) changes rows through a table (\<open>Table\<close>) and writes records to the log (\<open>Clog\<close>). A table keeps a record file (\<open>RecordFile\<close>) and
  its indexes (\<open>TableIndex\<close> on the B+ tree of \<open>BplusTree\<close>) in step. A record file is a set of record pages (\<open>RecordPage\<close>, on \<open>Bitmap\<close>) that it
  fetches from a disk buffer pool. The pool (\<open>BufferPool\<close>, \<open>PageAlloc\<close>) reads and writes pages of a file into frames (\<open>Frame\<close>), which all pools share through
  the frame manager (\<open>FrameManager\<close>, on \<open>LruCache\<close>) and which \<open>BufferPoolManager\<close> opens and closes. Each layer states the contract of the one below
  as definitions or as a locale and is proved over it; the layer below proves that its code keeps the contract.

  \<^bold>\<open>Conventions\<close>

  A \<open>char\<close> buffer is a function from offsets to 8-bit words (\<open>mem\<close>) or a byte list; \<open>int32_t\<close> fields are read and written as four little-endian bytes at their offset
  (\<open>read_i32\<close>, \<open>write_i32\<close>), so overlays of structures and overflow are as in the code. C integers elsewhere are \<open>int\<close> with \<open>cast_i32\<close> where they may wrap.
  A return code \<open>RC\<close> is a value of the enumeration of \<open>observer/common/rc.h\<close>; \<^const>\<open>None\<close> stands for what the code must never do: a failing \<open>ASSERT\<close> of the default (debug)
  build, a null or dangling pointer, a read out of bounds. A total-correctness theorem therefore says that the result is \<^const>\<open>Some\<close>. System calls, allocation faults and
  hash orders are parameters, and hypotheses say which of their answers are allowed (e.g. \<open>io_ok\<close>: every transfer succeeds; \<open>os_decides\<close>: \<open>write\<close> does not answer
  \<open>EAGAIN\<close> for ever; \<open>pick\<close> yields a member of a non-empty set; \<open>me_order\<close> permutes the operations).

  \<^bold>\<open>Theories\<close>

  \<^item> \<open>Prelude\<close>: return codes, memory, 32-bit fields, searches for the first index with a property.
  \<^item> \<open>Bitmap\<close> (\<open>deps/common/lang/bitmap.cpp\<close>): the bit operations and the byte-wise searches with their \<open>start_in_byte\<close>; the searches find the first set or
    clear bit wherever no byte is skipped from its middle. A search that starts in the middle of a byte it skips misses bits (\<open>next_setted_bit_skips\<close>).
  \<^item> \<open>Comparator\<close> (\<open>deps/common/lang/comparator.cpp\<close>, \<open>lower_bound.h\<close>, \<open>AttrComparator\<close> and \<open>KeyComparator\<close> of \<open>storage/index/bplus_tree.h\<close>): three-way
    comparison as a locale, interpreted on record identifiers and index keys, and the binary search. \<open>compare_float\<close> is a parameter.
  \<^item> \<open>LruCache\<close> (\<open>deps/common/lang/lru_cache.h\<close>): the linked list and hash set on an explicit heap of nodes, refined to a list of entries by recency.
  \<^item> \<open>RingBuffer\<close>, \<open>BufferedWriter\<close> (\<open>observer/net\<close>): a byte queue of fixed capacity, and the writer that fills and drains it; loops around \<open>write(2)\<close> are partial functions
    and are proved to return.
  \<^item> \<open>FileIo\<close> (\<open>deps/common/io/io.cpp\<close>): \<open>writen\<close> and \<open>readn\<close>, which return and transfer everything, or report the end or the failure.
  \<^item> \<open>Frame\<close> (\<open>storage/buffer/frame.cpp\<close>, \<open>deps/common/mm/mem_pool.h\<close>): pages, frames, pins, latches, the pool of frames.
  \<^item> \<open>FrameManager\<close>, \<open>BufferPool\<close>, \<open>PageAlloc\<close>, \<open>BufferPoolManager\<close>, \<open>PoolContract\<close> (\<open>storage/buffer/disk_buffer_pool.cpp\<close>): the record \<open>Sys\<close> is the state of all pools, their
    frames, the disk and the open files. \<open>logical\<close> is the page a client sees, in a frame or on disk; every operation is shown to keep it or to change exactly the page it is
    asked to, whatever is evicted. \<open>PoolContract\<close> holds what clients rely on: transparency, progress, fresh pages, iteration, durability.
  \<^item> \<open>RecordPage\<close>, \<open>RecordFile\<close>, \<open>RecordScan\<close> (\<open>storage/record/record_manager.cpp\<close>): the slots of a page, the file as a map from record identifiers to bytes
    (\<open>rf_content\<close>), and the scan as the list of its visible records. Pins and latches of the page handlers are in the state, and each operation gives them back
    (\<open>rf_ok\<close>: no latch is left; \<open>rf_pins\<close>: the pins are those from before).
  \<^item> \<open>BplusNode\<close>, \<open>BplusTree\<close>, \<open>BplusRep\<close>, \<open>BplusInsert\<close>, \<open>BplusDelete\<close>, \<open>BplusScan\<close>, \<open>BplusIndex\<close>, \<open>BplusDirty\<close>, \<open>BplusKeys\<close>, \<open>BplusContract\<close> (\<open>storage/index/bplus_tree.cpp\<close>): node layout and
    operations page by page, with parent and sibling links. \<open>bt_index\<close> relates the pages to the ascending list of entries through an ordered, balanced tree
    with half-full nodes; insertion, deletion, lookup and range scans implement the operations on the list. Recursions up and down the tree are shown to end
    because they follow the height of the represented tree. The nodes are the ones in the frames, and \<open>bt_dirty\<close> holds the frames that are marked dirty; \<open>bt_saved\<close> says that
    every clean frame agrees with the disk, so that evicting frames loses nothing. Insertion keeps it, deletion keeps it as long as no page is disposed of (\<open>BplusDirty\<close>).
    What the bounds of a scan mean is defined on the attributes of the entries, apart from the code that completes the keys (\<open>BplusKeys\<close>).
  \<^item> \<open>Value\<close> (\<open>sql/parser/value.cpp\<close>): typed values over a four-byte union, conversion, printing, comparison; IEEE arithmetic is the parameter \<open>IEEE\<close>.
  \<^item> \<open>TableMeta\<close> (\<open>storage/field\<close>, \<open>storage/table/table_meta.cpp\<close>, \<open>storage/index/index_meta.cpp\<close>): layout of a record, names of index fields.
  \<^item> \<open>TableIndex\<close> (\<open>storage/index/bplus_tree_index.cpp\<close>, \<open>index.cpp\<close>): keys of records, creation and opening of an index. The locale \<open>record_index\<close> is what a table
    relies on; it is interpreted on the B+ tree.
  \<^item> \<open>Table\<close>, \<open>TableContract\<close> (\<open>storage/table/table.cpp\<close>): \<open>make_record\<close>, nulls, long texts, insertion, deletion, visiting. \<open>tb_ok\<close> says that every index holds exactly
    the entries of the rows it does not skip and that unique keys are unique; insertion and deletion keep it on every path, errors included.
  \<^item> \<open>Clog\<close> (\<open>storage/clog/clog.cpp\<close>): log records as bytes, the buffer, the file, the iterator. \<open>clog_scan\<close> is the loop of the recovery over the log; its fuel bounds the
    calls of \<open>next\<close>, one more than the records is enough.
  \<^item> \<open>Mvcc\<close> (\<open>storage/trx/mvcc_trx.cpp\<close>, \<open>vacuous_trx.cpp\<close>, \<open>trx.cpp\<close>, \<open>CLogManager::recover\<close>): the kit, the transactions and recovery. The fuel of \<open>recover_loop\<close>
    bounds the calls of \<open>next\<close> and supplies the addresses of new transactions.
  \<^item> \<open>MvccContract\<close>, \<open>MvccSteps\<close>: \<open>mvcc_ok\<close> says that every mark in a row belongs to the one transaction whose operation set names it. \<open>mvcc_step\<close> is one call of one
    transaction; the invariant holds in all interleavings, commit and rollback replace exactly the marks of the transaction, and a snapshot does not change
    under a transaction.
  \<^item> \<open>Recovery\<close>: the meaning of a log (\<open>log_step\<close>). Every step of the running database appends the records that describe what it did to the rows and to the
    operation sets (\<open>mvcc_step_logged\<close>). \<open>mirrors\<close> relates a recovering database to the running one at the same record of the log; redoing a record keeps it (\<open>redo_record\<close>),
    and rolling back what is open gives \<open>recovery_restores\<close>: recovery ends and gives the rows of the run back. It assumes that the tables have the slots of the
    logged rows and no index: a redone insertion whose entry is in the index already fails.

  \<^bold>\<open>Bounds that the theorems assume\<close>

  Records are at most 4000 bytes, so that a page of 8192 bytes holds at least one. For deletion a leaf of an index holds at least four entries and an inner node six, as with keys of up
  to 1350 bytes.
  An insertion into an index needs free pages for the splits of one path (\<open>bi_room\<close>). Transaction numbers stay below \<open>max_trx_id\<close> and the log buffer has room
  (\<open>log_room\<close>, below \<open>CLOG_BUFFER_SIZE\<close>): the code asserts this.

  \<^bold>\<open>What the modelling showed\<close>

  The visibility test of \<open>MvccTrx::visit_record\<close> shows rows that are too new for the reader while another transaction deletes them, and rows that the reader itself has inserted
  and deleted (\<open>mvcc_visible_rows\<close>); a row inserted and deleted by one transaction keeps a mark for ever (\<open>mvcc_own_delete_leaks\<close>). Merging nodes of an index changes frames
  without marking them dirty, so that an eviction loses the change (\<open>btree_delete_refines\<close>, \<open>merge_loses_changes\<close>). A right bound of a scan that is shorter than the attribute lets through
  everything that begins with it, even when it is exclusive; \<open>test_chars\<close> of \<open>src/unittest/bplus_tree_test.cpp\<close> expects otherwise (\<open>btree_scan_range\<close>). A log that breaks off inside a record makes recovery fail (\<open>log_torn_tail\<close>), and recovery
  does not restore the counter of commit numbers and fails on a table whose index already has the entry of a logged row. \<open>RecordFileHandler::visit_record\<close> changes a page without marking it dirty, nullable fields that are all zero are taken for NULL, the
  bitmap searches skip bits from the middle of a byte, and \<open>compare_int\<close> overflows for distant operands (\<open>compare_int_wraps\<close>).

  \<^bold>\<open>Not modelled\<close>

  \<^item> The SQL layer (parser, resolver, optimizer, operators, executors, expressions): the lexer and the grammar are generated code, the rest is the client of the
    engine modelled here. Of it the values are modelled.
  \<^item> Creation, opening and dropping of tables and databases, and the JSON form of their metadata: directories, files and the JsonCpp library.
  \<^item> Threads. A call of a transaction is one atomic step; the latches are in the frames and in the page handlers, but the latch memo of the B+ tree and
    the mutexes are not, and so no claim is made about latch order or deadlock.
  \<^item> Network protocols, sessions, configuration, logging, metrics, the SEDA framework, the client, tests and benchmarks.
\<close>

end
